(* ===== verification/Prelude.thy ===== *)
theory Prelude
  imports Main "HOL-Library.Word" "HOL-Library.Monad_Syntax"
begin

unbundle bit_operations_syntax

text \<open>
  Shared vocabulary of the development: the C types of the target (x86_64 Linux, LP64,
  \<^verbatim>\<open>src/src/abi/types.rs\<close>), the memory a C caller hands to the library, the calling
  thread's \<^verbatim>\<open>errno\<close>, and the generic facts on bytes, C strings and checked integer
  conversions that every component uses.

  A pointer is an address (a natural number, \<open>0\<close> is the null pointer). Memory is a partial
  map: an access outside it is the value \<open>None\<close>, so a statement that a routine returns
  \<open>Some\<close> is also a statement that it never touches memory its caller did not provide.
\<close>

section \<open>Types of the target\<close>

type_synonym u8 = "8 word"
type_synonym u32 = "32 word"
type_synonym c_int = "32 word"
type_synonym c_long = "64 word"
type_synonym c_ulong = "64 word"
type_synonym addr = nat
type_synonym mem = "nat \<rightharpoonup> 8 word"

abbreviation (input) null :: addr where
  "null \<equiv> 0"

named_theorems mem_simps "equations for reading and writing the byte memory"
named_theorems int_conv "conversions between words and integers"

text \<open>\<^verbatim>\<open>usize::MAX\<close> and \<^verbatim>\<open>usize::saturating_add\<close>.\<close>

definition USIZE_MAX :: nat where "USIZE_MAX = 2 ^ 64 - 1"

definition saturating_add :: "nat \<Rightarrow> nat \<Rightarrow> nat" where
  "saturating_add a b = min (a + b) USIZE_MAX"

text \<open>\<^verbatim>\<open>usize::checked_add\<close>, \<^verbatim>\<open>checked_sub\<close> and \<^verbatim>\<open>checked_mul\<close>.\<close>

definition checked_add :: "nat \<Rightarrow> nat \<Rightarrow> nat option" where
  "checked_add a b = (if a + b \<le> USIZE_MAX then Some (a + b) else None)"

definition checked_sub :: "nat \<Rightarrow> nat \<Rightarrow> nat option" where
  "checked_sub a b = (if b \<le> a then Some (a - b) else None)"

definition checked_mul :: "nat \<Rightarrow> nat \<Rightarrow> nat option" where
  "checked_mul a b = (if a * b \<le> USIZE_MAX then Some (a * b) else None)"

text \<open>The part of the process state that every C entry point may touch.\<close>

record machine =
  bytes :: mem
  ptrs :: "addr \<rightharpoonup> addr"
  errno :: c_int

text \<open>\<^verbatim>\<open>set_errno\<close> of \<^verbatim>\<open>src/src/errno.rs\<close> writes the calling thread's cell.\<close>

definition set_errno :: "c_int \<Rightarrow> 'z machine_scheme \<Rightarrow> 'z machine_scheme" where
  "set_errno value s = s\<lparr>errno := value\<rparr>"

lemma set_errno_simps [simp]:
  "bytes (set_errno e s) = bytes s"
  "ptrs (set_errno e s) = ptrs s"
  "errno (set_errno e s) = e"
  "machine.more (set_errno e s) = machine.more s"
  by (simp_all add: set_errno_def)

text \<open>The constants of \<^verbatim>\<open>src/src/abi/errno.rs\<close> that the modelled code sets.\<close>

definition EPERM :: c_int where "EPERM = 1"
definition ENOENT :: c_int where "ENOENT = 2"
definition ESRCH :: c_int where "ESRCH = 3"
definition EAGAIN :: c_int where "EAGAIN = 11"
definition ENOMEM :: c_int where "ENOMEM = 12"
definition EACCES :: c_int where "EACCES = 13"
definition EFAULT :: c_int where "EFAULT = 14"
definition EBUSY :: c_int where "EBUSY = 16"
definition EINVAL :: c_int where "EINVAL = 22"
definition ERANGE :: c_int where "ERANGE = 34"
definition EDEADLK :: c_int where "EDEADLK = 35"
definition ENOSYS :: c_int where "ENOSYS = 38"
definition EOVERFLOW :: c_int where "EOVERFLOW = 75"
definition EILSEQ :: c_int where "EILSEQ = 84"
definition ETIMEDOUT :: c_int where "ETIMEDOUT = 110"

lemmas errno_defs = EPERM_def ENOENT_def ESRCH_def EAGAIN_def ENOMEM_def EACCES_def EFAULT_def
  EBUSY_def EINVAL_def ERANGE_def EDEADLK_def ENOSYS_def EOVERFLOW_def EILSEQ_def ETIMEDOUT_def

section \<open>Finite case distinction on bytes\<close>

lemma unat_u8_less [simp]: "unat (b :: u8) < 256"
  using unsigned_less [of b] by simp

lemma uint_u8_bounds: "0 \<le> uint (b :: u8)" "uint (b :: u8) < 256"
  using unsigned_less [of b] by simp_all

lemma u8_cases_upto:
  assumes "list_all (\<lambda>n. P (word_of_nat n)) [lo..<hi]" "int lo \<le> uint b" "uint b < int hi"
  shows "P (b :: u8)"
proof -
  have "uint b = int (unat b)" by simp
  then have "lo \<le> unat b \<and> unat b < hi"
    using assms(2,3) by linarith
  then have "unat b \<in> set [lo..<hi]" by simp
  moreover have "\<forall>n \<in> set [lo..<hi]. P (word_of_nat n)"
    using assms(1) by (simp only: list_all_iff)
  ultimately have "P (word_of_nat (unat b))" by blast
  then show ?thesis by simp
qed

lemmas to_uint = word_uint_eq_iff word_le_def word_less_def

lemma less_small: "k < (2::nat) \<longleftrightarrow> k = 0 \<or> k = 1" "k < (3::nat) \<longleftrightarrow> k = 0 \<or> k = 1 \<or> k = 2"
  "k < (4::nat) \<longleftrightarrow> k = 0 \<or> k = 1 \<or> k = 2 \<or> k = 3"
  by auto

section \<open>Memory access\<close>

text \<open>A write goes through only where the memory is mapped.\<close>

definition write_u8 :: "mem \<Rightarrow> addr \<Rightarrow> u8 \<Rightarrow> mem option" where
  "write_u8 m p b = (if m p = None then None else Some (m(p \<mapsto> b)))"

lemma write_u8_mapped [mem_simps]: "m p = Some c \<Longrightarrow> write_u8 m p b = Some (m(p \<mapsto> b))"
  by (simp add: write_u8_def)

definition write_ptr :: "addr \<Rightarrow> addr \<Rightarrow> 'z machine_scheme \<Rightarrow> 'z machine_scheme option" where
  "write_ptr p v s = (if ptrs s p = None then None else Some (s\<lparr>ptrs := (ptrs s)(p \<mapsto> v)\<rparr>))"

lemma write_ptr_mapped [mem_simps]:
  "ptrs s p = Some c \<Longrightarrow> write_ptr p v s = Some (s\<lparr>ptrs := (ptrs s)(p \<mapsto> v)\<rparr>)"
  by (simp add: write_ptr_def)

text \<open>\<open>mapped m p n\<close>: the \<open>n\<close> bytes from \<open>p\<close> on belong to the caller's memory.\<close>

definition mapped :: "mem \<Rightarrow> addr \<Rightarrow> nat \<Rightarrow> bool" where
  "mapped m p n \<longleftrightarrow> (\<forall>i<n. m (p + i) \<noteq> None)"

lemma mapped_less: "mapped m p n \<Longrightarrow> i < n \<Longrightarrow> \<exists>b. m (p + i) = Some b"
  by (auto simp: mapped_def)

lemma mapped_mono: "mapped m p n \<Longrightarrow> k \<le> n \<Longrightarrow> mapped m p k"
  by (auto simp: mapped_def)

lemma mapped_upd: "mapped m p n \<Longrightarrow> mapped (m(q \<mapsto> b)) p n"
  by (auto simp: mapped_def)

text \<open>\<open>bytes_at m p bs\<close>: the bytes \<open>bs\<close> are stored from \<open>p\<close> on.\<close>

primrec bytes_at :: "mem \<Rightarrow> addr \<Rightarrow> u8 list \<Rightarrow> bool" where
  "bytes_at m p [] = True"
| "bytes_at m p (b # bs) = (m p = Some b \<and> bytes_at m (Suc p) bs)"

lemma bytes_at_append [simp]:
  "bytes_at m p (xs @ ys) = (bytes_at m p xs \<and> bytes_at m (p + length xs) ys)"
  by (induction xs arbitrary: p) auto

lemma bytes_at_nth: "bytes_at m p bs \<Longrightarrow> i < length bs \<Longrightarrow> m (p + i) = Some (bs ! i)"
proof (induction bs arbitrary: p i)
  case (Cons b bs)
  then show ?case by (cases i) fastforce+
qed simp

lemma bytes_at_iff: "bytes_at m p bs \<longleftrightarrow> (\<forall>i<length bs. m (p + i) = Some (bs ! i))"
proof
  assume "\<forall>i<length bs. m (p + i) = Some (bs ! i)"
  then show "bytes_at m p bs"
  proof (induction bs arbitrary: p)
    case (Cons b bs)
    from Cons.prems have "m p = Some b" by force
    moreover have "\<forall>i<length bs. m (Suc p + i) = Some (bs ! i)"
      using Cons.prems by force
    ultimately show ?case using Cons.IH by simp
  qed simp
qed (blast intro: bytes_at_nth)

lemma bytes_at_mapped: "bytes_at m p bs \<Longrightarrow> mapped m p (length bs)"
  by (auto simp: bytes_at_iff mapped_def)

lemma bytes_at_cong: "(\<And>i. i < length bs \<Longrightarrow> m (p + i) = m' (p + i)) \<Longrightarrow>
    bytes_at m p bs = bytes_at m' p bs"
  by (simp add: bytes_at_iff)

text \<open>Storing a list of bytes.\<close>

primrec store_bytes :: "mem \<Rightarrow> addr \<Rightarrow> u8 list \<Rightarrow> mem" where
  "store_bytes m p [] = m"
| "store_bytes m p (b # bs) = store_bytes (m(p \<mapsto> b)) (Suc p) bs"

lemma store_bytes_append: "store_bytes m p (xs @ ys) = store_bytes (store_bytes m p xs) (p + length xs) ys"
  by (induction xs arbitrary: m p) simp_all

lemma store_bytes_other: "q < p \<or> p + length bs \<le> q \<Longrightarrow> store_bytes m p bs q = m q"
  by (induction bs arbitrary: m p) auto

lemma store_bytes_dom: "m q \<noteq> None \<Longrightarrow> store_bytes m p bs q \<noteq> None"
  by (induction bs arbitrary: m p) auto

lemma mapped_store_bytes: "mapped m p n \<Longrightarrow> mapped (store_bytes m q bs) p n"
  using store_bytes_dom by (fastforce simp: mapped_def)

lemma bytes_at_store_bytes: "bytes_at (store_bytes m p bs) p bs"
proof (induction bs arbitrary: m p)
  case (Cons b bs)
  then show ?case using store_bytes_other [of p "Suc p" bs "m(p \<mapsto> b)"] by simp
qed simp

section \<open>C strings\<close>

text \<open>A C string at \<open>p\<close> with contents \<open>bs\<close>: the contents hold no NUL byte and one follows.\<close>

definition cstr :: "mem \<Rightarrow> addr \<Rightarrow> u8 list \<Rightarrow> bool" where
  "cstr m p bs \<longleftrightarrow> bytes_at m p (bs @ [0]) \<and> 0 \<notin> set bs"

lemma cstr_Nil [simp]: "cstr m p [] \<longleftrightarrow> m p = Some 0"
  by (simp add: cstr_def)

lemma cstr_Cons [simp]: "cstr m p (b # bs) \<longleftrightarrow> m p = Some b \<and> b \<noteq> 0 \<and> cstr m (Suc p) bs"
  by (auto simp: cstr_def)

lemma cstr_append: "cstr m p (xs @ ys) \<longleftrightarrow> bytes_at m p xs \<and> 0 \<notin> set xs \<and> cstr m (p + length xs) ys"
  by (auto simp: cstr_def add.assoc)

lemma cstr_head: "cstr m p bs \<Longrightarrow> m p = Some (case bs of [] \<Rightarrow> 0 | b # _ \<Rightarrow> b)"
  by (cases bs) simp_all

lemma cstr_drop: "cstr m p bs \<Longrightarrow> n \<le> length bs \<Longrightarrow> cstr m (p + n) (drop n bs)"
  using cstr_append [of m p "take n bs" "drop n bs"] by simp

text \<open>
  \<^verbatim>\<open>CStr::from_ptr(p).to_bytes()\<close>: the bytes up to the first NUL. The scan is a loop
  without a bound in the source, so not reaching a NUL inside the memory is \<open>None\<close>.
\<close>

partial_function (option) cstr_bytes :: "mem \<Rightarrow> addr \<Rightarrow> u8 list option" where
  "cstr_bytes m p = do {
     b \<leftarrow> m p;
     if b = 0 then Some [] else do { bs \<leftarrow> cstr_bytes m (Suc p); Some (b # bs) } }"

lemma cstr_bytes_cstr [mem_simps]: "cstr m p bs \<Longrightarrow> cstr_bytes m p = Some bs"
  by (induction bs arbitrary: p) (simp_all add: cstr_bytes.simps)

section \<open>Checked conversions\<close>

text \<open>\<^verbatim>\<open>c_int::try_from\<close> and \<^verbatim>\<open>c_long::try_from\<close> on a wider integer.\<close>

definition try_i32 :: "int \<Rightarrow> c_int option" where
  "try_i32 x = (if - (2 ^ 31) \<le> x \<and> x < 2 ^ 31 then Some (word_of_int x) else None)"

definition try_i64 :: "int \<Rightarrow> c_long option" where
  "try_i64 x = (if - (2 ^ 63) \<le> x \<and> x < 2 ^ 63 then Some (word_of_int x) else None)"

lemma sint_eq_iff: "(a :: 'a :: len word) = b \<longleftrightarrow> sint a = sint b"
  using signed_word_eqI [of a b] by auto

lemma sint_word_of_int_i32 [int_conv]:
  "- (2 ^ 31) \<le> x \<Longrightarrow> x < 2 ^ 31 \<Longrightarrow> sint (word_of_int x :: 32 word) = x"
  by (simp add: signed_of_int signed_take_bit_int_eq_self)

lemma sint_word_of_int_i64 [int_conv]:
  "- (2 ^ 63) \<le> x \<Longrightarrow> x < 2 ^ 63 \<Longrightarrow> sint (word_of_int x :: 64 word) = x"
  by (simp add: signed_of_int signed_take_bit_int_eq_self)

lemma sint_ucast_i32 [int_conv]: "sint (ucast (b :: u8) :: 32 word) = uint b"
proof -
  have "- (2 ^ 31) \<le> (0 :: int)" "(256 :: int) \<le> 2 ^ 31" by simp_all
  then have "sint (word_of_int (uint b) :: 32 word) = uint b"
    using uint_u8_bounds [of b] by (intro sint_word_of_int_i32) linarith+
  then show ?thesis by simp
qed

lemma uint_scast_u8 [int_conv]: "0 \<le> sint c \<Longrightarrow> sint c < 256 \<Longrightarrow> uint (scast c :: u8) = sint (c :: 32 word)"
  by (subst of_int_sint [symmetric]) (simp add: unsigned_of_int take_bit_eq_mod del: of_int_sint)

lemma sint_i32_bounds: "- (2 ^ 31) \<le> sint (w :: 32 word)" "sint (w :: 32 word) < 2 ^ 31"
  using sint_greater_eq [of w] sint_lt [of w] by simp_all

lemma sint_i64_bounds: "- (2 ^ 63) \<le> sint (w :: 64 word)" "sint (w :: 64 word) < 2 ^ 63"
  using sint_greater_eq [of w] sint_lt [of w] by simp_all

lemma try_i32_Some: "try_i32 x = Some w \<longleftrightarrow> - (2 ^ 31) \<le> x \<and> x < 2 ^ 31 \<and> sint w = x"
  by (auto simp: try_i32_def int_conv)

lemma try_i64_Some: "try_i64 x = Some w \<longleftrightarrow> - (2 ^ 63) \<le> x \<and> x < 2 ^ 63 \<and> sint w = x"
  by (auto simp: try_i64_def int_conv)

lemma try_i32_sint [simp]: "try_i32 (sint w) = Some w"
  using sint_i32_bounds [of w] by (simp add: try_i32_def)

lemma try_i64_sint [simp]: "try_i64 (sint w) = Some w"
  using sint_i64_bounds [of w] by (simp add: try_i64_def)

section \<open>Bit fields as arithmetic\<close>

lemma int_push_bit_or: "0 \<le> y \<Longrightarrow> y < 2 ^ n \<Longrightarrow> (push_bit n x OR y :: int) = x * 2 ^ n + y"
proof -
  assume "0 \<le> y" "y < 2 ^ n"
  then have y: "y = take_bit n y" by (simp add: take_bit_int_eq_self)
  have "push_bit n x AND take_bit n y = 0"
    by (rule bit_eqI) (simp add: bit_and_iff bit_push_bit_iff bit_take_bit_iff)
  then have "push_bit n x AND y = 0" using y by simp
  then have "push_bit n x + y = push_bit n x OR y" by (rule disjunctive_add_eq_or)
  then show ?thesis by (simp add: push_bit_eq_mult)
qed

lemma uint_push_bit_or:
  assumes "uint a * 2 ^ n < 2 ^ LENGTH('a)" "uint b < 2 ^ n"
  shows "uint (push_bit n a OR b :: 'a :: len word) = uint a * 2 ^ n + uint b"
proof -
  have "uint (push_bit n a) = take_bit LENGTH('a) (push_bit n (uint a))"
    by (rule unsigned_push_bit_eq)
  also have "\<dots> = push_bit n (uint a)"
    using assms(1) by (intro take_bit_int_eq_self) (simp_all add: push_bit_eq_mult)
  finally show ?thesis
    using int_push_bit_or [of "uint b" n "uint a"] assms(2) by (simp only: unsigned_or_eq) simp
qed

lemma int_and_mask: "(x :: int) AND 0x3F = x mod 64" "x AND 0x1F = x mod 32"
    "x AND 0x0F = x mod 16" "x AND 0x07 = x mod 8"
  using take_bit_eq_mask [of 6 x] take_bit_eq_mask [of 5 x] take_bit_eq_mask [of 4 x]
    take_bit_eq_mask [of 3 x]
  by (simp_all add: take_bit_eq_mod mask_eq_exp_minus_1)

lemma uint_and_mask [int_conv]:
  "uint ((b :: u8) AND 0x3F) = uint b mod 64" "uint (b AND 0x1F) = uint b mod 32"
  "uint (b AND 0x0F) = uint b mod 16" "uint (b AND 0x07) = uint b mod 8"
  "uint ((w :: u32) AND 0x3F) = uint w mod 64" "uint (w AND 0x1F) = uint w mod 32"
  "uint (w AND 0x0F) = uint w mod 16" "uint (w AND 0x07) = uint w mod 8"
  by (simp_all add: unsigned_and_eq int_and_mask)

lemma uint_ucast_up [int_conv]: "uint (ucast (b :: u8) :: u32) = uint b"
  using uint_u8_bounds [of b] by (simp add: unsigned_ucast_eq take_bit_int_eq_self)

lemma uint_ucast_down [int_conv]: "uint (w :: u32) < 256 \<Longrightarrow> uint (ucast w :: u8) = uint w"
  by (simp add: unsigned_ucast_eq take_bit_int_eq_self)

lemma uint_drop_bit [int_conv]: "uint (drop_bit n w) = uint w div 2 ^ n"
  by (simp only: unsigned_drop_bit_eq) (simp add: drop_bit_eq_div take_bit_int_eq_self)

lemma uint_eq_sint: "0 \<le> sint (w :: 32 word) \<Longrightarrow> uint w = sint w"
  using sint_i32_bounds [of w] by (simp add: uint_sint take_bit_int_eq_self)

end
