(* ===== verification/Ctype.thy ===== *)
theory Ctype
  imports Prelude
begin

text \<open>
  The ASCII \<^verbatim>\<open>ctype\<close> primitives of \<^verbatim>\<open>src/src/ctype.rs\<close>: the byte predicates of the C
  locale, the two ways the exported functions lift them to an \<^verbatim>\<open>int\<close> argument, and the
  exported functions. The lemmas reduce every predicate to a range of \<open>unat\<close>, from which
  the algebra of the character classes and of the case mappings follows.
\<close>

section \<open>Argument handling\<close>

definition ASCII_7BIT_MAX :: c_int where
  "ASCII_7BIT_MAX = 0x7F"

definition as_ascii_byte :: "c_int \<Rightarrow> u8 option" where
  "as_ascii_byte c =
     (if 0 \<le> sint c \<and> sint c \<le> 255 then Some (word_of_int (sint c)) else None)"

definition classify_ascii :: "c_int \<Rightarrow> (u8 \<Rightarrow> bool) \<Rightarrow> c_int" where
  "classify_ascii c predicate =
     (case as_ascii_byte c of None \<Rightarrow> 0 | Some byte \<Rightarrow> of_bool (predicate byte))"

definition map_ascii :: "c_int \<Rightarrow> (u8 \<Rightarrow> u8) \<Rightarrow> c_int" where
  "map_ascii c f = (case as_ascii_byte c of None \<Rightarrow> c | Some byte \<Rightarrow> ucast (f byte))"

definition is_ascii7bit_int :: "c_int \<Rightarrow> bool" where
  "is_ascii7bit_int c \<longleftrightarrow> 0 \<le> sint c \<and> sint c \<le> sint ASCII_7BIT_MAX"

definition project_ascii7bit :: "c_int \<Rightarrow> c_int" where
  "project_ascii7bit c = c AND ASCII_7BIT_MAX"

section \<open>Byte predicates of the C locale\<close>

definition is_in_ascii_range :: "u8 \<Rightarrow> u8 \<Rightarrow> u8 \<Rightarrow> bool" where
  "is_in_ascii_range byte lo hi \<longleftrightarrow> byte \<ge> lo \<and> byte \<le> hi"

definition is_c_locale_space :: "u8 \<Rightarrow> bool" where
  "is_c_locale_space byte \<longleftrightarrow> byte \<in> {0x20, 0x09, 0x0A, 0x0B, 0x0C, 0x0D}"

definition is_c_locale_blank :: "u8 \<Rightarrow> bool" where
  "is_c_locale_blank byte \<longleftrightarrow> byte \<in> {0x20, 0x09}"

definition is_c_locale_print :: "u8 \<Rightarrow> bool" where
  "is_c_locale_print byte = is_in_ascii_range byte 0x20 0x7E"

definition is_c_locale_graph :: "u8 \<Rightarrow> bool" where
  "is_c_locale_graph byte = is_in_ascii_range byte 0x21 0x7E"

definition is_c_locale_cntrl :: "u8 \<Rightarrow> bool" where
  "is_c_locale_cntrl byte \<longleftrightarrow> byte \<le> 0x1F \<or> byte = 0x7F"

definition is_c_locale_digit :: "u8 \<Rightarrow> bool" where
  "is_c_locale_digit byte = is_in_ascii_range byte 0x30 0x39"

definition is_c_locale_lower :: "u8 \<Rightarrow> bool" where
  "is_c_locale_lower byte = is_in_ascii_range byte 0x61 0x7A"

definition is_c_locale_upper :: "u8 \<Rightarrow> bool" where
  "is_c_locale_upper byte = is_in_ascii_range byte 0x41 0x5A"

definition is_c_locale_alpha :: "u8 \<Rightarrow> bool" where
  "is_c_locale_alpha byte \<longleftrightarrow> is_c_locale_lower byte \<or> is_c_locale_upper byte"

definition is_c_locale_alnum :: "u8 \<Rightarrow> bool" where
  "is_c_locale_alnum byte \<longleftrightarrow> is_c_locale_alpha byte \<or> is_c_locale_digit byte"

definition is_c_locale_hex_upper :: "u8 \<Rightarrow> bool" where
  "is_c_locale_hex_upper byte = is_in_ascii_range byte 0x41 0x46"

definition is_c_locale_hex_lower :: "u8 \<Rightarrow> bool" where
  "is_c_locale_hex_lower byte = is_in_ascii_range byte 0x61 0x66"

definition is_c_locale_xdigit :: "u8 \<Rightarrow> bool" where
  "is_c_locale_xdigit byte \<longleftrightarrow>
     is_c_locale_digit byte \<or> is_c_locale_hex_upper byte \<or> is_c_locale_hex_lower byte"

definition is_c_locale_punct :: "u8 \<Rightarrow> bool" where
  "is_c_locale_punct byte \<longleftrightarrow>
     is_in_ascii_range byte 0x21 0x2F \<or> is_in_ascii_range byte 0x3A 0x40 \<or>
     is_in_ascii_range byte 0x5B 0x60 \<or> is_in_ascii_range byte 0x7B 0x7E"

text \<open>
  The standard library's \<^verbatim>\<open>u8::to_ascii_lowercase\<close> sets the case bit of an upper-case
  letter, \<^verbatim>\<open>u8::to_ascii_uppercase\<close> flips it for a lower-case one.
\<close>

definition to_c_locale_lower :: "u8 \<Rightarrow> u8" where
  "to_c_locale_lower byte = (if 0x41 \<le> byte \<and> byte \<le> 0x5A then byte OR 0x20 else byte)"

definition to_c_locale_upper :: "u8 \<Rightarrow> u8" where
  "to_c_locale_upper byte = (if 0x61 \<le> byte \<and> byte \<le> 0x7A then byte XOR 0x20 else byte)"

section \<open>Exported functions\<close>

definition isalpha :: "c_int \<Rightarrow> c_int" where
  "isalpha c = classify_ascii c is_c_locale_alpha"

definition isdigit :: "c_int \<Rightarrow> c_int" where
  "isdigit c = classify_ascii c is_c_locale_digit"

definition isalnum :: "c_int \<Rightarrow> c_int" where
  "isalnum c = classify_ascii c is_c_locale_alnum"

definition islower :: "c_int \<Rightarrow> c_int" where
  "islower c = classify_ascii c is_c_locale_lower"

definition isupper :: "c_int \<Rightarrow> c_int" where
  "isupper c = classify_ascii c is_c_locale_upper"

definition isxdigit :: "c_int \<Rightarrow> c_int" where
  "isxdigit c = classify_ascii c is_c_locale_xdigit"

definition isblank :: "c_int \<Rightarrow> c_int" where
  "isblank c = classify_ascii c is_c_locale_blank"

definition isspace :: "c_int \<Rightarrow> c_int" where
  "isspace c = classify_ascii c is_c_locale_space"

definition iscntrl :: "c_int \<Rightarrow> c_int" where
  "iscntrl c = classify_ascii c is_c_locale_cntrl"

definition isprint :: "c_int \<Rightarrow> c_int" where
  "isprint c = classify_ascii c is_c_locale_print"

definition isgraph :: "c_int \<Rightarrow> c_int" where
  "isgraph c = classify_ascii c is_c_locale_graph"

definition ispunct :: "c_int \<Rightarrow> c_int" where
  "ispunct c = classify_ascii c is_c_locale_punct"

definition isascii :: "c_int \<Rightarrow> c_int" where
  "isascii c = (if is_ascii7bit_int c then 1 else 0)"

definition toascii :: "c_int \<Rightarrow> c_int" where
  "toascii c = project_ascii7bit c"

definition tolower :: "c_int \<Rightarrow> c_int" where
  "tolower c = map_ascii c to_c_locale_lower"

definition toupper :: "c_int \<Rightarrow> c_int" where
  "toupper c = map_ascii c to_c_locale_upper"

section \<open>Reduction to integer ranges\<close>

lemmas is_fun_defs = isalpha_def isdigit_def isalnum_def islower_def isupper_def isxdigit_def
  isblank_def isspace_def iscntrl_def isprint_def isgraph_def ispunct_def

lemmas byte_class_defs = is_in_ascii_range_def is_c_locale_print_def is_c_locale_graph_def
  is_c_locale_cntrl_def is_c_locale_digit_def is_c_locale_lower_def is_c_locale_upper_def
  is_c_locale_alpha_def is_c_locale_alnum_def is_c_locale_hex_upper_def
  is_c_locale_hex_lower_def is_c_locale_xdigit_def is_c_locale_punct_def
  is_c_locale_space_def is_c_locale_blank_def

lemma as_ascii_byte_Some: "as_ascii_byte c = Some b \<longleftrightarrow> sint c = uint b"
proof
  assume "as_ascii_byte c = Some b"
  then have "0 \<le> sint c" "sint c < 256" "b = word_of_int (sint c)"
    by (auto simp: as_ascii_byte_def simp del: of_int_sint split: if_splits)
  then show "sint c = uint b"
    by (simp add: unsigned_of_int take_bit_eq_mod del: of_int_sint)
next
  assume *: "sint c = uint b"
  then have "sint c \<le> 255" using uint_u8_bounds(2) [of b] by linarith
  with * show "as_ascii_byte c = Some b"
    by (simp add: as_ascii_byte_def del: of_int_sint)
qed

lemma as_ascii_byte_None: "as_ascii_byte c = None \<longleftrightarrow> sint c < 0 \<or> 255 < sint c"
  by (auto simp: as_ascii_byte_def)

lemma classify_ascii_iff:
  "classify_ascii c P \<noteq> 0 \<longleftrightarrow> 0 \<le> sint c \<and> sint c < 256 \<and> P (scast c)"
  by (auto simp: classify_ascii_def as_ascii_byte_def)

text \<open>Every class is a range of argument values.\<close>

lemma isclass_iff [int_conv]:
  "isupper c \<noteq> 0 \<longleftrightarrow> 65 \<le> sint c \<and> sint c \<le> 90"
  "islower c \<noteq> 0 \<longleftrightarrow> 97 \<le> sint c \<and> sint c \<le> 122"
  "isdigit c \<noteq> 0 \<longleftrightarrow> 48 \<le> sint c \<and> sint c \<le> 57"
  "isalpha c \<noteq> 0 \<longleftrightarrow> (65 \<le> sint c \<and> sint c \<le> 90) \<or> (97 \<le> sint c \<and> sint c \<le> 122)"
  "isalnum c \<noteq> 0 \<longleftrightarrow> (48 \<le> sint c \<and> sint c \<le> 57) \<or> (65 \<le> sint c \<and> sint c \<le> 90) \<or>
     (97 \<le> sint c \<and> sint c \<le> 122)"
  "isxdigit c \<noteq> 0 \<longleftrightarrow> (48 \<le> sint c \<and> sint c \<le> 57) \<or> (65 \<le> sint c \<and> sint c \<le> 70) \<or>
     (97 \<le> sint c \<and> sint c \<le> 102)"
  "ispunct c \<noteq> 0 \<longleftrightarrow> (33 \<le> sint c \<and> sint c \<le> 47) \<or> (58 \<le> sint c \<and> sint c \<le> 64) \<or>
     (91 \<le> sint c \<and> sint c \<le> 96) \<or> (123 \<le> sint c \<and> sint c \<le> 126)"
  "isblank c \<noteq> 0 \<longleftrightarrow> sint c = 9 \<or> sint c = 32"
  "isspace c \<noteq> 0 \<longleftrightarrow> (9 \<le> sint c \<and> sint c \<le> 13) \<or> sint c = 32"
  "isprint c \<noteq> 0 \<longleftrightarrow> 32 \<le> sint c \<and> sint c \<le> 126"
  "isgraph c \<noteq> 0 \<longleftrightarrow> 33 \<le> sint c \<and> sint c \<le> 126"
  "iscntrl c \<noteq> 0 \<longleftrightarrow> (0 \<le> sint c \<and> sint c \<le> 31) \<or> sint c = 127"
  unfolding is_fun_defs classify_ascii_iff
  by (auto simp: byte_class_defs to_uint int_conv)

lemma isascii_iff [int_conv]: "isascii c \<noteq> 0 \<longleftrightarrow> 0 \<le> sint c \<and> sint c \<le> 127"
  by (simp add: isascii_def is_ascii7bit_int_def ASCII_7BIT_MAX_def)

lemma case_byte:
  "uint (to_c_locale_lower b) = (if 65 \<le> uint b \<and> uint b \<le> 90 then uint b + 32 else uint b)"
  "uint (to_c_locale_upper b) = (if 97 \<le> uint b \<and> uint b \<le> 122 then uint b - 32 else uint b)"
proof -
  have "b OR 0x20 = b + 0x20" if "65 \<le> uint b" "uint b \<le> 90"
    by (rule u8_cases_upto [where lo = 65 and hi = 91]) (use that in \<open>simp_all add: upt_rec\<close>)
  then show "uint (to_c_locale_lower b) = (if 65 \<le> uint b \<and> uint b \<le> 90 then uint b + 32 else uint b)"
    by (auto simp: to_c_locale_lower_def word_le_def uint_plus_if')
next
  have "b XOR 0x20 = b - 0x20" if "97 \<le> uint b" "uint b \<le> 122"
    by (rule u8_cases_upto [where lo = 97 and hi = 123]) (use that in \<open>simp_all add: upt_rec\<close>)
  then show "uint (to_c_locale_upper b) = (if 97 \<le> uint b \<and> uint b \<le> 122 then uint b - 32 else uint b)"
    by (auto simp: to_c_locale_upper_def word_le_def uint_sub_if')
qed

lemma map_ascii_sint:
  "sint (map_ascii c f) = (if 0 \<le> sint c \<and> sint c < 256 then uint (f (scast c)) else sint c)"
  by (auto simp: map_ascii_def as_ascii_byte_def int_conv)

lemma tolower_sint [int_conv]:
  "sint (tolower c) = (if 65 \<le> sint c \<and> sint c \<le> 90 then sint c + 32 else sint c)"
  by (auto simp: tolower_def map_ascii_sint case_byte int_conv)

lemma toupper_sint [int_conv]:
  "sint (toupper c) = (if 97 \<le> sint c \<and> sint c \<le> 122 then sint c - 32 else sint c)"
  by (auto simp: toupper_def map_ascii_sint case_byte int_conv)

section \<open>Properties\<close>

text \<open>
  For every \<^verbatim>\<open>int\<close> argument, in and out of the byte domain, the character classes form
  the algebra of the C locale: letters are the disjoint union of upper and lower case, the
  graphic characters are the disjoint union of the alphanumeric and the punctuation
  characters, the printing ones are these and the space, and the 7-bit characters are the
  disjoint union of the printing and the control characters.
\<close>

theorem ctype_class_algebra:
  "(isalpha c = 0 \<longleftrightarrow> isupper c = 0 \<and> islower c = 0) \<and>
   \<not> (isupper c \<noteq> 0 \<and> islower c \<noteq> 0) \<and>
   (isalnum c = 0 \<longleftrightarrow> isalpha c = 0 \<and> isdigit c = 0) \<and>
   \<not> (isalpha c \<noteq> 0 \<and> isdigit c \<noteq> 0) \<and>
   (isgraph c = 0 \<longleftrightarrow> isalnum c = 0 \<and> ispunct c = 0) \<and>
   \<not> (isalnum c \<noteq> 0 \<and> ispunct c \<noteq> 0) \<and>
   (isprint c = 0 \<longleftrightarrow> isgraph c = 0 \<and> sint c \<noteq> 32) \<and>
   (isascii c = 0 \<longleftrightarrow> isprint c = 0 \<and> iscntrl c = 0) \<and>
   \<not> (isprint c \<noteq> 0 \<and> iscntrl c \<noteq> 0)"
proof -
  define x where "x = sint c"
  note zero = isclass_iff [of c, THEN arg_cong [where f = Not], folded x_def, unfolded not_not]
    isascii_iff [of c, THEN arg_cong [where f = Not], folded x_def, unfolded not_not]
  show ?thesis unfolding zero x_def [symmetric] by auto
qed

text \<open>
  The case mappings: \<^verbatim>\<open>toupper\<close> and \<^verbatim>\<open>tolower\<close> shift exactly the letters of the other
  case by 32 and keep every other \<^verbatim>\<open>int\<close> (\<^verbatim>\<open>EOF\<close> and out-of-domain values included); each
  undoes the other on the letters it produced.
\<close>

theorem ctype_case_mapping:
  "sint (tolower c) = (if isupper c \<noteq> 0 then sint c + 32 else sint c) \<and>
   sint (toupper c) = (if islower c \<noteq> 0 then sint c - 32 else sint c) \<and>
   toupper (tolower c) = toupper c \<and> tolower (toupper c) = tolower c \<and>
   (isalpha (tolower c) \<noteq> 0 \<longleftrightarrow> isalpha c \<noteq> 0) \<and> isupper (tolower c) = 0"
proof -
  have "isupper (tolower c) = 0"
    using isclass_iff(1) [of "tolower c"] by (auto simp: tolower_sint split: if_splits)
  moreover have "toupper (tolower c) = toupper c"
    by (simp add: sint_eq_iff tolower_sint toupper_sint)
  moreover have "tolower (toupper c) = tolower c"
    by (simp add: sint_eq_iff tolower_sint toupper_sint)
  ultimately show ?thesis unfolding isclass_iff tolower_sint toupper_sint by auto
qed

end
