(* ===== verification/Memory.thy ===== *)
theory Memory
  imports Prelude
begin

text \<open>
  The byte-block primitives of \<^verbatim>\<open>src/src/memory/mod.rs\<close> and the length functions of
  \<^verbatim>\<open>src/src/string/mod.rs\<close>. Every loop of the source is one recursive function over the
  memory; a read or write outside the memory is \<open>None\<close>. The lemmas give, for each loop, the
  state it is in after any number of iterations, and from these what the exported functions
  compute, for overlapping blocks too.
\<close>

section \<open>Byte loops\<close>

function fill_loop :: "mem \<Rightarrow> addr \<Rightarrow> u8 \<Rightarrow> nat \<Rightarrow> nat \<Rightarrow> mem option" where
  "fill_loop m p byte len idx =
     (if idx < len then do { m \<leftarrow> write_u8 m (p + idx) byte; fill_loop m p byte len (idx + 1) }
      else Some m)"
  by pat_completeness auto
termination by (relation "measure (\<lambda>(m, p, byte, len, idx). len - idx)") auto

definition fill_bytes :: "mem \<Rightarrow> addr \<Rightarrow> u8 \<Rightarrow> nat \<Rightarrow> mem option" where
  "fill_bytes m p byte len = fill_loop m p byte len 0"

function copy_forward_loop :: "mem \<Rightarrow> addr \<Rightarrow> addr \<Rightarrow> nat \<Rightarrow> nat \<Rightarrow> mem option" where
  "copy_forward_loop m dst src len idx =
     (if idx < len then do {
        b \<leftarrow> m (src + idx);
        m \<leftarrow> write_u8 m (dst + idx) b;
        copy_forward_loop m dst src len (idx + 1) }
      else Some m)"
  by pat_completeness auto
termination by (relation "measure (\<lambda>(m, dst, src, len, idx). len - idx)") auto

definition copy_bytes_forward :: "mem \<Rightarrow> addr \<Rightarrow> addr \<Rightarrow> nat \<Rightarrow> mem option" where
  "copy_bytes_forward m dst src len = copy_forward_loop m dst src len 0"

text \<open>\<open>remaining\<close> counts down; the byte copied is the one below it.\<close>

fun copy_bytes_backward :: "mem \<Rightarrow> addr \<Rightarrow> addr \<Rightarrow> nat \<Rightarrow> mem option" where
  "copy_bytes_backward m dst src 0 = Some m"
| "copy_bytes_backward m dst src (Suc idx) = do {
     b \<leftarrow> m (src + idx);
     m \<leftarrow> write_u8 m (dst + idx) b;
     copy_bytes_backward m dst src idx }"

declare fill_loop.simps [simp del] copy_forward_loop.simps [simp del]

section \<open>Exported functions\<close>

definition memmove :: "addr \<Rightarrow> addr \<Rightarrow> nat \<Rightarrow> mem \<Rightarrow> (addr \<times> mem) option" where
  "memmove dst src n m =
     (if n = 0 \<or> dst = src then Some (dst, m)
      else if dst \<le> src \<or> dst - src \<ge> n
      then do { m \<leftarrow> copy_bytes_forward m dst src n; Some (dst, m) }
      else do { m \<leftarrow> copy_bytes_backward m dst src n; Some (dst, m) })"

definition memcpy :: "addr \<Rightarrow> addr \<Rightarrow> nat \<Rightarrow> mem \<Rightarrow> (addr \<times> mem) option" where
  "memcpy dst src n m = memmove dst src n m"

text \<open>\<^verbatim>\<open>c.to_le_bytes()[0]\<close> is the low byte of the argument.\<close>

definition memset :: "addr \<Rightarrow> c_int \<Rightarrow> nat \<Rightarrow> mem \<Rightarrow> (addr \<times> mem) option" where
  "memset s c n m =
     (if n = 0 then Some (s, m)
      else do { m \<leftarrow> fill_bytes m s (ucast c) n; Some (s, m) })"

function memcmp_loop :: "mem \<Rightarrow> addr \<Rightarrow> addr \<Rightarrow> nat \<Rightarrow> nat \<Rightarrow> c_int option" where
  "memcmp_loop m left right len idx =
     (if idx < len then do {
        left_byte \<leftarrow> m (left + idx);
        right_byte \<leftarrow> m (right + idx);
        if left_byte \<noteq> right_byte then Some (ucast left_byte - ucast right_byte)
        else memcmp_loop m left right len (idx + 1) }
      else Some 0)"
  by pat_completeness auto
termination by (relation "measure (\<lambda>(m, left, right, len, idx). len - idx)") auto

declare memcmp_loop.simps [simp del]

definition memcmp :: "addr \<Rightarrow> addr \<Rightarrow> nat \<Rightarrow> mem \<Rightarrow> c_int option" where
  "memcmp left right n m = (if n = 0 then Some 0 else memcmp_loop m left right n 0)"

partial_function (option) strlen_loop :: "mem \<Rightarrow> addr \<Rightarrow> nat \<Rightarrow> nat option" where
  "strlen_loop m s len = do {
     b \<leftarrow> m (s + len);
     if b \<noteq> 0 then strlen_loop m s (len + 1) else Some len }"

definition strlen :: "addr \<Rightarrow> mem \<Rightarrow> nat option" where
  "strlen s m = strlen_loop m s 0"

function strnlen_loop :: "mem \<Rightarrow> addr \<Rightarrow> nat \<Rightarrow> nat \<Rightarrow> nat option" where
  "strnlen_loop m s n len =
     (if len < n then do {
        b \<leftarrow> m (s + len);
        if b \<noteq> 0 then strnlen_loop m s n (len + 1) else Some len }
      else Some len)"
  by pat_completeness auto
termination by (relation "measure (\<lambda>(m, s, n, len). n - len)") auto

declare strnlen_loop.simps [simp del]

definition strnlen :: "addr \<Rightarrow> nat \<Rightarrow> mem \<Rightarrow> nat option" where
  "strnlen s n m = (if n = 0 then Some 0 else strnlen_loop m s n 0)"

section \<open>What the loops compute\<close>

text \<open>The memory after a block copy: the bytes are those the source block held before it.\<close>

definition blit :: "mem \<Rightarrow> addr \<Rightarrow> addr \<Rightarrow> nat \<Rightarrow> nat \<Rightarrow> mem" where
  "blit m dst src lo hi =
     (\<lambda>a. if dst + lo \<le> a \<and> a < dst + hi then m (src + (a - dst)) else m a)"

lemma blit_empty [simp]: "blit m dst src n n = m"
  by (auto simp: blit_def fun_eq_iff)

lemma blit_same [simp]: "blit m p p lo hi = m"
  by (auto simp: blit_def fun_eq_iff)

lemma blit_snoc: "lo \<le> hi \<Longrightarrow> m (src + hi) = Some b \<Longrightarrow>
    (blit m dst src lo hi)(dst + hi \<mapsto> b) = blit m dst src lo (Suc hi)"
  by (auto simp: blit_def fun_eq_iff)

lemma blit_Cons: "lo < hi \<Longrightarrow> m (src + lo) = Some b \<Longrightarrow>
    (blit m dst src (Suc lo) hi)(dst + lo \<mapsto> b) = blit m dst src lo hi"
  by (auto simp: blit_def fun_eq_iff)

lemma copy_forward_loop_blit:
  assumes "mapped m src len" "mapped m dst len" "dst \<le> src \<or> src + len \<le> dst" "idx \<le> len"
  shows "copy_forward_loop (blit m dst src 0 idx) dst src len idx = Some (blit m dst src 0 len)"
  using assms(4)
proof (induction "len - idx" arbitrary: idx)
  case 0
  then show ?case by (simp add: copy_forward_loop.simps)
next
  case (Suc d)
  then have less: "idx < len" by simp
  obtain b where b: "m (src + idx) = Some b" using mapped_less [OF assms(1) less] ..
  have "blit m dst src 0 idx (src + idx) = Some b"
    using assms(3) less b by (auto simp: blit_def)
  moreover obtain c where "blit m dst src 0 idx (dst + idx) = Some c"
    using mapped_less [OF assms(2) less] by (auto simp: blit_def)
  ultimately show ?case
    using Suc less b
    by (subst copy_forward_loop.simps) (simp add: write_u8_mapped blit_snoc)
qed

lemma copy_backward_blit:
  assumes "mapped m src len" "mapped m dst len" "src \<le> dst" "k \<le> len"
  shows "copy_bytes_backward (blit m dst src k len) dst src k = Some (blit m dst src 0 len)"
  using assms(4)
proof (induction k)
  case 0
  then show ?case by simp
next
  case (Suc k)
  then have less: "k < len" by simp
  obtain b where b: "m (src + k) = Some b" using mapped_less [OF assms(1) less] ..
  have "blit m dst src (Suc k) len (src + k) = Some b"
    using assms(3) b by (auto simp: blit_def)
  moreover obtain c where "blit m dst src (Suc k) len (dst + k) = Some c"
    using mapped_less [OF assms(2) less] by (auto simp: blit_def)
  ultimately show ?case
    using Suc b by (simp add: write_u8_mapped blit_Cons)
qed

definition filled :: "mem \<Rightarrow> addr \<Rightarrow> u8 \<Rightarrow> nat \<Rightarrow> mem" where
  "filled m p byte n = (\<lambda>a. if p \<le> a \<and> a < p + n then Some byte else m a)"

lemma filled_0 [simp]: "filled m p byte 0 = m"
  by (auto simp: filled_def fun_eq_iff)

lemma filled_snoc: "(filled m p byte n)(p + n \<mapsto> byte) = filled m p byte (Suc n)"
  by (auto simp: filled_def fun_eq_iff)

lemma fill_loop_filled:
  assumes "mapped m p len" "idx \<le> len"
  shows "fill_loop (filled m p byte idx) p byte len idx = Some (filled m p byte len)"
  using assms(2)
proof (induction "len - idx" arbitrary: idx)
  case 0
  then show ?case by (simp add: fill_loop.simps)
next
  case (Suc d)
  then have less: "idx < len" by simp
  obtain c where "filled m p byte idx (p + idx) = Some c"
    using mapped_less [OF assms(1) less] by (auto simp: filled_def)
  then show ?case
    using Suc less by (subst fill_loop.simps) (simp add: write_u8_mapped filled_snoc)
qed

text \<open>The reference comparison: the difference at the first position where the lists differ.\<close>

fun cmp_bytes :: "u8 list \<Rightarrow> u8 list \<Rightarrow> c_int" where
  "cmp_bytes (x # xs) (y # ys) = (if x \<noteq> y then ucast x - ucast y else cmp_bytes xs ys)"
| "cmp_bytes _ _ = 0"

lemma memcmp_loop_cmp_bytes:
  assumes "bytes_at m l xs" "bytes_at m r ys" "length xs = n" "length ys = n" "idx \<le> n"
  shows "memcmp_loop m l r n idx = Some (cmp_bytes (drop idx xs) (drop idx ys))"
  using assms(5)
proof (induction "n - idx" arbitrary: idx)
  case 0
  then show ?case using assms(3,4) by (simp add: memcmp_loop.simps)
next
  case (Suc d)
  then have less: "idx < n" by simp
  then have "m (l + idx) = Some (xs ! idx)" "m (r + idx) = Some (ys ! idx)"
    and "drop idx xs = xs ! idx # drop (Suc idx) xs" "drop idx ys = ys ! idx # drop (Suc idx) ys"
    using assms(1-4) by (auto simp: bytes_at_nth Cons_nth_drop_Suc)
  then show ?case
    using Suc less by (subst memcmp_loop.simps) simp
qed

lemma sint_byte_diff: "sint (ucast (x :: u8) - ucast (y :: u8) :: c_int) = uint x - uint y"
proof -
  have *: "- (2 ^ 31) \<le> - (256 :: int)" "(256 :: int) \<le> 2 ^ 31" by simp_all
  have "ucast x - ucast y = (word_of_int (uint x - uint y) :: c_int)" by simp
  moreover have "sint (word_of_int (uint x - uint y) :: c_int) = uint x - uint y"
    using * uint_u8_bounds [of x] uint_u8_bounds [of y] by (intro sint_word_of_int_i32) linarith+
  ultimately show ?thesis by simp
qed

lemma cmp_bytes_sign:
  "length xs = length ys \<Longrightarrow>
   (sint (cmp_bytes xs ys) < 0 \<longleftrightarrow> (xs, ys) \<in> lexord {(a, b). a < b}) \<and>
   (cmp_bytes xs ys = 0 \<longleftrightarrow> xs = ys)"
proof (induction xs ys rule: list_induct2)
  case (Cons x xs y ys)
  have "(ucast x - ucast y :: c_int) = 0 \<longleftrightarrow> x = y"
    using sint_byte_diff [of x y] signed_eq_0_iff [of "ucast x - ucast y :: c_int", where 'a = int]
    by (auto simp: word_uint_eq_iff [of x y])
  with Cons show ?case
    by (auto simp: sint_byte_diff word_less_def)
qed simp

lemma strlen_loop_cstr: "cstr m (s + len) bs \<Longrightarrow> strlen_loop m s len = Some (len + length bs)"
proof (induction bs arbitrary: len)
  case Nil
  then show ?case by (subst strlen_loop.simps) simp
next
  case (Cons b bs)
  then have "strlen_loop m s (Suc len) = Some (Suc len + length bs)" by simp
  then show ?case using Cons.prems by (subst strlen_loop.simps) simp
qed

lemma strnlen_loop_upto:
  assumes "bytes_at m s bs" "0 \<notin> set bs" "length bs = n \<or> length bs < n \<and> m (s + length bs) = Some 0"
    and "len \<le> length bs"
  shows "strnlen_loop m s n len = Some (length bs)"
  using assms(4)
proof (induction "length bs - len" arbitrary: len)
  case 0
  then show ?case using assms(3) by (subst strnlen_loop.simps) auto
next
  case (Suc d)
  then have "len < length bs" by simp
  moreover from this have "m (s + len) = Some (bs ! len)" "bs ! len \<noteq> 0"
    using assms(1,2) by (auto simp: bytes_at_nth in_set_conv_nth)
  ultimately show ?case
    using Suc assms(3) by (subst strnlen_loop.simps) auto
qed

section \<open>Properties\<close>

text \<open>
  C4. \<^verbatim>\<open>memmove\<close> is overlap-safe: given a readable source block and a writable destination
  block of \<open>n\<close> bytes, in any relative position, it returns \<open>dst\<close>, afterwards every byte of the
  destination is the one the source held at that offset before the call, no other byte of
  memory changes, and no access leaves the two blocks.
\<close>

theorem memmove_overlap_safe:
  assumes "mapped m src n" and "mapped m dst n"
  shows "memmove dst src n m =
    Some (dst, \<lambda>a. if dst \<le> a \<and> a < dst + n then m (src + (a - dst)) else m a)"
proof -
  have "memmove dst src n m = Some (dst, blit m dst src 0 n)"
  proof (cases "dst \<le> src \<or> src + n \<le> dst")
    case True
    then have "copy_forward_loop (blit m dst src 0 0) dst src n 0 = Some (blit m dst src 0 n)"
      using assms by (intro copy_forward_loop_blit) auto
    with True show ?thesis by (auto simp: memmove_def copy_bytes_forward_def)
  next
    case False
    then have "copy_bytes_backward (blit m dst src n n) dst src n = Some (blit m dst src 0 n)"
      using assms by (intro copy_backward_blit) auto
    with False show ?thesis by (auto simp: memmove_def)
  qed
  then show ?thesis by (simp add: blit_def)
qed

theorem memmove_overlap_safe_witness:
  "memmove 101 100 3 [100 \<mapsto> 1, 101 \<mapsto> 2, 102 \<mapsto> 3, 103 \<mapsto> 4] =
     Some (101, \<lambda>a. if 101 \<le> a \<and> a < 101 + 3
       then [100 \<mapsto> 1, 101 \<mapsto> 2, 102 \<mapsto> 3, 103 \<mapsto> 4] (100 + (a - 101))
       else [100 \<mapsto> 1, 101 \<mapsto> 2, 102 \<mapsto> 3, 103 \<mapsto> 4] a)"
  by (rule memmove_overlap_safe) (auto simp: mapped_def)

text \<open>
  \<^verbatim>\<open>memset\<close> fills exactly the \<open>n\<close> bytes of a writable block with the low byte of its
  argument, changes nothing else, and leaves memory untouched (and unread) for \<open>n = 0\<close>.
\<close>

theorem memset_fills_block:
  assumes "mapped m s n"
  shows "memset s c n m = Some (s, \<lambda>a. if s \<le> a \<and> a < s + n then Some (ucast c) else m a)"
proof -
  have "fill_loop (filled m s (ucast c) 0) s (ucast c) n 0 = Some (filled m s (ucast c) n)"
    using assms by (rule fill_loop_filled) simp
  then have "memset s c n m = Some (s, filled m s (ucast c) n)"
    by (auto simp: memset_def fill_bytes_def)
  then show ?thesis by (simp add: filled_def)
qed

theorem memset_fills_block_witness:
  "memset 8 0x141 2 [8 \<mapsto> 0, 9 \<mapsto> 0, 10 \<mapsto> 7] =
     Some (8, \<lambda>a. if 8 \<le> a \<and> a < 8 + 2 then Some (ucast (0x141 :: c_int))
       else [8 \<mapsto> 0, 9 \<mapsto> 0, 10 \<mapsto> 7] a)"
  by (rule memset_fills_block) (auto simp: mapped_def less_Suc_eq numeral_eq_Suc)

text \<open>
  \<^verbatim>\<open>memcmp\<close> on two readable blocks of \<open>n\<close> bytes returns, reading nothing outside them, a
  value that is negative exactly when the left block is lexicographically smaller (as
  unsigned bytes) and zero exactly when the blocks are equal.
\<close>

theorem memcmp_lexicographic:
  assumes "bytes_at m left xs" and "bytes_at m right ys" and "length xs = n" and "length ys = n"
  shows "\<exists>r. memcmp left right n m = Some r \<and>
    (sint r < 0 \<longleftrightarrow> (xs, ys) \<in> lexord {(a, b). a < b}) \<and> (r = 0 \<longleftrightarrow> xs = ys)"
proof -
  have "memcmp left right n m = Some (cmp_bytes xs ys)"
    using memcmp_loop_cmp_bytes [OF assms, of 0] assms(3,4) by (auto simp: memcmp_def)
  then show ?thesis using cmp_bytes_sign [of xs ys] assms(3,4) by auto
qed

theorem memcmp_lexicographic_witness:
  "\<exists>r. memcmp 1 3 2 [1 \<mapsto> 7, 2 \<mapsto> 200, 3 \<mapsto> 7, 4 \<mapsto> 100] = Some r \<and>
    (sint r < 0 \<longleftrightarrow> ([7, 200], [7, 100 :: u8]) \<in> lexord {(a, b). a < b}) \<and>
    (r = 0 \<longleftrightarrow> [7, 200] = [7, 100 :: u8])"
  by (rule memcmp_lexicographic) simp_all

text \<open>
  \<^verbatim>\<open>strlen\<close> and \<^verbatim>\<open>strnlen\<close> on a C string: \<^verbatim>\<open>strlen\<close> returns (the scan ends) the number of
  bytes before the terminator, and \<^verbatim>\<open>strnlen\<close> the minimum of that and its bound. Neither
  reads past the terminator.
\<close>

theorem strlen_strnlen_cstr:
  assumes "cstr m s bs"
  shows "strlen s m = Some (length bs) \<and> strnlen s n m = Some (min n (length bs))"
proof
  show "strlen s m = Some (length bs)"
    using strlen_loop_cstr [of m s 0 bs] assms by (simp add: strlen_def)
  have "bytes_at m s (take n bs)" "0 \<notin> set (take n bs)" "m (s + length bs) = Some 0"
    using assms cstr_append [of m s "take n bs" "drop n bs"] cstr_drop [OF assms, of "length bs"]
    by auto
  then have "strnlen_loop m s n 0 = Some (length (take n bs))"
    by (intro strnlen_loop_upto) auto
  then show "strnlen s n m = Some (min n (length bs))"
    by (simp add: strnlen_def min.commute)
qed

theorem strlen_strnlen_cstr_witness:
  "strlen 5 [5 \<mapsto> 0x68, 6 \<mapsto> 0x69, 7 \<mapsto> 0] = Some (length [0x68, 0x69 :: u8]) \<and>
   strnlen 5 1 [5 \<mapsto> 0x68, 6 \<mapsto> 0x69, 7 \<mapsto> 0] = Some (min 1 (length [0x68, 0x69 :: u8]))"
  by (rule strlen_strnlen_cstr) simp

end
