(* ===== verification/Conv.thy ===== *)
theory Conv
  imports Prelude "HOL-Library.Sublist"
begin

text \<open>
  The integer conversions of \<^verbatim>\<open>src/src/stdlib/conv.rs\<close> (\<^verbatim>\<open>strtol\<close>, \<^verbatim>\<open>strtoll\<close>, \<^verbatim>\<open>strtoul\<close>,
  \<^verbatim>\<open>strtoull\<close>). The scanner works on the memory, byte by byte, as the source does; a read
  outside the memory and a failed \<^verbatim>\<open>try_from\<close> (an \<^verbatim>\<open>unreachable!\<close> of the source) are both
  \<open>None\<close>. The reference is a function on the list of bytes of the string, and the scanner is
  proved to compute it on every C string. Magnitudes are \<^verbatim>\<open>u128\<close> in the source and natural
  numbers here: \<open>digits_exact\<close> shows they never exceed the limit, at most \<open>2 ^ 64\<close>.
\<close>

section \<open>Scanner\<close>

definition MIN_BASE :: int where "MIN_BASE = 2"
definition MAX_BASE :: int where "MAX_BASE = 36"

datatype parse_status = InvalidBase | NoConversion | Converted

record parse_result =
  pr_value :: nat
  pr_end :: addr
  pr_status :: parse_status
  pr_overflow :: bool
  pr_negative :: bool

definition is_ascii_space :: "u8 \<Rightarrow> bool" where
  "is_ascii_space byte \<longleftrightarrow> byte \<in> {0x20, 0x09, 0x0A, 0x0D, 0x0B, 0x0C}"

definition digit_value :: "u8 \<Rightarrow> nat option" where
  "digit_value byte =
     (if 0x30 \<le> byte \<and> byte \<le> 0x39 then Some (unat (byte - 0x30))
      else if 0x61 \<le> byte \<and> byte \<le> 0x7A then Some (unat (byte - 0x61 + 10))
      else if 0x41 \<le> byte \<and> byte \<le> 0x5A then Some (unat (byte - 0x41 + 10))
      else None)"

definition is_valid_digit_for_base :: "u8 \<Rightarrow> nat \<Rightarrow> bool" where
  "is_valid_digit_for_base byte base =
     (case digit_value byte of Some value \<Rightarrow> value < base | None \<Rightarrow> False)"

definition write_endptr :: "addr \<Rightarrow> addr \<Rightarrow> 'z machine_scheme \<Rightarrow> 'z machine_scheme option" where
  "write_endptr endptr value s = (if endptr = null then Some s else write_ptr endptr value s)"

partial_function (option) skip_spaces :: "mem \<Rightarrow> addr \<Rightarrow> addr option" where
  "skip_spaces m cursor = do {
     byte \<leftarrow> m cursor;
     if is_ascii_space byte then skip_spaces m (cursor + 1) else Some cursor }"

text \<open>The optional sign: whether it is a minus, and the cursor after it.\<close>

definition parse_sign :: "mem \<Rightarrow> addr \<Rightarrow> (bool \<times> addr) option" where
  "parse_sign m cursor = do {
     sign \<leftarrow> m cursor;
     if sign = 0x2B then Some (False, cursor + 1)
     else if sign = 0x2D then Some (True, cursor + 1)
     else Some (False, cursor) }"

text \<open>
  The resolved base and the start of the digits; the inner \<open>None\<close> is the invalid base. The
  third byte of a \<^verbatim>\<open>0x\<close> prefix is looked at only after the second was found to be an \<^verbatim>\<open>x\<close>.
\<close>

definition resolve_base :: "mem \<Rightarrow> c_int \<Rightarrow> addr \<Rightarrow> (nat \<times> addr) option option" where
  "resolve_base m base digits_ptr =
     (if base = 0 then do {
        first \<leftarrow> m digits_ptr;
        if first = 0x30 then do {
          second \<leftarrow> m (digits_ptr + 1);
          if second = 0x78 \<or> second = 0x58 then do {
            third \<leftarrow> m (digits_ptr + 2);
            if is_valid_digit_for_base third 16 then Some (Some (16, digits_ptr + 2))
            else Some (Some (8, digits_ptr)) }
          else Some (Some (8, digits_ptr)) }
        else Some (Some (10, digits_ptr)) }
      else if MIN_BASE \<le> sint base \<and> sint base \<le> MAX_BASE then
        (let resolved_base = nat (sint base) in
         if resolved_base = 16 then do {
           first \<leftarrow> m digits_ptr;
           if first = 0x30 then do {
             second \<leftarrow> m (digits_ptr + 1);
             if second = 0x78 \<or> second = 0x58 then do {
               third \<leftarrow> m (digits_ptr + 2);
               if is_valid_digit_for_base third 16 then Some (Some (16, digits_ptr + 2))
               else Some (Some (16, digits_ptr)) }
             else Some (Some (16, digits_ptr)) }
           else Some (Some (16, digits_ptr)) }
         else Some (Some (resolved_base, digits_ptr)))
      else Some None)"

text \<open>One digit: \<open>value\<close> is multiplied up unless that would pass the limit.\<close>

definition digit_step :: "nat \<Rightarrow> nat \<Rightarrow> nat \<Rightarrow> nat \<times> bool \<Rightarrow> nat \<times> bool" where
  "digit_step limit radix digit = (\<lambda>(value, overflow).
     if \<not> overflow then
       (let cutoff = (limit - digit) div radix in
        if value > cutoff then (limit, True) else (value * radix + digit, False))
     else (value, True))"

partial_function (option) digit_loop ::
  "mem \<Rightarrow> nat \<Rightarrow> nat \<Rightarrow> nat \<times> bool \<Rightarrow> bool \<Rightarrow> addr \<Rightarrow> ((nat \<times> bool) \<times> bool \<times> addr) option" where
  "digit_loop m limit resolved_base acc converted scan = do {
     byte \<leftarrow> m scan;
     (case digit_value byte of
        None \<Rightarrow> Some (acc, converted, scan)
      | Some digit \<Rightarrow>
          if digit \<ge> resolved_base then Some (acc, converted, scan)
          else digit_loop m limit resolved_base (digit_step limit resolved_base digit acc) True
                 (scan + 1)) }"

definition parse_unsigned_magnitude :: "mem \<Rightarrow> addr \<Rightarrow> c_int \<Rightarrow> nat \<Rightarrow> parse_result option" where
  "parse_unsigned_magnitude m nptr base limit = do {
     cursor \<leftarrow> skip_spaces m nptr;
     (negative, cursor) \<leftarrow> parse_sign m cursor;
     resolved \<leftarrow> resolve_base m base cursor;
     (case resolved of
        None \<Rightarrow> Some \<lparr>pr_value = 0, pr_end = nptr, pr_status = InvalidBase,
                     pr_overflow = False, pr_negative = negative\<rparr>
      | Some (resolved_base, digits_ptr) \<Rightarrow> do {
          ((value, overflow), converted, scan) \<leftarrow>
            digit_loop m limit resolved_base (0, False) False digits_ptr;
          if \<not> converted
          then Some \<lparr>pr_value = 0, pr_end = nptr, pr_status = NoConversion,
                     pr_overflow = False, pr_negative = negative\<rparr>
          else Some \<lparr>pr_value = value, pr_end = scan, pr_status = Converted,
                     pr_overflow = overflow, pr_negative = negative\<rparr> }) }"

section \<open>Exported functions\<close>

definition strtol :: "addr \<Rightarrow> addr \<Rightarrow> c_int \<Rightarrow> 'z machine_scheme \<Rightarrow> (c_long \<times> 'z machine_scheme) option" where
  "strtol nptr endptr base s = do {
     let signed_max = 2 ^ 63 - 1;
     let signed_magnitude_limit = signed_max + 1;
     parsed \<leftarrow> parse_unsigned_magnitude (bytes s) nptr base signed_magnitude_limit;
     if pr_status parsed = InvalidBase then Some (0, set_errno EINVAL s)
     else do {
       s \<leftarrow> write_endptr endptr (pr_end parsed) s;
       let positive_overflow = (\<not> pr_negative parsed \<and> pr_value parsed > signed_max);
       if pr_overflow parsed \<or> positive_overflow
       then Some (if pr_negative parsed then word_of_int (- (2 ^ 63)) else word_of_int (2 ^ 63 - 1),
                  set_errno ERANGE s)
       else if pr_status parsed \<noteq> Converted then Some (0, s)
       else if pr_negative parsed then
         (if pr_value parsed = signed_magnitude_limit then Some (word_of_int (- (2 ^ 63)), s)
          else do { v \<leftarrow> try_i64 (- int (pr_value parsed)); Some (v, s) })
       else do { v \<leftarrow> try_i64 (int (pr_value parsed)); Some (v, s) } } }"

definition strtoll :: "addr \<Rightarrow> addr \<Rightarrow> c_int \<Rightarrow> 'z machine_scheme \<Rightarrow> (64 word \<times> 'z machine_scheme) option" where
  "strtoll nptr endptr base s = do {
     let signed_max = 2 ^ 63 - 1;
     let signed_magnitude_limit = signed_max + 1;
     parsed \<leftarrow> parse_unsigned_magnitude (bytes s) nptr base signed_magnitude_limit;
     if pr_status parsed = InvalidBase then Some (0, set_errno EINVAL s)
     else do {
       s \<leftarrow> write_endptr endptr (pr_end parsed) s;
       let positive_overflow = (\<not> pr_negative parsed \<and> pr_value parsed > signed_max);
       if pr_overflow parsed \<or> positive_overflow
       then Some (if pr_negative parsed then word_of_int (- (2 ^ 63)) else word_of_int (2 ^ 63 - 1),
                  set_errno ERANGE s)
       else if pr_status parsed \<noteq> Converted then Some (0, s)
       else if pr_negative parsed then
         (if pr_value parsed = signed_magnitude_limit then Some (word_of_int (- (2 ^ 63)), s)
          else do { v \<leftarrow> try_i64 (- int (pr_value parsed)); Some (v, s) })
       else do { v \<leftarrow> try_i64 (int (pr_value parsed)); Some (v, s) } } }"

text \<open>\<^verbatim>\<open>c_ulong::try_from\<close> on the magnitude; \<^verbatim>\<open>wrapping_neg\<close> is negation of the word.\<close>

definition try_u64 :: "nat \<Rightarrow> c_ulong option" where
  "try_u64 n = (if n < 2 ^ 64 then Some (word_of_nat n) else None)"

definition strtoul :: "addr \<Rightarrow> addr \<Rightarrow> c_int \<Rightarrow> 'z machine_scheme \<Rightarrow> (c_ulong \<times> 'z machine_scheme) option" where
  "strtoul nptr endptr base s = do {
     let unsigned_max = 2 ^ 64 - 1;
     parsed \<leftarrow> parse_unsigned_magnitude (bytes s) nptr base unsigned_max;
     if pr_status parsed = InvalidBase then Some (0, set_errno EINVAL s)
     else do {
       s \<leftarrow> write_endptr endptr (pr_end parsed) s;
       if pr_overflow parsed then Some (- 1, set_errno ERANGE s)
       else if pr_status parsed \<noteq> Converted then Some (0, s)
       else do {
         value \<leftarrow> try_u64 (pr_value parsed);
         if pr_negative parsed then Some (- value, s) else Some (value, s) } } }"

definition strtoull :: "addr \<Rightarrow> addr \<Rightarrow> c_int \<Rightarrow> 'z machine_scheme \<Rightarrow> (64 word \<times> 'z machine_scheme) option" where
  "strtoull nptr endptr base s = do {
     let unsigned_max = 2 ^ 64 - 1;
     parsed \<leftarrow> parse_unsigned_magnitude (bytes s) nptr base unsigned_max;
     if pr_status parsed = InvalidBase then Some (0, set_errno EINVAL s)
     else do {
       s \<leftarrow> write_endptr endptr (pr_end parsed) s;
       if pr_overflow parsed then Some (- 1, set_errno ERANGE s)
       else if pr_status parsed \<noteq> Converted then Some (0, s)
       else do {
         value \<leftarrow> try_u64 (pr_value parsed);
         if pr_negative parsed then Some (- value, s) else Some (value, s) } } }"

section \<open>Reference conversion on the bytes of the string\<close>

definition digit_of :: "u8 \<Rightarrow> nat" where
  "digit_of b = (case digit_value b of Some d \<Rightarrow> d | None \<Rightarrow> 0)"

definition num_from :: "nat \<Rightarrow> nat \<Rightarrow> u8 list \<Rightarrow> nat" where
  "num_from radix n ds = foldl (\<lambda>v b. v * radix + digit_of b) n ds"

definition c_sign :: "u8 list \<Rightarrow> bool \<times> u8 list" where
  "c_sign bs = (case bs of [] \<Rightarrow> (False, [])
     | b # r \<Rightarrow> if b = 0x2B then (False, r) else if b = 0x2D then (True, r) else (False, bs))"

definition has_hex_prefix :: "u8 list \<Rightarrow> bool" where
  "has_hex_prefix bs = (case bs of z # x # d # _ \<Rightarrow>
       z = 0x30 \<and> (x = 0x78 \<or> x = 0x58) \<and> is_valid_digit_for_base d 16 | _ \<Rightarrow> False)"

definition c_radix :: "c_int \<Rightarrow> u8 list \<Rightarrow> nat \<times> u8 list" where
  "c_radix base bs =
     (if (base = 0 \<or> base = 16) \<and> has_hex_prefix bs then (16, drop 2 bs)
      else if base = 0 then (if bs \<noteq> [] \<and> hd bs = 0x30 then 8 else 10, bs)
      else (nat (sint base), bs))"

text \<open>The sign, the exact magnitude, and the number of bytes consumed (0: no conversion).\<close>

definition c_number :: "c_int \<Rightarrow> u8 list \<Rightarrow> bool \<times> nat \<times> nat" where
  "c_number base bs =
     (let (neg, r) = c_sign (dropWhile is_ascii_space bs);
          (radix, r) = c_radix base r;
          ds = takeWhile (\<lambda>b. is_valid_digit_for_base b radix) r
      in (neg, num_from radix 0 ds, if ds = [] then 0 else length bs - length r + length ds))"

definition valid_base :: "c_int \<Rightarrow> bool" where
  "valid_base base \<longleftrightarrow> base = 0 \<or> (2 \<le> sint base \<and> sint base \<le> 36)"

lemma valid_digit_iff: "is_valid_digit_for_base b radix \<longleftrightarrow> (\<exists>d. digit_value b = Some d \<and> d < radix)"
  by (auto simp: is_valid_digit_for_base_def split: option.splits)

lemma digit_value_0 [simp]: "digit_value 0 = None"
  by (simp add: digit_value_def)

lemma is_ascii_space_0 [simp]: "\<not> is_ascii_space 0"
  by (simp add: is_ascii_space_def)

lemma cstr_suffix: "cstr m p bs \<Longrightarrow> suffix r bs \<Longrightarrow> cstr m (p + (length bs - length r)) r"
  by (auto simp: suffix_def cstr_append)

lemma suffix_c_sign: "suffix (snd (c_sign bs)) bs"
  by (auto simp: c_sign_def suffix_def split: list.splits)

lemma suffix_c_radix: "suffix (snd (c_radix base bs)) bs"
  by (auto simp: c_radix_def suffix_drop)

lemma c_radix_ge2: "valid_base base \<Longrightarrow> 2 \<le> fst (c_radix base bs) \<and> fst (c_radix base bs) \<le> 36"
  by (auto simp: c_radix_def valid_base_def)

section \<open>The scanner computes the reference\<close>

lemma skip_spaces_cstr:
  "cstr m p bs \<Longrightarrow> skip_spaces m p = Some (p + (length bs - length (dropWhile is_ascii_space bs)))"
proof (induction bs arbitrary: p)
  case Nil
  then show ?case by (subst skip_spaces.simps) simp
next
  case (Cons b bs)
  have "length (dropWhile is_ascii_space bs) \<le> length bs" by (rule length_dropWhile_le)
  with Cons show ?case by (subst skip_spaces.simps) (simp add: Suc_diff_le)
qed

lemma parse_sign_cstr:
  "cstr m p bs \<Longrightarrow> parse_sign m p =
     Some (fst (c_sign bs), p + (length bs - length (snd (c_sign bs))))"
  by (cases bs) (auto simp: parse_sign_def c_sign_def)

lemma resolve_base_cstr:
  assumes "cstr m p bs" "valid_base base"
  shows "resolve_base m base p =
    Some (Some (fst (c_radix base bs), p + (length bs - length (snd (c_radix base bs)))))"
proof -
  have 16: "base = 16 \<longleftrightarrow> nat (sint base) = 16"
  proof
    assume "nat (sint base) = 16"
    then have "sint base = sint (16 :: c_int)" by simp
    then show "base = 16" by (simp only: sint_eq_iff)
  qed simp
  consider "bs = []" | b where "bs = [b]" | b c r where "bs = b # c # r"
    by (metis list.exhaust)
  then show ?thesis
  proof cases
    case 3
    then show ?thesis using assms 16
      by (cases r)
        (auto simp: resolve_base_def c_radix_def has_hex_prefix_def valid_base_def Let_def
          MIN_BASE_def MAX_BASE_def is_valid_digit_for_base_def)
  qed (use assms 16 in \<open>auto simp: resolve_base_def c_radix_def has_hex_prefix_def valid_base_def
      Let_def MIN_BASE_def MAX_BASE_def\<close>)
qed

lemma resolve_base_invalid: "\<not> valid_base base \<Longrightarrow> resolve_base m base p = Some None"
  by (auto simp: resolve_base_def valid_base_def MIN_BASE_def MAX_BASE_def)

lemma digit_loop_cstr:
  assumes "cstr m p bs"
  shows "digit_loop m limit radix acc conv p =
    (let ds = takeWhile (\<lambda>b. is_valid_digit_for_base b radix) bs in
     Some (foldl (\<lambda>a b. digit_step limit radix (digit_of b) a) acc ds, conv \<or> ds \<noteq> [], p + length ds))"
  using assms
proof (induction bs arbitrary: p acc conv)
  case Nil
  then show ?case by (subst digit_loop.simps) simp
next
  case (Cons b bs)
  show ?case
  proof (cases "digit_value b")
    case None
    with Cons show ?thesis
      by (subst digit_loop.simps) (simp add: is_valid_digit_for_base_def)
  next
    case (Some d)
    with Cons show ?thesis
      by (subst digit_loop.simps) (simp add: is_valid_digit_for_base_def digit_of_def Let_def)
  qed
qed

text \<open>
  The overflow test by division is exact: after any digits, \<open>value\<close> is the magnitude capped
  at the limit and \<open>overflow\<close> says whether the cap was needed.
\<close>

lemma digit_step_exact:
  assumes "d < radix" "d \<le> limit" "acc = (min limit n, limit < n)"
  shows "digit_step limit radix d acc = (min limit (n * radix + d), limit < n * radix + d)"
proof (cases "limit < n")
  case True
  then have "limit < n * radix + d" using assms(1)
    by (metis le_add1 le_trans less_le_trans mult.right_neutral mult_le_mono2 not_less not_less_zero
        One_nat_def Suc_leI gr0I)
  with True assms show ?thesis by (simp add: digit_step_def)
next
  case False
  have "(limit - d) div radix < n \<longleftrightarrow> limit - d < n * radix"
    using assms(1) by (simp add: div_less_iff_less_mult)
  also have "\<dots> \<longleftrightarrow> limit < n * radix + d" using assms(2) by linarith
  finally show ?thesis using False assms by (auto simp: digit_step_def Let_def)
qed

lemma digits_exact:
  assumes "\<forall>b \<in> set ds. is_valid_digit_for_base b radix" "radix \<le> limit"
  shows "foldl (\<lambda>a b. digit_step limit radix (digit_of b) a) (min limit n, limit < n) ds =
    (min limit (num_from radix n ds), limit < num_from radix n ds)"
  using assms(1)
proof (induction ds arbitrary: n)
  case Nil
  then show ?case by (simp add: num_from_def)
next
  case (Cons b ds)
  from Cons.prems have "digit_of b < radix"
    by (auto simp: valid_digit_iff digit_of_def)
  then have "digit_step limit radix (digit_of b) (min limit n, limit < n) =
      (min limit (n * radix + digit_of b), limit < n * radix + digit_of b)"
    using assms(2) by (intro digit_step_exact) auto
  with Cons show ?case by (simp add: num_from_def)
qed

text \<open>The whole scanner, for a valid base, and for an invalid one.\<close>

lemma parse_unsigned_magnitude_cstr:
  assumes "cstr m p bs" "valid_base base" "36 \<le> limit" "c_number base bs = (neg, mag, n)"
  shows "parse_unsigned_magnitude m p base limit = Some
    \<lparr>pr_value = min limit mag, pr_end = p + n,
     pr_status = (if n = 0 then NoConversion else Converted),
     pr_overflow = limit < mag, pr_negative = neg\<rparr>"
proof -
  define r1 where "r1 = dropWhile is_ascii_space bs"
  obtain sg r2 where r2: "c_sign r1 = (sg, r2)" by fastforce
  obtain radix r3 where r3: "c_radix base r2 = (radix, r3)" by fastforce
  define ds where "ds = takeWhile (\<lambda>b. is_valid_digit_for_base b radix) r3"
  have suf: "suffix r1 bs" "suffix r2 r1" "suffix r3 r2"
    using suffix_dropWhile [of is_ascii_space bs] suffix_c_sign [of r1, unfolded r2]
      suffix_c_radix [of base r2, unfolded r3]
    by (simp_all add: r1_def)
  then have len: "length r3 \<le> length r2" "length r2 \<le> length r1" "length r1 \<le> length bs"
    by (simp_all add: suffix_length_le)
  let ?p1 = "p + (length bs - length r1)"
  let ?p2 = "?p1 + (length r1 - length r2)"
  let ?p3 = "?p2 + (length r2 - length r3)"
  have c1: "cstr m ?p1 r1" using assms(1) suf(1) by (rule cstr_suffix)
  then have c2: "cstr m ?p2 r2" using suf(2) by (rule cstr_suffix)
  then have c3: "cstr m ?p3 r3" using suf(3) by (rule cstr_suffix)
  have radix: "radix \<le> limit"
    using c_radix_ge2 [OF assms(2), of r2] assms(3) by (simp add: r3)
  have loop: "digit_loop m limit radix (0, False) False ?p3 =
      Some ((min limit (num_from radix 0 ds), limit < num_from radix 0 ds), ds \<noteq> [], ?p3 + length ds)"
    using digit_loop_cstr [OF c3, of limit radix "(0, False)" False]
      digits_exact [of ds radix limit 0] radix
    by (auto simp: ds_def Let_def dest: set_takeWhileD)
  have *: "neg = sg" "mag = num_from radix 0 ds"
    "n = (if ds = [] then 0 else length bs - length r3 + length ds)"
    using assms(4) by (auto simp: c_number_def r1_def [symmetric] r2 r3 ds_def Let_def)
  have "ds = [] \<Longrightarrow> mag = 0" by (simp add: * num_from_def)
  moreover have "ds \<noteq> [] \<Longrightarrow> ?p3 + length ds = p + n"
    using len * by simp
  moreover have "ds \<noteq> [] \<Longrightarrow> n \<noteq> 0" using * by (cases ds) auto
  ultimately show ?thesis
    using skip_spaces_cstr [OF assms(1)] parse_sign_cstr [OF c1] resolve_base_cstr [OF c2 assms(2)]
      loop * by (auto simp: parse_unsigned_magnitude_def r1_def [symmetric] r2 r3)
qed

lemma parse_unsigned_magnitude_invalid:
  assumes "cstr m p bs" "\<not> valid_base base"
  shows "\<exists>r. parse_unsigned_magnitude m p base limit = Some r \<and> pr_status r = InvalidBase"
  using skip_spaces_cstr [OF assms(1)] resolve_base_invalid [OF assms(2)]
    parse_sign_cstr [OF cstr_suffix [OF assms(1) suffix_dropWhile [of is_ascii_space]]]
  by (auto simp: parse_unsigned_magnitude_def)

section \<open>Properties\<close>

text \<open>What the caller's \<open>endptr\<close> cell holds after the call.\<close>

definition store_end :: "addr \<Rightarrow> addr \<Rightarrow> 'z machine_scheme \<Rightarrow> 'z machine_scheme" where
  "store_end endptr v s = (if endptr = 0 then s else s\<lparr>ptrs := (ptrs s)(endptr \<mapsto> v)\<rparr>)"

definition endptr_ok :: "addr \<Rightarrow> 'z machine_scheme \<Rightarrow> bool" where
  "endptr_ok endptr s \<longleftrightarrow> endptr = 0 \<or> ptrs s endptr \<noteq> None"

lemma write_endptr_ok: "endptr_ok endptr s \<Longrightarrow> write_endptr endptr v s = Some (store_end endptr v s)"
  by (auto simp: endptr_ok_def write_endptr_def store_end_def write_ptr_def)

lemma strtol_value:
  assumes "cstr (bytes s) nptr bs" and "valid_base base" and "endptr_ok endptr s"
    and "c_number base bs = (neg, mag, n)"
  shows "strtol nptr endptr base s =
    (let v = (if neg then - int mag else int mag);
         s' = store_end endptr (nptr + n) s
     in Some (word_of_int (max (- (2 ^ 63)) (min (2 ^ 63 - 1) v)),
              if v < - (2 ^ 63) \<or> 2 ^ 63 - 1 < v then set_errno ERANGE s' else s'))"
proof -
  have "36 \<le> (2 ^ 63 - 1 + 1 :: nat)" by simp
  note parsed = parse_unsigned_magnitude_cstr [OF assms(1,2) this assms(4)]
  have zero: "n = 0 \<Longrightarrow> mag = 0"
    using assms(4) by (auto simp: c_number_def Let_def num_from_def split: prod.splits if_splits)
  show ?thesis
    using parsed zero assms(3)
    by (auto simp: strtol_def write_endptr_ok Let_def try_i64_def)
qed

text \<open>
  C5. \<^verbatim>\<open>strtol\<close> on a C string and a valid base returns, for every magnitude however long, the
  number the string denotes clamped to the range of \<^verbatim>\<open>long\<close>; it sets \<^verbatim>\<open>errno\<close> to \<^verbatim>\<open>ERANGE\<close>
  exactly when clamping changed the number and leaves it alone otherwise, stores the address
  after the last digit (the start of the string when there was no digit), and never reads
  past the terminator or reaches one of its \<^verbatim>\<open>unreachable!\<close> arms.
\<close>

theorem strtol_clamps:
  assumes "cstr (bytes s) nptr bs" and "valid_base base" and "endptr_ok endptr s"
    and "c_number base bs = (neg, mag, n)"
  shows "strtol nptr endptr base s =
    (let v = (if neg then - int mag else int mag);
         s' = store_end endptr (nptr + n) s
     in Some (word_of_int (max (- (2 ^ 63)) (min (2 ^ 63 - 1) v)),
              if v < - (2 ^ 63) \<or> 2 ^ 63 - 1 < v then set_errno ERANGE s' else s'))"
  using assms by (rule strtol_value)

theorem strtol_clamps_witness:
  "strtol 1 0 10 \<lparr>bytes = [1 \<mapsto> 0x20, 2 \<mapsto> 0x2D, 3 \<mapsto> 0x34, 4 \<mapsto> 0x32, 5 \<mapsto> 0],
                  ptrs = Map.empty, errno = 7\<rparr> =
   Some (word_of_int (- 42), \<lparr>bytes = [1 \<mapsto> 0x20, 2 \<mapsto> 0x2D, 3 \<mapsto> 0x34, 4 \<mapsto> 0x32, 5 \<mapsto> 0],
                  ptrs = Map.empty, errno = 7\<rparr>)"
  by (subst strtol_clamps [of _ 1 "[0x20, 0x2D, 0x34, 0x32]" 10 0 True 42 4])
    (simp_all add: valid_base_def endptr_ok_def c_number_def c_sign_def c_radix_def num_from_def
      is_ascii_space_def is_valid_digit_for_base_def digit_value_def digit_of_def store_end_def
      has_hex_prefix_def)

text \<open>
  \<^verbatim>\<open>strtoul\<close> on a C string and a valid base: a magnitude of at most \<open>2 ^ 64 - 1\<close> is returned
  modulo \<open>2 ^ 64\<close>, negated for a minus sign, with \<^verbatim>\<open>errno\<close> untouched; a larger one gives
  \<^verbatim>\<open>ULONG_MAX\<close> and \<^verbatim>\<open>ERANGE\<close>. \<^verbatim>\<open>endptr\<close> is stored in every case.
\<close>

theorem strtoul_wraps:
  assumes "cstr (bytes s) nptr bs" and "valid_base base" and "endptr_ok endptr s"
    and "c_number base bs = (neg, mag, n)"
  shows "strtoul nptr endptr base s =
    (let s' = store_end endptr (nptr + n) s in
     if mag \<le> 2 ^ 64 - 1
     then Some (word_of_int (if neg then - int mag else int mag), s')
     else Some (word_of_int (2 ^ 64 - 1), set_errno ERANGE s'))"
proof -
  have "36 \<le> (2 ^ 64 - 1 :: nat)" by simp
  note parsed = parse_unsigned_magnitude_cstr [OF assms(1,2) this assms(4)]
  have zero: "n = 0 \<Longrightarrow> mag = 0"
    using assms(4) by (auto simp: c_number_def Let_def num_from_def split: prod.splits if_splits)
  show ?thesis
    using parsed zero assms(3)
    by (auto simp: strtoul_def write_endptr_ok Let_def try_u64_def)
qed

theorem strtoul_wraps_witness:
  "strtoul 1 0 16 \<lparr>bytes = [1 \<mapsto> 0x2D, 2 \<mapsto> 0x30, 3 \<mapsto> 0x58, 4 \<mapsto> 0x46, 5 \<mapsto> 0],
                  ptrs = Map.empty, errno = 0\<rparr> =
   Some (word_of_int (- 15), \<lparr>bytes = [1 \<mapsto> 0x2D, 2 \<mapsto> 0x30, 3 \<mapsto> 0x58, 4 \<mapsto> 0x46, 5 \<mapsto> 0],
                  ptrs = Map.empty, errno = 0\<rparr>)"
  by (subst strtoul_wraps [of _ 1 "[0x2D, 0x30, 0x58, 0x46]" 16 0 True 15 4])
    (simp_all add: valid_base_def endptr_ok_def c_number_def c_sign_def c_radix_def num_from_def
      is_ascii_space_def is_valid_digit_for_base_def digit_value_def digit_of_def store_end_def
      has_hex_prefix_def)

text \<open>
  With a base that is neither 0 nor in 2..36 all four conversions return 0, set \<^verbatim>\<open>errno\<close> to
  \<^verbatim>\<open>EINVAL\<close> and leave everything else, the \<open>endptr\<close> cell included, unchanged.
\<close>

theorem strto_invalid_base:
  assumes "cstr (bytes s) nptr bs" and "\<not> valid_base base"
  shows "strtol nptr endptr base s = Some (0, set_errno EINVAL s) \<and>
    strtoll nptr endptr base s = Some (0, set_errno EINVAL s) \<and>
    strtoul nptr endptr base s = Some (0, set_errno EINVAL s) \<and>
    strtoull nptr endptr base s = Some (0, set_errno EINVAL s)"
  using parse_unsigned_magnitude_invalid [OF assms, of "2 ^ 63 - 1 + 1"]
    parse_unsigned_magnitude_invalid [OF assms, of "2 ^ 64 - 1"]
  by (auto simp: strtol_def strtoll_def strtoul_def strtoull_def Let_def)

theorem strto_invalid_base_witness:
  "let s = \<lparr>bytes = [1 \<mapsto> 0x35, 2 \<mapsto> 0], ptrs = Map.empty, errno = 0\<rparr> in
   strtol 1 9 37 s = Some (0, set_errno EINVAL s) \<and> strtoll 1 9 37 s = Some (0, set_errno EINVAL s) \<and>
   strtoul 1 9 37 s = Some (0, set_errno EINVAL s) \<and> strtoull 1 9 37 s = Some (0, set_errno EINVAL s)"
  unfolding Let_def
  by (rule strto_invalid_base [where bs = "[0x35]"]) (simp_all add: valid_base_def)

text \<open>\<^verbatim>\<open>long long\<close> is \<^verbatim>\<open>long\<close> on this target, so the two pairs of functions agree.\<close>

lemma strtoll_eq_strtol: "strtoll = strtol"
  by (simp add: strtoll_def strtol_def fun_eq_iff)

lemma strtoull_eq_strtoul: "strtoull = strtoul"
  by (simp add: strtoull_def strtoul_def fun_eq_iff)

end
