(* ===== verification/Atoi.thy ===== *)
theory Atoi
  imports Conv
begin

text \<open>
  The decimal wrappers of \<^verbatim>\<open>src/src/stdlib/atoi.rs\<close> over \<^verbatim>\<open>strtol\<close> and \<^verbatim>\<open>strtoll\<close>. The local
  variable \<^verbatim>\<open>endptr\<close> whose address is handed to the conversion is a stack cell: \<open>frame\<close> is its
  address, and the cell has its old contents back when the wrapper returns.
\<close>

section \<open>Definitions\<close>

definition DECIMAL_BASE :: c_int where
  "DECIMAL_BASE = 10"

definition restore_errno_if_no_conversion ::
  "addr \<Rightarrow> addr \<Rightarrow> c_int \<Rightarrow> 'z machine_scheme \<Rightarrow> 'z machine_scheme" where
  "restore_errno_if_no_conversion nptr endptr saved_errno s =
     (if endptr = nptr then s\<lparr>errno := saved_errno\<rparr> else s)"

text \<open>Allocation of the stack cell, and its release.\<close>

definition push_local :: "addr \<Rightarrow> addr \<Rightarrow> 'z machine_scheme \<Rightarrow> 'z machine_scheme" where
  "push_local frame v s = s\<lparr>ptrs := (ptrs s)(frame \<mapsto> v)\<rparr>"

definition pop_local :: "addr \<Rightarrow> 'z machine_scheme \<Rightarrow> 'z machine_scheme \<Rightarrow> 'z machine_scheme" where
  "pop_local frame old s = s\<lparr>ptrs := (ptrs s)(frame := ptrs old frame)\<rparr>"

definition parse_decimal_long ::
  "addr \<Rightarrow> addr \<Rightarrow> 'z machine_scheme \<Rightarrow> (c_long \<times> 'z machine_scheme) option" where
  "parse_decimal_long frame nptr s0 =
     (if nptr = null then Some (0, set_errno EINVAL s0)
      else do {
        let s = push_local frame null s0;
        let saved_errno = errno s;
        (parsed, s) \<leftarrow> strtol nptr frame DECIMAL_BASE s;
        endptr \<leftarrow> ptrs s frame;
        let s = restore_errno_if_no_conversion nptr endptr saved_errno s;
        Some (parsed, pop_local frame s0 s) })"

definition parse_decimal_long_long ::
  "addr \<Rightarrow> addr \<Rightarrow> 'z machine_scheme \<Rightarrow> (64 word \<times> 'z machine_scheme) option" where
  "parse_decimal_long_long frame nptr s0 =
     (if nptr = null then Some (0, set_errno EINVAL s0)
      else do {
        let s = push_local frame null s0;
        let saved_errno = errno s;
        (parsed, s) \<leftarrow> strtoll nptr frame DECIMAL_BASE s;
        endptr \<leftarrow> ptrs s frame;
        let s = restore_errno_if_no_conversion nptr endptr saved_errno s;
        Some (parsed, pop_local frame s0 s) })"

text \<open>\<^verbatim>\<open>rem_euclid\<close> of a positive modulus is \<open>mod\<close> on the integers.\<close>

definition c_long_to_c_int_wrapping :: "c_long \<Rightarrow> c_int option" where
  "c_long_to_c_int_wrapping value =
     (let modulus = 2 ^ 32;
          sign_bit = 2 ^ 31;
          wrapped = sint value mod modulus;
          signed = (if wrapped \<ge> sign_bit then wrapped - modulus else wrapped)
      in try_i32 signed)"

definition atoi :: "addr \<Rightarrow> addr \<Rightarrow> 'z machine_scheme \<Rightarrow> (c_int \<times> 'z machine_scheme) option" where
  "atoi frame nptr s = do {
     (parsed, s) \<leftarrow> parse_decimal_long frame nptr s;
     v \<leftarrow> c_long_to_c_int_wrapping parsed;
     Some (v, s) }"

definition atol :: "addr \<Rightarrow> addr \<Rightarrow> 'z machine_scheme \<Rightarrow> (c_long \<times> 'z machine_scheme) option" where
  "atol frame nptr s = parse_decimal_long frame nptr s"

definition atoll :: "addr \<Rightarrow> addr \<Rightarrow> 'z machine_scheme \<Rightarrow> (64 word \<times> 'z machine_scheme) option" where
  "atoll frame nptr s = parse_decimal_long_long frame nptr s"

section \<open>Lemmas\<close>

text \<open>The arithmetic narrowing is truncation of the word, and never panics.\<close>

lemma c_long_to_c_int_wrapping_eq: "c_long_to_c_int_wrapping v = Some (word_of_int (sint v))"
proof -
  let ?w = "sint v mod 2 ^ 32"
  let ?x = "if ?w \<ge> 2 ^ 31 then ?w - 2 ^ 32 else ?w"
  have "?x mod 2 ^ 32 = sint v mod 2 ^ 32" by simp
  then have "(word_of_int ?x :: c_int) = word_of_int (sint v)"
    by (simp only: word_of_int_eq_iff take_bit_eq_mod) simp
  moreover have "0 \<le> ?w" "?w < 2 ^ 32" by simp_all
  then have "- (2 ^ 31) \<le> ?x" "?x < 2 ^ 31" by auto
  ultimately have "try_i32 ?x = Some (word_of_int (sint v))"
    by (simp only: try_i32_def simp_thms if_True)
  then show ?thesis by (simp only: c_long_to_c_int_wrapping_def Let_def)
qed

definition clamp_long :: "int \<Rightarrow> int" where
  "clamp_long v = max (- (2 ^ 63)) (min (2 ^ 63 - 1) v)"

lemma parse_decimal_long_cstr:
  assumes "cstr (bytes s) nptr bs" "nptr \<noteq> 0" "frame \<noteq> 0" "c_number 10 bs = (neg, mag, n)"
  shows "parse_decimal_long frame nptr s =
    (let v = (if neg then - int mag else int mag)
     in Some (word_of_int (clamp_long v),
          if v < - (2 ^ 63) \<or> 2 ^ 63 - 1 < v then set_errno ERANGE s else s))"
proof -
  let ?s = "push_local frame 0 s"
  have "cstr (bytes ?s) nptr bs" "endptr_ok frame ?s" "valid_base 10"
    using assms(1) by (simp_all add: push_local_def endptr_ok_def valid_base_def)
  note conv = strtol_value [OF this(1,3,2) assms(4)]
  have zero: "n = 0 \<Longrightarrow> mag = 0"
    using assms(4) by (auto simp: c_number_def Let_def num_from_def split: prod.splits if_splits)
  show ?thesis
    unfolding parse_decimal_long_def DECIMAL_BASE_def Let_def clamp_long_def conv
    using assms(2,3) zero
    by (auto simp: restore_errno_if_no_conversion_def store_end_def push_local_def pop_local_def
        set_errno_def fun_upd_idem)
qed

lemma parse_decimal_long_long_eq: "parse_decimal_long_long = parse_decimal_long"
  by (simp add: fun_eq_iff parse_decimal_long_long_def parse_decimal_long_def strtoll_eq_strtol)

section \<open>Properties\<close>

text \<open>
  \<^verbatim>\<open>atoi\<close>, \<^verbatim>\<open>atol\<close> and \<^verbatim>\<open>atoll\<close> on a C string return the decimal number it starts with,
  clamped to 64 bits; \<^verbatim>\<open>atoi\<close> truncates that to its low 32 bits. \<^verbatim>\<open>errno\<close> becomes \<^verbatim>\<open>ERANGE\<close>
  exactly on a 64-bit overflow, is preserved when there is no number, and nothing else of the
  state is changed: the stack cell lent to \<^verbatim>\<open>strtol\<close> is as before.
\<close>

theorem atoi_family_correct:
  assumes "cstr (bytes s) nptr bs" and "nptr \<noteq> 0" and "frame \<noteq> 0"
    and "c_number 10 bs = (neg, mag, n)" and "v = (if neg then - int mag else int mag)"
    and "s' = (if v < - (2 ^ 63) \<or> 2 ^ 63 - 1 < v then set_errno ERANGE s else s)"
  shows "atol frame nptr s = Some (word_of_int (clamp_long v), s') \<and>
    atoll frame nptr s = Some (word_of_int (clamp_long v), s') \<and>
    atoi frame nptr s = Some (word_of_int (clamp_long v), s')"
proof -
  have long: "parse_decimal_long frame nptr s = Some (word_of_int (clamp_long v), s')"
    using parse_decimal_long_cstr [OF assms(1-4)] assms(5,6) by (simp add: Let_def)
  have "sint (word_of_int (clamp_long v) :: c_long) = clamp_long v"
    by (intro sint_word_of_int_i64) (auto simp: clamp_long_def)
  then show ?thesis
    using long by (simp add: atoi_def atol_def atoll_def parse_decimal_long_long_eq
        c_long_to_c_int_wrapping_eq del: of_int_sint)
qed

theorem atoi_family_correct_witness:
  "let s = \<lparr>bytes = [1 \<mapsto> 0x2D, 2 \<mapsto> 0x37, 3 \<mapsto> 0x61, 4 \<mapsto> 0], ptrs = Map.empty, errno = 3\<rparr> in
   atol 9 1 s = Some (word_of_int (clamp_long (- 7)), s) \<and>
   atoll 9 1 s = Some (word_of_int (clamp_long (- 7)), s) \<and>
   atoi 9 1 s = Some (word_of_int (clamp_long (- 7)), s)"
  unfolding Let_def
  by (rule atoi_family_correct [where bs = "[0x2D, 0x37, 0x61]" and neg = True and mag = 7 and n = 2])
    (simp_all add: c_number_def c_sign_def c_radix_def num_from_def is_ascii_space_def
      is_valid_digit_for_base_def digit_value_def digit_of_def has_hex_prefix_def)

end
