(* ===== verification/Codec.thy ===== *)
theory Codec
  imports Prelude
begin

text \<open>
  The interface between a character encoding and the routines that convert whole strings with
  it: an encoder whose output a decoder recognises whatever follows. The clients' facts (unique
  parsing, decoding a whole text, soundness of the decoded prefix) are proved once here; the
  UTF-8 component interprets the interface on the code's encoder and decoder.
\<close>

text \<open>Decode characters as long as possible; the second component is the undecodable rest.\<close>

function decode_all :: "('b list \<Rightarrow> ('a \<times> nat) option) \<Rightarrow> 'b list \<Rightarrow> 'a list \<times> 'b list" where
  "decode_all dec xs =
     (case dec xs of
        None \<Rightarrow> ([], xs)
      | Some (a, n) \<Rightarrow>
          if n = 0 \<or> length xs < n then ([], xs)
          else (let (as, rest) = decode_all dec (drop n xs) in (a # as, rest)))"
  by pat_completeness auto
termination
  by (relation "measure (\<lambda>(dec, xs). length xs)") auto

declare decode_all.simps [simp del]

locale prefix_codec =
  fixes enc :: "'a \<Rightarrow> 'b list"
    and valid :: "'a \<Rightarrow> bool"
    and dec :: "'b list \<Rightarrow> ('a \<times> nat) option"
  assumes enc_nonempty: "valid a \<Longrightarrow> enc a \<noteq> []"
    and dec_enc: "valid a \<Longrightarrow> dec (enc a @ rest) = Some (a, length (enc a))"
    and dec_sound: "dec xs = Some (a, n) \<Longrightarrow> valid a \<and> n = length (enc a) \<and> take n xs = enc a"
begin

lemma dec_Nil: "dec [] = None"
  using dec_sound [of "[]"] enc_nonempty by (cases "dec []") force+

lemma dec_split: "dec xs = Some (a, n) \<Longrightarrow> xs = enc a @ drop n xs \<and> 0 < n \<and> n \<le> length xs"
proof -
  assume "dec xs = Some (a, n)"
  then have *: "valid a" "n = length (enc a)" "take n xs = enc a" using dec_sound by auto
  then have "xs = enc a @ drop n xs" using append_take_drop_id [of n xs] by simp
  moreover from this have "n \<le> length xs" using *(2) by (metis length_append le_add1)
  ultimately show ?thesis using * enc_nonempty by simp
qed

lemma prefix_free: "valid a \<Longrightarrow> valid b \<Longrightarrow> enc a @ xs = enc b @ ys \<Longrightarrow> a = b \<and> xs = ys"
  using dec_enc [of a xs] dec_enc [of b ys] by auto

lemma enc_inj: "valid a \<Longrightarrow> valid b \<Longrightarrow> enc a = enc b \<Longrightarrow> a = b"
  using prefix_free [of a b "[]" "[]"] by simp

lemma decode_all_step:
  "decode_all dec xs = (case dec xs of None \<Rightarrow> ([], xs)
     | Some (a, n) \<Rightarrow> (let (as, rest) = decode_all dec (drop n xs) in (a # as, rest)))"
  by (subst decode_all.simps) (auto split: option.splits dest!: dec_split)

lemma decode_all_enc:
  "valid a \<Longrightarrow> decode_all dec (enc a @ xs) = (let (as, rest) = decode_all dec xs in (a # as, rest))"
  by (subst decode_all_step) (simp add: dec_enc)

lemma decode_all_concat:
  "\<forall>a \<in> set as. valid a \<Longrightarrow> dec rest = None \<Longrightarrow>
   decode_all dec (concat (map enc as) @ rest) = (as, rest)"
  by (induction as) (simp_all add: decode_all_enc, simp add: decode_all_step)

lemma decode_all_sound:
  "decode_all dec xs = (as, rest) \<Longrightarrow>
   xs = concat (map enc as) @ rest \<and> (\<forall>a \<in> set as. valid a) \<and> dec rest = None"
proof (induction "length xs" arbitrary: xs as rule: less_induct)
  case less
  show ?case
  proof (cases "dec xs")
    case None
    then show ?thesis using less.prems by (subst (asm) decode_all_step) auto
  next
    case (Some p)
    obtain a n where p: "p = (a, n)" by (cases p)
    with Some have split: "xs = enc a @ drop n xs" "0 < n" "n \<le> length xs" "valid a"
      using dec_split dec_sound by blast+
    obtain as' where "decode_all dec (drop n xs) = (as', rest)" and as: "as = a # as'"
      using less.prems Some p by (subst (asm) decode_all_step) (auto split: prod.splits)
    then have "drop n xs = concat (map enc as') @ rest \<and> (\<forall>a \<in> set as'. valid a) \<and> dec rest = None"
      using less.hyps [of "drop n xs" as'] split(2,3) by simp
    then show ?thesis using split as by auto
  qed
qed

lemma unique_parse:
  assumes "\<forall>a \<in> set as. valid a" "\<forall>b \<in> set bs. valid b" "concat (map enc as) = concat (map enc bs)"
  shows "as = bs"
  using decode_all_concat [OF assms(1) dec_Nil] decode_all_concat [OF assms(2) dec_Nil] assms(3) by simp

end

end
