(* ===== verification/Utf8_Stream.thy ===== *)
theory Utf8_Stream
  imports Utf8 Codec
begin

text \<open>
  The restartable decoder as a machine on conversion states: which states it leaves, what one
  call returns on any input, that feeding a text in pieces is feeding it whole, and the
  interpretation of the codec interface on the code's encoder and decoder.
\<close>

lemma sint_u32_small: "uint w < 2 ^ 31 \<Longrightarrow> sint (w :: u32) = uint w"
  using sint_word_of_int_i32 [of "uint w"] uint_ge_0 [of w] by (simp add: order_trans [of _ 0])

section \<open>States\<close>

lemma pending_ok_length: "pending_ok pd \<Longrightarrow> length pd \<le> 3"
  using pfx_bytes_elen [of pd] by (auto simp: pending_ok_def)

lemma mb_typed_state_of: "pending_ok pd \<Longrightarrow> mb_typed (state_of pd)"
  using pending_ok_length [of pd] by (simp add: mb_typed_def state_of_sel MAX_UTF8_BYTES_def)

lemma not_corrupted_state_of: "pending_ok pd \<Longrightarrow> \<not> state_is_corrupted (state_of pd)"
proof -
  assume pd: "pending_ok pd"
  show ?thesis
  proof (cases "pd = []")
    case True
    then show ?thesis
      by (simp add: state_of_Nil state_is_corrupted_def mb_new_def short_bytes_are_zero_def
          bytes_are_zero_def)
  next
    case False
    then have pfx: "pfx_bytes pd" using pd by (simp add: pending_ok_def)
    then have "partial_prefix_is_valid (pad pd) (length pd) (elen pd)"
      using partial_prefix_pad [of pd "elen pd"] pfx_bytes_elen [OF pfx] by simp
    then show ?thesis using pfx_bytes_elen [OF pfx] False
      by (simp add: state_is_corrupted_def state_of_sel [OF pd] short_bytes_are_zero_def
          MAX_UTF8_BYTES_def)
  qed
qed

text \<open>The checks of the code accept exactly the states that are a genuine start of a character.\<close>

lemma not_corrupted_iff:
  assumes "mb_typed st"
  shows "\<not> state_is_corrupted st \<longleftrightarrow> mb_ok st"
proof
  assume ok: "\<not> state_is_corrupted st"
  let ?k = "unat (mb_pending_len st)" and ?n = "unat (mb_expected_len st)"
  have len: "length (mb_bytes st) = 4" using assms by (simp add: mb_typed_def MAX_UTF8_BYTES_def)
  have res: "mb_reserved st = (0, 0)"
    using ok by (cases "mb_reserved st")
      (auto simp: state_is_corrupted_def short_bytes_are_zero_def Let_def split: if_splits)
  have words: "mb_pending_len st = word_of_nat ?k" "mb_expected_len st = word_of_nat ?n" by simp_all
  show "mb_ok st"
  proof (cases "?k = 0")
    case True
    then have "?n = 0" "bytes_are_zero (mb_bytes st)"
      using ok by (auto simp: state_is_corrupted_def Let_def split: if_splits)
    then have "mb_bytes st = [0, 0, 0, 0]"
      using len by (auto simp: bytes_are_zero_def list_all_iff numeral_eq_Suc length_Suc_conv)
    then have "st = mb_new"
      using True \<open>?n = 0\<close> res unfolding unat_eq_0 by (cases st) (simp add: mb_new_def)
    then show ?thesis
      unfolding mb_ok_def state_of_Nil [symmetric] by (intro exI [of _ "[]"]) (simp add: pending_ok_def)
  next
    case False
    then have "partial_prefix_is_valid (mb_bytes st) ?k ?n"
      using ok by (auto simp: state_is_corrupted_def Let_def split: if_splits)
    note pfx = partial_prefix_conv [OF len this]
    then have "length (take ?k (mb_bytes st)) = ?k" using len by simp
    then have "st = state_of (take ?k (mb_bytes st))"
      using pfx res words by (cases st) (simp add: state_of_def set_partial_def)
    then show ?thesis using pfx unfolding mb_ok_def pending_ok_def by blast
  qed
next
  assume "mb_ok st"
  then show "\<not> state_is_corrupted st" using not_corrupted_state_of by (auto simp: mb_ok_def)
qed

lemma mb_ok_new: "mb_ok mb_new"
  unfolding mb_ok_def state_of_Nil [symmetric] by (intro exI [of _ "[]"]) (simp add: pending_ok_def)

lemma is_initial_iff: "mb_typed st \<Longrightarrow> is_initial st \<longleftrightarrow> st = mb_new"
  by (cases st, cases "mb_reserved st")
    (auto simp: is_initial_def mb_new_def bytes_are_zero_def short_bytes_are_zero_def mb_typed_def
      list_all_iff numeral_eq_Suc length_Suc_conv MAX_UTF8_BYTES_def)

section \<open>One call\<close>

lemma scan_result:
  "pending_ok pd \<Longrightarrow> scan pd xs k = Inr (pd', j) \<Longrightarrow>
   k \<le> j \<and> j - k \<le> length xs \<and> pd' = pd @ take (j - k) xs \<and>
   (wf_bytes pd' \<or> pending_ok pd' \<and> j - k = length xs)"
proof (induction xs arbitrary: pd k)
  case (Cons b xs)
  show ?case
  proof (cases "\<not> wf_bytes (pd @ [b]) \<and> pfx_bytes (pd @ [b])")
    case True
    then have "pending_ok (pd @ [b])" "scan (pd @ [b]) xs (Suc k) = Inr (pd', j)"
      using Cons.prems by (auto simp: pending_ok_def)
    note ih = Cons.IH [OF this]
    then have "j - k = Suc (j - Suc k)" by linarith
    then show ?thesis using ih by auto
  next
    case False
    then show ?thesis using Cons.prems by (auto split: if_splits)
  qed
qed simp

lemma scan_fail_bound: "scan pd xs k = Inl j \<Longrightarrow> k \<le> j \<and> j \<le> k + length xs"
proof (induction xs arbitrary: pd k)
  case (Cons b xs)
  show ?case
  proof (cases "\<not> wf_bytes (pd @ [b]) \<and> pfx_bytes (pd @ [b])")
    case True
    then have "scan (pd @ [b]) xs (Suc k) = Inl j" using Cons.prems by auto
    from Cons.IH [OF this] show ?thesis by simp
  next
    case False
    then show ?thesis using Cons.prems by (auto simp: fail_at_def split: if_splits)
  qed
qed simp

lemma scan_shift:
  "scan pd xs (k + d) = (case scan pd xs k of Inl j \<Rightarrow> Inl (j + d) | Inr (pd', j) \<Rightarrow> Inr (pd', j + d))"
proof (induction xs arbitrary: pd k)
  case (Cons b xs)
  show ?case using Cons.IH [of "pd @ [b]" "Suc k"] by (simp add: fail_at_def)
qed simp

lemma scan_append:
  "\<not> wf_bytes pd \<Longrightarrow> scan pd (xs @ ys) k = (case scan pd xs k of Inl j \<Rightarrow> Inl j
     | Inr (pd', j) \<Rightarrow> if wf_bytes pd' then Inr (pd', j) else scan pd' ys j)"
  by (induction xs arbitrary: pd k) simp_all

lemma pending_not_wf: "pending_ok pd \<Longrightarrow> \<not> wf_bytes pd"
  using wf_not_pfx by (auto simp: pending_ok_def)

lemma decode_utf8_state_of:
  assumes pd: "pending_ok pd"
  shows "decode_utf8 (state_of pd) input =
    (case scan pd input 0 of Inl j \<Rightarrow> (Invalid j, mb_new)
     | Inr (pd', j) \<Rightarrow>
         if wf_bytes pd' then (Complete (word_of_int (scalar_of (map uint pd'))) j, mb_new)
         else (Incomplete j, state_of pd'))"
proof (cases "scan pd input 0")
  case (Inl j)
  have "decode_loop input (pad pd) (length pd) (elen pd) 0 = Inl j"
    using decode_loop_scan [of pd 0 input] pd Inl by (simp add: pending_ok_def)
  then show ?thesis
    using not_corrupted_state_of [OF pd] Inl by (simp add: decode_utf8_def state_of_sel [OF pd])
next
  case (Inr r)
  obtain pd' j where r: "r = (pd', j)" by (cases r)
  have loop: "decode_loop input (pad pd) (length pd) (elen pd) 0 = Inr (pad pd', length pd', elen pd', j)"
    using decode_loop_scan [of pd 0 input] pd Inr r by (simp add: pending_ok_def)
  have res: "wf_bytes pd' \<or> pending_ok pd'" using scan_result [OF pd Inr [unfolded r]] by blast
  have "elen pd' = 0 \<or> length pd' < elen pd' \<longleftrightarrow> \<not> wf_bytes pd'"
    using res wf_bytes_elen [of pd'] pfx_bytes_elen [of pd'] wf_not_pfx [of pd']
    by (auto simp: pending_ok_def)
  moreover have "wf_bytes pd' \<Longrightarrow> decode_utf8_scalar (pad pd') (elen pd') =
      Some (word_of_int (scalar_of (map uint pd')))"
    using decode_utf8_scalar_pad [of pd'] wf_bytes_elen [of pd'] by simp
  moreover have "set_partial (pad pd') (length pd') (elen pd') = state_of pd'"
    by (simp add: state_of_def)
  ultimately show ?thesis
    using not_corrupted_state_of [OF pd] Inr r loop
    by (simp add: decode_utf8_def state_of_sel [OF pd])
qed

text \<open>What is left over is exactly what some character can still complete.\<close>

lemma pfx_seq_completable:
  assumes "pfx_seq xs"
  shows "\<exists>ys. ys \<noteq> [] \<and> wf_seq (xs @ ys)"
proof -
  define lo :: "int \<Rightarrow> int" where "lo a = (if a = 224 then 160 else if a = 240 then 144 else 128)" for a
  have lo: "second_ok a (lo a)" if "224 \<le> a" "a \<le> 244" for a
    using that by (auto simp: lo_def seq_defs)
  have c: "cont 128" by (simp add: cont_def)
  consider a where "xs = [a]" | a b where "xs = [a, b]" | a b d where "xs = [a, b, d]"
    using assms by (cases xs rule: pfx_seq.cases) auto
  then show ?thesis
  proof cases
    case 1
    then have "194 \<le> a \<and> a \<le> 223 \<or> 224 \<le> a \<and> a \<le> 239 \<or> 240 \<le> a \<and> a \<le> 244"
      using assms by auto
    then have "wf_seq (xs @ [128]) \<or> wf_seq (xs @ [lo a, 128]) \<or> wf_seq (xs @ [lo a, 128, 128])"
      using 1 lo [of a] c by auto
    then show ?thesis by blast
  next
    case 2
    then have "wf_seq (xs @ [128]) \<or> wf_seq (xs @ [128, 128])" using assms c by auto
    then show ?thesis by blast
  next
    case 3
    then have "wf_seq (xs @ [128])" using assms c by auto
    then show ?thesis by blast
  qed
qed

lemma wf_seq_proper_prefix:
  "wf_seq (xs @ ys) \<Longrightarrow> xs \<noteq> [] \<Longrightarrow> ys \<noteq> [] \<Longrightarrow> pfx_seq xs"
  by (cases "xs @ ys" rule: wf_seq.cases)
    (auto simp: append_eq_Cons_conv)

lemma pfx_bytes_completable:
  assumes "xs \<noteq> []"
  shows "pfx_bytes xs \<longleftrightarrow> (\<exists>ys. ys \<noteq> [] \<and> wf_bytes (xs @ ys))"
proof
  assume "pfx_bytes xs"
  then obtain ys where ys: "ys \<noteq> []" "wf_seq (map uint xs @ ys)" using pfx_seq_completable by blast
  have bytes: "\<forall>y \<in> set (map uint xs @ ys). 0 \<le> y \<and> y < 256"
    using ys(2) by (cases "map uint xs @ ys" rule: wf_seq.cases) (auto simp: seq_defs)
  then have "map uint (map word_of_int ys :: u8 list) = ys"
    by (auto simp: o_def unsigned_of_int take_bit_int_eq_self intro!: map_idI)
  then have "map uint (xs @ map word_of_int ys) = map uint xs @ ys" by simp
  then have "wf_bytes (xs @ map word_of_int ys)" using ys(2) by (simp only:)
  then show "\<exists>ys. ys \<noteq> [] \<and> wf_bytes (xs @ ys)" using ys(1) by (intro exI [of _ "map word_of_int ys"]) simp
next
  assume "\<exists>ys. ys \<noteq> [] \<and> wf_bytes (xs @ ys)"
  then show "pfx_bytes xs" using wf_seq_proper_prefix [of "map uint xs"] assms by auto
qed

lemma decode_utf8_corrupted: "state_is_corrupted st \<Longrightarrow> decode_utf8 st input = (Invalid 0, mb_new)"
  by (simp add: decode_utf8_def)

text \<open>The whole decoder on the initial state, read off the input.\<close>

lemma wf_bytes_utf8_of: "wf_bytes xs \<longleftrightarrow> (\<exists>cp :: u32. is_scalar (uint cp) \<and> xs = utf8_of (uint cp))"
proof -
  have "uint (word_of_int c :: u32) = c" if "is_scalar c" for c
    using that by (simp add: is_scalar_def unsigned_of_int take_bit_int_eq_self)
  then show ?thesis unfolding wf_seq_utf8_of by metis
qed

lemma scan_wf_whole:
  assumes "pending_ok pd" "wf_bytes (pd @ xs)" "xs \<noteq> []"
  shows "scan pd (xs @ ys) k = Inr (pd @ xs, k + length xs)"
  using assms
proof (induction xs arbitrary: pd k)
  case (Cons b xs)
  show ?case
  proof (cases "xs = []")
    case False
    then have "pfx_bytes (pd @ [b])"
      using Cons.prems wf_seq_proper_prefix [of "map uint (pd @ [b])" "map uint xs"] by simp
    then show ?thesis
      using Cons.IH [of "pd @ [b]" "Suc k"] Cons.prems False wf_not_pfx [of "pd @ [b]"]
      by (auto simp: pending_ok_def)
  qed (use Cons.prems in simp)
qed simp

lemma scan_pending_whole:
  assumes "pending_ok pd" "pending_ok (pd @ xs)"
  shows "scan pd xs k = Inr (pd @ xs, k + length xs)"
  using assms
proof (induction xs arbitrary: pd k)
  case (Cons b xs)
  have "pfx_bytes (pd @ [b])"
  proof (cases "xs = []")
    case False
    have "pfx_bytes (pd @ [b] @ xs)" using Cons.prems by (simp add: pending_ok_def)
    then obtain ys where "wf_bytes ((pd @ [b] @ xs) @ ys)" using pfx_bytes_completable by blast
    then show ?thesis
      using wf_seq_proper_prefix [of "map uint (pd @ [b])" "map uint (xs @ ys)"] False by simp
  qed (use Cons.prems in \<open>simp add: pending_ok_def\<close>)
  then show ?case
    using Cons.IH [of "pd @ [b]" "Suc k"] Cons.prems wf_not_pfx [of "pd @ [b]"]
    by (auto simp: pending_ok_def)
qed simp

lemma decode_utf8_new: "decode_utf8 mb_new input =
    (case scan [] input 0 of Inl j \<Rightarrow> (Invalid j, mb_new)
     | Inr (pd', j) \<Rightarrow>
         if wf_bytes pd' then (Complete (word_of_int (scalar_of (map uint pd'))) j, mb_new)
         else (Incomplete j, state_of pd'))"
  using decode_utf8_state_of [of "[]" input] by (simp add: state_of_Nil pending_ok_def)

lemma decode_utf8_complete:
  "is_scalar (uint cp) \<Longrightarrow> decode_utf8 mb_new (utf8_of (uint cp) @ rest) =
    (Complete cp (length (utf8_of (uint cp))), mb_new)"
proof -
  let ?bs = "utf8_of (uint cp)"
  assume cp: "is_scalar (uint cp)"
  then have wf: "wf_bytes ?bs" and "?bs \<noteq> []"
    using wf_seq_utf8_of [of ?bs] utf8_of_length [of "uint cp"] by auto
  then have "scan [] (?bs @ rest) 0 = Inr (?bs, length ?bs)"
    using scan_wf_whole [of "[]" ?bs rest 0] by (simp add: pending_ok_def)
  with wf show ?thesis by (simp add: decode_utf8_new scalar_of_utf8_of [OF cp])
qed

lemma decode_utf8_complete_conv:
  assumes "decode_utf8 mb_new input = (Complete cp n, st')"
  shows "is_scalar (uint cp) \<and> take n input = utf8_of (uint cp) \<and> n = length (utf8_of (uint cp)) \<and>
    st' = mb_new"
proof -
  obtain pd' where *: "scan [] input 0 = Inr (pd', n)" "wf_bytes pd'" "st' = mb_new"
    "cp = word_of_int (scalar_of (map uint pd'))"
    using assms unfolding decode_utf8_new by (auto split: sum.splits prod.splits if_splits)
  have res: "pd' = take n input" "n \<le> length input"
    using scan_result [OF _ *(1)] by (auto simp: pending_ok_def)
  obtain d :: u32 where d: "is_scalar (uint d)" "pd' = utf8_of (uint d)" using *(2) wf_bytes_utf8_of by blast
  have "cp = d" using *(4) d by (simp add: scalar_of_utf8_of)
  then show ?thesis using d res *(3) by (metis length_take min.absorb2)
qed

text \<open>The codec interface on the code's decoder, started in the initial state.\<close>

definition utf8_dec :: "u8 list \<Rightarrow> (u32 \<times> nat) option" where
  "utf8_dec input = (case decode_utf8 mb_new input of (Complete cp n, _) \<Rightarrow> Some (cp, n) | _ \<Rightarrow> None)"

definition utf8_enc :: "u32 \<Rightarrow> u8 list" where
  "utf8_enc cp = utf8_of (uint cp)"

definition scalar_value :: "u32 \<Rightarrow> bool" where
  "scalar_value cp \<longleftrightarrow> is_scalar (uint cp)"

interpretation utf8: prefix_codec utf8_enc scalar_value utf8_dec
proof
  fix a rest
  assume "scalar_value a"
  then show "utf8_enc a \<noteq> []" "utf8_dec (utf8_enc a @ rest) = Some (a, length (utf8_enc a))"
    using utf8_of_length [of "uint a"]
    by (auto simp: utf8_enc_def scalar_value_def utf8_dec_def decode_utf8_complete)
next
  fix xs a n
  assume "utf8_dec xs = Some (a, n)"
  then show "scalar_value a \<and> n = length (utf8_enc a) \<and> take n xs = utf8_enc a"
    using decode_utf8_complete_conv [of xs a n]
    by (auto simp: utf8_enc_def scalar_value_def utf8_dec_def split: prod.splits Utf8DecodeResult.splits)
qed

text \<open>The definitions that evaluate the decoder on concrete bytes.\<close>

lemmas decode_eval = mb_new_def MAX_UTF8_BYTES_def decode_utf8_def state_is_corrupted_def
  decode_loop.simps expected_len_from_lead_byte_def is_continuation_byte_def decode_utf8_scalar_def
  partial_prefix_is_valid_def short_bytes_are_zero_def bytes_are_zero_def set_partial_def

section \<open>Properties\<close>

text \<open>
  C6. The encoder fails exactly on the code points that are not scalar values (surrogates, and
  everything above \<open>0x10FFFF\<close>); otherwise it writes one to four bytes over the start of the
  buffer, from which the decoder gives back the code point and the number of bytes, whatever
  follows, while on every proper prefix of these bytes it asks for more.
\<close>

theorem utf8_roundtrip:
  assumes "length output = MAX_UTF8_BYTES"
  shows "(encode_utf8 cp output = Inl InvalidScalarValue \<longleftrightarrow> \<not> scalar_value cp) \<and>
    (case encode_utf8 cp output of Inl _ \<Rightarrow> True
     | Inr (n, out) \<Rightarrow> 1 \<le> n \<and> n \<le> 4 \<and> length out = MAX_UTF8_BYTES \<and>
         drop n out = drop n output \<and>
         (\<forall>rest. decode_utf8 mb_new (take n out @ rest) = (Complete cp n, mb_new)) \<and>
         (\<forall>k < n. fst (decode_utf8 mb_new (take k out)) = Incomplete k))"
proof (cases "scalar_value cp")
  case False
  moreover have "sint cp = uint cp" if "uint cp < 2 ^ 31" using that by (rule sint_u32_small)
  ultimately have "encode_utf8 cp output = Inl InvalidScalarValue"
    by (cases "uint cp < 2 ^ 31") (simp_all add: encode_utf8_def encode_utf8_scalar_eq scalar_value_def)
  then show ?thesis using False by simp
next
  case True
  let ?bs = "utf8_of (uint cp)"
  have cp: "is_scalar (uint cp)" "uint cp < 2 ^ 31" "sint cp = uint cp"
    using True is_scalar_0_upper [of "uint cp"] sint_u32_small [of cp] by (auto simp: scalar_value_def)
  have len: "1 \<le> length ?bs" "length ?bs \<le> 4" using utf8_of_length by auto
  have enc: "encode_utf8 cp output = Inr (length ?bs, ?bs @ drop (length ?bs) output)"
    using cp by (simp add: encode_utf8_def encode_utf8_scalar_eq pad_def)
  have "fst (decode_utf8 mb_new (take k ?bs)) = Incomplete k" if k: "k < length ?bs" for k
  proof -
    have "wf_bytes (take k ?bs @ drop k ?bs)" using cp(1) wf_seq_utf8_of [of ?bs] by auto
    then have "pending_ok (take k ?bs)"
      using wf_seq_proper_prefix [of "map uint (take k ?bs)" "map uint (drop k ?bs)"] k
      by (cases "take k ?bs = []") (auto simp: pending_ok_def simp flip: map_append)
    then show ?thesis
      using scan_pending_whole [of "[]" "take k ?bs" 0] k pending_not_wf
      by (simp add: decode_utf8_new pending_ok_def)
  qed
  then show ?thesis
    using True len assms decode_utf8_complete [OF cp(1)] by (simp add: enc MAX_UTF8_BYTES_def)
qed

theorem utf8_roundtrip_witness:
  "encode_utf8 0x20AC [0, 0, 0, 7] = Inr (3, [0xE2, 0x82, 0xAC, 7]) \<and>
   decode_utf8 mb_new [0xE2, 0x82, 0xAC, 0x41] = (Complete 0x20AC 3, mb_new)"
proof -
  have enc: "encode_utf8 0x20AC [0, 0, 0, 7] = Inr (3, [0xE2, 0x82, 0xAC, 7])"
    by (simp add: encode_utf8_def encode_utf8_scalar_def)
  then show ?thesis
    using utf8_roundtrip [of "[0, 0, 0, 7]" "0x20AC"] by (auto simp: MAX_UTF8_BYTES_def enc)
qed

text \<open>
  The decoder, started in the initial state, completes a character exactly when the input
  starts with the canonical (shortest) encoding of a scalar value; it returns that value, its
  length, and the initial state. In particular it accepts no overlong form and no surrogate.
\<close>

theorem decode_complete_iff:
  "decode_utf8 mb_new input = (Complete cp n, st') \<longleftrightarrow>
   scalar_value cp \<and> n = length (utf8_of (uint cp)) \<and> take n input = utf8_of (uint cp) \<and> st' = mb_new"
proof
  assume "decode_utf8 mb_new input = (Complete cp n, st')"
  from decode_utf8_complete_conv [OF this] show "scalar_value cp \<and> n = length (utf8_of (uint cp)) \<and>
    take n input = utf8_of (uint cp) \<and> st' = mb_new" unfolding scalar_value_def by blast
next
  assume *: "scalar_value cp \<and> n = length (utf8_of (uint cp)) \<and> take n input = utf8_of (uint cp) \<and> st' = mb_new"
  then have "input = utf8_of (uint cp) @ drop n input" using append_take_drop_id [of n input] by metis
  with * show "decode_utf8 mb_new input = (Complete cp n, st')"
    using decode_utf8_complete [of cp "drop n input"] by (simp add: scalar_value_def)
qed

text \<open>
  The decoder asks for more input exactly when it has read everything and the input is a
  proper prefix of the encoding of some scalar value; the state it leaves holds exactly the
  input.
\<close>

theorem decode_incomplete_iff:
  "decode_utf8 mb_new input = (Incomplete n, st') \<longleftrightarrow>
   n = length input \<and> st' = state_of input \<and>
   (\<exists>cp rest. scalar_value cp \<and> rest \<noteq> [] \<and> utf8_of (uint cp) = input @ rest)"
proof -
  have ext: "(\<exists>cp rest. scalar_value cp \<and> rest \<noteq> [] \<and> utf8_of (uint cp) = input @ rest) \<longleftrightarrow> pending_ok input"
  proof (cases "input = []")
    case True
    moreover have "scalar_value 0" "utf8_of (uint (0 :: u32)) \<noteq> []"
      using utf8_of_length [of "uint (0 :: u32)"] by (auto simp: scalar_value_def is_scalar_def)
    ultimately show ?thesis by (metis append_Nil pending_ok_def)
  next
    case False
    then show ?thesis
      unfolding pending_ok_def scalar_value_def
      by (metis pfx_bytes_completable wf_bytes_utf8_of)
  qed
  have "decode_utf8 mb_new input = (Incomplete n, st') \<longleftrightarrow>
    n = length input \<and> st' = state_of input \<and> pending_ok input"
    using scan_result [of "[]" input 0] scan_pending_whole [of "[]" input 0] pending_not_wf [of input]
    by (auto simp: decode_utf8_new pending_ok_def split: sum.splits)
  then show ?thesis unfolding ext .
qed

definition shift_result :: "nat \<Rightarrow> Utf8DecodeResult \<Rightarrow> Utf8DecodeResult" where
  "shift_result d r = (case r of Complete cp n \<Rightarrow> Complete cp (n + d)
     | Incomplete n \<Rightarrow> Incomplete (n + d) | Invalid n \<Rightarrow> Invalid (n + d))"

lemma decode_utf8_append:
  assumes "mb_typed st"
  shows "decode_utf8 st (xs @ ys) =
    (case decode_utf8 st xs of
       (Incomplete n, st') \<Rightarrow> (let (r, st'') = decode_utf8 st' ys in (shift_result n r, st''))
     | (r, st') \<Rightarrow> (r, st'))"
proof (cases "state_is_corrupted st")
  case True
  then show ?thesis by (simp add: decode_utf8_corrupted)
next
  case False
  then obtain pd where pd: "pending_ok pd" "st = state_of pd"
    using not_corrupted_iff [OF assms] by (auto simp: mb_ok_def)
  show ?thesis
  proof (cases "scan pd xs 0")
    case (Inl j)
    then show ?thesis
      by (simp add: pd(2) decode_utf8_state_of [OF pd(1)] scan_append pending_not_wf [OF pd(1)])
  next
    case (Inr r)
    obtain pd' j where r: "r = (pd', j)" by (cases r)
    have "wf_bytes pd' \<or> pending_ok pd'" using scan_result [OF pd(1) Inr [unfolded r]] by blast
    then show ?thesis
      using scan_shift [of pd' ys 0 j] Inr r pending_not_wf [of pd']
      by (cases "wf_bytes pd'")
        (auto simp: pd(2) decode_utf8_state_of pd(1) scan_append pending_not_wf shift_result_def
          split: sum.splits prod.splits)
  qed
qed

text \<open>
  C7. Feeding a text in two pieces, keeping the state between the calls, gives what feeding it
  whole gives: the same result, with the consumed bytes added up, and the same final state. The
  state may be any array of the right size, corrupted ones included.
\<close>

theorem decode_utf8_chunks:
  assumes "mb_typed st"
  shows "decode_utf8 st (xs @ ys) =
    (case decode_utf8 st xs of
       (Incomplete n, st') \<Rightarrow> (let (r, st'') = decode_utf8 st' ys in (shift_result n r, st''))
     | (r, st') \<Rightarrow> (r, st'))"
  using assms by (rule decode_utf8_append)

theorem decode_utf8_chunks_witness:
  "decode_utf8 mb_new ([0xF0, 0x9F] @ [0x98, 0x80, 0x41]) = (Complete 0x1F600 4, mb_new)"
  by (subst decode_utf8_chunks)
    (simp_all add: mb_typed_def decode_eval shift_result_def)

text \<open>
  Every call leaves a state in which the bytes stored are a genuine start of a character
  (or nothing); a state that is not one, such as stale bytes, a wrong length, or non-zero
  reserved bytes, is detected, reported as invalid with no byte consumed, and reset.
\<close>

theorem decode_utf8_state_invariant:
  assumes "mb_typed st"
  shows "mb_ok (snd (decode_utf8 st input)) \<and>
    (\<not> mb_ok st \<longrightarrow> decode_utf8 st input = (Invalid 0, mb_new))"
proof (cases "mb_ok st")
  case True
  then obtain pd where pd: "pending_ok pd" "st = state_of pd" by (auto simp: mb_ok_def)
  have "mb_ok (state_of pd')" if "scan pd input 0 = Inr (pd', j)" "\<not> wf_bytes pd'" for pd' j
    using scan_result [OF pd(1) that(1)] that(2) by (auto simp: mb_ok_def)
  then show ?thesis
    using True mb_ok_new by (auto simp: pd(2) decode_utf8_state_of [OF pd(1)] split: sum.splits)
next
  case False
  then show ?thesis using not_corrupted_iff [OF assms] mb_ok_new by (simp add: decode_utf8_corrupted)
qed

theorem decode_utf8_state_invariant_witness:
  "decode_utf8 \<lparr>mb_bytes = [0xE0, 0x80, 0, 0], mb_pending_len = 2, mb_expected_len = 3,
     mb_reserved = (0, 0)\<rparr> [0x80] = (Invalid 0, mb_new)"
proof -
  let ?st = "\<lparr>mb_bytes = [0xE0, 0x80, 0, 0], mb_pending_len = 2, mb_expected_len = 3,
     mb_reserved = (0, 0)\<rparr>"
  have "mb_typed ?st" by (simp add: mb_typed_def MAX_UTF8_BYTES_def)
  moreover from this have "\<not> mb_ok ?st"
    by (subst not_corrupted_iff [symmetric])
      (simp_all add: state_is_corrupted_def partial_prefix_is_valid_def short_bytes_are_zero_def
        MAX_UTF8_BYTES_def expected_len_from_lead_byte_def)
  ultimately show ?thesis using decode_utf8_state_invariant [of ?st "[0x80]"] by simp
qed

end
