(* ===== verification/Wchar.thy ===== *)
theory Wchar
  imports Utf8_Stream
begin

text \<open>
  The multibyte entry points of \<^verbatim>\<open>src/src/wchar/mod.rs\<close> on memory. Wide strings, pointer cells and
  \<^verbatim>\<open>mbstate_t\<close> objects are kept in maps of their own, by address (a \<^verbatim>\<open>wchar_t\<close> takes four
  addresses); \<open>internal_state\<close> is the thread-local state used for a null \<^verbatim>\<open>ps\<close>. A \<^verbatim>\<open>size_t\<close>
  result is a natural number, with the two error values at the top of its range.

  \<^verbatim>\<open>mbrtowc_with_state\<close> is a function of the state object's value: it returns the result, the
  wide character to store (if any), the new state and the \<^verbatim>\<open>errno\<close> to set (if any), and its callers
  store them. The lemmas show that it is the decoder of \<open>Utf8\<close>, that the string conversions are
  the codec's \<open>decode_all\<close> and its encoder, and that a text survives both.
\<close>

section \<open>Definitions\<close>

record wmachine = machine +
  wides :: "addr \<rightharpoonup> c_int"
  mbstates :: "addr \<rightharpoonup> mbstate_t"
  internal_state :: mbstate_t

definition MBR_ERR_INVALID :: nat where "MBR_ERR_INVALID = 2 ^ 64 - 1"
definition MBR_ERR_INCOMPLETE :: nat where "MBR_ERR_INCOMPLETE = 2 ^ 64 - 1 - 1"
definition MB_ERR :: c_int where "MB_ERR = -1"

definition wchar_size :: nat where "wchar_size = 4"

definition load_state :: "addr \<Rightarrow> 'z wmachine_scheme \<Rightarrow> mbstate_t option" where
  "load_state ps w = (if ps = null then Some (internal_state w) else mbstates w ps)"

definition store_state :: "addr \<Rightarrow> mbstate_t \<Rightarrow> 'z wmachine_scheme \<Rightarrow> 'z wmachine_scheme option" where
  "store_state ps st w =
     (if ps = null then Some (w\<lparr>internal_state := st\<rparr>)
      else if mbstates w ps = None then None
      else Some (w\<lparr>mbstates := (mbstates w)(ps \<mapsto> st)\<rparr>))"

definition write_wide :: "addr \<Rightarrow> c_int \<Rightarrow> 'z wmachine_scheme \<Rightarrow> 'z wmachine_scheme option" where
  "write_wide p v w = (if wides w p = None then None else Some (w\<lparr>wides := (wides w)(p \<mapsto> v)\<rparr>))"

primrec write_bytes :: "mem \<Rightarrow> addr \<Rightarrow> u8 list \<Rightarrow> mem option" where
  "write_bytes m p [] = Some m"
| "write_bytes m p (b # bs) = do { m \<leftarrow> write_u8 m p b; write_bytes m (Suc p) bs }"

text \<open>\<^verbatim>\<open>reset_state_and_fail\<close>: the result, no wide character, the initial state, \<^verbatim>\<open>EILSEQ\<close>.\<close>

type_synonym mbr_outcome = "nat \<times> c_int option \<times> mbstate_t \<times> c_int option"

definition reset_state_and_fail :: mbr_outcome where
  "reset_state_and_fail = (MBR_ERR_INVALID, None, mb_new, Some EILSEQ)"

text \<open>The decoding loop on memory; \<open>Inl\<close> is the early return through \<^verbatim>\<open>reset_state_and_fail\<close>.\<close>

function mbrtowc_loop ::
  "mem \<Rightarrow> addr \<Rightarrow> nat \<Rightarrow> u8 list \<Rightarrow> nat \<Rightarrow> nat \<Rightarrow> nat \<Rightarrow>
   (unit + u8 list \<times> nat \<times> nat \<times> nat) option" where
  "mbrtowc_loop m s max_input bs buffered_len expected_len consumed =
     (if buffered_len < MAX_UTF8_BYTES then
        if expected_len \<noteq> 0 \<and> buffered_len = expected_len
        then Some (Inr (bs, buffered_len, expected_len, consumed))
        else if consumed = max_input then Some (Inr (bs, buffered_len, expected_len, consumed))
        else
          (case m (s + consumed) of
             None \<Rightarrow> None
           | Some byte \<Rightarrow>
               (case (if buffered_len = 0 then expected_len_from_lead_byte byte
                      else if \<not> is_continuation_byte byte then None
                      else Some expected_len) of
                  None \<Rightarrow> Some (Inl ())
                | Some expected_len \<Rightarrow>
                    (let bs = bs[buffered_len := byte];
                         buffered_len = buffered_len + 1;
                         consumed = consumed + 1
                     in if buffered_len < expected_len \<and>
                           \<not> partial_prefix_is_valid bs buffered_len expected_len
                        then Some (Inl ())
                        else mbrtowc_loop m s max_input bs buffered_len expected_len consumed)))
      else Some (Inr (bs, buffered_len, expected_len, consumed)))"
  by pat_completeness auto
termination
  by (relation "measure (\<lambda>(m, s, n, bs, buffered_len, expected_len, consumed). 4 - buffered_len)")
    (auto simp: MAX_UTF8_BYTES_def)

declare mbrtowc_loop.simps [simp del]

text \<open>\<^verbatim>\<open>wchar_t::try_from(scalar)\<close> fails (\<^verbatim>\<open>unreachable!\<close>) above \<^verbatim>\<open>i32::MAX\<close>.\<close>

definition mbrtowc_with_state :: "mem \<Rightarrow> addr \<Rightarrow> nat \<Rightarrow> mbstate_t \<Rightarrow> mbr_outcome option" where
  "mbrtowc_with_state m s n st =
     (if s = null then Some (0, Some 0, mb_new, None)
      else if state_is_corrupted st then Some reset_state_and_fail
      else if n = 0 then Some (MBR_ERR_INCOMPLETE, None, st, None)
      else do {
        left \<leftarrow> mbrtowc_loop m s n (mb_bytes st) (unat (mb_pending_len st))
                  (unat (mb_expected_len st)) 0;
        (case left of
           Inl _ \<Rightarrow> Some reset_state_and_fail
         | Inr (bs, buffered_len, expected_len, consumed) \<Rightarrow>
             if expected_len = 0 \<or> buffered_len < expected_len
             then Some (MBR_ERR_INCOMPLETE, None, set_partial bs buffered_len expected_len, None)
             else (case decode_utf8_scalar bs expected_len of
                 None \<Rightarrow> Some reset_state_and_fail
               | Some scalar \<Rightarrow> do {
                   wide \<leftarrow> try_i32 (uint scalar);
                   Some (if scalar = 0 then 0 else consumed, Some wide, mb_new, None) })) })"

definition set_errno_if :: "c_int option \<Rightarrow> 'z machine_scheme \<Rightarrow> 'z machine_scheme" where
  "set_errno_if e w = (case e of None \<Rightarrow> w | Some v \<Rightarrow> set_errno v w)"

definition mbrtowc ::
  "addr \<Rightarrow> addr \<Rightarrow> nat \<Rightarrow> addr \<Rightarrow> 'z wmachine_scheme \<Rightarrow> (nat \<times> 'z wmachine_scheme) option" where
  "mbrtowc pwc s n ps w = do {
     st \<leftarrow> load_state ps w;
     (result, wide, st, e) \<leftarrow> mbrtowc_with_state (bytes w) s n st;
     w \<leftarrow> store_state ps st w;
     w \<leftarrow> (case wide of Some v \<Rightarrow> if pwc = null then Some w else write_wide pwc v w | None \<Rightarrow> Some w);
     Some (result, set_errno_if e w) }"

definition mbrlen :: "addr \<Rightarrow> nat \<Rightarrow> addr \<Rightarrow> 'z wmachine_scheme \<Rightarrow> (nat \<times> 'z wmachine_scheme) option" where
  "mbrlen s n ps w = mbrtowc null s n ps w"

definition mbsinit :: "addr \<Rightarrow> 'z wmachine_scheme \<Rightarrow> c_int option" where
  "mbsinit ps w =
     (if ps = null then Some 1
      else do { st \<leftarrow> mbstates w ps; Some (if is_initial st then 1 else 0) })"

text \<open>\<^verbatim>\<open>reset_state_and_fail(state)\<close> on the state object \<^verbatim>\<open>ps\<close>.\<close>

definition fail_state :: "addr \<Rightarrow> 'z wmachine_scheme \<Rightarrow> (nat \<times> 'z wmachine_scheme) option" where
  "fail_state ps w = do {
     w \<leftarrow> store_state ps mb_new w;
     Some (MBR_ERR_INVALID, set_errno EILSEQ w) }"

definition wcrtomb ::
  "addr \<Rightarrow> c_int \<Rightarrow> addr \<Rightarrow> 'z wmachine_scheme \<Rightarrow> (nat \<times> 'z wmachine_scheme) option" where
  "wcrtomb s wc ps w = do {
     st \<leftarrow> load_state ps w;
     if s = null then do { w \<leftarrow> store_state ps mb_new w; Some (1, w) }
     else if \<not> is_initial st then fail_state ps w
     else (case encode_utf8_scalar wc of
         None \<Rightarrow> fail_state ps w
       | Some (encoded, encoded_len) \<Rightarrow> do {
           m \<leftarrow> write_bytes (bytes w) s (take encoded_len encoded);
           w \<leftarrow> store_state ps mb_new (w\<lparr>bytes := m\<rparr>);
           Some (encoded_len, w) }) }"

definition size_t_error_with_eilseq :: "'z machine_scheme \<Rightarrow> nat \<times> 'z machine_scheme" where
  "size_t_error_with_eilseq w = (2 ^ 64 - 1, set_errno EILSEQ w)"

partial_function (option) bytes_until_nul :: "mem \<Rightarrow> addr \<Rightarrow> nat \<Rightarrow> nat option" where
  "bytes_until_nul m p len = do {
     byte \<leftarrow> m (p + len);
     if byte = 0 then Some len else bytes_until_nul m p (len + 1) }"

text \<open>The counting loop of \<^verbatim>\<open>mbsrtowcs\<close> (null \<^verbatim>\<open>dst\<close>): it advances the state object, too.\<close>

partial_function (option) mbsrtowcs_count ::
  "addr \<Rightarrow> addr \<Rightarrow> nat \<Rightarrow> 'z wmachine_scheme \<Rightarrow> (nat \<times> 'z wmachine_scheme) option" where
  "mbsrtowcs_count ps input_cursor converted w = do {
     until \<leftarrow> bytes_until_nul (bytes w) input_cursor 0;
     st \<leftarrow> load_state ps w;
     (result, wide, st, e) \<leftarrow> mbrtowc_with_state (bytes w) input_cursor (until + 1) st;
     w \<leftarrow> store_state ps st w;
     let w = set_errno_if e w;
     if result = MBR_ERR_INVALID then Some (MBR_ERR_INVALID, w)
     else if result = MBR_ERR_INCOMPLETE then fail_state ps w
     else if result = 0 then Some (converted, w)
     else mbsrtowcs_count ps (input_cursor + result) (converted + 1) w }"

text \<open>The converting loop; \<^verbatim>\<open>wide\<close> is a local variable, 0 unless the call stored a character.\<close>

function mbsrtowcs_loop ::
  "addr \<Rightarrow> addr \<Rightarrow> nat \<Rightarrow> addr \<Rightarrow> addr \<Rightarrow> nat \<Rightarrow> 'z wmachine_scheme \<Rightarrow>
   (nat \<times> 'z wmachine_scheme) option" where
  "mbsrtowcs_loop dst src capacity ps input_cursor output_index w =
     (if output_index < capacity then do {
        until \<leftarrow> bytes_until_nul (bytes w) input_cursor 0;
        st \<leftarrow> load_state ps w;
        (result, wide, st, e) \<leftarrow> mbrtowc_with_state (bytes w) input_cursor (until + 1) st;
        w \<leftarrow> store_state ps st w;
        let w = set_errno_if e w;
        if result = MBR_ERR_INVALID then do {
          w \<leftarrow> write_ptr src input_cursor w;
          Some (MBR_ERR_INVALID, w) }
        else if result = MBR_ERR_INCOMPLETE then do {
          w \<leftarrow> write_ptr src input_cursor w;
          fail_state ps w }
        else if result = 0 then do {
          w \<leftarrow> write_wide (dst + wchar_size * output_index) 0 w;
          w \<leftarrow> write_ptr src null w;
          Some (output_index, w) }
        else do {
          w \<leftarrow> write_wide (dst + wchar_size * output_index) (case wide of Some v \<Rightarrow> v | None \<Rightarrow> 0) w;
          mbsrtowcs_loop dst src capacity ps (input_cursor + result) (output_index + 1) w } }
      else do {
        w \<leftarrow> write_ptr src input_cursor w;
        Some (output_index, w) })"
  by pat_completeness auto
termination
  by (relation "measure (\<lambda>(dst, src, capacity, ps, cursor, output_index, w). capacity - output_index)") auto

declare mbsrtowcs_loop.simps [simp del]

definition mbsrtowcs ::
  "addr \<Rightarrow> addr \<Rightarrow> nat \<Rightarrow> addr \<Rightarrow> 'z wmachine_scheme \<Rightarrow> (nat \<times> 'z wmachine_scheme) option" where
  "mbsrtowcs dst src len ps w =
     (if src = null then Some (size_t_error_with_eilseq w)
      else do {
        input_cursor \<leftarrow> ptrs w src;
        if input_cursor = null then do { w \<leftarrow> store_state ps mb_new w; Some (0, w) }
        else if dst = null then mbsrtowcs_count ps input_cursor 0 w
        else if len = 0 then Some (0, w)
        else mbsrtowcs_loop dst src len ps input_cursor 0 w })"

text \<open>The two loops of \<^verbatim>\<open>wcsrtombs\<close>.\<close>

partial_function (option) wcsrtombs_count ::
  "addr \<Rightarrow> addr \<Rightarrow> nat \<Rightarrow> 'z wmachine_scheme \<Rightarrow> (nat \<times> 'z wmachine_scheme) option" where
  "wcsrtombs_count ps input_cursor byte_count w = do {
     wide \<leftarrow> wides w input_cursor;
     if wide = 0 then do { w \<leftarrow> store_state ps mb_new w; Some (byte_count, w) }
     else (case encode_utf8_scalar wide of
         None \<Rightarrow> fail_state ps w
       | Some (_, encoded_len) \<Rightarrow>
           wcsrtombs_count ps (input_cursor + wchar_size) (byte_count + encoded_len) w) }"

partial_function (option) wcsrtombs_loop ::
  "addr \<Rightarrow> addr \<Rightarrow> nat \<Rightarrow> addr \<Rightarrow> addr \<Rightarrow> nat \<Rightarrow> 'z wmachine_scheme \<Rightarrow>
   (nat \<times> 'z wmachine_scheme) option" where
  "wcsrtombs_loop dst src capacity ps input_cursor byte_count w = do {
     wide \<leftarrow> wides w input_cursor;
     if wide = 0 then
       if byte_count < capacity then do {
         m \<leftarrow> write_u8 (bytes w) (dst + byte_count) 0;
         w \<leftarrow> write_ptr src null (w\<lparr>bytes := m\<rparr>);
         w \<leftarrow> store_state ps mb_new w;
         Some (byte_count, w) }
       else do { w \<leftarrow> write_ptr src input_cursor w; Some (byte_count, w) }
     else (case encode_utf8_scalar wide of
         None \<Rightarrow> do { w \<leftarrow> write_ptr src input_cursor w; fail_state ps w }
       | Some (encoded, encoded_len) \<Rightarrow>
           if byte_count + encoded_len > capacity
           then do { w \<leftarrow> write_ptr src input_cursor w; Some (byte_count, w) }
           else do {
             m \<leftarrow> write_bytes (bytes w) (dst + byte_count) (take encoded_len encoded);
             wcsrtombs_loop dst src capacity ps (input_cursor + wchar_size)
               (byte_count + encoded_len) (w\<lparr>bytes := m\<rparr>) }) }"

definition wcsrtombs ::
  "addr \<Rightarrow> addr \<Rightarrow> nat \<Rightarrow> addr \<Rightarrow> 'z wmachine_scheme \<Rightarrow> (nat \<times> 'z wmachine_scheme) option" where
  "wcsrtombs dst src len ps w =
     (if src = null then Some (size_t_error_with_eilseq w)
      else do {
        st \<leftarrow> load_state ps w;
        input_cursor \<leftarrow> ptrs w src;
        if input_cursor = null then do { w \<leftarrow> store_state ps mb_new w; Some (0, w) }
        else if dst \<noteq> null \<and> len = 0 then Some (0, w)
        else if \<not> is_initial st then fail_state ps w
        else if dst = null then wcsrtombs_count ps input_cursor 0 w
        else if len = 0 then Some (0, w)
        else wcsrtombs_loop dst src len ps input_cursor 0 w })"

definition reset_internal_multibyte_state :: "'z wmachine_scheme \<Rightarrow> 'z wmachine_scheme option" where
  "reset_internal_multibyte_state w = do { (_, w) \<leftarrow> mbrtowc null null 0 null w; Some w }"

definition mbr_result_to_int :: "nat \<Rightarrow> 'z machine_scheme \<Rightarrow> (c_int \<times> 'z machine_scheme) option" where
  "mbr_result_to_int result w =
     (if result = MBR_ERR_INVALID \<or> result = MBR_ERR_INCOMPLETE
      then Some (MB_ERR, if result = MBR_ERR_INCOMPLETE then set_errno EILSEQ w else w)
      else do { r \<leftarrow> try_i32 (int result); Some (r, w) })"

definition mblen :: "addr \<Rightarrow> nat \<Rightarrow> 'z wmachine_scheme \<Rightarrow> (c_int \<times> 'z wmachine_scheme) option" where
  "mblen s n w =
     (if s = null then do { w \<leftarrow> reset_internal_multibyte_state w; Some (0, w) }
      else do { (result, w) \<leftarrow> mbrlen s n null w; mbr_result_to_int result w })"

definition mbtowc :: "addr \<Rightarrow> addr \<Rightarrow> nat \<Rightarrow> 'z wmachine_scheme \<Rightarrow> (c_int \<times> 'z wmachine_scheme) option" where
  "mbtowc pwc s n w =
     (if s = null then do { w \<leftarrow> reset_internal_multibyte_state w; Some (0, w) }
      else do { (result, w) \<leftarrow> mbrtowc pwc s n null w; mbr_result_to_int result w })"

definition wctomb :: "addr \<Rightarrow> c_int \<Rightarrow> 'z wmachine_scheme \<Rightarrow> (c_int \<times> 'z wmachine_scheme) option" where
  "wctomb s wc w =
     (if s = null then do { w \<leftarrow> reset_internal_multibyte_state w; Some (0, w) }
      else (case encode_utf8_scalar wc of
          None \<Rightarrow> Some (MB_ERR, set_errno EILSEQ w)
        | Some (encoded, encoded_len) \<Rightarrow> do {
            m \<leftarrow> write_bytes (bytes w) s (take encoded_len encoded);
            r \<leftarrow> try_i32 (int encoded_len);
            Some (r, w\<lparr>bytes := m\<rparr>) }))"

text \<open>\<^verbatim>\<open>mbstowcs\<close> keeps its state object in a local variable.\<close>

partial_function (option) mbstowcs_loop ::
  "addr \<Rightarrow> nat \<Rightarrow> addr \<Rightarrow> nat \<Rightarrow> mbstate_t \<Rightarrow> 'z wmachine_scheme \<Rightarrow>
   (nat \<times> 'z wmachine_scheme) option" where
  "mbstowcs_loop dst limit cursor count state w =
     (if dst \<noteq> null \<and> count = limit then Some (count, w)
      else do {
        until \<leftarrow> bytes_until_nul (bytes w) cursor 0;
        (result, wide, state, e) \<leftarrow> mbrtowc_with_state (bytes w) cursor (until + 1) state;
        let w = set_errno_if e w;
        if result = MBR_ERR_INVALID \<or> result = MBR_ERR_INCOMPLETE
        then Some (size_t_error_with_eilseq w)
        else if result = 0 then do {
          w \<leftarrow> (if dst \<noteq> null \<and> count < limit then write_wide (dst + wchar_size * count) 0 w else Some w);
          Some (count, w) }
        else do {
          w \<leftarrow> (if dst \<noteq> null
               then write_wide (dst + wchar_size * count) (case wide of Some v \<Rightarrow> v | None \<Rightarrow> 0) w
               else Some w);
          mbstowcs_loop dst limit (cursor + result) (count + 1) state w } })"

definition mbstowcs :: "addr \<Rightarrow> addr \<Rightarrow> nat \<Rightarrow> 'z wmachine_scheme \<Rightarrow> (nat \<times> 'z wmachine_scheme) option" where
  "mbstowcs dst src len w =
     (if src = null then Some (size_t_error_with_eilseq w)
      else if dst \<noteq> null \<and> len = 0 then Some (0, w)
      else mbstowcs_loop dst len src 0 mb_new w)"

partial_function (option) wcstombs_loop ::
  "addr \<Rightarrow> addr \<Rightarrow> nat \<Rightarrow> nat \<Rightarrow> nat \<Rightarrow> 'z wmachine_scheme \<Rightarrow> (nat \<times> 'z wmachine_scheme) option" where
  "wcstombs_loop dst src limit byte_count index w =
     (if dst \<noteq> null \<and> byte_count = limit then Some (byte_count, w)
      else do {
        wide \<leftarrow> wides w (src + wchar_size * index);
        if wide = 0 then do {
          m \<leftarrow> (if dst \<noteq> null \<and> byte_count < limit then write_u8 (bytes w) (dst + byte_count) 0
               else Some (bytes w));
          Some (byte_count, w\<lparr>bytes := m\<rparr>) }
        else (case encode_utf8_scalar wide of
            None \<Rightarrow> Some (size_t_error_with_eilseq w)
          | Some (encoded, encoded_len) \<Rightarrow>
              if dst = null then wcstombs_loop dst src limit (byte_count + encoded_len) (index + 1) w
              else if byte_count + encoded_len > limit then Some (byte_count, w)
              else do {
                m \<leftarrow> write_bytes (bytes w) (dst + byte_count) (take encoded_len encoded);
                wcstombs_loop dst src limit (byte_count + encoded_len) (index + 1) (w\<lparr>bytes := m\<rparr>) }) })"

definition wcstombs :: "addr \<Rightarrow> addr \<Rightarrow> nat \<Rightarrow> 'z wmachine_scheme \<Rightarrow> (nat \<times> 'z wmachine_scheme) option" where
  "wcstombs dst src len w =
     (if src = null then Some (size_t_error_with_eilseq w)
      else if dst \<noteq> null \<and> len = 0 then Some (0, w)
      else wcstombs_loop dst src len 0 0 w)"

section \<open>One character\<close>

lemma mbrtowc_loop_decode:
  assumes "bytes_at m s xs" "consumed \<le> length xs"
  shows "mbrtowc_loop m s (length xs) bs k n consumed =
    Some (case decode_loop xs bs k n consumed of Inl _ \<Rightarrow> Inl () | Inr r \<Rightarrow> Inr r)"
  using assms
proof (induction xs bs k n consumed rule: decode_loop.induct)
  case (1 xs bs k n consumed)
  show ?case
  proof (cases "k < MAX_UTF8_BYTES \<and> \<not> (n \<noteq> 0 \<and> k = n) \<and> consumed \<noteq> length xs")
    case False
    then show ?thesis by (subst mbrtowc_loop.simps, subst decode_loop.simps) auto
  next
    case True
    then have c: "k < MAX_UTF8_BYTES" "\<not> (n \<noteq> 0 \<and> k = n)" "consumed \<noteq> length xs" "consumed < length xs"
      using 1(3) by auto
    define sel where "sel = (if k = 0 then expected_len_from_lead_byte (xs ! consumed)
        else if \<not> is_continuation_byte (xs ! consumed) then None else Some n)"
    have byte: "m (s + consumed) = Some (xs ! consumed)" using bytes_at_nth [OF 1(2) c(4)] .
    note unfold = mbrtowc_loop.simps [of m s "length xs" bs k n consumed]
      decode_loop.simps [of xs bs k n consumed]
    show ?thesis
    proof (cases sel)
      case None
      then show ?thesis using c byte by (simp add: unfold sel_def [symmetric])
    next
      case (Some n')
      have ih: "\<not> (k + 1 < n' \<and> \<not> partial_prefix_is_valid (bs[k := xs ! consumed]) (k + 1) n') \<Longrightarrow>
          mbrtowc_loop m s (length xs) (bs[k := xs ! consumed]) (k + 1) n' (consumed + 1) =
          Some (case decode_loop xs (bs[k := xs ! consumed]) (k + 1) n' (consumed + 1) of
            Inl _ \<Rightarrow> Inl () | Inr r \<Rightarrow> Inr r)"
        using 1(1) [OF c(1,2,3) refl Some [unfolded sel_def] refl refl refl] 1(2) c(4) by simp
      show ?thesis using c byte Some ih by (simp add: unfold sel_def [symmetric] Let_def) auto
    qed
  qed
qed

lemma decode_utf8_complete_small:
  assumes "mb_typed st" "decode_utf8 st xs = (Complete cp n, st')"
  shows "scalar_value cp \<and> uint cp < 2 ^ 31 \<and> st' = mb_new"
proof -
  have "\<not> state_is_corrupted st" using assms(2) by (auto simp: decode_utf8_corrupted)
  then obtain pd where pd: "pending_ok pd" "st = state_of pd"
    using not_corrupted_iff [OF assms(1)] by (auto simp: mb_ok_def)
  obtain pd' where "wf_bytes pd'" "cp = word_of_int (scalar_of (map uint pd'))" "st' = mb_new"
    using assms(2) unfolding pd(2) decode_utf8_state_of [OF pd(1)]
    by (auto split: sum.splits if_splits)
  moreover from this have "is_scalar (scalar_of (map uint pd'))" using wf_seq_utf8_ints by blast
  ultimately show ?thesis
    by (auto simp: scalar_value_def is_scalar_def unsigned_of_int take_bit_int_eq_self)
qed

lemma decode_utf8_Nil: "mb_typed st \<Longrightarrow> \<not> state_is_corrupted st \<Longrightarrow> decode_utf8 st [] = (Incomplete 0, st)"
  using not_corrupted_iff [of st] by (auto simp: mb_ok_def decode_utf8_state_of pending_not_wf)

text \<open>The value of a call of the decoder as the results of \<^verbatim>\<open>mbrtowc\<close>.\<close>

fun mbr_of :: "Utf8DecodeResult \<times> mbstate_t \<Rightarrow> mbr_outcome" where
  "mbr_of (Complete cp n, st) = (if cp = 0 then 0 else n, Some cp, st, None)"
| "mbr_of (Incomplete n, st) = (MBR_ERR_INCOMPLETE, None, st, None)"
| "mbr_of (Invalid n, st) = (MBR_ERR_INVALID, None, st, Some EILSEQ)"

lemma mbrtowc_with_state_decode:
  assumes "bytes_at m s xs" "s \<noteq> null" "mb_typed st"
  shows "mbrtowc_with_state m s (length xs) st = Some (mbr_of (decode_utf8 st xs))"
proof (cases "state_is_corrupted st \<or> xs = []")
  case True
  then show ?thesis
    using assms decode_utf8_Nil [OF assms(3)]
    by (auto simp: mbrtowc_with_state_def decode_utf8_corrupted reset_state_and_fail_def)
next
  case False
  note loop = mbrtowc_loop_decode [OF assms(1), of 0]
  have small: "uint cp < 2 ^ 31" if "decode_utf8 st xs = (Complete cp n, mb_new)" for cp n
    using decode_utf8_complete_small [OF assms(3) that] by simp
  show ?thesis
  proof (cases "decode_loop xs (mb_bytes st) (unat (mb_pending_len st)) (unat (mb_expected_len st)) 0")
    case (Inl j)
    then show ?thesis
      using False assms(2) by (simp add: mbrtowc_with_state_def decode_utf8_def loop reset_state_and_fail_def)
  next
    case (Inr r)
    obtain bs k n c where r: "r = (bs, k, n, c)" by (cases r)
    show ?thesis
    proof (cases "n = 0 \<or> k < n \<or> decode_utf8_scalar bs n = None")
      case True
      then show ?thesis using False assms(2) Inr r
        by (auto simp: mbrtowc_with_state_def decode_utf8_def loop reset_state_and_fail_def)
    next
      case dec: False
      then obtain cp where cp: "decode_utf8_scalar bs n = Some cp" by auto
      then have dec': "decode_utf8 st xs = (Complete cp c, mb_new)"
        using False dec Inr r by (simp add: decode_utf8_def)
      have "try_i32 (uint cp) = Some cp"
        using small [OF dec'] uint_ge_0 [of cp] by (simp add: try_i32_def order_trans [of _ 0])
      then show ?thesis using False assms(2) dec Inr r cp dec'
        by (simp add: mbrtowc_with_state_def loop)
    qed
  qed
qed

lemma encode_utf8_scalar_enc:
  "encode_utf8_scalar wc =
    (if scalar_value wc then Some (pad (utf8_enc wc), length (utf8_enc wc)) else None)"
proof -
  have "is_scalar (sint wc) \<longleftrightarrow> scalar_value wc"
  proof
    assume "is_scalar (sint wc)"
    moreover from this have "uint wc = sint wc" using is_scalar_0_upper uint_eq_sint by blast
    ultimately show "scalar_value wc" by (simp add: scalar_value_def)
  next
    assume wc: "scalar_value wc"
    then have "uint wc < 2 ^ 31" using is_scalar_0_upper [of "uint wc"] by (simp add: scalar_value_def)
    then have "sint wc = uint wc" by (rule sint_u32_small)
    then show "is_scalar (sint wc)" using wc by (simp only: scalar_value_def)
  qed
  moreover have "sint wc = uint wc" if "is_scalar (sint wc)"
    using that is_scalar_0_upper uint_eq_sint by metis
  ultimately show ?thesis unfolding encode_utf8_scalar_eq utf8_enc_def by presburger
qed

lemma take_pad_enc [simp]: "take (length (utf8_enc wc)) (pad (utf8_enc wc)) = utf8_enc wc"
  by (simp add: pad_def)

lemma utf8_enc_0: "utf8_enc 0 = [0]"
  by (simp add: utf8_enc_def utf8_of_def utf8_ints_def)

lemma utf8_enc_nonzero: "scalar_value cp \<Longrightarrow> cp \<noteq> 0 \<Longrightarrow> 0 \<notin> set (utf8_enc cp)"
proof
  assume cp: "scalar_value cp" "cp \<noteq> 0" and "0 \<in> set (utf8_enc cp)"
  then have "0 \<in> set (utf8_ints (uint cp))"
    using utf8_of_uint [of "uint cp"] by (metis image_eqI list.set_map scalar_value_def unsigned_0 utf8_enc_def)
  moreover have "0 \<le> uint cp" "uint cp \<noteq> 0" using cp(2) by (auto simp: word_uint_eq_iff)
  ultimately show False
    by (auto simp: utf8_ints_def pos_imp_zdiv_nonneg_iff add_nonneg_eq_0_iff split: if_splits)
qed

text \<open>The first character of a terminated text, tried together with its terminator.\<close>

lemma decode_terminated:
  assumes nz: "0 \<notin> set bs"
  shows "case utf8_dec bs of
      Some (cp, n) \<Rightarrow> cp \<noteq> 0 \<and> decode_utf8 mb_new (bs @ [0]) = (Complete cp n, mb_new)
    | None \<Rightarrow> if bs = [] then decode_utf8 mb_new (bs @ [0]) = (Complete 0 1, mb_new)
        else \<exists>n. decode_utf8 mb_new (bs @ [0]) = (Invalid n, mb_new)"
proof -
  have typed: "mb_typed mb_new" by (simp add: mb_typed_def mb_new_def MAX_UTF8_BYTES_def)
  obtain r st where r: "decode_utf8 mb_new bs = (r, st)" by fastforce
  show ?thesis
  proof (cases r)
    case (Complete cp n)
    then have dec: "utf8_dec bs = Some (cp, n)" using r by (simp add: utf8_dec_def)
    have "cp \<noteq> 0"
    proof
      assume "cp = 0"
      then have "take n bs = [0]" using utf8.dec_sound [OF dec] utf8_enc_0 by metis
      then show False using nz by (metis in_set_takeD list.set_intros(1))
    qed
    moreover have "st = mb_new" using decode_utf8_complete_conv r Complete by blast
    ultimately show ?thesis using r Complete dec by (simp add: decode_utf8_append [OF typed])
  next
    case (Invalid n)
    then have "utf8_dec bs = None" "bs \<noteq> []" "st = mb_new"
      using r decode_utf8_new [of bs] by (auto simp: utf8_dec_def split: sum.splits if_splits)
    then show ?thesis using r Invalid by (simp add: decode_utf8_append [OF typed])
  next
    case (Incomplete n)
    then have n: "st = state_of bs" and pd: "pending_ok bs" and dec: "utf8_dec bs = None"
      using r scan_result [of "[]" bs 0] by (auto simp: decode_utf8_new utf8_dec_def pending_ok_def
          split: sum.splits if_splits)
    show ?thesis
    proof (cases "bs = []")
      case True
      then show ?thesis by (simp add: utf8.dec_Nil decode_utf8_new)
    next
      case False
      then have "\<not> (wf_bytes (bs @ [0]) \<or> pfx_bytes (bs @ [0]))"
        using next_byte [of bs 0] pd by (auto simp: pending_ok_def continuation_iff cont_def)
      then have "decode_utf8 (state_of bs) [0] = (Invalid (fail_at bs 0 0), mb_new)"
        using decode_utf8_state_of [OF pd, of "[0]"] by simp
      then show ?thesis
        using r Incomplete n False dec by (simp add: decode_utf8_append [OF typed] shift_result_def)
    qed
  qed
qed

text \<open>
  The same with the start \<open>pd\<close> of a character pending in the state: the character is the first one
  of \<open>pd @ bs\<close>, and the bytes consumed are the ones missing from \<open>pd\<close>.
\<close>

lemma pending_ok_Nil [simp]: "pending_ok []"
  by (simp add: pending_ok_def)

lemma pending_nonzero: "pending_ok pd \<Longrightarrow> 0 \<notin> set pd"
proof
  assume pd: "pending_ok pd" and "0 \<in> set pd"
  then have "pfx_bytes pd" "pd \<noteq> []" by (auto simp: pending_ok_def)
  then obtain ys where "wf_bytes (pd @ ys)" using pfx_bytes_completable [of pd] by blast
  then obtain cp :: u32 where "is_scalar (uint cp)" "pd @ ys = utf8_of (uint cp)"
    unfolding wf_bytes_utf8_of by blast
  then have cp: "scalar_value cp" "utf8_enc cp = pd @ ys"
    by (simp_all add: scalar_value_def utf8_enc_def)
  then have "cp = 0" using utf8_enc_nonzero [OF cp(1)] \<open>0 \<in> set pd\<close> by auto
  then have "pd = [0]" using cp(2) \<open>0 \<in> set pd\<close> utf8_enc_0 by (cases pd) auto
  moreover have "wf_bytes [0]" by simp
  ultimately show False using pending_not_wf [OF pd] by simp
qed

lemma mbrtowc_pending:
  assumes "cstr m cur bs" "cur \<noteq> null" "pending_ok pd"
  shows "mbrtowc_with_state m cur (length bs + 1) (state_of pd) = Some (case utf8_dec (pd @ bs) of
      Some (cp, n) \<Rightarrow> (n - length pd, Some cp, mb_new, None)
    | None \<Rightarrow> if pd @ bs = [] then (0, Some 0, mb_new, None) else reset_state_and_fail)"
proof -
  have mem: "bytes_at m cur (bs @ [0])" and nz: "0 \<notin> set bs" using assms(1) by (auto simp: cstr_def)
  have *: "mbrtowc_with_state m cur (length bs + 1) (state_of pd) =
      Some (mbr_of (decode_utf8 (state_of pd) (bs @ [0])))"
    using mbrtowc_with_state_decode [OF mem assms(2) mb_typed_state_of [OF assms(3)]] by simp
  have typed: "mb_typed mb_new" by (simp add: mb_typed_def mb_new_def MAX_UTF8_BYTES_def)
  have "decode_utf8 mb_new pd = (Incomplete (length pd), state_of pd)"
    using scan_pending_whole [of "[]" pd 0] assms(3) pending_not_wf [OF assms(3)]
    by (simp add: decode_utf8_new pending_ok_def)
  then have shift: "decode_utf8 mb_new ((pd @ bs) @ [0]) =
      (let (r, st) = decode_utf8 (state_of pd) (bs @ [0]) in (shift_result (length pd) r, st))"
    using decode_utf8_append [OF typed, of pd "bs @ [0]"] by simp
  have "0 \<notin> set (pd @ bs)" using nz pending_nonzero [OF assms(3)] by simp
  from decode_terminated [OF this] show ?thesis
    unfolding * shift
    by (cases "decode_utf8 (state_of pd) (bs @ [0])")
      (auto simp: shift_result_def reset_state_and_fail_def
        split: option.splits prod.splits Utf8DecodeResult.splits if_splits)
qed

lemma pending_consumes:
  assumes "pending_ok pd" "utf8_dec (pd @ bs) = Some (cp, n)"
  shows "length pd < n"
proof (rule ccontr)
  assume "\<not> ?thesis"
  then have "take n pd = utf8_enc cp" "scalar_value cp" using utf8.dec_sound [OF assms(2)] by (auto simp: not_less)
  then have "utf8_dec pd = Some (cp, length (utf8_enc cp))"
    using utf8.dec_enc [of cp "drop n pd"] by (metis append_take_drop_id)
  moreover have "utf8_dec pd = None"
    using scan_pending_whole [of "[]" pd 0] assms(1) pending_not_wf [OF assms(1)]
    by (simp add: utf8_dec_def decode_utf8_new)
  ultimately show False by simp
qed

lemma mbrtowc_cstr:
  assumes "cstr m cur bs" "cur \<noteq> null"
  shows "mbrtowc_with_state m cur (length bs + 1) mb_new = Some (case utf8_dec bs of
      Some (cp, n) \<Rightarrow> (n, Some cp, mb_new, None)
    | None \<Rightarrow> if bs = [] then (0, Some 0, mb_new, None) else reset_state_and_fail)"
  using mbrtowc_pending [OF assms pending_ok_Nil] by (simp add: state_of_Nil split: option.splits)

section \<open>Strings to wide strings\<close>

primrec store_wides :: "(addr \<rightharpoonup> c_int) \<Rightarrow> addr \<Rightarrow> c_int list \<Rightarrow> (addr \<rightharpoonup> c_int)" where
  "store_wides h p [] = h"
| "store_wides h p (v # vs) = store_wides (h(p \<mapsto> v)) (p + wchar_size) vs"

definition wides_mapped :: "(addr \<rightharpoonup> c_int) \<Rightarrow> addr \<Rightarrow> nat \<Rightarrow> nat \<Rightarrow> bool" where
  "wides_mapped h p i n \<longleftrightarrow> (\<forall>k. i \<le> k \<and> k < n \<longrightarrow> h (p + wchar_size * k) \<noteq> None)"

lemma wides_mapped_upd: "wides_mapped h p i n \<Longrightarrow> wides_mapped (h(q \<mapsto> v)) p i n"
  by (auto simp: wides_mapped_def)

lemma wides_mapped_Suc: "wides_mapped h p i n \<Longrightarrow> wides_mapped h p (Suc i) n"
  by (auto simp: wides_mapped_def)

lemma write_wide_mapped:
  "wides_mapped (wides w) p i n \<Longrightarrow> i < n \<Longrightarrow>
   write_wide (p + wchar_size * i) v w = Some (w\<lparr>wides := (wides w)(p + wchar_size * i \<mapsto> v)\<rparr>)"
  by (auto simp: write_wide_def wides_mapped_def)

lemma bytes_until_nul_cstr: "cstr m p bs \<Longrightarrow> bytes_until_nul m p 0 = Some (length bs)"
proof -
  have "cstr m (p + k) bs \<Longrightarrow> bytes_until_nul m p k = Some (k + length bs)" for k
  proof (induction bs arbitrary: k)
    case (Cons b bs)
    then show ?case using Cons.IH [of "Suc k"] by (subst bytes_until_nul.simps) simp
  qed (subst bytes_until_nul.simps, simp)
  from this [of 0] show "cstr m p bs \<Longrightarrow> ?thesis" by simp
qed

text \<open>What the conversions return, from the decoded text and its undecodable rest.\<close>

definition mbstowcs_spec ::
  "addr \<Rightarrow> nat \<Rightarrow> nat \<Rightarrow> u8 list \<Rightarrow> 'z wmachine_scheme \<Rightarrow> nat \<times> 'z wmachine_scheme" where
  "mbstowcs_spec dst limit i bs w =
     (let (cps, rest) = decode_all utf8_dec bs;
          stored = (\<lambda>vs. w\<lparr>wides := store_wides (wides w) (dst + wchar_size * i) vs\<rparr>)
      in if limit - i \<le> length cps then (limit, stored (take (limit - i) cps))
         else if rest = [] then (i + length cps, stored (cps @ [0]))
         else size_t_error_with_eilseq (stored cps))"

definition set_src :: "addr \<Rightarrow> addr \<Rightarrow> 'z machine_scheme \<Rightarrow> 'z machine_scheme" where
  "set_src src p w = w\<lparr>ptrs := (ptrs w)(src \<mapsto> p)\<rparr>"

definition mbsrtowcs_spec ::
  "addr \<Rightarrow> addr \<Rightarrow> nat \<Rightarrow> nat \<Rightarrow> addr \<Rightarrow> u8 list \<Rightarrow> 'z wmachine_scheme \<Rightarrow> nat \<times> 'z wmachine_scheme" where
  "mbsrtowcs_spec dst src limit i cur bs w =
     (let (cps, rest) = decode_all utf8_dec bs;
          stored = (\<lambda>vs. w\<lparr>wides := store_wides (wides w) (dst + wchar_size * i) vs\<rparr>)
      in if limit - i \<le> length cps
         then (limit, set_src src (cur + length (concat (map utf8_enc (take (limit - i) cps))))
                (stored (take (limit - i) cps)))
         else if rest = [] then (i + length cps, set_src src null (stored (cps @ [0])))
         else (MBR_ERR_INVALID,
               set_errno EILSEQ (set_src src (cur + (length bs - length rest)) (stored cps))))"

lemma decode_all_None: "utf8_dec bs = None \<Longrightarrow> decode_all utf8_dec bs = ([], bs)"
  by (simp add: utf8.decode_all_step)

lemma decode_all_Some: "utf8_dec bs = Some (cp, n) \<Longrightarrow>
    decode_all utf8_dec bs = (let (cps, rest) = decode_all utf8_dec (drop n bs) in (cp # cps, rest))"
  by (subst utf8.decode_all_step) simp

lemma mbstowcs_spec_step:
  assumes "i < limit" "utf8_dec bs = Some (cp, n)"
  shows "mbstowcs_spec dst limit i bs w =
    mbstowcs_spec dst limit (Suc i) (drop n bs) (w\<lparr>wides := (wides w)(dst + wchar_size * i \<mapsto> cp)\<rparr>)"
proof -
  have "limit - i = Suc (limit - Suc i)" using assms(1) by simp
  then show ?thesis
    by (auto simp: mbstowcs_spec_def Let_def decode_all_Some [OF assms(2)] algebra_simps
        split: prod.splits)
qed

lemma rest_length: "decode_all utf8_dec bs = (cps, rest) \<Longrightarrow>
    length rest \<le> length bs \<and> length bs = length (concat (map utf8_enc cps)) + length rest"
  using utf8.decode_all_sound [of bs cps rest] by simp

lemma mbsrtowcs_spec_step:
  assumes "i < limit" "utf8_dec bs = Some (cp, n)"
  shows "mbsrtowcs_spec dst src limit i cur bs w =
    mbsrtowcs_spec dst src limit (Suc i) (cur + n) (drop n bs)
      (w\<lparr>wides := (wides w)(dst + wchar_size * i \<mapsto> cp)\<rparr>)"
proof -
  obtain cps rest where rec: "decode_all utf8_dec (drop n bs) = (cps, rest)" by fastforce
  have i: "limit - i = Suc (limit - Suc i)" using assms(1) by simp
  have n: "length (utf8_enc cp) = n" "n \<le> length bs"
    using utf8.dec_sound [OF assms(2)] utf8.dec_split [OF assms(2)] by auto
  moreover have "length rest \<le> length bs - n" using rest_length [OF rec] by simp
  ultimately have "cur + n + (length bs - n - length rest) = cur + (length bs - length rest)" by simp
  then show ?thesis
    by (simp add: mbsrtowcs_spec_def Let_def decode_all_Some [OF assms(2)] rec i n(1) algebra_simps)
qed

lemma utf8_dec_size: "utf8_dec bs = Some (cp, n) \<Longrightarrow>
    n \<noteq> 0 \<and> n \<le> length bs \<and> n \<noteq> MBR_ERR_INVALID \<and> n \<noteq> MBR_ERR_INCOMPLETE"
  using utf8.dec_sound [of bs cp n] utf8.dec_split [of bs cp n] utf8_of_length [of "uint cp"]
  by (auto simp: utf8_enc_def MBR_ERR_INVALID_def MBR_ERR_INCOMPLETE_def)

lemma mbr_err_simps [simp]: "MBR_ERR_INVALID \<noteq> 0" "0 \<noteq> MBR_ERR_INVALID" "0 \<noteq> MBR_ERR_INCOMPLETE"
  "MBR_ERR_INCOMPLETE \<noteq> 0" "MBR_ERR_INCOMPLETE \<noteq> MBR_ERR_INVALID" "MBR_ERR_INVALID \<noteq> MBR_ERR_INCOMPLETE"
  by (simp_all add: MBR_ERR_INVALID_def MBR_ERR_INCOMPLETE_def)

lemma mbstowcs_loop_spec:
  assumes "cstr (bytes w) cur bs" "cur \<noteq> null" "dst \<noteq> null" "i \<le> limit"
    "wides_mapped (wides w) dst i limit"
  shows "mbstowcs_loop dst limit cur i mb_new w = Some (mbstowcs_spec dst limit i bs w)"
  using assms
proof (induction "length bs" arbitrary: bs cur i w rule: less_induct)
  case less
  note until = bytes_until_nul_cstr [OF less.prems(1)] and step = mbrtowc_cstr [OF less.prems(1,2)]
  show ?case
  proof (cases "i = limit")
    case True
    then show ?thesis using less.prems(3)
      by (subst mbstowcs_loop.simps) (simp add: mbstowcs_spec_def split: prod.splits)
  next
    case False
    then have i: "i < limit" using less.prems(4) by simp
    show ?thesis
    proof (cases "utf8_dec bs")
      case None
      then show ?thesis
        using i less.prems(3) write_wide_mapped [OF less.prems(5) i] step until
        by (subst mbstowcs_loop.simps)
          (auto simp: mbstowcs_spec_def decode_all_None reset_state_and_fail_def set_errno_if_def
            size_t_error_with_eilseq_def set_errno_def)
    next
      case (Some p)
      obtain cp n where p: "p = (cp, n)" by (cases p)
      note sz = utf8_dec_size [OF Some [unfolded p]]
      let ?w = "w\<lparr>wides := (wides w)(dst + wchar_size * i \<mapsto> cp)\<rparr>"
      have "mbstowcs_loop dst limit cur i mb_new w = mbstowcs_loop dst limit (cur + n) (Suc i) mb_new ?w"
        using i sz less.prems(3) write_wide_mapped [OF less.prems(5) i] step until Some p
        by (subst mbstowcs_loop.simps) (simp add: set_errno_if_def)
      also have "\<dots> = Some (mbstowcs_spec dst limit (Suc i) (drop n bs) ?w)"
        using less.prems i sz cstr_drop [OF less.prems(1), of n]
        by (intro less.hyps) (auto intro: wides_mapped_upd wides_mapped_Suc)
      also have "\<dots> = Some (mbstowcs_spec dst limit i bs w)"
        by (simp only: mbstowcs_spec_step [OF i Some [unfolded p]])
      finally show ?thesis .
    qed
  qed
qed

lemma load_state_wides [simp]: "load_state ps (w\<lparr>wides := h\<rparr>) = load_state ps w"
  "load_state ps (w\<lparr>bytes := m\<rparr>) = load_state ps w" "load_state ps (w\<lparr>ptrs := q\<rparr>) = load_state ps w"
  by (simp_all add: load_state_def)

lemma store_state_same: "load_state ps w = Some st \<Longrightarrow> store_state ps st w = Some w"
  by (auto simp: load_state_def store_state_def fun_upd_idem split: if_splits)

lemma fail_state_initial: "load_state ps w = Some mb_new \<Longrightarrow> fail_state ps w = Some (MBR_ERR_INVALID, set_errno EILSEQ w)"
  by (simp add: fail_state_def store_state_same)

lemma write_ptr_src: "ptrs w src \<noteq> None \<Longrightarrow> write_ptr src p w = Some (set_src src p w)"
  by (auto simp: write_ptr_def set_src_def)

lemma mbsrtowcs_loop_spec:
  assumes "cstr (bytes w) cur bs" "cur \<noteq> null" "i \<le> limit" "wides_mapped (wides w) dst i limit"
    "ptrs w src \<noteq> None" "load_state ps w = Some mb_new"
  shows "mbsrtowcs_loop dst src limit ps cur i w = Some (mbsrtowcs_spec dst src limit i cur bs w)"
  using assms
proof (induction "length bs" arbitrary: bs cur i w rule: less_induct)
  case less
  note until = bytes_until_nul_cstr [OF less.prems(1)] and step = mbrtowc_cstr [OF less.prems(1,2)]
  note same = store_state_same [OF less.prems(6)]
  show ?case
  proof (cases "i = limit")
    case True
    then show ?thesis using less.prems(5)
      by (subst mbsrtowcs_loop.simps) (simp add: mbsrtowcs_spec_def write_ptr_src split: prod.splits)
  next
    case False
    then have i: "i < limit" using less.prems(3) by simp
    show ?thesis
    proof (cases "utf8_dec bs")
      case None
      then show ?thesis
        using i less.prems(5,6) write_wide_mapped [OF less.prems(4) i] step until same
        by (subst mbsrtowcs_loop.simps)
          (auto simp: mbsrtowcs_spec_def decode_all_None reset_state_and_fail_def set_errno_if_def
            set_src_def set_errno_def write_ptr_src)
    next
      case (Some p)
      obtain cp n where p: "p = (cp, n)" by (cases p)
      note sz = utf8_dec_size [OF Some [unfolded p]]
      let ?w = "w\<lparr>wides := (wides w)(dst + wchar_size * i \<mapsto> cp)\<rparr>"
      have "mbsrtowcs_loop dst src limit ps cur i w = mbsrtowcs_loop dst src limit ps (cur + n) (Suc i) ?w"
        using i sz less.prems(6) write_wide_mapped [OF less.prems(4) i] step until same Some p
        by (subst mbsrtowcs_loop.simps) (simp add: set_errno_if_def)
      also have "\<dots> = Some (mbsrtowcs_spec dst src limit (Suc i) (cur + n) (drop n bs) ?w)"
        using less.prems i sz cstr_drop [OF less.prems(1), of n]
        by (intro less.hyps) (auto intro: wides_mapped_upd wides_mapped_Suc)
      also have "\<dots> = Some (mbsrtowcs_spec dst src limit i cur bs w)"
        by (simp only: mbsrtowcs_spec_step [OF i Some [unfolded p]])
      finally show ?thesis .
    qed
  qed
qed

text \<open>Counting leaves everything but \<^verbatim>\<open>errno\<close> and the state.\<close>

definition count_spec :: "nat \<Rightarrow> u8 list \<Rightarrow> 'z wmachine_scheme \<Rightarrow> nat \<times> 'z wmachine_scheme" where
  "count_spec i bs w = (let (cps, rest) = decode_all utf8_dec bs in
     if rest = [] then (i + length cps, w) else (MBR_ERR_INVALID, set_errno EILSEQ w))"

lemma mbsrtowcs_count_spec:
  assumes "cstr (bytes w) cur bs" "cur \<noteq> null" "load_state ps w = Some mb_new"
  shows "mbsrtowcs_count ps cur i w = Some (count_spec i bs w)"
  using assms(1,2)
proof (induction "length bs" arbitrary: bs cur i rule: less_induct)
  case less
  note until = bytes_until_nul_cstr [OF less.prems(1)] and step = mbrtowc_cstr [OF less.prems(1,2)]
  note same = store_state_same [OF assms(3)]
  show ?case
  proof (cases "utf8_dec bs")
    case None
    then show ?thesis
      using step until same assms(3)
      by (subst mbsrtowcs_count.simps)
        (auto simp: count_spec_def decode_all_None reset_state_and_fail_def set_errno_if_def)
  next
    case (Some p)
    obtain cp n where p: "p = (cp, n)" by (cases p)
    note sz = utf8_dec_size [OF Some [unfolded p]]
    have "mbsrtowcs_count ps cur i w = mbsrtowcs_count ps (cur + n) (Suc i) w"
      using sz step until same assms(3) Some p
      by (subst mbsrtowcs_count.simps) (simp add: set_errno_if_def)
    also have "\<dots> = Some (count_spec (Suc i) (drop n bs) w)"
      using less.prems sz cstr_drop [OF less.prems(1), of n] by (intro less.hyps) auto
    also have "\<dots> = Some (count_spec i bs w)"
      by (simp add: count_spec_def decode_all_Some [OF Some [unfolded p]] split: prod.splits)
    finally show ?thesis .
  qed
qed

text \<open>The first round of both loops takes up the pending start of a character.\<close>

definition put_state :: "addr \<Rightarrow> mbstate_t \<Rightarrow> 'z wmachine_scheme \<Rightarrow> 'z wmachine_scheme" where
  "put_state ps st w = (if ps = null then w\<lparr>internal_state := st\<rparr>
     else w\<lparr>mbstates := (mbstates w)(ps \<mapsto> st)\<rparr>)"

lemma put_state_sel [simp]: "bytes (put_state ps st w) = bytes w" "ptrs (put_state ps st w) = ptrs w"
  "errno (put_state ps st w) = errno w" "wides (put_state ps st w) = wides w"
  "load_state ps (put_state ps st w) = Some st"
  by (simp_all add: put_state_def load_state_def)

lemma store_state_put: "load_state ps w = Some st \<Longrightarrow> store_state ps st' w = Some (put_state ps st' w)"
  by (auto simp: load_state_def store_state_def put_state_def split: if_splits)

lemma store_state_twice: "load_state ps w = Some st \<Longrightarrow>
    store_state ps mb_new (put_state ps mb_new w) = Some (put_state ps mb_new w)"
  by (rule store_state_same) simp

lemma mbrtowc_first:
  assumes "cstr (bytes w) cur bs" "cur \<noteq> null" "load_state ps w = Some (state_of pd)" "pending_ok pd"
  shows "bytes_until_nul (bytes w) cur 0 = Some (length bs)"
    "mbrtowc_with_state (bytes w) cur (length bs + 1) (state_of pd) = Some (case utf8_dec (pd @ bs) of
      Some (cp, n) \<Rightarrow> (n - length pd, Some cp, mb_new, None)
    | None \<Rightarrow> if pd @ bs = [] then (0, Some 0, mb_new, None) else reset_state_and_fail)"
    "store_state ps mb_new w = Some (put_state ps mb_new w)"
    "fail_state ps (put_state ps mb_new w) = Some (MBR_ERR_INVALID, set_errno EILSEQ (put_state ps mb_new w))"
  using bytes_until_nul_cstr mbrtowc_pending store_state_put assms
  by (blast intro: fail_state_initial put_state_sel)+

lemma pending_rest:
  assumes "cstr m cur bs" "pending_ok pd" "utf8_dec (pd @ bs) = Some (cp, n)"
  shows "cstr m (cur + (n - length pd)) (drop n (pd @ bs))"
    "n - length pd \<noteq> 0" "n - length pd \<noteq> MBR_ERR_INVALID" "n - length pd \<noteq> MBR_ERR_INCOMPLETE"
proof -
  have n: "length pd < n" "n \<le> length (pd @ bs)"
    using pending_consumes [OF assms(2,3)] utf8_dec_size [OF assms(3)] by simp_all
  then show "cstr m (cur + (n - length pd)) (drop n (pd @ bs))"
    using cstr_drop [OF assms(1), of "n - length pd"] by simp
  show "n - length pd \<noteq> 0" using n by simp
  show "n - length pd \<noteq> MBR_ERR_INVALID" "n - length pd \<noteq> MBR_ERR_INCOMPLETE"
    using utf8.dec_sound [OF assms(3)] utf8_of_length [of "uint cp"]
    by (auto simp: utf8_enc_def MBR_ERR_INVALID_def MBR_ERR_INCOMPLETE_def)
qed

lemma mbsrtowcs_count_pending:
  assumes pre: "cstr (bytes w) cur bs" "cur \<noteq> null" "load_state ps w = Some (state_of pd)" "pending_ok pd"
    and all: "decode_all utf8_dec (pd @ bs) = (cps, rest)"
  shows "mbsrtowcs_count ps cur 0 w = Some (if rest = [] then (length cps, put_state ps mb_new w)
    else (MBR_ERR_INVALID, set_errno EILSEQ (put_state ps mb_new w)))"
proof (cases "utf8_dec (pd @ bs)")
  case None
  then have "cps = []" "rest = pd @ bs" using all by (simp_all add: decode_all_None)
  then show ?thesis
    using None pre(3) mbrtowc_first [OF pre]
    by (subst mbsrtowcs_count.simps) (auto simp: reset_state_and_fail_def set_errno_if_def)
next
  case (Some p)
  obtain cp n where p: "p = (cp, n)" by (cases p)
  note dec = Some [unfolded p] and next_ok = pending_rest [OF pre(1,4) Some [unfolded p]]
  have "mbsrtowcs_count ps cur 0 w = mbsrtowcs_count ps (cur + (n - length pd)) (Suc 0) (put_state ps mb_new w)"
    using next_ok(2-4) dec pre(3) mbrtowc_first [OF pre]
    by (subst mbsrtowcs_count.simps) (simp add: set_errno_if_def)
  also have "\<dots> = Some (count_spec (Suc 0) (drop n (pd @ bs)) (put_state ps mb_new w))"
    using next_ok(1) pre(2) by (intro mbsrtowcs_count_spec) simp_all
  finally show ?thesis
    using all by (auto simp: count_spec_def decode_all_Some [OF dec] split: prod.splits)
qed

lemma mbsrtowcs_loop_pending:
  assumes pre: "cstr (bytes w) cur bs" "cur \<noteq> null" "load_state ps w = Some (state_of pd)" "pending_ok pd"
    and all: "decode_all utf8_dec (pd @ bs) = (cps, rest)"
    and room: "wides_mapped (wides w) dst 0 len" "0 < len" and src: "ptrs w src \<noteq> None"
  defines "w0 \<equiv> put_state ps mb_new w"
  shows "mbsrtowcs_loop dst src len ps cur 0 w = Some (
    if len \<le> length cps then
      (len, w0\<lparr>ptrs := (ptrs w)(src \<mapsto> cur + (length (concat (map utf8_enc (take len cps))) - length pd)),
               wides := store_wides (wides w) dst (take len cps)\<rparr>)
    else if rest = [] then
      (length cps, w0\<lparr>ptrs := (ptrs w)(src \<mapsto> null), wides := store_wides (wides w) dst (cps @ [0])\<rparr>)
    else
      (MBR_ERR_INVALID, w0\<lparr>ptrs := (ptrs w)(src \<mapsto> cur + (length (pd @ bs) - length rest - length pd)),
                          errno := EILSEQ, wides := store_wides (wides w) dst cps\<rparr>))"
proof -
  have sel: "bytes w0 = bytes w" "ptrs w0 = ptrs w" "wides w0 = wides w" "errno w0 = errno w"
    "load_state ps w0 = Some mb_new" by (simp_all add: w0_def)
  note first = mbrtowc_first [OF pre, folded w0_def]
  show ?thesis
  proof (cases "utf8_dec (pd @ bs)")
    case None
    then have "cps = []" "rest = pd @ bs" using all by (simp_all add: decode_all_None)
    moreover have "write_wide dst 0 w0 = Some (w0\<lparr>wides := (wides w)(dst \<mapsto> 0)\<rparr>)"
      using write_wide_mapped [of w0 dst 0 len] room by (simp add: sel)
    ultimately show ?thesis
      using None pre(3) first room(2) src
      by (subst mbsrtowcs_loop.simps)
        (auto simp: reset_state_and_fail_def set_errno_if_def set_errno_def write_ptr_def sel)
  next
    case (Some p)
    obtain cp n where p: "p = (cp, n)" by (cases p)
    note dec = Some [unfolded p] and next_ok = pending_rest [OF pre(1,4) Some [unfolded p]]
    let ?w = "w0\<lparr>wides := (wides w0)(dst \<mapsto> cp)\<rparr>"
    obtain cps' where cps: "cps = cp # cps'" "decode_all utf8_dec (drop n (pd @ bs)) = (cps', rest)"
      using all by (auto simp: decode_all_Some [OF dec] split: prod.splits)
    have n: "length (utf8_enc cp) = n" "length pd < n" "n \<le> length (pd @ bs)"
      using utf8.dec_sound [OF dec] pending_consumes [OF pre(4) dec] utf8_dec_size [OF dec] by auto
    have "write_wide dst cp w0 = Some ?w" using write_wide_mapped [of w0 dst 0 len] room by (simp add: sel)
    then have "mbsrtowcs_loop dst src len ps cur 0 w =
        mbsrtowcs_loop dst src len ps (cur + (n - length pd)) (Suc 0) ?w"
      using next_ok(2-4) dec pre(3) first room(2)
      by (subst mbsrtowcs_loop.simps) (simp add: set_errno_if_def)
    also have "\<dots> = Some (mbsrtowcs_spec dst src len (Suc 0) (cur + (n - length pd)) (drop n (pd @ bs)) ?w)"
      using next_ok(1) pre(2) room src
      by (intro mbsrtowcs_loop_spec) (auto simp: sel intro: wides_mapped_upd wides_mapped_Suc)
    finally have run: "mbsrtowcs_loop dst src len ps cur 0 w =
        Some (mbsrtowcs_spec dst src len (Suc 0) (cur + (n - length pd)) (drop n (pd @ bs)) ?w)" .
    obtain k where len: "len = Suc k" using room(2) by (cases len) simp_all
    obtain d where d: "n = length pd + d" using n(2) less_imp_add_positive by blast
    have offset: "length (pd @ bs) - length rest - length pd = d + (length (drop n (pd @ bs)) - length rest)"
      using n(3) rest_length [OF cps(2)] by (simp add: d) arith
    show ?thesis
      unfolding run mbsrtowcs_spec_def cps(2) offset
      by (simp add: cps(1) n(1) len set_src_def set_errno_def sel d add.assoc)
  qed
qed

section \<open>Wide strings to strings\<close>

primrec wcstr :: "(addr \<rightharpoonup> c_int) \<Rightarrow> addr \<Rightarrow> c_int list \<Rightarrow> bool" where
  "wcstr h p [] = (h p = Some 0)"
| "wcstr h p (c # cs) = (h p = Some c \<and> c \<noteq> 0 \<and> wcstr h (p + wchar_size) cs)"

lemma write_bytes_mapped: "mapped m p (length bs) \<Longrightarrow> write_bytes m p bs = Some (store_bytes m p bs)"
proof (induction bs arbitrary: m p)
  case (Cons b bs)
  have "m p \<noteq> None" using Cons.prems by (force simp: mapped_def)
  moreover have "mapped (m(p \<mapsto> b)) (Suc p) (length bs)"
    using Cons.prems by (force simp: mapped_def)
  ultimately show ?case using Cons.IH by (auto simp: write_u8_def simp del: fun_upd_apply)
qed simp

text \<open>The characters that fit into \<open>n\<close> bytes.\<close>

fun fit :: "nat \<Rightarrow> c_int list \<Rightarrow> c_int list" where
  "fit n [] = []"
| "fit n (c # cs) =
     (if length (utf8_enc c) \<le> n then c # fit (n - length (utf8_enc c)) cs else [])"

lemma fit_length: "length (concat (map utf8_enc (fit n cs))) \<le> n"
proof (induction n cs rule: fit.induct)
  case (2 n c cs)
  then show ?case by (cases "length (utf8_enc c) \<le> n") (simp_all add: le_diff_conv2 add.commute)
qed simp

lemma fit_all: "length (concat (map utf8_enc cs)) \<le> n \<Longrightarrow> fit n cs = cs"
  by (induction n cs rule: fit.induct) simp_all

text \<open>
  What \<^verbatim>\<open>wcstombs\<close> returns with \<open>i\<close> of the \<open>limit\<close> bytes written: the convertible characters that
  fit; then the terminator if there is room for it and nothing is left, an error if the next
  character is none, and otherwise just the count.
\<close>

definition wcstombs_spec ::
  "addr \<Rightarrow> nat \<Rightarrow> nat \<Rightarrow> c_int list \<Rightarrow> 'z wmachine_scheme \<Rightarrow> nat \<times> 'z wmachine_scheme" where
  "wcstombs_spec dst limit i ws w =
     (let good = takeWhile scalar_value ws;
          fits = fit (limit - i) good;
          out = concat (map utf8_enc fits);
          stored = (\<lambda>bs. w\<lparr>bytes := store_bytes (bytes w) (dst + i) bs\<rparr>)
      in if i + length out = limit \<or> fits \<noteq> good then (i + length out, stored out)
         else if good = ws then (i + length out, stored (out @ [0]))
         else size_t_error_with_eilseq (stored out))"

lemma wcstombs_spec_step:
  assumes "scalar_value c" "i + length (utf8_enc c) \<le> limit"
  shows "wcstombs_spec dst limit i (c # ws) w = wcstombs_spec dst limit (i + length (utf8_enc c)) ws
    (w\<lparr>bytes := store_bytes (bytes w) (dst + i) (utf8_enc c)\<rparr>)"
proof -
  have "length (utf8_enc c) \<le> limit - i" using assms(2) by simp
  then have fit: "fit (limit - i) (c # cs) = c # fit (limit - (i + length (utf8_enc c))) cs" for cs by simp
  have good: "takeWhile scalar_value (c # ws) = c # takeWhile scalar_value ws" using assms(1) by simp
  define G where "G = takeWhile scalar_value ws"
  define F where "F = fit (limit - (i + length (utf8_enc c))) G"
  show ?thesis
    unfolding wcstombs_spec_def Let_def good fit G_def [symmetric] F_def [symmetric]
    by (cases "F = G") (auto simp: store_bytes_append add.assoc)
qed

lemma utf8_enc_pos: "0 < length (utf8_enc c)"
  using utf8_of_length [of "uint c"] unfolding utf8_enc_def by linarith

lemma wcstombs_loop_spec:
  assumes "wcstr (wides w) (src + wchar_size * k) ws" "dst \<noteq> null" "i \<le> limit"
    "mapped (bytes w) dst limit"
  shows "wcstombs_loop dst src limit i k w = Some (wcstombs_spec dst limit i ws w)"
  using assms
proof (induction ws arbitrary: i k w)
  case Nil
  then show ?case using mapped_less [OF Nil.prems(4), of i]
    by (subst wcstombs_loop.simps, cases "i < limit")
      (auto simp: wcstombs_spec_def Let_def write_u8_def)
next
  case (Cons c ws)
  show ?case
  proof (cases "i = limit")
    case True
    then show ?thesis using Cons.prems utf8_enc_pos [of c]
      by (subst wcstombs_loop.simps) (simp add: wcstombs_spec_def Let_def)
  next
    case False
    note unfold = wcstombs_loop.simps [of dst src limit i k w]
    show ?thesis
    proof (cases "scalar_value c \<and> i + length (utf8_enc c) \<le> limit")
      case True
      let ?w = "w\<lparr>bytes := store_bytes (bytes w) (dst + i) (utf8_enc c)\<rparr>"
      have "mapped (bytes w) (dst + i) (length (utf8_enc c))"
        using Cons.prems(4) True by (auto simp: mapped_def add.assoc)
      then have "wcstombs_loop dst src limit i k w =
          wcstombs_loop dst src limit (i + length (utf8_enc c)) (Suc k) ?w"
        using True False Cons.prems by (simp add: unfold encode_utf8_scalar_enc write_bytes_mapped)
      also have "\<dots> = Some (wcstombs_spec dst limit (i + length (utf8_enc c)) ws ?w)"
        using Cons.prems True by (intro Cons.IH) (simp_all add: mapped_store_bytes algebra_simps)
      also have "\<dots> = Some (wcstombs_spec dst limit i (c # ws) w)"
        using True by (simp add: wcstombs_spec_step)
      finally show ?thesis .
    next
      case stop: False
      then show ?thesis using False Cons.prems utf8_enc_pos [of c]
        by (auto simp: unfold encode_utf8_scalar_enc wcstombs_spec_def Let_def)
    qed
  qed
qed

lemma store_state_wides [simp]: "store_state ps st w = Some w' \<Longrightarrow> wides w' = wides w"
  by (auto simp: store_state_def split: if_splits)

text \<open>The two stores, on an object that is there.\<close>

definition put_wide :: "addr \<Rightarrow> c_int \<Rightarrow> 'z wmachine_scheme \<Rightarrow> 'z wmachine_scheme" where
  "put_wide p v w = (if p = null then w else w\<lparr>wides := (wides w)(p \<mapsto> v)\<rparr>)"

section \<open>Properties\<close>

text \<open>
  C8. \<^verbatim>\<open>mbrtowc\<close> on \<open>n\<close> readable bytes is the decoder run on these bytes from the state object's
  value: it always returns; it stores the decoder's state; a complete character is stored (if
  wanted) and its length returned (0 for NUL); the two error values report an incomplete and
  an invalid sequence, and only the latter sets \<^verbatim>\<open>EILSEQ\<close>.
\<close>

theorem mbrtowc_refines_decoder:
  assumes "bytes_at (bytes w) s xs" "s \<noteq> null" "load_state ps w = Some st" "mb_typed st"
    "pwc = null \<or> wides w pwc \<noteq> None" "decode_utf8 st xs = (r, st')"
  shows "mbrtowc pwc s (length xs) ps w = Some (case r of
      Complete cp n \<Rightarrow> (if cp = 0 then 0 else n, put_wide pwc cp (put_state ps st' w))
    | Incomplete n \<Rightarrow> (MBR_ERR_INCOMPLETE, put_state ps st' w)
    | Invalid n \<Rightarrow> (MBR_ERR_INVALID, set_errno EILSEQ (put_state ps st' w)))"
proof -
  have "store_state ps st' w = Some (put_state ps st' w)"
    using assms(3) by (cases "ps = null") (simp_all add: store_state_def load_state_def put_state_def)
  moreover have "wides (put_state ps st' w) = wides w" by (simp add: put_state_def)
  ultimately show ?thesis
    using assms(5) mbrtowc_with_state_decode [OF assms(1,2,4)]
    by (cases r) (auto simp: mbrtowc_def assms(3,6) write_wide_def set_errno_if_def put_wide_def)
qed

theorem mbrtowc_refines_decoder_witness:
  "mbrtowc 32 16 2 null \<lparr>bytes = [16 \<mapsto> 0xC3, 17 \<mapsto> 0xA9, 18 \<mapsto> 0], ptrs = [64 \<mapsto> 16], errno = 0,
      wides = [32 \<mapsto> 0, 36 \<mapsto> 0], mbstates = Map.empty, internal_state = mb_new\<rparr> =
   Some (2, \<lparr>bytes = [16 \<mapsto> 0xC3, 17 \<mapsto> 0xA9, 18 \<mapsto> 0], ptrs = [64 \<mapsto> 16], errno = 0,
      wides = [36 \<mapsto> 0, 32 \<mapsto> 0xE9], mbstates = Map.empty, internal_state = mb_new\<rparr>)"
proof -
  let ?w = "\<lparr>bytes = [16 \<mapsto> 0xC3, 17 \<mapsto> 0xA9, 18 \<mapsto> 0], ptrs = [64 \<mapsto> 16], errno = 0,
      wides = [32 \<mapsto> 0, 36 \<mapsto> 0], mbstates = Map.empty, internal_state = mb_new\<rparr> :: wmachine"
  have dec: "decode_utf8 mb_new [0xC3, 0xA9] = (Complete 0xE9 2, mb_new)" by (simp add: decode_eval)
  have typed: "mb_typed mb_new" by (simp add: mb_typed_def decode_eval)
  have pre: "bytes_at (bytes ?w) 16 [0xC3, 0xA9]" "(16 :: addr) \<noteq> null" "load_state null ?w = Some mb_new"
    "(32 :: addr) = null \<or> wides ?w 32 \<noteq> None"
    by (simp_all add: load_state_def)
  show ?thesis
    using mbrtowc_refines_decoder [OF pre(1,2,3) typed pre(4) dec]
    by (simp add: put_state_def put_wide_def numeral_2_eq_2 [symmetric])
qed

text \<open>
  C9. \<^verbatim>\<open>mbsrtowcs\<close> on a C string always returns, in the initial state and with the start \<open>pd\<close> of a
  character pending from an earlier call. The pending bytes and the string are split into the
  longest decodable prefix \<open>cps\<close> and the rest. With a destination of \<open>len > 0\<close> wide characters: if
  \<open>len\<close> characters or more are decodable, exactly \<open>len\<close> are stored and \<^verbatim>\<open>*src\<close> points behind the last;
  if everything is decodable the terminator is stored, too, and \<^verbatim>\<open>*src\<close> is null; otherwise the
  result is \<open>-1\<close> with \<^verbatim>\<open>EILSEQ\<close> and \<^verbatim>\<open>*src\<close> points to the offending character (to the string, if that
  one was pending). With a null destination the characters are counted, or the error
  reported, and \<^verbatim>\<open>*src\<close> is left alone. All of these leave the initial state; so does a null \<^verbatim>\<open>*src\<close>,
  with result 0. A destination of length 0 changes nothing, and a null \<^verbatim>\<open>src\<close> is \<^verbatim>\<open>EILSEQ\<close>.
\<close>

theorem mbsrtowcs_correct:
  assumes "ptrs w src = Some cur" "src \<noteq> null" "cur \<noteq> null \<longrightarrow> cstr (bytes w) cur bs"
    "load_state ps w = Some (state_of pd)" "pending_ok pd"
    "dst \<noteq> null \<longrightarrow> wides_mapped (wides w) dst 0 len"
    "decode_all utf8_dec (pd @ bs) = (cps, rest)"
  shows "mbsrtowcs dst null len ps w = Some (2 ^ 64 - 1, w\<lparr>errno := EILSEQ\<rparr>) \<and>
   (let w0 = put_state ps mb_new w in mbsrtowcs dst src len ps w = Some (
    if cur = null then (0, w0)
    else if dst = null then
      (if rest = [] then (length cps, w0) else (MBR_ERR_INVALID, w0\<lparr>errno := EILSEQ\<rparr>))
    else if len = 0 then (0, w)
    else if len \<le> length cps then
      (len, w0\<lparr>ptrs := (ptrs w)(src \<mapsto> cur + (length (concat (map utf8_enc (take len cps))) - length pd)),
               wides := store_wides (wides w) dst (take len cps)\<rparr>)
    else if rest = [] then
      (length cps, w0\<lparr>ptrs := (ptrs w)(src \<mapsto> null), wides := store_wides (wides w) dst (cps @ [0])\<rparr>)
    else
      (MBR_ERR_INVALID, w0\<lparr>ptrs := (ptrs w)(src \<mapsto> cur + (length (pd @ bs) - length rest - length pd)),
                          errno := EILSEQ, wides := store_wides (wides w) dst cps\<rparr>)))"
  using assms mbsrtowcs_count_pending [OF _ _ assms(4,5,7), of cur]
    mbsrtowcs_loop_pending [OF _ _ assms(4,5,7), of cur dst len src] store_state_put [OF assms(4), of mb_new]
  by (simp add: mbsrtowcs_def size_t_error_with_eilseq_def set_errno_def Let_def)

theorem mbsrtowcs_correct_witness:
  "mbsrtowcs 32 64 2 null \<lparr>bytes = [16 \<mapsto> 0xA9, 17 \<mapsto> 0], ptrs = [64 \<mapsto> 16], errno = 0,
      wides = [32 \<mapsto> 0, 36 \<mapsto> 0], mbstates = Map.empty, internal_state = state_of [0xC3]\<rparr> =
   Some (1, \<lparr>bytes = [16 \<mapsto> 0xA9, 17 \<mapsto> 0], ptrs = [64 \<mapsto> 0], errno = 0,
      wides = [32 \<mapsto> 0xE9, 36 \<mapsto> 0], mbstates = Map.empty, internal_state = mb_new\<rparr>)"
proof -
  let ?w = "\<lparr>bytes = [16 \<mapsto> 0xA9, 17 \<mapsto> 0], ptrs = [64 \<mapsto> 16], errno = 0,
      wides = [32 \<mapsto> 0, 36 \<mapsto> 0], mbstates = Map.empty, internal_state = state_of [0xC3]\<rparr> :: wmachine"
  have "decode_all utf8_dec ([0xC3] @ [0xA9]) = ([0xE9], [])"
    by (simp add: decode_all.simps utf8_dec_def decode_eval)
  moreover have "pending_ok [0xC3]" by (simp add: pending_ok_def)
  ultimately show ?thesis
    using mbsrtowcs_correct [of ?w 64 16 "[0xA9]" null "[0xC3]" 32 2 "[0xE9]" "[]"]
    by (simp add: load_state_def wides_mapped_def wchar_size_def less_small fun_upd_twist put_state_def)
qed

text \<open>
  C10. \<^verbatim>\<open>wcstombs\<close> on a terminated wide string and a writable destination of \<open>len\<close> bytes always
  returns, and never splits a character: it stores the longest run of convertible characters
  that fits, and the terminator if nothing is left and there is room; it fails with \<^verbatim>\<open>EILSEQ\<close>
  exactly when the next character is no scalar value and the destination is not full.
\<close>

theorem wcstombs_correct:
  assumes "wcstr (wides w) src ws" "src \<noteq> null" "dst \<noteq> null" "0 < len" "mapped (bytes w) dst len"
    "good = takeWhile scalar_value ws" "out = concat (map utf8_enc (fit len good))"
  shows "wcstombs dst src len w = Some (
    if length out = len \<or> fit len good \<noteq> good
    then (length out, w\<lparr>bytes := store_bytes (bytes w) dst out\<rparr>)
    else if good = ws then (length out, w\<lparr>bytes := store_bytes (bytes w) dst (out @ [0])\<rparr>)
    else size_t_error_with_eilseq (w\<lparr>bytes := store_bytes (bytes w) dst out\<rparr>))"
proof -
  have "wcstombs dst src len w = Some (wcstombs_spec dst len 0 ws w)"
    using assms(1-5) wcstombs_loop_spec [of w src 0 ws dst 0 len] by (simp add: wcstombs_def)
  then show ?thesis
    by (simp only: wcstombs_spec_def Let_def diff_zero add_0 add_0_right assms(6,7) cong: if_cong)
qed

theorem wcstombs_correct_witness:
  "wcstombs 16 32 4 \<lparr>bytes = [16 \<mapsto> 7, 17 \<mapsto> 7, 18 \<mapsto> 7, 19 \<mapsto> 7], ptrs = Map.empty, errno = 0,
      wides = [32 \<mapsto> 0xE9, 36 \<mapsto> 0x20AC, 40 \<mapsto> 0], mbstates = Map.empty, internal_state = mb_new\<rparr> =
   Some (2, \<lparr>bytes = [16 \<mapsto> 0xC3, 17 \<mapsto> 0xA9, 18 \<mapsto> 7, 19 \<mapsto> 7], ptrs = Map.empty, errno = 0,
      wides = [32 \<mapsto> 0xE9, 36 \<mapsto> 0x20AC, 40 \<mapsto> 0], mbstates = Map.empty, internal_state = mb_new\<rparr>)"
proof -
  let ?w = "\<lparr>bytes = [16 \<mapsto> 7, 17 \<mapsto> 7, 18 \<mapsto> 7, 19 \<mapsto> 7], ptrs = Map.empty, errno = 0,
      wides = [32 \<mapsto> 0xE9, 36 \<mapsto> 0x20AC, 40 \<mapsto> 0], mbstates = Map.empty, internal_state = mb_new\<rparr> :: wmachine"
  have enc: "utf8_enc 0xE9 = [0xC3, 0xA9]" "utf8_enc 0x20AC = [0xE2, 0x82, 0xAC]"
    "scalar_value 0xE9" "scalar_value 0x20AC"
    by (simp_all add: utf8_enc_def utf8_of_def utf8_ints_def scalar_value_def is_scalar_def)
  have "wcstr (wides ?w) 32 [0xE9, 0x20AC]" by (simp add: wchar_size_def)
  moreover have "mapped (bytes ?w) 16 4" by (auto simp: mapped_def less_small)
  ultimately show ?thesis
    using wcstombs_correct [of ?w 32 "[0xE9, 0x20AC]" 16 4 "[0xE9, 0x20AC]" "[0xC3, 0xA9]"]
    by (simp add: enc fun_upd_twist)
qed

text \<open>
  C11. A wide string of scalar values survives the way through UTF-8: \<^verbatim>\<open>wcstombs\<close> into a buffer
  with room for its encoding and the terminator, then \<^verbatim>\<open>mbstowcs\<close> into a wide buffer with
  room for it, store the same characters and a terminator, and report both lengths.
\<close>

theorem wide_text_roundtrip:
  assumes "wcstr (wides w) src ws" "\<forall>c \<in> set ws. scalar_value c" "src \<noteq> null" "buf \<noteq> null"
    "dst \<noteq> null" "length (concat (map utf8_enc ws)) < len" "mapped (bytes w) buf len"
    "length ws < n" "wides_mapped (wides w) dst 0 n"
  shows "\<exists>w'. wcstombs buf src len w = Some (length (concat (map utf8_enc ws)), w') \<and>
    cstr (bytes w') buf (concat (map utf8_enc ws)) \<and>
    mbstowcs dst buf n w' = Some (length ws, w'\<lparr>wides := store_wides (wides w) dst (ws @ [0])\<rparr>)"
proof -
  let ?out = "concat (map utf8_enc ws)" and ?w = "w\<lparr>bytes := store_bytes (bytes w) buf (concat (map utf8_enc ws) @ [0])\<rparr>"
  have good: "takeWhile scalar_value ws = ws" using assms(2) by simp
  have fit: "fit len ws = ws" using assms(6) by (intro fit_all) simp
  have "0 < len" using assms(6) by simp
  then have conv: "wcstombs buf src len w = Some (length ?out, ?w)"
    using wcstombs_loop_spec [of w src 0 ws buf 0 len] assms(1,3,4,6,7)
    by (simp add: wcstombs_def wcstombs_spec_def Let_def good fit del: takeWhile_eq_all_conv)
  have nz: "c \<noteq> 0" if "c \<in> set ws" for c using assms(1) that by (induction ws arbitrary: src) auto
  have "0 \<notin> set ?out" using nz assms(2) utf8_enc_nonzero by fastforce
  then have str: "cstr (bytes ?w) buf ?out"
    using bytes_at_store_bytes [of "bytes w" buf "?out @ [0]"] by (simp add: cstr_def)
  have "decode_all utf8_dec ?out = (ws, [])"
    using utf8.decode_all_concat [OF assms(2) utf8.dec_Nil] by simp
  then have "mbstowcs_spec dst n 0 ?out ?w = (length ws, ?w\<lparr>wides := store_wides (wides w) dst (ws @ [0])\<rparr>)"
    using assms(8) by (simp add: mbstowcs_spec_def)
  then have "mbstowcs dst buf n ?w = Some (length ws, ?w\<lparr>wides := store_wides (wides w) dst (ws @ [0])\<rparr>)"
    using mbstowcs_loop_spec [OF str assms(4,5), of 0 n] assms(4,5,8,9) by (simp add: mbstowcs_def)
  with conv str show ?thesis by blast
qed

theorem wide_text_roundtrip_witness:
  "\<exists>w'. wcstombs 16 32 3 \<lparr>bytes = [16 \<mapsto> 7, 17 \<mapsto> 7, 18 \<mapsto> 7], ptrs = Map.empty, errno = 0,
      wides = [32 \<mapsto> 0xE9, 36 \<mapsto> 0, 48 \<mapsto> 9, 52 \<mapsto> 9], mbstates = Map.empty, internal_state = mb_new\<rparr> = Some (2, w') \<and>
     (\<exists>w''. mbstowcs 48 16 2 w' = Some (1, w'') \<and> wides w'' 48 = Some 0xE9 \<and> wides w'' 52 = Some 0)"
proof -
  let ?w = "\<lparr>bytes = [16 \<mapsto> 7, 17 \<mapsto> 7, 18 \<mapsto> 7], ptrs = Map.empty, errno = 0,
      wides = [32 \<mapsto> 0xE9, 36 \<mapsto> 0, 48 \<mapsto> 9, 52 \<mapsto> 9], mbstates = Map.empty, internal_state = mb_new\<rparr> :: wmachine"
  have enc: "utf8_enc 0xE9 = [0xC3, 0xA9]" "scalar_value 0xE9"
    by (simp_all add: utf8_enc_def utf8_of_def utf8_ints_def scalar_value_def is_scalar_def)
  have "wcstr (wides ?w) 32 [0xE9]" by (simp add: wchar_size_def)
  moreover have "mapped (bytes ?w) 16 3" by (auto simp: mapped_def less_small)
  moreover have "wides_mapped (wides ?w) 48 0 2"
    by (auto simp: wides_mapped_def wchar_size_def less_small)
  ultimately show ?thesis
    using wide_text_roundtrip [of ?w 32 "[0xE9]" 16 48 3 2] by (auto simp: enc wchar_size_def)
qed

end
