(* ===== verification/Calendar.thy ===== *)
theory Calendar
  imports Prelude "HOL-Library.Signed_Division"
begin

text \<open>
  Calendar and clock functions of \<^verbatim>\<open>src/src/time.rs\<close>. The 128-bit intermediate values are
  integers: they stay below \<open>2 ^ 70\<close>, since every input is a sum of few products of 64-bit fields
  with small constants. Rust's \<open>/\<close> and \<open>%\<close> truncate (\<open>sdiv\<close>, \<open>smod\<close>), \<^verbatim>\<open>div_euclid\<close> and \<^verbatim>\<open>rem_euclid\<close>
  by a positive divisor are \<open>div\<close> and \<open>mod\<close>. The system calls are parameters.

  The lemmas show that the two day-count routines are inverse to each other and count the days
  of the proleptic Gregorian calendar, from which the contracts of \<^verbatim>\<open>gmtime_r\<close>, \<^verbatim>\<open>timegm\<close> and
  \<^verbatim>\<open>mktime\<close> follow.
\<close>

section \<open>Definitions\<close>

definition CLOCK_REALTIME :: c_int where "CLOCK_REALTIME = 0"
definition CLOCKFD :: c_int where "CLOCKFD = 3"
definition SECONDS_PER_DAY :: int where "SECONDS_PER_DAY = 86400"
definition DAYS_PER_400_YEARS :: int where "DAYS_PER_400_YEARS = 146097"

definition DAYS_BEFORE_MONTH :: "int list" where
  "DAYS_BEFORE_MONTH = [0, 31, 59, 90, 120, 151, 181, 212, 243, 273, 304, 334]"

record tm =
  tm_sec :: c_int
  tm_min :: c_int
  tm_hour :: c_int
  tm_mday :: c_int
  tm_mon :: c_int
  tm_year :: c_int
  tm_wday :: c_int
  tm_yday :: c_int
  tm_isdst :: c_int
  tm_gmtoff :: c_long
  tm_zone :: addr

definition unix_epoch_tm :: tm where
  "unix_epoch_tm = \<lparr>tm_sec = 0, tm_min = 0, tm_hour = 0, tm_mday = 1, tm_mon = 0, tm_year = 70,
     tm_wday = 4, tm_yday = 0, tm_isdst = 0, tm_gmtoff = 0, tm_zone = null\<rparr>"

text \<open>\<^verbatim>\<open>fd << 3\<close> and the arithmetic \<^verbatim>\<open>>> 3\<close> on 32-bit values.\<close>

definition fd_to_clockid :: "c_int \<Rightarrow> c_int" where
  "fd_to_clockid fd = push_bit 3 (NOT fd) OR CLOCKFD"

definition clockid_to_fd :: "c_int \<Rightarrow> c_int" where
  "clockid_to_fd clock_id = NOT (signed_drop_bit 3 clock_id)"

text \<open>\<open>Inl\<close> is the \<^verbatim>\<open>errno\<close> of a failed system call; it saturates at \<^verbatim>\<open>c_int::MAX\<close>.\<close>

definition decode_syscall_status :: "c_long \<Rightarrow> c_int + unit" where
  "decode_syscall_status raw =
     (if sint raw < 0
      then Inl (case try_i32 \<bar>sint raw\<bar> of Some e \<Rightarrow> e | None \<Rightarrow> 0x7FFFFFFF)
      else Inr ())"

definition is_leap_year :: "int \<Rightarrow> bool" where
  "is_leap_year year \<longleftrightarrow>
     (year smod 4 = 0 \<and> year smod 100 \<noteq> 0) \<or> year smod 400 = 0"

definition day_of_year :: "int \<Rightarrow> int \<Rightarrow> int \<Rightarrow> c_int option" where
  "day_of_year year month day = do {
     let month_index = month - 1;
     yday \<leftarrow> (if 0 \<le> month_index \<and> nat month_index < length DAYS_BEFORE_MONTH
             then Some (DAYS_BEFORE_MONTH ! nat month_index) else None);
     let yday = yday + (day - 1);
     let yday = (if month > 2 \<and> is_leap_year year then yday + 1 else yday);
     try_i32 yday }"

definition civil_from_days :: "int \<Rightarrow> int \<times> int \<times> int" where
  "civil_from_days days_since_epoch =
     (let shifted_days = days_since_epoch + 719468;
          era = (if shifted_days \<ge> 0 then shifted_days
                 else shifted_days - (DAYS_PER_400_YEARS - 1)) sdiv DAYS_PER_400_YEARS;
          day_of_era = shifted_days - era * DAYS_PER_400_YEARS;
          year_of_era = (day_of_era - day_of_era sdiv 1460 + day_of_era sdiv 36524
                         - day_of_era sdiv 146096) sdiv 365;
          year = year_of_era + era * 400;
          day_of_year = day_of_era - (365 * year_of_era + year_of_era sdiv 4 - year_of_era sdiv 100);
          month_phase = (5 * day_of_year + 2) sdiv 153;
          day = day_of_year - (153 * month_phase + 2) sdiv 5 + 1;
          month = month_phase + (if month_phase < 10 then 3 else -9);
          year = (if month \<le> 2 then year + 1 else year)
      in (year, month, day))"

definition days_from_civil :: "int \<Rightarrow> int \<Rightarrow> int \<Rightarrow> int" where
  "days_from_civil year month day =
     (let leap_adjustment = (if month \<le> 2 then 1 else 0);
          adjusted_year = year - leap_adjustment;
          era = (if adjusted_year \<ge> 0 then adjusted_year else adjusted_year - 399) sdiv 400;
          year_of_era = adjusted_year - era * 400;
          month_phase = month + (if month > 2 then -3 else 9);
          day_of_year = (153 * month_phase + 2) sdiv 5 + day - 1;
          day_of_era = year_of_era * 365 + year_of_era sdiv 4 - year_of_era sdiv 100 + day_of_year
      in era * DAYS_PER_400_YEARS + day_of_era - 719468)"

definition tm_from_unix_seconds :: "int \<Rightarrow> tm option" where
  "tm_from_unix_seconds seconds = do {
     let days_since_epoch = seconds div SECONDS_PER_DAY;
     let seconds_within_day = seconds mod SECONDS_PER_DAY;
     let (year, month, day) = civil_from_days days_since_epoch;
     year' \<leftarrow> try_i32 (year - 1900);
     yday \<leftarrow> day_of_year year month day;
     hour \<leftarrow> try_i32 (seconds_within_day sdiv 3600);
     min \<leftarrow> try_i32 ((seconds_within_day smod 3600) sdiv 60);
     sec \<leftarrow> try_i32 (seconds_within_day smod 60);
     month_index \<leftarrow> try_i32 (month - 1);
     day_of_month \<leftarrow> try_i32 day;
     weekday_index \<leftarrow> try_i32 ((days_since_epoch + 4) mod 7);
     Some \<lparr>tm_sec = sec, tm_min = min, tm_hour = hour, tm_mday = day_of_month,
           tm_mon = month_index, tm_year = year', tm_wday = weekday_index, tm_yday = yday,
           tm_isdst = 0, tm_gmtoff = 0, tm_zone = null\<rparr> }"

definition normalized_tm_to_unix_seconds :: "tm \<Rightarrow> int" where
  "normalized_tm_to_unix_seconds t =
     (let full_year = sint (tm_year t) + 1900;
          zero_based_month = sint (tm_mon t);
          full_year = full_year + zero_based_month div 12;
          zero_based_month = zero_based_month mod 12;
          one_based_month = zero_based_month + 1;
          day_offset = sint (tm_mday t) - 1;
          day_seconds = sint (tm_hour t) * 3600 + sint (tm_min t) * 60 + sint (tm_sec t);
          carry_days = day_seconds div SECONDS_PER_DAY;
          normalized_day_seconds = day_seconds mod SECONDS_PER_DAY;
          base_days = days_from_civil full_year one_based_month 1;
          days_since_epoch = base_days + day_offset + carry_days
      in days_since_epoch * SECONDS_PER_DAY + normalized_day_seconds)"

definition normalized_tm_to_unix_seconds_for_mktime :: "tm \<Rightarrow> int" where
  "normalized_tm_to_unix_seconds_for_mktime t =
     (let unix_seconds = normalized_tm_to_unix_seconds t
      in if sint (tm_isdst t) > 0 then unix_seconds - 3600 else unix_seconds)"

text \<open>
  The memory of the calendar functions: \<^verbatim>\<open>time_t\<close> cells, \<^verbatim>\<open>struct tm\<close> cells, cells of two
  \<^verbatim>\<open>c_long\<close> (a \<^verbatim>\<open>timespec\<close> or a \<^verbatim>\<open>timeval\<close>, which the fallback casts into each other), and the
  thread's static \<^verbatim>\<open>struct tm\<close>, which lives at its own address.
\<close>

record tmachine = machine +
  times :: "addr \<rightharpoonup> c_long"
  tms :: "addr \<rightharpoonup> tm"
  long_pairs :: "addr \<rightharpoonup> c_long \<times> c_long"
  gmtime_storage :: addr

definition write_tm :: "addr \<Rightarrow> tm \<Rightarrow> 'z tmachine_scheme \<Rightarrow> 'z tmachine_scheme option" where
  "write_tm p t w = (if tms w p = None then None else Some (w\<lparr>tms := (tms w)(p \<mapsto> t)\<rparr>))"

definition gmtime_r :: "addr \<Rightarrow> addr \<Rightarrow> 'z tmachine_scheme \<Rightarrow> (addr \<times> 'z tmachine_scheme) option" where
  "gmtime_r timer result w =
     (if timer = null \<or> result = null then Some (null, set_errno EINVAL w)
      else do {
        seconds \<leftarrow> times w timer;
        (case tm_from_unix_seconds (sint seconds) of
           None \<Rightarrow> Some (null, set_errno ERANGE w)
         | Some converted \<Rightarrow> do { w \<leftarrow> write_tm result converted w; Some (result, w) }) })"

definition gmtime :: "addr \<Rightarrow> 'z tmachine_scheme \<Rightarrow> (addr \<times> 'z tmachine_scheme) option" where
  "gmtime timer w =
     (if timer = null then Some (null, set_errno EINVAL w)
      else do {
        let result_ptr = gmtime_storage w;
        (converted, w) \<leftarrow> gmtime_r timer result_ptr w;
        Some (if converted = null then null else result_ptr, w) })"

definition localtime_r :: "addr \<Rightarrow> addr \<Rightarrow> 'z tmachine_scheme \<Rightarrow> (addr \<times> 'z tmachine_scheme) option" where
  "localtime_r timer result w = gmtime_r timer result w"

definition localtime :: "addr \<Rightarrow> 'z tmachine_scheme \<Rightarrow> (addr \<times> 'z tmachine_scheme) option" where
  "localtime timer w =
     (if timer = null then Some (null, set_errno EINVAL w)
      else do {
        let result_ptr = gmtime_storage w;
        (converted, w) \<leftarrow> localtime_r timer result_ptr w;
        Some (if converted = null then null else result_ptr, w) })"

definition timegm :: "addr \<Rightarrow> 'z tmachine_scheme \<Rightarrow> (c_long \<times> 'z tmachine_scheme) option" where
  "timegm time_parts w =
     (if time_parts = null then Some (-1, set_errno EINVAL w)
      else do {
        input \<leftarrow> tms w time_parts;
        let seconds = normalized_tm_to_unix_seconds input;
        (case try_i64 seconds of
           None \<Rightarrow> Some (-1, set_errno ERANGE w)
         | Some output_seconds \<Rightarrow>
             (case tm_from_unix_seconds seconds of
                None \<Rightarrow> Some (-1, set_errno ERANGE w)
              | Some normalized \<Rightarrow> do { w \<leftarrow> write_tm time_parts normalized w; Some (output_seconds, w) })) })"

definition mktime :: "addr \<Rightarrow> 'z tmachine_scheme \<Rightarrow> (c_long \<times> 'z tmachine_scheme) option" where
  "mktime time_parts w =
     (if time_parts = null then Some (-1, set_errno EINVAL w)
      else do {
        input \<leftarrow> tms w time_parts;
        let seconds = normalized_tm_to_unix_seconds_for_mktime input;
        (case try_i64 seconds of
           None \<Rightarrow> Some (-1, set_errno ERANGE w)
         | Some output_seconds \<Rightarrow>
             (case tm_from_unix_seconds seconds of
                None \<Rightarrow> Some (-1, set_errno ERANGE w)
              | Some normalized \<Rightarrow> do { w \<leftarrow> write_tm time_parts normalized w; Some (output_seconds, w) })) })"

text \<open>
  The system calls \<^verbatim>\<open>clock_gettime\<close> and \<^verbatim>\<open>gettimeofday\<close> are parameters: functions of their
  pointer arguments and the state. \<open>frame\<close> is the address of the local \<^verbatim>\<open>fallback_time\<close>.
\<close>

definition clock_gettime_with_syscalls ::
  "addr \<Rightarrow> c_int \<Rightarrow> addr \<Rightarrow> (c_int \<Rightarrow> addr \<Rightarrow> 'z tmachine_scheme \<Rightarrow> c_long \<times> 'z tmachine_scheme) \<Rightarrow>
   (addr \<Rightarrow> 'z tmachine_scheme \<Rightarrow> c_long \<times> 'z tmachine_scheme) \<Rightarrow>
   'z tmachine_scheme \<Rightarrow> (c_int \<times> 'z tmachine_scheme) option" where
  "clock_gettime_with_syscalls frame clock_id tp clock_gettime_syscall gettimeofday_syscall w =
     (if tp = null then Some (-1, set_errno EFAULT w)
      else
        (let (raw, w) = clock_gettime_syscall clock_id tp w in
         case decode_syscall_status raw of
           Inr _ \<Rightarrow> Some (0, w)
         | Inl e \<Rightarrow>
             if e = ENOSYS \<and> clock_id = CLOCK_REALTIME then
               (let w = w\<lparr>long_pairs := (long_pairs w)(frame \<mapsto> (0, 0))\<rparr>;
                    (fallback_raw, w) = gettimeofday_syscall frame w in
                case decode_syscall_status fallback_raw of
                  Inl fallback_errno \<Rightarrow> Some (-1, set_errno fallback_errno w)
                | Inr _ \<Rightarrow> do {
                    (tv_sec, tv_usec) \<leftarrow> long_pairs w frame;
                    if \<not> (0 \<le> sint tv_usec \<and> sint tv_usec < 1000000)
                    then Some (-1, set_errno EINVAL w)
                    else
                      (let (probe_raw, w) = gettimeofday_syscall tp w in
                       case decode_syscall_status probe_raw of
                         Inl probe_errno \<Rightarrow> Some (-1, set_errno probe_errno w)
                       | Inr _ \<Rightarrow>
                           Some (0, w\<lparr>long_pairs := (long_pairs w)(tp \<mapsto> (tv_sec, tv_usec * 1000))\<rparr>)) })
             else Some (-1, set_errno e w)))"

text \<open>\<^verbatim>\<open>gettimeofday\<close> hands both pointers to the system call.\<close>

definition gettimeofday ::
  "(addr \<Rightarrow> addr \<Rightarrow> 'z tmachine_scheme \<Rightarrow> c_long \<times> 'z tmachine_scheme) \<Rightarrow> addr \<Rightarrow> addr \<Rightarrow>
   'z tmachine_scheme \<Rightarrow> c_int \<times> 'z tmachine_scheme" where
  "gettimeofday syscall_gettimeofday tv tz w =
     (if tv = null \<and> tz = null then (0, w)
      else
        (let (raw, w) = syscall_gettimeofday tv tz w in
         case decode_syscall_status raw of
           Inl e \<Rightarrow> (-1, set_errno e w)
         | Inr _ \<Rightarrow> (0, w)))"

definition clock_gettime ::
  "addr \<Rightarrow> (c_int \<Rightarrow> addr \<Rightarrow> 'z tmachine_scheme \<Rightarrow> c_long \<times> 'z tmachine_scheme) \<Rightarrow>
   (addr \<Rightarrow> addr \<Rightarrow> 'z tmachine_scheme \<Rightarrow> c_long \<times> 'z tmachine_scheme) \<Rightarrow> c_int \<Rightarrow> addr \<Rightarrow>
   'z tmachine_scheme \<Rightarrow> (c_int \<times> 'z tmachine_scheme) option" where
  "clock_gettime frame syscall_clock_gettime syscall_gettimeofday clock_id tp w =
     clock_gettime_with_syscalls frame clock_id tp syscall_clock_gettime
       (\<lambda>tv. syscall_gettimeofday tv null) w"

section \<open>The Gregorian calendar\<close>

text \<open>The specification: lengths of the months, valid dates, and the next day.\<close>

definition leap :: "int \<Rightarrow> bool" where
  "leap y \<longleftrightarrow> (4 dvd y \<and> \<not> 100 dvd y) \<or> 400 dvd y"

definition month_len :: "int \<Rightarrow> int \<Rightarrow> int" where
  "month_len y m = (if m = 2 then (if leap y then 29 else 28)
     else if m = 4 \<or> m = 6 \<or> m = 9 \<or> m = 11 then 30 else 31)"

fun valid_civil :: "int \<times> int \<times> int \<Rightarrow> bool" where
  "valid_civil (y, m, d) \<longleftrightarrow> 1 \<le> m \<and> m \<le> 12 \<and> 1 \<le> d \<and> d \<le> month_len y m"

fun next_day :: "int \<times> int \<times> int \<Rightarrow> int \<times> int \<times> int" where
  "next_day (y, m, d) =
     (if d < month_len y m then (y, m, d + 1) else if m < 12 then (y, m + 1, 1) else (y + 1, 1, 1))"

fun prev_day :: "int \<times> int \<times> int \<Rightarrow> int \<times> int \<times> int" where
  "prev_day (y, m, d) =
     (if 1 < d then (y, m, d - 1) else if 1 < m then (y, m - 1, month_len y (m - 1)) else (y - 1, 12, 31))"

text \<open>
  The interface between a day count and its users: two inverse conversions, and a successor
  of dates that the count follows.
\<close>

locale day_calendar =
  fixes to_days :: "'d \<Rightarrow> int"
    and of_days :: "int \<Rightarrow> 'd"
    and valid :: "'d \<Rightarrow> bool"
    and next_date :: "'d \<Rightarrow> 'd"
    and epoch :: 'd
  assumes valid_of_days: "valid (of_days n)"
    and to_of_days: "to_days (of_days n) = n"
    and of_to_days: "valid d \<Longrightarrow> of_days (to_days d) = d"
    and valid_next: "valid d \<Longrightarrow> valid (next_date d)"
    and to_days_next: "valid d \<Longrightarrow> to_days (next_date d) = to_days d + 1"
    and of_days_0: "of_days 0 = epoch"
begin

lemma of_days_add_1: "of_days (n + 1) = next_date (of_days n)"
proof -
  have "to_days (next_date (of_days n)) = n + 1" by (simp add: to_days_next valid_of_days to_of_days)
  then show ?thesis using of_to_days [OF valid_next [OF valid_of_days [of n]]] by simp
qed

lemma of_days_funpow: "of_days (int k) = (next_date ^^ k) epoch"
proof (induction k)
  case (Suc k)
  then show ?case using of_days_add_1 [of "int k"] by (simp add: add.commute)
qed (simp add: of_days_0)

lemma to_days_inj: "valid d \<Longrightarrow> valid e \<Longrightarrow> to_days d = to_days e \<Longrightarrow> d = e"
  by (metis of_to_days)

lemma of_days_inj: "of_days n = of_days k \<Longrightarrow> n = k"
  by (metis to_of_days)

end

subsection \<open>Truncating division\<close>

lemma sdiv_nonneg: "0 \<le> a \<Longrightarrow> 0 < b \<Longrightarrow> a sdiv b = a div (b :: int)"
  by (cases "a = 0") (simp_all add: signed_divide_int_def)

lemma smod_nonneg: "0 \<le> a \<Longrightarrow> 0 < b \<Longrightarrow> a smod b = a mod (b :: int)"
  by (cases "a = 0") (simp_all add: signed_modulo_int_def)

lemma smod_eq_0_iff: "a smod b = 0 \<longleftrightarrow> b dvd (a :: int)"
  by (cases "a = 0") (simp_all add: signed_modulo_int_def mod_eq_0_iff_dvd sgn_0_0)

lemma div_eqI: "b * q \<le> a \<Longrightarrow> a < b * q + b \<Longrightarrow> a div b = (q :: int)"
  by (rule int_div_pos_eq [where r = "a - b * q"]) auto

lemma floor_by_sdiv:
  assumes b: "0 < b" and c: "c = b - 1"
  shows "(if a \<ge> 0 then a else a - c) sdiv b = a div (b :: int)"
proof -
  show ?thesis
  proof (cases "a \<ge> 0")
    case False
    define q r where "q = a div b" and "r = a mod b"
    have qr: "a = b * q + r" "0 \<le> r" "r < b" using b by (simp_all add: q_def r_def)
    then have "\<bar>a - (b - 1)\<bar> = b * (- q) + (b - 1 - r)" using False b by simp
    then have "\<bar>a - (b - 1)\<bar> div b = - q" using qr b by (intro div_eqI) auto
    then show ?thesis using False b unfolding c by (simp add: signed_divide_int_def q_def)
  qed (use b in \<open>simp add: sdiv_nonneg\<close>)
qed

lemma is_leap_year_iff: "is_leap_year y \<longleftrightarrow> leap y"
  by (simp add: is_leap_year_def leap_def smod_eq_0_iff)

subsection \<open>The day count\<close>

text \<open>Days from the start of March of year 0 to the start of March of year \<open>y\<close>.\<close>

definition march_days :: "int \<Rightarrow> int" where
  "march_days y = 365 * y + y div 4 - y div 100 + y div 400"

lemma div_minus_1: "0 < b \<Longrightarrow> (y - 1) div b = y div b - (if b dvd y then 1 else (0 :: int))"
proof -
  assume b: "0 < b"
  define q r where "q = y div b" and "r = y mod b"
  have qr: "y = b * q + r" "0 \<le> r" "r < b" using b by (simp_all add: q_def r_def)
  have "b dvd y \<longleftrightarrow> r = 0" by (simp add: r_def dvd_eq_mod_eq_0)
  moreover have "r = 0 \<Longrightarrow> (y - 1) div b = q - 1" using qr b by (intro div_eqI) (auto simp: algebra_simps)
  moreover have "r \<noteq> 0 \<Longrightarrow> (y - 1) div b = q" using qr b by (intro div_eqI) auto
  ultimately show ?thesis by (simp add: q_def)
qed

lemma march_days_step: "march_days y = march_days (y - 1) + 365 + (if leap y then 1 else 0)"
proof -
  have "400 dvd y \<Longrightarrow> 100 dvd y" "100 dvd y \<Longrightarrow> 4 dvd y"
    by (erule dvd_trans [rotated], simp)+
  then show ?thesis by (auto simp: march_days_def div_minus_1 leap_def)
qed

definition civil_year :: "int \<Rightarrow> int \<Rightarrow> int" where
  "civil_year y m = (if m \<le> 2 then y - 1 else y)"

definition phase :: "int \<Rightarrow> int" where
  "phase m = (if m > 2 then m - 3 else m + 9)"

lemma march_days_era:
  assumes "0 \<le> r" "r < 400"
  shows "march_days (400 * e + r) = 146097 * e + (365 * r + r div 4 - r div 100)"
proof -
  have "(400 * e + r) div 4 = 100 * e + r div 4" "(400 * e + r) div 100 = 4 * e + r div 100"
    "(400 * e + r) div 400 = e"
    using assms div_mult_self4 [of 4 "100 * e" r] div_mult_self4 [of 100 "4 * e" r] by simp_all
  then show ?thesis by (simp add: march_days_def)
qed

lemma days_from_civil_eq:
  assumes "1 \<le> m" "m \<le> 12"
  shows "days_from_civil y m d = march_days (civil_year y m) + (153 * phase m + 2) div 5 + d - 719469"
proof -
  define a where "a = civil_year y m"
  have mp: "0 \<le> 153 * phase m + 2" using assms by (simp add: phase_def)
  have a': "y - (if m \<le> 2 then 1 else 0) = a" "m + (if m > 2 then -3 else 9) = phase m"
    by (simp_all add: a_def civil_year_def phase_def)
  have era: "(if a \<ge> 0 then a else a - 399) sdiv 400 = a div 400"
    by (rule floor_by_sdiv) simp_all
  have r: "a - a div 400 * 400 = a mod 400" by (simp add: minus_div_mult_eq_mod)
  have b: "0 \<le> a mod 400" "a mod 400 < 400" by simp_all
  have "march_days a = 146097 * (a div 400) + (365 * (a mod 400) + a mod 400 div 4 - a mod 400 div 100)"
    using march_days_era [OF b, of "a div 400"] by simp
  then show ?thesis
    unfolding days_from_civil_def Let_def a' era r
    using mp b by (simp add: sdiv_nonneg DAYS_PER_400_YEARS_def a_def [symmetric])
qed

text \<open>
  A day of the 400-year era, from the year of the era (by centuries, four-year groups and
  years) and the day of that year, which begins in March.
\<close>

lemma year_of_era:
  fixes c q s d doe :: int
  assumes "0 \<le> c" "c \<le> 3" "0 \<le> q" "q \<le> 24" "0 \<le> s" "s \<le> 3" "0 \<le> d" "d \<le> 365"
    and last: "d = 365 \<Longrightarrow> s = 3 \<and> (q = 24 \<longrightarrow> c = 3)"
    and doe: "doe = 36524 * c + 1461 * q + 365 * s + d"
  shows "(doe - doe div 1460 + doe div 36524 - doe div 146096) div 365 = 100 * c + 4 * q + s"
    "0 \<le> doe" "doe < 146097"
proof -
  define e where "e = (if 24 * c + q + 365 * s + d \<ge> 1460 then 1 else 0 :: int)"
  have d365: "d < 365 \<or> d = 365 \<and> s = 3 \<and> (q < 24 \<or> c = 3)" using assms(4,8) last by (cases "d = 365"; cases "q = 24") auto
  have e01: "0 \<le> e" "e \<le> 1" by (simp_all add: e_def)
  have a: "doe div 1460 = 25 * c + q + e"
    by (rule div_eqI) (use assms(1-8) in \<open>simp_all add: doe e_def\<close>)
  have b: "doe div 36524 - doe div 146096 = c"
  proof (cases "doe = 146096")
    case False
    have "doe < 146096 \<or> doe = 146096" using assms(1-8) d365 unfolding doe by linarith
    then have lt: "doe < 146096" using False by simp
    have "0 \<le> doe" using assms(1-8) unfolding doe by simp
    have "1461 * q + 365 * s + d < 36524 \<or> c = 3 \<and> q = 24 \<and> s = 3 \<and> d = 365"
      using assms(1-8) d365 by linarith
    then have "doe div 36524 = c"
      using assms(1-8) lt by (intro div_eqI) (auto simp: doe)
    moreover have "doe div 146096 = 0" using lt \<open>0 \<le> doe\<close> by simp
    ultimately show ?thesis by simp
  next
    case True
    have "c = 3" using True assms(1-8) unfolding doe by linarith
    then show ?thesis using True by simp
  qed
  have "0 \<le> d - e" "d - e < 365"
    using assms(1-8) d365 by (auto simp: e_def)
  moreover have "x - A + B - C = 365 * (100 * c + 4 * q + s) + (d - e)"
    if "A = 25 * c + q + e" "B - C = c" "x = 36524 * c + 1461 * q + 365 * s + d" for x A B C :: int
  proof -
    have "x - A + B - C = x - A + (B - C)" by simp
    then show ?thesis unfolding that by (simp add: algebra_simps)
  qed
  from this [OF a b doe] have "doe - doe div 1460 + doe div 36524 - doe div 146096 =
      365 * (100 * c + 4 * q + s) + (d - e)" .
  ultimately show "(doe - doe div 1460 + doe div 36524 - doe div 146096) div 365 = 100 * c + 4 * q + s"
    by (intro div_eqI) simp_all
  show "0 \<le> doe" "doe < 146097" using assms(1-8) d365 unfolding doe by linarith+
qed

text \<open>A month of the March year, and the day in it, from the day of the year.\<close>

lemma month_cases: "1 \<le> m \<Longrightarrow> m \<le> (12 :: int) \<Longrightarrow>
   m = 1 \<or> m = 2 \<or> m = 3 \<or> m = 4 \<or> m = 5 \<or> m = 6 \<or> m = 7 \<or> m = 8 \<or> m = 9 \<or> m = 10 \<or> m = 11 \<or> m = 12"
  by presburger

lemma month_of_day:
  assumes "valid_civil (y, m, d)" and doy: "doy = (153 * phase m + 2) div 5 + d - 1"
  shows "(5 * doy + 2) div 153 = phase m" "0 \<le> doy" "doy \<le> 365" "0 \<le> phase m"
    "doy = 365 \<Longrightarrow> m = 2 \<and> leap y"
proof -
  have m: "1 \<le> m" "m \<le> 12" and d: "1 \<le> d" "d \<le> month_len y m" using assms(1) by simp_all
  have "(5 * doy + 2) div 153 = phase m \<and> 0 \<le> doy \<and> doy \<le> 365 \<and> 0 \<le> phase m \<and>
      (doy = 365 \<longrightarrow> m = 2 \<and> leap y)"
    using month_cases [OF m] d
    by (elim disjE) (auto simp: doy phase_def month_len_def intro!: div_eqI split: if_splits)
  then show "(5 * doy + 2) div 153 = phase m" "0 \<le> doy" "doy \<le> 365" "0 \<le> phase m"
    "doy = 365 \<Longrightarrow> m = 2 \<and> leap y" by simp_all
qed

lemma march_leap:
  assumes "leap (a + 1)" "r = a mod 400"
  shows "r mod 4 = 3 \<and> (r mod 100 div 4 = 24 \<longrightarrow> r div 100 = 3)"
proof -
  have r: "a = 400 * (a div 400) + r" "0 \<le> r" "r < 400" using assms(2) by simp_all
  have a1: "a + 1 = 400 * (a div 400) + (r + 1)" using r(1) by simp
  have dvd: "k dvd a + 1 \<longleftrightarrow> k dvd r + 1" if "k dvd 400" for k
    unfolding a1 using that by (intro dvd_add_right_iff) simp
  have l: "4 dvd r + 1" "100 dvd r + 1 \<Longrightarrow> r = 399"
  proof -
    have "(4 dvd r + 1 \<and> \<not> 100 dvd r + 1) \<or> 400 dvd r + 1" using assms(1) by (simp add: leap_def dvd)
    moreover have "400 dvd r + 1 \<Longrightarrow> r = 399" using r(2,3) zdvd_imp_le [of 400 "r + 1"] by linarith
    moreover have "400 dvd r + 1 \<Longrightarrow> 4 dvd r + 1" by (erule dvd_trans [rotated]) simp
    ultimately show "4 dvd r + 1" "100 dvd r + 1 \<Longrightarrow> r = 399" by blast+
  qed
  have m4: "r mod 4 = 3" using l(1) by presburger
  have "r = 399" if "r mod 100 div 4 = 24"
  proof -
    have "96 \<le> r mod 100" "r mod 100 < 100" using that by linarith (simp)
    moreover have "r mod 100 mod 4 = 3" using m4 mod_mod_cancel [of 4 100 r] by simp
    ultimately have "r mod 100 = 99" by presburger
    then have "100 dvd r + 1" by (simp add: dvd_eq_mod_eq_0 mod_add_eq [symmetric])
    then show ?thesis by (rule l(2))
  qed
  with m4 show ?thesis by auto
qed

lemma civil_from_days_from_civil:
  assumes valid: "valid_civil (y, m, d)"
  shows "civil_from_days (days_from_civil y m d) = (y, m, d)"
proof -
  define a where "a = civil_year y m"
  define era r where "era = a div 400" and "r = a mod 400"
  define c q s where "c = r div 100" and "q = r mod 100 div 4" and "s = r mod 4"
  define doy where "doy = (153 * phase m + 2) div 5 + d - 1"
  define doe where "doe = 36524 * c + 1461 * q + 365 * s + doy"
  note month = month_of_day [OF valid doy_def]
  have m: "1 \<le> m" "m \<le> 12" using valid by simp_all
  have r: "0 \<le> r" "r < 400" "a = 400 * era + r" by (simp_all add: r_def era_def)
  have cqs: "r = 100 * c + 4 * q + s" "0 \<le> c" "c \<le> 3" "0 \<le> q" "q \<le> 24" "0 \<le> s" "s \<le> 3"
  proof -
    have "r mod 100 mod 4 = s" unfolding s_def by (rule mod_mod_cancel) simp
    then have "r mod 100 = 4 * q + s" unfolding q_def by (metis mult_div_mod_eq)
    moreover have "r = 100 * c + r mod 100" by (simp add: c_def)
    ultimately show "r = 100 * c + 4 * q + s" by simp
    show "0 \<le> c" "c \<le> 3" "0 \<le> q" "0 \<le> s" "s \<le> 3" using r(1,2)
      by (simp_all add: c_def q_def s_def pos_imp_zdiv_nonneg_iff)
    have "r mod 100 < 100" by simp
    then show "q \<le> 24" unfolding q_def by linarith
  qed
  have last: "s = 3 \<and> (q = 24 \<longrightarrow> c = 3)" if "doy = 365"
  proof -
    have "m = 2" "leap y" using month(5) [OF that] by simp_all
    then have "leap (a + 1)" by (simp add: a_def civil_year_def)
    from march_leap [OF this r_def] show ?thesis by (simp add: s_def q_def c_def)
  qed
  note yoe = year_of_era [OF cqs(2-7) month(2,3) last doe_def]
  have f: "365 * r + r div 4 - r div 100 = 36524 * c + 1461 * q + 365 * s"
  proof -
    have "r div 4 = 25 * c + q" using cqs by (intro div_eqI) simp_all
    moreover have "r div 100 = c" by (simp add: c_def)
    ultimately show ?thesis using cqs(1) by simp
  qed
  have shifted: "days_from_civil y m d + 719468 = 146097 * era + doe"
    using days_from_civil_eq [OF m, of y d] march_days_era [OF r(1,2), of era] f
    by (simp add: a_def [symmetric] r(3) [symmetric] doe_def doy_def)
  have era: "(if 146097 * era + doe \<ge> 0 then 146097 * era + doe
      else 146097 * era + doe - (DAYS_PER_400_YEARS - 1)) sdiv DAYS_PER_400_YEARS = era"
    unfolding DAYS_PER_400_YEARS_def using yoe(2,3)
    by (subst floor_by_sdiv) (simp_all add: div_eqI)
  have doe': "146097 * era + doe - era * DAYS_PER_400_YEARS = doe" by (simp add: DAYS_PER_400_YEARS_def)
  have yoe': "(doe - doe sdiv 1460 + doe sdiv 36524 - doe sdiv 146096) sdiv 365 = r"
  proof -
    define N where "N = doe - doe div 1460 + doe div 36524 - doe div 146096"
    have N: "N div 365 = r" using yoe(1) cqs(1) by (simp add: N_def)
    then have "\<not> N < 0" using r(1) div_neg_pos_less0 [of N 365] by auto
    then have "N sdiv 365 = r" using N by (simp add: sdiv_nonneg)
    then show ?thesis using yoe(2) by (simp add: sdiv_nonneg N_def)
  qed
  have doy: "doe - (365 * r + r sdiv 4 - r sdiv 100) = doy"
  proof -
    have "r sdiv 4 = r div 4" "r sdiv 100 = r div 100" using r(1) by (simp_all add: sdiv_nonneg)
    then show ?thesis by (simp only: f doe_def)
  qed
  have mp: "(5 * doy + 2) sdiv 153 = phase m" using month(1,2) by (simp add: sdiv_nonneg)
  have day: "doy - (153 * phase m + 2) sdiv 5 + 1 = d"
    using month(4) by (simp add: sdiv_nonneg doy_def)
  have mon: "phase m + (if phase m < 10 then 3 else -9) = m" using m by (auto simp: phase_def)
  have "(if m \<le> 2 then r + era * 400 + 1 else r + era * 400) = y"
    using r(3) by (simp add: a_def civil_year_def split: if_splits)
  then show ?thesis
    unfolding civil_from_days_def Let_def shifted era doe' yoe' doy mp day mon by simp
qed

lemma days_from_civil_next:
  assumes "valid_civil (y, m, d)" "next_day (y, m, d) = (y', m', d')"
  shows "days_from_civil y' m' d' = days_from_civil y m d + 1" "valid_civil (y', m', d')"
proof -
  have m: "1 \<le> m" "m \<le> 12" and d: "1 \<le> d" "d \<le> month_len y m" using assms(1) by simp_all
  have valid: "valid_civil (y', m', d')"
    using assms month_cases [OF m] by (auto simp: month_len_def split: if_splits)
  have m': "1 \<le> m'" "m' \<le> 12" using valid by simp_all
  note eq = days_from_civil_eq [OF m] days_from_civil_eq [OF m']
  show "days_from_civil y' m' d' = days_from_civil y m d + 1"
  proof (cases "d < month_len y m")
    case False
    then have d: "d = month_len y m" using d by simp
    show ?thesis
      using month_cases [OF m] assms(2) march_days_step [of y]
      unfolding eq unfolding d by (elim disjE) (auto simp: civil_year_def phase_def month_len_def)
  qed (use assms(2) eq in simp)
  show "valid_civil (y', m', d')" by (rule valid)
qed

lemma prev_day:
  assumes "valid_civil (y, m, d)"
  shows "valid_civil (prev_day (y, m, d))" "next_day (prev_day (y, m, d)) = (y, m, d)"
  using assms month_cases [of m] by (auto simp: month_len_def split: if_splits)

lemma civil_exists: "\<exists>y m d. valid_civil (y, m, d) \<and> days_from_civil y m d = n"
proof (induction n rule: int_induct [of _ 0])
  case base
  have "valid_civil (1970, 1, 1) \<and> days_from_civil 1970 1 1 = 0"
    by (simp add: month_len_def days_from_civil_eq civil_year_def phase_def march_days_def)
  then show ?case by blast
next
  case (step1 i)
  then obtain y m d where *: "valid_civil (y, m, d)" "days_from_civil y m d = i" by blast
  obtain y' m' d' where "next_day (y, m, d) = (y', m', d')" by (cases "next_day (y, m, d)")
  with days_from_civil_next [OF *(1) this] *(2) show ?case by blast
next
  case (step2 i)
  then obtain y m d where *: "valid_civil (y, m, d)" "days_from_civil y m d = i" by blast
  obtain y' m' d' where p: "prev_day (y, m, d) = (y', m', d')" by (cases "prev_day (y, m, d)")
  with prev_day [OF *(1)] have "valid_civil (y', m', d')" "next_day (y', m', d') = (y, m, d)" by simp_all
  with days_from_civil_next(1) [OF this] *(2) show ?case by (intro exI [of _ y'] exI [of _ m'] exI [of _ d']) simp
qed

interpretation greg: day_calendar "\<lambda>(y, m, d). days_from_civil y m d" civil_from_days valid_civil
  next_day "(1970, 1, 1)"
proof
  fix n
  obtain y m d where "valid_civil (y, m, d)" "days_from_civil y m d = n" using civil_exists by blast
  then have "civil_from_days n = (y, m, d)" "days_from_civil y m d = n" "valid_civil (y, m, d)"
    using civil_from_days_from_civil by auto
  then show "valid_civil (civil_from_days n)"
    "(case civil_from_days n of (y, m, d) \<Rightarrow> days_from_civil y m d) = n" by simp_all
next
  fix dt assume v: "valid_civil dt"
  obtain y m d where dt: "dt = (y, m, d)" by (cases dt)
  obtain y' m' d' where n: "next_day (y, m, d) = (y', m', d')" by (cases "next_day (y, m, d)")
  show "civil_from_days (case dt of (y, m, d) \<Rightarrow> days_from_civil y m d) = dt"
    using civil_from_days_from_civil v dt by simp
  show "valid_civil (next_day dt)"
    "(case next_day dt of (y, m, d) \<Rightarrow> days_from_civil y m d) =
     (case dt of (y, m, d) \<Rightarrow> days_from_civil y m d) + 1"
    using days_from_civil_next [OF v [unfolded dt] n] n dt by simp_all
next
  have "days_from_civil 1970 1 1 = 0"
    by (simp add: days_from_civil_eq civil_year_def phase_def march_days_def)
  then show "civil_from_days 0 = (1970, 1, 1)"
    using civil_from_days_from_civil [of 1970 1 1] by (simp add: month_len_def)
qed

subsection \<open>Broken-down time\<close>

text \<open>The broken-down time \<open>t\<close> is the UTC time of the second \<open>s\<close>.\<close>

definition utc_of :: "int \<Rightarrow> tm \<Rightarrow> bool" where
  "utc_of s t \<longleftrightarrow>
     (let n = s div 86400; y = 1900 + sint (tm_year t) in
      civil_from_days n = (y, sint (tm_mon t) + 1, sint (tm_mday t)) \<and>
      sint (tm_hour t) = s mod 86400 div 3600 \<and> sint (tm_min t) = s mod 3600 div 60 \<and>
      sint (tm_sec t) = s mod 60 \<and> sint (tm_wday t) = (n + 4) mod 7 \<and>
      sint (tm_yday t) = n - days_from_civil y 1 1 \<and>
      tm_isdst t = 0 \<and> tm_gmtoff t = 0 \<and> tm_zone t = null)"

definition year_fits :: "int \<Rightarrow> bool" where
  "year_fits s \<longleftrightarrow> (let y = fst (civil_from_days (s div 86400)) - 1900 in - (2 ^ 31) \<le> y \<and> y < 2 ^ 31)"

lemma try_i32_small: "- (2 ^ 31) \<le> x \<Longrightarrow> x < 2 ^ 31 \<Longrightarrow> try_i32 x = Some (word_of_int x)"
  by (simp add: try_i32_def)

lemma days_jan_1: "days_from_civil y 1 1 = march_days (y - 1) + 306 - 719468"
  by (simp add: days_from_civil_eq civil_year_def phase_def)

lemma day_of_year_days:
  assumes "valid_civil (y, m, d)"
  shows "day_of_year y m d = Some (word_of_int (days_from_civil y m d - days_from_civil y 1 1))"
    "0 \<le> days_from_civil y m d - days_from_civil y 1 1" "days_from_civil y m d - days_from_civil y 1 1 \<le> 365"
proof -
  have m: "1 \<le> m" "m \<le> 12" and d: "1 \<le> d" "d \<le> month_len y m" using assms by simp_all
  have "day_of_year y m d = try_i32 (days_from_civil y m d - days_from_civil y 1 1) \<and>
    0 \<le> days_from_civil y m d - days_from_civil y 1 1 \<and> days_from_civil y m d - days_from_civil y 1 1 \<le> 365"
    using month_cases [OF m] d march_days_step [of y]
    unfolding days_jan_1 days_from_civil_eq [OF m]
    by (elim disjE) (auto simp: day_of_year_def DAYS_BEFORE_MONTH_def is_leap_year_iff civil_year_def
        phase_def month_len_def add.commute [of d] split: if_splits)
  then show "day_of_year y m d = Some (word_of_int (days_from_civil y m d - days_from_civil y 1 1))"
    "0 \<le> days_from_civil y m d - days_from_civil y 1 1" "days_from_civil y m d - days_from_civil y 1 1 \<le> 365"
    using try_i32_small [of "days_from_civil y m d - days_from_civil y 1 1"] by auto
qed

lemma sint_of_small: "- (2 ^ 31) \<le> x \<Longrightarrow> x < 2 ^ 31 \<Longrightarrow> sint (word_of_int x :: c_int) = x"
  by (rule sint_word_of_int_i32)

lemma tm_from_unix_seconds_correct:
  "case tm_from_unix_seconds s of Some t \<Rightarrow> year_fits s \<and> utc_of s t | None \<Rightarrow> \<not> year_fits s"
proof -
  define n k where "n = s div 86400" and "k = s mod 86400"
  obtain y m d where c: "civil_from_days n = (y, m, d)" by (cases "civil_from_days n")
  have valid: "valid_civil (y, m, d)" and n: "days_from_civil y m d = n"
    using greg.valid_of_days [of n] greg.to_of_days [of n] c by simp_all
  have k: "0 \<le> k" "k < 86400" by (simp_all add: k_def)
  have h: "0 \<le> k div 3600" "k div 3600 < 24" "0 \<le> k mod 3600 div 60" "k mod 3600 div 60 < 60"
    "0 \<le> k mod 60" "k mod 60 < 60" "0 \<le> (n + 4) mod 7" "(n + 4) mod 7 < 7"
    using k by (simp_all add: pos_imp_zdiv_nonneg_iff)
  have md: "1 \<le> m" "m \<le> 12" "1 \<le> d" "d \<le> 31" using valid by (auto simp: month_len_def split: if_splits)
  have sd: "k sdiv 3600 = k div 3600" "k smod 3600 = k mod 3600" "k smod 60 = k mod 60"
    "(k mod 3600) sdiv 60 = k mod 3600 div 60"
    using k by (simp_all add: sdiv_nonneg smod_nonneg)
  have km: "k mod 3600 = s mod 3600" "k mod 60 = s mod 60"
    unfolding k_def by (rule mod_mod_cancel; simp)+
  note yday = day_of_year_days [OF valid, unfolded n]
  define t :: "c_int \<Rightarrow> tm" where "t = (\<lambda>yr. \<lparr>tm_sec = word_of_int (k mod 60), tm_min = word_of_int (k mod 3600 div 60),
      tm_hour = word_of_int (k div 3600), tm_mday = word_of_int d, tm_mon = word_of_int (m - 1),
      tm_year = yr, tm_wday = word_of_int ((n + 4) mod 7),
      tm_yday = word_of_int (n - days_from_civil y 1 1), tm_isdst = 0, tm_gmtoff = 0, tm_zone = null\<rparr>)"
  have lt: "x < 24 \<Longrightarrow> x < 1000" "x < 60 \<Longrightarrow> x < 1000" "x < 7 \<Longrightarrow> x < 1000" for x :: int by simp_all
  have "0 \<le> m - 1" "m - 1 < 1000" "0 \<le> d" "d < 1000" using md by simp_all
  note range = h(1) lt(1) [OF h(2)] h(3) lt(2) [OF h(4)] h(5) lt(2) [OF h(6)] this h(7) lt(3) [OF h(8)]
  have i32: "try_i32 x = Some (word_of_int x)" if "0 \<le> x" "x < 1000" for x
    using that by (intro try_i32_small) simp_all
  note small = i32 [OF range(1,2)] i32 [OF range(3,4)] i32 [OF range(5,6)] i32 [OF range(7,8)]
    i32 [OF range(9,10)] i32 [OF range(11,12)]
  have code: "tm_from_unix_seconds s = map_option t (try_i32 (y - 1900))"
    unfolding tm_from_unix_seconds_def SECONDS_PER_DAY_def n_def [symmetric] k_def [symmetric] sd Let_def
    by (cases "try_i32 (y - 1900)")
      (simp_all only: c prod.case Option.bind.simps yday(1) small option.map t_def)
  have fits: "year_fits s \<longleftrightarrow> - (2 ^ 31) \<le> y - 1900 \<and> y - 1900 < 2 ^ 31"
    by (simp add: year_fits_def n_def [symmetric] c)
  have "utc_of s (t (word_of_int (y - 1900)))" if "- (2 ^ 31) \<le> y - 1900" "y - 1900 < 2 ^ 31"
  proof -
    have "sint (word_of_int x :: c_int) = x" if "0 \<le> x" "x < 1000" for x
      using that by (intro sint_of_small) simp_all
    note small = this
    have f: "sint (word_of_int (k mod 60) :: c_int) = k mod 60"
      "sint (word_of_int (k mod 3600 div 60) :: c_int) = k mod 3600 div 60"
      "sint (word_of_int (k div 3600) :: c_int) = k div 3600" "sint (word_of_int d :: c_int) = d"
      "sint (word_of_int (m - 1) :: c_int) = m - 1"
      "sint (word_of_int ((n + 4) mod 7) :: c_int) = (n + 4) mod 7"
      by (rule small [OF range(5,6)] small [OF range(3,4)] small [OF range(1,2)] small [OF range(9,10)]
          small [OF range(7,8)] small [OF range(11,12)])+
    have "n - days_from_civil y 1 1 < 1000" using yday(3) by simp
    then have f2: "sint (word_of_int (n - days_from_civil y 1 1) :: c_int) = n - days_from_civil y 1 1"
      by (rule small [OF yday(2)])
    have "sint (word_of_int (y - 1900) :: c_int) = y - 1900" using that by (rule sint_of_small)
    then show ?thesis
      unfolding utc_of_def n_def [symmetric] k_def [symmetric] Let_def t_def tm.simps f f2
      by (simp add: c km)
  qed
  then show ?thesis unfolding code fits by (auto simp: try_i32_def)
qed

text \<open>The seconds of a broken-down time, as one formula.\<close>

definition tm_seconds :: "tm \<Rightarrow> int" where
  "tm_seconds t = 86400 * (days_from_civil (1900 + sint (tm_year t) + sint (tm_mon t) div 12)
       (sint (tm_mon t) mod 12 + 1) 1 + (sint (tm_mday t) - 1))
     + 3600 * sint (tm_hour t) + 60 * sint (tm_min t) + sint (tm_sec t)"

lemma normalized_eq: "normalized_tm_to_unix_seconds t = tm_seconds t"
proof -
  define ds where "ds = sint (tm_hour t) * 3600 + sint (tm_min t) * 60 + sint (tm_sec t)"
  have "ds div 86400 * 86400 + ds mod 86400 = ds" by simp
  then show ?thesis
    unfolding normalized_tm_to_unix_seconds_def tm_seconds_def Let_def SECONDS_PER_DAY_def ds_def [symmetric]
    by (simp add: algebra_simps) (simp add: ds_def)
qed

lemma tm_seconds_utc: "utc_of s t \<Longrightarrow> tm_seconds t = s"
proof -
  assume u: "utc_of s t"
  define n k where "n = s div 86400" and "k = s mod 86400"
  define y m d where "y = 1900 + sint (tm_year t)" and "m = sint (tm_mon t) + 1" and "d = sint (tm_mday t)"
  have c: "civil_from_days n = (y, m, d)" using u by (simp add: utc_of_def n_def y_def m_def d_def Let_def)
  have valid: "valid_civil (y, m, d)" and n: "days_from_civil y m d = n"
    using greg.valid_of_days [of n] greg.to_of_days [of n] c by simp_all
  have m: "1 \<le> m" "m \<le> 12" using valid by simp_all
  have mon: "sint (tm_mon t) div 12 = 0" "sint (tm_mon t) mod 12 + 1 = m"
    using m by (simp_all add: m_def)
  have first: "days_from_civil y m 1 + (d - 1) = n" using days_from_civil_eq [OF m] n by simp
  have km: "k mod 3600 = s mod 3600" "k mod 60 = s mod 60" unfolding k_def by (rule mod_mod_cancel; simp)+
  have "k mod 3600 mod 60 = k mod 60" by (rule mod_mod_cancel) simp
  then have hms: "3600 * (k div 3600) + 60 * (k mod 3600 div 60) + k mod 60 = k"
    using mult_div_mod_eq [of 3600 k] mult_div_mod_eq [of 60 "k mod 3600"] by (metis add.assoc)
  have f: "sint (tm_hour t) = k div 3600" "sint (tm_min t) = k mod 3600 div 60" "sint (tm_sec t) = k mod 60"
    using u by (simp_all add: utc_of_def Let_def k_def [symmetric] km)
  have "tm_seconds t = 86400 * n + k"
    unfolding tm_seconds_def f mon y_def [symmetric] d_def [symmetric] using first hms by simp
  then show ?thesis by (simp add: n_def k_def)
qed

lemma tm_eq_of_utc: "utc_of s t \<Longrightarrow> utc_of s t' \<Longrightarrow> t = t'"
proof -
  assume "utc_of s t" "utc_of s t'"
  then have f: "sint (tm_sec t) = sint (tm_sec t')" "sint (tm_min t) = sint (tm_min t')"
    "sint (tm_hour t) = sint (tm_hour t')" "sint (tm_mday t) = sint (tm_mday t')"
    "sint (tm_mon t) = sint (tm_mon t')" "sint (tm_year t) = sint (tm_year t')"
    "sint (tm_wday t) = sint (tm_wday t')" "sint (tm_yday t) = sint (tm_yday t')"
    "tm_isdst t = tm_isdst t'" "tm_gmtoff t = tm_gmtoff t'" "tm_zone t = tm_zone t'"
    by (auto simp: utc_of_def Let_def)
  then show ?thesis by (intro tm.equality) (simp_all add: sint_eq_iff)
qed

lemma tm_from_utc: "utc_of s t \<Longrightarrow> tm_from_unix_seconds s = Some t"
proof -
  assume u: "utc_of s t"
  have "year_fits s"
    using u sint_i32_bounds [of "tm_year t"] by (simp add: utc_of_def year_fits_def Let_def)
  then show ?thesis
    using tm_from_unix_seconds_correct [of s] tm_eq_of_utc [OF u] by (auto split: option.splits)
qed

definition time_fits :: "int \<Rightarrow> bool" where
  "time_fits s \<longleftrightarrow> - (2 ^ 63) \<le> s \<and> s < 2 ^ 63 \<and> year_fits s"

lemma timegm_cases:
  assumes "p \<noteq> null" "tms w p = Some t"
  shows "if time_fits (tm_seconds t)
    then \<exists>b. utc_of (tm_seconds t) b \<and>
      timegm p w = Some (word_of_int (tm_seconds t), w\<lparr>tms := (tms w)(p \<mapsto> b)\<rparr>)
    else timegm p w = Some (-1, set_errno ERANGE w)"
  using assms tm_from_unix_seconds_correct [of "tm_seconds t"]
  by (auto simp: timegm_def normalized_eq try_i64_def time_fits_def write_tm_def Let_def
      split: option.splits)

definition dst_seconds :: "tm \<Rightarrow> int" where
  "dst_seconds t = tm_seconds t - (if 0 < sint (tm_isdst t) then 3600 else 0)"

lemma mktime_cases:
  assumes "p \<noteq> null" "tms w p = Some t"
  shows "if time_fits (dst_seconds t)
    then \<exists>b. utc_of (dst_seconds t) b \<and>
      mktime p w = Some (word_of_int (dst_seconds t), w\<lparr>tms := (tms w)(p \<mapsto> b)\<rparr>)
    else mktime p w = Some (-1, set_errno ERANGE w)"
proof -
  have eq: "normalized_tm_to_unix_seconds_for_mktime t = dst_seconds t"
    by (simp add: normalized_tm_to_unix_seconds_for_mktime_def normalized_eq dst_seconds_def)
  show ?thesis
    using assms tm_from_unix_seconds_correct [of "dst_seconds t"]
    by (auto simp: mktime_def eq try_i64_def time_fits_def write_tm_def Let_def
      split: option.splits)
qed

lemma gmtime_r_cases:
  assumes "timer \<noteq> null" "result \<noteq> null" "times w timer = Some s" "tms w result \<noteq> None"
  shows "if year_fits (sint s)
    then \<exists>t. utc_of (sint s) t \<and> gmtime_r timer result w = Some (result, w\<lparr>tms := (tms w)(result \<mapsto> t)\<rparr>)
    else gmtime_r timer result w = Some (null, set_errno ERANGE w)"
  using assms tm_from_unix_seconds_correct [of "sint s"]
  by (auto simp: gmtime_r_def write_tm_def split: option.splits)

lemma utc_minus_1:
  "utc_of (-1) \<lparr>tm_sec = 59, tm_min = 59, tm_hour = 23, tm_mday = 31, tm_mon = 11, tm_year = 69,
     tm_wday = 3, tm_yday = 364, tm_isdst = 0, tm_gmtoff = 0, tm_zone = null\<rparr>"
  "time_fits (-1)"
proof -
  have civil: "civil_from_days (-1) = (1969, 12, 31)"
    using civil_from_days_from_civil [of 1969 12 31]
    by (simp add: month_len_def days_from_civil_eq civil_year_def phase_def march_days_def)
  show "utc_of (-1) \<lparr>tm_sec = 59, tm_min = 59, tm_hour = 23, tm_mday = 31, tm_mon = 11, tm_year = 69,
     tm_wday = 3, tm_yday = 364, tm_isdst = 0, tm_gmtoff = 0, tm_zone = null\<rparr>"
    by (simp add: utc_of_def civil days_jan_1 march_days_def)
  show "time_fits (-1)" by (simp add: time_fits_def year_fits_def civil)
qed

lemma if_ex_conj: "(if c then \<exists>b. P b \<and> Q b else R) \<Longrightarrow> (\<And>b. P b \<Longrightarrow> c \<Longrightarrow> Q b \<Longrightarrow> S b) \<Longrightarrow>
    (if c then \<exists>b. P b \<and> Q b \<and> S b else R)"
  by (cases c) auto

lemma clockid_sint:
  assumes "0 \<le> sint fd" "sint fd \<le> 0x0FFFFFFF"
  shows "sint (fd_to_clockid fd) = 8 * (- sint fd - 1) + 3"
proof -
  define c where "c = sint fd"
  have fd: "fd = word_of_int c" by (simp add: c_def)
  have eq: "push_bit 3 (NOT fd) = word_of_int (8 * (- c - 1))"
    unfolding fd push_bit_eq_mult not_eq_complement by (simp add: algebra_simps)
  have "sint (push_bit 3 (NOT fd)) = 8 * (- c - 1)"
    unfolding eq by (rule sint_word_of_int_i32) (use assms in \<open>simp_all add: c_def\<close>)
  then have shifted: "sint (push_bit 3 (NOT fd)) = push_bit 3 (- sint fd - 1)"
    by (simp add: push_bit_eq_mult c_def)
  have disjoint: "push_bit 3 x AND 3 = (0 :: int)" for x
  proof -
    have "push_bit 3 x AND 3 = take_bit 2 (push_bit 3 x)" by (simp add: take_bit_eq_mask mask_eq_exp_minus_1)
    then show ?thesis by (simp add: take_bit_push_bit)
  qed
  have "sint (fd_to_clockid fd) = push_bit 3 (- sint fd - 1) OR 3"
    by (simp add: fd_to_clockid_def CLOCKFD_def signed_or_eq shifted)
  also have "\<dots> = push_bit 3 (- sint fd - 1) + 3"
    using disjunctive_add_eq_or [OF disjoint] by simp
  finally show ?thesis by (simp add: push_bit_eq_mult)
qed

section \<open>Properties\<close>

text \<open>
  C12. \<^verbatim>\<open>civil_from_days\<close> is the proleptic Gregorian calendar, for every integer day: day 0 is
  1970-01-01, the next day's date is the next date (28 to 31 days to a month, leap years by
  the 4/100/400 rule), every result is a valid date, and \<^verbatim>\<open>days_from_civil\<close> undoes it.
\<close>

theorem civil_calendar_correct:
  "civil_from_days 0 = (1970, 1, 1) \<and> civil_from_days (n + 1) = next_day (civil_from_days n) \<and>
   valid_civil (civil_from_days n) \<and> (case civil_from_days n of (y, m, d) \<Rightarrow> days_from_civil y m d) = n"
  using greg.of_days_0 greg.of_days_add_1 [of n] greg.valid_of_days [of n] greg.to_of_days [of n] by simp

text \<open>
  C13. \<^verbatim>\<open>gmtime_r\<close> with two valid pointers always returns: the result object with the UTC date and
  time of the given second (all eleven fields), or, exactly when the year does not fit the
  field, null with \<^verbatim>\<open>ERANGE\<close> and everything else unchanged.
\<close>

theorem gmtime_r_correct:
  assumes "timer \<noteq> null" "result \<noteq> null" "times w timer = Some s" "tms w result \<noteq> None"
  shows "if year_fits (sint s)
    then \<exists>t. utc_of (sint s) t \<and> gmtime_r timer result w = Some (result, w\<lparr>tms := (tms w)(result \<mapsto> t)\<rparr>)
    else gmtime_r timer result w = Some (null, set_errno ERANGE w)"
  using assms by (rule gmtime_r_cases)

theorem gmtime_r_correct_witness:
  "gmtime_r 8 16 \<lparr>bytes = Map.empty, ptrs = Map.empty, errno = 0, times = [8 \<mapsto> -1], tms = [16 \<mapsto> unix_epoch_tm],
      long_pairs = Map.empty, gmtime_storage = 24\<rparr> =
   Some (16, \<lparr>bytes = Map.empty, ptrs = Map.empty, errno = 0, times = [8 \<mapsto> -1], tms = [16 \<mapsto>
       \<lparr>tm_sec = 59, tm_min = 59, tm_hour = 23, tm_mday = 31, tm_mon = 11, tm_year = 69, tm_wday = 3,
        tm_yday = 364, tm_isdst = 0, tm_gmtoff = 0, tm_zone = null\<rparr>],
      long_pairs = Map.empty, gmtime_storage = 24\<rparr>)"
proof -
  let ?w = "\<lparr>bytes = Map.empty, ptrs = Map.empty, errno = 0, times = [8 \<mapsto> -1], tms = [16 \<mapsto> unix_epoch_tm],
      long_pairs = Map.empty, gmtime_storage = 24\<rparr> :: tmachine"
  have "year_fits (-1)" using utc_minus_1(2) by (simp add: time_fits_def)
  then have "\<exists>t. utc_of (-1) t \<and> gmtime_r 8 16 ?w = Some (16, ?w\<lparr>tms := (tms ?w)(16 \<mapsto> t)\<rparr>)"
    using gmtime_r_correct [of 8 16 ?w "-1"] by simp
  then show ?thesis using tm_eq_of_utc [OF utc_minus_1(1)] by auto
qed

text \<open>
  C14. \<^verbatim>\<open>timegm\<close> undoes \<^verbatim>\<open>gmtime_r\<close>: applied to the object a successful \<^verbatim>\<open>gmtime_r\<close> has filled, it
  returns the original second, for every 64-bit value of it, and leaves the object as it is.
\<close>

theorem timegm_inverts_gmtime:
  assumes "times w timer = Some s" "tms w result \<noteq> None" "result \<noteq> null"
    "gmtime_r timer result w = Some (result, w')"
  shows "timegm result w' = Some (s, w')"
proof -
  have "timer \<noteq> null" using assms(3,4) by (simp add: gmtime_r_def split: if_splits)
  then have "year_fits (sint s)" "\<exists>t. utc_of (sint s) t \<and> w' = w\<lparr>tms := (tms w)(result \<mapsto> t)\<rparr>"
    using gmtime_r_cases [of timer result w s] assms by (auto split: if_splits)
  then obtain t where t: "utc_of (sint s) t" "w' = w\<lparr>tms := (tms w)(result \<mapsto> t)\<rparr>" by blast
  have "try_i64 (sint s) = Some s" by (simp add: try_i64_sint)
  then show ?thesis
    using t assms(3) tm_seconds_utc [OF t(1)] tm_from_utc [OF t(1)]
    by (simp add: timegm_def normalized_eq write_tm_def)
qed

theorem timegm_inverts_gmtime_witness:
  "timegm 16 \<lparr>bytes = Map.empty, ptrs = Map.empty, errno = 0, times = [8 \<mapsto> -1], tms = [16 \<mapsto> 
       \<lparr>tm_sec = 59, tm_min = 59, tm_hour = 23, tm_mday = 31, tm_mon = 11, tm_year = 69, tm_wday = 3,
        tm_yday = 364, tm_isdst = 0, tm_gmtoff = 0, tm_zone = null\<rparr>],
      long_pairs = Map.empty, gmtime_storage = 24\<rparr> =
   Some (-1, \<lparr>bytes = Map.empty, ptrs = Map.empty, errno = 0, times = [8 \<mapsto> -1], tms = [16 \<mapsto> 
       \<lparr>tm_sec = 59, tm_min = 59, tm_hour = 23, tm_mday = 31, tm_mon = 11, tm_year = 69, tm_wday = 3,
        tm_yday = 364, tm_isdst = 0, tm_gmtoff = 0, tm_zone = null\<rparr>],
      long_pairs = Map.empty, gmtime_storage = 24\<rparr>)"
proof -
  let ?w = "\<lparr>bytes = Map.empty, ptrs = Map.empty, errno = 0, times = [8 \<mapsto> -1], tms = [16 \<mapsto> unix_epoch_tm],
      long_pairs = Map.empty, gmtime_storage = 24\<rparr> :: tmachine"
  let ?t = "\<lparr>tm_sec = 59, tm_min = 59, tm_hour = 23, tm_mday = 31, tm_mon = 11, tm_year = 69, tm_wday = 3,
        tm_yday = 364, tm_isdst = 0, tm_gmtoff = 0, tm_zone = null\<rparr>"
  have "year_fits (-1)" using utc_minus_1(2) by (simp add: time_fits_def)
  then obtain t where t: "utc_of (-1) t" "gmtime_r 8 16 ?w = Some (16, ?w\<lparr>tms := (tms ?w)(16 \<mapsto> t)\<rparr>)"
    using gmtime_r_cases [of 8 16 ?w "-1"] by auto
  have "t = ?t" using t(1) utc_minus_1(1) by (rule tm_eq_of_utc)
  then show ?thesis using timegm_inverts_gmtime [OF _ _ _ t(2)] by simp
qed

text \<open>
  C15. \<^verbatim>\<open>timegm\<close> and \<^verbatim>\<open>mktime\<close> accept any field values, carries and borrows included: the result is
  the second given by one formula over the fields (for \<^verbatim>\<open>mktime\<close> an hour less with the daylight
  flag set), the object is rewritten to the normal form of that second, and applying the
  function again changes nothing; if the second or its year is out of range the result is
  \<open>-1\<close> with \<^verbatim>\<open>ERANGE\<close> and the object keeps its fields.
\<close>

theorem timegm_mktime_normalize:
  assumes "p \<noteq> null" "tms w p = Some t"
  shows "(if time_fits (tm_seconds t)
      then \<exists>b. utc_of (tm_seconds t) b \<and>
        timegm p w = Some (word_of_int (tm_seconds t), w\<lparr>tms := (tms w)(p \<mapsto> b)\<rparr>) \<and>
        timegm p (w\<lparr>tms := (tms w)(p \<mapsto> b)\<rparr>) = timegm p w
      else timegm p w = Some (-1, set_errno ERANGE w)) \<and>
    (if time_fits (dst_seconds t)
      then \<exists>b. utc_of (dst_seconds t) b \<and>
        mktime p w = Some (word_of_int (dst_seconds t), w\<lparr>tms := (tms w)(p \<mapsto> b)\<rparr>) \<and>
        mktime p (w\<lparr>tms := (tms w)(p \<mapsto> b)\<rparr>) = mktime p w
      else mktime p w = Some (-1, set_errno ERANGE w))"
proof -
  have norm: "tm_seconds b = s" "dst_seconds b = s" if "utc_of s b" for s b
    using tm_seconds_utc [OF that] that by (simp_all add: dst_seconds_def utc_of_def Let_def)
  have "timegm p (w\<lparr>tms := (tms w)(p \<mapsto> b)\<rparr>) = timegm p w"
    if utc: "utc_of (tm_seconds t) b" and fits: "time_fits (tm_seconds t)"
      and res: "timegm p w = Some (word_of_int (tm_seconds t), w\<lparr>tms := (tms w)(p \<mapsto> b)\<rparr>)" for b
  proof -
    let ?w = "w\<lparr>tms := (tms w)(p \<mapsto> b)\<rparr>"
    have "tms ?w p = Some b" by simp
    from timegm_cases [OF assms(1) this] obtain b' where b': "utc_of (tm_seconds t) b'"
      "timegm p ?w = Some (word_of_int (tm_seconds t), ?w\<lparr>tms := (tms ?w)(p \<mapsto> b')\<rparr>)"
      unfolding norm(1) [OF utc] if_P [OF fits] by blast
    have "b' = b" using b'(1) utc by (rule tm_eq_of_utc)
    then show ?thesis using b'(2) res by simp
  qed
  moreover have "mktime p (w\<lparr>tms := (tms w)(p \<mapsto> b)\<rparr>) = mktime p w"
    if utc: "utc_of (dst_seconds t) b" and fits: "time_fits (dst_seconds t)"
      and res: "mktime p w = Some (word_of_int (dst_seconds t), w\<lparr>tms := (tms w)(p \<mapsto> b)\<rparr>)" for b
  proof -
    let ?w = "w\<lparr>tms := (tms w)(p \<mapsto> b)\<rparr>"
    have "tms ?w p = Some b" by simp
    from mktime_cases [OF assms(1) this] obtain b' where b': "utc_of (dst_seconds t) b'"
      "mktime p ?w = Some (word_of_int (dst_seconds t), ?w\<lparr>tms := (tms ?w)(p \<mapsto> b')\<rparr>)"
      unfolding norm(2) [OF utc] if_P [OF fits] by blast
    have "b' = b" using b'(1) utc by (rule tm_eq_of_utc)
    then show ?thesis using b'(2) res by simp
  qed
  ultimately have rep: "\<And>b. utc_of (tm_seconds t) b \<Longrightarrow> time_fits (tm_seconds t) \<Longrightarrow>
      timegm p w = Some (word_of_int (tm_seconds t), w\<lparr>tms := (tms w)(p \<mapsto> b)\<rparr>) \<Longrightarrow>
      timegm p (w\<lparr>tms := (tms w)(p \<mapsto> b)\<rparr>) = timegm p w"
    "\<And>b. utc_of (dst_seconds t) b \<Longrightarrow> time_fits (dst_seconds t) \<Longrightarrow>
      mktime p w = Some (word_of_int (dst_seconds t), w\<lparr>tms := (tms w)(p \<mapsto> b)\<rparr>) \<Longrightarrow>
      mktime p (w\<lparr>tms := (tms w)(p \<mapsto> b)\<rparr>) = mktime p w" by blast+
  show ?thesis
    by (rule conjI [OF if_ex_conj [OF timegm_cases [OF assms] rep(1)]
          if_ex_conj [OF mktime_cases [OF assms] rep(2)]])
qed

theorem timegm_mktime_normalize_witness:
  "timegm 16 \<lparr>bytes = Map.empty, ptrs = Map.empty, errno = 0, times = [8 \<mapsto> -1], tms = [16 \<mapsto> unix_epoch_tm\<lparr>tm_sec := -1\<rparr>],
      long_pairs = Map.empty, gmtime_storage = 24\<rparr> =
   Some (-1, \<lparr>bytes = Map.empty, ptrs = Map.empty, errno = 0, times = [8 \<mapsto> -1], tms = [16 \<mapsto> 
       \<lparr>tm_sec = 59, tm_min = 59, tm_hour = 23, tm_mday = 31, tm_mon = 11, tm_year = 69, tm_wday = 3,
        tm_yday = 364, tm_isdst = 0, tm_gmtoff = 0, tm_zone = null\<rparr>],
      long_pairs = Map.empty, gmtime_storage = 24\<rparr>)"
proof -
  let ?w = "\<lparr>bytes = Map.empty, ptrs = Map.empty, errno = 0, times = [8 \<mapsto> -1], tms = [16 \<mapsto> unix_epoch_tm\<lparr>tm_sec := -1\<rparr>],
      long_pairs = Map.empty, gmtime_storage = 24\<rparr> :: tmachine"
  have s: "tm_seconds (unix_epoch_tm\<lparr>tm_sec := -1\<rparr>) = -1"
    by (simp add: tm_seconds_def unix_epoch_tm_def days_jan_1 march_days_def)
  obtain b where b: "utc_of (-1) b" "timegm 16 ?w = Some (-1, ?w\<lparr>tms := (tms ?w)(16 \<mapsto> b)\<rparr>)"
    using timegm_mktime_normalize [of 16 ?w "unix_epoch_tm\<lparr>tm_sec := -1\<rparr>"] utc_minus_1(2)
    by (auto simp: s)
  then show ?thesis using tm_eq_of_utc [OF utc_minus_1(1) b(1)] by simp
qed

text \<open>
  A file descriptor of at most \<open>0x0FFFFFFF\<close> survives the encoding into a dynamic clock id;
  the id is negative and carries the tag of dynamic clocks in its low three bits.
\<close>

theorem clockid_roundtrip:
  assumes "0 \<le> sint fd" "sint fd \<le> 0x0FFFFFFF"
  shows "clockid_to_fd (fd_to_clockid fd) = fd \<and> fd_to_clockid fd AND 7 = CLOCKFD \<and>
    sint (fd_to_clockid fd) < 0"
proof -
  note id = clockid_sint [OF assms]
  have "sint (signed_drop_bit 3 (fd_to_clockid fd)) = - sint fd - 1"
    unfolding sint_signed_drop_bit_eq id by (simp add: drop_bit_eq_div)
  moreover have "sint (NOT fd) = - sint fd - 1"
  proof -
    define c where "c = sint fd"
    have fd: "fd = word_of_int c" by (simp add: c_def)
    have "NOT fd = word_of_int (- c - 1)" unfolding fd not_eq_complement by simp
    then show ?thesis using assms sint_word_of_int_i32 [of "- c - 1"] by (simp only: c_def) simp
  qed
  ultimately have "signed_drop_bit 3 (fd_to_clockid fd) = NOT fd" by (simp only: sint_eq_iff)
  then have "clockid_to_fd (fd_to_clockid fd) = fd" by (simp add: clockid_to_fd_def)
  moreover have "fd_to_clockid fd AND 7 = CLOCKFD"
  proof -
    have "x AND 7 = take_bit 3 x" for x :: c_int by (simp add: take_bit_eq_mask mask_eq_exp_minus_1)
    then show ?thesis by (simp add: fd_to_clockid_def CLOCKFD_def take_bit_push_bit)
  qed
  moreover have "sint (fd_to_clockid fd) < 0" using assms unfolding id by simp
  ultimately show ?thesis by blast
qed

theorem clockid_roundtrip_witness:
  "clockid_to_fd (fd_to_clockid 5) = 5 \<and> sint (fd_to_clockid 5) < 0"
  using clockid_roundtrip [of 5] by simp

end
