(* ===== verification/Sink.thy ===== *)
theory Sink
  imports Prelude
begin

text \<open>
  The interface between the formatters and the bounded outputs they push bytes to. A sink
  accepts every byte: the relation \<open>holds\<close> between its state and the bytes pushed so far is kept.
  The formatters' facts are about \<open>writes f xs\<close>: the step \<open>f\<close> succeeds on every state and pushes
  exactly \<open>xs\<close>. Also here: ASCII text, and the decimal formatting of the standard library that
  the formatters use (\<^verbatim>\<open>{}\<close>, \<^verbatim>\<open>{:0w}\<close> with the sign counted in the width, \<^verbatim>\<open>{:w}\<close>).
\<close>

section \<open>Text\<close>

abbreviation (input) ch :: "char \<Rightarrow> u8" where
  "ch c \<equiv> of_char c"

definition ascii :: "string \<Rightarrow> u8 list" where
  "ascii s = map of_char s"

lemma ascii_simps [simp]: "ascii [] = []" "ascii (c # cs) = of_char c # ascii cs"
  by (simp_all add: ascii_def)

fun decimal :: "nat \<Rightarrow> u8 list" where
  "decimal n = (if n < 10 then [] else decimal (n div 10)) @ [0x30 + word_of_nat (n mod 10)]"

declare decimal.simps [simp del]

definition pad_left :: "u8 \<Rightarrow> nat \<Rightarrow> u8 list \<Rightarrow> u8 list" where
  "pad_left c width bs = replicate (width - length bs) c @ bs"

definition fmt_zero :: "nat \<Rightarrow> int \<Rightarrow> u8 list" where
  "fmt_zero width v =
     (if v < 0 then ch CHR ''-'' # pad_left (ch CHR ''0'') (width - 1) (decimal (nat (- v)))
      else pad_left (ch CHR ''0'') width (decimal (nat v)))"

definition fmt_space :: "nat \<Rightarrow> int \<Rightarrow> u8 list" where
  "fmt_space width v = pad_left (ch CHR '' '') width (fmt_zero 0 v)"

definition digit_byte :: "nat \<Rightarrow> u8" where
  "digit_byte d = 0x30 + word_of_nat d"

lemma decimal_length: "1 \<le> length (decimal n)"
  by (subst decimal.simps) simp

lemma decimal_1: "n < 10 \<Longrightarrow> decimal n = [digit_byte n]"
  by (subst decimal.simps) (simp add: digit_byte_def)

lemma decimal_2: "10 \<le> n \<Longrightarrow> n < 100 \<Longrightarrow> decimal n = [digit_byte (n div 10), digit_byte (n mod 10)]"
  by (subst decimal.simps, subst decimal_1) (auto simp: digit_byte_def)

lemma fmt_zero_2: "0 \<le> v \<Longrightarrow> v < 100 \<Longrightarrow> fmt_zero 2 v = [digit_byte (nat v div 10), digit_byte (nat v mod 10)]"
proof -
  assume v: "0 \<le> v" "v < 100"
  show ?thesis
  proof (cases "nat v < 10")
    case True
    then show ?thesis using v by (simp add: fmt_zero_def decimal_1 pad_left_def) (simp add: digit_byte_def)
  next
    case False
    then show ?thesis using v by (simp add: fmt_zero_def decimal_2 pad_left_def)
  qed
qed

section \<open>Sinks\<close>

locale byte_sink =
  fixes push :: "u8 \<Rightarrow> 's \<Rightarrow> 's option"
    and holds :: "'s \<Rightarrow> u8 list \<Rightarrow> bool"
  assumes push_holds: "holds s xs \<Longrightarrow> \<exists>s'. push b s = Some s' \<and> holds s' (xs @ [b])"
begin

definition writes :: "('s \<Rightarrow> 's option) \<Rightarrow> u8 list \<Rightarrow> bool" where
  "writes f ys \<longleftrightarrow> (\<forall>s xs. holds s xs \<longrightarrow> (\<exists>s'. f s = Some s' \<and> holds s' (xs @ ys)))"

lemma writesD: "writes f ys \<Longrightarrow> holds s xs \<Longrightarrow> \<exists>s'. f s = Some s' \<and> holds s' (xs @ ys)"
  by (simp add: writes_def)

lemma writes_push: "writes (push b) [b]"
  using push_holds by (simp add: writes_def)

lemma writes_skip: "writes Some []"
  by (simp add: writes_def)

lemma writes_bind:
  assumes "writes f xs" "writes g ys"
  shows "writes (\<lambda>s. Option.bind (f s) g) (xs @ ys)"
  unfolding writes_def
proof (intro allI impI)
  fix s zs assume "holds s zs"
  then obtain s1 where s1: "f s = Some s1" "holds s1 (zs @ xs)" using assms(1) by (auto simp: writes_def)
  from writesD [OF assms(2) s1(2)] obtain s2 where "g s1 = Some s2" "holds s2 (zs @ xs @ ys)" by auto
  then show "\<exists>s'. Option.bind (f s) g = Some s' \<and> holds s' (zs @ xs @ ys)" using s1 by simp
qed

lemma writes_if: "(c \<Longrightarrow> writes f xs) \<Longrightarrow> (\<not> c \<Longrightarrow> writes g ys) \<Longrightarrow>
    writes (\<lambda>s. if c then f s else g s) (if c then xs else ys)"
  by (cases c) simp_all

lemma writes_fold:
  assumes "push_all [] = Some" "\<And>b bs. push_all (b # bs) = (\<lambda>s. Option.bind (push b s) (push_all bs))"
  shows "writes (push_all bs) bs"
proof (induction bs)
  case (Cons b bs)
  then show ?case using writes_bind [OF writes_push [of b]] by (simp add: assms(2))
qed (simp add: assms(1) writes_skip)

end

end
