(* ===== verification/Strftime.thy ===== *)
theory Strftime
  imports Calendar Sink
begin

text \<open>
  \<^verbatim>\<open>strftime\<close> of \<^verbatim>\<open>src/src/time.rs\<close>. The output buffer is the source's \<^verbatim>\<open>OutputBuffer\<close> together with
  the byte memory it writes to; the format string and the zone name are read from that same
  memory while it is being written, as in the source. A write outside the memory is \<open>None\<close>.
\<close>

section \<open>Output buffer\<close>

record output_buffer =
  ob_mem :: mem
  ob_dst :: addr
  ob_max :: nat
  ob_required :: nat

definition ob_new :: "mem \<Rightarrow> addr \<Rightarrow> nat \<Rightarrow> output_buffer" where
  "ob_new m dst mx = \<lparr>ob_mem = m, ob_dst = dst, ob_max = mx, ob_required = 0\<rparr>"

definition ob_push_byte :: "u8 \<Rightarrow> output_buffer \<Rightarrow> output_buffer option" where
  "ob_push_byte byte buf = do {
     m \<leftarrow> (if ob_max buf \<noteq> 0 \<and> ob_required buf < ob_max buf - 1
          then write_u8 (ob_mem buf) (ob_dst buf + ob_required buf) byte
          else Some (ob_mem buf));
     Some (buf\<lparr>ob_mem := m, ob_required := ob_required buf + 1\<rparr>) }"

primrec ob_push_bytes :: "u8 list \<Rightarrow> output_buffer \<Rightarrow> output_buffer option" where
  "ob_push_bytes [] buf = Some buf"
| "ob_push_bytes (b # bs) buf = do { buf \<leftarrow> ob_push_byte b buf; ob_push_bytes bs buf }"

definition terminate_buffer :: "output_buffer \<Rightarrow> output_buffer option" where
  "terminate_buffer buf =
     (if ob_max buf = 0 then Some buf
      else do {
        let terminator_index = min (ob_required buf) (ob_max buf - 1);
        m \<leftarrow> write_u8 (ob_mem buf) (ob_dst buf + terminator_index) 0;
        Some (buf\<lparr>ob_mem := m\<rparr>) })"

definition finish :: "output_buffer \<Rightarrow> (nat \<times> output_buffer) option" where
  "finish buf = do {
     buf \<leftarrow> terminate_buffer buf;
     Some (if ob_max buf = 0 \<or> ob_required buf \<ge> ob_max buf then 0 else ob_required buf, buf) }"

section \<open>Fields\<close>

definition C_LOCALE_WEEKDAY_SHORT :: "u8 list list" where
  "C_LOCALE_WEEKDAY_SHORT = map ascii [''Sun'', ''Mon'', ''Tue'', ''Wed'', ''Thu'', ''Fri'', ''Sat'']"

definition C_LOCALE_WEEKDAY_LONG :: "u8 list list" where
  "C_LOCALE_WEEKDAY_LONG = map ascii [''Sunday'', ''Monday'', ''Tuesday'', ''Wednesday'', ''Thursday'',
     ''Friday'', ''Saturday'']"

definition C_LOCALE_MONTH_SHORT :: "u8 list list" where
  "C_LOCALE_MONTH_SHORT = map ascii [''Jan'', ''Feb'', ''Mar'', ''Apr'', ''May'', ''Jun'', ''Jul'', ''Aug'',
     ''Sep'', ''Oct'', ''Nov'', ''Dec'']"

definition C_LOCALE_MONTH_LONG :: "u8 list list" where
  "C_LOCALE_MONTH_LONG = map ascii [''January'', ''February'', ''March'', ''April'', ''May'', ''June'',
     ''July'', ''August'', ''September'', ''October'', ''November'', ''December'']"

definition MAX_NUMERIC_UTC_OFFSET_SECONDS :: int where "MAX_NUMERIC_UTC_OFFSET_SECONDS = 86340"

text \<open>\<^verbatim>\<open>get(index).copied().unwrap_or(b"?")\<close>\<close>

definition name_or_mark :: "u8 list list \<Rightarrow> nat \<Rightarrow> u8 list" where
  "name_or_mark names index = (if index < length names then names ! index else ascii ''?'')"

definition month_name :: "c_int \<Rightarrow> bool \<Rightarrow> u8 list" where
  "month_name mon long_name =
     (if sint mon < 0 then ascii ''?''
      else if long_name then name_or_mark C_LOCALE_MONTH_LONG (nat (sint mon))
      else name_or_mark C_LOCALE_MONTH_SHORT (nat (sint mon)))"

definition weekday_name :: "c_int \<Rightarrow> bool \<Rightarrow> u8 list" where
  "weekday_name wday long_name =
     (if sint wday < 0 then ascii ''?''
      else if long_name then name_or_mark C_LOCALE_WEEKDAY_LONG (nat (sint wday))
      else name_or_mark C_LOCALE_WEEKDAY_SHORT (nat (sint wday)))"

definition max_yday_for_full_year :: "int \<Rightarrow> int" where
  "max_yday_for_full_year full_year = (if is_leap_year full_year then 365 else 364)"

definition is_valid_tm_yday_for_year :: "int \<Rightarrow> c_int \<Rightarrow> bool" where
  "is_valid_tm_yday_for_year full_year yday =
     (if sint yday < 0 then False else sint yday \<le> max_yday_for_full_year full_year)"

definition full_year_from_tm_year :: "c_int \<Rightarrow> int" where
  "full_year_from_tm_year year = sint year + 1900"

definition append_full_year :: "int \<Rightarrow> output_buffer \<Rightarrow> output_buffer option" where
  "append_full_year full_year =
     (if full_year \<ge> 0 then ob_push_bytes (fmt_zero 4 full_year)
      else ob_push_bytes (ch CHR ''-'' # fmt_zero 4 \<bar>full_year\<bar>))"

definition append_year :: "c_int \<Rightarrow> output_buffer \<Rightarrow> output_buffer option" where
  "append_year v = append_full_year (full_year_from_tm_year v)"

definition append_century :: "c_int \<Rightarrow> output_buffer \<Rightarrow> output_buffer option" where
  "append_century v = (let century = full_year_from_tm_year v div 100 in ob_push_bytes (fmt_zero 2 century))"

definition append_year_two_digits :: "c_int \<Rightarrow> output_buffer \<Rightarrow> output_buffer option" where
  "append_year_two_digits v =
     (let year_in_century = full_year_from_tm_year v mod 100 in ob_push_bytes (fmt_zero 2 year_in_century))"

definition append_epoch_seconds :: "tm \<Rightarrow> output_buffer \<Rightarrow> output_buffer option" where
  "append_epoch_seconds t = ob_push_bytes (fmt_zero 0 (normalized_tm_to_unix_seconds t))"

definition is_valid_numeric_utc_offset_seconds :: "int \<Rightarrow> bool" where
  "is_valid_numeric_utc_offset_seconds total_seconds \<longleftrightarrow>
     \<bar>total_seconds\<bar> \<le> MAX_NUMERIC_UTC_OFFSET_SECONDS \<and> 60 dvd \<bar>total_seconds\<bar>"

definition append_numeric_utc_offset :: "c_long \<Rightarrow> output_buffer \<Rightarrow> output_buffer option" where
  "append_numeric_utc_offset gmtoff =
     (let total_seconds = sint gmtoff in
      if \<not> is_valid_numeric_utc_offset_seconds total_seconds then ob_push_byte (ch CHR ''?'')
      else
        (let absolute_seconds = \<bar>total_seconds\<bar>;
             total_minutes = absolute_seconds div 60;
             hours = total_minutes div 60;
             minutes = total_minutes mod 60;
             sign = (if total_seconds < 0 then ch CHR ''-'' else ch CHR ''+'')
         in ob_push_bytes (sign # fmt_zero 2 hours @ fmt_zero 2 minutes)))"

partial_function (option) zone_loop :: "addr \<Rightarrow> output_buffer \<Rightarrow> output_buffer option" where
  "zone_loop cursor buf = do {
     byte \<leftarrow> ob_mem buf cursor;
     if byte = 0 then Some buf
     else do { buf \<leftarrow> ob_push_byte byte buf; zone_loop (cursor + 1) buf } }"

definition append_timezone_abbreviation :: "addr \<Rightarrow> output_buffer \<Rightarrow> output_buffer option" where
  "append_timezone_abbreviation zone buf = (if zone = null then Some buf else zone_loop zone buf)"

definition append_padded_decimal :: "int \<Rightarrow> nat \<Rightarrow> output_buffer \<Rightarrow> output_buffer option" where
  "append_padded_decimal v width = ob_push_bytes (fmt_zero width v)"

definition append_padded_decimal_in_range ::
  "int \<Rightarrow> nat \<Rightarrow> int \<Rightarrow> int \<Rightarrow> output_buffer \<Rightarrow> output_buffer option" where
  "append_padded_decimal_in_range v width lo hi =
     (if v < lo \<or> v > hi then ob_push_byte (ch CHR ''?'') else append_padded_decimal v width)"

definition append_month_number :: "c_int \<Rightarrow> output_buffer \<Rightarrow> output_buffer option" where
  "append_month_number mon =
     (if 0 \<le> sint mon \<and> sint mon \<le> 11 then append_padded_decimal (sint mon + 1) 2
      else ob_push_byte (ch CHR ''?''))"

definition append_day_of_month :: "c_int \<Rightarrow> output_buffer \<Rightarrow> output_buffer option" where
  "append_day_of_month mday = append_padded_decimal_in_range (sint mday) 2 1 31"

definition append_day_of_month_space_padded :: "c_int \<Rightarrow> output_buffer \<Rightarrow> output_buffer option" where
  "append_day_of_month_space_padded mday =
     (if \<not> (1 \<le> sint mday \<and> sint mday \<le> 31) then ob_push_byte (ch CHR ''?'')
      else ob_push_bytes (fmt_space 2 (sint mday)))"

definition append_hour_24 :: "c_int \<Rightarrow> output_buffer \<Rightarrow> output_buffer option" where
  "append_hour_24 hour = append_padded_decimal_in_range (sint hour) 2 0 23"

definition append_hour_24_space_padded :: "c_int \<Rightarrow> output_buffer \<Rightarrow> output_buffer option" where
  "append_hour_24_space_padded hour =
     (if \<not> (0 \<le> sint hour \<and> sint hour \<le> 23) then ob_push_byte (ch CHR ''?'')
      else ob_push_bytes (fmt_space 2 (sint hour)))"

definition normalize_hour_12 :: "c_int \<Rightarrow> int option" where
  "normalize_hour_12 hour =
     (let h = sint hour in
      if 1 \<le> h \<and> h \<le> 11 then Some h
      else if h = 0 \<or> h = 12 then Some 12
      else if 13 \<le> h \<and> h \<le> 23 then Some (h - 12)
      else None)"

definition append_hour_12 :: "c_int \<Rightarrow> output_buffer \<Rightarrow> output_buffer option" where
  "append_hour_12 hour =
     (case normalize_hour_12 hour of None \<Rightarrow> ob_push_byte (ch CHR ''?'')
      | Some normalized \<Rightarrow> append_padded_decimal normalized 2)"

definition append_hour_12_space_padded :: "c_int \<Rightarrow> output_buffer \<Rightarrow> output_buffer option" where
  "append_hour_12_space_padded hour =
     (case normalize_hour_12 hour of None \<Rightarrow> ob_push_byte (ch CHR ''?'')
      | Some normalized \<Rightarrow> ob_push_bytes (fmt_space 2 normalized))"

definition append_minute :: "c_int \<Rightarrow> output_buffer \<Rightarrow> output_buffer option" where
  "append_minute minute = append_padded_decimal_in_range (sint minute) 2 0 59"

definition append_second :: "c_int \<Rightarrow> output_buffer \<Rightarrow> output_buffer option" where
  "append_second second = append_padded_decimal_in_range (sint second) 2 0 60"

definition append_meridiem :: "c_int \<Rightarrow> bool \<Rightarrow> output_buffer \<Rightarrow> output_buffer option" where
  "append_meridiem hour lowercase =
     (let token = (if 0 \<le> sint hour \<and> sint hour \<le> 11 then (if lowercase then ascii ''am'' else ascii ''AM'')
         else if 12 \<le> sint hour \<and> sint hour \<le> 23 then (if lowercase then ascii ''pm'' else ascii ''PM'')
         else ascii ''?'')
      in ob_push_bytes token)"

definition append_posix_weekday :: "c_int \<Rightarrow> output_buffer \<Rightarrow> output_buffer option" where
  "append_posix_weekday wday =
     (if sint wday = 0 then ob_push_byte (ch CHR ''7'')
      else if 1 \<le> sint wday \<and> sint wday \<le> 6 then ob_push_bytes (fmt_zero 0 (sint wday))
      else ob_push_byte (ch CHR ''?''))"

definition append_c_weekday :: "c_int \<Rightarrow> output_buffer \<Rightarrow> output_buffer option" where
  "append_c_weekday wday =
     (if 0 \<le> sint wday \<and> sint wday \<le> 6 then ob_push_bytes (fmt_zero 0 (sint wday))
      else ob_push_byte (ch CHR ''?''))"

definition append_julian_day :: "c_int \<Rightarrow> c_int \<Rightarrow> output_buffer \<Rightarrow> output_buffer option" where
  "append_julian_day year yday =
     (if \<not> is_valid_tm_yday_for_year (full_year_from_tm_year year) yday then ob_push_byte (ch CHR ''?'')
      else append_padded_decimal (sint yday + 1) 3)"

definition append_week_number :: "c_int \<Rightarrow> c_int \<Rightarrow> c_int \<Rightarrow> bool \<Rightarrow> output_buffer \<Rightarrow> output_buffer option" where
  "append_week_number year yday wday monday_based =
     (if \<not> (0 \<le> sint wday \<and> sint wday \<le> 6) then ob_push_byte (ch CHR ''?'')
      else if \<not> is_valid_tm_yday_for_year (full_year_from_tm_year year) yday then ob_push_byte (ch CHR ''?'')
      else
        (let week_start_offset = (if monday_based then if sint wday = 0 then 6 else sint wday - 1
                                  else sint wday);
             week_number = (sint yday + 7 - week_start_offset) sdiv 7
         in append_padded_decimal week_number 2))"

definition iso_weeks_in_year :: "int \<Rightarrow> int" where
  "iso_weeks_in_year year =
     (let january_first_weekday = (days_from_civil year 1 1 + 4) mod 7 in
      if january_first_weekday = 4 \<or> (january_first_weekday = 3 \<and> is_leap_year year) then 53 else 52)"

definition iso_week_context :: "c_int \<Rightarrow> c_int \<Rightarrow> c_int \<Rightarrow> (int \<times> int) option" where
  "iso_week_context year yday wday =
     (if \<not> (0 \<le> sint yday \<and> sint yday \<le> 365) \<or> \<not> (0 \<le> sint wday \<and> sint wday \<le> 6) then None
      else
        (let full_year = full_year_from_tm_year year in
         if \<not> is_valid_tm_yday_for_year full_year yday then None
         else
           (let iso_weekday = (if sint wday = 0 then 7 else sint wday);
                week_number = (sint yday + 10 - iso_weekday) sdiv 7
            in if week_number < 1 then Some (full_year - 1, iso_weeks_in_year (full_year - 1))
               else if week_number > iso_weeks_in_year full_year then Some (full_year + 1, 1)
               else Some (full_year, week_number))))"

definition append_iso_week_year :: "c_int \<Rightarrow> c_int \<Rightarrow> c_int \<Rightarrow> bool \<Rightarrow> output_buffer \<Rightarrow> output_buffer option" where
  "append_iso_week_year year yday wday two_digits =
     (case iso_week_context year yday wday of
        None \<Rightarrow> ob_push_byte (ch CHR ''?'')
      | Some (iso_year, _) \<Rightarrow>
          if two_digits then ob_push_bytes (fmt_zero 2 (iso_year mod 100))
          else append_full_year iso_year)"

definition append_iso_week_number :: "c_int \<Rightarrow> c_int \<Rightarrow> c_int \<Rightarrow> output_buffer \<Rightarrow> output_buffer option" where
  "append_iso_week_number year yday wday =
     (case iso_week_context year yday wday of
        None \<Rightarrow> ob_push_byte (ch CHR ''?'')
      | Some (_, week_number) \<Rightarrow> append_padded_decimal week_number 2)"

definition append_c_locale_datetime :: "tm \<Rightarrow> output_buffer \<Rightarrow> output_buffer option" where
  "append_c_locale_datetime t buf = do {
     buf \<leftarrow> ob_push_bytes (weekday_name (tm_wday t) False) buf;
     buf \<leftarrow> ob_push_byte (ch CHR '' '') buf;
     buf \<leftarrow> ob_push_bytes (month_name (tm_mon t) False) buf;
     buf \<leftarrow> ob_push_byte (ch CHR '' '') buf;
     buf \<leftarrow> append_day_of_month_space_padded (tm_mday t) buf;
     buf \<leftarrow> ob_push_byte (ch CHR '' '') buf;
     buf \<leftarrow> append_hour_24 (tm_hour t) buf;
     buf \<leftarrow> ob_push_byte (ch CHR '':'') buf;
     buf \<leftarrow> append_minute (tm_min t) buf;
     buf \<leftarrow> ob_push_byte (ch CHR '':'') buf;
     buf \<leftarrow> append_second (tm_sec t) buf;
     buf \<leftarrow> ob_push_byte (ch CHR '' '') buf;
     append_year (tm_year t) buf }"

section \<open>Conversion specifiers\<close>

definition normalize_alternative_modifier_token :: "u8 \<Rightarrow> u8 \<Rightarrow> u8 option" where
  "normalize_alternative_modifier_token modifier token =
     (if modifier = ch CHR ''E'' then
        if token \<in> set (ascii ''cCxXyYzurRpPTsnt'') then Some token else None
      else if modifier = ch CHR ''O'' then
        if token \<in> set (ascii ''deHImMSuUVwWyYCGgjklpPRTrzsnt'') then Some token else None
      else None)"

definition is_alternative_modifier :: "u8 \<Rightarrow> bool" where
  "is_alternative_modifier token \<longleftrightarrow> token = ch CHR ''E'' \<or> token = ch CHR ''O''"

definition append_verbatim_percent_token :: "u8 \<Rightarrow> output_buffer \<Rightarrow> output_buffer option" where
  "append_verbatim_percent_token token buf = do {
     buf \<leftarrow> ob_push_byte (ch CHR ''%'') buf;
     ob_push_byte token buf }"

definition append_verbatim_alternative_modifier ::
  "u8 \<Rightarrow> u8 \<Rightarrow> output_buffer \<Rightarrow> output_buffer option" where
  "append_verbatim_alternative_modifier modifier token buf = do {
     buf \<leftarrow> append_verbatim_percent_token modifier buf;
     ob_push_byte token buf }"

definition append_token :: "u8 \<Rightarrow> tm \<Rightarrow> output_buffer \<Rightarrow> output_buffer option" where
  "append_token token t buf =
     (if token = ch CHR ''%'' then ob_push_byte (ch CHR ''%'') buf
      else if token = ch CHR ''c'' then append_c_locale_datetime t buf
      else if token = ch CHR ''C'' then append_century (tm_year t) buf
      else if token = ch CHR ''y'' then append_year_two_digits (tm_year t) buf
      else if token = ch CHR ''Y'' then append_year (tm_year t) buf
      else if token = ch CHR ''s'' then append_epoch_seconds t buf
      else if token = ch CHR ''m'' then append_month_number (tm_mon t) buf
      else if token = ch CHR ''d'' then append_day_of_month (tm_mday t) buf
      else if token = ch CHR ''e'' then append_day_of_month_space_padded (tm_mday t) buf
      else if token = ch CHR ''H'' then append_hour_24 (tm_hour t) buf
      else if token = ch CHR ''k'' then append_hour_24_space_padded (tm_hour t) buf
      else if token = ch CHR ''I'' then append_hour_12 (tm_hour t) buf
      else if token = ch CHR ''l'' then append_hour_12_space_padded (tm_hour t) buf
      else if token = ch CHR ''p'' then append_meridiem (tm_hour t) False buf
      else if token = ch CHR ''P'' then append_meridiem (tm_hour t) True buf
      else if token = ch CHR ''Z'' then append_timezone_abbreviation (tm_zone t) buf
      else if token = ch CHR ''z'' then append_numeric_utc_offset (tm_gmtoff t) buf
      else if token = ch CHR ''M'' then append_minute (tm_min t) buf
      else if token = ch CHR ''S'' then append_second (tm_sec t) buf
      else if token = ch CHR ''D'' \<or> token = ch CHR ''x'' then do {
        buf \<leftarrow> append_month_number (tm_mon t) buf;
        buf \<leftarrow> ob_push_byte (ch CHR ''/'') buf;
        buf \<leftarrow> append_day_of_month (tm_mday t) buf;
        buf \<leftarrow> ob_push_byte (ch CHR ''/'') buf;
        append_year_two_digits (tm_year t) buf }
      else if token = ch CHR ''F'' then do {
        buf \<leftarrow> append_year (tm_year t) buf;
        buf \<leftarrow> ob_push_byte (ch CHR ''-'') buf;
        buf \<leftarrow> append_month_number (tm_mon t) buf;
        buf \<leftarrow> ob_push_byte (ch CHR ''-'') buf;
        append_day_of_month (tm_mday t) buf }
      else if token = ch CHR ''T'' \<or> token = ch CHR ''X'' then do {
        buf \<leftarrow> append_hour_24 (tm_hour t) buf;
        buf \<leftarrow> ob_push_byte (ch CHR '':'') buf;
        buf \<leftarrow> append_minute (tm_min t) buf;
        buf \<leftarrow> ob_push_byte (ch CHR '':'') buf;
        append_second (tm_sec t) buf }
      else if token = ch CHR ''R'' then do {
        buf \<leftarrow> append_hour_24 (tm_hour t) buf;
        buf \<leftarrow> ob_push_byte (ch CHR '':'') buf;
        append_minute (tm_min t) buf }
      else if token = ch CHR ''v'' then do {
        buf \<leftarrow> append_day_of_month_space_padded (tm_mday t) buf;
        buf \<leftarrow> ob_push_byte (ch CHR ''-'') buf;
        buf \<leftarrow> ob_push_bytes (month_name (tm_mon t) False) buf;
        buf \<leftarrow> ob_push_byte (ch CHR ''-'') buf;
        append_year (tm_year t) buf }
      else if token = ch CHR ''r'' then do {
        buf \<leftarrow> append_hour_12 (tm_hour t) buf;
        buf \<leftarrow> ob_push_byte (ch CHR '':'') buf;
        buf \<leftarrow> append_minute (tm_min t) buf;
        buf \<leftarrow> ob_push_byte (ch CHR '':'') buf;
        buf \<leftarrow> append_second (tm_sec t) buf;
        buf \<leftarrow> ob_push_byte (ch CHR '' '') buf;
        append_meridiem (tm_hour t) False buf }
      else if token = ch CHR ''a'' then ob_push_bytes (weekday_name (tm_wday t) False) buf
      else if token = ch CHR ''A'' then ob_push_bytes (weekday_name (tm_wday t) True) buf
      else if token = ch CHR ''h'' \<or> token = ch CHR ''b'' then ob_push_bytes (month_name (tm_mon t) False) buf
      else if token = ch CHR ''B'' then ob_push_bytes (month_name (tm_mon t) True) buf
      else if token = ch CHR ''j'' then append_julian_day (tm_year t) (tm_yday t) buf
      else if token = ch CHR ''U'' then append_week_number (tm_year t) (tm_yday t) (tm_wday t) False buf
      else if token = ch CHR ''W'' then append_week_number (tm_year t) (tm_yday t) (tm_wday t) True buf
      else if token = ch CHR ''G'' then append_iso_week_year (tm_year t) (tm_yday t) (tm_wday t) False buf
      else if token = ch CHR ''g'' then append_iso_week_year (tm_year t) (tm_yday t) (tm_wday t) True buf
      else if token = ch CHR ''V'' then append_iso_week_number (tm_year t) (tm_yday t) (tm_wday t) buf
      else if token = ch CHR ''u'' then append_posix_weekday (tm_wday t) buf
      else if token = ch CHR ''w'' then append_c_weekday (tm_wday t) buf
      else if token = ch CHR ''n'' then ob_push_byte 0x0A buf
      else if token = ch CHR ''t'' then ob_push_byte 0x09 buf
      else append_verbatim_percent_token token buf)"

text \<open>The loop over the format; \<open>cursor\<close> is \<^verbatim>\<open>format.add(index)\<close>.\<close>

partial_function (option) strftime_loop :: "addr \<Rightarrow> tm \<Rightarrow> output_buffer \<Rightarrow> output_buffer option" where
  "strftime_loop cursor t buf = do {
     byte \<leftarrow> ob_mem buf cursor;
     if byte = 0 then Some buf
     else if byte \<noteq> ch CHR ''%'' then do { buf \<leftarrow> ob_push_byte byte buf; strftime_loop (cursor + 1) t buf }
     else do {
       token \<leftarrow> ob_mem buf (cursor + 1);
       if token = 0 then ob_push_byte (ch CHR ''%'') buf
       else if is_alternative_modifier token then do {
         modified \<leftarrow> ob_mem buf (cursor + 2);
         if modified = 0 then append_verbatim_percent_token token buf
         else do {
           buf \<leftarrow> (case normalize_alternative_modifier_token token modified of
               Some base_token \<Rightarrow> append_token base_token t buf
             | None \<Rightarrow> append_verbatim_alternative_modifier token modified buf);
           strftime_loop (cursor + 3) t buf } }
       else do { buf \<leftarrow> append_token token t buf; strftime_loop (cursor + 2) t buf } } }"

definition strftime :: "addr \<Rightarrow> nat \<Rightarrow> addr \<Rightarrow> addr \<Rightarrow> 'z tmachine_scheme \<Rightarrow> (nat \<times> 'z tmachine_scheme) option" where
  "strftime s mx format time_ptr w =
     (if format = null \<or> time_ptr = null \<or> (mx \<noteq> 0 \<and> s = null) then Some (0, set_errno EINVAL w)
      else do {
        t \<leftarrow> tms w time_ptr;
        buf \<leftarrow> strftime_loop format t (ob_new (bytes w) s mx);
        (n, buf) \<leftarrow> finish buf;
        Some (n, w\<lparr>bytes := ob_mem buf\<rparr>) })"

section \<open>The text\<close>

text \<open>
  What each specifier stands for, after the list in the documentation of \<^verbatim>\<open>strftime\<close>: a function
  of the broken-down time and the bytes \<open>z\<close> of the zone name, written without the code's helpers; a
  field out of its range is shown as a question mark. The rule \<open>weeks\<close> that gives the year and number of
  a week to \<^verbatim>\<open>%G\<close>, \<^verbatim>\<open>%g\<close> and \<^verbatim>\<open>%V\<close> is a parameter: it is used with the documented one, the weeks of
  ISO 8601 (\<open>iso_week_of\<close> below), and with the one the code computes.
\<close>

type_synonym week_rule = "tm \<Rightarrow> (int \<times> int) option"

definition mark :: "u8 list" where
  "mark = [ch CHR ''?'']"

definition MONTHS :: "u8 list list" where
  "MONTHS = map ascii [''January'', ''February'', ''March'', ''April'', ''May'', ''June'', ''July'', ''August'',
     ''September'', ''October'', ''November'', ''December'']"

definition WEEKDAYS :: "u8 list list" where
  "WEEKDAYS = map ascii [''Sunday'', ''Monday'', ''Tuesday'', ''Wednesday'', ''Thursday'', ''Friday'', ''Saturday'']"

definition name_text :: "u8 list list \<Rightarrow> c_int \<Rightarrow> u8 list" where
  "name_text names v = (if 0 \<le> sint v \<and> sint v < int (length names) then names ! nat (sint v) else mark)"

definition year_text :: "int \<Rightarrow> u8 list" where
  "year_text y = (if y \<ge> 0 then fmt_zero 4 y else ch CHR ''-'' # fmt_zero 4 \<bar>y\<bar>)"

definition two :: "int \<Rightarrow> int \<Rightarrow> int \<Rightarrow> u8 list" where
  "two v lo hi = (if v < lo \<or> v > hi then mark else fmt_zero 2 v)"

definition month_text :: "tm \<Rightarrow> u8 list" where
  "month_text t = (if 0 \<le> sint (tm_mon t) \<and> sint (tm_mon t) \<le> 11 then fmt_zero 2 (sint (tm_mon t) + 1) else mark)"

definition spaced :: "c_int \<Rightarrow> int \<Rightarrow> int \<Rightarrow> u8 list" where
  "spaced v lo hi = (if \<not> (lo \<le> sint v \<and> sint v \<le> hi) then mark else fmt_space 2 (sint v))"

definition hour12_text :: "(int \<Rightarrow> u8 list) \<Rightarrow> tm \<Rightarrow> u8 list" where
  "hour12_text fmt t = (let h = sint (tm_hour t) in if 0 \<le> h \<and> h \<le> 23 then fmt (if h mod 12 = 0 then 12 else h mod 12) else mark)"

definition meridiem_text :: "c_int \<Rightarrow> bool \<Rightarrow> u8 list" where
  "meridiem_text hour lowercase =
     (if 0 \<le> sint hour \<and> sint hour \<le> 11 then (if lowercase then ascii ''am'' else ascii ''AM'')
      else if 12 \<le> sint hour \<and> sint hour \<le> 23 then (if lowercase then ascii ''pm'' else ascii ''PM'')
      else ascii ''?'')"

text \<open>A whole number of minutes, up to 23:59 east or west.\<close>

definition offset_text :: "int \<Rightarrow> u8 list" where
  "offset_text v =
     (if \<bar>v\<bar> \<le> 60 * (60 * 23 + 59) \<and> v mod 60 = 0
      then (if v < 0 then ch CHR ''-'' else ch CHR ''+'') # fmt_zero 2 (\<bar>v\<bar> div 60 div 60) @ fmt_zero 2 (\<bar>v\<bar> div 60 mod 60)
      else mark)"

text \<open>The day of the year and the weekday, where they are valid.\<close>

definition year_of :: "tm \<Rightarrow> int" where
  "year_of t = 1900 + sint (tm_year t)"

definition in_year :: "tm \<Rightarrow> bool" where
  "in_year t \<longleftrightarrow> 0 \<le> sint (tm_yday t) \<and> sint (tm_yday t) < (if leap (year_of t) then 366 else 365)"

definition in_week :: "tm \<Rightarrow> bool" where
  "in_week t \<longleftrightarrow> 0 \<le> sint (tm_wday t) \<and> sint (tm_wday t) < 7"

text \<open>The weeks of a year counted by its Sundays, or its Mondays.\<close>

definition week_text :: "tm \<Rightarrow> bool \<Rightarrow> u8 list" where
  "week_text t monday_based =
     (if in_week t \<and> in_year t
      then fmt_zero 2 ((sint (tm_yday t) + 7 - (if monday_based then (sint (tm_wday t) + 6) mod 7 else sint (tm_wday t))) div 7)
      else mark)"

definition iso_text :: "week_rule \<Rightarrow> (int \<times> int \<Rightarrow> u8 list) \<Rightarrow> tm \<Rightarrow> u8 list" where
  "iso_text weeks f t = (case weeks t of None \<Rightarrow> mark | Some c \<Rightarrow> f c)"

definition token_text :: "week_rule \<Rightarrow> u8 \<Rightarrow> tm \<Rightarrow> u8 list \<Rightarrow> u8 list" where
  "token_text weeks token t z =
     (let y = year_of t; y2 = fmt_zero 2 (y mod 100); d2 = two (sint (tm_mday t)) 1 31;
          h2 = two (sint (tm_hour t)) 0 23; colon = [ch CHR '':'']; sp = [ch CHR '' '']
      in if token = ch CHR ''%'' then [ch CHR ''%'']
      else if token = ch CHR ''c'' then take 3 (name_text WEEKDAYS (tm_wday t)) @ sp @ take 3 (name_text MONTHS (tm_mon t)) @ sp @
        spaced (tm_mday t) 1 31 @ sp @ h2 @ colon @ two (sint (tm_min t)) 0 59 @ colon @
        two (sint (tm_sec t)) 0 60 @ sp @ year_text y
      else if token = ch CHR ''C'' then fmt_zero 2 (y div 100)
      else if token = ch CHR ''y'' then y2
      else if token = ch CHR ''Y'' then year_text y
      else if token = ch CHR ''s'' then fmt_zero 0 (tm_seconds t)
      else if token = ch CHR ''m'' then month_text t
      else if token = ch CHR ''d'' then d2
      else if token = ch CHR ''e'' then spaced (tm_mday t) 1 31
      else if token = ch CHR ''H'' then h2
      else if token = ch CHR ''k'' then spaced (tm_hour t) 0 23
      else if token = ch CHR ''I'' then hour12_text (fmt_zero 2) t
      else if token = ch CHR ''l'' then hour12_text (fmt_space 2) t
      else if token = ch CHR ''p'' then meridiem_text (tm_hour t) False
      else if token = ch CHR ''P'' then meridiem_text (tm_hour t) True
      else if token = ch CHR ''Z'' then z
      else if token = ch CHR ''z'' then offset_text (sint (tm_gmtoff t))
      else if token = ch CHR ''M'' then two (sint (tm_min t)) 0 59
      else if token = ch CHR ''S'' then two (sint (tm_sec t)) 0 60
      else if token = ch CHR ''D'' \<or> token = ch CHR ''x'' then month_text t @ [ch CHR ''/''] @ d2 @ [ch CHR ''/''] @ y2
      else if token = ch CHR ''F'' then year_text y @ [ch CHR ''-''] @ month_text t @ [ch CHR ''-''] @ d2
      else if token = ch CHR ''T'' \<or> token = ch CHR ''X'' then h2 @ colon @ two (sint (tm_min t)) 0 59 @ colon @ two (sint (tm_sec t)) 0 60
      else if token = ch CHR ''R'' then h2 @ colon @ two (sint (tm_min t)) 0 59
      else if token = ch CHR ''v'' then spaced (tm_mday t) 1 31 @ [ch CHR ''-''] @ take 3 (name_text MONTHS (tm_mon t)) @
        [ch CHR ''-''] @ year_text y
      else if token = ch CHR ''r'' then hour12_text (fmt_zero 2) t @ colon @ two (sint (tm_min t)) 0 59 @ colon @
        two (sint (tm_sec t)) 0 60 @ sp @ meridiem_text (tm_hour t) False
      else if token = ch CHR ''a'' then take 3 (name_text WEEKDAYS (tm_wday t))
      else if token = ch CHR ''A'' then name_text WEEKDAYS (tm_wday t)
      else if token = ch CHR ''h'' \<or> token = ch CHR ''b'' then take 3 (name_text MONTHS (tm_mon t))
      else if token = ch CHR ''B'' then name_text MONTHS (tm_mon t)
      else if token = ch CHR ''j'' then
        (if in_year t then fmt_zero 3 (sint (tm_yday t) + 1) else mark)
      else if token = ch CHR ''U'' then week_text t False
      else if token = ch CHR ''W'' then week_text t True
      else if token = ch CHR ''G'' then iso_text weeks (\<lambda>(iy, _). year_text iy) t
      else if token = ch CHR ''g'' then iso_text weeks (\<lambda>(iy, _). fmt_zero 2 (iy mod 100)) t
      else if token = ch CHR ''V'' then iso_text weeks (\<lambda>(_, wk). fmt_zero 2 wk) t
      else if token = ch CHR ''u'' then
        (if sint (tm_wday t) = 0 then [ch CHR ''7'']
         else if 1 \<le> sint (tm_wday t) \<and> sint (tm_wday t) \<le> 6 then fmt_zero 0 (sint (tm_wday t)) else mark)
      else if token = ch CHR ''w'' then
        (if 0 \<le> sint (tm_wday t) \<and> sint (tm_wday t) \<le> 6 then fmt_zero 0 (sint (tm_wday t)) else mark)
      else if token = ch CHR ''n'' then [0x0A]
      else if token = ch CHR ''t'' then [0x09]
      else [ch CHR ''%'', token])"

text \<open>
  The conversions that may be written with \<^verbatim>\<open>%E\<close> and with \<^verbatim>\<open>%O\<close>, in the order of the documentation.
\<close>

definition alternative :: "u8 \<Rightarrow> u8 \<Rightarrow> bool" where
  "alternative modifier token \<longleftrightarrow>
     token \<in> set (if modifier = ch CHR ''E'' then ascii ''cCxXyYzupPrRTsnt'' else ascii ''CdeHIjklmMSuUVwWyYGgpPRTrsntz'')"

fun format_text :: "week_rule \<Rightarrow> tm \<Rightarrow> u8 list \<Rightarrow> u8 list \<Rightarrow> u8 list" where
  "format_text weeks t z [] = []"
| "format_text weeks t z [b] = [b]"
| "format_text weeks t z (b # tok # bs) =
     (if b \<noteq> ch CHR ''%'' then b # format_text weeks t z (tok # bs)
      else if tok = ch CHR ''E'' \<or> tok = ch CHR ''O'' then
        (case bs of
           [] \<Rightarrow> [ch CHR ''%'', tok]
         | md # bs' \<Rightarrow>
             (if alternative tok md then token_text weeks md t z else [ch CHR ''%'', tok, md]) @ format_text weeks t z bs')
      else token_text weeks tok t z @ format_text weeks t z bs)"

text \<open>Whether a format shows the ISO week or its year.\<close>

definition week_token :: "u8 \<Rightarrow> bool" where
  "week_token token \<longleftrightarrow> token \<in> set (ascii ''GgV'')"

fun shows_week :: "u8 list \<Rightarrow> bool" where
  "shows_week (b # tok # bs) =
     (if b \<noteq> ch CHR ''%'' then shows_week (tok # bs)
      else if tok = ch CHR ''E'' \<or> tok = ch CHR ''O'' then
        (case bs of [] \<Rightarrow> False | md # bs' \<Rightarrow> alternative tok md \<and> week_token md \<or> shows_week bs')
      else week_token tok \<or> shows_week bs)"
| "shows_week bs = False"

lemma token_text_week: "\<not> week_token tok \<or> f t = g t \<Longrightarrow> token_text f tok t z = token_text g tok t z"
  by (elim disjE) (simp_all add: token_text_def week_token_def iso_text_def)

lemma format_text_week:
  "\<not> shows_week bs \<or> f t = g t \<Longrightarrow> format_text f t z bs = format_text g t z bs"
proof (induction f t z bs rule: format_text.induct)
  case (3 weeks t z b tok bs)
  then show ?case using token_text_week [of _ weeks t g z] by (cases bs) auto
qed simp_all

section \<open>The buffer as a sink\<close>

definition apart :: "addr \<Rightarrow> nat \<Rightarrow> addr \<Rightarrow> nat \<Rightarrow> bool" where
  "apart p n q k \<longleftrightarrow> p + n \<le> q \<or> q + k \<le> p"

definition ob_holds :: "mem \<Rightarrow> addr \<Rightarrow> nat \<Rightarrow> output_buffer \<Rightarrow> u8 list \<Rightarrow> bool" where
  "ob_holds m0 dst mx buf xs \<longleftrightarrow> ob_dst buf = dst \<and> ob_max buf = mx \<and> ob_required buf = length xs \<and>
     mapped m0 dst mx \<and> ob_mem buf = store_bytes m0 dst (take (mx - 1) xs)"

lemma push_byte_holds:
  assumes "ob_holds m0 dst mx buf xs"
  shows "\<exists>buf'. ob_push_byte b buf = Some buf' \<and> ob_holds m0 dst mx buf' (xs @ [b])"
proof (cases "mx \<noteq> 0 \<and> length xs < mx - 1")
  case True
  then have "mapped (store_bytes m0 dst xs) dst mx" using assms by (simp add: ob_holds_def mapped_store_bytes)
  then obtain c where "store_bytes m0 dst xs (dst + length xs) = Some c"
    using True mapped_less [of _ dst mx "length xs"] by fastforce
  moreover have "mx - Suc (length xs) = Suc (mx - Suc (Suc (length xs)))" using True by arith
  ultimately show ?thesis
    using assms True by (simp add: ob_push_byte_def ob_holds_def write_u8_def store_bytes_append)
next
  case False
  then show ?thesis using assms by (auto simp: ob_push_byte_def ob_holds_def)
qed

interpretation ob: byte_sink ob_push_byte "ob_holds m0 dst mx" for m0 dst mx
  by unfold_locales (rule push_byte_holds)

lemma ob_new_holds: "mapped m dst mx \<Longrightarrow> ob_holds m dst mx (ob_new m dst mx) []"
  by (simp add: ob_holds_def ob_new_def)

lemma ob_mem_apart: "ob_holds m0 dst mx buf xs \<Longrightarrow> apart p n dst mx \<Longrightarrow> i < n \<Longrightarrow> ob_mem buf (p + i) = m0 (p + i)"
  by (auto simp: ob_holds_def apart_def intro!: store_bytes_other)

lemma finish_holds:
  assumes "ob_holds m0 dst mx buf xs"
  shows "\<exists>buf'. finish buf = Some (if length xs < mx then length xs else 0, buf') \<and>
    ob_mem buf' = (if mx = 0 then m0 else store_bytes m0 dst (take (mx - 1) xs @ [0]))"
proof (cases "mx = 0")
  case True
  then show ?thesis using assms by (simp add: finish_def terminate_buffer_def ob_holds_def)
next
  case False
  define k where "k = min (length xs) (mx - 1)"
  have len: "length (take (mx - 1) xs) = k" by (simp add: k_def min.commute)
  have "mapped (store_bytes m0 dst (take (mx - 1) xs)) dst mx" "k < mx"
    using assms False by (auto simp: ob_holds_def mapped_store_bytes k_def)
  then obtain c where "store_bytes m0 dst (take (mx - 1) xs) (dst + k) = Some c" using mapped_less by blast
  then show ?thesis
    using assms False len
    by (auto simp: finish_def terminate_buffer_def ob_holds_def k_def [symmetric] write_u8_def store_bytes_append)
qed

lemma writes_push_bytes: "ob.writes m0 dst mx (ob_push_bytes bs) bs"
  by (rule ob.writes_fold) (simp_all add: fun_eq_iff)

lemma writes_none: "ob.writes m0 dst mx (case None of None \<Rightarrow> f | Some x \<Rightarrow> g x) xs \<longleftrightarrow> ob.writes m0 dst mx f xs"
  by simp

text \<open>The code's helpers say what the text says.\<close>

definition coded_week :: week_rule where
  "coded_week t = iso_week_context (tm_year t) (tm_yday t) (tm_wday t)"

lemmas leaf_defs = append_year_def append_full_year_def append_century_def append_year_two_digits_def
  append_epoch_seconds_def append_numeric_utc_offset_def append_padded_decimal_def
  append_padded_decimal_in_range_def append_month_number_def append_day_of_month_def
  append_day_of_month_space_padded_def append_hour_24_def append_hour_24_space_padded_def
  append_hour_12_def append_hour_12_space_padded_def append_minute_def append_second_def
  append_meridiem_def append_posix_weekday_def append_c_weekday_def append_julian_day_def
  append_iso_week_year_def append_iso_week_number_def full_year_from_tm_year_def
  normalized_eq

lemmas text_defs = mark_def year_text_def two_def month_text_def spaced_def hour12_text_def
  meridiem_text_def offset_text_def iso_text_def coded_week_def year_of_def full_year_from_tm_year_def

lemma code_names:
  "C_LOCALE_MONTH_LONG = MONTHS" "C_LOCALE_MONTH_SHORT = map (take 3) MONTHS"
  "C_LOCALE_WEEKDAY_LONG = WEEKDAYS" "C_LOCALE_WEEKDAY_SHORT = map (take 3) WEEKDAYS"
  by (simp_all add: C_LOCALE_MONTH_LONG_def C_LOCALE_MONTH_SHORT_def MONTHS_def C_LOCALE_WEEKDAY_LONG_def
      C_LOCALE_WEEKDAY_SHORT_def WEEKDAYS_def)

lemma month_name_text: "month_name v b = (if b then name_text MONTHS v else take 3 (name_text MONTHS v))"
  by (auto simp: month_name_def name_or_mark_def name_text_def code_names mark_def)

lemma weekday_name_text: "weekday_name v b = (if b then name_text WEEKDAYS v else take 3 (name_text WEEKDAYS v))"
  by (auto simp: weekday_name_def name_or_mark_def name_text_def code_names mark_def)

lemma normalize_hour_12_text:
  "normalize_hour_12 v = (if 0 \<le> sint v \<and> sint v \<le> 23
     then Some (if sint v mod 12 = 0 then 12 else sint v mod 12) else None)"
proof -
  have "h mod 12 = (if h < 12 then h else h - 12)" if "0 \<le> h" "h \<le> 23" for h :: int
    using that minus_mod_self2 [of h 12] mod_pos_pos_trivial [of "h - 12" 12] by (simp del: minus_mod_self2)
  from this [of "sint v"] show ?thesis by (auto simp: normalize_hour_12_def Let_def)
qed

lemma valid_yday: "is_valid_tm_yday_for_year (full_year_from_tm_year (tm_year t)) (tm_yday t) \<longleftrightarrow> in_year t"
  by (auto simp: is_valid_tm_yday_for_year_def in_year_def full_year_from_tm_year_def year_of_def
      max_yday_for_full_year_def is_leap_year_iff add.commute)

lemma valid_offset: "is_valid_numeric_utc_offset_seconds v \<longleftrightarrow> \<bar>v\<bar> \<le> 60 * (60 * 23 + 59) \<and> v mod 60 = 0"
  by (auto simp: is_valid_numeric_utc_offset_seconds_def MAX_NUMERIC_UTC_OFFSET_SECONDS_def dvd_eq_mod_eq_0
      [symmetric])

lemma append_week_number_text:
  "append_week_number (tm_year t) (tm_yday t) (tm_wday t) b = ob_push_bytes (week_text t b)"
proof -
  have sunday: "(if 0 = w then 6 else w - 1) = (w + 6) mod 7" if "0 \<le> w" "w \<le> 6" for w :: int
    using that by presburger
  have "(y + 7 - w) sdiv 7 = (y + 7 - w) div 7" if "0 \<le> y" "w \<le> 6" for y w :: int
    using that by (intro sdiv_nonneg) simp_all
  then show ?thesis
    using sunday [of "sint (tm_wday t)"]
    by (auto simp: append_week_number_def week_text_def valid_yday in_week_def Let_def append_padded_decimal_def
        mark_def fun_eq_iff in_year_def)
qed

lemma alternative_text:
  "is_alternative_modifier modifier \<longleftrightarrow> modifier = ch CHR ''E'' \<or> modifier = ch CHR ''O''"
  "is_alternative_modifier modifier \<Longrightarrow>
     normalize_alternative_modifier_token modifier token = (if alternative modifier token then Some token else None)"
  by (auto simp: is_alternative_modifier_def normalize_alternative_modifier_token_def alternative_def)

lemma writes_leaf:
  fixes m0 dst mx
  defines "W \<equiv> ob.writes m0 dst mx"
  shows "W (append_year v) (year_text (1900 + sint v))"
    "W (append_century v) (fmt_zero 2 ((1900 + sint v) div 100))"
    "W (append_year_two_digits v) (fmt_zero 2 ((1900 + sint v) mod 100))"
    "W (append_epoch_seconds t) (fmt_zero 0 (tm_seconds t))"
    "W (append_numeric_utc_offset off) (offset_text (sint off))"
    "W (append_month_number (tm_mon t)) (month_text t)"
    "W (append_day_of_month v) (two (sint v) 1 31)"
    "W (append_day_of_month_space_padded v) (spaced v 1 31)"
    "W (append_hour_24 v) (two (sint v) 0 23)"
    "W (append_hour_24_space_padded v) (spaced v 0 23)"
    "W (append_hour_12 (tm_hour t)) (hour12_text (fmt_zero 2) t)"
    "W (append_hour_12_space_padded (tm_hour t)) (hour12_text (fmt_space 2) t)"
    "W (append_minute v) (two (sint v) 0 59)" "W (append_second v) (two (sint v) 0 60)"
    "W (append_meridiem v b) (meridiem_text v b)"
    "W (append_week_number (tm_year t) (tm_yday t) (tm_wday t) b) (week_text t b)"
    "W (append_julian_day (tm_year t) (tm_yday t)) (if in_year t then fmt_zero 3 (sint (tm_yday t) + 1) else mark)"
    "W (append_iso_week_year (tm_year t) (tm_yday t) (tm_wday t) False) (iso_text coded_week (\<lambda>(iy, _). year_text iy) t)"
    "W (append_iso_week_year (tm_year t) (tm_yday t) (tm_wday t) True) (iso_text coded_week (\<lambda>(iy, _). fmt_zero 2 (iy mod 100)) t)"
    "W (append_iso_week_number (tm_year t) (tm_yday t) (tm_wday t)) (iso_text coded_week (\<lambda>(_, wk). fmt_zero 2 wk) t)"
  unfolding W_def append_week_number_text leaf_defs text_defs Let_def normalize_hour_12_text valid_offset
    add.commute [of _ 1900] valid_yday [unfolded full_year_from_tm_year_def add.commute [of _ 1900]]
  by (auto simp: writes_push_bytes ob.writes_push split: option.splits)

text \<open>The zone name is copied from the memory under the hand of the writer.\<close>

lemma writes_zone_loop:
  assumes "cstr m0 p z" "apart p (length z + 1) dst mx"
  shows "ob.writes m0 dst mx (zone_loop p) z"
  using assms
proof (induction z arbitrary: p)
  case Nil
  have "ob_holds m0 dst mx s xs \<Longrightarrow> zone_loop p s = Some s" for s xs
    using ob_mem_apart [of m0 dst mx s xs p 1 0] Nil by (subst zone_loop.simps) simp
  then show ?case by (auto simp: ob.writes_def)
next
  case (Cons b z)
  have rest: "ob.writes m0 dst mx (zone_loop (p + 1)) z"
    using Cons.prems by (intro Cons.IH) (auto simp: apart_def)
  have "ob_holds m0 dst mx s xs \<Longrightarrow> zone_loop p s = Option.bind (ob_push_byte b s) (zone_loop (p + 1))" for s xs
    using ob_mem_apart [of m0 dst mx s xs p "Suc (Suc (length z))" 0] Cons.prems
    by (subst zone_loop.simps) simp
  then show ?case
    using ob.writes_bind [OF ob.writes_push [of m0 dst mx b] rest] by (simp add: ob.writes_def)
qed

definition zone_ok :: "mem \<Rightarrow> addr \<Rightarrow> nat \<Rightarrow> tm \<Rightarrow> u8 list \<Rightarrow> bool" where
  "zone_ok m0 dst mx t z \<longleftrightarrow> (if tm_zone t = null then z = []
     else cstr m0 (tm_zone t) z \<and> apart (tm_zone t) (length z + 1) dst mx)"

lemma writes_zone: "zone_ok m0 dst mx t z \<Longrightarrow> ob.writes m0 dst mx (append_timezone_abbreviation (tm_zone t)) z"
  using writes_zone_loop [of m0 "tm_zone t" z dst mx]
  by (auto simp: zone_ok_def append_timezone_abbreviation_def [abs_def] ob.writes_skip split: if_splits)

lemma writes_other:
  fixes m0 dst mx
  defines "W \<equiv> ob.writes m0 dst mx"
  shows "W (append_posix_weekday v) (if sint v = 0 then [ch CHR ''7'']
       else if 1 \<le> sint v \<and> sint v \<le> 6 then fmt_zero 0 (sint v) else mark)"
    "W (append_c_weekday v) (if 0 \<le> sint v \<and> sint v \<le> 6 then fmt_zero 0 (sint v) else mark)"
  unfolding W_def leaf_defs mark_def by (auto simp: writes_push_bytes ob.writes_push)

lemmas writes_rules = writes_leaf writes_other writes_push_bytes ob.writes_push

lemma writes_composed:
  fixes m0 dst mx t
  defines "W \<equiv> ob.writes m0 dst mx"
  shows "W (append_c_locale_datetime t) (take 3 (name_text WEEKDAYS (tm_wday t)) @ [ch CHR '' ''] @
      take 3 (name_text MONTHS (tm_mon t)) @ [ch CHR '' ''] @ spaced (tm_mday t) 1 31 @ [ch CHR '' ''] @
      two (sint (tm_hour t)) 0 23 @ [ch CHR '':''] @ two (sint (tm_min t)) 0 59 @ [ch CHR '':''] @
      two (sint (tm_sec t)) 0 60 @ [ch CHR '' ''] @ year_text (1900 + sint (tm_year t)))"
    "W (append_verbatim_percent_token b) [ch CHR ''%'', b]"
    "W (append_verbatim_alternative_modifier b c) [ch CHR ''%'', b, c]"
proof -
  show "W (append_c_locale_datetime t) (take 3 (name_text WEEKDAYS (tm_wday t)) @ [ch CHR '' ''] @
      take 3 (name_text MONTHS (tm_mon t)) @ [ch CHR '' ''] @ spaced (tm_mday t) 1 31 @ [ch CHR '' ''] @
      two (sint (tm_hour t)) 0 23 @ [ch CHR '':''] @ two (sint (tm_min t)) 0 59 @ [ch CHR '':''] @
      two (sint (tm_sec t)) 0 60 @ [ch CHR '' ''] @ year_text (1900 + sint (tm_year t)))"
    unfolding W_def append_c_locale_datetime_def [abs_def] month_name_text weekday_name_text if_False by (intro ob.writes_bind writes_rules)
  show percent: "W (append_verbatim_percent_token b) [ch CHR ''%'', b]" for b
    using ob.writes_bind [OF ob.writes_push ob.writes_push, of m0 dst mx "ch CHR ''%''" b]
    unfolding W_def append_verbatim_percent_token_def [abs_def] by simp
  show "W (append_verbatim_alternative_modifier b c) [ch CHR ''%'', b, c]"
    using ob.writes_bind [OF percent [unfolded W_def] ob.writes_push, of b c]
    unfolding W_def append_verbatim_alternative_modifier_def [abs_def] by simp
qed

lemma writes_token:
  assumes "zone_ok m0 dst mx t z"
  shows "ob.writes m0 dst mx (append_token tok t) (token_text coded_week tok t z)"
  unfolding append_token_def [abs_def] token_text_def Let_def month_name_text weekday_name_text if_True if_False year_of_def
  by (intro ob.writes_if ob.writes_bind writes_rules writes_composed writes_zone [OF assms])

lemma strftime_loop_writes:
  assumes "zone_ok m0 dst mx t z" "cstr m0 p bs" "apart p (length bs + 1) dst mx" "ob_holds m0 dst mx buf xs"
  shows "\<exists>buf'. strftime_loop p t buf = Some buf' \<and> ob_holds m0 dst mx buf' (xs @ format_text coded_week t z bs)"
  using assms
proof (induction coded_week t z bs arbitrary: p buf xs rule: format_text.induct)
  case (1 t z)
  then have "ob_mem buf p = Some 0" using ob_mem_apart [of m0 dst mx buf xs p 1 0] by simp
  then show ?case using 1 by (subst strftime_loop.simps) simp
next
  case (2 t z b)
  have "ob_mem buf (p + i) = m0 (p + i)" if "i < 2" for i
    using ob_mem_apart [of m0 dst mx buf xs p "Suc (Suc 0)" i] 2 that by simp
  from this [of 0] this [of 1] have mem: "ob_mem buf p = Some b" "ob_mem buf (Suc p) = Some 0" "b \<noteq> 0"
    using 2 by simp_all
  obtain buf1 where b1: "ob_push_byte b buf = Some buf1" "ob_holds m0 dst mx buf1 (xs @ [b])"
    using push_byte_holds 2 by blast
  have "ob_mem buf1 (Suc p) = Some 0"
    using ob_mem_apart [OF b1(2), of p "Suc (Suc 0)" 1] 2 by simp
  then have "strftime_loop (Suc p) t buf1 = Some buf1" by (subst strftime_loop.simps) simp
  then show ?case
    using mem b1 by (subst strftime_loop.simps) (auto simp: alternative_text)
next
  case (3 t z b tok bs)
  have mem: "ob_mem buf (p + i) = m0 (p + i)" if "i < Suc (Suc (Suc (length bs)))" for i
    using ob_mem_apart [of m0 dst mx buf xs p "Suc (Suc (Suc (length bs)))" i] 3 that by simp
  from mem [of 0] mem [of 1] have m: "ob_mem buf p = Some b" "ob_mem buf (Suc p) = Some tok" "b \<noteq> 0" "tok \<noteq> 0"
    using "3.prems" by simp_all
  have step: "\<exists>buf1. f buf = Some buf1 \<and> ob_holds m0 dst mx buf1 (xs @ ys)" if "ob.writes m0 dst mx f ys" for f ys
    using ob.writesD [OF that "3.prems"(4)] .
  consider (plain) "b \<noteq> ch CHR ''%''" | (token) "b = ch CHR ''%''" "\<not> is_alternative_modifier tok"
    | (alone) "b = ch CHR ''%''" "is_alternative_modifier tok" "bs = []"
    | (alt) md bs' where "b = ch CHR ''%''" "is_alternative_modifier tok" "bs = md # bs'"
    by (cases bs) auto
  then show ?case
  proof cases
    case plain
    obtain buf1 where b1: "ob_push_byte b buf = Some buf1" "ob_holds m0 dst mx buf1 (xs @ [b])"
      using step [OF ob.writes_push] by blast
    have "\<exists>buf'. strftime_loop (Suc p) t buf1 = Some buf' \<and>
        ob_holds m0 dst mx buf' ((xs @ [b]) @ format_text coded_week t z (tok # bs))"
      using "3.prems"(1,2,3) by (intro "3.hyps"(1) plain b1(2)) (auto simp: apart_def)
    then show ?thesis using plain m b1(1) by (subst strftime_loop.simps) (auto simp: alternative_text)
  next
    case token
    obtain buf1 where b1: "append_token tok t buf = Some buf1"
      "ob_holds m0 dst mx buf1 (xs @ token_text coded_week tok t z)"
      using step [OF writes_token [OF "3.prems"(1)]] by blast
    have "\<exists>buf'. strftime_loop (Suc (Suc p)) t buf1 = Some buf' \<and>
        ob_holds m0 dst mx buf' ((xs @ token_text coded_week tok t z) @ format_text coded_week t z bs)"
      using "3.prems"(1,2,3) token [unfolded alternative_text(1)] by (intro "3.hyps"(3) b1(2)) (auto simp: apart_def)
    then show ?thesis using token m b1(1) by (subst strftime_loop.simps) (auto simp: alternative_text)
  next
    case alone
    have "ob_mem buf (Suc (Suc p)) = Some 0" using mem [of 2] "3.prems"(2) alone by simp
    then show ?thesis using alone m step [OF writes_composed(2)] by (subst strftime_loop.simps) (auto simp: alternative_text)
  next
    case alt
    define act where "act = (case normalize_alternative_modifier_token tok md of
        Some base_token \<Rightarrow> append_token base_token t | None \<Rightarrow> append_verbatim_alternative_modifier tok md)"
    define shown where "shown = (if alternative tok md then token_text coded_week md t z else [ch CHR ''%'', tok, md])"
    have md: "ob_mem buf (Suc (Suc p)) = Some md" "md \<noteq> 0"
      using mem [of 2] "3.prems"(2) alt by simp_all
    have "ob.writes m0 dst mx act shown"
      unfolding act_def shown_def alternative_text(2) [OF alt(2)]
      using writes_token writes_composed(3) "3.prems" by simp
    then obtain buf1 where b1: "act buf = Some buf1" "ob_holds m0 dst mx buf1 (xs @ shown)" using step by blast
    have "\<exists>buf'. strftime_loop (Suc (Suc (Suc p))) t buf1 = Some buf' \<and>
        ob_holds m0 dst mx buf' ((xs @ shown) @ format_text coded_week t z bs')"
      using "3.prems"(1,2,3) alt [unfolded alternative_text(1)] by (intro "3.hyps"(2) b1(2)) (auto simp: apart_def)
    then show ?thesis
      using alt m md b1(1) by (subst strftime_loop.simps) (auto simp: act_def shown_def numeral_3_eq_3 alternative_text)
  qed
qed

section \<open>ISO 8601 weeks\<close>

abbreviation (input) jan_1 :: "int \<Rightarrow> int" where
  "jan_1 y \<equiv> days_from_civil y 1 1"

lemma jan_1_step: "jan_1 (y + 1) = jan_1 y + 365 + (if leap y then 1 else 0)"
  using march_days_step [of y] by (simp add: days_jan_1)

lemma jan_1_mono: "y \<le> z \<Longrightarrow> jan_1 y \<le> jan_1 z"
proof -
  have "jan_1 y \<le> jan_1 (y + int k)" for k
  proof (induction k)
    case (Suc k)
    have "y + int (Suc k) = (y + int k) + 1" by simp
    then show ?case using jan_1_step [of "y + int k"] Suc by (simp only: split: if_splits) simp_all
  qed simp
  from this [of "nat (z - y)"] show "y \<le> z \<Longrightarrow> ?thesis" by simp
qed

lemma year_of_day: "fst (civil_from_days n) = y \<longleftrightarrow> jan_1 y \<le> n \<and> n < jan_1 (y + 1)"
proof -
  have bounds: "jan_1 (fst (civil_from_days n)) \<le> n \<and> n < jan_1 (fst (civil_from_days n) + 1)"
  proof -
    obtain y m d where c: "civil_from_days n = (y, m, d)" by (cases "civil_from_days n")
    have valid: "valid_civil (y, m, d)" and n: "days_from_civil y m d = n"
      using greg.valid_of_days [of n] greg.to_of_days [of n] c by simp_all
    have m: "1 \<le> m" "m \<le> 12" and d: "1 \<le> d" "d \<le> month_len y m" using valid by simp_all
    have "n < jan_1 (y + 1)"
      using month_cases [OF m] d march_days_step [of y]
      unfolding n [symmetric] days_jan_1 days_from_civil_eq [OF m]
      by (elim disjE) (auto simp: civil_year_def phase_def month_len_def split: if_splits)
    then show ?thesis using day_of_year_days(2) [OF valid] n c by simp
  qed
  show ?thesis
  proof
    assume y: "jan_1 y \<le> n \<and> n < jan_1 (y + 1)"
    let ?c = "fst (civil_from_days n)"
    have "\<not> y + 1 \<le> ?c" "\<not> ?c + 1 \<le> y"
      using y bounds jan_1_mono [of "y + 1" ?c] jan_1_mono [of "?c + 1" y] by linarith+
    then show "?c = y" by linarith
  qed (use bounds in auto)
qed

text \<open>
  The standard's rule: a week, Monday to Sunday, belongs to the year of its Thursday, and is
  numbered by the Thursdays of that year.
\<close>

definition week_thursday :: "int \<Rightarrow> int" where
  "week_thursday n = n - (n + 3) mod 7 + 3"

definition iso_week :: "int \<Rightarrow> int \<times> int" where
  "iso_week n = (let th = week_thursday n; y = fst (civil_from_days th) in (y, (th - jan_1 y) div 7 + 1))"

text \<open>
  The documented rule, for a broken-down time whose day of the year and weekday are valid; and
  whether that weekday is the day's.
\<close>

definition day_of :: "tm \<Rightarrow> int" where
  "day_of t = jan_1 (year_of t) + sint (tm_yday t)"

definition iso_week_of :: week_rule where
  "iso_week_of t = (if in_year t \<and> in_week t then Some (iso_week (day_of t)) else None)"

definition right_weekday :: "tm \<Rightarrow> bool" where
  "right_weekday t \<longleftrightarrow> sint (tm_wday t) = (day_of t + 4) mod 7"

text \<open>
  The arithmetic of the code's formula: day 0 is a Thursday, so the Thursday of the week of \<open>n\<close>
  is \<open>7 * k\<close>; January 1 is \<open>7 * j + r\<close>, \<open>l\<close> and \<open>l'\<close> are the leap days of the year and the one before.
\<close>

lemma residues: "0 \<le> r \<Longrightarrow> r < 7 \<Longrightarrow> r = 0 \<or> r = 1 \<or> r = 2 \<or> r = 3 \<or> r = 4 \<or> r = 5 \<or> r = (6 :: int)"
  by presburger

lemma week_arith:
  fixes n j k r l l' :: int
  assumes r: "0 \<le> r" "r < 7" and k: "7 * k \<le> n + 3" "n + 3 < 7 * k + 7"
    and n: "7 * j + r \<le> n" "n < 7 * j + r + 365 + l" and l: "l = 0 \<or> l = 1" "l' = 0 \<or> l' = 1"
  shows "k - j < 1 \<Longrightarrow> r \<noteq> 0 \<Longrightarrow> k = j \<and>
      (365 + l' - r) div 7 + 1 =
        (if (r - 361 - l') mod 7 = 4 \<or> (r - 361 - l') mod 7 = 3 \<and> l' = 1 then 53 else 52)"
    "1 \<le> k - j \<Longrightarrow> r \<noteq> 0 \<Longrightarrow> 7 * j + r \<le> 7 * k"
    "k - j > (if (r + 4) mod 7 = 4 \<or> (r + 4) mod 7 = 3 \<and> l = 1 then 53 else 52) \<Longrightarrow> r \<noteq> 0 \<Longrightarrow>
      7 * j + r + 365 + l \<le> 7 * k \<and> 7 * k - (7 * j + r + 365 + l) < 7"
    "k - j \<le> (if (r + 4) mod 7 = 4 \<or> (r + 4) mod 7 = 3 \<and> l = 1 then 53 else 52) \<Longrightarrow> r \<noteq> 0 \<Longrightarrow>
      7 * k < 7 * j + r + 365 + l"
    "r = 0 \<Longrightarrow> 7 * j \<le> 7 * k \<and> 7 * k < 7 * j + 365 + l"
proof -
  show "k - j < 1 \<Longrightarrow> r \<noteq> 0 \<Longrightarrow> k = j \<and> (365 + l' - r) div 7 + 1 =
        (if (r - 361 - l') mod 7 = 4 \<or> (r - 361 - l') mod 7 = 3 \<and> l' = 1 then 53 else 52)"
  proof -
    assume "k - j < 1" "r \<noteq> 0"
    have "(365 + l' - r) div 7 + 1 =
        (if (r - 361 - l') mod 7 = 4 \<or> (r - 361 - l') mod 7 = 3 \<and> l' = 1 then 53 else 52)"
      using residues [OF r] l(2) \<open>r \<noteq> 0\<close> by (elim disjE) simp_all
    moreover have "k = j" using \<open>k - j < 1\<close> k n r by linarith
    ultimately show ?thesis by blast
  qed
  show "1 \<le> k - j \<Longrightarrow> r \<noteq> 0 \<Longrightarrow> 7 * j + r \<le> 7 * k" using r by linarith
  show "k - j > (if (r + 4) mod 7 = 4 \<or> (r + 4) mod 7 = 3 \<and> l = 1 then 53 else 52) \<Longrightarrow> r \<noteq> 0 \<Longrightarrow>
      7 * j + r + 365 + l \<le> 7 * k \<and> 7 * k - (7 * j + r + 365 + l) < 7"
    using residues [OF r] l(1) k n by (elim disjE) auto
  show "k - j \<le> (if (r + 4) mod 7 = 4 \<or> (r + 4) mod 7 = 3 \<and> l = 1 then 53 else 52) \<Longrightarrow> r \<noteq> 0 \<Longrightarrow>
      7 * k < 7 * j + r + 365 + l"
  proof -
    assume le: "k - j \<le> (if (r + 4) mod 7 = 4 \<or> (r + 4) mod 7 = 3 \<and> l = 1 then 53 else 52)" and "r \<noteq> 0"
    then have "k - j \<le> 52 \<or> r = 6 \<and> l = 1 \<and> k - j \<le> 53"
      using residues [OF r] l(1) by (elim disjE) simp_all
    moreover have "1 \<le> r" using r \<open>r \<noteq> 0\<close> by linarith
    ultimately show ?thesis using l(1) by linarith
  qed
  show "7 * j \<le> 7 * k \<and> 7 * k < 7 * j + 365 + l" if "r = 0"
  proof -
    have "\<not> k < j" using k n that by linarith
    moreover have "\<not> 53 \<le> k - j" using k n that l(1) by linarith
    ultimately show ?thesis using l(1) by linarith
  qed
qed

lemma week_thursday_div: "n - (n + 3) mod 7 + 3 = 7 * ((n + 3) div (7 :: int))"
proof -
  have "7 * q + r = n + 3 \<Longrightarrow> n - r + 3 = 7 * q" for q r by linarith
  from this [OF mult_div_mod_eq] show ?thesis .
qed

lemma week_index:
  fixes n J T r q j :: int
  assumes "n - r + 3 = 7 * T" "J = 7 * j + q" "0 \<le> q" "q < 7"
  shows "(n - J + 10 - (r + 1)) div 7 = T - j"
proof (rule div_eqI)
  have "n - J + 10 - (r + 1) = 7 * (T - j) + (6 - q)" using assms(1,2) by (simp add: right_diff_distrib)
  then show "7 * (T - j) \<le> n - J + 10 - (r + 1)" "n - J + 10 - (r + 1) < 7 * (T - j) + 7"
    using assms(3,4) by linarith+
qed

lemma iso_weekday: "(if (n + 4) mod 7 = 0 then 7 else (n + 4) mod 7) = (n + 3) mod 7 + (1 :: int)"
proof -
  have "(n + 4) mod 7 = ((n + 3) mod 7 + 1) mod 7" unfolding mod_add_left_eq by (simp add: add.assoc)
  then show ?thesis using residues [of "(n + 3) mod 7"] by auto
qed

definition week_of_year :: "int \<Rightarrow> int \<Rightarrow> int \<times> int" where
  "week_of_year y k = (if k < 1 then (y - 1, iso_weeks_in_year (y - 1))
     else if k > iso_weeks_in_year y then (y + 1, 1) else (y, k))"

lemma iso_week_context_day:
  assumes "in_year t" "right_weekday t"
  defines "n \<equiv> day_of t" and "y \<equiv> year_of t"
  shows "jan_1 y \<le> n" "n < jan_1 (y + 1)"
    "iso_week_context (tm_year t) (tm_yday t) (tm_wday t) = Some (week_of_year y ((n + 3) div 7 - jan_1 y div 7))"
proof -
  have f: "sint (tm_yday t) = n - jan_1 y" "sint (tm_wday t) = (n + 4) mod 7"
    using assms(2) by (simp_all add: day_of_def n_def y_def right_weekday_def)
  have yd: "0 \<le> n - jan_1 y" "n - jan_1 y \<le> 364 + (if leap y then 1 else 0)"
    using assms(1) f(1) by (simp_all add: in_year_def y_def split: if_splits)
  then show b: "jan_1 y \<le> n" "n < jan_1 (y + 1)" using jan_1_step [of y] by simp_all
  have m: "0 \<le> (n + 3) mod 7" "(n + 3) mod 7 < 7" by simp_all
  have wk: "(n - jan_1 y + 10 - ((n + 3) mod 7 + 1)) sdiv 7 = (n + 3) div 7 - jan_1 y div 7"
  proof -
    have "0 \<le> n - jan_1 y + 10 - ((n + 3) mod 7 + 1)" using yd m by linarith
    moreover have "(n - jan_1 y + 10 - ((n + 3) mod 7 + 1)) div 7 = (n + 3) div 7 - jan_1 y div 7"
      by (rule week_index [OF week_thursday_div mult_div_mod_eq [symmetric]]) simp_all
    ultimately show ?thesis by (simp add: sdiv_nonneg)
  qed
  have ok: "is_valid_tm_yday_for_year y (tm_yday t)" "sint (tm_yday t) \<le> 365" "0 \<le> sint (tm_wday t)" "sint (tm_wday t) \<le> 6"
    using yd f m by (auto simp: is_valid_tm_yday_for_year_def max_yday_for_full_year_def is_leap_year_iff split: if_splits)
  have y: "full_year_from_tm_year (tm_year t) = y" by (simp add: full_year_from_tm_year_def y_def year_of_def)
  show "iso_week_context (tm_year t) (tm_yday t) (tm_wday t) = Some (week_of_year y ((n + 3) div 7 - jan_1 y div 7))"
    unfolding iso_week_context_def Let_def y week_of_year_def
    unfolding f iso_weekday wk using ok yd(1) by (simp add: f)
qed

lemma utc_days:
  assumes "utc_of s t"
  shows "in_year t" "right_weekday t" "in_week t" "day_of t = s div 86400"
proof -
  define n where "n = s div 86400"
  have f: "fst (civil_from_days n) = year_of t" "sint (tm_yday t) = n - jan_1 (year_of t)"
    "sint (tm_wday t) = (n + 4) mod 7"
    using assms by (simp_all add: utc_of_def Let_def n_def year_of_def)
  then have "jan_1 (year_of t) \<le> n" "n < jan_1 (year_of t + 1)" unfolding year_of_day by simp_all
  with f show "in_year t" "right_weekday t" "in_week t" "day_of t = s div 86400"
    using jan_1_step [of "year_of t"]
    by (simp_all add: in_year_def right_weekday_def in_week_def day_of_def n_def split: if_splits)
qed

lemma iso_week_by_year:
  assumes "jan_1 z \<le> week_thursday n" "week_thursday n < jan_1 (z + 1)"
  shows "iso_week n = (z, (week_thursday n - jan_1 z) div 7 + 1)"
  using assms year_of_day [of "week_thursday n" z] by (simp add: iso_week_def Let_def)

lemma iso_weekI:
  "week_thursday n = 7 * k \<Longrightarrow> jan_1 z \<le> 7 * k \<Longrightarrow> 7 * k < jan_1 (z + 1) \<Longrightarrow> (7 * k - jan_1 z) div 7 = w - 1 \<Longrightarrow>
   iso_week n = (z, w)"
  using iso_week_by_year [of z n] by simp

lemma week_of_year_correct:
  assumes b: "jan_1 y \<le> n" "n < jan_1 (y + 1)"
  shows "week_of_year y ((n + 3) div 7 - jan_1 y div 7) = iso_week n \<longleftrightarrow> jan_1 y mod 7 \<noteq> 0"
proof -
  define k j r l l' where "k = (n + 3) div 7" and "j = jan_1 y div 7" and "r = jan_1 y mod 7"
    and "l = (if leap y then 1 else 0 :: int)" and "l' = (if leap (y - 1) then 1 else 0 :: int)"
  have J: "jan_1 y = 7 * j + r" and r: "0 \<le> r" "r < 7" by (simp_all add: j_def r_def)
  have k: "7 * k \<le> n + 3" "n + 3 < 7 * k + 7" unfolding k_def by linarith+
  have l: "l = 0 \<or> l = 1" "l' = 0 \<or> l' = 1" by (simp_all add: l_def l'_def)
  have up: "jan_1 (y + 1) = 7 * j + r + 365 + l" using jan_1_step [of y] J by (simp add: l_def)
  have dn: "jan_1 (y - 1) = 7 * j + r - 365 - l'" using jan_1_step [of "y - 1"] J by (simp add: l'_def)
  have n: "7 * j + r \<le> n" "n < 7 * j + r + 365 + l" using b J up by simp_all
  have th: "week_thursday n = 7 * k" unfolding week_thursday_def k_def by (rule week_thursday_div)
  have w0: "iso_weeks_in_year y = (if (r + 4) mod 7 = 4 \<or> (r + 4) mod 7 = 3 \<and> l = 1 then 53 else 52)"
    using mod_mult_self4 [of 7 j "r + 4"] by (simp add: iso_weeks_in_year_def J is_leap_year_iff l_def Let_def add.assoc)
  have w1: "iso_weeks_in_year (y - 1) = (if (r - 361 - l') mod 7 = 4 \<or> (r - 361 - l') mod 7 = 3 \<and> l' = 1 then 53 else 52)"
  proof -
    have "(jan_1 (y - 1) + 4) mod 7 = (r - 361 - l') mod 7"
      using mod_mult_self4 [of 7 j "r - 361 - l'"] unfolding dn by (simp add: algebra_simps)
    then show ?thesis by (simp add: iso_weeks_in_year_def is_leap_year_iff l'_def Let_def)
  qed
  note arith = week_arith [OF r k n l]
  show ?thesis
  proof (cases "r = 0")
    case True
    have in_y: "7 * j \<le> 7 * k" "7 * k < 7 * j + 365 + l" using arith(5) [OF True] by simp_all
    have "7 * k - jan_1 y = 7 * (k - j)" using True J by simp
    then have d: "(7 * k - jan_1 y) div 7 = k - j" by simp
    have "jan_1 y \<le> week_thursday n" "week_thursday n < jan_1 (y + 1)"
      unfolding th using in_y True J up by simp_all
    then have "iso_week n = (y, k - j + 1)" using iso_week_by_year [of y n] unfolding th d by simp
    then have "week_of_year y (k - j) \<noteq> iso_week n" by (simp add: week_of_year_def)
    then show ?thesis using True by (simp add: k_def j_def r_def)
  next
    case False
    have "week_of_year y (k - j) = iso_week n"
    proof -
      consider "k - j < 1" | "1 \<le> k - j" "k - j > iso_weeks_in_year y" | "1 \<le> k - j" "k - j \<le> iso_weeks_in_year y"
        by linarith
      then show ?thesis
      proof cases
        case 1
        have kj: "k = j" and w: "(365 + l' - r) div 7 + 1 = iso_weeks_in_year (y - 1)"
          using arith(1) [OF 1 False] w1 by simp_all
        have "iso_week n = (y - 1, iso_weeks_in_year (y - 1))"
        proof (rule iso_weekI [OF th])
          show "jan_1 (y - 1) \<le> 7 * k" "7 * k < jan_1 (y - 1 + 1)" using l(2) r False unfolding dn kj diff_add_cancel J by linarith+
          have "7 * k - jan_1 (y - 1) = 365 + l' - r" unfolding dn kj by linarith
          then show "(7 * k - jan_1 (y - 1)) div 7 = iso_weeks_in_year (y - 1) - 1" using w by simp
        qed
        then show ?thesis using 1 by (simp add: week_of_year_def)
      next
        case 2
        note a = arith(3) [OF 2(2) [unfolded w0] False]
        have "iso_week n = (y + 1, 1)"
        proof (rule iso_weekI [OF th])
          show "jan_1 (y + 1) \<le> 7 * k" unfolding up using a by linarith
          have "jan_1 (y + 1) + 365 \<le> jan_1 (y + 1 + 1)" using jan_1_step [of "y + 1"] by simp
          then show "7 * k < jan_1 (y + 1 + 1)" using a unfolding up by linarith
          show "(7 * k - jan_1 (y + 1)) div 7 = 1 - 1"
            unfolding up by (rule div_eqI) (use a in simp_all)
        qed
        then show ?thesis using 2 by (simp add: week_of_year_def)
      next
        case 3
        note a = arith(2) [OF 3(1) False] arith(4) [OF 3(2) [unfolded w0] False]
        have "iso_week n = (y, k - j)"
        proof (rule iso_weekI [OF th])
          show "jan_1 y \<le> 7 * k" "7 * k < jan_1 (y + 1)" unfolding up unfolding J using a by linarith+
          have "7 * k - jan_1 y = 7 * (k - j - 1) + (7 - r)" unfolding J by simp
          moreover have "(7 * (k - j - 1) + (7 - r)) div 7 = k - j - 1"
            by (rule div_eqI) (use r False in linarith)+
          ultimately show "(7 * k - jan_1 y) div 7 = k - j - 1" by simp
        qed
        then show ?thesis using 3 by (simp add: week_of_year_def)
      qed
    qed
    then show ?thesis using False by (simp add: k_def j_def r_def)
  qed
qed

lemma iso_week_context_correct:
  assumes "in_year t" "right_weekday t"
  shows "iso_week_context (tm_year t) (tm_yday t) (tm_wday t) = Some (iso_week (day_of t)) \<longleftrightarrow>
    jan_1 (year_of t) mod 7 \<noteq> 0"
  using week_of_year_correct [OF iso_week_context_day(1,2) [OF assms]] iso_week_context_day(3) [OF assms] by simp

text \<open>Where the code's rule is the documented one.\<close>

definition week_as_documented :: "tm \<Rightarrow> bool" where
  "week_as_documented t \<longleftrightarrow> (in_year t \<and> in_week t \<longrightarrow> right_weekday t \<and> jan_1 (year_of t) mod 7 \<noteq> 0)"

lemma coded_week_documented: "week_as_documented t \<Longrightarrow> coded_week t = iso_week_of t"
proof (cases "in_year t \<and> in_week t")
  case True
  then show "week_as_documented t \<Longrightarrow> ?thesis"
    using iso_week_context_correct [of t] by (simp add: week_as_documented_def coded_week_def iso_week_of_def)
next
  case False
  then have "iso_week_context (tm_year t) (tm_yday t) (tm_wday t) = None"
    using valid_yday [of t] by (auto simp: iso_week_context_def Let_def in_week_def)
  then show ?thesis using False by (simp add: coded_week_def iso_week_of_def)
qed

lemma strftime_writes:
  assumes "format \<noteq> null" "time_ptr \<noteq> null" "mx = 0 \<or> s \<noteq> null" "tms w time_ptr = Some t"
    and "cstr (bytes w) format fmt" "apart format (length fmt + 1) s mx"
    and "zone_ok (bytes w) s mx t z" "mapped (bytes w) s mx"
  defines "bs \<equiv> format_text coded_week t z fmt"
  shows "strftime s mx format time_ptr w =
    Some (if length bs < mx then length bs else 0,
      w\<lparr>bytes := if mx = 0 then bytes w else store_bytes (bytes w) s (take (mx - 1) bs @ [0])\<rparr>)"
proof -
  obtain buf where "strftime_loop format t (ob_new (bytes w) s mx) = Some buf"
    "ob_holds (bytes w) s mx buf bs"
    using strftime_loop_writes [OF assms(7,5,6) ob_new_holds [OF assms(8)]] by (auto simp: bs_def)
  then show ?thesis using finish_holds [of "bytes w" s mx buf bs] assms(1-4)
    by (auto simp: strftime_def)
qed

section \<open>Properties\<close>

text \<open>
  C16. \<^verbatim>\<open>strftime\<close> with valid arguments always returns. It writes the text its format stands for,
  specifier by specifier, cut to the buffer and always terminated; it returns the length of the
  text if text and terminator fit, and zero otherwise; nothing outside the buffer changes. The text
  is the documented one, with the weeks of ISO 8601, unless the format shows \<^verbatim>\<open>%G\<close>, \<^verbatim>\<open>%g\<close> or \<^verbatim>\<open>%V\<close> of a time
  whose year starts on a Thursday (there the code's week is not the documented one, see C17) or
  whose valid weekday is not the weekday of its date; in every case it is the text with the week
  the code computes.
\<close>

theorem strftime_correct:
  assumes "format \<noteq> null" "time_ptr \<noteq> null" "mx = 0 \<or> s \<noteq> null" "tms w time_ptr = Some t"
    and "cstr (bytes w) format fmt" "apart format (length fmt + 1) s mx"
    and "zone_ok (bytes w) s mx t z" "mapped (bytes w) s mx"
  shows "\<exists>bs. strftime s mx format time_ptr w =
      Some (if length bs < mx then length bs else 0,
        w\<lparr>bytes := if mx = 0 then bytes w else store_bytes (bytes w) s (take (mx - 1) bs @ [0])\<rparr>) \<and>
    bs = format_text coded_week t z fmt \<and>
    (\<not> shows_week fmt \<or> week_as_documented t \<longrightarrow> bs = format_text iso_week_of t z fmt)"
  using strftime_writes [OF assms] format_text_week [of fmt coded_week t iso_week_of z] coded_week_documented by blast

theorem strftime_correct_witness:
  "strftime 32 3 16 64 \<lparr>bytes = [16 \<mapsto> 0x25, 17 \<mapsto> 0x48, 18 \<mapsto> 0, 32 \<mapsto> 7, 33 \<mapsto> 7, 34 \<mapsto> 7], ptrs = Map.empty,
      errno = 0, times = Map.empty, tms = [64 \<mapsto> unix_epoch_tm\<lparr>tm_hour := 23\<rparr>], long_pairs = Map.empty,
      gmtime_storage = 80\<rparr> =
   Some (2, \<lparr>bytes = [16 \<mapsto> 0x25, 17 \<mapsto> 0x48, 18 \<mapsto> 0, 32 \<mapsto> 0x32, 33 \<mapsto> 0x33, 34 \<mapsto> 0], ptrs = Map.empty,
      errno = 0, times = Map.empty, tms = [64 \<mapsto> unix_epoch_tm\<lparr>tm_hour := 23\<rparr>], long_pairs = Map.empty,
      gmtime_storage = 80\<rparr>)"
proof -
  let ?w = "\<lparr>bytes = [16 \<mapsto> 0x25, 17 \<mapsto> 0x48, 18 \<mapsto> 0, 32 \<mapsto> 7, 33 \<mapsto> 7, 34 \<mapsto> 7], ptrs = Map.empty,
      errno = 0, times = Map.empty, tms = [64 \<mapsto> unix_epoch_tm\<lparr>tm_hour := 23\<rparr>], long_pairs = Map.empty,
      gmtime_storage = 80\<rparr> :: tmachine"
  have shown: "\<not> shows_week [0x25, 0x48]"
    "format_text iso_week_of (unix_epoch_tm\<lparr>tm_hour := 23\<rparr>) [] [0x25, 0x48] = [0x32, 0x33]"
    by (simp_all add: week_token_def token_text_def two_def unix_epoch_tm_def fmt_zero_2 digit_byte_def)
  have "mapped (bytes ?w) 32 3" by (auto simp: mapped_def less_small)
  then obtain bs where "strftime 32 3 16 64 ?w =
      Some (if length bs < 3 then length bs else 0,
        ?w\<lparr>bytes := if (3 :: nat) = 0 then bytes ?w else store_bytes (bytes ?w) 32 (take (3 - 1) bs @ [0])\<rparr>)"
    "bs = [0x32, 0x33]"
    using strftime_correct [of 16 64 3 32 ?w "unix_epoch_tm\<lparr>tm_hour := 23\<rparr>" "[0x25, 0x48]" "[]"] shown
    by (auto simp: apart_def zone_ok_def unix_epoch_tm_def)
  moreover have "store_bytes (bytes ?w) 32 (take (3 - 1) [0x32, 0x33] @ [0]) =
      [16 \<mapsto> 0x25, 17 \<mapsto> 0x48, 18 \<mapsto> 0, 32 \<mapsto> 0x32, 33 \<mapsto> 0x33, 34 \<mapsto> 0]"
    by (simp add: fun_upd_twist)
  ultimately show ?thesis by simp
qed

text \<open>
  C17. The ISO 8601 week of \<^verbatim>\<open>%G\<close>, \<^verbatim>\<open>%g\<close> and \<^verbatim>\<open>%V\<close>, for the broken-down time of a UTC second: it is the
  standard's (the week's Thursday decides the year, and counts the weeks in it) for every day of a year,
  unless the year starts on a Thursday, and then it is wrong on every day of that year.
\<close>

theorem iso_week_context_correct_iff:
  assumes "utc_of s t"
  shows "iso_week_context (tm_year t) (tm_yday t) (tm_wday t) = Some (iso_week (s div 86400)) \<longleftrightarrow>
    days_from_civil (1900 + sint (tm_year t)) 1 1 mod 7 \<noteq> 0"
  using iso_week_context_correct [OF utc_days(1,2) [OF assms]] utc_days(4) [OF assms] by (simp add: year_of_def)

theorem iso_week_context_correct_iff_witness:
  "iso_week_context 69 364 3 = Some (iso_week (-1))"
proof -
  have "days_from_civil 1969 1 1 mod 7 \<noteq> 0" by (simp add: days_jan_1 march_days_def)
  then show ?thesis using iso_week_context_correct_iff [OF utc_minus_1(1)] by simp
qed

end
