(* ===== verification/Threads.thy ===== *)
theory Threads
  imports Prelude
begin

text \<open>
  What the components with shared state have in common: thread identities, the saturating and
  checked counters of the runtime, states reachable by a step relation, and counting the
  threads that are at a program point. A thread is a \<^verbatim>\<open>std::thread::ThreadId\<close>, a nonzero
  64-bit number.
\<close>

type_synonym tid = "64 word"

text \<open>\<^verbatim>\<open>*x -= 1\<close> on a \<^verbatim>\<open>usize\<close>: the underflow is \<open>None\<close>.\<close>

definition decrement :: "nat \<Rightarrow> nat option" where
  "decrement a = (if a = 0 then None else Some (a - 1))"

lemma saturating_add_less: "a < USIZE_MAX \<Longrightarrow> saturating_add a (Suc 0) = Suc a"
  by (simp add: saturating_add_def)

section \<open>Reachable states\<close>

inductive reachable :: "('s \<Rightarrow> bool) \<Rightarrow> ('s \<Rightarrow> 's \<Rightarrow> bool) \<Rightarrow> 's \<Rightarrow> bool" for init step where
  reachable_init: "init s \<Longrightarrow> reachable init step s"
| reachable_step: "reachable init step s \<Longrightarrow> step s s' \<Longrightarrow> reachable init step s'"

text \<open>An inductive invariant holds in every reachable state.\<close>

locale invariant_system =
  fixes init :: "'s \<Rightarrow> bool" and step :: "'s \<Rightarrow> 's \<Rightarrow> bool" and inv :: "'s \<Rightarrow> bool"
  assumes inv_init: "init s \<Longrightarrow> inv s"
    and inv_step: "inv s \<Longrightarrow> step s s' \<Longrightarrow> inv s'"
begin

lemma reachable_inv: "reachable init step s \<Longrightarrow> inv s"
  by (induction rule: reachable.induct) (blast intro: inv_init inv_step)+

end

section \<open>Sums over the threads\<close>

lemma sum_fun_upd:
  fixes g :: "'v \<Rightarrow> nat"
  shows "(\<Sum>x\<in>UNIV. g ((f(t := v)) x)) + g (f t) = (\<Sum>x\<in>UNIV. g (f (x :: 'a :: finite))) + g v"
proof -
  have "(\<Sum>x\<in>UNIV. g ((f(t := v)) x)) = g v + (\<Sum>x\<in>UNIV - {t}. g (f x))"
    by (subst sum.remove [of _ t]) (auto intro!: sum.cong)
  moreover have "(\<Sum>x\<in>UNIV. g (f x)) = g (f t) + (\<Sum>x\<in>UNIV - {t}. g (f x))"
    by (subst sum.remove [of _ t]) auto
  ultimately show ?thesis by simp
qed

definition count_threads :: "('p \<Rightarrow> bool) \<Rightarrow> (tid \<Rightarrow> 'p) \<Rightarrow> nat" where
  "count_threads P pcs = (\<Sum>t\<in>UNIV. of_bool (P (pcs t)))"

lemma count_threads_upd:
  "count_threads P (pcs(t := p)) + of_bool (P (pcs t)) = count_threads P pcs + of_bool (P p)"
  unfolding count_threads_def by (rule sum_fun_upd [of "\<lambda>p. of_bool (P p)"])

lemma count_threads_0: "count_threads P pcs = 0 \<longleftrightarrow> (\<forall>t. \<not> P (pcs t))"
  by (simp add: count_threads_def)

lemma count_threads_less:
  assumes "\<not> P (pcs 0)" "t \<noteq> 0" "\<not> P (pcs t)"
  shows "count_threads P pcs < USIZE_MAX"
proof -
  have "count_threads P pcs = (\<Sum>x\<in>{x. P (pcs x)}. 1)"
    unfolding count_threads_def by (simp add: sum.If_cases of_bool_def)
  also have "\<dots> = card {x. P (pcs x)}" by simp
  also have "\<dots> \<le> card (UNIV - {0, t})" using assms by (intro card_mono) auto
  also have "\<dots> = card (UNIV :: tid set) - 2" using assms by (subst card_Diff_subset) auto
  also have "\<dots> < USIZE_MAX" by (simp add: USIZE_MAX_def card_word)
  finally show ?thesis .
qed

end
