(* ===== verification/Rwlock.thy ===== *)
theory Rwlock
  imports Threads
begin

text \<open>
  The read-write locks of \<^verbatim>\<open>src/src/pthread.rs\<close>. A lock object is a key (its address) in a
  registry of reference-counted states; each state is guarded by a mutex of the runtime and has
  one condition variable. What a function does between taking that mutex and releasing it (by
  returning, by dropping the guard or by waiting) is one atomic step here, and the steps of the
  threads interleave freely. A lookup in the registry and the step on the state it found are two
  steps. An unlock that has to wake waiters drops the mutex first and notifies them in a step of
  its own; a destroy has three steps (mark the state, notify, remove the entry). A waiting thread
  goes on when it has been notified, or spuriously.
\<close>

section \<open>One critical section of each operation\<close>

record rwlock_state =
  reader_owners :: "tid \<rightharpoonup> nat"
  total_readers :: nat
  writer_owner :: "tid option"
  waiting_readers :: nat
  waiting_writers :: nat
  destroyed :: bool

definition rwlock_new :: rwlock_state where
  "rwlock_new = \<lparr>reader_owners = Map.empty, total_readers = 0, writer_owner = None,
     waiting_readers = 0, waiting_writers = 0, destroyed = False\<rparr>"

datatype outcome = Return c_int | Sleep

text \<open>
  One pass of the loop of \<^verbatim>\<open>rwlock_rdlock_internal\<close>: return, or wait on the condition variable
  as a registered waiter.
\<close>

definition rwlock_rdlock_pass :: "tid \<Rightarrow> bool \<Rightarrow> bool \<Rightarrow> rwlock_state \<Rightarrow> outcome \<times> rwlock_state" where
  "rwlock_rdlock_pass current try_only registered_waiter ls =
     (let unregister = (\<lambda>ls. if registered_waiter then ls\<lparr>waiting_readers := waiting_readers ls - 1\<rparr> else ls) in
      if destroyed ls then (Return EINVAL, unregister ls)
      else if writer_owner ls = None \<and> (waiting_writers ls = 0 \<or> reader_owners ls current \<noteq> None) then
        (let ls = unregister ls in
         case checked_add (case reader_owners ls current of None \<Rightarrow> 0 | Some depth \<Rightarrow> depth) 1 of
           None \<Rightarrow> (Return EAGAIN, ls)
         | Some next_reader_depth \<Rightarrow>
             (case checked_add (total_readers ls) 1 of
                None \<Rightarrow> (Return EAGAIN, ls)
              | Some next_total_readers \<Rightarrow>
                  (Return 0, ls\<lparr>reader_owners := (reader_owners ls)(current \<mapsto> next_reader_depth),
                     total_readers := next_total_readers\<rparr>)))
      else if writer_owner ls = Some current then
        (Return (if try_only then EBUSY else EDEADLK), unregister ls)
      else if try_only then (Return EBUSY, ls)
      else (Sleep, if registered_waiter then ls
                   else ls\<lparr>waiting_readers := saturating_add (waiting_readers ls) 1\<rparr>))"

definition rwlock_wrlock_pass :: "tid \<Rightarrow> bool \<Rightarrow> bool \<Rightarrow> rwlock_state \<Rightarrow> outcome \<times> rwlock_state" where
  "rwlock_wrlock_pass current try_only registered_waiter ls =
     (let unregister = (\<lambda>ls. if registered_waiter then ls\<lparr>waiting_writers := waiting_writers ls - 1\<rparr> else ls) in
      if destroyed ls then (Return EINVAL, unregister ls)
      else if writer_owner ls = Some current then
        (Return (if try_only then EBUSY else EDEADLK), unregister ls)
      else if writer_owner ls = None \<and> total_readers ls = 0 then
        (Return 0, (unregister ls)\<lparr>writer_owner := Some current\<rparr>)
      else if try_only then (Return EBUSY, ls)
      else (Sleep, if registered_waiter then ls
                   else ls\<lparr>waiting_writers := saturating_add (waiting_writers ls) 1\<rparr>))"

text \<open>
  Unlocking: the code, whether all waiters are notified, the new state; \<open>None\<close> is an arithmetic
  underflow.
\<close>

definition rwlock_unlock_internal :: "tid \<Rightarrow> rwlock_state \<Rightarrow> (c_int \<times> bool \<times> rwlock_state) option" where
  "rwlock_unlock_internal current ls =
     (if destroyed ls then Some (EINVAL, False, ls)
      else if writer_owner ls = Some current then Some (0, True, ls\<lparr>writer_owner := None\<rparr>)
      else
        (case reader_owners ls current of
           None \<Rightarrow> Some (EINVAL, False, ls)
         | Some reader_depth \<Rightarrow> do {
             reader_depth \<leftarrow> decrement reader_depth;
             let ls = ls\<lparr>reader_owners := (reader_owners ls)(current \<mapsto> reader_depth)\<rparr>;
             let remove_owner = (reader_depth = 0);
             total \<leftarrow> decrement (total_readers ls);
             let ls = ls\<lparr>total_readers := total\<rparr>;
             let ls = (if remove_owner then ls\<lparr>reader_owners := (reader_owners ls)(current := None)\<rparr> else ls);
             Some (0, total_readers ls = 0, ls) }))"

definition rwlock_mark_destroyed :: "rwlock_state \<Rightarrow> c_int \<times> bool \<times> rwlock_state" where
  "rwlock_mark_destroyed ls =
     (if destroyed ls then (EINVAL, False, ls)
      else if writer_owner ls \<noteq> None \<or> total_readers ls \<noteq> 0 \<or> waiting_readers ls \<noteq> 0 \<or> waiting_writers ls \<noteq> 0
      then (EBUSY, False, ls)
      else (0, True, ls\<lparr>destroyed := True\<rparr>))"

section \<open>The registry and the threads\<close>

text \<open>
  Where a thread is: outside, about to take the mutex of the state it looked up, asleep on the
  condition variable or awake again (registered as a waiter in both cases), about to unlock, to
  notify the waiters of a state it has unlocked, to mark a state destroyed, to notify after that,
  to remove the entry of the state.
\<close>

datatype rw_mode = Reader | Writer

datatype rw_pc = Idle
  | Enter rw_mode bool nat
  | Asleep rw_mode nat
  | Awake rw_mode nat
  | Unlocking nat
  | Notifying nat
  | Destroying addr nat
  | NotifyingDestroyed addr nat
  | Removing addr nat

record rw_system =
  registry :: "addr \<rightharpoonup> nat"
  arcs :: "nat \<rightharpoonup> rwlock_state"
  pcs :: "tid \<Rightarrow> rw_pc"

definition rw_start :: rw_system where
  "rw_start = \<lparr>registry = Map.empty, arcs = Map.empty, pcs = (\<lambda>_. Idle)\<rparr>"

definition rwlock_key :: "addr \<Rightarrow> c_int + addr" where
  "rwlock_key rwlock = (if rwlock = null then Inl EINVAL else Inr rwlock)"

definition rwlock_state_from_raw :: "addr \<Rightarrow> rw_system \<Rightarrow> c_int + nat" where
  "rwlock_state_from_raw rwlock s =
     (case rwlock_key rwlock of
        Inl e \<Rightarrow> Inl e
      | Inr key \<Rightarrow> (case registry s key of None \<Rightarrow> Inl EINVAL | Some a \<Rightarrow> Inr a))"

definition goto :: "tid \<Rightarrow> rw_pc \<Rightarrow> rw_system \<Rightarrow> rw_system" where
  "goto t p s = s\<lparr>pcs := (pcs s)(t := p)\<rparr>"

text \<open>
  The entry points, up to the end of their first critical section: they return a code, or go on
  (\<open>None\<close>) at the program point they leave. \<^verbatim>\<open>pthread_rwlock_init\<close> is given the identity of the
  state it allocates.
\<close>

definition pthread_rwlock_init :: "nat \<Rightarrow> addr \<Rightarrow> rw_system \<Rightarrow> c_int option \<times> rw_system" where
  "pthread_rwlock_init fresh rwlock s =
     (case rwlock_key rwlock of
        Inl _ \<Rightarrow> (Some EINVAL, s)
      | Inr key \<Rightarrow>
          (case registry s key of
             None \<Rightarrow> (Some 0, s\<lparr>registry := (registry s)(key \<mapsto> fresh), arcs := (arcs s)(fresh \<mapsto> rwlock_new)\<rparr>)
           | Some _ \<Rightarrow> (Some EBUSY, s)))"

definition pthread_rwlock_destroy :: "tid \<Rightarrow> addr \<Rightarrow> rw_system \<Rightarrow> c_int option \<times> rw_system" where
  "pthread_rwlock_destroy t rwlock s =
     (case rwlock_key rwlock of
        Inl _ \<Rightarrow> (Some EINVAL, s)
      | Inr key \<Rightarrow>
          (case rwlock_state_from_raw rwlock s of
             Inl _ \<Rightarrow> (Some EINVAL, s)
           | Inr a \<Rightarrow> (None, goto t (Destroying key a) s)))"

definition pthread_rwlock_rdlock :: "tid \<Rightarrow> addr \<Rightarrow> rw_system \<Rightarrow> c_int option \<times> rw_system" where
  "pthread_rwlock_rdlock t rwlock s =
     (case rwlock_state_from_raw rwlock s of
        Inl _ \<Rightarrow> (Some EINVAL, s)
      | Inr a \<Rightarrow> (None, goto t (Enter Reader False a) s))"

definition pthread_rwlock_tryrdlock :: "tid \<Rightarrow> addr \<Rightarrow> rw_system \<Rightarrow> c_int option \<times> rw_system" where
  "pthread_rwlock_tryrdlock t rwlock s =
     (case rwlock_state_from_raw rwlock s of
        Inl _ \<Rightarrow> (Some EINVAL, s)
      | Inr a \<Rightarrow> (None, goto t (Enter Reader True a) s))"

definition pthread_rwlock_wrlock :: "tid \<Rightarrow> addr \<Rightarrow> rw_system \<Rightarrow> c_int option \<times> rw_system" where
  "pthread_rwlock_wrlock t rwlock s =
     (case rwlock_state_from_raw rwlock s of
        Inl _ \<Rightarrow> (Some EINVAL, s)
      | Inr a \<Rightarrow> (None, goto t (Enter Writer False a) s))"

definition pthread_rwlock_trywrlock :: "tid \<Rightarrow> addr \<Rightarrow> rw_system \<Rightarrow> c_int option \<times> rw_system" where
  "pthread_rwlock_trywrlock t rwlock s =
     (case rwlock_state_from_raw rwlock s of
        Inl _ \<Rightarrow> (Some EINVAL, s)
      | Inr a \<Rightarrow> (None, goto t (Enter Writer True a) s))"

definition pthread_rwlock_unlock :: "tid \<Rightarrow> addr \<Rightarrow> rw_system \<Rightarrow> c_int option \<times> rw_system" where
  "pthread_rwlock_unlock t rwlock s =
     (case rwlock_state_from_raw rwlock s of
        Inl _ \<Rightarrow> (Some EINVAL, s)
      | Inr a \<Rightarrow> (None, goto t (Unlocking a) s))"

text \<open>The later critical sections. \<open>notify_all\<close> wakes every thread asleep on the state.\<close>

definition notify_all :: "nat \<Rightarrow> rw_system \<Rightarrow> rw_system" where
  "notify_all a s = s\<lparr>pcs := (\<lambda>t. case pcs s t of Asleep m b \<Rightarrow> if b = a then Awake m b else Asleep m b | p \<Rightarrow> p)\<rparr>"

definition rwlock_pass :: "rw_mode \<Rightarrow> tid \<Rightarrow> bool \<Rightarrow> bool \<Rightarrow> rwlock_state \<Rightarrow> outcome \<times> rwlock_state" where
  "rwlock_pass m = (case m of Reader \<Rightarrow> rwlock_rdlock_pass | Writer \<Rightarrow> rwlock_wrlock_pass)"

definition run_pass :: "tid \<Rightarrow> rw_mode \<Rightarrow> bool \<Rightarrow> bool \<Rightarrow> nat \<Rightarrow> rw_system \<Rightarrow> (c_int option \<times> rw_system) option" where
  "run_pass t m try_only registered a s = do {
     ls \<leftarrow> arcs s a;
     (case rwlock_pass m t try_only registered ls of
        (Return r, ls) \<Rightarrow> Some (Some r, goto t Idle (s\<lparr>arcs := (arcs s)(a \<mapsto> ls)\<rparr>))
      | (Sleep, ls) \<Rightarrow> Some (None, goto t (Asleep m a) (s\<lparr>arcs := (arcs s)(a \<mapsto> ls)\<rparr>))) }"

definition resume :: "tid \<Rightarrow> rw_system \<Rightarrow> (c_int option \<times> rw_system) option" where
  "resume t s =
     (case pcs s t of
        Enter m try_only a \<Rightarrow> run_pass t m try_only False a s
      | Awake m a \<Rightarrow> run_pass t m False True a s
      | Unlocking a \<Rightarrow> do {
          ls \<leftarrow> arcs s a;
          (r, notify, ls) \<leftarrow> rwlock_unlock_internal t ls;
          let s = s\<lparr>arcs := (arcs s)(a \<mapsto> ls)\<rparr>;
          Some (if notify then (None, goto t (Notifying a) s) else (Some r, goto t Idle s)) }
      | Notifying a \<Rightarrow> Some (Some 0, goto t Idle (notify_all a s))
      | Destroying key a \<Rightarrow> do {
          ls \<leftarrow> arcs s a;
          (case rwlock_mark_destroyed ls of
             (r, notify, ls) \<Rightarrow>
               (let s = s\<lparr>arcs := (arcs s)(a \<mapsto> ls)\<rparr>
                in Some (if notify then (None, goto t (NotifyingDestroyed key a) s) else (Some r, goto t Idle s)))) }
      | NotifyingDestroyed key a \<Rightarrow> Some (None, goto t (Removing key a) (notify_all a s))
      | Removing key a \<Rightarrow>
          Some (Some 0, goto t Idle (if registry s key = Some a then s\<lparr>registry := (registry s)(key := None)\<rparr> else s))
      | _ \<Rightarrow> None)"

datatype rw_call = Init addr nat | Destroy addr | Lock rw_mode bool addr | Unlock addr

definition rw_begin :: "tid \<Rightarrow> rw_call \<Rightarrow> rw_system \<Rightarrow> c_int option \<times> rw_system" where
  "rw_begin t c s =
     (case c of
        Init rwlock fresh \<Rightarrow> pthread_rwlock_init fresh rwlock s
      | Destroy rwlock \<Rightarrow> pthread_rwlock_destroy t rwlock s
      | Lock m try_only rwlock \<Rightarrow>
          (case m of
             Reader \<Rightarrow> (if try_only then pthread_rwlock_tryrdlock else pthread_rwlock_rdlock) t rwlock s
           | Writer \<Rightarrow> (if try_only then pthread_rwlock_trywrlock else pthread_rwlock_wrlock) t rwlock s)
      | Unlock rwlock \<Rightarrow> pthread_rwlock_unlock t rwlock s)"

text \<open>A step of the system: a call, the next critical section of a thread, a spurious wakeup.\<close>

inductive rw_step :: "rw_system \<Rightarrow> rw_system \<Rightarrow> bool" where
  rw_call: "t \<noteq> 0 \<Longrightarrow> pcs s t = Idle \<Longrightarrow> (\<forall>rwlock fresh. c = Init rwlock fresh \<longrightarrow> arcs s fresh = None) \<Longrightarrow>
     rw_begin t c s = (r, s') \<Longrightarrow> rw_step s s'"
| rw_resume: "resume t s = Some (r, s') \<Longrightarrow> rw_step s s'"
| rw_spurious: "pcs s t = Asleep m a \<Longrightarrow> rw_step s (goto t (Awake m a) s)"

inductive_cases rw_stepE: "rw_step s s'"

abbreviation rw_reachable :: "rw_system \<Rightarrow> bool" where
  "rw_reachable \<equiv> reachable (\<lambda>s. s = rw_start) rw_step"

section \<open>The invariant\<close>

definition waiting :: "rw_mode \<Rightarrow> rwlock_state \<Rightarrow> nat" where
  "waiting m ls = (case m of Reader \<Rightarrow> waiting_readers ls | Writer \<Rightarrow> waiting_writers ls)"

definition depth_of :: "nat option \<Rightarrow> nat" where
  "depth_of d = (case d of None \<Rightarrow> 0 | Some n \<Rightarrow> n)"

text \<open>
  A state is consistent: the read total is the sum of the readers' depths, which are positive, a
  writer excludes readers, and a destroyed lock is free and has no waiters.
\<close>

definition lock_ok :: "rwlock_state \<Rightarrow> bool" where
  "lock_ok ls \<longleftrightarrow> total_readers ls = (\<Sum>t\<in>UNIV. depth_of (reader_owners ls t)) \<and>
     (\<forall>t. reader_owners ls t \<noteq> Some 0) \<and>
     (writer_owner ls \<noteq> None \<longrightarrow> total_readers ls = 0) \<and>
     (destroyed ls \<longrightarrow> writer_owner ls = None \<and> total_readers ls = 0 \<and>
        waiting_readers ls = 0 \<and> waiting_writers ls = 0)"

text \<open>A waiter that looked at the state now would wait again.\<close>

definition blocked :: "rw_mode \<Rightarrow> tid \<Rightarrow> rwlock_state \<Rightarrow> bool" where
  "blocked m t ls \<longleftrightarrow> fst (rwlock_pass m t False True ls) = Sleep"

lemma blocked_Reader: "blocked Reader t ls \<longleftrightarrow> \<not> destroyed ls \<and> writer_owner ls \<noteq> Some t \<and>
    (writer_owner ls \<noteq> None \<or> waiting_writers ls \<noteq> 0 \<and> reader_owners ls t = None)"
  by (auto simp: blocked_def rwlock_pass_def rwlock_rdlock_pass_def Let_def split: option.splits)

lemma blocked_Writer: "blocked Writer t ls \<longleftrightarrow> \<not> destroyed ls \<and> writer_owner ls \<noteq> Some t \<and>
    (writer_owner ls \<noteq> None \<or> total_readers ls \<noteq> 0)"
  by (auto simp: blocked_def rwlock_pass_def rwlock_wrlock_pass_def Let_def)

lemmas blocked_simps = blocked_Reader blocked_Writer

lemma lock_ok_new: "lock_ok rwlock_new"
  by (simp add: lock_ok_def rwlock_new_def depth_of_def)

lemma readers_upd:
  "(\<Sum>x\<in>UNIV. depth_of ((f(t := v)) x)) + depth_of (f t) = (\<Sum>x\<in>UNIV. depth_of (f x)) + depth_of v"
  for f :: "tid \<Rightarrow> nat option"
  by (rule sum_fun_upd)

lemma depth_le_total: "lock_ok ls \<Longrightarrow> depth_of (reader_owners ls t) \<le> total_readers ls"
  using member_le_sum [of t UNIV "\<lambda>t. depth_of (reader_owners ls t)"] by (simp add: lock_ok_def)

lemma no_readers: "lock_ok ls \<Longrightarrow> total_readers ls = 0 \<longleftrightarrow> reader_owners ls = Map.empty"
proof -
  assume ok: "lock_ok ls"
  then have "depth_of (reader_owners ls t) = 0 \<longleftrightarrow> reader_owners ls t = None" for t
  proof (cases "reader_owners ls t")
    case (Some d)
    have "reader_owners ls t \<noteq> Some 0" using ok unfolding lock_ok_def by blast
    then show ?thesis using Some by (simp add: depth_of_def)
  qed (simp add: depth_of_def)
  then show ?thesis using ok by (auto simp: lock_ok_def fun_eq_iff)
qed

text \<open>What one pass does to a consistent state.\<close>

lemma lock_pass_ok:
  assumes "lock_ok ls" "rwlock_pass m t try_only reg ls = (out, ls')"
    and "if reg then 0 < waiting m ls \<and> \<not> try_only else waiting m ls < USIZE_MAX"
  shows "lock_ok ls'"
    "waiting m' ls' + of_bool (reg \<and> m' = m) = waiting m' ls + of_bool (out = Sleep \<and> m' = m)"
    "out = Sleep \<Longrightarrow> blocked m t ls'"
    "t' \<noteq> t \<Longrightarrow> blocked n t' ls \<Longrightarrow> blocked n t' ls'"
proof -
  note depth = readers_upd [of "reader_owners ls" t "Some (depth_of (reader_owners ls t) + 1)"]
  note defs = rwlock_pass_def rwlock_rdlock_pass_def rwlock_wrlock_pass_def Let_def
  show "lock_ok ls'"
    using assms depth unfolding defs checked_add_def lock_ok_def waiting_def
    by (cases m; cases reg) (auto simp: depth_of_def split: if_splits option.splits)
  show "waiting m' ls' + of_bool (reg \<and> m' = m) = waiting m' ls + of_bool (out = Sleep \<and> m' = m)"
    using assms unfolding defs waiting_def
    by (cases m; cases m'; cases reg) (auto simp: saturating_add_less split: if_splits option.splits)
  show "out = Sleep \<Longrightarrow> blocked m t ls'"
    using assms unfolding defs
    by (cases m) (auto simp: blocked_simps waiting_def saturating_add_less split: if_splits option.splits)
  show "t' \<noteq> t \<Longrightarrow> blocked n t' ls \<Longrightarrow> blocked n t' ls'"
    using assms(2) unfolding defs checked_add_def
    by (cases m; cases n) (auto simp: blocked_simps saturating_add_def USIZE_MAX_def split: if_splits option.splits)
qed

lemma unlock_ok:
  assumes "lock_ok ls"
  obtains r notify ls' where "rwlock_unlock_internal t ls = Some (r, notify, ls')"
    "lock_ok ls'" "\<And>m. waiting m ls' = waiting m ls"
    "\<And>m t'. \<not> notify \<Longrightarrow> t' \<noteq> t \<Longrightarrow> blocked m t' ls \<Longrightarrow> blocked m t' ls'"
proof (cases "destroyed ls \<or> writer_owner ls = Some t \<or> reader_owners ls t = None")
  case True
  define notify where "notify = (\<not> destroyed ls \<and> writer_owner ls = Some t)"
  define ls' where "ls' = (if notify then ls\<lparr>writer_owner := None\<rparr> else ls)"
  have "\<exists>r. rwlock_unlock_internal t ls = Some (r, notify, ls')"
    using True by (auto simp: rwlock_unlock_internal_def notify_def ls'_def)
  moreover have "lock_ok ls'" using assms by (auto simp: lock_ok_def ls'_def notify_def)
  moreover have "waiting m ls' = waiting m ls" for m by (cases m) (simp_all add: waiting_def ls'_def)
  ultimately show thesis using that by (auto simp: ls'_def)
next
  case False
  then obtain d where d: "reader_owners ls t = Some d" by auto
  then obtain k where k: "d = Suc k" using assms by (cases d) (auto simp: lock_ok_def)
  obtain n where n: "total_readers ls = Suc n"
    using depth_le_total [OF assms, of t] d k by (cases "total_readers ls") (auto simp: depth_of_def)
  define ls' where "ls' = ls\<lparr>reader_owners := (reader_owners ls)(t := if k = 0 then None else Some k), total_readers := n\<rparr>"
  have eq: "rwlock_unlock_internal t ls = Some (0, n = 0, ls')"
    using False d k n by (auto simp: rwlock_unlock_internal_def decrement_def ls'_def Let_def)
  have sum: "(\<Sum>x\<in>UNIV. depth_of (((reader_owners ls)(t := if k = 0 then None else Some k)) x)) + Suc k =
      (\<Sum>x\<in>UNIV. depth_of (reader_owners ls x)) + k"
    using readers_upd [of "reader_owners ls" t "if k = 0 then None else Some k"] d k
    by (cases "k = 0") (simp_all add: depth_of_def)
  have ok: "lock_ok ls'" using assms n sum False unfolding lock_ok_def ls'_def
    by (auto simp del: fun_upd_apply) (auto split: if_splits)
  show thesis
  proof (rule that [OF eq ok])
    show "waiting m ls' = waiting m ls" for m by (cases m) (simp_all add: waiting_def ls'_def)
    show "blocked m t' ls'" if "n \<noteq> 0" "t' \<noteq> t" "blocked m t' ls" for m t'
      using that by (cases m) (auto simp: blocked_simps ls'_def)
  qed
qed

lemma destroy_ok:
  assumes "lock_ok ls" "rwlock_mark_destroyed ls = (r, notify, ls')"
  shows "lock_ok ls'" "waiting m ls' = waiting m ls" "0 < waiting m ls \<Longrightarrow> ls' = ls"
  using assms by (auto simp: rwlock_mark_destroyed_def lock_ok_def waiting_def split: if_splits rw_mode.splits)

section \<open>The invariant of the system\<close>

definition registered :: "rw_mode \<Rightarrow> nat \<Rightarrow> rw_pc \<Rightarrow> bool" where
  "registered m a p \<longleftrightarrow> p = Asleep m a \<or> p = Awake m a"

fun pc_arc :: "rw_pc \<Rightarrow> nat option" where
  "pc_arc Idle = None"
| "pc_arc (Enter m try_only a) = Some a"
| "pc_arc (Asleep m a) = Some a"
| "pc_arc (Awake m a) = Some a"
| "pc_arc (Unlocking a) = Some a"
| "pc_arc (Notifying a) = Some a"
| "pc_arc (Destroying key a) = Some a"
| "pc_arc (NotifyingDestroyed key a) = Some a"
| "pc_arc (Removing key a) = Some a"

lemma registered_arc: "registered m a p \<Longrightarrow> pc_arc p = Some a"
  by (auto simp: registered_def)

definition rw_core :: "rw_system \<Rightarrow> bool" where
  "rw_core s \<longleftrightarrow> pcs s 0 = Idle \<and> ran (registry s) \<subseteq> dom (arcs s) \<and>
     (\<forall>t a. pc_arc (pcs s t) = Some a \<longrightarrow> a \<in> dom (arcs s)) \<and>
     (\<forall>a ls. arcs s a = Some ls \<longrightarrow>
        lock_ok ls \<and> (\<forall>m. waiting m ls = count_threads (registered m a) (pcs s)))"

text \<open>A sleeping thread would wait again, or the state it sleeps on is about to be notified.\<close>

definition rw_stable :: "rw_system \<Rightarrow> bool" where
  "rw_stable s \<longleftrightarrow> (\<forall>t m a ls. pcs s t = Asleep m a \<longrightarrow> arcs s a = Some ls \<longrightarrow>
     blocked m t ls \<or> (\<exists>u. pcs s u = Notifying a))"

lemma rw_stableD:
  "rw_stable s \<Longrightarrow> pcs s t = Asleep m a \<Longrightarrow> arcs s a = Some ls \<Longrightarrow> blocked m t ls \<or> (\<exists>u. pcs s u = Notifying a)"
  unfolding rw_stable_def by blast

definition rw_inv :: "rw_system \<Rightarrow> bool" where
  "rw_inv s \<longleftrightarrow> rw_core s \<and> rw_stable s"

lemma rw_core_cell:
  "rw_core s \<Longrightarrow> arcs s a = Some ls \<Longrightarrow> lock_ok ls \<and> waiting m ls = count_threads (registered m a) (pcs s)"
  by (simp add: rw_core_def)

lemma rw_core_arc: "rw_core s \<Longrightarrow> pc_arc (pcs s t) = Some a \<Longrightarrow> a \<in> dom (arcs s)"
  unfolding rw_core_def by blast

lemma rw_core_registry: "rw_core s \<Longrightarrow> ran f \<subseteq> dom (arcs s) \<Longrightarrow> rw_core (s\<lparr>registry := f\<rparr>)"
  by (simp add: rw_core_def)

lemma rw_core_ran: "rw_core s \<Longrightarrow> ran (registry s) \<subseteq> dom (arcs s)"
  by (simp add: rw_core_def)

lemma rw_goto_simps [simp]: "pcs (goto t p s) = (pcs s)(t := p)" "arcs (goto t p s) = arcs s" "registry (goto t p s) = registry s"
  by (simp_all add: goto_def)

lemma notify_all_simps [simp]: "arcs (notify_all a s) = arcs s" "registry (notify_all a s) = registry s"
  by (simp_all add: notify_all_def)

lemma notify_all_pc: "pcs (notify_all a s) t = (case pcs s t of Asleep m b \<Rightarrow> if b = a then Awake m b else Asleep m b | p \<Rightarrow> p)"
  by (simp add: notify_all_def)

lemma rw_core_notify: "rw_core s \<Longrightarrow> rw_core (notify_all a s)"
proof -
  have arc: "pc_arc (pcs (notify_all a s) t) = pc_arc (pcs s t)" for t
    by (simp add: notify_all_pc split: rw_pc.split)
  have reg: "registered m b (pcs (notify_all a s) t) \<longleftrightarrow> registered m b (pcs s t)" for m b t
    by (auto simp: notify_all_pc registered_def split: rw_pc.splits if_splits)
  have idle: "pcs s 0 = Idle \<Longrightarrow> pcs (notify_all a s) 0 = Idle" by (simp add: notify_all_pc)
  show "rw_core s \<Longrightarrow> ?thesis"
    unfolding rw_core_def count_threads_def arc reg notify_all_simps using idle by blast
qed

text \<open>A thread moves on, and the state it works on changes with it.\<close>

lemma rw_core_update:
  assumes "rw_core s" "t \<noteq> 0" "a \<in> dom (arcs s)" "lock_ok ls'"
    and "pc_arc (pcs s t) = None \<or> pc_arc (pcs s t) = Some a" "pc_arc p = None \<or> pc_arc p = Some a"
    and "\<And>m. waiting m ls' + of_bool (registered m a (pcs s t)) = count_threads (registered m a) (pcs s) + of_bool (registered m a p)"
  shows "rw_core (goto t p (s\<lparr>arcs := (arcs s)(a \<mapsto> ls')\<rparr>))"
proof -
  have count: "count_threads (registered m b) ((pcs s)(t := p)) + of_bool (registered m b (pcs s t)) =
      count_threads (registered m b) (pcs s) + of_bool (registered m b p)" for m b
    by (rule count_threads_upd)
  have other: "count_threads (registered m b) ((pcs s)(t := p)) = count_threads (registered m b) (pcs s)" if "b \<noteq> a" for m b
    using count [of m b] assms(5,6) that registered_arc [of m b] by (cases "registered m b p"; cases "registered m b (pcs s t)") auto
  have same: "waiting m ls' = count_threads (registered m a) ((pcs s)(t := p))" for m
    using count [of m a] assms(7) [of m] by linarith
  show ?thesis using assms(1-6) other same unfolding rw_core_def by (auto split: if_splits)
qed

lemma rw_core_goto:
  assumes "rw_core s" "t \<noteq> 0" "a \<in> dom (arcs s)"
    and "pc_arc (pcs s t) = None \<or> pc_arc (pcs s t) = Some a" "pc_arc p = None \<or> pc_arc p = Some a"
    and "\<And>m. registered m a (pcs s t) \<longleftrightarrow> registered m a p"
  shows "rw_core (goto t p s)"
proof -
  obtain ls where ls: "arcs s a = Some ls" using assms(3) by auto
  have "rw_core (goto t p (s\<lparr>arcs := (arcs s)(a \<mapsto> ls)\<rparr>))"
    using rw_core_cell [OF assms(1) ls] assms by (intro rw_core_update) auto
  then show ?thesis using ls by (simp add: map_upd_triv)
qed

lemma rw_inv_start: "rw_inv rw_start"
  by (simp add: rw_inv_def rw_core_def rw_stable_def rw_start_def)

lemma registered_pc [simp]: "\<not> registered m a Idle" "\<not> registered m a (Enter n try_only b)"
    "registered m a (Asleep n b) \<longleftrightarrow> m = n \<and> a = b" "registered m a (Awake n b) \<longleftrightarrow> m = n \<and> a = b"
    "\<not> registered m a (Unlocking b)" "\<not> registered m a (Notifying b)" "\<not> registered m a (Destroying key b)"
    "\<not> registered m a (NotifyingDestroyed key b)" "\<not> registered m a (Removing key b)"
  by (auto simp: registered_def)

lemma waiting_less: "rw_core s \<Longrightarrow> arcs s a = Some ls \<Longrightarrow> t \<noteq> 0 \<Longrightarrow> \<not> registered m a (pcs s t) \<Longrightarrow> waiting m ls < USIZE_MAX"
  using rw_core_cell [of s a ls m] count_threads_less [of "registered m a" "pcs s" t] by (simp add: rw_core_def)

lemma waiting_positive: "rw_core s \<Longrightarrow> arcs s a = Some ls \<Longrightarrow> registered m a (pcs s t) \<Longrightarrow> 0 < waiting m ls"
  using rw_core_cell [of s a ls m] count_threads_0 [of "registered m a" "pcs s"] by fastforce

lemma run_pass_inv:
  assumes inv: "rw_inv s" and t: "t \<noteq> 0" and a: "a \<in> dom (arcs s)" and run: "run_pass t m try_only reg a s = Some (r, s')"
    and pc: "pcs s t = (if reg then Awake m a else Enter m try_only a)" "reg \<Longrightarrow> \<not> try_only"
  shows "rw_inv s'"
proof -
  have core: "rw_core s" using inv by (simp add: rw_inv_def)
  obtain ls where ls: "arcs s a = Some ls" using a by auto
  obtain out ls' where pass: "rwlock_pass m t try_only reg ls = (out, ls')" by fastforce
  define p where "p = (case out of Return _ \<Rightarrow> Idle | Sleep \<Rightarrow> Asleep m a)"
  have s': "s' = goto t p (s\<lparr>arcs := (arcs s)(a \<mapsto> ls')\<rparr>)"
    using run ls pass by (auto simp: run_pass_def p_def split: outcome.splits)
  have reg: "registered n a (pcs s t) \<longleftrightarrow> reg \<and> n = m" for n using pc by simp
  have lock: "lock_ok ls" using rw_core_cell [OF core ls] by simp
  have pre: "if reg then 0 < waiting m ls \<and> \<not> try_only else waiting m ls < USIZE_MAX"
    using waiting_positive [OF core ls, of m t] waiting_less [OF core ls t, of m] reg pc(2) by auto
  note ok = lock_pass_ok [OF lock pass pre]
  have "rw_core s'" unfolding s'
  proof (rule rw_core_update [OF core t a ok(1)])
    show "waiting n ls' + of_bool (registered n a (pcs s t)) = count_threads (registered n a) (pcs s) + of_bool (registered n a p)" for n
      using ok(2) [of n] rw_core_cell [OF core ls, of n] unfolding reg
      by (cases out) (auto simp: p_def)
  qed (auto simp: pc p_def split: outcome.splits)
  moreover have "rw_stable s'" unfolding rw_stable_def
  proof (intro allI impI)
    fix u n b cell assume u: "pcs s' u = Asleep n b" "arcs s' b = Some cell"
    show "blocked n u cell \<or> (\<exists>v. pcs s' v = Notifying b)"
    proof (cases "u = t")
      case True
      then have "n = m" "b = a" "out = Sleep" using u(1) by (auto simp: s' p_def split: outcome.splits)
      then show ?thesis using ok(3) u(2) True by (simp add: s')
    next
      case False
      then have asleep: "pcs s u = Asleep n b" using u(1) by (simp add: s')
      have notifier: "pcs s' v = Notifying b" if "pcs s v = Notifying b" for v
        using that pc(1) by (cases "v = t") (auto simp: s' split: if_splits)
      obtain old where old: "arcs s b = Some old" using u(2) ls by (cases "b = a") (auto simp: s')
      have "blocked n u old \<or> (\<exists>v. pcs s v = Notifying b)" using inv asleep old by (simp add: rw_inv_def rw_stableD)
      moreover have "blocked n u old \<Longrightarrow> blocked n u cell" using u(2) ok(4) [OF False] old ls by (cases "b = a") (auto simp: s')
      ultimately show ?thesis using notifier by blast
    qed
  qed
  ultimately show ?thesis by (simp add: rw_inv_def)
qed

lemma unlock_inv:
  assumes inv: "rw_inv s" and pc: "pcs s t = Unlocking a"
  shows "\<exists>r s'. resume t s = Some (r, s') \<and> rw_inv s'"
proof -
  have core: "rw_core s" using inv by (simp add: rw_inv_def)
  have t: "t \<noteq> 0" using core pc by (cases "t = 0") (simp_all add: rw_core_def)
  have a: "a \<in> dom (arcs s)" using rw_core_arc [OF core, of t a] pc by simp
  then obtain ls where ls: "arcs s a = Some ls" by auto
  have lock: "lock_ok ls" using rw_core_cell [OF core ls] by simp
  obtain r notify ls' where ok: "rwlock_unlock_internal t ls = Some (r, notify, ls')" "lock_ok ls'"
    "\<And>m. waiting m ls' = waiting m ls" "\<And>m t'. \<not> notify \<Longrightarrow> t' \<noteq> t \<Longrightarrow> blocked m t' ls \<Longrightarrow> blocked m t' ls'"
    by (rule unlock_ok [OF lock]) blast
  define p where "p = (if notify then Notifying a else Idle)"
  define s1 where "s1 = goto t p (s\<lparr>arcs := (arcs s)(a \<mapsto> ls')\<rparr>)"
  have "\<exists>r. resume t s = Some (r, s1)"
    using pc ls ok(1) by (auto simp: resume_def s1_def p_def)
  moreover have "rw_core s1" unfolding s1_def
    by (rule rw_core_update [OF core t a ok(2)]) (use pc ok(3) rw_core_cell [OF core ls] in \<open>auto simp: p_def\<close>)
  moreover have "rw_stable s1"
  proof (cases notify)
    case True
    show ?thesis unfolding rw_stable_def
    proof (intro allI impI)
      fix u n b cell assume u: "pcs s1 u = Asleep n b" "arcs s1 b = Some cell"
      then have asleep: "pcs s u = Asleep n b" using True by (auto simp: s1_def p_def split: if_splits)
      show "blocked n u cell \<or> (\<exists>v. pcs s1 v = Notifying b)"
      proof (cases "b = a")
        case True
        then have "pcs s1 t = Notifying b" using \<open>notify\<close> by (simp add: s1_def p_def)
        then show ?thesis by blast
      next
        case False
        then have "arcs s b = Some cell" using u(2) by (simp add: s1_def)
        moreover have "pcs s1 v = Notifying b" if "pcs s v = Notifying b" for v
          using that pc by (cases "v = t") (simp_all add: s1_def)
        ultimately show ?thesis using inv asleep rw_stableD [of s u n b cell] by (auto simp: rw_inv_def)
      qed
    qed
  next
    case False
    show ?thesis unfolding rw_stable_def
    proof (intro allI impI)
      fix u n b cell assume u: "pcs s1 u = Asleep n b" "arcs s1 b = Some cell"
      then have ut: "u \<noteq> t" and asleep: "pcs s u = Asleep n b" using False by (auto simp: s1_def p_def split: if_splits)
      obtain old where old: "arcs s b = Some old" using u(2) ls by (cases "b = a") (auto simp: s1_def)
      have "blocked n u old \<or> (\<exists>v. pcs s v = Notifying b)" using inv asleep old by (simp add: rw_inv_def rw_stableD)
      moreover have "blocked n u old \<Longrightarrow> blocked n u cell" using u(2) ok(4) [OF False ut] old ls by (cases "b = a") (auto simp: s1_def)
      moreover have "pcs s1 v = Notifying b" if "pcs s v = Notifying b" for v
        using that pc by (cases "v = t") (simp_all add: s1_def)
      ultimately show "blocked n u cell \<or> (\<exists>v. pcs s1 v = Notifying b)" by blast
    qed
  qed
  ultimately show ?thesis by (auto simp: rw_inv_def)
qed

lemma notify_inv:
  assumes inv: "rw_inv s" and t: "t \<noteq> 0" and pc: "pc_arc (pcs s t) = Some a" "\<And>m. \<not> registered m a (pcs s t)"
    "\<And>b. pcs s t = Notifying b \<Longrightarrow> b = a" and p: "pc_arc p \<in> {None, Some a}" "\<And>m. \<not> registered m a p"
  shows "rw_inv (goto t p (notify_all a s))"
proof -
  have core: "rw_core (notify_all a s)" using inv rw_core_notify by (simp add: rw_inv_def)
  have same: "pcs (notify_all a s) t = pcs s t" using pc(2) by (cases "pcs s t") (auto simp: notify_all_pc)
  have "a \<in> dom (arcs s)" using rw_core_arc inv pc(1) by (simp add: rw_inv_def)
  then have "rw_core (goto t p (notify_all a s))"
    using pc p same by (intro rw_core_goto [OF core t, of a]) auto
  moreover have "rw_stable (goto t p (notify_all a s))"
    unfolding rw_stable_def
  proof (intro allI impI)
    fix u n b cell
    assume u: "pcs (goto t p (notify_all a s)) u = Asleep n b" and cell: "arcs (goto t p (notify_all a s)) b = Some cell"
    have "u \<noteq> t" using u p by (auto simp: registered_def)
    then have asleep: "pcs s u = Asleep n b" and b: "b \<noteq> a" using u by (auto simp: notify_all_pc split: rw_pc.splits if_splits)
    have keep: "pcs (goto t p (notify_all a s)) v = Notifying b" if "pcs s v = Notifying b" for v
      using that pc(3) b by (cases "v = t") (auto simp: notify_all_pc)
    show "blocked n u cell \<or> (\<exists>v. pcs (goto t p (notify_all a s)) v = Notifying b)"
      using inv asleep cell keep unfolding rw_inv_def rw_stable_def by fastforce
  qed
  ultimately show ?thesis by (simp add: rw_inv_def)
qed

lemma destroy_inv:
  assumes inv: "rw_inv s" and pc: "pcs s t = Destroying key a"
  shows "\<exists>r s'. resume t s = Some (r, s') \<and> rw_inv s'"
proof -
  have core: "rw_core s" using inv by (simp add: rw_inv_def)
  have t: "t \<noteq> 0" using core pc by (cases "t = 0") (simp_all add: rw_core_def)
  have a: "a \<in> dom (arcs s)" using rw_core_arc [OF core, of t a] pc by simp
  then obtain ls where ls: "arcs s a = Some ls" by auto
  have lock: "lock_ok ls" using rw_core_cell [OF core ls] by simp
  obtain r notify ls' where eq: "rwlock_mark_destroyed ls = (r, notify, ls')" by (cases "rwlock_mark_destroyed ls")
  note ok = destroy_ok [OF lock eq]
  define p where "p = (if notify then NotifyingDestroyed key a else Idle)"
  define s1 where "s1 = goto t p (s\<lparr>arcs := (arcs s)(a \<mapsto> ls')\<rparr>)"
  have "\<exists>r. resume t s = Some (r, s1)"
    using pc ls eq by (auto simp: resume_def Let_def p_def s1_def)
  moreover have "rw_core s1" unfolding s1_def
    by (rule rw_core_update [OF core t a ok(1)]) (use pc ok(2) rw_core_cell [OF core ls] in \<open>auto simp: p_def\<close>)
  moreover have "rw_stable s1"
  proof -
    have same: "ls' = ls" if "pcs s u = Asleep m a" for u m
      using ok(3) waiting_positive [OF core ls, of m u] that by simp
    show ?thesis unfolding rw_stable_def
    proof (intro allI impI)
      fix u n b cell assume u: "pcs s1 u = Asleep n b" "arcs s1 b = Some cell"
      then have asleep: "pcs s u = Asleep n b" by (auto simp: s1_def p_def split: if_splits)
      then have "arcs s b = Some cell" using u(2) same ls by (cases "b = a") (auto simp: s1_def)
      moreover have "pcs s1 v = Notifying b" if "pcs s v = Notifying b" for v
        using that pc by (cases "v = t") (simp_all add: s1_def)
      ultimately show "blocked n u cell \<or> (\<exists>v. pcs s1 v = Notifying b)"
        using inv asleep unfolding rw_inv_def rw_stable_def by blast
    qed
  qed
  ultimately show ?thesis by (auto simp: rw_inv_def)
qed

text \<open>A step of a thread that neither notifies nor changes a state.\<close>

lemma rw_stable_goto:
  assumes "rw_stable s" "\<And>b. pcs s t \<noteq> Notifying b" "\<And>m b. p \<noteq> Asleep m b"
  shows "rw_stable (goto t p s)"
  unfolding rw_stable_def
proof (intro allI impI)
  fix u n b cell assume u: "pcs (goto t p s) u = Asleep n b" "arcs (goto t p s) b = Some cell"
  then have "pcs s u = Asleep n b" using assms(3) by (auto split: if_splits)
  moreover have "pcs (goto t p s) v = Notifying b" if "pcs s v = Notifying b" for v
    using that assms(2) by (cases "v = t") simp_all
  ultimately show "blocked n u cell \<or> (\<exists>v. pcs (goto t p s) v = Notifying b)"
    using assms(1) u(2) unfolding rw_stable_def by fastforce
qed

text \<open>Every thread inside an operation, and not asleep, can go on: no underflow, no dangling state.\<close>

lemma resume_inv:
  assumes inv: "rw_inv s" and pc: "pcs s t \<noteq> Idle" "\<And>m a. pcs s t \<noteq> Asleep m a"
  shows "\<exists>r s'. resume t s = Some (r, s') \<and> rw_inv s'"
proof -
  have core: "rw_core s" using inv by (simp add: rw_inv_def)
  have t: "t \<noteq> 0" using core pc by (cases "t = 0") (simp_all add: rw_core_def)
  note arc = rw_core_arc [OF core, of t]
  have run: "\<exists>r s'. run_pass t m try_only reg a s = Some (r, s')" if "a \<in> dom (arcs s)" for m try_only reg a
    using that by (auto simp: run_pass_def split: prod.split outcome.split)
  show ?thesis
  proof (cases "pcs s t")
    case (Enter m try_only a)
    then show ?thesis using run [of a m try_only False] run_pass_inv [OF inv t] arc by (fastforce simp: resume_def)
  next
    case (Awake m a)
    then show ?thesis using run [of a m False True] run_pass_inv [OF inv t, of a m False True] arc by (fastforce simp: resume_def)
  next
    case (Removing key a)
    define f where "f = (if registry s key = Some a then (registry s)(key := None) else registry s)"
    have "rw_core (goto t Idle s)" using Removing arc by (intro rw_core_goto [OF core t, of a]) auto
    moreover have "ran f \<subseteq> dom (arcs s)" using rw_core_ran [OF core] by (auto simp: f_def ran_def split: if_splits)
    ultimately have "rw_core ((goto t Idle s)\<lparr>registry := f\<rparr>)" by (intro rw_core_registry) simp_all
    moreover have "rw_stable ((goto t Idle s)\<lparr>registry := f\<rparr>)"
      using inv Removing rw_stable_goto [of s t Idle] by (simp add: rw_inv_def) (simp add: rw_stable_def)
    moreover have "resume t s = Some (Some 0, (goto t Idle s)\<lparr>registry := f\<rparr>)"
      using Removing by (simp add: resume_def f_def goto_def)
    ultimately show ?thesis by (simp add: rw_inv_def)
  next
    case (Notifying a)
    have "rw_inv (goto t Idle (notify_all a s))" by (rule notify_inv [OF inv t]) (simp_all add: Notifying)
    then show ?thesis using Notifying by (simp add: resume_def)
  next
    case (NotifyingDestroyed key a)
    have "rw_inv (goto t (Removing key a) (notify_all a s))" by (rule notify_inv [OF inv t]) (simp_all add: NotifyingDestroyed)
    then show ?thesis using NotifyingDestroyed by (simp add: resume_def)
  qed (use pc unlock_inv [OF inv] destroy_inv [OF inv] in auto)
qed

lemma begin_inv:
  assumes inv: "rw_inv s" and t: "t \<noteq> 0" "pcs s t = Idle" and c: "\<And>rwlock fresh. c = Init rwlock fresh \<Longrightarrow> arcs s fresh = None"
    and eq: "rw_begin t c s = (r, s')"
  shows "rw_inv s'"
proof -
  have core: "rw_core s" using inv by (simp add: rw_inv_def)
  have go: "rw_inv (goto t p s)" if "registry s key = Some a" "p \<in> {Enter m try_only a, Unlocking a, Destroying key a}" for key a p m try_only
  proof -
    have "rw_core (goto t p s)"
      using that t rw_core_ran [OF core] by (intro rw_core_goto [OF core t(1), of a]) (auto intro: ranI)
    moreover have "rw_stable (goto t p s)" using inv t(2) that(2) by (intro rw_stable_goto) (auto simp: rw_inv_def)
    ultimately show ?thesis by (simp add: rw_inv_def)
  qed
  have new: "rw_inv (s\<lparr>registry := (registry s)(key \<mapsto> a), arcs := (arcs s)(a \<mapsto> rwlock_new)\<rparr>)" if "arcs s a = None" for key a
  proof -
    have none: "pc_arc (pcs s u) \<noteq> Some a" for u using rw_core_arc [OF core, of u a] that by auto
    then have "count_threads (registered m a) (pcs s) = 0" for m
      using registered_arc [of m a] by (auto simp: count_threads_0)
    moreover have "waiting m rwlock_new = 0" for m by (cases m) (simp_all add: waiting_def rwlock_new_def)
    moreover have "ran ((registry s)(key \<mapsto> a)) \<subseteq> insert a (dom (arcs s))"
      using rw_core_ran [OF core] by (auto simp: ran_def)
    ultimately have "rw_core (s\<lparr>registry := (registry s)(key \<mapsto> a), arcs := (arcs s)(a \<mapsto> rwlock_new)\<rparr>)"
      using core by (simp add: rw_core_def lock_ok_new)
    moreover have "rw_stable (s\<lparr>registry := (registry s)(key \<mapsto> a), arcs := (arcs s)(a \<mapsto> rwlock_new)\<rparr>)"
    proof -
      have "pcs s u \<noteq> Asleep m a" for u m using none [of u] by auto
      then show ?thesis using inv by (auto simp: rw_inv_def rw_stable_def)
    qed
    ultimately show ?thesis by (simp add: rw_inv_def)
  qed
  show ?thesis
  proof (cases c)
    case (Init rwlock fresh)
    then show ?thesis using eq inv new [OF c [OF Init]]
      by (auto simp: rw_begin_def pthread_rwlock_init_def rwlock_key_def split: if_splits option.splits)
  qed (use eq inv go in \<open>auto simp: rw_begin_def pthread_rwlock_destroy_def pthread_rwlock_rdlock_def
      pthread_rwlock_tryrdlock_def pthread_rwlock_wrlock_def pthread_rwlock_trywrlock_def
      pthread_rwlock_unlock_def rwlock_state_from_raw_def rwlock_key_def
      split: if_splits option.splits rw_mode.splits\<close>)
qed

lemma spurious_inv: "rw_inv s \<Longrightarrow> pcs s t = Asleep m a \<Longrightarrow> rw_inv (goto t (Awake m a) s)"
proof -
  assume inv: "rw_inv s" and pc: "pcs s t = Asleep m a"
  have core: "rw_core s" using inv by (simp add: rw_inv_def)
  have t: "t \<noteq> 0" using core pc by (cases "t = 0") (simp_all add: rw_core_def)
  have "rw_core (goto t (Awake m a) s)"
    using rw_core_arc [OF core, of t a] pc by (intro rw_core_goto [OF core t, of a]) auto
  then show ?thesis using inv pc rw_stable_goto [of s t "Awake m a"] by (simp add: rw_inv_def)
qed

interpretation rw: invariant_system "\<lambda>s. s = rw_start" rw_step rw_inv
proof unfold_locales
  show "s = rw_start \<Longrightarrow> rw_inv s" for s by (simp add: rw_inv_start)
  fix s s' assume inv: "rw_inv s" and step: "rw_step s s'"
  from step show "rw_inv s'"
  proof (cases rule: rw_step.cases)
    case (rw_call t c r)
    then show ?thesis using begin_inv [OF inv, of t c r s'] by blast
  next
    case (rw_resume t r)
    then show ?thesis using resume_inv [OF inv, of t] by (cases "pcs s t") (auto simp: resume_def)
  next
    case (rw_spurious t m a)
    then show ?thesis using spurious_inv [OF inv] by simp
  qed
qed

text \<open>
  Somebody waits for a free lock: some waiter would not wait again, and acquires the lock when it is
  awake.
\<close>

lemma free_lock_waiter:
  assumes "rw_inv s" "arcs s a = Some ls" "writer_owner ls = None" "total_readers ls = 0"
    and "0 < waiting_readers ls + waiting_writers ls"
  obtains m t where "registered m a (pcs s t)" "\<not> blocked m t ls"
    "\<And>s1. arcs s1 a = Some ls \<Longrightarrow> pcs s1 t = Awake m a \<Longrightarrow> \<exists>s'. resume t s1 = Some (Some 0, s')"
proof -
  have core: "rw_core s" using assms(1) by (simp add: rw_inv_def)
  have cell: "lock_ok ls" "waiting m ls = count_threads (registered m a) (pcs s)" for m
    using rw_core_cell [OF core assms(2), of m] by simp_all
  have none: "reader_owners ls = Map.empty" using no_readers [OF cell(1)] assms(4) by simp
  have live: "\<not> destroyed ls" using cell(1) assms(5) by (auto simp: lock_ok_def)
  define m where "m = (if waiting_writers ls = 0 then Reader else Writer)"
  have "0 < waiting m ls" using assms(5) by (cases "waiting_writers ls = 0") (simp_all add: m_def waiting_def)
  then obtain t where t: "registered m a (pcs s t)"
    using cell(2) [of m] count_threads_0 [of "registered m a" "pcs s"] by auto
  have "fst (rwlock_pass m t False True ls) = Return 0"
    using assms(3,4) live none
    by (simp add: m_def rwlock_pass_def rwlock_rdlock_pass_def rwlock_wrlock_pass_def checked_add_def USIZE_MAX_def Let_def)
  then have "\<exists>s'. resume t s1 = Some (Some 0, s')" if "arcs s1 a = Some ls" "pcs s1 t = Awake m a" for s1
    using that by (cases "rwlock_pass m t False True ls") (simp add: resume_def run_pass_def)
  moreover have "\<not> blocked m t ls" using assms(3,4) by (simp add: m_def blocked_simps)
  ultimately show thesis using that t by blast
qed

text \<open>A schedule: who makes a call, or goes on.\<close>

primrec run_schedule :: "(tid \<times> rw_call option) list \<Rightarrow> rw_system \<Rightarrow> rw_system option" where
  "run_schedule [] s = Some s"
| "run_schedule (e # es) s =
     (case e of
        (t, Some c) \<Rightarrow>
          if t \<noteq> 0 \<and> pcs s t = Idle \<and> (case c of Init _ fresh \<Rightarrow> arcs s fresh = None | _ \<Rightarrow> True)
          then run_schedule es (snd (rw_begin t c s)) else None
      | (t, None) \<Rightarrow> do { (r, s) \<leftarrow> resume t s; run_schedule es s })"

lemma run_schedule_reachable: "run_schedule es s = Some s' \<Longrightarrow> rw_reachable s \<Longrightarrow> rw_reachable s'"
proof (induction es arbitrary: s)
  case (Cons e es)
  show ?case
  proof (cases "snd e")
    case None
    then obtain r s1 where "resume (fst e) s = Some (r, s1)" "run_schedule es s1 = Some s'"
      using Cons.prems(1) by (cases e) (auto split: bind_splits)
    then show ?thesis using Cons.IH [OF _ reachable_step [OF Cons.prems(2) rw_resume]] by simp
  next
    case (Some c)
    obtain r s1 where b: "rw_begin (fst e) c s = (r, s1)" by fastforce
    have "rw_step s s1"
      by (rule rw_call [of "fst e" s c r]) (use Cons.prems(1) Some b in \<open>cases e; auto split: if_splits\<close>)+
    moreover have "run_schedule es s1 = Some s'" using Cons.prems(1) Some b by (cases e) (auto split: if_splits)
    ultimately show ?thesis using Cons.IH [OF _ reachable_step [OF Cons.prems(2)]] by simp
  qed
qed simp

text \<open>A reader waits for a writer, and the writer has unlocked, but not yet notified.\<close>

definition handover :: "(tid \<times> rw_call option) list" where
  "handover = [(1, Some (Init 8 0)), (1, Some (Lock Writer False 8)), (1, None),
     (2, Some (Lock Reader False 8)), (2, None), (1, Some (Unlock 8)), (1, None)]"

lemmas rw_eval = rw_begin_def resume_def run_pass_def rwlock_pass_def rwlock_rdlock_pass_def
  rwlock_wrlock_pass_def rwlock_unlock_internal_def pthread_rwlock_init_def pthread_rwlock_rdlock_def
  pthread_rwlock_wrlock_def pthread_rwlock_unlock_def rwlock_state_from_raw_def rwlock_key_def rwlock_new_def
  notify_all_def goto_def Let_def saturating_add_def checked_add_def USIZE_MAX_def rw_start_def

lemma handover_state: "\<exists>s ls. run_schedule handover rw_start = Some s \<and> arcs s 0 = Some ls \<and> pcs s 1 = Notifying 0 \<and> pcs s 2 = Asleep Reader 0 \<and>
   writer_owner ls = None \<and> total_readers ls = 0 \<and> waiting_readers ls = 1 \<and> waiting_writers ls = 0"
  by (simp add: handover_def rw_eval)

lemma handover_reachable: "run_schedule handover rw_start = Some s \<Longrightarrow> rw_reachable s"
  by (rule run_schedule_reachable) (auto intro: reachable_init)

section \<open>Properties\<close>

text \<open>
  C18. Whatever the threads call and however their steps interleave: a lock held by a writer has no
  reader, the read total is the sum of the readers' (positive) recursion depths, the waiter
  counts are the numbers of the threads that wait, a destroyed lock is free and nobody waits
  for it, and a thread inside an operation, unless it sleeps, can go on (no counter underflows,
  no state is missing).
\<close>

theorem rwlock_safety:
  assumes "rw_reachable s"
  shows "(case arcs s a of None \<Rightarrow> True | Some ls \<Rightarrow>
      (if writer_owner ls = None then total_readers ls = (\<Sum>t\<in>UNIV. case reader_owners ls t of None \<Rightarrow> 0 | Some n \<Rightarrow> n)
       else reader_owners ls = Map.empty \<and> total_readers ls = 0) \<and>
      (\<forall>t. reader_owners ls t \<noteq> Some 0) \<and>
      waiting_readers ls = count_threads (\<lambda>p. p = Asleep Reader a \<or> p = Awake Reader a) (pcs s) \<and>
      waiting_writers ls = count_threads (\<lambda>p. p = Asleep Writer a \<or> p = Awake Writer a) (pcs s) \<and>
      (if destroyed ls then writer_owner ls = None \<and> total_readers ls = 0 \<and> waiting_readers ls = 0 \<and> waiting_writers ls = 0
       else True)) \<and>
    (case pcs s t of Idle \<Rightarrow> True | Asleep m a \<Rightarrow> True | _ \<Rightarrow> resume t s \<noteq> None)"
proof
  have inv: "rw_inv s" using rw.reachable_inv [OF assms] .
  then have core: "rw_core s" by (simp add: rw_inv_def)
  show "case pcs s t of Idle \<Rightarrow> True | Asleep m a \<Rightarrow> True | _ \<Rightarrow> resume t s \<noteq> None"
    using resume_inv [OF inv, of t] by (cases "pcs s t") auto
  have reg: "registered m a = (\<lambda>p. p = Asleep m a \<or> p = Awake m a)" for m by (auto simp: registered_def)
  show "case arcs s a of None \<Rightarrow> True | Some ls \<Rightarrow>
      (if writer_owner ls = None then total_readers ls = (\<Sum>t\<in>UNIV. case reader_owners ls t of None \<Rightarrow> 0 | Some n \<Rightarrow> n)
       else reader_owners ls = Map.empty \<and> total_readers ls = 0) \<and>
      (\<forall>t. reader_owners ls t \<noteq> Some 0) \<and>
      waiting_readers ls = count_threads (\<lambda>p. p = Asleep Reader a \<or> p = Awake Reader a) (pcs s) \<and>
      waiting_writers ls = count_threads (\<lambda>p. p = Asleep Writer a \<or> p = Awake Writer a) (pcs s) \<and>
      (if destroyed ls then writer_owner ls = None \<and> total_readers ls = 0 \<and> waiting_readers ls = 0 \<and> waiting_writers ls = 0
       else True)"
  proof (cases "arcs s a")
    case (Some ls)
    have ok: "lock_ok ls" "waiting m ls = count_threads (registered m a) (pcs s)" for m
      using rw_core_cell [OF core Some, of m] by simp_all
    show ?thesis using ok(1) ok(2) [of Reader] ok(2) [of Writer] no_readers [OF ok(1)] Some
      unfolding reg by (simp add: lock_ok_def waiting_def depth_of_def)
  qed simp
qed

theorem rwlock_safety_witness:
  "\<exists>s ls. run_schedule handover rw_start = Some s \<and> arcs s 0 = Some ls \<and>
     waiting_readers ls = count_threads (\<lambda>p. p = Asleep Reader 0 \<or> p = Awake Reader 0) (pcs s) \<and>
     resume 1 s \<noteq> None"
proof -
  obtain s ls where s: "run_schedule handover rw_start = Some s" "arcs s 0 = Some ls" "pcs s 1 = Notifying 0"
    using handover_state by blast
  show ?thesis using rwlock_safety [OF handover_reachable [OF s(1)], of 0 1] s by auto
qed



end
