(* ===== verification/Mutex_Cond.thy ===== *)
theory Mutex_Cond
  imports Threads
begin

text \<open>
  Mutexes, condition variables and their attributes, of \<^verbatim>\<open>src/src/pthread.rs\<close>: the state machine
  of the threads that use them. As for the read-write locks, what is done under one runtime mutex is one step.
  A mutex object holds a pointer to a heap box with its state, a condition variable one to its
  own; a box that has been freed is absent from the heap, so using it is \<open>None\<close>.

  What changes a state and what notifies are separate steps, as in the code, which drops the
  mutex of the state in between: an unlock, the release in a wait, a signal and a broadcast each
  have a second step that notifies. The first part of a wait (register as a waiter, take a
  reference on the mutex, release it) runs under the condition variable's mutex and the global
  initialisation lock, and the caller owns the mutex it releases: it is one step. Its second step
  notifies one thread that waits for the mutex, and makes the first test of the waiting condition
  under the condition variable's mutex, which the thread still holds. The
  initialisation lock is held up to this second step, and by a signal or broadcast up to its
  notification; calls that need it wait for it. The check and the free of a destroy are one step: a
  thread that came between them would use an object that is being destroyed.
\<close>

section \<open>Attributes\<close>

definition PTHREAD_MUTEX_NORMAL :: c_int where "PTHREAD_MUTEX_NORMAL = 0"
definition PTHREAD_MUTEX_RECURSIVE :: c_int where "PTHREAD_MUTEX_RECURSIVE = 1"
definition PTHREAD_MUTEX_ERRORCHECK :: c_int where "PTHREAD_MUTEX_ERRORCHECK = 2"
definition PTHREAD_MUTEX_DEFAULT :: c_int where "PTHREAD_MUTEX_DEFAULT = PTHREAD_MUTEX_NORMAL"
definition PTHREAD_PROCESS_PRIVATE :: c_int where "PTHREAD_PROCESS_PRIVATE = 0"
definition PTHREAD_PROCESS_SHARED :: c_int where "PTHREAD_PROCESS_SHARED = 1"

lemmas pthread_constants = PTHREAD_MUTEX_NORMAL_def PTHREAD_MUTEX_RECURSIVE_def PTHREAD_MUTEX_ERRORCHECK_def
  PTHREAD_MUTEX_DEFAULT_def PTHREAD_PROCESS_PRIVATE_def PTHREAD_PROCESS_SHARED_def

definition validate_mutex_type :: "c_int \<Rightarrow> bool" where
  "validate_mutex_type mutex_type \<longleftrightarrow> mutex_type = PTHREAD_MUTEX_NORMAL \<or>
     mutex_type = PTHREAD_MUTEX_RECURSIVE \<or> mutex_type = PTHREAD_MUTEX_ERRORCHECK"

record mutexattr =
  attr_type :: c_int
  attr_pshared :: c_int
  attr_initialized :: c_int

record condattr =
  cond_pshared :: c_int
  cond_initialized :: c_int

record mutex_state =
  mutex_type :: c_int
  owner :: "tid option"
  recursion_depth :: nat
  waiter_count :: nat
  cond_waiter_count :: nat

record cond_state =
  cond_waiters :: nat
  pending_wakeups :: nat

definition mutex_new :: "c_int \<Rightarrow> mutex_state" where
  "mutex_new type = \<lparr>mutex_type = type, owner = None, recursion_depth = 0, waiter_count = 0, cond_waiter_count = 0\<rparr>"

definition cond_new :: cond_state where
  "cond_new = \<lparr>cond_waiters = 0, pending_wakeups = 0\<rparr>"

text \<open>
  What a thread that takes a mutex is doing: a plain lock, or the relocking at the end of a wait,
  the first time (with the depth to restore and the result of the wait) or one of the further
  times of a recursive mutex (with the number still to do).
\<close>

datatype purpose = Plain | First nat c_int | More nat nat c_int

datatype pc = Idle
  | Locking purpose bool addr
  | LockAsleep purpose addr
  | LockAwake purpose addr
  | Unlocking addr
  | Notifying addr
  | CondReleased addr addr nat bool
  | CondAsleep addr addr nat bool
  | CondAwake addr addr nat bool
  | CondNotifying addr bool
  | Unref addr nat c_int

text \<open>The caller's objects, the heap of boxes, and where the threads are.\<close>

record psystem =
  mutexattrs :: "addr \<rightharpoonup> mutexattr"
  condattrs :: "addr \<rightharpoonup> condattr"
  ints :: "addr \<rightharpoonup> c_int"
  mutexes :: "addr \<rightharpoonup> addr"
  conds :: "addr \<rightharpoonup> addr"
  mutex_boxes :: "addr \<rightharpoonup> mutex_state"
  cond_boxes :: "addr \<rightharpoonup> cond_state"
  timespecs :: "addr \<rightharpoonup> c_long \<times> c_long"
  pcs :: "tid \<Rightarrow> pc"

definition pthread_mutexattr_init :: "addr \<Rightarrow> psystem \<Rightarrow> (c_int \<times> psystem) option" where
  "pthread_mutexattr_init attr s =
     (if attr = null then Some (EINVAL, s)
      else do {
        a \<leftarrow> mutexattrs s attr;
        Some (0, s\<lparr>mutexattrs := (mutexattrs s)(attr \<mapsto> a\<lparr>attr_type := PTHREAD_MUTEX_DEFAULT,
          attr_pshared := PTHREAD_PROCESS_PRIVATE, attr_initialized := 1\<rparr>)\<rparr>) })"

definition pthread_mutexattr_destroy :: "addr \<Rightarrow> psystem \<Rightarrow> (c_int \<times> psystem) option" where
  "pthread_mutexattr_destroy attr s =
     (if attr = null then Some (EINVAL, s)
      else do {
        a \<leftarrow> mutexattrs s attr;
        Some (0, s\<lparr>mutexattrs := (mutexattrs s)(attr \<mapsto> a\<lparr>attr_initialized := 0\<rparr>)\<rparr>) })"

definition write_int :: "addr \<Rightarrow> c_int \<Rightarrow> psystem \<Rightarrow> psystem option" where
  "write_int p v s = (if ints s p = None then None else Some (s\<lparr>ints := (ints s)(p \<mapsto> v)\<rparr>))"

definition pthread_mutexattr_gettype :: "addr \<Rightarrow> addr \<Rightarrow> psystem \<Rightarrow> (c_int \<times> psystem) option" where
  "pthread_mutexattr_gettype attr type s =
     (if attr = null \<or> type = null then Some (EINVAL, s)
      else do {
        a \<leftarrow> mutexattrs s attr;
        if attr_initialized a = 0 then Some (EINVAL, s)
        else do { s \<leftarrow> write_int type (attr_type a) s; Some (0, s) } })"

definition pthread_mutexattr_settype :: "addr \<Rightarrow> c_int \<Rightarrow> psystem \<Rightarrow> (c_int \<times> psystem) option" where
  "pthread_mutexattr_settype attr type s =
     (if attr = null \<or> \<not> validate_mutex_type type then Some (EINVAL, s)
      else do {
        a \<leftarrow> mutexattrs s attr;
        if attr_initialized a = 0 then Some (EINVAL, s)
        else Some (0, s\<lparr>mutexattrs := (mutexattrs s)(attr \<mapsto> a\<lparr>attr_type := type\<rparr>)\<rparr>) })"

definition pthread_mutexattr_getpshared :: "addr \<Rightarrow> addr \<Rightarrow> psystem \<Rightarrow> (c_int \<times> psystem) option" where
  "pthread_mutexattr_getpshared attr pshared s =
     (if attr = null \<or> pshared = null then Some (EINVAL, s)
      else do {
        a \<leftarrow> mutexattrs s attr;
        if attr_initialized a = 0 then Some (EINVAL, s)
        else do { s \<leftarrow> write_int pshared (attr_pshared a) s; Some (0, s) } })"

definition pthread_mutexattr_setpshared :: "addr \<Rightarrow> c_int \<Rightarrow> psystem \<Rightarrow> (c_int \<times> psystem) option" where
  "pthread_mutexattr_setpshared attr pshared s =
     (if attr = null then Some (EINVAL, s)
      else do {
        a \<leftarrow> mutexattrs s attr;
        if attr_initialized a = 0 then Some (EINVAL, s)
        else if pshared \<noteq> PTHREAD_PROCESS_PRIVATE \<and> pshared \<noteq> PTHREAD_PROCESS_SHARED then Some (EINVAL, s)
        else Some (0, s\<lparr>mutexattrs := (mutexattrs s)(attr \<mapsto> a\<lparr>attr_pshared := pshared\<rparr>)\<rparr>) })"

definition pthread_condattr_init :: "addr \<Rightarrow> psystem \<Rightarrow> (c_int \<times> psystem) option" where
  "pthread_condattr_init attr s =
     (if attr = null then Some (EINVAL, s)
      else do {
        a \<leftarrow> condattrs s attr;
        Some (0, s\<lparr>condattrs := (condattrs s)(attr \<mapsto>
          a\<lparr>cond_pshared := PTHREAD_PROCESS_PRIVATE, cond_initialized := 1\<rparr>)\<rparr>) })"

definition pthread_condattr_destroy :: "addr \<Rightarrow> psystem \<Rightarrow> (c_int \<times> psystem) option" where
  "pthread_condattr_destroy attr s = (if attr = null then Some (EINVAL, s) else Some (0, s))"

definition pthread_condattr_getpshared :: "addr \<Rightarrow> addr \<Rightarrow> psystem \<Rightarrow> (c_int \<times> psystem) option" where
  "pthread_condattr_getpshared attr pshared s =
     (if attr = null \<or> pshared = null then Some (EINVAL, s)
      else do {
        a \<leftarrow> condattrs s attr;
        if cond_initialized a = 0 then Some (EINVAL, s)
        else do { s \<leftarrow> write_int pshared (cond_pshared a) s; Some (0, s) } })"

definition pthread_condattr_setpshared :: "addr \<Rightarrow> c_int \<Rightarrow> psystem \<Rightarrow> (c_int \<times> psystem) option" where
  "pthread_condattr_setpshared attr pshared s =
     (if attr = null then Some (EINVAL, s)
      else do {
        a \<leftarrow> condattrs s attr;
        if cond_initialized a = 0 then Some (EINVAL, s)
        else if pshared \<noteq> PTHREAD_PROCESS_PRIVATE \<and> pshared \<noteq> PTHREAD_PROCESS_SHARED then Some (EINVAL, s)
        else Some (0, s\<lparr>condattrs := (condattrs s)(attr \<mapsto> a\<lparr>cond_pshared := pshared\<rparr>)\<rparr>) })"

section \<open>Mutexes\<close>

definition goto :: "tid \<Rightarrow> pc \<Rightarrow> psystem \<Rightarrow> psystem" where
  "goto t p s = s\<lparr>pcs := (pcs s)(t := p)\<rparr>"

definition put_mutex :: "addr \<Rightarrow> mutex_state \<Rightarrow> psystem \<Rightarrow> psystem" where
  "put_mutex b ms s = s\<lparr>mutex_boxes := (mutex_boxes s)(b \<mapsto> ms)\<rparr>"

definition put_cond :: "addr \<Rightarrow> cond_state \<Rightarrow> psystem \<Rightarrow> psystem" where
  "put_cond c cs s = s\<lparr>cond_boxes := (cond_boxes s)(c \<mapsto> cs)\<rparr>"

text \<open>The box of a mutex object, or \<open>EINVAL\<close>; the object itself must be readable.\<close>

definition mutex_state_from_raw :: "addr \<Rightarrow> psystem \<Rightarrow> (c_int + addr) option" where
  "mutex_state_from_raw mutex s =
     (if mutex = null then Some (Inl EINVAL)
      else do { state_ptr \<leftarrow> mutexes s mutex; Some (if state_ptr = null then Inl EINVAL else Inr state_ptr) })"

datatype outcome = Return c_int | Sleep

text \<open>
  One pass of the loop of \<^verbatim>\<open>mutex_lock_internal\<close>; a thread that has waited first counts itself out.
\<close>

definition mutex_lock_pass :: "tid \<Rightarrow> bool \<Rightarrow> bool \<Rightarrow> mutex_state \<Rightarrow> outcome \<times> mutex_state" where
  "mutex_lock_pass current try_only waited ms =
     (let ms = (if waited then ms\<lparr>waiter_count := waiter_count ms - 1\<rparr> else ms);
          wait = (Sleep, ms\<lparr>waiter_count := saturating_add (waiter_count ms) 1\<rparr>) in
      case owner ms of
        None \<Rightarrow> (Return 0, ms\<lparr>owner := Some current, recursion_depth := 1\<rparr>)
      | Some o' \<Rightarrow>
          if o' = current then
            (if mutex_type ms = PTHREAD_MUTEX_RECURSIVE then
               (Return 0, ms\<lparr>recursion_depth := saturating_add (recursion_depth ms) 1\<rparr>)
             else if mutex_type ms = PTHREAD_MUTEX_ERRORCHECK then
               (Return (if try_only then EBUSY else EDEADLK), ms)
             else if try_only then (Return EBUSY, ms)
             else wait)
          else if try_only then (Return EBUSY, ms)
          else wait)"

text \<open>Unlocking: the code, whether one waiter is notified, the new state.\<close>

definition mutex_unlock_internal :: "tid \<Rightarrow> bool \<Rightarrow> mutex_state \<Rightarrow> c_int \<times> bool \<times> mutex_state" where
  "mutex_unlock_internal current for_cond_wait ms =
     (if owner ms \<noteq> Some current then (EPERM, False, ms)
      else if mutex_type ms = PTHREAD_MUTEX_RECURSIVE \<and> recursion_depth ms > 1 \<and> \<not> for_cond_wait
      then (0, False, ms\<lparr>recursion_depth := recursion_depth ms - 1\<rparr>)
      else (0, True, ms\<lparr>owner := None, recursion_depth := 0\<rparr>))"

definition mutex_add_cond_waiter_reference :: "tid \<Rightarrow> mutex_state \<Rightarrow> c_int + (nat \<times> mutex_state)" where
  "mutex_add_cond_waiter_reference current ms =
     (if owner ms \<noteq> Some current then Inl EPERM
      else Inr (recursion_depth ms, ms\<lparr>cond_waiter_count := saturating_add (cond_waiter_count ms) 1\<rparr>))"

definition mutex_remove_cond_waiter_reference :: "mutex_state \<Rightarrow> mutex_state" where
  "mutex_remove_cond_waiter_reference ms = ms\<lparr>cond_waiter_count := cond_waiter_count ms - 1\<rparr>"

text \<open>
  Where a thread goes when \<^verbatim>\<open>mutex_lock_internal\<close> returns \<open>x\<close> to it (\<open>None\<close>: back to the caller):
  the sequence of locks in \<^verbatim>\<open>mutex_restore_cond_wait_lock_depth\<close>.
\<close>

definition mutex_restore_cond_wait_lock_depth :: "purpose \<Rightarrow> c_int \<Rightarrow> mutex_state \<Rightarrow> addr \<Rightarrow> pc option" where
  "mutex_restore_cond_wait_lock_depth k x ms b =
     (case k of
        Plain \<Rightarrow> None
      | First depth r \<Rightarrow>
          Some (if x \<noteq> 0 then Unref b depth x
                else if mutex_type ms \<noteq> PTHREAD_MUTEX_RECURSIVE \<or> depth \<le> 1 then Unref b depth r
                else Locking (More (depth - 2) depth r) False b)
      | More n depth r \<Rightarrow>
          Some (if x \<noteq> 0 then Unref b depth x
                else if n = 0 then Unref b depth r
                else Locking (More (n - 1) depth r) False b))"

definition mutex_lock_internal ::
  "tid \<Rightarrow> purpose \<Rightarrow> bool \<Rightarrow> bool \<Rightarrow> addr \<Rightarrow> psystem \<Rightarrow> (c_int option \<times> psystem) option" where
  "mutex_lock_internal t k try_only waited b s = do {
     ms \<leftarrow> mutex_boxes s b;
     (case mutex_lock_pass t try_only waited ms of
        (Return x, ms) \<Rightarrow>
          (case mutex_restore_cond_wait_lock_depth k x ms b of
             None \<Rightarrow> Some (Some x, goto t Idle (put_mutex b ms s))
           | Some p \<Rightarrow> Some (None, goto t p (put_mutex b ms s)))
      | (Sleep, ms) \<Rightarrow> Some (None, goto t (LockAsleep k b) (put_mutex b ms s))) }"

text \<open>
  \<^verbatim>\<open>notify_one\<close> wakes some thread that sleeps on the mutex, if there is one: \<open>choice\<close> says which.
\<close>

definition locker_choice :: "tid option \<Rightarrow> addr \<Rightarrow> psystem \<Rightarrow> bool" where
  "locker_choice choice b s =
     (case choice of None \<Rightarrow> \<forall>u k. pcs s u \<noteq> LockAsleep k b | Some u \<Rightarrow> \<exists>k. pcs s u = LockAsleep k b)"

definition wake_locker :: "tid option \<Rightarrow> psystem \<Rightarrow> psystem" where
  "wake_locker choice s =
     (case choice of None \<Rightarrow> s
      | Some u \<Rightarrow> (case pcs s u of LockAsleep k b \<Rightarrow> goto u (LockAwake k b) s | _ \<Rightarrow> s))"

definition pthread_mutex_init :: "addr \<Rightarrow> addr \<Rightarrow> addr \<Rightarrow> psystem \<Rightarrow> (c_int option \<times> psystem) option" where
  "pthread_mutex_init fresh mutex attr s =
     (if mutex = null then Some (Some EINVAL, s)
      else do {
        config \<leftarrow> (if attr = null then Some (Inr (PTHREAD_MUTEX_DEFAULT, PTHREAD_PROCESS_PRIVATE))
          else do {
            a \<leftarrow> mutexattrs s attr;
            Some (if attr_initialized a = 0 \<or> \<not> validate_mutex_type (attr_type a) then Inl EINVAL
                  else Inr (attr_type a, attr_pshared a)) });
        (case config of
           Inl e \<Rightarrow> Some (Some e, s)
         | Inr (type, pshared) \<Rightarrow>
             if pshared \<noteq> PTHREAD_PROCESS_PRIVATE \<and> pshared \<noteq> PTHREAD_PROCESS_SHARED then Some (Some EINVAL, s)
             else do {
               state_ptr \<leftarrow> mutexes s mutex;
               if state_ptr \<noteq> null then Some (Some EBUSY, s)
               else Some (Some 0, put_mutex fresh (mutex_new type) (s\<lparr>mutexes := (mutexes s)(mutex \<mapsto> fresh)\<rparr>)) }) })"

definition pthread_mutex_destroy :: "addr \<Rightarrow> psystem \<Rightarrow> (c_int option \<times> psystem) option" where
  "pthread_mutex_destroy mutex s =
     (if mutex = null then Some (Some EINVAL, s)
      else do {
        state_ptr \<leftarrow> mutexes s mutex;
        if state_ptr = null then Some (Some EINVAL, s)
        else do {
          ms \<leftarrow> mutex_boxes s state_ptr;
          if owner ms \<noteq> None \<or> waiter_count ms \<noteq> 0 \<or> cond_waiter_count ms \<noteq> 0 then Some (Some EBUSY, s)
          else Some (Some 0, s\<lparr>mutex_boxes := (mutex_boxes s)(state_ptr := None),
                               mutexes := (mutexes s)(mutex \<mapsto> null)\<rparr>) } })"

definition enter :: "tid \<Rightarrow> (addr \<Rightarrow> pc) \<Rightarrow> addr \<Rightarrow> psystem \<Rightarrow> (c_int option \<times> psystem) option" where
  "enter t p mutex s = do {
     state \<leftarrow> mutex_state_from_raw mutex s;
     Some (case state of Inl e \<Rightarrow> (Some e, s) | Inr b \<Rightarrow> (None, goto t (p b) s)) }"

definition pthread_mutex_lock :: "tid \<Rightarrow> addr \<Rightarrow> psystem \<Rightarrow> (c_int option \<times> psystem) option" where
  "pthread_mutex_lock t = enter t (Locking Plain False)"

definition pthread_mutex_trylock :: "tid \<Rightarrow> addr \<Rightarrow> psystem \<Rightarrow> (c_int option \<times> psystem) option" where
  "pthread_mutex_trylock t = enter t (Locking Plain True)"

definition pthread_mutex_unlock :: "tid \<Rightarrow> addr \<Rightarrow> psystem \<Rightarrow> (c_int option \<times> psystem) option" where
  "pthread_mutex_unlock t = enter t Unlocking"

section \<open>Condition variables\<close>

text \<open>The dangling pointer of the state's alignment marks a destroyed condition variable.\<close>

definition DESTROYED_COND_SENTINEL :: addr where "DESTROYED_COND_SENTINEL = 8"

definition pthread_cond_init :: "addr \<Rightarrow> addr \<Rightarrow> addr \<Rightarrow> psystem \<Rightarrow> (c_int option \<times> psystem) option" where
  "pthread_cond_init fresh cond attr s =
     (if cond = null then Some (Some EINVAL, s)
      else do {
        valid \<leftarrow> (if attr = null then Some True
          else do {
            a \<leftarrow> condattrs s attr;
            Some (cond_initialized a \<noteq> 0 \<and>
              (cond_pshared a = PTHREAD_PROCESS_PRIVATE \<or> cond_pshared a = PTHREAD_PROCESS_SHARED)) });
        if \<not> valid then Some (Some EINVAL, s)
        else do {
          state_ptr \<leftarrow> conds s cond;
          if state_ptr \<noteq> null \<and> state_ptr \<noteq> DESTROYED_COND_SENTINEL then Some (Some EBUSY, s)
          else Some (Some 0, put_cond fresh cond_new (s\<lparr>conds := (conds s)(cond \<mapsto> fresh)\<rparr>)) } })"

definition pthread_cond_destroy :: "addr \<Rightarrow> psystem \<Rightarrow> (c_int option \<times> psystem) option" where
  "pthread_cond_destroy cond s =
     (if cond = null then Some (Some EINVAL, s)
      else do {
        state_ptr \<leftarrow> conds s cond;
        if state_ptr = DESTROYED_COND_SENTINEL then Some (Some 0, s)
        else if state_ptr = null
        then Some (Some 0, s\<lparr>conds := (conds s)(cond \<mapsto> DESTROYED_COND_SENTINEL)\<rparr>)
        else do {
          cs \<leftarrow> cond_boxes s state_ptr;
          if cond_waiters cs \<noteq> 0 then Some (Some EBUSY, s)
          else Some (Some 0, s\<lparr>cond_boxes := (cond_boxes s)(state_ptr := None),
                               conds := (conds s)(cond \<mapsto> DESTROYED_COND_SENTINEL)\<rparr>) } })"

definition cond_state_from_raw_or_lazy_init_locked ::
  "addr \<Rightarrow> addr \<Rightarrow> psystem \<Rightarrow> ((c_int + addr) \<times> psystem) option" where
  "cond_state_from_raw_or_lazy_init_locked fresh cond s =
     (if cond = null then Some (Inl EINVAL, s)
      else do {
        state_ptr \<leftarrow> conds s cond;
        Some (if state_ptr = DESTROYED_COND_SENTINEL then (Inl EINVAL, s)
              else if state_ptr = null
              then (Inr fresh, put_cond fresh cond_new (s\<lparr>conds := (conds s)(cond \<mapsto> fresh)\<rparr>))
              else (Inr state_ptr, s)) })"

text \<open>
  One test of the waiting condition: sleep while there is no pending wakeup, else take one and
  go on to relock; \<open>elapsed\<close> is the timeout of a timed wait.
\<close>

definition cond_wait_pass :: "tid \<Rightarrow> bool \<Rightarrow> addr \<Rightarrow> addr \<Rightarrow> nat \<Rightarrow> bool \<Rightarrow> psystem \<Rightarrow> psystem option" where
  "cond_wait_pass t elapsed c b depth timed s = do {
     cs \<leftarrow> cond_boxes s c;
     if pending_wakeups cs = 0 \<and> \<not> elapsed then Some (goto t (CondAsleep c b depth timed) s)
     else
       (let woke_from_signal = (pending_wakeups cs \<noteq> 0);
            cs = (if woke_from_signal then cs\<lparr>pending_wakeups := pending_wakeups cs - 1\<rparr> else cs);
            cs = cs\<lparr>cond_waiters := cond_waiters cs - 1\<rparr>;
            timed_out = (elapsed \<and> \<not> woke_from_signal)
        in Some (goto t (Locking (First depth (if timed_out then ETIMEDOUT else 0)) False b) (put_cond c cs s))) }"

text \<open>The common part of the two waits, up to the release of the mutex.\<close>

definition cond_wait_from ::
  "tid \<Rightarrow> addr \<Rightarrow> addr \<Rightarrow> addr \<Rightarrow> bool \<Rightarrow> psystem \<Rightarrow> (c_int option \<times> psystem) option" where
  "cond_wait_from t fresh cond mutex timed s = do {
     (cond_state, s) \<leftarrow> cond_state_from_raw_or_lazy_init_locked fresh cond s;
     (case cond_state of
        Inl _ \<Rightarrow> Some (Some EINVAL, s)
      | Inr c \<Rightarrow> do {
          state \<leftarrow> mutex_state_from_raw mutex s;
          (case state of
             Inl _ \<Rightarrow> Some (Some EINVAL, s)
           | Inr b \<Rightarrow> do {
               cs \<leftarrow> cond_boxes s c;
               let cs = cs\<lparr>cond_waiters := saturating_add (cond_waiters cs) 1\<rparr>;
               ms \<leftarrow> mutex_boxes s b;
               (case mutex_add_cond_waiter_reference t ms of
                  Inl e \<Rightarrow> Some (Some e, put_cond c (cs\<lparr>cond_waiters := cond_waiters cs - 1\<rparr>) s)
                | Inr (recursive_depth, ms) \<Rightarrow>
                    (case mutex_unlock_internal t True ms of
                       (unlock_result, notify, ms) \<Rightarrow>
                         if unlock_result \<noteq> 0
                         then Some (Some unlock_result, put_cond c (cs\<lparr>cond_waiters := cond_waiters cs - 1\<rparr>)
                                (put_mutex b (mutex_remove_cond_waiter_reference ms) s))
                         else
                           (let s = put_cond c cs (put_mutex b ms s) in
                            if notify then Some (None, goto t (CondReleased c b recursive_depth timed) s)
                            else do { s \<leftarrow> cond_wait_pass t False c b recursive_depth timed s; Some (None, s) }))) }) }) }"

definition pthread_cond_wait ::
  "tid \<Rightarrow> addr \<Rightarrow> addr \<Rightarrow> addr \<Rightarrow> psystem \<Rightarrow> (c_int option \<times> psystem) option" where
  "pthread_cond_wait t fresh cond mutex s = cond_wait_from t fresh cond mutex False s"

text \<open>
  The time left to an absolute deadline; \<open>now\<close> is what \<^verbatim>\<open>clock_gettime(CLOCK_REALTIME)\<close> gives, or
  \<open>None\<close> when it fails. The subtractions are on \<^verbatim>\<open>i128\<close>, which they cannot leave.
\<close>

definition timeout_from_abstime :: "addr \<Rightarrow> (c_long \<times> c_long) option \<Rightarrow> psystem \<Rightarrow> (c_int + nat \<times> nat) option" where
  "timeout_from_abstime abstime now s =
     (if abstime = null then Some (Inl EINVAL)
      else do {
        (deadline_sec, deadline_nsec) \<leftarrow> timespecs s abstime;
        Some (if \<not> (0 \<le> sint deadline_nsec \<and> sint deadline_nsec < 1000000000) then Inl EINVAL
          else
            (case now of
               None \<Rightarrow> Inl EINVAL
             | Some (now_sec, now_nsec) \<Rightarrow>
                 (let sec_delta = sint deadline_sec - sint now_sec;
                      nsec_delta = sint deadline_nsec - sint now_nsec;
                      (sec_delta, nsec_delta) =
                        (if nsec_delta < 0 then (sec_delta - 1, nsec_delta + 1000000000) else (sec_delta, nsec_delta))
                  in if sec_delta < 0 \<or> (sec_delta = 0 \<and> nsec_delta = 0) then Inr (0, 0)
                     else if \<not> sec_delta < 2 ^ 64 then Inl EINVAL
                     else if \<not> (0 \<le> nsec_delta \<and> nsec_delta < 2 ^ 32) then Inl EINVAL
                     else Inr (nat sec_delta, nat nsec_delta)))) })"

definition pthread_cond_timedwait ::
  "tid \<Rightarrow> addr \<Rightarrow> addr \<Rightarrow> addr \<Rightarrow> addr \<Rightarrow> (c_long \<times> c_long) option \<Rightarrow> psystem \<Rightarrow>
   (c_int option \<times> psystem) option" where
  "pthread_cond_timedwait t fresh cond mutex abstime now s = do {
     timeout \<leftarrow> timeout_from_abstime abstime now s;
     (case timeout of
        Inl _ \<Rightarrow> Some (Some EINVAL, s)
      | Inr _ \<Rightarrow> cond_wait_from t fresh cond mutex True s) }"

definition waiter_choice :: "tid option \<Rightarrow> addr \<Rightarrow> psystem \<Rightarrow> bool" where
  "waiter_choice choice c s =
     (case choice of None \<Rightarrow> \<forall>u b depth timed. pcs s u \<noteq> CondAsleep c b depth timed
      | Some u \<Rightarrow> \<exists>b depth timed. pcs s u = CondAsleep c b depth timed)"

definition wake_waiter :: "tid option \<Rightarrow> psystem \<Rightarrow> psystem" where
  "wake_waiter choice s =
     (case choice of None \<Rightarrow> s
      | Some u \<Rightarrow> (case pcs s u of CondAsleep c b depth timed \<Rightarrow> goto u (CondAwake c b depth timed) s | _ \<Rightarrow> s))"

definition wake_all_waiters :: "addr \<Rightarrow> psystem \<Rightarrow> psystem" where
  "wake_all_waiters c s = s\<lparr>pcs := (\<lambda>u. case pcs s u of
     CondAsleep c' b depth timed \<Rightarrow> if c' = c then CondAwake c' b depth timed else CondAsleep c' b depth timed
   | p \<Rightarrow> p)\<rparr>"

text \<open>A signal and a broadcast, up to the end of their work on the state.\<close>

definition pthread_cond_signal :: "tid \<Rightarrow> addr \<Rightarrow> psystem \<Rightarrow> (c_int option \<times> psystem) option" where
  "pthread_cond_signal t cond s =
     (if cond = null then Some (Some EINVAL, s)
      else do {
        state_ptr \<leftarrow> conds s cond;
        if state_ptr = DESTROYED_COND_SENTINEL then Some (Some EINVAL, s)
        else if state_ptr = null then Some (Some 0, s)
        else do {
          cs \<leftarrow> cond_boxes s state_ptr;
          Some (if cond_waiters cs = 0 then (Some 0, s)
            else (None, goto t (CondNotifying state_ptr False) (put_cond state_ptr
              (cs\<lparr>pending_wakeups := min (saturating_add (pending_wakeups cs) 1) (cond_waiters cs)\<rparr>) s))) } })"

definition pthread_cond_broadcast :: "tid \<Rightarrow> addr \<Rightarrow> psystem \<Rightarrow> (c_int option \<times> psystem) option" where
  "pthread_cond_broadcast t cond s =
     (if cond = null then Some (Some EINVAL, s)
      else do {
        state_ptr \<leftarrow> conds s cond;
        if state_ptr = DESTROYED_COND_SENTINEL then Some (Some EINVAL, s)
        else if state_ptr = null then Some (Some 0, s)
        else do {
          cs \<leftarrow> cond_boxes s state_ptr;
          Some (if cond_waiters cs = 0 then (Some 0, s)
            else (None, goto t (CondNotifying state_ptr True)
              (put_cond state_ptr (cs\<lparr>pending_wakeups := cond_waiters cs\<rparr>) s))) } })"

section \<open>The threads\<close>

text \<open>The next critical section of a thread inside an operation.\<close>

definition continue :: "tid \<Rightarrow> tid option \<Rightarrow> psystem \<Rightarrow> (c_int option \<times> psystem) option" where
  "continue t choice s =
     (case pcs s t of
        Locking k try_only b \<Rightarrow> mutex_lock_internal t k try_only False b s
      | LockAwake k b \<Rightarrow> mutex_lock_internal t k False True b s
      | Unlocking b \<Rightarrow> do {
          ms \<leftarrow> mutex_boxes s b;
          (case mutex_unlock_internal t False ms of
             (r, notify, ms) \<Rightarrow>
               if notify then Some (None, goto t (Notifying b) (put_mutex b ms s))
               else Some (Some r, goto t Idle (put_mutex b ms s))) }
      | Notifying b \<Rightarrow> do { ms \<leftarrow> mutex_boxes s b; Some (Some 0, goto t Idle (wake_locker choice s)) }
      | CondReleased c b depth timed \<Rightarrow> do {
          ms \<leftarrow> mutex_boxes s b;
          s \<leftarrow> cond_wait_pass t False c b depth timed (wake_locker choice s);
          Some (None, s) }
      | CondAwake c b depth timed \<Rightarrow> do { s \<leftarrow> cond_wait_pass t False c b depth timed s; Some (None, s) }
      | CondNotifying c all \<Rightarrow> do {
          cs \<leftarrow> cond_boxes s c;
          Some (Some 0, goto t Idle (if all then wake_all_waiters c s else wake_waiter choice s)) }
      | Unref b depth x \<Rightarrow> do {
          ms \<leftarrow> mutex_boxes s b;
          Some (Some x, goto t Idle (put_mutex b (mutex_remove_cond_waiter_reference ms) s)) }
      | _ \<Rightarrow> None)"

text \<open>The calls. Those that allocate are given the address of their box.\<close>

datatype pcall =
    MutexattrInit addr | MutexattrDestroy addr | MutexattrGettype addr addr | MutexattrSettype addr c_int
  | MutexattrGetpshared addr addr | MutexattrSetpshared addr c_int
  | CondattrInit addr | CondattrDestroy addr | CondattrGetpshared addr addr | CondattrSetpshared addr c_int
  | MutexInit addr addr addr | MutexDestroy addr | MutexLock addr | MutexTrylock addr | MutexUnlock addr
  | CondInit addr addr addr | CondDestroy addr | CondSignal addr | CondBroadcast addr
  | CondWait addr addr addr
  | CondTimedwait addr addr addr addr "(c_long \<times> c_long) option"

definition at_once :: "(c_int \<times> psystem) option \<Rightarrow> (c_int option \<times> psystem) option" where
  "at_once r = map_option (map_prod Some id) r"

fun begin_call :: "tid \<Rightarrow> pcall \<Rightarrow> psystem \<Rightarrow> (c_int option \<times> psystem) option" where
  "begin_call t (MutexattrInit a) s = at_once (pthread_mutexattr_init a s)"
| "begin_call t (MutexattrDestroy a) s = at_once (pthread_mutexattr_destroy a s)"
| "begin_call t (MutexattrGettype a p) s = at_once (pthread_mutexattr_gettype a p s)"
| "begin_call t (MutexattrSettype a v) s = at_once (pthread_mutexattr_settype a v s)"
| "begin_call t (MutexattrGetpshared a p) s = at_once (pthread_mutexattr_getpshared a p s)"
| "begin_call t (MutexattrSetpshared a v) s = at_once (pthread_mutexattr_setpshared a v s)"
| "begin_call t (CondattrInit a) s = at_once (pthread_condattr_init a s)"
| "begin_call t (CondattrDestroy a) s = at_once (pthread_condattr_destroy a s)"
| "begin_call t (CondattrGetpshared a p) s = at_once (pthread_condattr_getpshared a p s)"
| "begin_call t (CondattrSetpshared a v) s = at_once (pthread_condattr_setpshared a v s)"
| "begin_call t (MutexInit fresh mutex attr) s = pthread_mutex_init fresh mutex attr s"
| "begin_call t (MutexDestroy mutex) s = pthread_mutex_destroy mutex s"
| "begin_call t (MutexLock mutex) s = pthread_mutex_lock t mutex s"
| "begin_call t (MutexTrylock mutex) s = pthread_mutex_trylock t mutex s"
| "begin_call t (MutexUnlock mutex) s = pthread_mutex_unlock t mutex s"
| "begin_call t (CondInit fresh cond attr) s = pthread_cond_init fresh cond attr s"
| "begin_call t (CondDestroy cond) s = pthread_cond_destroy cond s"
| "begin_call t (CondSignal cond) s = pthread_cond_signal t cond s"
| "begin_call t (CondBroadcast cond) s = pthread_cond_broadcast t cond s"
| "begin_call t (CondWait fresh cond mutex) s = pthread_cond_wait t fresh cond mutex s"
| "begin_call t (CondTimedwait fresh cond mutex abstime now) s =
     pthread_cond_timedwait t fresh cond mutex abstime now s"

definition fresh_mutex :: "addr \<Rightarrow> psystem \<Rightarrow> bool" where
  "fresh_mutex b s \<longleftrightarrow> b \<noteq> null \<and> mutex_boxes s b = None"

definition fresh_cond :: "addr \<Rightarrow> psystem \<Rightarrow> bool" where
  "fresh_cond c s \<longleftrightarrow> c \<noteq> null \<and> c \<noteq> DESTROYED_COND_SENTINEL \<and> cond_boxes s c = None"

text \<open>The global initialisation lock is free; the mutex of a condition variable is free.\<close>

definition cond_lazy_init_free :: "psystem \<Rightarrow> bool" where
  "cond_lazy_init_free s \<longleftrightarrow>
     (\<forall>u. case pcs s u of CondReleased c b depth timed \<Rightarrow> False | CondNotifying c all \<Rightarrow> False | _ \<Rightarrow> True)"

definition cond_wait_state_free :: "addr \<Rightarrow> psystem \<Rightarrow> bool" where
  "cond_wait_state_free c s \<longleftrightarrow> (\<forall>u. case pcs s u of CondReleased c' b depth timed \<Rightarrow> c' \<noteq> c | _ \<Rightarrow> True)"

fun call_ok :: "pcall \<Rightarrow> psystem \<Rightarrow> bool" where
  "call_ok (MutexInit fresh mutex attr) s = fresh_mutex fresh s"
| "call_ok (CondInit fresh cond attr) s = (fresh_cond fresh s \<and> cond_lazy_init_free s)"
| "call_ok (CondDestroy cond) s = cond_lazy_init_free s"
| "call_ok (CondSignal cond) s = cond_lazy_init_free s"
| "call_ok (CondBroadcast cond) s = cond_lazy_init_free s"
| "call_ok (CondWait fresh cond mutex) s = (fresh_cond fresh s \<and> cond_lazy_init_free s)"
| "call_ok (CondTimedwait fresh cond mutex abstime now) s = (fresh_cond fresh s \<and> cond_lazy_init_free s)"
| "call_ok _ s = True"

text \<open>
  When a thread can go on, and whom it wakes: \<open>choice\<close> is the thread that is notified.
\<close>

definition continue_ok :: "tid \<Rightarrow> tid option \<Rightarrow> psystem \<Rightarrow> bool" where
  "continue_ok t choice s =
     (case pcs s t of
        Notifying b \<Rightarrow> locker_choice choice b s
      | CondReleased c b depth timed \<Rightarrow> locker_choice choice b s
      | CondNotifying c all \<Rightarrow> all \<or> waiter_choice choice c s
      | CondAwake c b depth timed \<Rightarrow> cond_wait_state_free c s
      | _ \<Rightarrow> True)"

definition timeout_ok :: "tid \<Rightarrow> psystem \<Rightarrow> bool" where
  "timeout_ok t s =
     (case pcs s t of
        CondAsleep c b depth timed \<Rightarrow> cond_wait_state_free c s
      | CondAwake c b depth timed \<Rightarrow> cond_wait_state_free c s
      | _ \<Rightarrow> True)"

definition spurious_wakeup :: "tid \<Rightarrow> psystem \<Rightarrow> psystem option" where
  "spurious_wakeup t s =
     (case pcs s t of
        LockAsleep k b \<Rightarrow> Some (wake_locker (Some t) s)
      | CondAsleep c b depth timed \<Rightarrow> Some (wake_waiter (Some t) s)
      | _ \<Rightarrow> None)"

definition time_out :: "tid \<Rightarrow> psystem \<Rightarrow> psystem option" where
  "time_out t s =
     (case pcs s t of
        CondAsleep c b depth timed \<Rightarrow> if timed then cond_wait_pass t True c b depth timed s else None
      | CondAwake c b depth timed \<Rightarrow> if timed then cond_wait_pass t True c b depth timed s else None
      | _ \<Rightarrow> None)"

inductive pstep :: "psystem \<Rightarrow> psystem \<Rightarrow> bool" where
  p_call: "t \<noteq> 0 \<Longrightarrow> pcs s t = Idle \<Longrightarrow> call_ok c s \<Longrightarrow> begin_call t c s = Some (r, s') \<Longrightarrow> pstep s s'"
| p_continue: "continue_ok t choice s \<Longrightarrow> continue t choice s = Some (r, s') \<Longrightarrow> pstep s s'"
| p_spurious: "spurious_wakeup t s = Some s' \<Longrightarrow> pstep s s'"
| p_timeout: "timeout_ok t s \<Longrightarrow> time_out t s = Some s' \<Longrightarrow> pstep s s'"

text \<open>At the start no box is allocated, the objects are uninitialised and no thread is inside.\<close>

definition pstart :: "psystem \<Rightarrow> bool" where
  "pstart s \<longleftrightarrow> mutex_boxes s = Map.empty \<and> cond_boxes s = Map.empty \<and> pcs s = (\<lambda>_. Idle)"

abbreviation preachable :: "psystem \<Rightarrow> bool" where
  "preachable \<equiv> reachable pstart pstep"

text \<open>Executions: calls, continuations, spurious wakeups and timeouts in the order of the schedule.\<close>

datatype event = Call tid pcall | Continue tid "tid option" | Spurious tid | Timeout tid

definition run_event :: "event \<Rightarrow> psystem \<Rightarrow> psystem option" where
  "run_event e s =
     (case e of
        Call t c \<Rightarrow> if t \<noteq> 0 \<and> pcs s t = Idle \<and> call_ok c s then map_option snd (begin_call t c s) else None
      | Continue t choice \<Rightarrow> if continue_ok t choice s then map_option snd (continue t choice s) else None
      | Spurious t \<Rightarrow> spurious_wakeup t s
      | Timeout t \<Rightarrow> if timeout_ok t s then time_out t s else None)"

primrec run_events :: "event list \<Rightarrow> psystem \<Rightarrow> psystem option" where
  "run_events [] s = Some s"
| "run_events (e # es) s = do { s \<leftarrow> run_event e s; run_events es s }"

lemma run_event_step: "run_event e s = Some s' \<Longrightarrow> pstep s s'"
  by (auto simp: run_event_def split: event.splits if_splits intro: pstep.intros)

lemma run_events_reachable: "run_events es s = Some s' \<Longrightarrow> preachable s \<Longrightarrow> preachable s'"
proof (induction es arbitrary: s)
  case (Cons e es)
  then obtain s1 where "run_event e s = Some s1" "run_events es s1 = Some s'" by (auto split: bind_splits)
  then show ?case using Cons.IH [OF _ reachable_step [OF Cons.prems(2) run_event_step]] by blast
qed simp

end
