(* ===== verification/Mutex_Inv.thy ===== *)
theory Mutex_Inv
  imports Mutex_Cond
begin

text \<open>
  The invariant of the mutexes and condition variables: every counter is the number of the
  threads it stands for, what a waiting thread refers to stays allocated, and the mutex is the
  waiter's again, at the depth it had, when a wait returns.
\<close>

section \<open>The invariant\<close>

definition lock_waiting :: "addr \<Rightarrow> pc \<Rightarrow> bool" where
  "lock_waiting b p \<longleftrightarrow> (case p of LockAsleep k b' \<Rightarrow> b' = b | LockAwake k b' \<Rightarrow> b' = b | _ \<Rightarrow> False)"

definition cond_referring :: "addr \<Rightarrow> pc \<Rightarrow> bool" where
  "cond_referring b p \<longleftrightarrow>
     (case p of
        Locking k try_only b' \<Rightarrow> b' = b \<and> k \<noteq> Plain
      | LockAsleep k b' \<Rightarrow> b' = b \<and> k \<noteq> Plain
      | LockAwake k b' \<Rightarrow> b' = b \<and> k \<noteq> Plain
      | CondReleased c b' depth timed \<Rightarrow> b' = b
      | CondAsleep c b' depth timed \<Rightarrow> b' = b
      | CondAwake c b' depth timed \<Rightarrow> b' = b
      | Unref b' depth x \<Rightarrow> b' = b
      | _ \<Rightarrow> False)"

text \<open>A waiter that tests the waiting condition in its next step; one that sleeps, or tests it.\<close>

definition cond_awake :: "addr \<Rightarrow> pc \<Rightarrow> bool" where
  "cond_awake c p \<longleftrightarrow>
     (case p of CondReleased c' b depth timed \<Rightarrow> c' = c | CondAwake c' b depth timed \<Rightarrow> c' = c | _ \<Rightarrow> False)"

definition cond_waiting :: "addr \<Rightarrow> pc \<Rightarrow> bool" where
  "cond_waiting c p \<longleftrightarrow> (case p of CondAsleep c' b depth timed \<Rightarrow> c' = c | _ \<Rightarrow> cond_awake c p)"

definition signalling :: "addr \<Rightarrow> pc \<Rightarrow> bool" where
  "signalling c p \<longleftrightarrow> p = CondNotifying c False"

lemmas pc_defs = lock_waiting_def cond_referring_def cond_awake_def cond_waiting_def signalling_def

lemma pc_simps [simp]:
  "lock_waiting b Idle = False" "lock_waiting b (Locking k try_only b') = False"
  "lock_waiting b (LockAsleep k b') \<longleftrightarrow> b' = b" "lock_waiting b (LockAwake k b') \<longleftrightarrow> b' = b"
  "lock_waiting b (Unlocking b') = False" "lock_waiting b (Notifying b') = False"
  "lock_waiting b (CondAsleep c b' d timed) = False" "lock_waiting b (CondAwake c b' d timed) = False"
  "lock_waiting b (Unref b' d x) = False"
  "cond_referring b Idle = False" "cond_referring b (Locking k try_only b') \<longleftrightarrow> b' = b \<and> k \<noteq> Plain"
  "cond_referring b (LockAsleep k b') \<longleftrightarrow> b' = b \<and> k \<noteq> Plain" "cond_referring b (LockAwake k b') \<longleftrightarrow> b' = b \<and> k \<noteq> Plain"
  "cond_referring b (Unlocking b') = False" "cond_referring b (Notifying b') = False"
  "cond_referring b (CondAsleep c b' d timed) \<longleftrightarrow> b' = b" "cond_referring b (CondAwake c b' d timed) \<longleftrightarrow> b' = b"
  "cond_referring b (Unref b' d x) \<longleftrightarrow> b' = b"
  "cond_awake c Idle = False" "cond_awake c (Locking k try_only b') = False"
  "cond_awake c (LockAsleep k b') = False" "cond_awake c (LockAwake k b') = False"
  "cond_awake c (Unlocking b') = False" "cond_awake c (Notifying b') = False"
  "cond_awake c (CondAsleep c' b' d timed) = False" "cond_awake c (CondAwake c' b' d timed) \<longleftrightarrow> c' = c"
  "cond_awake c (Unref b' d x) = False"
  "cond_waiting c Idle = False" "cond_waiting c (Locking k try_only b') = False"
  "cond_waiting c (LockAsleep k b') = False" "cond_waiting c (LockAwake k b') = False"
  "cond_waiting c (Unlocking b') = False" "cond_waiting c (Notifying b') = False"
  "cond_waiting c (CondAsleep c' b' d timed) \<longleftrightarrow> c' = c" "cond_waiting c (CondAwake c' b' d timed) \<longleftrightarrow> c' = c"
  "cond_waiting c (Unref b' d x) = False"
  "lock_waiting b (CondReleased c b' d timed) = False" "lock_waiting b (CondNotifying c all) = False"
  "cond_referring b (CondReleased c b' d timed) \<longleftrightarrow> b' = b" "cond_referring b (CondNotifying c all) = False"
  "cond_awake c (CondReleased c' b' d timed) \<longleftrightarrow> c' = c" "cond_awake c (CondNotifying c' all) = False"
  "cond_waiting c (CondReleased c' b' d timed) \<longleftrightarrow> c' = c" "cond_waiting c (CondNotifying c' all) = False"
  "signalling c Idle = False" "signalling c (Locking k try_only b') = False" "signalling c (LockAsleep k b') = False"
  "signalling c (LockAwake k b') = False" "signalling c (Unlocking b') = False" "signalling c (Notifying b') = False"
  "signalling c (CondReleased c' b' d timed) = False" "signalling c (CondAsleep c' b' d timed) = False"
  "signalling c (CondAwake c' b' d timed) = False" "signalling c (Unref b' d x) = False"
  "signalling c (CondNotifying c' all) \<longleftrightarrow> c' = c \<and> \<not> all"
  by (auto simp: pc_defs)

text \<open>Owner and depth belong together; only a recursive mutex is held more than once.\<close>

definition mutex_shape :: "mutex_state \<Rightarrow> bool" where
  "mutex_shape ms \<longleftrightarrow> (owner ms = None \<longleftrightarrow> recursion_depth ms = 0) \<and> recursion_depth ms \<le> USIZE_MAX \<and>
     (mutex_type ms = PTHREAD_MUTEX_RECURSIVE \<or> recursion_depth ms \<le> 1)"

definition mutex_cell :: "(tid \<Rightarrow> pc) \<Rightarrow> addr \<Rightarrow> mutex_state \<Rightarrow> bool" where
  "mutex_cell P b ms \<longleftrightarrow> mutex_shape ms \<and> waiter_count ms = count_threads (lock_waiting b) P \<and>
     cond_waiter_count ms = count_threads (cond_referring b) P"

definition broadcasting :: "addr \<Rightarrow> (tid \<Rightarrow> pc) \<Rightarrow> bool" where
  "broadcasting c P \<longleftrightarrow> (\<exists>u. P u = CondNotifying c True)"

lemma broadcasting_upd: "broadcasting c P \<Longrightarrow> P t \<noteq> CondNotifying c True \<Longrightarrow> broadcasting c (P(t := p))"
  unfolding broadcasting_def by (metis fun_upd_other)

text \<open>
  Every pending wakeup is for a waiter, and a waiter is about to test the condition for it unless a
  notification is still to come.
\<close>

definition cond_cell :: "(tid \<Rightarrow> pc) \<Rightarrow> addr \<Rightarrow> cond_state \<Rightarrow> bool" where
  "cond_cell P c cs \<longleftrightarrow> cond_waiters cs = count_threads (cond_waiting c) P \<and>
     pending_wakeups cs \<le> count_threads (cond_waiting c) P \<and>
     (pending_wakeups cs \<le> count_threads (cond_awake c) P + count_threads (signalling c) P \<or>
      broadcasting c P)"

definition wait_result :: "c_int \<Rightarrow> bool" where
  "wait_result r \<longleftrightarrow> r = 0 \<or> r = ETIMEDOUT"

text \<open>A thread that has released the mutex in a wait, with the depth it has to restore.\<close>

definition released :: "tid \<Rightarrow> nat \<Rightarrow> mutex_state \<Rightarrow> bool" where
  "released t depth ms \<longleftrightarrow> owner ms \<noteq> Some t \<and> 1 \<le> depth \<and> depth \<le> USIZE_MAX \<and>
     (mutex_type ms = PTHREAD_MUTEX_RECURSIVE \<or> depth = 1)"

definition thread_ok :: "tid \<Rightarrow> pc \<Rightarrow> (addr \<rightharpoonup> mutex_state) \<Rightarrow> bool" where
  "thread_ok t p M \<longleftrightarrow>
     (case p of
        LockAsleep Plain b \<Rightarrow> b \<in> dom M
      | LockAwake Plain b \<Rightarrow> b \<in> dom M
      | Locking (First depth r) try_only b \<Rightarrow> \<not> try_only \<and> wait_result r \<and> (\<exists>ms. M b = Some ms \<and> released t depth ms)
      | LockAsleep (First depth r) b \<Rightarrow> wait_result r \<and> (\<exists>ms. M b = Some ms \<and> released t depth ms)
      | LockAwake (First depth r) b \<Rightarrow> wait_result r \<and> (\<exists>ms. M b = Some ms \<and> released t depth ms)
      | Locking (More n depth r) try_only b \<Rightarrow> \<not> try_only \<and> wait_result r \<and> depth \<le> USIZE_MAX \<and>
          (\<exists>ms. M b = Some ms \<and> owner ms = Some t \<and> mutex_type ms = PTHREAD_MUTEX_RECURSIVE \<and>
             recursion_depth ms + n + 1 = depth)
      | LockAsleep (More n depth r) b \<Rightarrow> False
      | LockAwake (More n depth r) b \<Rightarrow> False
      | CondReleased c b depth timed \<Rightarrow> (\<exists>ms. M b = Some ms \<and> released t depth ms)
      | CondAsleep c b depth timed \<Rightarrow> (\<exists>ms. M b = Some ms \<and> released t depth ms)
      | CondAwake c b depth timed \<Rightarrow> (\<exists>ms. M b = Some ms \<and> released t depth ms)
      | Unref b depth x \<Rightarrow> wait_result x \<and> (\<exists>ms. M b = Some ms \<and> owner ms = Some t \<and> recursion_depth ms = depth)
      | _ \<Rightarrow> True)"

text \<open>A thread that needs the box of a condition variable.\<close>

definition cond_using :: "addr \<Rightarrow> pc \<Rightarrow> bool" where
  "cond_using c p \<longleftrightarrow> cond_waiting c p \<or> (\<exists>all. p = CondNotifying c all)"

lemma cond_using_simps [simp]:
  "cond_using c Idle = False" "cond_using c (Locking k try_only b') = False" "cond_using c (LockAsleep k b') = False"
  "cond_using c (LockAwake k b') = False" "cond_using c (Unlocking b') = False" "cond_using c (Notifying b') = False"
  "cond_using c (CondReleased c' b' d timed) \<longleftrightarrow> c' = c" "cond_using c (CondAsleep c' b' d timed) \<longleftrightarrow> c' = c"
  "cond_using c (CondAwake c' b' d timed) \<longleftrightarrow> c' = c" "cond_using c (Unref b' d x) = False"
  "cond_using c (CondNotifying c' all) \<longleftrightarrow> c' = c"
  by (auto simp: cond_using_def)

definition p_core :: "psystem \<Rightarrow> bool" where
  "p_core s \<longleftrightarrow> pcs s 0 = Idle \<and>
     (\<forall>b ms. mutex_boxes s b = Some ms \<longrightarrow> mutex_cell (pcs s) b ms) \<and>
     (\<forall>c cs. cond_boxes s c = Some cs \<longrightarrow> cond_cell (pcs s) c cs) \<and>
     (\<forall>t. thread_ok t (pcs s t) (mutex_boxes s) \<and> (\<forall>c. cond_using c (pcs s t) \<longrightarrow> c \<in> dom (cond_boxes s)))"

text \<open>A sleeper on a free mutex will be woken: somebody is awake, or about to notify.\<close>

definition p_live :: "psystem \<Rightarrow> bool" where
  "p_live s \<longleftrightarrow> (\<forall>b ms t k. mutex_boxes s b = Some ms \<longrightarrow> owner ms = None \<longrightarrow> pcs s t = LockAsleep k b \<longrightarrow>
     (\<exists>u. pcs s u = Notifying b \<or> (\<exists>k. pcs s u = LockAwake k b) \<or> (\<exists>c d timed. pcs s u = CondReleased c b d timed)))"

lemma p_coreD:
  assumes "p_core s"
  shows "pcs s 0 = Idle" "mutex_boxes s b = Some ms \<Longrightarrow> mutex_cell (pcs s) b ms"
    "cond_boxes s c = Some cs \<Longrightarrow> cond_cell (pcs s) c cs" "thread_ok t (pcs s t) (mutex_boxes s)"
    "cond_using c (pcs s t) \<Longrightarrow> c \<in> dom (cond_boxes s)"
  using assms unfolding p_core_def by blast+

text \<open>What may happen to a mutex cell while thread \<open>t\<close> moves, as the other threads see it.\<close>

definition owner_step :: "tid \<Rightarrow> mutex_state \<Rightarrow> mutex_state \<Rightarrow> bool" where
  "owner_step t ms ms' \<longleftrightarrow> mutex_type ms' = mutex_type ms \<and>
     (\<forall>u. u \<noteq> t \<longrightarrow> (owner ms' = Some u \<longleftrightarrow> owner ms = Some u) \<and>
        (owner ms = Some u \<longrightarrow> recursion_depth ms' = recursion_depth ms))"

lemma owner_step_refl [simp]: "owner_step t ms ms"
  by (simp add: owner_step_def)

lemma thread_ok_other:
  assumes "thread_ok u p M" "u \<noteq> t"
    and "\<And>b ms. M b = Some ms \<Longrightarrow> \<exists>ms'. M' b = Some ms' \<and> owner_step t ms ms'"
  shows "thread_ok u p M'"
proof -
  have dom: "b \<in> dom M \<Longrightarrow> b \<in> dom M'" for b using assms(3) by blast
  have rel: "\<exists>ms. M b = Some ms \<and> released u d ms \<Longrightarrow> \<exists>ms. M' b = Some ms \<and> released u d ms" for b d
  proof -
    assume "\<exists>ms. M b = Some ms \<and> released u d ms"
    then obtain ms ms' where "released u d ms" "M' b = Some ms'" "owner_step t ms ms'" using assms(3) by blast
    then show ?thesis using assms(2) by (auto simp: released_def owner_step_def)
  qed
  have own: "\<exists>ms. M b = Some ms \<and> owner ms = Some u \<and> Q (mutex_type ms) (recursion_depth ms) \<Longrightarrow>
      \<exists>ms. M' b = Some ms \<and> owner ms = Some u \<and> Q (mutex_type ms) (recursion_depth ms)" for b Q
  proof -
    assume "\<exists>ms. M b = Some ms \<and> owner ms = Some u \<and> Q (mutex_type ms) (recursion_depth ms)"
    then obtain ms ms' where "owner ms = Some u \<and> Q (mutex_type ms) (recursion_depth ms)" "M' b = Some ms'" "owner_step t ms ms'"
      using assms(3) by blast
    then show ?thesis using assms(2) by (auto simp: owner_step_def)
  qed
  show ?thesis
    using assms(1) dom rel own [where Q = "\<lambda>_ n. n = d" for d] own [where Q = "\<lambda>ty n. ty = PTHREAD_MUTEX_RECURSIVE \<and> n + k + 1 = d" for k d]
    unfolding thread_ok_def by (auto split: pc.splits purpose.splits)
qed

section \<open>Steps of one thread\<close>

definition mutex_moves :: "tid \<Rightarrow> pc \<Rightarrow> pc \<Rightarrow> addr \<Rightarrow> mutex_state \<Rightarrow> mutex_state \<Rightarrow> bool" where
  "mutex_moves t p p' b ms ms' \<longleftrightarrow> mutex_shape ms' \<and> owner_step t ms ms' \<and>
     waiter_count ms' + of_bool (lock_waiting b p) = waiter_count ms + of_bool (lock_waiting b p') \<and>
     cond_waiter_count ms' + of_bool (cond_referring b p) = cond_waiter_count ms + of_bool (cond_referring b p')"

definition cond_moves :: "pc \<Rightarrow> pc \<Rightarrow> addr \<Rightarrow> cond_state \<Rightarrow> cond_state \<Rightarrow> bool" where
  "cond_moves p p' c cs cs' \<longleftrightarrow>
     cond_waiters cs' + of_bool (cond_waiting c p) = cond_waiters cs + of_bool (cond_waiting c p') \<and>
     p \<noteq> CondNotifying c True \<and>
     (pending_wakeups cs' = 0 \<or>
      pending_wakeups cs' + of_bool (cond_waiting c p) \<le> pending_wakeups cs + of_bool (cond_waiting c p') \<and>
      pending_wakeups cs' + of_bool (cond_awake c p) + of_bool (signalling c p) \<le>
        pending_wakeups cs + of_bool (cond_awake c p') + of_bool (signalling c p'))"

lemma p_core_update:
  assumes core: "p_core s" and t: "t \<noteq> 0" and pcs: "pcs s' = (pcs s)(t := p)"
    and dom: "dom (mutex_boxes s') = dom (mutex_boxes s)" "dom (cond_boxes s') = dom (cond_boxes s)"
    and mutex: "\<And>b ms ms'. mutex_boxes s b = Some ms \<Longrightarrow> mutex_boxes s' b = Some ms' \<Longrightarrow> mutex_moves t (pcs s t) p b ms ms'"
    and cond: "\<And>c cs cs'. cond_boxes s c = Some cs \<Longrightarrow> cond_boxes s' c = Some cs' \<Longrightarrow> cond_moves (pcs s t) p c cs cs'"
    and thread: "thread_ok t p (mutex_boxes s')" "\<And>c. cond_using c p \<Longrightarrow> c \<in> dom (cond_boxes s)"
  shows "p_core s'"
  unfolding p_core_def
proof (intro conjI allI impI)
  note count = count_threads_upd [where pcs = "pcs s" and t = t and p = p, folded pcs]
  show "pcs s' 0 = Idle" using p_coreD(1) [OF core] t pcs by simp
  show "mutex_cell (pcs s') b ms'" if b: "mutex_boxes s' b = Some ms'" for b ms'
  proof -
    obtain ms where ms: "mutex_boxes s b = Some ms" using b dom by blast
    show ?thesis using p_coreD(2) [OF core ms] mutex [OF ms b] count [of "lock_waiting b"] count [of "cond_referring b"]
      unfolding mutex_cell_def mutex_moves_def by auto
  qed
  show "cond_cell (pcs s') c cs'" if c: "cond_boxes s' c = Some cs'" for c cs'
  proof -
    obtain cs where cs: "cond_boxes s c = Some cs" using c dom by blast
    have keep: "broadcasting c (pcs s) \<Longrightarrow> broadcasting c (pcs s')"
      using cond [OF cs c] pcs by (simp add: cond_moves_def broadcasting_upd)
    show ?thesis using p_coreD(3) [OF core cs] cond [OF cs c] keep
        count [of "cond_waiting c"] count [of "cond_awake c"] count [of "signalling c"]
      unfolding cond_cell_def cond_moves_def by auto
  qed
  show "thread_ok u (pcs s' u) (mutex_boxes s')" for u
  proof (cases "u = t")
    case False
    have "\<exists>ms'. mutex_boxes s' b = Some ms' \<and> owner_step t ms ms'" if "mutex_boxes s b = Some ms" for b ms
      using that dom mutex [OF that] by (fastforce simp: mutex_moves_def)
    then show ?thesis using thread_ok_other [OF p_coreD(4) [OF core] False] False pcs by simp
  qed (simp add: pcs thread)
  show "c \<in> dom (cond_boxes s')" if "cond_using c (pcs s' u)" for u c
    using that thread(2) p_coreD(5) [OF core, of c u] dom pcs by (cases "u = t") auto
qed

lemma mutex_moves_same: "mutex_cell P b ms \<Longrightarrow> lock_waiting b p = lock_waiting b p' \<Longrightarrow>
    cond_referring b p = cond_referring b p' \<Longrightarrow> mutex_moves t p p' b ms ms"
  by (simp add: mutex_moves_def mutex_cell_def)

lemma cond_moves_same: "cond_waiting c p = cond_waiting c p' \<Longrightarrow> cond_awake c p = cond_awake c p' \<Longrightarrow>
    signalling c p = signalling c p' \<Longrightarrow> p \<noteq> CondNotifying c True \<Longrightarrow> cond_moves p p' c cs cs"
  by (simp add: cond_moves_def)

definition refers_only :: "addr \<Rightarrow> pc \<Rightarrow> bool" where
  "refers_only b p \<longleftrightarrow> (\<forall>b'. b' \<noteq> b \<longrightarrow> \<not> lock_waiting b' p \<and> \<not> cond_referring b' p)"

lemma pth_goto_simps [simp]: "pcs (goto t p s) = (pcs s)(t := p)" "mutex_boxes (goto t p s) = mutex_boxes s"
    "cond_boxes (goto t p s) = cond_boxes s" "mutexes (goto t p s) = mutexes s" "conds (goto t p s) = conds s"
  by (simp_all add: goto_def)

lemma put_simps [simp]: "pcs (put_mutex b ms s) = pcs s" "mutex_boxes (put_mutex b ms s) = (mutex_boxes s)(b \<mapsto> ms)"
    "cond_boxes (put_mutex b ms s) = cond_boxes s" "pcs (put_cond c cs s) = pcs s"
    "mutex_boxes (put_cond c cs s) = mutex_boxes s" "cond_boxes (put_cond c cs s) = (cond_boxes s)(c \<mapsto> cs)"
    "mutexes (put_mutex b ms s) = mutexes s" "conds (put_cond c cs s) = conds s"
    "mutexes (put_cond c cs s) = mutexes s" "conds (put_mutex b ms s) = conds s"
  by (simp_all add: put_mutex_def put_cond_def)

lemma no_cond_use: "\<not> cond_using c p \<Longrightarrow>
    \<not> cond_waiting c p \<and> \<not> cond_awake c p \<and> \<not> signalling c p \<and> p \<noteq> CondNotifying c all"
  by (auto simp: cond_using_def signalling_def cond_waiting_def split: pc.splits)

text \<open>A step that works on one mutex.\<close>

lemma p_core_mutex:
  assumes core: "p_core s" and t: "t \<noteq> 0" and ms: "mutex_boxes s b = Some ms"
    and moves: "mutex_moves t (pcs s t) p b ms ms'" "refers_only b (pcs s t)" "refers_only b p"
    and cond: "\<And>c. \<not> cond_using c (pcs s t) \<and> \<not> cond_using c p"
    and thread: "thread_ok t p ((mutex_boxes s)(b \<mapsto> ms'))"
  shows "p_core (goto t p (put_mutex b ms' s))"
proof (rule p_core_update [OF core t])
  show "mutex_moves t (pcs s t) p b' m m'"
    if "mutex_boxes s b' = Some m" "mutex_boxes (goto t p (put_mutex b ms' s)) b' = Some m'" for b' m m'
  proof (cases "b' = b")
    case False
    then show ?thesis using that moves(2,3) p_coreD(2) [OF core that(1)]
      by (auto simp: refers_only_def intro!: mutex_moves_same)
  qed (use that moves ms in simp)
  show "dom (mutex_boxes (goto t p (put_mutex b ms' s))) = dom (mutex_boxes s)" using ms by auto
  show "cond_moves (pcs s t) p c k k'" if "cond_boxes s c = Some k" "cond_boxes (goto t p (put_mutex b ms' s)) c = Some k'" for c k k'
    using that no_cond_use [of c "pcs s t"] no_cond_use [of c p] cond [of c] by (auto intro!: cond_moves_same)
qed (use cond thread in auto)

lemma p_core_goto:
  assumes "p_core s" "t \<noteq> 0" and same: "\<And>b. lock_waiting b (pcs s t) = lock_waiting b p \<and> cond_referring b (pcs s t) = cond_referring b p"
    and cond: "\<And>c. \<not> cond_using c (pcs s t) \<and> \<not> cond_using c p"
    and thread: "thread_ok t p (mutex_boxes s)"
  shows "p_core (goto t p s)"
proof (rule p_core_update [OF assms(1,2)])
  show "mutex_moves t (pcs s t) p b m m'" if "mutex_boxes s b = Some m" "mutex_boxes (goto t p s) b = Some m'" for b m m'
    using that p_coreD(2) [OF assms(1) that(1)] same by (auto intro!: mutex_moves_same)
  show "cond_moves (pcs s t) p c k k'" if "cond_boxes s c = Some k" "cond_boxes (goto t p s) c = Some k'" for c k k'
    using that no_cond_use [of c "pcs s t"] no_cond_use [of c p] cond [of c] by (auto intro!: cond_moves_same)
qed (use cond thread in auto)

section \<open>Taking and releasing a mutex\<close>

lemma waiters_less:
  assumes "p_core s" "t \<noteq> 0" "mutex_boxes s b = Some ms"
  shows "\<not> lock_waiting b (pcs s t) \<Longrightarrow> waiter_count ms < USIZE_MAX"
    "\<not> cond_referring b (pcs s t) \<Longrightarrow> cond_waiter_count ms < USIZE_MAX"
    "lock_waiting b (pcs s t) \<Longrightarrow> 0 < waiter_count ms"
    "cond_referring b (pcs s t) \<Longrightarrow> 0 < cond_waiter_count ms"
  using p_coreD(1) [OF assms(1)] p_coreD(2) [OF assms(1,3)] assms(2)
    count_threads_less [of "lock_waiting b" "pcs s" t] count_threads_less [of "cond_referring b" "pcs s" t]
    count_threads_0 [of "lock_waiting b" "pcs s"] count_threads_0 [of "cond_referring b" "pcs s"]
  by (fastforce simp: mutex_cell_def)+

text \<open>The outcomes of a lock pass, as rules for the owner and the counter.\<close>

lemma mutex_lock_pass_cases:
  assumes "mutex_lock_pass t try_only waited ms = (out, ms')" "mutex_shape ms"
    and "if waited then 0 < waiter_count ms \<and> waiter_count ms \<le> USIZE_MAX \<and> \<not> try_only else waiter_count ms < USIZE_MAX"
  shows "mutex_shape ms' \<and> mutex_type ms' = mutex_type ms \<and> cond_waiter_count ms' = cond_waiter_count ms \<and>
     waiter_count ms' + of_bool waited = waiter_count ms + of_bool (out = Sleep) \<and> owner_step t ms ms' \<and>
     (out = Sleep \<longrightarrow> owner ms' = owner ms \<and> owner ms \<noteq> None) \<and>
     (out = Return 0 \<longrightarrow> owner ms' = Some t \<and>
        recursion_depth ms' = (if owner ms = None then 1 else saturating_add (recursion_depth ms) 1) \<and>
        (owner ms = None \<or> owner ms = Some t \<and> mutex_type ms = PTHREAD_MUTEX_RECURSIVE)) \<and>
     (out \<noteq> Sleep \<longrightarrow> owner ms' \<noteq> None) \<and>
     (owner ms \<noteq> Some t \<longrightarrow> try_only \<or> out = Return 0 \<or> out = Sleep) \<and>
     (owner ms = Some t \<longrightarrow> mutex_type ms = PTHREAD_MUTEX_RECURSIVE \<longrightarrow> out = Return 0)"
proof -
  have sat: "a < USIZE_MAX \<Longrightarrow> saturating_add a (Suc 0) = Suc a" for a by (rule saturating_add_less)
  have codes: "EBUSY \<noteq> 0" "EDEADLK \<noteq> 0" by (simp_all add: errno_defs)
  have bound: "saturating_add a b \<le> USIZE_MAX" "saturating_add a (Suc 0) \<noteq> 0" for a b
    by (simp_all add: saturating_add_def USIZE_MAX_def)
  have one: "Suc 0 \<le> USIZE_MAX" by (simp add: USIZE_MAX_def)
  show ?thesis
    using assms codes
    by (cases waited; cases "owner ms")
      (auto simp: mutex_lock_pass_def Let_def mutex_shape_def owner_step_def sat bound one split: if_splits)
qed

lemma waiter_bound: "p_core s \<Longrightarrow> mutex_boxes s b = Some ms \<Longrightarrow> waiter_count ms \<le> USIZE_MAX"
proof -
  assume core: "p_core s" and ms: "mutex_boxes s b = Some ms"
  have "count_threads (lock_waiting b) (pcs s) \<le> USIZE_MAX"
  proof -
    have "count_threads (lock_waiting b) ((pcs s)(1 := Idle)) < USIZE_MAX"
      using p_coreD(1) [OF core] by (intro count_threads_less [where t = 1]) simp_all
    then show ?thesis using count_threads_upd [of "lock_waiting b" "pcs s" 1 Idle] by (simp add: of_bool_def split: if_splits)
  qed
  then show ?thesis using p_coreD(2) [OF core ms] by (simp add: mutex_cell_def)
qed

lemma lock_internal_core:
  assumes core: "p_core s" and t: "t \<noteq> 0" and ms: "mutex_boxes s b = Some ms"
    and pc: "pcs s t = (if waited then LockAwake k b else Locking k try_only b)" "if waited then \<not> try_only else True"
    and pass: "mutex_lock_pass t try_only waited ms = (out, ms')"
    and p: "p = (case out of Sleep \<Rightarrow> LockAsleep k b
      | Return x \<Rightarrow> (case mutex_restore_cond_wait_lock_depth k x ms' b of None \<Rightarrow> Idle | Some p \<Rightarrow> p))"
  shows "p_core (goto t p (put_mutex b ms' s))"
proof -
  have shape: "mutex_shape ms" using p_coreD(2) [OF core ms] by (simp add: mutex_cell_def)
  have counts: "if waited then 0 < waiter_count ms \<and> waiter_count ms \<le> USIZE_MAX \<and> \<not> try_only else waiter_count ms < USIZE_MAX"
    using waiters_less [OF core t ms] pc waiter_bound [OF core ms] by (auto split: if_splits)
  note case' = mutex_lock_pass_cases [OF pass shape counts]
  have ok: "thread_ok t (pcs s t) (mutex_boxes s)" by (rule p_coreD(4) [OF core])
  have first: "wait_result r \<and> \<not> try_only \<and> released t d ms" if "k = First d r" for d r
    using ok pc ms that by (auto simp: thread_ok_def split: if_splits)
  have more: "wait_result r \<and> \<not> try_only \<and> d \<le> USIZE_MAX \<and> owner ms = Some t \<and> mutex_type ms = PTHREAD_MUTEX_RECURSIVE \<and>
      recursion_depth ms + n + 1 = d" if "k = More n d r" for n d r
    using ok pc ms that by (auto simp: thread_ok_def split: if_splits)
  have p_cases: "(k = Plain \<and> (p = Idle \<or> p = LockAsleep k b) \<or> k \<noteq> Plain \<and> cond_referring b p) \<and>
      (lock_waiting b p \<longleftrightarrow> out = Sleep) \<and> refers_only b p \<and> (\<forall>c. \<not> cond_using c p)"
    unfolding p mutex_restore_cond_wait_lock_depth_def
    by (auto simp: refers_only_def split: outcome.splits purpose.splits)
  have thread: "thread_ok t p ((mutex_boxes s)(b \<mapsto> ms'))"
  proof (cases k)
    case Plain
    then show ?thesis using p_cases by (auto simp: thread_ok_def)
  next
    case (First d r)
    note f = first [OF First]
    show ?thesis
    proof (cases out)
      case Sleep
      then show ?thesis using f case' First by (simp add: p thread_ok_def released_def)
    next
      case (Return x)
      then have x: "out = Return 0" "x = 0" using case' f by (auto simp: released_def)
      then have "owner ms' = Some t" "recursion_depth ms' = 1" "mutex_type ms' = mutex_type ms"
        using case' f by (auto simp: released_def)
      then show ?thesis
        using f x First by (auto simp: p mutex_restore_cond_wait_lock_depth_def thread_ok_def released_def)
    qed
  next
    case (More n d r)
    note f = more [OF More]
    then have x: "out = Return 0" using case' by auto
    then have "owner ms' = Some t" "recursion_depth ms' = Suc (recursion_depth ms)" "mutex_type ms' = mutex_type ms"
      using case' f saturating_add_less [of "recursion_depth ms"] by auto
    then show ?thesis
      using f x More by (auto simp: p mutex_restore_cond_wait_lock_depth_def thread_ok_def)
  qed
  show ?thesis
  proof (rule p_core_mutex [OF core t ms])
    show "mutex_moves t (pcs s t) p b ms ms'"
      using case' p_cases pc by (auto simp: mutex_moves_def split: if_splits)
    show "refers_only b (pcs s t)" using pc by (simp add: refers_only_def)
    show "\<not> cond_using c (pcs s t) \<and> \<not> cond_using c p" for c
      using pc p_cases by simp
  qed (use p_cases thread in auto)
qed

text \<open>Waking threads.\<close>

lemma p_core_wake_locker: "p_core s \<Longrightarrow> p_core (wake_locker choice s)"
proof -
  assume core: "p_core s"
  have "p_core (goto u (LockAwake k b) s)" if u: "pcs s u = LockAsleep k b" for u k b
  proof (rule p_core_goto [OF core])
    show "u \<noteq> 0" using u p_coreD(1) [OF core] by auto
    show "thread_ok u (LockAwake k b) (mutex_boxes s)"
      using p_coreD(4) [OF core, of u] u by (cases k) (simp_all add: thread_ok_def)
  qed (simp_all add: u)
  then show ?thesis using core by (auto simp: wake_locker_def split: option.split pc.split)
qed

lemma p_core_wake_waiter: "p_core s \<Longrightarrow> p_core (wake_waiter choice s)"
proof -
  assume core: "p_core s"
  have "p_core (goto u (CondAwake c b d timed) s)" if u: "pcs s u = CondAsleep c b d timed" for u c b d timed
  proof (rule p_core_update [OF core])
    show "u \<noteq> 0" using u p_coreD(1) [OF core] by auto
    show "mutex_moves u (pcs s u) (CondAwake c b d timed) b' m m'"
      if "mutex_boxes s b' = Some m" "mutex_boxes (goto u (CondAwake c b d timed) s) b' = Some m'" for b' m m'
      using that u p_coreD(2) [OF core that(1)] by (auto intro!: mutex_moves_same)
    show "thread_ok u (CondAwake c b d timed) (mutex_boxes (goto u (CondAwake c b d timed) s))"
      using p_coreD(4) [OF core, of u] u by (simp add: thread_ok_def)
    show "c' \<in> dom (cond_boxes s)" if "cond_using c' (CondAwake c b d timed)" for c'
      using that u p_coreD(5) [OF core, of c' u] by simp
  qed (auto simp: u cond_moves_def)
  then show ?thesis using core by (auto simp: wake_waiter_def split: option.split pc.split)
qed

lemma wake_all_waiters_simps [simp]: "mutex_boxes (wake_all_waiters c s) = mutex_boxes s"
    "cond_boxes (wake_all_waiters c s) = cond_boxes s"
  by (simp_all add: wake_all_waiters_def)

lemma wake_all_waiters_pc: "pcs (wake_all_waiters c s) u = (case pcs s u of
     CondAsleep c' b d timed \<Rightarrow> if c' = c then CondAwake c' b d timed else CondAsleep c' b d timed | p \<Rightarrow> p)"
  by (simp add: wake_all_waiters_def)

lemma count_threads_mono: "(\<And>u. P (f u) \<Longrightarrow> Q (g u)) \<Longrightarrow> count_threads P f \<le> count_threads Q g"
  unfolding count_threads_def by (rule sum_mono) (simp add: of_bool_def)

lemma count_threads_cong: "(\<And>u. P (f u) = Q (g u)) \<Longrightarrow> count_threads P f = count_threads Q g"
  by (simp add: count_threads_def)

text \<open>The end of a broadcast: all waiters are awake, and the thread returns.\<close>

lemma p_core_wake_all:
  assumes core: "p_core s" and t: "pcs s t = CondNotifying c True"
  shows "p_core (goto t Idle (wake_all_waiters c s))"
proof -
  let ?s = "goto t Idle (wake_all_waiters c s)"
  have same: "lock_waiting b (pcs ?s u) = lock_waiting b (pcs s u)" "cond_referring b (pcs ?s u) = cond_referring b (pcs s u)"
    "cond_waiting c' (pcs ?s u) = cond_waiting c' (pcs s u)" "cond_awake c' (pcs s u) \<Longrightarrow> cond_awake c' (pcs ?s u)"
    "signalling c' (pcs ?s u) = signalling c' (pcs s u)" "cond_awake c (pcs ?s u) = cond_waiting c (pcs s u)"
    "cond_using c' (pcs ?s u) \<Longrightarrow> cond_using c' (pcs s u)"
    "thread_ok u (pcs s u) M \<Longrightarrow> thread_ok u (pcs ?s u) M" for u b c' M
    using t by (auto simp: wake_all_waiters_pc thread_ok_def split: pc.splits if_splits)
  have counts: "count_threads (lock_waiting b) (pcs ?s) = count_threads (lock_waiting b) (pcs s)"
    "count_threads (cond_referring b) (pcs ?s) = count_threads (cond_referring b) (pcs s)"
    "count_threads (cond_waiting c') (pcs ?s) = count_threads (cond_waiting c') (pcs s)"
    "count_threads (signalling c') (pcs ?s) = count_threads (signalling c') (pcs s)"
    "count_threads (cond_awake c') (pcs s) \<le> count_threads (cond_awake c') (pcs ?s)"
    "count_threads (cond_awake c) (pcs ?s) = count_threads (cond_waiting c) (pcs s)" for b c'
    using same by (auto intro!: count_threads_cong count_threads_mono)
  show "p_core ?s" unfolding p_core_def
  proof (intro conjI allI impI)
    show "pcs ?s 0 = Idle" using p_coreD(1) [OF core] by (simp add: wake_all_waiters_pc)
    show "mutex_cell (pcs ?s) b ms" if "mutex_boxes ?s b = Some ms" for b ms
      using p_coreD(2) [OF core, of b ms] that counts(1,2) [of b] by (simp add: mutex_cell_def)
    show "cond_cell (pcs ?s) c' cs" if "cond_boxes ?s c' = Some cs" for c' cs
    proof -
      have cell: "cond_cell (pcs s) c' cs" using p_coreD(3) [OF core, of c' cs] that by simp
      show ?thesis
      proof (cases "c' = c")
        case True
        then show ?thesis using cell counts(3,6) unfolding cond_cell_def by simp
      next
        case False
        have "broadcasting c' (pcs ?s)" if broad: "broadcasting c' (pcs s)"
        proof -
          obtain u where u: "pcs s u = CondNotifying c' True" using broad by (auto simp: broadcasting_def)
          then have "u \<noteq> t" using False t by auto
          then have "pcs ?s u = CondNotifying c' True" using u by (simp add: wake_all_waiters_pc)
          then show ?thesis unfolding broadcasting_def by blast
        qed
        then show ?thesis using cell counts(3,4,5) [of c'] unfolding cond_cell_def by linarith
      qed
    qed
    show "thread_ok u (pcs ?s u) (mutex_boxes ?s)" for u using same(8) p_coreD(4) [OF core] by simp
    show "c' \<in> dom (cond_boxes ?s)" if "cond_using c' (pcs ?s u)" for u c'
      using p_coreD(5) [OF core, of c' u] same(7) [OF that] by simp
  qed
qed

text \<open>The end of a signal: one waiter is awake, or there is none asleep, and the thread returns.\<close>

lemma count_threads_le: "count_threads (cond_awake c) P \<le> count_threads (cond_waiting c) P"
  by (rule count_threads_mono) (auto simp: cond_waiting_def cond_awake_def split: pc.splits)

lemma p_core_woken:
  assumes core: "p_core s" and t: "pcs s t = CondNotifying c False"
    and enough: "\<And>cs. cond_boxes s c = Some cs \<Longrightarrow>
      pending_wakeups cs < count_threads (cond_awake c) (pcs s) + count_threads (signalling c) (pcs s) \<or>
      pending_wakeups cs \<le> count_threads (cond_awake c) (pcs s) \<or> broadcasting c (pcs s)"
  shows "p_core (goto t Idle s)"
proof -
  note count = count_threads_upd [where pcs = "pcs s" and t = t and p = Idle]
  have other: "broadcasting c' (pcs s) \<Longrightarrow> broadcasting c' ((pcs s)(t := Idle))" for c'
    using t by (simp add: broadcasting_upd)
  have "cond_cell ((pcs s)(t := Idle)) c' cs" if cs: "cond_boxes s c' = Some cs" for c' cs
    using p_coreD(3) [OF core cs] count [of "cond_waiting c'"] count [of "cond_awake c'"] count [of "signalling c'"] t enough cs other [of c']
    unfolding cond_cell_def by (cases "c' = c") auto
  moreover have "mutex_cell ((pcs s)(t := Idle)) b ms" if "mutex_boxes s b = Some ms" for b ms
    using p_coreD(2) [OF core that] count [of "lock_waiting b"] count [of "cond_referring b"] t by (simp add: mutex_cell_def)
  moreover have "thread_ok u (((pcs s)(t := Idle)) u) (mutex_boxes s)" for u
    using p_coreD(4) [OF core, of u] by (simp add: thread_ok_def)
  moreover have "c' \<in> dom (cond_boxes s)" if "cond_using c' (((pcs s)(t := Idle)) u)" for u c'
    using p_coreD(5) [OF core, of c' u] that by (auto split: if_splits)
  ultimately show ?thesis using p_coreD(1) [OF core] unfolding p_core_def by simp
qed

lemma signal_core:
  assumes core: "p_core s" and t: "pcs s t = CondNotifying c False" and choice: "waiter_choice choice c s"
  shows "p_core (goto t Idle (wake_waiter choice s))"
proof (rule p_core_woken [OF p_core_wake_waiter [OF core]])
  show "pcs (wake_waiter choice s) t = CondNotifying c False"
    using t by (auto simp: wake_waiter_def split: option.split pc.split)
  fix cs assume "cond_boxes (wake_waiter choice s) c = Some cs"
  then have cs: "cond_boxes s c = Some cs" by (auto simp: wake_waiter_def split: option.splits pc.splits)
  note cell = p_coreD(3) [OF core cs]
  show "pending_wakeups cs < count_threads (cond_awake c) (pcs (wake_waiter choice s)) + count_threads (signalling c) (pcs (wake_waiter choice s)) \<or>
      pending_wakeups cs \<le> count_threads (cond_awake c) (pcs (wake_waiter choice s)) \<or>
      broadcasting c (pcs (wake_waiter choice s))"
  proof (cases choice)
    case None
    then have "count_threads (cond_waiting c) (pcs s) = count_threads (cond_awake c) (pcs s)"
      using choice by (intro count_threads_cong) (auto simp: waiter_choice_def cond_waiting_def split: pc.split)
    then show ?thesis using cell None by (simp add: wake_waiter_def cond_cell_def)
  next
    case (Some u)
    then obtain b d timed where u: "pcs s u = CondAsleep c b d timed" using choice by (auto simp: waiter_choice_def)
    let ?P = "(pcs s)(u := CondAwake c b d timed)"
    have "count_threads (cond_awake c) ?P = Suc (count_threads (cond_awake c) (pcs s))"
      "count_threads (signalling c) ?P = count_threads (signalling c) (pcs s)"
      using count_threads_upd [of "cond_awake c" "pcs s" u "CondAwake c b d timed"]
        count_threads_upd [of "signalling c" "pcs s" u "CondAwake c b d timed"] u by simp_all
    moreover have "broadcasting c (pcs s) \<Longrightarrow> broadcasting c ?P" using u by (simp add: broadcasting_upd)
    ultimately show ?thesis using cell Some u unfolding cond_cell_def by (auto simp: wake_waiter_def)
  qed
qed

section \<open>Waiting on a condition variable\<close>

lemma cond_wait_pass_core:
  assumes core: "p_core s"
    and pc: "pcs s t = CondAsleep c b d timed \<or> pcs s t = CondAwake c b d timed \<or> pcs s t = CondReleased c b d timed"
  shows "\<exists>s'. cond_wait_pass t elapsed c b d timed s = Some s' \<and> p_core s'"
proof -
  have t: "t \<noteq> 0" using pc p_coreD(1) [OF core] by auto
  have "c \<in> dom (cond_boxes s)" using p_coreD(5) [OF core, of c t] pc by auto
  then obtain cs where cs: "cond_boxes s c = Some cs" by auto
  have "cond_waiting c (pcs s t)" using pc by auto
  then have waiters: "0 < cond_waiters cs"
    using p_coreD(3) [OF core cs] count_threads_0 [of "cond_waiting c" "pcs s"] unfolding cond_cell_def by fastforce
  have rel: "\<exists>ms. mutex_boxes s b = Some ms \<and> released t d ms"
    using p_coreD(4) [OF core, of t] pc by (auto simp: thread_ok_def)
  have same: "mutex_moves t (pcs s t) p b' m m" if "mutex_boxes s b' = Some m" "p = CondAsleep c b d timed \<or> p = Locking (First d r) False b" for p b' m r
    using that pc p_coreD(2) [OF core that(1)] by (auto intro!: mutex_moves_same)
  have "p_core (goto t (CondAsleep c b d timed) s)" if "pending_wakeups cs = 0"
  proof (rule p_core_update [OF core t])
    show "cond_moves (pcs s t) (CondAsleep c b d timed) c' k k'"
      if "cond_boxes s c' = Some k" "cond_boxes (goto t (CondAsleep c b d timed) s) c' = Some k'" for c' k k'
      using that pc cs \<open>pending_wakeups cs = 0\<close> by (cases "c' = c") (auto simp: cond_moves_def)
  qed (use same rel cs in \<open>auto simp: thread_ok_def\<close>)
  moreover have "p_core (goto t (Locking (First d r) False b) (put_cond c cs' s))"
    if "wait_result r" "cond_waiters cs' = cond_waiters cs - 1" "pending_wakeups cs' = pending_wakeups cs - 1" for r cs'
  proof (rule p_core_update [OF core t])
    fix c' k k' assume "cond_boxes s c' = Some k" "cond_boxes (goto t (Locking (First d r) False b) (put_cond c cs' s)) c' = Some k'"
    then show "cond_moves (pcs s t) (Locking (First d r) False b) c' k k'"
      using pc cs waiters that by (cases "c' = c") (auto simp: cond_moves_def)
  qed (use same rel that cs in \<open>auto simp: thread_ok_def\<close>)
  ultimately show ?thesis
    using cs by (auto simp: cond_wait_pass_def Let_def wait_result_def)
qed

section \<open>Every step preserves the invariant\<close>

lemma unlock_moves:
  assumes "mutex_unlock_internal t for_cond ms = (r, notify, ms')" "mutex_shape ms" "lock_waiting b p = lock_waiting b p'"
    "cond_referring b p = cond_referring b p'"
  shows "mutex_moves t p p' b ms ms'" "r \<noteq> 0 \<Longrightarrow> ms' = ms \<and> \<not> notify" "notify \<longleftrightarrow> owner ms = Some t \<and> owner ms' = None"
    "for_cond \<Longrightarrow> owner ms = Some t \<Longrightarrow> r = 0 \<and> notify" "\<not> notify \<Longrightarrow> owner ms' = owner ms"
  using assms by (auto simp: mutex_unlock_internal_def mutex_moves_def mutex_shape_def owner_step_def errno_defs split: if_splits)

lemma continue_core:
  assumes core: "p_core s" and ok: "continue_ok t choice s" and step: "continue t choice s = Some (r, s')"
  shows "p_core s'"
proof -
  have t: "t \<noteq> 0" using step p_coreD(1) [OF core] by (cases "t = 0") (auto simp: continue_def)
  have lock: "p_core s'" if "mutex_lock_internal t k try_only waited b s = Some (r, s')"
    "pcs s t = (if waited then LockAwake k b else Locking k try_only b)" "if waited then \<not> try_only else True" for k try_only waited b
  proof -
    note run = that
    obtain ms where ms: "mutex_boxes s b = Some ms"
      using run(1) by (auto simp: mutex_lock_internal_def split: bind_splits)
    obtain out ms' where pass: "mutex_lock_pass t try_only waited ms = (out, ms')"
      by (cases "mutex_lock_pass t try_only waited ms")
    show ?thesis
      using lock_internal_core [OF core t ms run(2,3) pass refl] run(1) ms pass
      by (auto simp: mutex_lock_internal_def split: outcome.splits option.splits)
  qed
  show ?thesis
  proof (cases "pcs s t")
    case (Unlocking b)
    then obtain ms x notify ms' where u: "mutex_boxes s b = Some ms" "mutex_unlock_internal t False ms = (x, notify, ms')"
      and s': "s' = goto t (if notify then Notifying b else Idle) (put_mutex b ms' s)"
      using step by (auto simp: continue_def split: bind_splits prod.splits if_splits)
    have shape: "mutex_shape ms" using p_coreD(2) [OF core u(1)] by (simp add: mutex_cell_def)
    show ?thesis unfolding s'
      by (rule p_core_mutex [OF core t u(1)])
        (use Unlocking unlock_moves(1) [OF u(2) shape] in \<open>auto simp: refers_only_def thread_ok_def\<close>)
  next
    case (Notifying b)
    define w where "w = wake_locker choice s"
    have w: "p_core w" unfolding w_def by (rule p_core_wake_locker [OF core])
    have pc: "pcs w t = Notifying b"
      using Notifying by (auto simp: w_def wake_locker_def split: option.split pc.split)
    have "p_core (goto t Idle w)" by (rule p_core_goto [OF w t]) (simp_all add: pc thread_ok_def)
    then show ?thesis using step Notifying by (auto simp: continue_def w_def split: bind_splits)
  next
    case (CondReleased c b d timed)
    then have "pcs (wake_locker choice s) t = CondReleased c b d timed"
      by (auto simp: wake_locker_def split: option.split pc.split)
    then show ?thesis
      using step CondReleased cond_wait_pass_core [OF p_core_wake_locker [OF core], of choice t c b d timed False]
      by (auto simp: continue_def split: bind_splits)
  next
    case (CondNotifying c all)
    then show ?thesis
      using step ok p_core_wake_all [OF core, of t c] signal_core [OF core, of t c choice]
      by (cases all) (auto simp: continue_def continue_ok_def split: bind_splits)
  next
    case (CondAwake c b d timed)
    then show ?thesis using step cond_wait_pass_core [OF core, of t c b d timed False]
      by (auto simp: continue_def split: bind_splits)
  next
    case (Unref b d x)
    then obtain ms where ms: "mutex_boxes s b = Some ms"
      and s': "s' = goto t Idle (put_mutex b (mutex_remove_cond_waiter_reference ms) s)"
      using step by (auto simp: continue_def split: bind_splits)
    have "0 < cond_waiter_count ms" using waiters_less(4) [OF core t ms] Unref by simp
    then show ?thesis unfolding s'
      using p_coreD(2) [OF core ms] Unref
      by (intro p_core_mutex [OF core t ms])
        (auto simp: mutex_cell_def mutex_moves_def mutex_shape_def owner_step_def mutex_remove_cond_waiter_reference_def
          refers_only_def thread_ok_def)
  qed (use step lock in \<open>auto simp: continue_def\<close>)
qed

text \<open>A thread that waits, or is about to finish a wait, finds the state it needs.\<close>

lemma continue_defined:
  assumes core: "p_core s"
    and pc: "(\<exists>k b. pcs s t = LockAwake k b) \<or> (\<exists>k try_only b. pcs s t = Locking k try_only b \<and> k \<noteq> Plain) \<or>
      (\<exists>c b d timed. pcs s t = CondReleased c b d timed \<or> pcs s t = CondAwake c b d timed) \<or>
      (\<exists>c all. pcs s t = CondNotifying c all) \<or> (\<exists>b d x. pcs s t = Unref b d x)"
  shows "continue t choice s \<noteq> None"
proof -
  have lock: "mutex_lock_internal t k try_only waited b s \<noteq> None" if "b \<in> dom (mutex_boxes s)" for k try_only waited b
    using that by (auto simp: mutex_lock_internal_def split: prod.split outcome.split option.split)
  have dom: "b \<in> dom (mutex_boxes s)" if "pcs s t = LockAwake k b \<or> pcs s t = Locking k try_only b \<and> k \<noteq> Plain" for k try_only b
    using that p_coreD(4) [OF core, of t] by (cases k) (auto simp: thread_ok_def)
  from pc show ?thesis
  proof (elim disjE exE conjE)
    fix c b d timed assume "pcs s t = CondAwake c b d timed"
    then show ?thesis using cond_wait_pass_core [OF core, of t c b d timed False] by (auto simp: continue_def)
  next
    fix c b d timed assume pc: "pcs s t = CondReleased c b d timed"
    then have "pcs (wake_locker choice s) t = CondReleased c b d timed"
      by (auto simp: wake_locker_def split: option.split pc.split)
    then have "cond_wait_pass t False c b d timed (wake_locker choice s) \<noteq> None"
      using cond_wait_pass_core [OF p_core_wake_locker [OF core], of choice t c b d timed False] by auto
    moreover have "b \<in> dom (mutex_boxes s)" using p_coreD(4) [OF core, of t] pc by (auto simp: thread_ok_def)
    ultimately show ?thesis using pc by (auto simp: continue_def)
  next
    fix c all assume "pcs s t = CondNotifying c all"
    then show ?thesis using p_coreD(5) [OF core, of c t] by (auto simp: continue_def)
  next
    fix b d x assume "pcs s t = Unref b d x"
    then show ?thesis using p_coreD(4) [OF core, of t] by (auto simp: continue_def thread_ok_def)
  qed (use lock dom in \<open>fastforce simp: continue_def\<close>)+
qed

lemma p_core_cong: "p_core s \<Longrightarrow> pcs s' = pcs s \<Longrightarrow> mutex_boxes s' = mutex_boxes s \<Longrightarrow> cond_boxes s' = cond_boxes s \<Longrightarrow> p_core s'"
  by (simp add: p_core_def)

lemma thread_ok_refers: "thread_ok t p M \<Longrightarrow> lock_waiting b p \<or> cond_referring b p \<Longrightarrow> b \<in> dom M"
  by (auto simp: thread_ok_def pc_defs split: pc.splits purpose.splits)

lemma thread_ok_cong:
  assumes "\<And>b. lock_waiting b p \<or> cond_referring b p \<Longrightarrow> M b = M' b"
  shows "thread_ok t p M \<Longrightarrow> thread_ok t p M'"
proof -
  have "b \<in> dom M \<longleftrightarrow> b \<in> dom M'" if "M b = M' b" for b using that by (simp add: domIff)
  then show "thread_ok t p M \<Longrightarrow> ?thesis"
    using assms by (auto simp: thread_ok_def pc_defs split: pc.splits purpose.splits)
qed

lemma p_core_new_mutex:
  assumes core: "p_core s" and fresh: "mutex_boxes s b = None" and shape: "owner ms = None" "recursion_depth ms = 0"
    "waiter_count ms = 0" "cond_waiter_count ms = 0"
  shows "p_core (put_mutex b ms s)"
proof -
  have none: "\<not> lock_waiting b (pcs s t) \<and> \<not> cond_referring b (pcs s t)" for t
    using thread_ok_refers [OF p_coreD(4) [OF core]] fresh by blast
  then have "mutex_cell (pcs s) b ms" using shape by (simp add: mutex_cell_def mutex_shape_def count_threads_0 USIZE_MAX_def)
  moreover have "thread_ok t (pcs s t) (mutex_boxes (put_mutex b ms s))" for t
    using none by (intro thread_ok_cong [OF _ p_coreD(4) [OF core]]) auto
  ultimately show ?thesis using core by (auto simp: p_core_def)
qed

lemma p_core_free_mutex:
  assumes core: "p_core s" and ms: "mutex_boxes s b = Some ms" and free: "waiter_count ms = 0" "cond_waiter_count ms = 0"
  shows "p_core (s\<lparr>mutex_boxes := (mutex_boxes s)(b := None), mutexes := x\<rparr>)"
proof -
  have none: "\<not> lock_waiting b (pcs s t) \<and> \<not> cond_referring b (pcs s t)" for t
    using p_coreD(2) [OF core ms] free by (simp add: mutex_cell_def count_threads_0)
  then have "thread_ok t (pcs s t) ((mutex_boxes s)(b := None))" for t
    by (intro thread_ok_cong [OF _ p_coreD(4) [OF core]]) auto
  then show ?thesis using core by (auto simp: p_core_def)
qed

lemma p_core_new_cond:
  assumes core: "p_core s" and fresh: "cond_boxes s c = None"
  shows "p_core (put_cond c cond_new s)"
proof -
  have "\<not> cond_waiting c (pcs s t)" for t using p_coreD(5) [OF core, of c t] fresh by (auto simp: cond_using_def)
  then have "cond_cell (pcs s) c cond_new" by (simp add: cond_cell_def cond_new_def count_threads_0)
  then show ?thesis using core by (auto simp: p_core_def)
qed

lemma p_core_free_cond:
  assumes core: "p_core s" and cs: "cond_boxes s c = Some cs" and free: "cond_waiters cs = 0" "cond_lazy_init_free s"
  shows "p_core (s\<lparr>cond_boxes := (cond_boxes s)(c := None), conds := x\<rparr>)"
proof -
  have "\<not> cond_waiting c (pcs s t)" for t
    using p_coreD(3) [OF core cs] free(1) by (simp add: cond_cell_def count_threads_0)
  moreover have "pcs s t \<noteq> CondNotifying c all" for t all
    using spec [OF free(2) [unfolded cond_lazy_init_free_def], of t] by auto
  ultimately have "\<not> cond_using c (pcs s t)" for t unfolding cond_using_def by blast
  then have "c' \<in> dom ((cond_boxes s)(c := None))" if "cond_using c' (pcs s t)" for c' t
    using p_coreD(5) [OF core that] that by auto
  then show ?thesis using core unfolding p_core_def by simp
qed

text \<open>The work of a signal and of a broadcast on the state.\<close>

lemma notifying_core:
  assumes core: "p_core s" and t: "t \<noteq> 0" "pcs s t = Idle" and cs: "cond_boxes s c = Some cs"
    and n: "n \<le> cond_waiters cs" "all \<or> n \<le> Suc (pending_wakeups cs)"
  shows "p_core (goto t (CondNotifying c all) (put_cond c (cs\<lparr>pending_wakeups := n\<rparr>) s))"
proof -
  let ?P = "(pcs s)(t := CondNotifying c all)"
  note count = count_threads_upd [where pcs = "pcs s" and t = t and p = "CondNotifying c all"]
  have keep: "broadcasting c' (pcs s) \<Longrightarrow> broadcasting c' ?P" for c' using t by (simp add: broadcasting_upd)
  have cells: "cond_cell ?P c' (if c' = c then cs\<lparr>pending_wakeups := n\<rparr> else k)" if k: "cond_boxes s c' = Some k" for c' k
  proof -
    have cell: "cond_cell (pcs s) c' k" by (rule p_coreD(3) [OF core k])
    have same: "count_threads (cond_waiting c') ?P = count_threads (cond_waiting c') (pcs s)"
      "count_threads (cond_awake c') ?P = count_threads (cond_awake c') (pcs s)"
      "count_threads (signalling c') ?P = count_threads (signalling c') (pcs s) + of_bool (c' = c \<and> \<not> all)"
      using count [of "cond_waiting c'"] count [of "cond_awake c'"] count [of "signalling c'"] t by auto
    have "broadcasting c ?P" if all unfolding broadcasting_def by (rule exI [of _ t]) (simp add: that)
    then show ?thesis using cell same cs k n keep [of c'] unfolding cond_cell_def by (cases "c' = c"; cases all) auto
  qed
  have "cond_cell ?P c' k" if "((cond_boxes s)(c \<mapsto> cs\<lparr>pending_wakeups := n\<rparr>)) c' = Some k" for c' k
  proof (cases "c' = c")
    case True
    then show ?thesis using that cs cells [of c cs] by simp
  next
    case False
    then show ?thesis using that cells [of c' k] by simp
  qed
  moreover have "mutex_cell ?P b ms" if "mutex_boxes s b = Some ms" for b ms
    using p_coreD(2) [OF core that] count [of "lock_waiting b"] count [of "cond_referring b"] t by (simp add: mutex_cell_def)
  moreover have "thread_ok u (?P u) (mutex_boxes s)" for u
    using p_coreD(4) [OF core, of u] by (simp add: thread_ok_def)
  moreover have "c' \<in> dom ((cond_boxes s)(c \<mapsto> x))" if "cond_using c' (?P u)" for u c' x
    using p_coreD(5) [OF core, of c' u] that by (auto split: if_splits)
  ultimately show ?thesis using p_coreD(1) [OF core] t unfolding p_core_def by simp
qed

text \<open>The first part of a wait.\<close>

lemma goto_goto [simp]: "goto t p (goto t q s) = goto t p s" "put_cond c cs (goto t p s) = goto t p (put_cond c cs s)"
  by (simp_all add: goto_def put_cond_def)

lemma lazy_init_core:
  assumes core: "p_core s" and fresh: "fresh_cond fresh s"
    and eq: "cond_state_from_raw_or_lazy_init_locked fresh cond s = Some (r, s')"
  shows "p_core s' \<and> pcs s' = pcs s \<and> mutexes s' = mutexes s \<and> mutex_boxes s' = mutex_boxes s"
proof -
  have "p_core (put_cond fresh cond_new (s\<lparr>conds := x\<rparr>))" for x
    using fresh by (intro p_core_new_cond p_core_cong [OF core]) (simp_all add: fresh_cond_def)
  then show ?thesis
    using eq core by (auto simp: cond_state_from_raw_or_lazy_init_locked_def put_cond_def split: if_splits bind_splits)
qed

lemma wait_registered:
  assumes core: "p_core s" and t: "t \<noteq> 0" "pcs s t = Idle" and ms: "mutex_boxes s b = Some ms" and cs: "cond_boxes s c = Some cs"
    and owner: "owner ms = Some t"
  shows "p_core (goto t (CondReleased c b (recursion_depth ms) timed)
    (put_cond c (cs\<lparr>cond_waiters := saturating_add (cond_waiters cs) 1\<rparr>)
      (put_mutex b (ms\<lparr>cond_waiter_count := saturating_add (cond_waiter_count ms) 1, owner := None, recursion_depth := 0\<rparr>) s)))"
    (is "p_core (goto t ?p (put_cond c ?cs (put_mutex b ?ms s)))")
proof (rule p_core_update [OF core t(1)])
  have shape: "mutex_shape ms" and cell: "cond_cell (pcs s) c cs"
    using p_coreD(2) [OF core ms] p_coreD(3) [OF core cs] by (simp_all add: mutex_cell_def)
  have refs: "cond_waiter_count ms < USIZE_MAX" using waiters_less(2) [OF core t(1) ms] t(2) by simp
  have waiters: "cond_waiters cs < USIZE_MAX"
    using cell count_threads_less [of "cond_waiting c" "pcs s" t] p_coreD(1) [OF core] t by (simp add: cond_cell_def)
  show "mutex_moves t (pcs s t) ?p b' m m'"
    if "mutex_boxes s b' = Some m" "mutex_boxes (goto t ?p (put_cond c ?cs (put_mutex b ?ms s))) b' = Some m'" for b' m m'
    using that ms t owner saturating_add_less [OF refs] p_coreD(2) [OF core that(1)]
    by (cases "b' = b") (auto simp: mutex_moves_def mutex_shape_def owner_step_def mutex_cell_def USIZE_MAX_def)
  show "cond_moves (pcs s t) ?p c' k k'"
    if "cond_boxes s c' = Some k" "cond_boxes (goto t ?p (put_cond c ?cs (put_mutex b ?ms s))) c' = Some k'" for c' k k'
    using that cs t saturating_add_less [OF waiters] by (cases "c' = c") (auto simp: cond_moves_def)
  have "released t (recursion_depth ms) ?ms" using shape owner by (auto simp: mutex_shape_def released_def)
  then show "thread_ok t ?p (mutex_boxes (goto t ?p (put_cond c ?cs (put_mutex b ?ms s))))" by (simp add: thread_ok_def)
qed (use ms cs in auto)

lemma cond_wait_from_core:
  assumes core: "p_core s" and t: "t \<noteq> 0" "pcs s t = Idle" and fresh: "fresh_cond fresh s"
    and eq: "cond_wait_from t fresh cond mutex timed s = Some (r, s')"
  shows "p_core s'"
proof -
  obtain q s1 where lazy: "cond_state_from_raw_or_lazy_init_locked fresh cond s = Some (q, s1)"
    using eq by (auto simp: cond_wait_from_def split: bind_splits)
  have core1: "p_core s1" and pc1: "pcs s1 t = Idle" using lazy_init_core [OF core fresh lazy] t by simp_all
  show ?thesis
  proof (cases "\<exists>c b cs ms. q = Inr c \<and> mutex_state_from_raw mutex s1 = Some (Inr b) \<and> cond_boxes s1 c = Some cs \<and> mutex_boxes s1 b = Some ms")
    case False
    then show ?thesis using eq core1
      by (auto simp: cond_wait_from_def lazy split: bind_splits sum.splits)
  next
    case True
    then obtain c b cs ms where q: "q = Inr c" and b: "mutex_state_from_raw mutex s1 = Some (Inr b)"
      and cs: "cond_boxes s1 c = Some cs" and ms: "mutex_boxes s1 b = Some ms" by blast
    have waiters: "cond_waiters cs < USIZE_MAX"
      using p_coreD(3) [OF core1 cs] count_threads_less [of "cond_waiting c" "pcs s1" t] p_coreD(1) [OF core1] t pc1
      by (simp add: cond_cell_def)
    have restored: "cs\<lparr>cond_waiters := saturating_add (cond_waiters cs) (Suc 0) - Suc 0\<rparr> = cs"
      using saturating_add_less [OF waiters] by simp
    show ?thesis
    proof (cases "owner ms = Some t")
      case False
      then have "s' = put_cond c cs s1"
        using eq restored
        by (simp add: cond_wait_from_def lazy q b cs ms mutex_add_cond_waiter_reference_def)
      then show ?thesis using core1 cs by (auto intro!: p_core_cong [OF core1])
    next
      case True
      then show ?thesis
        using eq wait_registered [OF core1 t(1) pc1 ms cs True, of timed]
        by (simp add: cond_wait_from_def lazy q b cs ms mutex_add_cond_waiter_reference_def mutex_unlock_internal_def Let_def)
    qed
  qed
qed

lemma begin_call_core:
  assumes core: "p_core s" and t: "t \<noteq> 0" "pcs s t = Idle" and ok: "call_ok c s" and eq: "begin_call t c s = Some (r, s')"
  shows "p_core s'"
proof -
  have enter: "p_core s'" if "enter t p mutex s = Some (r, s')" "\<And>b. p b = Locking Plain try_only b \<or> p b = Unlocking b" for p mutex try_only
  proof -
    have "p_core (goto t (p b) s)" for b
      using that(2) [of b] by (intro p_core_goto [OF core t(1)]) (auto simp: t thread_ok_def)
    then show ?thesis using that(1) core by (auto simp: enter_def split: bind_splits sum.splits)
  qed
  have wait: "p_core s'" if "cond_wait_from t fresh cond mutex timed s = Some (r, s')" "fresh_cond fresh s" for fresh cond mutex timed
    using cond_wait_from_core [OF core t that(2,1)] .
  show ?thesis
  proof (cases c)
    case (MutexInit fresh mutex attr)
    have "p_core (put_mutex fresh (mutex_new ty) (s\<lparr>mutexes := x\<rparr>))" for ty x
      using ok MutexInit by (intro p_core_new_mutex p_core_cong [OF core]) (simp_all add: fresh_mutex_def mutex_new_def)
    then show ?thesis using eq MutexInit core
      by (auto simp: pthread_mutex_init_def split: if_splits bind_splits sum.splits)
  next
    case (MutexDestroy mutex)
    then show ?thesis using eq core p_core_free_mutex [OF core]
      by (auto simp: pthread_mutex_destroy_def split: if_splits bind_splits)
  next
    case (CondInit fresh cond attr)
    have "p_core (put_cond fresh cond_new (s\<lparr>conds := x\<rparr>))" for x
      using ok CondInit by (intro p_core_new_cond p_core_cong [OF core]) (simp_all add: fresh_cond_def)
    then show ?thesis using eq CondInit core by (auto simp: pthread_cond_init_def split: if_splits bind_splits)
  next
    case (CondDestroy cond)
    have "p_core (s\<lparr>conds := x\<rparr>)" for x by (rule p_core_cong [OF core]) simp_all
    then show ?thesis using eq CondDestroy core p_core_free_cond [OF core] ok
      by (auto simp: pthread_cond_destroy_def split: if_splits bind_splits)
  next
    case (CondSignal cond)
    have "min (saturating_add k 1) n \<le> n" "min (saturating_add k 1) n \<le> Suc k" for k n by (simp_all add: saturating_add_def)
    then have "p_core (goto t (CondNotifying b False)
        (put_cond b (cs\<lparr>pending_wakeups := min (saturating_add (pending_wakeups cs) 1) (cond_waiters cs)\<rparr>) s))"
      if "cond_boxes s b = Some cs" for b cs
      using notifying_core [OF core t that] by simp
    then show ?thesis using eq CondSignal core
      by (auto simp: pthread_cond_signal_def split: if_splits bind_splits)
  next
    case (CondBroadcast cond)
    then show ?thesis using eq core notifying_core [OF core t]
      by (auto simp: pthread_cond_broadcast_def split: if_splits bind_splits)
  next
    case (CondWait fresh cond mutex)
    then show ?thesis using eq ok wait by (auto simp: pthread_cond_wait_def)
  next
    case (CondTimedwait fresh cond mutex abstime now)
    then show ?thesis using eq ok wait core
      by (auto simp: pthread_cond_timedwait_def split: bind_splits sum.splits)
  qed (use eq enter [of "Locking Plain False" _ False] enter [of "Locking Plain True" _ True] enter [of Unlocking]
      in \<open>auto simp: at_once_def pthread_mutexattr_init_def pthread_mutexattr_destroy_def pthread_mutexattr_gettype_def
        pthread_mutexattr_settype_def pthread_mutexattr_getpshared_def pthread_mutexattr_setpshared_def
        pthread_condattr_init_def pthread_condattr_destroy_def pthread_condattr_getpshared_def
        pthread_condattr_setpshared_def write_int_def pthread_mutex_lock_def pthread_mutex_trylock_def
        pthread_mutex_unlock_def split: if_splits bind_splits intro!: p_core_cong [OF core]\<close>)
qed

lemma pstep_core: "p_core s \<Longrightarrow> pstep s s' \<Longrightarrow> p_core s'"
proof -
  assume core: "p_core s" and "pstep s s'"
  from this(2) show "p_core s'"
  proof (cases rule: pstep.cases)
    case (p_call t c r)
    then show ?thesis using begin_call_core [OF core] by blast
  next
    case (p_continue t choice r)
    then show ?thesis using continue_core [OF core] by blast
  next
    case (p_spurious t)
    then show ?thesis using p_core_wake_locker [OF core] p_core_wake_waiter [OF core]
      by (auto simp: spurious_wakeup_def split: pc.splits)
  next
    case (p_timeout t)
    then show ?thesis using cond_wait_pass_core [OF core, of t _ _ _ True True]
      by (fastforce simp: time_out_def split: pc.splits if_splits)
  qed
qed

end
