(* ===== verification/Mutex_Live.thy ===== *)
theory Mutex_Live
  imports Mutex_Inv
begin

text \<open>
  No wakeup of a mutex is lost, the invariant of the whole system as an interpretation of the
  interface, the properties, and an execution in which a waiter that comes after a signal takes it from the
  waiter the signal was for.
\<close>

section \<open>Sleepers on a free mutex\<close>

definition will_wake :: "addr \<Rightarrow> pc \<Rightarrow> bool" where
  "will_wake b p \<longleftrightarrow> p = Notifying b \<or> (\<exists>k. p = LockAwake k b) \<or> (\<exists>c d timed. p = CondReleased c b d timed)"

definition sleeps_on :: "addr \<Rightarrow> pc \<Rightarrow> bool" where
  "sleeps_on b p \<longleftrightarrow> (\<exists>k. p = LockAsleep k b)"

definition free_at :: "addr \<Rightarrow> psystem \<Rightarrow> bool" where
  "free_at b s \<longleftrightarrow> (\<exists>ms. mutex_boxes s b = Some ms \<and> owner ms = None)"

lemma p_live_iff: "p_live s \<longleftrightarrow> (\<forall>b. free_at b s \<longrightarrow> (\<exists>t. sleeps_on b (pcs s t)) \<longrightarrow> (\<exists>u. will_wake b (pcs s u)))"
  unfolding p_live_def free_at_def sleeps_on_def will_wake_def by blast

lemma wake_simps [simp]:
  "will_wake b Idle = False" "will_wake b (Locking k try_only b') = False" "will_wake b (LockAsleep k b') = False"
  "will_wake b (LockAwake k b') \<longleftrightarrow> b' = b" "will_wake b (Unlocking b') = False" "will_wake b (Notifying b') \<longleftrightarrow> b' = b"
  "will_wake b (CondAsleep c b' d timed) = False" "will_wake b (CondAwake c b' d timed) = False" "will_wake b (Unref b' d x) = False"
  "sleeps_on b Idle = False" "sleeps_on b (Locking k try_only b') = False" "sleeps_on b (LockAsleep k b') \<longleftrightarrow> b' = b"
  "sleeps_on b (LockAwake k b') = False" "sleeps_on b (Unlocking b') = False" "sleeps_on b (Notifying b') = False"
  "will_wake b (CondReleased c b' d timed) \<longleftrightarrow> b' = b" "will_wake b (CondNotifying c all) = False"
  "sleeps_on b (CondReleased c b' d timed) = False" "sleeps_on b (CondNotifying c all) = False"
  "sleeps_on b (CondAsleep c b' d timed) = False" "sleeps_on b (CondAwake c b' d timed) = False" "sleeps_on b (Unref b' d x) = False"
  by (auto simp: will_wake_def sleeps_on_def)

text \<open>A step of thread \<open>t\<close>: what has to be looked at for each mutex that is free after it.\<close>

lemma p_live_update:
  assumes live: "p_live s" and pcs: "pcs s' = (pcs s)(t := p)"
    and free: "\<And>b. free_at b s' \<Longrightarrow> will_wake b p \<or>
      (free_at b s \<and> \<not> sleeps_on b p \<and> \<not> will_wake b (pcs s t)) \<or>
      (\<not> sleeps_on b p \<and> (\<forall>u. \<not> sleeps_on b (pcs s u))) \<or> (\<exists>v. v \<noteq> t \<and> will_wake b (pcs s v))"
  shows "p_live s'"
  unfolding p_live_iff
proof (intro allI impI)
  fix b assume b: "free_at b s'" and "\<exists>u. sleeps_on b (pcs s' u)"
  then obtain u where u: "sleeps_on b (pcs s' u)" by blast
  from free [OF b] show "\<exists>u. will_wake b (pcs s' u)"
  proof (elim disjE exE conjE)
    assume "will_wake b p"
    then show ?thesis using pcs by (intro exI [of _ t]) simp
  next
    assume *: "free_at b s" "\<not> sleeps_on b p" "\<not> will_wake b (pcs s t)"
    then have "sleeps_on b (pcs s u)" using u pcs by (auto split: if_splits)
    then obtain v where "will_wake b (pcs s v)" using live *(1) unfolding p_live_iff by blast
    then show ?thesis using *(3) pcs by (intro exI [of _ v]) auto
  next
    assume "\<not> sleeps_on b p" "\<forall>u. \<not> sleeps_on b (pcs s u)"
    then show ?thesis using u pcs by (auto split: if_splits)
  next
    fix v assume "v \<noteq> t" "will_wake b (pcs s v)"
    then show ?thesis using pcs by (intro exI [of _ v]) simp
  qed
qed

lemma p_live_goto:
  assumes "p_live s" "\<And>b. \<not> will_wake b (pcs s t)" "\<And>b. \<not> sleeps_on b p"
  shows "p_live (goto t p s)"
  by (rule p_live_update [OF assms(1), where t = t and p = p]) (use assms(2,3) in \<open>auto simp: free_at_def\<close>)

lemma p_live_cong: "p_live s \<Longrightarrow> pcs s' = pcs s \<Longrightarrow> (\<And>b. free_at b s' \<Longrightarrow> free_at b s) \<Longrightarrow> p_live s'"
  unfolding p_live_iff by simp

lemma p_live_wake_locker: "p_live s \<Longrightarrow> p_live (wake_locker choice s)"
proof -
  assume live: "p_live s"
  have "p_live (goto u (LockAwake k b) s)" if "pcs s u = LockAsleep k b" for u k b
    by (rule p_live_update [OF live, where t = u and p = "LockAwake k b"]) (use that in \<open>auto simp: free_at_def\<close>)
  then show ?thesis using live by (auto simp: wake_locker_def split: option.split pc.split)
qed

text \<open>After a notification of a mutex somebody is awake, or nobody sleeps.\<close>

lemma wake_locker_choice:
  assumes "locker_choice choice b s" "\<not> sleeps_on b (pcs s t)"
  shows "(\<forall>u. \<not> sleeps_on b (pcs (wake_locker choice s) u)) \<or> (\<exists>v. v \<noteq> t \<and> will_wake b (pcs (wake_locker choice s) v))"
proof (cases choice)
  case None
  then show ?thesis using assms by (auto simp: locker_choice_def wake_locker_def sleeps_on_def)
next
  case (Some v)
  then obtain k where v: "pcs s v = LockAsleep k b" using assms(1) by (auto simp: locker_choice_def)
  then have "v \<noteq> t" using assms(2) by auto
  then show ?thesis using v Some by (intro disjI2 exI [of _ v]) (simp add: wake_locker_def)
qed

lemma wake_locker_simps [simp]: "mutex_boxes (wake_locker choice s) = mutex_boxes s"
    "cond_boxes (wake_locker choice s) = cond_boxes s"
  by (simp_all add: wake_locker_def split: option.split pc.split)

lemma wake_locker_pc: "(\<And>k b. pcs s t \<noteq> LockAsleep k b) \<Longrightarrow> pcs (wake_locker choice s) t = pcs s t"
  by (auto simp: wake_locker_def split: option.split pc.split)

lemma free_at_wake [simp]: "free_at b (wake_locker choice s) = free_at b s" "free_at b (goto t p s) = free_at b s"
    "free_at b (put_cond c cs s) = free_at b s"
  by (simp_all add: free_at_def)

lemma free_at_put: "free_at b (put_mutex b' ms s) \<longleftrightarrow> (if b = b' then owner ms = None else free_at b s)"
  by (simp add: free_at_def)

lemma p_live_cond: "p_live s \<Longrightarrow> p_live (put_cond c cs s)"
  by (rule p_live_cong) simp_all

lemma cond_wait_pass_cases:
  assumes "cond_wait_pass t elapsed c b d timed s = Some s'"
  obtains p where "p = CondAsleep c b d timed \<or> (\<exists>r. p = Locking (First d r) False b \<and> (r = 0 \<or> elapsed \<and> r = ETIMEDOUT))"
    "pcs s' = (pcs s)(t := p)" "mutex_boxes s' = mutex_boxes s"
proof -
  obtain cs where cs: "cond_boxes s c = Some cs" using assms by (auto simp: cond_wait_pass_def split: bind_splits)
  show thesis
  proof (cases "pending_wakeups cs = 0 \<and> \<not> elapsed")
    case True
    then show thesis using assms cs that [of "CondAsleep c b d timed"] by (auto simp: cond_wait_pass_def)
  next
    case False
    define r where "r = (if elapsed \<and> pending_wakeups cs = 0 then ETIMEDOUT else 0)"
    have "pcs s' = (pcs s)(t := Locking (First d r) False b) \<and> mutex_boxes s' = mutex_boxes s"
      using assms cs False by (auto simp: cond_wait_pass_def Let_def r_def)
    moreover have "r = 0 \<or> elapsed \<and> r = ETIMEDOUT" by (simp add: r_def)
    ultimately show thesis using that by blast
  qed
qed

lemma p_live_pass:
  assumes live: "p_live s"
    and pc: "\<And>b. will_wake b (pcs s t) \<Longrightarrow> (\<forall>u. \<not> sleeps_on b (pcs s u)) \<or> (\<exists>v. v \<noteq> t \<and> will_wake b (pcs s v))"
    and eq: "cond_wait_pass t elapsed c b d timed s = Some s'"
  shows "p_live s'"
proof -
  obtain p where p: "p = CondAsleep c b d timed \<or> (\<exists>r. p = Locking (First d r) False b \<and> (r = 0 \<or> elapsed \<and> r = ETIMEDOUT))"
    "pcs s' = (pcs s)(t := p)" "mutex_boxes s' = mutex_boxes s"
    by (rule cond_wait_pass_cases [OF eq])
  then have "\<not> sleeps_on b p" for b by auto
  then show ?thesis by (intro p_live_update [OF live p(2)]) (use pc p(3) in \<open>auto simp: free_at_def\<close>)
qed

lemma p_live_lock:
  assumes core: "p_core s" and live: "p_live s" and t: "t \<noteq> 0"
    and eq: "mutex_lock_internal t k try_only waited b s = Some (r, s')"
    and pc: "pcs s t = (if waited then LockAwake k b else Locking k try_only b)" "if waited then \<not> try_only else True"
  shows "p_live s'"
proof -
  obtain ms where ms: "mutex_boxes s b = Some ms"
    using eq by (auto simp: mutex_lock_internal_def split: bind_splits)
  obtain out ms' where pass: "mutex_lock_pass t try_only waited ms = (out, ms')"
    by (cases "mutex_lock_pass t try_only waited ms")
  have shape: "mutex_shape ms" using p_coreD(2) [OF core ms] by (simp add: mutex_cell_def)
  have counts: "if waited then 0 < waiter_count ms \<and> waiter_count ms \<le> USIZE_MAX \<and> \<not> try_only else waiter_count ms < USIZE_MAX"
    using waiters_less [OF core t ms] pc waiter_bound [OF core ms] by (auto split: if_splits)
  have held: "owner ms' \<noteq> None" using mutex_lock_pass_cases [OF pass shape counts] by (cases out) auto
  have "p_live (goto t p (put_mutex b ms' s))" if "\<And>b'. b' \<noteq> b \<Longrightarrow> \<not> sleeps_on b' p" for p
    by (rule p_live_update [OF live, where t = t and p = p])
      (use held that pc in \<open>auto simp: free_at_put split: if_splits\<close>)
  then show ?thesis
    using eq ms pass
    by (auto simp: mutex_lock_internal_def mutex_restore_cond_wait_lock_depth_def split: outcome.splits option.splits purpose.splits if_splits)
qed

lemma p_live_wake_waiter: "p_live s \<Longrightarrow> p_live (wake_waiter choice s)"
proof -
  assume live: "p_live s"
  have "p_live (goto u (CondAwake c b d timed) s)" if "pcs s u = CondAsleep c b d timed" for u c b d timed
    by (rule p_live_goto [OF live]) (simp_all add: that)
  then show ?thesis using live by (auto simp: wake_waiter_def split: option.split pc.split)
qed

lemma p_live_wake_all: "p_live s \<Longrightarrow> p_live (wake_all_waiters c s)"
proof -
  assume live: "p_live s"
  have "sleeps_on b (pcs (wake_all_waiters c s) u) = sleeps_on b (pcs s u)"
    "will_wake b (pcs (wake_all_waiters c s) u) = will_wake b (pcs s u)" for b u
    by (auto simp: wake_all_waiters_pc split: pc.split)
  then show ?thesis using live unfolding p_live_iff by (simp add: free_at_def)
qed

lemma continue_live:
  assumes core: "p_core s" and live: "p_live s" and ok: "continue_ok t choice s" and step: "continue t choice s = Some (r, s')"
  shows "p_live s'"
proof -
  have t: "t \<noteq> 0" using step p_coreD(1) [OF core] by (cases "t = 0") (auto simp: continue_def)
  show ?thesis
  proof (cases "pcs s t")
    case (Locking k try_only b)
    then show ?thesis using step p_live_lock [OF core live t, of k try_only False b] by (simp add: continue_def)
  next
    case (LockAwake k b)
    then show ?thesis using step p_live_lock [OF core live t, of k False True b] by (simp add: continue_def)
  next
    case (Unlocking b)
    then obtain ms x notify ms' where u: "mutex_boxes s b = Some ms" "mutex_unlock_internal t False ms = (x, notify, ms')"
      and s': "s' = goto t (if notify then Notifying b else Idle) (put_mutex b ms' s)"
      using step by (auto simp: continue_def split: bind_splits prod.splits if_splits)
    have "\<not> notify \<Longrightarrow> owner ms' = owner ms" using u(2) by (auto simp: mutex_unlock_internal_def split: if_splits)
    then show ?thesis unfolding s'
      by (intro p_live_update [OF live, where t = t and p = "if notify then Notifying b else Idle"])
        (use Unlocking u(1) in \<open>auto simp: free_at_put free_at_def split: if_splits\<close>)
  next
    case (Notifying b)
    define w where "w = wake_locker choice s"
    have pc: "pcs w t = Notifying b" unfolding w_def using Notifying by (subst wake_locker_pc) auto
    have "locker_choice choice b s" using ok Notifying by (simp add: continue_ok_def)
    then have "(\<forall>u. \<not> sleeps_on b (pcs w u)) \<or> (\<exists>v. v \<noteq> t \<and> will_wake b (pcs w v))"
      unfolding w_def using Notifying by (intro wake_locker_choice) auto
    then have "p_live (goto t Idle w)"
      by (intro p_live_update [OF p_live_wake_locker [OF live, of choice, folded w_def], where t = t and p = Idle])
        (auto simp: pc)
    then show ?thesis using step Notifying by (auto simp: continue_def w_def split: bind_splits)
  next
    case (CondReleased c b d timed)
    define w where "w = wake_locker choice s"
    have pc: "pcs w t = CondReleased c b d timed" unfolding w_def using CondReleased by (subst wake_locker_pc) auto
    have "locker_choice choice b s" using ok CondReleased by (simp add: continue_ok_def)
    then have "(\<forall>u. \<not> sleeps_on b (pcs w u)) \<or> (\<exists>v. v \<noteq> t \<and> will_wake b (pcs w v))"
      unfolding w_def using CondReleased by (intro wake_locker_choice) auto
    then have "p_live s'" if "cond_wait_pass t False c b d timed w = Some s'"
      by (intro p_live_pass [OF p_live_wake_locker [OF live, of choice, folded w_def] _ that]) (auto simp: pc)
    then show ?thesis using step CondReleased by (auto simp: continue_def w_def split: bind_splits)
  next
    case (CondAwake c b d timed)
    then show ?thesis using step p_live_pass [OF live, of t False c b d timed]
      by (auto simp: continue_def split: bind_splits)
  next
    case (CondNotifying c all)
    define w where "w = (if all then wake_all_waiters c s else wake_waiter choice s)"
    have "p_live w" unfolding w_def using p_live_wake_all [OF live] p_live_wake_waiter [OF live] by simp
    moreover have "\<not> will_wake b (pcs w t)" for b
      using CondNotifying by (auto simp: w_def wake_all_waiters_pc wake_waiter_def split: option.split pc.split)
    ultimately have "p_live (goto t Idle w)" by (rule p_live_goto) simp
    then show ?thesis using step CondNotifying by (auto simp: continue_def w_def split: bind_splits)
  next
    case (Unref b d x)
    then obtain ms where ms: "mutex_boxes s b = Some ms"
      and s': "s' = goto t Idle (put_mutex b (mutex_remove_cond_waiter_reference ms) s)"
      using step by (auto simp: continue_def split: bind_splits)
    show ?thesis unfolding s'
      by (rule p_live_update [OF live, where t = t and p = Idle])
        (use Unref ms in \<open>auto simp: free_at_put mutex_remove_cond_waiter_reference_def free_at_def split: if_splits\<close>)
  qed (use step in \<open>auto simp: continue_def\<close>)
qed

lemma lazy_init_live:
  assumes "p_live s" "cond_state_from_raw_or_lazy_init_locked fresh cond s = Some (r, s')"
  shows "p_live s'"
proof -
  have "p_live (put_cond fresh cond_new (s\<lparr>conds := x\<rparr>))" for x
    by (rule p_live_cong [OF assms(1)]) (simp_all add: free_at_def)
  then show ?thesis
    using assms by (auto simp: cond_state_from_raw_or_lazy_init_locked_def split: if_splits bind_splits)
qed

lemma cond_wait_from_live:
  assumes core: "p_core s" and live: "p_live s" and t: "t \<noteq> 0" "pcs s t = Idle" and fresh: "fresh_cond fresh s"
    and eq: "cond_wait_from t fresh cond mutex timed s = Some (r, s')"
  shows "p_live s'"
proof -
  obtain q s1 where lazy: "cond_state_from_raw_or_lazy_init_locked fresh cond s = Some (q, s1)"
    using eq by (auto simp: cond_wait_from_def split: bind_splits)
  have live1: "p_live s1" by (rule lazy_init_live [OF live lazy])
  have s1: "pcs s1 = pcs s" using lazy_init_core [OF core fresh lazy] by simp
  show ?thesis
  proof (cases "\<exists>c b cs ms. q = Inr c \<and> mutex_state_from_raw mutex s1 = Some (Inr b) \<and> cond_boxes s1 c = Some cs \<and>
      mutex_boxes s1 b = Some ms \<and> owner ms = Some t")
    case False
    then show ?thesis using eq live1
      by (auto simp: cond_wait_from_def lazy mutex_add_cond_waiter_reference_def Let_def intro: p_live_cond split: bind_splits sum.splits if_splits)
  next
    case True
    then obtain c b cs ms where q: "q = Inr c" and b: "mutex_state_from_raw mutex s1 = Some (Inr b)"
      and cs: "cond_boxes s1 c = Some cs" and ms: "mutex_boxes s1 b = Some ms" and owner: "owner ms = Some t" by blast
    have "p_live (goto t (CondReleased c b (recursion_depth ms) timed) (put_cond c cs' (put_mutex b ms' s1)))" for cs' ms'
      by (rule p_live_update [OF live1, where t = t and p = "CondReleased c b (recursion_depth ms) timed"])
        (use t s1 in \<open>auto simp: free_at_put split: if_splits\<close>)
    then show ?thesis
      using eq by (auto simp: cond_wait_from_def lazy q b cs ms owner mutex_add_cond_waiter_reference_def mutex_unlock_internal_def Let_def)
  qed
qed

lemma begin_call_live:
  assumes core: "p_core s" and live: "p_live s" and t: "t \<noteq> 0" "pcs s t = Idle" and ok: "call_ok c s"
    and eq: "begin_call t c s = Some (r, s')"
  shows "p_live s'"
proof -
  have enter: "p_live s'" if "enter t p mutex s = Some (r, s')" "\<And>b. p b = Locking Plain try_only b \<or> p b = Unlocking b" for p mutex try_only
  proof -
    have "\<not> sleeps_on b' (p b)" for b b' using that(2) [of b] by auto
    then have "p_live (goto t (p b) s)" for b by (intro p_live_goto [OF live]) (simp_all add: t)
    then show ?thesis using that(1) live by (auto simp: enter_def split: bind_splits sum.splits)
  qed
  show ?thesis
  proof (cases c)
    case (MutexInit fresh mutex attr)
    have none: "\<not> sleeps_on fresh (pcs s u)" for u
      using ok MutexInit thread_ok_refers [OF p_coreD(4) [OF core], of fresh u]
      by (cases "pcs s u") (auto simp: fresh_mutex_def)
    have "p_live (put_mutex fresh (mutex_new ty) (s\<lparr>mutexes := x\<rparr>))" for ty x
      using live none unfolding p_live_iff by (auto simp: free_at_def split: if_splits)
    then show ?thesis using eq MutexInit live
      by (auto simp: pthread_mutex_init_def split: if_splits bind_splits sum.splits)
  next
    case (MutexDestroy mutex)
    have "p_live (s\<lparr>mutex_boxes := (mutex_boxes s)(b := None), mutexes := x\<rparr>)" for b x
      by (rule p_live_cong [OF live]) (auto simp: free_at_def split: if_splits)
    then show ?thesis using eq MutexDestroy live
      by (auto simp: pthread_mutex_destroy_def split: if_splits bind_splits)
  next
    case (CondWait fresh cond mutex)
    then show ?thesis using eq ok cond_wait_from_live [OF core live t] by (auto simp: pthread_cond_wait_def)
  next
    case (CondTimedwait fresh cond mutex abstime now)
    then show ?thesis using eq ok cond_wait_from_live [OF core live t] live
      by (auto simp: pthread_cond_timedwait_def split: bind_splits sum.splits)
  next
    case (CondSignal cond)
    have "p_live (goto t (CondNotifying b False) (put_cond b cs s))" for b cs
      by (rule p_live_goto [OF p_live_cond [OF live]]) (simp_all add: t)
    then show ?thesis using eq live CondSignal
      by (auto simp: pthread_cond_signal_def split: if_splits bind_splits)
  next
    case (CondBroadcast cond)
    have "p_live (goto t (CondNotifying b True) (put_cond b cs s))" for b cs
      by (rule p_live_goto [OF p_live_cond [OF live]]) (simp_all add: t)
    then show ?thesis using eq live CondBroadcast
      by (auto simp: pthread_cond_broadcast_def split: if_splits bind_splits)
  qed (use eq enter [of "Locking Plain False" _ False] enter [of "Locking Plain True" _ True] enter [of Unlocking]
      in \<open>auto simp: at_once_def pthread_mutexattr_init_def pthread_mutexattr_destroy_def pthread_mutexattr_gettype_def
        pthread_mutexattr_settype_def pthread_mutexattr_getpshared_def pthread_mutexattr_setpshared_def
        pthread_condattr_init_def pthread_condattr_destroy_def pthread_condattr_getpshared_def
        pthread_condattr_setpshared_def write_int_def pthread_mutex_lock_def pthread_mutex_trylock_def
        pthread_mutex_unlock_def pthread_cond_init_def pthread_cond_destroy_def put_cond_def free_at_def
        split: if_splits bind_splits intro!: p_live_cong [OF live]\<close>)
qed

definition p_inv :: "psystem \<Rightarrow> bool" where
  "p_inv s \<longleftrightarrow> p_core s \<and> p_live s"

lemma pstep_live: "p_core s \<Longrightarrow> p_live s \<Longrightarrow> pstep s s' \<Longrightarrow> p_live s'"
proof -
  assume core: "p_core s" and live: "p_live s" and "pstep s s'"
  from this(3) show "p_live s'"
  proof (cases rule: pstep.cases)
    case (p_call t c r)
    then show ?thesis using begin_call_live [OF core live] by blast
  next
    case (p_continue t choice r)
    then show ?thesis using continue_live [OF core live] by blast
  next
    case (p_spurious t)
    then show ?thesis using p_live_wake_locker [OF live] p_live_wake_waiter [OF live]
      by (auto simp: spurious_wakeup_def split: pc.splits)
  next
    case (p_timeout t)
    then show ?thesis using p_live_pass [OF live, of t True]
      by (fastforce simp: time_out_def split: pc.splits if_splits)
  qed
qed

interpretation pth: invariant_system pstart pstep p_inv
proof unfold_locales
  show "pstart s \<Longrightarrow> p_inv s" for s
    by (simp add: pstart_def p_inv_def p_core_def p_live_iff free_at_def thread_ok_def)
  show "p_inv s \<Longrightarrow> pstep s s' \<Longrightarrow> p_inv s'" for s s'
    using pstep_core pstep_live by (auto simp: p_inv_def)
qed

section \<open>Inside a wait\<close>

text \<open>
  A thread is somewhere in a wait with the mutex \<open>b\<close>, which it held at depth \<open>d\<close>; only a timed wait
  can time out.
\<close>

definition relocking :: "nat \<Rightarrow> bool \<Rightarrow> purpose \<Rightarrow> bool" where
  "relocking d timed k \<longleftrightarrow>
     (case k of
        Plain \<Rightarrow> False
      | First d' r \<Rightarrow> d' = d \<and> (r = 0 \<or> timed \<and> r = ETIMEDOUT)
      | More n d' r \<Rightarrow> d' = d \<and> (r = 0 \<or> timed \<and> r = ETIMEDOUT))"

fun in_wait :: "addr \<Rightarrow> nat \<Rightarrow> bool \<Rightarrow> pc \<Rightarrow> bool" where
  "in_wait b d timed (CondReleased c b' d' timed') = (b' = b \<and> d' = d \<and> timed' = timed)"
| "in_wait b d timed (CondAsleep c b' d' timed') = (b' = b \<and> d' = d \<and> timed' = timed)"
| "in_wait b d timed (CondAwake c b' d' timed') = (b' = b \<and> d' = d \<and> timed' = timed)"
| "in_wait b d timed (Locking k try_only b') = (b' = b \<and> relocking d timed k)"
| "in_wait b d timed (LockAsleep k b') = (b' = b \<and> relocking d timed k)"
| "in_wait b d timed (LockAwake k b') = (b' = b \<and> relocking d timed k)"
| "in_wait b d timed (Unref b' d' r) = (b' = b \<and> d' = d \<and> (r = 0 \<or> timed \<and> r = ETIMEDOUT))"
| "in_wait b d timed _ = False"

lemma in_wait_wake [simp]:
  "in_wait b d timed (pcs (wake_locker choice s) t) = in_wait b d timed (pcs s t)"
  "in_wait b d timed (pcs (wake_waiter choice s) t) = in_wait b d timed (pcs s t)"
  "in_wait b d timed (pcs (wake_all_waiters c s) t) = in_wait b d timed (pcs s t)"
  by (auto simp: wake_locker_def wake_waiter_def wake_all_waiters_pc split: option.split pc.split)

lemma cond_wait_pass_other: "cond_wait_pass u elapsed c b d timed s = Some s' \<Longrightarrow> u \<noteq> t \<Longrightarrow> pcs s' t = pcs s t"
  by (rule cond_wait_pass_cases) auto

lemma in_wait_pass:
  "cond_wait_pass t elapsed c b d timed s = Some s' \<Longrightarrow> (elapsed \<longrightarrow> timed) \<Longrightarrow> in_wait b d timed (pcs s' t)"
  by (rule cond_wait_pass_cases) (auto simp: relocking_def)

text \<open>Relocking cannot fail, so the result of the wait is not replaced.\<close>

lemma mutex_lock_pass_codes: "mutex_lock_pass t try_only waited ms = (Return x, ms') \<Longrightarrow> x \<in> {0, EBUSY, EDEADLK}"
  by (auto simp: mutex_lock_pass_def Let_def split: option.splits if_splits)

lemma in_wait_lock:
  assumes core: "p_core s'" and eq: "mutex_lock_internal t k try_only waited b s = Some (r, s')"
    and k: "k = First d x \<or> k = More n d x" "x = 0 \<or> timed \<and> x = ETIMEDOUT"
  shows "in_wait b d timed (pcs s' t)"
proof -
  obtain ms where ms: "mutex_boxes s b = Some ms" using eq by (auto simp: mutex_lock_internal_def split: bind_splits)
  obtain out ms' where pass: "mutex_lock_pass t try_only waited ms = (out, ms')"
    by (cases "mutex_lock_pass t try_only waited ms")
  show ?thesis
  proof (cases out)
    case Sleep
    then show ?thesis using eq ms pass k by (auto simp: mutex_lock_internal_def relocking_def)
  next
    case (Return y)
    have y: "y \<in> {0, EBUSY, EDEADLK}" using mutex_lock_pass_codes pass Return by blast
    have "y = 0"
    proof (rule ccontr)
      assume "y \<noteq> 0"
      then have "pcs s' t = Unref b d y"
        using eq ms pass Return k(1) by (auto simp: mutex_lock_internal_def mutex_restore_cond_wait_lock_depth_def)
      then show False using p_coreD(4) [OF core, of t] y \<open>y \<noteq> 0\<close> by (auto simp: thread_ok_def wait_result_def errno_defs)
    qed
    then show ?thesis using eq ms pass Return k
      by (auto simp: mutex_lock_internal_def mutex_restore_cond_wait_lock_depth_def relocking_def split: if_splits)
  qed
qed

lemma mutex_lock_internal_other: "mutex_lock_internal u k try_only waited b s = Some (r, s') \<Longrightarrow> u \<noteq> t \<Longrightarrow> pcs s' t = pcs s t"
  by (auto simp: mutex_lock_internal_def split: bind_splits prod.splits outcome.splits option.splits)

lemma in_wait_continue:
  assumes core: "p_core s'" and eq: "continue u choice s = Some (r, s')" and w: "in_wait b d timed (pcs s t)"
  shows "in_wait b d timed (pcs s' t) \<or> pcs s' t = Idle"
proof (cases "u = t")
  case False
  show ?thesis
    using eq w False
    by (auto simp: continue_def mutex_lock_internal_other cond_wait_pass_other split: pc.splits bind_splits prod.splits if_splits)
next
  case True
  have lock: "in_wait b d timed (pcs s' t)" if "mutex_lock_internal t k try_only waited b s = Some (r, s')"
    "k = First d x \<or> k = More n d x" "x = 0 \<or> timed \<and> x = ETIMEDOUT" for k try_only waited x n
    using in_wait_lock [OF core that] .
  show ?thesis
  proof (cases "pcs s t")
    case (Locking k try_only b')
    then show ?thesis using eq w True lock by (cases k) (auto simp: continue_def relocking_def)
  next
    case (LockAwake k b')
    then show ?thesis using eq w True lock by (cases k) (auto simp: continue_def relocking_def)
  next
    case (CondReleased c b' d' timed')
    then have "b' = b" "d' = d" "timed' = timed" using w by simp_all
    then show ?thesis using eq CondReleased True in_wait_pass [of t False c b d timed "wake_locker choice s"]
      by (auto simp: continue_def split: bind_splits)
  next
    case (CondAwake c b' d' timed')
    then have "b' = b" "d' = d" "timed' = timed" using w by simp_all
    then show ?thesis using eq CondAwake True in_wait_pass [of t False c b d timed s]
      by (auto simp: continue_def split: bind_splits)
  qed (use eq w True in \<open>auto simp: continue_def split: bind_splits\<close>)
qed

lemma lazy_init_pcs: "cond_state_from_raw_or_lazy_init_locked fresh cond s = Some (r, s') \<Longrightarrow> pcs s' = pcs s"
  by (auto simp: cond_state_from_raw_or_lazy_init_locked_def split: if_splits bind_splits)

lemma cond_wait_from_other: "cond_wait_from u fresh cond mutex timed s = Some (r, s') \<Longrightarrow> u \<noteq> t \<Longrightarrow> pcs s' t = pcs s t"
proof -
  assume eq: "cond_wait_from u fresh cond mutex timed s = Some (r, s')" and "u \<noteq> t"
  moreover obtain q s1 where "cond_state_from_raw_or_lazy_init_locked fresh cond s = Some (q, s1)"
    using eq by (auto simp: cond_wait_from_def split: bind_splits)
  ultimately show ?thesis using lazy_init_pcs
    by (fastforce simp: cond_wait_from_def Let_def cond_wait_pass_other split: bind_splits sum.splits prod.splits if_splits)
qed

lemma begin_call_other: "begin_call u c s = Some (r, s') \<Longrightarrow> u \<noteq> t \<Longrightarrow> pcs s' t = pcs s t"
  by (cases c) (auto simp: at_once_def pthread_mutexattr_init_def pthread_mutexattr_destroy_def pthread_mutexattr_gettype_def
      pthread_mutexattr_settype_def pthread_mutexattr_getpshared_def pthread_mutexattr_setpshared_def
      pthread_condattr_init_def pthread_condattr_destroy_def pthread_condattr_getpshared_def
      pthread_condattr_setpshared_def write_int_def pthread_mutex_lock_def pthread_mutex_trylock_def
      pthread_mutex_unlock_def enter_def pthread_mutex_init_def pthread_mutex_destroy_def pthread_cond_init_def pthread_cond_destroy_def
      pthread_cond_signal_def pthread_cond_broadcast_def pthread_cond_wait_def pthread_cond_timedwait_def cond_wait_from_other
      split: if_splits bind_splits sum.splits)

lemma in_wait_step:
  assumes "p_core s'" "pstep s s'" "in_wait b d timed (pcs s t)"
  shows "in_wait b d timed (pcs s' t) \<or> pcs s' t = Idle"
  using assms(2)
proof (cases rule: pstep.cases)
  case (p_call u c r)
  then have "u \<noteq> t" using assms(3) by auto
  then show ?thesis using begin_call_other [OF p_call(4)] assms(3) by simp
next
  case (p_continue u choice r)
  then show ?thesis using in_wait_continue [OF assms(1) _ assms(3)] by blast
next
  case (p_spurious u)
  then show ?thesis using assms(3) by (auto simp: spurious_wakeup_def split: pc.splits)
next
  case (p_timeout u)
  then obtain c b' d' where pass: "cond_wait_pass u True c b' d' True s = Some s'"
    and u: "pcs s u = CondAsleep c b' d' True \<or> pcs s u = CondAwake c b' d' True"
    by (auto simp: time_out_def split: pc.splits if_splits)
  show ?thesis
  proof (cases "u = t")
    case True
    then have "b' = b" "d' = d" "timed = True" using u assms(3) by auto
    then show ?thesis using in_wait_pass [OF pass] True by simp
  next
    case False
    then show ?thesis using cond_wait_pass_other [OF pass False] assms(3) by simp
  qed
qed

text \<open>An execution in which thread \<open>t\<close> does not return from its operation.\<close>

inductive stays_inside :: "tid \<Rightarrow> psystem \<Rightarrow> psystem \<Rightarrow> bool" for t where
  stays_here: "stays_inside t s s"
| stays_step: "stays_inside t s s1 \<Longrightarrow> pstep s1 s2 \<Longrightarrow> pcs s2 t \<noteq> Idle \<Longrightarrow> stays_inside t s s2"

lemma stays_inside_wait:
  assumes "stays_inside t s s'" "p_inv s" "in_wait b d timed (pcs s t)"
  shows "p_inv s' \<and> in_wait b d timed (pcs s' t)"
  using assms
proof (induction rule: stays_inside.induct)
  case (stays_step s s1 s2)
  then have "p_inv s2" using pth.inv_step by blast
  then show ?case using stays_step in_wait_step [of s2 s1] by (auto simp: p_inv_def)
qed simp

text \<open>The start of a wait.\<close>

lemma cond_wait_from_released:
  assumes "cond_wait_from t fresh cond mutex timed s = Some (None, s1)"
  obtains c b ms ms1 where "mutex_state_from_raw mutex s = Some (Inr b)" "mutex_boxes s b = Some ms" "owner ms = Some t"
    "mutex_boxes s1 b = Some ms1" "owner ms1 = None" "pcs s1 t = CondReleased c b (recursion_depth ms) timed"
proof -
  obtain q s0 where lazy: "cond_state_from_raw_or_lazy_init_locked fresh cond s = Some (q, s0)"
    using assms by (auto simp: cond_wait_from_def split: bind_splits)
  have s0: "mutexes s0 = mutexes s" "mutex_boxes s0 = mutex_boxes s"
    using lazy by (auto simp: cond_state_from_raw_or_lazy_init_locked_def put_cond_def split: if_splits bind_splits)
  have raw: "mutex_state_from_raw mutex s0 = mutex_state_from_raw mutex s"
    unfolding mutex_state_from_raw_def s0(1) ..
  show thesis
    using assms
    by (auto simp: cond_wait_from_def lazy raw s0(2) mutex_add_cond_waiter_reference_def
        mutex_unlock_internal_def Let_def intro!: that split: bind_splits sum.splits if_splits)
qed

text \<open>A thread in a wait returns only from its last step.\<close>

lemma in_wait_returns:
  assumes "continue t choice s = Some (Some x, s')" "in_wait b d timed (pcs s t)"
  shows "pcs s t = Unref b d x"
proof -
  have lock: False if "mutex_lock_internal t k try_only waited b' s = Some (Some x, s')" "relocking d timed k" for k try_only waited b'
    using that by (auto simp: mutex_lock_internal_def mutex_restore_cond_wait_lock_depth_def relocking_def
        split: bind_splits prod.splits outcome.splits purpose.splits)
  show ?thesis using assms lock by (cases "pcs s t") (auto simp: continue_def split: bind_splits)
qed

section \<open>Somebody goes on\<close>

lemma free_mutex_wakes:
  assumes inv: "p_inv s" and ms: "mutex_boxes s b = Some ms" "owner ms = None" and sleep: "pcs s t = LockAsleep k b"
  shows "(\<exists>u. pcs s u = Notifying b \<or> (\<exists>c d timed. pcs s u = CondReleased c b d timed)) \<or>
    (\<exists>u k r s1 ms. pcs s u = LockAwake k b \<and> continue u None s = Some (r, s1) \<and> mutex_boxes s1 b = Some ms \<and> owner ms = Some u)"
proof -
  obtain u where u: "will_wake b (pcs s u)"
    using inv ms sleep unfolding p_inv_def p_live_iff free_at_def sleeps_on_def by blast
  show ?thesis
  proof (cases "\<exists>k. pcs s u = LockAwake k b")
    case True
    then obtain j where j: "pcs s u = LockAwake j b" ..
    define ms' where "ms' = ms\<lparr>waiter_count := waiter_count ms - 1, owner := Some u, recursion_depth := 1\<rparr>"
    have pass: "mutex_lock_pass u False True ms = (Return 0, ms')"
      using ms(2) by (simp add: mutex_lock_pass_def ms'_def Let_def)
    have "\<exists>r p. continue u None s = Some (r, goto u p (put_mutex b ms' s))"
      using j ms(1) pass by (auto simp: continue_def mutex_lock_internal_def split: option.split)
    then show ?thesis using j by (force simp: ms'_def)
  next
    case False
    then show ?thesis using u unfolding will_wake_def by blast
  qed
qed

text \<open>Thread \<open>u\<close> waits on the condition variable \<open>c\<close> and leaves the wait in its next step.\<close>

definition leaves_wait :: "addr \<Rightarrow> tid \<Rightarrow> psystem \<Rightarrow> bool" where
  "leaves_wait c u s \<longleftrightarrow>
     (\<exists>b depth timed. (pcs s u = CondAwake c b depth timed \<or> pcs s u = CondReleased c b depth timed) \<and>
        (\<forall>choice. \<exists>s1. continue u choice s = Some (None, s1) \<and> pcs s1 u = Locking (First depth 0) False b))"

lemma awake_leaves:
  assumes core: "p_core s" and cs: "cond_boxes s c = Some cs" "0 < pending_wakeups cs" and u: "cond_awake c (pcs s u)"
  shows "leaves_wait c u s"
proof -
  have pass: "\<exists>s1. cond_wait_pass u False c b d timed w = Some s1 \<and> pcs s1 u = Locking (First d 0) False b"
    if "cond_boxes w c = Some cs" for b d timed w
    using that cs(2) by (simp add: cond_wait_pass_def Let_def)
  from u consider b d timed where "pcs s u = CondAwake c b d timed" | b d timed where "pcs s u = CondReleased c b d timed"
    by (cases "pcs s u") auto
  then show ?thesis
  proof cases
    case 1
    obtain s1 where "cond_wait_pass u False c b d timed s = Some s1" "pcs s1 u = Locking (First d 0) False b"
      using pass [OF cs(1)] by blast
    then show ?thesis using 1 by (auto simp: leaves_wait_def continue_def)
  next
    case 2
    have "b \<in> dom (mutex_boxes s)" using p_coreD(4) [OF core, of u] 2 by (auto simp: thread_ok_def)
    then obtain ms where ms: "mutex_boxes s b = Some ms" by blast
    have "\<exists>s1. continue u choice s = Some (None, s1) \<and> pcs s1 u = Locking (First d 0) False b" for choice
    proof -
      obtain s1 where "cond_wait_pass u False c b d timed (wake_locker choice s) = Some s1" "pcs s1 u = Locking (First d 0) False b"
        using pass [of "wake_locker choice s" b d timed] cs(1) by auto
      then show ?thesis using 2 ms by (simp add: continue_def)
    qed
    then show ?thesis using 2 unfolding leaves_wait_def by blast
  qed
qed

lemma pending_wakes:
  assumes inv: "p_inv s" and cs: "cond_boxes s c = Some cs" "0 < pending_wakeups cs"
  shows "(\<exists>u. leaves_wait c u s) \<or>
    (\<exists>u all. pcs s u = CondNotifying c all \<and>
       (\<forall>choice. continue_ok u choice s \<longrightarrow> (\<exists>s1 v. continue u choice s = Some (Some 0, s1) \<and> leaves_wait c v s1)))"
proof (cases "\<exists>u. cond_awake c (pcs s u)")
  case True
  then show ?thesis using awake_leaves [OF _ cs] inv by (auto simp: p_inv_def)
next
  case False
  have core: "p_core s" using inv by (simp add: p_inv_def)
  note cell = p_coreD(3) [OF core cs(1)]
  have "count_threads (cond_awake c) (pcs s) = 0" using False by (simp add: count_threads_0)
  then have "0 < count_threads (signalling c) (pcs s) \<or> broadcasting c (pcs s)" using cell cs(2) by (auto simp: cond_cell_def)
  then obtain u all where u: "pcs s u = CondNotifying c all"
    using count_threads_0 [of "signalling c" "pcs s"] by (auto simp: broadcasting_def signalling_def)
  have "0 < count_threads (cond_waiting c) (pcs s)" using cell cs(2) by (auto simp: cond_cell_def)
  then obtain v where "cond_waiting c (pcs s v)" using count_threads_0 [of "cond_waiting c" "pcs s"] by auto
  then obtain b d timed where v: "pcs s v = CondAsleep c b d timed" using spec [OF False [simplified], of v] by (cases "pcs s v") auto
  have "\<exists>s1 v. continue u choice s = Some (Some 0, s1) \<and> leaves_wait c v s1" if ok: "continue_ok u choice s" for choice
  proof -
    define s1 where "s1 = goto u Idle (if all then wake_all_waiters c s else wake_waiter choice s)"
    have step: "continue u choice s = Some (Some 0, s1)" using u cs(1) by (simp add: continue_def s1_def)
    have "p_core s1" by (rule continue_core [OF core ok step])
    moreover have "cond_boxes s1 c = Some cs" using cs(1) by (simp add: s1_def wake_waiter_def split: option.split pc.split)
    moreover have "\<exists>v. cond_awake c (pcs s1 v)"
    proof (cases all)
      case True
      then show ?thesis using v u by (intro exI [of _ v]) (auto simp: s1_def wake_all_waiters_pc)
    next
      case False
      then obtain w where w: "choice = Some w" "\<exists>b d timed. pcs s w = CondAsleep c b d timed"
        using ok u v by (cases choice) (auto simp: continue_ok_def waiter_choice_def)
      then show ?thesis using False u by (intro exI [of _ w]) (auto simp: s1_def wake_waiter_def)
    qed
    ultimately show ?thesis using step awake_leaves [OF _ _ cs(2)] by blast
  qed
  then show ?thesis using u by blast
qed

section \<open>An execution to evaluate\<close>

text \<open>A mutex at 16 and a condition variable at 32, both zeroed; thread 1 locks and waits.\<close>

definition objects :: psystem where
  "objects = \<lparr>mutexattrs = Map.empty, condattrs = Map.empty, ints = Map.empty, mutexes = [16 \<mapsto> 0], conds = [32 \<mapsto> 0],
     mutex_boxes = Map.empty, cond_boxes = Map.empty, timespecs = Map.empty, pcs = (\<lambda>_. Idle)\<rparr>"

definition first_waits :: "event list" where
  "first_waits = [Call 1 (MutexInit 64 16 null), Call 1 (MutexLock 16), Continue 1 None, Call 1 (CondWait 128 32 16),
     Continue 1 None]"

lemma objects_reachable: "run_events es objects = Some s \<Longrightarrow> preachable s"
  by (rule run_events_reachable) (auto intro!: reachable_init simp: pstart_def objects_def)

lemmas p_eval = run_event_def at_once_def pthread_mutex_init_def pthread_mutex_lock_def pthread_mutex_unlock_def
  pthread_mutex_destroy_def enter_def mutex_state_from_raw_def pthread_cond_wait_def cond_wait_from_def
  cond_state_from_raw_or_lazy_init_locked_def mutex_add_cond_waiter_reference_def mutex_unlock_internal_def
  mutex_remove_cond_waiter_reference_def mutex_restore_cond_wait_lock_depth_def mutex_lock_internal_def
  mutex_lock_pass_def cond_wait_pass_def pthread_cond_signal_def wake_waiter_def waiter_choice_def wake_locker_def
  locker_choice_def continue_def continue_ok_def fresh_mutex_def fresh_cond_def
  cond_lazy_init_free_def cond_wait_state_free_def DESTROYED_COND_SENTINEL_def mutex_new_def cond_new_def put_mutex_def put_cond_def goto_def Let_def
  saturating_add_def USIZE_MAX_def pthread_constants spurious_wakeup_def

definition waited :: psystem where
  "waited = objects\<lparr>mutexes := [16 \<mapsto> 64], conds := [32 \<mapsto> 128],
     mutex_boxes := [64 \<mapsto> \<lparr>mutex_type = 0, owner = None, recursion_depth = 0, waiter_count = 0, cond_waiter_count = 1\<rparr>],
     cond_boxes := [128 \<mapsto> \<lparr>cond_waiters = 1, pending_wakeups = 0\<rparr>],
     pcs := (\<lambda>_. Idle)(1 := CondAsleep 128 64 1 False)\<rparr>"

lemma ex_not [simp]: "Ex Not"
  by (rule exI [of _ False]) simp

lemma first_waits_run: "run_events first_waits objects = Some waited"
  by (simp add: first_waits_def objects_def waited_def p_eval)

definition relocked :: psystem where
  "relocked = waited\<lparr>mutex_boxes := [64 \<mapsto> \<lparr>mutex_type = 0, owner = Some 1, recursion_depth = 1, waiter_count = 0, cond_waiter_count = 1\<rparr>],
     cond_boxes := [128 \<mapsto> \<lparr>cond_waiters = 0, pending_wakeups = 0\<rparr>],
     pcs := (\<lambda>_. Idle)(2 := Idle, 1 := Unref 64 1 0)\<rparr>"

definition signalled :: psystem where
  "signalled = waited\<lparr>cond_boxes := [128 \<mapsto> \<lparr>cond_waiters = 1, pending_wakeups = 1\<rparr>],
     pcs := (\<lambda>_. Idle)(1 := CondAwake 128 64 1 False, 2 := Idle)\<rparr>"

lemma run_events_append: "run_events (es @ fs) s = Option.bind (run_events es s) (run_events fs)"
  by (induction es arbitrary: s) (auto split: bind_splits)

lemma signalled_run: "run_events (first_waits @ [Call 2 (CondSignal 32), Continue 2 (Some 1)]) objects = Some signalled"
  unfolding run_events_append first_waits_run by (simp add: waited_def objects_def signalled_def p_eval)

lemma relocked_run: "run_events (first_waits @ [Call 2 (CondSignal 32), Continue 2 (Some 1), Continue 1 None, Continue 1 None]) objects = Some relocked"
  unfolding run_events_append first_waits_run
  by (simp add: waited_def objects_def relocked_def p_eval)

text \<open>Thread 1 holds a recursive mutex twice, waits, and comes back.\<close>

definition held_twice :: psystem where
  "held_twice = objects\<lparr>mutexattrs := [8 \<mapsto> \<lparr>attr_type = 1, attr_pshared = 0, attr_initialized = 1\<rparr>], mutexes := [16 \<mapsto> 64],
     mutex_boxes := [64 \<mapsto> \<lparr>mutex_type = 1, owner = Some 1, recursion_depth = Suc (Suc 0), waiter_count = 0, cond_waiter_count = 0\<rparr>],
     pcs := (\<lambda>_. Idle)(1 := Idle)\<rparr>"

definition recursive_objects :: psystem where
  "recursive_objects = objects\<lparr>mutexattrs := [8 \<mapsto> \<lparr>attr_type = 1, attr_pshared = 0, attr_initialized = 1\<rparr>]\<rparr>"

lemma held_twice_reachable: "preachable held_twice"
proof (rule run_events_reachable)
  show "preachable recursive_objects" by (auto intro!: reachable_init simp: pstart_def recursive_objects_def objects_def)
  show "run_events [Call 1 (MutexInit 64 16 8), Call 1 (MutexLock 16), Continue 1 None, Call 1 (MutexLock 16), Continue 1 None]
      recursive_objects = Some held_twice"
    by (simp add: recursive_objects_def held_twice_def objects_def p_eval validate_mutex_type_def)
qed

definition waiting_twice :: psystem where
  "waiting_twice = held_twice\<lparr>conds := [32 \<mapsto> 128],
     mutex_boxes := [64 \<mapsto> \<lparr>mutex_type = 1, owner = None, recursion_depth = 0, waiter_count = 0, cond_waiter_count = 1\<rparr>],
     cond_boxes := [128 \<mapsto> \<lparr>cond_waiters = 1, pending_wakeups = 0\<rparr>],
     pcs := (\<lambda>_. Idle)(1 := CondReleased 128 64 (Suc (Suc 0)) False)\<rparr>"

lemma held_twice_wait: "begin_call 1 (CondWait 128 32 16) held_twice = Some (None, waiting_twice)"
  by (simp add: held_twice_def waiting_twice_def objects_def p_eval)

definition about_to_return :: psystem where
  "about_to_return = waiting_twice\<lparr>
     mutex_boxes := [64 \<mapsto> \<lparr>mutex_type = 1, owner = Some 1, recursion_depth = Suc (Suc 0), waiter_count = 0, cond_waiter_count = 1\<rparr>],
     cond_boxes := [128 \<mapsto> \<lparr>cond_waiters = 0, pending_wakeups = 0\<rparr>],
     pcs := (\<lambda>_. Idle)(2 := Idle, 1 := Unref 64 (Suc (Suc 0)) 0)\<rparr>"

definition given_back :: psystem where
  "given_back = about_to_return\<lparr>
     mutex_boxes := [64 \<mapsto> \<lparr>mutex_type = 1, owner = Some 1, recursion_depth = Suc (Suc 0), waiter_count = 0, cond_waiter_count = 0\<rparr>],
     pcs := (\<lambda>_. Idle)(2 := Idle, 1 := Idle)\<rparr>"

lemma held_twice_returns: "continue 1 None about_to_return = Some (Some 0, given_back)"
  by (simp add: about_to_return_def given_back_def waiting_twice_def held_twice_def objects_def p_eval)

text \<open>Executions in which a thread stays inside, event by event.\<close>

fun run_inside :: "tid \<Rightarrow> event list \<Rightarrow> psystem \<Rightarrow> psystem option" where
  "run_inside t [] s = Some s"
| "run_inside t (e # es) s =
     (case run_event e s of None \<Rightarrow> None | Some s' \<Rightarrow> if pcs s' t = Idle then None else run_inside t es s')"

lemma run_inside_stays: "run_inside t es s' = Some s'' \<Longrightarrow> stays_inside t s s' \<Longrightarrow> stays_inside t s s''"
proof (induction es arbitrary: s')
  case (Cons e es)
  then obtain s1 where "run_event e s' = Some s1" "pcs s1 t \<noteq> Idle" "run_inside t es s1 = Some s''"
    by (auto split: option.splits if_splits)
  then show ?case using Cons.IH stays_step [OF Cons.prems(2) run_event_step] by blast
qed simp

lemma held_twice_inside: "stays_inside 1 waiting_twice about_to_return"
proof (rule run_inside_stays [OF _ stays_here])
  show "run_inside 1 [Continue 1 None, Call 2 (CondSignal 32), Continue 2 (Some 1), Continue 1 None, Continue 1 None, Continue 1 None]
      waiting_twice = Some about_to_return"
    by (simp add: waiting_twice_def about_to_return_def held_twice_def objects_def p_eval)
qed

definition signal_sent :: psystem where
  "signal_sent = waited\<lparr>cond_boxes := [128 \<mapsto> \<lparr>cond_waiters = 1, pending_wakeups = 1\<rparr>],
     pcs := (\<lambda>_. Idle)(1 := CondAsleep 128 64 1 False, 2 := CondNotifying 128 False)\<rparr>"

lemma signal_sent_run: "run_events (first_waits @ [Call 2 (CondSignal 32)]) objects = Some signal_sent"
  unfolding run_events_append first_waits_run by (simp add: waited_def objects_def signal_sent_def p_eval)

section \<open>Properties\<close>



text \<open>
  C21. A wait gives the mutex back: a call that waits is a call of the owner of the mutex; it releases
  the mutex whatever its depth; and when this call returns, after any steps of any threads, the
  caller owns the same mutex again, at the depth it had at the call. The result is 0, or
  \<^verbatim>\<open>ETIMEDOUT\<close> from a timed wait.
\<close>

theorem cond_wait_restores_mutex:
  assumes "preachable s" "t \<noteq> 0" "pcs s t = Idle" "call_ok call s"
    and "call = CondWait fresh cond mutex \<and> timed = False \<or> call = CondTimedwait fresh cond mutex abstime now \<and> timed = True"
    and "begin_call t call s = Some (None, s1)"
    and "stays_inside t s1 s2" "continue t choice s2 = Some (Some x, s3)"
  shows "\<exists>b ms ms1 ms3. mutex_state_from_raw mutex s = Some (Inr b) \<and>
    mutex_boxes s b = Some ms \<and> owner ms = Some t \<and>
    mutex_boxes s1 b = Some ms1 \<and> owner ms1 = None \<and>
    mutex_boxes s3 b = Some ms3 \<and> owner ms3 = Some t \<and> recursion_depth ms3 = recursion_depth ms \<and>
    (x = 0 \<or> timed \<and> x = ETIMEDOUT)"
proof -
  have inv1: "p_inv s1"
    using pth.inv_step [OF pth.reachable_inv [OF assms(1)] p_call [OF assms(2-4,6)]] .
  have "cond_wait_from t fresh cond mutex timed s = Some (None, s1)"
    using assms(5,6) by (auto simp: pthread_cond_wait_def pthread_cond_timedwait_def split: bind_splits sum.splits)
  then obtain c b ms ms1 where start: "mutex_state_from_raw mutex s = Some (Inr b)" "mutex_boxes s b = Some ms"
    "owner ms = Some t" "mutex_boxes s1 b = Some ms1" "owner ms1 = None"
    and pc: "pcs s1 t = CondReleased c b (recursion_depth ms) timed"
    by (rule cond_wait_from_released)
  have core2: "p_core s2" and in2: "in_wait b (recursion_depth ms) timed (pcs s2 t)"
    using stays_inside_wait [OF assms(7) inv1, of b "recursion_depth ms" timed] pc by (simp_all add: p_inv_def)
  obtain d y where unref: "pcs s2 t = Unref b d y" and eqs: "d = recursion_depth ms" "y = x"
    using in_wait_returns [OF assms(8) in2] by blast
  have "\<exists>ms3. mutex_boxes s3 b = Some ms3 \<and> owner ms3 = Some t \<and> recursion_depth ms3 = recursion_depth ms"
    using p_coreD(4) [OF core2, of t] unref assms(8) eqs
    by (auto simp: thread_ok_def continue_def mutex_remove_cond_waiter_reference_def)
  moreover have "x = 0 \<or> timed \<and> x = ETIMEDOUT" using in2 unref eqs by simp
  ultimately show ?thesis using start by blast
qed

theorem cond_wait_restores_mutex_witness:
  "\<exists>b ms ms3. mutex_state_from_raw 16 held_twice = Some (Inr b) \<and> mutex_boxes held_twice b = Some ms \<and> recursion_depth ms = 2 \<and>
     mutex_boxes given_back b = Some ms3 \<and> owner ms3 = Some 1 \<and> recursion_depth ms3 = 2"
  using cond_wait_restores_mutex [OF held_twice_reachable _ _ _ _ held_twice_wait held_twice_inside held_twice_returns, where timed = False]
  by (auto simp: held_twice_def objects_def p_eval)

text \<open>
  C22. No wakeup is lost: if threads sleep on a mutex that is free, somebody is about to notify it,
  or has been woken and takes it in the next step. If a condition variable has pending wakeups, a
  waiter is about to test for one and leaves the wait in its next step, or a signal or broadcast is about to
  notify, and whatever thread this notification chooses, a waiter is in this position after it.
\<close>

theorem mutex_cond_no_lost_wakeup:
  assumes "preachable s"
  shows "(if (case mutex_boxes s b of None \<Rightarrow> False | Some ms \<Rightarrow> owner ms = None) \<and> pcs s t = LockAsleep k b
      then (\<exists>u. pcs s u = Notifying b \<or> (\<exists>c d timed. pcs s u = CondReleased c b d timed)) \<or>
        (\<exists>u k r s1 ms. pcs s u = LockAwake k b \<and> continue u None s = Some (r, s1) \<and>
           mutex_boxes s1 b = Some ms \<and> owner ms = Some u)
      else True) \<and>
    (if (case cond_boxes s c of None \<Rightarrow> False | Some cs \<Rightarrow> 0 < pending_wakeups cs)
      then (\<exists>u. leaves_wait c u s) \<or>
        (\<exists>u all. pcs s u = CondNotifying c all \<and>
           (\<forall>choice. if continue_ok u choice s
              then (\<exists>s1 v. continue u choice s = Some (Some 0, s1) \<and> leaves_wait c v s1) else True))
      else True)"
proof
  have inv: "p_inv s" using pth.reachable_inv [OF assms] .
  show "if (case mutex_boxes s b of None \<Rightarrow> False | Some ms \<Rightarrow> owner ms = None) \<and> pcs s t = LockAsleep k b
      then (\<exists>u. pcs s u = Notifying b \<or> (\<exists>c d timed. pcs s u = CondReleased c b d timed)) \<or>
        (\<exists>u k r s1 ms. pcs s u = LockAwake k b \<and> continue u None s = Some (r, s1) \<and>
           mutex_boxes s1 b = Some ms \<and> owner ms = Some u)
      else True"
    using free_mutex_wakes [OF inv, of b] by (cases "mutex_boxes s b") auto
  show "if (case cond_boxes s c of None \<Rightarrow> False | Some cs \<Rightarrow> 0 < pending_wakeups cs)
      then (\<exists>u. leaves_wait c u s) \<or>
        (\<exists>u all. pcs s u = CondNotifying c all \<and>
           (\<forall>choice. if continue_ok u choice s
              then (\<exists>s1 v. continue u choice s = Some (Some 0, s1) \<and> leaves_wait c v s1) else True))
      else True"
    using pending_wakes [OF inv, of c] by (cases "cond_boxes s c") auto
qed

theorem mutex_cond_no_lost_wakeup_witness:
  "(\<exists>u. leaves_wait 128 u signal_sent) \<or>
    (\<exists>u all. pcs signal_sent u = CondNotifying 128 all \<and>
       (\<forall>choice. if continue_ok u choice signal_sent
          then (\<exists>s1 v. continue u choice signal_sent = Some (Some 0, s1) \<and> leaves_wait 128 v s1) else True))"
  using mutex_cond_no_lost_wakeup [OF objects_reachable [OF signal_sent_run], of 64 1 Plain 128]
  by (simp add: signal_sent_def)

definition late_waiter :: "event list" where
  "late_waiter = [Call 3 (MutexLock 16), Continue 3 None, Call 3 (CondWait 136 32 16), Continue 3 None,
     Continue 1 None, Continue 3 None]"

text \<open>
  \<^verbatim>\<open>pthread_cond_signal\<close> can wake nobody: thread 1 is the only one that waits when thread 2
  signals, with success; thread 3, which calls \<^verbatim>\<open>pthread_cond_wait\<close> afterwards, returns from it at once, and
  thread 1 is asleep again with no wakeup pending.
\<close>

theorem cond_signal_can_be_stolen:
  "\<exists>s1 sent s2 s3 cs. run_events first_waits objects = Some s1 \<and> (\<forall>u. cond_waiting 128 (pcs s1 u) \<longleftrightarrow> u = 1) \<and>
     begin_call 2 (CondSignal 32) s1 = Some (None, sent) \<and> continue 2 (Some 1) sent = Some (Some 0, s2) \<and> pcs s2 3 = Idle \<and>
     run_events late_waiter s2 = Some s3 \<and> pcs s3 3 = Unref 64 1 0 \<and>
     pcs s3 1 = CondAsleep 128 64 1 False \<and> cond_boxes s3 128 = Some cs \<and> pending_wakeups cs = 0"
proof -
  have signal: "begin_call 2 (CondSignal 32) waited = Some (None, signal_sent)"
    "continue 2 (Some 1) signal_sent = Some (Some 0, signalled)"
    by (simp_all add: waited_def objects_def signal_sent_def signalled_def p_eval)
  have "\<exists>s3 cs. run_events late_waiter signalled = Some s3 \<and> pcs s3 3 = Unref 64 1 0 \<and>
     pcs s3 1 = CondAsleep 128 64 1 False \<and> cond_boxes s3 128 = Some cs \<and> pending_wakeups cs = 0"
    by (simp add: signalled_def waited_def objects_def late_waiter_def p_eval)
  moreover have "cond_waiting 128 (pcs waited u) \<longleftrightarrow> u = 1" "pcs signalled 3 = Idle" for u
    by (simp_all add: waited_def signalled_def)
  ultimately show ?thesis using first_waits_run signal by blast
qed

text \<open>
  An unlock notifies the condition variable of the mutex after it has released it: if another
  thread locks, unlocks and destroys the mutex in between, the notification is of a freed state.
\<close>

definition unlock_race :: "event list" where
  "unlock_race = [Call 1 (MutexInit 64 16 null), Call 1 (MutexLock 16), Continue 1 None, Call 1 (MutexUnlock 16), Continue 1 None,
     Call 2 (MutexLock 16), Continue 2 None, Call 2 (MutexUnlock 16), Continue 2 None, Continue 2 None, Call 2 (MutexDestroy 16)]"

lemma unlock_notifies_freed_mutex:
  "\<exists>s. run_events unlock_race objects = Some s \<and> pcs s 1 = Notifying 64 \<and> mutex_boxes s 64 = None"
  by (simp add: unlock_race_def objects_def p_eval)

end
