(* ===== verification/Thread_Registry.thy ===== *)
theory Thread_Registry
  imports Threads
begin

text \<open>
  Creating, joining and detaching threads, of \<^verbatim>\<open>src/src/pthread.rs\<close>: the registry that says
  what is known of each handle, and the threads that work on it. The host C library's
  \<^verbatim>\<open>pthread_create\<close>, \<^verbatim>\<open>pthread_join\<close> and \<^verbatim>\<open>pthread_detach\<close>, to which native threads are
  forwarded, are parameters: each such call is given the code it returns.
\<close>

type_synonym pthread_t = "64 word"

section \<open>The registry\<close>

definition NATIVE_DETACHED_CACHE_LIMIT :: nat where "NATIVE_DETACHED_CACHE_LIMIT = 1024"
definition NATIVE_CONSUMED_CACHE_LIMIT :: nat where "NATIVE_CONSUMED_CACHE_LIMIT = 1024"

record PthreadRegistry =
  detached :: "pthread_t set"
  finished :: "pthread_t set"
  joinable :: "pthread_t set"
  local_pending :: "pthread_t set"
  native_detached :: "pthread_t set"
  native_detached_order :: "pthread_t list"
  native_consumed :: "pthread_t set"
  native_consumed_order :: "pthread_t list"
  native_joinable :: "pthread_t set"

definition registry_default :: PthreadRegistry where
  "registry_default = \<lparr>detached = {}, finished = {}, joinable = {}, local_pending = {}, native_detached = {},
     native_detached_order = [], native_consumed = {}, native_consumed_order = [], native_joinable = {}\<rparr>"

definition handle_local_thread_exit :: "pthread_t \<Rightarrow> PthreadRegistry \<Rightarrow> PthreadRegistry" where
  "handle_local_thread_exit thread r =
     (if thread \<in> detached r then r\<lparr>detached := detached r - {thread}\<rparr>
      else if thread \<in> joinable r \<or> thread \<in> local_pending r then r\<lparr>finished := insert thread (finished r)\<rparr>
      else r)"

definition clear_native_detached :: "pthread_t \<Rightarrow> PthreadRegistry \<Rightarrow> PthreadRegistry" where
  "clear_native_detached thread r =
     (if thread \<notin> native_detached r then r
      else r\<lparr>native_detached := native_detached r - {thread},
             native_detached_order := remove1 thread (native_detached_order r)\<rparr>)"

definition clear_native_consumed :: "pthread_t \<Rightarrow> PthreadRegistry \<Rightarrow> PthreadRegistry" where
  "clear_native_consumed thread r =
     (if thread \<notin> native_consumed r then r
      else r\<lparr>native_consumed := native_consumed r - {thread},
             native_consumed_order := remove1 thread (native_consumed_order r)\<rparr>)"

text \<open>Evict the oldest entries of a cache beyond its limit: \<^verbatim>\<open>pop_front\<close> and remove from the set.\<close>

fun evict :: "nat \<Rightarrow> pthread_t set \<Rightarrow> pthread_t list \<Rightarrow> pthread_t set \<times> pthread_t list" where
  "evict limit cache [] = (cache, [])"
| "evict limit cache (expired # order) =
     (if length (expired # order) > limit then evict limit (cache - {expired}) order else (cache, expired # order))"

definition mark_native_detached :: "pthread_t \<Rightarrow> PthreadRegistry \<Rightarrow> PthreadRegistry" where
  "mark_native_detached thread r =
     (let r = clear_native_consumed thread r;
          r = r\<lparr>native_joinable := native_joinable r - {thread}\<rparr>;
          r = (if thread \<in> native_detached r then r
               else r\<lparr>native_detached := insert thread (native_detached r),
                      native_detached_order := native_detached_order r @ [thread]\<rparr>);
          (cache, order) = evict NATIVE_DETACHED_CACHE_LIMIT (native_detached r) (native_detached_order r)
      in r\<lparr>native_detached := cache, native_detached_order := order\<rparr>)"

definition mark_native_consumed :: "pthread_t \<Rightarrow> PthreadRegistry \<Rightarrow> PthreadRegistry" where
  "mark_native_consumed thread r =
     (let r = r\<lparr>native_joinable := native_joinable r - {thread}\<rparr>;
          r = clear_native_detached thread r;
          r = (if thread \<in> native_consumed r then r
               else r\<lparr>native_consumed := insert thread (native_consumed r),
                      native_consumed_order := native_consumed_order r @ [thread]\<rparr>);
          (cache, order) = evict NATIVE_CONSUMED_CACHE_LIMIT (native_consumed r) (native_consumed_order r)
      in r\<lparr>native_consumed := cache, native_consumed_order := order\<rparr>)"

definition handle_forwarded_native_detach_result ::
  "pthread_t \<Rightarrow> c_int \<Rightarrow> bool \<Rightarrow> PthreadRegistry \<Rightarrow> c_int \<times> PthreadRegistry" where
  "handle_forwarded_native_detach_result thread detach_result restore_joinable_on_error r =
     (if detach_result = 0 \<or> detach_result = EINVAL then (detach_result, mark_native_detached thread r)
      else if detach_result = ESRCH then (ESRCH, mark_native_consumed thread r)
      else (detach_result,
        if restore_joinable_on_error \<and> thread \<notin> native_detached r
        then r\<lparr>native_joinable := insert thread (native_joinable r)\<rparr> else r))"

definition handle_forwarded_native_join_result ::
  "pthread_t \<Rightarrow> c_int \<Rightarrow> bool \<Rightarrow> PthreadRegistry \<Rightarrow> c_int \<times> PthreadRegistry" where
  "handle_forwarded_native_join_result thread join_result restore_joinable_on_error r =
     (let was_detached = (thread \<in> native_detached r) in
      if join_result = 0 then
        (0, if was_detached then mark_native_detached thread r else mark_native_consumed thread r)
      else if join_result = ESRCH then (ESRCH, mark_native_consumed thread r)
      else if join_result = EINVAL then (EINVAL, mark_native_detached thread r)
      else (join_result,
        if restore_joinable_on_error \<and> thread \<notin> native_detached r
        then r\<lparr>native_joinable := insert thread (native_joinable r)\<rparr> else r))"

definition id_taken :: "pthread_t \<Rightarrow> PthreadRegistry \<Rightarrow> bool" where
  "id_taken candidate r \<longleftrightarrow> candidate \<in> joinable r \<or> candidate \<in> local_pending r \<or> candidate \<in> detached r \<or>
     candidate \<in> native_joinable r \<or> candidate \<in> native_detached r \<or> candidate \<in> native_consumed r"

text \<open>The next free identity; the counter wraps around. The result holds the counter's new value.\<close>

partial_function (option) allocate_thread_id :: "PthreadRegistry \<Rightarrow> 64 word \<Rightarrow> (pthread_t \<times> 64 word) option" where
  "allocate_thread_id r next_id =
     (if next_id = 0 \<or> id_taken next_id r then allocate_thread_id r (next_id + 1)
      else Some (next_id, next_id + 1))"

section \<open>The threads\<close>

text \<open>
  A caller is outside, or in an operation between two critical sections: it has reserved an identity and will
  spawn, it has spawned and will register the handle, it waits for a local thread whose handle
  it took, it waits for the host's answer, it has the host's new handle and will register it, or
  it will record that it does not know a handle.
\<close>

datatype tpc = Idle
  | Reserved pthread_t addr
  | Spawned pthread_t addr
  | Joining pthread_t addr
  | NativeJoining pthread_t
  | NativeDetaching pthread_t
  | NativeCreated addr
  | Consuming pthread_t

text \<open>
  \<open>running\<close>: the local threads whose start routine has not been left; \<open>results\<close>: the values the
  others returned; \<open>own_id\<close> the thread-local \<^verbatim>\<open>CURRENT_THREAD_ID\<close> of the callers.
\<close>

record tsystem =
  registry :: PthreadRegistry
  next_thread_id :: "64 word"
  running :: "pthread_t set"
  results :: "pthread_t \<rightharpoonup> c_ulong"
  pcs :: "tid \<Rightarrow> tpc"
  own_id :: "tid \<rightharpoonup> pthread_t"
  handles :: "addr \<rightharpoonup> pthread_t"
  return_values :: "addr \<rightharpoonup> c_ulong"
  recent_native_creates :: "tid \<Rightarrow> pthread_t list"

definition goto :: "tid \<Rightarrow> tpc \<Rightarrow> tsystem \<Rightarrow> tsystem" where
  "goto t p s = s\<lparr>pcs := (pcs s)(t := p)\<rparr>"

definition write_handle :: "addr \<Rightarrow> pthread_t \<Rightarrow> tsystem \<Rightarrow> tsystem option" where
  "write_handle p v s = (if handles s p = None then None else Some (s\<lparr>handles := (handles s)(p \<mapsto> v)\<rparr>))"

definition remember_recent_native_create :: "tid \<Rightarrow> pthread_t \<Rightarrow> tsystem \<Rightarrow> tsystem" where
  "remember_recent_native_create t thread s =
     (let recent = recent_native_creates s t in
      if thread \<in> set recent then s
      else s\<lparr>recent_native_creates := (recent_native_creates s)(t := recent @ [thread])\<rparr>)"

definition clear_recent_native_create :: "tid \<Rightarrow> pthread_t \<Rightarrow> tsystem \<Rightarrow> tsystem" where
  "clear_recent_native_create t thread s =
     s\<lparr>recent_native_creates := (recent_native_creates s)(t := remove1 thread (recent_native_creates s t))\<rparr>"

text \<open>\<^verbatim>\<open>spawn_local_thread\<close>: reserve an identity; spawn; register the handle and hand it out.\<close>

definition spawn_local_thread :: "tid \<Rightarrow> addr \<Rightarrow> tsystem \<Rightarrow> (c_int option \<times> tsystem) option" where
  "spawn_local_thread t thread s = do {
     (thread_id, next_id) \<leftarrow> allocate_thread_id (registry s) (next_thread_id s);
     let r = registry s;
     Some (None, goto t (Reserved thread_id thread)
       (s\<lparr>registry := r\<lparr>local_pending := insert thread_id (local_pending r)\<rparr>, next_thread_id := next_id\<rparr>)) }"

definition spawn :: "bool \<Rightarrow> tid \<Rightarrow> pthread_t \<Rightarrow> addr \<Rightarrow> tsystem \<Rightarrow> c_int option \<times> tsystem" where
  "spawn spawn_ok t thread_id thread s =
     (if spawn_ok then (None, goto t (Spawned thread_id thread) (s\<lparr>running := insert thread_id (running s)\<rparr>))
      else (let r = registry s in
        (Some EAGAIN, goto t Idle (s\<lparr>registry := r\<lparr>local_pending := local_pending r - {thread_id}\<rparr>\<rparr>))))"

definition register_spawned :: "tid \<Rightarrow> pthread_t \<Rightarrow> addr \<Rightarrow> tsystem \<Rightarrow> (c_int option \<times> tsystem) option" where
  "register_spawned t thread_id thread s = do {
     let r = registry s;
     let r = r\<lparr>joinable := insert thread_id (joinable r)\<rparr>;
     let r = r\<lparr>local_pending := local_pending r - {thread_id}\<rparr>;
     s \<leftarrow> write_handle thread thread_id (s\<lparr>registry := r\<rparr>);
     Some (Some 0, goto t Idle s) }"

text \<open>
  \<open>attr\<close>: the bytes of the attributes, if given; \<open>start\<close>: whether there is a start routine;
  \<open>host\<close>: the host's code, and the handle it writes on success; \<open>forwarding\<close>: the thread-local
  \<^verbatim>\<open>INTERNAL_PTHREAD_FALLBACK\<close>, set while the runtime itself works on threads.
\<close>

definition is_zeroed_attr_payload :: "8 word list \<Rightarrow> bool" where
  "is_zeroed_attr_payload payload = list_all (\<lambda>b. b = 0) payload"

definition host_create :: "addr \<Rightarrow> c_int \<times> pthread_t \<Rightarrow> tsystem \<Rightarrow> tsystem option" where
  "host_create thread host s = (if fst host = 0 then write_handle thread (snd host) s else Some s)"

definition pthread_create ::
  "bool \<Rightarrow> tid \<Rightarrow> addr \<Rightarrow> 8 word list option \<Rightarrow> bool \<Rightarrow> c_int \<times> pthread_t \<Rightarrow> tsystem \<Rightarrow> (c_int option \<times> tsystem) option" where
  "pthread_create forwarding t thread attr start host s =
     (if forwarding then do { s \<leftarrow> host_create thread host s; Some (Some (fst host), s) }
      else if thread = null then Some (Some EINVAL, s)
      else if \<not> start then Some (Some EINVAL, s)
      else
        (case attr of
           Some payload \<Rightarrow>
             if is_zeroed_attr_payload payload then spawn_local_thread t thread s
             else do {
               s \<leftarrow> host_create thread host s;
               Some (if fst host = 0 then (None, goto t (NativeCreated thread) s) else (Some (fst host), s)) }
         | None \<Rightarrow> spawn_local_thread t thread s))"

definition pthread_detach :: "bool \<Rightarrow> tid \<Rightarrow> pthread_t \<Rightarrow> c_int \<Rightarrow> tsystem \<Rightarrow> c_int option \<times> tsystem" where
  "pthread_detach forwarding t thread host s =
     (if forwarding then (Some host, s)
      else
        (let r = registry s in
         if thread \<in> detached r then (Some EINVAL, s)
         else if thread \<in> native_consumed r then (Some ESRCH, s)
         else if thread \<in> joinable r then
           (let r = r\<lparr>joinable := joinable r - {thread}\<rparr>;
                was_finished = (thread \<in> finished r);
                r = r\<lparr>finished := finished r - {thread}\<rparr>;
                r = (if \<not> was_finished then r\<lparr>detached := insert thread (detached r)\<rparr> else r)
            in (Some 0, s\<lparr>registry := r\<rparr>))
         else if thread \<in> native_detached r then (Some EINVAL, clear_recent_native_create t thread s)
         else if thread \<in> native_joinable r then
           (let r = r\<lparr>native_joinable := native_joinable r - {thread}\<rparr>;
                r = clear_native_detached thread r
            in (None, goto t (NativeDetaching thread) (clear_recent_native_create t thread (s\<lparr>registry := r\<rparr>))))
         else (None, goto t (Consuming thread) (clear_recent_native_create t thread s))))"

definition pthread_join :: "bool \<Rightarrow> tid \<Rightarrow> pthread_t \<Rightarrow> addr \<Rightarrow> c_int \<Rightarrow> tsystem \<Rightarrow> c_int option \<times> tsystem" where
  "pthread_join forwarding t thread retval host s =
     (if forwarding then (Some host, s)
      else if own_id s t = Some thread then (Some EDEADLK, s)
      else
        (let r = registry s in
         if thread \<in> detached r then (Some EINVAL, s)
         else if thread \<in> native_consumed r then (Some ESRCH, s)
         else if thread \<in> joinable r then
           (let r = r\<lparr>joinable := joinable r - {thread}\<rparr>;
                r = r\<lparr>finished := finished r - {thread}\<rparr>
            in (None, goto t (Joining thread retval) (s\<lparr>registry := r\<rparr>)))
         else if thread \<in> native_detached r then (Some EINVAL, clear_recent_native_create t thread s)
         else if thread \<in> native_joinable r then
           (let r = r\<lparr>native_joinable := native_joinable r - {thread}\<rparr>;
                r = clear_native_detached thread r
            in (None, goto t (NativeJoining thread) (clear_recent_native_create t thread (s\<lparr>registry := r\<rparr>))))
         else (None, goto t (Consuming thread) (clear_recent_native_create t thread s))))"

text \<open>The second parts: the result of a local thread, the host's answer or handle, an unknown handle.\<close>

definition finish_local_join :: "tid \<Rightarrow> pthread_t \<Rightarrow> addr \<Rightarrow> tsystem \<Rightarrow> (c_int option \<times> tsystem) option" where
  "finish_local_join t thread retval s = do {
     joined \<leftarrow> results s thread;
     if retval = null then Some (Some 0, goto t Idle s)
     else if return_values s retval = None then None
     else Some (Some 0, goto t Idle (s\<lparr>return_values := (return_values s)(retval \<mapsto> joined)\<rparr>)) }"

definition finish_native_join :: "tid \<Rightarrow> pthread_t \<Rightarrow> c_int \<Rightarrow> tsystem \<Rightarrow> c_int option \<times> tsystem" where
  "finish_native_join t thread host s =
     (case handle_forwarded_native_join_result thread host True (registry s) of
        (code, r) \<Rightarrow> (Some code, goto t Idle (s\<lparr>registry := r\<rparr>)))"

definition finish_native_detach :: "tid \<Rightarrow> pthread_t \<Rightarrow> c_int \<Rightarrow> tsystem \<Rightarrow> c_int option \<times> tsystem" where
  "finish_native_detach t thread host s =
     (case handle_forwarded_native_detach_result thread host True (registry s) of
        (code, r) \<Rightarrow> (Some code, goto t Idle (s\<lparr>registry := r\<rparr>)))"

definition register_native :: "tid \<Rightarrow> addr \<Rightarrow> tsystem \<Rightarrow> (c_int option \<times> tsystem) option" where
  "register_native t thread s = do {
     native_thread \<leftarrow> handles s thread;
     let r = registry s;
     let r = r\<lparr>native_joinable := insert native_thread (native_joinable r)\<rparr>;
     let r = clear_native_detached native_thread r;
     let r = clear_native_consumed native_thread r;
     Some (Some 0, goto t Idle (remember_recent_native_create t native_thread (s\<lparr>registry := r\<rparr>))) }"

definition finish_unknown :: "tid \<Rightarrow> pthread_t \<Rightarrow> tsystem \<Rightarrow> c_int option \<times> tsystem" where
  "finish_unknown t thread s =
     (Some ESRCH, goto t Idle (s\<lparr>registry := mark_native_consumed thread (registry s)\<rparr>))"

text \<open>The end of a local thread: its start routine returns \<open>v\<close>, and the registry is told.\<close>

definition thread_exit :: "pthread_t \<Rightarrow> c_ulong \<Rightarrow> tsystem \<Rightarrow> tsystem" where
  "thread_exit thread_id v s =
     s\<lparr>registry := handle_local_thread_exit thread_id (registry s), running := running s - {thread_id},
       results := (results s)(thread_id \<mapsto> v)\<rparr>"

text \<open>
  The steps. A \<^verbatim>\<open>JoinHandle\<close> is named by the identity it was made for, which is unique as long as the
  64-bit counter has not wrapped around: the executions considered hand out fewer than \<open>2 ^ 64\<close> identities.
\<close>

inductive tstep :: "tsystem \<Rightarrow> tsystem \<Rightarrow> bool" where
  t_create: "pcs s t = Idle \<Longrightarrow> pthread_create forwarding t thread attr start host s = Some (c, s') \<Longrightarrow>
     (\<forall>i. pcs s' t = Reserved i thread \<longrightarrow> next_thread_id s < next_thread_id s') \<Longrightarrow> tstep s s'"
| t_detach: "pcs s t = Idle \<Longrightarrow> pthread_detach forwarding t thread host s = (c, s') \<Longrightarrow> tstep s s'"
| t_join: "pcs s t = Idle \<Longrightarrow> pthread_join forwarding t thread retval host s = (c, s') \<Longrightarrow> tstep s s'"
| t_spawn: "pcs s t = Reserved thread_id thread \<Longrightarrow> spawn spawn_ok t thread_id thread s = (c, s') \<Longrightarrow> tstep s s'"
| t_register: "pcs s t = Spawned thread_id thread \<Longrightarrow> register_spawned t thread_id thread s = Some (c, s') \<Longrightarrow> tstep s s'"
| t_exit: "thread_id \<in> running s \<Longrightarrow> tstep s (thread_exit thread_id v s)"
| t_joined: "pcs s t = Joining thread retval \<Longrightarrow> finish_local_join t thread retval s = Some (c, s') \<Longrightarrow> tstep s s'"
| t_native_joined: "pcs s t = NativeJoining thread \<Longrightarrow> finish_native_join t thread host s = (c, s') \<Longrightarrow> tstep s s'"
| t_native_detached: "pcs s t = NativeDetaching thread \<Longrightarrow> finish_native_detach t thread host s = (c, s') \<Longrightarrow> tstep s s'"
| t_native_created: "pcs s t = NativeCreated thread \<Longrightarrow> register_native t thread s = Some (c, s') \<Longrightarrow> tstep s s'"
| t_unknown: "pcs s t = Consuming thread \<Longrightarrow> finish_unknown t thread s = (c, s') \<Longrightarrow> tstep s s'"

definition tstart :: "tsystem \<Rightarrow> bool" where
  "tstart s \<longleftrightarrow> registry s = registry_default \<and> next_thread_id s = 1 \<and> running s = {} \<and> results s = Map.empty \<and>
     pcs s = (\<lambda>_. Idle)"

abbreviation treachable :: "tsystem \<Rightarrow> bool" where
  "treachable \<equiv> reachable tstart tstep"

section \<open>The caches\<close>

text \<open>A cache is its order, without repetitions and within the limit.\<close>

definition cache_ok :: "nat \<Rightarrow> pthread_t set \<Rightarrow> pthread_t list \<Rightarrow> bool" where
  "cache_ok limit cache order \<longleftrightarrow> cache = set order \<and> distinct order \<and> length order \<le> limit"

lemma evict_ok:
  "cache = set order \<Longrightarrow> distinct order \<Longrightarrow> evict limit cache order = (cache', order') \<Longrightarrow>
   cache_ok limit cache' order' \<and> (length order \<le> Suc limit \<longrightarrow> 0 < limit \<longrightarrow> order \<noteq> [] \<longrightarrow> last order \<in> cache')"
proof (induction limit cache order rule: evict.induct)
  case (2 limit cache expired order)
  show ?case
  proof (cases "length (expired # order) > limit")
    case True
    have "cache - {expired} = set order" using "2.prems" by auto
    then show ?thesis using 2 True by (cases order) (auto simp: cache_ok_def)
  qed (use 2 in \<open>auto simp: cache_ok_def\<close>)
qed (auto simp: cache_ok_def)

lemma cache_remove: "cache_ok limit cache order \<Longrightarrow> cache_ok limit (cache - {x}) (remove1 x order)"
  by (auto simp: cache_ok_def set_remove1_eq length_remove1)

definition caches_ok :: "PthreadRegistry \<Rightarrow> bool" where
  "caches_ok r \<longleftrightarrow> cache_ok NATIVE_DETACHED_CACHE_LIMIT (native_detached r) (native_detached_order r) \<and>
     cache_ok NATIVE_CONSUMED_CACHE_LIMIT (native_consumed r) (native_consumed_order r)"

lemma cache_add: "cache_ok limit cache order \<Longrightarrow> x \<notin> cache \<Longrightarrow>
    evict limit (insert x cache) (order @ [x]) = (cache', order') \<Longrightarrow> cache_ok limit cache' order'"
  using evict_ok [of "insert x cache" "order @ [x]" limit cache' order'] by (simp add: cache_ok_def)

lemma caches_clear: "caches_ok r \<Longrightarrow> caches_ok (clear_native_detached x r)" "caches_ok r \<Longrightarrow> caches_ok (clear_native_consumed x r)"
  by (auto simp: caches_ok_def clear_native_detached_def clear_native_consumed_def cache_remove)

lemma caches_mark:
  assumes ok: "caches_ok r"
  shows "caches_ok (mark_native_detached x r)" "caches_ok (mark_native_consumed x r)"
proof -
  have evict_same: "evict limit cache order = (cache', order') \<Longrightarrow> cache_ok limit cache order \<Longrightarrow> cache_ok limit cache' order'"
    for limit cache order cache' order' using evict_ok [of cache order limit cache' order'] by (simp add: cache_ok_def)
  show "caches_ok (mark_native_detached x r)"
    using caches_clear(2) [OF ok, of x] by (auto simp: mark_native_detached_def caches_ok_def Let_def
      intro: evict_same cache_add split: prod.split if_splits)
  show "caches_ok (mark_native_consumed x r)"
    using caches_clear(1) [OF ok, of x]
    by (auto simp: mark_native_consumed_def caches_ok_def Let_def clear_native_detached_def
      intro: evict_same cache_add cache_remove split: prod.split if_splits)
qed

text \<open>The operations on native handles leave what is known of local threads alone.\<close>

definition same_local :: "PthreadRegistry \<Rightarrow> PthreadRegistry \<Rightarrow> bool" where
  "same_local r r' \<longleftrightarrow> detached r' = detached r \<and> finished r' = finished r \<and> joinable r' = joinable r \<and>
     local_pending r' = local_pending r"

lemma same_local_native:
  "same_local r (clear_native_detached x r)" "same_local r (clear_native_consumed x r)"
  "same_local r (mark_native_detached x r)" "same_local r (mark_native_consumed x r)"
  by (auto simp: same_local_def clear_native_detached_def clear_native_consumed_def mark_native_detached_def
      mark_native_consumed_def Let_def split: prod.split)

lemma handle_native:
  assumes "caches_ok r"
  shows "caches_ok (snd (handle_forwarded_native_join_result x code restore r))"
    "same_local r (snd (handle_forwarded_native_join_result x code restore r))"
    "caches_ok (snd (handle_forwarded_native_detach_result x code restore r))"
    "same_local r (snd (handle_forwarded_native_detach_result x code restore r))"
  using assms caches_mark [OF assms] same_local_native
  by (auto simp: handle_forwarded_native_join_result_def handle_forwarded_native_detach_result_def Let_def
      caches_ok_def same_local_def)

section \<open>Local threads\<close>

definition refers :: "pthread_t \<Rightarrow> tpc \<Rightarrow> bool" where
  "refers x p \<longleftrightarrow> (case p of Reserved y a \<Rightarrow> y = x | Spawned y a \<Rightarrow> y = x | Joining y a \<Rightarrow> y = x | _ \<Rightarrow> False)"

lemma refers_simps [simp]: "\<not> refers x Idle" "refers x (Reserved y a) \<longleftrightarrow> y = x" "refers x (Spawned y a) \<longleftrightarrow> y = x"
    "refers x (Joining y a) \<longleftrightarrow> y = x" "\<not> refers x (NativeJoining y)" "\<not> refers x (NativeDetaching y)"
    "\<not> refers x (NativeCreated p)" "\<not> refers x (Consuming y)"
  by (auto simp: refers_def)

text \<open>What a caller at a program point relies on.\<close>

definition point_ok :: "PthreadRegistry \<Rightarrow> pthread_t set \<Rightarrow> pthread_t set \<Rightarrow> tpc \<Rightarrow> bool" where
  "point_ok r run ended p \<longleftrightarrow>
     (case p of
        Reserved x a \<Rightarrow> x \<in> local_pending r \<and> x \<notin> run \<and> x \<notin> ended
      | Spawned x a \<Rightarrow> x \<in> local_pending r \<and> x \<in> run \<union> ended
      | Joining x a \<Rightarrow> x \<notin> joinable r \<and> x \<notin> local_pending r \<and> x \<notin> detached r \<and> x \<in> run \<union> ended
      | _ \<Rightarrow> True)"

definition registry_ok :: "64 word \<Rightarrow> PthreadRegistry \<Rightarrow> pthread_t set \<Rightarrow> pthread_t set \<Rightarrow> bool" where
  "registry_ok n r run ended \<longleftrightarrow>
     (\<forall>x \<in> joinable r \<union> local_pending r \<union> detached r \<union> run \<union> ended. x < n) \<and>
     joinable r \<inter> local_pending r = {} \<and> joinable r \<inter> detached r = {} \<and> local_pending r \<inter> detached r = {} \<and>
     joinable r \<subseteq> run \<union> ended \<and> detached r \<subseteq> run \<and> run \<inter> ended = {} \<and>
     finished r = (joinable r \<union> local_pending r) \<inter> ended"

definition points_ok :: "64 word \<Rightarrow> PthreadRegistry \<Rightarrow> pthread_t set \<Rightarrow> pthread_t set \<Rightarrow> (tid \<Rightarrow> tpc) \<Rightarrow> bool" where
  "points_ok n r run ended P \<longleftrightarrow> (\<forall>t. point_ok r run ended (P t)) \<and> (\<forall>t x. refers x (P t) \<longrightarrow> x < n) \<and>
     (\<forall>t u x. refers x (P t) \<longrightarrow> refers x (P u) \<longrightarrow> t = u)"

definition t_inv :: "tsystem \<Rightarrow> bool" where
  "t_inv s \<longleftrightarrow> caches_ok (registry s) \<and>
     registry_ok (next_thread_id s) (registry s) (running s) (dom (results s)) \<and>
     points_ok (next_thread_id s) (registry s) (running s) (dom (results s)) (pcs s)"

lemma registry_ok_same: "same_local r r' \<Longrightarrow> registry_ok n r run ended \<Longrightarrow> registry_ok n r' run ended"
  by (simp add: same_local_def registry_ok_def)

lemma points_ok_same: "same_local r r' \<Longrightarrow> points_ok n r run ended P \<Longrightarrow> points_ok n r' run ended P"
  by (simp add: same_local_def points_ok_def point_ok_def cong: tpc.case_cong)

lemma points_okD: "points_ok n r run ended P \<Longrightarrow> point_ok r run ended (P t)"
    "points_ok n r run ended P \<Longrightarrow> refers x (P t) \<Longrightarrow> refers x (P u) \<Longrightarrow> t = u"
  unfolding points_ok_def by blast+

text \<open>A caller moves: the others' points must stay true, and what it refers to must be its own.\<close>

lemma points_ok_move:
  assumes "points_ok n r run ended P" "n \<le> n'"
    and "\<And>u. u \<noteq> t \<Longrightarrow> point_ok r run ended (P u) \<Longrightarrow> (\<And>x. refers x (P u) \<Longrightarrow> \<not> refers x p) \<Longrightarrow> point_ok r' run' ended' (P u)"
    and "point_ok r' run' ended' p" "\<And>x. refers x p \<Longrightarrow> x < n'"
    and own: "\<And>x u. u \<noteq> t \<Longrightarrow> refers x p \<Longrightarrow> \<not> refers x (P u)"
  shows "points_ok n' r' run' ended' (P(t := p))"
  unfolding points_ok_def
proof (intro conjI allI impI)
  show "point_ok r' run' ended' ((P(t := p)) u)" for u
    using assms(1) assms(3) [of u] assms(4) own by (cases "u = t") (auto simp: points_ok_def)
  show "x < n'" if "refers x ((P(t := p)) u)" for u x
  proof (cases "u = t")
    case False
    then have "x < n" using that assms(1) by (auto simp: points_ok_def)
    then show ?thesis using assms(2) by (rule less_le_trans)
  qed (use that assms(5) in simp)
  show "u = v" if "refers x ((P(t := p)) u)" "refers x ((P(t := p)) v)" for u v x
  proof (cases "u = t \<or> v = t")
    case False
    then show ?thesis using that points_okD(2) [OF assms(1), of x u v] assms(1) by (auto simp: points_ok_def)
  qed (use that own in \<open>auto split: if_splits\<close>)
qed

lemma refers_own:
  assumes "points_ok n r run ended P" "refers x (P t)" "u \<noteq> t"
  shows "\<not> refers x (P u)"
  using points_okD(2) [OF assms(1,2), of u] assms(3) by blast

text \<open>The identity a reservation gets is new.\<close>

lemma allocate_thread_id_new:
  "allocate_thread_id r n = Some p \<Longrightarrow> \<not> id_taken (fst p) r \<and> snd p = fst p + 1"
proof (rule allocate_thread_id.raw_induct [of "\<lambda>r n p. \<not> id_taken (fst p) r \<and> snd p = fst p + 1"])
  fix f :: "PthreadRegistry \<Rightarrow> 64 word \<Rightarrow> (pthread_t \<times> 64 word) option" and r n p
  assume "\<And>r n p. f r n = Some p \<Longrightarrow> \<not> id_taken (fst p) r \<and> snd p = fst p + 1"
    and "(if n = 0 \<or> id_taken n r then f r (n + 1) else Some (n, n + 1)) = Some p"
  then show "\<not> id_taken (fst p) r \<and> snd p = fst p + 1" by (auto split: if_splits)
qed

lemma below_next: "n < i + 1 \<Longrightarrow> n \<le> i \<and> i < i + 1" for n i :: "64 word"
proof -
  assume n: "n < i + 1"
  then have "1 + i \<noteq> 0" by (auto simp: add.commute)
  then have "unat (i + 1) = Suc (unat i)" using unatSuc [of i] by (simp add: add.commute)
  then show ?thesis using n by (simp add: word_less_nat_alt word_le_nat_alt)
qed

section \<open>Every step keeps the invariant\<close>

lemma t_invD:
  assumes "t_inv s"
  shows "caches_ok (registry s)" "registry_ok (next_thread_id s) (registry s) (running s) (dom (results s))"
    "points_ok (next_thread_id s) (registry s) (running s) (dom (results s)) (pcs s)"
  using assms by (simp_all add: t_inv_def)

lemma reg_goto_simps [simp]: "registry (goto t p s) = registry s" "next_thread_id (goto t p s) = next_thread_id s"
    "running (goto t p s) = running s" "results (goto t p s) = results s" "pcs (goto t p s) = (pcs s)(t := p)"
  by (simp_all add: goto_def)

text \<open>Steps on native handles.\<close>

lemma t_inv_native:
  assumes inv: "t_inv s" and r: "caches_ok r" "same_local (registry s) r"
    and s': "registry s' = r" "next_thread_id s' = next_thread_id s" "running s' = running s" "results s' = results s"
    and pcs: "pcs s' = pcs s \<or> (\<exists>t p. pcs s' = (pcs s)(t := p) \<and> p \<in> {Idle, NativeJoining x, NativeDetaching x, NativeCreated q, Consuming x})"
  shows "t_inv s'"
proof -
  have pts: "points_ok (next_thread_id s) r (running s) (dom (results s)) (pcs s)"
    by (rule points_ok_same [OF r(2) t_invD(3) [OF inv]])
  have "points_ok (next_thread_id s) r (running s) (dom (results s)) ((pcs s)(t := p))" if "p \<in> {Idle, NativeJoining x, NativeDetaching x, NativeCreated q, Consuming x}" for t p
    by (rule points_ok_move [OF pts]) (use that in \<open>auto simp: point_ok_def\<close>)
  then show ?thesis
    using r s' pcs pts registry_ok_same [OF r(2) t_invD(2) [OF inv]] unfolding t_inv_def by auto
qed

lemma t_inv_cong: "t_inv s \<Longrightarrow> registry s' = registry s \<Longrightarrow> next_thread_id s' = next_thread_id s \<Longrightarrow> running s' = running s \<Longrightarrow>
    results s' = results s \<Longrightarrow> pcs s' = pcs s \<Longrightarrow> t_inv s'"
  by (simp add: t_inv_def)

lemma reserve_inv:
  assumes inv: "t_inv s" and eq: "spawn_local_thread t thread s = Some (c, s')" and wrap: "next_thread_id s < next_thread_id s'"
    and pc: "pcs s t = Idle"
  shows "t_inv s'"
proof -
  obtain i n' where alloc: "allocate_thread_id (registry s) (next_thread_id s) = Some (i, n')"
    using eq by (auto simp: spawn_local_thread_def split: bind_splits)
  define r where "r = (registry s)\<lparr>local_pending := insert i (local_pending (registry s))\<rparr>"
  have s': "s' = goto t (Reserved i thread) (s\<lparr>registry := r, next_thread_id := n'\<rparr>)"
    using eq alloc by (simp add: spawn_local_thread_def r_def Let_def)
  have i: "\<not> id_taken i (registry s)" "n' = i + 1" using allocate_thread_id_new [OF alloc] by simp_all
  have n: "next_thread_id s \<le> i" "i < n'" "next_thread_id s \<le> n'"
    using below_next [of "next_thread_id s" i] wrap i(2) by (simp_all add: s')
  have ok: "registry_ok (next_thread_id s) (registry s) (running s) (dom (results s))" by (rule t_invD(2) [OF inv])
  then have new: "i \<notin> joinable (registry s)" "i \<notin> local_pending (registry s)" "i \<notin> detached (registry s)" "i \<notin> running s" "i \<notin> dom (results s)"
    using n(1) unfolding registry_ok_def by (auto simp: not_less [symmetric])
  have "registry_ok n' r (running s) (dom (results s))"
    using ok new n unfolding registry_ok_def r_def by (auto intro: less_le_trans)
  moreover have "points_ok n' r (running s) (dom (results s)) ((pcs s)(t := Reserved i thread))"
  proof (rule points_ok_move [OF t_invD(3) [OF inv] n(3)])
    show "\<not> refers x (pcs s u)" if "refers x (Reserved i thread)" for x u
    proof
      assume "refers x (pcs s u)"
      then have "i < next_thread_id s" using that t_invD(3) [OF inv] by (auto simp: points_ok_def)
      then show False using n(1) by simp
    qed
    show "point_ok r (running s) (dom (results s)) (pcs s u)"
      if "point_ok (registry s) (running s) (dom (results s)) (pcs s u)" "\<And>x. refers x (pcs s u) \<Longrightarrow> \<not> refers x (Reserved i thread)" for u
      using that by (auto simp: point_ok_def r_def split: tpc.splits)
  qed (use new n in \<open>auto simp: point_ok_def r_def\<close>)
  moreover have "caches_ok r" using t_invD(1) [OF inv] by (simp add: caches_ok_def r_def)
  ultimately show ?thesis by (simp add: t_inv_def s')
qed

lemma spawn_inv:
  assumes inv: "t_inv s" and pc: "pcs s t = Reserved i thread" and eq: "spawn spawn_ok t i thread s = (c, s')"
  shows "t_inv s'"
proof -
  let ?r = "(registry s)\<lparr>local_pending := local_pending (registry s) - {i}\<rparr>"
  note ok = t_invD(2) [OF inv] and pts = t_invD(3) [OF inv]
  have own: "u \<noteq> t \<Longrightarrow> pcs s u \<noteq> Reserved i a \<and> pcs s u \<noteq> Spawned i a \<and> pcs s u \<noteq> Joining i a \<and> \<not> refers i (pcs s u)" for u a
    using refers_own [OF pts, of i t u] pc by auto
  have at: "i \<in> local_pending (registry s)" "i \<notin> running s" "i \<notin> dom (results s)"
    using points_okD(1) [OF pts, of t] pc by (simp_all add: point_ok_def)
  have less: "i < next_thread_id s" using pts pc unfolding points_ok_def by (metis refers_simps(2))
  show ?thesis
  proof (cases spawn_ok)
    case True
    have "registry_ok (next_thread_id s) (registry s) (insert i (running s)) (dom (results s))"
      using ok at less unfolding registry_ok_def by auto
    moreover have "points_ok (next_thread_id s) (registry s) (insert i (running s)) (dom (results s)) ((pcs s)(t := Spawned i thread))"
      by (rule points_ok_move [OF pts]) (use own at less in \<open>auto simp: point_ok_def split: tpc.splits\<close>)
    ultimately show ?thesis using eq True t_invD(1) [OF inv] by (auto simp: spawn_def t_inv_def)
  next
    case False
    have "registry_ok (next_thread_id s) ?r (running s) (dom (results s))"
      using ok at unfolding registry_ok_def by auto
    moreover have "points_ok (next_thread_id s) ?r (running s) (dom (results s)) ((pcs s)(t := Idle))"
      by (rule points_ok_move [OF pts]) (use own at in \<open>auto simp: point_ok_def split: tpc.splits\<close>)
    moreover have "caches_ok ?r" using t_invD(1) [OF inv] by (simp add: caches_ok_def)
    ultimately show ?thesis using eq False by (auto simp: spawn_def t_inv_def Let_def)
  qed
qed

lemma register_inv:
  assumes inv: "t_inv s" and pc: "pcs s t = Spawned i thread" and eq: "register_spawned t i thread s = Some (c, s')"
  shows "t_inv s'"
proof -
  let ?r = "(registry s)\<lparr>joinable := insert i (joinable (registry s)), local_pending := local_pending (registry s) - {i}\<rparr>"
  note ok = t_invD(2) [OF inv] and pts = t_invD(3) [OF inv]
  have own: "u \<noteq> t \<Longrightarrow> pcs s u \<noteq> Reserved i a \<and> pcs s u \<noteq> Spawned i a \<and> pcs s u \<noteq> Joining i a \<and> \<not> refers i (pcs s u)" for u a
    using refers_own [OF pts, of i t u] pc by auto
  have at: "i \<in> local_pending (registry s)" "i \<in> running s \<union> dom (results s)"
    using points_okD(1) [OF pts, of t] pc by (simp_all add: point_ok_def)
  have "registry_ok (next_thread_id s) ?r (running s) (dom (results s))"
    using ok at unfolding registry_ok_def by auto
  moreover have "points_ok (next_thread_id s) ?r (running s) (dom (results s)) ((pcs s)(t := Idle))"
    by (rule points_ok_move [OF pts]) (use own at in \<open>auto simp: point_ok_def split: tpc.splits\<close>)
  moreover have "caches_ok ?r" using t_invD(1) [OF inv] by (simp add: caches_ok_def)
  ultimately show ?thesis
    using eq by (auto simp: register_spawned_def write_handle_def t_inv_def Let_def split: bind_splits if_splits)
qed

lemma exit_inv:
  assumes inv: "t_inv s" and run: "i \<in> running s"
  shows "t_inv (thread_exit i v s)"
proof -
  let ?r = "handle_local_thread_exit i (registry s)"
  note ok = t_invD(2) [OF inv] and pts = t_invD(3) [OF inv]
  have "registry_ok (next_thread_id s) ?r (running s - {i}) (insert i (dom (results s)))"
    using ok run unfolding registry_ok_def handle_local_thread_exit_def by (auto split: if_splits)
  moreover have "point_ok ?r (running s - {i}) (insert i (dom (results s))) (pcs s u)" for u
    using points_okD(1) [OF pts, of u] run unfolding point_ok_def handle_local_thread_exit_def
    by (auto split: tpc.splits)
  then have "points_ok (next_thread_id s) ?r (running s - {i}) (insert i (dom (results s))) (pcs s)"
    using pts by (simp add: points_ok_def)
  moreover have "caches_ok ?r" using t_invD(1) [OF inv] by (simp add: caches_ok_def handle_local_thread_exit_def)
  ultimately show ?thesis by (simp add: thread_exit_def t_inv_def)
qed

text \<open>A handle is taken out of the registry to join the thread, or to detach it.\<close>

lemma not_referred:
  assumes "points_ok n r run ended P" "i \<in> joinable r" "joinable r \<inter> local_pending r = {}"
  shows "P u \<noteq> Reserved i a \<and> P u \<noteq> Spawned i a \<and> P u \<noteq> Joining i a \<and> \<not> refers i (P u)"
  using points_okD(1) [OF assms(1), of u] assms(2,3) by (cases "P u") (auto simp: point_ok_def)

lemma local_join_inv:
  assumes inv: "t_inv s" and i: "i \<in> joinable (registry s)"
  shows "t_inv (goto t (Joining i retval)
    (s\<lparr>registry := (registry s)\<lparr>joinable := joinable (registry s) - {i}, finished := finished (registry s) - {i}\<rparr>\<rparr>))"
    (is "t_inv (goto t ?p (s\<lparr>registry := ?r\<rparr>))")
proof -
  note ok = t_invD(2) [OF inv] and pts = t_invD(3) [OF inv]
  have disj: "joinable (registry s) \<inter> local_pending (registry s) = {}" using ok by (simp add: registry_ok_def)
  note own = not_referred [OF pts i disj]
  have less: "i < next_thread_id s" using ok i by (simp add: registry_ok_def)
  have "registry_ok (next_thread_id s) ?r (running s) (dom (results s))"
    using ok i unfolding registry_ok_def by auto
  moreover have "points_ok (next_thread_id s) ?r (running s) (dom (results s)) ((pcs s)(t := ?p))"
  proof (rule points_ok_move [OF pts])
    show "point_ok ?r (running s) (dom (results s)) ?p" using ok i by (auto simp: point_ok_def registry_ok_def)
  qed (use own less in \<open>auto simp: point_ok_def split: tpc.splits\<close>)
  moreover have "caches_ok ?r" using t_invD(1) [OF inv] by (simp add: caches_ok_def)
  ultimately show ?thesis by (simp add: t_inv_def)
qed

lemma local_detach_inv:
  assumes inv: "t_inv s" and i: "i \<in> joinable (registry s)"
  defines "r \<equiv> (registry s)\<lparr>joinable := joinable (registry s) - {i}, finished := finished (registry s) - {i}\<rparr>"
  shows "t_inv (s\<lparr>registry := if i \<notin> finished (registry s) then r\<lparr>detached := insert i (detached (registry s))\<rparr> else r\<rparr>)"
    (is "t_inv (s\<lparr>registry := ?r\<rparr>)")
proof -
  note ok = t_invD(2) [OF inv] and pts = t_invD(3) [OF inv]
  have disj: "joinable (registry s) \<inter> local_pending (registry s) = {}" using ok by (simp add: registry_ok_def)
  note own = not_referred [OF pts i disj]
  have "registry_ok (next_thread_id s) ?r (running s) (dom (results s))"
    using ok i unfolding registry_ok_def r_def by (auto split: if_splits)
  moreover have "point_ok ?r (running s) (dom (results s)) (pcs s u)" for u
    using points_okD(1) [OF pts, of u] own [of u] by (auto simp: point_ok_def r_def split: tpc.splits)
  then have "points_ok (next_thread_id s) ?r (running s) (dom (results s)) (pcs s)"
    using pts by (simp add: points_ok_def)
  moreover have "caches_ok ?r" using t_invD(1) [OF inv] by (simp add: caches_ok_def r_def)
  ultimately show ?thesis by (simp add: t_inv_def)
qed

lemma joined_inv:
  assumes inv: "t_inv s" and eq: "finish_local_join t i retval s = Some (c, s')"
  shows "t_inv s'"
proof -
  have "points_ok (next_thread_id s) (registry s) (running s) (dom (results s)) ((pcs s)(t := Idle))"
    by (rule points_ok_move [OF t_invD(3) [OF inv]]) (auto simp: point_ok_def)
  then show ?thesis
    using eq t_invD(1,2) [OF inv] by (auto simp: finish_local_join_def t_inv_def split: bind_splits if_splits)
qed

text \<open>The host's answers, and the calls that only touch native handles.\<close>

lemma native_goto:
  assumes "t_inv s" "caches_ok r" "same_local (registry s) r" "p \<in> {Idle, NativeJoining x, NativeDetaching x, NativeCreated q, Consuming x}"
    "registry s' = r" "next_thread_id s' = next_thread_id s" "running s' = running s" "results s' = results s" "pcs s' = pcs s"
  shows "t_inv (goto t p s')"
  by (rule t_inv_native [OF assms(1-3), of _ x]) (use assms in \<open>auto\<close>)

lemma native_finish_inv:
  assumes inv: "t_inv s"
  shows "finish_native_join t x host s = (c, s') \<Longrightarrow> t_inv s'"
    and "finish_native_detach t x host s = (c, s') \<Longrightarrow> t_inv s'"
proof -
  note native = handle_native [OF t_invD(1) [OF inv], of x host True]
  show "finish_native_join t x host s = (c, s') \<Longrightarrow> t_inv s'"
    using native_goto [OF inv native(1,2), of Idle] by (auto simp: finish_native_join_def split: prod.splits)
  show "finish_native_detach t x host s = (c, s') \<Longrightarrow> t_inv s'"
    using native_goto [OF inv native(3,4), of Idle] by (auto simp: finish_native_detach_def split: prod.splits)
qed

lemma recent_simps [simp]:
  "registry (clear_recent_native_create t x s) = registry s" "next_thread_id (clear_recent_native_create t x s) = next_thread_id s"
  "running (clear_recent_native_create t x s) = running s" "results (clear_recent_native_create t x s) = results s"
  "pcs (clear_recent_native_create t x s) = pcs s"
  "registry (remember_recent_native_create t x s) = registry s" "next_thread_id (remember_recent_native_create t x s) = next_thread_id s"
  "running (remember_recent_native_create t x s) = running s" "results (remember_recent_native_create t x s) = results s"
  "pcs (remember_recent_native_create t x s) = pcs s"
  by (simp_all add: clear_recent_native_create_def remember_recent_native_create_def Let_def)

text \<open>A native handle is taken out of the registry, or a new one enters it.\<close>

lemma native_taken:
  assumes "caches_ok r"
  shows "caches_ok (clear_native_detached x (r\<lparr>native_joinable := N\<rparr>))"
    "same_local r (clear_native_detached x (r\<lparr>native_joinable := N\<rparr>))"
    "caches_ok (clear_native_consumed x (clear_native_detached x (r\<lparr>native_joinable := N\<rparr>)))"
    "same_local r (clear_native_consumed x (clear_native_detached x (r\<lparr>native_joinable := N\<rparr>)))"
proof -
  have r: "caches_ok (r\<lparr>native_joinable := N\<rparr>)" using assms by (simp add: caches_ok_def)
  show "caches_ok (clear_native_detached x (r\<lparr>native_joinable := N\<rparr>))" by (rule caches_clear(1) [OF r])
  then show "caches_ok (clear_native_consumed x (clear_native_detached x (r\<lparr>native_joinable := N\<rparr>)))" by (rule caches_clear(2))
qed (auto simp: same_local_def clear_native_detached_def clear_native_consumed_def)

lemma detach_inv:
  assumes inv: "t_inv s" and eq: "pthread_detach forwarding t thread host s = (c, s')"
  shows "t_inv s'"
proof -
  note caches = t_invD(1) [OF inv]
  consider "s' = s" | "thread \<in> joinable (registry s)" "\<not> forwarding" "thread \<notin> detached (registry s)" "thread \<notin> native_consumed (registry s)"
    | "s' = clear_recent_native_create t thread s"
    | "s' = goto t (NativeDetaching thread) (clear_recent_native_create t thread (s\<lparr>registry := clear_native_detached thread
         ((registry s)\<lparr>native_joinable := native_joinable (registry s) - {thread}\<rparr>)\<rparr>))"
    | "s' = goto t (Consuming thread) (clear_recent_native_create t thread s)"
    using eq by (auto simp: pthread_detach_def Let_def split: if_splits)
  then show ?thesis
  proof cases
    case 2
    then show ?thesis using eq local_detach_inv [OF inv 2(1)] by (auto simp: pthread_detach_def Let_def split: if_splits)
  next
    case 4
    show ?thesis unfolding 4
      by (rule native_goto [OF inv native_taken(1,2) [OF caches, of thread], where x = thread]) auto
  next
    case 5
    show ?thesis unfolding 5
      by (rule native_goto [OF inv caches, where x = thread]) (auto simp: same_local_def)
  qed (use inv in \<open>auto intro: t_inv_cong\<close>)
qed

lemma join_inv:
  assumes inv: "t_inv s" and eq: "pthread_join forwarding t thread retval host s = (c, s')"
  shows "t_inv s'"
proof -
  note caches = t_invD(1) [OF inv]
  consider "s' = s" | "thread \<in> joinable (registry s)" "\<not> forwarding" "own_id s t \<noteq> Some thread" "thread \<notin> detached (registry s)" "thread \<notin> native_consumed (registry s)"
    | "s' = clear_recent_native_create t thread s"
    | "s' = goto t (NativeJoining thread) (clear_recent_native_create t thread (s\<lparr>registry := clear_native_detached thread
         ((registry s)\<lparr>native_joinable := native_joinable (registry s) - {thread}\<rparr>)\<rparr>))"
    | "s' = goto t (Consuming thread) (clear_recent_native_create t thread s)"
    using eq by (auto simp: pthread_join_def Let_def split: if_splits)
  then show ?thesis
  proof cases
    case 2
    then show ?thesis using eq local_join_inv [OF inv 2(1), of t retval] by (auto simp: pthread_join_def Let_def)
  next
    case 4
    show ?thesis unfolding 4
      by (rule native_goto [OF inv native_taken(1,2) [OF caches, of thread], where x = thread]) auto
  next
    case 5
    show ?thesis unfolding 5
      by (rule native_goto [OF inv caches, where x = thread]) (auto simp: same_local_def)
  qed (use inv in \<open>auto intro: t_inv_cong\<close>)
qed

lemma write_handle_SomeD:
  "write_handle p v s = Some s' \<Longrightarrow> registry s' = registry s \<and> next_thread_id s' = next_thread_id s \<and>
     running s' = running s \<and> results s' = results s \<and> pcs s' = pcs s"
  by (auto simp: write_handle_def split: if_splits)

lemma host_create_SomeD:
  "host_create p h s = Some s' \<Longrightarrow> registry s' = registry s \<and> next_thread_id s' = next_thread_id s \<and>
     running s' = running s \<and> results s' = results s \<and> pcs s' = pcs s"
  by (auto simp: host_create_def split: if_splits dest: write_handle_SomeD)

lemma create_inv:
  assumes inv: "t_inv s" and eq: "pthread_create forwarding t thread attr start host s = Some (c, s')"
    and wrap: "\<forall>i. pcs s' t = Reserved i thread \<longrightarrow> next_thread_id s < next_thread_id s'" and pc: "pcs s t = Idle"
  shows "t_inv s'"
proof -
  consider "s' = s" | "host_create thread host s = Some s'"
    | s1 where "host_create thread host s = Some s1" "s' = goto t (NativeCreated thread) s1"
    | "spawn_local_thread t thread s = Some (c, s')"
    using eq by (auto simp: pthread_create_def Let_def split: if_splits option.splits bind_splits)
  then show ?thesis
  proof cases
    case 2
    then show ?thesis using t_inv_cong [OF inv] host_create_SomeD by blast
  next
    case 3
    then have s1: "t_inv s1" using t_inv_cong [OF inv] host_create_SomeD by blast
    show ?thesis unfolding 3(2)
      by (rule native_goto [OF s1 t_invD(1) [OF s1], where q = thread]) (auto simp: same_local_def)
  next
    case 4
    then have "\<exists>i. pcs s' t = Reserved i thread" by (auto simp: spawn_local_thread_def Let_def split: bind_splits)
    then show ?thesis using reserve_inv [OF inv 4 _ pc] wrap by blast
  qed (use inv in simp)
qed

lemma created_inv:
  assumes inv: "t_inv s" and eq: "register_native t thread s = Some (c, s')"
  shows "t_inv s'"
proof -
  obtain x where s': "s' = goto t Idle (remember_recent_native_create t x (s\<lparr>registry := clear_native_consumed x
      (clear_native_detached x ((registry s)\<lparr>native_joinable := insert x (native_joinable (registry s))\<rparr>))\<rparr>))"
    using eq by (auto simp: register_native_def Let_def split: bind_splits)
  show ?thesis unfolding s' by (rule native_goto [OF inv native_taken(3,4) [OF t_invD(1) [OF inv], of x]]) auto
qed

lemma unknown_inv:
  assumes inv: "t_inv s" and eq: "finish_unknown t x s = (c, s')"
  shows "t_inv s'"
  using native_goto [OF inv caches_mark(2) [OF t_invD(1) [OF inv]] same_local_native(4), of Idle x] eq
  by (auto simp: finish_unknown_def)

lemma t_inv_start: "tstart s \<Longrightarrow> t_inv s"
  by (auto simp: tstart_def t_inv_def registry_default_def caches_ok_def cache_ok_def registry_ok_def points_ok_def point_ok_def)

interpretation thr: invariant_system tstart tstep t_inv
proof
  show "t_inv s'" if "t_inv s" "tstep s s'" for s s'
    using that(2,1)
    by cases (blast intro: create_inv detach_inv join_inv spawn_inv register_inv exit_inv joined_inv native_finish_inv created_inv unknown_inv)+
qed (rule t_inv_start)

section \<open>What the registry guarantees\<close>

text \<open>A join or detach fails at once, or it fails with \<open>ESRCH\<close> once the handle is recorded as unknown.\<close>

definition refused :: "tid \<Rightarrow> pthread_t \<Rightarrow> c_int option \<times> tsystem \<Rightarrow> bool" where
  "refused u x r \<longleftrightarrow> fst r \<in> {Some ESRCH, Some EINVAL, Some EDEADLK} \<or>
     (fst r = None \<and> pcs (snd r) u = Consuming x \<and> (\<forall>s. fst (finish_unknown u x s) = Some ESRCH))"

text \<open>
  C23. The registry stays consistent: the two caches of native handles hold at most 1024 handles, each once;
  a detached local thread is still running; a thread is recorded as finished exactly when it has ended
  and nobody has joined or detached it; each local thread has at most one joiner, every other join or detach of it
  fails, and once the thread has ended its joiner returns 0 with the value the thread returned.
\<close>

theorem thread_registry_safety:
  assumes "treachable s"
  shows "card (native_detached (registry s)) \<le> 1024 \<and> card (native_consumed (registry s)) \<le> 1024 \<and>
    distinct (native_detached_order (registry s)) \<and> set (native_detached_order (registry s)) = native_detached (registry s) \<and>
    distinct (native_consumed_order (registry s)) \<and> set (native_consumed_order (registry s)) = native_consumed (registry s) \<and>
    detached (registry s) \<subseteq> running s \<and>
    finished (registry s) = (joinable (registry s) \<union> local_pending (registry s)) \<inter> dom (results s) \<and>
    (\<forall>t x p. pcs s t = Joining x p \<longrightarrow>
       (\<forall>u q. pcs s u = Joining x q \<longrightarrow> u = t) \<and>
       (\<forall>u q h. x \<notin> native_joinable (registry s) \<longrightarrow>
          refused u x (pthread_join False u x q h s) \<and> refused u x (pthread_detach False u x h s)) \<and>
       (x \<notin> running s \<longrightarrow> (\<exists>v. results s x = Some v \<and>
          (p \<noteq> null \<longrightarrow> return_values s p \<noteq> None \<longrightarrow>
             finish_local_join t x p s = Some (Some 0, goto t Idle (s\<lparr>return_values := (return_values s)(p \<mapsto> v)\<rparr>))))))"
proof -
  have inv: "t_inv s" using thr.reachable_inv [OF assms] .
  have caches: "cache_ok 1024 (native_detached (registry s)) (native_detached_order (registry s))"
      "cache_ok 1024 (native_consumed (registry s)) (native_consumed_order (registry s))"
    using t_invD(1) [OF inv] by (simp_all add: caches_ok_def NATIVE_DETACHED_CACHE_LIMIT_def NATIVE_CONSUMED_CACHE_LIMIT_def)
  have joining: "x \<notin> joinable (registry s) \<and> x \<notin> detached (registry s) \<and> x \<in> running s \<union> dom (results s)"
    if "pcs s t = Joining x p" for t x p
    using points_okD(1) [OF t_invD(3) [OF inv], of t] that by (simp add: point_ok_def)
  have once: "u = t" if "pcs s t = Joining x p" "pcs s u = Joining x q" for t u x p q
    using points_okD(2) [OF t_invD(3) [OF inv], of x t u] that by simp
  have fails: "refused u x (pthread_join False u x q h s)" "refused u x (pthread_detach False u x h s)"
    if "pcs s t = Joining x p" "x \<notin> native_joinable (registry s)" for t u x p q h
    using joining [OF that(1)] that(2) by (simp_all add: refused_def finish_unknown_def pthread_join_def pthread_detach_def Let_def)
  have val: "\<exists>v. results s x = Some v \<and> (p \<noteq> null \<longrightarrow> return_values s p \<noteq> None \<longrightarrow>
      finish_local_join t x p s = Some (Some 0, goto t Idle (s\<lparr>return_values := (return_values s)(p \<mapsto> v)\<rparr>)))"
    if "pcs s t = Joining x p" "x \<notin> running s" for t x p
    using joining [OF that(1)] that(2) by (auto simp: finish_local_join_def)
  show ?thesis
    using caches t_invD(2) [OF inv] once fails val card_length
    unfolding cache_ok_def registry_ok_def by (auto simp: distinct_card)
qed

text \<open>An execution: thread 1 creates a thread, registers its handle and joins it while it runs; it ends.\<close>

definition t_start_example :: tsystem where
  "t_start_example = \<lparr>registry = registry_default, next_thread_id = 1, running = {}, results = Map.empty, pcs = (\<lambda>_. Idle),
     own_id = Map.empty, handles = [100 \<mapsto> 0], return_values = [200 \<mapsto> 0], recent_native_creates = (\<lambda>_. [])\<rparr>"

definition joining_example :: tsystem where
  "joining_example = \<lparr>registry = registry_default, next_thread_id = 2, running = {}, results = [1 \<mapsto> 7],
     pcs = (\<lambda>_. Idle)(1 := Joining 1 200), own_id = Map.empty, handles = [100 \<mapsto> 1],
     return_values = [200 \<mapsto> 0], recent_native_creates = (\<lambda>_. [])\<rparr>"

lemma joining_example_reachable: "treachable joining_example"
proof -
  define s1 where "s1 = goto 1 (Reserved 1 100) (t_start_example\<lparr>registry := registry_default\<lparr>local_pending := {1}\<rparr>, next_thread_id := 2\<rparr>)"
  define s2 where "s2 = snd (spawn True 1 1 100 s1)"
  define s3 where "s3 = goto 1 Idle (s2\<lparr>registry := registry_default\<lparr>joinable := {1}\<rparr>, handles := [100 \<mapsto> 1]\<rparr>)"
  define s4 where "s4 = snd (pthread_join False 1 1 200 0 s3)"
  note defs = t_start_example_def s1_def s2_def s3_def s4_def goto_def
  have "treachable t_start_example" by (rule reachable_init) (simp add: tstart_def t_start_example_def)
  moreover have "tstep t_start_example s1"
  proof (rule t_create [where forwarding = False and t = 1 and thread = 100 and attr = None and start = True and host = "(0, 0)" and c = None])
    have "allocate_thread_id registry_default 1 = Some (1, 2)"
      by (simp add: allocate_thread_id.simps id_taken_def registry_default_def)
    then show "pthread_create False 1 100 None True (0, 0) t_start_example = Some (None, s1)"
      by (simp add: pthread_create_def spawn_local_thread_def t_start_example_def s1_def goto_def registry_default_def)
  qed (simp_all add: defs)
  moreover have "tstep s1 s2"
    by (rule t_spawn [where t = 1 and thread_id = 1 and thread = 100 and spawn_ok = True and c = None]) (simp_all add: defs spawn_def)
  moreover have "tstep s2 s3"
    by (rule t_register [where t = 1 and thread_id = 1 and thread = 100 and c = "Some 0"])
      (simp_all add: defs spawn_def register_spawned_def write_handle_def registry_default_def)
  moreover have "tstep s3 s4"
    by (rule t_join [where forwarding = False and t = 1 and thread = 1 and retval = 200 and host = 0 and c = None])
      (simp_all add: defs spawn_def pthread_join_def registry_default_def)
  moreover have "tstep s4 (thread_exit 1 7 s4)"
    by (rule t_exit) (simp add: defs spawn_def pthread_join_def registry_default_def)
  ultimately have "treachable (thread_exit 1 7 s4)" by (meson reachable_step)
  moreover have "thread_exit 1 7 s4 = joining_example"
    by (simp add: defs spawn_def pthread_join_def registry_default_def thread_exit_def handle_local_thread_exit_def joining_example_def)
  ultimately show ?thesis by simp
qed

theorem thread_registry_safety_witness:
  "treachable joining_example \<and> pcs joining_example 1 = Joining 1 200 \<and>
   refused 2 1 (pthread_join False 2 1 200 0 joining_example) \<and>
   (\<exists>s. finish_local_join 1 1 200 joining_example = Some (Some 0, s) \<and> return_values s 200 = Some 7)"
proof -
  have pc: "pcs joining_example 1 = Joining 1 200" "1 \<notin> native_joinable (registry joining_example)" "1 \<notin> running joining_example"
      "results joining_example 1 = Some 7" "return_values joining_example 200 \<noteq> None" "(200 :: addr) \<noteq> null"
    by (simp_all add: joining_example_def registry_default_def)
  note all = thread_registry_safety [OF joining_example_reachable, THEN conjunct2, THEN conjunct2, THEN conjunct2, THEN conjunct2,
      THEN conjunct2, THEN conjunct2, THEN conjunct2, THEN conjunct2, rule_format, OF pc(1)]
  have "refused 2 1 (pthread_join False 2 1 200 0 joining_example)"
    using all pc(2) by blast
  moreover obtain v where "results joining_example 1 = Some v"
      "finish_local_join 1 1 200 joining_example = Some (Some 0, goto 1 Idle
         (joining_example\<lparr>return_values := (return_values joining_example)(200 \<mapsto> v)\<rparr>))"
    using all pc(3,5,6) by blast
  ultimately show ?thesis using pc(1,4) joining_example_reachable by (simp add: goto_def)
qed

end
