(* ===== verification/Refine.thy ===== *)
theory Refine
  imports Prelude
begin

text \<open>
  Sequences of operations on a state, and what it means that they implement a specification on an
  abstract value: the component keeps a relation between state and value, and its answers are those of
  the specification.
\<close>

primrec run_ops :: "('o \<Rightarrow> 's \<Rightarrow> ('r \<times> 's) option) \<Rightarrow> 'o list \<Rightarrow> 's \<Rightarrow> ('r list \<times> 's) option" where
  "run_ops exec [] s = Some ([], s)"
| "run_ops exec (x # xs) s = do {
     (r, s) \<leftarrow> exec x s;
     (rs, s) \<leftarrow> run_ops exec xs s;
     Some (r # rs, s) }"

primrec run_spec :: "('o \<Rightarrow> 'a \<Rightarrow> 'r \<times> 'a) \<Rightarrow> 'o list \<Rightarrow> 'a \<Rightarrow> 'r list \<times> 'a" where
  "run_spec spec [] a = ([], a)"
| "run_spec spec (x # xs) a = (case spec x a of (r, a) \<Rightarrow> case run_spec spec xs a of (rs, a) \<Rightarrow> (r # rs, a))"

locale simulation =
  fixes rel :: "'s \<Rightarrow> 'a \<Rightarrow> bool" and exec :: "'o \<Rightarrow> 's \<Rightarrow> ('r \<times> 's) option"
    and spec :: "'o \<Rightarrow> 'a \<Rightarrow> 'r \<times> 'a" and ok :: "'o \<Rightarrow> bool"
  assumes simulates: "rel s a \<Longrightarrow> ok x \<Longrightarrow> \<exists>s'. exec x s = Some (fst (spec x a), s') \<and> rel s' (snd (spec x a))"
begin

lemma run: "rel s a \<Longrightarrow> list_all ok xs \<Longrightarrow>
    \<exists>s'. run_ops exec xs s = Some (fst (run_spec spec xs a), s') \<and> rel s' (snd (run_spec spec xs a))"
proof (induction xs arbitrary: s a)
  case (Cons x xs)
  then have x: "ok x" "list_all ok xs" by simp_all
  obtain s' where s': "exec x s = Some (fst (spec x a), s')" "rel s' (snd (spec x a))"
    using simulates [OF Cons.prems(1) x(1)] by blast
  obtain s'' where "run_ops exec xs s' = Some (fst (run_spec spec xs (snd (spec x a))), s'')"
      "rel s'' (snd (run_spec spec xs (snd (spec x a))))"
    using Cons.IH [OF s'(2) x(2)] by blast
  then show ?case using s' by (simp add: split_beta)
qed simp

end

end
