(* ===== verification/Env.thy ===== *)
theory Env
  imports Refine "HOL-Library.List_Lexorder"
begin

text \<open>
  The process environment of \<^verbatim>\<open>src/src/stdlib/env_core.rs\<close> and \<^verbatim>\<open>src/src/stdlib/env_mut.rs\<close>: \<open>getenv\<close>,
  \<open>setenv\<close>, \<open>unsetenv\<close>, \<open>putenv\<close> and \<open>clearenv\<close>. Each holds the environment lock from the moment it looks at
  the state to its end, so they are functions on the state. The specification is a partial map from
  names to values.
\<close>

section \<open>State\<close>

text \<open>
  \<open>environ\<close> is null, the vector that startup bound it to, or the vector the library published.
  Entries the library owns are not in the caller's memory.
\<close>

datatype environ = EnvNull | EnvVector addr | EnvOwned

record env_state = machine +
  environ :: environ
  aliases :: "(u8 list \<times> addr) list"
  initialized :: bool
  entries :: "u8 list list"

text \<open>What the operating system tells: \<^verbatim>\<open>/proc/self/environ\<close> if it can be read, and \<^verbatim>\<open>std::env::vars_os\<close>.\<close>

record os_env =
  proc_environ :: "u8 list option"
  vars_os :: "(u8 list \<times> u8 list) list"

text \<open>A pointer to a value: into the caller's memory, into an owned entry, into the fallback string.\<close>

datatype env_ptr = NullPtr | CallerPtr addr | OwnedPtr nat nat | FallbackPtr "u8 list"

abbreviation EQ :: u8 where "EQ \<equiv> 0x3D"

primrec position :: "('a \<Rightarrow> bool) \<Rightarrow> 'a list \<Rightarrow> nat option" where
  "position P [] = None"
| "position P (x # xs) = (if P x then Some 0 else map_option Suc (position P xs))"

section \<open>The owned environment\<close>

definition build_env_entry :: "u8 list \<Rightarrow> u8 list \<Rightarrow> u8 list" where
  "build_env_entry name_bytes value_bytes = name_bytes @ [EQ] @ value_bytes"

definition env_entry_has_name :: "u8 list \<Rightarrow> u8 list \<Rightarrow> bool" where
  "env_entry_has_name entry name_bytes =
     (case position (\<lambda>b. b = EQ) entry of None \<Rightarrow> False | Some equal_pos \<Rightarrow> take equal_pos entry = name_bytes)"

partial_function (option) copy_entries_from_environ :: "mem \<Rightarrow> (addr \<rightharpoonup> addr) \<Rightarrow> addr \<Rightarrow> u8 list list option" where
  "copy_entries_from_environ m ps environ_ptr = do {
     entry_ptr \<leftarrow> ps environ_ptr;
     if entry_ptr = null then Some []
     else do {
       copied \<leftarrow> cstr_bytes m entry_ptr;
       rest \<leftarrow> copy_entries_from_environ m ps (environ_ptr + 8);
       Some (copied # rest) } }"

text \<open>\<^verbatim>\<open>slice::split\<close>: the pieces between the separators, empty ones included.\<close>

fun split_on :: "u8 \<Rightarrow> u8 list \<Rightarrow> u8 list list" where
  "split_on c [] = [[]]"
| "split_on c (b # bs) =
     (if b = c then [] # split_on c bs
      else (case split_on c bs of [] \<Rightarrow> [[b]] | piece # pieces \<Rightarrow> (b # piece) # pieces))"

definition copy_entries_from_proc_environ :: "os_env \<Rightarrow> u8 list list" where
  "copy_entries_from_proc_environ os =
     (case proc_environ os of
        None \<Rightarrow> []
      | Some contents \<Rightarrow>
          concat (map (\<lambda>entry.
            if entry = [] then []
            else (case position (\<lambda>b. b = EQ) entry of
                None \<Rightarrow> []
              | Some equal_pos \<Rightarrow>
                  (let name_bytes = take equal_pos entry; value_bytes = drop (equal_pos + 1) entry in
                   if name_bytes = [] \<or> EQ \<in> set name_bytes then []
                   else [build_env_entry name_bytes value_bytes])))
          (split_on 0 contents)))"

definition copy_entries_from_host_env :: "os_env \<Rightarrow> u8 list list" where
  "copy_entries_from_host_env os =
     (let proc_entries = copy_entries_from_proc_environ os in
      if proc_entries \<noteq> [] then proc_entries
      else concat (map (\<lambda>(name, val).
             if name = [] \<or> EQ \<in> set name then []
             else if 0 \<in> set name \<or> 0 \<in> set val then []
             else [build_env_entry name val]) (vars_os os)))"

definition publish :: "env_state \<Rightarrow> env_state" where
  "publish s = s\<lparr>environ := (if entries s = [] then EnvNull else EnvOwned)\<rparr>"

definition ensure_initialized :: "os_env \<Rightarrow> env_state \<Rightarrow> env_state option" where
  "ensure_initialized os s =
     (if initialized s then Some s
      else do {
        es \<leftarrow> (case environ s of
            EnvNull \<Rightarrow> Some (copy_entries_from_host_env os)
          | EnvVector p \<Rightarrow> copy_entries_from_environ (bytes s) (ptrs s) p
          | EnvOwned \<Rightarrow> None);
        Some (publish (s\<lparr>entries := es, initialized := True\<rparr>)) })"

definition find_name_index :: "u8 list \<Rightarrow> u8 list list \<Rightarrow> nat option" where
  "find_name_index name_bytes es = position (\<lambda>entry. env_entry_has_name entry name_bytes) es"

definition contains_name :: "u8 list \<Rightarrow> env_state \<Rightarrow> bool" where
  "contains_name name_bytes s \<longleftrightarrow> find_name_index name_bytes (entries s) \<noteq> None"

text \<open>The \<^verbatim>\<open>retain\<close> of \<^verbatim>\<open>set_name_value\<close>: of the entries with the name only the first is kept.\<close>

fun retain_first :: "u8 list \<Rightarrow> bool \<Rightarrow> u8 list list \<Rightarrow> u8 list list" where
  "retain_first name_bytes kept_first [] = []"
| "retain_first name_bytes kept_first (entry # es) =
     (if \<not> env_entry_has_name entry name_bytes then entry # retain_first name_bytes kept_first es
      else if kept_first then retain_first name_bytes kept_first es
      else entry # retain_first name_bytes True es)"

definition set_name_value :: "u8 list \<Rightarrow> u8 list \<Rightarrow> env_state \<Rightarrow> env_state" where
  "set_name_value name_bytes value_bytes s =
     (let entry = build_env_entry name_bytes value_bytes in
      publish (s\<lparr>entries :=
        (case find_name_index name_bytes (entries s) of
           Some index \<Rightarrow> retain_first name_bytes False ((entries s)[index := entry])
         | None \<Rightarrow> entries s @ [entry])\<rparr>))"

definition remove_name :: "u8 list \<Rightarrow> env_state \<Rightarrow> env_state" where
  "remove_name name_bytes s =
     (let es = filter (\<lambda>entry. \<not> env_entry_has_name entry name_bytes) (entries s) in
      if length es \<noteq> length (entries s) then publish (s\<lparr>entries := es\<rparr>) else s\<lparr>entries := es\<rparr>)"

definition clear_entries :: "env_state \<Rightarrow> env_state" where
  "clear_entries s = publish (s\<lparr>entries := []\<rparr>)"

section \<open>Aliases of caller buffers\<close>

definition remove_putenv_alias :: "u8 list \<Rightarrow> env_state \<Rightarrow> env_state" where
  "remove_putenv_alias name_bytes s = s\<lparr>aliases := filter (\<lambda>(n, a). n \<noteq> name_bytes) (aliases s)\<rparr>"

definition remove_putenv_aliases_for_name_or_entry ::
  "u8 list \<Rightarrow> addr \<Rightarrow> env_state \<Rightarrow> u8 list list \<times> env_state" where
  "remove_putenv_aliases_for_name_or_entry name_bytes entry_ptr s =
     (remdups_adj (sort (map fst (filter (\<lambda>(n, a). n = name_bytes \<or> a = entry_ptr) (aliases s)))),
      s\<lparr>aliases := filter (\<lambda>(n, a). \<not> (n = name_bytes \<or> a = entry_ptr)) (aliases s)\<rparr>)"

definition remove_owned_name_if_initialized :: "u8 list \<Rightarrow> env_state \<Rightarrow> env_state" where
  "remove_owned_name_if_initialized name_bytes s = (if \<not> initialized s then s else remove_name name_bytes s)"

definition rebind_putenv_alias :: "u8 list \<Rightarrow> addr \<Rightarrow> env_state \<Rightarrow> u8 list list \<times> env_state" where
  "rebind_putenv_alias name_bytes entry_ptr s =
     (remdups_adj (sort (map fst (filter (\<lambda>(n, a). n \<noteq> name_bytes \<and> a = entry_ptr) (aliases s)))),
      s\<lparr>aliases := filter (\<lambda>(n, a). n \<noteq> name_bytes \<and> a \<noteq> entry_ptr) (aliases s) @ [(name_bytes, entry_ptr)]\<rparr>)"

text \<open>
  The address of the value in a buffer that still starts with the name and an equals sign. The inner
  option of the result is the function's own, the outer one the memory's.
\<close>

primrec parse_alias_value_ptr :: "mem \<Rightarrow> addr \<Rightarrow> u8 list \<Rightarrow> addr option option" where
  "parse_alias_value_ptr m cursor [] = do {
     separator \<leftarrow> m cursor;
     Some (if separator \<noteq> EQ then None else Some (cursor + 1)) }"
| "parse_alias_value_ptr m cursor (c # expected) = do {
     byte \<leftarrow> m cursor;
     if byte \<noteq> c then Some None else parse_alias_value_ptr m (cursor + 1) expected }"

definition parse_alias_value_ptr_impl :: "mem \<Rightarrow> addr \<Rightarrow> u8 list \<Rightarrow> addr option option" where
  "parse_alias_value_ptr_impl m entry_ptr expected_name =
     (if entry_ptr = null then Some None else parse_alias_value_ptr m entry_ptr expected_name)"

fun alias_scan ::
  "mem \<Rightarrow> u8 list \<Rightarrow> nat \<Rightarrow> (u8 list \<times> addr) list \<Rightarrow> nat option \<Rightarrow> addr option \<Rightarrow> nat list \<Rightarrow>
   (addr option \<times> nat list) option" where
  "alias_scan m name_bytes alias_index [] resolved_index resolved_value remove_indices = Some (resolved_value, remove_indices)"
| "alias_scan m name_bytes alias_index ((n, entry_addr) # as) resolved_index resolved_value remove_indices =
     (if n \<noteq> name_bytes then alias_scan m name_bytes (alias_index + 1) as resolved_index resolved_value remove_indices
      else do {
        value_ptr \<leftarrow> parse_alias_value_ptr_impl m entry_addr name_bytes;
        (case value_ptr of
           Some v \<Rightarrow>
             alias_scan m name_bytes (alias_index + 1) as (Some alias_index) (Some v)
               (case resolved_index of None \<Rightarrow> remove_indices | Some previous \<Rightarrow> remove_indices @ [previous])
         | None \<Rightarrow>
             alias_scan m name_bytes (alias_index + 1) as resolved_index resolved_value (remove_indices @ [alias_index])) })"

definition remove_at :: "nat \<Rightarrow> 'a list \<Rightarrow> 'a list" where
  "remove_at i xs = take i xs @ drop (Suc i) xs"

definition lookup_putenv_alias_value :: "u8 list \<Rightarrow> env_state \<Rightarrow> (addr option \<times> env_state) option" where
  "lookup_putenv_alias_value name_bytes s = do {
     (resolved_value, remove_indices) \<leftarrow> alias_scan (bytes s) name_bytes 0 (aliases s) None None [];
     let remove_indices = remdups_adj (sort remove_indices);
     let removed_stale_aliases = (resolved_value = None \<and> remove_indices \<noteq> []);
     let s = s\<lparr>aliases := fold remove_at (rev remove_indices) (aliases s)\<rparr>;
     Some (resolved_value, if removed_stale_aliases then remove_owned_name_if_initialized name_bytes s else s) }"

text \<open>Names whose aliases were dropped lose their owned copy, unless another alias serves them.\<close>

primrec drop_unaliased :: "u8 list list \<Rightarrow> env_state \<Rightarrow> env_state option" where
  "drop_unaliased [] s = Some s"
| "drop_unaliased (name # names) s = do {
     (v, s) \<leftarrow> lookup_putenv_alias_value name s;
     drop_unaliased names (if v = None then remove_owned_name_if_initialized name s else s) }"

section \<open>The exported functions\<close>

definition fail_with_errno :: "c_int \<Rightarrow> env_state \<Rightarrow> c_int \<times> env_state" where
  "fail_with_errno errno_value s = (- 1, set_errno errno_value s)"

definition read_c_string :: "addr \<Rightarrow> env_state \<Rightarrow> (c_int + u8 list) option" where
  "read_c_string p s = (if p = null then Some (Inl EINVAL) else do { bs \<leftarrow> cstr_bytes (bytes s) p; Some (Inr bs) })"

definition validate_name_bytes :: "u8 list \<Rightarrow> c_int option" where
  "validate_name_bytes name_bytes = (if name_bytes = [] \<or> EQ \<in> set name_bytes then Some EINVAL else None)"

definition setenv :: "os_env \<Rightarrow> addr \<Rightarrow> addr \<Rightarrow> c_int \<Rightarrow> env_state \<Rightarrow> (c_int \<times> env_state) option" where
  "setenv os name val overwrite s = do {
     name_bytes \<leftarrow> read_c_string name s;
     (case name_bytes of
        Inl e \<Rightarrow> Some (fail_with_errno e s)
      | Inr name_bytes \<Rightarrow> do {
          value_bytes \<leftarrow> read_c_string val s;
          (case value_bytes of
             Inl e \<Rightarrow> Some (fail_with_errno e s)
           | Inr value_bytes \<Rightarrow>
               (case validate_name_bytes name_bytes of
                  Some e \<Rightarrow> Some (fail_with_errno e s)
                | None \<Rightarrow> do {
                    let previous_errno = errno s;
                    s \<leftarrow> ensure_initialized os s;
                    (existed_before, s) \<leftarrow>
                      (if overwrite = 0 then do {
                         (v, s) \<leftarrow> lookup_putenv_alias_value name_bytes s;
                         Some (if v \<noteq> None then True else contains_name name_bytes s, s) }
                       else Some (False, s));
                    if overwrite = 0 \<and> existed_before then Some (0, set_errno previous_errno s)
                    else do {
                      let s = set_name_value name_bytes value_bytes s;
                      let s = (if overwrite \<noteq> 0 \<or> \<not> existed_before then remove_putenv_alias name_bytes s else s);
                      Some (0, set_errno previous_errno s) } })) }) }"

definition unsetenv :: "os_env \<Rightarrow> addr \<Rightarrow> env_state \<Rightarrow> (c_int \<times> env_state) option" where
  "unsetenv os name s = do {
     name_bytes \<leftarrow> read_c_string name s;
     (case name_bytes of
        Inl e \<Rightarrow> Some (fail_with_errno e s)
      | Inr name_bytes \<Rightarrow>
          (case validate_name_bytes name_bytes of
             Some e \<Rightarrow> Some (fail_with_errno e s)
           | None \<Rightarrow> do {
               let previous_errno = errno s;
               s \<leftarrow> ensure_initialized os s;
               let s = remove_name name_bytes s;
               let s = remove_putenv_alias name_bytes s;
               Some (0, set_errno previous_errno s) })) }"

definition putenv :: "os_env \<Rightarrow> addr \<Rightarrow> env_state \<Rightarrow> (c_int \<times> env_state) option" where
  "putenv os str s = do {
     bs \<leftarrow> read_c_string str s;
     (case bs of
        Inl e \<Rightarrow> Some (fail_with_errno e s)
      | Inr bs \<Rightarrow> do {
          let previous_errno = errno s;
          s \<leftarrow> ensure_initialized os s;
          (case position (\<lambda>b. b = EQ) bs of
             Some eq_pos \<Rightarrow>
               (let name_bytes = take eq_pos bs; value_bytes = drop (eq_pos + 1) bs in
                (case validate_name_bytes name_bytes of
                   Some e \<Rightarrow> Some (fail_with_errno e s)
                 | None \<Rightarrow> do {
                     let s = set_name_value name_bytes value_bytes s;
                     let (renamed_names, s) = rebind_putenv_alias name_bytes str s;
                     s \<leftarrow> drop_unaliased renamed_names s;
                     Some (0, set_errno previous_errno s) }))
           | None \<Rightarrow>
               (case validate_name_bytes bs of
                  Some e \<Rightarrow> Some (fail_with_errno e s)
                | None \<Rightarrow> do {
                    let s = remove_name bs s;
                    let (removed_names, s) = remove_putenv_aliases_for_name_or_entry bs str s;
                    s \<leftarrow> drop_unaliased removed_names s;
                    Some (0, set_errno previous_errno s) })) }) }"

definition clearenv :: "os_env \<Rightarrow> env_state \<Rightarrow> (c_int \<times> env_state) option" where
  "clearenv os s = do {
     let previous_errno = errno s;
     s \<leftarrow> ensure_initialized os s;
     let s = clear_entries s;
     let s = s\<lparr>aliases := []\<rparr>;
     Some (0, set_errno previous_errno s) }"

partial_function (option) lookup_vector :: "mem \<Rightarrow> (addr \<rightharpoonup> addr) \<Rightarrow> u8 list \<Rightarrow> addr \<Rightarrow> env_ptr option" where
  "lookup_vector m ps name_bytes cursor = do {
     entry \<leftarrow> ps cursor;
     if entry = null then Some NullPtr
     else do {
       entry_bytes \<leftarrow> cstr_bytes m entry;
       (case position (\<lambda>b. b = EQ) entry_bytes of
          Some equal_pos \<Rightarrow>
            if take equal_pos entry_bytes = name_bytes then Some (CallerPtr (entry + (equal_pos + 1)))
            else lookup_vector m ps name_bytes (cursor + 8)
        | None \<Rightarrow> lookup_vector m ps name_bytes (cursor + 8)) } }"

fun lookup_owned :: "nat \<Rightarrow> u8 list \<Rightarrow> u8 list list \<Rightarrow> env_ptr" where
  "lookup_owned i name_bytes [] = NullPtr"
| "lookup_owned i name_bytes (entry_bytes # es) =
     (case position (\<lambda>b. b = EQ) entry_bytes of
        Some equal_pos \<Rightarrow>
          if take equal_pos entry_bytes = name_bytes then OwnedPtr i (equal_pos + 1)
          else lookup_owned (Suc i) name_bytes es
      | None \<Rightarrow> lookup_owned (Suc i) name_bytes es)"

definition lookup_environ_value :: "u8 list \<Rightarrow> env_state \<Rightarrow> env_ptr option" where
  "lookup_environ_value name_bytes s =
     (case environ s of
        EnvNull \<Rightarrow> Some NullPtr
      | EnvVector p \<Rightarrow> lookup_vector (bytes s) (ptrs s) name_bytes p
      | EnvOwned \<Rightarrow> Some (lookup_owned 0 name_bytes (entries s)))"

fun lookup_pieces :: "u8 list \<Rightarrow> u8 list list \<Rightarrow> env_ptr" where
  "lookup_pieces name_bytes [] = NullPtr"
| "lookup_pieces name_bytes (entry # pieces) =
     (if entry = [] then lookup_pieces name_bytes pieces
      else (case position (\<lambda>b. b = EQ) entry of
          None \<Rightarrow> lookup_pieces name_bytes pieces
        | Some equal_pos \<Rightarrow>
            if take equal_pos entry \<noteq> name_bytes then lookup_pieces name_bytes pieces
            else FallbackPtr (drop (equal_pos + 1) entry)))"

definition lookup_proc_environ_value :: "os_env \<Rightarrow> u8 list \<Rightarrow> env_ptr" where
  "lookup_proc_environ_value os name_bytes =
     (case proc_environ os of None \<Rightarrow> NullPtr | Some contents \<Rightarrow> lookup_pieces name_bytes (split_on 0 contents))"

definition getenv :: "os_env \<Rightarrow> addr \<Rightarrow> env_state \<Rightarrow> (env_ptr \<times> env_state) option" where
  "getenv os name s =
     (if name = null then Some (NullPtr, s)
      else do {
        name_bytes \<leftarrow> cstr_bytes (bytes s) name;
        if name_bytes = [] \<or> EQ \<in> set name_bytes then Some (NullPtr, s)
        else do {
          (alias_value, s) \<leftarrow> lookup_putenv_alias_value name_bytes s;
          (case alias_value of
             Some v \<Rightarrow> Some (CallerPtr v, s)
           | None \<Rightarrow> do {
               s \<leftarrow> (if environ s = EnvNull \<and> \<not> initialized s then ensure_initialized os s else Some s);
               environ_value \<leftarrow> lookup_environ_value name_bytes s;
               if environ_value \<noteq> NullPtr then Some (environ_value, s)
               else if environ s = EnvNull \<and> \<not> initialized s
               then Some (lookup_proc_environ_value os name_bytes, s)
               else Some (NullPtr, s) }) } })"

section \<open>Specification\<close>

definition valid_name :: "u8 list \<Rightarrow> bool" where
  "valid_name name \<longleftrightarrow> name \<noteq> [] \<and> EQ \<notin> set name"

text \<open>The value that an entry, a list of entries or a buffer gives a name.\<close>

definition entry_value :: "u8 list \<Rightarrow> u8 list \<Rightarrow> u8 list option" where
  "entry_value name entry =
     (case position (\<lambda>b. b = EQ) entry of
        None \<Rightarrow> None
      | Some i \<Rightarrow> if take i entry = name then Some (drop (i + 1) entry) else None)"

primrec entries_value :: "u8 list \<Rightarrow> u8 list list \<Rightarrow> u8 list option" where
  "entries_value name [] = None"
| "entries_value name (entry # es) =
     (case entry_value name entry of None \<Rightarrow> entries_value name es | Some v \<Rightarrow> Some v)"

definition buffer_value :: "mem \<Rightarrow> u8 list \<Rightarrow> addr \<Rightarrow> u8 list option" where
  "buffer_value m name a = (case cstr_bytes m a of None \<Rightarrow> None | Some bs \<Rightarrow> entry_value name bs)"

definition env_view :: "env_state \<Rightarrow> u8 list list \<Rightarrow> u8 list \<rightharpoonup> u8 list" where
  "env_view s es name =
     (if valid_name name then
        (case map_of (aliases s) name of Some a \<Rightarrow> buffer_value (bytes s) name a | None \<Rightarrow> entries_value name es)
      else None)"

text \<open>The entries a state stands for, and what the buffers of the aliases must satisfy.\<close>

definition env_rep :: "os_env \<Rightarrow> env_state \<Rightarrow> u8 list list \<Rightarrow> bool" where
  "env_rep os s es \<longleftrightarrow>
     (if initialized s then es = entries s \<and> environ s = (if entries s = [] then EnvNull else EnvOwned)
      else aliases s = [] \<and>
        (case environ s of
           EnvNull \<Rightarrow> es = copy_entries_from_host_env os
         | EnvVector p \<Rightarrow> copy_entries_from_environ (bytes s) (ptrs s) p = Some es
         | EnvOwned \<Rightarrow> False))"

definition aliases_ok :: "mem \<Rightarrow> (u8 list \<times> addr) list \<Rightarrow> bool" where
  "aliases_ok m as \<longleftrightarrow> distinct (map fst as) \<and>
     (\<forall>(n, a) \<in> set as. valid_name n \<and> 0 \<notin> set n \<and> a \<noteq> null \<and> (\<exists>bs. cstr m a bs))"

definition environment :: "os_env \<Rightarrow> env_state \<Rightarrow> (u8 list \<rightharpoonup> u8 list) \<Rightarrow> bool" where
  "environment os s V \<longleftrightarrow> (\<exists>es. env_rep os s es \<and> aliases_ok (bytes s) (aliases s) \<and> V = env_view s es)"

datatype env_op = Setenv addr addr c_int | Unsetenv addr | Putenv addr | Clearenv

fun env_exec :: "os_env \<Rightarrow> env_op \<Rightarrow> env_state \<Rightarrow> (c_int \<times> env_state) option" where
  "env_exec os (Setenv name val overwrite) s = setenv os name val overwrite s"
| "env_exec os (Unsetenv name) s = unsetenv os name s"
| "env_exec os (Putenv str) s = putenv os str s"
| "env_exec os Clearenv s = clearenv os s"

text \<open>The strings of the caller are null or C strings.\<close>

definition str_ok :: "mem \<Rightarrow> addr \<Rightarrow> bool" where
  "str_ok m p \<longleftrightarrow> p = null \<or> (\<exists>bs. cstr m p bs)"

fun env_op_ok :: "mem \<Rightarrow> env_op \<Rightarrow> bool" where
  "env_op_ok m (Setenv name val overwrite) \<longleftrightarrow> str_ok m name \<and> str_ok m val"
| "env_op_ok m (Unsetenv name) \<longleftrightarrow> str_ok m name"
| "env_op_ok m (Putenv str) \<longleftrightarrow> str_ok m str"
| "env_op_ok m Clearenv \<longleftrightarrow> True"

definition str_at :: "mem \<Rightarrow> addr \<Rightarrow> u8 list" where
  "str_at m p = (case cstr_bytes m p of Some bs \<Rightarrow> bs | None \<Rightarrow> [])"

text \<open>The environment as a map, with errno.\<close>

fun env_spec :: "mem \<Rightarrow> env_op \<Rightarrow> (u8 list \<rightharpoonup> u8 list) \<times> c_int \<Rightarrow> c_int \<times> ((u8 list \<rightharpoonup> u8 list) \<times> c_int)" where
  "env_spec m (Setenv n v overwrite) (V, e) =
     (let name = str_at m n in
      if n = null \<or> v = null \<or> \<not> valid_name name then (- 1, V, EINVAL)
      else (0, if overwrite = 0 \<and> V name \<noteq> None then V else V(name \<mapsto> str_at m v), e))"
| "env_spec m (Unsetenv n) (V, e) =
     (let name = str_at m n in
      if n = null \<or> \<not> valid_name name then (- 1, V, EINVAL) else (0, V(name := None), e))"
| "env_spec m (Putenv p) (V, e) =
     (let name = takeWhile (\<lambda>b. b \<noteq> EQ) (str_at m p) in
      if p = null \<or> \<not> valid_name name then (- 1, V, EINVAL)
      else (0, if EQ \<in> set (str_at m p) then V(name \<mapsto> drop (length name + 1) (str_at m p)) else V(name := None), e))"
| "env_spec m Clearenv (V, e) = (0, Map.empty, e)"

definition env_rel :: "os_env \<Rightarrow> mem \<Rightarrow> (addr \<rightharpoonup> addr) \<Rightarrow> env_state \<Rightarrow> (u8 list \<rightharpoonup> u8 list) \<times> c_int \<Rightarrow> bool" where
  "env_rel os m ps s a \<longleftrightarrow> environment os s (fst a) \<and> errno s = snd a \<and> bytes s = m \<and> ptrs s = ps"

definition pointed :: "env_state \<Rightarrow> env_ptr \<Rightarrow> u8 list option" where
  "pointed s p =
     (case p of NullPtr \<Rightarrow> None | CallerPtr a \<Rightarrow> cstr_bytes (bytes s) a
      | OwnedPtr i k \<Rightarrow> Some (drop k (entries s ! i)) | FallbackPtr b \<Rightarrow> Some b)"

section \<open>Entries\<close>

lemma position_EQ: "position (\<lambda>b. b = EQ) xs = (if EQ \<in> set xs then Some (length (takeWhile (\<lambda>b. b \<noteq> EQ) xs)) else None)"
  by (induction xs) auto

lemma take_drop_EQ:
  "take (length (takeWhile (\<lambda>b. b \<noteq> EQ) xs)) xs = takeWhile (\<lambda>b. b \<noteq> EQ) xs"
  by (metis append_eq_conv_conj takeWhile_dropWhile_id)

lemma entry_value_eq:
  "entry_value name e = (if EQ \<in> set e \<and> takeWhile (\<lambda>b. b \<noteq> EQ) e = name then Some (drop (length name + 1) e) else None)"
  by (auto simp: entry_value_def position_EQ take_drop_EQ)

lemma has_name_iff: "env_entry_has_name e name \<longleftrightarrow> entry_value name e \<noteq> None"
  by (auto simp: env_entry_has_name_def entry_value_def split: option.splits)

lemma entry_value_unique: "entry_value n e = Some v \<Longrightarrow> n' \<noteq> n \<Longrightarrow> entry_value n' e = None"
  by (auto simp: entry_value_eq split: if_splits)

lemma entry_value_build: "EQ \<notin> set n \<Longrightarrow> entry_value n' (build_env_entry n v) = (if n' = n then Some v else None)"
  by (auto simp: entry_value_eq build_env_entry_def takeWhile_append)

lemma entries_value_retain:
  "entries_value n' (retain_first n kept es) =
     (if n' = n then (if kept then None else entries_value n es) else entries_value n' es)"
  by (induction es arbitrary: kept) (auto simp: has_name_iff dest: entry_value_unique split: option.splits)

lemma entries_value_update:
  "find_name_index n es = Some i \<Longrightarrow> EQ \<notin> set n \<Longrightarrow>
   entries_value n' (es[i := build_env_entry n v]) = (if n' = n then Some v else entries_value n' es)"
proof (induction es arbitrary: i)
  case (Cons e es)
  then show ?case
    by (cases i) (auto simp: find_name_index_def has_name_iff entry_value_build dest: entry_value_unique
        split: if_splits option.splits)
qed (simp add: find_name_index_def)

lemma find_name_None: "find_name_index n es = None \<longleftrightarrow> entries_value n es = None"
  by (induction es) (auto simp: find_name_index_def has_name_iff split: option.splits)

lemma entries_value_append: "entries_value n (es @ es') = (case entries_value n es of None \<Rightarrow> entries_value n es' | Some v \<Rightarrow> Some v)"
  by (induction es) (auto split: option.splits)

lemma entries_value_filter:
  "entries_value n' (filter (\<lambda>e. \<not> env_entry_has_name e n) es) = (if n' = n then None else entries_value n' es)"
  by (induction es) (auto simp: has_name_iff dest: entry_value_unique split: option.splits)

lemma set_name_value_entries:
  "EQ \<notin> set n \<Longrightarrow> entries_value n' (entries (set_name_value n v s)) = (if n' = n then Some v else entries_value n' (entries s))"
  by (auto simp: set_name_value_def publish_def Let_def entries_value_retain entries_value_update entries_value_append
      entry_value_build find_name_None split: option.splits)

section \<open>Aliases\<close>

lemma parse_alias_cstr:
  "cstr m a bs \<Longrightarrow> EQ \<notin> set name \<Longrightarrow> 0 \<notin> set name \<Longrightarrow>
   parse_alias_value_ptr m a name = Some (if entry_value name bs = None then None else Some (a + length name + 1))"
proof (induction name arbitrary: a bs)
  case Nil
  then show ?case by (cases bs) (auto simp: entry_value_eq)
next
  case (Cons c name)
  show ?case
  proof (cases bs)
    case Nil
    then show ?thesis using Cons.prems by (auto simp: entry_value_eq)
  next
    case (Cons b bs')
    then show ?thesis using Cons.IH [of "a + 1" bs'] Cons.prems by (auto simp: entry_value_eq)
  qed
qed

lemma value_in_buffer:
  assumes "cstr m a bs" "entry_value name bs = Some v"
  shows "cstr_bytes m (a + length name + 1) = Some v"
proof -
  have v: "v = drop (length name + 1) bs" and name: "takeWhile (\<lambda>b. b \<noteq> EQ) bs = name" "EQ \<in> set bs"
    using assms(2) by (auto simp: entry_value_eq split: if_splits)
  have "length name < length bs"
  proof -
    have "length bs = length name + length (dropWhile (\<lambda>b. b \<noteq> EQ) bs)"
      unfolding name(1) [symmetric] length_append [symmetric] takeWhile_dropWhile_id ..
    moreover have "dropWhile (\<lambda>b. b \<noteq> EQ) bs \<noteq> []" using name(2) by (auto simp: dropWhile_eq_Nil_conv)
    ultimately show ?thesis by simp
  qed
  then show ?thesis using cstr_drop [OF assms(1), of "length name + 1"] v by (simp add: mem_simps)
qed

lemma alias_scan_skip:
  "n \<notin> fst ` set xs \<Longrightarrow> alias_scan m n i (xs @ ys) r v rm = alias_scan m n (i + length xs) ys r v rm"
  by (induction xs arbitrary: i) auto

lemma alias_scan_none: "n \<notin> fst ` set xs \<Longrightarrow> alias_scan m n i xs r v rm = Some (v, rm)"
  using alias_scan_skip [of n xs m i "[]"] by simp

lemma alias_scan_one:
  assumes "n \<notin> fst ` set xs" "n \<notin> fst ` set ys" "a \<noteq> null" "cstr m a bs" "EQ \<notin> set n" "0 \<notin> set n"
  shows "alias_scan m n 0 (xs @ (n, a) # ys) None None [] =
    Some (if entry_value n bs = None then (None, [length xs]) else (Some (a + length n + 1), []))"
  using assms alias_scan_none [OF assms(2)]
  by (auto simp: alias_scan_skip parse_alias_value_ptr_impl_def parse_alias_cstr)

lemma aliases_split:
  assumes "aliases_ok m as" "map_of as n = Some a"
  obtains xs ys bs where "as = xs @ (n, a) # ys" "n \<notin> fst ` set xs" "n \<notin> fst ` set ys" "a \<noteq> null" "cstr m a bs"
    "EQ \<notin> set n" "0 \<notin> set n" "filter (\<lambda>(n', a). n' \<noteq> n) as = xs @ ys"
proof -
  have "(n, a) \<in> set as" using assms(2) by (rule map_of_SomeD)
  then obtain xs ys where as: "as = xs @ (n, a) # ys" by (meson split_list)
  then have fresh: "n \<notin> fst ` set xs" "n \<notin> fst ` set ys" using assms(1) by (auto simp: aliases_ok_def)
  then have "filter (\<lambda>(n', a). n' \<noteq> n) xs = xs" "filter (\<lambda>(n', a). n' \<noteq> n) ys = ys"
    by (force simp: filter_id_conv)+
  moreover obtain bs where "a \<noteq> null" "cstr m a bs" "EQ \<notin> set n" "0 \<notin> set n"
    using assms(1) as by (auto simp: aliases_ok_def valid_name_def)
  ultimately show thesis using that as fresh by auto
qed

lemma lookup_alias_cases:
  assumes "aliases_ok (bytes s) (aliases s)"
  shows "lookup_putenv_alias_value n s =
    (case map_of (aliases s) n of
       None \<Rightarrow> Some (None, s)
     | Some a \<Rightarrow>
         Some (case buffer_value (bytes s) n a of
           Some v \<Rightarrow> (Some (a + length n + 1), s)
         | None \<Rightarrow> (None, remove_owned_name_if_initialized n (remove_putenv_alias n s))))"
proof (cases "map_of (aliases s) n")
  case None
  then have "n \<notin> fst ` set (aliases s)" by (simp add: map_of_eq_None_iff)
  then show ?thesis using None by (simp add: lookup_putenv_alias_value_def alias_scan_none)
next
  case (Some a)
  obtain xs ys bs where as: "aliases s = xs @ (n, a) # ys" "n \<notin> fst ` set xs" "n \<notin> fst ` set ys" "a \<noteq> null"
      "cstr (bytes s) a bs" "EQ \<notin> set n" "0 \<notin> set n" "filter (\<lambda>(n', a). n' \<noteq> n) (aliases s) = xs @ ys"
    using aliases_split [OF assms Some] by blast
  have "alias_scan (bytes s) n 0 (aliases s) None None [] =
      Some (if entry_value n bs = None then (None, [length xs]) else (Some (a + length n + 1), []))"
    using alias_scan_one [OF as(2-7)] as(1) by simp
  moreover have "remove_at (length xs) (aliases s) = filter (\<lambda>(n', a). n' \<noteq> n) (aliases s)"
    by (simp only: as(8)) (simp add: remove_at_def as(1))
  ultimately show ?thesis
    using Some as(5) by (auto simp: lookup_putenv_alias_value_def buffer_value_def mem_simps remove_putenv_alias_def)
qed

section \<open>The relation to the map\<close>

lemma environmentE:
  assumes "environment os s V"
  obtains es where "env_rep os s es" "aliases_ok (bytes s) (aliases s)" "V = env_view s es"
  using assms by (auto simp: environment_def)

lemma env_repD:
  "env_rep os s es \<Longrightarrow> initialized s \<Longrightarrow> es = entries s \<and> environ s = (if entries s = [] then EnvNull else EnvOwned)"
  "env_rep os s es \<Longrightarrow> aliases s \<noteq> [] \<Longrightarrow> initialized s"
  by (auto simp: env_rep_def split: if_splits)

lemma aliases_ok_filter: "aliases_ok m as \<Longrightarrow> aliases_ok m (filter P as)"
  by (auto simp: aliases_ok_def distinct_map_filter)

text \<open>An initialized state stands for its entries under its aliases.\<close>

lemma environment_initialized:
  assumes "initialized s" "environ s = (if entries s = [] then EnvNull else EnvOwned)"
    "aliases_ok (bytes s) (aliases s)"
  shows "environment os s V \<longleftrightarrow> V = env_view s (entries s)"
  using assms by (auto simp: environment_def env_rep_def)

lemma ensure_initialized_ok:
  assumes "environment os s V"
  shows "\<exists>s'. ensure_initialized os s = Some s' \<and> environment os s' V \<and> initialized s' \<and>
    bytes s' = bytes s \<and> ptrs s' = ptrs s \<and> errno s' = errno s"
proof (cases "initialized s")
  case False
  obtain es where es: "env_rep os s es" "aliases_ok (bytes s) (aliases s)" "V = env_view s es"
    using assms by (rule environmentE)
  then have "ensure_initialized os s = Some (publish (s\<lparr>entries := es, initialized := True\<rparr>))"
    using False by (auto simp: env_rep_def ensure_initialized_def split: environ.splits)
  moreover have "environment os (publish (s\<lparr>entries := es, initialized := True\<rparr>)) V"
    using es by (subst environment_initialized) (auto simp: publish_def env_view_def fun_eq_iff split: option.splits)
  ultimately show ?thesis by (simp add: publish_def)
qed (simp add: ensure_initialized_def assms)

lemma publish_simps [simp]:
  "bytes (publish s) = bytes s" "ptrs (publish s) = ptrs s" "errno (publish s) = errno s" "aliases (publish s) = aliases s"
  "initialized (publish s) = initialized s" "entries (publish s) = entries s"
  "environ (publish s) = (if entries s = [] then EnvNull else EnvOwned)"
  by (simp_all add: publish_def)

lemma remove_name_simps [simp]:
  "bytes (remove_name n s) = bytes s" "ptrs (remove_name n s) = ptrs s" "errno (remove_name n s) = errno s"
  "aliases (remove_name n s) = aliases s" "initialized (remove_name n s) = initialized s"
  "entries (remove_name n s) = filter (\<lambda>e. \<not> env_entry_has_name e n) (entries s)"
  by (simp_all add: remove_name_def Let_def)

lemma remove_name_environ:
  "environ s = (if entries s = [] then EnvNull else EnvOwned) \<Longrightarrow>
   environ (remove_name n s) = (if entries (remove_name n s) = [] then EnvNull else EnvOwned)"
proof (cases "length (filter (\<lambda>e. \<not> env_entry_has_name e n) (entries s)) = length (entries s)")
  case True
  then have "filter (\<lambda>e. \<not> env_entry_has_name e n) (entries s) = entries s"
    by (metis filter_id_conv length_filter_less nat_neq_iff)
  then show "environ s = (if entries s = [] then EnvNull else EnvOwned) \<Longrightarrow> ?thesis"
    by (simp add: remove_name_def Let_def)
qed (simp add: remove_name_def Let_def)

lemma set_name_value_simps [simp]:
  "bytes (set_name_value n v s) = bytes s" "ptrs (set_name_value n v s) = ptrs s" "errno (set_name_value n v s) = errno s"
  "aliases (set_name_value n v s) = aliases s" "initialized (set_name_value n v s) = initialized s"
  "environ (set_name_value n v s) = (if entries (set_name_value n v s) = [] then EnvNull else EnvOwned)"
  by (simp_all add: set_name_value_def Let_def)

lemma remove_putenv_alias_simps [simp]:
  "bytes (remove_putenv_alias n s) = bytes s" "ptrs (remove_putenv_alias n s) = ptrs s" "errno (remove_putenv_alias n s) = errno s"
  "initialized (remove_putenv_alias n s) = initialized s" "entries (remove_putenv_alias n s) = entries s"
  "environ (remove_putenv_alias n s) = environ s"
  "aliases (remove_putenv_alias n s) = filter (\<lambda>(n', a). n' \<noteq> n) (aliases s)"
  by (simp_all add: remove_putenv_alias_def)

lemma map_of_filter_name: "map_of (filter (\<lambda>(n', a). n' \<noteq> n) as) x = (if x = n then None else map_of as x)"
  by (induction as) auto

text \<open>Operations that replace the entries and drop an alias.\<close>

lemma environmentI:
  assumes "initialized s'" "environ s' = (if entries s' = [] then EnvNull else EnvOwned)" "aliases_ok (bytes s') (aliases s')"
    and "\<And>n. valid_name n \<Longrightarrow> (case map_of (aliases s') n of Some a \<Rightarrow> buffer_value (bytes s') n a | None \<Rightarrow> entries_value n (entries s')) = V n"
    and "\<And>n. \<not> valid_name n \<Longrightarrow> V n = None"
  shows "environment os s' V"
  using assms by (subst environment_initialized) (auto simp: env_view_def)

lemma environment_owned:
  assumes "environment os s V" "initialized s"
  shows "environ s = (if entries s = [] then EnvNull else EnvOwned)" "aliases_ok (bytes s) (aliases s)"
    "valid_name n \<Longrightarrow> (case map_of (aliases s) n of Some a \<Rightarrow> buffer_value (bytes s) n a | None \<Rightarrow> entries_value n (entries s)) = V n"
    "\<not> valid_name n \<Longrightarrow> V n = None"
  using assms by (auto simp: environment_def env_view_def dest: env_repD(1) elim!: environmentE)

lemma remove_both_ok:
  assumes "environment os s V" "initialized s"
  shows "environment os (remove_name n (remove_putenv_alias n s)) (V(n := None))"
proof (rule environmentI)
  note own = environment_owned [OF assms]
  show "environ (remove_name n (remove_putenv_alias n s)) = (if entries (remove_name n (remove_putenv_alias n s)) = [] then EnvNull else EnvOwned)"
    by (rule remove_name_environ) (simp add: own(1))
  show "(case map_of (aliases (remove_name n (remove_putenv_alias n s))) m of
      Some a \<Rightarrow> buffer_value (bytes (remove_name n (remove_putenv_alias n s))) m a
    | None \<Rightarrow> entries_value m (entries (remove_name n (remove_putenv_alias n s)))) = (V(n := None)) m" if "valid_name m" for m
    using own(3) [OF that] by (auto simp: map_of_filter_name entries_value_filter split: option.splits)
qed (use environment_owned [OF assms] assms(2) in \<open>auto simp: aliases_ok_filter\<close>)

lemma alias_initialized:
  assumes "environment os s V" "map_of (aliases s) n = Some a"
  shows "initialized s"
  using assms env_repD(2) by (fastforce elim!: environmentE)

text \<open>Looking an alias up does not change the map, and tells whether a buffer holds the name.\<close>

lemma lookup_alias_ok:
  assumes env: "environment os s V" and n: "valid_name n"
  shows "\<exists>r s'. lookup_putenv_alias_value n s = Some (r, s') \<and> environment os s' V \<and>
    bytes s' = bytes s \<and> ptrs s' = ptrs s \<and> errno s' = errno s \<and> initialized s' = initialized s \<and>
    (environ s' = EnvNull \<and> \<not> initialized s' \<longrightarrow> environ s = EnvNull) \<and>
    (case r of Some p \<Rightarrow> V n \<noteq> None \<and> cstr_bytes (bytes s) p = V n | None \<Rightarrow> map_of (aliases s') n = None)"
proof -
  obtain es where es: "env_rep os s es" "aliases_ok (bytes s) (aliases s)" "V = env_view s es"
    using env by (rule environmentE)
  note cases = lookup_alias_cases [OF es(2), of n]
  show ?thesis
  proof (cases "map_of (aliases s) n")
    case None
    then show ?thesis using cases env by simp
  next
    case (Some a)
    have init: "initialized s" by (rule alias_initialized [OF env Some])
    obtain bs where bs: "cstr (bytes s) a bs" using aliases_split [OF es(2) Some] by metis
    show ?thesis
    proof (cases "buffer_value (bytes s) n a")
      case None
      then have "V n = None" using Some es(3) n by (simp add: env_view_def)
      then have "V(n := None) = V" by (simp add: fun_upd_idem)
      then have "environment os (remove_name n (remove_putenv_alias n s)) V"
        using remove_both_ok [OF env init, of n] by simp
      then show ?thesis
        using cases Some None init by (simp add: remove_owned_name_if_initialized_def map_of_filter_name)
    next
      case (Some v)
      have "entry_value n bs = Some v" using Some bs by (simp add: buffer_value_def mem_simps)
      then have "cstr_bytes (bytes s) (a + length n + 1) = Some v" by (rule value_in_buffer [OF bs])
      moreover have "V n = Some v" using \<open>map_of (aliases s) n = Some a\<close> Some es(3) n by (simp add: env_view_def)
      ultimately show ?thesis using cases \<open>map_of (aliases s) n = Some a\<close> Some env by simp
    qed
  qed
qed

lemma drop_unaliased_ok:
  assumes "environment os s V" "initialized s" "\<And>n. n \<in> set ns \<Longrightarrow> map_of (aliases s) n = None"
  shows "\<exists>s'. drop_unaliased ns s = Some s' \<and> environment os s' (\<lambda>m. if m \<in> set ns then None else V m) \<and> initialized s' \<and>
    bytes s' = bytes s \<and> ptrs s' = ptrs s \<and> errno s' = errno s"
  using assms
proof (induction ns arbitrary: s V)
  case (Cons n ns)
  have ok: "aliases_ok (bytes s) (aliases s)" using Cons.prems(1) by (auto elim: environmentE)
  have r: "map_of (aliases s) n = None" using Cons.prems(3) by simp
  have "filter (\<lambda>(n', a). n' \<noteq> n) (aliases s) = aliases s"
    using r by (force simp: map_of_eq_None_iff filter_id_conv)
  then have "remove_putenv_alias n s = s" by (simp add: remove_putenv_alias_def)
  then have "environment os (remove_name n s) (V(n := None))"
    using remove_both_ok [OF Cons.prems(1,2), of n] by simp
  then obtain s' where "drop_unaliased ns (remove_name n s) = Some s'"
      "environment os s' (\<lambda>m. if m \<in> set ns then None else (V(n := None)) m)" "initialized s'"
      "bytes s' = bytes s" "ptrs s' = ptrs s" "errno s' = errno s"
    using Cons.IH [of "remove_name n s"] Cons.prems(2,3) by auto
  moreover have "(\<lambda>m. if m \<in> set ns then None else (V(n := None)) m) = (\<lambda>m. if m \<in> set (n # ns) then None else V m)" by auto
  ultimately show ?case using r Cons.prems(2) lookup_alias_cases [OF ok, of n] by (simp add: remove_owned_name_if_initialized_def)
qed simp

section \<open>Every operation implements the map\<close>

lemma set_errno_env [simp]:
  "environ (set_errno e s) = environ s" "aliases (set_errno e s) = aliases s" "initialized (set_errno e s) = initialized s"
  "entries (set_errno e s) = entries s"
  by (simp_all add: set_errno_def)

lemma environment_set_errno [simp]: "environment os (set_errno e s) V = environment os s V"
proof -
  have "env_rep os (set_errno e s) es = env_rep os s es" for es
    by (cases "environ s") (simp_all add: env_rep_def)
  moreover have "env_view (set_errno e s) es = env_view s es" for es
    by (intro ext) (simp add: env_view_def cong: option.case_cong)
  ultimately show ?thesis by (simp add: environment_def)
qed

lemma str_at_cstr: "cstr m p bs \<Longrightarrow> str_at m p = bs"
  by (simp add: str_at_def mem_simps)

lemma read_c_string_ok: "str_ok (bytes s) p \<Longrightarrow>
    read_c_string p s = Some (if p = null then Inl EINVAL else Inr (str_at (bytes s) p))"
  by (auto simp: str_ok_def read_c_string_def mem_simps str_at_cstr)

lemma validate_name_iff: "validate_name_bytes n = (if valid_name n then None else Some EINVAL)"
  by (auto simp: validate_name_bytes_def valid_name_def)

lemma set_value_ok:
  assumes "environment os s V" "initialized s" "valid_name n"
  shows "environment os (remove_putenv_alias n (set_name_value n v s)) (V(n \<mapsto> v))"
proof (rule environmentI)
  have "EQ \<notin> set n" using assms(3) by (simp add: valid_name_def)
  then show "(case map_of (aliases (remove_putenv_alias n (set_name_value n v s))) m of
      Some a \<Rightarrow> buffer_value (bytes (remove_putenv_alias n (set_name_value n v s))) m a
    | None \<Rightarrow> entries_value m (entries (remove_putenv_alias n (set_name_value n v s)))) = (V(n \<mapsto> v)) m" if "valid_name m" for m
    using environment_owned(3) [OF assms(1,2) that]
    by (auto simp: map_of_filter_name set_name_value_entries split: option.splits)
qed (use environment_owned [OF assms(1,2)] assms(2,3) in \<open>auto simp: aliases_ok_filter\<close>)

lemma setenv_ok:
  assumes env: "environment os s V" and strs: "str_ok (bytes s) n" "str_ok (bytes s) v"
  shows "\<exists>s'. setenv os n v overwrite s = Some (fst (env_spec (bytes s) (Setenv n v overwrite) (V, errno s)), s') \<and>
    env_rel os (bytes s) (ptrs s) s' (snd (env_spec (bytes s) (Setenv n v overwrite) (V, errno s)))"
proof -
  let ?name = "str_at (bytes s) n" and ?val = "str_at (bytes s) v"
  show ?thesis
  proof (cases "n = null \<or> v = null \<or> \<not> valid_name ?name")
    case True
    then show ?thesis
      using env strs by (auto simp: setenv_def read_c_string_ok validate_name_iff fail_with_errno_def env_rel_def Let_def)
  next
    case False
    then have valid: "valid_name ?name" and ptrs: "n \<noteq> null" "v \<noteq> null" by auto
    obtain s1 where s1: "ensure_initialized os s = Some s1" "environment os s1 V" "initialized s1"
        "bytes s1 = bytes s" "ptrs s1 = ptrs s" "errno s1 = errno s"
      using ensure_initialized_ok [OF env] by blast
    have result: "setenv os n v overwrite s =
      (if overwrite = 0 then
         (case lookup_putenv_alias_value ?name s1 of None \<Rightarrow> None
          | Some (r, s2) \<Rightarrow>
              if r \<noteq> None \<or> contains_name ?name s2 then Some (0, set_errno (errno s) s2)
              else Some (0, set_errno (errno s) (remove_putenv_alias ?name (set_name_value ?name ?val s2))))
       else Some (0, set_errno (errno s) (remove_putenv_alias ?name (set_name_value ?name ?val s1))))"
      using ptrs strs valid s1(1)
      by (auto simp: setenv_def read_c_string_ok validate_name_iff Let_def split: option.splits prod.splits)
    show ?thesis
    proof (cases "overwrite = 0")
      case True
      obtain r s2 where s2: "lookup_putenv_alias_value ?name s1 = Some (r, s2)" "environment os s2 V" "initialized s2"
          "bytes s2 = bytes s" "ptrs s2 = ptrs s"
          "case r of Some p \<Rightarrow> V ?name \<noteq> None \<and> cstr_bytes (bytes s1) p = V ?name | None \<Rightarrow> map_of (aliases s2) ?name = None"
        using lookup_alias_ok [OF s1(2) valid] s1(3-5) by auto
      have "(r \<noteq> None \<or> contains_name ?name s2) \<longleftrightarrow> V ?name \<noteq> None"
        using s2(6) environment_owned(3) [OF s2(2,3) valid] find_name_None [of ?name "entries s2"]
        by (auto simp: contains_name_def split: option.splits)
      then show ?thesis
        using result True s2 set_value_ok [OF s2(2,3) valid] valid ptrs by (auto simp: env_rel_def Let_def)
    next
      case False
      then show ?thesis
        using result s1 set_value_ok [OF s1(2,3) valid] valid ptrs by (auto simp: env_rel_def Let_def)
    qed
  qed
qed

lemma remove_swap: "remove_putenv_alias n (remove_name n s) = remove_name n (remove_putenv_alias n s)"
  by (simp add: remove_putenv_alias_def remove_name_def publish_def Let_def)

lemma unsetenv_ok:
  assumes env: "environment os s V" and str: "str_ok (bytes s) n"
  shows "\<exists>s'. unsetenv os n s = Some (fst (env_spec (bytes s) (Unsetenv n) (V, errno s)), s') \<and>
    env_rel os (bytes s) (ptrs s) s' (snd (env_spec (bytes s) (Unsetenv n) (V, errno s)))"
proof -
  obtain s1 where s1: "ensure_initialized os s = Some s1" "environment os s1 V" "initialized s1"
      "bytes s1 = bytes s" "ptrs s1 = ptrs s" "errno s1 = errno s"
    using ensure_initialized_ok [OF env] by blast
  show ?thesis
    using env str s1 remove_both_ok [OF s1(2,3)]
    by (auto simp: unsetenv_def read_c_string_ok validate_name_iff fail_with_errno_def env_rel_def Let_def remove_swap)
qed

lemma clearenv_ok:
  assumes env: "environment os s V"
  shows "\<exists>s'. clearenv os s = Some (0, s') \<and> env_rel os (bytes s) (ptrs s) s' (Map.empty, errno s)"
proof -
  obtain s1 where s1: "ensure_initialized os s = Some s1" "environment os s1 V" "initialized s1"
      "bytes s1 = bytes s" "ptrs s1 = ptrs s" "errno s1 = errno s"
    using ensure_initialized_ok [OF env] by blast
  have "environment os (clear_entries s1\<lparr>aliases := []\<rparr>) Map.empty"
    by (rule environmentI) (use s1(3) in \<open>auto simp: clear_entries_def aliases_ok_def publish_def\<close>)
  then show ?thesis using s1 by (simp add: clearenv_def env_rel_def Let_def clear_entries_def)
qed

lemma map_of_filter_distinct:
  "distinct (map fst as) \<Longrightarrow> map_of (filter P as) m = (case map_of as m of Some a \<Rightarrow> if P (m, a) then Some a else None | None \<Rightarrow> None)"
proof (induction as)
  case (Cons x as)
  have "fst x = m \<Longrightarrow> map_of as m = None" using Cons.prems by (auto simp: map_of_eq_None_iff)
  then show ?case using Cons by (cases x) (auto split: option.splits)
qed simp

text \<open>
  A buffer is bound anew, or unbound: the aliases with its name or its address go, the entries have the new
  value, and the names that lost their alias lose their entry.
\<close>

lemma rebound_ok:
  assumes env: "environment os s V" and init: "initialized s" and name: "valid_name n" and p: "p \<noteq> null" "cstr (bytes s) p bs"
    and start: "initialized s'" "environ s' = (if entries s' = [] then EnvNull else EnvOwned)" "bytes s' = bytes s"
      "errno s' = errno s" "ptrs s' = ptrs s"
    and entries: "\<And>m. m \<noteq> n \<Longrightarrow> entries_value m (entries s') = entries_value m (entries s)"
    and aliases: "aliases s' = filter (\<lambda>(m, a). m \<noteq> n \<and> a \<noteq> p) (aliases s) @ as"
    and as: "as = (if v = None then [] else [(n, p)])" and v: "\<And>m. entry_value m bs = (if m = n then v else None)"
    and none: "v = None \<Longrightarrow> entries_value n (entries s') = None"
    and ns: "set ns - {n} = {m. m \<noteq> n \<and> (m, p) \<in> set (aliases s)}" "v \<noteq> None \<Longrightarrow> n \<notin> set ns"
  shows "\<exists>s''. drop_unaliased ns s' = Some s'' \<and> environment os s'' (V(n := v)) \<and> initialized s'' \<and>
    bytes s'' = bytes s \<and> ptrs s'' = ptrs s \<and> errno s'' = errno s"
proof -
  note own = environment_owned [OF env init]
  have distinct: "distinct (map fst (aliases s))" using own(2) by (simp add: aliases_ok_def)
  have alias_eq: "map_of (aliases s') m = (if m = n then if v = None then None else Some p
      else case map_of (aliases s) m of Some a \<Rightarrow> if a \<noteq> p then Some a else None | None \<Rightarrow> None)" for m
    using distinct as by (auto simp: aliases map_of_filter_distinct map_add_def split: option.splits)
  have old: "m \<in> set ns - {n} \<longleftrightarrow> m \<noteq> n \<and> map_of (aliases s) m = Some p" for m unfolding ns(1) using distinct by auto
  have "0 \<notin> set n" if "v \<noteq> None"
  proof -
    have "entry_value n bs \<noteq> None" using v [of n] that by simp
    then have "set n \<subseteq> set bs" by (auto simp: entry_value_eq dest: set_takeWhileD split: if_splits)
    then show ?thesis using p(2) by (auto simp: cstr_def)
  qed
  then have ok: "aliases_ok (bytes s') (aliases s')"
    using own(2) p name as start(3) by (auto simp: aliases aliases_ok_def distinct_map_filter)
  define W where "W = (\<lambda>m. if m \<in> set ns - {n} then entries_value m (entries s) else (V(n := v)) m)"
  have W: "environment os s' W"
  proof (rule environmentI [OF start(1,2) ok])
    fix m assume m: "valid_name m"
    show "(case map_of (aliases s') m of Some a \<Rightarrow> buffer_value (bytes s') m a | None \<Rightarrow> entries_value m (entries s')) = W m"
      using own(3) [OF m] alias_eq [of m] old [of m] v [of m] none entries [of m] p(2)
      by (cases "m = n") (auto simp: W_def start(3) buffer_value_def mem_simps split: option.splits if_splits)
  next
    fix m assume m: "\<not> valid_name m"
    have "m \<notin> set ns - {n}" using m old [of m] own(2) by (auto simp: aliases_ok_def dest!: map_of_SomeD)
    then show "W m = None" using own(4) [OF m] m name by (auto simp: W_def)
  qed
  have "(\<lambda>m. if m \<in> set ns then None else W m) = V(n := v)"
  proof
    fix m
    have "V m = None" if "m \<in> set ns - {n}"
    proof -
      have "map_of (aliases s) m = Some p" "m \<noteq> n" using that old by simp_all
      then show ?thesis using own(3) [of m] own(4) [of m] v [of m] p(2) by (cases "valid_name m") (auto simp: buffer_value_def mem_simps)
    qed
    then show "(if m \<in> set ns then None else W m) = (V(n := v)) m" using ns(2) by (cases v) (auto simp: W_def)
  qed
  moreover have "map_of (aliases s') m = None" if "m \<in> set ns" for m using that old [of m] alias_eq [of m] ns(2) by (cases v; cases "m = n") auto
  ultimately show ?thesis using drop_unaliased_ok [OF W start(1), of ns] start by simp
qed

lemma putenv_ok:
  assumes env: "environment os s V" and str: "str_ok (bytes s) p"
  shows "\<exists>s'. putenv os p s = Some (fst (env_spec (bytes s) (Putenv p) (V, errno s)), s') \<and>
    env_rel os (bytes s) (ptrs s) s' (snd (env_spec (bytes s) (Putenv p) (V, errno s)))"
proof (cases "p = null")
  case True
  then show ?thesis using env str by (simp add: putenv_def read_c_string_ok fail_with_errno_def env_rel_def)
next
  case False
  obtain bs where p: "cstr (bytes s) p bs" "p \<noteq> null" using str False by (auto simp: str_ok_def)
  then have read: "read_c_string p s = Some (Inr bs)" by (simp add: read_c_string_def mem_simps)
  obtain s1 where s1: "ensure_initialized os s = Some s1" "environment os s1 V" "initialized s1"
      "bytes s1 = bytes s" "ptrs s1 = ptrs s" "errno s1 = errno s"
    using ensure_initialized_ok [OF env] by blast
  define n where "n = takeWhile (\<lambda>b. b \<noteq> EQ) bs"
  have ptr: "position (\<lambda>b. b = EQ) bs = (if EQ \<in> set bs then Some (length n) else None)" "take (length n) bs = n"
    by (simp_all add: n_def position_EQ take_drop_EQ)
  have p1: "p \<noteq> null" "cstr (bytes s1) p bs" using p s1(4) by simp_all
  define v where "v = (if EQ \<in> set bs then Some (drop (length n + 1) bs) else None)"
  have v: "entry_value m bs = (if m = n then v else None)" for m by (auto simp: entry_value_eq n_def v_def)
  show ?thesis
  proof (cases "valid_name n")
    case False
    have "n = bs" if "EQ \<notin> set bs" using that by (auto simp: n_def takeWhile_eq_all_conv)
    then have "putenv os p s = Some (- 1, set_errno EINVAL s1)"
      using False read ptr s1(1) by (auto simp: putenv_def validate_name_iff fail_with_errno_def Let_def)
    then show ?thesis using False p s1 by (simp add: env_rel_def str_at_cstr n_def Let_def)
  next
    case True
    then have EQ: "EQ \<notin> set n" by (simp add: valid_name_def)
    define ns where "ns = (if EQ \<in> set bs then fst (rebind_putenv_alias n p (set_name_value n (the v) s1))
      else fst (remove_putenv_aliases_for_name_or_entry n p (remove_name n s1)))"
    define s2 where "s2 = (if EQ \<in> set bs then snd (rebind_putenv_alias n p (set_name_value n (the v) s1))
      else snd (remove_putenv_aliases_for_name_or_entry n p (remove_name n s1)))"
    show ?thesis
    proof (cases "EQ \<in> set bs")
      case eq: True
      have fields: "s2 = (set_name_value n (the v) s1)\<lparr>aliases := filter (\<lambda>(m, a). m \<noteq> n \<and> a \<noteq> p) (aliases s1) @ [(n, p)]\<rparr>"
          "ns = remdups_adj (sort (map fst (filter (\<lambda>(m, a). m \<noteq> n \<and> a = p) (aliases s1))))"
        using eq by (simp_all add: s2_def ns_def rebind_putenv_alias_def)
      have ns: "set ns - {n} = {m. m \<noteq> n \<and> (m, p) \<in> set (aliases s1)}" "n \<notin> set ns" by (force simp: fields(2))+
      obtain s3 where s3: "drop_unaliased ns s2 = Some s3" "environment os s3 (V(n := v))"
          "bytes s3 = bytes s1" "ptrs s3 = ptrs s1"
        using rebound_ok [OF s1(2,3) True p1, of s2 "[(n, p)]" v ns] v ns EQ s1(3) eq
        by (fastforce simp: fields(1) set_name_value_entries v_def)
      have "putenv os p s = Some (0, set_errno (errno s) s3)"
        using eq read ptr s1(1) True s3(1)
        by (auto simp: putenv_def validate_name_iff Let_def s2_def ns_def v_def split_beta)
      then show ?thesis using True p s1 s3 eq by (simp add: env_rel_def str_at_cstr n_def [symmetric] Let_def v_def)
    next
      case neq: False
      then have bs: "n = bs" by (auto simp: n_def takeWhile_eq_all_conv)
      have fields: "s2 = (remove_name n s1)\<lparr>aliases := filter (\<lambda>(m, a). m \<noteq> n \<and> a \<noteq> p) (aliases s1)\<rparr>"
          "ns = remdups_adj (sort (map fst (filter (\<lambda>(m, a). m = n \<or> a = p) (aliases s1))))"
        using neq by (simp_all add: s2_def ns_def remove_putenv_aliases_for_name_or_entry_def)
      have ns: "set ns - {n} = {m. m \<noteq> n \<and> (m, p) \<in> set (aliases s1)}" by (force simp: fields(2))
      have s2: "environ s2 = (if entries s2 = [] then EnvNull else EnvOwned)"
        using remove_name_environ [OF environment_owned(1) [OF s1(2,3)], of n] by (simp add: fields(1))
      obtain s3 where s3: "drop_unaliased ns s2 = Some s3" "environment os s3 (V(n := v))"
          "bytes s3 = bytes s1" "ptrs s3 = ptrs s1"
        using rebound_ok [OF s1(2,3) True p1 _ s2, of "[]" v ns] v ns s1(3) neq
        by (fastforce simp: fields(1) entries_value_filter v_def)
      have "putenv os p s = Some (0, set_errno (errno s) s3)"
        using neq read ptr s1(1) True s3(1) bs
        by (auto simp: putenv_def validate_name_iff Let_def s2_def ns_def split_beta)
      then show ?thesis using True p s1 s3 neq by (simp add: env_rel_def str_at_cstr n_def [symmetric] Let_def v_def)
    qed
  qed
qed

section \<open>Looking up\<close>

lemma cstr_bytes_Some: "cstr_bytes m p = Some bs \<Longrightarrow> cstr m p bs"
proof (induction bs arbitrary: p)
  case (Cons b bs)
  then show ?case by (subst (asm) cstr_bytes.simps) (auto split: bind_splits if_splits)
qed (subst (asm) cstr_bytes.simps, auto split: bind_splits if_splits)

lemma lookup_owned_value:
  "(case entries_value n es of
      None \<Rightarrow> lookup_owned i n es = NullPtr
    | Some v \<Rightarrow> \<exists>j < length es. \<exists>k. lookup_owned i n es = OwnedPtr (i + j) k \<and> drop k (es ! j) = v)"
proof (induction es arbitrary: i)
  case (Cons e es)
  show ?case
  proof (cases "entry_value n e")
    case None
    then have "lookup_owned i n (e # es) = lookup_owned (Suc i) n es"
      by (auto simp: entry_value_def split: option.splits if_splits)
    then show ?thesis using Cons.IH [of "Suc i"] None by (fastforce split: option.splits)
  next
    case (Some v)
    then have "\<exists>k. lookup_owned i n (e # es) = OwnedPtr i k \<and> drop k e = v"
      by (auto simp: entry_value_def split: option.splits if_splits)
    then show ?thesis using Some by force
  qed
qed simp

lemma lookup_vector_value:
  "copy_entries_from_environ m ps p = Some es \<Longrightarrow>
   (case entries_value n es of
      None \<Rightarrow> lookup_vector m ps n p = Some NullPtr
    | Some v \<Rightarrow> \<exists>a. lookup_vector m ps n p = Some (CallerPtr a) \<and> cstr_bytes m a = Some v)"
proof (induction es arbitrary: p)
  case Nil
  then have "ps p = Some null"
    by (subst (asm) copy_entries_from_environ.simps) (auto split: bind_splits if_splits)
  then show ?case by (simp add: lookup_vector.simps)
next
  case (Cons e es)
  then obtain q where q: "ps p = Some q" "q \<noteq> null" "cstr_bytes m q = Some e"
      and rest: "copy_entries_from_environ m ps (p + 8) = Some es"
    by (subst (asm) (2) copy_entries_from_environ.simps) (auto split: bind_splits if_splits)
  show ?case
  proof (cases "entry_value n e")
    case None
    then have "lookup_vector m ps n p = lookup_vector m ps n (p + 8)"
      using q by (subst lookup_vector.simps) (auto simp: entry_value_def split: option.splits if_splits)
    then show ?thesis using Cons.IH [OF rest] None by (simp split: option.splits)
  next
    case (Some v)
    then obtain i where i: "position (\<lambda>b. b = EQ) e = Some i" "take i e = n" by (auto simp: entry_value_def split: option.splits if_splits)
    then have "i = length n" by (auto simp: position_EQ take_drop_EQ split: if_splits)
    then have "lookup_vector m ps n p = Some (CallerPtr (q + length n + 1))"
      using q i by (subst lookup_vector.simps) simp
    moreover have "cstr_bytes m (q + length n + 1) = Some v"
      by (rule value_in_buffer [OF cstr_bytes_Some [OF q(3)] Some])
    ultimately show ?thesis using Some by simp
  qed
qed

lemma lookup_environ_ok:
  assumes env: "environment os s V" and n: "valid_name n" "map_of (aliases s) n = None"
    and init: "environ s = EnvNull \<Longrightarrow> initialized s"
  shows "\<exists>p. lookup_environ_value n s = Some p \<and> pointed s p = V n \<and> (p = NullPtr \<longleftrightarrow> V n = None)"
proof -
  obtain es where es: "env_rep os s es" "V = env_view s es" using env by (rule environmentE)
  then have V: "V n = entries_value n es" using n by (simp add: env_view_def)
  show ?thesis
  proof (cases "environ s")
    case EnvNull
    then have "es = []" using env_repD(1) [OF es(1) init] by (auto split: if_splits)
    then show ?thesis using EnvNull V by (simp add: lookup_environ_value_def pointed_def)
  next
    case (EnvVector p)
    then have "copy_entries_from_environ (bytes s) (ptrs s) p = Some es"
      using es(1) by (auto simp: env_rep_def split: if_splits)
    then show ?thesis
      using lookup_vector_value [of "bytes s" "ptrs s" p es, where n = n] V EnvVector
      by (auto simp: lookup_environ_value_def pointed_def split: option.splits)
  next
    case EnvOwned
    then have "es = entries s" using es(1) by (auto simp: env_rep_def split: if_splits)
    then show ?thesis
      using lookup_owned_value [where n = n and es = es and i = 0] V EnvOwned
      by (auto simp: lookup_environ_value_def pointed_def split: option.splits)
  qed
qed

lemma getenv_ok:
  assumes env: "environment os s V" and n: "cstr (bytes s) p n" "p \<noteq> null"
  shows "\<exists>r s'. getenv os p s = Some (r, s') \<and> pointed s' r = V n \<and> (r = NullPtr \<longleftrightarrow> V n = None) \<and>
    env_rel os (bytes s) (ptrs s) s' (V, errno s)"
proof (cases "valid_name n")
  case False
  then have "V n = None" using env by (auto simp: env_view_def elim!: environmentE)
  then show ?thesis
    using False n env by (auto simp: getenv_def mem_simps valid_name_def env_rel_def pointed_def)
next
  case True
  obtain r s1 where s1: "lookup_putenv_alias_value n s = Some (r, s1)" "environment os s1 V"
      "bytes s1 = bytes s" "ptrs s1 = ptrs s" "errno s1 = errno s"
      "case r of Some p \<Rightarrow> V n \<noteq> None \<and> cstr_bytes (bytes s) p = V n | None \<Rightarrow> map_of (aliases s1) n = None"
    using lookup_alias_ok [OF env True] by auto
  have result: "getenv os p s = (case r of Some v \<Rightarrow> Some (CallerPtr v, s1) | None \<Rightarrow> do {
       s \<leftarrow> (if environ s1 = EnvNull \<and> \<not> initialized s1 then ensure_initialized os s1 else Some s1);
       v \<leftarrow> lookup_environ_value n s;
       if v \<noteq> NullPtr then Some (v, s)
       else if environ s = EnvNull \<and> \<not> initialized s then Some (lookup_proc_environ_value os n, s)
       else Some (NullPtr, s) })"
    using n s1(1) True by (simp add: getenv_def mem_simps valid_name_def cong: option.case_cong)
  show ?thesis
  proof (cases r)
    case (Some v)
    then show ?thesis using result s1 by (auto simp: pointed_def env_rel_def)
  next
    case None
    define start where "start = (if environ s1 = EnvNull \<and> \<not> initialized s1 then ensure_initialized os s1 else Some s1)"
    have al: "map_of (aliases s1) n = None" using s1(6) None by simp
    obtain s2 where s2: "start = Some s2" "environment os s2 V" "bytes s2 = bytes s" "ptrs s2 = ptrs s" "errno s2 = errno s"
        "environ s2 = EnvNull \<Longrightarrow> initialized s2" "aliases s2 = aliases s1"
    proof (cases "environ s1 = EnvNull \<and> \<not> initialized s1")
      case True
      obtain s2 where "ensure_initialized os s1 = Some s2" "environment os s2 V" "initialized s2"
          "bytes s2 = bytes s" "ptrs s2 = ptrs s" "errno s2 = errno s"
        using ensure_initialized_ok [OF s1(2)] s1(3-5) by auto
      moreover from this have "aliases s2 = aliases s1"
        by (auto simp: ensure_initialized_def publish_def split: bind_splits if_splits)
      ultimately show ?thesis using that True by (simp add: start_def)
    qed (use that s1 in \<open>auto simp: start_def\<close>)
    obtain v where v: "lookup_environ_value n s2 = Some v" "pointed s2 v = V n" "v = NullPtr \<longleftrightarrow> V n = None"
      using lookup_environ_ok [OF s2(2) True _ s2(6)] al s2(7) by auto
    have "getenv os p s = Some (v, s2)"
      using result None s2(1,6) v(1) unfolding start_def [symmetric] by auto
    then show ?thesis using v s2 by (auto simp: env_rel_def)
  qed
qed

interpretation env: simulation "env_rel os m ps" "env_exec os" "env_spec m" "env_op_ok m" for os m ps
proof
  fix s a x
  assume rel: "env_rel os m ps s a" and ok: "env_op_ok m x"
  obtain V e where a: "a = (V, e)" by (cases a)
  have s: "environment os s V" "errno s = e" "bytes s = m" "ptrs s = ps" using rel by (simp_all add: env_rel_def a)
  show "\<exists>s'. env_exec os x s = Some (fst (env_spec m x a), s') \<and> env_rel os m ps s' (snd (env_spec m x a))"
  proof (cases x)
    case (Setenv n v overwrite)
    then show ?thesis using setenv_ok [OF s(1), of n v overwrite] ok s(2-4) a by auto
  next
    case (Unsetenv n)
    then show ?thesis using unsetenv_ok [OF s(1), of n] ok s(2-4) a by auto
  next
    case (Putenv p)
    then show ?thesis using putenv_ok [OF s(1), of p] ok s(2-4) a by auto
  next
    case Clearenv
    then show ?thesis using clearenv_ok [OF s(1)] s(2-4) a by auto
  qed
qed

text \<open>
  C24. The environment is a map from names to values: after any sequence of \<open>setenv\<close>, \<open>unsetenv\<close>, \<open>putenv\<close> and
  \<open>clearenv\<close> calls, each with null or C string arguments, the calls have returned what the map says (-1 with
  \<open>EINVAL\<close> for null pointers and invalid names, else 0 with errno kept), \<open>getenv\<close> returns a pointer to the value the
  map has for the name, or null where it has none, and the caller's memory is unchanged.
\<close>

theorem environment_is_map:
  assumes "environment os s V" "list_all (env_op_ok (bytes s)) xs" "cstr (bytes s) p n" "p \<noteq> null"
  shows "\<exists>s' r s''. run_ops (env_exec os) xs s = Some (fst (run_spec (env_spec (bytes s)) xs (V, errno s)), s') \<and>
    getenv os p s' = Some (r, s'') \<and> pointed s'' r = fst (snd (run_spec (env_spec (bytes s)) xs (V, errno s))) n \<and>
    (r = NullPtr \<longleftrightarrow> fst (snd (run_spec (env_spec (bytes s)) xs (V, errno s))) n = None) \<and>
    errno s'' = snd (snd (run_spec (env_spec (bytes s)) xs (V, errno s))) \<and> bytes s'' = bytes s \<and> ptrs s'' = ptrs s"
proof -
  let ?a = "run_spec (env_spec (bytes s)) xs (V, errno s)"
  have "env_rel os (bytes s) (ptrs s) s (V, errno s)" using assms(1) by (simp add: env_rel_def)
  then obtain s' where s': "run_ops (env_exec os) xs s = Some (fst ?a, s')" "env_rel os (bytes s) (ptrs s) s' (snd ?a)"
    using env.run [OF _ assms(2)] by blast
  then have "environment os s' (fst (snd ?a))" "cstr (bytes s') p n" using assms(3) by (simp_all add: env_rel_def)
  then show ?thesis using getenv_ok [OF _ _ assms(4)] s' by (fastforce simp: env_rel_def)
qed

text \<open>The names A at 100, the value 1 at 200 and the string A=2 at 300, in an empty environment.\<close>

definition env_example :: env_state where
  "env_example = \<lparr>bytes = [100 \<mapsto> 0x41, 101 \<mapsto> 0, 200 \<mapsto> 0x31, 201 \<mapsto> 0, 300 \<mapsto> 0x41, 301 \<mapsto> 0x3D, 302 \<mapsto> 0x32, 303 \<mapsto> 0],
     ptrs = Map.empty, errno = 5, environ = EnvNull, aliases = [], initialized = False, entries = []\<rparr>"

theorem environment_is_map_witness:
  "\<exists>s' r s''. run_ops (env_exec \<lparr>proc_environ = None, vars_os = []\<rparr>) [Setenv 100 200 0, Putenv 300, Unsetenv 0] env_example =
     Some ([0, 0, - 1], s') \<and>
   getenv \<lparr>proc_environ = None, vars_os = []\<rparr> 100 s' = Some (r, s'') \<and> pointed s'' r = Some [0x32] \<and> errno s'' = EINVAL"
proof -
  let ?os = "\<lparr>proc_environ = None, vars_os = []\<rparr>" and ?m = "bytes env_example"
  have strs: "cstr ?m 100 [0x41]" "cstr ?m 200 [0x31]" "cstr ?m 300 [0x41, 0x3D, 0x32]" by (simp_all add: env_example_def)
  then have "str_ok ?m 100" "str_ok ?m 200" "str_ok ?m 300" "str_ok ?m 0" unfolding str_ok_def by blast+
  then have ok: "list_all (env_op_ok ?m) [Setenv 100 200 0, Putenv 300, Unsetenv 0]" by simp
  have start: "environment ?os env_example Map.empty"
    by (auto simp: environment_def env_rep_def env_view_def aliases_ok_def env_example_def copy_entries_from_host_env_def
        copy_entries_from_proc_environ_def fun_eq_iff)
  have spec: "run_spec (env_spec ?m) [Setenv 100 200 0, Putenv 300, Unsetenv 0] (Map.empty, errno env_example) =
      ([0, 0, - 1], [[0x41] \<mapsto> [0x32]], EINVAL)"
    using strs [THEN str_at_cstr] by (simp add: valid_name_def Let_def)
  show ?thesis using environment_is_map [OF start ok strs(1)] unfolding spec by auto
qed

end
