(* ===== verification/Signals.thy ===== *)
theory Signals
  imports Refine
begin

text \<open>
  Signal sets, dispositions and delivery of \<^verbatim>\<open>src/src/signal.rs\<close>. The kernel is a parameter: its calls are functions of
  the kernel's own state, which also say whether the process survives. The specification of
  the set operations is a set of signal numbers.
\<close>

section \<open>Signal sets\<close>

definition SIGSET_WORDS :: nat where "SIGSET_WORDS = 16"
definition BITS_PER_WORD :: nat where "BITS_PER_WORD = 64"
definition MAX_KERNEL_SIGNAL :: c_int where "MAX_KERNEL_SIGNAL = 64"

definition SIG_BLOCK :: c_int where "SIG_BLOCK = 0"
definition SIG_UNBLOCK :: c_int where "SIG_UNBLOCK = 1"
definition SIG_SETMASK :: c_int where "SIG_SETMASK = 2"
definition SIGABRT :: c_int where "SIGABRT = 6"
definition SIGKILL :: c_int where "SIGKILL = 9"
definition SIGSTOP :: c_int where "SIGSTOP = 19"
definition SIG_DFL :: nat where "SIG_DFL = 0"
definition SA_RESTORER :: c_ulong where "SA_RESTORER = 0x04000000"

type_synonym SigSet = "c_ulong list"

record SigAction =
  sa_handler :: nat
  sa_flags :: c_ulong
  sa_restorer :: nat
  sa_mask :: SigSet

definition sigset_empty :: SigSet where "sigset_empty = replicate SIGSET_WORDS 0"

definition signal_word_and_bit :: "c_int \<Rightarrow> (nat \<times> c_ulong) option" where
  "signal_word_and_bit sig =
     (if \<not> (1 \<le> sint sig \<and> sint sig \<le> sint MAX_KERNEL_SIGNAL) then None
      else
        (let zero_based = nat (sint (sig - 1)); word = zero_based div BITS_PER_WORD in
         if word \<ge> SIGSET_WORDS then None else Some (word, push_bit (zero_based mod BITS_PER_WORD) 1)))"

definition is_valid_delivery_signal :: "c_int \<Rightarrow> bool" where
  "is_valid_delivery_signal sig \<longleftrightarrow> sig = 0 \<or> (1 \<le> sint sig \<and> sint sig \<le> sint MAX_KERNEL_SIGNAL)"

definition is_valid_sigprocmask_how :: "c_int \<Rightarrow> bool" where
  "is_valid_sigprocmask_how how \<longleftrightarrow> how = SIG_BLOCK \<or> how = SIG_UNBLOCK \<or> how = SIG_SETMASK"

definition add_signal :: "c_int \<Rightarrow> SigSet \<Rightarrow> bool \<times> SigSet" where
  "add_signal sig ws =
     (case signal_word_and_bit sig of None \<Rightarrow> (False, ws) | Some (word, b) \<Rightarrow> (True, ws[word := ws ! word OR b]))"

definition remove_signal :: "c_int \<Rightarrow> SigSet \<Rightarrow> bool \<times> SigSet" where
  "remove_signal sig ws =
     (case signal_word_and_bit sig of None \<Rightarrow> (False, ws) | Some (word, b) \<Rightarrow> (True, ws[word := ws ! word AND NOT b]))"

definition contains_signal :: "c_int \<Rightarrow> SigSet \<Rightarrow> bool" where
  "contains_signal sig ws =
     (case signal_word_and_bit sig of None \<Rightarrow> False | Some (word, b) \<Rightarrow> ws ! word AND b \<noteq> 0)"

text \<open>The caller's sets and actions, next to the machine.\<close>

record sig_state = machine +
  sigsets :: "addr \<rightharpoonup> SigSet"
  sigactions :: "addr \<rightharpoonup> SigAction"

definition errno_from_raw :: "c_long \<Rightarrow> c_int" where
  "errno_from_raw raw = (case try_i32 (sint (- raw)) of Some e \<Rightarrow> e | None \<Rightarrow> 0x7FFFFFFF)"

definition invalid_argument :: "'z machine_scheme \<Rightarrow> c_int \<times> 'z machine_scheme" where
  "invalid_argument s = (- 1, set_errno EINVAL s)"

definition bad_address :: "'z machine_scheme \<Rightarrow> c_int \<times> 'z machine_scheme" where
  "bad_address s = (- 1, set_errno EFAULT s)"

definition status_from_raw :: "c_long \<Rightarrow> 'z machine_scheme \<Rightarrow> c_int \<times> 'z machine_scheme" where
  "status_from_raw raw s = (if sint raw < 0 then (- 1, set_errno (errno_from_raw raw) s) else (0, s))"

definition put_set :: "addr \<Rightarrow> SigSet \<Rightarrow> sig_state \<Rightarrow> sig_state" where
  "put_set p ws s = s\<lparr>sigsets := (sigsets s)(p \<mapsto> ws)\<rparr>"

definition sigemptyset :: "addr \<Rightarrow> sig_state \<Rightarrow> (c_int \<times> sig_state) option" where
  "sigemptyset p s =
     (if p = null then Some (bad_address s)
      else do { _ \<leftarrow> sigsets s p; Some (0, put_set p sigset_empty s) })"

definition sigfillset :: "addr \<Rightarrow> sig_state \<Rightarrow> (c_int \<times> sig_state) option" where
  "sigfillset p s =
     (if p = null then Some (bad_address s)
      else do { _ \<leftarrow> sigsets s p; Some (0, put_set p (replicate SIGSET_WORDS (- 1)) s) })"

definition sigaddset :: "addr \<Rightarrow> c_int \<Rightarrow> sig_state \<Rightarrow> (c_int \<times> sig_state) option" where
  "sigaddset p signum s =
     (if p = null then Some (bad_address s)
      else
        (case signal_word_and_bit signum of
           None \<Rightarrow> Some (invalid_argument s)
         | Some (word, b) \<Rightarrow> do { ws \<leftarrow> sigsets s p; Some (0, put_set p (ws[word := ws ! word OR b]) s) }))"

definition sigdelset :: "addr \<Rightarrow> c_int \<Rightarrow> sig_state \<Rightarrow> (c_int \<times> sig_state) option" where
  "sigdelset p signum s =
     (if p = null then Some (bad_address s)
      else
        (case signal_word_and_bit signum of
           None \<Rightarrow> Some (invalid_argument s)
         | Some (word, b) \<Rightarrow> do { ws \<leftarrow> sigsets s p; Some (0, put_set p (ws[word := ws ! word AND NOT b]) s) }))"

definition sigismember :: "addr \<Rightarrow> c_int \<Rightarrow> sig_state \<Rightarrow> (c_int \<times> sig_state) option" where
  "sigismember p signum s =
     (if p = null then Some (bad_address s)
      else
        (case signal_word_and_bit signum of
           None \<Rightarrow> Some (invalid_argument s)
         | Some (word, b) \<Rightarrow> do { ws \<leftarrow> sigsets s p; Some (if ws ! word AND b \<noteq> 0 then 1 else 0, s) }))"

section \<open>The kernel\<close>

text \<open>
  The system calls: identities, delivery (\<open>None\<close>: the signal ends the process), disposition and mask (the
  raw result, the old value the kernel writes, the new kernel state). A copy of a \<^verbatim>\<open>struct sigaction\<close> through
  \<^verbatim>\<open>process_vm_readv\<close> gives the raw result for an address.
\<close>

record 'k kernel =
  sys_getpid :: "'k \<Rightarrow> c_long"
  sys_gettid :: "'k \<Rightarrow> c_long"
  sys_kill :: "c_long \<Rightarrow> c_long \<Rightarrow> 'k \<Rightarrow> (c_long \<times> 'k) option"
  sys_tgkill :: "c_long \<Rightarrow> c_long \<Rightarrow> c_long \<Rightarrow> 'k \<Rightarrow> (c_long \<times> 'k) option"
  sys_rt_sigaction :: "c_long \<Rightarrow> SigAction option \<Rightarrow> 'k \<Rightarrow> c_long \<times> SigAction \<times> 'k"
  sys_rt_sigprocmask :: "c_long \<Rightarrow> c_ulong option \<Rightarrow> 'k \<Rightarrow> c_long \<times> c_ulong \<times> 'k"
  sys_process_vm_readv :: "addr \<Rightarrow> 'k \<Rightarrow> c_long"

definition kill :: "'k kernel \<Rightarrow> c_int \<Rightarrow> c_int \<Rightarrow> 'z machine_scheme \<Rightarrow> 'k \<Rightarrow> (c_int \<times> 'z machine_scheme \<times> 'k) option" where
  "kill K pid sig s k =
     (if \<not> is_valid_delivery_signal sig then Some (case invalid_argument s of (r, s) \<Rightarrow> (r, s, k))
      else do {
        (raw, k) \<leftarrow> sys_kill K (scast pid) (scast sig) k;
        Some (case status_from_raw raw s of (r, s) \<Rightarrow> (r, s, k)) })"

definition raise :: "'k kernel \<Rightarrow> c_int \<Rightarrow> 'z machine_scheme \<Rightarrow> 'k \<Rightarrow> (c_int \<times> 'z machine_scheme \<times> 'k) option" where
  "raise K sig s k =
     (if \<not> is_valid_delivery_signal sig then Some (case invalid_argument s of (r, s) \<Rightarrow> (r, s, k))
      else
        (let process_id = sys_getpid K k in
         if sint process_id < 0 then Some (case status_from_raw process_id s of (r, s) \<Rightarrow> (r, s, k))
         else
           (let thread_id = sys_gettid K k in
            if sint thread_id < 0 then Some (case status_from_raw thread_id s of (r, s) \<Rightarrow> (r, s, k))
            else do {
              (raw, k) \<leftarrow> sys_tgkill K process_id thread_id (scast sig) k;
              Some (case status_from_raw raw s of (r, s) \<Rightarrow> (r, s, k)) })))"

text \<open>The kernel reads and writes the first word of a set only.\<close>

definition sigprocmask ::
  "'k kernel \<Rightarrow> c_int \<Rightarrow> addr \<Rightarrow> addr \<Rightarrow> sig_state \<Rightarrow> 'k \<Rightarrow> (c_int \<times> sig_state \<times> 'k) option" where
  "sigprocmask K how set' oldset s k =
     (if set' = null \<and> oldset = null then Some (0, s, k)
      else if set' \<noteq> null \<and> \<not> is_valid_sigprocmask_how how then Some (case invalid_argument s of (r, s) \<Rightarrow> (r, s, k))
      else
        (let effective_how = (if set' = null then SIG_SETMASK else how) in do {
          arg \<leftarrow> (if set' = null then Some None else do { ws \<leftarrow> sigsets s set'; Some (Some (ws ! 0)) });
          (case sys_rt_sigprocmask K (scast effective_how) arg k of (raw, old, k) \<Rightarrow> do {
            s \<leftarrow> (if oldset = null \<or> sint raw < 0 then Some s
                  else do { ws \<leftarrow> sigsets s oldset; Some (put_set oldset (ws[0 := old]) s) });
            Some (case status_from_raw raw s of (r, s) \<Rightarrow> (r, s, k)) }) }))"

definition sigaction_struct_size :: c_long where "sigaction_struct_size = 152"

text \<open>The copy fails with the kernel's code, or with \<open>EFAULT\<close> when it is short.\<close>

definition copy_sigaction_from_user :: "'k kernel \<Rightarrow> addr \<Rightarrow> sig_state \<Rightarrow> 'k \<Rightarrow> (c_int + SigAction) option" where
  "copy_sigaction_from_user K user_action s k =
     (let process_id = sys_getpid K k in
      if sint process_id < 0 then Some (Inl (errno_from_raw process_id))
      else
        (let copied_bytes = sys_process_vm_readv K user_action k in
         if sint copied_bytes < 0 then Some (Inl (errno_from_raw copied_bytes))
         else if copied_bytes \<noteq> sigaction_struct_size then Some (Inl EFAULT)
         else do { a \<leftarrow> sigactions s user_action; Some (Inr a) }))"

definition sigaction ::
  "'k kernel \<Rightarrow> nat \<Rightarrow> c_int \<Rightarrow> addr \<Rightarrow> addr \<Rightarrow> sig_state \<Rightarrow> 'k \<Rightarrow> (c_int \<times> sig_state \<times> 'k) option" where
  "sigaction K trampoline_pointer signum act oldact s k =
     (if signal_word_and_bit signum = None \<or> signum = SIGKILL \<or> signum = SIGSTOP
      then Some (case invalid_argument s of (r, s) \<Rightarrow> (r, s, k))
      else do {
        kernel_action \<leftarrow> (if act = null then Some (Inr None)
          else do {
            a \<leftarrow> copy_sigaction_from_user K act s k;
            Some (case a of
                Inl e \<Rightarrow> Inl e
              | Inr kernel_action \<Rightarrow>
                  (let kernel_action = (if sa_flags kernel_action AND SA_RESTORER = 0
                         then kernel_action\<lparr>sa_flags := sa_flags kernel_action OR SA_RESTORER\<rparr> else kernel_action);
                       kernel_action = (if sa_restorer kernel_action = 0
                         then kernel_action\<lparr>sa_restorer := trampoline_pointer\<rparr> else kernel_action)
                   in Inr (Some kernel_action))) });
        (case kernel_action of
           Inl e \<Rightarrow> Some (- 1, set_errno e s, k)
         | Inr act_for_syscall \<Rightarrow>
             (case sys_rt_sigaction K (scast signum) act_for_syscall k of (raw, old, k) \<Rightarrow> do {
                s \<leftarrow> (if oldact = null \<or> sint raw < 0 then Some s
                      else do {
                        o' \<leftarrow> sigactions s oldact;
                        Some (s\<lparr>sigactions := (sigactions s)(oldact \<mapsto>
                          old\<lparr>sa_mask := (sa_mask o')[0 := sa_mask old ! 0]\<rparr>)\<rparr>) });
                let (status, s) = status_from_raw raw s;
                s \<leftarrow> (if status = 0 \<and> oldact \<noteq> null then do {
                        a \<leftarrow> sigactions s oldact;
                        Some (s\<lparr>sigactions := (sigactions s)(oldact \<mapsto>
                          a\<lparr>sa_mask := take 1 (sa_mask a) @ replicate (length (sa_mask a) - 1) 0\<rparr>)\<rparr>) }
                      else Some s);
                Some (status, s, k) })) })"

section \<open>Sets of signals\<close>

definition members :: "SigSet \<Rightarrow> nat set" where
  "members ws = {n. 1 \<le> n \<and> n \<le> 64 \<and> bit (ws ! 0) (n - 1)}"

datatype sig_op = Emptyset addr | Fillset addr | Addset addr c_int | Delset addr c_int | Ismember addr c_int

fun sig_exec :: "sig_op \<Rightarrow> sig_state \<Rightarrow> (c_int \<times> sig_state) option" where
  "sig_exec (Emptyset p) s = sigemptyset p s"
| "sig_exec (Fillset p) s = sigfillset p s"
| "sig_exec (Addset p sig) s = sigaddset p sig s"
| "sig_exec (Delset p sig) s = sigdelset p sig s"
| "sig_exec (Ismember p sig) s = sigismember p sig s"

definition signal_ok :: "c_int \<Rightarrow> bool" where
  "signal_ok sig \<longleftrightarrow> 1 \<le> sint sig \<and> sint sig \<le> 64"

text \<open>The specification works on sets by address, and on errno.\<close>

type_synonym sig_sets = "(addr \<Rightarrow> nat set) \<times> c_int"

fun sig_spec :: "sig_op \<Rightarrow> sig_sets \<Rightarrow> c_int \<times> sig_sets" where
  "sig_spec (Emptyset p) (S, e) = (if p = null then (- 1, S, EFAULT) else (0, S(p := {}), e))"
| "sig_spec (Fillset p) (S, e) = (if p = null then (- 1, S, EFAULT) else (0, S(p := {1..64}), e))"
| "sig_spec (Addset p sig) (S, e) =
     (if p = null then (- 1, S, EFAULT) else if \<not> signal_ok sig then (- 1, S, EINVAL)
      else (0, S(p := insert (nat (sint sig)) (S p)), e))"
| "sig_spec (Delset p sig) (S, e) =
     (if p = null then (- 1, S, EFAULT) else if \<not> signal_ok sig then (- 1, S, EINVAL)
      else (0, S(p := S p - {nat (sint sig)}), e))"
| "sig_spec (Ismember p sig) (S, e) =
     (if p = null then (- 1, S, EFAULT) else if \<not> signal_ok sig then (- 1, S, EINVAL)
      else (if nat (sint sig) \<in> S p then 1 else 0, S, e))"

fun sig_op_ok :: "addr set \<Rightarrow> sig_op \<Rightarrow> bool" where
  "sig_op_ok A (Emptyset p) \<longleftrightarrow> p = null \<or> p \<in> A"
| "sig_op_ok A (Fillset p) \<longleftrightarrow> p = null \<or> p \<in> A"
| "sig_op_ok A (Addset p sig) \<longleftrightarrow> p = null \<or> p \<in> A"
| "sig_op_ok A (Delset p sig) \<longleftrightarrow> p = null \<or> p \<in> A"
| "sig_op_ok A (Ismember p sig) \<longleftrightarrow> p = null \<or> p \<in> A"

definition sig_rel :: "addr set \<Rightarrow> sig_state \<Rightarrow> sig_sets \<Rightarrow> bool" where
  "sig_rel A s a \<longleftrightarrow> dom (sigsets s) = A \<and> errno s = snd a \<and>
     (\<forall>p ws. sigsets s p = Some ws \<longrightarrow> length ws = SIGSET_WORDS \<and> members ws = fst a p)"

lemma sint_minus_1: "1 \<le> sint sig \<Longrightarrow> sint (sig - 1) = sint sig - 1" for sig :: c_int
proof -
  assume "1 \<le> sint sig"
  then have "- (2 ^ 31) \<le> sint sig - 1" "sint sig - 1 < 2 ^ 31" using sint_i32_bounds [of sig] by linarith+
  then have "sint (word_of_int (sint sig - 1) :: c_int) = sint sig - 1" by (rule sint_word_of_int_i32)
  moreover have "word_of_int (sint sig - 1) = sig - 1" by simp
  ultimately show ?thesis by metis
qed

lemma signal_bit:
  "signal_word_and_bit sig = (if signal_ok sig then Some (0, 2 ^ (nat (sint sig) - 1)) else None)"
proof (cases "signal_ok sig")
  case True
  then have b: "1 \<le> sint sig" "sint sig \<le> 64" by (simp_all add: signal_ok_def)
  then have z: "nat (sint (sig - 1)) = nat (sint sig) - 1" by (simp add: sint_minus_1)
  have "nat (sint sig) - 1 < 64" using b by linarith
  then show ?thesis
    using True b unfolding signal_word_and_bit_def Let_def z
    by (simp add: MAX_KERNEL_SIGNAL_def BITS_PER_WORD_def SIGSET_WORDS_def push_bit_eq_mult)
qed (simp add: signal_word_and_bit_def signal_ok_def MAX_KERNEL_SIGNAL_def)

text \<open>The bits of the first word.\<close>

lemma signal_index:
  assumes "signal_ok sig" "1 \<le> n" "n \<le> 64"
  shows "nat (sint sig) - 1 < 64" "n - 1 = nat (sint sig) - 1 \<longleftrightarrow> n = nat (sint sig)"
  using assms by (auto simp: signal_ok_def)

lemma members_simps:
  assumes "length ws = SIGSET_WORDS"
  shows "members sigset_empty = {}"
    and "members (replicate SIGSET_WORDS (- 1)) = {1..64}"
    and "signal_ok sig \<Longrightarrow> members (ws[0 := ws ! 0 OR 2 ^ (nat (sint sig) - 1)]) = insert (nat (sint sig)) (members ws)"
    and "signal_ok sig \<Longrightarrow> members (ws[0 := ws ! 0 AND NOT (2 ^ (nat (sint sig) - 1))]) = members ws - {nat (sint sig)}"
    and "signal_ok sig \<Longrightarrow> ws ! 0 AND 2 ^ (nat (sint sig) - 1) \<noteq> 0 \<longleftrightarrow> nat (sint sig) \<in> members ws"
proof -
  have len: "0 < length ws" using assms by (simp add: SIGSET_WORDS_def)
  show "members sigset_empty = {}" by (simp add: members_def sigset_empty_def SIGSET_WORDS_def)
  show "members (replicate SIGSET_WORDS (- 1)) = {1..64}" by (auto simp: members_def SIGSET_WORDS_def)
  assume ok: "signal_ok sig"
  have range: "1 \<le> nat (sint sig)" "nat (sint sig) \<le> 64" using ok by (auto simp: signal_ok_def)
  show "members (ws[0 := ws ! 0 OR 2 ^ (nat (sint sig) - 1)]) = insert (nat (sint sig)) (members ws)"
    using len signal_index [OF ok] range by (auto simp: members_def bit_or_iff bit_exp_iff)
  show "members (ws[0 := ws ! 0 AND NOT (2 ^ (nat (sint sig) - 1))]) = members ws - {nat (sint sig)}"
    using len signal_index [OF ok] range by (auto simp: members_def bit_and_iff bit_not_iff bit_exp_iff)
  show "ws ! 0 AND 2 ^ (nat (sint sig) - 1) \<noteq> 0 \<longleftrightarrow> nat (sint sig) \<in> members ws"
    using range by (simp add: members_def and_exp_eq_0_iff_not_bit)
qed

lemma put_set_simps [simp]:
  "sigsets (put_set p ws s) = (sigsets s)(p \<mapsto> ws)" "errno (put_set p ws s) = errno s"
  by (simp_all add: put_set_def)

interpretation sigset: simulation "sig_rel A" sig_exec sig_spec "sig_op_ok A" for A
proof
  fix s a x
  assume rel: "sig_rel A s a" and ok: "sig_op_ok A x"
  obtain S e where a: "a = (S, e)" by (cases a)
  have cell: "\<exists>ws. sigsets s p = Some ws \<and> length ws = SIGSET_WORDS \<and> members ws = S p" if "p \<in> A" for p
    using rel that by (auto simp: sig_rel_def a)
  have upd: "sig_rel A (put_set p ws s) (S(p := M), e)" if "p \<in> A" "length ws = SIGSET_WORDS" "members ws = M" for p ws M
    using rel that by (auto simp: sig_rel_def a)
  have fail: "sig_rel A (set_errno v s) (S, v)" for v
    using rel by (auto simp: sig_rel_def a set_errno_def)
  note defs = sigemptyset_def sigfillset_def sigaddset_def sigdelset_def sigismember_def signal_bit bad_address_def
    invalid_argument_def a
  show "\<exists>s'. sig_exec x s = Some (fst (sig_spec x a), s') \<and> sig_rel A s' (snd (sig_spec x a))"
  proof (cases x)
    case (Emptyset p)
    then show ?thesis using ok cell [of p] fail upd [of p sigset_empty "{}"] members_simps(1)
      by (auto simp: defs sigset_empty_def)
  next
    case (Fillset p)
    then show ?thesis using ok cell [of p] fail upd [of p "replicate SIGSET_WORDS (- 1)" "{1..64}"] members_simps(2)
      by (auto simp: defs)
  next
    case (Addset p sig)
    then show ?thesis using ok cell [of p] fail members_simps(3) [of _ sig] upd [of p] by (auto simp: defs)
  next
    case (Delset p sig)
    then show ?thesis using ok cell [of p] fail members_simps(4) [of _ sig] upd [of p] by (auto simp: defs)
  next
    case (Ismember p sig)
    then show ?thesis using ok cell [of p] fail members_simps(5) [of _ sig] rel by (auto simp: defs)
  qed
qed

text \<open>
  C25. Signal sets are sets of the signals 1 to 64: any sequence of \<open>sigemptyset\<close>, \<open>sigfillset\<close>, \<open>sigaddset\<close>,
  \<open>sigdelset\<close> and \<open>sigismember\<close> calls on the caller's sets returns what the operations on sets of
  numbers return, leaves the sets with those members and errno as they say: \<open>EFAULT\<close> for a null pointer, \<open>EINVAL\<close>
  for a signal out of range, else unchanged.
\<close>

theorem signal_sets_are_sets:
  assumes "\<forall>ws \<in> ran (sigsets s). length ws = SIGSET_WORDS" "list_all (sig_op_ok (dom (sigsets s))) xs"
  shows "\<exists>s' S e. run_spec sig_spec xs (\<lambda>p. case sigsets s p of Some ws \<Rightarrow> members ws | None \<Rightarrow> {}, errno s) =
      (fst (run_spec sig_spec xs (\<lambda>p. case sigsets s p of Some ws \<Rightarrow> members ws | None \<Rightarrow> {}, errno s)), S, e) \<and>
    run_ops sig_exec xs s =
      Some (fst (run_spec sig_spec xs (\<lambda>p. case sigsets s p of Some ws \<Rightarrow> members ws | None \<Rightarrow> {}, errno s)), s') \<and>
    dom (sigsets s') = dom (sigsets s) \<and> errno s' = e \<and> (\<forall>p ws. sigsets s' p = Some ws \<longrightarrow> members ws = S p)"
proof -
  let ?a = "(\<lambda>p. case sigsets s p of Some ws \<Rightarrow> members ws | None \<Rightarrow> {}, errno s)"
  have "sig_rel (dom (sigsets s)) s ?a" using assms(1) by (auto simp: sig_rel_def ran_def)
  then obtain s' where "run_ops sig_exec xs s = Some (fst (run_spec sig_spec xs ?a), s')"
      "sig_rel (dom (sigsets s)) s' (snd (run_spec sig_spec xs ?a))"
    using sigset.run assms(2) by blast
  then show ?thesis
    by (intro exI [of _ s'] exI [of _ "fst (snd (run_spec sig_spec xs ?a))"] exI [of _ "snd (snd (run_spec sig_spec xs ?a))"])
      (simp add: sig_rel_def)
qed

theorem signal_sets_are_sets_witness:
  "\<exists>s'. run_ops sig_exec [Emptyset 8, Addset 8 64, Addset 8 65, Ismember 8 64, Delset 8 64, Ismember 8 64]
      \<lparr>bytes = Map.empty, ptrs = Map.empty, errno = 0, sigsets = [8 \<mapsto> replicate 16 1], sigactions = Map.empty\<rparr> =
    Some ([0, 0, - 1, 1, 0, 0], s') \<and> errno s' = EINVAL"
proof -
  let ?s = "\<lparr>bytes = Map.empty, ptrs = Map.empty, errno = 0, sigsets = [8 \<mapsto> replicate 16 1], sigactions = Map.empty\<rparr> :: sig_state"
  let ?xs = "[Emptyset 8, Addset 8 64, Addset 8 65, Ismember 8 64, Delset 8 64, Ismember 8 64]"
  let ?a = "(\<lambda>p. case sigsets ?s p of Some ws \<Rightarrow> members ws | None \<Rightarrow> {}, errno ?s)"
  have spec: "fst (run_spec sig_spec ?xs ?a) = [0, 0, - 1, 1, 0, 0]" "snd (snd (run_spec sig_spec ?xs ?a)) = EINVAL"
    by (simp_all add: signal_ok_def)
  have "\<forall>ws \<in> ran (sigsets ?s). length ws = SIGSET_WORDS" "list_all (sig_op_ok (dom (sigsets ?s))) ?xs"
    by (simp_all add: SIGSET_WORDS_def)
  from signal_sets_are_sets [OF this] spec show ?thesis by (metis snd_conv)
qed

end
