(* ===== verification/Process.thy ===== *)
theory Process
  imports Signals
begin

text \<open>
  The life of a process: start-up of \<^verbatim>\<open>src/src/startup.rs\<close> (constructors, \<open>main\<close>, destructors) and termination of
  \<^verbatim>\<open>src/src/stdlib/process.rs\<close> (\<open>atexit\<close>, \<open>exit\<close>, \<open>_Exit\<close>, \<open>abort\<close>). The functions of the program are a
  parameter: what a function registers with \<open>atexit\<close> when it is called, given all that has happened before.
\<close>

datatype event = Ran addr | ExitGroup c_int

record process = machine +
  handlers :: "addr list"
  log :: "event list"
  environ_ptr :: addr

type_synonym program = "event list \<Rightarrow> addr \<Rightarrow> addr list"

section \<open>Termination\<close>

definition ATEXIT_MAX_HANDLERS :: nat where "ATEXIT_MAX_HANDLERS = 32"
definition SIGABRT_STATUS_OFFSET :: c_int where "SIGABRT_STATUS_OFFSET = 128"
definition SIGABRT_MASK :: c_ulong where "SIGABRT_MASK = push_bit (nat (sint SIGABRT - 1)) 1"

definition atexit :: "addr \<Rightarrow> process \<Rightarrow> c_int \<times> process" where
  "atexit function p =
     (if function = null then (1, p)
      else if length (handlers p) \<ge> ATEXIT_MAX_HANDLERS then (1, p)
      else (0, p\<lparr>handlers := handlers p @ [function]\<rparr>))"

text \<open>A call of a function of the program.\<close>

definition call :: "program \<Rightarrow> addr \<Rightarrow> process \<Rightarrow> process" where
  "call prog f p = fold (\<lambda>g p. snd (atexit g p)) (prog (log p) f) (p\<lparr>log := log p @ [Ran f]\<rparr>)"

partial_function (option) run_atexit_handlers :: "program \<Rightarrow> process \<Rightarrow> process option" where
  "run_atexit_handlers prog p =
     (if handlers p = [] then Some p
      else run_atexit_handlers prog (call prog (last (handlers p)) (p\<lparr>handlers := butlast (handlers p)\<rparr>)))"

text \<open>\<^verbatim>\<open>exit_group\<close> does not return.\<close>

definition terminate_immediately :: "c_int \<Rightarrow> process \<Rightarrow> process" where
  "terminate_immediately status p = p\<lparr>log := log p @ [ExitGroup status]\<rparr>"

definition exit :: "program \<Rightarrow> c_int \<Rightarrow> process \<Rightarrow> process option" where
  "exit prog status p = do { p \<leftarrow> run_atexit_handlers prog p; Some (terminate_immediately status p) }"

definition Exit_immediately :: "c_int \<Rightarrow> process \<Rightarrow> process" where
  "Exit_immediately status p = terminate_immediately status p"

definition unblock_sigabrt_for_current_thread :: "'k kernel \<Rightarrow> 'k \<Rightarrow> 'k" where
  "unblock_sigabrt_for_current_thread K k =
     (case sys_rt_sigprocmask K (scast SIG_UNBLOCK) (Some SIGABRT_MASK) k of (_, _, k) \<Rightarrow> k)"

definition reset_sigabrt_disposition_to_default :: "'k kernel \<Rightarrow> 'k \<Rightarrow> 'k" where
  "reset_sigabrt_disposition_to_default K k =
     (let action = \<lparr>sa_handler = SIG_DFL, sa_flags = 0, sa_restorer = 0, sa_mask = [0]\<rparr> in
      case sys_rt_sigaction K (scast SIGABRT) (Some action) k of (_, _, k) \<Rightarrow> k)"

text \<open>\<open>None\<close>: a raised signal has ended the process.\<close>

definition abort :: "'k kernel \<Rightarrow> process \<Rightarrow> 'k \<Rightarrow> (process \<times> 'k) option" where
  "abort K p k = do {
     let k = unblock_sigabrt_for_current_thread K k;
     (_, p, k) \<leftarrow> raise K SIGABRT p k;
     let k = reset_sigabrt_disposition_to_default K k;
     (_, p, k) \<leftarrow> raise K SIGABRT p k;
     Some (terminate_immediately (SIGABRT_STATUS_OFFSET + SIGABRT) p, k) }"

section \<open>Start-up\<close>

definition MISSING_MAIN_STATUS :: c_int where "MISSING_MAIN_STATUS = 127"

record StartupArgs =
  argc :: c_int
  argv :: addr
  envp :: addr

record InitFiniRange =
  start :: addr
  end_addr :: addr

definition entry_count :: "InitFiniRange \<Rightarrow> nat" where
  "entry_count arr =
     (if start arr = null \<or> end_addr arr = null then 0
      else if end_addr arr \<le> start arr then 0
      else if start arr mod 8 \<noteq> 0 \<or> end_addr arr mod 8 \<noteq> 0 then 0
      else
        (let distance = end_addr arr - start arr in
         if distance > 2 ^ 63 - 1 then 0
         else if distance mod 8 \<noteq> 0 then 0
         else distance div 8))"

text \<open>The outer option is the memory's; a null or misaligned slot is skipped.\<close>

definition read_array_entry :: "process \<Rightarrow> addr \<Rightarrow> nat \<Rightarrow> addr option option" where
  "read_array_entry p base index = do {
     raw \<leftarrow> ptrs p (base + 8 * index);
     Some (if raw = 0 then None else if raw mod 8 \<noteq> 0 then None else Some raw) }"

fun run_entries :: "program \<Rightarrow> addr \<Rightarrow> nat list \<Rightarrow> process \<Rightarrow> process option" where
  "run_entries prog base [] p = Some p"
| "run_entries prog base (index # indices) p = do {
     entry \<leftarrow> read_array_entry p base index;
     run_entries prog base indices (case entry of None \<Rightarrow> p | Some f \<Rightarrow> call prog f p) }"

definition run_init_array_range :: "program \<Rightarrow> InitFiniRange \<Rightarrow> process \<Rightarrow> process option" where
  "run_init_array_range prog arr p = run_entries prog (start arr) [0..<entry_count arr] p"

definition run_fini_array_range :: "program \<Rightarrow> InitFiniRange \<Rightarrow> process \<Rightarrow> process option" where
  "run_fini_array_range prog arr p = run_entries prog (start arr) (rev [0..<entry_count arr]) p"

text \<open>\<open>main\<close> is called like the other functions; \<open>status\<close> is what it returns, given the history.\<close>

definition run_startup_main ::
  "program \<Rightarrow> (event list \<Rightarrow> c_int) \<Rightarrow> addr \<Rightarrow> StartupArgs \<Rightarrow> InitFiniRange \<Rightarrow> InitFiniRange \<Rightarrow> process \<Rightarrow>
   (c_int \<times> process) option" where
  "run_startup_main prog status main args init_arr fini_arr p = do {
     let p = p\<lparr>environ_ptr := envp args\<rparr>;
     p \<leftarrow> run_init_array_range prog init_arr p;
     let exit_status = status (log p);
     let p = call prog main p;
     p \<leftarrow> run_fini_array_range prog fini_arr p;
     Some (exit_status, p) }"

definition run_libc_start_main ::
  "program \<Rightarrow> (event list \<Rightarrow> c_int) \<Rightarrow> addr \<Rightarrow> StartupArgs \<Rightarrow> InitFiniRange \<Rightarrow> InitFiniRange \<Rightarrow> process \<Rightarrow> process option" where
  "run_libc_start_main prog status main args init_arr fini_arr p = do {
     let p = p\<lparr>environ_ptr := envp args\<rparr>;
     if main = null then exit prog MISSING_MAIN_STATUS p
     else do {
       (status, p) \<leftarrow> run_startup_main prog status main args init_arr fini_arr p;
       exit prog status p } }"

section \<open>Order of the calls\<close>

definition callable :: "addr \<Rightarrow> bool" where "callable f \<longleftrightarrow> f \<noteq> 0 \<and> f mod 8 = 0"

text \<open>What a sequence of calls registers, in order.\<close>

primrec registered :: "program \<Rightarrow> event list \<Rightarrow> addr list \<Rightarrow> addr list" where
  "registered prog hist [] = []"
| "registered prog hist (f # fs) = filter (\<lambda>g. g \<noteq> null) (prog hist f) @ registered prog (hist @ [Ran f]) fs"

lemma atexit_fold:
  assumes "length (handlers p) \<le> ATEXIT_MAX_HANDLERS"
  shows "fold (\<lambda>g p. snd (atexit g p)) gs p =
    p\<lparr>handlers := take ATEXIT_MAX_HANDLERS (handlers p @ filter (\<lambda>g. g \<noteq> null) gs)\<rparr>"
  using assms
proof (induction gs arbitrary: p)
  case (Cons g gs)
  consider "g = null" | "g \<noteq> null" "length (handlers p) = ATEXIT_MAX_HANDLERS"
    | "g \<noteq> null" "length (handlers p) < ATEXIT_MAX_HANDLERS" using Cons.prems by linarith
  then show ?case
  proof cases
    case 3
    then show ?thesis using Cons.IH [of "p\<lparr>handlers := handlers p @ [g]\<rparr>"] by (simp add: atexit_def)
  qed (use Cons in \<open>auto simp: atexit_def\<close>)
qed simp

lemma call_eq:
  assumes "length (handlers p) \<le> ATEXIT_MAX_HANDLERS"
  shows "call prog f p = p\<lparr>log := log p @ [Ran f],
    handlers := take ATEXIT_MAX_HANDLERS (handlers p @ filter (\<lambda>g. g \<noteq> null) (prog (log p) f))\<rparr>"
  using atexit_fold [of "p\<lparr>log := log p @ [Ran f]\<rparr>"] assms by (simp add: call_def)

lemma take_take_append: "take n (take n xs @ ys) = take n (xs @ ys)"
  by (cases "length xs \<le> n") auto

lemma calls_eq:
  assumes "length (handlers p) \<le> ATEXIT_MAX_HANDLERS"
  shows "fold (call prog) fs p = p\<lparr>log := log p @ map Ran fs,
    handlers := take ATEXIT_MAX_HANDLERS (handlers p @ registered prog (log p) fs)\<rparr>"
  using assms
proof (induction fs arbitrary: p)
  case (Cons f fs)
  have "length (handlers (call prog f p)) \<le> ATEXIT_MAX_HANDLERS" using Cons.prems by (simp add: call_eq)
  then show ?case using Cons.IH [of "call prog f p"] Cons.prems
    by (simp add: call_eq take_take_append del: take_append)
qed simp

text \<open>The slots of an array, and the constructors in them.\<close>

definition slots :: "process \<Rightarrow> InitFiniRange \<Rightarrow> addr list \<Rightarrow> bool" where
  "slots p arr fs \<longleftrightarrow> length fs = entry_count arr \<and> (\<forall>i < length fs. ptrs p (start arr + 8 * i) = Some (fs ! i))"

lemma call_ptrs [simp]: "ptrs (call prog f p) = ptrs p"
proof -
  have "ptrs (fold (\<lambda>g p. snd (atexit g p)) gs q) = ptrs q" for gs q
    by (induction gs arbitrary: q) (auto simp: atexit_def)
  then show ?thesis by (simp add: call_def)
qed

lemma run_entries_eq:
  assumes "\<forall>i \<in> set is. ptrs p (base + 8 * i) = Some (f i)"
  shows "run_entries prog base is p = Some (fold (call prog) (filter callable (map f is)) p)"
  using assms
proof (induction "is" arbitrary: p)
  case (Cons i "is")
  then show ?case using Cons.IH [of p] Cons.IH [of "call prog (f i) p"] by (auto simp: read_array_entry_def callable_def)
qed simp

lemma run_init_eq: "slots p arr fs \<Longrightarrow> run_init_array_range prog arr p = Some (fold (call prog) (filter callable fs) p)"
  using run_entries_eq [of "[0..<entry_count arr]" p "start arr" "\<lambda>i. fs ! i" prog] map_nth [of fs]
  by (simp add: run_init_array_range_def slots_def)

lemma run_fini_eq: "slots p arr fs \<Longrightarrow> run_fini_array_range prog arr p = Some (fold (call prog) (filter callable (rev fs)) p)"
  using run_entries_eq [of "rev [0..<entry_count arr]" p "start arr" "\<lambda>i. fs ! i" prog] map_nth [of fs]
  by (simp add: run_fini_array_range_def slots_def rev_map [symmetric])

section \<open>Handlers run last in, first out\<close>

text \<open>A program whose handlers do not register each other for ever.\<close>

definition ranked :: "(addr \<Rightarrow> nat) \<Rightarrow> program \<Rightarrow> bool" where
  "ranked rank prog \<longleftrightarrow> (\<forall>hist h g. g \<in> set (prog hist h) \<longrightarrow> g \<noteq> null \<longrightarrow> rank g < rank h)"

lemma log_handlers: "p\<lparr>log := l, handlers := hs\<rparr> = p\<lparr>handlers := hs, log := l\<rparr>" for p :: process
  by simp

lemma run_handler:
  assumes "ranked rank prog" "handlers p = hs @ [h]" "length (handlers p) \<le> ATEXIT_MAX_HANDLERS"
  shows "\<exists>block. run_atexit_handlers prog p = run_atexit_handlers prog (p\<lparr>handlers := hs, log := log p @ Ran h # block\<rparr>)"
  using assms(2,3)
proof (induction "rank h" arbitrary: p hs h rule: less_induct)
  case less
  have inner: "\<exists>block. run_atexit_handlers prog (q\<lparr>handlers := hs @ gs\<rparr>) =
      run_atexit_handlers prog (q\<lparr>handlers := hs, log := log q @ block\<rparr>)"
    if "\<forall>g \<in> set gs. rank g < rank h" "length (hs @ gs) \<le> ATEXIT_MAX_HANDLERS" for q gs
    using that
  proof (induction gs arbitrary: q rule: rev_induct)
    case Nil
    have "run_atexit_handlers prog (q\<lparr>handlers := hs @ []\<rparr>) = run_atexit_handlers prog (q\<lparr>handlers := hs, log := log q @ []\<rparr>)"
      by simp
    then show ?case by blast
  next
    case (snoc g gs)
    obtain b where b: "run_atexit_handlers prog (q\<lparr>handlers := (hs @ gs) @ [g]\<rparr>) =
        run_atexit_handlers prog (q\<lparr>handlers := hs @ gs, log := log q @ Ran g # b\<rparr>)"
      using less.hyps [of g "q\<lparr>handlers := (hs @ gs) @ [g]\<rparr>" "hs @ gs"] snoc.prems by auto
    obtain c where "run_atexit_handlers prog (q\<lparr>log := log q @ Ran g # b, handlers := hs @ gs\<rparr>) =
        run_atexit_handlers prog (q\<lparr>handlers := hs, log := (log q @ Ran g # b) @ c\<rparr>)"
      using snoc.IH [of "q\<lparr>log := log q @ Ran g # b\<rparr>"] snoc.prems by auto
    then have "run_atexit_handlers prog (q\<lparr>handlers := hs @ gs @ [g]\<rparr>) =
        run_atexit_handlers prog (q\<lparr>handlers := hs, log := log q @ (Ran g # b @ c)\<rparr>)"
      using b by (simp add: log_handlers)
    then show ?case by blast
  qed
  define gs where "gs = filter (\<lambda>g. g \<noteq> null) (prog (log p) h)"
  have "\<forall>g \<in> set gs. rank g < rank h" using assms(1) by (auto simp: ranked_def gs_def)
  then have gs: "\<forall>g \<in> set (take (ATEXIT_MAX_HANDLERS - length hs) gs). rank g < rank h" by (auto dest: in_set_takeD)
  have len: "length (hs @ take (ATEXIT_MAX_HANDLERS - length hs) gs) \<le> ATEXIT_MAX_HANDLERS"
    using less.prems by simp
  have split: "take ATEXIT_MAX_HANDLERS (hs @ gs) = hs @ take (ATEXIT_MAX_HANDLERS - length hs) gs"
    using less.prems by simp
  have "run_atexit_handlers prog p = run_atexit_handlers prog
      (p\<lparr>log := log p @ [Ran h], handlers := hs @ take (ATEXIT_MAX_HANDLERS - length hs) gs\<rparr>)"
    using less.prems by (subst run_atexit_handlers.simps) (simp add: call_eq gs_def)
  moreover obtain block where "run_atexit_handlers prog
      (p\<lparr>log := log p @ [Ran h], handlers := hs @ take (ATEXIT_MAX_HANDLERS - length hs) gs\<rparr>) =
      run_atexit_handlers prog (p\<lparr>handlers := hs, log := (log p @ [Ran h]) @ block\<rparr>)"
    using inner [OF gs len, of "p\<lparr>log := log p @ [Ran h]\<rparr>"] by auto
  ultimately show ?case by auto
qed

lemma run_handlers:
  assumes "ranked rank prog" "length (handlers p) \<le> ATEXIT_MAX_HANDLERS"
  shows "\<exists>blocks. run_atexit_handlers prog p = Some (p\<lparr>handlers := [], log := log p @ concat blocks\<rparr>) \<and>
    [] \<notin> set blocks \<and> map hd blocks = map Ran (rev (handlers p))"
  using assms(2)
proof (induction "handlers p" arbitrary: p rule: rev_induct)
  case Nil
  then show ?case by (intro exI [of _ "[]"]) (subst run_atexit_handlers.simps, simp)
next
  case (snoc h hs)
  obtain b where b: "run_atexit_handlers prog p = run_atexit_handlers prog (p\<lparr>handlers := hs, log := log p @ Ran h # b\<rparr>)"
    using run_handler [OF assms(1), of p hs h] snoc.hyps(2) snoc.prems by auto
  obtain blocks where "run_atexit_handlers prog (p\<lparr>handlers := hs, log := log p @ Ran h # b\<rparr>) =
      Some (p\<lparr>handlers := [], log := (log p @ Ran h # b) @ concat blocks\<rparr>)" "[] \<notin> set blocks" "map hd blocks = map Ran (rev hs)"
    using snoc.hyps(1) [of "p\<lparr>handlers := hs, log := log p @ Ran h # b\<rparr>"] snoc.hyps(2) [symmetric] snoc.prems by auto
  then show ?case using b snoc.hyps(2) [symmetric] by (intro exI [of _ "(Ran h # b) # blocks"]) simp
qed

text \<open>
  C26. A program runs in order: start-up calls the constructors (the non-null, 8-aligned slots of the array), then
  \<open>main\<close>, then the destructors backwards; \<open>exit\<close> then runs the handlers that these registered, the first 32 of them, last
  in first out, each followed by the handlers it registered itself; and the process ends with the status
  \<open>main\<close> returned. All this happens if handlers do not register each other for ever.
\<close>

theorem program_runs_in_order:
  assumes "ranked rank prog" "handlers p = []" "main \<noteq> null"
    and "slots p init_arr inits" "slots p fini_arr finis"
  shows "\<exists>p' blocks. run_libc_start_main prog status main args init_arr fini_arr p = Some p' \<and>
    (let fs = filter callable inits @ [main] @ filter callable (rev finis) in
     log p' = log p @ map Ran fs @ concat blocks @ [ExitGroup (status (log p @ map Ran (filter callable inits)))] \<and>
     [] \<notin> set blocks \<and> map hd blocks = map Ran (rev (take 32 (registered prog (log p) fs)))) \<and>
    environ_ptr p' = envp args \<and> handlers p' = []"
proof -
  let ?fs = "filter callable inits @ [main] @ filter callable (rev finis)"
  define p1 where "p1 = p\<lparr>environ_ptr := envp args\<rparr>"
  have slots: "slots q arr fs" if "slots p arr fs" "ptrs q = ptrs p" for q arr fs using that by (simp add: slots_def)
  have ptrs: "ptrs (fold (call prog) gs q) = ptrs q" for gs q by (induction gs arbitrary: q) simp_all
  define p2 where "p2 = fold (call prog) (filter callable inits) p1"
  define p3 where "p3 = fold (call prog) ?fs p1"
  have init: "run_init_array_range prog init_arr p1 = Some p2"
    unfolding p2_def by (rule run_init_eq [OF slots [OF assms(4)]]) (simp add: p1_def)
  have fini: "run_fini_array_range prog fini_arr (call prog main p2) = Some p3"
    using run_fini_eq [OF slots [OF assms(5)], of "call prog main p2" prog] by (simp add: p3_def p2_def ptrs p1_def)
  have log2: "log p2 = log p @ map Ran (filter callable inits)"
    using calls_eq [of p1 prog] assms(2) by (simp add: p2_def p1_def)
  have p3: "p3 = p1\<lparr>log := log p @ map Ran ?fs, handlers := take 32 (registered prog (log p) ?fs)\<rparr>"
    using calls_eq [of p1 prog ?fs] assms(2) by (simp add: p3_def p1_def ATEXIT_MAX_HANDLERS_def)
  obtain blocks where blocks: "run_atexit_handlers prog p3 = Some (p3\<lparr>handlers := [], log := log p3 @ concat blocks\<rparr>)"
      "[] \<notin> set blocks" "map hd blocks = map Ran (rev (handlers p3))"
    using run_handlers [OF assms(1), of p3] p3 by (auto simp: ATEXIT_MAX_HANDLERS_def)
  have same: "p1\<lparr>environ_ptr := envp args\<rparr> = p1" by (simp add: p1_def)
  have "run_libc_start_main prog status main args init_arr fini_arr p =
      Some (terminate_immediately (status (log p2)) (p3\<lparr>handlers := [], log := log p3 @ concat blocks\<rparr>))"
    using assms(3) init fini blocks(1)
    by (simp add: run_libc_start_main_def run_startup_main_def exit_def p1_def [symmetric] same)
  then show ?thesis
    using blocks(2,3) log2 p3 by (auto simp: terminate_immediately_def Let_def p1_def)
qed

text \<open>One constructor at 64 (a slot holds the odd address 65, which is skipped), \<open>main\<close> at 80, which registers 96; it registers 112.\<close>

definition process_example :: process where
  "process_example = \<lparr>bytes = Map.empty, ptrs = [8 \<mapsto> 64, 16 \<mapsto> 65, 24 \<mapsto> 72], errno = 0, handlers = [], log = [], environ_ptr = 0\<rparr>"

definition program_example :: program where
  "program_example hist f = (if f = 80 then [96] else if f = 96 then [112] else [])"

theorem program_runs_in_order_witness:
  "\<exists>p'. run_libc_start_main program_example (\<lambda>_. 3) 80 \<lparr>argc = 0, argv = 0, envp = 4096\<rparr>
      \<lparr>start = 8, end_addr = 24\<rparr> \<lparr>start = 24, end_addr = 32\<rparr> process_example = Some p' \<and>
    (\<exists>block. log p' = map Ran [64, 80, 72] @ (Ran 96 # block) @ [ExitGroup 3])"
proof -
  have ranked: "ranked (\<lambda>h. if h = 80 then 2 else if h = 96 then 1 else 0) program_example"
    by (auto simp: ranked_def program_example_def)
  have slots: "slots process_example \<lparr>start = 8, end_addr = 24\<rparr> [64, 65]" "slots process_example \<lparr>start = 24, end_addr = 32\<rparr> [72]"
    by (auto simp: slots_def entry_count_def process_example_def less_Suc_eq)
  have eval: "filter callable [64, 65] = [64]" "filter callable (rev [72]) = [72]" "handlers process_example = []"
      "log process_example = []" "registered program_example [] ([64] @ [80] @ [72]) = [96]"
    by (simp_all add: callable_def process_example_def program_example_def)
  have "(80 :: addr) \<noteq> null" by simp
  note result = program_runs_in_order [OF ranked eval(3) this slots, of "\<lambda>_. 3" "\<lparr>argc = 0, argv = 0, envp = 4096\<rparr>"]
  have "\<exists>p' blocks. run_libc_start_main program_example (\<lambda>_. 3) 80 \<lparr>argc = 0, argv = 0, envp = 4096\<rparr>
      \<lparr>start = 8, end_addr = 24\<rparr> \<lparr>start = 24, end_addr = 32\<rparr> process_example = Some p' \<and>
      log p' = [] @ map Ran ([64] @ [80] @ [72]) @ concat blocks @ [ExitGroup 3] \<and> [] \<notin> set blocks \<and>
      map hd blocks = map Ran (rev (take 32 [96]))"
    using result unfolding eval Let_def by blast
  then obtain p' blocks where p': "run_libc_start_main program_example (\<lambda>_. 3) 80 \<lparr>argc = 0, argv = 0, envp = 4096\<rparr>
      \<lparr>start = 8, end_addr = 24\<rparr> \<lparr>start = 24, end_addr = 32\<rparr> process_example = Some p'"
      "log p' = map Ran ([64] @ [80] @ [72]) @ concat blocks @ [ExitGroup 3]" "[] \<notin> set blocks" "map hd blocks = [Ran 96]"
    by (elim exE conjE) simp
  have "blocks = [hd blocks]" "hd (hd blocks) = Ran 96" "hd blocks \<noteq> []" using p'(3,4) by (cases blocks; simp)+
  then have block: "blocks = [Ran 96 # tl (hd blocks)]" by (metis list.collapse)
  have "log p' = map Ran [64, 80, 72] @ (Ran 96 # tl (hd blocks)) @ [ExitGroup 3]"
    unfolding p'(2) by (subst block) simp
  then show ?thesis using p'(1) by blast
qed

end
