(* ===== verification/Glob_Match.thy ===== *)
theory Glob_Match
  imports Prelude
begin

text \<open>
  Matching of file names of \<^verbatim>\<open>src/src/glob.rs\<close>: bracket expressions and the matcher, which work on indices into the
  pattern. The specification compiles a pattern into items once, independently of
  the name, and says which names the items match.
\<close>

abbreviation SLASH :: u8 where "SLASH \<equiv> 0x2F"
abbreviation BACKSLASH :: u8 where "BACKSLASH \<equiv> 0x5C"
abbreviation STAR :: u8 where "STAR \<equiv> 0x2A"
abbreviation QUESTION :: u8 where "QUESTION \<equiv> 0x3F"
abbreviation LBRACKET :: u8 where "LBRACKET \<equiv> 0x5B"
abbreviation RBRACKET :: u8 where "RBRACKET \<equiv> 0x5D"
abbreviation BANG :: u8 where "BANG \<equiv> 0x21"
abbreviation CARET :: u8 where "CARET \<equiv> 0x5E"
abbreviation DASH :: u8 where "DASH \<equiv> 0x2D"
abbreviation DOT :: u8 where "DOT \<equiv> 0x2E"

definition GLOB_ERR :: c_int where "GLOB_ERR = 0x0001"
definition GLOB_NOSORT :: c_int where "GLOB_NOSORT = 0x0004"
definition GLOB_DOOFFS :: c_int where "GLOB_DOOFFS = 0x0008"
definition GLOB_NOCHECK :: c_int where "GLOB_NOCHECK = 0x0010"
definition GLOB_APPEND :: c_int where "GLOB_APPEND = 0x0020"
definition GLOB_NOESCAPE :: c_int where "GLOB_NOESCAPE = 0x0040"
definition GLOB_NOSPACE :: c_int where "GLOB_NOSPACE = 1"
definition GLOB_ABORTED :: c_int where "GLOB_ABORTED = 2"
definition GLOB_NOMATCH :: c_int where "GLOB_NOMATCH = 3"

definition no_escape_of :: "c_int \<Rightarrow> bool" where
  "no_escape_of flags \<longleftrightarrow> flags AND GLOB_NOESCAPE \<noteq> 0"

section \<open>The code\<close>

text \<open>
  The item of a bracket expression at an index: the first and the last byte of its range (a single byte is the range of
  itself) and how many bytes of the pattern it takes. An escaped byte does not start a range.
\<close>

definition bracket_item :: "u8 list \<Rightarrow> bool \<Rightarrow> nat \<Rightarrow> u8 \<times> u8 \<times> nat" where
  "bracket_item pattern no_escape index =
     (let current = pattern ! index;
          (literal, literal_escaped) =
            (if current = BACKSLASH \<and> \<not> no_escape \<and> index + 1 < length pattern
             then (pattern ! (index + 1), True) else (current, False)) in
      if \<not> literal_escaped \<and> index + 1 < length pattern \<and> pattern ! (index + 1) = DASH \<and>
         index + 2 < length pattern \<and> pattern ! (index + 2) \<noteq> RBRACKET
      then
        (let (range_end, consumed) =
           (if pattern ! (index + 2) = BACKSLASH \<and> \<not> no_escape \<and> index + 3 < length pattern
            then (pattern ! (index + 3), 4) else (pattern ! (index + 2), 3))
         in (literal, range_end, consumed))
      else (literal, literal, if literal_escaped then 2 else 1))"

lemma bracket_item_consumed:
  "(lo, hi, k) = bracket_item pattern no_escape index \<Longrightarrow> index < length pattern \<Longrightarrow> 0 < k \<and> index + k \<le> length pattern"
  by (auto simp: bracket_item_def Let_def split: if_splits)

function bracket_loop :: "u8 list \<Rightarrow> u8 \<Rightarrow> bool \<Rightarrow> bool \<Rightarrow> nat \<Rightarrow> bool \<Rightarrow> bool \<Rightarrow> (bool \<times> nat) option" where
  "bracket_loop pattern candidate no_escape invert index matched has_any_item =
     (if index < length pattern then
        (if pattern ! index = RBRACKET \<and> has_any_item then Some (if invert then \<not> matched else matched, index + 1)
         else
           (case bracket_item pattern no_escape index of (literal, range_end, consumed) \<Rightarrow>
              bracket_loop pattern candidate no_escape invert (index + consumed)
                (if literal \<le> candidate \<and> candidate \<le> range_end then True else matched) True))
      else None)"
  by pat_completeness auto
termination
  by (relation "measure (\<lambda>(pattern, candidate, no_escape, invert, index, matched, has_any_item). length pattern - index)")
    (auto dest!: bracket_item_consumed)

declare bracket_loop.simps [simp del]

definition bracket_match :: "u8 list \<Rightarrow> nat \<Rightarrow> u8 \<Rightarrow> bool \<Rightarrow> (bool \<times> nat) option" where
  "bracket_match pattern bracket_index candidate no_escape =
     (let index = bracket_index + 1 in
      if index \<ge> length pattern then None
      else
        (let invert = (pattern ! index = BANG \<or> pattern ! index = CARET);
             index = (if invert then index + 1 else index);
             first = (index < length pattern \<and> pattern ! index = RBRACKET)
         in bracket_loop pattern candidate no_escape invert (if first then index + 1 else index)
              (first \<and> candidate = RBRACKET) first))"

lemma bracket_loop_bounds:
  "bracket_loop pattern candidate no_escape invert index matched has_any = Some (r, next_index) \<Longrightarrow>
   index < next_index \<and> next_index \<le> length pattern"
proof (induction pattern candidate no_escape invert index matched has_any rule: bracket_loop.induct)
  case (1 pattern candidate no_escape invert index matched has_any_item)
  obtain lo hi k where item: "bracket_item pattern no_escape index = (lo, hi, k)" by (metis prod_cases3)
  show ?case
    using "1.prems" "1.IH" [OF _ _ item [symmetric] refl] item
    by (subst (asm) bracket_loop.simps) (auto split: if_splits)
qed

lemma bracket_match_bounds:
  "bracket_match pattern index candidate no_escape = Some (r, next_index) \<Longrightarrow> index < next_index \<and> next_index \<le> length pattern"
  by (auto simp: bracket_match_def Let_def dest!: bracket_loop_bounds split: if_splits)

text \<open>The index after the stars at an index.\<close>

function skip_stars :: "u8 list \<Rightarrow> nat \<Rightarrow> nat" where
  "skip_stars pattern index =
     (if index < length pattern \<and> pattern ! index = STAR then skip_stars pattern (index + 1) else index)"
  by pat_completeness auto
termination by (relation "measure (\<lambda>(pattern, index). length pattern - index)") auto

declare skip_stars.simps [simp del]

lemma skip_stars_ge: "index \<le> skip_stars pattern index"
proof (induction pattern index rule: skip_stars.induct)
  case (1 pattern index)
  then show ?case by (subst skip_stars.simps) auto
qed

lemma skip_stars_greater: "index < length pattern \<Longrightarrow> pattern ! index = STAR \<Longrightarrow> index < skip_stars pattern index"
  using skip_stars_ge [of "index + 1" pattern] by (subst skip_stars.simps) auto

function pattern_matches_from :: "u8 list \<Rightarrow> nat \<Rightarrow> u8 list \<Rightarrow> nat \<Rightarrow> bool \<Rightarrow> bool" where
  "pattern_matches_from pattern pattern_index candidate candidate_index no_escape =
     (if pattern_index < length pattern then
        (let current = pattern ! pattern_index in
         if current = STAR then
           (let next_index = skip_stars pattern pattern_index in
            if next_index = length pattern then True
            else list_ex (\<lambda>scan_index. pattern_matches_from pattern next_index candidate scan_index no_escape)
                   [candidate_index..<length candidate + 1])
         else if candidate_index \<ge> length candidate then False
         else if current = QUESTION then
           pattern_matches_from pattern (pattern_index + 1) candidate (candidate_index + 1) no_escape
         else if current = LBRACKET then
           (case bracket_match pattern pattern_index (candidate ! candidate_index) no_escape of
              None \<Rightarrow>
                if candidate ! candidate_index \<noteq> LBRACKET then False
                else pattern_matches_from pattern (pattern_index + 1) candidate (candidate_index + 1) no_escape
            | Some (matched, next_index) \<Rightarrow>
                if \<not> matched then False
                else pattern_matches_from pattern next_index candidate (candidate_index + 1) no_escape)
         else if current = BACKSLASH \<and> \<not> no_escape then
           (if pattern_index + 1 \<ge> length pattern then
              (if candidate ! candidate_index \<noteq> BACKSLASH then False
               else pattern_matches_from pattern (pattern_index + 1) candidate (candidate_index + 1) no_escape)
            else if candidate ! candidate_index \<noteq> pattern ! (pattern_index + 1) then False
            else pattern_matches_from pattern (pattern_index + 2) candidate (candidate_index + 1) no_escape)
         else if candidate ! candidate_index \<noteq> current then False
         else pattern_matches_from pattern (pattern_index + 1) candidate (candidate_index + 1) no_escape)
      else candidate_index = length candidate)"
  by pat_completeness auto
termination
  by (relation "measure (\<lambda>(pattern, pattern_index, candidate, candidate_index, no_escape). length pattern - pattern_index)")
    (use skip_stars_greater bracket_match_bounds in \<open>auto intro!: diff_less_mono2\<close>)

declare pattern_matches_from.simps [simp del]

definition pattern_matches :: "u8 list \<Rightarrow> u8 list \<Rightarrow> c_int \<Rightarrow> bool" where
  "pattern_matches segment_pattern candidate_name flags =
     pattern_matches_from segment_pattern 0 candidate_name 0 (no_escape_of flags)"

section \<open>Specification\<close>

text \<open>A class is given by its ranges; inverted, it matches every other byte.\<close>

datatype item = Star | AnyByte | Class bool "(u8 \<times> u8) list" | Lit u8

text \<open>The first item of the inside of a bracket expression, as a range, and what follows it.\<close>

definition split_item :: "bool \<Rightarrow> u8 list \<Rightarrow> (u8 \<times> u8) \<times> u8 list" where
  "split_item no_escape p =
     (case p of
        c # d # p1 \<Rightarrow>
          if c = BACKSLASH \<and> \<not> no_escape then ((d, d), p1)
          else if d = DASH then
            (case p1 of
               [] \<Rightarrow> ((c, c), d # p1)
             | e # p2 \<Rightarrow>
                 if e = RBRACKET then ((c, c), d # p1)
                 else (case p2 of
                     f # p3 \<Rightarrow> if e = BACKSLASH \<and> \<not> no_escape then ((c, f), p3) else ((c, e), p2)
                   | [] \<Rightarrow> ((c, e), p2)))
          else ((c, c), d # p1)
      | [c] \<Rightarrow> ((c, c), [])
      | [] \<Rightarrow> ((0, 0), []))"

lemma split_item_shorter: "p \<noteq> [] \<Longrightarrow> length (snd (split_item no_escape p)) < length p"
  by (auto simp: split_item_def split: list.splits)

function class_ranges :: "bool \<Rightarrow> bool \<Rightarrow> u8 list \<Rightarrow> ((u8 \<times> u8) list \<times> u8 list) option" where
  "class_ranges no_escape any p =
     (if p = [] then None
      else if hd p = RBRACKET \<and> any then Some ([], tl p)
      else map_option (\<lambda>(rs, rest). (fst (split_item no_escape p) # rs, rest)) (class_ranges no_escape True (snd (split_item no_escape p))))"
  by pat_completeness auto
termination
  by (relation "measure (\<lambda>(no_escape, any, p). length p)") (auto simp: split_item_shorter)

declare class_ranges.simps [simp del]

text \<open>After the opening bracket: an inversion mark, then a closing bracket that counts as a byte, then the items.\<close>

definition parse_class :: "bool \<Rightarrow> u8 list \<Rightarrow> (bool \<times> (u8 \<times> u8) list \<times> u8 list) option" where
  "parse_class no_escape p =
     (let invert = (p \<noteq> [] \<and> (hd p = BANG \<or> hd p = CARET)); p = (if invert then tl p else p) in
      if p \<noteq> [] \<and> hd p = RBRACKET
      then map_option (\<lambda>(rs, rest). (invert, (RBRACKET, RBRACKET) # rs, rest)) (class_ranges no_escape True (tl p))
      else map_option (\<lambda>(rs, rest). (invert, rs, rest)) (class_ranges no_escape False p))"

lemma class_ranges_shorter: "class_ranges no_escape any p = Some (rs, rest) \<Longrightarrow> length rest < length p"
proof (induction no_escape any p arbitrary: rs rest rule: class_ranges.induct)
  case (1 no_escape any p)
  show ?case
    using "1.prems" "1.IH" split_item_shorter [of p no_escape]
    by (subst (asm) class_ranges.simps) (force split: if_splits)
qed

lemma parse_class_shorter: "parse_class no_escape p = Some (invert, rs, rest) \<Longrightarrow> length rest < length p"
  by (cases p) (auto simp: parse_class_def Let_def dest!: class_ranges_shorter split: if_splits)

function parse_pattern :: "bool \<Rightarrow> u8 list \<Rightarrow> item list" where
  "parse_pattern no_escape [] = []"
| "parse_pattern no_escape (c # p) =
     (if c = STAR then Star # parse_pattern no_escape p
      else if c = QUESTION then AnyByte # parse_pattern no_escape p
      else if c = LBRACKET then
        (case parse_class no_escape p of
           None \<Rightarrow> Lit LBRACKET # parse_pattern no_escape p
         | Some (invert, rs, rest) \<Rightarrow> Class invert rs # parse_pattern no_escape rest)
      else if c = BACKSLASH \<and> \<not> no_escape then
        (case p of [] \<Rightarrow> [Lit BACKSLASH] | d # p' \<Rightarrow> Lit d # parse_pattern no_escape p')
      else Lit c # parse_pattern no_escape p)"
  by pat_completeness auto
termination
  by (relation "measure (\<lambda>(no_escape, p). length p)") (auto dest: parse_class_shorter)

definition in_ranges :: "(u8 \<times> u8) list \<Rightarrow> u8 \<Rightarrow> bool" where
  "in_ranges rs c \<longleftrightarrow> list_ex (\<lambda>(lo, hi). lo \<le> c \<and> c \<le> hi) rs"

fun item_accepts :: "item \<Rightarrow> u8 \<Rightarrow> bool" where
  "item_accepts Star c = True"
| "item_accepts AnyByte c = True"
| "item_accepts (Class invert rs) c = (in_ranges rs c \<noteq> invert)"
| "item_accepts (Lit d) c = (c = d)"

fun item_matches :: "item list \<Rightarrow> u8 list \<Rightarrow> bool" where
  "item_matches [] xs = (xs = [])"
| "item_matches (Star # is) xs = (item_matches is xs \<or> (case xs of [] \<Rightarrow> False | _ # ys \<Rightarrow> item_matches (Star # is) ys))"
| "item_matches (i # is) xs = (case xs of [] \<Rightarrow> False | x # ys \<Rightarrow> item_accepts i x \<and> item_matches is ys)"

section \<open>The matcher implements the specification\<close>

text \<open>A pattern is what has been read and what is left.\<close>

lemma list_cases_4:
  obtains "p = []" | c where "p = [c]" | c d where "p = [c, d]" | c d e where "p = [c, d, e]"
    | c d e f q where "p = c # d # e # f # q"
  by (cases p; cases "tl p"; cases "tl (tl p)"; cases "tl (tl (tl p))") auto

lemma split_item_drop: "p \<noteq> [] \<Longrightarrow> snd (split_item no_escape p) = drop (length p - length (snd (split_item no_escape p))) p"
  by (cases p rule: list_cases_4) (auto simp: split_item_def)

lemma bracket_item_split:
  assumes "p \<noteq> []"
  shows "bracket_item (pre @ p) no_escape (length pre) =
    (fst (fst (split_item no_escape p)), snd (fst (split_item no_escape p)), length p - length (snd (split_item no_escape p)))"
  using assms by (cases p rule: list_cases_4) (auto simp: bracket_item_def split_item_def nth_append Let_def)

lemma in_ranges_Cons: "in_ranges (r # rs) c \<longleftrightarrow> fst r \<le> c \<and> c \<le> snd r \<or> in_ranges rs c"
  by (cases r) (simp add: in_ranges_def)

lemma bracket_loop_step:
  assumes "p \<noteq> []" "\<not> (hd p = RBRACKET \<and> any)" "split_item no_escape p = (r, q)"
  shows "bracket_loop (pre @ p) c no_escape invert (length pre) matched any =
    bracket_loop (pre @ p) c no_escape invert (length pre + (length p - length q)) (matched \<or> fst r \<le> c \<and> c \<le> snd r) True"
proof -
  have at: "(pre @ p) ! length pre = hd p" using assms(1) by (simp add: nth_append hd_conv_nth)
  have item: "bracket_item (pre @ p) no_escape (length pre) = (fst r, snd r, length p - length q)"
    using bracket_item_split [OF assms(1)] assms(3) by simp
  have "(if fst r \<le> c \<and> c \<le> snd r then True else matched) = (matched \<or> fst r \<le> c \<and> c \<le> snd r)" by (cases matched) simp_all
  then show ?thesis
    using assms(1,2) by (subst bracket_loop.simps) (simp only: at item prod.case length_append length_greater_0_conv less_add_same_cancel1 simp_thms if_True if_False)
qed

lemma bracket_loop_ranges:
  "bracket_loop (pre @ p) c no_escape invert (length pre) matched any =
    map_option (\<lambda>(rs, rest). ((matched \<or> in_ranges rs c) \<noteq> invert, length pre + (length p - length rest))) (class_ranges no_escape any p)"
proof (induction no_escape any p arbitrary: pre matched rule: class_ranges.induct)
  case (1 no_escape any p)
  consider "p = []" | "p \<noteq> []" "hd p = RBRACKET \<and> any" | "p \<noteq> []" "\<not> (hd p = RBRACKET \<and> any)" by blast
  then show ?case
  proof cases
    case 1
    then show ?thesis by (subst bracket_loop.simps, subst class_ranges.simps) simp
  next
    case 2
    then show ?thesis
      by (subst bracket_loop.simps, subst class_ranges.simps) (cases p, auto simp: nth_append in_ranges_def)
  next
    case 3
    obtain r q where rq: "split_item no_escape p = (r, q)" by fastforce
    define k where "k = length p - length q"
    have q: "length q < length p" "q = drop k p" "k \<le> length p"
      using split_item_shorter [OF 3(1)] split_item_drop [OF 3(1)] rq by (simp_all add: k_def) (metis rq snd_conv)+
    have p: "pre @ p = (pre @ take k p) @ q" "length pre + k = length (pre @ take k p)" using q by simp_all
    have "bracket_loop (pre @ p) c no_escape invert (length pre) matched any =
        bracket_loop ((pre @ take k p) @ q) c no_escape invert (length (pre @ take k p)) (matched \<or> fst r \<le> c \<and> c \<le> snd r) True"
      using bracket_loop_step [OF 3 rq, of pre c invert matched] by (simp only: p(1) [symmetric] p(2) [symmetric] k_def [symmetric])
    also have "\<dots> = map_option (\<lambda>(rs, rest). ((matched \<or> in_ranges (r # rs) c) \<noteq> invert,
        length (pre @ take k p) + (length q - length rest))) (class_ranges no_escape True q)"
      using "1.IH" [OF 3, of "pre @ take k p"] rq by (simp add: in_ranges_Cons disj_assoc)
    also have "\<dots> = map_option (\<lambda>(rs, rest). ((matched \<or> in_ranges rs c) \<noteq> invert, length pre + (length p - length rest)))
        (class_ranges no_escape any p)"
    proof (cases "class_ranges no_escape True q")
      case None
      then show ?thesis using 3 rq by (subst (2) class_ranges.simps) simp
    next
      case (Some s)
      then obtain rs rest where s: "class_ranges no_escape True q = Some (rs, rest)" by (cases s) simp
      have "length (pre @ take k p) + (length q - length rest) = length pre + (length p - length rest)"
        using q(1) class_ranges_shorter [OF s] unfolding p(2) [symmetric] k_def by simp
      moreover have "class_ranges no_escape any p = Some (r # rs, rest)"
        using 3 rq s by (subst class_ranges.simps) auto
      ultimately show ?thesis by (simp only: s option.map prod.case)
    qed
    finally show ?thesis .
  qed
qed

lemma bracket_match_class:
  "bracket_match (pre @ b # p) (length pre) c no_escape =
    map_option (\<lambda>(invert, rs, rest). (in_ranges rs c \<noteq> invert, length pre + 1 + (length p - length rest))) (parse_class no_escape p)"
proof (cases "p = []")
  case True
  then show ?thesis by (simp add: bracket_match_def parse_class_def class_ranges.simps [of _ _ "[]"])
next
  case False
  define invert where "invert = (hd p = BANG \<or> hd p = CARET)"
  define q where "q = (if invert then tl p else p)"
  define first where "first = (q \<noteq> [] \<and> hd q = RBRACKET)"
  define u where "u = (if first then tl q else q)"
  define pre' where "pre' = pre @ b # (if invert then [hd p] else []) @ (if first then [hd q] else [])"
  have p: "pre @ b # p = pre' @ u" "length p = length pre' - length pre - 1 + length u" "length pre + 1 \<le> length pre'"
    using False by (cases p; cases "tl p"; auto simp: pre'_def u_def q_def first_def)+
  have at: "(pre @ b # p) ! (length pre + 1) = hd p" using False by (simp add: nth_append hd_conv_nth)
  have at2: "length pre + 1 + (if invert then 1 else 0) < length (pre @ b # p) \<Longrightarrow>
      (pre @ b # p) ! (length pre + 1 + (if invert then 1 else 0)) = hd q"
    using False by (cases p; cases "tl p") (auto simp: nth_append q_def)
  have first: "(length pre + 1 + (if invert then 1 else 0) < length (pre @ b # p) \<and>
      (pre @ b # p) ! (length pre + 1 + (if invert then 1 else 0)) = RBRACKET) = first"
    using at2 False by (cases p; cases "tl p") (auto simp: first_def q_def)
  have "bracket_match (pre @ b # p) (length pre) c no_escape =
      bracket_loop (pre' @ u) c no_escape invert (length pre') (first \<and> c = RBRACKET) first"
    using at first False p(1) by (auto simp: bracket_match_def Let_def invert_def pre'_def)
  also have "\<dots> = map_option (\<lambda>(rs, rest). (((first \<and> c = RBRACKET) \<or> in_ranges rs c) \<noteq> invert, length pre' + (length u - length rest)))
      (class_ranges no_escape first u)"
    by (rule bracket_loop_ranges)
  also have "\<dots> = map_option (\<lambda>(invert, rs, rest). (in_ranges rs c \<noteq> invert, length pre + 1 + (length p - length rest))) (parse_class no_escape p)"
    using False p(2,3) class_ranges_shorter [of no_escape first u]
    by (auto simp: parse_class_def Let_def invert_def [symmetric] q_def [symmetric] first_def [symmetric] u_def option.map_comp in_ranges_Cons
        intro!: option.map_cong)
  finally show ?thesis .
qed

text \<open>What follows a class is a suffix of the pattern.\<close>

lemma class_ranges_suffix: "class_ranges no_escape any p = Some (rs, rest) \<Longrightarrow> \<exists>pre. p = pre @ rest"
proof (induction no_escape any p arbitrary: rs rest rule: class_ranges.induct)
  case (1 no_escape any p)
  show ?case
  proof (cases "p = [] \<or> hd p = RBRACKET \<and> any")
    case True
    then have "p = [hd p] @ rest" using "1.prems" by (subst (asm) class_ranges.simps) (cases p, auto split: if_splits)
    then show ?thesis by (rule exI)
  next
    case False
    define q where "q = snd (split_item no_escape p)"
    have "q = drop (length p - length q) p"
      using False split_item_drop [of p no_escape] by (auto simp: q_def)
    then have q: "p = take (length p - length q) p @ q" by (metis append_take_drop_id)
    obtain rs' where rs': "class_ranges no_escape True q = Some (rs', rest)"
      using "1.prems" False by (subst (asm) class_ranges.simps) (auto simp: q_def)
    then obtain pre where "q = pre @ rest" using "1.IH" False by (auto simp: q_def)
    then show ?thesis using q by (metis append_assoc)
  qed
qed

lemma parse_class_suffix:
  assumes "parse_class no_escape p = Some (invert, rs, rest)"
  shows "\<exists>pre. p = pre @ rest"
proof -
  obtain q any rs' pre where "class_ranges no_escape any q = Some (rs', rest)" "p = pre @ q"
  proof (cases p)
    case Nil
    then show ?thesis using that [of _ p _ "[]"] assms by (auto simp: parse_class_def Let_def)
  next
    case p: (Cons b r)
    show ?thesis
    proof (cases "(b = BANG \<or> b = CARET) \<and> r \<noteq> []")
      case True
      then show ?thesis
        using that [of _ r _ "[b]"] that [of _ "tl r" _ "[b, hd r]"] assms p
        by (auto simp: parse_class_def Let_def split: if_splits)
    next
      case False
      then show ?thesis
        using that [of _ p _ "[]"] that [of _ r _ "[b]"] assms p
        by (auto simp: parse_class_def Let_def split: if_splits)
    qed
  qed
  then show ?thesis using class_ranges_suffix by (metis append_assoc)
qed

section \<open>Matching\<close>

lemma item_matches_Star: "item_matches (Star # is) xs \<longleftrightarrow> (\<exists>k \<le> length xs. item_matches is (drop k xs))"
proof (induction xs)
  case (Cons x xs)
  show ?case
  proof
    assume "item_matches (Star # is) (x # xs)"
    then consider "item_matches is (x # xs)" | "item_matches (Star # is) xs" by auto
    then show "\<exists>k \<le> length (x # xs). item_matches is (drop k (x # xs))"
    proof cases
      case 1
      then show ?thesis by (intro exI [of _ 0]) simp
    next
      case 2
      then obtain k where "k \<le> length xs" "item_matches is (drop k xs)" using Cons.IH by blast
      then show ?thesis by (intro exI [of _ "Suc k"]) simp
    qed
  next
    assume "\<exists>k \<le> length (x # xs). item_matches is (drop k (x # xs))"
    then obtain k where k: "k \<le> length (x # xs)" "item_matches is (drop k (x # xs))" by blast
    then show "item_matches (Star # is) (x # xs)" using Cons.IH by (cases k) auto
  qed
qed simp

lemma item_matches_Star_Star: "item_matches (Star # Star # is) xs \<longleftrightarrow> item_matches (Star # is) xs"
proof -
  have "(\<exists>k \<le> length xs. \<exists>l \<le> length (drop k xs). item_matches is (drop l (drop k xs))) \<longleftrightarrow>
      (\<exists>k \<le> length xs. item_matches is (drop k xs))" (is "?l \<longleftrightarrow> ?r")
  proof
    assume ?l
    then obtain k l where "k \<le> length xs" "l \<le> length xs - k" "item_matches is (drop (l + k) xs)" by auto
    then show ?r by (intro exI [of _ "l + k"]) simp
  next
    assume ?r
    then obtain k where "k \<le> length xs" "item_matches is (drop k xs)" by blast
    then show ?l by (intro exI [of _ k]) (auto intro: exI [of _ 0])
  qed
  then show ?thesis by (simp only: item_matches_Star)
qed

lemma item_matches_Star_Nil [simp]: "item_matches [Star] xs"
  by (induction xs) auto

text \<open>The stars at an index.\<close>

lemma skip_stars_eq: "skip_stars (pre @ p) (length pre) = length pre + length (takeWhile (\<lambda>c. c = STAR) p)"
proof (induction p arbitrary: pre)
  case Nil
  then show ?case by (subst skip_stars.simps) simp
next
  case (Cons c p)
  then show ?case using Cons.IH [of "pre @ [c]"] by (subst skip_stars.simps) (auto simp: nth_append)
qed

lemma parse_stars: "item_matches (parse_pattern no_escape (STAR # p)) xs \<longleftrightarrow>
    item_matches (Star # parse_pattern no_escape (dropWhile (\<lambda>c. c = STAR) p)) xs"
proof (induction p)
  case (Cons c p)
  have star: "parse_pattern no_escape (STAR # q) = Star # parse_pattern no_escape q" for q by simp
  show ?case
    using Cons.IH
    by (cases "c = STAR") (simp_all add: star item_matches_Star_Star del: item_matches.simps parse_pattern.simps)
qed simp

lemma parse_cases: "parse_pattern no_escape (c # p) = i # is \<Longrightarrow> i \<noteq> Star \<or> c = STAR"
  by (auto split: if_splits option.splits list.splits)

text \<open>One step on a byte of the name, away from a star.\<close>

lemma pattern_matches_from_one:
  assumes "pattern_index < length pattern" "candidate_index < length candidate" "pattern ! pattern_index \<noteq> STAR"
  shows "pattern_matches_from pattern pattern_index candidate candidate_index no_escape =
    (if pattern ! pattern_index = QUESTION then
       pattern_matches_from pattern (pattern_index + 1) candidate (candidate_index + 1) no_escape
     else if pattern ! pattern_index = LBRACKET then
       (case bracket_match pattern pattern_index (candidate ! candidate_index) no_escape of
          None \<Rightarrow>
            candidate ! candidate_index = LBRACKET \<and>
            pattern_matches_from pattern (pattern_index + 1) candidate (candidate_index + 1) no_escape
        | Some (matched, next_index) \<Rightarrow>
            matched \<and> pattern_matches_from pattern next_index candidate (candidate_index + 1) no_escape)
     else if pattern ! pattern_index = BACKSLASH \<and> \<not> no_escape then
       (if pattern_index + 1 \<ge> length pattern then
          candidate ! candidate_index = BACKSLASH \<and>
          pattern_matches_from pattern (pattern_index + 1) candidate (candidate_index + 1) no_escape
        else candidate ! candidate_index = pattern ! (pattern_index + 1) \<and>
          pattern_matches_from pattern (pattern_index + 2) candidate (candidate_index + 1) no_escape)
     else candidate ! candidate_index = pattern ! pattern_index \<and>
       pattern_matches_from pattern (pattern_index + 1) candidate (candidate_index + 1) no_escape)"
proof -
  have inside: "(candidate_index \<ge> length candidate) = False" using assms(2) by simp
  have if_not: "(if \<not> a then False else b) = (a \<and> b)" for a b by simp
  show ?thesis
    by (rule trans [OF pattern_matches_from.simps])
      (simp only: Let_def assms inside if_True if_False if_not cong: if_cong option.case_cong prod.case_cong)
qed

text \<open>
  The matcher at an index pair is the specification on what is left of the pattern and of the name.
\<close>

lemma pattern_matches_items:
  "candidate_index \<le> length candidate \<Longrightarrow>
   pattern_matches_from (pre @ p) (length pre) candidate candidate_index no_escape =
   item_matches (parse_pattern no_escape p) (drop candidate_index candidate)"
proof (induction "length p" arbitrary: pre p candidate_index rule: less_induct)
  case less
  show ?case
  proof (cases p)
    case Nil
    then show ?thesis using less.prems by (subst pattern_matches_from.simps) auto
  next
    case (Cons c q)
    have next_q: "pattern_matches_from (pre @ p) (length pre + 1) candidate (candidate_index + 1) no_escape =
        item_matches (parse_pattern no_escape q) (drop (candidate_index + 1) candidate)" if "candidate_index < length candidate"
      using less.hyps [of q "candidate_index + 1" "pre @ [c]"] that Cons by simp
    have at: "(pre @ p) ! length pre = c" "length pre < length (pre @ p)" using Cons by simp_all
    show ?thesis
    proof (cases "c = STAR")
      case True
      define r where "r = dropWhile (\<lambda>c. c = STAR) q"
      define stars where "stars = takeWhile (\<lambda>c. c = STAR) p"
      have split: "p = stars @ r" "length r < length p"
        using Cons True by (simp_all add: stars_def r_def le_imp_less_Suc length_dropWhile_le)
      have skip: "skip_stars (pre @ p) (length pre) = length (pre @ stars)" by (simp add: skip_stars_eq stars_def)
      have rest: "pattern_matches_from (pre @ p) (length (pre @ stars)) candidate k no_escape =
          item_matches (parse_pattern no_escape r) (drop k candidate)" if "k \<le> length candidate" for k
        using less.hyps [OF split(2) that, of "pre @ stars"] by (simp add: split(1) [symmetric])
      have "pattern_matches_from (pre @ p) (length pre) candidate candidate_index no_escape \<longleftrightarrow>
          length (pre @ stars) = length (pre @ p) \<or>
          (\<exists>k \<in> {candidate_index..length candidate}. item_matches (parse_pattern no_escape r) (drop k candidate))"
        using at True rest by (subst pattern_matches_from.simps) (auto simp: Let_def skip list_ex_iff less_Suc_eq_le simp del: upt_Suc)
      also have "\<dots> \<longleftrightarrow> item_matches (Star # parse_pattern no_escape r) (drop candidate_index candidate)"
      proof (cases "r = []")
        case True
        then have "length (pre @ stars) = length (pre @ p)" using split(1) by simp
        then show ?thesis using True by (simp del: item_matches.simps)
      next
        case False
        then have "length (pre @ stars) \<noteq> length (pre @ p)" using split(1) by simp
        moreover have "(\<exists>k \<in> {candidate_index..length candidate}. item_matches (parse_pattern no_escape r) (drop k candidate)) \<longleftrightarrow>
            (\<exists>k \<le> length (drop candidate_index candidate). item_matches (parse_pattern no_escape r) (drop k (drop candidate_index candidate)))"
        proof
          assume "\<exists>k \<in> {candidate_index..length candidate}. item_matches (parse_pattern no_escape r) (drop k candidate)"
          then obtain k where "candidate_index \<le> k" "k \<le> length candidate" "item_matches (parse_pattern no_escape r) (drop k candidate)" by auto
          then show "\<exists>k \<le> length (drop candidate_index candidate). item_matches (parse_pattern no_escape r) (drop k (drop candidate_index candidate))"
            by (intro exI [of _ "k - candidate_index"]) simp
        next
          assume "\<exists>k \<le> length (drop candidate_index candidate). item_matches (parse_pattern no_escape r) (drop k (drop candidate_index candidate))"
          then obtain k where "k \<le> length candidate - candidate_index" "item_matches (parse_pattern no_escape r) (drop (k + candidate_index) candidate)" by auto
          then show "\<exists>k \<in> {candidate_index..length candidate}. item_matches (parse_pattern no_escape r) (drop k candidate)"
            using less.prems by (intro bexI [of _ "k + candidate_index"]) auto
        qed
        ultimately show ?thesis by (simp only: item_matches_Star simp_thms)
      qed
      also have "\<dots> \<longleftrightarrow> item_matches (parse_pattern no_escape p) (drop candidate_index candidate)"
        unfolding Cons True r_def by (rule parse_stars [symmetric])
      finally show ?thesis .
    next
      case not_star: False
      show ?thesis
      proof (cases "candidate_index < length candidate")
        case False
        then have "drop candidate_index candidate = []" by simp
        then show ?thesis using False at not_star Cons
          by (subst pattern_matches_from.simps) (auto simp: Let_def split: option.splits list.splits)
      next
        case True
        define x where "x = candidate ! candidate_index"
        have x: "drop candidate_index candidate = x # drop (candidate_index + 1) candidate"
          using True by (simp add: x_def Cons_nth_drop_Suc)
        have step: "pattern_matches_from (pre @ p) (length pre) candidate candidate_index no_escape =
            (if c = QUESTION then item_matches (parse_pattern no_escape q) (drop (candidate_index + 1) candidate)
             else if c = LBRACKET then
               (case bracket_match (pre @ p) (length pre) x no_escape of
                  None \<Rightarrow> x = LBRACKET \<and> item_matches (parse_pattern no_escape q) (drop (candidate_index + 1) candidate)
                | Some (matched, next_index) \<Rightarrow>
                    matched \<and> pattern_matches_from (pre @ p) next_index candidate (candidate_index + 1) no_escape)
             else if c = BACKSLASH \<and> \<not> no_escape then
               (if q = [] then x = BACKSLASH \<and> item_matches (parse_pattern no_escape q) (drop (candidate_index + 1) candidate)
                else x = hd q \<and> pattern_matches_from (pre @ p) (length pre + 2) candidate (candidate_index + 1) no_escape)
             else x = c \<and> item_matches (parse_pattern no_escape q) (drop (candidate_index + 1) candidate))"
        proof -
          have second: "length pre + 1 \<ge> length (pre @ p) \<longleftrightarrow> q = []" "q \<noteq> [] \<Longrightarrow> (pre @ p) ! (length pre + 1) = hd q"
            using Cons by (simp_all add: nth_append hd_conv_nth)
          show ?thesis
            unfolding pattern_matches_from_one [OF at(2) True, unfolded at(1), OF not_star] next_q [OF True] second(1) x_def [symmetric]
            using second(2) by (auto intro!: if_cong option.case_cong)
        qed
        consider "c = QUESTION" | "c = LBRACKET" | "c = BACKSLASH \<and> \<not> no_escape" | "c \<noteq> QUESTION" "c \<noteq> LBRACKET" "\<not> (c = BACKSLASH \<and> \<not> no_escape)"
          by blast
        then show ?thesis
        proof cases
          case 1
          then show ?thesis unfolding step x by (simp add: Cons)
        next
          case 2
          show ?thesis
          proof (cases "parse_class no_escape q")
            case None
            then have "bracket_match (pre @ p) (length pre) x no_escape = None" by (simp add: Cons bracket_match_class)
            then show ?thesis using None 2 unfolding step x by (simp add: Cons)
          next
            case (Some s)
            then obtain invert rs rest where s: "parse_class no_escape q = Some (invert, rs, rest)" by (cases s) auto
            obtain mid where mid: "q = mid @ rest" using parse_class_suffix [OF s] by blast
            have "pattern_matches_from (pre @ p) (length pre + 1 + length mid) candidate (candidate_index + 1) no_escape =
                item_matches (parse_pattern no_escape rest) (drop (candidate_index + 1) candidate)"
              using less.hyps [of rest "candidate_index + 1" "pre @ c # mid"] True by (simp add: Cons mid)
            moreover have "bracket_match (pre @ p) (length pre) x no_escape = Some (in_ranges rs x \<noteq> invert, length pre + 1 + length mid)"
              by (simp add: Cons bracket_match_class s) (simp add: mid)
            ultimately show ?thesis using 2 unfolding step x by (simp add: Cons s)
          qed
        next
          case 3
          show ?thesis
          proof (cases q)
            case Nil
            then show ?thesis using 3 unfolding step x by (simp add: Cons)
          next
            case q: (Cons d r)
            have "pattern_matches_from (pre @ p) (length pre + 2) candidate (candidate_index + 1) no_escape =
                item_matches (parse_pattern no_escape r) (drop (candidate_index + 1) candidate)"
              using less.hyps [of r "candidate_index + 1" "pre @ [c, d]"] True by (simp add: Cons q)
            then show ?thesis using 3 unfolding step x by (simp add: Cons q)
          qed
        next
          case 4
          have escape: "(c = BACKSLASH \<and> \<not> no_escape) = False" using 4(3) by blast
          have "parse_pattern no_escape p = Lit c # parse_pattern no_escape q"
            using 4(1,2) not_star unfolding Cons parse_pattern.simps escape by simp
          then show ?thesis using 4(1,2) unfolding step x escape by simp
        qed
      qed
    qed
  qed
qed

text \<open>C27. Matching is a relation between the items of a pattern and the bytes of a name: the matcher, which works on
  indices into the pattern and reads a bracket expression again each time it meets it, accepts a name exactly when the items
  the pattern is compiled to once, independently of the name, do; and a star followed by a pattern accepts a name exactly
  when the pattern accepts one of its suffixes.\<close>

theorem matcher_is_pattern_language:
  "pattern_matches segment name flags = item_matches (parse_pattern (no_escape_of flags) segment) name \<and>
   pattern_matches (STAR # segment) name flags = (\<exists>k \<le> length name. pattern_matches segment (drop k name) flags)"
proof -
  have eq: "pattern_matches seg xs flags = item_matches (parse_pattern (no_escape_of flags) seg) xs" for seg xs
    using pattern_matches_items [of 0 xs "[]" seg "no_escape_of flags"] by (simp add: pattern_matches_def)
  have "parse_pattern (no_escape_of flags) (STAR # segment) = Star # parse_pattern (no_escape_of flags) segment" by simp
  then show ?thesis by (simp only: eq item_matches_Star simp_thms)
qed

end
