(* ===== verification/Little_Endian.thy ===== *)
theory Little_Endian
  imports Prelude
begin

text \<open>
  Integers in memory and in kernel records: the target is little-endian, so \<^verbatim>\<open>from_ne_bytes\<close>, \<^verbatim>\<open>to_ne_bytes\<close> and
  reads and writes of wider integers go by the bytes from the lowest on.
\<close>

primrec le_val :: "u8 list \<Rightarrow> nat" where
  "le_val [] = 0"
| "le_val (b # bs) = unat b + 256 * le_val bs"

primrec le_bytes :: "nat \<Rightarrow> nat \<Rightarrow> u8 list" where
  "le_bytes 0 v = []"
| "le_bytes (Suc n) v = word_of_nat v # le_bytes n (v div 256)"

lemma length_le_bytes [simp]: "length (le_bytes n v) = n"
  by (induction n arbitrary: v) simp_all

lemma le_val_le_bytes: "le_val (le_bytes n v) = v mod 256 ^ n"
  by (induction n arbitrary: v) (simp_all add: unat_of_nat mod_mult2_eq)

text \<open>Reading and writing a block of the memory, byte by byte.\<close>

primrec read_block :: "mem \<Rightarrow> addr \<Rightarrow> nat \<Rightarrow> u8 list option" where
  "read_block m p 0 = Some []"
| "read_block m p (Suc n) = do { b \<leftarrow> m p; bs \<leftarrow> read_block m (Suc p) n; Some (b # bs) }"

primrec write_block :: "mem \<Rightarrow> addr \<Rightarrow> u8 list \<Rightarrow> mem option" where
  "write_block m p [] = Some m"
| "write_block m p (b # bs) = do { m \<leftarrow> write_u8 m p b; write_block m (Suc p) bs }"

lemma read_block_bytes_at: "read_block m p n = Some bs \<longleftrightarrow> length bs = n \<and> bytes_at m p bs"
proof (induction n arbitrary: p bs)
  case (Suc n)
  have "read_block m p (Suc n) = Some bs \<longleftrightarrow> (\<exists>b bs'. bs = b # bs' \<and> m p = Some b \<and> read_block m (Suc p) n = Some bs')"
    by (auto simp: bind_eq_Some_conv)
  then show ?case by (cases bs) (auto simp: Suc.IH)
qed auto

lemma write_block_mapped: "mapped m p (length bs) \<Longrightarrow> write_block m p bs = Some (store_bytes m p bs)"
proof (induction bs arbitrary: m p)
  case (Cons b bs)
  obtain c where c: "m p = Some c" using mapped_less [OF Cons.prems, of 0] by auto
  have "mapped (m(p \<mapsto> b)) (Suc p) (length bs)"
    using Cons.prems by (force simp: mapped_def)
  then show ?case using c Cons.IH by (simp add: write_u8_mapped)
qed simp

definition read_u64 :: "mem \<Rightarrow> addr \<Rightarrow> 64 word option" where
  "read_u64 m p = map_option (\<lambda>bs. word_of_nat (le_val bs)) (read_block m p 8)"

definition read_u32 :: "mem \<Rightarrow> addr \<Rightarrow> 32 word option" where
  "read_u32 m p = map_option (\<lambda>bs. word_of_nat (le_val bs)) (read_block m p 4)"

text \<open>A word in memory.\<close>

definition u64_at :: "mem \<Rightarrow> addr \<Rightarrow> 64 word \<Rightarrow> bool" where
  "u64_at m p w \<longleftrightarrow> bytes_at m p (le_bytes 8 (unat w))"

lemma read_u64_at: "u64_at m p w \<Longrightarrow> read_u64 m p = Some w"
proof -
  assume "u64_at m p w"
  then have "read_block m p 8 = Some (le_bytes 8 (unat w))" by (simp add: read_block_bytes_at u64_at_def)
  moreover have "unat w < 256 ^ 8" using unsigned_less [of w] by simp
  ultimately show ?thesis by (simp only: read_u64_def option.map le_val_le_bytes mod_less of_nat_unat) simp
qed

end
