(* ===== verification/Dirent.thy ===== *)
theory Dirent
  imports Little_Endian
begin

text \<open>
  Directory streams of \<^verbatim>\<open>src/src/dirent/mod.rs\<close>: a stream owns a buffer that \<^verbatim>\<open>getdents64\<close> fills with packed
  records, and \<^verbatim>\<open>readdir\<close> unpacks them one at a time. The kernel is a parameter, a record of functions on
  its own state. The specification encodes directory entries as the kernel documents them, and says which replies a
  directory gives.
\<close>

section \<open>Constants and data\<close>

definition EIO :: c_int where "EIO = 5"
definition O_DIRECTORY :: c_int where "O_DIRECTORY = 0x10000"
definition O_CLOEXEC :: c_int where "O_CLOEXEC = 0x80000"
definition O_RDONLY :: c_int where "O_RDONLY = 0"
definition DIRENT_BUFFER_SIZE :: nat where "DIRENT_BUFFER_SIZE = 4096"
definition DIRENT_NAME_CAPACITY :: nat where "DIRENT_NAME_CAPACITY = 256"
definition LINUX_DIRENT64_FIXED_SIZE :: nat where "LINUX_DIRENT64_FIXED_SIZE = 19"

record Dirent =
  d_ino :: c_ulong
  d_off :: c_long
  d_reclen :: "16 word"
  d_type :: u8
  d_name :: "u8 list"

record DirStream =
  fd :: c_int
  cursor :: nat
  filled :: nat
  buffer :: "u8 list"
  entry :: Dirent

text \<open>
  The calls of the kernel: a raw result (negative: an error number) and the new kernel state; \<^verbatim>\<open>getdents64\<close> also says
  which bytes it stored at the start of the buffer.
\<close>

record 'k dir_kernel =
  sys_openat :: "u8 list \<Rightarrow> c_int \<Rightarrow> 'k \<Rightarrow> c_long \<times> 'k"
  sys_getdents64 :: "c_int \<Rightarrow> nat \<Rightarrow> 'k \<Rightarrow> c_long \<times> u8 list \<times> 'k"
  sys_close :: "c_int \<Rightarrow> 'k \<Rightarrow> c_long \<times> 'k"
  sys_rewind :: "c_int \<Rightarrow> 'k \<Rightarrow> c_long \<times> 'k"

text \<open>The calling thread's \<^verbatim>\<open>errno\<close> and the kernel.\<close>

record 'k world =
  w_errno :: c_int
  w_kernel :: 'k

definition write_errno :: "c_int \<Rightarrow> 'k world \<Rightarrow> 'k world" where
  "write_errno e w = w\<lparr>w_errno := e\<rparr>"

lemma write_errno_simps [simp]:
  "w_errno (write_errno e w) = e" "w_kernel (write_errno e w) = w_kernel w"
  "write_errno e (write_errno e' w) = write_errno e w"
  "write_errno e (w\<lparr>w_kernel := k\<rparr>) = w\<lparr>w_errno := e, w_kernel := k\<rparr>"
  "w_kernel_update f (write_errno e w) = write_errno e (w_kernel_update f w)"
  by (simp_all add: write_errno_def)

definition dirent_errno_from_raw :: "c_long \<Rightarrow> c_int" where
  "dirent_errno_from_raw raw = (case try_i32 (sint (- raw)) of Some e \<Rightarrow> e | None \<Rightarrow> 0x7FFFFFFF)"

section \<open>Reading the records\<close>

definition parse_u64 :: "u8 list \<Rightarrow> 64 word" where "parse_u64 bs = word_of_nat (le_val bs)"
definition parse_i64 :: "u8 list \<Rightarrow> 64 word" where "parse_i64 bs = word_of_nat (le_val bs)"
definition parse_u16 :: "u8 list \<Rightarrow> 16 word" where "parse_u16 bs = word_of_nat (le_val bs)"

text \<open>\<open>slice\<close> is \<^verbatim>\<open>&xs[from..to]\<close> inside the bounds.\<close>

definition slice :: "nat \<Rightarrow> nat \<Rightarrow> 'a list \<Rightarrow> 'a list" where
  "slice from to xs = take (to - from) (drop from xs)"

definition reset_entry_name :: "Dirent \<Rightarrow> Dirent" where
  "reset_entry_name e = e\<lparr>d_name := replicate (length (d_name e)) 0\<rparr>"

definition fill_user_entry :: "64 word \<Rightarrow> 64 word \<Rightarrow> 16 word \<Rightarrow> u8 \<Rightarrow> u8 list \<Rightarrow> DirStream \<Rightarrow> DirStream" where
  "fill_user_entry ino off reclen ty name_bytes stream =
     (let e = reset_entry_name ((entry stream)\<lparr>d_ino := ino, d_off := off, d_reclen := reclen, d_type := ty\<rparr>)
      in stream\<lparr>entry := e\<lparr>d_name := name_bytes @ drop (length name_bytes) (d_name e)\<rparr>\<rparr>)"

definition refill :: "'k dir_kernel \<Rightarrow> DirStream \<Rightarrow> 'k \<Rightarrow> (c_int + nat) \<times> DirStream \<times> 'k" where
  "refill K stream k =
     (case sys_getdents64 K (fd stream) DIRENT_BUFFER_SIZE k of (raw, stored, k) \<Rightarrow>
        let stream = stream\<lparr>buffer := stored @ drop (length stored) (buffer stream)\<rparr> in
        if sint raw < 0 then (Inl (dirent_errno_from_raw raw), stream, k)
        else (Inr (unat raw), stream\<lparr>cursor := 0, filled := unat raw\<rparr>, k))"

text \<open>
  The record at the cursor. \<open>None\<close> is the panic of a slice out of range: a kernel that claims to have filled more than the
  buffer. An entry, the end (\<open>Inr None\<close>) and an error are the results.
\<close>

definition take_record :: "DirStream \<Rightarrow> ((c_int + Dirent option) \<times> DirStream) option" where
  "take_record stream =
     (let available = filled stream - cursor stream in
      if available < LINUX_DIRENT64_FIXED_SIZE then Some (Inl EIO, stream)
      else if filled stream > length (buffer stream) then None
      else
        (let record_start = cursor stream;
             rec = slice record_start (filled stream) (buffer stream);
             record_len = unat (parse_u16 (slice 16 18 rec)) in
         if record_len < LINUX_DIRENT64_FIXED_SIZE \<or> record_len > available then Some (Inl EIO, stream)
         else
           (let rec = slice record_start (record_start + record_len) (buffer stream);
                ino = parse_u64 (slice 0 8 rec);
                off = parse_i64 (slice 8 16 rec);
                reclen = parse_u16 (slice 16 18 rec);
                ty = rec ! 18;
                raw_name_bytes = slice LINUX_DIRENT64_FIXED_SIZE record_len rec;
                raw_name_len = length (takeWhile (\<lambda>b. b \<noteq> 0) raw_name_bytes);
                copy_len = min raw_name_len (DIRENT_NAME_CAPACITY - 1);
                stream = fill_user_entry ino off reclen ty (take copy_len raw_name_bytes) stream;
                stream = stream\<lparr>cursor := cursor stream + record_len\<rparr>
            in Some (Inr (Some (entry stream)), stream))))"

definition next_entry :: "'k dir_kernel \<Rightarrow> DirStream \<Rightarrow> 'k \<Rightarrow> ((c_int + Dirent option) \<times> DirStream \<times> 'k) option" where
  "next_entry K stream k =
     (if cursor stream \<ge> filled stream then
        (case refill K stream k of (r, stream, k) \<Rightarrow>
           (case r of
              Inl e \<Rightarrow> Some (Inl e, stream, k)
            | Inr bytes_read \<Rightarrow>
                if bytes_read = 0 then Some (Inr None, stream, k)
                else map_option (\<lambda>(r, stream). (r, stream, k)) (take_record stream)))
      else map_option (\<lambda>(r, stream). (r, stream, k)) (take_record stream))"

section \<open>The C interface\<close>

text \<open>A path and a stream are \<open>None\<close> where the C caller passes a null pointer.\<close>

definition empty_entry :: Dirent where
  "empty_entry = \<lparr>d_ino = 0, d_off = 0, d_reclen = 0, d_type = 0, d_name = replicate DIRENT_NAME_CAPACITY 0\<rparr>"

definition opendir :: "'k dir_kernel \<Rightarrow> u8 list option \<Rightarrow> 'k world \<Rightarrow> (DirStream option \<times> 'k world) option" where
  "opendir K path w =
     (case path of
        None \<Rightarrow> Some (None, write_errno EFAULT w)
      | Some p \<Rightarrow>
          (case sys_openat K p (O_RDONLY OR O_DIRECTORY OR O_CLOEXEC) (w_kernel w) of (raw, k) \<Rightarrow>
             let w = w\<lparr>w_kernel := k\<rparr> in
             if sint raw < 0 then Some (None, write_errno (dirent_errno_from_raw raw) w)
             else do {
               f \<leftarrow> try_i32 (sint raw);
               Some (Some \<lparr>fd = f, cursor = 0, filled = 0, buffer = replicate DIRENT_BUFFER_SIZE 0, entry = empty_entry\<rparr>, w) }))"

definition readdir :: "'k dir_kernel \<Rightarrow> DirStream option \<Rightarrow> 'k world \<Rightarrow> (Dirent option \<times> DirStream option \<times> 'k world) option" where
  "readdir K dir w =
     (case dir of
        None \<Rightarrow> Some (None, None, write_errno EINVAL w)
      | Some stream \<Rightarrow> do {
          (r, stream, k) \<leftarrow> next_entry K stream (w_kernel w);
          let w = w\<lparr>w_kernel := k\<rparr>;
          case r of
            Inr e \<Rightarrow> Some (e, Some stream, w)
          | Inl e \<Rightarrow> Some (None, Some stream, write_errno e w) })"

definition closedir :: "'k dir_kernel \<Rightarrow> DirStream option \<Rightarrow> 'k world \<Rightarrow> c_int \<times> 'k world" where
  "closedir K dir w =
     (case dir of
        None \<Rightarrow> (- 1, write_errno EINVAL w)
      | Some stream \<Rightarrow>
          (case sys_close K (fd stream) (w_kernel w) of (raw, k) \<Rightarrow>
             let w = w\<lparr>w_kernel := k\<rparr> in
             if sint raw < 0 then (- 1, write_errno (dirent_errno_from_raw raw) w) else (0, w)))"

definition rewinddir :: "'k dir_kernel \<Rightarrow> DirStream option \<Rightarrow> 'k world \<Rightarrow> DirStream option \<times> 'k world" where
  "rewinddir K dir w =
     (case dir of
        None \<Rightarrow> (None, write_errno EINVAL w)
      | Some stream \<Rightarrow>
          (case sys_rewind K (fd stream) (w_kernel w) of (raw, k) \<Rightarrow>
             let w = w\<lparr>w_kernel := k\<rparr> in
             if sint raw < 0 then (Some stream, write_errno (dirent_errno_from_raw raw) w)
             else (Some (stream\<lparr>cursor := 0, filled := 0\<rparr>), w)))"

section \<open>Listing a directory\<close>

text \<open>
  \<^verbatim>\<open>read_directory_names\<close> of \<^verbatim>\<open>src/src/glob.rs\<close>. The loop ends when \<^verbatim>\<open>readdir\<close> returns null, which the
  code cannot bound: not ending is \<open>None\<close>.
\<close>

definition dirent_name_bytes :: "Dirent \<Rightarrow> u8 list" where
  "dirent_name_bytes e = takeWhile (\<lambda>b. b \<noteq> 0) (d_name e)"

partial_function (option) read_names_loop ::
  "'k dir_kernel \<Rightarrow> DirStream option \<Rightarrow> u8 list list \<Rightarrow> 'k world \<Rightarrow> ((c_int option \<times> u8 list list) \<times> DirStream option \<times> 'k world) option" where
  "read_names_loop K dir names w = do {
     (e, dir, w) \<leftarrow> readdir K dir (write_errno 0 w);
     case e of
       None \<Rightarrow> Some ((if w_errno w \<noteq> 0 then Some (w_errno w) else None, names), dir, w)
     | Some e \<Rightarrow> read_names_loop K dir (names @ [dirent_name_bytes e]) w }"

definition errno_or_eacces :: "c_int \<Rightarrow> c_int" where
  "errno_or_eacces e = (if e = 0 then EACCES else e)"

definition read_directory_names :: "'k dir_kernel \<Rightarrow> u8 list \<Rightarrow> 'k world \<Rightarrow> ((c_int + u8 list list) \<times> 'k world) option" where
  "read_directory_names K path w =
     (if 0 \<in> set path then Some (Inl EINVAL, w)
      else do {
        (dir, w) \<leftarrow> opendir K (Some path) w;
        case dir of
          None \<Rightarrow> Some (Inl (errno_or_eacces (w_errno w)), w)
        | Some _ \<Rightarrow> do {
            ((read_result, names), dir, w) \<leftarrow> read_names_loop K dir [] w;
            let (close_result, w) = closedir K dir w;
            let read_result = (if close_result \<noteq> 0 \<and> read_result = None then Some (errno_or_eacces (w_errno w)) else read_result);
            Some (case read_result of Some e \<Rightarrow> Inl e | None \<Rightarrow> Inr names, w) } })"

section \<open>What the kernel serves\<close>

text \<open>The record of an entry: the fixed part, the name, its NUL and padding.\<close>

record kernel_dirent =
  k_ino :: c_ulong
  k_off :: c_long
  k_type :: u8
  k_name :: "u8 list"
  k_pad :: "u8 list"

definition record_length :: "kernel_dirent \<Rightarrow> nat" where
  "record_length r = LINUX_DIRENT64_FIXED_SIZE + length (k_name r) + 1 + length (k_pad r)"

definition encode_dirent :: "kernel_dirent \<Rightarrow> u8 list" where
  "encode_dirent r = le_bytes 8 (unat (k_ino r)) @ le_bytes 8 (unat (k_off r)) @ le_bytes 2 (record_length r) @ [k_type r] @
     k_name r @ [0] @ k_pad r"

definition dirent_ok :: "kernel_dirent \<Rightarrow> bool" where
  "dirent_ok r \<longleftrightarrow> 0 \<notin> set (k_name r) \<and> record_length r \<le> DIRENT_BUFFER_SIZE"

abbreviation encode_batch :: "kernel_dirent list \<Rightarrow> u8 list" where
  "encode_batch rs \<equiv> concat (map encode_dirent rs)"

text \<open>
  The replies of \<^verbatim>\<open>getdents64\<close> from one kernel state to another: batches of records that fit the buffer, none
  empty, then the end of the directory (0) or an error.
\<close>

inductive serves :: "'k dir_kernel \<Rightarrow> c_int \<Rightarrow> 'k \<Rightarrow> kernel_dirent list list \<Rightarrow> c_long \<Rightarrow> 'k \<Rightarrow> bool" for K f where
  serves_end: "sys_getdents64 K f DIRENT_BUFFER_SIZE k = (raw, stored, k') \<Longrightarrow> sint raw \<le> 0 \<Longrightarrow>
    length stored \<le> DIRENT_BUFFER_SIZE \<Longrightarrow> serves K f k [] raw k'"
| serves_batch: "sys_getdents64 K f DIRENT_BUFFER_SIZE k = (word_of_nat (length (encode_batch b)), encode_batch b, k') \<Longrightarrow>
    b \<noteq> [] \<Longrightarrow> list_all dirent_ok b \<Longrightarrow> length (encode_batch b) \<le> DIRENT_BUFFER_SIZE \<Longrightarrow>
    serves K f k' bs raw k'' \<Longrightarrow> serves K f k (b # bs) raw k''"

text \<open>The entry a caller of \<^verbatim>\<open>readdir\<close> sees: names are cut to what the structure holds.\<close>

definition user_name :: "kernel_dirent \<Rightarrow> u8 list" where
  "user_name r = take (DIRENT_NAME_CAPACITY - 1) (k_name r)"

definition user_entry :: "kernel_dirent \<Rightarrow> Dirent" where
  "user_entry r = \<lparr>d_ino = k_ino r, d_off = k_off r, d_reclen = word_of_nat (record_length r), d_type = k_type r,
     d_name = user_name r @ replicate (DIRENT_NAME_CAPACITY - length (user_name r)) 0\<rparr>"

lemma length_encode_dirent [simp]: "length (encode_dirent r) = record_length r"
  by (simp add: encode_dirent_def record_length_def LINUX_DIRENT64_FIXED_SIZE_def)

lemma record_length_ge: "20 \<le> record_length r"
  by (simp add: record_length_def LINUX_DIRENT64_FIXED_SIZE_def)

lemma slice_append:
  "from = length xs \<Longrightarrow> to = from + length ys \<Longrightarrow> slice from to (xs @ ys @ zs) = ys"
  by (simp add: slice_def)

lemma encode_fields:
  "slice 0 8 (encode_dirent r @ rest) = le_bytes 8 (unat (k_ino r))"
  "slice 8 16 (encode_dirent r @ rest) = le_bytes 8 (unat (k_off r))"
  "slice 16 18 (encode_dirent r @ rest) = le_bytes 2 (record_length r)"
  "(encode_dirent r @ rest) ! 18 = k_type r"
  "slice LINUX_DIRENT64_FIXED_SIZE (record_length r) (encode_dirent r) = k_name r @ 0 # k_pad r"
  by (simp_all add: encode_dirent_def slice_def nth_append record_length_def LINUX_DIRENT64_FIXED_SIZE_def)

lemma parse_fields:
  "parse_u64 (le_bytes 8 (unat (w :: 64 word))) = w"
  "parse_i64 (le_bytes 8 (unat w)) = w"
  "n < 65536 \<Longrightarrow> unat (parse_u16 (le_bytes 2 n)) = n"
proof -
  have "unat w < 256 ^ 8" using unsigned_less [of w] by simp
  then show "parse_u64 (le_bytes 8 (unat w)) = w" "parse_i64 (le_bytes 8 (unat w)) = w"
    by (simp_all only: parse_u64_def parse_i64_def le_val_le_bytes mod_less of_nat_unat) simp_all
  assume n: "n < 65536"
  then have "n mod 256 ^ 2 = n" by simp
  then have "unat (parse_u16 (le_bytes 2 n)) = unat (word_of_nat n :: 16 word)" by (simp only: parse_u16_def le_val_le_bytes)
  then show "unat (parse_u16 (le_bytes 2 n)) = n" using n by (simp add: unat_of_nat)
qed


text \<open>The records a stream has yet to give.\<close>

definition stream_holds :: "DirStream \<Rightarrow> kernel_dirent list \<Rightarrow> bool" where
  "stream_holds stream rs \<longleftrightarrow> length (buffer stream) = DIRENT_BUFFER_SIZE \<and> length (d_name (entry stream)) = DIRENT_NAME_CAPACITY \<and>
     cursor stream + length (encode_batch rs) = filled stream \<and> filled stream \<le> DIRENT_BUFFER_SIZE \<and>
     slice (cursor stream) (filled stream) (buffer stream) = encode_batch rs"

lemma slice_prefix: "slice a b xs = ys @ zs \<Longrightarrow> length ys = k \<Longrightarrow> slice a (a + k) xs = ys"
proof -
  assume ys: "slice a b xs = ys @ zs" "length ys = k"
  then have "k \<le> b - a" unfolding slice_def by (metis length_append length_take le_add1 min.bounded_iff)
  then have "take k (slice a b xs) = slice a (a + k) xs" by (simp add: slice_def min_absorb1)
  then show "slice a (a + k) xs = ys" using ys by simp
qed

lemma slice_suffix: "slice a b xs = ys @ zs \<Longrightarrow> length ys = k \<Longrightarrow> slice (a + k) b xs = zs"
proof -
  assume ys: "slice a b xs = ys @ zs" "length ys = k"
  have "drop k (slice a b xs) = slice (a + k) b xs" by (simp add: slice_def drop_take add.commute)
  then show "slice (a + k) b xs = zs" using ys by simp
qed

lemma dirent_ok_length: "dirent_ok r \<Longrightarrow> record_length r < 65536"
  by (simp add: dirent_ok_def DIRENT_BUFFER_SIZE_def)

lemma takeWhile_name: "0 \<notin> set xs \<Longrightarrow> takeWhile (\<lambda>b. b \<noteq> 0) (xs @ 0 # ys) = (xs :: u8 list)"
  by (induction xs) auto

lemma take_record_holds:
  assumes "stream_holds stream (r # rs)" "dirent_ok r"
  shows "\<exists>stream'. take_record stream = Some (Inr (Some (user_entry r)), stream') \<and> stream_holds stream' rs \<and> fd stream' = fd stream"
proof -
  define n where "n = record_length r"
  have holds: "length (buffer stream) = DIRENT_BUFFER_SIZE" "length (d_name (entry stream)) = DIRENT_NAME_CAPACITY"
      "cursor stream + (n + length (encode_batch rs)) = filled stream" "filled stream \<le> DIRENT_BUFFER_SIZE"
      "slice (cursor stream) (filled stream) (buffer stream) = encode_dirent r @ encode_batch rs"
    using assms(1) by (simp_all add: stream_holds_def n_def)
  have n: "unat (parse_u16 (le_bytes 2 n)) = n" "\<not> n < LINUX_DIRENT64_FIXED_SIZE" "n \<le> filled stream - cursor stream"
      "\<not> filled stream - cursor stream < LINUX_DIRENT64_FIXED_SIZE"
    using parse_fields(3) [OF dirent_ok_length [OF assms(2)]] record_length_ge [of r] holds(3)
    by (simp_all add: n_def LINUX_DIRENT64_FIXED_SIZE_def)
  have rec: "slice (cursor stream) (cursor stream + n) (buffer stream) = encode_dirent r"
    by (rule slice_prefix [OF holds(5)]) (simp add: n_def)
  have rest: "slice (cursor stream + n) (filled stream) (buffer stream) = encode_batch rs"
    by (rule slice_suffix [OF holds(5)]) (simp add: n_def)
  have name: "takeWhile (\<lambda>b. b \<noteq> 0) (k_name r @ 0 # k_pad r) = k_name r"
    using assms(2) by (intro takeWhile_name) (simp add: dirent_ok_def)
  have name_copy: "take (min (length (k_name r)) (DIRENT_NAME_CAPACITY - Suc 0)) (k_name r) = user_name r"
    by (simp add: user_name_def min_def)
  define stream' where "stream' = (let s = fill_user_entry (k_ino r) (k_off r) (parse_u16 (le_bytes 2 n)) (k_type r) (user_name r) stream
      in s\<lparr>cursor := cursor s + n\<rparr>)"
  have rec18: "encode_dirent r ! 18 = k_type r" "slice 0 8 (encode_dirent r) = le_bytes 8 (unat (k_ino r))"
      "slice 8 16 (encode_dirent r) = le_bytes 8 (unat (k_off r))" "slice 16 18 (encode_dirent r) = le_bytes 2 n"
    using encode_fields(1-4) [of r "[]"] by (simp_all add: n_def)
  have step: "take_record stream = Some (Inr (Some (entry stream')), stream')"
    unfolding take_record_def Let_def
    using n holds(1,4) encode_fields(5) [of r]
    by (simp add: holds(5) encode_fields rec rec18 parse_fields n_def [symmetric] name name_copy stream'_def Let_def)
  have "parse_u16 (le_bytes 2 n) = word_of_nat n" using n(1) by (metis of_nat_unat ucast_id)
  then have e: "entry stream' = user_entry r"
    using holds(2) by (simp add: stream'_def fill_user_entry_def reset_entry_name_def user_entry_def Let_def n_def)
  have "length (d_name (user_entry r)) = DIRENT_NAME_CAPACITY"
    by (simp add: user_entry_def user_name_def DIRENT_NAME_CAPACITY_def)
  then have "stream_holds stream' rs" using holds(1,3,4) rest e
    by (simp add: stream_holds_def) (simp add: stream'_def fill_user_entry_def Let_def)
  moreover have "fd stream' = fd stream" by (simp add: stream'_def fill_user_entry_def Let_def)
  ultimately show ?thesis using step e by auto
qed


lemma dirent_errno_nonzero:
  assumes "sint raw < 0"
  shows "dirent_errno_from_raw raw \<noteq> 0"
proof
  assume z: "dirent_errno_from_raw raw = 0"
  have "\<exists>e. try_i32 (sint (- raw)) = Some e \<and> e = 0"
    using z by (cases "try_i32 (sint (- raw))") (simp_all add: dirent_errno_from_raw_def)
  then have "sint (- raw) = 0" by (auto simp: try_i32_Some)
  then have "raw = 0" by (metis neg_equal_0_iff_equal sint_eq_iff sint_0)
  then show False using assms by simp
qed

lemma user_name_of_entry: "dirent_ok r \<Longrightarrow> dirent_name_bytes (user_entry r) = user_name r"
proof -
  assume "dirent_ok r"
  then have "0 \<notin> set (user_name r)" by (auto simp: dirent_ok_def user_name_def dest: in_set_takeD)
  then have "takeWhile (\<lambda>b. b \<noteq> 0) (user_name r @ replicate n 0) = user_name r" for n
    using takeWhile_name [of "user_name r" "replicate (n - 1) 0"] by (cases n) (auto simp: takeWhile_eq_all_conv)
  then show ?thesis by (simp add: dirent_name_bytes_def user_entry_def)
qed

lemma readdir_holds:
  assumes "stream_holds stream (r # rs)" "dirent_ok r"
  shows "\<exists>stream'. readdir K (Some stream) w = Some (Some (user_entry r), Some stream', w) \<and> stream_holds stream' rs \<and>
    fd stream' = fd stream"
proof -
  have "\<not> cursor stream \<ge> filled stream"
    using assms(1) record_length_ge [of r] by (simp add: stream_holds_def)
  then show ?thesis using take_record_holds [OF assms] by (auto simp: readdir_def next_entry_def)
qed

text \<open>A stream with nothing left asks the kernel.\<close>

lemma readdir_refill:
  assumes "stream_holds stream []"
    and getdents: "sys_getdents64 K (fd stream) DIRENT_BUFFER_SIZE (w_kernel w) = (word_of_nat (length (encode_batch b)), encode_batch b, k')"
    and b: "b = r # rs" "list_all dirent_ok b" "length (encode_batch b) \<le> DIRENT_BUFFER_SIZE"
  shows "\<exists>stream'. readdir K (Some stream) w = Some (Some (user_entry r), Some stream', w\<lparr>w_kernel := k'\<rparr>) \<and>
    stream_holds stream' rs \<and> fd stream' = fd stream"
proof -
  let ?n = "length (encode_batch b)"
  have n: "?n \<le> 4096" "0 < ?n" using b(3) record_length_ge [of r] b(1) by (simp_all add: DIRENT_BUFFER_SIZE_def)
  then have unat_n: "unat (word_of_nat ?n :: c_long) = ?n" by (simp add: unat_of_nat)
  have sint_n: "\<not> sint (word_of_nat ?n :: c_long) < 0" using n by (simp add: signed_of_nat signed_take_bit_int_eq_self)
  define stream1 where "stream1 = stream\<lparr>buffer := encode_batch b @ drop ?n (buffer stream), cursor := 0, filled := ?n\<rparr>"
  have "stream_holds stream1 (r # rs)"
    using assms(1) b(1,3) by (simp add: stream_holds_def stream1_def slice_def)
  moreover have "dirent_ok r" using b(1,2) by simp
  ultimately obtain stream' where stream': "take_record stream1 = Some (Inr (Some (user_entry r)), stream')" "stream_holds stream' rs"
      "fd stream' = fd stream" using take_record_holds [of stream1 r rs] by (auto simp: stream1_def)
  have "cursor stream \<ge> filled stream" using assms(1) by (simp add: stream_holds_def)
  then have "next_entry K stream (w_kernel w) = Some (Inr (Some (user_entry r)), stream', k')"
    using stream'(1) n(2) by (simp add: next_entry_def refill_def getdents Let_def sint_n unat_n stream1_def [symmetric])
  then show ?thesis using stream'(2,3) by (auto simp: readdir_def)
qed

lemma readdir_end:
  assumes "stream_holds stream []" "serves K (fd stream) (w_kernel w) [] raw k'"
  shows "\<exists>stream'. readdir K (Some stream) w =
    Some (None, Some stream', if sint raw < 0 then write_errno (dirent_errno_from_raw raw) (w\<lparr>w_kernel := k'\<rparr>) else w\<lparr>w_kernel := k'\<rparr>) \<and>
    fd stream' = fd stream"
  using assms(2)
proof cases
  case (serves_end stored)
  have "cursor stream \<ge> filled stream" using assms(1) by (simp add: stream_holds_def)
  moreover have "\<not> sint raw < 0 \<Longrightarrow> raw = 0" using serves_end(2) by (metis antisym not_le_imp_less sint_0 sint_eq_iff)
  ultimately show ?thesis
    using serves_end(1) by (cases "sint raw < 0") (simp_all add: readdir_def next_entry_def refill_def Let_def)
qed


section \<open>A listing is what the directory holds\<close>

lemma read_names_drain:
  "stream_holds stream rs \<Longrightarrow> list_all dirent_ok rs \<Longrightarrow>
   \<exists>stream' w'. read_names_loop K (Some stream) names w = read_names_loop K (Some stream') (names @ map user_name rs) w' \<and>
     stream_holds stream' [] \<and> fd stream' = fd stream \<and> w_kernel w' = w_kernel w"
proof (induction rs arbitrary: stream names w)
  case (Cons r rs)
  then have r: "dirent_ok r" by simp
  obtain stream' where "readdir K (Some stream) (write_errno 0 w) = Some (Some (user_entry r), Some stream', write_errno 0 w)"
    "stream_holds stream' rs" "fd stream' = fd stream" using readdir_holds [OF Cons.prems(1) r] by blast
  then show ?case using Cons.IH [of stream' "names @ [user_name r]" "write_errno 0 w"] Cons.prems r
    by (subst read_names_loop.simps) (simp add: user_name_of_entry)
qed (auto intro!: exI)

lemma read_names_loop_holds:
  assumes "serves K f k bs raw k'"
  shows "stream_holds stream [] \<Longrightarrow> fd stream = f \<Longrightarrow> w_kernel w = k \<Longrightarrow>
    \<exists>stream'. read_names_loop K (Some stream) names w =
      Some ((if sint raw < 0 then Some (dirent_errno_from_raw raw) else None, names @ map user_name (concat bs)), Some stream',
        \<lparr>w_errno = if sint raw < 0 then dirent_errno_from_raw raw else 0, w_kernel = k'\<rparr>) \<and> fd stream' = f"
  using assms
proof (induction arbitrary: stream names w)
  case (serves_end k raw stored k')
  have world: "w\<lparr>w_kernel := k\<rparr> = \<lparr>w_errno = w_errno w, w_kernel = k\<rparr>" for w :: "'a world" and k by (cases w) simp
  have "serves K (fd stream) (w_kernel (write_errno 0 w)) [] raw k'"
    using serves_end by (auto intro: serves.serves_end)
  from readdir_end [OF serves_end.prems(1) this] obtain stream' where
    "readdir K (Some stream) (write_errno 0 w) = Some (None, Some stream',
      if sint raw < 0 then write_errno (dirent_errno_from_raw raw) (w\<lparr>w_kernel := k'\<rparr>) else write_errno 0 (w\<lparr>w_kernel := k'\<rparr>))"
    "fd stream' = f" using serves_end.prems by (auto simp: write_errno_def)
  then show ?case using dirent_errno_nonzero [of raw] by (subst read_names_loop.simps) (simp add: world write_errno_def)
next
  case (serves_batch k b k' bs raw k'')
  obtain r rs where b: "b = r # rs" using serves_batch.hyps(2) by (cases b) auto
  have "sys_getdents64 K (fd stream) DIRENT_BUFFER_SIZE (w_kernel (write_errno 0 w)) =
      (word_of_nat (length (encode_batch b)), encode_batch b, k')" using serves_batch by simp
  from readdir_refill [OF serves_batch.prems(1) this b serves_batch.hyps(3,4)] obtain stream1 where
    read: "readdir K (Some stream) (write_errno 0 w) = Some (Some (user_entry r), Some stream1, (write_errno 0 w)\<lparr>w_kernel := k'\<rparr>)"
      "stream_holds stream1 rs" "fd stream1 = f"
    using serves_batch.prems by auto
  have "\<exists>stream' w'. read_names_loop K (Some stream) names w = read_names_loop K (Some stream') (names @ map user_name b) w' \<and>
      stream_holds stream' [] \<and> fd stream' = f \<and> w_kernel w' = k'"
    using read_names_drain [OF read(2), of K "names @ [user_name r]" "(write_errno 0 w)\<lparr>w_kernel := k'\<rparr>"] b read
      serves_batch.hyps(3)
    by (subst read_names_loop.simps) (simp add: user_name_of_entry)
  then obtain stream' w' where loop: "read_names_loop K (Some stream) names w = read_names_loop K (Some stream') (names @ map user_name b) w'"
    and stream': "stream_holds stream' []" "fd stream' = f" "w_kernel w' = k'" by blast
  show ?case unfolding loop using serves_batch.IH [OF stream', of "names @ map user_name b"] by simp
qed

lemma directory_listing_result:
  assumes "0 \<notin> set path" "sys_openat K path (O_RDONLY OR O_DIRECTORY OR O_CLOEXEC) (w_kernel w) = (raw_fd, k)"
    and "sint raw_fd < 2 ^ 31" "0 \<le> sint raw_fd \<Longrightarrow> serves K (scast raw_fd) k batches raw k'"
    and "0 \<le> sint raw_fd \<Longrightarrow> sys_close K (scast raw_fd) k' = (raw_close, k'')"
  shows "map_option (\<lambda>(r, w). (r, w_kernel w)) (read_directory_names K path w) = Some
    (if sint raw_fd < 0 then (Inl (dirent_errno_from_raw raw_fd), k)
     else (if sint raw < 0 then Inl (dirent_errno_from_raw raw)
           else if sint raw_close < 0 then Inl (dirent_errno_from_raw raw_close)
           else Inr (map user_name (concat batches)), k''))"
proof (cases "sint raw_fd < 0")
  case True
  then show ?thesis using assms(1,2) dirent_errno_nonzero [OF True]
    by (simp add: read_directory_names_def opendir_def Let_def errno_or_eacces_def)
next
  case False
  then have fd: "try_i32 (sint raw_fd) = Some (scast raw_fd)" using assms(3) by (simp add: try_i32_def)
  define stream where "stream = \<lparr>fd = scast raw_fd, cursor = 0, filled = 0, buffer = replicate DIRENT_BUFFER_SIZE 0, entry = empty_entry\<rparr>"
  have "stream_holds stream []" by (simp add: stream_holds_def stream_def empty_entry_def slice_def)
  moreover have "serves K (scast raw_fd) (w_kernel (w\<lparr>w_kernel := k\<rparr>)) batches raw k'" using assms(4) False by simp
  ultimately obtain stream' where loop: "read_names_loop K (Some stream) [] (w\<lparr>w_kernel := k\<rparr>) =
      Some ((if sint raw < 0 then Some (dirent_errno_from_raw raw) else None, map user_name (concat batches)), Some stream',
        \<lparr>w_errno = if sint raw < 0 then dirent_errno_from_raw raw else 0, w_kernel = k'\<rparr>)" "fd stream' = scast raw_fd"
    using read_names_loop_holds [of K "scast raw_fd" k batches raw k' stream "w\<lparr>w_kernel := k\<rparr>" "[]"] by (auto simp: stream_def)
  have opened: "opendir K (Some path) w = Some (Some stream, w\<lparr>w_kernel := k\<rparr>)"
    using assms(2) False fd by (simp add: opendir_def stream_def)
  show ?thesis
    using assms(1,5) False loop dirent_errno_nonzero [of raw_close]
    by (simp add: read_directory_names_def opened closedir_def Let_def errno_or_eacces_def split: option.splits)
qed


text \<open>C28. The names \<^verbatim>\<open>glob\<close> reads from a directory are the names of the kernel's records, in order, each cut to the 255
  bytes that \<^verbatim>\<open>struct dirent\<close> holds, however the kernel packs the records into replies: whenever the directory
  opens and \<^verbatim>\<open>getdents64\<close> serves batches of well-formed records, the listing ends, and its result is the list of names, or the error
  that ended the batches, or else the error of closing; the descriptor is closed once in every case, after the last reply. A
  directory that does not open gives the error of opening.\<close>

theorem directory_listing:
  assumes "0 \<notin> set path" "sys_openat K path (O_RDONLY OR O_DIRECTORY OR O_CLOEXEC) (w_kernel w) = (raw_fd, k)"
    and "sint raw_fd < 2 ^ 31" "0 \<le> sint raw_fd \<Longrightarrow> serves K (scast raw_fd) k batches raw k'"
    and "0 \<le> sint raw_fd \<Longrightarrow> sys_close K (scast raw_fd) k' = (raw_close, k'')"
  shows "map_option (\<lambda>(r, w). (r, w_kernel w)) (read_directory_names K path w) = Some
    (if sint raw_fd < 0 then (Inl (dirent_errno_from_raw raw_fd), k)
     else (if sint raw < 0 then Inl (dirent_errno_from_raw raw)
           else if sint raw_close < 0 then Inl (dirent_errno_from_raw raw_close)
           else Inr (map user_name (concat batches)), k''))"
  using assms by (rule directory_listing_result)

text \<open>A kernel that opens every directory as descriptor 3 and replies from a script.\<close>

definition scripted_kernel :: "(c_long \<times> u8 list) list dir_kernel" where
  "scripted_kernel = \<lparr>sys_openat = \<lambda>_ _ k. (3, k),
     sys_getdents64 = \<lambda>_ _ k. (case k of [] \<Rightarrow> (0, [], []) | (raw, stored) # k \<Rightarrow> (raw, stored, k)),
     sys_close = \<lambda>_ k. (0, k), sys_rewind = \<lambda>_ k. (0, k)\<rparr>"

definition sample_batches :: "kernel_dirent list list" where
  "sample_batches = [[\<lparr>k_ino = 7, k_off = 1, k_type = 8, k_name = [97, 98], k_pad = [0, 0]\<rparr>,
     \<lparr>k_ino = 8, k_off = 2, k_type = 4, k_name = [99], k_pad = []\<rparr>], [\<lparr>k_ino = 9, k_off = 3, k_type = 8, k_name = [100], k_pad = [0]\<rparr>]]"

definition script_of :: "kernel_dirent list list \<Rightarrow> (c_long \<times> u8 list) list" where
  "script_of = map (\<lambda>b. (word_of_nat (length (encode_batch b)), encode_batch b))"

lemma scripted_serves:
  "list_all (\<lambda>b. b \<noteq> [] \<and> list_all dirent_ok b \<and> length (encode_batch b) \<le> DIRENT_BUFFER_SIZE) bs \<Longrightarrow>
   serves scripted_kernel f (script_of bs) bs 0 []"
proof (induction bs)
  case Nil
  show ?case by (rule serves.serves_end [where stored = "[]"]) (simp_all add: scripted_kernel_def script_of_def)
next
  case (Cons b bs)
  show ?case
    by (rule serves.serves_batch [where k' = "script_of bs"]) (use Cons in \<open>simp_all add: scripted_kernel_def script_of_def\<close>)
qed

lemma sample_serves: "serves scripted_kernel f (script_of sample_batches) sample_batches 0 []"
  by (rule scripted_serves)
    (simp add: sample_batches_def dirent_ok_def record_length_def LINUX_DIRENT64_FIXED_SIZE_def DIRENT_BUFFER_SIZE_def)

lemma directory_listing_witness:
  "map_option (\<lambda>(r, w). (r, w_kernel w)) (read_directory_names scripted_kernel [0x2E] \<lparr>w_errno = 0, w_kernel = script_of sample_batches\<rparr>) =
   Some (Inr [[97, 98], [99], [100]], [])"
proof -
  have "map_option (\<lambda>(r, w). (r, w_kernel w)) (read_directory_names scripted_kernel [0x2E] \<lparr>w_errno = 0, w_kernel = script_of sample_batches\<rparr>) =
    Some (if sint (3 :: c_long) < 0 then (Inl (dirent_errno_from_raw 3), script_of sample_batches)
      else (if sint (0 :: c_long) < 0 then Inl (dirent_errno_from_raw 0)
           else if sint (0 :: c_long) < 0 then Inl (dirent_errno_from_raw 0)
           else Inr (map user_name (concat sample_batches)), []))"
    by (rule directory_listing [where k' = "[]"]) (simp_all add: sample_serves, simp_all add: scripted_kernel_def)
  then show ?thesis by (simp add: sample_batches_def user_name_def DIRENT_NAME_CAPACITY_def)
qed

end
