(* ===== verification/Glob.thy ===== *)
theory Glob
  imports Glob_Match Dirent "HOL-Library.List_Lexorder"
begin

text \<open>
  Pathname expansion of \<^verbatim>\<open>src/src/glob.rs\<close>: the pattern is cut into segments at separators, candidates are extended
  segment by segment against the file system, and the paths found are stored in the caller's \<^verbatim>\<open>glob_t\<close>. The file system
  is a parameter: the kernel's directory calls of the theory \<open>Dirent\<close>, and the two queries that the
  standard library answers. The specification selects a path name by name.
\<close>

section \<open>Segments\<close>

definition join_result_path :: "u8 list \<Rightarrow> nat \<Rightarrow> u8 list \<Rightarrow> u8 list" where
  "join_result_path base separator_count name = base @ replicate separator_count SLASH @ name"

function segment_meta_from :: "u8 list \<Rightarrow> bool \<Rightarrow> nat \<Rightarrow> bool" where
  "segment_meta_from segment no_escape index =
     (if index < length segment then
        (let current = segment ! index in
         if current = BACKSLASH \<and> \<not> no_escape \<and> index + 1 < length segment then segment_meta_from segment no_escape (index + 2)
         else if current = STAR \<or> current = QUESTION then True
         else if current = LBRACKET \<and> bracket_match segment index DOT no_escape \<noteq> None then True
         else segment_meta_from segment no_escape (index + 1))
      else False)"
  by pat_completeness auto
termination by (relation "measure (\<lambda>(segment, no_escape, index). length segment - index)") auto

declare segment_meta_from.simps [simp del]

definition segment_has_pattern_meta :: "u8 list \<Rightarrow> c_int \<Rightarrow> bool" where
  "segment_has_pattern_meta segment flags = segment_meta_from segment (no_escape_of flags) 0"

definition should_match_hidden_name :: "u8 list \<Rightarrow> c_int \<Rightarrow> bool" where
  "should_match_hidden_name p flags =
     (if p \<noteq> [] \<and> p ! 0 = DOT then True
      else if p \<noteq> [] \<and> p ! 0 = LBRACKET \<and> \<not> (1 < length p \<and> (p ! 1 = BANG \<or> p ! 1 = CARET)) \<and>
        (case bracket_match p 0 DOT (no_escape_of flags) of Some (matches_dot, _) \<Rightarrow> matches_dot | None \<Rightarrow> False) then True
      else if no_escape_of flags then False
      else length p \<ge> 2 \<and> p ! 0 = BACKSLASH \<and> p ! 1 = DOT)"

fun unescape_bytes :: "u8 list \<Rightarrow> u8 list" where
  "unescape_bytes (b # c # rest) = (if b = BACKSLASH then c # unescape_bytes rest else b # unescape_bytes (c # rest))"
| "unescape_bytes bs = bs"

definition unescape_segment :: "u8 list \<Rightarrow> c_int \<Rightarrow> u8 list" where
  "unescape_segment p flags = (if no_escape_of flags then p else unescape_bytes p)"

fun normalize_escaped_separators :: "u8 list \<Rightarrow> u8 list" where
  "normalize_escaped_separators (b # c # rest) =
     (if b = BACKSLASH \<and> c = SLASH then SLASH # normalize_escaped_separators rest
      else b # normalize_escaped_separators (c # rest))"
| "normalize_escaped_separators bs = bs"

lemma segments_loop_decreases:
  "rest \<noteq> [] \<Longrightarrow> length (dropWhile (\<lambda>b. b = SLASH) (dropWhile (\<lambda>b. b \<noteq> SLASH) rest)) < length rest"
proof (cases rest)
  case (Cons b bs)
  have "length (dropWhile P (dropWhile Q bs)) \<le> length bs" for P Q :: "u8 \<Rightarrow> bool"
    by (meson length_dropWhile_le le_trans)
  moreover have "length (dropWhile P bs) \<le> length bs" for P :: "u8 \<Rightarrow> bool" by (rule length_dropWhile_le)
  ultimately show ?thesis using Cons by (auto simp: less_Suc_eq_le)
qed simp

text \<open>The segments, how many separators stand before each, and how many at the end.\<close>

function segments_loop :: "u8 list \<Rightarrow> u8 list list \<Rightarrow> nat list \<Rightarrow> nat \<Rightarrow> u8 list list \<times> nat list \<times> nat" where
  "segments_loop rest segments separators_before pending =
     (if rest = [] then (segments, separators_before, pending)
      else
        (let segment = takeWhile (\<lambda>b. b \<noteq> SLASH) rest;
             rest = dropWhile (\<lambda>b. b \<noteq> SLASH) rest;
             (segments, separators_before, pending) =
               (if segment \<noteq> [] then (segments @ [segment], separators_before @ [pending], 0) else (segments, separators_before, pending))
         in segments_loop (dropWhile (\<lambda>b. b = SLASH) rest) segments separators_before
              (pending + length (takeWhile (\<lambda>b. b = SLASH) rest))))"
  by pat_completeness auto

termination
  by (relation "measure (\<lambda>(rest, segments, separators_before, pending). length rest)") (use segments_loop_decreases in auto)

declare segments_loop.simps [simp del]

definition parse_segments_with_separators :: "u8 list \<Rightarrow> nat \<times> u8 list list \<times> nat list \<times> nat" where
  "parse_segments_with_separators pattern =
     (length (takeWhile (\<lambda>b. b = SLASH) pattern), segments_loop (dropWhile (\<lambda>b. b = SLASH) pattern) [] [] 0)"

fun leading_escaped :: "u8 list \<Rightarrow> bool \<Rightarrow> bool" where
  "leading_escaped (b # rest) found =
     (if b = SLASH then leading_escaped rest found
      else (case rest of
              c # rest' \<Rightarrow> if b = BACKSLASH \<and> c = SLASH then leading_escaped rest' True else found
            | [] \<Rightarrow> found))"
| "leading_escaped [] found = found"

definition leading_separators_include_escaped :: "u8 list \<Rightarrow> c_int \<Rightarrow> bool" where
  "leading_separators_include_escaped pattern flags = (if no_escape_of flags then False else leading_escaped pattern False)"

definition root_only_result_path :: "nat \<Rightarrow> bool \<Rightarrow> u8 list" where
  "root_only_result_path leading escaped =
     (let slash_count = (if leading \<ge> 3 \<or> (leading = 2 \<and> escaped) then 2 else 1) in replicate slash_count SLASH)"

section \<open>The fallback without a match\<close>

fun count_backslashes :: "u8 list \<Rightarrow> nat \<Rightarrow> nat" where
  "count_backslashes pattern (Suc i) = (if pattern ! i = BACKSLASH then Suc (count_backslashes pattern i) else 0)"
| "count_backslashes pattern 0 = 0"

definition separator_is_escaped :: "u8 list \<Rightarrow> nat \<Rightarrow> c_int \<Rightarrow> bool" where
  "separator_is_escaped pattern separator_index flags =
     (if no_escape_of flags \<or> separator_index = 0 \<or> pattern ! separator_index \<noteq> SLASH then False
      else count_backslashes pattern separator_index mod 2 = 1)"

fun fallback_end :: "u8 list \<Rightarrow> c_int \<Rightarrow> nat \<Rightarrow> nat" where
  "fallback_end pattern flags (Suc i) =
     (if pattern ! i = SLASH \<and> \<not> separator_is_escaped pattern i flags then fallback_end pattern flags i else Suc i)"
| "fallback_end pattern flags 0 = 0"

definition nocheck_fallback_pattern :: "u8 list \<Rightarrow> c_int \<Rightarrow> u8 list" where
  "nocheck_fallback_pattern pattern flags =
     (let e = fallback_end pattern flags (length pattern);
          normalized = (if e = 0 then pattern else take e pattern)
      in if take 2 normalized = [SLASH, SLASH] \<and> length normalized > 2 \<and> SLASH \<notin> set (drop 2 normalized)
         then tl normalized else normalized)"

section \<open>Collecting the matches\<close>

record CandidatePath =
  fs_path :: "u8 list"
  result_path :: "u8 list"

text \<open>\<^verbatim>\<open>Path::join\<close>: an absolute path replaces the base, otherwise one separator stands between the two.\<close>

definition path_join :: "u8 list \<Rightarrow> u8 list \<Rightarrow> u8 list" where
  "path_join base p =
     (if p \<noteq> [] \<and> hd p = SLASH then p
      else if base \<noteq> [] \<and> last base \<noteq> SLASH then base @ [SLASH] @ p
      else base @ p)"

text \<open>The file system: the directory calls, \<^verbatim>\<open>symlink_metadata().is_ok()\<close> and \<^verbatim>\<open>is_dir()\<close>; and the caller's error callback.\<close>

record 'k file_system =
  dir_calls :: "'k dir_kernel"
  literal_path_exists :: "u8 list \<Rightarrow> 'k \<Rightarrow> bool"
  path_is_dir :: "u8 list \<Rightarrow> 'k \<Rightarrow> bool"

type_synonym 'k errfunc = "(u8 list \<Rightarrow> c_int \<Rightarrow> 'k world \<Rightarrow> c_int \<times> 'k world) option"

definition callback_path :: "CandidatePath \<Rightarrow> u8 list" where
  "callback_path c = (if result_path c = [] then [DOT] else result_path c)"

definition process_directory_error :: "CandidatePath \<Rightarrow> c_int \<Rightarrow> c_int \<Rightarrow> 'k errfunc \<Rightarrow> 'k world \<Rightarrow> (c_int + unit) \<times> 'k world" where
  "process_directory_error c errno_value flags errfunc w =
     (let finish = (\<lambda>w. if flags AND GLOB_ERR \<noteq> 0 then (Inl GLOB_ABORTED, write_errno errno_value w) else (Inr (), w)) in
      case errfunc of
        None \<Rightarrow> finish w
      | Some callback \<Rightarrow>
          if 0 \<in> set (callback_path c) then (Inl GLOB_ABORTED, w)
          else
            (case callback (callback_path c) errno_value w of (callback_result, w) \<Rightarrow>
               if callback_result \<noteq> 0 then (Inl GLOB_ABORTED, write_errno errno_value w) else finish w))"

definition extend_candidate :: "CandidatePath \<Rightarrow> nat \<Rightarrow> u8 list \<Rightarrow> CandidatePath" where
  "extend_candidate c separator_count name =
     \<lparr>fs_path = path_join (fs_path c) name, result_path = join_result_path (result_path c) separator_count name\<rparr>"

text \<open>The body of the loop over the candidates: what one candidate adds for a segment.\<close>

definition candidate_step ::
  "'k file_system \<Rightarrow> c_int \<Rightarrow> 'k errfunc \<Rightarrow> u8 list \<Rightarrow> nat \<Rightarrow> CandidatePath \<Rightarrow> 'k world \<Rightarrow> ((c_int + CandidatePath list) \<times> 'k world) option" where
  "candidate_step F flags errfunc segment separator_count c w =
     (if segment_has_pattern_meta segment flags then do {
        (entries, w) \<leftarrow> read_directory_names (dir_calls F) (fs_path c) w;
        case entries of
          Inl errno_value \<Rightarrow>
            (case process_directory_error c errno_value flags errfunc w of
               (Inl code, w) \<Rightarrow> Some (Inl code, w)
             | (Inr _, w) \<Rightarrow> Some (Inr [], w))
        | Inr names \<Rightarrow>
            Some (Inr (map (extend_candidate c separator_count)
              (filter (\<lambda>name. \<not> (name \<noteq> [] \<and> hd name = DOT \<and> \<not> should_match_hidden_name segment flags) \<and>
                 pattern_matches segment name flags) names)), w) }
      else
        (let literal_segment = unescape_segment segment flags; next_path = path_join (fs_path c) literal_segment in
         if \<not> literal_path_exists F next_path (w_kernel w) then Some (Inr [], w)
         else Some (Inr [extend_candidate c separator_count literal_segment], w)))"

fun candidates_loop ::
  "(CandidatePath \<Rightarrow> 'k world \<Rightarrow> ((c_int + CandidatePath list) \<times> 'k world) option) \<Rightarrow> CandidatePath list \<Rightarrow> CandidatePath list \<Rightarrow> 'k world \<Rightarrow>
   ((c_int + CandidatePath list) \<times> 'k world) option" where
  "candidates_loop step [] next_candidates w = Some (Inr next_candidates, w)"
| "candidates_loop step (c # cs) next_candidates w = do {
     (r, w) \<leftarrow> step c w;
     case r of Inl code \<Rightarrow> Some (Inl code, w) | Inr new \<Rightarrow> candidates_loop step cs (next_candidates @ new) w }"

fun collect_segments ::
  "'k file_system \<Rightarrow> c_int \<Rightarrow> 'k errfunc \<Rightarrow> (u8 list \<times> nat) list \<Rightarrow> CandidatePath list \<Rightarrow> 'k world \<Rightarrow> ((c_int + CandidatePath list) \<times> 'k world) option" where
  "collect_segments F flags errfunc [] candidates w = Some (Inr candidates, w)"
| "collect_segments F flags errfunc ((segment, separator_count) # rest) candidates w = do {
     (r, w) \<leftarrow> candidates_loop (candidate_step F flags errfunc segment separator_count) candidates [] w;
     case r of
       Inl code \<Rightarrow> Some (Inl code, w)
     | Inr candidates \<Rightarrow> if candidates = [] then Some (Inr [], w) else collect_segments F flags errfunc rest candidates w }"

definition has_escaped_separator :: "u8 list \<Rightarrow> bool" where
  "has_escaped_separator pattern \<longleftrightarrow>
     list_ex (\<lambda>i. pattern ! i = BACKSLASH \<and> pattern ! (i + 1) = SLASH) [0..<length pattern - 1]"

definition collect_matches :: "'k file_system \<Rightarrow> u8 list \<Rightarrow> c_int \<Rightarrow> 'k errfunc \<Rightarrow> 'k world \<Rightarrow> ((c_int + u8 list list) \<times> 'k world) option" where
  "collect_matches F pattern flags errfunc w =
     (let leading_has_escaped_separator = leading_separators_include_escaped pattern flags;
          normalized_pattern =
            (if flags AND GLOB_NOESCAPE = 0 \<and> has_escaped_separator pattern then normalize_escaped_separators pattern else pattern);
          (leading_separators, segments, separators_before, trailing_separators) = parse_segments_with_separators normalized_pattern;
          is_absolute = (leading_separators > 0) in
      if is_absolute \<and> segments = [] then Some (Inr [root_only_result_path leading_separators leading_has_escaped_separator], w)
      else if segments = [] then Some (Inr [], w)
      else
        (let start =
           (if is_absolute
            then \<lparr>fs_path = [SLASH],
                  result_path = replicate (if leading_separators = 2 \<and> length segments = 1 then 1 else leading_separators) SLASH\<rparr>
            else \<lparr>fs_path = [DOT], result_path = []\<rparr>) in do {
         (r, w) \<leftarrow> collect_segments F flags errfunc (zip segments (0 # tl separators_before)) [start] w;
         Some (case r of
            Inl code \<Rightarrow> Inl code
          | Inr candidates \<Rightarrow>
              Inr (map result_path
                (if trailing_separators > 0
                 then map (\<lambda>c. c\<lparr>result_path := result_path c @ [SLASH]\<rparr>) (filter (\<lambda>c. path_is_dir F (fs_path c) (w_kernel w)) candidates)
                 else candidates)), w) }))"

section \<open>The caller's structure\<close>

text \<open>A vector of strings: \<open>None\<close> in the vector is a null pointer, \<open>None\<close> for the vector is a null \<open>gl_pathv\<close>.\<close>

record Glob =
  gl_pathc :: nat
  gl_pathv :: "u8 list option list option"
  gl_offs :: nat
  gl_flags :: c_int

text \<open>Reading outside a vector, and returning it with another length than it was allocated with, is undefined: \<open>None\<close>.\<close>

fun clone_loop :: "u8 list option list \<Rightarrow> nat \<Rightarrow> nat \<Rightarrow> u8 list list option" where
  "clone_loop v at 0 = Some []"
| "clone_loop v at (Suc n) =
     (if at \<ge> length v then None
      else (case v ! at of None \<Rightarrow> Some [] | Some bs \<Rightarrow> map_option (\<lambda>ps. bs # ps) (clone_loop v (at + 1) n)))"

definition clone_existing_paths :: "Glob \<Rightarrow> nat \<Rightarrow> u8 list list option" where
  "clone_existing_paths g offsets =
     (case gl_pathv g of
        None \<Rightarrow> Some []
      | Some v \<Rightarrow> if gl_pathc g = 0 then Some [] else clone_loop v offsets (gl_pathc g))"

text \<open>A vector whose size in bytes exceeds \<^verbatim>\<open>isize::MAX\<close> is a capacity overflow: the panic is \<open>None\<close>.\<close>

definition allocate_pathv :: "u8 list list \<Rightarrow> nat \<Rightarrow> (c_int + u8 list option list) option" where
  "allocate_pathv paths offsets =
     (let total_entries = offsets + length paths + 1 in
      if 8 * total_entries \<ge> 2 ^ 63 then None
      else if list_ex (\<lambda>p. 0 \<in> set p) paths then Some (Inl ENOMEM)
      else Some (Inr (replicate offsets None @ map Some paths @ [None])))"

definition free_pathv :: "u8 list option list option \<Rightarrow> nat \<Rightarrow> nat \<Rightarrow> unit option" where
  "free_pathv pathv path_count offsets =
     (case pathv of None \<Rightarrow> Some () | Some v \<Rightarrow> if length v = offsets + path_count + 1 then Some () else None)"

definition globfree :: "Glob option \<Rightarrow> Glob option option" where
  "globfree pglob =
     (case pglob of
        None \<Rightarrow> Some None
      | Some g \<Rightarrow> do {
          _ \<leftarrow> free_pathv (gl_pathv g) (gl_pathc g) (gl_offs g);
          Some (Some \<lparr>gl_pathc = 0, gl_pathv = None, gl_offs = 0, gl_flags = 0\<rparr>) })"

definition glob :: "'k file_system \<Rightarrow> u8 list option \<Rightarrow> c_int \<Rightarrow> 'k errfunc \<Rightarrow> Glob option \<Rightarrow> 'k world \<Rightarrow> (c_int \<times> Glob option \<times> 'k world) option" where
  "glob F pattern flags errfunc pglob w =
     (case (pattern, pglob) of
        (Some pattern_bytes, Some g) \<Rightarrow> do {
          (r, w) \<leftarrow> collect_matches F pattern_bytes flags errfunc w;
          case r of
            Inl code \<Rightarrow> Some (code, Some g, w)
          | Inr matched_paths \<Rightarrow>
              if matched_paths = [] \<and> flags AND GLOB_NOCHECK = 0 then Some (GLOB_NOMATCH, Some g, w)
              else do {
                let matched_paths = (if matched_paths = [] then [nocheck_fallback_pattern pattern_bytes flags] else matched_paths);
                let matched_paths = (if flags AND GLOB_NOSORT = 0 then sort matched_paths else matched_paths);
                let offsets = (if flags AND GLOB_APPEND \<noteq> 0 \<or> flags AND GLOB_DOOFFS \<noteq> 0 then gl_offs g else 0);
                existing \<leftarrow> (if flags AND GLOB_APPEND = 0 then Some [] else clone_existing_paths g offsets);
                let final_paths = existing @ matched_paths;
                allocated \<leftarrow> allocate_pathv final_paths offsets;
                case allocated of
                  Inl errno_value \<Rightarrow> Some (GLOB_NOSPACE, Some g, write_errno errno_value w)
                | Inr v \<Rightarrow> do {
                    _ \<leftarrow> (if gl_pathv g \<noteq> None then globfree (Some g) else Some None);
                    Some (0, Some \<lparr>gl_pathc = length final_paths, gl_pathv = Some v, gl_offs = offsets, gl_flags = flags\<rparr>, w) } } }
      | _ \<Rightarrow> Some (GLOB_ABORTED, pglob, write_errno EINVAL w))"


section \<open>Specification\<close>

text \<open>
  A directory of the file system lists names, and each segment selects some of them: what its pattern accepts, names that start
  with a dot only where the pattern asks for one. A segment without an operator selects the name it denotes, if that exists.
\<close>

definition step_names :: "'k file_system \<Rightarrow> (u8 list \<Rightarrow> c_int + u8 list list) \<Rightarrow> 'k \<Rightarrow> c_int \<Rightarrow> u8 list \<Rightarrow> u8 list \<Rightarrow> u8 list list" where
  "step_names F listing k flags segment path =
     (if segment_has_pattern_meta segment flags then
        (case listing path of
           Inl _ \<Rightarrow> []
         | Inr names \<Rightarrow>
             filter (\<lambda>name. item_matches (parse_pattern (no_escape_of flags) segment) name \<and>
               (take 1 name = [DOT] \<longrightarrow> should_match_hidden_name segment flags)) names)
      else if literal_path_exists F (path_join path (unescape_segment segment flags)) k
      then [unescape_segment segment flags] else [])"

text \<open>The sequences of names selected from a directory on.\<close>

primrec selected :: "'k file_system \<Rightarrow> (u8 list \<Rightarrow> c_int + u8 list list) \<Rightarrow> 'k \<Rightarrow> c_int \<Rightarrow> u8 list list \<Rightarrow> u8 list \<Rightarrow> u8 list list list" where
  "selected F listing k flags [] path = [[]]"
| "selected F listing k flags (segment # segments) path =
     concat (map (\<lambda>name. map (\<lambda>names. name # names) (selected F listing k flags segments (path_join path name)))
       (step_names F listing k flags segment path))"

text \<open>The text of names with separators before them, and a pattern or path with leading and trailing separators.\<close>

definition separated :: "nat list \<Rightarrow> u8 list list \<Rightarrow> u8 list" where
  "separated counts names = concat (map2 (\<lambda>n name. replicate n SLASH @ name) counts names)"

definition pattern_text :: "nat \<Rightarrow> u8 list list \<Rightarrow> nat list \<Rightarrow> nat \<Rightarrow> u8 list" where
  "pattern_text leading segments separators trailing =
     replicate leading SLASH @ separated (0 # separators) segments @ replicate trailing SLASH"

definition segments_ok :: "u8 list list \<Rightarrow> nat list \<Rightarrow> bool" where
  "segments_ok segments separators \<longleftrightarrow>
     segments \<noteq> [] \<and> list_all (\<lambda>s. s \<noteq> [] \<and> SLASH \<notin> set s) segments \<and>
     length segments = length separators + 1 \<and> list_all (\<lambda>n. n > 0) separators"

text \<open>A file system that does not change: what a directory lists, at every moment.\<close>

definition static_fs :: "'k file_system \<Rightarrow> (u8 list \<Rightarrow> c_int + u8 list list) \<Rightarrow> 'k \<Rightarrow> bool" where
  "static_fs F listing k \<longleftrightarrow>
     (\<forall>path w. w_kernel w = k \<longrightarrow>
        map_option (\<lambda>(r, w'). (r, w_kernel w')) (read_directory_names (dir_calls F) path w) = Some (listing path, k))"

section \<open>The code cuts a pattern into its segments\<close>

lemma takeWhile_slashes: "xs = [] \<or> hd xs \<noteq> SLASH \<Longrightarrow>
    takeWhile (\<lambda>b. b = SLASH) (replicate n SLASH @ xs) = replicate n SLASH \<and> dropWhile (\<lambda>b. b = SLASH) (replicate n SLASH @ xs) = xs"
  by (induction n) (cases xs; auto)+

lemma takeWhile_segment: "SLASH \<notin> set s \<Longrightarrow> xs = [] \<or> hd xs = SLASH \<Longrightarrow>
    takeWhile (\<lambda>b. b \<noteq> SLASH) (s @ xs) = s \<and> dropWhile (\<lambda>b. b \<noteq> SLASH) (s @ xs) = xs"
  by (induction s) (cases xs; auto)+

lemma segments_loop_text:
  "list_all (\<lambda>s. s \<noteq> [] \<and> SLASH \<notin> set s) (s # ss) \<Longrightarrow> length ss = length ns \<Longrightarrow> list_all (\<lambda>n. n > 0) ns \<Longrightarrow>
   segments_loop (s @ separated ns ss @ replicate t SLASH) segments befores pending =
   (segments @ s # ss, befores @ pending # ns, t)"
proof (induction ss arbitrary: s ns segments befores pending)
  case Nil
  have drop_s: "takeWhile (\<lambda>b. b \<noteq> SLASH) (s @ replicate t SLASH) = s" "dropWhile (\<lambda>b. b \<noteq> SLASH) (s @ replicate t SLASH) = replicate t SLASH"
    using takeWhile_segment [of s "replicate t SLASH"] Nil by (cases t; simp)+
  have slashes: "takeWhile (\<lambda>b. b = SLASH) (replicate t SLASH) = replicate t SLASH" "dropWhile (\<lambda>b. b = SLASH) (replicate t SLASH) = []"
    using takeWhile_slashes [of "[]" t] by simp_all
  have stop: "segments_loop [] x y z = (x, y, z)" for x y z by (subst segments_loop.simps) simp
  show ?case using Nil
    by (subst segments_loop.simps) (simp add: separated_def drop_s slashes stop Let_def)
next
  case (Cons s' ss)
  obtain n ns' where ns: "ns = n # ns'" "n > 0" "length ss = length ns'" "list_all (\<lambda>n. n > 0) ns'"
    using Cons.prems by (cases ns) auto
  define tail where "tail = s' @ separated ns' ss @ replicate t SLASH"
  have text_eq: "separated ns (s' # ss) @ replicate t SLASH = replicate n SLASH @ tail" by (simp add: separated_def ns tail_def)
  have "hd tail \<noteq> SLASH" using Cons.prems(1) by (cases s') (auto simp: tail_def)
  then have slashes: "takeWhile (\<lambda>b. b = SLASH) (replicate n SLASH @ tail) = replicate n SLASH" "dropWhile (\<lambda>b. b = SLASH) (replicate n SLASH @ tail) = tail"
    using takeWhile_slashes [of tail n] by blast+
  have s_ok: "SLASH \<notin> set s" "s \<noteq> []" using Cons.prems(1) by simp_all
  have starts: "hd (replicate n SLASH @ tail) = SLASH" using ns(2) by (cases n) simp_all
  have drop_s: "takeWhile (\<lambda>b. b \<noteq> SLASH) (s @ replicate n SLASH @ tail) = s" "dropWhile (\<lambda>b. b \<noteq> SLASH) (s @ replicate n SLASH @ tail) = replicate n SLASH @ tail"
    using takeWhile_segment [of s "replicate n SLASH @ tail"] s_ok starts by blast+
  have "segments_loop (s @ separated ns (s' # ss) @ replicate t SLASH) segments befores pending =
      segments_loop tail (segments @ [s]) (befores @ [pending]) n"
    unfolding text_eq using s_ok(2) by (subst segments_loop.simps) (simp add: drop_s slashes Let_def)
  also have "\<dots> = ((segments @ [s]) @ s' # ss, (befores @ [pending]) @ n # ns', t)"
    unfolding tail_def using Cons.prems(1) by (intro Cons.IH) (simp_all add: ns)
  finally show ?case by (simp add: ns)
qed

lemma parse_segments_text:
  assumes "segments_ok segments separators"
  shows "parse_segments_with_separators (pattern_text leading segments separators trailing) = (leading, segments, 0 # separators, trailing)"
proof -
  obtain s ss where ss: "segments = s # ss" using assms by (cases segments) (auto simp: segments_ok_def)
  have ok: "list_all (\<lambda>s. s \<noteq> [] \<and> SLASH \<notin> set s) (s # ss)" "length ss = length separators" "list_all (\<lambda>n. n > 0) separators"
    using assms ss by (auto simp: segments_ok_def)
  define rest where "rest = s @ separated separators ss @ replicate trailing SLASH"
  have eq: "pattern_text leading segments separators trailing = replicate leading SLASH @ rest"
    by (simp add: pattern_text_def separated_def ss rest_def)
  have "hd rest \<noteq> SLASH" using ok(1) by (cases s) (auto simp: rest_def)
  then show ?thesis
    using takeWhile_slashes [of rest leading] segments_loop_text [OF ok, of trailing "[]" "[]" 0]
    by (simp add: parse_segments_with_separators_def eq [unfolded ss] ss rest_def)
qed


section \<open>Level by level is path by path\<close>

lemma static_fs_step:
  assumes "static_fs F listing k" "flags AND GLOB_ERR = 0" "w_kernel w = k"
  shows "\<exists>w'. candidate_step F flags None segment n c w =
    Some (Inr (map (extend_candidate c n) (step_names F listing k flags segment (fs_path c))), w') \<and> w_kernel w' = k"
proof (cases "segment_has_pattern_meta segment flags")
  case True
  obtain w' where w': "read_directory_names (dir_calls F) (fs_path c) w = Some (listing (fs_path c), w')" "w_kernel w' = k"
    using assms(1,3) by (fastforce simp: static_fs_def)
  have matches: "pattern_matches segment name flags = item_matches (parse_pattern (no_escape_of flags) segment) name" for name
    using pattern_matches_items [of 0 name "[]" segment "no_escape_of flags"] by (simp add: pattern_matches_def)
  have dot: "(take (Suc 0) name = [DOT]) = (name \<noteq> [] \<and> hd name = DOT)" for name :: "u8 list" by (cases name) auto
  have pick: "filter (\<lambda>name. \<not> (name \<noteq> [] \<and> hd name = DOT \<and> \<not> should_match_hidden_name segment flags) \<and> pattern_matches segment name flags) names =
      filter (\<lambda>name. item_matches (parse_pattern (no_escape_of flags) segment) name \<and>
        (take 1 name = [DOT] \<longrightarrow> should_match_hidden_name segment flags)) names" for names
    by (rule filter_cong) (auto simp: matches dot)
  show ?thesis
  proof (cases "listing (fs_path c)")
    case (Inl e)
    then show ?thesis using True w' assms(2)
      by (simp add: candidate_step_def process_directory_error_def step_names_def Let_def)
  next
    case (Inr names)
    then show ?thesis using True w' by (simp only: candidate_step_def step_names_def pick if_True bind.bind_lunit prod.case sum.case) simp
  qed
next
  case False
  then show ?thesis using assms(3) by (auto simp: candidate_step_def step_names_def Let_def)
qed

lemma candidates_loop_all:
  assumes "\<And>c w. w_kernel w = k \<Longrightarrow> \<exists>w'. step c w = Some (Inr (f c), w') \<and> w_kernel w' = k" "w_kernel w = k"
  shows "\<exists>w'. candidates_loop step cs acc w = Some (Inr (acc @ concat (map f cs)), w') \<and> w_kernel w' = k"
  using assms(2)
proof (induction cs arbitrary: acc w)
  case (Cons c cs)
  obtain w' where w': "step c w = Some (Inr (f c), w')" "w_kernel w' = k" using assms(1) [OF Cons.prems] by blast
  then show ?case using Cons.IH [OF w'(2), of "acc @ f c"] by auto
qed simp

text \<open>The candidate that a sequence of names leads to.\<close>

definition follow :: "CandidatePath \<Rightarrow> nat list \<Rightarrow> u8 list list \<Rightarrow> CandidatePath" where
  "follow c counts names = \<lparr>fs_path = foldl path_join (fs_path c) names, result_path = result_path c @ separated counts names\<rparr>"

lemma follow_Nil [simp]: "follow c counts [] = c"
  by (simp add: follow_def separated_def)

lemma follow_Cons: "follow c (n # counts) (name # names) = follow (extend_candidate c n name) counts names"
  by (simp add: follow_def separated_def extend_candidate_def join_result_path_def)

lemma collect_segments_selected:
  assumes "static_fs F listing k" "flags AND GLOB_ERR = 0"
  shows "length segments = length counts \<Longrightarrow> w_kernel w = k \<Longrightarrow>
    \<exists>w'. collect_segments F flags None (zip segments counts) cs w =
      Some (Inr (concat (map (\<lambda>c. map (follow c counts) (selected F listing k flags segments (fs_path c))) cs)), w') \<and> w_kernel w' = k"
proof (induction segments arbitrary: counts cs w)
  case Nil
  have "concat (map (\<lambda>c. [c]) cs) = cs" for cs :: "CandidatePath list" by (induction cs) simp_all
  then show ?case using Nil by simp
next
  case (Cons segment segments)
  obtain n counts' where counts: "counts = n # counts'" "length segments = length counts'" using Cons.prems by (cases counts) auto
  define next_cs where "next_cs = concat (map (\<lambda>c. map (extend_candidate c n) (step_names F listing k flags segment (fs_path c))) cs)"
  obtain w1 where w1: "candidates_loop (candidate_step F flags None segment n) cs [] w = Some (Inr next_cs, w1)" "w_kernel w1 = k"
    using candidates_loop_all [where k = k and step = "candidate_step F flags None segment n" and
        f = "\<lambda>c. map (extend_candidate c n) (step_names F listing k flags segment (fs_path c))" and w = w and cs = cs and acc = "[]"]
      static_fs_step [OF assms] Cons.prems(2) by (auto simp: next_cs_def)
  have fs: "fs_path (extend_candidate c n name) = path_join (fs_path c) name" for c name by (simp add: extend_candidate_def)
  have result: "concat (map (\<lambda>c. map (follow c counts') (selected F listing k flags segments (fs_path c))) next_cs) =
      concat (map (\<lambda>c. map (follow c counts) (selected F listing k flags (segment # segments) (fs_path c))) cs)"
    unfolding next_cs_def counts
    by (induction cs) (simp_all add: map_concat comp_def follow_Cons fs del: follow_Nil)
  show ?case
  proof (cases "next_cs = []")
    case True
    then have "concat (map (\<lambda>c. map (follow c counts) (selected F listing k flags (segment # segments) (fs_path c))) cs) = []"
      unfolding result [symmetric] by simp
    then show ?thesis using w1 True counts by simp
  next
    case False
    then show ?thesis using Cons.IH [OF counts(2) w1(2), of next_cs] w1 unfolding result by (simp add: counts(1))
  qed
qed



text \<open>A file system with one directory: what \<^verbatim>\<open>.\<close> holds; no other directory opens.\<close>

definition sample_fs :: "(c_long \<times> u8 list) list file_system" where
  "sample_fs = \<lparr>dir_calls = scripted_kernel\<lparr>
       sys_openat := \<lambda>path _ k. if path = [DOT] then (3, script_of sample_batches) else (- 2, k)\<rparr>,
     literal_path_exists = \<lambda>path _. path = [DOT, SLASH, 97, 98], path_is_dir = \<lambda>path _. path = [DOT, SLASH, 99]\<rparr>"

definition sample_listing :: "u8 list \<Rightarrow> c_int + u8 list list" where
  "sample_listing path = (if 0 \<in> set path then Inl EINVAL else if path = [DOT] then Inr [[97, 98], [99], [100]] else Inl ENOENT)"

lemma sample_serves_fs: "serves (dir_calls sample_fs) f (script_of sample_batches) sample_batches 0 []"
proof -
  have "serves (scripted_kernel\<lparr>sys_openat := g\<rparr>) f k bs raw k'" if "serves scripted_kernel f k bs raw k'"
    for g k bs raw and k' :: "(c_long \<times> u8 list) list"
    using that by induction (auto intro: serves.intros)
  then show ?thesis using sample_serves by (simp add: sample_fs_def)
qed

lemma static_sample_fs: "static_fs sample_fs sample_listing []"
  unfolding static_fs_def
proof (intro allI impI)
  fix path :: "u8 list" and w :: "(c_long \<times> u8 list) list world"
  assume w: "w_kernel w = []"
  consider "0 \<in> set path" | "0 \<notin> set path" "path = [DOT]" | "0 \<notin> set path" "path \<noteq> [DOT]" by blast
  then show "map_option (\<lambda>(r, w'). (r, w_kernel w')) (read_directory_names (dir_calls sample_fs) path w) = Some (sample_listing path, [])"
  proof cases
    case 1
    then show ?thesis using w by (simp add: read_directory_names_def sample_listing_def)
  next
    case 2
    have "map_option (\<lambda>(r, w'). (r, w_kernel w')) (read_directory_names (dir_calls sample_fs) path w) = Some
      (if sint (3 :: c_long) < 0 then (Inl (dirent_errno_from_raw 3), script_of sample_batches)
       else (if sint (0 :: c_long) < 0 then Inl (dirent_errno_from_raw 0)
             else if sint (0 :: c_long) < 0 then Inl (dirent_errno_from_raw 0)
             else Inr (map user_name (concat sample_batches)), []))"
      by (rule directory_listing_result [where k' = "[]"]) (use 2 in \<open>simp_all add: sample_serves_fs\<close>, simp_all add: sample_fs_def scripted_kernel_def)
    then show ?thesis using 2 by (simp add: sample_batches_def user_name_def DIRENT_NAME_CAPACITY_def sample_listing_def)
  next
    case 3
    then have "sys_openat (dir_calls sample_fs) path f (w_kernel w) = (- 2, [])" for f using w by (simp add: sample_fs_def scripted_kernel_def)
    then show ?thesis using 3 w
      by (simp add: read_directory_names_def opendir_def Let_def sample_listing_def dirent_errno_from_raw_def try_i32_def ENOENT_def errno_or_eacces_def)
  qed
qed



section \<open>The structure the caller gets\<close>

text \<open>
  A structure as the library leaves it: no vector and no path, or a vector of as many null entries as \<^verbatim>\<open>gl_offs\<close> says, the paths
  (C strings, so without a NUL) and a null entry at the end.
\<close>

definition holds_paths :: "Glob \<Rightarrow> u8 list list \<Rightarrow> bool" where
  "holds_paths g paths \<longleftrightarrow> length paths = gl_pathc g \<and> list_all (\<lambda>p. 0 \<notin> set p) paths \<and>
     (case gl_pathv g of None \<Rightarrow> paths = [] | Some v \<Rightarrow> v = replicate (gl_offs g) None @ map Some paths @ [None])"

definition glob_wf :: "Glob \<Rightarrow> bool" where
  "glob_wf g \<longleftrightarrow> (\<exists>paths. holds_paths g paths)"

lemma clone_loop_paths: "clone_loop (pre @ map Some paths @ post) (length pre) (length paths) = Some paths"
proof (induction paths arbitrary: pre)
  case (Cons p paths)
  have "clone_loop ((pre @ [Some p]) @ map Some paths @ post) (length (pre @ [Some p])) (length paths) = Some paths" by (rule Cons.IH)
  then show ?case by (simp add: nth_append)
qed simp

lemma clone_holds_paths: "holds_paths g paths \<Longrightarrow> clone_existing_paths g (gl_offs g) = Some paths"
  using clone_loop_paths [of "replicate (gl_offs g) None" paths "[None]"]
  by (auto simp: holds_paths_def clone_existing_paths_def split: option.splits)

lemma globfree_holds_paths:
  "holds_paths g paths \<Longrightarrow> globfree (Some g) = Some (Some \<lparr>gl_pathc = 0, gl_pathv = None, gl_offs = 0, gl_flags = 0\<rparr>)"
  by (auto simp: holds_paths_def globfree_def free_pathv_def split: option.splits)

lemma allocate_pathv_cases:
  "8 * (offsets + length paths + 1) < 2 ^ 63 \<Longrightarrow> allocate_pathv paths offsets =
    Some (if list_all (\<lambda>p. 0 \<notin> set p) paths then Inr (replicate offsets None @ map Some paths @ [None]) else Inl ENOMEM)"
  by (auto simp: allocate_pathv_def Let_def list_all_iff list_ex_iff)

text \<open>The paths a call adds: the matches, or the pattern where none was found and the caller asked for it, sorted or not.\<close>

definition added_paths :: "u8 list \<Rightarrow> c_int \<Rightarrow> u8 list list \<Rightarrow> u8 list list" where
  "added_paths pattern flags matched =
     (let paths = (if matched = [] then [nocheck_fallback_pattern pattern flags] else matched)
      in if flags AND GLOB_NOSORT = 0 then sort paths else paths)"

text \<open>C30. The type of the structure is kept: a call of \<^verbatim>\<open>glob\<close> on a well-formed structure whose search ends leaves a well-formed structure and
  never reads, writes or frees outside the vectors it owns, whatever the flags. On success the structure holds the paths it held
  (with \<^verbatim>\<open>GLOB_APPEND\<close>) and then the new ones, behind \<^verbatim>\<open>gl_offs\<close> null entries; on every error (an aborted
  search, no match, a path that is not a C string) it holds what it held. \<^verbatim>\<open>globfree\<close> empties it.
  Without \<^verbatim>\<open>GLOB_APPEND\<close> the caller must not have changed \<^verbatim>\<open>gl_offs\<close> under a vector.\<close>

theorem glob_keeps_structure:
  assumes held: "holds_paths g old" and collected: "collect_matches F pattern flags errfunc w = Some (r, w')"
    and capacity: "\<And>matched. r = Inr matched \<Longrightarrow> 8 * (gl_offs g + length old + length matched + 2) < 2 ^ 63"
  shows "\<exists>code g' w''. glob F (Some pattern) flags errfunc (Some g) w = Some (code, Some g', w'') \<and> glob_wf g' \<and>
    globfree (Some g') = Some (Some \<lparr>gl_pathc = 0, gl_pathv = None, gl_offs = 0, gl_flags = 0\<rparr>) \<and>
    (case r of
       Inl e \<Rightarrow> code = e \<and> g' = g
     | Inr matched \<Rightarrow>
         if matched = [] \<and> flags AND GLOB_NOCHECK = 0 then code = GLOB_NOMATCH \<and> g' = g
         else if list_all (\<lambda>p. 0 \<notin> set p) (added_paths pattern flags matched)
         then code = 0 \<and> holds_paths g' ((if flags AND GLOB_APPEND \<noteq> 0 then old else []) @ added_paths pattern flags matched) \<and>
           gl_offs g' = (if flags AND GLOB_APPEND \<noteq> 0 \<or> flags AND GLOB_DOOFFS \<noteq> 0 then gl_offs g else 0)
         else code = GLOB_NOSPACE \<and> w_errno w'' = ENOMEM \<and> g' = g)"
proof -
  have wf: "glob_wf g" using held by (auto simp: glob_wf_def)
  have free: "globfree (Some g) = Some (Some \<lparr>gl_pathc = 0, gl_pathv = None, gl_offs = 0, gl_flags = 0\<rparr>)"
    by (rule globfree_holds_paths [OF held])
  show ?thesis
  proof (cases r)
    case (Inl e)
    then show ?thesis using collected wf free by (simp add: glob_def)
  next
    case (Inr matched)
    define offsets where "offsets = (if flags AND GLOB_APPEND \<noteq> 0 \<or> flags AND GLOB_DOOFFS \<noteq> 0 then gl_offs g else 0)"
    define new where "new = added_paths pattern flags matched"
    define kept where "kept = (if flags AND GLOB_APPEND \<noteq> 0 then old else [])"
    show ?thesis
    proof (cases "matched = [] \<and> flags AND GLOB_NOCHECK = 0")
      case True
      then show ?thesis using Inr collected wf free by (simp add: glob_def)
    next
      case False
      have existing: "(if flags AND GLOB_APPEND = 0 then Some [] else clone_existing_paths g offsets) = Some kept"
        using clone_holds_paths [OF held] by (simp add: offsets_def kept_def)
      have "length new \<le> length matched + 1" by (simp add: new_def added_paths_def Let_def)
      then have "8 * (offsets + length (kept @ new) + 1) < 2 ^ 63"
        using capacity [OF Inr] by (simp add: offsets_def kept_def split: if_splits)
      note allocated = allocate_pathv_cases [OF this]
      have kept_ok: "list_all (\<lambda>p. 0 \<notin> set p) kept" using held by (simp add: kept_def holds_paths_def)
      define g' where "g' = \<lparr>gl_pathc = length (kept @ new), gl_pathv = Some (replicate offsets None @ map Some (kept @ new) @ [None]),
        gl_offs = offsets, gl_flags = flags\<rparr>"
      have run: "glob F (Some pattern) flags errfunc (Some g) w =
          (if list_all (\<lambda>p. 0 \<notin> set p) new then Some (0, Some g', w') else Some (GLOB_NOSPACE, Some g, write_errno ENOMEM w'))"
      proof -
        have "(if list_all (\<lambda>p. 0 \<notin> set p) (kept @ new) then P else Q) = (if list_all (\<lambda>p. 0 \<notin> set p) new then P else Q)" for P Q :: 'z
          using kept_ok by simp
        note allocated' = allocated [unfolded this]
        have tail: "glob F (Some pattern) flags errfunc (Some g) w = do {
            existing \<leftarrow> (if flags AND GLOB_APPEND = 0 then Some [] else clone_existing_paths g offsets);
            allocated \<leftarrow> allocate_pathv (existing @ new) offsets;
            case allocated of
              Inl errno_value \<Rightarrow> Some (GLOB_NOSPACE, Some g, write_errno errno_value w')
            | Inr v \<Rightarrow> do {
                _ \<leftarrow> (if gl_pathv g \<noteq> None then globfree (Some g) else Some None);
                Some (0, Some \<lparr>gl_pathc = length (existing @ new), gl_pathv = Some v, gl_offs = offsets, gl_flags = flags\<rparr>, w') } }"
          by (simp only: glob_def option.case prod.case collected bind.bind_lunit Inr sum.case if_not_P [OF False] Let_def
              offsets_def new_def added_paths_def)
        show ?thesis
          unfolding tail existing bind.bind_lunit allocated' free by (simp add: g'_def split: if_split)
      qed
      show ?thesis
      proof (cases "list_all (\<lambda>p. 0 \<notin> set p) new")
        case True
        then have "holds_paths g' (kept @ new)" using kept_ok by (simp add: holds_paths_def g'_def)
        note holds = this
        have offs: "gl_offs g' = (if flags AND GLOB_APPEND \<noteq> 0 \<or> flags AND GLOB_DOOFFS \<noteq> 0 then gl_offs g else 0)"
          by (simp add: g'_def offsets_def)
        have "glob F (Some pattern) flags errfunc (Some g) w = Some (0, Some g', w')" using run True by simp
        moreover have "glob_wf g'" using holds by (auto simp: glob_wf_def)
        ultimately show ?thesis using globfree_holds_paths [OF holds] holds True offs
          unfolding Inr sum.case if_not_P [OF False] new_def [symmetric] kept_def [symmetric]
          by (intro exI [of _ 0] exI [of _ g'] exI [of _ w']) simp
      next
        case not_strings: False
        then show ?thesis using run False Inr wf free by (auto simp: new_def [symmetric])
      qed
    qed
  qed
qed


definition sample_glob :: Glob where
  "sample_glob = \<lparr>gl_pathc = 1, gl_pathv = Some [None, Some [97], None], gl_offs = 1, gl_flags = GLOB_DOOFFS\<rparr>"

lemma glob_keeps_structure_witness:
  "\<exists>g' w''. glob sample_fs (Some [SLASH]) GLOB_APPEND None (Some sample_glob) \<lparr>w_errno = 0, w_kernel = []\<rparr> = Some (0, Some g', w'') \<and>
     holds_paths g' [[97], [SLASH]]"
proof -
  have held: "holds_paths sample_glob [[97]]" by (simp add: holds_paths_def sample_glob_def)
  have no_escape: "parse_segments_with_separators [SLASH] = (1, [], [], 0)"
    by (subst parse_segments_with_separators_def, subst segments_loop.simps) simp
  have collected: "collect_matches sample_fs [SLASH] GLOB_APPEND None \<lparr>w_errno = 0, w_kernel = []\<rparr> =
      Some (Inr [[SLASH]], \<lparr>w_errno = 0, w_kernel = []\<rparr>)"
    by (simp add: collect_matches_def no_escape has_escaped_separator_def root_only_result_path_def Let_def)
  have capacity: "\<And>matched. Inr matched = (Inr [[SLASH]] :: c_int + u8 list list) \<Longrightarrow>
      8 * (gl_offs sample_glob + length [[97 :: u8]] + length matched + 2) < 2 ^ 63"
    by (simp add: sample_glob_def)
  have new: "added_paths [SLASH] GLOB_APPEND [[SLASH]] = [[SLASH]]"
    by (simp add: added_paths_def Let_def)
  have append: "GLOB_APPEND AND GLOB_APPEND \<noteq> 0" by (simp add: GLOB_APPEND_def)
  show ?thesis using glob_keeps_structure [OF held collected capacity] append by (auto simp: new)
qed

end
