(* ===== verification/Printf_Format.thy ===== *)
theory Printf_Format
  imports Little_Endian Sink
begin

text \<open>
  The parts of the formatter of \<^verbatim>\<open>src/src/stdio/mod.rs\<close>: directives and their parser, the cursor over a \<^verbatim>\<open>va_list\<close>,
  the bounded output, and the renderers of integers and pointers. A read or write outside
  the memory is \<open>None\<close>; the error \<^verbatim>\<open>Err(())\<close> of the source is an inner \<open>None\<close>.
\<close>

definition saturating_mul :: "nat \<Rightarrow> nat \<Rightarrow> nat" where
  "saturating_mul a b = min (a * b) USIZE_MAX"

section \<open>Directives\<close>

datatype CountSpec = Literal nat | FromArgs

datatype LengthModifier = Default | Hh | H | L | Ll | J | T | Z

definition ALTERNATE_FORM :: u8 where "ALTERNATE_FORM = 16"
definition FORCE_SIGN :: u8 where "FORCE_SIGN = 2"
definition LEADING_SPACE_FOR_POSITIVE :: u8 where "LEADING_SPACE_FOR_POSITIVE = 4"
definition LEFT_ALIGN :: u8 where "LEFT_ALIGN = 1"
definition ZERO_PAD :: u8 where "ZERO_PAD = 8"

record FormatDirective =
  d_flags :: u8
  d_width :: "CountSpec option"
  d_precision :: "CountSpec option"
  d_length :: LengthModifier
  d_conversion :: u8
  d_next_index :: nat

definition has_flag :: "FormatDirective \<Rightarrow> u8 \<Rightarrow> bool" where
  "has_flag d flag \<longleftrightarrow> d_flags d AND flag \<noteq> 0"

definition left_align :: "FormatDirective \<Rightarrow> bool" where "left_align d = has_flag d LEFT_ALIGN"
definition force_sign :: "FormatDirective \<Rightarrow> bool" where "force_sign d = has_flag d FORCE_SIGN"
definition leading_space_for_positive :: "FormatDirective \<Rightarrow> bool" where
  "leading_space_for_positive d = has_flag d LEADING_SPACE_FOR_POSITIVE"
definition zero_pad :: "FormatDirective \<Rightarrow> bool" where "zero_pad d = has_flag d ZERO_PAD"
definition alternate_form :: "FormatDirective \<Rightarrow> bool" where "alternate_form d = has_flag d ALTERNATE_FORM"

text \<open>\<^verbatim>\<open>bytes.get(index)\<close>.\<close>

definition get_byte :: "u8 list \<Rightarrow> nat \<Rightarrow> u8 option" where
  "get_byte bs index = (if index < length bs then Some (bs ! index) else None)"

definition is_ascii_digit :: "u8 \<Rightarrow> bool" where
  "is_ascii_digit b \<longleftrightarrow> ch CHR ''0'' \<le> b \<and> b \<le> ch CHR ''9''"

function parse_number_loop :: "u8 list \<Rightarrow> nat \<Rightarrow> nat \<Rightarrow> bool \<Rightarrow> (nat \<times> nat) option" where
  "parse_number_loop bs index v consumed =
     (if index < length bs \<and> is_ascii_digit (bs ! index)
      then parse_number_loop bs (index + 1)
             (saturating_add (saturating_mul v 10) (unat (bs ! index - ch CHR ''0''))) True
      else if consumed then Some (v, index) else None)"
  by pat_completeness auto
termination by (relation "measure (\<lambda>(bs, index, v, consumed). length bs - index)") auto

declare parse_number_loop.simps [simp del]

definition parse_number :: "u8 list \<Rightarrow> nat \<Rightarrow> (nat \<times> nat) option" where
  "parse_number bs index = parse_number_loop bs index 0 False"

definition parse_length_modifier :: "u8 list \<Rightarrow> nat \<Rightarrow> (LengthModifier \<times> nat) option" where
  "parse_length_modifier bs index =
     (case get_byte bs index of
        None \<Rightarrow> Some (Default, index)
      | Some b \<Rightarrow>
          if b = ch CHR ''h'' then
            (if get_byte bs (index + 1) = Some (ch CHR ''h'') then Some (Hh, index + 2) else Some (H, index + 1))
          else if b = ch CHR ''l'' then
            (if get_byte bs (index + 1) = Some (ch CHR ''l'') then Some (Ll, index + 2) else Some (L, index + 1))
          else if b = ch CHR ''j'' then Some (J, index + 1)
          else if b = ch CHR ''t'' then Some (T, index + 1)
          else if b = ch CHR ''z'' then Some (Z, index + 1)
          else if b = ch CHR ''L'' then None
          else Some (Default, index))"

definition is_integer_conversion :: "u8 \<Rightarrow> bool" where
  "is_integer_conversion c \<longleftrightarrow> c \<in> set (ascii ''diuxXo'')"

definition is_float_conversion :: "u8 \<Rightarrow> bool" where
  "is_float_conversion c \<longleftrightarrow> c \<in> set (ascii ''fFeEgGaA'')"

definition is_pointer_conversion :: "u8 \<Rightarrow> bool" where
  "is_pointer_conversion c \<longleftrightarrow> c = ch CHR ''p''"

definition is_count_conversion :: "u8 \<Rightarrow> bool" where
  "is_count_conversion c \<longleftrightarrow> c = ch CHR ''n''"

text \<open>The flag a byte stands for.\<close>

definition flag_of :: "u8 \<Rightarrow> u8 option" where
  "flag_of b =
     (if b = ch CHR ''-'' then Some LEFT_ALIGN
      else if b = ch CHR ''+'' then Some FORCE_SIGN
      else if b = ch CHR '' '' then Some LEADING_SPACE_FOR_POSITIVE
      else if b = ch CHR ''0'' then Some ZERO_PAD
      else if b = ch CHR ''#'' then Some ALTERNATE_FORM
      else None)"

function parse_flags :: "u8 list \<Rightarrow> nat \<Rightarrow> u8 \<Rightarrow> u8 \<times> nat" where
  "parse_flags bs index flags =
     (if index < length bs then
        (case flag_of (bs ! index) of Some f \<Rightarrow> parse_flags bs (index + 1) (flags OR f) | None \<Rightarrow> (flags, index))
      else (flags, index))"
  by pat_completeness auto
termination by (relation "measure (\<lambda>(bs, index, flags). length bs - index)") auto

declare parse_flags.simps [simp del]

text \<open>A width or precision: a star, a number, or neither (the outer \<open>None\<close> is the failure of the parser).\<close>

definition parse_count :: "u8 list \<Rightarrow> nat \<Rightarrow> (CountSpec option \<times> nat) option" where
  "parse_count bs index =
     (case get_byte bs index of
        None \<Rightarrow> Some (None, index)
      | Some b \<Rightarrow>
          if b = ch CHR ''*'' then Some (Some FromArgs, index + 1)
          else if is_ascii_digit b then do { (v, next_index) \<leftarrow> parse_number bs index; Some (Some (Literal v), next_index) }
          else Some (None, index))"

definition parse_precision :: "u8 list \<Rightarrow> nat \<Rightarrow> (CountSpec option \<times> nat) option" where
  "parse_precision bs index =
     (if get_byte bs index = Some (ch CHR ''.'') then do {
        (spec, index) \<leftarrow> parse_count bs (index + 1);
        Some (Some (case spec of None \<Rightarrow> Literal 0 | Some c \<Rightarrow> c), index) }
      else Some (None, index))"

text \<open>The combinations that are refused.\<close>

definition directive_refused :: "u8 \<Rightarrow> LengthModifier \<Rightarrow> u8 \<Rightarrow> bool" where
  "directive_refused flags len conversion =
     (let is_string_or_char = (conversion = ch CHR ''s'' \<or> conversion = ch CHR ''c'');
          is_float = is_float_conversion conversion;
          is_pointer = is_pointer_conversion conversion;
          is_count = is_count_conversion conversion in
      if \<not> is_string_or_char \<and> \<not> is_integer_conversion conversion \<and> \<not> is_float \<and> \<not> is_pointer \<and> \<not> is_count then True
      else if is_string_or_char then
        (len \<noteq> Default \<or> flags AND (FORCE_SIGN OR LEADING_SPACE_FOR_POSITIVE OR ZERO_PAD OR ALTERNATE_FORM) \<noteq> 0)
      else if is_pointer then len \<noteq> Default
      else if is_float then len \<noteq> Default \<and> len \<noteq> L
      else (\<not> is_count \<and> flags AND (FORCE_SIGN OR LEADING_SPACE_FOR_POSITIVE) \<noteq> 0 \<and>
            conversion \<noteq> ch CHR ''d'' \<and> conversion \<noteq> ch CHR ''i'') \<or>
           (\<not> is_count \<and> flags AND ALTERNATE_FORM \<noteq> 0 \<and>
            conversion \<noteq> ch CHR ''x'' \<and> conversion \<noteq> ch CHR ''X'' \<and> conversion \<noteq> ch CHR ''o''))"

definition parse_format_directive :: "u8 list \<Rightarrow> nat \<Rightarrow> FormatDirective option" where
  "parse_format_directive bs index = do {
     let (flags, index) = parse_flags bs index 0;
     (width, index) \<leftarrow> parse_count bs index;
     (precision, index) \<leftarrow> parse_precision bs index;
     (len, index) \<leftarrow> parse_length_modifier bs index;
     conversion \<leftarrow> get_byte bs index;
     if directive_refused flags len conversion then None
     else Some \<lparr>d_flags = flags, d_width = width, d_precision = precision, d_length = len, d_conversion = conversion,
                d_next_index = index + 1\<rparr> }"

section \<open>Arguments\<close>

record VarArgCursor =
  gp_offset :: u32
  fp_offset :: u32
  reg_save_area :: addr
  overflow_arg_area :: addr

text \<open>\<^verbatim>\<open>struct SysVVaList\<close> in memory: the two offsets, the overflow area, the register save area.\<close>

definition from_va_list :: "mem \<Rightarrow> addr \<Rightarrow> VarArgCursor option" where
  "from_va_list m ap =
     (if ap = null then Some \<lparr>gp_offset = 48, fp_offset = 176, reg_save_area = null, overflow_arg_area = null\<rparr>
      else do {
        gp \<leftarrow> read_u32 m ap;
        fp \<leftarrow> read_u32 m (ap + 4);
        overflow \<leftarrow> read_u64 m (ap + 8);
        reg \<leftarrow> read_u64 m (ap + 16);
        Some \<lparr>gp_offset = gp, fp_offset = fp, reg_save_area = unat reg, overflow_arg_area = unat overflow\<rparr> })"

definition next_u64 :: "mem \<Rightarrow> VarArgCursor \<Rightarrow> (c_ulong option \<times> VarArgCursor) option" where
  "next_u64 m c =
     (if gp_offset c < 48 \<and> reg_save_area c \<noteq> null then do {
        v \<leftarrow> read_u64 m (reg_save_area c + unat (gp_offset c));
        Some (Some v, c\<lparr>gp_offset := gp_offset c + 8\<rparr>) }
      else if overflow_arg_area c = null then Some (None, c)
      else do {
        v \<leftarrow> read_u64 m (overflow_arg_area c);
        Some (Some v, c\<lparr>overflow_arg_area := overflow_arg_area c + 8\<rparr>) })"

text \<open>The readers of narrower values take the low bits of the word.\<close>

definition map_arg :: "('a \<Rightarrow> 'b) \<Rightarrow> ('a option \<times> VarArgCursor) option \<Rightarrow> ('b option \<times> VarArgCursor) option" where
  "map_arg f = map_option (\<lambda>(v, c). (map_option f v, c))"

definition next_ptr :: "mem \<Rightarrow> VarArgCursor \<Rightarrow> (addr option \<times> VarArgCursor) option" where
  "next_ptr m c = map_arg unat (next_u64 m c)"

definition next_u32 :: "mem \<Rightarrow> VarArgCursor \<Rightarrow> (u32 option \<times> VarArgCursor) option" where
  "next_u32 m c = map_arg (\<lambda>raw. ucast (raw AND 0xFFFFFFFF)) (next_u64 m c)"

definition next_c_int :: "mem \<Rightarrow> VarArgCursor \<Rightarrow> (c_int option \<times> VarArgCursor) option" where
  "next_c_int m c = next_u32 m c"

text \<open>The width (with the alignment it may change) and the precision.\<close>

definition resolve_width ::
  "CountSpec option \<Rightarrow> mem \<Rightarrow> VarArgCursor \<Rightarrow> bool \<Rightarrow> ((nat \<times> bool) option \<times> VarArgCursor) option" where
  "resolve_width spec m c left =
     (case spec of
        None \<Rightarrow> Some (Some (0, left), c)
      | Some (Literal v) \<Rightarrow> Some (Some (v, left), c)
      | Some FromArgs \<Rightarrow>
          map_arg (\<lambda>v. if sint v < 0 then (nat (- sint v), True) else (nat (sint v), left)) (next_c_int m c))"

definition resolve_precision :: "CountSpec option \<Rightarrow> mem \<Rightarrow> VarArgCursor \<Rightarrow> (nat option option \<times> VarArgCursor) option" where
  "resolve_precision spec m c =
     (case spec of
        None \<Rightarrow> Some (Some None, c)
      | Some (Literal v) \<Rightarrow> Some (Some (Some v), c)
      | Some FromArgs \<Rightarrow> map_arg (\<lambda>v. if sint v < 0 then None else Some (nat (sint v))) (next_c_int m c))"

definition promoted_c_int_to_i8 :: "c_int \<Rightarrow> 8 word" where
  "promoted_c_int_to_i8 v = ucast (v AND 0xFF)"
definition promoted_c_int_to_i16 :: "c_int \<Rightarrow> 16 word" where
  "promoted_c_int_to_i16 v = ucast (v AND 0xFFFF)"
definition promoted_u32_to_u8 :: "u32 \<Rightarrow> 8 word" where
  "promoted_u32_to_u8 v = ucast (v AND 0xFF)"
definition promoted_u32_to_u16 :: "u32 \<Rightarrow> 16 word" where
  "promoted_u32_to_u16 v = ucast (v AND 0xFFFF)"

text \<open>\<^verbatim>\<open>i128\<close> and \<^verbatim>\<open>u128\<close> hold every 64-bit value, so they are integers and naturals here.\<close>

definition read_signed_argument :: "mem \<Rightarrow> VarArgCursor \<Rightarrow> LengthModifier \<Rightarrow> (int option \<times> VarArgCursor) option" where
  "read_signed_argument m c len =
     (case len of
        Default \<Rightarrow> map_arg sint (next_c_int m c)
      | Hh \<Rightarrow> map_arg (\<lambda>v. sint (promoted_c_int_to_i8 v)) (next_c_int m c)
      | H \<Rightarrow> map_arg (\<lambda>v. sint (promoted_c_int_to_i16 v)) (next_c_int m c)
      | _ \<Rightarrow> map_arg sint (next_u64 m c))"

definition read_unsigned_argument :: "mem \<Rightarrow> VarArgCursor \<Rightarrow> LengthModifier \<Rightarrow> (nat option \<times> VarArgCursor) option" where
  "read_unsigned_argument m c len =
     (case len of
        Default \<Rightarrow> map_arg unat (next_u32 m c)
      | Hh \<Rightarrow> map_arg (\<lambda>v. unat (promoted_u32_to_u8 v)) (next_u32 m c)
      | H \<Rightarrow> map_arg (\<lambda>v. unat (promoted_u32_to_u16 v)) (next_u32 m c)
      | _ \<Rightarrow> map_arg unat (next_u64 m c))"

section \<open>Bounded output\<close>

record OutputSink =
  buffer :: addr
  capacity :: nat
  bytes_written :: nat
  bytes_required :: nat

definition new_sink :: "addr \<Rightarrow> nat \<Rightarrow> OutputSink" where
  "new_sink s n = \<lparr>buffer = s, capacity = n, bytes_written = 0, bytes_required = 0\<rparr>"

type_synonym out = "OutputSink \<times> mem"

definition push_repeated :: "u8 \<Rightarrow> nat \<Rightarrow> out \<Rightarrow> out option" where
  "push_repeated b repeat = (\<lambda>(k, m).
     (let k = k\<lparr>bytes_required := saturating_add (bytes_required k) repeat\<rparr>; writable_limit = capacity k - 1 in
      if repeat = 0 \<or> capacity k = 0 \<or> buffer k = null then Some (k, m)
      else if bytes_written k \<ge> writable_limit then Some (k, m)
      else
        (let writable_len = min repeat (writable_limit - bytes_written k) in do {
           m \<leftarrow> write_block m (buffer k + bytes_written k) (replicate writable_len b);
           Some (k\<lparr>bytes_written := bytes_written k + writable_len\<rparr>, m) })))"

definition push_byte :: "u8 \<Rightarrow> out \<Rightarrow> out option" where
  "push_byte b = push_repeated b 1"

definition push_bytes :: "u8 list \<Rightarrow> out \<Rightarrow> out option" where
  "push_bytes bs = (\<lambda>(k, m).
     (let k = k\<lparr>bytes_required := saturating_add (bytes_required k) (length bs)\<rparr>; writable_limit = capacity k - 1 in
      if bs = [] \<or> capacity k = 0 \<or> buffer k = null then Some (k, m)
      else if bytes_written k \<ge> writable_limit then Some (k, m)
      else
        (let writable_len = min (length bs) (writable_limit - bytes_written k) in do {
           m \<leftarrow> write_block m (buffer k + bytes_written k) (take writable_len bs);
           Some (k\<lparr>bytes_written := bytes_written k + writable_len\<rparr>, m) })))"

definition terminate_sink :: "out \<Rightarrow> out option" where
  "terminate_sink = (\<lambda>(k, m).
     if capacity k = 0 \<or> buffer k = null then Some (k, m)
     else do { m \<leftarrow> write_u8 m (buffer k + min (bytes_written k) (capacity k - 1)) 0; Some (k, m) })"

section \<open>Rendering\<close>

definition digit_to_ascii :: "nat \<Rightarrow> bool \<Rightarrow> u8" where
  "digit_to_ascii v uppercase =
     (if v \<le> 9 then ch CHR ''0'' + word_of_nat v
      else if uppercase then ch CHR ''A'' + word_of_nat (v - 10)
      else ch CHR ''a'' + word_of_nat (v - 10))"

text \<open>The digits from the lowest on.\<close>

function reversed_digits :: "nat \<Rightarrow> nat \<Rightarrow> bool \<Rightarrow> u8 list" where
  "reversed_digits v radix uppercase =
     (if v = 0 \<or> radix < 2 then [] else digit_to_ascii (v mod radix) uppercase # reversed_digits (v div radix) radix uppercase)"
  by pat_completeness auto
termination by (relation "measure (\<lambda>(v, radix, uppercase). v)") auto

declare reversed_digits.simps [simp del]

definition unsigned_to_ascii :: "nat \<Rightarrow> nat \<Rightarrow> bool \<Rightarrow> u8 list" where
  "unsigned_to_ascii v base uppercase =
     (if v = 0 then [ch CHR ''0''] else rev (reversed_digits v base uppercase))"

text \<open>The last steps of both renderers: padding, sign, prefix, zeros and digits. The sum of the lengths wraps at 64 bits, as in a release build.\<close>

definition push_number :: "bool \<Rightarrow> bool \<Rightarrow> nat \<Rightarrow> u8 option \<Rightarrow> u8 list \<Rightarrow> nat \<Rightarrow> u8 list \<Rightarrow> out \<Rightarrow> out option" where
  "push_number left use_zero_pad width sign prefix precision_zeros digits out = do {
     let base_len = ((if sign = None then 0 else 1) + length prefix + precision_zeros + length digits) mod 2 ^ 64;
     out \<leftarrow> (if \<not> left \<and> \<not> use_zero_pad \<and> width > base_len then push_repeated (ch CHR '' '') (width - base_len) out else Some out);
     out \<leftarrow> (case sign of Some b \<Rightarrow> push_byte b out | None \<Rightarrow> Some out);
     out \<leftarrow> push_bytes prefix out;
     out \<leftarrow> (if \<not> left \<and> use_zero_pad \<and> width > base_len then push_repeated (ch CHR ''0'') (width - base_len) out else Some out);
     out \<leftarrow> push_repeated (ch CHR ''0'') precision_zeros out;
     out \<leftarrow> push_bytes digits out;
     if left \<and> width > base_len then push_repeated (ch CHR '' '') (width - base_len) out else Some out }"

text \<open>Base and case of a conversion; other conversions are unreachable.\<close>

definition integer_base :: "u8 \<Rightarrow> (nat \<times> bool) option" where
  "integer_base c =
     (if c = ch CHR ''d'' \<or> c = ch CHR ''i'' \<or> c = ch CHR ''u'' then Some (10, False)
      else if c = ch CHR ''x'' then Some (16, False)
      else if c = ch CHR ''X'' then Some (16, True)
      else if c = ch CHR ''o'' then Some (8, False)
      else None)"

definition render_formatted_integer :: "FormatDirective \<Rightarrow> bool \<Rightarrow> nat \<Rightarrow> nat option \<Rightarrow> nat \<Rightarrow> bool \<Rightarrow> out \<Rightarrow> out option" where
  "render_formatted_integer d left width precision v is_negative out = do {
     (base, uppercase) \<leftarrow> integer_base (d_conversion d);
     let c = d_conversion d;
     let is_signed_conversion = (c = ch CHR ''d'' \<or> c = ch CHR ''i'');
     let sign = (if is_negative then Some (ch CHR ''-'')
                 else if is_signed_conversion \<and> force_sign d then Some (ch CHR ''+'')
                 else if is_signed_conversion \<and> leading_space_for_positive d then Some (ch CHR '' '')
                 else None);
     let digits = (if precision = Some 0 \<and> v = 0 then [] else unsigned_to_ascii v base uppercase);
     let octal_alternate_with_explicit_precision = (c = ch CHR ''o'' \<and> alternate_form d \<and> v \<noteq> 0 \<and> precision \<noteq> None);
     let octal_alternate_prefix =
       (if c = ch CHR ''o'' \<and> alternate_form d \<and> ((v = 0 \<and> precision = Some 0) \<or> (v \<noteq> 0 \<and> precision = None)) then ascii ''0'' else []);
     let effective_precision =
       (if octal_alternate_with_explicit_precision
        then Some (max (case precision of Some p \<Rightarrow> p | None \<Rightarrow> 0) (saturating_add (length digits) 1)) else precision);
     let prefix =
       (if alternate_form d \<and> v \<noteq> 0 then
          (if c = ch CHR ''o'' then octal_alternate_prefix
           else if c = ch CHR ''x'' then ascii ''0x''
           else if c = ch CHR ''X'' then ascii ''0X''
           else [])
        else octal_alternate_prefix);
     let precision_zeros = (case effective_precision of None \<Rightarrow> 0 | Some target \<Rightarrow> target - length digits);
     let use_zero_pad = (zero_pad d \<and> \<not> left \<and> effective_precision = None);
     push_number left use_zero_pad width sign prefix precision_zeros digits out }"

definition render_formatted_pointer :: "bool \<Rightarrow> bool \<Rightarrow> nat \<Rightarrow> nat option \<Rightarrow> u8 option \<Rightarrow> addr \<Rightarrow> out \<Rightarrow> out option" where
  "render_formatted_pointer left zero width precision sign pointer_addr out = do {
     let digits = unsigned_to_ascii pointer_addr 16 False;
     let precision_zeros = (case precision of None \<Rightarrow> 0 | Some target \<Rightarrow> target - length digits);
     let use_zero_pad = (zero \<and> \<not> left \<and> precision = None);
     push_number left use_zero_pad width sign (ascii ''0x'') precision_zeros digits out }"

definition render_padding :: "nat \<Rightarrow> nat \<Rightarrow> bool \<Rightarrow> out \<Rightarrow> out option" where
  "render_padding width content_len left out =
     (if left \<or> width \<le> content_len then Some out else push_repeated (ch CHR '' '') (width - content_len) out)"

definition render_trailing_padding :: "nat \<Rightarrow> nat \<Rightarrow> bool \<Rightarrow> out \<Rightarrow> out option" where
  "render_trailing_padding width content_len left out =
     (if \<not> left \<or> width \<le> content_len then Some out else push_repeated (ch CHR '' '') (width - content_len) out)"

section \<open>Counts\<close>

text \<open>The value \<^verbatim>\<open>%n\<close> stores, by length: how many bytes, and which values fit.\<close>

definition count_bytes :: "LengthModifier \<Rightarrow> nat \<Rightarrow> u8 list option" where
  "count_bytes len count =
     (if count \<ge> 2 ^ 31 then None
      else (case len of
              Default \<Rightarrow> Some (le_bytes 4 count)
            | Hh \<Rightarrow> if count < 2 ^ 7 then Some (le_bytes 1 count) else None
            | H \<Rightarrow> if count < 2 ^ 15 then Some (le_bytes 2 count) else None
            | _ \<Rightarrow> Some (le_bytes 8 count)))"

definition write_count_conversion :: "LengthModifier \<Rightarrow> nat \<Rightarrow> mem \<Rightarrow> VarArgCursor \<Rightarrow> (unit option \<times> mem \<times> VarArgCursor) option" where
  "write_count_conversion len count m c =
     (if count \<ge> 2 ^ 31 then Some (None, m, c)
      else do {
        (pointer, c) \<leftarrow> next_ptr m c;
        case pointer of
          None \<Rightarrow> Some (None, m, c)
        | Some p \<Rightarrow>
            if p = null then Some (None, m, c)
            else (case count_bytes len count of
                    None \<Rightarrow> Some (None, m, c)
                  | Some bs \<Rightarrow> do { m \<leftarrow> write_block m p bs; Some (Some (), m, c) }) })"

end
