(* ===== verification/Printf.thy ===== *)
theory Printf
  imports Printf_Format
begin

text \<open>
  \<^verbatim>\<open>vsnprintf\<close> of \<^verbatim>\<open>src/src/stdio/mod.rs\<close>. The specification formats a list of argument values to a text, without a buffer, a
  \<^verbatim>\<open>va_list\<close> or the memory; the code is proved to store what fits of that text.
\<close>

section \<open>The code\<close>

partial_function (option) c_string_len_from :: "mem \<Rightarrow> addr \<Rightarrow> nat \<Rightarrow> nat option" where
  "c_string_len_from m cursor len = do {
     byte \<leftarrow> m cursor;
     if byte = 0 then Some len else c_string_len_from m (cursor + 1) (saturating_add len 1) }"

definition c_string_len :: "mem \<Rightarrow> addr \<Rightarrow> nat option" where
  "c_string_len m p = c_string_len_from m p 0"

partial_function (option) prefix_len_from :: "mem \<Rightarrow> addr \<Rightarrow> nat \<Rightarrow> nat \<Rightarrow> nat option" where
  "prefix_len_from m cursor max_len len =
     (if len < max_len then do {
        byte \<leftarrow> m cursor;
        if byte = 0 then Some len else prefix_len_from m (cursor + 1) max_len (saturating_add len 1) }
      else Some len)"

definition c_string_prefix_len :: "mem \<Rightarrow> addr \<Rightarrow> nat option \<Rightarrow> nat option" where
  "c_string_prefix_len m p precision = prefix_len_from m p (case precision of None \<Rightarrow> USIZE_MAX | Some n \<Rightarrow> n) 0"

text \<open>The bytes of \<^verbatim>\<open>%s\<close>: \<open>(null)\<close> for the null pointer, cut to the precision.\<close>

definition string_source :: "mem \<Rightarrow> addr \<Rightarrow> nat option \<Rightarrow> u8 list option" where
  "string_source m pointer precision =
     (if pointer = null then
        (let null_fallback = ascii ''(null)'' in
         Some (take (min (case precision of None \<Rightarrow> length null_fallback | Some n \<Rightarrow> n) (length null_fallback)) null_fallback))
      else do { n \<leftarrow> c_string_prefix_len m pointer precision; read_block m pointer n })"

definition pointer_sign :: "FormatDirective \<Rightarrow> u8 option" where
  "pointer_sign d =
     (if force_sign d then Some (ch CHR ''+'')
      else if leading_space_for_positive d then Some (ch CHR '' '')
      else None)"

text \<open>The conversion of a directive: whether it succeeded, the cursor and the output.\<close>

definition convert :: "FormatDirective \<Rightarrow> bool \<Rightarrow> nat \<Rightarrow> nat option \<Rightarrow> VarArgCursor \<Rightarrow> out \<Rightarrow> (bool \<times> VarArgCursor \<times> out) option" where
  "convert d left width precision c out =
     (let conversion = d_conversion d in
      if conversion = ch CHR ''s'' then do {
        (pointer, c) \<leftarrow> next_ptr (snd out) c;
        case pointer of
          None \<Rightarrow> Some (False, c, out)
        | Some p \<Rightarrow> do {
            source \<leftarrow> string_source (snd out) p precision;
            out \<leftarrow> render_padding width (length source) left out;
            out \<leftarrow> push_bytes source out;
            out \<leftarrow> render_trailing_padding width (length source) left out;
            Some (True, c, out) } }
      else if conversion = ch CHR ''c'' then
        (if precision \<noteq> None then Some (False, c, out)
         else do {
           (v, c) \<leftarrow> next_c_int (snd out) c;
           case v of
             None \<Rightarrow> Some (False, c, out)
           | Some v \<Rightarrow> do {
               out \<leftarrow> render_padding width 1 left out;
               out \<leftarrow> push_byte (ucast (v AND 0xFF)) out;
               out \<leftarrow> render_trailing_padding width 1 left out;
               Some (True, c, out) } })
      else if conversion = ch CHR ''p'' then do {
        (pointer, c) \<leftarrow> next_ptr (snd out) c;
        case pointer of
          None \<Rightarrow> Some (False, c, out)
        | Some p \<Rightarrow> do {
            out \<leftarrow> render_formatted_pointer left (zero_pad d) width precision (pointer_sign d) p out;
            Some (True, c, out) } }
      else if conversion = ch CHR ''n'' then do {
        (r, m, c) \<leftarrow> write_count_conversion (d_length d) (bytes_required (fst out)) (snd out) c;
        Some (r \<noteq> None, c, (fst out, m)) }
      else if conversion = ch CHR ''d'' \<or> conversion = ch CHR ''i'' then do {
        (v, c) \<leftarrow> read_signed_argument (snd out) c (d_length d);
        case v of
          None \<Rightarrow> Some (False, c, out)
        | Some v \<Rightarrow> do {
            out \<leftarrow> render_formatted_integer d left width precision (nat \<bar>v\<bar>) (v < 0) out;
            Some (True, c, out) } }
      else if conversion = ch CHR ''u'' \<or> conversion = ch CHR ''x'' \<or> conversion = ch CHR ''X'' \<or> conversion = ch CHR ''o'' then do {
        (v, c) \<leftarrow> read_unsigned_argument (snd out) c (d_length d);
        case v of
          None \<Rightarrow> Some (False, c, out)
        | Some v \<Rightarrow> do {
            out \<leftarrow> render_formatted_integer d left width precision v False out;
            Some (True, c, out) } }
      else Some (False, c, out))"

definition run_directive :: "FormatDirective \<Rightarrow> VarArgCursor \<Rightarrow> out \<Rightarrow> (bool \<times> VarArgCursor \<times> out) option" where
  "run_directive d c out = do {
     (width, c) \<leftarrow> resolve_width (d_width d) (snd out) c (left_align d);
     case width of
       None \<Rightarrow> Some (False, c, out)
     | Some (width, left) \<Rightarrow> do {
         (precision, c) \<leftarrow> resolve_precision (d_precision d) (snd out) c;
         case precision of
           None \<Rightarrow> Some (False, c, out)
         | Some precision \<Rightarrow> convert d left width precision c out } }"

text \<open>The parser goes forward.\<close>

lemma parse_flags_ge: "parse_flags bs index flags = (f, i) \<Longrightarrow> index \<le> i"
proof (induction bs index flags rule: parse_flags.induct)
  case (1 bs index flags)
  show ?case using "1.prems" "1.IH"
    by (subst (asm) parse_flags.simps) (fastforce split: if_splits option.splits)
qed

lemma parse_number_loop_ge: "parse_number_loop bs index v consumed = Some (n, i) \<Longrightarrow> index \<le> i"
proof (induction bs index v consumed rule: parse_number_loop.induct)
  case (1 bs index v consumed)
  show ?case using "1.prems" "1.IH"
    by (subst (asm) parse_number_loop.simps) (fastforce split: if_splits)
qed

lemma parse_count_ge: "parse_count bs index = Some (spec, i) \<Longrightarrow> index \<le> i"
  by (auto simp: parse_count_def parse_number_def bind_eq_Some_conv dest!: parse_number_loop_ge split: option.splits if_splits)

lemma parse_precision_ge: "parse_precision bs index = Some (spec, i) \<Longrightarrow> index \<le> i"
  by (auto simp: parse_precision_def bind_eq_Some_conv dest!: parse_count_ge split: if_splits)

lemma parse_length_modifier_ge: "parse_length_modifier bs index = Some (len, i) \<Longrightarrow> index \<le> i"
  by (auto simp: parse_length_modifier_def split: option.splits if_splits)

lemma parse_format_directive_next:
  assumes "parse_format_directive bs index = Some d"
  shows "index < d_next_index d \<and> d_next_index d \<le> length bs"
proof -
  obtain flags i1 where f: "parse_flags bs index 0 = (flags, i1)" by fastforce
  obtain width i2 precision i3 len i4 conversion where
    "parse_count bs i1 = Some (width, i2)" "parse_precision bs i2 = Some (precision, i3)"
    "parse_length_modifier bs i3 = Some (len, i4)" "get_byte bs i4 = Some conversion" "d_next_index d = i4 + 1"
    using assms f by (auto simp: parse_format_directive_def bind_eq_Some_conv split: if_splits)
  then show ?thesis
    using parse_flags_ge [OF f] parse_count_ge parse_precision_ge parse_length_modifier_ge
    by (fastforce simp: get_byte_def split: if_splits)
qed

text \<open>The loop: whether the format was printed to its end.\<close>

function format_loop :: "u8 list \<Rightarrow> nat \<Rightarrow> VarArgCursor \<Rightarrow> out \<Rightarrow> (bool \<times> VarArgCursor \<times> out) option" where
  "format_loop bs index c out =
     (if index < length bs then
        (if bs ! index \<noteq> ch CHR ''%'' then do { out \<leftarrow> push_byte (bs ! index) out; format_loop bs (index + 1) c out }
         else if index + 1 = length bs then Some (False, c, out)
         else if bs ! (index + 1) = ch CHR ''%'' then do { out \<leftarrow> push_byte (ch CHR ''%'') out; format_loop bs (index + 2) c out }
         else
           (case parse_format_directive bs (index + 1) of
              None \<Rightarrow> Some (False, c, out)
            | Some d \<Rightarrow> do {
                (ok, c, out) \<leftarrow> run_directive d c out;
                if ok then format_loop bs (d_next_index d) c out else Some (False, c, out) }))
      else Some (True, c, out))"
  by pat_completeness auto
termination
  by (relation "measure (\<lambda>(bs, index, c, out). length bs - index)")
    (auto dest!: parse_format_directive_next)

declare format_loop.simps [simp del]

definition required_len_to_c_int :: "nat \<Rightarrow> c_int" where
  "required_len_to_c_int n = (case try_i32 (int n) of Some v \<Rightarrow> v | None \<Rightarrow> 0x7FFFFFFF)"

definition fail_vsnprintf_with_einval :: "out \<Rightarrow> 'z machine_scheme \<Rightarrow> (c_int \<times> 'z machine_scheme) option" where
  "fail_vsnprintf_with_einval out st = do { out \<leftarrow> terminate_sink out; Some (- 1, set_errno EINVAL (st\<lparr>bytes := snd out\<rparr>)) }"

definition vsnprintf :: "addr \<Rightarrow> nat \<Rightarrow> addr \<Rightarrow> addr \<Rightarrow> 'z machine_scheme \<Rightarrow> (c_int \<times> 'z machine_scheme) option" where
  "vsnprintf s n format ap st =
     (if format = null \<or> (n \<noteq> 0 \<and> s = null) then Some (- 1, set_errno EINVAL st)
      else do {
        format_len \<leftarrow> c_string_len (bytes st) format;
        format_bytes \<leftarrow> read_block (bytes st) format format_len;
        c \<leftarrow> from_va_list (bytes st) ap;
        (ok, c, out) \<leftarrow> format_loop format_bytes 0 c (new_sink s n, bytes st);
        if ok then do {
          out \<leftarrow> terminate_sink out;
          Some (required_len_to_c_int (bytes_required (fst out)), st\<lparr>bytes := snd out\<rparr>) }
        else fail_vsnprintf_with_einval out st })"

end
