(* ===== verification/Printf_Spec.thy ===== *)
theory Printf_Spec
  imports Printf
begin

text \<open>
  What \<^verbatim>\<open>vsnprintf\<close> is to print. Arguments are values: a word, or a pointer with the string it points to.
  Numbers are laid out as the C standard words it: a minimal number of digits, a sign, a prefix, and padding.
\<close>

section \<open>Numbers\<close>

text \<open>The digits of a number without leading zeros: none for zero.\<close>

definition digits_text :: "nat \<Rightarrow> nat \<Rightarrow> bool \<Rightarrow> u8 list" where
  "digits_text v base uppercase = rev (reversed_digits v base uppercase)"

definition zero_extended :: "nat \<Rightarrow> u8 list \<Rightarrow> u8 list" where
  "zero_extended k ds = pad_left (ch CHR ''0'') k ds"

definition layout :: "bool \<Rightarrow> bool \<Rightarrow> nat \<Rightarrow> u8 list \<Rightarrow> u8 list \<Rightarrow> u8 list" where
  "layout left zeros width lead body =
     (let n = width - length (lead @ body) in
      if left then lead @ body @ replicate n (ch CHR '' '')
      else if zeros then lead @ replicate n (ch CHR ''0'') @ body
      else replicate n (ch CHR '' '') @ lead @ body)"

definition sign_text :: "u8 option \<Rightarrow> u8 list" where
  "sign_text sign = (case sign of None \<Rightarrow> [] | Some b \<Rightarrow> [b])"

text \<open>
  An integer: at least as many digits as the precision (default 1); with \<^verbatim>\<open>#\<close>, an octal number starts with a zero and a hexadecimal
  number other than zero with its prefix; a sign for signed conversions; zeros fill the width only without a precision.
\<close>

definition integer_text :: "FormatDirective \<Rightarrow> bool \<Rightarrow> nat \<Rightarrow> nat option \<Rightarrow> int \<Rightarrow> u8 list" where
  "integer_text d left width precision v =
     (let c = d_conversion d; mag = nat \<bar>v\<bar>;
          base = (if c \<in> {ch CHR ''x'', ch CHR ''X''} then 16 else if c = ch CHR ''o'' then 8 else 10);
          digits = zero_extended (case precision of None \<Rightarrow> 1 | Some k \<Rightarrow> k) (digits_text mag base (c = ch CHR ''X''));
          digits = (if c = ch CHR ''o'' \<and> alternate_form d \<and> take 1 digits \<noteq> ascii ''0'' then ascii ''0'' @ digits else digits);
          prefix = (if alternate_form d \<and> mag \<noteq> 0 \<and> c = ch CHR ''x'' then ascii ''0x''
                    else if alternate_form d \<and> mag \<noteq> 0 \<and> c = ch CHR ''X'' then ascii ''0X'' else []);
          signed = (c \<in> {ch CHR ''d'', ch CHR ''i''});
          sign = (if v < 0 then ascii ''-'' else if signed \<and> force_sign d then ascii ''+''
                  else if signed \<and> leading_space_for_positive d then ascii '' '' else [])
      in layout left (zero_pad d \<and> precision = None) width (sign @ prefix) digits)"

definition pointer_text :: "FormatDirective \<Rightarrow> bool \<Rightarrow> nat \<Rightarrow> nat option \<Rightarrow> nat \<Rightarrow> u8 list" where
  "pointer_text d left width precision p =
     layout left (zero_pad d \<and> precision = None) width (sign_text (pointer_sign d) @ ascii ''0x'')
       (zero_extended (max 1 (case precision of None \<Rightarrow> 1 | Some k \<Rightarrow> k)) (digits_text p 16 False))"

definition padded_text :: "bool \<Rightarrow> nat \<Rightarrow> u8 list \<Rightarrow> u8 list" where
  "padded_text left width body = layout left False width [] body"

section \<open>Arguments\<close>

datatype arg = Word c_ulong | Text addr "u8 list"

fun arg_word :: "arg \<Rightarrow> c_ulong" where
  "arg_word (Word w) = w"
| "arg_word (Text p bs) = word_of_nat p"

text \<open>The width of the integer an argument stands for.\<close>

definition length_bits :: "LengthModifier \<Rightarrow> nat" where
  "length_bits len = (case len of Hh \<Rightarrow> 8 | H \<Rightarrow> 16 | Default \<Rightarrow> 32 | _ \<Rightarrow> 64)"

definition signed_arg :: "LengthModifier \<Rightarrow> c_ulong \<Rightarrow> int" where
  "signed_arg len w = signed_take_bit (length_bits len - 1) (uint w)"

definition unsigned_arg :: "LengthModifier \<Rightarrow> c_ulong \<Rightarrow> nat" where
  "unsigned_arg len w = nat (take_bit (length_bits len) (uint w))"

section \<open>Formats\<close>

datatype piece = Byte u8 | Directive FormatDirective | Stop

function pieces :: "u8 list \<Rightarrow> nat \<Rightarrow> piece list" where
  "pieces bs index =
     (if index < length bs then
        (if bs ! index \<noteq> ch CHR ''%'' then Byte (bs ! index) # pieces bs (index + 1)
         else if index + 1 = length bs then [Stop]
         else if bs ! (index + 1) = ch CHR ''%'' then Byte (ch CHR ''%'') # pieces bs (index + 2)
         else (case parse_format_directive bs (index + 1) of
                 None \<Rightarrow> [Stop]
               | Some d \<Rightarrow> Directive d # pieces bs (d_next_index d)))
      else [])"
  by pat_completeness auto
termination
  by (relation "measure (\<lambda>(bs, index). length bs - index)") (auto dest!: parse_format_directive_next)

declare pieces.simps [simp del]

text \<open>What is printed so far, the values that \<^verbatim>\<open>%n\<close> stores, and the arguments left.\<close>

record printed =
  shown :: "u8 list"
  counts :: "(addr \<times> u8 list) list"
  args :: "arg list"

definition print_text :: "u8 list \<Rightarrow> printed \<Rightarrow> printed" where
  "print_text bs p = p\<lparr>shown := shown p @ bs\<rparr>"

text \<open>A width or precision beyond \<^verbatim>\<open>int\<close> is left open, as by the C standard.\<close>

definition spec_count :: "CountSpec option \<Rightarrow> arg list \<Rightarrow> (int option \<times> arg list) option" where
  "spec_count spec as =
     (case spec of
        None \<Rightarrow> Some (None, as)
      | Some (Literal v) \<Rightarrow> if v < 2 ^ 31 then Some (Some (int v), as) else None
      | Some FromArgs \<Rightarrow> (case as of [] \<Rightarrow> None | a # as \<Rightarrow> Some (Some (signed_arg Default (arg_word a)), as)))"

definition spec_string :: "nat option \<Rightarrow> arg \<Rightarrow> u8 list option" where
  "spec_string precision a =
     (let cut = (\<lambda>bs. case precision of None \<Rightarrow> bs | Some k \<Rightarrow> take k bs) in
      case a of Text p bs \<Rightarrow> Some (cut bs) | Word w \<Rightarrow> if w = 0 then Some (cut (ascii ''(null)'')) else None)"

text \<open>One conversion: whether it is accepted; nothing where the arguments do not fit the format.\<close>

definition spec_convert :: "FormatDirective \<Rightarrow> bool \<Rightarrow> nat \<Rightarrow> nat option \<Rightarrow> printed \<Rightarrow> (bool \<times> printed) option" where
  "spec_convert d left width precision p =
     (let c = d_conversion d in
      if c \<notin> set (ascii ''scpndiuxXo'') \<or> c = ch CHR ''c'' \<and> precision \<noteq> None \<or> c = ch CHR ''n'' \<and> length (shown p) \<ge> 2 ^ 31
      then Some (False, p)
      else
        (case args p of
           [] \<Rightarrow> None
         | a # as \<Rightarrow>
             (let p = p\<lparr>args := as\<rparr>; w = arg_word a in
              if c = ch CHR ''s'' then
                map_option (\<lambda>bs. (True, print_text (padded_text left width bs) p)) (spec_string precision a)
              else if c = ch CHR ''c'' then Some (True, print_text (padded_text left width [ucast w]) p)
              else if c = ch CHR ''p'' then Some (True, print_text (pointer_text d left width precision (unat w)) p)
              else if c = ch CHR ''n'' then
                (case count_bytes (d_length d) (length (shown p)) of
                   Some bs \<Rightarrow> if w = 0 then Some (False, p) else Some (True, p\<lparr>counts := counts p @ [(unat w, bs)]\<rparr>)
                 | None \<Rightarrow> Some (False, p))
              else if c = ch CHR ''d'' \<or> c = ch CHR ''i'' then
                Some (True, print_text (integer_text d left width precision (signed_arg (d_length d) w)) p)
              else Some (True, print_text (integer_text d left width precision (int (unsigned_arg (d_length d) w))) p))))"

text \<open>A negative width from the arguments aligns to the left; a negative precision counts as none.\<close>

definition spec_directive :: "FormatDirective \<Rightarrow> printed \<Rightarrow> (bool \<times> printed) option" where
  "spec_directive d p = do {
     (w, as) \<leftarrow> spec_count (d_width d) (args p);
     (k, as) \<leftarrow> spec_count (d_precision d) as;
     let width = (case w of None \<Rightarrow> 0 | Some w \<Rightarrow> nat \<bar>w\<bar>);
     let left = (left_align d \<or> (case w of None \<Rightarrow> False | Some w \<Rightarrow> w < 0));
     let precision = (case k of None \<Rightarrow> None | Some k \<Rightarrow> if k < 0 then None else Some (nat k));
     spec_convert d left width precision (p\<lparr>args := as\<rparr>) }"

fun spec_print :: "piece list \<Rightarrow> printed \<Rightarrow> (bool \<times> printed) option" where
  "spec_print [] p = Some (True, p)"
| "spec_print (Byte b # ps) p = spec_print ps (print_text [b] p)"
| "spec_print (Stop # ps) p = Some (False, p)"
| "spec_print (Directive d # ps) p = do {
     (ok, p) \<leftarrow> spec_directive d p;
     if ok then spec_print ps p else Some (False, p) }"

end
