(* ===== verification/Printf_Refine.thy ===== *)
theory Printf_Refine
  imports Printf_Spec
begin

text \<open>
  The code of the theory \<open>Printf\<close> against the specification of \<open>Printf_Spec\<close>: the bounded output is a sink, the renderers push
  the texts of the specification, and \<^verbatim>\<open>vsnprintf\<close> stores what fits of the text the format and the arguments stand for.
\<close>

section \<open>The bounded output is a sink\<close>

definition sink_holds :: "mem \<Rightarrow> addr \<Rightarrow> nat \<Rightarrow> out \<Rightarrow> u8 list \<Rightarrow> bool" where
  "sink_holds base s n out xs \<longleftrightarrow> buffer (fst out) = s \<and> capacity (fst out) = n \<and>
     bytes_required (fst out) = min (length xs) USIZE_MAX \<and> bytes_written (fst out) = min (length xs) (n - 1) \<and>
     mapped base s n \<and> (n \<noteq> 0 \<longrightarrow> s \<noteq> null) \<and> snd out = store_bytes base s (take (n - 1) xs)"

text \<open>Both ways to push store what fits.\<close>

lemma block_fits:
  assumes "sink_holds base s n (k, m) xs" "n \<noteq> 0" "length xs < n - 1"
  shows "write_block m (s + bytes_written k) (take (n - 1 - length xs) ys) =
    Some (store_bytes base s (take (n - 1) (xs @ ys)))"
proof -
  have w: "bytes_written k = length xs" and m: "m = store_bytes base s xs" "mapped base s n"
    using assms by (auto simp: sink_holds_def)
  have "mapped m (s + length xs) (length (take (n - 1 - length xs) ys))"
    using m mapped_store_bytes [OF m(2), of s xs] assms(3) by (force simp: mapped_def add.assoc)
  then show ?thesis using assms(3) by (simp add: w m(1) write_block_mapped store_bytes_append)
qed

lemma push_bytes_holds:
  assumes "sink_holds base s n out xs"
  shows "\<exists>out'. push_bytes ys out = Some out' \<and> sink_holds base s n out' (xs @ ys)"
proof -
  obtain k m where out: "out = (k, m)" by fastforce
  have req: "saturating_add (bytes_required k) (length ys) = min (length (xs @ ys)) USIZE_MAX"
    using assms by (auto simp: out sink_holds_def saturating_add_def)
  show ?thesis
  proof (cases "ys \<noteq> [] \<and> n \<noteq> 0 \<and> length xs < n - 1")
    case True
    have take_eq: "take (min (length ys) (n - Suc (length xs))) ys = take (n - Suc (length xs)) ys" by (simp add: min_def)
    have w: "bytes_written k = length xs" "buffer k = s" "capacity k = n" "s \<noteq> null" using assms True by (auto simp: out sink_holds_def)
    have "length xs + min (length ys) (n - 1 - length xs) = min (length (xs @ ys)) (n - 1)" using True by auto
    then show ?thesis
      using assms True block_fits [OF assms [unfolded out], of ys] w req
      by (simp add: out push_bytes_def Let_def take_eq sink_holds_def)
  next
    case False
    then show ?thesis using assms req by (cases "ys = []") (auto simp: out push_bytes_def Let_def sink_holds_def)
  qed
qed

lemma push_repeated_eq: "push_repeated b r = push_bytes (replicate r b)"
  by (rule ext) (auto simp: push_repeated_def push_bytes_def Let_def split: prod.splits)

interpretation po: byte_sink push_byte "sink_holds base s n" for base s n
  by unfold_locales (use push_bytes_holds [where ys = "[b]" for b] in \<open>simp add: push_byte_def push_repeated_eq\<close>)

lemma writes_bytes: "po.writes base s n (push_bytes ys) ys"
  using push_bytes_holds by (simp add: po.writes_def)

lemma writes_repeated: "po.writes base s n (push_repeated b r) (replicate r b)"
  by (simp add: push_repeated_eq writes_bytes)

lemma writes_when: "(c \<Longrightarrow> po.writes base s n f xs) \<Longrightarrow> po.writes base s n (\<lambda>out. if c then f out else Some out) (if c then xs else [])"
  using po.writes_skip by auto

lemma terminate_holds:
  assumes "sink_holds base s n out xs"
  shows "\<exists>k. terminate_sink out = Some (k, if n = 0 then base else store_bytes base s (take (n - 1) xs @ [0])) \<and>
    bytes_required k = min (length xs) USIZE_MAX"
proof (cases "n = 0")
  case True
  then show ?thesis using assms by (cases out) (simp add: terminate_sink_def sink_holds_def)
next
  case False
  obtain k m where out: "out = (k, m)" by fastforce
  define j where "j = min (length xs) (n - 1)"
  have len: "length (take (n - 1) xs) = j" by (simp add: j_def min.commute)
  have "mapped (store_bytes base s (take (n - 1) xs)) s n" "j < n"
    using assms False by (auto simp: sink_holds_def mapped_store_bytes j_def)
  then obtain c where "store_bytes base s (take (n - 1) xs) (s + j) = Some c" using mapped_less by blast
  then show ?thesis using assms False len
    by (auto simp: out terminate_sink_def sink_holds_def j_def [symmetric] write_u8_def store_bytes_append)
qed

section \<open>Numbers\<close>

lemma digit_not_zero: "0 < d \<Longrightarrow> d < 16 \<Longrightarrow> digit_to_ascii d uppercase \<noteq> ch CHR ''0''"
proof -
  assume "0 < d" "d < 16"
  then have "d \<in> {1, 2, 3, 4, 5, 6, 7, 8, 9, 10, 11, 12, 13, 14, 15}" by (simp only: insert_iff empty_iff) arith
  then show ?thesis by (auto simp: digit_to_ascii_def)
qed

lemma reversed_digits_last:
  "v \<noteq> 0 \<Longrightarrow> 2 \<le> radix \<Longrightarrow> radix \<le> 16 \<Longrightarrow>
   reversed_digits v radix uppercase \<noteq> [] \<and> last (reversed_digits v radix uppercase) \<noteq> ch CHR ''0''"
proof (induction v radix uppercase rule: reversed_digits.induct)
  case (1 v radix uppercase)
  show ?case
  proof (cases "v div radix = 0")
    case True
    then have "v mod radix = v" "v < 16" using 1 by (simp_all add: div_eq_0_iff)
    moreover have "reversed_digits (v div radix) radix uppercase = []" using True by (subst reversed_digits.simps) simp
    ultimately show ?thesis using 1 digit_not_zero [of v uppercase] by (subst (1 2) reversed_digits.simps) simp
  next
    case False
    then show ?thesis using 1 by (subst (1 2) reversed_digits.simps) auto
  qed
qed

lemma digits_text_hd: "v \<noteq> 0 \<Longrightarrow> 2 \<le> radix \<Longrightarrow> radix \<le> 16 \<Longrightarrow>
    digits_text v radix uppercase \<noteq> [] \<and> hd (digits_text v radix uppercase) \<noteq> ch CHR ''0''"
  using reversed_digits_last [of v radix uppercase] by (simp add: digits_text_def hd_rev)

lemma digits_text_0 [simp]: "digits_text 0 radix uppercase = []"
  by (simp add: digits_text_def reversed_digits.simps)

lemma reversed_digits_length: "v < 2 ^ k \<Longrightarrow> length (reversed_digits v radix uppercase) \<le> k"
proof (induction v radix uppercase arbitrary: k rule: reversed_digits.induct)
  case (1 v radix uppercase)
  show ?case
  proof (cases "v = 0 \<or> radix < 2")
    case True
    then show ?thesis by (subst reversed_digits.simps) simp
  next
    case False
    then obtain j where k: "k = Suc j" using "1.prems" by (cases k) auto
    have "v div radix \<le> v div 2" using False by (intro div_le_mono2) auto
    also have "\<dots> < 2 ^ j" using "1.prems" k by (simp add: less_mult_imp_div_less mult.commute)
    finally show ?thesis using "1.IH" [of j] False k by (subst reversed_digits.simps) simp
  qed
qed

lemma unsigned_to_ascii_text: "unsigned_to_ascii v base uppercase = (if v = 0 then [ch CHR ''0''] else digits_text v base uppercase)"
  by (simp add: unsigned_to_ascii_def digits_text_def)

text \<open>The last steps lay the number out.\<close>

lemma writes_push_number:
  assumes fits: "length (sign_text sign @ prefix @ replicate z (ch CHR ''0'' :: u8) @ digits) < 2 ^ 64"
  shows "po.writes base s n (push_number left zero width sign prefix z digits)
     (layout left (zero \<and> \<not> left) width (sign_text sign @ prefix) (replicate z (ch CHR ''0'') @ digits))"
proof -
  define len where "len = (if sign = None then 0 else 1) + length prefix + z + length digits"
  have no_wrap: "((if sign = None then 0 else 1) + length prefix + z + length digits) mod 2 ^ 64 = len"
    unfolding len_def by (rule mod_less) (use fits in \<open>cases sign; simp add: sign_text_def add.assoc\<close>)
  have sign: "po.writes base s n (\<lambda>out. case sign of Some b \<Rightarrow> push_byte b out | None \<Rightarrow> Some out) (sign_text sign)"
    by (cases sign) (simp_all add: sign_text_def po.writes_skip po.writes_push)
  have eq: "push_number left zero width sign prefix z digits = (\<lambda>out. Option.bind
      (if \<not> left \<and> \<not> zero \<and> width > len then push_repeated (ch CHR '' '') (width - len) out else Some out) (\<lambda>out. Option.bind
      (case sign of Some b \<Rightarrow> push_byte b out | None \<Rightarrow> Some out) (\<lambda>out. Option.bind
      (push_bytes prefix out) (\<lambda>out. Option.bind
      (if \<not> left \<and> zero \<and> width > len then push_repeated (ch CHR ''0'') (width - len) out else Some out) (\<lambda>out. Option.bind
      (push_repeated (ch CHR ''0'') z out) (\<lambda>out. Option.bind
      (push_bytes digits out)
      (\<lambda>out. if left \<and> width > len then push_repeated (ch CHR '' '') (width - len) out else Some out)))))))"
    by (rule ext) (simp only: push_number_def Let_def no_wrap)
  have "po.writes base s n (push_number left zero width sign prefix z digits)
     ((if \<not> left \<and> \<not> zero \<and> width > len then replicate (width - len) (ch CHR '' '') else []) @ sign_text sign @ prefix @
      (if \<not> left \<and> zero \<and> width > len then replicate (width - len) (ch CHR ''0'') else []) @ replicate z (ch CHR ''0'') @ digits @
      (if left \<and> width > len then replicate (width - len) (ch CHR '' '') else []))"
    unfolding eq
    by (intro po.writes_bind writes_when writes_repeated writes_bytes sign)
  moreover have "len = length ((sign_text sign @ prefix) @ replicate z (ch CHR ''0'') @ digits)"
    by (cases sign) (simp_all add: len_def sign_text_def)
  then have "(if \<not> left \<and> \<not> zero \<and> width > len then replicate (width - len) (ch CHR '' '') else []) @ sign_text sign @ prefix @
      (if \<not> left \<and> zero \<and> width > len then replicate (width - len) (ch CHR ''0'') else []) @ replicate z (ch CHR ''0'') @ digits @
      (if left \<and> width > len then replicate (width - len) (ch CHR '' '') else []) =
      layout left (zero \<and> \<not> left) width (sign_text sign @ prefix) (replicate z (ch CHR ''0'') @ digits)"
    by (cases left; cases zero; cases "width > len") (simp_all add: layout_def Let_def)
  ultimately show ?thesis by simp
qed


lemma layout_zero_prefix: "layout left zero width (lead @ ascii ''0'') body = layout left zero width lead (ascii ''0'' @ body)"
  by (simp add: layout_def Let_def replicate_app_Cons_same)

text \<open>The zeros and digits of the code are the digits extended to the precision.\<close>

definition code_digits :: "nat option \<Rightarrow> nat \<Rightarrow> nat \<Rightarrow> bool \<Rightarrow> u8 list" where
  "code_digits precision v base uppercase = (if precision = Some 0 \<and> v = 0 then [] else unsigned_to_ascii v base uppercase)"

lemma code_digits_extended:
  assumes "2 \<le> base" "base \<le> 16"
  shows "replicate (case precision of None \<Rightarrow> 0 | Some t \<Rightarrow> t - length (code_digits precision v base uppercase)) (ch CHR ''0'') @
    code_digits precision v base uppercase =
    zero_extended (case precision of None \<Rightarrow> 1 | Some k \<Rightarrow> k) (digits_text v base uppercase)"
proof (cases "v = 0")
  case True
  have "replicate (k - Suc 0) (ch CHR ''0'') @ [ch CHR ''0''] = replicate k (ch CHR ''0'' :: u8)" if "k \<noteq> 0" for k
    using that by (cases k) (simp_all add: replicate_append_same)
  then show ?thesis using True
    by (auto simp: code_digits_def unsigned_to_ascii_text zero_extended_def pad_left_def split: option.split)
next
  case False
  then have "length (digits_text v base uppercase) \<ge> 1" using digits_text_hd [OF False assms, of uppercase] by (simp add: Suc_le_eq)
  then show ?thesis using False
    by (auto simp: code_digits_def unsigned_to_ascii_text zero_extended_def pad_left_def split: option.split)
qed

lemma writes_number_text:
  assumes "render = push_number left (zero \<and> \<not> left \<and> c) width sign prefix z digits"
    and "layout left (zero \<and> c) width (sign_text sign @ prefix) (replicate z (ch CHR ''0'') @ digits) = text_out"
    and fits: "length (sign_text sign @ prefix @ replicate z (ch CHR ''0'' :: u8) @ digits) < 2 ^ 64"
  shows "po.writes base s n render text_out"
proof -
  have "layout left ((zero \<and> \<not> left \<and> c) \<and> \<not> left) width lead body = layout left (zero \<and> c) width lead body" for lead body
    by (cases left) (simp_all add: layout_def)
  then show ?thesis
    using writes_push_number [OF fits, of base s n left "zero \<and> \<not> left \<and> c" width]
    unfolding assms(1) assms(2) [symmetric] by (simp only:)
qed

lemma number_fits:
  assumes "\<And>k. precision = Some k \<Longrightarrow> k \<le> 2 ^ 32" "length ds \<le> 64" "length prefix \<le> 4"
  shows "length (sign_text sign @ prefix @ replicate (case precision of None \<Rightarrow> 0 | Some t \<Rightarrow> t - length xs) (ch CHR ''0'' :: u8) @ ds) < 2 ^ 64"
proof -
  have "length (sign_text sign) \<le> 1" by (simp add: sign_text_def split: option.split)
  moreover have "(case precision of None \<Rightarrow> 0 | Some t \<Rightarrow> t - length xs) \<le> 2 ^ 32"
    using assms(1) by (force split: option.split)
  ultimately show ?thesis using assms(2,3) by simp
qed

lemma unsigned_to_ascii_length: "v < 2 ^ 64 \<Longrightarrow> length (unsigned_to_ascii v base uppercase) \<le> 64"
  by (simp add: unsigned_to_ascii_def reversed_digits_length)

lemma writes_pointer:
  assumes small: "\<And>k. precision = Some k \<Longrightarrow> k < 2 ^ 32" "p < 2 ^ 64"
  shows "po.writes base s n (render_formatted_pointer left (zero_pad d) width precision (pointer_sign d) p) (pointer_text d left width precision p)"
proof (rule writes_number_text)
  show "render_formatted_pointer left (zero_pad d) width precision (pointer_sign d) p =
    push_number left (zero_pad d \<and> \<not> left \<and> precision = None) width (pointer_sign d) (ascii ''0x'')
      (case precision of None \<Rightarrow> 0 | Some target \<Rightarrow> target - length (unsigned_to_ascii p 16 False)) (unsigned_to_ascii p 16 False)"
    by (rule ext) (simp add: render_formatted_pointer_def Let_def)
  have "replicate (case precision of None \<Rightarrow> 0 | Some target \<Rightarrow> target - length (unsigned_to_ascii p 16 False)) (ch CHR ''0'') @
      unsigned_to_ascii p 16 False = zero_extended (max 1 (case precision of None \<Rightarrow> 1 | Some k \<Rightarrow> k)) (digits_text p 16 False)"
  proof (cases "precision = Some 0 \<and> p = 0")
    case True
    then show ?thesis by (simp add: unsigned_to_ascii_text zero_extended_def pad_left_def)
  next
    case False
    then have digits: "code_digits precision p 16 False = unsigned_to_ascii p 16 False" by (auto simp: code_digits_def)
    have "p \<noteq> 0 \<Longrightarrow> length (digits_text p 16 False) \<ge> 1" using digits_text_hd [of p 16 False] by (simp add: Suc_le_eq)
    then have "zero_extended (max 1 (case precision of None \<Rightarrow> 1 | Some k \<Rightarrow> k)) (digits_text p 16 False) =
        zero_extended (case precision of None \<Rightarrow> 1 | Some k \<Rightarrow> k) (digits_text p 16 False)"
      using False by (cases "p = 0") (auto simp: zero_extended_def pad_left_def max_def split: option.split)
    then show ?thesis using code_digits_extended [of 16 precision p False] unfolding digits by simp
  qed
  then show "layout left (zero_pad d \<and> precision = None) width (sign_text (pointer_sign d) @ ascii ''0x'')
      (replicate (case precision of None \<Rightarrow> 0 | Some target \<Rightarrow> target - length (unsigned_to_ascii p 16 False)) (ch CHR ''0'') @
       unsigned_to_ascii p 16 False) = pointer_text d left width precision p"
    by (simp add: pointer_text_def)
  show "length (sign_text (pointer_sign d) @ ascii ''0x'' @ replicate (case precision of None \<Rightarrow> 0
      | Some target \<Rightarrow> target - length (unsigned_to_ascii p 16 False)) (ch CHR ''0'') @ unsigned_to_ascii p 16 False) < 2 ^ 64"
    by (rule number_fits) (use small unsigned_to_ascii_length in \<open>auto simp: less_imp_le\<close>)
qed

text \<open>The octal form: a leading zero from the prefix or from the precision.\<close>

lemma zero_extended_take:
  assumes "v \<noteq> 0" "2 \<le> base" "base \<le> 16"
  shows "take 1 (zero_extended k (digits_text v base uppercase)) = ascii ''0'' \<longleftrightarrow> length (digits_text v base uppercase) < k"
proof (cases "length (digits_text v base uppercase) < k")
  case True
  then obtain j where "k - length (digits_text v base uppercase) = Suc j" by (metis Suc_diff_Suc)
  then show ?thesis using True by (simp add: zero_extended_def pad_left_def)
next
  case False
  obtain b bs where "digits_text v base uppercase = b # bs" using digits_text_hd [OF assms, of uppercase] by (cases "digits_text v base uppercase") auto
  then show ?thesis using False digits_text_hd [OF assms, of uppercase] by (simp add: zero_extended_def pad_left_def)
qed

text \<open>The sign, prefix and precision the code computes.\<close>

definition code_sign :: "FormatDirective \<Rightarrow> bool \<Rightarrow> u8 option" where
  "code_sign d neg =
     (let is_signed = (d_conversion d = ch CHR ''d'' \<or> d_conversion d = ch CHR ''i'') in
      if neg then Some (ch CHR ''-'') else if is_signed \<and> force_sign d then Some (ch CHR ''+'')
      else if is_signed \<and> leading_space_for_positive d then Some (ch CHR '' '') else None)"

definition octal_prefix :: "FormatDirective \<Rightarrow> nat option \<Rightarrow> nat \<Rightarrow> u8 list" where
  "octal_prefix d precision v =
     (if d_conversion d = ch CHR ''o'' \<and> alternate_form d \<and> ((v = 0 \<and> precision = Some 0) \<or> (v \<noteq> 0 \<and> precision = None)) then ascii ''0'' else [])"

definition hex_prefix :: "FormatDirective \<Rightarrow> nat \<Rightarrow> u8 list" where
  "hex_prefix d v = (if alternate_form d \<and> v \<noteq> 0 \<and> d_conversion d = ch CHR ''x'' then ascii ''0x''
     else if alternate_form d \<and> v \<noteq> 0 \<and> d_conversion d = ch CHR ''X'' then ascii ''0X'' else [])"

definition effective_precision :: "FormatDirective \<Rightarrow> nat option \<Rightarrow> nat \<Rightarrow> u8 list \<Rightarrow> nat option" where
  "effective_precision d precision v digits =
     (if d_conversion d = ch CHR ''o'' \<and> alternate_form d \<and> v \<noteq> 0 \<and> precision \<noteq> None
      then Some (max (case precision of Some p \<Rightarrow> p | None \<Rightarrow> 0) (saturating_add (length digits) 1)) else precision)"

lemma conversion_chars_distinct:
  "ch CHR ''o'' \<noteq> (ch CHR ''x'' :: u8)" "ch CHR ''o'' \<noteq> (ch CHR ''X'' :: u8)" "ch CHR ''x'' \<noteq> (ch CHR ''X'' :: u8)"
  by simp_all

lemma render_integer_eq:
  assumes "integer_base (d_conversion d) = Some (base, uppercase)"
  shows "render_formatted_integer d left width precision v neg =
    push_number left (zero_pad d \<and> \<not> left \<and> effective_precision d precision v (code_digits precision v base uppercase) = None) width
      (code_sign d neg) (octal_prefix d precision v @ hex_prefix d v)
      (case effective_precision d precision v (code_digits precision v base uppercase) of
         None \<Rightarrow> 0 | Some target \<Rightarrow> target - length (code_digits precision v base uppercase))
      (code_digits precision v base uppercase)"
proof -
  have prefix: "(if alternate_form d \<and> v \<noteq> 0 then
       (if d_conversion d = ch CHR ''o'' then octal_prefix d precision v
        else if d_conversion d = ch CHR ''x'' then ascii ''0x''
        else if d_conversion d = ch CHR ''X'' then ascii ''0X'' else [])
     else octal_prefix d precision v) = octal_prefix d precision v @ hex_prefix d v"
    by (auto simp: octal_prefix_def hex_prefix_def)
  show ?thesis
    unfolding prefix [symmetric]
    by (rule ext) (simp only: render_formatted_integer_def assms bind.bind_lunit prod.case Let_def
        code_digits_def [symmetric] code_sign_def [unfolded Let_def, symmetric] octal_prefix_def [symmetric]
        effective_precision_def [symmetric])
qed

lemma integer_base_cases:
  assumes "integer_base c = Some (base, uppercase)"
  shows "base = (if c \<in> {ch CHR ''x'', ch CHR ''X''} then 16 else if c = ch CHR ''o'' then 8 else 10)"
    "uppercase = (c = ch CHR ''X'')" "2 \<le> base" "base \<le> 16"
  using assms by (auto simp: integer_base_def split: if_splits)

lemma writes_integer:
  assumes base: "integer_base (d_conversion d) = Some (base, uppercase)" and small: "nat \<bar>v\<bar> < 2 ^ 64"
    and precision: "\<And>k. precision = Some k \<Longrightarrow> k < 2 ^ 32"
  shows "po.writes b s n (render_formatted_integer d left width precision (nat \<bar>v\<bar>) (v < 0)) (integer_text d left width precision v)"
proof -
  define mag where "mag = nat \<bar>v\<bar>"
  define digits where "digits = code_digits precision mag base uppercase"
  define eff where "eff = effective_precision d precision mag digits"
  define zs where "zs = (case eff of None \<Rightarrow> 0 | Some target \<Rightarrow> target - length digits)"
  define ext where "ext = zero_extended (case precision of None \<Rightarrow> 1 | Some k \<Rightarrow> k) (digits_text mag base uppercase)"
  define body where "body = (if d_conversion d = ch CHR ''o'' \<and> alternate_form d \<and> take 1 ext \<noteq> ascii ''0'' then ascii ''0'' @ ext else ext)"
  define sign where "sign = sign_text (code_sign d (v < 0))"
  note bases = integer_base_cases [OF base]
  have sign_eq: "sign = (if v < 0 then ascii ''-'' else if d_conversion d \<in> {ch CHR ''d'', ch CHR ''i''} \<and> force_sign d then ascii ''+''
      else if d_conversion d \<in> {ch CHR ''d'', ch CHR ''i''} \<and> leading_space_for_positive d then ascii '' '' else [])"
    by (simp add: sign_def sign_text_def code_sign_def Let_def)
  have spec: "integer_text d left width precision v = layout left (zero_pad d \<and> precision = None) width (sign @ hex_prefix d mag) body"
    by (simp only: integer_text_def Let_def bases(1,2) [symmetric] mag_def [symmetric] ext_def [symmetric] body_def [symmetric]
        sign_eq [symmetric] hex_prefix_def conj_assoc)
  have eff_None: "(eff = None) = (precision = None)" by (auto simp: eff_def effective_precision_def)
  have extended: "replicate (case precision of None \<Rightarrow> 0 | Some t \<Rightarrow> t - length digits) (ch CHR ''0'') @ digits = ext"
    unfolding digits_def ext_def by (rule code_digits_extended [OF bases(3,4)])
  have main: "layout left (zero_pad d \<and> precision = None) width (sign @ octal_prefix d precision mag @ hex_prefix d mag)
      (replicate zs (ch CHR ''0'') @ digits) = layout left (zero_pad d \<and> precision = None) width (sign @ hex_prefix d mag) body"
  proof (cases "d_conversion d = ch CHR ''o'' \<and> alternate_form d")
    case False
    then have "eff = precision" "octal_prefix d precision mag = []" "body = ext"
      by (auto simp: eff_def effective_precision_def octal_prefix_def body_def)
    then show ?thesis using extended by (simp add: zs_def)
  next
    case octal: True
    then have hex: "hex_prefix d mag = []" by (auto simp: hex_prefix_def)
    have take_ext: "mag \<noteq> 0 \<Longrightarrow> take 1 ext = ascii ''0'' \<longleftrightarrow> length (digits_text mag base uppercase) < (case precision of None \<Rightarrow> 1 | Some k \<Rightarrow> k)"
      unfolding ext_def by (rule zero_extended_take [OF _ bases(3,4)])
    consider "mag = 0" "precision = Some 0" | "mag = 0" "precision \<noteq> Some 0" | "mag \<noteq> 0" "precision = None"
      | k where "mag \<noteq> 0" "precision = Some k" by (cases precision) auto
    then show ?thesis
    proof cases
      case 1
      then have "eff = Some 0" "digits = []" "ext = []" "octal_prefix d precision mag = ascii ''0''"
        using octal by (simp_all add: eff_def effective_precision_def digits_def code_digits_def ext_def zero_extended_def pad_left_def octal_prefix_def)
      then show ?thesis using octal hex layout_zero_prefix [of left _ width sign "[]"] by (simp add: zs_def body_def)
    next
      case 2
      then have "eff = precision" "octal_prefix d precision mag = []" by (auto simp: eff_def effective_precision_def octal_prefix_def)
      moreover have "take 1 ext = ascii ''0''"
        using 2 by (cases precision) (auto simp: ext_def zero_extended_def pad_left_def gr0_conv_Suc)
      ultimately show ?thesis using extended by (simp add: zs_def body_def)
    next
      case 3
      then have "eff = None" "octal_prefix d precision mag = ascii ''0''" using octal by (simp_all add: eff_def effective_precision_def octal_prefix_def)
      moreover have "take 1 ext \<noteq> ascii ''0''"
        using take_ext [OF 3(1)] digits_text_hd [OF 3(1) bases(3,4), of uppercase] 3 by simp
      ultimately show ?thesis using extended octal hex 3 layout_zero_prefix [of left _ width sign digits]
        by (simp add: zs_def body_def)
    next
      case 4
      then have dt: "digits = digits_text mag base uppercase" by (simp add: digits_def code_digits_def unsigned_to_ascii_text)
      have len: "length digits \<le> 64"
        unfolding dt digits_text_def length_rev by (rule reversed_digits_length) (use small in \<open>simp add: mag_def\<close>)
      then have "saturating_add (length digits) 1 = length digits + 1" by (simp add: saturating_add_def USIZE_MAX_def)
      then have eff: "eff = Some (max k (length digits + 1))" "octal_prefix d precision mag = []"
        using 4 octal by (simp_all add: eff_def effective_precision_def octal_prefix_def)
      show ?thesis
      proof (cases "length digits < k")
        case True
        then have "take 1 ext = ascii ''0''" using take_ext [OF 4(1)] 4(2) dt by simp
        moreover have "zs = k - length digits" using True eff by (auto simp: zs_def max_def)
        ultimately show ?thesis using extended 4(2) eff by (simp add: body_def)
      next
        case False
        then have "take 1 ext \<noteq> ascii ''0''" using take_ext [OF 4(1)] 4(2) dt by simp
        moreover have "zs = 1" "ext = digits" using False eff dt 4(2) by (simp_all add: zs_def max_def ext_def zero_extended_def pad_left_def)
        ultimately show ?thesis using octal eff by (simp add: body_def)
      qed
    qed
  qed
  have render: "render_formatted_integer d left width precision (nat \<bar>v\<bar>) (v < 0) =
      push_number left (zero_pad d \<and> \<not> left \<and> precision = None) width (code_sign d (v < 0)) (octal_prefix d precision mag @ hex_prefix d mag) zs digits"
    unfolding render_integer_eq [OF base] mag_def [symmetric] digits_def [symmetric] eff_def [symmetric] zs_def [symmetric] eff_None ..
  have len: "length digits \<le> 64"
    using small unsigned_to_ascii_length [of mag base uppercase] by (simp add: digits_def code_digits_def mag_def)
  then have "\<And>k. eff = Some k \<Longrightarrow> k \<le> 2 ^ 32"
    using precision by (auto simp: eff_def effective_precision_def saturating_add_def USIZE_MAX_def less_imp_le split: if_splits)
  moreover have "length (octal_prefix d precision mag @ hex_prefix d mag) \<le> 4" by (simp add: octal_prefix_def hex_prefix_def)
  ultimately have fits: "length (sign_text (code_sign d (v < 0)) @ (octal_prefix d precision mag @ hex_prefix d mag) @
      replicate zs (ch CHR ''0'' :: u8) @ digits) < 2 ^ 64"
    unfolding zs_def using len by (intro number_fits)
  show ?thesis
    by (rule writes_number_text [OF render _ fits]) (use main spec in \<open>simp only: sign_def\<close>)
qed

section \<open>Arguments in memory\<close>

definition slot :: "VarArgCursor \<Rightarrow> addr" where
  "slot c = (if gp_offset c < 48 \<and> reg_save_area c \<noteq> null then reg_save_area c + unat (gp_offset c) else overflow_arg_area c)"

definition advance :: "VarArgCursor \<Rightarrow> VarArgCursor" where
  "advance c = (if gp_offset c < 48 \<and> reg_save_area c \<noteq> null then c\<lparr>gp_offset := gp_offset c + 8\<rparr>
     else c\<lparr>overflow_arg_area := overflow_arg_area c + 8\<rparr>)"

text \<open>The words of the arguments stand where the cursor will look, inside the addresses \<open>P\<close> the call only reads.\<close>

primrec va_holds :: "mem \<Rightarrow> addr set \<Rightarrow> VarArgCursor \<Rightarrow> arg list \<Rightarrow> bool" where
  "va_holds m P c [] = True"
| "va_holds m P c (a # as) = (slot c \<noteq> null \<and> u64_at m (slot c) (arg_word a) \<and> {slot c..<slot c + 8} \<subseteq> P \<and> va_holds m P (advance c) as)"

fun arg_ok :: "mem \<Rightarrow> addr set \<Rightarrow> arg \<Rightarrow> bool" where
  "arg_ok m P (Word w) = True"
| "arg_ok m P (Text p bs) = (p \<noteq> null \<and> p < 2 ^ 64 \<and> length bs < USIZE_MAX \<and> cstr m p bs \<and> {p..p + length bs} \<subseteq> P)"

lemma bytes_at_agree: "(\<And>q. q \<in> P \<Longrightarrow> m q = m0 q) \<Longrightarrow> {p..<p + length bs} \<subseteq> P \<Longrightarrow> bytes_at m0 p bs \<Longrightarrow> bytes_at m p bs"
  by (auto simp: bytes_at_iff subset_iff)

lemma next_u64_va:
  assumes "va_holds m0 P c (a # as)" "\<And>q. q \<in> P \<Longrightarrow> m q = m0 q"
  shows "next_u64 m c = Some (Some (arg_word a), advance c)"
proof -
  have "bytes_at m (slot c) (le_bytes 8 (unat (arg_word a)))"
    by (rule bytes_at_agree [OF assms(2)]) (use assms(1) in \<open>auto simp: u64_at_def\<close>)
  then have "read_u64 m (slot c) = Some (arg_word a)" by (simp add: read_u64_at u64_at_def)
  then show ?thesis using assms(1) by (auto simp: next_u64_def slot_def advance_def split: if_splits)
qed

lemma uint_and_low: "uint ((w :: c_ulong) AND 0xFFFFFFFF) = take_bit 32 (uint w)"
    "uint ((v :: u32) AND 0xFF) = take_bit 8 (uint v)" "uint (v AND 0xFFFF) = take_bit 16 (uint v)"
  by (simp_all add: unsigned_and_eq take_bit_eq_mask mask_eq_exp_minus_1)

lemma take_bit_uint: "take_bit 64 (uint (w :: c_ulong)) = uint w"
proof (rule take_bit_int_eq_self)
  have "uint w < 2 ^ LENGTH(64)" by (rule unsigned_less)
  then show "uint w < 2 ^ 64" by simp
qed simp

text \<open>The narrowing reads of the code take the low bits.\<close>

lemma narrow_signed:
  fixes w :: c_ulong
  shows "sint (ucast (w AND 0xFFFFFFFF) :: 32 word) = signed_arg Default w"
    "sint (promoted_c_int_to_i8 (ucast (w AND 0xFFFFFFFF))) = signed_arg Hh w"
    "sint (promoted_c_int_to_i16 (ucast (w AND 0xFFFFFFFF))) = signed_arg H w"
    "sint w = signed_take_bit 63 (uint w)"
  by (simp_all add: signed_arg_def length_bits_def promoted_c_int_to_i8_def promoted_c_int_to_i16_def sint_uint
      unsigned_ucast_eq uint_and_low signed_take_bit_take_bit min_def)

lemma narrow_unsigned:
  fixes w :: c_ulong
  shows "unat (ucast (w AND 0xFFFFFFFF) :: 32 word) = unsigned_arg Default w"
    "unat (promoted_u32_to_u8 (ucast (w AND 0xFFFFFFFF))) = unsigned_arg Hh w"
    "unat (promoted_u32_to_u16 (ucast (w AND 0xFFFFFFFF))) = unsigned_arg H w"
    "unat w = nat (take_bit 64 (uint w))"
  unfolding unsigned_arg_def length_bits_def promoted_u32_to_u8_def promoted_u32_to_u16_def unat_eq_nat_uint take_bit_uint
  by (simp_all add: unsigned_ucast_eq uint_and_low min_def)

lemma next_c_int_va:
  assumes "va_holds m0 P c (a # as)" "\<And>q. q \<in> P \<Longrightarrow> m q = m0 q"
  shows "next_c_int m c = Some (Some (ucast (arg_word a AND 0xFFFFFFFF)), advance c)"
  using next_u64_va [OF assms] by (simp add: next_c_int_def next_u32_def map_arg_def)

lemma read_signed_va:
  assumes "va_holds m0 P c (a # as)" "\<And>q. q \<in> P \<Longrightarrow> m q = m0 q"
  shows "read_signed_argument m c len = Some (Some (signed_arg len (arg_word a)), advance c)"
  using next_u64_va [OF assms] next_c_int_va [OF assms]
  using narrow_signed(4) [of "arg_word a"]
  by (cases len) (simp_all add: read_signed_argument_def map_arg_def narrow_signed(1-3), simp_all add: signed_arg_def length_bits_def)

lemma read_unsigned_va:
  assumes "va_holds m0 P c (a # as)" "\<And>q. q \<in> P \<Longrightarrow> m q = m0 q"
  shows "read_unsigned_argument m c len = Some (Some (unsigned_arg len (arg_word a)), advance c)"
  using next_u64_va [OF assms] next_c_int_va [OF assms, unfolded next_c_int_def]
  using narrow_unsigned(4) [of "arg_word a"]
  by (cases len) (simp_all add: read_unsigned_argument_def map_arg_def narrow_unsigned(1-3), simp_all add: unsigned_arg_def length_bits_def)

lemma signed_arg_bound: "nat \<bar>signed_arg len w\<bar> < 2 ^ 64"
proof -
  have "\<bar>signed_take_bit k x\<bar> \<le> 2 ^ k" for k and x :: int
    using signed_take_bit_int_greater_eq_minus_exp [of k x] signed_take_bit_int_less_exp [of k x] by linarith
  then have "\<bar>signed_arg len w\<bar> \<le> 2 ^ (length_bits len - 1)" by (simp add: signed_arg_def)
  also have "\<dots> \<le> 2 ^ 63" by (cases len) (simp_all add: length_bits_def)
  finally show ?thesis by simp
qed

lemma unat_c_ulong: "unat (w :: c_ulong) < 2 ^ 64"
  using unsigned_less [of w] by simp

lemma unsigned_arg_bound: "unsigned_arg len w < 2 ^ 64"
proof -
  have "take_bit (length_bits len) (uint w) < 2 ^ length_bits len" by simp
  also have "\<dots> \<le> (2 :: int) ^ 64" by (cases len) (simp_all add: length_bits_def)
  finally show ?thesis by (simp add: unsigned_arg_def)
qed

lemma signed_arg_less: "signed_arg Default w < 2 ^ 32"
  using signed_take_bit_int_less_exp [of 31 "uint w"] by (simp add: signed_arg_def length_bits_def)

text \<open>Widths and precisions.\<close>

lemma resolve_width_va:
  assumes "spec_count spec as = Some (w, as')" "va_holds m0 P c as" "\<And>q. q \<in> P \<Longrightarrow> m q = m0 q"
  shows "\<exists>c'. resolve_width spec m c left = Some (Some (case w of None \<Rightarrow> 0 | Some w \<Rightarrow> nat \<bar>w\<bar>, left \<or> (case w of None \<Rightarrow> False | Some w \<Rightarrow> w < 0)), c') \<and>
    va_holds m0 P c' as'"
proof (cases "spec = Some FromArgs")
  case True
  then obtain a where a: "as = a # as'" "w = Some (signed_arg Default (arg_word a))" using assms(1) by (auto simp: spec_count_def split: list.splits)
  then show ?thesis using True assms(2) next_c_int_va [OF assms(2) [unfolded a(1)] assms(3)]
    by (auto simp: resolve_width_def map_arg_def narrow_signed)
next
  case False
  then show ?thesis using assms(1,2) by (auto simp: spec_count_def resolve_width_def split: option.splits CountSpec.splits if_splits)
qed

lemma resolve_precision_va:
  assumes "spec_count spec as = Some (k, as')" "va_holds m0 P c as" "\<And>q. q \<in> P \<Longrightarrow> m q = m0 q"
  shows "\<exists>c'. resolve_precision spec m c = Some (Some (case k of None \<Rightarrow> None | Some k \<Rightarrow> if k < 0 then None else Some (nat k)), c') \<and>
    va_holds m0 P c' as'"
proof (cases "spec = Some FromArgs")
  case True
  then obtain a where a: "as = a # as'" "k = Some (signed_arg Default (arg_word a))" using assms(1) by (auto simp: spec_count_def split: list.splits)
  then show ?thesis using True assms(2) next_c_int_va [OF assms(2) [unfolded a(1)] assms(3)]
    by (auto simp: resolve_precision_def map_arg_def narrow_signed)
next
  case False
  then show ?thesis using assms(1,2) by (auto simp: spec_count_def resolve_precision_def split: option.splits CountSpec.splits if_splits)
qed

section \<open>Strings\<close>

lemma cstr_agree:
  assumes "\<And>q. q \<in> P \<Longrightarrow> m q = m0 q" "{p..p + length bs} \<subseteq> P" "cstr m0 p bs"
  shows "cstr m p bs"
proof -
  have "bytes_at m p (bs @ [0])" by (rule bytes_at_agree [OF assms(1)]) (use assms(2,3) in \<open>auto simp: cstr_def\<close>)
  then show ?thesis using assms(3) by (simp add: cstr_def)
qed

lemma prefix_len_from_cstr:
  "cstr m p bs \<Longrightarrow> len \<le> max_len \<Longrightarrow> len + length bs < USIZE_MAX \<Longrightarrow>
   prefix_len_from m p max_len len = Some (min (len + length bs) max_len)"
proof (induction bs arbitrary: p len)
  case Nil
  then show ?case by (subst prefix_len_from.simps) simp
next
  case (Cons b bs)
  have "saturating_add len 1 = len + 1" using Cons.prems(3) by (simp add: saturating_add_def)
  then show ?case using Cons by (subst prefix_len_from.simps) auto
qed

lemma cstr_read: "cstr m p bs \<Longrightarrow> k \<le> length bs \<Longrightarrow> read_block m p k = Some (take k bs)"
  using bytes_at_append [of m p "take k bs" "drop k bs"] by (simp add: read_block_bytes_at cstr_def)

lemma string_source_spec:
  assumes "spec_string precision a = Some bs" "arg_ok m0 P a" "\<And>q. q \<in> P \<Longrightarrow> m q = m0 q"
  shows "string_source m (unat (arg_word a)) precision = Some bs"
proof (cases a)
  case (Word w)
  then have w: "w = 0" using assms(1) by (simp add: spec_string_def Let_def split: if_splits)
  have "take (min k (length xs)) xs = take k xs" for k and xs :: "u8 list" by (simp add: min_def)
  then show ?thesis using assms(1) Word w by (auto simp: spec_string_def string_source_def Let_def split: option.splits)
next
  case (Text p cs)
  then have p: "p \<noteq> null" "p < 2 ^ 64" "length cs < USIZE_MAX" and cs: "cstr m p cs"
    using assms(2) cstr_agree [of P m m0 p cs, OF assms(3)] by auto
  have unat_p: "unat (arg_word a) = p" using p(2) Text by (simp add: unat_of_nat)
  have "c_string_prefix_len m p precision = Some (min (length cs) (case precision of None \<Rightarrow> USIZE_MAX | Some k \<Rightarrow> k))"
    using prefix_len_from_cstr [OF cs, of 0] p(3) by (simp add: c_string_prefix_len_def)
  moreover have "take (min (length cs) k) cs = take k cs" for k by (simp add: min_def)
  moreover have "take (min (length cs) USIZE_MAX) cs = cs" using p(3) by simp
  ultimately have "string_source m p precision = Some bs" using p(1) assms(1) Text cstr_read [OF cs, of "min (length cs) k" for k]
    by (auto simp: string_source_def spec_string_def Let_def split: option.splits)
  then show ?thesis by (simp only: unat_p)
qed

section \<open>The stored counts\<close>

definition store_counts :: "mem \<Rightarrow> (addr \<times> u8 list) list \<Rightarrow> mem" where
  "store_counts m cs = fold (\<lambda>(p, bs) m. store_bytes m p bs) cs m"

text \<open>Each goes to memory of its own: not the buffer, nor what the call reads.\<close>

definition counts_ok :: "mem \<Rightarrow> addr set \<Rightarrow> addr \<Rightarrow> nat \<Rightarrow> (addr \<times> u8 list) list \<Rightarrow> bool" where
  "counts_ok m P s n cs \<longleftrightarrow>
     list_all (\<lambda>(p, bs). mapped m p (length bs) \<and> {p..<p + length bs} \<inter> (P \<union> {s..<s + n}) = {}) cs"

lemma store_counts_snoc: "store_counts m (cs @ [(p, bs)]) = store_bytes (store_counts m cs) p bs"
  by (simp add: store_counts_def)

lemma store_counts_other: "counts_ok m P s n cs \<Longrightarrow> q \<in> P \<union> {s..<s + n} \<Longrightarrow> store_counts m0 cs q = m0 q"
proof (induction cs rule: rev_induct)
  case (snoc c cs)
  obtain p bs where c: "c = (p, bs)" by fastforce
  have "q \<notin> {p..<p + length bs}" using snoc.prems c by (auto simp: counts_ok_def)
  then have "q < p \<or> p + length bs \<le> q" by auto
  moreover have "store_counts m0 cs q = m0 q" using snoc by (simp add: counts_ok_def)
  ultimately show ?case by (simp add: c store_counts_snoc store_bytes_other)
qed (simp add: store_counts_def)

lemma store_counts_mapped: "mapped m p k \<Longrightarrow> mapped (store_counts m cs) p k"
  by (induction cs rule: rev_induct) (auto simp: store_counts_def mapped_store_bytes split: prod.splits)

lemma store_bytes_comm:
  "{p..<p + length xs} \<inter> {q..<q + length ys} = {} \<Longrightarrow> store_bytes (store_bytes m p xs) q ys = store_bytes (store_bytes m q ys) p xs"
proof (rule ext)
  fix a assume apart: "{p..<p + length xs} \<inter> {q..<q + length ys} = {}"
  have stored: "store_bytes m r zs a = (if r \<le> a \<and> a < r + length zs then Some (zs ! (a - r)) else m a)" for m r zs
  proof (cases "r \<le> a \<and> a < r + length zs")
    case True
    then have "a - r < length zs" by arith
    then show ?thesis using True bytes_at_nth [OF bytes_at_store_bytes [of m r zs], of "a - r"] by simp
  next
    case False
    then show ?thesis using store_bytes_other [of a r zs m] by auto
  qed
  have "\<not> (p \<le> a \<and> a < p + length xs \<and> q \<le> a \<and> a < q + length ys)"
    using apart by (auto simp: set_eq_iff)
  then show "store_bytes (store_bytes m p xs) q ys a = store_bytes (store_bytes m q ys) p xs a"
    unfolding stored by auto
qed

section \<open>Conversions\<close>

definition prints :: "mem \<Rightarrow> addr set \<Rightarrow> addr \<Rightarrow> nat \<Rightarrow> printed \<Rightarrow> VarArgCursor \<Rightarrow> out \<Rightarrow> bool" where
  "prints m0 P s n p c out \<longleftrightarrow> sink_holds (store_counts m0 (counts p)) s n out (shown p) \<and> va_holds m0 P c (args p) \<and>
     list_all (arg_ok m0 P) (args p) \<and> counts_ok m0 P s n (counts p) \<and> {s..<s + n} \<inter> P = {}"

lemma prints_agree:
  assumes "prints m0 P s n p c out" "q \<in> P"
  shows "snd out q = m0 q"
proof -
  have "q \<notin> {s..<s + n}" using assms by (auto simp: prints_def)
  then have "snd out q = store_counts m0 (counts p) q"
    using assms(1) by (auto simp: prints_def sink_holds_def intro!: store_bytes_other)
  also have "\<dots> = m0 q" using assms by (auto simp: prints_def intro!: store_counts_other)
  finally show ?thesis .
qed

lemma prints_next:
  assumes "prints m0 P s n p c out" "args p = a # as"
  shows "prints m0 P s n (p\<lparr>args := as\<rparr>) (advance c) out"
  using assms by (simp add: prints_def)

lemma prints_writes:
  assumes "prints m0 P s n p c out" "po.writes (store_counts m0 (counts p)) s n f bs"
  shows "\<exists>out'. f out = Some out' \<and> prints m0 P s n (print_text bs p) c out'"
  using assms po.writesD [OF assms(2)] by (auto simp: prints_def print_text_def)

lemma writes_padded:
  "po.writes base s n (\<lambda>out. Option.bind (render_padding width (length bs) left out)
     (\<lambda>out. Option.bind (push_bytes bs out) (render_trailing_padding width (length bs) left))) (padded_text left width bs)"
proof -
  have eq: "render_padding width (length bs) left = (\<lambda>out. if \<not> left \<and> width > length bs then push_repeated (ch CHR '' '') (width - length bs) out else Some out)"
    "render_trailing_padding width (length bs) left = (\<lambda>out. if left \<and> width > length bs then push_repeated (ch CHR '' '') (width - length bs) out else Some out)"
    by (auto simp: fun_eq_iff render_padding_def render_trailing_padding_def)
  have "padded_text left width bs = (if \<not> left \<and> width > length bs then replicate (width - length bs) (ch CHR '' '') else []) @ bs @
      (if left \<and> width > length bs then replicate (width - length bs) (ch CHR '' '') else [])"
    by (auto simp: padded_text_def layout_def Let_def)
  then show ?thesis unfolding eq
    by (simp only:) (intro po.writes_bind writes_when writes_repeated writes_bytes)
qed

lemma conversion_in:
  "c \<in> set (ascii ''scpndiuxXo'') \<longleftrightarrow> c = ch CHR ''s'' \<or> c = ch CHR ''c'' \<or> c = ch CHR ''p'' \<or> c = ch CHR ''n'' \<or>
     c = ch CHR ''d'' \<or> c = ch CHR ''i'' \<or> c = ch CHR ''u'' \<or> c = ch CHR ''x'' \<or> c = ch CHR ''X'' \<or> c = ch CHR ''o''"
  by auto

text \<open>A count goes to its own memory, behind the text.\<close>

lemma write_count_holds:
  assumes prints: "prints m0 P s n p c (k, m)" and ok: "counts_ok m0 P s n (counts p @ [(q, bs)])"
  shows "\<exists>m'. write_block m q bs = Some m' \<and> prints m0 P s n (p\<lparr>counts := counts p @ [(q, bs)]\<rparr>) c (k, m')"
proof -
  let ?base = "store_counts m0 (counts p)"
  have holds: "sink_holds ?base s n (k, m) (shown p)" using prints by (simp add: prints_def)
  have mapped: "mapped m0 q (length bs)" "{q..<q + length bs} \<inter> (P \<union> {s..<s + n}) = {}"
    using ok by (auto simp: counts_ok_def)
  have m: "m = store_bytes ?base s (take (n - 1) (shown p))" using holds by (simp add: sink_holds_def)
  have "write_block m q bs = Some (store_bytes m q bs)"
    unfolding m using mapped(1) by (intro write_block_mapped mapped_store_bytes store_counts_mapped)
  moreover have "store_bytes m q bs = store_bytes (store_bytes ?base q bs) s (take (n - 1) (shown p))"
  proof -
    have "{s..<s + length (take (n - 1) (shown p))} \<subseteq> {s..<s + n}" by auto
    then show ?thesis unfolding m using mapped(2) by (intro store_bytes_comm) blast
  qed
  moreover have "mapped (store_bytes ?base q bs) s n" using holds by (auto simp: sink_holds_def intro: mapped_store_bytes)
  ultimately show ?thesis using prints holds ok
    by (auto simp: prints_def sink_holds_def store_counts_snoc)
qed

lemma convert_spec:
  assumes spec: "spec_convert d left width precision p = Some (ok, p')" and prints: "prints m0 P s n p c out"
    and counts: "counts_ok m0 P s n (counts p')" and precision: "\<And>k. precision = Some k \<Longrightarrow> k < 2 ^ 32"
  shows "\<exists>c' out'. convert d left width precision c out = Some (ok, c', out') \<and> prints m0 P s n p' c' out'"
proof -
  let ?c = "d_conversion d"
  obtain k m where out: "out = (k, m)" by fastforce
  have agree: "\<And>q. q \<in> P \<Longrightarrow> snd out q = m0 q" using prints_agree [OF prints] .
  have required: "bytes_required k = min (length (shown p)) USIZE_MAX" using prints by (simp add: prints_def sink_holds_def out)
  have count31: "bytes_required k \<ge> 2 ^ 31 \<longleftrightarrow> length (shown p) \<ge> 2 ^ 31" by (simp add: required USIZE_MAX_def)
  show ?thesis
  proof (cases "?c \<notin> set (ascii ''scpndiuxXo'') \<or> ?c = ch CHR ''c'' \<and> precision \<noteq> None \<or> ?c = ch CHR ''n'' \<and> length (shown p) \<ge> 2 ^ 31")
    case True
    then have "ok = False" "p' = p" using spec by (auto simp: spec_convert_def Let_def)
    moreover have "convert d left width precision c out = Some (False, c, out)"
      using True count31 unfolding conversion_in by (auto simp: convert_def write_count_conversion_def out)
    ultimately show ?thesis using prints by simp
  next
    case False
    then obtain a as where as: "args p = a # as" using spec by (cases "args p") (auto simp: spec_convert_def Let_def)
    define p1 where "p1 = p\<lparr>args := as\<rparr>"
    have prints1: "prints m0 P s n p1 (advance c) out" using prints_next [OF prints as] by (simp add: p1_def)
    have va: "va_holds m0 P c (a # as)" and a_ok: "arg_ok m0 P a" using prints as by (simp_all add: prints_def)
    have next_ptr: "next_ptr (snd out) c = Some (Some (unat (arg_word a)), advance c)"
      using next_u64_va [OF va agree] by (simp add: next_ptr_def map_arg_def)
    note next_int = next_c_int_va [OF va agree]
    let ?base = "store_counts m0 (counts p1)"
    consider "?c = ch CHR ''s''" | "?c = ch CHR ''c''" | "?c = ch CHR ''p''" | "?c = ch CHR ''n''" | "?c = ch CHR ''d'' \<or> ?c = ch CHR ''i''"
      | "?c = ch CHR ''u'' \<or> ?c = ch CHR ''x'' \<or> ?c = ch CHR ''X'' \<or> ?c = ch CHR ''o''"
      using False unfolding conversion_in by blast
    then show ?thesis
    proof cases
      case 1
      then obtain bs where bs: "spec_string precision a = Some bs" "ok = True" "p' = print_text (padded_text left width bs) p1"
        using spec False as by (auto simp: spec_convert_def Let_def p1_def)
      have source: "string_source (snd out) (unat (arg_word a)) precision = Some bs" by (rule string_source_spec [OF bs(1) a_ok agree])
      from prints_writes [OF prints1 writes_padded [of ?base s n width bs left]] show ?thesis
        using 1 source bs(2,3) by (auto simp: convert_def next_ptr bind_eq_Some_conv)
    next
      case 2
      then have p': "ok = True" "p' = print_text (padded_text left width [ucast (arg_word a)]) p1" "precision = None"
        using spec False as by (auto simp: spec_convert_def Let_def p1_def)
      have low: "ucast (ucast (arg_word a AND 0xFFFFFFFF) AND 0xFF :: 32 word) = (ucast (arg_word a) :: u8)"
        by (rule word_uint_eqI) (simp add: unsigned_ucast_eq uint_and_low min_def)
      from prints_writes [OF prints1 writes_padded [of ?base s n width "[ucast (arg_word a)]" left]] show ?thesis
        using 2 p' low by (auto simp: convert_def next_int bind_eq_Some_conv push_byte_def push_repeated_eq)
    next
      case 3
      then have p': "ok = True" "p' = print_text (pointer_text d left width precision (unat (arg_word a))) p1"
        using spec False as by (auto simp: spec_convert_def Let_def p1_def)
      from prints_writes [OF prints1 writes_pointer [where base = ?base and s = s and n = n and left = left and d = d and width = width and precision = precision and
          p = "unat (arg_word a)", OF precision unat_c_ulong]] show ?thesis
        using 3 p' by (auto simp: convert_def next_ptr)
    next
      case 4
      have small: "bytes_required k = length (shown p)" using False 4 by (simp add: required USIZE_MAX_def)
      have next_ptr': "next_ptr m c = Some (Some (unat (arg_word a)), advance c)" using next_ptr by (simp add: out)
      show ?thesis
      proof (cases "arg_word a = 0 \<or> count_bytes (d_length d) (length (shown p)) = None")
        case True
        then have "ok = False" "p' = p1" using spec False as 4 by (auto simp: spec_convert_def Let_def p1_def split: option.splits)
        moreover have "convert d left width precision c out = Some (False, advance c, out)"
          using True 4 False by (auto simp: convert_def write_count_conversion_def next_ptr' small out unat_eq_0 split: option.splits)
        ultimately show ?thesis using prints1 by simp
      next
        case written: False
        then obtain bs where bs: "count_bytes (d_length d) (length (shown p)) = Some bs" by auto
        then have p': "ok = True" "p' = p1\<lparr>counts := counts p1 @ [(unat (arg_word a), bs)]\<rparr>"
          using spec False as 4 written by (auto simp: spec_convert_def Let_def p1_def)
        obtain m' where m': "write_block m (unat (arg_word a)) bs = Some m'" "prints m0 P s n p' (advance c) (k, m')"
          using write_count_holds [OF prints1 [unfolded out], of "unat (arg_word a)" bs] counts p'(2) by auto
        have "convert d left width precision c out = Some (True, advance c, (k, m'))"
          using 4 False written bs m'(1) by (simp add: convert_def write_count_conversion_def next_ptr' small out unat_eq_0)
        then show ?thesis using m'(2) p'(1) by auto
      qed
    next
      case 5
      then have p': "ok = True" "p' = print_text (integer_text d left width precision (signed_arg (d_length d) (arg_word a))) p1"
        using spec False as by (auto simp: spec_convert_def Let_def p1_def)
      have "integer_base ?c = Some (10, False)" using 5 by (auto simp: integer_base_def)
      from prints_writes [OF prints1 writes_integer [where v = "signed_arg (d_length d) (arg_word a)" and left = left and
          width = width and precision = precision, OF this signed_arg_bound precision]] show ?thesis
        using 5 p' read_signed_va [OF va agree, of "d_length d"] by (auto simp: convert_def)
    next
      case 6
      then have p': "ok = True" "p' = print_text (integer_text d left width precision (int (unsigned_arg (d_length d) (arg_word a)))) p1"
        using spec False as by (auto simp: spec_convert_def Let_def p1_def)
      have "\<exists>r. integer_base ?c = Some r" using 6 by (auto simp: integer_base_def)
      then obtain base uppercase where base: "integer_base ?c = Some (base, uppercase)" by auto
      have small: "nat \<bar>int (unsigned_arg (d_length d) (arg_word a))\<bar> < 2 ^ 64" using unsigned_arg_bound by simp
      have neg: "(int (unsigned_arg (d_length d) (arg_word a)) < 0) = False" by simp
      from prints_writes [OF prints1 writes_integer [where left = left and width = width and precision = precision,
          OF base small precision, unfolded neg]] show ?thesis
        using 6 p' read_unsigned_va [OF va agree, of "d_length d"] by (auto simp: convert_def)
    qed
  qed
qed

lemma run_directive_spec:
  assumes spec: "spec_directive d p = Some (ok, p')" and prints: "prints m0 P s n p c out"
    and counts: "counts_ok m0 P s n (counts p')"
  shows "\<exists>c' out'. run_directive d c out = Some (ok, c', out') \<and> prints m0 P s n p' c' out'"
proof -
  have agree: "\<And>q. q \<in> P \<Longrightarrow> snd out q = m0 q" using prints_agree [OF prints] .
  obtain w as where w: "spec_count (d_width d) (args p) = Some (w, as)" using spec by (auto simp: spec_directive_def bind_eq_Some_conv)
  obtain k as' where k: "spec_count (d_precision d) as = Some (k, as')" using spec w by (auto simp: spec_directive_def bind_eq_Some_conv)
  let ?width = "case w of None \<Rightarrow> 0 | Some w \<Rightarrow> nat \<bar>w\<bar>"
  let ?left = "left_align d \<or> (case w of None \<Rightarrow> False | Some w \<Rightarrow> w < 0)"
  let ?precision = "case k of None \<Rightarrow> None | Some k \<Rightarrow> if k < 0 then None else Some (nat k)"
  have conv: "spec_convert d ?left ?width ?precision (p\<lparr>args := as'\<rparr>) = Some (ok, p')"
    using spec by (simp add: spec_directive_def w k Let_def)
  have va: "va_holds m0 P c (args p)" "list_all (arg_ok m0 P) (args p)" using prints by (simp_all add: prints_def)
  have tails: "list_all Q as \<and> list_all Q as'" if "list_all Q (args p)" for Q
    using that w k by (auto simp: spec_count_def split: option.splits CountSpec.splits list.splits if_splits)
  obtain c1 where c1: "resolve_width (d_width d) (snd out) c (left_align d) = Some (Some (?width, ?left), c1)" "va_holds m0 P c1 as"
    using resolve_width_va [OF w va(1) agree] by blast
  obtain c2 where c2: "resolve_precision (d_precision d) (snd out) c1 = Some (Some ?precision, c2)" "va_holds m0 P c2 as'"
    using resolve_precision_va [OF k c1(2) agree] by blast
  have "prints m0 P s n (p\<lparr>args := as'\<rparr>) c2 out" using prints c2(2) tails [OF va(2)] by (simp add: prints_def)
  moreover have "j < 2 ^ 32" if "?precision = Some j" for j
    using that k signed_arg_less by (auto simp: spec_count_def nat_less_iff split: option.splits CountSpec.splits list.splits if_splits)
  ultimately obtain c' out' where "convert d ?left ?width ?precision c2 out = Some (ok, c', out')" "prints m0 P s n p' c' out'"
    using convert_spec [OF conv _ counts] by blast
  then show ?thesis by (simp add: run_directive_def c1(1) c2(1))
qed

text \<open>Counts are only added.\<close>

lemma spec_convert_counts: "spec_convert d left width precision p = Some (ok, p') \<Longrightarrow> \<exists>cs. counts p' = counts p @ cs"
  by (auto simp: spec_convert_def print_text_def Let_def split: if_splits list.splits option.splits)

lemma spec_print_counts: "spec_print ps p = Some (ok, p') \<Longrightarrow> \<exists>cs. counts p' = counts p @ cs"
proof (induction ps p rule: spec_print.induct)
  case (4 d ps p)
  obtain ok1 p1 where d: "spec_directive d p = Some (ok1, p1)" using "4.prems" by (auto simp: bind_eq_Some_conv)
  obtain cs where "counts p1 = counts p @ cs"
    using d by (auto simp: spec_directive_def bind_eq_Some_conv Let_def dest!: spec_convert_counts)
  then show ?case using "4.IH" [OF d refl] "4.prems" d by (cases ok1) auto
qed (auto simp: print_text_def)

lemma counts_ok_append: "counts_ok m P s n (cs @ ds) \<Longrightarrow> counts_ok m P s n cs"
  by (simp add: counts_ok_def)

lemma format_loop_spec:
  "spec_print (pieces bs i) p = Some (ok, p') \<Longrightarrow> prints m0 P s n p c out \<Longrightarrow> counts_ok m0 P s n (counts p') \<Longrightarrow>
   \<exists>c' out'. format_loop bs i c out = Some (ok, c', out') \<and> prints m0 P s n p' c' out'"
proof (induction bs i arbitrary: p c out rule: pieces.induct)
  case (1 bs i)
  have push: "\<exists>out'. push_byte b out = Some out' \<and> prints m0 P s n (print_text [b] p) c out'" for b
    by (rule prints_writes [OF "1.prems"(2) po.writes_push])
  consider "\<not> i < length bs" | "i < length bs" "bs ! i \<noteq> ch CHR ''%''" | "i < length bs" "bs ! i = ch CHR ''%''" "i + 1 = length bs"
    | "i < length bs" "bs ! i = ch CHR ''%''" "i + 1 \<noteq> length bs" "bs ! (i + 1) = ch CHR ''%''"
    | "i < length bs" "bs ! i = ch CHR ''%''" "i + 1 \<noteq> length bs" "bs ! (i + 1) \<noteq> ch CHR ''%''" by blast
  then show ?case
  proof cases
    case 1
    then show ?thesis using "1.prems" by (subst format_loop.simps, subst (asm) pieces.simps) auto
  next
    case 2
    then have "pieces bs i = Byte (bs ! i) # pieces bs (i + 1)" by (subst pieces.simps) simp
    then have "spec_print (pieces bs (i + 1)) (print_text [bs ! i] p) = Some (ok, p')" using "1.prems"(1) by simp
    moreover obtain out' where "push_byte (bs ! i) out = Some out'" "prints m0 P s n (print_text [bs ! i] p) c out'" using push by blast
    ultimately show ?thesis using "1.IH"(1) [OF 2, of "print_text [bs ! i] p" c out'] "1.prems"(3) 2
      by (subst format_loop.simps) simp
  next
    case 3
    then have "pieces bs i = [Stop]" by (subst pieces.simps) simp
    then show ?thesis using 3 "1.prems" by (subst format_loop.simps) simp
  next
    case 4
    then have "pieces bs i = Byte (ch CHR ''%'') # pieces bs (i + 2)" by (subst pieces.simps) simp
    then have "spec_print (pieces bs (i + 2)) (print_text [ch CHR ''%''] p) = Some (ok, p')" using "1.prems"(1) by simp
    moreover obtain out' where "push_byte (ch CHR ''%'') out = Some out'" "prints m0 P s n (print_text [ch CHR ''%''] p) c out'" using push by blast
    ultimately show ?thesis using "1.IH"(2) [of "print_text [ch CHR ''%''] p" c out'] "1.prems"(3) 4
      by (subst format_loop.simps) simp
  next
    case 5
    show ?thesis
    proof (cases "parse_format_directive bs (i + 1)")
      case None
      then have "pieces bs i = [Stop]" using 5 by (subst pieces.simps) simp
      then show ?thesis using 5 None "1.prems" by (subst format_loop.simps) simp
    next
      case (Some d)
      then have pieces: "pieces bs i = Directive d # pieces bs (d_next_index d)" using 5 by (subst pieces.simps) simp
      then obtain ok1 p1 where p1: "spec_directive d p = Some (ok1, p1)"
        "if ok1 then spec_print (pieces bs (d_next_index d)) p1 = Some (ok, p') else ok = False \<and> p' = p1"
        using "1.prems"(1) by (auto simp: bind_eq_Some_conv split: if_splits)
      have "counts_ok m0 P s n (counts p1)"
        using "1.prems"(3) p1(2) spec_print_counts [of "pieces bs (d_next_index d)" p1 ok p'] by (auto intro: counts_ok_append split: if_splits)
      then obtain c1 out1 where run: "run_directive d c out = Some (ok1, c1, out1)" "prints m0 P s n p1 c1 out1"
        using run_directive_spec [OF p1(1) "1.prems"(2)] by blast
      have loop: "format_loop bs i c out = (if ok1 then format_loop bs (d_next_index d) c1 out1 else Some (False, c1, out1))"
        using 5 Some run(1) by (subst format_loop.simps) simp
      show ?thesis
      proof (cases ok1)
        case True
        then show ?thesis using "1.IH"(3) [of d p1 c1 out1] 5 Some p1(2) run(2) "1.prems"(3) unfolding loop by simp
      next
        case False
        then show ?thesis using p1(2) run(2) unfolding loop by simp
      qed
    qed
  qed
qed

section \<open>The function\<close>

lemma c_string_len_cstr: "cstr m p bs \<Longrightarrow> len + length bs < USIZE_MAX \<Longrightarrow> c_string_len_from m p len = Some (len + length bs)"
proof (induction bs arbitrary: p len)
  case Nil
  then show ?case by (subst c_string_len_from.simps) simp
next
  case (Cons b bs)
  have "saturating_add len 1 = len + 1" using Cons.prems(2) by (simp add: saturating_add_def)
  then show ?case using Cons by (subst c_string_len_from.simps) auto
qed

lemma required_len_eq: "required_len_to_c_int (min n USIZE_MAX) = (if n < 2 ^ 31 then word_of_nat n else 0x7FFFFFFF)"
  by (auto simp: required_len_to_c_int_def try_i32_def USIZE_MAX_def)

lemma vsnprintf_text:
  assumes "format \<noteq> null" "n \<noteq> 0 \<longrightarrow> s \<noteq> null" "mapped (bytes st) s n"
    and "cstr (bytes st) format fmt" "length fmt < USIZE_MAX"
    and "from_va_list (bytes st) ap = Some c" "va_holds (bytes st) P c as" "list_all (arg_ok (bytes st) P) as" "{s..<s + n} \<inter> P = {}"
    and "spec_print (pieces fmt 0) \<lparr>shown = [], counts = [], args = as\<rparr> = Some (ok, p)" "counts_ok (bytes st) P s n (counts p)"
  shows "vsnprintf s n format ap st = Some
    (if ok then (if length (shown p) < 2 ^ 31 then word_of_nat (length (shown p)) else 0x7FFFFFFF) else - 1,
     st\<lparr>bytes := (let base = store_counts (bytes st) (counts p) in if n = 0 then base else store_bytes base s (take (n - 1) (shown p) @ [0])),
        errno := if ok then errno st else EINVAL\<rparr>)"
proof -
  let ?m = "bytes st"
  have len: "c_string_len ?m format = Some (length fmt)" using c_string_len_cstr [OF assms(4), of 0] assms(5) by (simp add: c_string_len_def)
  have bs: "read_block ?m format (length fmt) = Some fmt" using cstr_read [OF assms(4), of "length fmt"] by simp
  have "prints ?m P s n \<lparr>shown = [], counts = [], args = as\<rparr> c (new_sink s n, ?m)"
    using assms(2,3,7-9) by (simp add: prints_def sink_holds_def new_sink_def store_counts_def counts_ok_def)
  from format_loop_spec [OF assms(10) this assms(11)] obtain c' out' where
    loop: "format_loop fmt 0 c (new_sink s n, ?m) = Some (ok, c', out')" "prints ?m P s n p c' out'" by blast
  obtain k where k: "terminate_sink out' =
      Some (k, if n = 0 then store_counts ?m (counts p) else store_bytes (store_counts ?m (counts p)) s (take (n - 1) (shown p) @ [0]))"
    "bytes_required k = min (length (shown p)) USIZE_MAX"
    using terminate_holds [of "store_counts ?m (counts p)" s n out' "shown p"] loop(2) by (auto simp: prints_def)
  show ?thesis
    using assms(1,2) len bs loop(1) k
    by (auto simp: vsnprintf_def assms(6) fail_vsnprintf_with_einval_def set_errno_def required_len_eq Let_def)
qed


text \<open>A memory given by its bytes, and a call in it.\<close>

definition mem_image :: "addr \<Rightarrow> u8 list \<Rightarrow> mem" where
  "mem_image start bs = (\<lambda>a. if start \<le> a \<and> a < start + length bs then Some (bs ! (a - start)) else None)"

lemma bytes_at_image: "start \<le> p \<Longrightarrow> take (length bs) (drop (p - start) img) = bs \<Longrightarrow> bytes_at (mem_image start img) p bs"
proof -
  assume p: "start \<le> p" and eq: "take (length bs) (drop (p - start) img) = bs"
  have fits: "length bs \<le> length img - (p - start)" by (subst eq [symmetric]) simp
  have "img ! (p + i - start) = bs ! i \<and> p + i < start + length img" if "i < length bs" for i
  proof -
    have "bs ! i = take (length bs) (drop (p - start) img) ! i" by (simp only: eq)
    then show ?thesis using p that fits by simp
  qed
  then show ?thesis using p by (simp add: bytes_at_iff mem_image_def)
qed

definition printf_image :: "u8 list" where
  "printf_image = le_bytes 4 48 @ le_bytes 4 176 @ le_bytes 8 132 @ le_bytes 8 0 @ replicate 8 0 @ le_bytes 8 5 @ le_bytes 8 160 @
     replicate 12 0 @ ascii ''hi'' @ [0] @ ascii ''%3d|%s'' @ [0] @ replicate 4 0"

definition printf_machine :: machine where
  "printf_machine = \<lparr>bytes = mem_image 100 printf_image, ptrs = Map.empty, errno = 0\<rparr>"

lemmas parse_simps = parse_format_directive_def parse_flags.simps parse_count_def parse_number_def parse_number_loop.simps
    parse_precision_def parse_length_modifier_def get_byte_def flag_of_def is_ascii_digit_def saturating_add_def saturating_mul_def USIZE_MAX_def
    directive_refused_def is_integer_conversion_def is_float_conversion_def is_pointer_conversion_def is_count_conversion_def

lemma sample_pieces: "pieces (ascii ''%3d|%s'') 0 = [Directive \<lparr>d_flags = 0, d_width = Some (Literal 3), d_precision = None, d_length = Default,
      d_conversion = ch CHR ''d'', d_next_index = 3\<rparr>, Byte (ch CHR ''|''), Directive \<lparr>d_flags = 0, d_width = None, d_precision = None, d_length = Default,
      d_conversion = ch CHR ''s'', d_next_index = 6\<rparr>]"
  by (simp add: parse_simps pieces.simps Let_def)

lemma sample_digits: "digits_text 5 10 False = [0x35]"
  by (simp add: digits_text_def reversed_digits.simps [of 5] reversed_digits.simps [of 0] digit_to_ascii_def)

lemma replicate_2: "replicate 2 x = [x, x]" by (simp add: numeral_2_eq_2)

lemma sample_arg: "signed_arg Default 5 = 5" by (simp add: signed_arg_def length_bits_def signed_take_bit_int_eq_self)

lemma sample_print: "spec_print (pieces (ascii ''%3d|%s'') 0) \<lparr>shown = [], counts = [], args = [Word 5, Text 160 (ascii ''hi'')]\<rparr> =
      Some (True, \<lparr>shown = ascii ''  5|hi'', counts = [], args = []\<rparr>)" 
  unfolding sample_pieces
  by (simp add: spec_directive_def spec_count_def spec_convert_def spec_string_def print_text_def padded_text_def layout_def integer_text_def Let_def
    sample_arg sample_digits left_align_def zero_pad_def force_sign_def alternate_form_def leading_space_for_positive_def has_flag_def zero_extended_def pad_left_def replicate_2)

lemma printf_machine_read:
  "100 \<le> p \<Longrightarrow> take (length bs) (drop (p - 100) printf_image) = bs \<Longrightarrow> bytes_at (bytes printf_machine) p bs"
  by (simp add: printf_machine_def bytes_at_image)

lemma printf_machine_call:
  "from_va_list (bytes printf_machine) 100 = Some \<lparr>gp_offset = 48, fp_offset = 176, reg_save_area = 0, overflow_arg_area = 132\<rparr>"
  "cstr (bytes printf_machine) 163 (ascii ''%3d|%s'')"
  "va_holds (bytes printf_machine) {132..<163} \<lparr>gp_offset = 48, fp_offset = 176, reg_save_area = 0, overflow_arg_area = 132\<rparr>
     [Word 5, Text 160 (ascii ''hi'')]"
  "list_all (arg_ok (bytes printf_machine) {132..<163}) [Word 5, Text 160 (ascii ''hi'')]"
proof -
  let ?m = "bytes printf_machine"
  have "read_block ?m 100 4 = Some (le_bytes 4 48)" "read_block ?m 104 4 = Some (le_bytes 4 176)" unfolding read_block_bytes_at
    by (simp; rule printf_machine_read; code_simp)+
  then have u32: "read_u32 ?m 100 = Some 48" "read_u32 ?m 104 = Some 176" by (simp_all add: read_u32_def le_val_le_bytes)
  have "u64_at ?m 108 132" "u64_at ?m 116 0" unfolding u64_at_def by (rule printf_machine_read; code_simp)+
  then show "from_va_list ?m 100 = Some \<lparr>gp_offset = 48, fp_offset = 176, reg_save_area = 0, overflow_arg_area = 132\<rparr>"
    by (simp add: from_va_list_def u32 read_u64_at)
  have "u64_at ?m 132 5" "u64_at ?m 140 160" unfolding u64_at_def by (rule printf_machine_read; code_simp)+
  then show "va_holds ?m {132..<163} \<lparr>gp_offset = 48, fp_offset = 176, reg_save_area = 0, overflow_arg_area = 132\<rparr>
      [Word 5, Text 160 (ascii ''hi'')]" by (simp add: slot_def advance_def)
  have "cstr ?m 160 (ascii ''hi'')" unfolding cstr_def by (intro conjI printf_machine_read; code_simp)
  then show "list_all (arg_ok ?m {132..<163}) [Word 5, Text 160 (ascii ''hi'')]" by (auto simp: USIZE_MAX_def)
  show "cstr ?m 163 (ascii ''%3d|%s'')" unfolding cstr_def by (intro conjI printf_machine_read; code_simp)
qed


end
