(* ===== verification/Print_Parse.thy ===== *)
theory Print_Parse
  imports Printf_Refine Conv
begin

text \<open>
  Formatting and conversion together: what \<^verbatim>\<open>vsnprintf\<close> of \<^verbatim>\<open>src/src/stdio/mod.rs\<close> prints for a number,
  \<^verbatim>\<open>strtol\<close> of \<^verbatim>\<open>src/src/stdlib/conv.rs\<close> reads back.
\<close>

section \<open>Digits\<close>

lemma digit_value_ascii: "d < 16 \<Longrightarrow> digit_value (digit_to_ascii d uppercase) = Some d"
proof -
  have "list_all (\<lambda>d. digit_value (digit_to_ascii d uppercase) = Some d) [0..<16]"
    by (cases uppercase) (simp_all add: digit_value_def digit_to_ascii_def upt_rec)
  then show "d < 16 \<Longrightarrow> digit_value (digit_to_ascii d uppercase) = Some d" by (simp only: list_all_iff set_upt) simp
qed

lemma digit_ascii_plain: "d < 10 \<Longrightarrow> \<not> is_ascii_space (digit_to_ascii d uppercase) \<and> digit_to_ascii d uppercase \<notin> {0, 0x2B, 0x2D}"
proof -
  have "list_all (\<lambda>d. \<not> is_ascii_space (digit_to_ascii d uppercase) \<and> digit_to_ascii d uppercase \<notin> {0, 0x2B, 0x2D}) [0..<10]"
    by (simp add: is_ascii_space_def digit_to_ascii_def upt_rec)
  then show "d < 10 \<Longrightarrow> \<not> is_ascii_space (digit_to_ascii d uppercase) \<and> digit_to_ascii d uppercase \<notin> {0, 0x2B, 0x2D}"
    by (simp only: list_all_iff set_upt) simp
qed

lemma reversed_digits_range: "2 \<le> radix \<Longrightarrow> set (reversed_digits v radix uppercase) \<subseteq> (\<lambda>d. digit_to_ascii d uppercase) ` {..<radix}"
proof (induction v radix uppercase rule: reversed_digits.induct)
  case (1 v radix uppercase)
  show ?case
  proof (cases "v = 0")
    case True
    then show ?thesis by (subst reversed_digits.simps) simp
  next
    case False
    have "v mod radix < radix" using "1.prems" by simp
    then show ?thesis using "1.IH" "1.prems" False by (subst reversed_digits.simps) auto
  qed
qed

lemma num_from_append: "num_from radix n (xs @ [b]) = num_from radix n xs * radix + digit_of b"
  by (simp add: num_from_def)

lemma num_from_digits: "2 \<le> radix \<Longrightarrow> radix \<le> 16 \<Longrightarrow> num_from radix 0 (digits_text v radix uppercase) = v"
  unfolding digits_text_def
proof (induction v radix uppercase rule: reversed_digits.induct)
  case (1 v radix uppercase)
  show ?case
  proof (cases "v = 0")
    case True
    then show ?thesis by (subst reversed_digits.simps) (simp add: num_from_def)
  next
    case False
    have "v mod radix < 16" using "1.prems" mod_less_divisor [of radix v] by linarith
    then show ?thesis using "1.IH" "1.prems" False digit_value_ascii [of "v mod radix" uppercase]
      by (subst reversed_digits.simps) (simp add: num_from_append digit_of_def)
  qed
qed

text \<open>The decimal text of a number, with at least one digit.\<close>

definition decimal_digits :: "nat \<Rightarrow> u8 list" where
  "decimal_digits v = zero_extended 1 (digits_text v 10 False)"

lemma decimal_digits_eq: "decimal_digits v = (if v = 0 then [digit_to_ascii 0 False] else digits_text v 10 False)"
proof (cases "v = 0")
  case True
  then show ?thesis by (simp add: decimal_digits_def zero_extended_def pad_left_def digit_to_ascii_def)
next
  case False
  then have "length (digits_text v 10 False) \<ge> 1" using digits_text_hd [of v 10 False] by (simp add: Suc_le_eq)
  then show ?thesis using False by (simp add: decimal_digits_def zero_extended_def pad_left_def)
qed

lemma decimal_digits_facts:
  "decimal_digits v \<noteq> []" "num_from 10 0 (decimal_digits v) = v"
  "b \<in> set (decimal_digits v) \<Longrightarrow> is_valid_digit_for_base b 10 \<and> \<not> is_ascii_space b \<and> b \<notin> {0, 0x2B, 0x2D}"
proof -
  show "decimal_digits v \<noteq> []" using digits_text_hd [of v 10 False] by (simp add: decimal_digits_eq)
  show "num_from 10 0 (decimal_digits v) = v"
    using num_from_digits [of 10 v False] digit_value_ascii [of 0 False] by (simp add: decimal_digits_eq num_from_def digit_of_def)
  assume b: "b \<in> set (decimal_digits v)"
  have "set (decimal_digits v) \<subseteq> (\<lambda>d. digit_to_ascii d False) ` {..<10}"
    using reversed_digits_range [of 10 v False] by (auto simp: decimal_digits_eq digits_text_def)
  then obtain d where "d < 10" "b = digit_to_ascii d False" using b by auto
  then show "is_valid_digit_for_base b 10 \<and> \<not> is_ascii_space b \<and> b \<notin> {0, 0x2B, 0x2D}"
    using digit_ascii_plain [of d False] digit_value_ascii [of d False] by (simp add: is_valid_digit_for_base_def)
qed

lemma digits_length_le: "2 \<le> radix \<Longrightarrow> v < radix ^ k \<Longrightarrow> length (reversed_digits v radix uppercase) \<le> k"
proof (induction v radix uppercase arbitrary: k rule: reversed_digits.induct)
  case (1 v radix uppercase)
  show ?case
  proof (cases "v = 0")
    case True
    then show ?thesis by (subst reversed_digits.simps) simp
  next
    case False
    then obtain j where k: "k = Suc j" using "1.prems" by (cases k) auto
    have "v div radix < radix ^ j" using "1.prems" k by (simp add: less_mult_imp_div_less mult.commute)
    then show ?thesis using "1.IH" [of j] "1.prems"(1) False k by (subst reversed_digits.simps) simp
  qed
qed

lemma decimal_digits_length: "v \<le> 2 ^ 63 \<Longrightarrow> length (decimal_digits v) \<le> 19"
proof -
  assume "v \<le> 2 ^ 63"
  then have "v < 10 ^ 19" by simp
  then show ?thesis using digits_length_le [of 10 v 19 False] by (simp add: decimal_digits_eq digits_text_def)
qed

definition decimal_number :: "int \<Rightarrow> u8 list" where
  "decimal_number v = (if v < 0 then [0x2D] else []) @ decimal_digits (nat \<bar>v\<bar>)"

lemma c_number_decimal: "c_number 10 (decimal_number v) = (v < 0, nat \<bar>v\<bar>, length (decimal_number v))"
proof -
  let ?ds = "decimal_digits (nat \<bar>v\<bar>)"
  obtain b bs where ds: "?ds = b # bs" using decimal_digits_facts(1) by (cases ?ds) auto
  have b: "\<not> is_ascii_space b" "b \<noteq> 0x2B" "b \<noteq> 0x2D" using decimal_digits_facts(3) [of b "nat \<bar>v\<bar>"] ds by auto
  have minus: "\<not> is_ascii_space 0x2D" by (simp add: is_ascii_space_def)
  have spaces: "dropWhile is_ascii_space (decimal_number v) = decimal_number v"
    using b minus by (simp add: decimal_number_def ds)
  have sign: "c_sign (decimal_number v) = (v < 0, ?ds)" using b by (simp add: c_sign_def decimal_number_def ds)
  have radix: "c_radix 10 ?ds = (10, ?ds)" by (simp add: c_radix_def)
  have all: "takeWhile (\<lambda>b. is_valid_digit_for_base b 10) ?ds = ?ds" using decimal_digits_facts(3) by (auto simp: takeWhile_eq_all_conv)
  have len: "length ?ds \<le> length (decimal_number v)" by (simp add: decimal_number_def)
  then show ?thesis
    using decimal_digits_facts(1,2) [of "nat \<bar>v\<bar>"] by (simp add: c_number_def spaces sign radix all Let_def)
qed


section \<open>Printing and reading back\<close>

text \<open>The directive \<^verbatim>\<open>%ld\<close> prints the decimal number of a word.\<close>

definition long_format :: "u8 list" where
  "long_format = ascii ''%ld''"

definition long_directive :: FormatDirective where
  "long_directive = \<lparr>d_flags = 0, d_width = None, d_precision = None, d_length = L, d_conversion = ch CHR ''d'', d_next_index = 3\<rparr>"

lemma pieces_long: "pieces long_format 0 = [Directive long_directive]"
  by (simp add: parse_simps pieces.simps Let_def long_format_def long_directive_def)

lemma integer_text_long: "integer_text long_directive False 0 None v = decimal_number v"
  by (simp add: integer_text_def layout_def Let_def long_directive_def zero_pad_def alternate_form_def force_sign_def
      leading_space_for_positive_def has_flag_def decimal_number_def decimal_digits_def)

lemma spec_print_long: "spec_print (pieces long_format 0) \<lparr>shown = [], counts = [], args = [Word w]\<rparr> =
    Some (True, \<lparr>shown = decimal_number (sint w), counts = [], args = []\<rparr>)"
proof -
  have "signed_arg L w = sint w" using narrow_signed(4) [of w] by (simp add: signed_arg_def length_bits_def)
  moreover have "left_align long_directive = False" "d_width long_directive = None" "d_precision long_directive = None"
      "d_conversion long_directive = ch CHR ''d''" "d_length long_directive = L"
    by (simp_all add: left_align_def has_flag_def long_directive_def)
  ultimately show ?thesis
    by (simp add: pieces_long spec_directive_def spec_count_def spec_convert_def print_text_def integer_text_long Let_def)
qed

text \<open>C33. Printing a \<^verbatim>\<open>long\<close> and reading it back is the identity: \<^verbatim>\<open>vsnprintf\<close> with \<^verbatim>\<open>%ld\<close> into a buffer of 21 bytes or more prints
  a number whose length it returns, and \<^verbatim>\<open>strtol\<close> in base 10 on the buffer returns the number printed, for every 64-bit value,
  consumes all of the text, and leaves \<^verbatim>\<open>errno\<close> as it was.\<close>

theorem printed_long_reads_back:
  assumes "format \<noteq> null" "s \<noteq> null" "21 \<le> n" "mapped (bytes st) s n" "cstr (bytes st) format long_format"
    and "from_va_list (bytes st) ap = Some c" "va_holds (bytes st) P c [Word w]" "{s..<s + n} \<inter> P = {}" "endptr_ok endptr st"
  shows "\<exists>len st'. vsnprintf s n format ap st = Some (word_of_nat len, st') \<and> len < n \<and>
    strtol s endptr 10 st' = Some (w, store_end endptr (s + len) st') \<and> errno st' = errno st"
proof -
  let ?text = "decimal_number (sint w)"
  define st' where "st' = st\<lparr>bytes := store_bytes (bytes st) s (?text @ [0]), errno := errno st\<rparr>"
  have "nat \<bar>sint w\<bar> \<le> 2 ^ 63" using sint_i64_bounds [of w] by simp
  then have "length (decimal_digits (nat \<bar>sint w\<bar>)) \<le> 19" by (rule decimal_digits_length)
  moreover have "length ?text \<le> 1 + length (decimal_digits (nat \<bar>sint w\<bar>))"
    unfolding decimal_number_def length_append by (rule add_mono) simp_all
  ultimately have len: "length ?text < 21" by linarith
  have "vsnprintf s n format ap st = Some
    (if True then (if length ?text < 2 ^ 31 then word_of_nat (length ?text) else 0x7FFFFFFF) else - 1,
     st\<lparr>bytes := (let base = store_counts (bytes st) [] in if n = 0 then base else store_bytes base s (take (n - 1) ?text @ [0])),
        errno := if True then errno st else EINVAL\<rparr>)"
    using vsnprintf_text [OF assms(1) _ assms(4,5) _ assms(6,7) _ assms(8) spec_print_long] assms(2)
    by (simp add: long_format_def USIZE_MAX_def counts_ok_def Let_def)
  then have printed: "vsnprintf s n format ap st = Some (word_of_nat (length ?text), st')"
    using len assms(3) by (simp add: st'_def store_counts_def)
  have "0 \<notin> set ?text" using decimal_digits_facts(3) [of 0] by (auto simp: decimal_number_def)
  then have str: "cstr (bytes st') s ?text" using bytes_at_store_bytes by (simp add: cstr_def st'_def del: bytes_at_append)
  have "strtol s endptr 10 st' = Some (w, store_end endptr (s + length ?text) st')"
    using strtol_value [OF str _ _ c_number_decimal, of endptr] assms(9) sint_i64_bounds [of w]
    by (simp add: valid_base_def endptr_ok_def st'_def Let_def)
  then show ?thesis using printed len assms(3) by (auto simp: st'_def)
qed


definition long_image :: "u8 list" where
  "long_image = le_bytes 4 48 @ le_bytes 4 176 @ le_bytes 8 124 @ le_bytes 8 0 @ [0x2E, 0xFB, 0xFF, 0xFF, 0xFF, 0xFF, 0xFF, 0xFF] @
     long_format @ [0] @ replicate 24 0"

definition long_machine :: machine where
  "long_machine = \<lparr>bytes = mem_image 100 long_image, ptrs = Map.empty, errno = 0\<rparr>"

lemma printed_long_reads_back_witness:
  "\<exists>len st'. vsnprintf 136 24 132 100 long_machine = Some (word_of_nat len, st') \<and> len < 24 \<and>
     strtol 136 null 10 st' = Some (- 1234, st') \<and> errno st' = 0"
proof -
  let ?m = "bytes long_machine"
  have read: "bytes_at ?m p bs" if "100 \<le> p" "take (length bs) (drop (p - 100) long_image) = bs" for p bs
    unfolding long_machine_def machine.simps using that by (rule bytes_at_image)
  have "unat (- 1234 :: c_ulong) = 18446744073709550382" by simp
  moreover have "le_bytes (Suc (Suc (Suc (Suc (Suc (Suc (Suc (Suc 0)))))))) 18446744073709550382 =
      [0x2E, 0xFB, 0xFF, 0xFF, 0xFF, 0xFF, 0xFF, 0xFF]" by simp
  moreover have "Suc (Suc (Suc (Suc (Suc (Suc (Suc (Suc 0))))))) = 8" by simp
  moreover have "bytes_at ?m 124 [0x2E, 0xFB, 0xFF, 0xFF, 0xFF, 0xFF, 0xFF, 0xFF]" by (rule read; code_simp)
  ultimately have "u64_at ?m 124 (- 1234)" by (simp only: u64_at_def)
  then have args_hold: "va_holds ?m {124..<132} \<lparr>gp_offset = 48, fp_offset = 176, reg_save_area = 0, overflow_arg_area = 124\<rparr> [Word (- 1234)]"
    by (simp add: slot_def advance_def)
  have "read_block ?m 100 4 = Some (le_bytes 4 48)" "read_block ?m 104 4 = Some (le_bytes 4 176)" unfolding read_block_bytes_at
    by (simp; rule read; code_simp)+
  then have u32: "read_u32 ?m 100 = Some 48" "read_u32 ?m 104 = Some 176" by (simp_all add: read_u32_def le_val_le_bytes)
  have "u64_at ?m 108 124" "u64_at ?m 116 0" unfolding u64_at_def by (rule read; code_simp)+
  then have cursor: "from_va_list ?m 100 = Some \<lparr>gp_offset = 48, fp_offset = 176, reg_save_area = 0, overflow_arg_area = 124\<rparr>"
    by (simp add: from_va_list_def u32 read_u64_at)
  have fmt: "cstr ?m 132 long_format" unfolding cstr_def by (intro conjI read; code_simp)
  have "bytes_at ?m 136 (replicate 24 0)" by (rule read; code_simp)
  from bytes_at_mapped [OF this] have mapped: "mapped ?m 136 24" by simp
  have "endptr_ok null long_machine" by (simp add: endptr_ok_def)
  from printed_long_reads_back [OF _ _ _ mapped fmt cursor args_hold _ this] show ?thesis
    by (auto simp: store_end_def long_machine_def)
qed

end
