(* ===== verification/Stream_Registry.thy ===== *)
theory Stream_Registry
  imports Threads
begin

text \<open>
  The registry of streams of \<^verbatim>\<open>src/src/stdio/mod.rs\<close>: a vector of states keyed by the address of the \<^verbatim>\<open>FILE\<close>, under one mutex of the
  runtime. Each definition is what one critical section does to the vector.
\<close>

definition EOF :: c_int where "EOF = - 1"
definition IOFBF :: c_int where "IOFBF = 0"
definition IOLBF :: c_int where "IOLBF = 1"
definition IONBF :: c_int where "IONBF = 2"
definition BUFSIZ :: nat where "BUFSIZ = 8192"

lemmas buffering_defs = IOFBF_def IOLBF_def IONBF_def

section \<open>Stream states\<close>

record StreamState =
  stream_key :: addr
  buffering_mode :: c_int
  buffer_size :: nat
  user_buffer_addr :: addr
  explicit_buffering_config :: bool
  io_active :: bool
  host_backed_io :: bool
  host_stream_identity :: "c_ulong option"
  file_lock_owner :: "tid option"
  file_lock_depth :: nat

type_synonym registry = "StreamState list"

definition new_stream :: "addr \<Rightarrow> StreamState" where
  "new_stream key = \<lparr>stream_key = key, buffering_mode = IONBF, buffer_size = 0, user_buffer_addr = 0,
     explicit_buffering_config = False, io_active = False, host_backed_io = False, host_stream_identity = None,
     file_lock_owner = None, file_lock_depth = 0\<rparr>"

definition is_valid_buffering_mode :: "c_int \<Rightarrow> bool" where
  "is_valid_buffering_mode mode \<longleftrightarrow> mode = IOFBF \<or> mode = IOLBF \<or> mode = IONBF"

text \<open>\<^verbatim>\<open>iter().find\<close> by the key.\<close>

definition find_stream :: "registry \<Rightarrow> addr \<Rightarrow> StreamState option" where
  "find_stream reg key = List.find (\<lambda>st. stream_key st = key) reg"

text \<open>
  \<^verbatim>\<open>stream_state_mut_or_insert\<close> gives a reference to the state of a key, inserted when it is missing: the state it shows,
  and the vector after the state behind the reference has changed.
\<close>

definition stream_state :: "registry \<Rightarrow> addr \<Rightarrow> StreamState" where
  "stream_state reg key = (case find_stream reg key of Some st \<Rightarrow> st | None \<Rightarrow> new_stream key)"

primrec stream_state_mut_or_insert :: "addr \<Rightarrow> (StreamState \<Rightarrow> StreamState) \<Rightarrow> registry \<Rightarrow> registry" where
  "stream_state_mut_or_insert key change [] = [change (new_stream key)]"
| "stream_state_mut_or_insert key change (st # reg) =
     (if stream_key st = key then change st # reg else st # stream_state_mut_or_insert key change reg)"

definition stream_state_is_prunable :: "StreamState \<Rightarrow> bool" where
  "stream_state_is_prunable st \<longleftrightarrow> buffering_mode st = IONBF \<and> buffer_size st = 0 \<and> user_buffer_addr st = 0 \<and>
     \<not> explicit_buffering_config st \<and> \<not> io_active st \<and> \<not> host_backed_io st \<and> host_stream_identity st = None \<and>
     file_lock_owner st = None \<and> file_lock_depth st = 0"

text \<open>\<^verbatim>\<open>registry.remove(position)\<close> at the first entry of a key.\<close>

primrec remove_stream :: "addr \<Rightarrow> registry \<Rightarrow> registry" where
  "remove_stream key [] = []"
| "remove_stream key (st # reg) = (if stream_key st = key then reg else st # remove_stream key reg)"

section \<open>The file lock\<close>

text \<open>One pass of the loop of \<^verbatim>\<open>lock_stream_file_internal\<close>: a return code, or a wait for a change of the registry.\<close>

definition lock_pass :: "tid \<Rightarrow> bool \<Rightarrow> addr \<Rightarrow> registry \<Rightarrow> c_int option \<times> registry" where
  "lock_pass current try_only key reg =
     (case file_lock_owner (stream_state reg key) of
        None \<Rightarrow> (Some 0, stream_state_mut_or_insert key (\<lambda>st. st\<lparr>file_lock_owner := Some current, file_lock_depth := 1\<rparr>) reg)
      | Some owner \<Rightarrow>
          if owner = current then
            (Some 0, stream_state_mut_or_insert key (\<lambda>st. st\<lparr>file_lock_depth := saturating_add (file_lock_depth st) 1\<rparr>) reg)
          else (if try_only then Some EBUSY else None, stream_state_mut_or_insert key (\<lambda>st. st) reg))"

text \<open>The critical section of \<^verbatim>\<open>funlockfile\<close>: whether waiters are notified, and the registry.\<close>

definition unlock_section :: "tid \<Rightarrow> addr \<Rightarrow> registry \<Rightarrow> bool \<times> registry" where
  "unlock_section current key reg =
     (case find_stream reg key of
        None \<Rightarrow> (False, reg)
      | Some st \<Rightarrow>
          if file_lock_owner st \<noteq> Some current \<or> file_lock_depth st = 0 then (False, reg)
          else if file_lock_depth st > 1 then
            (False, stream_state_mut_or_insert key (\<lambda>st. st\<lparr>file_lock_depth := file_lock_depth st - 1\<rparr>) reg)
          else
            (let free = (\<lambda>st. st\<lparr>file_lock_owner := None, file_lock_depth := 0\<rparr>) in
             (True, if stream_state_is_prunable (free st) then remove_stream key reg
                    else stream_state_mut_or_insert key free reg)))"

section \<open>Activity and configuration\<close>

definition clear_section :: "addr \<Rightarrow> registry \<Rightarrow> bool \<times> registry" where
  "clear_section key reg =
     (let reg' = filter (\<lambda>st. stream_key st \<noteq> key) reg in (length reg \<noteq> length reg', reg'))"

definition stream_explicit_buffering_mode :: "registry \<Rightarrow> addr \<Rightarrow> c_int option" where
  "stream_explicit_buffering_mode reg key =
     (case find_stream reg key of
        None \<Rightarrow> None
      | Some st \<Rightarrow> if explicit_buffering_config st then Some (buffering_mode st) else None)"

definition stream_can_use_internal_vfprintf_path :: "registry \<Rightarrow> addr \<Rightarrow> bool" where
  "stream_can_use_internal_vfprintf_path reg key =
     (case find_stream reg key of None \<Rightarrow> False | Some st \<Rightarrow> io_active st \<and> \<not> host_backed_io st)"

text \<open>The marks get the identity of the host stream, which is looked up first.\<close>

definition mark_active :: "bool \<Rightarrow> c_ulong option \<Rightarrow> StreamState \<Rightarrow> StreamState" where
  "mark_active standard identity st =
     (let st = st\<lparr>io_active := True\<rparr> in
      if standard then st\<lparr>host_backed_io := True, host_stream_identity := identity\<rparr> else st)"

definition mark_host_active :: "c_ulong option \<Rightarrow> StreamState \<Rightarrow> StreamState" where
  "mark_host_active identity st =
     (let previous = host_stream_identity st;
          st = (if previous \<noteq> None \<and> identity \<noteq> None \<and> previous \<noteq> identity
                then st\<lparr>buffering_mode := IONBF, buffer_size := 0, user_buffer_addr := 0, explicit_buffering_config := False\<rparr>
                else st)
      in st\<lparr>io_active := True, host_backed_io := True, host_stream_identity := identity\<rparr>)"

text \<open>A state whose address now belongs to another host stream loses its activity.\<close>

definition recycled :: "StreamState \<Rightarrow> c_ulong option \<Rightarrow> bool" where
  "recycled st identity \<longleftrightarrow>
     host_stream_identity st \<noteq> None \<and> identity \<noteq> None \<and> host_stream_identity st \<noteq> identity \<or>
     host_stream_identity st = None \<and> identity \<noteq> None"

definition forget_recycled :: "c_ulong option \<Rightarrow> StreamState \<Rightarrow> StreamState" where
  "forget_recycled identity st =
     (if io_active st \<and> host_backed_io st \<and> recycled st identity
      then st\<lparr>io_active := False, host_backed_io := False, host_stream_identity := identity\<rparr> else st)"

definition configure :: "c_int \<Rightarrow> nat \<Rightarrow> addr \<Rightarrow> StreamState \<Rightarrow> StreamState" where
  "configure mode sz buffer st =
     st\<lparr>buffering_mode := mode, buffer_size := if mode = IONBF then 0 else sz,
        user_buffer_addr := if mode = IONBF then 0 else buffer, explicit_buffering_config := True,
        host_backed_io := False, host_stream_identity := None\<rparr>"

text \<open>The critical section of \<^verbatim>\<open>setvbuf\<close>: whether the configuration is accepted.\<close>

definition setvbuf_section :: "c_ulong option \<Rightarrow> addr \<Rightarrow> c_int \<Rightarrow> nat \<Rightarrow> addr \<Rightarrow> registry \<Rightarrow> bool \<times> registry" where
  "setvbuf_section identity buffer mode sz key reg =
     (let reg = stream_state_mut_or_insert key (forget_recycled identity) reg in
      if io_active (stream_state reg key) then (False, reg)
      else (True, stream_state_mut_or_insert key (configure mode sz buffer) reg))"

section \<open>The vector as a map\<close>

lemma find_stream_simps [simp]:
  "find_stream [] key = None"
  "find_stream (st # reg) key = (if stream_key st = key then Some st else find_stream reg key)"
  by (simp_all add: find_stream_def)

lemma find_stream_key: "find_stream reg key = Some st \<Longrightarrow> stream_key st = key \<and> st \<in> set reg"
  by (induction reg) (auto split: if_splits)

lemma find_stream_None: "find_stream reg key = None \<longleftrightarrow> key \<notin> stream_key ` set reg"
  by (induction reg) auto

lemma stream_key_state [simp]: "stream_key (stream_state reg key) = key"
  by (auto simp: stream_state_def new_stream_def dest: find_stream_key split: option.split)

lemma find_update:
  assumes "\<And>st. stream_key (change st) = stream_key st"
  shows "find_stream (stream_state_mut_or_insert key change reg) k =
    (if k = key then Some (change (stream_state reg key)) else find_stream reg k)"
  by (induction reg) (auto simp: stream_state_def assms new_stream_def)

lemma keys_update:
  assumes "\<And>st. stream_key (change st) = stream_key st"
  shows "map stream_key (stream_state_mut_or_insert key change reg) =
    (if key \<in> stream_key ` set reg then map stream_key reg else map stream_key reg @ [key])"
  by (induction reg) (auto simp: assms new_stream_def)

lemma find_remove: "distinct (map stream_key reg) \<Longrightarrow>
    find_stream (remove_stream key reg) k = (if k = key then None else find_stream reg k)"
  by (induction reg) (auto simp: find_stream_None image_iff)

lemma keys_remove: "map stream_key (remove_stream key reg) = remove1 key (map stream_key reg)"
  by (induction reg) auto

lemma find_filter: "find_stream (filter (\<lambda>st. stream_key st \<noteq> key) reg) k = (if k = key then None else find_stream reg k)"
  by (induction reg) auto

lemma stream_state_update:
  assumes "\<And>st. stream_key (change st) = stream_key st"
  shows "stream_state (stream_state_mut_or_insert key change reg) k = (if k = key then change (stream_state reg key) else stream_state reg k)"
  by (simp add: stream_state_def [of "stream_state_mut_or_insert key change reg"] find_update [OF assms] stream_state_def)

end
