(* ===== verification/Printf_Newline.thy ===== *)
theory Printf_Newline
  imports Printf_Refine
begin

text \<open>
  The analysis of \<^verbatim>\<open>src/src/stdio/mod.rs\<close> that decides whether a line-buffered stream must be flushed after formatted output, and the
  test of the formats the internal formatter accepts: both walk over the format and the arguments without
  printing. The analysis is compared with the text of the specification.
\<close>

section \<open>The code\<close>

partial_function (option) prefix_contains_from :: "mem \<Rightarrow> addr \<Rightarrow> u8 \<Rightarrow> nat \<Rightarrow> nat \<Rightarrow> bool option" where
  "prefix_contains_from m cursor target max_len len =
     (if len < max_len then do {
        byte \<leftarrow> m cursor;
        if byte = 0 then Some False
        else if byte = target then Some True
        else prefix_contains_from m (cursor + 1) target max_len (saturating_add len 1) }
      else Some False)"

definition c_string_prefix_contains_byte :: "mem \<Rightarrow> addr \<Rightarrow> u8 \<Rightarrow> nat option \<Rightarrow> bool option" where
  "c_string_prefix_contains_byte m p target precision =
     prefix_contains_from m p target (case precision of None \<Rightarrow> USIZE_MAX | Some n \<Rightarrow> n) 0"

definition consume_count_conversion_argument :: "mem \<Rightarrow> VarArgCursor \<Rightarrow> (unit option \<times> VarArgCursor) option" where
  "consume_count_conversion_argument m c = do {
     (pointer, c) \<leftarrow> next_ptr m c;
     Some (case pointer of None \<Rightarrow> None | Some p \<Rightarrow> if p = null then None else Some (), c) }"

definition internal_vfprintf_supports_directive :: "FormatDirective \<Rightarrow> bool" where
  "internal_vfprintf_supports_directive d \<longleftrightarrow>
     d_conversion d \<in> set (ascii ''scpndiuxXo'') \<and> \<not> (d_conversion d = ch CHR ''c'' \<and> d_precision d \<noteq> None)"

definition line_buffer_newline_analysis_supports_directive :: "FormatDirective \<Rightarrow> bool" where
  "line_buffer_newline_analysis_supports_directive d \<longleftrightarrow>
     internal_vfprintf_supports_directive d \<or> is_float_conversion (d_conversion d)"

text \<open>A \<^verbatim>\<open>long double\<close> takes two words of the overflow area, which are read.\<close>

definition skip_long_double :: "mem \<Rightarrow> VarArgCursor \<Rightarrow> (unit option \<times> VarArgCursor) option" where
  "skip_long_double m c =
     (if overflow_arg_area c = null then Some (None, c)
      else do {
        _ \<leftarrow> read_u64 m (overflow_arg_area c);
        _ \<leftarrow> read_u64 m (overflow_arg_area c + 8);
        Some (Some (), c\<lparr>overflow_arg_area := overflow_arg_area c + 16\<rparr>) })"

definition advance_line_buffer_float_argument :: "mem \<Rightarrow> VarArgCursor \<Rightarrow> LengthModifier \<Rightarrow> (unit option \<times> VarArgCursor) option" where
  "advance_line_buffer_float_argument m c len =
     (case len of
        Default \<Rightarrow>
          if fp_offset c < 176 \<and> reg_save_area c \<noteq> null then Some (Some (), c\<lparr>fp_offset := fp_offset c + 16\<rparr>)
          else if overflow_arg_area c \<noteq> null then Some (Some (), c\<lparr>overflow_arg_area := overflow_arg_area c + 8\<rparr>)
          else Some (None, c)
      | L \<Rightarrow> skip_long_double m c
      | _ \<Rightarrow> Some (None, c))"

definition skip_arg :: "('a option \<times> VarArgCursor) option \<Rightarrow> (bool \<times> VarArgCursor) option" where
  "skip_arg r = map_option (\<lambda>(v, c). (v = None, c)) r"

text \<open>The argument of a conversion: whether the analysis ends with a flush, and the cursor after it.\<close>

definition newline_of_conversion :: "mem \<Rightarrow> FormatDirective \<Rightarrow> nat option \<Rightarrow> VarArgCursor \<Rightarrow> (bool \<times> VarArgCursor) option" where
  "newline_of_conversion m d precision c =
     (let conversion = d_conversion d in
      if conversion = ch CHR ''s'' then do {
        (source, c) \<leftarrow> next_ptr m c;
        case source of
          None \<Rightarrow> Some (True, c)
        | Some p \<Rightarrow>
            if p = null then Some (False, c)
            else do { found \<leftarrow> c_string_prefix_contains_byte m p 0x0A precision; Some (found, c) } }
      else if conversion = ch CHR ''c'' then do {
        (v, c) \<leftarrow> next_c_int m c;
        Some (case v of None \<Rightarrow> True | Some v \<Rightarrow> (ucast (v AND 0xFF) :: u8) = 0x0A, c) }
      else if conversion = ch CHR ''d'' \<or> conversion = ch CHR ''i'' then skip_arg (read_signed_argument m c (d_length d))
      else if is_float_conversion conversion then skip_arg (advance_line_buffer_float_argument m c (d_length d))
      else if conversion = ch CHR ''u'' \<or> conversion = ch CHR ''x'' \<or> conversion = ch CHR ''X'' \<or> conversion = ch CHR ''o''
      then skip_arg (read_unsigned_argument m c (d_length d))
      else if conversion = ch CHR ''p'' then skip_arg (next_ptr m c)
      else skip_arg (consume_count_conversion_argument m c))"

function newline_loop :: "mem \<Rightarrow> u8 list \<Rightarrow> nat \<Rightarrow> VarArgCursor \<Rightarrow> bool option" where
  "newline_loop m bs index c =
     (if index < length bs then
        (if bs ! index \<noteq> ch CHR ''%'' then
           (if bs ! index = 0x0A then Some True else newline_loop m bs (index + 1) c)
         else if get_byte bs (index + 1) = Some (ch CHR ''%'') then newline_loop m bs (index + 2) c
         else
           (case parse_format_directive bs (index + 1) of
              None \<Rightarrow> Some True
            | Some d \<Rightarrow>
                if \<not> line_buffer_newline_analysis_supports_directive d then Some True
                else do {
                  (width, c) \<leftarrow> resolve_width (d_width d) m c (left_align d);
                  if width = None then Some True
                  else do {
                    (precision, c) \<leftarrow> resolve_precision (d_precision d) m c;
                    case precision of
                      None \<Rightarrow> Some True
                    | Some precision \<Rightarrow> do {
                        (newline, c) \<leftarrow> newline_of_conversion m d precision c;
                        if newline then Some True else newline_loop m bs (d_next_index d) c } } }))
      else Some False)"
  by pat_completeness auto
termination
  by (relation "measure (\<lambda>(m, bs, index, c). length bs - index)") (auto dest!: parse_format_directive_next)

declare newline_loop.simps [simp del]

definition formatted_output_requires_host_line_buffer_flush :: "mem \<Rightarrow> addr \<Rightarrow> addr \<Rightarrow> bool option" where
  "formatted_output_requires_host_line_buffer_flush m format ap = do {
     format_len \<leftarrow> c_string_len m format;
     format_bytes \<leftarrow> read_block m format format_len;
     c \<leftarrow> from_va_list m ap;
     newline_loop m format_bytes 0 c }"

function supports_loop :: "u8 list \<Rightarrow> nat \<Rightarrow> bool" where
  "supports_loop bs index =
     (if index < length bs then
        (if bs ! index \<noteq> ch CHR ''%'' then supports_loop bs (index + 1)
         else if index + 1 = length bs then False
         else if bs ! (index + 1) = ch CHR ''%'' then supports_loop bs (index + 2)
         else
           (case parse_format_directive bs (index + 1) of
              None \<Rightarrow> False
            | Some d \<Rightarrow> if \<not> internal_vfprintf_supports_directive d then False else supports_loop bs (d_next_index d)))
      else True)"
  by pat_completeness auto
termination
  by (relation "measure (\<lambda>(bs, index). length bs - index)") (auto dest!: parse_format_directive_next)

declare supports_loop.simps [simp del]

definition internal_vfprintf_supports_format :: "mem \<Rightarrow> addr \<Rightarrow> bool option" where
  "internal_vfprintf_supports_format m format =
     (if format = null then Some False
      else do {
        format_len \<leftarrow> c_string_len m format;
        format_bytes \<leftarrow> read_block m format format_len;
        Some (supports_loop format_bytes 0) })"

section \<open>Texts without a newline\<close>

lemma digit_no_newline: "d < 16 \<Longrightarrow> digit_to_ascii d uppercase \<noteq> 0x0A"
proof -
  have "list_all (\<lambda>d. digit_to_ascii d uppercase \<noteq> 0x0A) [0..<16]"
    by (cases uppercase) (simp_all add: digit_to_ascii_def upt_rec)
  then show "d < 16 \<Longrightarrow> digit_to_ascii d uppercase \<noteq> 0x0A" by (simp only: list_all_iff set_upt) simp
qed

lemma digits_no_newline: "2 \<le> radix \<Longrightarrow> radix \<le> 16 \<Longrightarrow> 0x0A \<notin> set (digits_text v radix uppercase)"
  unfolding digits_text_def set_rev
proof (induction v radix uppercase rule: reversed_digits.induct)
  case (1 v radix uppercase)
  show ?case
  proof (cases "v = 0")
    case True
    then show ?thesis by (subst reversed_digits.simps) simp
  next
    case False
    have "v mod radix < 16" using "1.prems" mod_less_divisor [of radix v] by linarith
    then show ?thesis using "1.IH" "1.prems" False digit_no_newline [of "v mod radix" uppercase] by (subst reversed_digits.simps) auto
  qed
qed

lemma layout_newline: "0x0A \<in> set (layout left zero width lead body) \<longleftrightarrow> 0x0A \<in> set lead \<or> 0x0A \<in> set body"
  by (auto simp: layout_def Let_def)

lemma zero_extended_newline: "0x0A \<in> set (zero_extended k ds) \<longleftrightarrow> 0x0A \<in> set ds"
  by (auto simp: zero_extended_def pad_left_def)

lemma integer_text_newline: "0x0A \<notin> set (integer_text d left width precision v)"
proof -
  have ite: "0x0A \<notin> set (if c then xs else ys)" if "0x0A \<notin> set xs" "0x0A \<notin> set ys" for c and xs ys :: "u8 list"
    using that by simp
  show ?thesis unfolding integer_text_def Let_def layout_newline set_append Un_iff de_Morgan_disj
    by (intro conjI ite) (simp_all add: zero_extended_newline digits_no_newline)
qed

lemma pointer_text_newline: "0x0A \<notin> set (pointer_text d left width precision p)"
  using digits_no_newline [of 16 p False]
  by (simp add: pointer_text_def layout_newline zero_extended_newline sign_text_def pointer_sign_def)

lemma padded_text_newline: "0x0A \<in> set (padded_text left width bs) \<longleftrightarrow> 0x0A \<in> set bs"
  by (simp add: padded_text_def layout_newline)

section \<open>The analysis against the text\<close>

lemma prefix_contains_from_cstr:
  "cstr m p bs \<Longrightarrow> len + length bs < USIZE_MAX \<Longrightarrow> target \<noteq> 0 \<Longrightarrow>
   prefix_contains_from m p target max_len len = Some (target \<in> set (take (max_len - len) bs))"
proof (induction bs arbitrary: p len)
  case Nil
  then show ?case by (subst prefix_contains_from.simps) simp
next
  case (Cons b bs)
  have "saturating_add len 1 = len + 1" using Cons.prems(2) by (simp add: saturating_add_def)
  moreover have "take (max_len - len) (b # bs) = b # take (max_len - (len + 1)) bs" if "len < max_len"
    using that by (simp add: take_Cons')
  ultimately show ?case using Cons by (subst prefix_contains_from.simps) auto
qed

lemma string_newline:
  assumes "spec_string precision a = Some bs" "arg_ok m P a"
  shows "(if unat (arg_word a) = null then Some False else c_string_prefix_contains_byte m (unat (arg_word a)) 0x0A precision) =
    Some (0x0A \<in> set bs)"
proof (cases a)
  case (Word w)
  then have w: "w = 0" and bs: "bs = (case precision of None \<Rightarrow> ascii ''(null)'' | Some k \<Rightarrow> take k (ascii ''(null)''))"
    using assms(1) by (auto simp: spec_string_def Let_def split: if_splits)
  have "0x0A \<notin> set (ascii ''(null)'' :: u8 list)" by simp
  then have "0x0A \<notin> set bs" unfolding bs by (auto split: option.split dest: in_set_takeD simp del: ascii_def)
  then show ?thesis using Word w by simp
next
  case (Text p cs)
  then have p: "p \<noteq> null" "p < 2 ^ 64" "length cs < USIZE_MAX" "cstr m p cs" using assms(2) by auto
  have unat_p: "unat (arg_word a) = p" using p(2) Text by (simp add: unat_of_nat)
  have "bs = take (case precision of None \<Rightarrow> USIZE_MAX | Some n \<Rightarrow> n) cs"
    using assms(1) Text p(3) by (auto simp: spec_string_def split: option.splits)
  then show ?thesis
    using p by (simp add: unat_p c_string_prefix_contains_byte_def prefix_contains_from_cstr)
qed

lemma convert_newline:
  assumes spec: "spec_convert d left width precision p = Some (True, p')"
    and va: "va_holds m P c (args p)" and ok: "list_all (arg_ok m P) (args p)"
  shows "\<exists>c' xs. newline_of_conversion m d precision c = Some (0x0A \<in> set xs, c') \<and> shown p' = shown p @ xs \<and>
    va_holds m P c' (args p') \<and> list_all (arg_ok m P) (args p')"
proof -
  let ?c = "d_conversion d"
  have supported: "?c \<in> set (ascii ''scpndiuxXo'')" using spec by (auto simp: spec_convert_def Let_def split: if_splits)
  then obtain a as where as: "args p = a # as"
    using spec by (cases "args p") (auto simp: spec_convert_def Let_def split: if_splits)
  have va': "va_holds m P c (a # as)" and next_va: "va_holds m P (advance c) as" and a_ok: "arg_ok m P a" and as_ok: "list_all (arg_ok m P) as"
    using va ok as by simp_all
  note next_ptr = next_u64_va [OF va', of m, simplified]
  have ptr: "next_ptr m c = Some (Some (unat (arg_word a)), advance c)" by (simp add: next_ptr_def map_arg_def next_ptr)
  note int = next_c_int_va [OF va', of m, simplified]
  note signed = read_signed_va [OF va', of m "d_length d", simplified]
  note unsigned = read_unsigned_va [OF va', of m "d_length d", simplified]
  consider "?c = ch CHR ''s''" | "?c = ch CHR ''c''" | "?c = ch CHR ''p''" | "?c = ch CHR ''n''" | "?c = ch CHR ''d'' \<or> ?c = ch CHR ''i''"
    | "?c = ch CHR ''u'' \<or> ?c = ch CHR ''x'' \<or> ?c = ch CHR ''X'' \<or> ?c = ch CHR ''o''"
    using supported unfolding conversion_in by blast
  then show ?thesis
  proof cases
    case 1
    then obtain bs where bs: "spec_string precision a = Some bs" "p' = print_text (padded_text left width bs) (p\<lparr>args := as\<rparr>)"
      using spec as by (auto simp: spec_convert_def Let_def split: if_splits)
    have "newline_of_conversion m d precision c = Some (0x0A \<in> set (padded_text left width bs), advance c)"
      using 1 string_newline [OF bs(1) a_ok] by (auto simp: newline_of_conversion_def ptr padded_text_newline split: if_splits)
    then show ?thesis using bs(2) next_va as_ok by (auto simp: print_text_def)
  next
    case 2
    then have p': "p' = print_text (padded_text left width [ucast (arg_word a)]) (p\<lparr>args := as\<rparr>)"
      using spec as by (auto simp: spec_convert_def Let_def split: if_splits)
    have low: "ucast (ucast (arg_word a AND 0xFFFFFFFF) AND 0xFF :: 32 word) = (ucast (arg_word a) :: u8)"
      by (rule word_uint_eqI) (simp add: unsigned_ucast_eq uint_and_low min_def)
    have "newline_of_conversion m d precision c = Some (0x0A \<in> set (padded_text left width [ucast (arg_word a)]), advance c)"
      using 2 by (auto simp: newline_of_conversion_def int padded_text_newline low)
    then show ?thesis using p' next_va as_ok by (auto simp: print_text_def)
  next
    case 3
    then have p': "p' = print_text (pointer_text d left width precision (unat (arg_word a))) (p\<lparr>args := as\<rparr>)"
      using spec as by (auto simp: spec_convert_def Let_def split: if_splits)
    have "newline_of_conversion m d precision c = Some (False, advance c)"
      using 3 by (simp add: newline_of_conversion_def is_float_conversion_def ptr skip_arg_def)
    then show ?thesis using p' next_va as_ok pointer_text_newline by (fastforce simp: print_text_def)
  next
    case 4
    then have p': "arg_word a \<noteq> 0" "shown p' = shown p" "args p' = as"
      using spec as by (auto simp: spec_convert_def Let_def split: if_splits option.splits)
    have "newline_of_conversion m d precision c = Some (0x0A \<in> set [], advance c)"
      using 4 p'(1) by (simp add: newline_of_conversion_def is_float_conversion_def consume_count_conversion_argument_def ptr skip_arg_def unat_eq_0)
    then show ?thesis using p' next_va as_ok by fastforce
  next
    case 5
    then have p': "p' = print_text (integer_text d left width precision (signed_arg (d_length d) (arg_word a))) (p\<lparr>args := as\<rparr>)"
      using spec as by (auto simp: spec_convert_def Let_def split: if_splits)
    have "newline_of_conversion m d precision c = Some (False, advance c)"
      using 5 by (auto simp: newline_of_conversion_def signed skip_arg_def)
    then show ?thesis using p' next_va as_ok integer_text_newline by (fastforce simp: print_text_def)
  next
    case 6
    then have p': "p' = print_text (integer_text d left width precision (int (unsigned_arg (d_length d) (arg_word a)))) (p\<lparr>args := as\<rparr>)"
      using spec as by (auto simp: spec_convert_def Let_def split: if_splits)
    have "newline_of_conversion m d precision c = Some (False, advance c)"
      using 6 by (auto simp: newline_of_conversion_def is_float_conversion_def unsigned skip_arg_def)
    then show ?thesis using p' next_va as_ok integer_text_newline by (fastforce simp: print_text_def)
  qed
qed


lemma spec_directive_True:
  assumes "spec_directive d p = Some (True, p')" and va: "va_holds m P c (args p)" and ok: "list_all (arg_ok m P) (args p)"
  shows "\<exists>width left c1 precision c2 c' xs. resolve_width (d_width d) m c (left_align d) = Some (Some (width, left), c1) \<and>
    resolve_precision (d_precision d) m c1 = Some (Some precision, c2) \<and>
    newline_of_conversion m d precision c2 = Some (0x0A \<in> set xs, c') \<and> shown p' = shown p @ xs \<and>
    va_holds m P c' (args p') \<and> list_all (arg_ok m P) (args p')"
proof -
  obtain w as where w: "spec_count (d_width d) (args p) = Some (w, as)" using assms(1) by (auto simp: spec_directive_def bind_eq_Some_conv)
  obtain k as' where k: "spec_count (d_precision d) as = Some (k, as')" using assms(1) w by (auto simp: spec_directive_def bind_eq_Some_conv)
  obtain width left precision where conv: "spec_convert d left width precision (p\<lparr>args := as'\<rparr>) = Some (True, p')"
    and eqs: "width = (case w of None \<Rightarrow> 0 | Some w \<Rightarrow> nat \<bar>w\<bar>)" "left = (left_align d \<or> (case w of None \<Rightarrow> False | Some w \<Rightarrow> w < 0))"
      "precision = (case k of None \<Rightarrow> None | Some k \<Rightarrow> if k < 0 then None else Some (nat k))"
    using assms(1) by (auto simp: spec_directive_def w k Let_def)
  obtain c1 where c1: "resolve_width (d_width d) m c (left_align d) = Some (Some (width, left), c1)" "va_holds m P c1 as"
    using resolve_width_va [OF w va refl] unfolding eqs by blast
  obtain c2 where c2: "resolve_precision (d_precision d) m c1 = Some (Some precision, c2)" "va_holds m P c2 as'"
    using resolve_precision_va [OF k c1(2) refl] unfolding eqs by blast
  have "list_all (arg_ok m P) as'" using ok w k by (auto simp: spec_count_def split: option.splits CountSpec.splits list.splits if_splits)
  then show ?thesis using convert_newline [OF conv, of m P c2] c1(1) c2 by fastforce
qed

lemma spec_convert_shown: "spec_convert d left width precision p = Some (ok, p') \<Longrightarrow> \<exists>xs. shown p' = shown p @ xs"
  by (auto simp: spec_convert_def print_text_def Let_def split: if_splits list.splits option.splits)

lemma spec_directive_shown: "spec_directive d p = Some (ok, p') \<Longrightarrow> \<exists>xs. shown p' = shown p @ xs"
  by (auto simp: spec_directive_def bind_eq_Some_conv Let_def dest!: spec_convert_shown)

lemma spec_print_shown: "spec_print ps p = Some (ok, p') \<Longrightarrow> \<exists>xs. shown p' = shown p @ xs"
proof (induction ps p rule: spec_print.induct)
  case (4 d ps p)
  obtain ok1 p1 where d: "spec_directive d p = Some (ok1, p1)" using "4.prems" by (auto simp: bind_eq_Some_conv)
  then show ?case using spec_directive_shown [OF d] "4.IH" [OF d refl] "4.prems" by (cases ok1) auto
qed (auto simp: print_text_def)

text \<open>A conversion that the specification accepts is one the analysis knows, except for a \<^verbatim>\<open>%c\<close> with a precision.\<close>

lemma newline_loop_spec:
  "spec_print (pieces bs i) p = Some (True, p') \<Longrightarrow> va_holds m P c (args p) \<Longrightarrow> list_all (arg_ok m P) (args p) \<Longrightarrow>
   \<exists>r xs. newline_loop m bs i c = Some r \<and> shown p' = shown p @ xs \<and> (0x0A \<in> set xs \<longrightarrow> r) \<and>
     (supports_loop bs i \<and> r \<longrightarrow> 0x0A \<in> set xs)"
proof (induction bs i arbitrary: p c rule: pieces.induct)
  case (1 bs i)
  consider "\<not> i < length bs" | "i < length bs" "bs ! i \<noteq> ch CHR ''%''" | "i < length bs" "bs ! i = ch CHR ''%''" "i + 1 = length bs"
    | "i < length bs" "bs ! i = ch CHR ''%''" "i + 1 \<noteq> length bs" "bs ! (i + 1) = ch CHR ''%''"
    | "i < length bs" "bs ! i = ch CHR ''%''" "i + 1 \<noteq> length bs" "bs ! (i + 1) \<noteq> ch CHR ''%''" by blast
  then show ?case
  proof cases
    case 1
    then show ?thesis using "1.prems"(1) by (subst newline_loop.simps, subst (asm) pieces.simps) (simp add: ex_bool_eq)
  next
    case 2
    then have "pieces bs i = Byte (bs ! i) # pieces bs (i + 1)" by (subst pieces.simps) simp
    then have rest: "spec_print (pieces bs (i + 1)) (print_text [bs ! i] p) = Some (True, p')" using "1.prems"(1) by simp
    show ?thesis
    proof (cases "bs ! i = 0x0A")
      case True
      then have "newline_loop m bs i c = Some True" using 2 by (subst newline_loop.simps) simp
      moreover obtain xs where "shown p' = shown p @ 0x0A # xs" using spec_print_shown [OF rest] True by (auto simp: print_text_def)
      ultimately show ?thesis by auto
    next
      case False
      have "supports_loop bs i = supports_loop bs (i + 1)" using 2 by (subst supports_loop.simps) simp
      moreover have "newline_loop m bs i c = newline_loop m bs (i + 1) c" using 2 False by (subst newline_loop.simps) simp
      ultimately show ?thesis using "1.IH"(1) [OF 2 rest, of c] "1.prems"(2,3) False by (auto simp: print_text_def)
    qed
  next
    case 3
    then have "pieces bs i = [Stop]" by (subst pieces.simps) simp
    then show ?thesis using "1.prems"(1) by simp
  next
    case 4
    then have "pieces bs i = Byte (ch CHR ''%'') # pieces bs (i + 2)" by (subst pieces.simps) simp
    then have rest: "spec_print (pieces bs (i + 2)) (print_text [ch CHR ''%''] p) = Some (True, p')" using "1.prems"(1) by simp
    have "i + 1 < length bs" using 4 by simp
    then have "newline_loop m bs i c = newline_loop m bs (i + 2) c" "supports_loop bs i = supports_loop bs (i + 2)"
      using 4 by (subst newline_loop.simps, simp add: get_byte_def, subst supports_loop.simps, simp)
    then show ?thesis using "1.IH"(2) [of "print_text [ch CHR ''%''] p" c] rest 4 "1.prems"(2,3) by (auto simp: print_text_def)
  next
    case 5
    then obtain d where d: "parse_format_directive bs (i + 1) = Some d" and pieces: "pieces bs i = Directive d # pieces bs (d_next_index d)"
      using "1.prems"(1) by (cases "parse_format_directive bs (i + 1)"; subst (asm) pieces.simps) (auto simp: pieces.simps [of bs i])
    then obtain p1 where p1: "spec_directive d p = Some (True, p1)" and rest: "spec_print (pieces bs (d_next_index d)) p1 = Some (True, p')"
      using "1.prems"(1) by (auto simp: bind_eq_Some_conv split: if_splits)
    obtain width left c1 precision c2 c' xs where run: "resolve_width (d_width d) m c (left_align d) = Some (Some (width, left), c1)"
      "resolve_precision (d_precision d) m c1 = Some (Some precision, c2)"
      "newline_of_conversion m d precision c2 = Some (0x0A \<in> set xs, c')" and xs: "shown p1 = shown p @ xs"
      and va: "va_holds m P c' (args p1)" "list_all (arg_ok m P) (args p1)"
      using spec_directive_True [OF p1 "1.prems"(2,3)] by blast
    have no_percent: "get_byte bs (i + 1) \<noteq> Some (ch CHR ''%'')" using 5 by (simp add: get_byte_def)
    have loop: "newline_loop m bs i c = (if \<not> line_buffer_newline_analysis_supports_directive d then Some True
        else if 0x0A \<in> set xs then Some True else newline_loop m bs (d_next_index d) c')"
      using 5 no_percent d by (subst newline_loop.simps) (simp add: run)
    have supports: "supports_loop bs i \<longleftrightarrow> internal_vfprintf_supports_directive d \<and> supports_loop bs (d_next_index d)"
      using 5 d by (subst supports_loop.simps) simp
    obtain ys where ys: "shown p' = shown p1 @ ys" using spec_print_shown [OF rest] by blast
    show ?thesis
    proof (cases "line_buffer_newline_analysis_supports_directive d \<and> 0x0A \<notin> set xs")
      case True
      then show ?thesis using "1.IH"(3) [of d p1 c'] 5 d rest va xs unfolding supports loop by fastforce
    next
      case False
      then show ?thesis using xs ys unfolding supports loop by (auto simp: line_buffer_newline_analysis_supports_directive_def)
    qed
  qed
qed

lemma newline_analysis_value:
  assumes "cstr m format fmt" "length fmt < USIZE_MAX" "format \<noteq> null"
    and "from_va_list m ap = Some c" "va_holds m P c as" "list_all (arg_ok m P) as"
    and "spec_print (pieces fmt 0) \<lparr>shown = [], counts = [], args = as\<rparr> = Some (True, p)"
  shows "\<exists>flush. formatted_output_requires_host_line_buffer_flush m format ap = Some flush \<and>
    (0x0A \<in> set (shown p) \<longrightarrow> flush) \<and>
    (internal_vfprintf_supports_format m format = Some True \<and> flush \<longrightarrow> 0x0A \<in> set (shown p))"
proof -
  have fmt: "c_string_len m format = Some (length fmt)" "read_block m format (length fmt) = Some fmt"
    using c_string_len_cstr [OF assms(1), of 0] assms(2) cstr_read [OF assms(1), of "length fmt"] by (simp_all add: c_string_len_def)
  show ?thesis using newline_loop_spec [OF assms(7), of m P c] assms(3,5,6)
    by (auto simp: formatted_output_requires_host_line_buffer_flush_def internal_vfprintf_supports_format_def fmt assms(4))
qed



lemma sample_supported: "supports_loop (ascii ''%3d|%s'') 0"
  by (simp add: supports_loop.simps parse_simps internal_vfprintf_supports_directive_def Let_def)


end
