(* ===== verification/Streams.thy ===== *)
theory Streams
  imports Stream_Registry Printf_Newline
begin

text \<open>
  The stream functions of \<^verbatim>\<open>src/src/stdio/mod.rs\<close>, one call of one thread at a time. The host libc and the kernel are a record of
  functions; an optional function is a symbol that the dynamic linker may not find. A call gives \<open>None\<close> where the
  program would touch memory that is not mapped; the result \<open>None\<close> of a thread is that it waits for a lock.
\<close>

record 'w stdio = machine +
  streams :: registry
  world :: 'w

text \<open>What a function of the host can change: the memory, \<^verbatim>\<open>errno\<close> and its own state.\<close>

type_synonym ('w, 'r) host_call = "mem \<times> c_int \<times> 'w \<Rightarrow> 'r \<times> mem \<times> c_int \<times> 'w"

record 'w host =
  host_stdin :: addr
  host_stdout :: addr
  host_stderr :: addr
  host_vfprintf :: "(addr \<Rightarrow> addr \<Rightarrow> addr \<Rightarrow> ('w, c_int) host_call) option"
  host_fflush :: "(addr \<Rightarrow> ('w, c_int) host_call) option"
  host_fclose :: "(addr \<Rightarrow> ('w, c_int) host_call) option"
  host_fopen :: "(addr \<Rightarrow> addr \<Rightarrow> ('w, addr) host_call) option"
  host_tmpfile :: "('w, addr) host_call"
  host_fread :: "(addr \<Rightarrow> nat \<Rightarrow> nat \<Rightarrow> addr \<Rightarrow> ('w, nat) host_call) option"
  host_fputs :: "(addr \<Rightarrow> addr \<Rightarrow> ('w, c_int) host_call) option"
  last_os_error :: "'w \<Rightarrow> c_int"
  fd_identity :: "c_int \<Rightarrow> 'w \<Rightarrow> c_ulong option"
  sys_write :: "c_int \<Rightarrow> u8 list \<Rightarrow> 'w \<Rightarrow> c_long \<times> 'w"
  vec_at :: "mem \<Rightarrow> nat \<Rightarrow> addr"

definition run_host :: "('w, 'r) host_call \<Rightarrow> 'w stdio \<Rightarrow> 'r \<times> 'w stdio" where
  "run_host f s = (case f (bytes s, errno s, world s) of (r, m, e, w) \<Rightarrow> (r, s\<lparr>bytes := m, errno := e, world := w\<rparr>))"

section \<open>Descriptors and identities\<close>

text \<open>The field \<^verbatim>\<open>fileno\<close> of \<^verbatim>\<open>GlibcFilePrefix\<close>, behind two words and thirteen pointers.\<close>

definition fileno_field :: "addr \<Rightarrow> 'w stdio \<Rightarrow> c_int option" where
  "fileno_field stream s = read_u32 (bytes s) (stream + 112)"

definition host_fileno :: "addr \<Rightarrow> 'w stdio \<Rightarrow> (c_int \<times> 'w stdio) option" where
  "host_fileno stream s = do {
     descriptor \<leftarrow> fileno_field stream s;
     Some (descriptor, if sint descriptor < 0 then set_errno EINVAL s else s) }"

text \<open>The identity of a host stream, from the descriptor and the file behind it; \<^verbatim>\<open>errno\<close> is restored.\<close>

definition read_host_stream_identity :: "'w host \<Rightarrow> addr \<Rightarrow> 'w stdio \<Rightarrow> c_ulong option option" where
  "read_host_stream_identity h stream s =
     (if stream = null then Some None
      else do {
        (stream_fd, _) \<leftarrow> host_fileno stream s;
        Some (if sint stream_fd < 0 then None else fd_identity h stream_fd (world s)) })"

definition is_host_standard_stream :: "'w host \<Rightarrow> addr \<Rightarrow> bool" where
  "is_host_standard_stream h stream \<longleftrightarrow> stream = host_stdin h \<or> stream = host_stdout h \<or> stream = host_stderr h"

definition host_standard_stream_fd :: "'w host \<Rightarrow> addr \<Rightarrow> c_int option" where
  "host_standard_stream_fd h stream =
     (if stream = host_stdin h then Some 0
      else if stream = host_stdout h then Some 1
      else if stream = host_stderr h then Some 2
      else None)"

section \<open>Locks\<close>

definition lock_stream_file_internal :: "tid \<Rightarrow> addr \<Rightarrow> bool \<Rightarrow> 'w stdio \<Rightarrow> c_int option \<times> 'w stdio" where
  "lock_stream_file_internal t stream try_only s =
     (if stream = null then (Some EINVAL, set_errno EINVAL s)
      else (case lock_pass t try_only stream (streams s) of (r, reg) \<Rightarrow> (r, s\<lparr>streams := reg\<rparr>)))"

definition flockfile :: "tid \<Rightarrow> addr \<Rightarrow> 'w stdio \<Rightarrow> c_int option \<times> 'w stdio" where
  "flockfile t stream s = lock_stream_file_internal t stream False s"

definition ftrylockfile :: "tid \<Rightarrow> addr \<Rightarrow> 'w stdio \<Rightarrow> c_int option \<times> 'w stdio" where
  "ftrylockfile t stream s = lock_stream_file_internal t stream True s"

definition funlockfile :: "tid \<Rightarrow> addr \<Rightarrow> 'w stdio \<Rightarrow> 'w stdio" where
  "funlockfile t stream s =
     (if stream = null then set_errno EINVAL s else s\<lparr>streams := snd (unlock_section t stream (streams s))\<rparr>)"

text \<open>\<^verbatim>\<open>StreamFileLockGuard\<close>: the lock is taken for the rest of the body, and given back at its end.\<close>

definition with_stream_lock ::
  "tid \<Rightarrow> addr \<Rightarrow> ('w stdio \<Rightarrow> (c_int \<times> 'w stdio) option) \<Rightarrow> 'w stdio \<Rightarrow> (c_int option \<times> 'w stdio) option" where
  "with_stream_lock t stream body s =
     (case lock_stream_file_internal t stream False s of
        (None, s) \<Rightarrow> Some (None, s)
      | (Some r, s) \<Rightarrow> do {
          (status, s) \<leftarrow> body s;
          Some (Some status, if r = 0 then funlockfile t stream s else s) })"

section \<open>Marks\<close>

definition clear_stream_tracking_state :: "addr \<Rightarrow> 'w stdio \<Rightarrow> 'w stdio" where
  "clear_stream_tracking_state stream s = s\<lparr>streams := snd (clear_section stream (streams s))\<rparr>"

definition mark_stream_as_io_active :: "'w host \<Rightarrow> addr \<Rightarrow> 'w stdio \<Rightarrow> (bool \<times> 'w stdio) option" where
  "mark_stream_as_io_active h stream s = do {
     let standard = is_host_standard_stream h stream;
     identity \<leftarrow> (if standard then read_host_stream_identity h stream s else Some None);
     let reg = stream_state_mut_or_insert stream (mark_active standard identity) (streams s);
     Some (host_backed_io (stream_state reg stream), s\<lparr>streams := reg\<rparr>) }"

definition mark_host_stream_as_io_active :: "'w host \<Rightarrow> addr \<Rightarrow> 'w stdio \<Rightarrow> 'w stdio option" where
  "mark_host_stream_as_io_active h stream s =
     (if stream = null then Some s
      else do {
        identity \<leftarrow> read_host_stream_identity h stream s;
        Some (s\<lparr>streams := stream_state_mut_or_insert stream (mark_active True identity) (streams s)\<rparr>) })"

definition mark_all_streams_as_io_active :: "'w host \<Rightarrow> 'w stdio \<Rightarrow> 'w stdio option" where
  "mark_all_streams_as_io_active h s = do {
     let s = s\<lparr>streams := map (\<lambda>st. st\<lparr>io_active := True\<rparr>) (streams s)\<rparr>;
     s \<leftarrow> mark_host_stream_as_io_active h (host_stdin h) s;
     s \<leftarrow> mark_host_stream_as_io_active h (host_stdout h) s;
     mark_host_stream_as_io_active h (host_stderr h) s }"

definition mark_stream_as_host_io_active :: "'w host \<Rightarrow> addr \<Rightarrow> 'w stdio \<Rightarrow> 'w stdio option" where
  "mark_stream_as_host_io_active h stream s = do {
     identity \<leftarrow> read_host_stream_identity h stream s;
     Some (s\<lparr>streams := stream_state_mut_or_insert stream (mark_host_active identity) (streams s)\<rparr>) }"

section \<open>Buffering\<close>

definition setvbuf :: "'w host \<Rightarrow> tid \<Rightarrow> addr \<Rightarrow> addr \<Rightarrow> c_int \<Rightarrow> nat \<Rightarrow> 'w stdio \<Rightarrow> (c_int option \<times> 'w stdio) option" where
  "setvbuf h t stream buf mode sz s =
     (if stream = null \<or> \<not> is_valid_buffering_mode mode \<or> (mode \<noteq> IONBF \<and> sz = 0)
      then Some (Some EOF, set_errno EINVAL s)
      else with_stream_lock t stream (\<lambda>s. do {
        let errno_before = errno s;
        let st = stream_state (streams s) stream;
        identity \<leftarrow> (if io_active st \<and> host_backed_io st then read_host_stream_identity h stream s else Some None);
        let (accepted, reg) = setvbuf_section identity buf mode sz stream (streams s);
        let s = s\<lparr>streams := reg\<rparr>;
        Some (if accepted then (0, set_errno errno_before s) else (EOF, set_errno EINVAL s)) }) s)"

definition setbuffer :: "'w host \<Rightarrow> tid \<Rightarrow> addr \<Rightarrow> addr \<Rightarrow> nat \<Rightarrow> 'w stdio \<Rightarrow> (c_int option \<times> 'w stdio) option" where
  "setbuffer h t stream buf sz s =
     (let mode = (if buf = null then IONBF else IOFBF); effective_size = (if mode = IONBF then 0 else sz) in
      setvbuf h t stream buf mode effective_size s)"

definition setbuf :: "'w host \<Rightarrow> tid \<Rightarrow> addr \<Rightarrow> addr \<Rightarrow> 'w stdio \<Rightarrow> (c_int option \<times> 'w stdio) option" where
  "setbuf h t stream buf s =
     (let mode = (if buf = null then IONBF else IOFBF); sz = (if mode = IONBF then 0 else BUFSIZ) in
      setvbuf h t stream buf mode sz s)"

definition setlinebuf :: "'w host \<Rightarrow> tid \<Rightarrow> addr \<Rightarrow> 'w stdio \<Rightarrow> (c_int option \<times> 'w stdio) option" where
  "setlinebuf h t stream s = setvbuf h t stream null IOLBF BUFSIZ s"

section \<open>Descriptors, opening and closing\<close>

definition fileno :: "'w host \<Rightarrow> addr \<Rightarrow> 'w stdio \<Rightarrow> (c_int \<times> 'w stdio) option" where
  "fileno h stream s =
     (if stream = null then Some (- 1, set_errno EINVAL s)
      else
        (let errno_before = errno s in
         case host_standard_stream_fd h stream of
           Some fd \<Rightarrow> Some (fd, set_errno errno_before s)
         | None \<Rightarrow> do {
             (descriptor, s) \<leftarrow> host_fileno stream s;
             Some (descriptor, if sint descriptor \<ge> 0 then set_errno errno_before s else s) }))"

definition fileno_unlocked :: "'w host \<Rightarrow> addr \<Rightarrow> 'w stdio \<Rightarrow> (c_int \<times> 'w stdio) option" where
  "fileno_unlocked = fileno"

definition opened :: "c_int \<Rightarrow> addr \<times> 'w stdio \<Rightarrow> addr \<times> 'w stdio" where
  "opened errno_before = (\<lambda>(stream, s).
     (stream, if stream \<noteq> null then set_errno errno_before (clear_stream_tracking_state stream s) else s))"

definition tmpfile :: "'w host \<Rightarrow> 'w stdio \<Rightarrow> addr \<times> 'w stdio" where
  "tmpfile h s = opened (errno s) (run_host (host_tmpfile h) s)"

definition fopen :: "'w host \<Rightarrow> addr \<Rightarrow> addr \<Rightarrow> 'w stdio \<Rightarrow> addr \<times> 'w stdio" where
  "fopen h path mode s =
     (if path = null \<or> mode = null then (null, set_errno EINVAL s)
      else (case host_fopen h of
              None \<Rightarrow> (null, set_errno EINVAL s)
            | Some f \<Rightarrow> opened (errno s) (run_host (f path mode) s)))"

definition fclose :: "'w host \<Rightarrow> tid \<Rightarrow> addr \<Rightarrow> 'w stdio \<Rightarrow> c_int option \<times> 'w stdio" where
  "fclose h t stream s =
     (if stream = null then (Some EOF, set_errno EINVAL s)
      else (case host_fclose h of
              None \<Rightarrow> (Some EOF, set_errno EINVAL s)
            | Some f \<Rightarrow>
                (case lock_stream_file_internal t stream False s of
                   (None, s) \<Rightarrow> (None, s)
                 | (Some _, s) \<Rightarrow>
                     (let errno_before = errno s; (close_status, s) = run_host (f stream) s;
                          s = clear_stream_tracking_state stream s
                      in (Some close_status, if close_status = 0 then set_errno errno_before s else s)))))"

definition fread :: "'w host \<Rightarrow> addr \<Rightarrow> nat \<Rightarrow> nat \<Rightarrow> addr \<Rightarrow> 'w stdio \<Rightarrow> (nat \<times> 'w stdio) option" where
  "fread h p sz nmemb stream s =
     (if sz = 0 \<or> nmemb = 0 then Some (0, s)
      else if p = null \<or> stream = null then Some (0, set_errno EINVAL s)
      else
        (case host_fread h of
           None \<Rightarrow> Some (0, set_errno EINVAL s)
         | Some f \<Rightarrow> do {
             let errno_before = errno s;
             let (elements_read, s) = run_host (f p sz nmemb stream) s;
             s \<leftarrow> (if elements_read > 0 then mark_stream_as_host_io_active h stream s else Some s);
             Some (elements_read, if elements_read = nmemb then set_errno errno_before s else s) }))"

definition fputs :: "'w host \<Rightarrow> addr \<Rightarrow> addr \<Rightarrow> 'w stdio \<Rightarrow> (c_int \<times> 'w stdio) option" where
  "fputs h p stream s =
     (if p = null \<or> stream = null then Some (EOF, set_errno EINVAL s)
      else
        (case host_fputs h of
           None \<Rightarrow> Some (EOF, set_errno EINVAL s)
         | Some f \<Rightarrow> do {
             let errno_before = errno s;
             let (result, s) = run_host (f p stream) s;
             if sint result \<ge> 0 then do {
               s \<leftarrow> mark_stream_as_host_io_active h stream s;
               Some (result, set_errno errno_before s) }
             else Some (result, s) }))"

section \<open>Flushing\<close>

definition set_errno_from_host_flush_failure :: "'w host \<Rightarrow> 'w stdio \<Rightarrow> 'w stdio" where
  "set_errno_from_host_flush_failure h s =
     (let host_errno = (if sint (errno s) > 0 then errno s else last_os_error h (world s)) in
      if sint host_errno > 0 then set_errno host_errno s else set_errno EINVAL s)"

definition host_flush :: "'w host \<Rightarrow> addr \<Rightarrow> c_int \<Rightarrow> 'w stdio \<Rightarrow> c_int \<times> 'w stdio" where
  "host_flush h stream errno_before s =
     (case host_fflush h of
        None \<Rightarrow> (0, set_errno errno_before s)
      | Some f \<Rightarrow>
          (let (flush_status, s) = run_host (f stream) s in
           (flush_status, if flush_status = 0 then set_errno errno_before s else set_errno_from_host_flush_failure h s)))"

definition fflush :: "'w host \<Rightarrow> tid \<Rightarrow> addr \<Rightarrow> 'w stdio \<Rightarrow> (c_int option \<times> 'w stdio) option" where
  "fflush h t stream s =
     (if stream = null then do {
        let errno_before = errno s;
        s \<leftarrow> mark_all_streams_as_io_active h s;
        let (status, s) = host_flush h null errno_before s;
        Some (Some status, s) }
      else with_stream_lock t stream (\<lambda>s. do {
        let errno_before = errno s;
        (host_backed, s) \<leftarrow> mark_stream_as_io_active h stream s;
        Some (if \<not> host_backed then (0, s) else host_flush h stream errno_before s) }) s)"

section \<open>Formatted output\<close>

datatype VfprintfWritePath = NoStreamIo | InternalStreamIo | HostDelegated

definition unistd_errno_from_raw :: "c_long \<Rightarrow> c_int" where
  "unistd_errno_from_raw raw = (case try_i32 (sint (- raw)) of Some e \<Rightarrow> e | None \<Rightarrow> 0x7FFFFFFF)"

definition unistd_write :: "'w host \<Rightarrow> c_int \<Rightarrow> addr \<Rightarrow> nat \<Rightarrow> 'w stdio \<Rightarrow> (c_long \<times> 'w stdio) option" where
  "unistd_write h fd buf count s = do {
     bs \<leftarrow> read_block (bytes s) buf count;
     let (raw, w) = sys_write h fd bs (world s);
     let s = s\<lparr>world := w\<rparr>;
     Some (if sint raw < 0 then (- 1, set_errno (unistd_errno_from_raw raw) s) else (raw, s)) }"

text \<open>The loop that writes the rest of the text: whether all of it was written.\<close>

function write_rest :: "'w host \<Rightarrow> c_int \<Rightarrow> addr \<Rightarrow> nat \<Rightarrow> nat \<Rightarrow> 'w stdio \<Rightarrow> (bool \<times> 'w stdio) option" where
  "write_rest h fd buf len offset s =
     (if offset < len then do {
        (written, s) \<leftarrow> unistd_write h fd (buf + offset) (len - offset) s;
        if sint written < 0 then Some (False, s)
        else if written = 0 then Some (False, set_errno EINVAL s)
        else write_rest h fd buf len (offset + unat written) s }
      else Some (True, s))"
  by pat_completeness auto
termination
  by (relation "measure (\<lambda>(h, fd, buf, len, offset, s). len - offset)") (auto simp: unat_gt_0 intro!: diff_less_mono2)

declare write_rest.simps [simp del]

text \<open>The vector \<^verbatim>\<open>rendered\<close>, and the memory after it is dropped.\<close>

definition free_vec :: "addr \<Rightarrow> nat \<Rightarrow> 'w stdio \<Rightarrow> 'w stdio" where
  "free_vec p n s = s\<lparr>bytes := (\<lambda>a. if p \<le> a \<and> a < p + n then None else bytes s a)\<rparr>"

text \<open>
  The text is measured, rendered into a vector, and handed on: the length (a negative one for a failure) and
  what \<open>emit\<close> makes of it.
\<close>

definition render_into :: "addr \<Rightarrow> nat \<Rightarrow> addr \<Rightarrow> addr \<Rightarrow> (addr \<Rightarrow> nat \<Rightarrow> 'w stdio \<Rightarrow> (bool \<times> 'w stdio) option) \<Rightarrow> 'w stdio \<Rightarrow>
    (c_int \<times> VfprintfWritePath \<times> 'w stdio) option" where
  "render_into p rendered_capacity format ap emit s = do {
     let s = s\<lparr>bytes := store_bytes (bytes s) p (replicate rendered_capacity 0)\<rparr>;
     (rendered_len, s) \<leftarrow> vsnprintf p rendered_capacity format ap s;
     if sint rendered_len < 0 then Some (- 1, NoStreamIo, free_vec p rendered_capacity s)
     else do {
       (ok, s) \<leftarrow> emit p (nat (sint rendered_len)) s;
       Some (if ok then rendered_len else - 1, InternalStreamIo, free_vec p rendered_capacity s) } }"

definition render :: "'w host \<Rightarrow> addr \<Rightarrow> addr \<Rightarrow> (addr \<Rightarrow> nat \<Rightarrow> 'w stdio \<Rightarrow> (bool \<times> 'w stdio) option) \<Rightarrow> 'w stdio \<Rightarrow>
    (c_int \<times> VfprintfWritePath \<times> 'w stdio) option" where
  "render h format ap emit s = do {
     (required_len, s) \<leftarrow> vsnprintf null 0 format ap s;
     if sint required_len < 0 then Some (- 1, NoStreamIo, s)
     else
       (let rendered_capacity = saturating_add (nat (sint required_len)) 1 in
        render_into (vec_at h (bytes s) rendered_capacity) rendered_capacity format ap emit s) }"

definition emit_stream :: "'w host \<Rightarrow> addr \<Rightarrow> addr \<Rightarrow> nat \<Rightarrow> 'w stdio \<Rightarrow> (bool \<times> 'w stdio) option" where
  "emit_stream h stream p len s = do {
     let errno_before = errno s;
     (fd, s) \<leftarrow> (case host_standard_stream_fd h stream of
         Some fd \<Rightarrow> Some (fd, s)
       | None \<Rightarrow> host_fileno stream (set_errno 0 s));
     if sint fd < 0 then Some (False, if sint (errno s) \<le> 0 then set_errno EINVAL s else s)
     else do {
       (ok, s) \<leftarrow> write_rest h fd p len 0 s;
       Some (ok, if ok then set_errno errno_before s else s) } }"

definition emit_stdout :: "'w host \<Rightarrow> addr \<Rightarrow> nat \<Rightarrow> 'w stdio \<Rightarrow> (bool \<times> 'w stdio) option" where
  "emit_stdout h p len s = do {
     let errno_before = errno s;
     (ok, s) \<leftarrow> write_rest h 1 p len 0 s;
     Some (ok, if ok then set_errno errno_before s else s) }"

definition forward_internal_vfprintf :: "'w host \<Rightarrow> addr \<Rightarrow> addr \<Rightarrow> addr \<Rightarrow> 'w stdio \<Rightarrow> (c_int \<times> VfprintfWritePath \<times> 'w stdio) option" where
  "forward_internal_vfprintf h stream format ap s = render h format ap (emit_stream h stream) s"

definition forward_internal_vprintf_stdout :: "'w host \<Rightarrow> addr \<Rightarrow> addr \<Rightarrow> 'w stdio \<Rightarrow> (c_int \<times> 'w stdio) option" where
  "forward_internal_vprintf_stdout h format ap s = do {
     (r, _, s) \<leftarrow> render h format ap (emit_stdout h) s;
     Some (r, s) }"

definition forward_host_vfprintf :: "'w host \<Rightarrow> addr \<Rightarrow> addr \<Rightarrow> addr \<Rightarrow> 'w stdio \<Rightarrow> (c_int \<times> VfprintfWritePath \<times> 'w stdio) option" where
  "forward_host_vfprintf h stream format ap s = do {
     let has_explicit_buffering = (stream_explicit_buffering_mode (streams s) stream \<noteq> None);
     let can_use_internal_path = stream_can_use_internal_vfprintf_path (streams s) stream;
     internal \<leftarrow> (if \<not> has_explicit_buffering \<and> can_use_internal_path
                  then internal_vfprintf_supports_format (bytes s) format else Some False);
     if internal then forward_internal_vfprintf h stream format ap s
     else (case host_vfprintf h of
             Some f \<Rightarrow> (let (r, s) = run_host (f stream format ap) s in Some (r, HostDelegated, s))
           | None \<Rightarrow> forward_internal_vfprintf h stream format ap s) }"

definition mark_written :: "'w host \<Rightarrow> addr \<Rightarrow> VfprintfWritePath \<Rightarrow> 'w stdio \<Rightarrow> 'w stdio option" where
  "mark_written h stream path s =
     (case path of
        HostDelegated \<Rightarrow> mark_stream_as_host_io_active h stream s
      | InternalStreamIo \<Rightarrow> map_option snd (mark_stream_as_io_active h stream s)
      | NoStreamIo \<Rightarrow> Some s)"

text \<open>
  The flush after a write of a stream that is not fully buffered. It takes the lock that the caller holds once more, so it does not wait:
  that it would wait (the inner \<open>None\<close>) is no case of the program.
\<close>

definition vfprintf :: "'w host \<Rightarrow> tid \<Rightarrow> addr \<Rightarrow> addr \<Rightarrow> addr \<Rightarrow> 'w stdio \<Rightarrow> (c_int option \<times> 'w stdio) option" where
  "vfprintf h t stream format ap s =
     (if stream = null \<or> format = null \<or> ap = null then Some (Some (- 1), set_errno EINVAL s)
      else with_stream_lock t stream (\<lambda>s. do {
        let explicit_mode = stream_explicit_buffering_mode (streams s) stream;
        line_flush \<leftarrow> (if explicit_mode = Some IOLBF
            then formatted_output_requires_host_line_buffer_flush (bytes s) format ap else Some False);
        (status, path, s) \<leftarrow> forward_host_vfprintf h stream format ap s;
        s \<leftarrow> mark_written h stream path s;
        let should_flush = (explicit_mode = Some IONBF \<or> explicit_mode = Some IOLBF \<and> line_flush);
        if sint status \<ge> 0 \<and> should_flush \<and> path = HostDelegated then do {
          let errno_before = errno s;
          (flushed, s) \<leftarrow> fflush h t stream s;
          flush_status \<leftarrow> flushed;
          Some (if flush_status \<noteq> 0 then (- 1, s) else (status, set_errno errno_before s)) }
        else Some (status, s) }) s)"

definition vprintf :: "'w host \<Rightarrow> tid \<Rightarrow> addr \<Rightarrow> addr \<Rightarrow> 'w stdio \<Rightarrow> (c_int option \<times> 'w stdio) option" where
  "vprintf h t format ap s =
     (if format = null \<or> ap = null then Some (Some (- 1), set_errno EINVAL s)
      else if host_stdout h \<noteq> null then vfprintf h t (host_stdout h) format ap s
      else do {
        (r, s) \<leftarrow> forward_internal_vprintf_stdout h format ap s;
        Some (Some r, s) })"

end
