(* ===== verification/Stream_Output.thy ===== *)
theory Stream_Output
  imports Streams
begin

text \<open>
  Formatted output without the host: \<^verbatim>\<open>vfprintf\<close> renders the text with \<^verbatim>\<open>vsnprintf\<close> and writes it to the descriptor of the stream. The
  kernel may write less than it is given, and may fail.
\<close>

section \<open>Memories that agree on what a call reads\<close>

lemma read_block_agree:
  "(\<And>q. q \<in> P \<Longrightarrow> m q = m0 q) \<Longrightarrow> {p..<p + n} \<subseteq> P \<Longrightarrow> read_block m p n = read_block m0 p n"
proof (induction n arbitrary: p)
  case (Suc n)
  have "p \<in> P" "{Suc p..<Suc p + n} \<subseteq> P" using Suc.prems(2) by auto
  then show ?case using Suc.IH [OF Suc.prems(1)] Suc.prems(1) by simp
qed simp

lemma from_va_list_agree:
  assumes "\<And>q. q \<in> P \<Longrightarrow> m q = m0 q" "{ap..<ap + 24} \<subseteq> P"
  shows "from_va_list m ap = from_va_list m0 ap"
proof -
  have "read_block m p n = read_block m0 p n" if "ap \<le> p" "p + n \<le> ap + 24" for p n
    by (rule read_block_agree [OF assms(1)]) (use assms(2) that in \<open>auto simp: subset_iff\<close>)
  then show ?thesis by (simp add: from_va_list_def read_u32_def read_u64_def)
qed

lemma va_holds_agree:
  "(\<And>q. q \<in> P \<Longrightarrow> m q = m0 q) \<Longrightarrow> va_holds m0 P c as \<Longrightarrow> va_holds m P c as"
proof (induction as arbitrary: c)
  case (Cons a as)
  have "u64_at m (slot c) (arg_word a)" unfolding u64_at_def
    by (rule bytes_at_agree [OF Cons.prems(1)]) (use Cons.prems(2) in \<open>auto simp: u64_at_def\<close>)
  then show ?case using Cons by simp
qed simp

lemma arg_ok_agree: "(\<And>q. q \<in> P \<Longrightarrow> m q = m0 q) \<Longrightarrow> arg_ok m0 P a \<Longrightarrow> arg_ok m P a"
  by (cases a) (auto intro: cstr_agree)

section \<open>Counts and vectors\<close>

lemma store_counts_fixed: "(\<forall>m. store_counts m cs q = m q) \<or> (\<exists>v. \<forall>m. store_counts m cs q = v)"
proof (induction cs rule: rev_induct)
  case (snoc c cs)
  obtain p bs where c: "c = (p, bs)" by fastforce
  show ?case
  proof (cases "p \<le> q \<and> q < p + length bs")
    case True
    then have "q - p < length bs" "p + (q - p) = q" by arith+
    then have "store_bytes m' p bs q = Some (bs ! (q - p))" for m'
      using bytes_at_nth [OF bytes_at_store_bytes [of m' p bs], of "q - p"] by simp
    then show ?thesis by (simp add: c store_counts_snoc)
  next
    case False
    then have "store_bytes m' p bs q = m' q" for m' by (auto intro: store_bytes_other)
    then show ?thesis using snoc.IH by (simp add: c store_counts_snoc)
  qed
qed (simp add: store_counts_def)

lemma store_counts_again: "store_counts (store_counts m cs) cs = store_counts m cs"
proof
  show "store_counts (store_counts m cs) cs q = store_counts m cs q" for q using store_counts_fixed [of cs q] by auto
qed

lemma store_counts_agree: "m q = m' q \<Longrightarrow> store_counts m cs q = store_counts m' cs q"
  using store_counts_fixed [of cs q] by auto

section \<open>Formatting\<close>

text \<open>
  A call whose format, arguments and strings lie in the mapped addresses \<open>P\<close>, and what it prints. Its counts go to mapped
  memory outside \<open>P\<close>.
\<close>

definition call_prints :: "mem \<Rightarrow> addr set \<Rightarrow> addr \<Rightarrow> addr \<Rightarrow> printed \<Rightarrow> bool" where
  "call_prints m P format ap p \<longleftrightarrow> P \<subseteq> dom m \<and> counts_ok m P null 0 (counts p) \<and> format \<noteq> null \<and> {ap..<ap + 24} \<subseteq> P \<and>
     (\<exists>fmt c as. cstr m format fmt \<and> length fmt < USIZE_MAX \<and> {format..format + length fmt} \<subseteq> P \<and>
        from_va_list m ap = Some c \<and> va_holds m P c as \<and> list_all (arg_ok m P) as \<and>
        spec_print (pieces fmt 0) \<lparr>shown = [], counts = [], args = as\<rparr> = Some (True, p))"

lemma call_prints_agree:
  assumes "call_prints m0 P format ap p" "\<And>q. q \<in> P \<Longrightarrow> m q = m0 q" "\<And>q. q \<in> dom m0 \<Longrightarrow> q \<in> dom m"
  shows "call_prints m P format ap p"
proof -
  from assms(1) obtain fmt c as where call: "{ap..<ap + 24} \<subseteq> P" "{format..format + length fmt} \<subseteq> P" "cstr m0 format fmt"
    "from_va_list m0 ap = Some c" "va_holds m0 P c as" "list_all (arg_ok m0 P) as"
    and rest: "P \<subseteq> dom m0" "counts_ok m0 P null 0 (counts p)" "format \<noteq> null" "length fmt < USIZE_MAX"
      "spec_print (pieces fmt 0) \<lparr>shown = [], counts = [], args = as\<rparr> = Some (True, p)"
    unfolding call_prints_def by blast
  have mapped: "mapped m0 q k \<Longrightarrow> mapped m q k" for q k using assms(3) by (auto simp: mapped_def)
  have "counts_ok m P null 0 (counts p)"
    using rest(2) mapped by (fastforce simp: counts_ok_def list_all_iff)
  moreover have "P \<subseteq> dom m" using rest(1) assms(3) by blast
  moreover have "list_all (arg_ok m P) as" using call(6) arg_ok_agree [OF assms(2)] by (rule list.pred_mono_strong)
  ultimately show ?thesis
    using call rest cstr_agree [OF assms(2) call(2,3)] from_va_list_agree [OF assms(2) call(1)] va_holds_agree [OF assms(2) call(5)]
    unfolding call_prints_def by auto
qed

lemma counts_apart:
  assumes "counts_ok m P null 0 cs" "{s..<s + n} \<inter> {a. m a \<noteq> None} = {}"
  shows "counts_ok m P s n cs"
proof -
  have "{q..<q + k} \<inter> {s..<s + n} = {}" if "mapped m q k" for q k
  proof -
    have "m a \<noteq> None" if "q \<le> a" "a < q + k" for a
    proof -
      have "a - q < k" "q + (a - q) = a" using that by arith+
      then show ?thesis using mapped_less [OF \<open>mapped m q k\<close>, of "a - q"] by auto
    qed
    then have "{q..<q + k} \<subseteq> {a. m a \<noteq> None}" by auto
    then show ?thesis using assms(2) by blast
  qed
  then show ?thesis using assms(1) by (fastforce simp: counts_ok_def list_all_iff)
qed

lemma vsnprintf_call:
  assumes "call_prints (bytes st) P format ap p" "n \<noteq> 0 \<longrightarrow> s \<noteq> null" "mapped (bytes st) s n" "{s..<s + n} \<inter> P = {}"
    "counts_ok (bytes st) P s n (counts p)" "length (shown p) < 2 ^ 31"
  shows "vsnprintf s n format ap st = Some (word_of_nat (length (shown p)), st\<lparr>bytes :=
     (let base = store_counts (bytes st) (counts p) in if n = 0 then base else store_bytes base s (take (n - 1) (shown p) @ [0]))\<rparr>)"
proof -
  from assms(1) obtain fmt c as where call: "cstr (bytes st) format fmt" "length fmt < USIZE_MAX"
    "from_va_list (bytes st) ap = Some c" "va_holds (bytes st) P c as" "list_all (arg_ok (bytes st) P) as" "format \<noteq> null"
    "spec_print (pieces fmt 0) \<lparr>shown = [], counts = [], args = as\<rparr> = Some (True, p)" unfolding call_prints_def by blast
  show ?thesis
    using vsnprintf_text [OF call(6) assms(2,3) call(1-5) assms(4) call(7) assms(5)] assms(6) by simp
qed

text \<open>The rendered text stands in the vector; without the vector the memory holds the counts.\<close>

lemma rendered:
  fixes s :: "'w stdio"
  assumes call: "call_prints (bytes s) P format ap p" and small: "length (shown p) < 2 ^ 31 - 1"
    and vec: "v = vec_at h (store_counts (bytes s) (counts p)) (Suc (length (shown p)))" "v \<noteq> null"
      "{v..<v + Suc (length (shown p))} \<inter> {a. bytes s a \<noteq> None} = {}"
  obtains m where "render h format ap emit s = (case emit v (length (shown p)) (s\<lparr>bytes := m\<rparr>) of None \<Rightarrow> None
      | Some (ok, s') \<Rightarrow> Some (if ok then word_of_nat (length (shown p)) else - 1, InternalStreamIo, free_vec v (Suc (length (shown p))) s'))"
    and "bytes_at m v (shown p)"
    and "\<And>s' :: 'w stdio. bytes s' = m \<Longrightarrow> bytes (free_vec v (Suc (length (shown p))) s') = store_counts (bytes s) (counts p)"
    and "\<And>q. q \<in> P \<Longrightarrow> m q = bytes s q"
proof -
  let ?m = "bytes s" and ?n = "Suc (length (shown p))" and ?cs = "counts p"
  define m1 where "m1 = store_bytes (store_counts ?m ?cs) v (replicate ?n 0)"
  define m2 where "m2 = store_bytes (store_counts m1 ?cs) v (shown p @ [0])"
  have P: "P \<subseteq> dom ?m" "counts_ok ?m P null 0 ?cs" using call by (simp_all add: call_prints_def)
  have v_P: "{v..<v + ?n} \<inter> P = {}" using P(1) vec(3) by blast
  have ok: "counts_ok ?m P v ?n ?cs" by (rule counts_apart [OF P(2) vec(3)])
  have out: "store_bytes m' v xs a = m' a" if "\<not> (v \<le> a \<and> a < v + ?n)" "length xs = ?n" for m' xs a
    using that by (intro store_bytes_other) auto
  have m1_P: "m1 q = ?m q" if "q \<in> P" for q
  proof -
    have "m1 q = store_counts ?m ?cs q" unfolding m1_def by (intro out) (use that v_P in auto)
    also have "\<dots> = ?m q" using that by (intro store_counts_other [OF P(2)]) simp
    finally show ?thesis .
  qed
  have mapped1: "mapped m1 q k" if "mapped ?m q k" for q k
    unfolding m1_def by (intro mapped_store_bytes store_counts_mapped that)
  then have dom1: "q \<in> dom m1" if "q \<in> dom ?m" for q using that mapped1 [of q 1] by (auto simp: mapped_def)
  have call1: "call_prints m1 P format ap p" by (rule call_prints_agree [OF call m1_P dom1])
  have "bytes_at m1 v (replicate ?n 0)" unfolding m1_def by (rule bytes_at_store_bytes)
  from bytes_at_mapped [OF this] have v_mapped: "mapped m1 v ?n" by simp
  have ok1: "counts_ok m1 P v ?n ?cs"
    using ok mapped1 by (fastforce simp: counts_ok_def list_all_iff)
  have first: "vsnprintf null 0 format ap s = Some (word_of_nat (length (shown p)), s\<lparr>bytes := store_counts ?m ?cs\<rparr>)"
    using vsnprintf_call [OF call, of 0 null] P(2) small by (simp add: mapped_def Let_def)
  have second: "vsnprintf v ?n format ap (s\<lparr>bytes := m1\<rparr>) = Some (word_of_nat (length (shown p)), s\<lparr>bytes := m2\<rparr>)"
    using vsnprintf_call [of "s\<lparr>bytes := m1\<rparr>" P format ap p ?n v] call1 vec(2) v_mapped v_P ok1 small by (simp add: m2_def Let_def)
  have len: "sint (word_of_nat (length (shown p)) :: c_int) = int (length (shown p))"
    using small by (simp add: signed_of_nat signed_take_bit_int_eq_self)
  have cap: "saturating_add (length (shown p)) (Suc 0) = ?n"
    using small by (simp add: saturating_add_def USIZE_MAX_def)
  show thesis
  proof
    show "render h format ap emit s = (case emit v (length (shown p)) (s\<lparr>bytes := m2\<rparr>) of None \<Rightarrow> None
      | Some (ok, s') \<Rightarrow> Some (if ok then word_of_nat (length (shown p)) else - 1, InternalStreamIo, free_vec v ?n s'))"
    proof -
      have "render h format ap emit s = render_into v ?n format ap emit (s\<lparr>bytes := store_counts ?m ?cs\<rparr>)"
        unfolding render_def first using small by (simp add: cap len Let_def vec(1))
      also have "\<dots> = (case emit v (length (shown p)) (s\<lparr>bytes := m2\<rparr>) of None \<Rightarrow> None
        | Some (ok, s') \<Rightarrow> Some (if ok then word_of_nat (length (shown p)) else - 1, InternalStreamIo, free_vec v ?n s'))"
        using second unfolding m1_def render_into_def Let_def
        by (simp add: len del: replicate.simps split: option.split)
      finally show ?thesis .
    qed
    show "bytes_at m2 v (shown p)"
      using bytes_at_store_bytes [of "store_counts m1 ?cs" v "shown p @ [0]"] by (simp add: m2_def bytes_at_append)
    show "bytes (free_vec v ?n s') = store_counts ?m ?cs" if "bytes s' = m2" for s' :: "'w stdio"
    proof
      fix a
      show "bytes (free_vec v ?n s') a = store_counts ?m ?cs a"
      proof (cases "v \<le> a \<and> a < v + ?n")
        case True
        then have "?m a = None" using vec(3) by auto
        then have "store_counts ?m ?cs a = None" using store_counts_other [OF ok, of a ?m] True by auto
        then show ?thesis using True by (simp add: free_vec_def)
      next
        case False
        then have "m2 a = store_counts m1 ?cs a" unfolding m2_def by (intro out) auto
        also have "m1 a = store_counts ?m ?cs a" unfolding m1_def by (intro out False) simp
        then have "store_counts m1 ?cs a = store_counts (store_counts ?m ?cs) ?cs a" by (rule store_counts_agree)
        finally show ?thesis using False by (auto simp: free_vec_def that store_counts_again)
      qed
    qed
    show "m2 q = ?m q" if "q \<in> P" for q
    proof -
      have "m2 q = store_counts m1 ?cs q" unfolding m2_def by (intro out) (use that v_P in auto)
      also have "\<dots> = m1 q" using that by (intro store_counts_other [OF ok1]) simp
      also have "\<dots> = ?m q" by (rule m1_P [OF that])
      finally show ?thesis .
    qed
  qed
qed

section \<open>Writing\<close>

text \<open>
  What \<^verbatim>\<open>write\<close> does to the bytes that arrived at a descriptor: it fails without an effect, or writes a first part of what it is
  given, perhaps nothing.
\<close>

definition writes_log :: "'w host \<Rightarrow> c_int \<Rightarrow> ('w \<Rightarrow> u8 list) \<Rightarrow> bool" where
  "writes_log h fd log \<longleftrightarrow> (\<forall>bs w. length bs < 2 ^ 63 \<longrightarrow>
     (case sys_write h fd bs w of (raw, w') \<Rightarrow> sint raw < 0 \<and> log w' = log w \<or>
        (\<exists>k\<le>length bs. raw = word_of_nat k \<and> log w' = log w @ take k bs)))"

lemma writes_logD: "writes_log h fd log \<Longrightarrow> length bs < 2 ^ 63 \<Longrightarrow> sys_write h fd bs w = (raw, w') \<Longrightarrow>
    sint raw < 0 \<and> log w' = log w \<or> (\<exists>k\<le>length bs. raw = word_of_nat k \<and> log w' = log w @ take k bs)"
  unfolding writes_log_def by (drule spec [of _ bs], drule spec [of _ w]) simp

lemma unistd_errno_positive: "sint raw < 0 \<Longrightarrow> 0 < sint (unistd_errno_from_raw raw)"
proof -
  assume neg: "sint raw < 0"
  show ?thesis
  proof (cases "sint raw = - (2 ^ 63)")
    case True
    have "raw = word_of_int (sint raw)" by simp
    then have "raw = word_of_int (- (2 ^ 63))" unfolding True .
    then show ?thesis by (simp add: unistd_errno_from_raw_def try_i32_def)
  next
    case False
    have "- raw = word_of_int (- sint raw)" by simp
    then have "sint (- raw) = - sint raw"
      using False neg sint_i64_bounds [of raw] by (simp only: sint_word_of_int_i64)
    then have "0 < sint e" if "try_i32 (sint (- raw)) = Some e" for e using that neg unfolding try_i32_Some by simp
    then show ?thesis by (cases "try_i32 (sint (- raw))") (simp_all add: unistd_errno_from_raw_def)
  qed
qed

lemma sint_length: "k < 2 ^ 63 \<Longrightarrow> sint (word_of_nat k :: c_long) = int k \<and> unat (word_of_nat k :: c_long) = k"
  by (simp add: signed_of_nat signed_take_bit_int_eq_self unat_of_nat)

lemma write_rest_log:
  assumes "writes_log h fd log" "length text < 2 ^ 63"
  shows "bytes_at (bytes s) buf text \<Longrightarrow> offset \<le> length text \<Longrightarrow>
    \<exists>ok s' k. write_rest h fd buf (length text) offset s = Some (ok, s') \<and> bytes s' = bytes s \<and> streams s' = streams s \<and>
      offset \<le> k \<and> k \<le> length text \<and> log (world s') = log (world s) @ take (k - offset) (drop offset text) \<and>
      (if ok then k = length text \<and> errno s' = errno s else 0 < sint (errno s'))"
proof (induction "length text - offset" arbitrary: offset s rule: less_induct)
  case less
  show ?case
  proof (cases "offset < length text")
    case False
    then show ?thesis using less.prems by (subst write_rest.simps) auto
  next
    case True
    let ?rest = "drop offset text"
    have rest: "read_block (bytes s) (buf + offset) (length text - offset) = Some ?rest"
      using less.prems bytes_at_append [of "bytes s" buf "take offset text" ?rest] True by (simp add: read_block_bytes_at)
    obtain raw w where raw: "sys_write h fd ?rest (world s) = (raw, w)" by fastforce
    have "length ?rest < 2 ^ 63" using assms(2) by simp
    then consider "sint raw < 0" "log w = log (world s)"
      | j where "j \<le> length ?rest" "raw = word_of_nat j" "log w = log (world s) @ take j ?rest"
      using writes_logD [OF assms(1) _ raw] by blast
    then show ?thesis
    proof cases
      case 1
      let ?s = "set_errno (unistd_errno_from_raw raw) (s\<lparr>world := w\<rparr>)"
      have "write_rest h fd buf (length text) offset s = Some (False, ?s)"
        using True rest raw 1(1) by (subst write_rest.simps) (simp add: unistd_write_def)
      moreover have "0 < sint (errno ?s)" using unistd_errno_positive [OF 1(1)] by simp
      ultimately show ?thesis using 1(2) less.prems(2) by (intro exI [of _ False] exI [of _ ?s] exI [of _ offset]) (simp add: set_errno_def)
    next
      case (2 j)
      have j: "j < 2 ^ 63" using 2(1) assms(2) by simp
      note sint_j = sint_length [OF j]
      let ?s = "s\<lparr>world := w\<rparr>"
      have wr: "unistd_write h fd (buf + offset) (length text - offset) s = Some (raw, ?s)"
        using rest raw sint_j 2(2) by (simp add: unistd_write_def)
      show ?thesis
      proof (cases "j = 0")
        case True
        have "write_rest h fd buf (length text) offset s = Some (False, set_errno EINVAL ?s)"
          using \<open>offset < length text\<close> wr True 2(2) by (subst write_rest.simps) simp
        then show ?thesis using 2(3) True less.prems(2)
          by (intro exI [of _ False] exI [of _ "set_errno EINVAL ?s"] exI [of _ offset]) (simp add: set_errno_def EINVAL_def)
      next
        case False
        have raw0: "raw \<noteq> 0" "unat raw = j" "\<not> sint raw < 0" using sint_j False unfolding 2(2) by auto
        have step: "write_rest h fd buf (length text) offset s = write_rest h fd buf (length text) (offset + j) ?s"
          using \<open>offset < length text\<close> wr raw0 by (subst write_rest.simps) simp
        have "length text - (offset + j) < length text - offset" "offset + j \<le> length text"
          using False True 2(1) by auto
        from less.hyps [OF this(1) _ this(2), of ?s] less.prems(1) obtain ok s' k where
          rec: "write_rest h fd buf (length text) (offset + j) ?s = Some (ok, s')" "bytes s' = bytes s" "streams s' = streams s"
            "offset + j \<le> k" "k \<le> length text" "log (world s') = log w @ take (k - (offset + j)) (drop (offset + j) text)"
            "if ok then k = length text \<and> errno s' = errno s else 0 < sint (errno s')" by auto
        have "take j ?rest @ take (k - (offset + j)) (drop (offset + j) text) = take (j + (k - (offset + j))) ?rest"
          by (simp add: take_add add.commute)
        also have "j + (k - (offset + j)) = k - offset" using rec(4) by simp
        finally show ?thesis using rec 2(3) unfolding step by (intro exI [of _ ok] exI [of _ s'] exI [of _ k]) auto
      qed
    qed
  qed
qed

section \<open>The call\<close>

text \<open>The lock of the stream is free or held by the calling thread.\<close>

definition lock_available :: "tid \<Rightarrow> addr \<Rightarrow> registry \<Rightarrow> bool" where
  "lock_available t stream reg \<longleftrightarrow> file_lock_owner (stream_state reg stream) \<in> {None, Some t}"

lemma lock_available_pass:
  assumes "lock_available t key reg"
  obtains d where "lock_pass t try_only key reg =
    (Some 0, stream_state_mut_or_insert key (\<lambda>st. st\<lparr>file_lock_owner := Some t, file_lock_depth := d\<rparr>) reg)"
proof (cases "file_lock_owner (stream_state reg key)")
  case None
  then show thesis using that [of 1] by (simp add: lock_pass_def)
next
  case (Some owner)
  let ?st = "stream_state reg key"
  have owner: "file_lock_owner ?st = Some t" using Some assms by (auto simp: lock_available_def)
  have update: "stream_state_mut_or_insert key f reg = stream_state_mut_or_insert key g reg" if "f ?st = g ?st" for f g
    using that by (induction reg) (auto simp: stream_state_def)
  have "stream_state_mut_or_insert key (\<lambda>st. st\<lparr>file_lock_depth := saturating_add (file_lock_depth st) 1\<rparr>) reg =
      stream_state_mut_or_insert key (\<lambda>st. st\<lparr>file_lock_owner := Some t, file_lock_depth := saturating_add (file_lock_depth ?st) 1\<rparr>) reg"
    by (rule update) (use owner in \<open>cases ?st; simp\<close>)
  then show thesis using that owner by (simp add: lock_pass_def)
qed

lemma find_active: "find_stream reg key = Some st \<Longrightarrow> io_active st \<Longrightarrow>
    \<exists>st'. find_stream (snd (unlock_section t key reg)) key = Some st' \<and> io_active st'"
  by (auto simp: unlock_section_def Let_def find_update stream_state_is_prunable_def stream_state_def)

lemma call_analysed:
  assumes "call_prints m P format ap p"
  shows "\<exists>r. internal_vfprintf_supports_format m format = Some r" "\<exists>r. formatted_output_requires_host_line_buffer_flush m format ap = Some r"
proof -
  from assms obtain fmt c as where call: "cstr m format fmt" "length fmt < USIZE_MAX" "format \<noteq> null"
    "from_va_list m ap = Some c" "va_holds m P c as" "list_all (arg_ok m P) as"
    "spec_print (pieces fmt 0) \<lparr>shown = [], counts = [], args = as\<rparr> = Some (True, p)" unfolding call_prints_def by blast
  have "c_string_len m format = Some (length fmt)" "read_block m format (length fmt) = Some fmt"
    using c_string_len_cstr [OF call(1), of 0] call(2) cstr_read [OF call(1), of "length fmt"] by (simp_all add: c_string_len_def)
  then show "\<exists>r. internal_vfprintf_supports_format m format = Some r" using call(3) by (simp add: internal_vfprintf_supports_format_def)
  show "\<exists>r. formatted_output_requires_host_line_buffer_flush m format ap = Some r" using newline_analysis_value [OF call] by blast
qed

lemma fileno_field_agree: "(\<And>q. q \<in> P \<Longrightarrow> bytes s' q = bytes s q) \<Longrightarrow> {stream + 112..<stream + 116} \<subseteq> P \<Longrightarrow>
    fileno_field stream s' = fileno_field stream s"
  using read_block_agree [of P "bytes s'" "bytes s" "stream + 112" 4] by (simp add: fileno_field_def read_u32_def add.commute)

text \<open>All of the text arrived and \<^verbatim>\<open>errno\<close> is as before, or a first part of it and \<^verbatim>\<open>errno\<close> tells why.\<close>

definition output_ended :: "bool \<Rightarrow> nat \<Rightarrow> u8 list \<Rightarrow> c_int \<Rightarrow> c_int \<Rightarrow> bool" where
  "output_ended ok k text e e' \<longleftrightarrow> k \<le> length text \<and> (if ok then k = length text \<and> e' = e else 0 < sint e')"

lemma emit_stream_log:
  assumes "writes_log h fd log" "length text < 2 ^ 63" "bytes_at (bytes s) v text"
    and "fileno_field stream s = Some f" "fd = (case host_standard_stream_fd h stream of Some fd \<Rightarrow> fd | None \<Rightarrow> f)" "0 \<le> sint fd"
  obtains ok s' k where "emit_stream h stream v (length text) s = Some (ok, s')" "bytes s' = bytes s" "streams s' = streams s"
    "log (world s') = log (world s) @ take k text"
    "output_ended ok k text (errno s) (errno s')"
proof -
  define s1 where "s1 = (case host_standard_stream_fd h stream of Some fd \<Rightarrow> s | None \<Rightarrow> set_errno 0 s)"
  have s1: "bytes s1 = bytes s" "streams s1 = streams s" "world s1 = world s"
    by (simp_all add: s1_def set_errno_def split: option.split)
  have fd: "(case host_standard_stream_fd h stream of Some fd \<Rightarrow> Some (fd, s) | None \<Rightarrow> host_fileno stream (set_errno 0 s)) = Some (fd, s1)"
    using assms(4-6) by (simp add: host_fileno_def fileno_field_def s1_def split: option.splits)
  obtain ok s2 k where run: "write_rest h fd v (length text) 0 s1 = Some (ok, s2)" "bytes s2 = bytes s1" "streams s2 = streams s1"
    "k \<le> length text" "log (world s2) = log (world s1) @ take k text"
    "if ok then k = length text \<and> errno s2 = errno s1 else 0 < sint (errno s2)"
    using write_rest_log [OF assms(1,2), of s1 v 0] assms(3) s1 by auto
  define s' where "s' = (if ok then set_errno (errno s) s2 else s2)"
  show thesis
  proof
    show "emit_stream h stream v (length text) s = Some (ok, s')"
      unfolding emit_stream_def Let_def fd using run(1) assms(6) by (simp add: s'_def)
    show "bytes s' = bytes s" "streams s' = streams s" "log (world s') = log (world s) @ take k text"
      using run(2,3,5) s1 by (simp_all add: s'_def set_errno_def)
    show "output_ended ok k text (errno s) (errno s')" using run(4,6) by (simp add: s'_def output_ended_def)
  qed
qed

lemma mark_written_active:
  assumes "fileno_field stream s = Some f"
  obtains reg st where "mark_written h stream InternalStreamIo s = Some (s\<lparr>streams := reg\<rparr>)"
    "find_stream reg stream = Some st" "io_active st"
proof -
  have "\<exists>i. (if is_host_standard_stream h stream then read_host_stream_identity h stream s else Some None) = Some i"
    using assms by (auto simp: read_host_stream_identity_def host_fileno_def)
  then show thesis
    using that by (fastforce simp: mark_written_def mark_stream_as_io_active_def Let_def find_update mark_active_def)
qed

lemma forward_internal:
  fixes s :: "'w stdio"
  assumes call: "call_prints (bytes s) P format ap p" "length (shown p) < 2 ^ 31 - 1"
    and vec: "v = vec_at h (store_counts (bytes s) (counts p)) (Suc (length (shown p)))" "v \<noteq> null"
      "{v..<v + Suc (length (shown p))} \<inter> {a. bytes s a \<noteq> None} = {}"
    and fileno: "{stream + 112..<stream + 116} \<subseteq> P" "fileno_field stream s = Some f"
    and fd: "fd = (case host_standard_stream_fd h stream of Some fd \<Rightarrow> fd | None \<Rightarrow> f)" "0 \<le> sint fd" "writes_log h fd log"
  obtains ok s' k where "forward_internal_vfprintf h stream format ap s =
      Some (if ok then word_of_nat (length (shown p)) else - 1, InternalStreamIo, s')"
    "bytes s' = store_counts (bytes s) (counts p)" "streams s' = streams s"
    "log (world s') = log (world s) @ take k (shown p)"
    "output_ended ok k (shown p) (errno s) (errno s')"
proof -
  let ?n = "Suc (length (shown p))"
  obtain m where m: "render h format ap (emit_stream h stream) s = (case emit_stream h stream v (length (shown p)) (s\<lparr>bytes := m\<rparr>) of None \<Rightarrow> None
      | Some (ok, s') \<Rightarrow> Some (if ok then word_of_nat (length (shown p)) else - 1, InternalStreamIo, free_vec v ?n s'))"
    "bytes_at m v (shown p)" "\<And>s' :: 'w stdio. bytes s' = m \<Longrightarrow> bytes (free_vec v ?n s') = store_counts (bytes s) (counts p)"
    "\<And>q. q \<in> P \<Longrightarrow> m q = bytes s q"
    using rendered [OF call vec, of "emit_stream h stream"] by blast
  have "fileno_field stream (s\<lparr>bytes := m\<rparr>) = Some f"
    using fileno_field_agree [of P "s\<lparr>bytes := m\<rparr>" s stream] m(4) fileno by simp
  from emit_stream_log [OF fd(3) _ _ this fd(1,2), of "shown p" v] call(2) m(2) obtain ok s1 k where
    run: "emit_stream h stream v (length (shown p)) (s\<lparr>bytes := m\<rparr>) = Some (ok, s1)" "bytes s1 = m" "streams s1 = streams s"
      "log (world s1) = log (world s) @ take k (shown p)"
      "output_ended ok k (shown p) (errno s) (errno s1)" by auto
  show thesis
    by (rule that [of ok "free_vec v ?n s1" k])
      (use m(1) m(3) [OF run(2)] run in \<open>simp_all add: forward_internal_vfprintf_def free_vec_def\<close>)
qed

lemma vfprintf_text:
  fixes s :: "'w stdio"
  assumes host: "host_vfprintf h = None" and args: "stream \<noteq> null" "ap \<noteq> null" "lock_available t stream (streams s)"
    and call: "call_prints (bytes s) P format ap p" "length (shown p) < 2 ^ 31 - 1"
    and vec: "v = vec_at h (store_counts (bytes s) (counts p)) (Suc (length (shown p)))" "v \<noteq> null"
      "{v..<v + Suc (length (shown p))} \<inter> {a. bytes s a \<noteq> None} = {}"
    and fileno: "{stream + 112..<stream + 116} \<subseteq> P" "fileno_field stream s = Some f"
    and fd: "fd = (case host_standard_stream_fd h stream of Some fd \<Rightarrow> fd | None \<Rightarrow> f)" "0 \<le> sint fd" "writes_log h fd log"
  shows "\<exists>ok s' k st. vfprintf h t stream format ap s = Some (Some (if ok then word_of_nat (length (shown p)) else - 1), s') \<and>
    bytes s' = store_counts (bytes s) (counts p) \<and> log (world s') = log (world s) @ take k (shown p) \<and>
    output_ended ok k (shown p) (errno s) (errno s') \<and>
    find_stream (streams s') stream = Some st \<and> io_active st"
proof -
  obtain d where lock: "lock_pass t False stream (streams s) =
      (Some 0, stream_state_mut_or_insert stream (\<lambda>st. st\<lparr>file_lock_owner := Some t, file_lock_depth := d\<rparr>) (streams s))"
    using lock_available_pass [OF args(3)] by blast
  define s1 where "s1 = s\<lparr>streams := snd (lock_pass t False stream (streams s))\<rparr>"
  have s1: "bytes s1 = bytes s" "errno s1 = errno s" "world s1 = world s" "fileno_field stream s1 = Some f"
    using fileno(2) by (simp_all add: s1_def fileno_field_def)
  have acquired: "lock_stream_file_internal t stream False s = (Some 0, s1)"
    using args(1) lock by (simp add: lock_stream_file_internal_def s1_def)
  have format: "format \<noteq> null" using call(1) by (simp add: call_prints_def)
  obtain ok s2 k where fwd: "forward_internal_vfprintf h stream format ap s1 =
      Some (if ok then word_of_nat (length (shown p)) else - 1, InternalStreamIo, s2)"
    "bytes s2 = store_counts (bytes s) (counts p)" "streams s2 = streams s1"
    "log (world s2) = log (world s) @ take k (shown p)"
    "output_ended ok k (shown p) (errno s) (errno s2)"
    using forward_internal [of s1 P format ap p v h stream f fd log] call vec fileno(1) fd s1 by auto
  have counts: "counts_ok (bytes s) P null 0 (counts p)" using call(1) by (simp add: call_prints_def)
  have "fileno_field stream s2 = Some f"
    using fileno_field_agree [of P s2 s stream] fileno store_counts_other [OF counts] by (simp add: fwd(2))
  then obtain reg st where mark: "mark_written h stream InternalStreamIo s2 = Some (s2\<lparr>streams := reg\<rparr>)"
    "find_stream reg stream = Some st" "io_active st" by (rule mark_written_active)
  obtain st' where st': "find_stream (snd (unlock_section t stream reg)) stream = Some st'" "io_active st'"
    using find_active [OF mark(2,3)] by blast
  let ?s' = "s2\<lparr>streams := snd (unlock_section t stream reg)\<rparr>"
  obtain r where supports: "internal_vfprintf_supports_format (bytes s1) format = Some r"
    using call_analysed(1) [OF call(1)] s1(1) by auto
  obtain r' where newline: "formatted_output_requires_host_line_buffer_flush (bytes s1) format ap = Some r'"
    using call_analysed(2) [OF call(1)] s1(1) by auto
  have forward: "forward_host_vfprintf h stream format ap s1 = forward_internal_vfprintf h stream format ap s1"
    by (simp add: forward_host_vfprintf_def supports host Let_def)
  have "vfprintf h t stream format ap s = Some (Some (if ok then word_of_nat (length (shown p)) else - 1), ?s')"
    unfolding vfprintf_def with_stream_lock_def acquired
    using args(1,2) format by (simp add: Let_def newline forward fwd(1) mark(1) funlockfile_def)
  then show ?thesis using fwd st' by (intro exI [of _ ok] exI [of _ ?s'] exI [of _ k] exI [of _ st']) simp
qed

text \<open>C39. Formatted output without the host: when the dynamic linker finds no other \<^verbatim>\<open>vfprintf\<close> and the lock of the stream is free, the call
  returns, and the bytes that arrive at the descriptor of the stream are the text that the format and the arguments
  stand for, however the kernel cuts the writes: all of it, with its length as the result and \<^verbatim>\<open>errno\<close> as before, or, when
  a write fails, a first part of it, with -1 and a positive \<^verbatim>\<open>errno\<close>. The memory holds the counts of \<^verbatim>\<open>%n\<close> and nothing else
  new, and the stream counts as active in both cases.\<close>

theorem vfprintf_writes_text:
  fixes s :: "'w stdio"
  assumes host: "host_vfprintf h = None" and args: "stream \<noteq> null" "ap \<noteq> null" "lock_available t stream (streams s)"
    and call: "call_prints (bytes s) P format ap p" "length (shown p) < 2 ^ 31 - 1"
    and vec: "v = vec_at h (store_counts (bytes s) (counts p)) (Suc (length (shown p)))" "v \<noteq> null"
      "{v..<v + Suc (length (shown p))} \<inter> {a. bytes s a \<noteq> None} = {}"
    and fileno: "{stream + 112..<stream + 116} \<subseteq> P" "fileno_field stream s = Some f"
    and fd: "fd = (case host_standard_stream_fd h stream of Some fd \<Rightarrow> fd | None \<Rightarrow> f)" "0 \<le> sint fd" "writes_log h fd log"
  shows "\<exists>ok s' k st. vfprintf h t stream format ap s = Some (Some (if ok then word_of_nat (length (shown p)) else - 1), s') \<and>
    bytes s' = store_counts (bytes s) (counts p) \<and> log (world s') = log (world s) @ take k (shown p) \<and>
    output_ended ok k (shown p) (errno s) (errno s') \<and>
    find_stream (streams s') stream = Some st \<and> io_active st"
  using assms by (rule vfprintf_text)

text \<open>A kernel that takes three bytes at a time, and a stream with descriptor 0.\<close>

definition slow_host :: "u8 list host" where
  "slow_host = \<lparr>host_stdin = 0, host_stdout = 0, host_stderr = 0, host_vfprintf = None, host_fflush = None, host_fclose = None,
     host_fopen = None, host_tmpfile = (\<lambda>c. (0, c)), host_fread = None, host_fputs = None, last_os_error = (\<lambda>_. 0),
     fd_identity = (\<lambda>_ _. None), sys_write = (\<lambda>fd bs w. (word_of_nat (min 3 (length bs)), w @ take 3 bs)), vec_at = (\<lambda>_ _. 200)\<rparr>"

definition printing_state :: "u8 list stdio" where
  "printing_state = \<lparr>bytes = bytes printf_machine, ptrs = Map.empty, errno = 0, streams = [], world = []\<rparr>"

lemma slow_host_log: "writes_log slow_host fd (\<lambda>w. w)"
proof -
  have "take (min 3 (length bs)) bs = take 3 bs" for bs :: "u8 list" by (simp add: min_def)
  then show ?thesis unfolding writes_log_def slow_host_def by (auto intro!: exI [of _ "min 3 (length bs)" for bs])
qed

lemma va_holds_mono: "va_holds m P c as \<Longrightarrow> P \<subseteq> Q \<Longrightarrow> va_holds m Q c as"
  by (induction as arbitrary: c) auto

lemma arg_ok_mono: "arg_ok m P a \<Longrightarrow> P \<subseteq> Q \<Longrightarrow> arg_ok m Q a"
  by (cases a) auto

lemma printing_call: "call_prints (bytes printf_machine) {100..<174} 163 100 \<lparr>shown = ascii ''  5|hi'', counts = [], args = []\<rparr>"
proof -
  have "length printf_image = 74" by code_simp
  then have "{100..<174} \<subseteq> dom (bytes printf_machine)" by (auto simp: printf_machine_def mem_image_def)
  moreover have "list_all (arg_ok (bytes printf_machine) {100..<174}) [Word 5, Text 160 (ascii ''hi'')]"
    using printf_machine_call(4) by (rule list.pred_mono_strong) (auto intro: arg_ok_mono)
  moreover note printf_machine_call(1,2) va_holds_mono [OF printf_machine_call(3), of "{100..<174}"] sample_print
  ultimately show ?thesis
    unfolding call_prints_def
    by (intro conjI exI [of _ "ascii ''%3d|%s''"] exI [of _ "[Word 5, Text 160 (ascii ''hi'')]"]
        exI [of _ "\<lparr>gp_offset = 48, fp_offset = 176, reg_save_area = 0, overflow_arg_area = 132\<rparr>"])
      (auto simp: counts_ok_def USIZE_MAX_def)
qed

lemma vfprintf_writes_text_witness:
  "\<exists>ok s' k. vfprintf slow_host 1 12 163 100 printing_state = Some (Some (if ok then 6 else - 1), s') \<and>
     bytes s' = bytes printf_machine \<and> world s' = take k (ascii ''  5|hi'') \<and> output_ended ok k (ascii ''  5|hi'') 0 (errno s')"
proof -
  let ?p = "\<lparr>shown = ascii ''  5|hi'', counts = [], args = []\<rparr>"
  have "read_block (bytes printf_machine) 124 4 = Some [0, 0, 0, 0]" unfolding read_block_bytes_at
    by (intro conjI; (simp; fail)?) (rule printf_machine_read; code_simp)
  then have field: "fileno_field 12 printing_state = Some 0" by (simp add: fileno_field_def printing_state_def read_u32_def)
  have "length printf_image = 74" by code_simp
  then have fresh: "{200..<200 + Suc (length (shown ?p))} \<inter> {a. bytes printing_state a \<noteq> None} = {}"
    by (auto simp: printing_state_def printf_machine_def mem_image_def)
  have mem: "bytes printing_state = bytes printf_machine" by (simp add: printing_state_def)
  have free: "lock_available 1 12 (streams printing_state)"
    by (simp add: printing_state_def lock_available_def stream_state_def new_stream_def)
  have host: "host_vfprintf slow_host = None" "host_standard_stream_fd slow_host 12 = None"
    "200 = vec_at slow_host (store_counts (bytes printing_state) (counts ?p)) (Suc (length (shown ?p)))"
    by (simp_all add: slow_host_def host_standard_stream_fd_def)
  have fd: "0 = (case host_standard_stream_fd slow_host 12 of Some fd \<Rightarrow> fd | None \<Rightarrow> 0)" by (simp add: host(2))
  have small: "length (shown ?p) < 2 ^ 31 - 1" "{12 + 112..<12 + (116 :: nat)} \<subseteq> {100..<174}" by simp_all
  obtain ok s' k where "vfprintf slow_host 1 12 163 100 printing_state = Some (Some (if ok then word_of_nat (length (shown ?p)) else - 1), s')"
    "bytes s' = store_counts (bytes printing_state) (counts ?p)" "world s' = world printing_state @ take k (shown ?p)"
    "output_ended ok k (shown ?p) (errno printing_state) (errno s')"
    using vfprintf_writes_text [OF host(1) _ _ free printing_call [folded mem] small(1) host(3) _ fresh small(2) field fd _ slow_host_log] by auto
  moreover have "store_counts (bytes printing_state) (counts ?p) = bytes printf_machine" by (simp add: store_counts_def mem)
  moreover have "world printing_state = []" "errno printing_state = 0" by (simp_all add: printing_state_def)
  ultimately show ?thesis by (intro exI [of _ ok] exI [of _ s'] exI [of _ k]) simp
qed

end
