(* ===== verification/Stream_Lock.thy ===== *)
theory Stream_Lock
  imports Stream_Registry
begin

text \<open>
  The locks of the streams of \<^verbatim>\<open>src/src/stdio/mod.rs\<close> under interleaving. One mutex of the runtime guards the registry, and all waiters sleep on
  one condition variable. What a thread does while it has the mutex is one step; \<^verbatim>\<open>notify_all\<close>, after the mutex is
  released, is another. The model also counts the locks each thread was given and has not returned, and it notes
  whether the removal of a state has taken away the lock of another thread: \<^verbatim>\<open>fclose\<close> removes the state of an address after it has given
  the \<^verbatim>\<open>FILE\<close> back to the host, which can have handed the address out again.
\<close>

section \<open>The threads\<close>

datatype stream_pc = Outside | Waiting addr | Woken addr | Notifying

record stream_system =
  stream_reg :: registry
  stream_pcs :: "tid \<Rightarrow> stream_pc"
  held :: "tid \<Rightarrow> addr \<Rightarrow> nat"
  overtaken :: bool

definition stream_start :: stream_system where
  "stream_start = \<lparr>stream_reg = [], stream_pcs = (\<lambda>_. Outside), held = (\<lambda>_ _. 0), overtaken = False\<rparr>"

definition set_held :: "tid \<Rightarrow> addr \<Rightarrow> nat \<Rightarrow> stream_system \<Rightarrow> stream_system" where
  "set_held t key n s = s\<lparr>held := (held s)(t := (held s t)(key := n))\<rparr>"

definition stream_goto :: "tid \<Rightarrow> stream_pc \<Rightarrow> stream_system \<Rightarrow> stream_system" where
  "stream_goto t p s = s\<lparr>stream_pcs := (stream_pcs s)(t := p)\<rparr>"

text \<open>A pass of the lock loop: a code that is returned, or a wait.\<close>

definition lock_step :: "tid \<Rightarrow> bool \<Rightarrow> addr \<Rightarrow> stream_system \<Rightarrow> c_int option \<times> stream_system" where
  "lock_step t try_only key s =
     (case lock_pass t try_only key (stream_reg s) of
        (None, reg) \<Rightarrow> (None, stream_goto t (Waiting key) (s\<lparr>stream_reg := reg\<rparr>))
      | (Some r, reg) \<Rightarrow>
          (let s = stream_goto t Outside (s\<lparr>stream_reg := reg\<rparr>) in
           (Some r, if r = 0 then set_held t key (Suc (held s t key)) s else s)))"

text \<open>
  The calls, by what they do to the registry: locking, unlocking, the sections of the other stream functions, whose host identities
  are arbitrary, and the removal of a state by \<^verbatim>\<open>fclose\<close> and \<^verbatim>\<open>fopen\<close>.
\<close>

datatype stream_call = Flock addr | Ftrylock addr | Funlock addr
  | Mark addr bool "c_ulong option"
  | MarkHost addr "c_ulong option"
  | MarkAll "(addr \<times> c_ulong option) list"
  | Setvbuf "c_ulong option" addr c_int nat addr
  | Clear addr

definition notify_after :: "tid \<Rightarrow> bool \<times> registry \<Rightarrow> stream_system \<Rightarrow> stream_system" where
  "notify_after t r s = (case r of (notify, reg) \<Rightarrow>
     stream_goto t (if notify then Notifying else Outside) (s\<lparr>stream_reg := reg\<rparr>))"

definition mark_all :: "(addr \<times> c_ulong option) list \<Rightarrow> registry \<Rightarrow> registry" where
  "mark_all ids reg = fold (\<lambda>(key, identity). stream_state_mut_or_insert key (mark_active True identity)) ids
     (map (\<lambda>st. st\<lparr>io_active := True\<rparr>) reg)"

definition others_hold :: "tid \<Rightarrow> addr \<Rightarrow> stream_system \<Rightarrow> bool" where
  "others_hold t key s \<longleftrightarrow> (\<exists>u. u \<noteq> t \<and> 0 < held s u key)"

definition stream_begin :: "tid \<Rightarrow> stream_call \<Rightarrow> stream_system \<Rightarrow> c_int option \<times> stream_system" where
  "stream_begin t c s =
     (case c of
        Flock key \<Rightarrow> lock_step t False key s
      | Ftrylock key \<Rightarrow> lock_step t True key s
      | Funlock key \<Rightarrow> (Some 0, set_held t key (held s t key - 1) (notify_after t (unlock_section t key (stream_reg s)) s))
      | Mark key standard identity \<Rightarrow>
          (Some 0, s\<lparr>stream_reg := stream_state_mut_or_insert key (mark_active standard identity) (stream_reg s)\<rparr>)
      | MarkHost key identity \<Rightarrow>
          (Some 0, s\<lparr>stream_reg := stream_state_mut_or_insert key (mark_host_active identity) (stream_reg s)\<rparr>)
      | MarkAll ids \<Rightarrow> (Some 0, s\<lparr>stream_reg := mark_all ids (stream_reg s)\<rparr>)
      | Setvbuf identity buf mode sz key \<Rightarrow>
          (case setvbuf_section identity buf mode sz key (stream_reg s) of (accepted, reg) \<Rightarrow>
             (Some (if accepted then 0 else EOF), s\<lparr>stream_reg := reg\<rparr>))
      | Clear key \<Rightarrow>
          (Some 0, set_held t key 0 (notify_after t (clear_section key (stream_reg s))
             (s\<lparr>overtaken := overtaken s \<or> others_hold t key s\<rparr>))))"

definition wake_waiters :: "stream_system \<Rightarrow> stream_system" where
  "wake_waiters s = s\<lparr>stream_pcs := (\<lambda>t. case stream_pcs s t of Waiting key \<Rightarrow> Woken key | p \<Rightarrow> p)\<rparr>"

definition stream_resume :: "tid \<Rightarrow> stream_system \<Rightarrow> (c_int option \<times> stream_system) option" where
  "stream_resume t s =
     (case stream_pcs s t of
        Woken key \<Rightarrow> Some (lock_step t False key s)
      | Notifying \<Rightarrow> Some (Some 0, stream_goto t Outside (wake_waiters s))
      | _ \<Rightarrow> None)"

text \<open>
  Nobody nests locks beyond a \<^verbatim>\<open>usize\<close>; everything else can happen at any time.
\<close>

definition call_allowed :: "tid \<Rightarrow> stream_call \<Rightarrow> stream_system \<Rightarrow> bool" where
  "call_allowed t c s \<longleftrightarrow>
     (case c of
        Flock key \<Rightarrow> held s t key < USIZE_MAX
      | Ftrylock key \<Rightarrow> held s t key < USIZE_MAX
      | _ \<Rightarrow> True)"

inductive stream_step :: "stream_system \<Rightarrow> stream_system \<Rightarrow> bool" where
  stream_called: "stream_pcs s t = Outside \<Longrightarrow> call_allowed t c s \<Longrightarrow> stream_begin t c s = (r, s') \<Longrightarrow> stream_step s s'"
| stream_resumed: "stream_resume t s = Some (r, s') \<Longrightarrow> stream_step s s'"
| stream_spurious: "stream_pcs s t = Waiting key \<Longrightarrow> stream_step s (stream_goto t (Woken key) s)"

inductive_cases stream_stepE: "stream_step s s'"

abbreviation stream_reachable :: "stream_system \<Rightarrow> bool" where
  "stream_reachable \<equiv> reachable (\<lambda>s. s = stream_start) stream_step"

section \<open>The invariant\<close>

definition lock_of :: "registry \<Rightarrow> addr \<Rightarrow> tid option \<times> nat" where
  "lock_of reg key = (file_lock_owner (stream_state reg key), file_lock_depth (stream_state reg key))"

text \<open>
  The owner of a lock has been given it as often as the registry says, at least. As long as no removal has taken
  away a lock, what the registry says is what the threads were told.
\<close>

definition told :: "stream_system \<Rightarrow> addr \<Rightarrow> tid option \<Rightarrow> nat \<Rightarrow> bool" where
  "told s key owner depth \<longleftrightarrow> (\<forall>t. held s t key = (if owner = Some t then depth else 0))"

definition locks_agree :: "stream_system \<Rightarrow> bool" where
  "locks_agree s \<longleftrightarrow> distinct (map stream_key (stream_reg s)) \<and>
     (\<forall>key. \<exists>owner depth. lock_of (stream_reg s) key = (owner, depth) \<and> (owner = None \<longleftrightarrow> depth = 0) \<and> depth \<le> USIZE_MAX \<and>
        (\<forall>t. owner = Some t \<longrightarrow> depth \<le> held s t key) \<and> (overtaken s \<or> told s key owner depth))"

definition waits_justified :: "stream_system \<Rightarrow> bool" where
  "waits_justified s \<longleftrightarrow> (\<forall>t key. stream_pcs s t = Waiting key \<longrightarrow>
     (\<exists>u. u \<noteq> t \<and> fst (lock_of (stream_reg s) key) = Some u) \<or> (\<exists>u. stream_pcs s u = Notifying))"

text \<open>Nobody waits for a stream it owns.\<close>

definition settled :: "stream_system \<Rightarrow> bool" where
  "settled s \<longleftrightarrow> (\<forall>t key. stream_pcs s t \<in> {Waiting key, Woken key} \<longrightarrow> fst (lock_of (stream_reg s) key) \<noteq> Some t)"

definition stream_inv :: "stream_system \<Rightarrow> bool" where
  "stream_inv s \<longleftrightarrow> locks_agree s \<and> waits_justified s \<and> settled s"

lemma stream_goto_simps [simp]: "stream_reg (stream_goto t p s) = stream_reg s" "held (stream_goto t p s) = held s"
    "stream_pcs (stream_goto t p s) = (stream_pcs s)(t := p)" "overtaken (stream_goto t p s) = overtaken s"
  by (simp_all add: stream_goto_def)

lemma set_held_simps [simp]: "stream_reg (set_held t key n s) = stream_reg s" "stream_pcs (set_held t key n s) = stream_pcs s"
    "held (set_held t key n s) = (held s)(t := (held s t)(key := n))" "overtaken (set_held t key n s) = overtaken s"
  by (simp_all add: set_held_def)

lemma lock_of_new: "lock_of [] key = (None, 0)"
  by (simp add: lock_of_def stream_state_def new_stream_def)

text \<open>A section that only changes other fields leaves the locks alone.\<close>

definition keeps_lock :: "(StreamState \<Rightarrow> StreamState) \<Rightarrow> bool" where
  "keeps_lock change \<longleftrightarrow> (\<forall>st. stream_key (change st) = stream_key st \<and> file_lock_owner (change st) = file_lock_owner st \<and>
     file_lock_depth (change st) = file_lock_depth st)"

lemma keeps_lock_simps [simp]: "keeps_lock (mark_active standard identity)" "keeps_lock (mark_host_active identity)"
    "keeps_lock (forget_recycled identity)" "keeps_lock (configure mode sz buf)" "keeps_lock (\<lambda>st. st)"
  by (simp_all add: keeps_lock_def mark_active_def mark_host_active_def forget_recycled_def configure_def Let_def)

lemma lock_of_keeps: "keeps_lock change \<Longrightarrow> lock_of (stream_state_mut_or_insert key change reg) = lock_of reg"
  by (rule ext) (simp add: lock_of_def keeps_lock_def stream_state_update)

lemma distinct_update: "(\<And>st. stream_key (change st) = stream_key st) \<Longrightarrow> distinct (map stream_key reg) \<Longrightarrow>
    distinct (map stream_key (stream_state_mut_or_insert key change reg))"
  by (simp add: keys_update)

lemma keeps_distinct: "keeps_lock change \<Longrightarrow> distinct (map stream_key reg) \<Longrightarrow>
    distinct (map stream_key (stream_state_mut_or_insert key change reg))"
  by (simp add: distinct_update keeps_lock_def)

lemma lock_of_active: "lock_of (map (\<lambda>st. st\<lparr>io_active := True\<rparr>) reg) = lock_of reg"
proof
  have "find_stream (map (\<lambda>st. st\<lparr>io_active := True\<rparr>) reg) key = map_option (\<lambda>st. st\<lparr>io_active := True\<rparr>) (find_stream reg key)" for key
    by (induction reg) auto
  then show "lock_of (map (\<lambda>st. st\<lparr>io_active := True\<rparr>) reg) key = lock_of reg key" for key
    by (simp add: lock_of_def stream_state_def split: option.split)
qed

lemma mark_all_lock: "lock_of (mark_all ids reg) = lock_of reg \<and>
    (distinct (map stream_key reg) \<longrightarrow> distinct (map stream_key (mark_all ids reg)))"
proof -
  have "lock_of (fold (\<lambda>(key, identity). stream_state_mut_or_insert key (mark_active True identity)) ids reg) = lock_of reg \<and>
      (distinct (map stream_key reg) \<longrightarrow>
       distinct (map stream_key (fold (\<lambda>(key, identity). stream_state_mut_or_insert key (mark_active True identity)) ids reg)))" for reg
    by (induction ids arbitrary: reg) (simp_all add: lock_of_keeps keeps_distinct split_beta)
  from this [of "map (\<lambda>st. st\<lparr>io_active := True\<rparr>) reg"] show ?thesis
    by (auto simp: mark_all_def lock_of_active comp_def)
qed

section \<open>The sections on the locks\<close>

lemma lock_pass_cases:
  assumes "distinct (map stream_key reg)" "lock_of reg key = (owner, depth)" "owner = None \<longleftrightarrow> depth = 0" "owner = Some t \<longrightarrow> depth < USIZE_MAX"
  obtains (acquired) reg' where "lock_pass t try_only key reg = (Some 0, reg')" "distinct (map stream_key reg')"
      "lock_of reg' = (lock_of reg)(key := (Some t, Suc depth))" "owner \<in> {None, Some t}"
    | (blocked) u reg' where "lock_pass t try_only key reg = (if try_only then Some EBUSY else None, reg')" "distinct (map stream_key reg')"
      "lock_of reg' = lock_of reg" "owner = Some u" "u \<noteq> t"
proof -
  have owner: "file_lock_owner (stream_state reg key) = owner" "file_lock_depth (stream_state reg key) = depth"
    using assms(2) by (simp_all add: lock_of_def)
  consider "owner = None" | "owner = Some t" | u where "owner = Some u" "u \<noteq> t" by (cases owner) auto
  then show thesis
  proof cases
    case 1
    let ?reg = "stream_state_mut_or_insert key (\<lambda>st. st\<lparr>file_lock_owner := Some t, file_lock_depth := 1\<rparr>) reg"
    have "lock_of ?reg = (lock_of reg)(key := (Some t, Suc depth))"
      using 1 assms(3) by (auto simp: fun_eq_iff lock_of_def stream_state_update)
    then show thesis using 1 owner assms(1) by (intro acquired [of ?reg]) (simp_all add: lock_pass_def distinct_update)
  next
    case 2
    let ?reg = "stream_state_mut_or_insert key (\<lambda>st. st\<lparr>file_lock_depth := saturating_add (file_lock_depth st) 1\<rparr>) reg"
    have "lock_of ?reg = (lock_of reg)(key := (Some t, Suc depth))"
      using 2 owner assms(4) by (auto simp: fun_eq_iff lock_of_def stream_state_update saturating_add_less)
    then show thesis using 2 owner assms(1) by (intro acquired [of ?reg]) (simp_all add: lock_pass_def distinct_update)
  next
    case (3 u)
    then show thesis using owner assms(1)
      by (intro blocked [of "stream_state_mut_or_insert key (\<lambda>st. st) reg" u]) (simp_all add: lock_pass_def distinct_update lock_of_keeps)
  qed
qed

lemma unlock_cases:
  assumes "distinct (map stream_key reg)" "lock_of reg key = (owner, depth)" "owner = None \<longleftrightarrow> depth = 0"
  obtains (other) "unlock_section t key reg = (False, reg)" "owner \<noteq> Some t"
    | (mine) reg' where "unlock_section t key reg = (depth = 1, reg')" "distinct (map stream_key reg')" "owner = Some t"
      "lock_of reg' = (lock_of reg)(key := if depth = 1 then (None, 0) else (Some t, depth - 1))"
proof -
  have owner: "file_lock_owner (stream_state reg key) = owner" "file_lock_depth (stream_state reg key) = depth"
    using assms(2) by (simp_all add: lock_of_def)
  show thesis
  proof (cases "owner = Some t")
    case False
    then show thesis using owner by (intro other) (auto simp: unlock_section_def stream_state_def split: option.splits)
  next
    case True
    then obtain st where st: "find_stream reg key = Some st" "file_lock_owner st = Some t" "file_lock_depth st = depth"
      using owner by (auto simp: stream_state_def new_stream_def split: option.splits)
    have depth: "depth \<noteq> 0" using True assms(3) by simp
    let ?free = "\<lambda>st. st\<lparr>file_lock_owner := None, file_lock_depth := 0\<rparr>"
    let ?down = "stream_state_mut_or_insert key (\<lambda>st. st\<lparr>file_lock_depth := file_lock_depth st - 1\<rparr>) reg"
    have removed: "lock_of (remove_stream key reg) = (lock_of reg)(key := (None, 0))"
      using find_remove [OF assms(1)] by (auto simp: fun_eq_iff lock_of_def stream_state_def new_stream_def)
    have freed: "lock_of (stream_state_mut_or_insert key ?free reg) = (lock_of reg)(key := (None, 0))"
      by (auto simp: fun_eq_iff lock_of_def stream_state_update)
    have down: "lock_of ?down = (lock_of reg)(key := (Some t, depth - 1))"
      using owner True by (auto simp: fun_eq_iff lock_of_def stream_state_update)
    show thesis
    proof (cases "depth = 1")
      case False
      then show thesis using st depth True assms(1) down by (intro mine [of ?down]) (simp_all add: unlock_section_def distinct_update)
    next
      case one: True
      show thesis
      proof (cases "stream_state_is_prunable (?free st)")
        case True
        then show thesis using st one \<open>owner = Some t\<close> assms(1) removed
          by (intro mine [of "remove_stream key reg"]) (simp_all add: unlock_section_def keys_remove)
      next
        case False
        then show thesis using st one \<open>owner = Some t\<close> assms(1) freed
          by (intro mine [of "stream_state_mut_or_insert key ?free reg"]) (simp_all add: unlock_section_def distinct_update)
      qed
    qed
  qed
qed

lemma clear_cases:
  assumes "distinct (map stream_key reg)" "clear_section key reg = (notify, reg')"
  shows "distinct (map stream_key reg')" "lock_of reg' = (lock_of reg)(key := (None, 0))" "\<not> notify \<Longrightarrow> reg' = reg"
proof -
  have reg': "reg' = filter (\<lambda>st. stream_key st \<noteq> key) reg" and n: "notify = (length reg \<noteq> length reg')"
    using assms(2) by (auto simp: clear_section_def Let_def)
  show "distinct (map stream_key reg')" using assms(1) by (simp add: reg' distinct_map_filter)
  show "lock_of reg' = (lock_of reg)(key := (None, 0))"
    by (auto simp: fun_eq_iff lock_of_def stream_state_def find_filter reg' new_stream_def)
  have "length xs = length (filter P xs) \<Longrightarrow> filter P xs = xs" for P and xs :: registry
  proof (induction xs)
    case (Cons x xs)
    then show ?case using length_filter_le [of P xs] by (cases "P x") auto
  qed simp
  then show "\<not> notify \<Longrightarrow> reg' = reg" unfolding n reg' by simp
qed

section \<open>The invariant is kept\<close>

lemma locks_agreeD:
  assumes "locks_agree s"
  obtains owner depth where "lock_of (stream_reg s) key = (owner, depth)" "owner = None \<longleftrightarrow> depth = 0" "depth \<le> USIZE_MAX"
    "\<And>t. owner = Some t \<Longrightarrow> depth \<le> held s t key" "overtaken s \<or> told s key owner depth"
  using assms unfolding locks_agree_def by metis

lemma locks_agree_update:
  assumes "locks_agree s" "distinct (map stream_key (stream_reg s'))"
    "lock_of (stream_reg s') = (lock_of (stream_reg s))(key := (owner, depth))" "owner = None \<longleftrightarrow> depth = 0" "depth \<le> USIZE_MAX"
    "\<And>t. owner = Some t \<Longrightarrow> depth \<le> held s' t key" "overtaken s' \<or> told s' key owner depth"
    "\<And>t k. k \<noteq> key \<Longrightarrow> held s' t k = held s t k" "overtaken s \<Longrightarrow> overtaken s'"
  shows "locks_agree s'"
  unfolding locks_agree_def
proof (intro conjI allI assms(2))
  fix k
  obtain o' d' where *: "lock_of (stream_reg s) k = (o', d')" "o' = None \<longleftrightarrow> d' = 0" "d' \<le> USIZE_MAX"
    "\<And>t. o' = Some t \<Longrightarrow> d' \<le> held s t k" "overtaken s \<or> told s k o' d'" by (rule locks_agreeD [OF assms(1), of k]) (rule that)
  then show "\<exists>o' d'. lock_of (stream_reg s') k = (o', d') \<and> (o' = None \<longleftrightarrow> d' = 0) \<and> d' \<le> USIZE_MAX \<and>
      (\<forall>t. o' = Some t \<longrightarrow> d' \<le> held s' t k) \<and> (overtaken s' \<or> told s' k o' d')"
  proof (cases "k = key")
    case False
    then have "told s' k o' d' \<longleftrightarrow> told s k o' d'" by (simp add: told_def assms(8))
    then show ?thesis using * assms(3,8,9) False by auto
  qed (use assms(3-7) in auto)
qed

lemma locks_agree_same:
  "locks_agree s \<Longrightarrow> distinct (map stream_key (stream_reg s')) \<Longrightarrow> lock_of (stream_reg s') = lock_of (stream_reg s) \<Longrightarrow>
   held s' = held s \<Longrightarrow> overtaken s' = overtaken s \<Longrightarrow> locks_agree s'"
  by (simp add: locks_agree_def told_def)

lemma locks_agree_distinct: "locks_agree s \<Longrightarrow> distinct (map stream_key (stream_reg s))"
  by (simp add: locks_agree_def)

lemma waits_justified_mono:
  assumes "waits_justified s" "\<And>u k. stream_pcs s' u = Waiting k \<Longrightarrow> stream_pcs s u = Waiting k"
    "\<And>u. stream_pcs s u = Notifying \<Longrightarrow> \<exists>v. stream_pcs s' v = Notifying"
    "\<And>u v k. stream_pcs s' u = Waiting k \<Longrightarrow> v \<noteq> u \<Longrightarrow> fst (lock_of (stream_reg s) k) = Some v \<Longrightarrow>
       (\<exists>w. w \<noteq> u \<and> fst (lock_of (stream_reg s') k) = Some w) \<or> (\<exists>w. stream_pcs s' w = Notifying)"
  shows "waits_justified s'"
  using assms unfolding waits_justified_def by meson

lemma lock_step_inv:
  assumes inv: "stream_inv s" and running: "stream_pcs s t = Outside \<or> (\<exists>k. stream_pcs s t = Woken k)"
    and small: "held s t key < USIZE_MAX \<or> fst (lock_of (stream_reg s) key) \<noteq> Some t"
  shows "stream_inv (snd (lock_step t try_only key s))"
proof -
  have agree: "locks_agree s" "waits_justified s" "settled s" using inv by (simp_all add: stream_inv_def)
  obtain owner depth where lock: "lock_of (stream_reg s) key = (owner, depth)" "owner = None \<longleftrightarrow> depth = 0" "depth \<le> USIZE_MAX"
    "\<And>u. owner = Some u \<Longrightarrow> depth \<le> held s u key" "overtaken s \<or> told s key owner depth"
    by (rule locks_agreeD [OF agree(1), of key]) (rule that)
  have bound: "owner = Some t \<longrightarrow> depth < USIZE_MAX" using small lock(1) lock(4) [of t] by auto
  from locks_agree_distinct [OF agree(1)] lock(1,2) bound show ?thesis
  proof (cases rule: lock_pass_cases [where try_only = try_only, consumes 4])
    case (acquired reg')
    let ?s = "set_held t key (Suc (held s t key)) (stream_goto t Outside (s\<lparr>stream_reg := reg'\<rparr>))"
    have step: "lock_step t try_only key s = (Some 0, ?s)" by (simp add: lock_step_def acquired(1) Let_def set_held_def)
    have "locks_agree ?s"
    proof (rule locks_agree_update [OF agree(1), of _ key "Some t" "Suc depth"])
      show "Suc depth \<le> USIZE_MAX" using bound lock(2) acquired(4) by (cases owner) (simp_all add: USIZE_MAX_def)
      show "Suc depth \<le> held ?s u key" if "Some t = Some u" for u
        using that lock(2) lock(4) [of t] acquired(4) by auto
      show "overtaken ?s \<or> told ?s key (Some t) (Suc depth)"
        using lock(2,5) acquired(4) by (auto simp: told_def)
    qed (use acquired(2,3) in simp_all)
    moreover have "waits_justified ?s"
    proof (rule waits_justified_mono [OF agree(2)])
      show "\<exists>v. stream_pcs ?s v = Notifying" if "stream_pcs s u = Notifying" for u using that running by (intro exI [of _ u]) auto
    qed (use acquired(3) in \<open>auto split: if_splits\<close>)
    moreover have "settled ?s" using agree(3) acquired(3) by (auto simp: settled_def split: if_splits)
    ultimately show ?thesis by (simp add: step stream_inv_def)
  next
    case (blocked u reg')
    let ?s = "stream_goto t (if try_only then Outside else Waiting key) (s\<lparr>stream_reg := reg'\<rparr>)"
    have step: "snd (lock_step t try_only key s) = ?s" by (simp add: lock_step_def blocked(1) Let_def EBUSY_def)
    have "locks_agree ?s" using blocked by (intro locks_agree_same [OF agree(1)]) simp_all
    moreover have "waits_justified ?s"
      unfolding waits_justified_def
    proof (intro allI impI)
      fix v k assume waiting: "stream_pcs ?s v = Waiting k"
      show "(\<exists>u. u \<noteq> v \<and> fst (lock_of (stream_reg ?s) k) = Some u) \<or> (\<exists>u. stream_pcs ?s u = Notifying)"
      proof (cases "v = t")
        case True
        then have "k = key" using waiting by (simp split: if_splits)
        then show ?thesis using True blocked lock(1) by auto
      next
        case False
        then have "stream_pcs s v = Waiting k" using waiting by simp
        then consider w where "w \<noteq> v" "fst (lock_of (stream_reg s) k) = Some w" | w where "stream_pcs s w = Notifying"
          using agree(2) unfolding waits_justified_def by blast
        then show ?thesis
        proof cases
          case 1
          then show ?thesis using blocked(3) by auto
        next
          case (2 w)
          then have "stream_pcs ?s w = Notifying" using running by auto
          then show ?thesis by blast
        qed
      qed
    qed
    moreover have "settled ?s" using agree(3) lock(1) blocked(3-5) by (auto simp: settled_def split: if_splits)
    ultimately show ?thesis by (simp add: step stream_inv_def)
  qed
qed

lemma stream_unlock_inv:
  assumes inv: "stream_inv s" and running: "stream_pcs s t = Outside"
  shows "stream_inv (set_held t key (held s t key - 1) (notify_after t (unlock_section t key (stream_reg s)) s))"
proof -
  have agree: "locks_agree s" "waits_justified s" "settled s" using inv by (simp_all add: stream_inv_def)
  obtain owner depth where lock: "lock_of (stream_reg s) key = (owner, depth)" "owner = None \<longleftrightarrow> depth = 0" "depth \<le> USIZE_MAX"
    "\<And>u. owner = Some u \<Longrightarrow> depth \<le> held s u key" "overtaken s \<or> told s key owner depth"
    by (rule locks_agreeD [OF agree(1), of key]) (rule that)
  from locks_agree_distinct [OF agree(1)] lock(1,2) show ?thesis
  proof (cases rule: unlock_cases [where t = t, consumes 3])
    case other
    let ?s = "set_held t key (held s t key - 1) (stream_goto t Outside s)"
    have "locks_agree ?s"
    proof (rule locks_agree_update [OF agree(1), of _ key owner depth])
      show "depth \<le> held ?s u key" if "owner = Some u" for u using that other(2) lock(4) [OF that] by auto
      show "overtaken ?s \<or> told ?s key owner depth" using lock(5) other(2) by (auto simp: told_def)
    qed (use lock(1-3) locks_agree_distinct [OF agree(1)] in auto)
    moreover have "waits_justified ?s" "settled ?s"
      using agree(2,3) running by (auto simp: waits_justified_def settled_def split: if_splits) (metis stream_pc.distinct(5))+
    ultimately show ?thesis using other by (simp add: notify_after_def stream_inv_def stream_goto_def)
  next
    case (mine reg')
    let ?p = "if depth = 1 then Notifying else Outside"
    let ?s = "set_held t key (held s t key - 1) (stream_goto t ?p (s\<lparr>stream_reg := reg'\<rparr>))"
    have held_t: "depth \<le> held s t key" using lock(4) mine(3) by simp
    have "locks_agree ?s"
    proof (rule locks_agree_update [OF agree(1), of _ key "if depth = 1 then None else Some t" "if depth = 1 then 0 else depth - 1"])
      show "overtaken ?s \<or> told ?s key (if depth = 1 then None else Some t) (if depth = 1 then 0 else depth - 1)"
        using lock(5) mine(3) by (auto simp: told_def)
    qed (use lock(2,3) mine(2-4) held_t in \<open>auto split: if_splits\<close>)
    moreover have "waits_justified ?s"
    proof (cases "depth = 1")
      case True
      then have "stream_pcs ?s t = Notifying" by simp
      then show ?thesis unfolding waits_justified_def by blast
    next
      case False
      have same: "fst (lock_of (stream_reg ?s) k) = fst (lock_of (stream_reg s) k)" for k using mine(3,4) lock(1) False by simp
      show ?thesis
      proof (rule waits_justified_mono [OF agree(2)])
        show "\<exists>v. stream_pcs ?s v = Notifying" if "stream_pcs s u = Notifying" for u using that running by (intro exI [of _ u]) auto
        show "(\<exists>w. w \<noteq> u \<and> fst (lock_of (stream_reg ?s) k) = Some w) \<or> (\<exists>w. stream_pcs ?s w = Notifying)"
          if "v \<noteq> u" "fst (lock_of (stream_reg s) k) = Some v" for u v k using that unfolding same by blast
      qed (use False running in \<open>auto split: if_splits\<close>)
    qed
    moreover have "settled ?s" using agree(3) mine(4) lock(1) mine(3) by (auto simp: settled_def split: if_splits)
    ultimately show ?thesis by (simp add: notify_after_def mine(1) stream_inv_def)
  qed
qed

lemma clear_inv:
  assumes inv: "stream_inv s" and running: "stream_pcs s t = Outside"
  shows "stream_inv (set_held t key 0 (notify_after t (clear_section key (stream_reg s))
    (s\<lparr>overtaken := overtaken s \<or> others_hold t key s\<rparr>)))"
proof -
  have agree: "locks_agree s" "waits_justified s" "settled s" using inv by (simp_all add: stream_inv_def)
  obtain notify reg' where clear: "clear_section key (stream_reg s) = (notify, reg')" by fastforce
  note effect = clear_cases [OF locks_agree_distinct [OF agree(1)] clear]
  let ?s = "set_held t key 0 (stream_goto t (if notify then Notifying else Outside)
    (s\<lparr>overtaken := overtaken s \<or> others_hold t key s, stream_reg := reg'\<rparr>))"
  have "locks_agree ?s"
    by (rule locks_agree_update [OF agree(1), of _ key None 0]) (use effect in \<open>auto simp: told_def others_hold_def\<close>)
  moreover have "waits_justified ?s"
  proof (cases notify)
    case True
    then have "stream_pcs ?s t = Notifying" by simp
    then show ?thesis unfolding waits_justified_def by blast
  next
    case False
    show ?thesis
    proof (rule waits_justified_mono [OF agree(2)])
      show "\<exists>v. stream_pcs ?s v = Notifying" if "stream_pcs s u = Notifying" for u using that running by (intro exI [of _ u]) auto
    qed (use effect(3) False running in \<open>auto split: if_splits\<close>)
  qed
  moreover have "settled ?s" using agree(3) effect(2) by (auto simp: settled_def split: if_splits)
  ultimately show ?thesis by (simp add: notify_after_def clear stream_inv_def)
qed

lemma section_inv:
  assumes inv: "stream_inv s" and "distinct (map stream_key reg)" "lock_of reg = lock_of (stream_reg s)"
  shows "stream_inv (s\<lparr>stream_reg := reg\<rparr>)"
proof -
  have "locks_agree (s\<lparr>stream_reg := reg\<rparr>)" using inv assms(2,3) by (auto simp: stream_inv_def intro: locks_agree_same)
  moreover have "waits_justified (s\<lparr>stream_reg := reg\<rparr>)" using inv assms(3) by (simp add: stream_inv_def waits_justified_def)
  ultimately show ?thesis using inv assms(3) by (simp add: stream_inv_def settled_def)
qed

lemma stream_inv_distinct: "stream_inv s \<Longrightarrow> distinct (map stream_key (stream_reg s))"
  by (simp add: stream_inv_def locks_agree_distinct)

lemma setvbuf_section_lock:
  "setvbuf_section identity buf mode sz key reg = (accepted, reg') \<Longrightarrow> lock_of reg' = lock_of reg \<and>
    (distinct (map stream_key reg) \<longrightarrow> distinct (map stream_key reg'))"
  by (auto simp: setvbuf_section_def Let_def lock_of_keeps keeps_distinct split: if_splits)

lemma stream_begin_inv:
  assumes inv: "stream_inv s" and t: "stream_pcs s t = Outside" and ok: "call_allowed t c s" and run: "stream_begin t c s = (r, s')"
  shows "stream_inv s'"
proof -
  have lock: "stream_inv (snd (lock_step t try_only key s))" if "held s t key < USIZE_MAX" for try_only key
    using lock_step_inv [OF inv _ disjI1 [OF that]] t by blast
  have keep: "stream_inv (s\<lparr>stream_reg := stream_state_mut_or_insert key change (stream_reg s)\<rparr>)" if "keeps_lock change" for key change
    by (rule section_inv [OF inv]) (simp_all add: that lock_of_keeps keeps_distinct stream_inv_distinct [OF inv])
  show ?thesis
  proof (cases c)
    case (Flock key)
    then show ?thesis using lock [of key False] ok run by (simp add: stream_begin_def call_allowed_def)
  next
    case (Ftrylock key)
    then show ?thesis using lock [of key True] ok run by (simp add: stream_begin_def call_allowed_def)
  next
    case (Funlock key)
    then show ?thesis using stream_unlock_inv [OF inv t, of key] run by (auto simp: stream_begin_def)
  next
    case (Mark key standard identity)
    then show ?thesis using keep run by (auto simp: stream_begin_def)
  next
    case (MarkHost key identity)
    then show ?thesis using keep run by (auto simp: stream_begin_def)
  next
    case (MarkAll ids)
    then show ?thesis using mark_all_lock [of ids "stream_reg s"] run stream_inv_distinct [OF inv]
      by (auto simp: stream_begin_def intro: section_inv [OF inv])
  next
    case (Setvbuf identity buf mode sz key)
    then obtain reg accepted where "setvbuf_section identity buf mode sz key (stream_reg s) = (accepted, reg)" "s' = s\<lparr>stream_reg := reg\<rparr>"
      using run by (auto simp: stream_begin_def split: prod.splits)
    then show ?thesis using setvbuf_section_lock stream_inv_distinct [OF inv] by (fastforce intro: section_inv [OF inv])
  next
    case (Clear key)
    then show ?thesis using clear_inv [OF inv t, of key] run by (auto simp: stream_begin_def)
  qed
qed

lemma stream_resume_inv:
  assumes inv: "stream_inv s" and run: "stream_resume t s = Some (r, s')"
  shows "stream_inv s'"
proof (cases "stream_pcs s t")
  case (Woken key)
  then have "fst (lock_of (stream_reg s) key) \<noteq> Some t" using inv by (simp add: stream_inv_def settled_def)
  then have "stream_inv (snd (lock_step t False key s))" using inv Woken by (intro lock_step_inv) simp_all
  then show ?thesis using run Woken by (simp add: stream_resume_def)
next
  case Notifying
  then have s': "s' = stream_goto t Outside (wake_waiters s)" using run by (simp add: stream_resume_def)
  have pcs: "stream_pcs s' u = (if u = t then Outside else case stream_pcs s u of Waiting key \<Rightarrow> Woken key | p \<Rightarrow> p)" for u
    by (simp add: s' wake_waiters_def)
  have same: "stream_reg s' = stream_reg s" "held s' = held s" "overtaken s' = overtaken s" by (simp_all add: s' wake_waiters_def)
  have "waits_justified s'" by (auto simp: waits_justified_def pcs split: if_splits stream_pc.splits)
  moreover have "settled s'" using inv by (fastforce simp: stream_inv_def settled_def pcs same split: if_splits stream_pc.splits)
  moreover have "locks_agree s'" using inv same by (simp add: stream_inv_def locks_agree_def told_def)
  ultimately show ?thesis by (simp add: stream_inv_def)
qed (use run in \<open>simp_all add: stream_resume_def\<close>)

lemma stream_spurious_inv:
  assumes inv: "stream_inv s" and t: "stream_pcs s t = Waiting key"
  shows "stream_inv (stream_goto t (Woken key) s)"
proof -
  have agree: "locks_agree s" "waits_justified s" "settled s" using inv by (simp_all add: stream_inv_def)
  have "waits_justified (stream_goto t (Woken key) s)"
  proof (rule waits_justified_mono [OF agree(2)])
    show "\<exists>v. stream_pcs (stream_goto t (Woken key) s) v = Notifying" if "stream_pcs s u = Notifying" for u
      using that t by (intro exI [of _ u]) auto
  qed (auto split: if_splits)
  moreover have "settled (stream_goto t (Woken key) s)" using agree(3) t by (auto simp: settled_def)
  moreover have "locks_agree (stream_goto t (Woken key) s)" using agree(1) by (simp add: locks_agree_def told_def)
  ultimately show ?thesis by (simp add: stream_inv_def)
qed

interpretation sl: invariant_system "\<lambda>s. s = stream_start" stream_step stream_inv
proof
  show "stream_inv s" if "s = stream_start" for s
    unfolding that by (simp add: stream_inv_def stream_start_def locks_agree_def told_def waits_justified_def settled_def lock_of_new)
  show "stream_inv s'" if "stream_inv s" "stream_step s s'" for s s'
    using that(2) by (rule stream_stepE) (use that(1) in \<open>auto intro: stream_begin_inv stream_resume_inv stream_spurious_inv\<close>)
qed

section \<open>Safety\<close>

lemma owner_holds:
  assumes "stream_inv s" "fst (lock_of (stream_reg s) key) = Some u"
  shows "0 < held s u key"
proof -
  have "locks_agree s" using assms(1) by (simp add: stream_inv_def)
  then obtain owner depth where "lock_of (stream_reg s) key = (owner, depth)" "owner = None \<longleftrightarrow> depth = 0"
    "\<And>t. owner = Some t \<Longrightarrow> depth \<le> held s t key" using locks_agreeD [of s key] by metis
  then show ?thesis using assms(2) by fastforce
qed

lemma stream_exclusion:
  assumes inv: "stream_inv s" and "\<not> overtaken s"
  shows "(\<forall>t u key. held s t key > 0 \<and> held s u key > 0 \<longrightarrow> t = u) \<and>
    (\<forall>t key. held s t key < USIZE_MAX \<longrightarrow>
       fst (lock_step t True key s) = Some (if \<exists>u. u \<noteq> t \<and> held s u key > 0 then EBUSY else 0))"
proof -
  have agree: "locks_agree s" using inv by (simp add: stream_inv_def)
  have lock: "\<exists>o' d. lock_of (stream_reg s) key = (o', d) \<and> (o' = None \<longleftrightarrow> d = 0) \<and>
      (\<forall>t. held s t key = (if o' = Some t then d else 0))" for key
    by (rule locks_agreeD [OF agree, of key]) (use assms(2) in \<open>auto simp: told_def\<close>)
  have owner: "fst (lock_of (stream_reg s) key) = Some u \<longleftrightarrow> held s u key > 0" for u key
    using lock [of key] by (auto split: if_splits)
  have "t = u" if "held s t key > 0" "held s u key > 0" for t u key
    using that unfolding owner [symmetric] by simp
  moreover have "fst (lock_step t True key s) = Some (if \<exists>u. u \<noteq> t \<and> held s u key > 0 then EBUSY else 0)"
    if small: "held s t key < USIZE_MAX" for t key
  proof -
    obtain o' d where d: "lock_of (stream_reg s) key = (o', d)" "o' = None \<longleftrightarrow> d = 0"
      "\<And>t. held s t key = (if o' = Some t then d else 0)" using lock [of key] by blast
    have bound: "o' = Some t \<longrightarrow> d < USIZE_MAX" using small d(3) [of t] by auto
    have "(\<exists>u. u \<noteq> t \<and> held s u key > 0) \<longleftrightarrow> (\<exists>u. u \<noteq> t \<and> o' = Some u)" using owner [of key] d(1) by auto
    with locks_agree_distinct [OF agree] d(1,2) bound show ?thesis
      by (cases rule: lock_pass_cases [where t = t and try_only = True, consumes 4]) (auto simp: lock_step_def Let_def)
  qed
  ultimately show ?thesis by blast
qed

lemma busy_only_if_held:
  assumes inv: "stream_inv s" and busy: "fst (lock_step t True key s) = Some EBUSY"
  shows "\<exists>u. u \<noteq> t \<and> held s u key > 0"
proof -
  have "\<exists>u. u \<noteq> t \<and> file_lock_owner (stream_state (stream_reg s) key) = Some u"
    using busy by (auto simp: lock_step_def lock_pass_def Let_def EBUSY_def split: option.splits if_splits)
  then show ?thesis using owner_holds [OF inv] by (auto simp: lock_of_def)
qed


text \<open>Two threads at one stream: the second waits, a third is refused.\<close>

definition locked_once :: stream_system where
  "locked_once = \<lparr>stream_reg = [(new_stream 16)\<lparr>file_lock_owner := Some 1, file_lock_depth := 1\<rparr>], stream_pcs = (\<lambda>_. Outside),
     held = (\<lambda>_ _. 0)(1 := (\<lambda>_. 0)(16 := 1)), overtaken = False\<rparr>"

definition contended :: stream_system where
  "contended = locked_once\<lparr>stream_pcs := (\<lambda>_. Outside)(2 := Waiting 16)\<rparr>"

lemmas stream_eval = stream_begin_def lock_step_def lock_pass_def unlock_section_def clear_section_def notify_after_def
  stream_state_def new_stream_def set_held_def stream_goto_def wake_waiters_def stream_resume_def Let_def

lemma contended_reachable: "stream_reachable contended"
proof -
  have "stream_begin 1 (Flock 16) stream_start = (Some 0, locked_once)"
    by (simp add: stream_start_def locked_once_def stream_eval fun_eq_iff)
  then have "stream_step stream_start locked_once"
    by (intro stream_called [of _ 1 "Flock 16"]) (simp_all add: stream_start_def call_allowed_def USIZE_MAX_def)
  moreover have "stream_reachable stream_start" by (rule reachable_init) simp
  ultimately have "stream_reachable locked_once" by (metis reachable_step)
  moreover have "stream_begin 2 (Flock 16) locked_once = (None, contended)"
    by (simp add: contended_def locked_once_def stream_eval)
  then have "stream_step locked_once contended"
    by (intro stream_called [of _ 2 "Flock 16"]) (simp_all add: locked_once_def call_allowed_def USIZE_MAX_def)
  ultimately show ?thesis by (rule reachable_step)
qed


text \<open>
  The assumption on removed states is needed, and the code breaks it: \<^verbatim>\<open>fclose\<close> (thread 1) gives the address back to the host before it removes its state, so
  that \<^verbatim>\<open>fopen\<close> (thread 2) can hand out the same address in between. The removal then takes away the lock of
  thread 2 on its new stream, and thread 3 gets it too.
\<close>

primrec run_stream_calls :: "(tid \<times> stream_call option) list \<Rightarrow> stream_system \<Rightarrow> stream_system option" where
  "run_stream_calls [] s = Some s"
| "run_stream_calls (e # es) s =
     (case e of
        (t, Some c) \<Rightarrow> if stream_pcs s t = Outside \<and> call_allowed t c s then run_stream_calls es (snd (stream_begin t c s)) else None
      | (t, None) \<Rightarrow> (case stream_resume t s of None \<Rightarrow> None | Some (r, s) \<Rightarrow> run_stream_calls es s))"

lemma run_stream_calls_reachable: "run_stream_calls es s = Some s' \<Longrightarrow> stream_reachable s \<Longrightarrow> stream_reachable s'"
proof (induction es arbitrary: s)
  case (Cons e es)
  obtain t oc where e: "e = (t, oc)" by (cases e)
  show ?case
  proof (cases oc)
    case None
    then obtain r s1 where "stream_resume t s = Some (r, s1)" "run_stream_calls es s1 = Some s'"
      using Cons.prems(1) e by (auto split: option.splits)
    then show ?thesis using Cons.IH reachable_step [OF Cons.prems(2) stream_resumed] by blast
  next
    case (Some c)
    then have "stream_pcs s t = Outside" "call_allowed t c s" "run_stream_calls es (snd (stream_begin t c s)) = Some s'"
      using Cons.prems(1) e by (auto split: if_splits)
    then show ?thesis
      using Cons.IH reachable_step [OF Cons.prems(2) stream_called [of s t c "fst (stream_begin t c s)"]] by simp
  qed
qed simp

lemma others_hold_locked: "others_hold 2 16 locked_once"
  unfolding others_hold_def by (rule exI [of _ 1]) (simp add: locked_once_def)

definition cleared :: stream_system where
  "cleared = \<lparr>stream_reg = [], stream_pcs = (\<lambda>_. Outside)(2 := Notifying),
     held = (\<lambda>_ _. 0)(1 := (\<lambda>_. 0)(16 := 1), 2 := (\<lambda>_. 0)(16 := 0)), overtaken = True\<rparr>"

lemma cleared_run: "run_stream_calls [(1, Some (Flock 16)), (2, Some (Clear 16))] stream_start = Some cleared"
proof -
  have "stream_begin 1 (Flock 16) stream_start = (Some 0, locked_once)"
    by (simp add: stream_start_def locked_once_def stream_eval fun_eq_iff)
  moreover have "stream_begin 2 (Clear 16) locked_once = (Some 0, cleared)"
    unfolding stream_begin_def stream_call.case notify_after_def
    using others_hold_locked by (simp add: cleared_def locked_once_def stream_eval)
  moreover have "stream_pcs stream_start 1 = Outside" "stream_pcs locked_once 2 = Outside"
    "call_allowed 1 (Flock 16) stream_start" "call_allowed 2 (Clear 16) locked_once"
    by (simp_all add: stream_start_def locked_once_def call_allowed_def USIZE_MAX_def)
  ultimately show ?thesis by simp
qed

definition reopened :: stream_system where
  "reopened = \<lparr>stream_reg = [(new_stream 16)\<lparr>file_lock_owner := Some 2, file_lock_depth := 1\<rparr>],
     stream_pcs = (\<lambda>_. Outside)(2 := Outside),
     held = (\<lambda>_ _. 0)(1 := (\<lambda>_. 0)(16 := 1), 2 := (\<lambda>_. 0)(16 := 1)), overtaken = True\<rparr>"

lemma reopened_run: "run_stream_calls [(2, None), (2, Some (Flock 16))] cleared = Some reopened"
proof -
  have woken: "(\<lambda>t. case if t = 2 then Notifying else Outside of Waiting key \<Rightarrow> Woken key | p \<Rightarrow> p)(2 := Outside) = (\<lambda>_. Outside)(2 := Outside)"
    by auto
  have zero: "(\<lambda>_. 0)(16 := 0) = (\<lambda>_. 0 :: nat)" by auto
  show ?thesis
    by (simp add: cleared_def reopened_def stream_resume_def wake_waiters_def woken zero stream_begin_def lock_step_def lock_pass_def
        stream_state_def new_stream_def set_held_def stream_goto_def Let_def call_allowed_def USIZE_MAX_def)
qed

lemma fclose_race_breaks_lock:
  "\<exists>s. stream_reachable s \<and> overtaken s \<and> held s 2 16 = 1 \<and> held s 3 16 = 1"
proof -
  have start: "stream_reachable stream_start" by (rule reachable_init) simp
  have reach: "stream_reachable reopened"
    by (rule run_stream_calls_reachable [OF reopened_run run_stream_calls_reachable [OF cleared_run start]])
  have "\<exists>s. run_stream_calls [(1, Some (Clear 16)), (3, Some (Flock 16))] reopened = Some s \<and> overtaken s \<and>
      held s 2 16 = 1 \<and> held s 3 16 = 1"
    by (simp add: reopened_def stream_begin_def notify_after_def clear_section_def lock_step_def lock_pass_def
        stream_state_def new_stream_def set_held_def stream_goto_def Let_def call_allowed_def USIZE_MAX_def)
  then show ?thesis using run_stream_calls_reachable [OF _ reach] by blast
qed

end
