(* ===== verification/Alloc.thy ===== *)
theory Alloc
  imports Little_Endian
begin

text \<open>
  The allocator of \<^verbatim>\<open>src/src/stdlib/alloc.rs\<close>. Every allocation is a mapping of its own: a record at its start, which links it into the
  list of the live allocations, a header before the payload, and the payload. The list and the headers are read and
  written in the byte memory. The system call is a parameter, which gives and takes memory; calls of the allocator are taken one
  after another, so the spin lock around the list is free at the start of each.
\<close>

section \<open>Constants and records\<close>

definition MAX_REQUEST_SIZE :: nat where "MAX_REQUEST_SIZE = 2 ^ 63 - 1"
definition MIN_NONZERO_ALLOCATION :: nat where "MIN_NONZERO_ALLOCATION = 1"
definition PAGE_SIZE :: nat where "PAGE_SIZE = 4096"
definition POINTER_SIZE :: nat where "POINTER_SIZE = 8"
definition MALLOC_ALIGNMENT :: nat where "MALLOC_ALIGNMENT = 16"
definition HEADER_MAGIC :: nat where "HEADER_MAGIC = 0x524C4942435F414C"
definition HEADER_SIZE :: nat where "HEADER_SIZE = 56"
definition RECORD_SIZE :: nat where "RECORD_SIZE = 64"
definition MAP_ANONYMOUS :: c_long where "MAP_ANONYMOUS = 0x20"
definition MAP_PRIVATE :: c_long where "MAP_PRIVATE = 0x02"
definition PROT_READ :: c_long where "PROT_READ = 0x1"
definition PROT_WRITE :: c_long where "PROT_WRITE = 0x2"
definition SYS_MMAP :: c_long where "SYS_MMAP = 9"
definition SYS_MUNMAP :: c_long where "SYS_MUNMAP = 11"

lemmas alloc_constants = MAX_REQUEST_SIZE_def MIN_NONZERO_ALLOCATION_def PAGE_SIZE_def POINTER_SIZE_def MALLOC_ALIGNMENT_def
  HEADER_SIZE_def RECORD_SIZE_def

text \<open>The fields of a header, in the order of its layout.\<close>

record AllocationHeader =
  magic :: nat
  mapping_base :: addr
  mapping_len :: nat
  payload_addr :: addr
  requested_size :: nat
  alignment :: nat
  cookie :: nat

definition header_bytes :: "AllocationHeader \<Rightarrow> u8 list" where
  "header_bytes h = le_bytes 8 (magic h) @ le_bytes 8 (mapping_base h) @ le_bytes 8 (mapping_len h) @ le_bytes 8 (payload_addr h) @
     le_bytes 8 (requested_size h) @ le_bytes 8 (alignment h) @ le_bytes 8 (cookie h)"

definition header_of :: "u8 list \<Rightarrow> AllocationHeader" where
  "header_of bs =
     (let field = (\<lambda>i. le_val (take 8 (drop (8 * i) bs))) in
      \<lparr>magic = field 0, mapping_base = field 1, mapping_len = field 2, payload_addr = field 3, requested_size = field 4,
       alignment = field 5, cookie = field 6\<rparr>)"

text \<open>
  A record is the address of the next one and a header. The state is that of a C caller with the head of the list and what
  the kernel keeps; the platform is the system call and the address of the static the cookie is mixed with.
\<close>

record 'k alloc_state = machine +
  active_head :: addr
  kernel_state :: 'k

record 'k platform =
  syscall :: "c_long list \<Rightarrow> mem \<times> 'k \<Rightarrow> c_long \<times> mem \<times> 'k"
  cookie_anchor :: addr

section \<open>Arithmetic\<close>

definition request_too_large :: "nat \<Rightarrow> bool" where
  "request_too_large sz \<longleftrightarrow> sz > MAX_REQUEST_SIZE"

definition checked_calloc_size :: "nat \<Rightarrow> nat \<Rightarrow> nat option" where
  "checked_calloc_size nmemb sz = do {
     total \<leftarrow> checked_mul nmemb sz;
     if request_too_large total then None else Some total }"

definition c_long_from_usize :: "nat \<Rightarrow> c_long option" where
  "c_long_from_usize v = try_i64 (int v)"

definition payload_size_for :: "nat \<Rightarrow> nat" where
  "payload_size_for requested = (if requested = 0 then MIN_NONZERO_ALLOCATION else requested)"

definition align_up :: "nat \<Rightarrow> nat \<Rightarrow> nat option" where
  "align_up v align = do {
     alignment_mask \<leftarrow> checked_sub align 1;
     padded \<leftarrow> checked_add v alignment_mask;
     Some (unat ((of_nat padded :: 64 word) AND NOT (of_nat alignment_mask))) }"

definition mapping_len_for :: "nat \<Rightarrow> nat \<Rightarrow> nat option" where
  "mapping_len_for requested align = do {
     alignment_padding \<leftarrow> checked_sub align 1;
     total \<leftarrow> checked_add HEADER_SIZE RECORD_SIZE;
     total \<leftarrow> checked_add total (payload_size_for requested);
     total_size \<leftarrow> checked_add total alignment_padding;
     align_up total_size PAGE_SIZE }"

definition allocation_cookie_seed :: "'k platform \<Rightarrow> 64 word" where
  "allocation_cookie_seed P = word_rotl 17 (of_nat (cookie_anchor P)) XOR word_rotr 7 (of_nat HEADER_MAGIC)"

definition allocation_cookie :: "'k platform \<Rightarrow> addr \<Rightarrow> nat \<Rightarrow> addr \<Rightarrow> nat \<Rightarrow> nat \<Rightarrow> nat" where
  "allocation_cookie P base len payload requested align =
     unat (word_rotl 5 (of_nat base) XOR word_rotl 11 (of_nat len) XOR word_rotl 17 (of_nat payload) XOR
           word_rotl 23 (of_nat requested) XOR word_rotl 29 (of_nat align) XOR allocation_cookie_seed P)"

definition is_page_aligned :: "nat \<Rightarrow> bool" where
  "is_page_aligned v \<longleftrightarrow> v mod PAGE_SIZE = 0"

definition payload_lower_bound_for :: "addr \<Rightarrow> addr option" where
  "payload_lower_bound_for base = do {
     v \<leftarrow> checked_add base RECORD_SIZE;
     checked_add v HEADER_SIZE }"

text \<open>\<^verbatim>\<open>usize::is_power_of_two\<close>.\<close>

definition is_power_of_two :: "nat \<Rightarrow> bool" where
  "is_power_of_two v \<longleftrightarrow> list_ex (\<lambda>k. v = 2 ^ k) [0..<64]"

definition has_allocator_alignment_shape :: "nat \<Rightarrow> bool" where
  "has_allocator_alignment_shape align \<longleftrightarrow> is_power_of_two align \<and> align \<noteq> 0"

definition has_valid_alignment_shape :: "nat \<Rightarrow> bool" where
  "has_valid_alignment_shape align \<longleftrightarrow> has_allocator_alignment_shape align \<and> align \<ge> POINTER_SIZE"

definition has_glibc_alignment_shape :: "nat \<Rightarrow> bool" where
  "has_glibc_alignment_shape align = has_allocator_alignment_shape align"

definition effective_allocation_alignment :: "nat \<Rightarrow> nat" where
  "effective_allocation_alignment align = (if align < MALLOC_ALIGNMENT then MALLOC_ALIGNMENT else align)"

section \<open>Headers\<close>

definition validate_header_for_payload :: "'k platform \<Rightarrow> AllocationHeader \<Rightarrow> addr \<Rightarrow> AllocationHeader option" where
  "validate_header_for_payload P h payload =
     (if magic h \<noteq> HEADER_MAGIC \<or> payload_addr h \<noteq> payload then None
      else if \<not> has_allocator_alignment_shape (alignment h) \<or> payload mod alignment h \<noteq> 0 then None
      else if mapping_base h = 0 \<or> \<not> is_page_aligned (mapping_base h) then None
      else do {
        smallest \<leftarrow> checked_add RECORD_SIZE HEADER_SIZE;
        if mapping_len h < smallest \<or> \<not> is_page_aligned (mapping_len h) then None
        else do {
          let payload_size = payload_size_for (requested_size h);
          payload_lower_bound \<leftarrow> payload_lower_bound_for (mapping_base h);
          mapping_end \<leftarrow> checked_add (mapping_base h) (mapping_len h);
          payload_end \<leftarrow> checked_add payload payload_size;
          if payload < payload_lower_bound \<or> payload_end > mapping_end then None
          else if cookie h \<noteq> allocation_cookie P (mapping_base h) (mapping_len h) (payload_addr h) (requested_size h) (alignment h)
          then None
          else Some h } })"

definition build_allocation_header :: "'k platform \<Rightarrow> addr \<Rightarrow> addr \<Rightarrow> nat \<Rightarrow> nat \<Rightarrow> nat \<Rightarrow> AllocationHeader" where
  "build_allocation_header P payload base len requested align =
     \<lparr>magic = HEADER_MAGIC, mapping_base = base, mapping_len = len, payload_addr = payload, requested_size = requested,
      alignment = align, cookie = allocation_cookie P base len payload requested align\<rparr>"

text \<open>Fields and headers in memory.\<close>

definition read_usize :: "mem \<Rightarrow> addr \<Rightarrow> nat option" where
  "read_usize m p = map_option le_val (read_block m p 8)"

definition write_usize :: "mem \<Rightarrow> addr \<Rightarrow> nat \<Rightarrow> mem option" where
  "write_usize m p v = write_block m p (le_bytes 8 v)"

definition read_header :: "mem \<Rightarrow> addr \<Rightarrow> AllocationHeader option" where
  "read_header m p = map_option header_of (read_block m p HEADER_SIZE)"

definition NEXT :: nat where "NEXT = 0"
definition HEADER :: nat where "HEADER = 8"
definition PAYLOAD_ADDR :: nat where "PAYLOAD_ADDR = 24"

lemmas alloc_layout = NEXT_def HEADER_def PAYLOAD_ADDR_def

definition read_payload_header :: "'k platform \<Rightarrow> mem \<Rightarrow> addr \<Rightarrow> AllocationHeader option option" where
  "read_payload_header P m payload = do {
     h \<leftarrow> read_header m (payload - HEADER_SIZE);
     Some (validate_header_for_payload P h payload) }"

definition write_payload_header :: "addr \<Rightarrow> AllocationHeader \<Rightarrow> mem \<Rightarrow> mem option" where
  "write_payload_header payload h m = write_block m (payload - HEADER_SIZE) (header_bytes h)"

definition write_allocation_record :: "addr \<Rightarrow> AllocationHeader \<Rightarrow> mem \<Rightarrow> mem option" where
  "write_allocation_record base h m = write_block m base (le_bytes 8 null @ header_bytes h)"

section \<open>The list of live allocations\<close>

definition register_allocation :: "addr \<Rightarrow> 'k alloc_state \<Rightarrow> 'k alloc_state option" where
  "register_allocation record s = do {
     m \<leftarrow> write_usize (bytes s) (record + NEXT) (active_head s);
     Some (s\<lparr>bytes := m, active_head := record\<rparr>) }"

partial_function (option) lookup_loop :: "mem \<Rightarrow> addr \<Rightarrow> addr \<Rightarrow> AllocationHeader option option" where
  "lookup_loop m payload cursor =
     (if cursor = null then Some None
      else do {
        found \<leftarrow> read_usize m (cursor + HEADER + PAYLOAD_ADDR);
        if found = payload then do { h \<leftarrow> read_header m (cursor + HEADER); Some (Some h) }
        else do {
          next \<leftarrow> read_usize m (cursor + NEXT);
          lookup_loop m payload next } })"

definition lookup_allocation_header :: "addr \<Rightarrow> 'k alloc_state \<Rightarrow> AllocationHeader option option" where
  "lookup_allocation_header payload s = lookup_loop (bytes s) payload (active_head s)"

partial_function (option) unregister_loop ::
  "addr \<Rightarrow> addr \<Rightarrow> addr \<Rightarrow> 'k alloc_state \<Rightarrow> (AllocationHeader option \<times> 'k alloc_state) option" where
  "unregister_loop payload previous cursor s =
     (if cursor = null then Some (None, s)
      else do {
        found \<leftarrow> read_usize (bytes s) (cursor + HEADER + PAYLOAD_ADDR);
        next \<leftarrow> read_usize (bytes s) (cursor + NEXT);
        if found = payload then do {
          s \<leftarrow> (if previous = null then Some (s\<lparr>active_head := next\<rparr>)
                else do { m \<leftarrow> write_usize (bytes s) (previous + NEXT) next; Some (s\<lparr>bytes := m\<rparr>) });
          m \<leftarrow> write_usize (bytes s) (cursor + NEXT) null;
          h \<leftarrow> read_header m (cursor + HEADER);
          Some (Some h, s\<lparr>bytes := m\<rparr>) }
        else unregister_loop payload cursor next s })"

definition unregister_allocation :: "addr \<Rightarrow> 'k alloc_state \<Rightarrow> (AllocationHeader option \<times> 'k alloc_state) option" where
  "unregister_allocation payload s = unregister_loop payload null (active_head s) s"

definition validate_live_allocation :: "'k platform \<Rightarrow> addr \<Rightarrow> 'k alloc_state \<Rightarrow> AllocationHeader option option" where
  "validate_live_allocation P payload s = do {
     authoritative \<leftarrow> lookup_allocation_header payload s;
     case authoritative of
       None \<Rightarrow> Some None
     | Some authoritative_header \<Rightarrow> do {
         payload_header \<leftarrow> read_payload_header P (bytes s) payload;
         Some (case payload_header of
                 None \<Rightarrow> None
               | Some h \<Rightarrow> if h \<noteq> authoritative_header then None else Some authoritative_header) } }"

section \<open>Mappings\<close>

definition decode_raw :: "c_long \<Rightarrow> c_int + nat" where
  "decode_raw raw = (if - 4095 \<le> sint raw \<and> sint raw \<le> - 1 then Inl (word_of_int (- sint raw)) else Inr (unat raw))"

definition decode_syscall_result :: "c_long \<Rightarrow> c_int + nat" where
  "decode_syscall_result raw = decode_raw raw"

definition mmap_allocation :: "'k platform \<Rightarrow> nat \<Rightarrow> 'k alloc_state \<Rightarrow> (c_int + addr) \<times> 'k alloc_state" where
  "mmap_allocation P len s =
     (case c_long_from_usize len of
        None \<Rightarrow> (Inl ENOMEM, s)
      | Some length_arg \<Rightarrow>
          (case syscall P [SYS_MMAP, 0, length_arg, PROT_READ OR PROT_WRITE, MAP_PRIVATE OR MAP_ANONYMOUS, -1, 0]
                  (bytes s, kernel_state s) of
             (raw, m, k) \<Rightarrow>
               (let s = s\<lparr>bytes := m, kernel_state := k\<rparr> in
                case decode_syscall_result raw of
                  Inl e \<Rightarrow> (Inl e, s)
                | Inr mapped_addr \<Rightarrow> (if mapped_addr = null then Inl ENOMEM else Inr mapped_addr, s))))"

definition munmap_allocation :: "'k platform \<Rightarrow> addr \<Rightarrow> nat \<Rightarrow> 'k alloc_state \<Rightarrow> 'k alloc_state" where
  "munmap_allocation P base len s =
     (case c_long_from_usize base of
        None \<Rightarrow> s
      | Some base_arg \<Rightarrow>
          (case c_long_from_usize len of
             None \<Rightarrow> s
           | Some length_arg \<Rightarrow>
               (case syscall P [SYS_MUNMAP, base_arg, length_arg] (bytes s, kernel_state s) of
                  (_, m, k) \<Rightarrow> s\<lparr>bytes := m, kernel_state := k\<rparr>)))"

section \<open>Allocation\<close>

text \<open>The payload inside a mapping, when it fits.\<close>

definition place_payload :: "addr \<Rightarrow> nat \<Rightarrow> nat \<Rightarrow> nat \<Rightarrow> addr option" where
  "place_payload base_addr len requested align = do {
     payload_lower_bound \<leftarrow> payload_lower_bound_for base_addr;
     payload \<leftarrow> align_up payload_lower_bound align;
     let payload_size = max requested MIN_NONZERO_ALLOCATION;
     payload_end_addr \<leftarrow> checked_add payload payload_size;
     mapping_end_addr \<leftarrow> checked_add base_addr len;
     if payload_end_addr > mapping_end_addr then None
     else if payload = null then None
     else Some payload }"

definition allocate_with_alignment :: "'k platform \<Rightarrow> nat \<Rightarrow> nat \<Rightarrow> 'k alloc_state \<Rightarrow> ((c_int + addr) \<times> 'k alloc_state) option" where
  "allocate_with_alignment P requested align s =
     (if request_too_large requested \<or> \<not> has_allocator_alignment_shape align then Some (Inl ENOMEM, s)
      else
        (let effective_alignment = effective_allocation_alignment align in
         case mapping_len_for requested effective_alignment of
           None \<Rightarrow> Some (Inl ENOMEM, s)
         | Some len \<Rightarrow>
             (case mmap_allocation P len s of
                (Inl e, s) \<Rightarrow> Some (Inl e, s)
              | (Inr base, s) \<Rightarrow>
                  (case place_payload base len requested effective_alignment of
                     None \<Rightarrow> Some (Inl ENOMEM, munmap_allocation P base len s)
                   | Some payload \<Rightarrow> do {
                       let header = build_allocation_header P payload base len requested effective_alignment;
                       m \<leftarrow> write_allocation_record base header (bytes s);
                       m \<leftarrow> write_payload_header payload header m;
                       s \<leftarrow> register_allocation base (s\<lparr>bytes := m\<rparr>);
                       Some (Inr payload, s) }))))"

text \<open>\<open>or_errno\<close>: a pointer, or null with errno.\<close>

definition or_errno :: "(c_int + addr) \<times> 'k alloc_state \<Rightarrow> addr \<times> 'k alloc_state" where
  "or_errno r = (case r of (Inr p, s) \<Rightarrow> (p, s) | (Inl e, s) \<Rightarrow> (null, set_errno e s))"

definition malloc :: "'k platform \<Rightarrow> nat \<Rightarrow> 'k alloc_state \<Rightarrow> (addr \<times> 'k alloc_state) option" where
  "malloc P sz s = map_option or_errno (allocate_with_alignment P sz MALLOC_ALIGNMENT s)"

definition malloc_usable_size :: "'k platform \<Rightarrow> addr \<Rightarrow> 'k alloc_state \<Rightarrow> nat option" where
  "malloc_usable_size P p s =
     (if p = null then Some 0
      else do {
        live \<leftarrow> validate_live_allocation P p s;
        Some (case live of None \<Rightarrow> 0 | Some h \<Rightarrow> payload_size_for (requested_size h)) })"

definition calloc :: "'k platform \<Rightarrow> nat \<Rightarrow> nat \<Rightarrow> 'k alloc_state \<Rightarrow> (addr \<times> 'k alloc_state) option" where
  "calloc P nmemb sz s =
     (case checked_calloc_size nmemb sz of
        None \<Rightarrow> Some (null, set_errno ENOMEM s)
      | Some total_size \<Rightarrow> do {
          (p, s) \<leftarrow> malloc P total_size s;
          if p = null then Some (null, s)
          else do {
            m \<leftarrow> write_block (bytes s) p (replicate total_size 0);
            Some (p, s\<lparr>bytes := m\<rparr>) } })"

definition aligned_alloc :: "'k platform \<Rightarrow> nat \<Rightarrow> nat \<Rightarrow> 'k alloc_state \<Rightarrow> (addr \<times> 'k alloc_state) option" where
  "aligned_alloc P align sz s =
     (if \<not> has_glibc_alignment_shape align then Some (null, set_errno EINVAL s)
      else map_option or_errno (allocate_with_alignment P sz align s))"

definition posix_memalign :: "'k platform \<Rightarrow> addr \<Rightarrow> nat \<Rightarrow> nat \<Rightarrow> 'k alloc_state \<Rightarrow> (c_int \<times> 'k alloc_state) option" where
  "posix_memalign P memptr align sz s =
     (if memptr = null \<or> \<not> has_valid_alignment_shape align then Some (EINVAL, s)
      else do {
        (r, s) \<leftarrow> allocate_with_alignment P sz align s;
        case r of
          Inr p \<Rightarrow> do { s \<leftarrow> write_ptr memptr p s; Some (0, s) }
        | Inl e \<Rightarrow> Some (e, s) })"

definition memalign :: "'k platform \<Rightarrow> nat \<Rightarrow> nat \<Rightarrow> 'k alloc_state \<Rightarrow> (addr \<times> 'k alloc_state) option" where
  "memalign P align sz s =
     (if \<not> has_glibc_alignment_shape align then Some (null, set_errno EINVAL s)
      else map_option or_errno (allocate_with_alignment P sz align s))"

definition valloc :: "'k platform \<Rightarrow> nat \<Rightarrow> 'k alloc_state \<Rightarrow> (addr \<times> 'k alloc_state) option" where
  "valloc P sz s = map_option or_errno (allocate_with_alignment P sz PAGE_SIZE s)"

definition pvalloc :: "'k platform \<Rightarrow> nat \<Rightarrow> 'k alloc_state \<Rightarrow> (addr \<times> 'k alloc_state) option" where
  "pvalloc P sz s =
     (case if sz = 0 then Some PAGE_SIZE else align_up sz PAGE_SIZE of
        None \<Rightarrow> Some (null, set_errno ENOMEM s)
      | Some rounded_size \<Rightarrow> valloc P rounded_size s)"

section \<open>Release and resizing\<close>

definition free :: "'k platform \<Rightarrow> addr \<Rightarrow> 'k alloc_state \<Rightarrow> 'k alloc_state option" where
  "free P p s =
     (if p = null then Some s
      else do {
        live \<leftarrow> validate_live_allocation P p s;
        if live = None then Some s
        else do {
          (removed, s) \<leftarrow> unregister_allocation p s;
          Some (case removed of
                  None \<Rightarrow> s
                | Some h \<Rightarrow>
                    if mapping_base h = null \<or> mapping_len h < RECORD_SIZE + HEADER_SIZE then s
                    else munmap_allocation P (mapping_base h) (mapping_len h) s) } })"

definition cfree :: "'k platform \<Rightarrow> addr \<Rightarrow> 'k alloc_state \<Rightarrow> 'k alloc_state option" where
  "cfree P p s = free P p s"

definition realloc :: "'k platform \<Rightarrow> addr \<Rightarrow> nat \<Rightarrow> 'k alloc_state \<Rightarrow> (addr \<times> 'k alloc_state) option" where
  "realloc P p sz s =
     (if p = null then malloc P sz s
      else if sz = 0 then do { s \<leftarrow> free P p s; Some (null, s) }
      else if request_too_large sz then Some (null, set_errno ENOMEM s)
      else do {
        live \<leftarrow> validate_live_allocation P p s;
        case live of
          None \<Rightarrow> Some (null, s)
        | Some old_header \<Rightarrow> do {
            (r, s) \<leftarrow> allocate_with_alignment P sz (alignment old_header) s;
            case r of
              Inl e \<Rightarrow> Some (null, set_errno e s)
            | Inr new_ptr \<Rightarrow> do {
                bs \<leftarrow> read_block (bytes s) p (min (requested_size old_header) sz);
                m \<leftarrow> write_block (bytes s) new_ptr bs;
                s \<leftarrow> free P p (s\<lparr>bytes := m\<rparr>);
                Some (new_ptr, s) } } })"

definition reallocarray :: "'k platform \<Rightarrow> addr \<Rightarrow> nat \<Rightarrow> nat \<Rightarrow> 'k alloc_state \<Rightarrow> (addr \<times> 'k alloc_state) option" where
  "reallocarray P p nmemb sz s =
     (case checked_calloc_size nmemb sz of
        None \<Rightarrow> Some (null, set_errno ENOMEM s)
      | Some total_size \<Rightarrow> realloc P p total_size s)"

end
