(* ===== verification/Alloc_Heap.thy ===== *)
theory Alloc_Heap
  imports Alloc
begin

text \<open>
  The memory of the allocator: rounding, headers in memory, what the kernel is documented to do, the list of live allocations with its
  invariant, lookup, and allocation, which adds a mapping to the list.
\<close>

section \<open>Arithmetic\<close>

lemma is_power_of_two_iff: "is_power_of_two v \<longleftrightarrow> (\<exists>k<64. v = 2 ^ k)"
  by (auto simp: is_power_of_two_def list_ex_iff)

lemma shape_iff: "has_allocator_alignment_shape v \<longleftrightarrow> (\<exists>k<64. v = 2 ^ k)"
  by (auto simp: has_allocator_alignment_shape_def is_power_of_two_iff)

lemma effective_alignment: "effective_allocation_alignment a = max a 16"
  by (simp add: effective_allocation_alignment_def MALLOC_ALIGNMENT_def)

lemma shape_max: "has_allocator_alignment_shape a \<Longrightarrow> has_allocator_alignment_shape (max a 16)"
  using shape_iff [of 16] by (auto simp: max_def intro: exI [of _ 4])

lemma clear_low_bits:
  assumes "x \<le> USIZE_MAX" "k < 64"
  shows "unat ((of_nat x :: 64 word) AND NOT (of_nat (2 ^ k - 1))) = x div 2 ^ k * 2 ^ k"
proof -
  have x: "unat (of_nat x :: 64 word) = x" using assms(1) by (simp add: USIZE_MAX_def unat_of_nat)
  have "(of_nat (2 ^ k - 1) :: 64 word) = mask k"
    by (simp add: mask_eq_exp_minus_1 of_nat_diff)
  then have "(of_nat x :: 64 word) AND NOT (of_nat (2 ^ k - 1)) = push_bit k (drop_bit k (of_nat x))"
    by (auto intro!: bit_eqI simp: bit_simps)
  moreover have "unat (drop_bit k (of_nat x :: 64 word)) = x div 2 ^ k"
    by (simp add: unat_drop_bit_eq x flip: drop_bit_eq_div)
  moreover have "x div 2 ^ k * 2 ^ k \<le> x" by (rule div_times_less_eq_dividend)
  then have "x div 2 ^ k * 2 ^ k < 2 ^ 64" by (rule le_less_trans) (use assms(1) in \<open>simp add: USIZE_MAX_def\<close>)
  moreover have "unat (push_bit k w) = unat w * 2 ^ k mod 2 ^ 64" for w :: "64 word"
    by (simp only: unsigned_push_bit_eq take_bit_eq_mod push_bit_eq_mult [of k "unat w"]) simp
  ultimately show ?thesis by simp
qed

lemma align_up_cases:
  assumes "k < 64"
  shows "align_up v (2 ^ k) = (if v + (2 ^ k - 1) \<le> USIZE_MAX then Some ((v + (2 ^ k - 1)) div 2 ^ k * 2 ^ k) else None)"
  using clear_low_bits [OF _ assms, of "v + (2 ^ k - 1)"]
  by (simp add: align_up_def checked_sub_def checked_add_def)

lemma round_up:
  assumes "(0 :: nat) < a"
  shows "v \<le> (v + (a - 1)) div a * a" "(v + (a - 1)) div a * a \<le> v + (a - 1)" "a dvd (v + (a - 1)) div a * a"
proof -
  have "(v + (a - 1)) div a * a + (v + (a - 1)) mod a = v + (a - 1)" by simp
  moreover have "(v + (a - 1)) mod a < a" using assms by simp
  ultimately show "v \<le> (v + (a - 1)) div a * a" "(v + (a - 1)) div a * a \<le> v + (a - 1)" using assms by linarith+
qed simp

lemma align_up_Some:
  assumes "align_up v a = Some w" "has_allocator_alignment_shape a"
  shows "v \<le> w" "w \<le> v + (a - 1)" "a dvd w" "w \<le> USIZE_MAX"
proof -
  obtain k where k: "k < 64" "a = 2 ^ k" using assms(2) by (auto simp: shape_iff)
  then have a: "0 < a" by simp
  have w: "v + (a - 1) \<le> USIZE_MAX" "w = (v + (a - 1)) div a * a"
    using assms(1) align_up_cases [OF k(1), of v] k(2) by (simp_all split: if_splits)
  show "v \<le> w" "w \<le> v + (a - 1)" "a dvd w" using round_up [OF a, of v] w(2) by simp_all
  then show "w \<le> USIZE_MAX" using w(1) by simp
qed

lemma align_up_defined: "has_allocator_alignment_shape a \<Longrightarrow> v + (a - 1) \<le> USIZE_MAX \<Longrightarrow> \<exists>w. align_up v a = Some w"
  by (auto simp: shape_iff align_up_cases)

lemma page_shape: "has_allocator_alignment_shape PAGE_SIZE"
  by (auto simp: shape_iff PAGE_SIZE_def intro!: exI [of _ 12])

lemma payload_size_max: "payload_size_for n = max n 1"
  by (auto simp: payload_size_for_def MIN_NONZERO_ALLOCATION_def)

lemma mapping_len_for_Some:
  assumes "mapping_len_for n a = Some len" "0 < a"
  shows "PAGE_SIZE dvd len" "120 + max n 1 + (a - 1) \<le> len" "len \<le> 120 + max n 1 + (a - 1) + 4095"
proof -
  have "align_up (120 + max n 1 + (a - 1)) PAGE_SIZE = Some len"
    using assms by (auto simp: mapping_len_for_def checked_sub_def checked_add_def payload_size_max alloc_constants bind_eq_Some_conv
        split: if_splits)
  from align_up_Some [OF this page_shape]
  show "PAGE_SIZE dvd len" "120 + max n 1 + (a - 1) \<le> len" "len \<le> 120 + max n 1 + (a - 1) + 4095"
    by (simp_all add: PAGE_SIZE_def)
qed

lemma mapping_len_for_defined:
  assumes "0 < a" "120 + max n 1 + (a - 1) + 4095 \<le> USIZE_MAX"
  shows "\<exists>len. mapping_len_for n a = Some len"
proof -
  obtain len where "align_up (120 + max n 1 + (a - 1)) PAGE_SIZE = Some len"
    using align_up_defined [OF page_shape, of "120 + max n 1 + (a - 1)"] assms(2) by (auto simp: PAGE_SIZE_def)
  then show ?thesis using assms
    by (auto simp: mapping_len_for_def checked_sub_def checked_add_def payload_size_max alloc_constants)
qed

section \<open>Headers in memory\<close>

lemma read_usize_at: "bytes_at m p (le_bytes 8 v) \<Longrightarrow> v \<le> USIZE_MAX \<Longrightarrow> read_usize m p = Some v"
  using le_val_le_bytes [of 8 v] read_block_bytes_at [of m p 8 "le_bytes 8 v"]
  by (simp add: read_usize_def USIZE_MAX_def)

lemma length_header_bytes [simp]: "length (header_bytes h) = 56"
  by (simp add: header_bytes_def)

definition header_fits :: "AllocationHeader \<Rightarrow> bool" where
  "header_fits h \<longleftrightarrow> magic h \<le> USIZE_MAX \<and> mapping_base h \<le> USIZE_MAX \<and> mapping_len h \<le> USIZE_MAX \<and> payload_addr h \<le> USIZE_MAX \<and>
     requested_size h \<le> USIZE_MAX \<and> alignment h \<le> USIZE_MAX \<and> cookie h \<le> USIZE_MAX"

lemma header_of_bytes: "header_fits h \<Longrightarrow> header_of (header_bytes h) = h"
  by (cases h) (simp add: header_fits_def header_of_def header_bytes_def le_val_le_bytes USIZE_MAX_def)

lemma read_header_at: "bytes_at m p (header_bytes h) \<Longrightarrow> header_fits h \<Longrightarrow> read_header m p = Some h"
  using read_block_bytes_at [of m p 56 "header_bytes h"] by (simp add: read_header_def HEADER_SIZE_def header_of_bytes)

lemma bytes_at_store_apart:
  "p + length bs \<le> q \<or> q + length xs \<le> p \<Longrightarrow> bytes_at (store_bytes m q xs) p bs = bytes_at m p bs"
  by (rule bytes_at_cong) (auto intro: store_bytes_other)

text \<open>What every header of a live allocation satisfies.\<close>

definition header_ok :: "'k platform \<Rightarrow> AllocationHeader \<Rightarrow> bool" where
  "header_ok P h \<longleftrightarrow>
     h = build_allocation_header P (payload_addr h) (mapping_base h) (mapping_len h) (requested_size h) (alignment h) \<and>
     has_allocator_alignment_shape (alignment h) \<and> alignment h \<ge> 16 \<and> alignment h dvd payload_addr h \<and> mapping_base h > 0 \<and>
     PAGE_SIZE dvd mapping_base h \<and> PAGE_SIZE dvd mapping_len h \<and> mapping_base h + mapping_len h \<le> 2 ^ 47 \<and>
     mapping_base h + 120 \<le> payload_addr h \<and> payload_addr h + max (requested_size h) 1 \<le> mapping_base h + mapping_len h"

lemma build_simps [simp]: "payload_addr (build_allocation_header P p b l n a) = p" "mapping_base (build_allocation_header P p b l n a) = b"
    "mapping_len (build_allocation_header P p b l n a) = l" "requested_size (build_allocation_header P p b l n a) = n"
    "alignment (build_allocation_header P p b l n a) = a"
  by (simp_all add: build_allocation_header_def)

lemma header_okD:
  assumes "header_ok P h"
  shows "header_fits h" "validate_header_for_payload P h (payload_addr h) = Some h"
proof -
  have built: "magic h = HEADER_MAGIC" "cookie h = allocation_cookie P (mapping_base h) (mapping_len h) (payload_addr h) (requested_size h) (alignment h)"
    using assms by (simp_all add: header_ok_def build_allocation_header_def) (metis AllocationHeader.select_convs)+
  have "allocation_cookie P b l p n a \<le> USIZE_MAX" for b l p n a
  proof -
    have "unat w \<le> USIZE_MAX" for w :: "64 word" using unsigned_less [of w, where 'a = nat] by (simp add: USIZE_MAX_def)
    then show ?thesis by (simp only: allocation_cookie_def)
  qed
  moreover have "alignment h \<le> USIZE_MAX"
    using assms power_strict_increasing [of _ 64 "2 :: nat"] by (force simp: header_ok_def shape_iff USIZE_MAX_def)
  ultimately show "header_fits h" using assms built by (auto simp: header_fits_def header_ok_def HEADER_MAGIC_def USIZE_MAX_def max_def split: if_splits)
  show "validate_header_for_payload P h (payload_addr h) = Some h"
    using assms built by (auto simp: validate_header_for_payload_def header_ok_def is_page_aligned_def checked_add_def USIZE_MAX_def
        payload_lower_bound_for_def payload_size_max RECORD_SIZE_def HEADER_SIZE_def)
qed

section \<open>The kernel's memory\<close>

text \<open>
  What \<^verbatim>\<open>mmap\<close> and \<^verbatim>\<open>munmap\<close> are documented to do with the arguments the allocator passes: a new mapping is in user space, aligned to
  a page, apart from all memory and zero; or the call fails with an error number and leaves the memory alone. Removing a mapping removes
  its bytes, or fails.
\<close>

definition fresh_pages :: "mem \<Rightarrow> addr \<Rightarrow> nat \<Rightarrow> bool" where
  "fresh_pages m base len \<longleftrightarrow> 0 < base \<and> PAGE_SIZE dvd base \<and> base + len \<le> 2 ^ 47 \<and> (\<forall>x\<in>{base..<base + len}. m x = None)"

definition zero_pages :: "addr \<Rightarrow> nat \<Rightarrow> mem \<Rightarrow> mem" where
  "zero_pages base len m = (\<lambda>x. if base \<le> x \<and> x < base + len then Some 0 else m x)"

definition without_pages :: "addr \<Rightarrow> nat \<Rightarrow> mem \<Rightarrow> mem" where
  "without_pages base len m = (\<lambda>x. if base \<le> x \<and> x < base + len then None else m x)"

definition mmap_args :: "nat \<Rightarrow> c_long list" where
  "mmap_args len = [SYS_MMAP, 0, of_nat len, PROT_READ OR PROT_WRITE, MAP_PRIVATE OR MAP_ANONYMOUS, -1, 0]"

definition refuses :: "c_long \<Rightarrow> bool" where
  "refuses raw \<longleftrightarrow> - 4095 \<le> sint raw \<and> sint raw \<le> - 1"

definition maps_memory :: "'k platform \<Rightarrow> bool" where
  "maps_memory P \<longleftrightarrow>
     (\<forall>len m k raw m' k'. 0 < len \<longrightarrow> len < 2 ^ 63 \<longrightarrow> PAGE_SIZE dvd len \<longrightarrow> syscall P (mmap_args len) (m, k) = (raw, m', k') \<longrightarrow>
        refuses raw \<and> m' = m \<or> (\<exists>base. raw = of_nat base \<and> fresh_pages m base len \<and> m' = zero_pages base len m)) \<and>
     (\<forall>base len m k raw m' k'. PAGE_SIZE dvd base \<longrightarrow> PAGE_SIZE dvd len \<longrightarrow> 0 < len \<longrightarrow> base + len \<le> 2 ^ 47 \<longrightarrow>
        syscall P [SYS_MUNMAP, of_nat base, of_nat len] (m, k) = (raw, m', k') \<longrightarrow> m' = m \<or> m' = without_pages base len m)"

definition kernel_grants :: "'k platform \<Rightarrow> nat \<Rightarrow> 'k alloc_state \<Rightarrow> bool" where
  "kernel_grants P len s \<longleftrightarrow> len < 2 ^ 63 \<and> \<not> refuses (fst (syscall P (mmap_args len) (bytes s, kernel_state s)))"

lemma c_long_from_usize_iff: "c_long_from_usize n = (if n < 2 ^ 63 then Some (of_nat n) else None)"
  by (auto simp: c_long_from_usize_def try_i64_def)

lemma mmap_cases:
  assumes "maps_memory P" "0 < len" "PAGE_SIZE dvd len"
  obtains (refused) e s' where "mmap_allocation P len s = (Inl e, s')" "bytes s' = bytes s" "active_head s' = active_head s"
      "errno s' = errno s" "ptrs s' = ptrs s" "0 < sint e"
      "\<not> kernel_grants P len s"
    | (granted) base s' where "mmap_allocation P len s = (Inr base, s')" "fresh_pages (bytes s) base len" "bytes s' = zero_pages base len (bytes s)"
      "active_head s' = active_head s" "errno s' = errno s" "ptrs s' = ptrs s" "kernel_grants P len s"
proof (cases "len < 2 ^ 63")
  case False
  then show thesis by (intro refused [of ENOMEM s]) (simp_all add: mmap_allocation_def c_long_from_usize_iff ENOMEM_def kernel_grants_def)
next
  case True
  obtain raw m' k' where call: "syscall P (mmap_args len) (bytes s, kernel_state s) = (raw, m', k')" by (metis prod_cases3)
  have alloc: "mmap_allocation P len s = (case decode_raw raw of
      Inl e \<Rightarrow> (Inl e, s\<lparr>bytes := m', kernel_state := k'\<rparr>)
    | Inr p \<Rightarrow> (if p = null then Inl ENOMEM else Inr p, s\<lparr>bytes := m', kernel_state := k'\<rparr>))"
    using True call by (simp add: mmap_allocation_def c_long_from_usize_iff mmap_args_def decode_syscall_result_def Let_def split: sum.split)
  from assms True call consider "refuses raw" "m' = bytes s"
    | base where "raw = of_nat base" "fresh_pages (bytes s) base len" "m' = zero_pages base len (bytes s)"
    unfolding maps_memory_def by blast
  then show thesis
  proof cases
    case 1
    have bound: "- sint raw \<in> {1..4095}" using 1(1) by (simp add: refuses_def)
    have "0 < sint (word_of_int (- sint raw) :: c_int)"
      using bound by (subst sint_word_of_int_i32) auto
    then show thesis
      using 1 call by (intro refused [of "word_of_int (- sint raw)" "s\<lparr>bytes := m', kernel_state := k'\<rparr>"])
        (simp_all add: alloc decode_raw_def refuses_def kernel_grants_def)
  next
    case 2
    have small: "base < 2 ^ 47" "0 < base" using 2(2) assms(2) by (simp_all add: fresh_pages_def)
    have "sint raw = int base" using small unfolding 2(1)
      by (simp add: sint_uint unsigned_of_nat take_bit_nat_eq_self signed_take_bit_int_eq_self)
    moreover have "unat raw = base" using small unfolding 2(1) by (simp add: unat_of_nat)
    ultimately have "decode_raw raw = Inr base" "\<not> refuses raw" by (simp_all add: decode_raw_def refuses_def)
    then show thesis using 2 small True call
      by (intro granted [of base "s\<lparr>bytes := m', kernel_state := k'\<rparr>"]) (simp_all add: alloc kernel_grants_def)
  qed
qed

lemma munmap_cases:
  assumes "maps_memory P" "PAGE_SIZE dvd base" "PAGE_SIZE dvd len" "0 < len" "base + len \<le> 2 ^ 47"
  obtains s' where "munmap_allocation P base len s = s'" "bytes s' = bytes s \<or> bytes s' = without_pages base len (bytes s)"
    "active_head s' = active_head s" "errno s' = errno s" "ptrs s' = ptrs s"
proof -
  obtain raw m' k' where call: "syscall P [SYS_MUNMAP, of_nat base, of_nat len] (bytes s, kernel_state s) = (raw, m', k')" by (metis prod_cases3)
  have "m' = bytes s \<or> m' = without_pages base len (bytes s)"
    using assms call unfolding maps_memory_def by blast
  then show thesis using call assms(5)
    by (intro that [of "s\<lparr>bytes := m', kernel_state := k'\<rparr>"]) (auto simp: munmap_allocation_def c_long_from_usize_iff)
qed

section \<open>The list in memory\<close>

definition mapping :: "AllocationHeader \<Rightarrow> addr set" where
  "mapping h = {mapping_base h..<mapping_base h + mapping_len h}"

definition apart :: "AllocationHeader \<Rightarrow> AllocationHeader \<Rightarrow> bool" where
  "apart h h' \<longleftrightarrow> mapping h \<inter> mapping h' = {}"

definition first_base :: "AllocationHeader list \<Rightarrow> addr" where
  "first_base hs = (case hs of [] \<Rightarrow> null | h # _ \<Rightarrow> mapping_base h)"

primrec linked :: "mem \<Rightarrow> AllocationHeader list \<Rightarrow> bool" where
  "linked m [] \<longleftrightarrow> True"
| "linked m (h # hs) \<longleftrightarrow> bytes_at m (mapping_base h) (le_bytes 8 (first_base hs) @ header_bytes h) \<and> linked m hs"

definition live :: "'k platform \<Rightarrow> AllocationHeader list \<Rightarrow> bool" where
  "live P hs \<longleftrightarrow> (\<forall>h\<in>set hs. header_ok P h) \<and> sorted_wrt apart hs"

text \<open>The list, the second copies of the headers and the mappings are in memory.\<close>

definition block_in :: "mem \<Rightarrow> AllocationHeader \<Rightarrow> bool" where
  "block_in m h \<longleftrightarrow> bytes_at m (payload_addr h - 56) (header_bytes h) \<and> (\<forall>x\<in>mapping h. m x \<noteq> None)"

definition alloc_inv :: "'k platform \<Rightarrow> 'k alloc_state \<Rightarrow> AllocationHeader list \<Rightarrow> bool" where
  "alloc_inv P s hs \<longleftrightarrow> live P hs \<and> active_head s = first_base hs \<and> linked (bytes s) hs \<and> (\<forall>h\<in>set hs. block_in (bytes s) h)"

lemma first_base_simps [simp]: "first_base [] = null" "first_base (h # hs) = mapping_base h"
  by (simp_all add: first_base_def)

lemma first_base_append: "xs \<noteq> [] \<Longrightarrow> first_base (xs @ ys) = first_base (xs @ zs)"
  by (cases xs) simp_all

lemma header_ok_bounds:
  assumes "header_ok P h"
  shows "120 < mapping_len h" "mapping_base h + 120 \<le> payload_addr h" "payload_addr h + max (requested_size h) 1 \<le> mapping_base h + mapping_len h"
    "0 < mapping_base h" "mapping_base h \<le> USIZE_MAX" "payload_addr h \<in> mapping h" "mapping_base h \<in> mapping h" "payload_addr h \<le> USIZE_MAX"
  using assms by (auto simp: header_ok_def mapping_def USIZE_MAX_def max_def split: if_splits)

lemma first_base_less: "live P hs \<Longrightarrow> first_base hs \<le> USIZE_MAX"
  by (cases hs) (auto simp: live_def intro: header_ok_bounds(5))

lemma live_Cons: "live P (h # hs) \<longleftrightarrow> header_ok P h \<and> live P hs \<and> (\<forall>h'\<in>set hs. apart h h')"
  by (auto simp: live_def)

lemma apart_payload: "apart h h' \<Longrightarrow> header_ok P h \<Longrightarrow> header_ok P h' \<Longrightarrow> payload_addr h \<noteq> payload_addr h'"
  using header_ok_bounds(6) [of P h] header_ok_bounds(6) [of P h'] unfolding apart_def by auto

lemma apart_sym: "apart h h' \<Longrightarrow> apart h' h"
  by (simp add: apart_def Int_commute)

lemma linked_frame:
  assumes "\<And>h x. h \<in> set hs \<Longrightarrow> mapping_base h \<le> x \<Longrightarrow> x < mapping_base h + 64 \<Longrightarrow> m' x = m x"
  shows "linked m' hs = linked m hs"
  using assms
proof (induction hs)
  case (Cons h hs)
  have "bytes_at m' (mapping_base h) (le_bytes 8 (first_base hs) @ header_bytes h) =
      bytes_at m (mapping_base h) (le_bytes 8 (first_base hs) @ header_bytes h)"
    by (rule bytes_at_cong, rule Cons.prems [of h]) simp_all
  moreover have "linked m' hs = linked m hs" by (rule Cons.IH) (use Cons.prems in auto)
  ultimately show ?case by simp
qed simp

lemma linked_append: "linked m (xs @ ys) \<Longrightarrow> linked m ys"
  by (induction xs) auto

section \<open>Lookup\<close>

lemma linked_fields:
  assumes "linked m (h # hs)" "live P (h # hs)"
  shows "read_usize m (mapping_base h + HEADER + PAYLOAD_ADDR) = Some (payload_addr h)"
    "read_usize m (mapping_base h + NEXT) = Some (first_base hs)" "read_header m (mapping_base h + HEADER) = Some h"
proof -
  have at: "bytes_at m (mapping_base h) (le_bytes 8 (first_base hs))" "bytes_at m (mapping_base h + 8) (header_bytes h)"
    using assms(1) by simp_all
  have fits: "header_fits h" using assms(2) header_okD by (auto simp: live_Cons)
  show "read_header m (mapping_base h + HEADER) = Some h"
    using at(2) fits by (simp add: read_header_at HEADER_def)
  show "read_usize m (mapping_base h + NEXT) = Some (first_base hs)"
    using at(1) first_base_less [of P hs] assms(2) by (simp add: read_usize_at NEXT_def live_Cons)
  have "bytes_at m (mapping_base h + 8 + 24) (le_bytes 8 (payload_addr h))"
    using at(2) by (simp add: header_bytes_def ac_simps)
  then show "read_usize m (mapping_base h + HEADER + PAYLOAD_ADDR) = Some (payload_addr h)"
    using fits by (simp add: read_usize_at HEADER_def PAYLOAD_ADDR_def header_fits_def ac_simps)
qed

lemma lookup_loop_find: "linked m hs \<Longrightarrow> live P hs \<Longrightarrow> lookup_loop m p (first_base hs) = Some (find (\<lambda>h. payload_addr h = p) hs)"
proof (induction hs)
  case Nil
  then show ?case by (simp add: lookup_loop.simps)
next
  case (Cons h hs)
  then show ?case using linked_fields [OF Cons.prems] header_ok_bounds(4) [of P h]
    by (simp add: lookup_loop.simps [of m p "mapping_base h"] live_Cons)
qed

lemma validate_live:
  assumes "alloc_inv P s hs"
  shows "validate_live_allocation P p s = Some (find (\<lambda>h. payload_addr h = p) hs)"
proof -
  have lookup: "lookup_allocation_header p s = Some (find (\<lambda>h. payload_addr h = p) hs)"
    using assms lookup_loop_find [of "bytes s" hs P p] by (simp add: lookup_allocation_header_def alloc_inv_def)
  show ?thesis
proof (cases "find (\<lambda>h. payload_addr h = p) hs")
  case None
  then show ?thesis by (simp add: validate_live_allocation_def lookup)
next
  case (Some h)
  then have h: "h \<in> set hs" "payload_addr h = p" by (auto simp: find_Some_iff)
  then have ok: "header_ok P h" "block_in (bytes s) h" using assms by (auto simp: alloc_inv_def live_def)
  then have "read_header (bytes s) (p - HEADER_SIZE) = Some h"
    using h header_okD(1) [OF ok(1)] by (simp add: block_in_def read_header_at HEADER_SIZE_def)
  then have "read_payload_header P (bytes s) p = Some (Some h)"
    using header_okD(2) [OF ok(1)] h(2) by (simp add: read_payload_header_def)
  then show ?thesis using Some by (simp add: validate_live_allocation_def lookup)
qed
qed

section \<open>Allocation\<close>

lemma place_payload_fits:
  assumes "mapping_len_for n a = Some len" "has_allocator_alignment_shape a" "16 \<le> a" "fresh_pages m base len"
  obtains payload where "place_payload base len n a = Some payload" "base + 120 \<le> payload" "payload + max n 1 \<le> base + len" "a dvd payload"
proof -
  have len: "120 + max n 1 + (a - 1) \<le> len" using mapping_len_for_Some [OF assms(1)] assms(3) by simp
  have base: "0 < base" "base + len \<le> 2 ^ 47" using assms(4) by (simp_all add: fresh_pages_def)
  have "base + 120 + (a - 1) \<le> USIZE_MAX" using len base by (simp add: USIZE_MAX_def)
  then obtain payload where up: "align_up (base + 120) a = Some payload" using align_up_defined [OF assms(2)] by blast
  note p = align_up_Some [OF this assms(2)]
  have fits: "payload + max n 1 \<le> base + len" using p(2) len assms(3) by linarith
  have "place_payload base len n a = Some payload"
    using up [unfolded add.commute [of base]] fits base p(1) by (simp add: place_payload_def Let_def payload_lower_bound_for_def checked_add_def alloc_constants USIZE_MAX_def)
  then show thesis using p fits that by blast
qed

text \<open>The memory after an allocation, with the record linked in and both headers written.\<close>

definition installed :: "addr \<Rightarrow> AllocationHeader \<Rightarrow> mem \<Rightarrow> mem" where
  "installed head h m = store_bytes (store_bytes (store_bytes m (mapping_base h) (le_bytes 8 null @ header_bytes h))
     (payload_addr h - 56) (header_bytes h)) (mapping_base h) (le_bytes 8 head)"

lemma installed_facts:
  assumes "header_ok P h"
  shows "bytes_at (installed head h m) (mapping_base h) (le_bytes 8 head @ header_bytes h)"
    "bytes_at (installed head h m) (payload_addr h - 56) (header_bytes h)"
    "\<And>x. x \<notin> mapping h \<Longrightarrow> installed head h m x = m x"
    "\<And>x. payload_addr h \<le> x \<Longrightarrow> installed head h m x = m x"
    "\<And>x. m x \<noteq> None \<Longrightarrow> installed head h m x \<noteq> None"
proof -
  note b = header_ok_bounds [OF assms]
  have "bytes_at (installed head h m) (mapping_base h) (le_bytes 8 head)"
    unfolding installed_def by (rule bytes_at_store_bytes)
  moreover have "bytes_at (store_bytes m (mapping_base h) (le_bytes 8 null @ header_bytes h)) (mapping_base h + 8) (header_bytes h)"
    using bytes_at_store_bytes [of m "mapping_base h" "le_bytes 8 null @ header_bytes h"] by simp
  then have "bytes_at (installed head h m) (mapping_base h + 8) (header_bytes h)"
    using b by (simp add: installed_def bytes_at_store_apart)
  ultimately show "bytes_at (installed head h m) (mapping_base h) (le_bytes 8 head @ header_bytes h)" by simp
  show "bytes_at (installed head h m) (payload_addr h - 56) (header_bytes h)"
    using b by (simp add: installed_def bytes_at_store_apart bytes_at_store_bytes)
  show "installed head h m x = m x" if "x \<notin> mapping h" for x
    using that b by (auto simp: installed_def mapping_def store_bytes_other)
  show "installed head h m x = m x" if "payload_addr h \<le> x" for x
    using that b by (auto simp: installed_def store_bytes_other)
  show "installed head h m x \<noteq> None" if "m x \<noteq> None" for x
    unfolding installed_def by (intro store_bytes_dom that)
qed

lemma alloc_inv_add:
  assumes inv: "alloc_inv P s hs" and h: "header_ok P h" and fresh: "\<And>x. x \<in> mapping h \<Longrightarrow> bytes s x = None"
    and s': "bytes s' = installed (first_base hs) h m" "active_head s' = mapping_base h"
    and m: "\<And>x. x \<in> mapping h \<Longrightarrow> m x \<noteq> None" "\<And>x. x \<notin> mapping h \<Longrightarrow> m x = bytes s x"
  shows "alloc_inv P s' (h # hs)"
proof -
  note f = installed_facts [OF h, where head = "first_base hs" and m = m, folded s'(1)]
  have apart: "apart h h'" if "h' \<in> set hs" for h'
    using inv that fresh by (fastforce simp: alloc_inv_def block_in_def apart_def)
  have same: "bytes s' x = bytes s x" if "h' \<in> set hs" "x \<in> mapping h'" for h' x
    using apart [OF that(1)] that(2) f(3) [of x] m(2) [of x] by (auto simp: apart_def)
  have ok: "header_ok P h'" if "h' \<in> set hs" for h' using inv that by (auto simp: alloc_inv_def live_def)
  have "linked (bytes s') hs = linked (bytes s) hs"
    by (rule linked_frame) (use same ok header_ok_bounds in \<open>fastforce simp: mapping_def\<close>)
  moreover have "block_in (bytes s') h'" if "h' \<in> set hs" for h'
  proof -
    have "bytes_at (bytes s') (payload_addr h' - 56) (header_bytes h') = bytes_at (bytes s) (payload_addr h' - 56) (header_bytes h')"
      by (rule bytes_at_cong, rule same [OF that]) (use header_ok_bounds [OF ok [OF that]] in \<open>auto simp: mapping_def\<close>)
    then show ?thesis using inv that same [OF that] by (auto simp: alloc_inv_def block_in_def)
  qed
  moreover have "block_in (bytes s') h" using f(2,5) m(1) by (auto simp: block_in_def)
  ultimately show ?thesis using inv h apart f(1) s'(2) by (auto simp: alloc_inv_def live_Cons)
qed

lemma write_block_at: "mapped m p (length bs) \<Longrightarrow> \<exists>m'. write_block m p bs = Some m'"
  by (simp add: write_block_mapped)

lemma install_writes:
  assumes h: "header_ok P h" and m: "\<And>x. x \<in> mapping h \<Longrightarrow> bytes s x \<noteq> None"
  shows "(do { m \<leftarrow> write_allocation_record (mapping_base h) h (bytes s); m \<leftarrow> write_payload_header (payload_addr h) h m;
       s \<leftarrow> register_allocation (mapping_base h) (s\<lparr>bytes := m\<rparr>); Some (Inr (payload_addr h) :: c_int + addr, s) }) =
     Some (Inr (payload_addr h), s\<lparr>bytes := installed (active_head s) h (bytes s), active_head := mapping_base h\<rparr>)"
proof -
  note b = header_ok_bounds [OF h]
  have "mapped (bytes s) (mapping_base h) 64" using m b by (simp add: mapped_def mapping_def)
  moreover have "mapped (bytes s) (payload_addr h - 56) 56" unfolding mapped_def
    by (intro allI impI m) (use b in \<open>auto simp: mapping_def\<close>)
  moreover have "mapped (bytes s) (mapping_base h) 8" using m b by (simp add: mapped_def mapping_def)
  ultimately show ?thesis
    by (simp add: write_allocation_record_def write_payload_header_def register_allocation_def write_usize_def write_block_mapped
        mapped_store_bytes HEADER_SIZE_def NEXT_def installed_def)
qed

lemma allocate_cases:
  assumes P: "maps_memory P" and inv: "alloc_inv P s hs"
  obtains (failed) e s' where "allocate_with_alignment P n a s = Some (Inl e, s')" "bytes s' = bytes s" "active_head s' = active_head s"
      "errno s' = errno s" "ptrs s' = ptrs s" "0 < sint e"
      "n > MAX_REQUEST_SIZE \<or> \<not> has_allocator_alignment_shape a \<longrightarrow> e = ENOMEM"
      "n > MAX_REQUEST_SIZE \<or> \<not> has_allocator_alignment_shape a \<or>
       (\<nexists>len. mapping_len_for n (max a 16) = Some len \<and> kernel_grants P len s)"
    | (allocated) h s' where "allocate_with_alignment P n a s = Some (Inr (payload_addr h), s')" "alloc_inv P s' (h # hs)"
      "requested_size h = n" "alignment h = max a 16" "\<And>x. x \<in> mapping h \<Longrightarrow> bytes s x = None"
      "\<And>x. x \<notin> mapping h \<Longrightarrow> bytes s' x = bytes s x" "\<And>i. i < max n 1 \<Longrightarrow> bytes s' (payload_addr h + i) = Some 0"
      "errno s' = errno s" "ptrs s' = ptrs s" "n \<le> MAX_REQUEST_SIZE" "has_allocator_alignment_shape a"
      "\<exists>len. mapping_len_for n (max a 16) = Some len \<and> kernel_grants P len s"
proof (cases "n > MAX_REQUEST_SIZE \<or> \<not> has_allocator_alignment_shape a")
  case True
  then show thesis by (intro failed [of ENOMEM s]) (auto simp: allocate_with_alignment_def request_too_large_def ENOMEM_def)
next
  case valid: False
  then have shape: "has_allocator_alignment_shape (max a 16)" by (simp add: shape_max)
  show thesis
  proof (cases "mapping_len_for n (max a 16)")
    case None
    then show thesis using valid
      by (intro failed [of ENOMEM s]) (simp_all add: allocate_with_alignment_def request_too_large_def effective_alignment ENOMEM_def)
  next
    case (Some len)
    have len: "PAGE_SIZE dvd len" "0 < len" using mapping_len_for_Some [OF Some] by (auto simp: less_max_iff_disj)
    show thesis
    proof (cases rule: mmap_cases [OF P len(2) len(1), of s, case_names refused granted])
      case (refused e s')
      then show thesis using valid Some
        by (intro failed [of e s']) (simp_all add: allocate_with_alignment_def request_too_large_def effective_alignment)
    next
      case (granted base s1)
      obtain payload where p: "place_payload base len n (max a 16) = Some payload" "base + 120 \<le> payload"
        "payload + max n 1 \<le> base + len" "max a 16 dvd payload"
        using place_payload_fits [OF Some shape _ granted(2)] by auto
      define h where "h = build_allocation_header P payload base len n (max a 16)"
      have h: "header_ok P h" using p shape granted(2) len(1)
        by (simp add: h_def header_ok_def fresh_pages_def)
      have fields: "payload_addr h = payload" "mapping_base h = base" "mapping_len h = len" by (simp_all add: h_def)
      define s' where "s' = s1\<lparr>bytes := installed (active_head s1) h (bytes s1), active_head := base\<rparr>"
      have inside: "bytes s1 x \<noteq> None" if "x \<in> mapping h" for x
        using that by (simp add: granted(3) zero_pages_def mapping_def fields)
      have outside: "bytes s1 x = bytes s x" if "x \<notin> mapping h" for x
        using that by (auto simp: granted(3) zero_pages_def mapping_def fields)
      have fresh: "bytes s x = None" if "x \<in> mapping h" for x
        using that granted(2) by (simp add: fresh_pages_def mapping_def fields)
      have head: "active_head s1 = first_base hs" using granted(4) inv by (simp add: alloc_inv_def)
      have run: "allocate_with_alignment P n a s = Some (Inr (payload_addr h), s')"
        using valid Some granted(1) p(1) install_writes [OF h, of s1] inside
        by (simp add: allocate_with_alignment_def request_too_large_def effective_alignment h_def [symmetric] fields s'_def)
      show thesis
      proof (rule allocated [OF run])
        show "alloc_inv P s' (h # hs)"
          by (rule alloc_inv_add [OF inv h fresh _ _ inside outside]) (simp_all add: s'_def head fields)
        show "bytes s' x = bytes s x" if "x \<notin> mapping h" for x
          using installed_facts(3) [OF h that] outside [OF that] by (simp add: s'_def)
        show "bytes s' (payload_addr h + i) = Some 0" if "i < max n 1" for i
          using installed_facts(4) [OF h, of "payload_addr h + i"] that p(2,3)
          by (simp add: s'_def granted(3) zero_pages_def fields)
        show "errno s' = errno s" "ptrs s' = ptrs s" using granted(5,6) by (simp_all add: s'_def)
      qed (use valid fresh Some granted(7) in \<open>auto simp: h_def\<close>)
    qed
  qed
qed

end
