(* ===== verification/Alloc_Release.thy ===== *)
theory Alloc_Release
  imports Alloc_Heap
begin

text \<open>
  Taking an allocation out of the list and giving its mapping back: the loop over the list, and the invariant after \<^verbatim>\<open>free\<close>.
\<close>

section \<open>Release\<close>

text \<open>The state after a record is taken out of the list.\<close>

definition unlinked :: "addr \<Rightarrow> AllocationHeader list \<Rightarrow> AllocationHeader \<Rightarrow> AllocationHeader list \<Rightarrow> 'k alloc_state \<Rightarrow> 'k alloc_state" where
  "unlinked previous xs h ys s =
     (let previous = (if xs = [] then previous else mapping_base (last xs));
          s = (if previous = null then s\<lparr>active_head := first_base ys\<rparr>
               else s\<lparr>bytes := store_bytes (bytes s) previous (le_bytes 8 (first_base ys))\<rparr>) in
      s\<lparr>bytes := store_bytes (bytes s) (mapping_base h) (le_bytes 8 null)\<rparr>)"

lemma unregister_loop_unlinked:
  assumes "linked (bytes s) (xs @ h # ys)" "live P (xs @ h # ys)" "\<And>x. x \<in> set xs \<Longrightarrow> payload_addr x \<noteq> payload_addr h"
    "previous \<noteq> null \<Longrightarrow> mapped (bytes s) previous 8 \<and> (previous + 8 \<le> mapping_base h \<or> mapping_base h + 64 \<le> previous)"
    "\<And>x. x \<in> set xs \<Longrightarrow> mapping_base x + 64 \<le> mapping_base h \<or> mapping_base h + 64 \<le> mapping_base x"
  shows "unregister_loop (payload_addr h) previous (first_base (xs @ h # ys)) s = Some (Some h, unlinked previous xs h ys s)"
  using assms
proof (induction xs arbitrary: previous)
  case Nil
  have "linked (bytes s) (h # ys)" "live P (h # ys)" using Nil.prems by simp_all
  note f = linked_fields [OF this] and ok = \<open>live P (h # ys)\<close>
  have at: "bytes_at (bytes s) (mapping_base h) (le_bytes 8 (first_base ys))" "bytes_at (bytes s) (mapping_base h + 8) (header_bytes h)"
    using Nil.prems(1) by simp_all
  have nz: "mapping_base h \<noteq> null" and fits: "header_fits h" using ok header_ok_bounds(4) header_okD by (auto simp: live_Cons)
  have own: "mapped (bytes s) (mapping_base h) 8" using bytes_at_mapped [OF at(1)] by simp
  have keep: "read_header (store_bytes m (mapping_base h) (le_bytes 8 null)) (mapping_base h + HEADER) = Some h"
    if "bytes_at m (mapping_base h + 8) (header_bytes h)" for m
    using that fits by (simp add: read_header_at bytes_at_store_apart HEADER_def)
  show ?case
  proof (cases "previous = null")
    case True
    then show ?thesis using f nz own at(2) keep
      by (simp add: unregister_loop.simps [of _ _ "mapping_base h"] write_usize_def write_block_mapped NEXT_def unlinked_def Let_def)
  next
    case False
    have "bytes_at (store_bytes (bytes s) previous (le_bytes 8 (first_base ys))) (mapping_base h + 8) (header_bytes h)"
      using at(2) Nil.prems(4) [OF False] by (auto simp: bytes_at_store_apart)
    then show ?thesis using f nz own keep Nil.prems(4) [OF False] False
      by (simp add: unregister_loop.simps [of _ _ "mapping_base h"] write_usize_def write_block_mapped mapped_store_bytes NEXT_def
          unlinked_def Let_def)
  qed
next
  case (Cons x xs)
  have "linked (bytes s) (x # xs @ h # ys)" "live P (x # xs @ h # ys)" using Cons.prems by simp_all
  note f = linked_fields [OF this] and ok = \<open>live P (x # xs @ h # ys)\<close>
  have nz: "mapping_base x \<noteq> null" using ok header_ok_bounds(4) by (auto simp: live_Cons)
  have "bytes_at (bytes s) (mapping_base x) (le_bytes 8 (first_base (xs @ h # ys)))" using Cons.prems(1) by simp
  then have "mapped (bytes s) (mapping_base x) 8" using bytes_at_mapped by fastforce
  then have "unregister_loop (payload_addr h) (mapping_base x) (first_base (xs @ h # ys)) s =
      Some (Some h, unlinked (mapping_base x) xs h ys s)"
    by (intro Cons.IH) (use Cons.prems in \<open>fastforce simp: live_Cons\<close>)+
  moreover have "unlinked (mapping_base x) xs h ys s = unlinked previous (x # xs) h ys s" by (simp add: unlinked_def)
  ultimately show ?case using f nz Cons.prems(3) [of x]
    by (simp add: unregister_loop.simps [of _ _ "mapping_base x"])
qed

lemma linked_unlink:
  assumes "linked m (xs @ h # ys)" "sorted_wrt apart (xs @ h # ys)" "\<And>x. x \<in> set (xs @ h # ys) \<Longrightarrow> mapping_len x > 120"
    "\<And>x. x \<notin> mapping h \<Longrightarrow> (\<And>l. xs \<noteq> [] \<Longrightarrow> l = mapping_base (last xs) \<Longrightarrow> \<not> (l \<le> x \<and> x < l + 8)) \<Longrightarrow> m' x = m x"
    "xs \<noteq> [] \<Longrightarrow> bytes_at m' (mapping_base (last xs)) (le_bytes 8 (first_base ys))"
  shows "linked m' (xs @ ys)"
  using assms
proof (induction xs)
  case Nil
  have "linked m' ys = linked m ys"
  proof (rule linked_frame)
    fix y x assume y: "y \<in> set ys" "mapping_base y \<le> x" "x < mapping_base y + 64"
    then have "x \<in> mapping y" using Nil.prems(3) [of y] by (simp add: mapping_def)
    then have "x \<notin> mapping h" using y(1) Nil.prems(2) by (auto simp: apart_def)
    then show "m' x = m x" using Nil.prems(4) by simp
  qed
  then show ?case using Nil.prems(1) by simp
next
  case (Cons l xs)
  have out: "x \<notin> mapping h" if "y \<in> set (l # xs)" "mapping_base y \<le> x" "x < mapping_base y + 64" for x y
  proof -
    have "x \<in> mapping y" using that Cons.prems(3) [of y] by (fastforce simp: mapping_def)
    then show ?thesis using that(1) Cons.prems(2) by (auto simp: sorted_wrt_append apart_def)
  qed
  show ?case
  proof (cases "xs = []")
    case True
    have "linked m' ys = linked m ys"
    proof (rule linked_frame)
      fix y x assume y: "y \<in> set ys" "mapping_base y \<le> x" "x < mapping_base y + 64"
      then have "x \<in> mapping y" using Cons.prems(3) [of y] by (simp add: mapping_def)
      moreover have "apart h y" "apart l y" using y(1) Cons.prems(2) True by auto
      ultimately have "x \<notin> mapping h" "x \<notin> mapping l" by (auto simp: apart_def)
      then show "m' x = m x" using Cons.prems(3) [of l] by (intro Cons.prems(4)) (auto simp: True mapping_def)
    qed
    moreover have "bytes_at m' (mapping_base l + 8) (header_bytes l) = bytes_at m (mapping_base l + 8) (header_bytes l)"
      by (rule bytes_at_cong, rule Cons.prems(4)) (use out [of l] True in auto)
    ultimately show ?thesis using Cons.prems(1,5) True by simp
  next
    case False
    have last: "last xs \<in> set xs" using False by simp
    have "linked m' (xs @ ys)"
      by (rule Cons.IH) (use Cons.prems False in auto)
    moreover have "bytes_at m' (mapping_base l) (le_bytes 8 (first_base (xs @ ys)) @ header_bytes l) =
        bytes_at m (mapping_base l) (le_bytes 8 (first_base (xs @ ys)) @ header_bytes l)"
    proof (rule bytes_at_cong, rule Cons.prems(4))
      fix i assume i: "i < length (le_bytes 8 (first_base (xs @ ys)) @ header_bytes l)"
      then show "mapping_base l + i \<notin> mapping h" using out [of l] by simp
      have "apart l (last xs)" using Cons.prems(2) last by auto
      then have "mapping_base l + i \<notin> mapping (last xs)" using i Cons.prems(3) [of l] by (auto simp: apart_def mapping_def)
      then show "\<not> (k \<le> mapping_base l + i \<and> mapping_base l + i < k + 8)" if "l # xs \<noteq> []" "k = mapping_base (last (l # xs))" for k
        using that False Cons.prems(3) [of "last xs"] last by (auto simp: mapping_def)
    qed
    moreover have "first_base (xs @ ys) = first_base (xs @ h # ys)" by (rule first_base_append [OF False])
    ultimately show ?thesis using Cons.prems(1) by simp
  qed
qed

lemma find_split: "find P hs = Some h \<Longrightarrow> \<exists>xs ys. hs = xs @ h # ys \<and> P h \<and> (\<forall>x\<in>set xs. \<not> P x)"
proof (induction hs)
  case (Cons x hs)
  show ?case
  proof (cases "P x")
    case True
    then show ?thesis using Cons.prems by (intro exI [of _ "[]"] exI [of _ hs]) simp
  next
    case False
    then obtain xs ys where "hs = xs @ h # ys" "P h" "\<forall>x\<in>set xs. \<not> P x" using Cons by auto
    then show ?thesis using False by (intro exI [of _ "x # xs"] exI [of _ ys]) simp
  qed
qed simp

lemma unlinked_facts:
  assumes "linked (bytes s) (xs @ h # ys)" "live P (xs @ h # ys)"
  shows "active_head (unlinked null xs h ys s) = (if xs = [] then first_base ys else active_head s)"
    "errno (unlinked null xs h ys s) = errno s" "ptrs (unlinked null xs h ys s) = ptrs s"
    "\<And>x. x \<notin> mapping h \<Longrightarrow> (\<And>l. xs \<noteq> [] \<Longrightarrow> l = mapping_base (last xs) \<Longrightarrow> \<not> (l \<le> x \<and> x < l + 8)) \<Longrightarrow>
       bytes (unlinked null xs h ys s) x = bytes s x"
    "xs \<noteq> [] \<Longrightarrow> bytes_at (bytes (unlinked null xs h ys s)) (mapping_base (last xs)) (le_bytes 8 (first_base ys))"
    "\<And>x. bytes s x \<noteq> None \<Longrightarrow> bytes (unlinked null xs h ys s) x \<noteq> None"
proof -
  have ok: "header_ok P x" if "x \<in> set (xs @ h # ys)" for x using assms(2) that unfolding live_def by blast
  have nz: "mapping_base (last xs) \<noteq> null" if "xs \<noteq> []" using ok [of "last xs"] that header_ok_bounds(4) by fastforce
  show "active_head (unlinked null xs h ys s) = (if xs = [] then first_base ys else active_head s)"
    "errno (unlinked null xs h ys s) = errno s" "ptrs (unlinked null xs h ys s) = ptrs s"
    using nz by (auto simp: unlinked_def Let_def)
  have len: "mapping_len x > 120" if "x \<in> set (xs @ h # ys)" for x by (rule header_ok_bounds(1) [OF ok [OF that]])
  have own: "mapping_len h > 120" by (rule len) simp
  show "bytes (unlinked null xs h ys s) x = bytes s x" if "x \<notin> mapping h"
      "\<And>l. xs \<noteq> [] \<Longrightarrow> l = mapping_base (last xs) \<Longrightarrow> \<not> (l \<le> x \<and> x < l + 8)" for x
  proof -
    have "x < mapping_base h \<or> mapping_base h + 8 \<le> x" using that(1) own by (auto simp: mapping_def)
    then show ?thesis using that(2) nz by (auto simp: unlinked_def Let_def store_bytes_other linorder_not_less)
  qed
  show "bytes_at (bytes (unlinked null xs h ys s)) (mapping_base (last xs)) (le_bytes 8 (first_base ys))" if "xs \<noteq> []"
  proof -
    have l: "last xs \<in> set xs" using that by simp
    have "apart (last xs) h" using assms(2) l by (auto simp: live_def sorted_wrt_append)
    moreover have "mapping_len (last xs) > 120" by (rule len) (simp add: l)
    ultimately have "mapping_base (last xs) + 8 \<le> mapping_base h \<or> mapping_base h + 8 \<le> mapping_base (last xs)"
      using own by (force simp: apart_def mapping_def)
    then show ?thesis using that nz
      by (simp add: unlinked_def Let_def bytes_at_store_apart bytes_at_store_bytes)
  qed
  show "bytes (unlinked null xs h ys s) x \<noteq> None" if "bytes s x \<noteq> None" for x
    unfolding unlinked_def Let_def by (simp add: store_bytes_dom that del: not_None_eq)
qed

lemma sorted_wrt_apart: "sorted_wrt apart hs \<Longrightarrow> x \<in> set hs \<Longrightarrow> y \<in> set hs \<Longrightarrow> x \<noteq> y \<Longrightarrow> apart x y"
  by (induction hs) (auto intro: apart_sym)

lemma unlink_inv:
  assumes inv: "alloc_inv P s (xs @ h # ys)" and head: "active_head s' = (if xs = [] then first_base ys else active_head s)"
    and keep: "\<And>x. x \<notin> mapping h \<Longrightarrow> (\<And>l. xs \<noteq> [] \<Longrightarrow> l = mapping_base (last xs) \<Longrightarrow> \<not> (l \<le> x \<and> x < l + 8)) \<Longrightarrow> bytes s' x = bytes s x"
    and last: "xs \<noteq> [] \<Longrightarrow> bytes_at (bytes s') (mapping_base (last xs)) (le_bytes 8 (first_base ys))"
    and dom: "\<And>x. x \<notin> mapping h \<Longrightarrow> bytes s x \<noteq> None \<Longrightarrow> bytes s' x \<noteq> None"
  shows "alloc_inv P s' (xs @ ys)"
proof -
  have live: "linked (bytes s) (xs @ h # ys)" "live P (xs @ h # ys)" using inv by (simp_all add: alloc_inv_def)
  have ok: "header_ok P x" if "x \<in> set (xs @ h # ys)" for x using live(2) that unfolding live_def by blast
  have len: "mapping_len x > 120" if "x \<in> set (xs @ h # ys)" for x by (rule header_ok_bounds(1) [OF ok [OF that]])
  have "linked (bytes s') (xs @ ys)"
    by (rule linked_unlink [OF live(1) _ len keep last]) (use live(2) in \<open>simp_all add: live_def\<close>)
  moreover have "block_in (bytes s') y" if y: "y \<in> set (xs @ ys)" for y
  proof -
    have y': "y \<in> set (xs @ h # ys)" using y by auto
    note b = header_ok_bounds [OF ok [OF y']]
    have out: "x \<notin> mapping h" if "x \<in> mapping y" for x
      using that y live(2) by (auto simp: live_def sorted_wrt_append apart_def)
    have untouched: "bytes s' x = bytes s x" if x: "x \<in> mapping y" "mapping_base y + 64 \<le> x" for x
    proof (rule keep [OF out [OF x(1)]])
      fix l assume l: "xs \<noteq> []" "l = mapping_base (last xs)"
      have "last xs = y \<or> apart (last xs) y"
        using sorted_wrt_apart [of "xs @ h # ys" "last xs" y] live(2) y' l(1) by (auto simp: live_def)
      then show "\<not> (l \<le> x \<and> x < l + 8)"
        using x l len [of "last xs"] by (auto simp: apart_def mapping_def)
    qed
    have "bytes_at (bytes s') (payload_addr y - 56) (header_bytes y) = bytes_at (bytes s) (payload_addr y - 56) (header_bytes y)"
      by (rule bytes_at_cong, rule untouched) (use b in \<open>auto simp: mapping_def\<close>)
    moreover have "block_in (bytes s) y" using inv y' unfolding alloc_inv_def by blast
    ultimately show ?thesis using dom [OF out] by (simp add: block_in_def)
  qed
  moreover have "live P (xs @ ys)" using live(2) by (auto simp: live_def sorted_wrt_append)
  moreover have "active_head s' = first_base (xs @ ys)"
    using inv head first_base_append [of xs ys "h # ys"] by (simp add: alloc_inv_def)
  ultimately show ?thesis by (simp add: alloc_inv_def)
qed

lemma free_cases:
  assumes P: "maps_memory P" and inv: "alloc_inv P s hs"
  obtains (unknown) "free P p s = Some s" "find (\<lambda>h. payload_addr h = p) hs = None"
    | (released) xs h ys s' where "free P p s = Some s'" "hs = xs @ h # ys" "payload_addr h = p" "alloc_inv P s' (xs @ ys)"
      "errno s' = errno s" "ptrs s' = ptrs s"
      "\<And>x. x \<notin> mapping h \<Longrightarrow> (\<And>h'. h' \<in> set xs \<Longrightarrow> \<not> (mapping_base h' \<le> x \<and> x < mapping_base h' + 8)) \<Longrightarrow> bytes s' x = bytes s x"
proof (cases "find (\<lambda>h. payload_addr h = p) hs")
  case None
  then show thesis using validate_live [OF inv, of p] by (intro unknown) (simp_all add: free_def)
next
  case (Some h)
  then obtain xs ys where hs: "hs = xs @ h # ys" "payload_addr h = p" "\<forall>x\<in>set xs. payload_addr x \<noteq> p" using find_split [OF Some] by blast
  have linked: "linked (bytes s) (xs @ h # ys)" "live P (xs @ h # ys)" "active_head s = first_base (xs @ h # ys)"
    using inv hs by (simp_all add: alloc_inv_def)
  have ok: "header_ok P x" if "x \<in> set (xs @ h # ys)" for x using linked(2) that unfolding live_def by blast
  have len: "mapping_len x > 120" if "x \<in> set (xs @ h # ys)" for x by (rule header_ok_bounds(1) [OF ok [OF that]])
  have h: "header_ok P h" by (rule ok) simp
  note b = header_ok_bounds [OF h]
  define s1 where "s1 = unlinked null xs h ys s"
  note f = unlinked_facts [OF linked(1,2), folded s1_def]
  have "mapping_base x + 64 \<le> mapping_base h \<or> mapping_base h + 64 \<le> mapping_base x" if "x \<in> set xs" for x
  proof -
    have "apart x h" using that linked(2) by (auto simp: live_def sorted_wrt_append)
    then show ?thesis using b(1) len [of x] that by (force simp: apart_def mapping_def)
  qed
  then have unregister: "unregister_allocation p s = Some (Some h, s1)"
    using unregister_loop_unlinked [OF linked(1,2), of null] hs(2,3) linked(3) by (simp add: unregister_allocation_def s1_def)
  have pages: "PAGE_SIZE dvd mapping_base h" "PAGE_SIZE dvd mapping_len h" "0 < mapping_len h" "mapping_base h + mapping_len h \<le> 2 ^ 47"
    using h b(1) by (auto simp: header_ok_def)
  obtain s' where s': "munmap_allocation P (mapping_base h) (mapping_len h) s1 = s'"
      "bytes s' = bytes s1 \<or> bytes s' = without_pages (mapping_base h) (mapping_len h) (bytes s1)"
      "active_head s' = active_head s1" "errno s' = errno s1" "ptrs s' = ptrs s1"
    by (rule munmap_cases [OF P pages])
  have same: "bytes s' x = bytes s1 x" if "x \<notin> mapping h" for x
    using s'(2) that by (auto simp: without_pages_def mapping_def)
  have run: "free P p s = Some s'"
    using b(2) hs(2) validate_live [OF inv, of p] Some unregister s'(1) b(1,4)
    by (auto simp: free_def RECORD_SIZE_def HEADER_SIZE_def)
  have keep: "bytes s' x = bytes s x" if "x \<notin> mapping h"
      "\<And>l. xs \<noteq> [] \<Longrightarrow> l = mapping_base (last xs) \<Longrightarrow> \<not> (l \<le> x \<and> x < l + 8)" for x
    using same [OF that(1)] f(4) [OF that] by simp
  have last: "bytes_at (bytes s') (mapping_base (last xs)) (le_bytes 8 (first_base ys))" if "xs \<noteq> []"
  proof -
    have l: "last xs \<in> set xs" using that by simp
    then have "apart (last xs) h" using linked(2) by (auto simp: live_def sorted_wrt_append)
    then have "bytes_at (bytes s') (mapping_base (last xs)) (le_bytes 8 (first_base ys)) =
        bytes_at (bytes s1) (mapping_base (last xs)) (le_bytes 8 (first_base ys))"
      using len [of "last xs"] l by (intro bytes_at_cong same) (auto simp: apart_def mapping_def)
    then show ?thesis using f(5) [OF that] by simp
  qed
  show thesis
  proof (rule released [OF run hs(1,2)])
    show "alloc_inv P s' (xs @ ys)"
      by (rule unlink_inv [OF inv [unfolded hs(1)] _ keep last]) (use s'(3) f(1,6) same in simp_all)
    show "bytes s' x = bytes s x" if "x \<notin> mapping h" "\<And>h'. h' \<in> set xs \<Longrightarrow> \<not> (mapping_base h' \<le> x \<and> x < mapping_base h' + 8)" for x
      using keep that by simp
  qed (use s' f(2,3) in simp_all)
qed

end
