(* ===== verification/Alloc_Spec.thy ===== *)
theory Alloc_Spec
  imports Alloc_Release
begin

text \<open>
  What a C program may rely on: the heap is a map from addresses to blocks, an alignment and contents. The calls of the allocator and the
  stores of a program into its blocks, and the theorem that the code implements the map for every program.
\<close>

section \<open>The map of blocks\<close>

type_synonym blocks = "addr \<rightharpoonup> nat \<times> u8 list"

definition new_block :: "blocks \<Rightarrow> nat \<Rightarrow> nat \<Rightarrow> addr \<Rightarrow> blocks \<Rightarrow> bool" where
  "new_block A n a p A' \<longleftrightarrow> p \<noteq> null \<and> A p = None \<and> max a 16 dvd p \<and>
     (\<forall>q b bs. A q = Some (b, bs) \<longrightarrow> p + max n 1 \<le> q \<or> q + max (length bs) 1 \<le> p) \<and> A' = A(p \<mapsto> (max a 16, replicate n 0))"

definition allocated :: "blocks \<Rightarrow> nat \<Rightarrow> nat \<Rightarrow> c_int + addr \<Rightarrow> blocks \<Rightarrow> bool" where
  "allocated A n a r A' \<longleftrightarrow>
     (let valid = (n \<le> MAX_REQUEST_SIZE \<and> has_allocator_alignment_shape a) in
      case r of
        Inl e \<Rightarrow> A' = A \<and> 0 < sint e \<and> (\<not> valid \<longrightarrow> e = ENOMEM)
      | Inr p \<Rightarrow> valid \<and> new_block A n a p A')"

datatype alloc_call = Malloc nat | Calloc nat nat | Aligned_alloc nat nat | Memalign nat nat | Posix_memalign addr nat nat
  | Valloc nat | Pvalloc nat | Realloc addr nat | Reallocarray addr nat nat | Free addr | Cfree addr | Malloc_usable_size addr
  | Store addr nat "u8 list"

datatype alloc_result = Pointer addr | Stored c_int "addr option" | Amount nat | Done

definition pointer_or_errno :: "blocks \<Rightarrow> nat \<Rightarrow> nat \<Rightarrow> c_int \<Rightarrow> alloc_result \<Rightarrow> c_int \<Rightarrow> blocks \<Rightarrow> bool" where
  "pointer_or_errno A n a e res e' A' \<longleftrightarrow>
     (\<exists>r. allocated A n a r A' \<and> (case r of Inl err \<Rightarrow> res = Pointer null \<and> e' = err | Inr p \<Rightarrow> res = Pointer p \<and> e' = e))"

definition realloc_spec :: "blocks \<Rightarrow> c_int \<Rightarrow> addr \<Rightarrow> nat \<Rightarrow> alloc_result \<Rightarrow> c_int \<Rightarrow> blocks \<Rightarrow> bool" where
  "realloc_spec A e p n res e' A' \<longleftrightarrow>
     (if p = null then pointer_or_errno A n 16 e res e' A'
      else if n = 0 then res = Pointer null \<and> e' = e \<and> A' = A(p := None)
      else if n > MAX_REQUEST_SIZE then res = Pointer null \<and> e' = ENOMEM \<and> A' = A
      else case A p of
             None \<Rightarrow> res = Pointer null \<and> e' = e \<and> A' = A
           | Some (a, bs) \<Rightarrow>
               (\<exists>r A1. allocated A n a r A1 \<and>
                  (case r of
                     Inl err \<Rightarrow> res = Pointer null \<and> e' = err \<and> A' = A
                   | Inr q \<Rightarrow> res = Pointer q \<and> e' = e \<and>
                       A' = (A(p := None))(q \<mapsto> (max a 16, take n bs @ replicate (n - length bs) 0)))))"

text \<open>
  The documentation of \<^verbatim>\<open>memalign\<close> asks for a power of two that is at least the size of a pointer, and promises \<^verbatim>\<open>EINVAL\<close> otherwise. The code
  (and a test of the repository) also accepts the smaller powers 1, 2 and 4, and so does this specification, under a name of their own.
\<close>

definition memalign_documented :: "nat \<Rightarrow> bool" where
  "memalign_documented a \<longleftrightarrow> (\<exists>k<64. a = 2 ^ k) \<and> 8 \<le> a"

definition memalign_undocumented :: "nat \<Rightarrow> bool" where
  "memalign_undocumented a \<longleftrightarrow> a = 1 \<or> a = 2 \<or> a = 4"

lemma memalign_alignments: "has_allocator_alignment_shape a \<longleftrightarrow> memalign_documented a \<or> memalign_undocumented a"
proof -
  have "(\<exists>k<64. a = 2 ^ k) \<longleftrightarrow> memalign_documented a \<or> memalign_undocumented a"
  proof
    assume "\<exists>k<64. a = 2 ^ k"
    then obtain k where k: "k < 64" "a = 2 ^ k" by blast
    consider "k = 0" | "k = 1" | "k = 2" | "3 \<le> k" by linarith
    then show "memalign_documented a \<or> memalign_undocumented a"
    proof cases
      case 4
      have "(2 :: nat) ^ 3 \<le> 2 ^ k" by (rule power_increasing [OF 4]) simp
      then show ?thesis using k by (auto simp: memalign_documented_def)
    qed (use k in \<open>simp_all add: memalign_undocumented_def\<close>)
  next
    assume "memalign_documented a \<or> memalign_undocumented a"
    moreover have "(1 :: nat) = 2 ^ 0" "(2 :: nat) = 2 ^ 1" "(4 :: nat) = 2 ^ 2" "(0 :: nat) < 64" "(1 :: nat) < 64" "(2 :: nat) < 64"
      by simp_all
    ultimately show "\<exists>k<64. a = 2 ^ k" unfolding memalign_documented_def memalign_undocumented_def by metis
  qed
  then show ?thesis by (simp add: shape_iff)
qed

definition alloc_spec :: "blocks \<Rightarrow> c_int \<Rightarrow> alloc_call \<Rightarrow> alloc_result \<Rightarrow> c_int \<Rightarrow> blocks \<Rightarrow> bool" where
  "alloc_spec A e c res e' A' =
     (case c of
        Malloc n \<Rightarrow> pointer_or_errno A n 16 e res e' A'
      | Calloc m n \<Rightarrow> pointer_or_errno A (m * n) 16 e res e' A'
      | Aligned_alloc a n \<Rightarrow>
          if has_allocator_alignment_shape a then pointer_or_errno A n a e res e' A' else res = Pointer null \<and> e' = EINVAL \<and> A' = A
      | Memalign a n \<Rightarrow>
          if memalign_documented a \<or> memalign_undocumented a then pointer_or_errno A n a e res e' A' else res = Pointer null \<and> e' = EINVAL \<and> A' = A
      | Posix_memalign q a n \<Rightarrow>
          if q \<noteq> null \<and> has_allocator_alignment_shape a \<and> 8 \<le> a then
            e' = e \<and> (\<exists>r. allocated A n a r A' \<and> (case r of Inl err \<Rightarrow> \<exists>old. res = Stored err old | Inr p \<Rightarrow> res = Stored 0 (Some p)))
          else (\<exists>old. res = Stored EINVAL old) \<and> e' = e \<and> A' = A
      | Valloc n \<Rightarrow> pointer_or_errno A n 4096 e res e' A'
      | Pvalloc n \<Rightarrow> pointer_or_errno A (if n = 0 then 4096 else (n + 4095) div 4096 * 4096) 4096 e res e' A'
      | Realloc p n \<Rightarrow> realloc_spec A e p n res e' A'
      | Reallocarray p m n \<Rightarrow>
          if m * n > MAX_REQUEST_SIZE then res = Pointer null \<and> e' = ENOMEM \<and> A' = A else realloc_spec A e p (m * n) res e' A'
      | Free p \<Rightarrow> res = Done \<and> e' = e \<and> A' = A(p := None)
      | Cfree p \<Rightarrow> res = Done \<and> e' = e \<and> A' = A(p := None)
      | Malloc_usable_size p \<Rightarrow>
          res = Amount (case A p of None \<Rightarrow> 0 | Some (a, bs) \<Rightarrow> max (length bs) 1) \<and> e' = e \<and> A' = A
      | Store p i bs \<Rightarrow>
          res = Done \<and> e' = e \<and>
          (case A p of
             None \<Rightarrow> False
           | Some (a, cs) \<Rightarrow> A' = A(p \<mapsto> (a, take i cs @ bs @ drop (i + length bs) cs))))"

text \<open>A program stores inside its blocks only, and hands \<^verbatim>\<open>posix_memalign\<close> pointers it owns.\<close>

definition call_in_bounds :: "addr set \<Rightarrow> blocks \<Rightarrow> alloc_call \<Rightarrow> bool" where
  "call_in_bounds cells A c =
     (case c of
        Store p i bs \<Rightarrow> (case A p of None \<Rightarrow> False | Some (a, cs) \<Rightarrow> i + length bs \<le> length cs)
      | Posix_memalign q a n \<Rightarrow> q = null \<or> q \<in> cells
      | _ \<Rightarrow> True)"

section \<open>The calls of the model\<close>

definition pointer_result :: "addr \<times> 'k alloc_state \<Rightarrow> alloc_result \<times> 'k alloc_state" where
  "pointer_result r = (case r of (p, s) \<Rightarrow> (Pointer p, s))"

definition run_alloc :: "'k platform \<Rightarrow> alloc_call \<Rightarrow> 'k alloc_state \<Rightarrow> (alloc_result \<times> 'k alloc_state) option" where
  "run_alloc P c s =
     (case c of
        Malloc n \<Rightarrow> map_option pointer_result (malloc P n s)
      | Calloc m n \<Rightarrow> map_option pointer_result (calloc P m n s)
      | Aligned_alloc a n \<Rightarrow> map_option pointer_result (aligned_alloc P a n s)
      | Memalign a n \<Rightarrow> map_option pointer_result (memalign P a n s)
      | Posix_memalign q a n \<Rightarrow> map_option (\<lambda>(r, s). (Stored r (ptrs s q), s)) (posix_memalign P q a n s)
      | Valloc n \<Rightarrow> map_option pointer_result (valloc P n s)
      | Pvalloc n \<Rightarrow> map_option pointer_result (pvalloc P n s)
      | Realloc p n \<Rightarrow> map_option pointer_result (realloc P p n s)
      | Reallocarray p m n \<Rightarrow> map_option pointer_result (reallocarray P p m n s)
      | Free p \<Rightarrow> map_option (\<lambda>s. (Done, s)) (free P p s)
      | Cfree p \<Rightarrow> map_option (\<lambda>s. (Done, s)) (cfree P p s)
      | Malloc_usable_size p \<Rightarrow> map_option (\<lambda>n. (Amount n, s)) (malloc_usable_size P p s)
      | Store p i bs \<Rightarrow> map_option (\<lambda>m. (Done, s\<lparr>bytes := m\<rparr>)) (write_block (bytes s) (p + i) bs))"

text \<open>A program chooses its next call by what the calls so far gave back.\<close>

type_synonym alloc_trace = "(alloc_call \<times> alloc_result \<times> c_int) list"

primrec run_program :: "'k platform \<Rightarrow> (alloc_trace \<Rightarrow> alloc_call) \<Rightarrow> nat \<Rightarrow> alloc_trace \<Rightarrow> 'k alloc_state \<Rightarrow>
    (alloc_trace \<times> 'k alloc_state) option" where
  "run_program P prog 0 tr s = Some (tr, s)"
| "run_program P prog (Suc n) tr s = do {
     (r, s) \<leftarrow> run_alloc P (prog tr) s;
     run_program P prog n (tr @ [(prog tr, r, errno s)]) s }"

inductive spec_trace :: "c_int \<Rightarrow> alloc_trace \<Rightarrow> c_int \<Rightarrow> blocks \<Rightarrow> bool" for e where
  spec_start: "spec_trace e [] e Map.empty"
| spec_call: "spec_trace e tr e1 A \<Longrightarrow> alloc_spec A e1 c r e' A' \<Longrightarrow> spec_trace e (tr @ [(c, r, e')]) e' A'"

definition in_bounds :: "c_int \<Rightarrow> addr set \<Rightarrow> (alloc_trace \<Rightarrow> alloc_call) \<Rightarrow> bool" where
  "in_bounds e cells prog \<longleftrightarrow> (\<forall>tr e' A. spec_trace e tr e' A \<longrightarrow> call_in_bounds cells A (prog tr))"

section \<open>The heap represents a map\<close>

text \<open>\<open>outside\<close> is the memory of the program that does not belong to the allocator.\<close>

definition represents :: "'k platform \<Rightarrow> mem \<Rightarrow> addr set \<Rightarrow> 'k alloc_state \<Rightarrow> AllocationHeader list \<Rightarrow> blocks \<Rightarrow> bool" where
  "represents P outside cells s hs A \<longleftrightarrow> alloc_inv P s hs \<and> cells = dom (ptrs s) \<and> dom A = payload_addr ` set hs \<and>
     (\<forall>h\<in>set hs. \<exists>bs. A (payload_addr h) = Some (alignment h, bs) \<and> length bs = requested_size h \<and> bytes_at (bytes s) (payload_addr h) bs) \<and>
     (\<forall>x. outside x \<noteq> None \<longrightarrow> (\<forall>h\<in>set hs. x \<notin> mapping h) \<and> bytes s x = outside x)"

lemma representsD:
  assumes "represents P outside cells s hs A"
  shows "alloc_inv P s hs" "cells = dom (ptrs s)" "dom A = payload_addr ` set hs"
    "h \<in> set hs \<Longrightarrow> \<exists>bs. A (payload_addr h) = Some (alignment h, bs) \<and> length bs = requested_size h \<and> bytes_at (bytes s) (payload_addr h) bs"
    "outside x \<noteq> None \<Longrightarrow> (\<forall>h\<in>set hs. x \<notin> mapping h) \<and> bytes s x = outside x"
  using assms unfolding represents_def by blast+

lemma represented_block:
  assumes "represents P outside cells s hs A" "A p = Some (a, bs)"
  obtains h where "h \<in> set hs" "payload_addr h = p" "alignment h = a" "requested_size h = length bs" "bytes_at (bytes s) p bs" "header_ok P h"
proof -
  have "p \<in> payload_addr ` set hs" using representsD(3) [OF assms(1)] assms(2) by blast
  then obtain h where h: "h \<in> set hs" "payload_addr h = p" by auto
  have "header_ok P h" using representsD(1) [OF assms(1)] h(1) by (simp add: alloc_inv_def live_def)
  then show thesis using representsD(4) [OF assms(1) h(1)] h assms(2) by (intro that) auto
qed

lemma no_block:
  assumes "represents P outside cells s hs A"
  shows "A p = None \<longleftrightarrow> p \<notin> payload_addr ` set hs"
  using representsD(3) [OF assms] by (metis domIff)

lemma find_block:
  assumes "represents P outside cells s hs A"
  shows "find (\<lambda>h. payload_addr h = p) hs = None \<longleftrightarrow> A p = None"
  unfolding no_block [OF assms] by (auto simp: find_None_iff)

text \<open>A change of the memory outside payloads and list, such as the next allocation, keeps the contents.\<close>

lemma payload_inside: "header_ok P h \<Longrightarrow> i < max (requested_size h) 1 \<Longrightarrow> payload_addr h + i \<in> mapping h"
  using header_ok_bounds(2,3) [of P h] by (auto simp: mapping_def)

lemma allocate_represents:
  assumes P: "maps_memory P" and rep: "represents P outside cells s hs A"
  obtains r s' hs' A' where "allocate_with_alignment P n a s = Some (r, s')" "allocated A n a r A'" "represents P outside cells s' hs' A'"
    "errno s' = errno s" "ptrs s' = ptrs s" "\<And>e. r = Inl e \<Longrightarrow> hs' = hs"
    "\<And>p. r = Inr p \<Longrightarrow> \<exists>h. hs' = h # hs \<and> payload_addr h = p \<and> requested_size h = n \<and> (\<forall>x. x \<notin> mapping h \<longrightarrow> bytes s' x = bytes s x)"
proof (cases rule: allocate_cases [OF P representsD(1) [OF rep], of n a, case_names failed allocated])
  case (failed e s')
  have "alloc_inv P s' hs" using representsD(1) [OF rep] failed(2,3) by (simp add: alloc_inv_def)
  then have "represents P outside cells s' hs A" using rep failed(2,5) by (simp add: represents_def)
  moreover have "allocated A n a (Inl e) A" using failed(6,7) by (auto simp: allocated_def)
  ultimately show thesis using failed(1,4,5) by (intro that [of "Inl e" s' A hs]) auto
next
  case (allocated h s')
  let ?A = "A(payload_addr h \<mapsto> (max a 16, replicate n 0))"
  have ok: "header_ok P h" "\<And>h'. h' \<in> set hs \<Longrightarrow> header_ok P h' \<and> apart h h'"
    using allocated(2) by (auto simp: alloc_inv_def live_def)
  have new: "payload_addr h' \<noteq> payload_addr h" if "h' \<in> set hs" for h'
    using ok(2) [OF that] apart_payload ok(1) by metis
  have fresh: "A (payload_addr h) = None" unfolding no_block [OF rep] using new by (metis imageE)
  have blk: "\<exists>bs. ?A (payload_addr h') = Some (alignment h', bs) \<and> length bs = requested_size h' \<and> bytes_at (bytes s') (payload_addr h') bs"
    if h': "h' \<in> set (h # hs)" for h'
  proof (cases "h' = h")
    case True
    then show ?thesis using allocated(3,4,7) by (auto simp: bytes_at_iff)
  next
    case False
    then have h': "h' \<in> set hs" using h' by simp
    obtain bs where bs: "A (payload_addr h') = Some (alignment h', bs)" "length bs = requested_size h'" "bytes_at (bytes s) (payload_addr h') bs"
      using representsD(4) [OF rep h'] by blast
    have "payload_addr h' + i \<notin> mapping h" if "i < length bs" for i
      using payload_inside [of P h' i] ok(2) [OF h'] that bs(2) by (auto simp: apart_def)
    then have "bytes_at (bytes s') (payload_addr h') bs = bytes_at (bytes s) (payload_addr h') bs"
      by (intro bytes_at_cong allocated(6))
    then show ?thesis using bs new [OF h'] by simp
  qed
  have "represents P outside cells s' (h # hs) ?A"
    unfolding represents_def
  proof (intro conjI allI impI)
    show "\<forall>h\<in>set (h # hs). \<exists>bs. ?A (payload_addr h) = Some (alignment h, bs) \<and> length bs = requested_size h \<and> bytes_at (bytes s') (payload_addr h) bs"
      using blk by blast
    show "\<forall>h'\<in>set (h # hs). x \<notin> mapping h'" "bytes s' x = outside x" if "outside x \<noteq> None" for x
    proof -
      have "x \<notin> mapping h" using representsD(5) [OF rep that] that allocated(5) [of x] by auto
      then show "\<forall>h'\<in>set (h # hs). x \<notin> mapping h'" "bytes s' x = outside x"
        using representsD(5) [OF rep that] allocated(6) by auto
    qed
  qed (use allocated(2,9) representsD(2,3) [OF rep] in auto)
  moreover have "p + max n 1 \<le> q \<or> q + max (length bs) 1 \<le> p" if block: "A q = Some (b, bs)" and p: "p = payload_addr h" for p q b bs
  proof -
    obtain h' where h': "h' \<in> set hs" "payload_addr h' = q" "requested_size h' = length bs" "header_ok P h'"
      using represented_block [OF rep block] by blast
    have "mapping h \<inter> mapping h' = {}" using ok(2) [OF h'(1)] by (simp add: apart_def)
    then show ?thesis using header_ok_bounds(2,3) [OF ok(1)] header_ok_bounds(2,3) [OF h'(4)] h'(2,3) allocated(3) p
      by (fastforce simp: mapping_def)
  qed
  then have "new_block A n a (payload_addr h) ?A"
    using fresh ok(1) allocated(4) header_ok_bounds(2) [OF ok(1)] by (fastforce simp: new_block_def header_ok_def)
  then have "allocated A n a (Inr (payload_addr h)) ?A"
    using allocated(10,11) by (simp add: allocated_def)
  ultimately show thesis using allocated(1,3,6,8,9)
    by (intro that [of "Inr (payload_addr h)" s' ?A "h # hs"]) auto
qed

lemma free_represents:
  assumes P: "maps_memory P" and rep: "represents P outside cells s hs A"
  obtains s' hs' where "free P p s = Some s'" "represents P outside cells s' hs' (A(p := None))" "errno s' = errno s" "ptrs s' = ptrs s"
proof (cases rule: free_cases [OF P representsD(1) [OF rep], of p, case_names unknown released])
  case unknown
  then have "A(p := None) = A" using find_block [OF rep, of p] by (auto simp: fun_eq_iff)
  then show thesis using unknown(1) rep by (intro that [of s hs]) simp_all
next
  case (released xs h ys s')
  have live: "live P (xs @ h # ys)" using representsD(1) [OF rep] released(2) by (simp add: alloc_inv_def)
  have ok: "header_ok P h'" if "h' \<in> set hs" for h' using live that released(2) unfolding live_def by blast
  have other: "apart h h'" if "h' \<in> set (xs @ ys)" for h'
    using live that by (auto simp: live_def sorted_wrt_append intro: apart_sym)
  have h: "h \<in> set hs" "header_ok P h" using released(2) ok by simp_all
  have sub: "h' \<in> set hs" if "h' \<in> set (xs @ ys)" for h' using that released(2) by auto
  have neq: "payload_addr h' \<noteq> p" if "h' \<in> set (xs @ ys)" for h'
    using apart_payload [OF other [OF that] h(2) ok [OF sub [OF that]]] released(3) by simp
  have untouched: "bytes s' x = bytes s x" if "x \<notin> mapping h" "h' \<in> set (xs @ ys)" "x \<in> mapping h'" "mapping_base h' + 64 \<le> x" for x h'
  proof (rule released(7) [OF that(1)])
    fix l assume l: "l \<in> set xs"
    have "l = h' \<or> apart l h'" using sorted_wrt_apart [of "xs @ h # ys" l h'] live l that(2) by (auto simp: live_def)
    moreover have "mapping_len l > 120" by (rule header_ok_bounds(1) [OF ok]) (simp add: released(2) l)
    ultimately show "\<not> (mapping_base l \<le> x \<and> x < mapping_base l + 8)"
      using that(3,4) by (auto simp: apart_def mapping_def)
  qed
  have "represents P outside cells s' (xs @ ys) (A(p := None))"
    unfolding represents_def
  proof (intro conjI allI impI ballI)
    show "alloc_inv P s' (xs @ ys)" "cells = dom (ptrs s')" using released(4,6) representsD(2) [OF rep] by simp_all
    have "dom (A(p := None)) = payload_addr ` set hs - {p}" using representsD(3) [OF rep] by auto
    also have "\<dots> = payload_addr ` set (xs @ ys)" using released(2,3) neq by auto
    finally show "dom (A(p := None)) = payload_addr ` set (xs @ ys)" .
    show "\<exists>bs. (A(p := None)) (payload_addr h') = Some (alignment h', bs) \<and> length bs = requested_size h' \<and> bytes_at (bytes s') (payload_addr h') bs"
      if h': "h' \<in> set (xs @ ys)" for h'
    proof -
      obtain bs where bs: "A (payload_addr h') = Some (alignment h', bs)" "length bs = requested_size h'" "bytes_at (bytes s) (payload_addr h') bs"
        using representsD(4) [OF rep sub [OF h']] by blast
      note b = header_ok_bounds(2) [OF ok [OF sub [OF h']]]
      have "bytes s' (payload_addr h' + i) = bytes s (payload_addr h' + i)" if "i < length bs" for i
      proof -
        have "payload_addr h' + i \<in> mapping h'" using payload_inside [OF ok [OF sub [OF h']], of i] that bs(2) by simp
        moreover from this have "payload_addr h' + i \<notin> mapping h" using other [OF h'] by (auto simp: apart_def)
        ultimately show ?thesis using untouched h' b by simp
      qed
      then have "bytes_at (bytes s') (payload_addr h') bs = bytes_at (bytes s) (payload_addr h') bs" by (rule bytes_at_cong)
      then show ?thesis using bs neq [OF h'] by simp
    qed
    fix x assume x: "outside x \<noteq> None"
    then have out: "\<forall>h\<in>set hs. x \<notin> mapping h" "bytes s x = outside x" using representsD(5) [OF rep] by blast+
    then show "x \<notin> mapping h'" if "h' \<in> set (xs @ ys)" for h' using sub [OF that] by blast
    have "bytes s' x = bytes s x"
    proof (rule released(7))
      show "x \<notin> mapping h" using out(1) h(1) by blast
      fix l assume l: "l \<in> set xs"
      then have "mapping_len l > 120" "x \<notin> mapping l" using header_ok_bounds(1) [OF ok, of l] out(1) released(2) by auto
      then show "\<not> (mapping_base l \<le> x \<and> x < mapping_base l + 8)" by (auto simp: mapping_def)
    qed
    then show "bytes s' x = outside x" using out(2) by simp
  qed
  then show thesis using released(1,5,6) by (intro that)
qed

text \<open>Writing into a block.\<close>

lemma store_represents:
  assumes rep: "represents P outside cells s hs A" and block: "A p = Some (a, cs)" and fits: "i + length bs \<le> length cs"
  shows "write_block (bytes s) (p + i) bs = Some (store_bytes (bytes s) (p + i) bs)"
    "represents P outside cells (s\<lparr>bytes := store_bytes (bytes s) (p + i) bs\<rparr>) hs (A(p \<mapsto> (a, take i cs @ bs @ drop (i + length bs) cs)))"
proof -
  obtain h where h: "h \<in> set hs" "payload_addr h = p" "alignment h = a" "requested_size h = length cs" "bytes_at (bytes s) p cs" "header_ok P h"
    by (rule represented_block [OF rep block])
  let ?m = "store_bytes (bytes s) (p + i) bs"
  have live: "live P hs" "active_head s = first_base hs" "linked (bytes s) hs" using representsD(1) [OF rep] by (simp_all add: alloc_inv_def)
  have ok: "header_ok P h'" if "h' \<in> set hs" for h' using live that by (simp add: live_def)
  have "mapped (bytes s) (p + i) (length bs)"
    using bytes_at_nth [OF h(5)] fits by (auto simp: mapped_def add.assoc)
  then show "write_block (bytes s) (p + i) bs = Some ?m" by (rule write_block_mapped)
  have same: "?m x = bytes s x" if "x < p \<or> p + length cs \<le> x" for x
    using that fits by (intro store_bytes_other) auto
  have keep: "?m x = bytes s x" if "x \<notin> mapping h" for x
    using that header_ok_bounds(2,3) [OF h(6)] h(2,4) by (intro same) (auto simp: mapping_def)
  have lower: "?m x = bytes s x" if "h' \<in> set hs" "mapping_base h' \<le> x" "x < payload_addr h'" for x h'
  proof (cases "h' = h")
    case False
    have "apart h' h" using sorted_wrt_apart [of hs h' h] live(1) that(1) h(1) False by (simp add: live_def)
    moreover have "x \<in> mapping h'" using that header_ok_bounds(3) [OF ok [OF that(1)]] by (auto simp: mapping_def)
    ultimately show ?thesis by (intro keep) (auto simp: apart_def)
  qed (use that h(2) same in auto)
  have inv: "alloc_inv P (s\<lparr>bytes := ?m\<rparr>) hs"
  proof -
    have "linked ?m hs = linked (bytes s) hs"
      by (rule linked_frame, rule lower) (use header_ok_bounds(2) [OF ok] in force)+
    moreover have "block_in ?m h'" if h': "h' \<in> set hs" for h'
    proof -
      have "bytes_at ?m (payload_addr h' - 56) (header_bytes h') = bytes_at (bytes s) (payload_addr h' - 56) (header_bytes h')"
        by (rule bytes_at_cong, rule lower [OF h']) (use header_ok_bounds(2) [OF ok [OF h']] in auto)
      moreover have "block_in (bytes s) h'" using representsD(1) [OF rep] h' by (simp add: alloc_inv_def)
      ultimately show ?thesis by (simp add: block_in_def store_bytes_dom del: not_None_eq)
    qed
    ultimately show ?thesis using live by (simp add: alloc_inv_def)
  qed
  have contents: "bytes_at ?m p (take i cs @ bs @ drop (i + length bs) cs)"
  proof -
    have "bytes_at (bytes s) p (take i cs @ take (length bs) (drop i cs) @ drop (i + length bs) cs)"
      using h(5) by (metis append_take_drop_id drop_drop add.commute)
    moreover have lens: "min (length cs) i = i" "min (length cs - i) (length bs) = length bs" using fits by simp_all
    ultimately have "bytes_at (bytes s) p (take i cs)" "bytes_at (bytes s) (p + i + length bs) (drop (i + length bs) cs)"
      by (simp_all add: add.assoc)
    then show ?thesis using lens by (simp add: bytes_at_store_apart bytes_at_store_bytes)
  qed
  show "represents P outside cells (s\<lparr>bytes := ?m\<rparr>) hs (A(p \<mapsto> (a, take i cs @ bs @ drop (i + length bs) cs)))"
    unfolding represents_def
  proof (intro conjI allI impI ballI)
    show "alloc_inv P (s\<lparr>bytes := ?m\<rparr>) hs" by (rule inv)
    show "dom (A(p \<mapsto> (a, take i cs @ bs @ drop (i + length bs) cs))) = payload_addr ` set hs"
      using representsD(3) [OF rep] block by auto
    show "\<exists>ds. (A(p \<mapsto> (a, take i cs @ bs @ drop (i + length bs) cs))) (payload_addr h') = Some (alignment h', ds) \<and>
        length ds = requested_size h' \<and> bytes_at (bytes (s\<lparr>bytes := ?m\<rparr>)) (payload_addr h') ds" if h': "h' \<in> set hs" for h'
    proof (cases "h' = h")
      case True
      then show ?thesis using contents h fits by simp
    next
      case False
      then have apart: "apart h' h" using sorted_wrt_apart [of hs h' h] live(1) h' h(1) by (simp add: live_def)
      obtain ds where ds: "A (payload_addr h') = Some (alignment h', ds)" "length ds = requested_size h'" "bytes_at (bytes s) (payload_addr h') ds"
        using representsD(4) [OF rep h'] by blast
      have "bytes_at ?m (payload_addr h') ds = bytes_at (bytes s) (payload_addr h') ds"
        by (rule bytes_at_cong, rule keep) (use payload_inside [OF ok [OF h']] ds(2) apart in \<open>force simp: apart_def\<close>)
      then show ?thesis using ds apart_payload [OF apart ok [OF h'] h(6)] h(2) by simp
    qed
    fix x assume x: "outside x \<noteq> None"
    then have out: "\<forall>h\<in>set hs. x \<notin> mapping h" "bytes s x = outside x" using representsD(5) [OF rep] by blast+
    then show "x \<notin> mapping h'" if "h' \<in> set hs" for h' using that by blast
    show "bytes (s\<lparr>bytes := ?m\<rparr>) x = outside x" using keep [of x] out h(1) by simp
  qed (use representsD(2) [OF rep] in simp)
qed

section \<open>Every call implements the map\<close>

definition simulates :: "'k platform \<Rightarrow> mem \<Rightarrow> addr set \<Rightarrow> blocks \<Rightarrow> c_int \<Rightarrow> alloc_call \<Rightarrow> (alloc_result \<times> 'k alloc_state) option \<Rightarrow> bool" where
  "simulates P outside cells A e c run \<longleftrightarrow>
     (\<exists>res s' hs' A'. run = Some (res, s') \<and> alloc_spec A e c res (errno s') A' \<and> represents P outside cells s' hs' A')"

lemma simulatesI: "run = Some (res, s') \<Longrightarrow> alloc_spec A e c res (errno s') A' \<Longrightarrow> represents P outside cells s' hs' A' \<Longrightarrow>
    simulates P outside cells A e c run"
  unfolding simulates_def by blast

lemma represents_errno [simp]: "represents P outside cells (set_errno e s) hs A = represents P outside cells s hs A"
  by (simp add: represents_def alloc_inv_def set_errno_def)

text \<open>A request that returns a pointer, or null and errno.\<close>

definition returns_block :: "'k platform \<Rightarrow> mem \<Rightarrow> addr set \<Rightarrow> blocks \<Rightarrow> nat \<Rightarrow> nat \<Rightarrow> c_int \<Rightarrow> (addr \<times> 'k alloc_state) option \<Rightarrow> bool" where
  "returns_block P outside cells A n a e run \<longleftrightarrow>
     (\<exists>p s' hs' A'. run = Some (p, s') \<and> pointer_or_errno A n a e (Pointer p) (errno s') A' \<and> represents P outside cells s' hs' A' \<and>
        (p \<noteq> null \<longrightarrow> A' p = Some (max a 16, replicate n 0)))"

lemma allocate_returns_block:
  assumes "maps_memory P" "represents P outside cells s hs A"
  shows "returns_block P outside cells A n a (errno s) (map_option or_errno (allocate_with_alignment P n a s))"
proof -
  obtain r s' hs' A' where run: "allocate_with_alignment P n a s = Some (r, s')" "allocated A n a r A'"
    "represents P outside cells s' hs' A'" "errno s' = errno s"
    using allocate_represents [OF assms] by metis
  show ?thesis
  proof (cases r)
    case (Inl e)
    then have "A' = A" "pointer_or_errno A n a (errno s) (Pointer null) e A"
      using run(2) by (auto simp: pointer_or_errno_def allocated_def intro!: exI [of _ "Inl e"])
    then show ?thesis using run Inl unfolding returns_block_def
      by (intro exI [of _ null] exI [of _ "set_errno e s'"] exI [of _ hs'] exI [of _ A]) (simp add: or_errno_def)
  next
    case (Inr p)
    then have "pointer_or_errno A n a (errno s) (Pointer p) (errno s) A'" "A' p = Some (max a 16, replicate n 0)"
      using run(2) by (auto simp: pointer_or_errno_def allocated_def new_block_def intro!: exI [of _ "Inr p"])
    then show ?thesis using run Inr unfolding returns_block_def
      by (intro exI [of _ p] exI [of _ s'] exI [of _ hs'] exI [of _ A']) (simp add: or_errno_def)
  qed
qed

lemma null_returns_block:
  "represents P outside cells s hs A \<Longrightarrow> n > MAX_REQUEST_SIZE \<Longrightarrow> returns_block P outside cells A n a e (Some (null, set_errno ENOMEM s))"
  unfolding returns_block_def pointer_or_errno_def
  by (intro exI [of _ null] exI [of _ "set_errno ENOMEM s"] exI [of _ hs] exI [of _ A])
    (auto simp: allocated_def ENOMEM_def intro!: exI [of _ "Inl ENOMEM"])

lemma returns_block_run:
  assumes "returns_block P outside cells A n a e run" "\<And>res e' A'. alloc_spec A e c res e' A' = pointer_or_errno A n a e res e' A'"
  shows "simulates P outside cells A e c (map_option pointer_result run)"
  using assms unfolding returns_block_def simulates_def by (fastforce simp: pointer_result_def)

lemma malloc_returns_block: "maps_memory P \<Longrightarrow> represents P outside cells s hs A \<Longrightarrow>
    returns_block P outside cells A n 16 (errno s) (malloc P n s)"
  using allocate_returns_block [of P outside cells s hs A n 16] by (simp add: malloc_def MALLOC_ALIGNMENT_def)

lemma checked_calloc_size_eq: "checked_calloc_size m n = (if m * n \<le> MAX_REQUEST_SIZE then Some (m * n) else None)"
  by (auto simp: checked_calloc_size_def checked_mul_def request_too_large_def MAX_REQUEST_SIZE_def USIZE_MAX_def)

lemma calloc_returns_block:
  assumes P: "maps_memory P" and rep: "represents P outside cells s hs A"
  shows "returns_block P outside cells A (m * n) 16 (errno s) (calloc P m n s)"
proof (cases "m * n \<le> MAX_REQUEST_SIZE")
  case True
  obtain p s' hs' A' where run: "malloc P (m * n) s = Some (p, s')" "pointer_or_errno A (m * n) 16 (errno s) (Pointer p) (errno s') A'"
    "represents P outside cells s' hs' A'" "p \<noteq> null \<longrightarrow> A' p = Some (16, replicate (m * n) 0)"
    using malloc_returns_block [OF P rep, of "m * n"] unfolding returns_block_def by auto
  show ?thesis
  proof (cases "p = null")
    case True
    then show ?thesis using run \<open>m * n \<le> _\<close> unfolding returns_block_def by (auto simp: calloc_def checked_calloc_size_eq)
  next
    case False
    then have block: "A' p = Some (16, replicate (m * n) 0)" using run(4) by simp
    note st = store_represents [OF run(3) block, of 0 "replicate (m * n) 0"]
    have "A'(p \<mapsto> (16, replicate (m * n) 0)) = A'" using block by auto
    then show ?thesis using st run False True
      unfolding returns_block_def by (force simp: calloc_def checked_calloc_size_eq)
  qed
next
  case False
  then show ?thesis using null_returns_block [OF rep] by (simp add: calloc_def checked_calloc_size_eq)
qed

lemma posix_memalign_simulated:
  assumes P: "maps_memory P" and rep: "represents P outside cells s hs A" and bounds: "call_in_bounds cells A (Posix_memalign q a n)"
  shows "simulates P outside cells A (errno s) (Posix_memalign q a n) (run_alloc P (Posix_memalign q a n) s)"
proof (cases "q \<noteq> null \<and> has_allocator_alignment_shape a \<and> 8 \<le> a")
  case False
  then have "posix_memalign P q a n s = Some (EINVAL, s)"
    by (auto simp: posix_memalign_def has_valid_alignment_shape_def POINTER_SIZE_def)
  then show ?thesis using False rep
    by (intro simulatesI [where res = "Stored EINVAL (ptrs s q)" and s' = s and A' = A and hs' = hs]) (auto simp: run_alloc_def alloc_spec_def)
next
  case True
  obtain r s' hs' A' where run: "allocate_with_alignment P n a s = Some (r, s')" "allocated A n a r A'"
    "represents P outside cells s' hs' A'" "errno s' = errno s" "ptrs s' = ptrs s"
    using allocate_represents [OF P rep] by metis
  have cell: "ptrs s' q \<noteq> None"
    using bounds True representsD(2) [OF rep] run(5) by (auto simp: call_in_bounds_def)
  show ?thesis
  proof (cases r)
    case (Inl e)
    then have "posix_memalign P q a n s = Some (e, s')"
      using run(1) True by (simp add: posix_memalign_def has_valid_alignment_shape_def POINTER_SIZE_def)
    then show ?thesis using Inl True run
      by (intro simulatesI [where res = "Stored e (ptrs s' q)" and s' = s' and A' = A and hs' = hs']) (auto simp: run_alloc_def alloc_spec_def allocated_def intro: exI [of _ "Inl e"])
  next
    case (Inr p)
    let ?s = "s'\<lparr>ptrs := (ptrs s')(q \<mapsto> p)\<rparr>"
    have "posix_memalign P q a n s = Some (0, ?s)"
      using run(1) True Inr cell by (simp add: posix_memalign_def has_valid_alignment_shape_def POINTER_SIZE_def write_ptr_def)
    moreover have "represents P outside cells ?s hs' A'"
      using run(3) cell by (auto simp: represents_def alloc_inv_def)
    ultimately show ?thesis using Inr True run
      by (intro simulatesI [where res = "Stored 0 (Some p)" and s' = ?s and A' = A' and hs' = hs']) (auto simp: run_alloc_def alloc_spec_def intro: exI [of _ "Inr p"])
  qed
qed

end
