(* ===== verification/Alloc_Program.thy ===== *)
theory Alloc_Program
  imports Alloc_Spec
begin

text \<open>
  Resizing, the simulation of every call of the allocator by the map of blocks, and the properties of programs that use it.
\<close>

section \<open>Resizing\<close>

definition realloc_simulated :: "'k platform \<Rightarrow> mem \<Rightarrow> addr set \<Rightarrow> blocks \<Rightarrow> c_int \<Rightarrow> addr \<Rightarrow> nat \<Rightarrow> (addr \<times> 'k alloc_state) option \<Rightarrow> bool" where
  "realloc_simulated P outside cells A e p n run \<longleftrightarrow>
     (\<exists>q s' hs' A'. run = Some (q, s') \<and> realloc_spec A e p n (Pointer q) (errno s') A' \<and> represents P outside cells s' hs' A')"

lemma realloc_simulatedI: "run = Some (q, s') \<Longrightarrow> realloc_spec A e p n (Pointer q) (errno s') A' \<Longrightarrow> represents P outside cells s' hs' A' \<Longrightarrow>
    realloc_simulated P outside cells A e p n run"
  unfolding realloc_simulated_def by blast

text \<open>The resizing of a live block.\<close>

lemma resize_simulated:
  assumes P: "maps_memory P" and rep: "represents P outside cells s hs A" and block: "A p = Some (a, bs)"
    and n: "p \<noteq> null" "0 < n" "n \<le> MAX_REQUEST_SIZE"
  shows "realloc_simulated P outside cells A (errno s) p n (realloc P p n s)"
proof -
  obtain h where h: "h \<in> set hs" "payload_addr h = p" "alignment h = a" "requested_size h = length bs" "header_ok P h"
    using represented_block [OF rep block] by blast
  obtain h0 where h0: "find (\<lambda>h. payload_addr h = p) hs = Some h0" using find_block [OF rep, of p] block by auto
  then have "h0 \<in> set hs" "payload_addr h0 = p" by (auto simp: find_Some_iff)
  then have h0': "alignment h0 = a" "requested_size h0 = length bs"
    using representsD(4) [OF rep, of h0] block by auto
  have live: "validate_live_allocation P p s = Some (Some h0)"
    using validate_live [OF representsD(1) [OF rep], of p] h0 by simp
  obtain r s1 hs1 A1 where run: "allocate_with_alignment P n a s = Some (r, s1)" "allocated A n a r A1" "represents P outside cells s1 hs1 A1"
    "errno s1 = errno s"
    using allocate_represents [OF P rep] by metis
  show ?thesis
  proof (cases r)
    case (Inl e)
    have "realloc P p n s = Some (null, set_errno e s1)"
      using n live h0' run(1) Inl by (simp add: realloc_def request_too_large_def)
    then show ?thesis
      by (rule realloc_simulatedI [where A' = A and hs' = hs1])
        (use n block run Inl in \<open>auto simp: realloc_spec_def allocated_def intro!: exI [of _ "Inl e"]\<close>)
  next
    case (Inr q)
    have new: "q \<noteq> null" "A q = None" "A1 = A(q \<mapsto> (max a 16, replicate n 0))"
      using run(2) Inr by (simp_all add: allocated_def new_block_def)
    then have "q \<noteq> p" using block by auto
    then have old: "A1 p = Some (a, bs)" "A1 q = Some (max a 16, replicate n 0)" using new(3) block by simp_all
    have copied: "take (min (length bs) n) bs = take n bs" by (simp add: min_def)
    have "bytes_at (bytes s1) p bs" using represented_block [OF run(3) old(1)] by blast
    then have "bytes_at (bytes s1) p (take (min (length bs) n) bs)"
      by (metis append_take_drop_id bytes_at_append)
    then have read: "read_block (bytes s1) p (min (length bs) n) = Some (take n bs)"
      unfolding copied by (simp add: read_block_bytes_at)
    let ?s = "s1\<lparr>bytes := store_bytes (bytes s1) q (take n bs)\<rparr>"
    let ?A = "A1(q \<mapsto> (max a 16, take n bs @ replicate (n - length bs) 0))"
    have short: "0 + length (take n bs) \<le> length (replicate n (0 :: u8))" by simp
    have "drop (length (take n bs)) (replicate n (0 :: u8)) = replicate (n - length bs) 0" by (simp add: min_def)
    then have stored: "write_block (bytes s1) q (take n bs) = Some (store_bytes (bytes s1) q (take n bs))"
      "represents P outside cells ?s hs1 ?A"
      using store_represents [OF run(3) old(2) short] by simp_all
    obtain s' hs' where free: "free P p ?s = Some s'" "represents P outside cells s' hs' (?A(p := None))" "errno s' = errno ?s"
      using free_represents [OF P stored(2), of p] by metis
    have result: "?A(p := None) = (A(p := None))(q \<mapsto> (max a 16, take n bs @ replicate (n - length bs) 0))"
      using \<open>q \<noteq> p\<close> new(3) by (auto simp: fun_eq_iff)
    have "realloc P p n s = Some (q, s')"
      using n live h0' run(1) Inr read stored(1) free(1) by (simp add: realloc_def request_too_large_def)
    then show ?thesis
      by (rule realloc_simulatedI [OF _ _ free(2)])
        (use n block run(2,4) Inr free(3) result in \<open>auto simp: realloc_spec_def intro!: exI [of _ "Inr q"]\<close>)
  qed
qed

lemma realloc_always_simulated:
  assumes P: "maps_memory P" and rep: "represents P outside cells s hs A"
  shows "realloc_simulated P outside cells A (errno s) p n (realloc P p n s)"
proof -
  consider "p = null" | "p \<noteq> null" "n = 0" | "p \<noteq> null" "n > MAX_REQUEST_SIZE"
    | "p \<noteq> null" "0 < n" "n \<le> MAX_REQUEST_SIZE" "A p = None" | a bs where "p \<noteq> null" "0 < n" "n \<le> MAX_REQUEST_SIZE" "A p = Some (a, bs)"
    by (cases "A p") force+
  then show ?thesis
  proof cases
    case 1
    then show ?thesis using malloc_returns_block [OF P rep, of n]
      by (auto simp: realloc_simulated_def returns_block_def realloc_def realloc_spec_def)
  next
    case 2
    obtain s' hs' where free: "free P p s = Some s'" "represents P outside cells s' hs' (A(p := None))" "errno s' = errno s"
      using free_represents [OF P rep, of p] by metis
    then show ?thesis using 2 by (intro realloc_simulatedI [OF _ _ free(2)]) (auto simp: realloc_def realloc_spec_def)
  next
    case 3
    then show ?thesis using rep
      by (intro realloc_simulatedI [where q = null and s' = "set_errno ENOMEM s" and A' = A and hs' = hs])
        (auto simp: realloc_def realloc_spec_def request_too_large_def)
  next
    case 4
    have "validate_live_allocation P p s = Some None"
      using validate_live [OF representsD(1) [OF rep], of p] find_block [OF rep, of p] 4(4) by simp
    then show ?thesis using 4 rep
      by (intro realloc_simulatedI [OF _ _ rep]) (auto simp: realloc_def realloc_spec_def request_too_large_def)
  next
    case 5
    then show ?thesis by (intro resize_simulated [OF P rep]) simp_all
  qed
qed

lemma usable_size_value:
  assumes rep: "represents P outside cells s hs A"
  shows "malloc_usable_size P p s = Some (case A p of None \<Rightarrow> 0 | Some (a, bs) \<Rightarrow> max (length bs) 1)"
proof (cases "find (\<lambda>h. payload_addr h = p) hs")
  case None
  then show ?thesis using validate_live [OF representsD(1) [OF rep], of p] find_block [OF rep, of p]
    by (auto simp: malloc_usable_size_def)
next
  case (Some h)
  then have h: "h \<in> set hs" "payload_addr h = p" by (auto simp: find_Some_iff)
  obtain bs where bs: "A p = Some (alignment h, bs)" "length bs = requested_size h" using representsD(4) [OF rep h(1)] h(2) by auto
  have "header_ok P h" using representsD(1) [OF rep] h(1) by (simp add: alloc_inv_def live_def)
  then have "p \<noteq> null" using header_ok_bounds(2) [of P h] h(2) by auto
  then show ?thesis using validate_live [OF representsD(1) [OF rep], of p] Some bs
    by (simp add: malloc_usable_size_def payload_size_max)
qed

lemma pvalloc_returns_block:
  assumes P: "maps_memory P" and rep: "represents P outside cells s hs A"
  shows "returns_block P outside cells A (if n = 0 then 4096 else (n + 4095) div 4096 * 4096) 4096 (errno s) (pvalloc P n s)"
proof -
  have page: "PAGE_SIZE = 2 ^ 12" by (simp add: PAGE_SIZE_def)
  have valloc: "returns_block P outside cells A k 4096 (errno s) (valloc P k s)" for k
    using allocate_returns_block [OF P rep, of k 4096] by (simp add: valloc_def PAGE_SIZE_def)
  have up: "align_up n PAGE_SIZE = (if n + 4095 \<le> USIZE_MAX then Some ((n + 4095) div 4096 * 4096) else None)"
    using align_up_cases [of 12 n] by (simp add: page)
  show ?thesis
  proof (cases "n = 0 \<or> n + 4095 \<le> USIZE_MAX")
    case True
    then show ?thesis using valloc up by (auto simp: pvalloc_def PAGE_SIZE_def)
  next
    case False
    then have "MAX_REQUEST_SIZE < n" by (simp add: MAX_REQUEST_SIZE_def USIZE_MAX_def)
    also have "n \<le> (n + 4095) div 4096 * 4096" using round_up [of 4096 n] by simp
    finally have "(n + 4095) div 4096 * 4096 > MAX_REQUEST_SIZE" .
    with False up show ?thesis using null_returns_block [OF rep] by (auto simp: pvalloc_def)
  qed
qed

lemma aligned_returns_block:
  assumes "maps_memory P" "represents P outside cells s hs A" "has_allocator_alignment_shape a"
  shows "returns_block P outside cells A n a (errno s) (aligned_alloc P a n s)" "memalign P a n s = aligned_alloc P a n s"
  using assms allocate_returns_block [OF assms(1,2), of n a]
  by (simp_all add: aligned_alloc_def memalign_def has_glibc_alignment_shape_def)

section \<open>Every call, every program\<close>

lemma call_simulated:
  assumes P: "maps_memory P" and rep: "represents P outside cells s hs A" and bounds: "call_in_bounds cells A c"
  shows "simulates P outside cells A (errno s) c (run_alloc P c s)"
proof -
  have invalid: "simulates P outside cells A (errno s) c (Some (Pointer null, set_errno e s))"
    if "alloc_spec A (errno s) c (Pointer null) e A" for e
    by (rule simulatesI [where res = "Pointer null" and s' = "set_errno e s" and A' = A and hs' = hs]) (use that rep in simp_all)
  show ?thesis
  proof (cases c)
    case (Aligned_alloc a n)
    show ?thesis
    proof (cases "has_allocator_alignment_shape a")
      case True
      then show ?thesis using returns_block_run [OF aligned_returns_block(1) [OF P rep True, of n], where c = c]
        by (simp add: Aligned_alloc run_alloc_def alloc_spec_def)
    next
      case False
      then show ?thesis using invalid [of EINVAL]
        by (simp add: Aligned_alloc run_alloc_def alloc_spec_def aligned_alloc_def has_glibc_alignment_shape_def pointer_result_def)
    qed
  next
    case (Memalign a n)
    show ?thesis
    proof (cases "has_allocator_alignment_shape a")
      case True
      then show ?thesis using returns_block_run [OF aligned_returns_block(1) [OF P rep True, of n], where c = c] aligned_returns_block(2) [OF P rep True]
        by (simp add: Memalign run_alloc_def alloc_spec_def memalign_alignments)
    next
      case False
      then show ?thesis using invalid [of EINVAL]
        by (simp add: Memalign run_alloc_def alloc_spec_def memalign_alignments memalign_def has_glibc_alignment_shape_def pointer_result_def)
    qed
  next
    case (Posix_memalign q a n)
    then show ?thesis using posix_memalign_simulated [OF P rep] bounds by simp
  next
    case (Realloc p n)
    then show ?thesis using realloc_always_simulated [OF P rep, of p n]
      by (fastforce simp: realloc_simulated_def simulates_def run_alloc_def alloc_spec_def pointer_result_def)
  next
    case (Reallocarray p m n)
    show ?thesis
    proof (cases "m * n \<le> MAX_REQUEST_SIZE")
      case True
      then show ?thesis using realloc_always_simulated [OF P rep, of p "m * n"]
        by (fastforce simp: Reallocarray realloc_simulated_def simulates_def run_alloc_def alloc_spec_def pointer_result_def reallocarray_def
            checked_calloc_size_eq)
    next
      case False
      then show ?thesis using invalid [of ENOMEM]
        by (simp add: Reallocarray run_alloc_def alloc_spec_def reallocarray_def checked_calloc_size_eq pointer_result_def)
    qed
  next
    case (Free p)
    obtain s' hs' where "free P p s = Some s'" "represents P outside cells s' hs' (A(p := None))" "errno s' = errno s"
      using free_represents [OF P rep, of p] by metis
    then show ?thesis by (auto simp: Free run_alloc_def alloc_spec_def simulates_def)
  next
    case (Cfree p)
    obtain s' hs' where "free P p s = Some s'" "represents P outside cells s' hs' (A(p := None))" "errno s' = errno s"
      using free_represents [OF P rep, of p] by metis
    then show ?thesis by (auto simp: Cfree cfree_def run_alloc_def alloc_spec_def simulates_def)
  next
    case (Malloc_usable_size p)
    then show ?thesis using usable_size_value [OF rep, of p] rep
      by (auto simp: run_alloc_def alloc_spec_def simulates_def)
  next
    case (Store p i bs)
    then obtain a cs where "A p = Some (a, cs)" "i + length bs \<le> length cs"
      using bounds by (auto simp: call_in_bounds_def split: option.splits)
    from store_represents [OF rep this] this(1) show ?thesis
      by (intro simulatesI [where res = Done]) (auto simp: Store run_alloc_def alloc_spec_def)
  next
    case (Malloc n)
    then show ?thesis using returns_block_run [OF malloc_returns_block [OF P rep, of n], where c = c] by (simp add: run_alloc_def alloc_spec_def)
  next
    case (Calloc m n)
    then show ?thesis using returns_block_run [OF calloc_returns_block [OF P rep, of m n], where c = c] by (simp add: run_alloc_def alloc_spec_def)
  next
    case (Valloc n)
    have "returns_block P outside cells A n 4096 (errno s) (valloc P n s)"
      using allocate_returns_block [OF P rep, of n 4096] by (simp add: valloc_def PAGE_SIZE_def)
    from returns_block_run [OF this, where c = c] show ?thesis by (simp add: Valloc run_alloc_def alloc_spec_def)
  next
    case (Pvalloc n)
    then show ?thesis using returns_block_run [OF pvalloc_returns_block [OF P rep, of n], where c = c] by (simp add: run_alloc_def alloc_spec_def)
  qed
qed

lemma fresh_represents:
  assumes "active_head s = null"
  shows "represents P (bytes s) (dom (ptrs s)) s [] Map.empty"
  using assms by (simp add: represents_def alloc_inv_def live_def)

lemma run_program_simulated:
  assumes P: "maps_memory P" and prog: "in_bounds e cells prog"
    and "spec_trace e tr (errno s) A" "represents P outside cells s hs A"
  obtains tr' s' hs' A' where "run_program P prog n tr s = Some (tr', s')" "length tr' = length tr + n" "spec_trace e tr' (errno s') A'"
    "represents P outside cells s' hs' A'"
  using assms(3,4)
proof (induction n arbitrary: tr s hs A thesis)
  case 0
  then show ?case by simp
next
  case (Suc n)
  have "call_in_bounds cells A (prog tr)" using prog Suc.prems(2) by (auto simp: in_bounds_def)
  from call_simulated [OF P Suc.prems(3) this] obtain res s1 hs1 A1 where step: "run_alloc P (prog tr) s = Some (res, s1)"
    "alloc_spec A (errno s) (prog tr) res (errno s1) A1" "represents P outside cells s1 hs1 A1"
    unfolding simulates_def by blast
  have trace: "spec_trace e (tr @ [(prog tr, res, errno s1)]) (errno s1) A1" by (rule spec_call [OF Suc.prems(2) step(2)])
  obtain tr' s' hs' A' where "run_program P prog n (tr @ [(prog tr, res, errno s1)]) s1 = Some (tr', s')"
    "length tr' = length (tr @ [(prog tr, res, errno s1)]) + n" "spec_trace e tr' (errno s') A'" "represents P outside cells s' hs' A'"
    by (rule Suc.IH [OF _ trace step(3)])
  then show ?case using step(1) by (intro Suc.prems(1)) auto
qed

text \<open>What a represented heap guarantees of the blocks.\<close>

definition blocks_separate :: "blocks \<Rightarrow> bool" where
  "blocks_separate A \<longleftrightarrow> (\<forall>p q a b bs cs. A p = Some (a, bs) \<longrightarrow> A q = Some (b, cs) \<longrightarrow> p \<noteq> q \<longrightarrow>
     p + max (length bs) 1 \<le> q \<or> q + max (length cs) 1 \<le> p)"

lemma represents_separate:
  assumes rep: "represents P outside cells s hs A"
  shows "blocks_separate A"
  unfolding blocks_separate_def
proof (intro allI impI)
  fix p q a b bs cs
  assume pq: "A p = Some (a, bs)" "A q = Some (b, cs)" "p \<noteq> q"
  obtain h where h: "h \<in> set hs" "payload_addr h = p" "requested_size h = length bs" "header_ok P h"
    using represented_block [OF rep pq(1)] by blast
  obtain k where k: "k \<in> set hs" "payload_addr k = q" "requested_size k = length cs" "header_ok P k"
    using represented_block [OF rep pq(2)] by blast
  have "apart h k" using sorted_wrt_apart [of hs h k] h(1,2) k(1,2) pq(3) representsD(1) [OF rep] by (auto simp: alloc_inv_def live_def)
  then show "p + max (length bs) 1 \<le> q \<or> q + max (length cs) 1 \<le> p"
    using header_ok_bounds(2,3) [OF h(4)] header_ok_bounds(2,3) [OF k(4)] h(2,3) k(2,3) by (fastforce simp: apart_def mapping_def)
qed

lemma allocator_program:
  assumes "maps_memory P" "active_head s = null" "in_bounds (errno s) (dom (ptrs s)) prog"
  shows "\<exists>tr s' A. run_program P prog n [] s = Some (tr, s') \<and> length tr = n \<and> spec_trace (errno s) tr (errno s') A \<and>
    (\<forall>p a bs. A p = Some (a, bs) \<longrightarrow> bytes_at (bytes s') p bs \<and> a dvd p \<and> 16 \<le> a) \<and> blocks_separate A \<and>
    (\<forall>x. bytes s x \<noteq> None \<longrightarrow> bytes s' x = bytes s x)"
proof -
  obtain tr s' hs' A where run: "run_program P prog n [] s = Some (tr, s')" "length tr = length ([] :: alloc_trace) + n"
    "spec_trace (errno s) tr (errno s') A" "represents P (bytes s) (dom (ptrs s)) s' hs' A"
    by (rule run_program_simulated [OF assms(1,3) spec_start fresh_represents [OF assms(2)]])
  have "bytes_at (bytes s') p bs \<and> a dvd p \<and> 16 \<le> a" if block: "A p = Some (a, bs)" for p a bs
  proof -
    obtain h where "payload_addr h = p" "alignment h = a" "bytes_at (bytes s') p bs" "header_ok P h"
      using represented_block [OF run(4) block] by blast
    then show ?thesis by (auto simp: header_ok_def)
  qed
  then show ?thesis using run represents_separate [OF run(4)] representsD(5) [OF run(4)] by auto
qed

text \<open>A block is refused only when the kernel refuses its mapping.\<close>

definition mapping_needed :: "nat \<Rightarrow> nat \<Rightarrow> nat" where
  "mapping_needed n a = (120 + max n 1 + (a - 1) + 4095) div 4096 * 4096"

lemma mapping_needed_eq:
  assumes "0 < a" "kernel_grants P (mapping_needed n a) s \<or> (\<exists>len. mapping_len_for n a = Some len \<and> kernel_grants P len s)"
  shows "mapping_len_for n a = Some (mapping_needed n a)"
proof -
  have page: "PAGE_SIZE = 2 ^ 12" by (simp add: PAGE_SIZE_def)
  let ?t = "120 + max n 1 + (a - 1)"
  have up: "align_up ?t PAGE_SIZE = (if ?t + 4095 \<le> USIZE_MAX then Some (mapping_needed n a) else None)"
    using align_up_cases [of 12 ?t] by (simp add: page mapping_needed_def)
  have small: "?t + 4095 \<le> USIZE_MAX"
  proof (cases "kernel_grants P (mapping_needed n a) s")
    case True
    have "?t \<le> mapping_needed n a" using round_up(1) [of 4096 ?t] by (simp add: mapping_needed_def)
    moreover have "mapping_needed n a < 2 ^ 63" using True by (simp add: kernel_grants_def)
    ultimately show ?thesis by (simp add: USIZE_MAX_def)
  next
    case False
    then obtain len where "mapping_len_for n a = Some len" using assms(2) by blast
    then have "align_up ?t PAGE_SIZE = Some len"
      using assms(1) by (auto simp: mapping_len_for_def checked_sub_def checked_add_def payload_size_max alloc_constants bind_eq_Some_conv
          split: if_splits)
    then show ?thesis using up by (simp split: if_splits)
  qed
  then show ?thesis using up assms(1)
    by (simp add: mapping_len_for_def checked_sub_def checked_add_def payload_size_max HEADER_SIZE_def RECORD_SIZE_def USIZE_MAX_def)
qed

lemma allocation_outcome:
  assumes "maps_memory P" "alloc_inv P s hs"
  shows "\<exists>r s'. allocate_with_alignment P n a s = Some (r, s') \<and>
    ((\<exists>p. r = Inr p) \<longleftrightarrow> n \<le> MAX_REQUEST_SIZE \<and> has_allocator_alignment_shape a \<and> kernel_grants P (mapping_needed n (max a 16)) s) \<and>
    (\<forall>e. r = Inl e \<longrightarrow> 0 < sint e \<and> bytes s' = bytes s \<and> active_head s' = active_head s)"
proof -
  have a: "0 < max a (16 :: nat)" by (simp add: less_max_iff_disj)
  note needed = mapping_needed_eq [OF a, of P n s]
  show ?thesis
  proof (cases rule: allocate_cases [OF assms, of n a, case_names failed allocated])
    case (failed e s')
    then have "\<not> (n \<le> MAX_REQUEST_SIZE \<and> has_allocator_alignment_shape a \<and> kernel_grants P (mapping_needed n (max a 16)) s)"
      using needed by auto
    then show ?thesis using failed(1-3,6) by auto
  next
    case (allocated h s')
    then have "kernel_grants P (mapping_needed n (max a 16)) s" using needed by auto
    then show ?thesis using allocated(1,10,11) by auto
  qed
qed

text \<open>A header that a program overwrote is noticed.\<close>

lemma le_bytes_le_val: "length bs = n \<Longrightarrow> le_bytes n (le_val bs) = bs"
proof (induction bs arbitrary: n)
  case (Cons b bs)
  have "(256 :: u8) = 0" by simp
  then have "word_of_nat (unat b + 256 * le_val bs) = b" by (simp only: of_nat_add of_nat_mult of_nat_unat of_nat_numeral) simp
  moreover have "(unat b + 256 * le_val bs) div 256 = le_val bs" by simp
  ultimately show ?case using Cons by (cases n) simp_all
qed simp

lemma header_bytes_of:
  assumes "length bs = 56"
  shows "header_bytes (header_of bs) = bs"
proof -
  have field: "le_bytes 8 (le_val (take 8 (drop i bs))) = take 8 (drop i bs)" if "i \<le> 48" for i
    by (rule le_bytes_le_val) (use assms that in simp)
  moreover have "take 8 bs @ take 8 (drop 8 bs) @ take 8 (drop 16 bs) @ take 8 (drop 24 bs) @ take 8 (drop 32 bs) @ take 8 (drop 40 bs) @
      take 8 (drop 48 bs) = bs"
    using assms by (simp add: list_eq_iff_nth_eq nth_append)
  ultimately show ?thesis using field [of 0] by (simp add: header_of_def header_bytes_def Let_def)
qed

lemma validate_header_same: "validate_header_for_payload P k p = Some k' \<Longrightarrow> k' = k"
  by (auto simp: validate_header_for_payload_def Let_def bind_eq_Some_conv split: if_splits)

lemma corrupted_header:
  assumes inv: "alloc_inv P s hs" and h: "h \<in> set hs" and bs: "length bs = 56" "bs \<noteq> header_bytes h"
    and s': "s' = s\<lparr>bytes := store_bytes (bytes s) (payload_addr h - 56) bs\<rparr>"
  shows "validate_live_allocation P (payload_addr h) s' = Some None"
proof -
  let ?p = "payload_addr h"
  have live: "live P hs" "active_head s = first_base hs" "linked (bytes s) hs" using inv by (simp_all add: alloc_inv_def)
  have ok: "header_ok P k" if "k \<in> set hs" for k using live(1) that by (simp add: live_def)
  note b = header_ok_bounds [OF ok [OF h]]
  have "linked (bytes s') hs = linked (bytes s) hs"
  proof (rule linked_frame)
    fix k x assume k: "k \<in> set hs" "mapping_base k \<le> x" "x < mapping_base k + 64"
    have "x \<in> mapping k" using k header_ok_bounds(1) [OF ok [OF k(1)]] by (simp add: mapping_def)
    moreover have "k = h \<or> apart k h" using sorted_wrt_apart [of hs k h] live(1) k(1) h by (auto simp: live_def)
    ultimately have "\<not> (?p - 56 \<le> x \<and> x < ?p)" using k b(2,3) by (auto simp: apart_def mapping_def)
    then show "bytes s' x = bytes s x" using bs(1) b(2) by (auto simp: s' store_bytes_other linorder_not_less)
  qed
  then have "lookup_allocation_header ?p s' = Some (find (\<lambda>k. payload_addr k = ?p) hs)"
    using lookup_loop_find [of "bytes s'" hs P ?p] live by (simp add: lookup_allocation_header_def s')
  moreover have "find (\<lambda>k. payload_addr k = ?p) hs = Some h"
  proof (cases "find (\<lambda>k. payload_addr k = ?p) hs")
    case (Some k)
    then have "k \<in> set hs" "payload_addr k = ?p" by (auto simp: find_Some_iff)
    then have "k = h" using sorted_wrt_apart [of hs k h] live(1) h ok apart_payload by (metis live_def)
    then show ?thesis using Some by simp
  qed (use h in \<open>auto simp: find_None_iff\<close>)
  moreover have "read_header (bytes s') (?p - HEADER_SIZE) = Some (header_of bs)"
    using bytes_at_store_bytes [of "bytes s" "?p - 56" bs] bs(1)
      read_block_bytes_at [of "bytes s'" "?p - 56" 56 bs] by (simp add: read_header_def HEADER_SIZE_def s')
  moreover have "header_of bs \<noteq> h" using header_bytes_of [OF bs(1)] bs(2) by auto
  moreover have "validate_header_for_payload P (header_of bs) ?p \<noteq> Some h"
    using \<open>header_of bs \<noteq> h\<close> validate_header_same by metis
  ultimately show ?thesis
    by (simp add: validate_live_allocation_def read_payload_header_def split: option.split)
qed

lemma corrupted_block_kept:
  assumes "alloc_inv P s hs" "h \<in> set hs" "length bs = 56" "bs \<noteq> header_bytes h"
    "s' = s\<lparr>bytes := store_bytes (bytes s) (payload_addr h - 56) bs\<rparr>"
  shows "free P (payload_addr h) s' = Some s' \<and> malloc_usable_size P (payload_addr h) s' = Some 0 \<and>
    realloc P (payload_addr h) n s' = Some (null, if n > MAX_REQUEST_SIZE then set_errno ENOMEM s' else s')"
proof -
  have "header_ok P h" using assms(1,2) by (simp add: alloc_inv_def live_def)
  then have "payload_addr h \<noteq> null" using header_ok_bounds(2) [of P h] by auto
  then show ?thesis using corrupted_header [OF assms]
    by (auto simp: free_def malloc_usable_size_def realloc_def request_too_large_def MAX_REQUEST_SIZE_def)
qed

end
