(* ===== verification/Allocator.thy ===== *)
theory Allocator
  imports Alloc_Program
begin

text \<open>
  The properties of the allocator, with a kernel that hands out one page after another to show that their assumptions can be met.
\<close>

section \<open>A kernel\<close>

definition bump_syscall :: "c_long list \<Rightarrow> mem \<times> nat \<Rightarrow> c_long \<times> mem \<times> nat" where
  "bump_syscall args mk =
     (case mk of (m, next) \<Rightarrow>
        if args ! 0 = SYS_MMAP then
          (let len = unat (args ! 2) in
           if fresh_pages m next len then (of_nat next, zero_pages next len m, next + len) else (- 12, m, next))
        else (0, without_pages (unat (args ! 1)) (unat (args ! 2)) m, next))"

definition bump_kernel :: "nat platform" where
  "bump_kernel = \<lparr>syscall = bump_syscall, cookie_anchor = 0x4000\<rparr>"

definition empty_process :: "nat alloc_state" where
  "empty_process = \<lparr>bytes = Map.empty, ptrs = Map.empty, errno = 0, active_head = null, kernel_state = 0x10000\<rparr>"

lemma unat_of_nat_small: "n < 2 ^ 63 \<Longrightarrow> unat (of_nat n :: c_long) = n"
  by (simp add: unat_of_nat)

lemma bump_kernel_maps: "maps_memory bump_kernel"
proof -
  have "refuses (- 12)" by (simp add: refuses_def)
  moreover have "SYS_MUNMAP \<noteq> SYS_MMAP" by (simp add: SYS_MUNMAP_def SYS_MMAP_def)
  moreover have "base < 2 ^ 63 \<and> len < 2 ^ 63" if "base + len \<le> 2 ^ 47" for base len :: nat using that by simp
  ultimately show ?thesis
    by (auto simp: maps_memory_def bump_kernel_def bump_syscall_def mmap_args_def unat_of_nat_small Let_def split: if_splits)
qed

lemma empty_process_simps [simp]: "bytes empty_process = Map.empty" "ptrs empty_process = Map.empty" "errno empty_process = 0"
    "active_head empty_process = null" "kernel_state empty_process = 0x10000"
  by (simp_all add: empty_process_def)

lemma empty_process_inv: "alloc_inv bump_kernel empty_process []"
  by (simp add: alloc_inv_def live_def)

lemma empty_process_grants: "kernel_grants bump_kernel (mapping_needed 100 16) empty_process"
proof -
  have len: "mapping_needed 100 16 = 4096" by (simp add: mapping_needed_def)
  have "fresh_pages Map.empty 0x10000 4096" by (simp add: fresh_pages_def PAGE_SIZE_def)
  moreover have "\<not> refuses 0x10000" by (simp add: refuses_def)
  ultimately show ?thesis
    by (simp add: kernel_grants_def len bump_kernel_def bump_syscall_def mmap_args_def)
qed

section \<open>The allocator implements a map of blocks\<close>

text \<open>C1. Every program that stores inside its blocks sees a map from addresses to blocks, whatever it calls with whatever arguments
  (sizes that overflow, wrong alignments, double and foreign frees included): each call ends and does
  what the map's specification says, with its results and errno, a block that was granted is
  new, aligned and zero, resizing keeps the contents, live blocks do not overlap and hold what was last stored in
  them, and the other memory of the program stays as it was. The specification follows the code where the documentation
  of \<^verbatim>\<open>memalign\<close> differs: alignments of 1, 2 and 4 (\<open>memalign_undocumented\<close>) are accepted, although the comment promises \<^verbatim>\<open>EINVAL\<close>
  below the size of a pointer.\<close>

theorem allocator_is_block_map:
  assumes "maps_memory P" "active_head s = null" "in_bounds (errno s) (dom (ptrs s)) prog"
  shows "\<exists>tr s' A. run_program P prog n [] s = Some (tr, s') \<and> length tr = n \<and> spec_trace (errno s) tr (errno s') A \<and>
    (\<forall>p a bs. A p = Some (a, bs) \<longrightarrow> bytes_at (bytes s') p bs \<and> a dvd p \<and> 16 \<le> a) \<and> blocks_separate A \<and>
    (\<forall>x. bytes s x \<noteq> None \<longrightarrow> bytes s' x = bytes s x)"
  using assms by (rule allocator_program)

text \<open>A program that allocates and stores into the block it was given.\<close>

definition storing_program :: "alloc_trace \<Rightarrow> alloc_call" where
  "storing_program tr =
     (case tr of
        [(Malloc n, Pointer p, e)] \<Rightarrow> if p \<noteq> null \<and> 2 \<le> n then Store p 0 [104, 105] else Malloc n
      | _ \<Rightarrow> Malloc 100)"

lemma pointer_is_block:
  assumes "pointer_or_errno A n a e (Pointer p) e' A'" "p \<noteq> null"
  shows "A' p = Some (max a 16, replicate n 0)"
proof -
  obtain r where r: "allocated A n a r A'" "case r of Inl err \<Rightarrow> Pointer p = Pointer null \<and> e' = err | Inr q \<Rightarrow> Pointer p = Pointer q \<and> e' = e"
    using assms(1) unfolding pointer_or_errno_def by blast
  then show ?thesis using assms(2) by (cases r) (auto simp: allocated_def new_block_def)
qed

lemma storing_program_in_bounds: "in_bounds e cells storing_program"
  unfolding in_bounds_def
proof (intro allI impI)
  fix tr e' A
  assume trace: "spec_trace e tr e' A"
  show "call_in_bounds cells A (storing_program tr)"
  proof (cases "\<exists>n p e1. tr = [(Malloc n, Pointer p, e1)] \<and> p \<noteq> null \<and> 2 \<le> n")
    case True
    then obtain n p e1 where tr: "tr = [(Malloc n, Pointer p, e1)]" "p \<noteq> null" "2 \<le> n" by blast
    from trace have "A p = Some (16, replicate n 0)"
    proof cases
      case (spec_call tr0 e0 A0 c r)
      then have "tr0 = []" "c = Malloc n" "r = Pointer p" using tr(1) by simp_all
      then show ?thesis using spec_call(3) pointer_is_block [OF _ tr(2), of A0 n 16 e0 e' A] by (simp add: alloc_spec_def)
    qed (use tr in simp)
    then show ?thesis using tr by (simp add: storing_program_def call_in_bounds_def)
  next
    case False
    then have "\<exists>n. storing_program tr = Malloc n"
      by (auto simp: storing_program_def split: list.split alloc_call.split alloc_result.split)
    then show ?thesis by (auto simp: call_in_bounds_def)
  qed
qed

lemma allocator_is_block_map_witness:
  "\<exists>tr s' A. run_program bump_kernel storing_program 2 [] empty_process = Some (tr, s') \<and> length tr = 2 \<and>
     spec_trace 0 tr (errno s') A \<and> blocks_separate A"
proof -
  have "in_bounds (errno empty_process) (dom (ptrs empty_process)) storing_program" by (rule storing_program_in_bounds)
  from allocator_is_block_map [OF bump_kernel_maps _ this, of 2] show ?thesis by auto
qed

text \<open>C2. An allocation fails exactly when the request is larger than \<^verbatim>\<open>isize::MAX\<close>, its alignment is no power of two, or the kernel refuses a
  mapping of the pages it needs for record, header, alignment and payload; a failure has an error number and
  leaves memory and list alone. The code's checks that the payload fits its mapping never fail.\<close>

theorem allocation_fails_only_without_memory:
  assumes "maps_memory P" "alloc_inv P s hs"
  shows "\<exists>r s'. allocate_with_alignment P n a s = Some (r, s') \<and>
    ((\<exists>p. r = Inr p) \<longleftrightarrow> n \<le> MAX_REQUEST_SIZE \<and> has_allocator_alignment_shape a \<and> kernel_grants P (mapping_needed n (max a 16)) s) \<and>
    (\<forall>e. r = Inl e \<longrightarrow> 0 < sint e \<and> bytes s' = bytes s \<and> active_head s' = active_head s)"
  using assms by (rule allocation_outcome)

lemma allocation_fails_only_without_memory_witness:
  "\<exists>p s'. allocate_with_alignment bump_kernel 100 16 empty_process = Some (Inr p, s')"
proof -
  have "has_allocator_alignment_shape 16" by (auto simp: shape_iff intro: exI [of _ 4])
  then show ?thesis
    using allocation_fails_only_without_memory [OF bump_kernel_maps empty_process_inv, of 100 16] empty_process_grants
    by (auto simp: MAX_REQUEST_SIZE_def)
qed

text \<open>C3. A program that overwrites the header below one of its blocks cannot make the allocator use it: whatever it wrote,
  \<^verbatim>\<open>free\<close>, \<^verbatim>\<open>malloc_usable_size\<close> and \<^verbatim>\<open>realloc\<close> notice the difference from the record
  and leave the block, the list and the memory alone.\<close>

theorem corrupted_header_ignored:
  assumes "alloc_inv P s hs" "h \<in> set hs" "length bs = 56" "bs \<noteq> header_bytes h"
    "s' = s\<lparr>bytes := store_bytes (bytes s) (payload_addr h - 56) bs\<rparr>"
  shows "free P (payload_addr h) s' = Some s' \<and> malloc_usable_size P (payload_addr h) s' = Some 0 \<and>
    realloc P (payload_addr h) n s' = Some (null, if n > MAX_REQUEST_SIZE then set_errno ENOMEM s' else s')"
  using assms by (rule corrupted_block_kept)

lemma one_block: "\<exists>s h. alloc_inv bump_kernel s [h] \<and> requested_size h = 100"
proof -
  have shape: "has_allocator_alignment_shape 16" by (auto simp: shape_iff intro: exI [of _ 4])
  show ?thesis
  proof (cases rule: allocate_cases [OF bump_kernel_maps empty_process_inv, of 100 16, case_names failed allocated])
    case (failed e s')
    have "mapping_len_for 100 16 = Some (mapping_needed 100 16)"
      by (rule mapping_needed_eq) (use empty_process_grants in auto)
    then have False using failed(8) shape empty_process_grants by (simp add: MAX_REQUEST_SIZE_def)
    then show ?thesis ..
  next
    case (allocated h s')
    then show ?thesis by blast
  qed
qed

lemma corrupted_header_ignored_witness:
  "\<exists>s h. alloc_inv bump_kernel s [h] \<and> (\<exists>bs s'. bs \<noteq> header_bytes h \<and> s' = s\<lparr>bytes := store_bytes (bytes s) (payload_addr h - 56) bs\<rparr> \<and>
     free bump_kernel (payload_addr h) s' = Some s' \<and> realloc bump_kernel (payload_addr h) 200 s' = Some (null, s'))"
proof -
  obtain s h where sh: "alloc_inv bump_kernel s [h]" using one_block by blast
  let ?bs = "replicate 56 (0 :: u8)"
  have "header_ok bump_kernel h" using sh by (simp add: alloc_inv_def live_def)
  then have "header_of (header_bytes h) = h" "mapping_base h \<noteq> 0"
    using header_okD(1) header_of_bytes header_ok_bounds(4) by fastforce+
  moreover have "mapping_base (header_of ?bs) = 0" by (simp add: header_of_def numeral_eq_Suc)
  ultimately have differ: "?bs \<noteq> header_bytes h" by auto
  let ?s = "s\<lparr>bytes := store_bytes (bytes s) (payload_addr h - 56) ?bs\<rparr>"
  have "free bump_kernel (payload_addr h) ?s = Some ?s" "realloc bump_kernel (payload_addr h) 200 ?s = Some (null, ?s)"
    using corrupted_header_ignored [OF sh _ _ differ refl, of 200] by (simp_all add: MAX_REQUEST_SIZE_def)
  then show ?thesis using sh differ by blast
qed

end
