(* ===== verification/Dl_Registry.thy ===== *)
theory Dl_Registry
  imports Prelude
begin

text \<open>
  The handles of the dynamic loader (\<^verbatim>\<open>src/src/dlfcn.rs\<close>): a registry with a count of the opens of each handle, under one mutex, and
  the kinds of handles that \<^verbatim>\<open>dlsym\<close> distinguishes.
\<close>

definition TRACKABLE_NULL_HANDLE_ID :: addr where "TRACKABLE_NULL_HANDLE_ID = 0"
definition INTERNAL_MAIN_PROGRAM_HANDLE_ID :: addr where "INTERNAL_MAIN_PROGRAM_HANDLE_ID = USIZE_MAX - 2"
definition INTERNAL_PROC_SELF_EXE_HANDLE_ID :: addr where "INTERNAL_PROC_SELF_EXE_HANDLE_ID = USIZE_MAX - 1"
definition RTLD_NEXT :: addr where "RTLD_NEXT = USIZE_MAX"

datatype CloseOutcome = Success | AlreadyClosed | InvalidHandle

datatype DlHandleState = Open nat | Closed

record DlHandleRegistry =
  handles :: "addr \<rightharpoonup> DlHandleState"
  internal_handles :: "addr set"
  main_program_handles :: "addr set"
  next_handle_id :: addr

datatype DlsymHandleKind = Default | Next | MainProgram | Internal | External

definition dl_registry_new :: DlHandleRegistry where
  "dl_registry_new = \<lparr>handles = Map.empty, internal_handles = {}, main_program_handles = {}, next_handle_id = 1\<rparr>"

definition set_handle_origin :: "addr \<Rightarrow> bool \<Rightarrow> bool \<Rightarrow> DlHandleRegistry \<Rightarrow> DlHandleRegistry" where
  "set_handle_origin h is_internal is_main_program r =
     r\<lparr>internal_handles := (if is_internal then insert h (internal_handles r) else internal_handles r - {h}),
       main_program_handles := (if is_main_program then insert h (main_program_handles r) else main_program_handles r - {h})\<rparr>"

definition clear_trackable_null_handle_entry :: "DlHandleRegistry \<Rightarrow> DlHandleRegistry" where
  "clear_trackable_null_handle_entry r =
     r\<lparr>handles := (handles r)(TRACKABLE_NULL_HANDLE_ID := None), internal_handles := internal_handles r - {TRACKABLE_NULL_HANDLE_ID},
       main_program_handles := main_program_handles r - {TRACKABLE_NULL_HANDLE_ID}\<rparr>"

text \<open>One more open of an entry that exists.\<close>

definition reopened :: "DlHandleState \<Rightarrow> DlHandleState" where
  "reopened st = (case st of Open refcount \<Rightarrow> Open (saturating_add refcount 1) | Closed \<Rightarrow> Open 1)"

definition register_open_handle_with_origin :: "addr \<Rightarrow> bool \<Rightarrow> bool \<Rightarrow> DlHandleRegistry \<Rightarrow> DlHandleRegistry" where
  "register_open_handle_with_origin h is_internal is_main_program r =
     (let r = clear_trackable_null_handle_entry r in
      if h = null then r
      else if is_internal then
        (case handles r h of
           Some st \<Rightarrow> set_handle_origin h True is_main_program (r\<lparr>handles := (handles r)(h \<mapsto> reopened st)\<rparr>)
         | None \<Rightarrow> (let r = set_handle_origin h True is_main_program r in r\<lparr>handles := (handles r)(h \<mapsto> Open 1)\<rparr>))
      else
        case checked_add h 1 of
          None \<Rightarrow>
            (case handles r h of
               Some st \<Rightarrow> set_handle_origin h False is_main_program (r\<lparr>handles := (handles r)(h \<mapsto> reopened st)\<rparr>)
             | None \<Rightarrow> r)
        | Some next_after_handle \<Rightarrow>
            (let r = r\<lparr>next_handle_id := max (next_handle_id r) next_after_handle\<rparr> in
             case handles r h of
               Some (Open refcount) \<Rightarrow>
                 set_handle_origin h False is_main_program (r\<lparr>handles := (handles r)(h \<mapsto> Open (saturating_add refcount 1))\<rparr>)
             | _ \<Rightarrow> (let r = set_handle_origin h False is_main_program r in r\<lparr>handles := (handles r)(h \<mapsto> Open 1)\<rparr>)))"

definition register_open_handle :: "addr \<Rightarrow> DlHandleRegistry \<Rightarrow> DlHandleRegistry" where
  "register_open_handle h = register_open_handle_with_origin h False False"

definition register_open_internal_handle :: "addr \<Rightarrow> DlHandleRegistry \<Rightarrow> DlHandleRegistry" where
  "register_open_internal_handle h = register_open_handle_with_origin h True False"

definition register_open_main_program_handle :: "addr \<Rightarrow> DlHandleRegistry \<Rightarrow> DlHandleRegistry" where
  "register_open_main_program_handle h = register_open_handle_with_origin h (h = INTERNAL_MAIN_PROGRAM_HANDLE_ID) True"

definition close_handle :: "addr \<Rightarrow> DlHandleRegistry \<Rightarrow> CloseOutcome \<times> DlHandleRegistry" where
  "close_handle h r =
     (let r = clear_trackable_null_handle_entry r in
      if h = TRACKABLE_NULL_HANDLE_ID then (InvalidHandle, r)
      else case handles r h of
             None \<Rightarrow> (InvalidHandle, r)
           | Some (Open refcount) \<Rightarrow>
               if refcount > 1 then (Success, r\<lparr>handles := (handles r)(h \<mapsto> Open (refcount - 1))\<rparr>)
               else (Success, r\<lparr>handles := (handles r)(h \<mapsto> Closed)\<rparr>)
           | Some Closed \<Rightarrow> (AlreadyClosed, r))"

text \<open>\<^verbatim>\<open>validate_dlsym_handle\<close>: no error, or the outcome whose message is reported.\<close>

definition validate_dlsym_handle :: "addr \<Rightarrow> DlHandleRegistry \<Rightarrow> CloseOutcome" where
  "validate_dlsym_handle h r = (case handles r h of Some (Open _) \<Rightarrow> Success | Some Closed \<Rightarrow> AlreadyClosed | None \<Rightarrow> InvalidHandle)"

definition is_open :: "addr \<Rightarrow> DlHandleRegistry \<Rightarrow> bool" where
  "is_open h r \<longleftrightarrow> (case handles r h of Some (Open _) \<Rightarrow> True | _ \<Rightarrow> False)"

definition is_internal_open_handle :: "addr \<Rightarrow> DlHandleRegistry \<Rightarrow> bool" where
  "is_internal_open_handle h r \<longleftrightarrow> is_open h r \<and> h \<in> internal_handles r"

definition is_main_program_open_handle :: "addr \<Rightarrow> DlHandleRegistry \<Rightarrow> bool" where
  "is_main_program_open_handle h r \<longleftrightarrow> is_open h r \<and> h \<in> main_program_handles r"

definition classify_dlsym_handle :: "addr \<Rightarrow> DlHandleRegistry \<Rightarrow> CloseOutcome + DlsymHandleKind" where
  "classify_dlsym_handle h r =
     (if h = null then Inr Default
      else if h = RTLD_NEXT then Inr Next
      else if validate_dlsym_handle h r \<noteq> Success then Inl (validate_dlsym_handle h r)
      else Inr (if is_main_program_open_handle h r then MainProgram else if is_internal_open_handle h r then Internal else External))"

section \<open>Counting opens\<close>

text \<open>The count the registry has of a handle: none when it was never opened.\<close>

definition open_count :: "DlHandleRegistry \<Rightarrow> addr \<Rightarrow> nat option" where
  "open_count r h = (case handles r h of None \<Rightarrow> None | Some Closed \<Rightarrow> Some 0 | Some (Open n) \<Rightarrow> Some n)"

definition opens :: "addr \<Rightarrow> (addr \<Rightarrow> nat option) \<Rightarrow> addr \<Rightarrow> nat option" where
  "opens h c = c(h := Some (case c h of None \<Rightarrow> 1 | Some n \<Rightarrow> Suc n))"

definition closes :: "addr \<Rightarrow> (addr \<Rightarrow> nat option) \<Rightarrow> addr \<Rightarrow> nat option" where
  "closes h c = c(h := (case c h of None \<Rightarrow> None | Some n \<Rightarrow> Some (n - 1)))"

definition outcome_of :: "nat option \<Rightarrow> CloseOutcome" where
  "outcome_of n = (case n of None \<Rightarrow> InvalidHandle | Some 0 \<Rightarrow> AlreadyClosed | Some (Suc _) \<Rightarrow> Success)"

text \<open>Null is never an entry, open entries have a positive count, and origins are known only of entries.\<close>

definition dl_registry_ok :: "DlHandleRegistry \<Rightarrow> bool" where
  "dl_registry_ok r \<longleftrightarrow> handles r null = None \<and> (\<forall>h n. handles r h = Some (Open n) \<longrightarrow> 0 < n \<and> n \<le> USIZE_MAX) \<and>
     internal_handles r \<union> main_program_handles r \<subseteq> dom (handles r) \<and> (\<forall>h \<in> dom (handles r). h < USIZE_MAX)"

lemma dl_registry_ok_new: "dl_registry_ok dl_registry_new" "open_count dl_registry_new = Map.empty"
  by (auto simp: dl_registry_ok_def dl_registry_new_def open_count_def)

lemma clear_null [simp]: "dl_registry_ok r \<Longrightarrow> clear_trackable_null_handle_entry r = r"
proof -
  assume r: "dl_registry_ok r"
  then have "null \<notin> internal_handles r" "null \<notin> main_program_handles r" "(handles r)(null := None) = handles r"
    by (auto simp: dl_registry_ok_def fun_upd_idem)
  then show "clear_trackable_null_handle_entry r = r"
    by (simp add: clear_trackable_null_handle_entry_def TRACKABLE_NULL_HANDLE_ID_def)
qed

lemma registered_handles:
  assumes "dl_registry_ok r" "h \<noteq> null" "h < USIZE_MAX" "open_count r h \<noteq> Some USIZE_MAX"
  shows "handles (register_open_handle_with_origin h i m r) = (handles r)(h \<mapsto> Open (case open_count r h of None \<Rightarrow> 1 | Some n \<Rightarrow> Suc n))"
    "internal_handles (register_open_handle_with_origin h i m r) = (if i then insert h (internal_handles r) else internal_handles r - {h})"
    "main_program_handles (register_open_handle_with_origin h i m r) = (if m then insert h (main_program_handles r) else main_program_handles r - {h})"
proof -
  have small: "min (Suc n) USIZE_MAX = Suc n" if "handles r h = Some (Open n)" for n
    using that assms(1,4) by (force simp: open_count_def dl_registry_ok_def)
  show "internal_handles (register_open_handle_with_origin h i m r) = (if i then insert h (internal_handles r) else internal_handles r - {h})"
    "main_program_handles (register_open_handle_with_origin h i m r) = (if m then insert h (main_program_handles r) else main_program_handles r - {h})"
    using assms(1-3) by (auto simp: register_open_handle_with_origin_def set_handle_origin_def checked_add_def Let_def
        split: option.split DlHandleState.split)
  show "handles (register_open_handle_with_origin h i m r) = (handles r)(h \<mapsto> Open (case open_count r h of None \<Rightarrow> 1 | Some n \<Rightarrow> Suc n))"
    using assms(1-3) small by (auto simp: register_open_handle_with_origin_def set_handle_origin_def checked_add_def Let_def open_count_def
        reopened_def saturating_add_def split: option.split DlHandleState.split)
qed

lemma register_counts:
  assumes "dl_registry_ok r" "h \<noteq> null" "h < USIZE_MAX" "\<And>n. open_count r h = Some n \<Longrightarrow> n < USIZE_MAX"
  shows "dl_registry_ok (register_open_handle_with_origin h i m r)"
    "open_count (register_open_handle_with_origin h i m r) = opens h (open_count r)"
proof -
  have "open_count r h \<noteq> Some USIZE_MAX" using assms(4) by blast
  note f = registered_handles [OF assms(1-3) this, of i m]
  have "(case open_count r h of None \<Rightarrow> 1 | Some n \<Rightarrow> Suc n) \<le> USIZE_MAX"
    using assms(4) by (auto simp: Suc_le_eq USIZE_MAX_def split: option.split)
  then show "dl_registry_ok (register_open_handle_with_origin h i m r)"
    using assms(1-3) unfolding dl_registry_ok_def f by (auto split: option.split)
  show "open_count (register_open_handle_with_origin h i m r) = opens h (open_count r)"
    by (rule ext) (simp add: opens_def open_count_def f split: option.split DlHandleState.split)
qed

lemma close_counts:
  assumes "dl_registry_ok r"
  shows "fst (close_handle h r) = outcome_of (open_count r h)" "dl_registry_ok (snd (close_handle h r))"
    "open_count (snd (close_handle h r)) = closes h (open_count r)"
proof -
  have null: "handles r null = None" and pos: "\<And>n. handles r h = Some (Open n) \<Longrightarrow> 0 < n" using assms by (auto simp: dl_registry_ok_def)
  have "fst (close_handle h r) = outcome_of (open_count r h) \<and> dl_registry_ok (snd (close_handle h r)) \<and>
      open_count (snd (close_handle h r)) = closes h (open_count r)"
  proof (cases "handles r h")
    case None
    then have "close_handle h r = (InvalidHandle, r)" using assms by (auto simp: close_handle_def Let_def)
    then show ?thesis using None assms by (auto simp: outcome_of_def open_count_def closes_def fun_eq_iff)
  next
    case (Some st)
    then have h: "h \<noteq> TRACKABLE_NULL_HANDLE_ID" using null by (metis TRACKABLE_NULL_HANDLE_ID_def option.distinct(1))
    show ?thesis
    proof (cases st)
      case Closed
      then have "close_handle h r = (AlreadyClosed, r)" using assms Some h by (simp add: close_handle_def)
      then show ?thesis using Some Closed assms by (auto simp: outcome_of_def open_count_def closes_def fun_eq_iff)
    next
      case (Open n)
      then have n: "0 < n" "n \<le> USIZE_MAX" using pos Some assms by (auto simp: dl_registry_ok_def)
      have run: "close_handle h r = (Success, r\<lparr>handles := (handles r)(h \<mapsto> if n > 1 then Open (n - 1) else Closed)\<rparr>)"
        using assms Some h Open by (simp add: close_handle_def)
      have "outcome_of (Some n) = Success" using n by (cases n) (simp_all add: outcome_of_def)
      moreover have "dl_registry_ok (r\<lparr>handles := (handles r)(h \<mapsto> if n > 1 then Open (n - 1) else Closed)\<rparr>)"
        using assms Some n null by (auto simp: dl_registry_ok_def)
      ultimately show ?thesis using n Some Open unfolding run by (auto simp: open_count_def closes_def fun_eq_iff)
    qed
  qed
  then show "fst (close_handle h r) = outcome_of (open_count r h)" "dl_registry_ok (snd (close_handle h r))"
    "open_count (snd (close_handle h r)) = closes h (open_count r)" by simp_all
qed

lemma validate_counts: "dl_registry_ok r \<Longrightarrow> validate_dlsym_handle h r = outcome_of (open_count r h)"
proof -
  assume "dl_registry_ok r"
  then have "\<And>n. handles r h = Some (Open n) \<Longrightarrow> 0 < n" by (auto simp: dl_registry_ok_def)
  then show "validate_dlsym_handle h r = outcome_of (open_count r h)"
    by (cases "handles r h") (auto simp: validate_dlsym_handle_def outcome_of_def open_count_def split: DlHandleState.split nat.split)
qed

end
