(* ===== verification/Rust_Text.thy ===== *)
theory Rust_Text
  imports Utf8
begin

text \<open>
  Rust's strings as lists of code points, and the methods of \<^verbatim>\<open>str\<close> and of the integer types that the code uses.
\<close>

section \<open>Rust strings\<close>

type_synonym str = "int list"

definition str_of :: "string \<Rightarrow> str" where
  "str_of s = map of_char s"

definition utf8_bytes :: "str \<Rightarrow> u8 list" where
  "utf8_bytes s = concat (map utf8_of s)"

text \<open>
  \<^verbatim>\<open>to_string_lossy\<close>: well-formed sequences are decoded, and every longest beginning of one that is not completed, or byte that begins none,
  becomes a replacement character.
\<close>

definition REPLACEMENT_CHARACTER :: int where "REPLACEMENT_CHARACTER = 0xFFFD"

definition broken_length :: "int list \<Rightarrow> nat" where
  "broken_length xs = (if pfx_seq (take 3 xs) then length (take 3 xs) else if pfx_seq (take 2 xs) then length (take 2 xs) else 1)"

definition sequence_length :: "int list \<Rightarrow> nat option" where
  "sequence_length xs = find (\<lambda>k. k \<le> length xs \<and> wf_seq (take k xs)) [1, 2, 3, 4]"

function lossy_decode :: "int list \<Rightarrow> str" where
  "lossy_decode xs =
     (if xs = [] then []
      else case sequence_length xs of
             Some k \<Rightarrow> scalar_of (take k xs) # lossy_decode (drop k xs)
           | None \<Rightarrow> REPLACEMENT_CHARACTER # lossy_decode (drop (broken_length xs) xs))"
  by pat_completeness auto
termination
  by (relation "measure length")
    (auto simp: sequence_length_def broken_length_def find_Some_iff less_Suc_eq_0_disj nth_Cons' split: if_splits)

declare lossy_decode.simps [simp del]

definition to_string_lossy :: "u8 list \<Rightarrow> str" where
  "to_string_lossy bs = lossy_decode (map uint bs)"

definition is_whitespace :: "int \<Rightarrow> bool" where
  "is_whitespace c \<longleftrightarrow> 9 \<le> c \<and> c \<le> 13 \<or> c = 32 \<or> c = 0x85 \<or> c = 0xA0 \<or> c = 0x1680 \<or> 0x2000 \<le> c \<and> c \<le> 0x200A \<or>
     c \<in> {0x2028, 0x2029, 0x202F, 0x205F, 0x3000}"

definition trim_start :: "str \<Rightarrow> str" where
  "trim_start s = dropWhile is_whitespace s"

definition trim :: "str \<Rightarrow> str" where
  "trim s = rev (dropWhile is_whitespace (rev (trim_start s)))"

definition strip_prefix :: "str \<Rightarrow> str \<Rightarrow> str option" where
  "strip_prefix p s = (if take (length p) s = p then Some (drop (length p) s) else None)"

definition COLON :: int where "COLON = 58"

lemma strip_prefix_Some: "strip_prefix p s = Some r \<longleftrightarrow> s = p @ r"
  unfolding strip_prefix_def by (metis append_eq_conv_conj append_take_drop_id option.inject option.simps(3))

lemma strip_prefix_None: "strip_prefix p s = None \<longleftrightarrow> (\<forall>r. s \<noteq> p @ r)"
  by (metis not_None_eq strip_prefix_Some)

lemma trim_start_length: "length (trim_start s) \<le> length s"
  by (simp add: trim_start_def length_dropWhile_le)

text \<open>\<^verbatim>\<open>str::from_utf8\<close>.\<close>

function from_utf8_loop :: "int list \<Rightarrow> str option" where
  "from_utf8_loop xs =
     (if xs = [] then Some []
      else case sequence_length xs of
             Some k \<Rightarrow> map_option ((#) (scalar_of (take k xs))) (from_utf8_loop (drop k xs))
           | None \<Rightarrow> None)"
  by pat_completeness auto
termination
  by (relation "measure length")
    (auto simp: sequence_length_def find_Some_iff less_Suc_eq_0_disj nth_Cons' split: if_splits)

declare from_utf8_loop.simps [simp del]

definition from_utf8 :: "u8 list \<Rightarrow> str option" where
  "from_utf8 bs = from_utf8_loop (map uint bs)"

text \<open>Splitting: \<^verbatim>\<open>split\<close> on a character, \<^verbatim>\<open>lines\<close>, \<^verbatim>\<open>split_whitespace\<close>, \<^verbatim>\<open>split_once\<close>.\<close>

fun split_on :: "'a \<Rightarrow> 'a list \<Rightarrow> 'a list list" where
  "split_on c [] = [[]]"
| "split_on c (b # bs) =
     (if b = c then [] # split_on c bs
      else case split_on c bs of [] \<Rightarrow> [[b]] | w # ws \<Rightarrow> (b # w) # ws)"

definition str_lines :: "str \<Rightarrow> str list" where
  "str_lines s =
     (let pieces = split_on 10 s;
          ended = map (\<lambda>l. if l \<noteq> [] \<and> last l = 13 then butlast l else l) (butlast pieces) in
      if last pieces = [] then ended else ended @ [last pieces])"

fun split_whitespace :: "str \<Rightarrow> str list" where
  "split_whitespace [] = []"
| "split_whitespace (c # s) =
     (if is_whitespace c then split_whitespace s
      else case s of
             [] \<Rightarrow> [[c]]
           | d # _ \<Rightarrow>
               if is_whitespace d then [c] # split_whitespace s
               else case split_whitespace s of [] \<Rightarrow> [[c]] | w # ws \<Rightarrow> (c # w) # ws)"

definition split_once :: "int \<Rightarrow> str \<Rightarrow> (str \<times> str) option" where
  "split_once c s = (if c \<in> set s then Some (takeWhile (\<lambda>x. x \<noteq> c) s, drop (Suc (length (takeWhile (\<lambda>x. x \<noteq> c) s))) s) else None)"

definition trim_end_matches :: "int \<Rightarrow> str \<Rightarrow> str" where
  "trim_end_matches c s = rev (dropWhile (\<lambda>x. x = c) (rev s))"

definition to_ascii_lowercase :: "int \<Rightarrow> int" where
  "to_ascii_lowercase c = (if 65 \<le> c \<and> c \<le> 90 then c + 32 else c)"

definition eq_ignore_ascii_case :: "str \<Rightarrow> str \<Rightarrow> bool" where
  "eq_ignore_ascii_case a b \<longleftrightarrow> map to_ascii_lowercase a = map to_ascii_lowercase b"

section \<open>Numbers\<close>

definition to_digit :: "nat \<Rightarrow> int \<Rightarrow> nat option" where
  "to_digit radix c =
     (let d = (if 48 \<le> c \<and> c \<le> 57 then nat (c - 48)
               else if 97 \<le> c \<and> c \<le> 122 then nat (c - 87)
               else if 65 \<le> c \<and> c \<le> 90 then nat (c - 55) else radix) in
      if d < radix then Some d else None)"

definition is_digit :: "nat \<Rightarrow> int \<Rightarrow> bool" where
  "is_digit radix c \<longleftrightarrow> to_digit radix c \<noteq> None"

text \<open>\<^verbatim>\<open>from_str_radix\<close> of an unsigned type with the largest value \<open>limit\<close>; \<^verbatim>\<open>parse\<close> is the one of radix 10.\<close>

primrec radix_loop :: "nat \<Rightarrow> nat \<Rightarrow> nat \<Rightarrow> str \<Rightarrow> nat option" where
  "radix_loop radix limit v [] = Some v"
| "radix_loop radix limit v (c # s) =
     (case to_digit radix c of
        None \<Rightarrow> None
      | Some d \<Rightarrow> if v * radix + d \<le> limit then radix_loop radix limit (v * radix + d) s else None)"

definition from_str_radix :: "nat \<Rightarrow> nat \<Rightarrow> str \<Rightarrow> nat option" where
  "from_str_radix limit radix s =
     (let digits = (case s of c # t \<Rightarrow> if c = 43 \<and> t \<noteq> [] then t else s | [] \<Rightarrow> s) in
      if digits = [] then None else radix_loop radix limit 0 digits)"

text \<open>Printing in a radix, with lower-case letters and without leading zeros.\<close>

definition digit_char :: "nat \<Rightarrow> int" where
  "digit_char d = (if d < 10 then 48 + int d else 87 + int d)"

function radix_text :: "nat \<Rightarrow> nat \<Rightarrow> str" where
  "radix_text radix n =
     (if radix < 2 \<or> n < radix then [digit_char n] else radix_text radix (n div radix) @ [digit_char (n mod radix)])"
  by pat_completeness auto
termination
  by (relation "measure snd") auto

declare radix_text.simps [simp del]

definition digits_value :: "nat \<Rightarrow> str \<Rightarrow> nat" where
  "digits_value radix s = foldl (\<lambda>v c. v * radix + the (to_digit radix c)) 0 s"

lemma to_digit_char: "d < radix \<Longrightarrow> radix \<le> 16 \<Longrightarrow> to_digit radix (digit_char d) = Some d"
  by (auto simp: to_digit_def digit_char_def)

lemma is_digit_char: "d < radix \<Longrightarrow> radix \<le> 16 \<Longrightarrow> is_digit radix (digit_char d)"
  by (simp add: is_digit_def to_digit_char)

lemma radix_text_digits: "2 \<le> radix \<Longrightarrow> radix \<le> 16 \<Longrightarrow> \<forall>c\<in>set (radix_text radix n). is_digit radix c"
proof (induction radix n rule: radix_text.induct)
  case (1 radix n)
  show ?case
  proof (cases "n < radix")
    case False
    then have "n mod radix < radix" using 1 by simp
    then show ?thesis using 1 False by (auto simp: radix_text.simps [of radix n] is_digit_char)
  qed (use 1 in \<open>simp add: radix_text.simps [of radix n] is_digit_char\<close>)
qed

lemma radix_text_nonempty [simp]: "radix_text radix n \<noteq> []"
  by (simp add: radix_text.simps [of radix n])

lemma digits_value_snoc: "digits_value radix (s @ [c]) = digits_value radix s * radix + the (to_digit radix c)"
  by (simp add: digits_value_def)

lemma digits_value_text: "2 \<le> radix \<Longrightarrow> radix \<le> 16 \<Longrightarrow> digits_value radix (radix_text radix n) = n"
proof (induction radix n rule: radix_text.induct)
  case (1 radix n)
  show ?case
  proof (cases "n < radix")
    case False
    then have "n mod radix < radix" using 1 by simp
    then show ?thesis using 1 False by (simp add: radix_text.simps [of radix n] digits_value_snoc to_digit_char)
  qed (use 1 in \<open>simp add: radix_text.simps [of radix n] digits_value_def to_digit_char\<close>)
qed

lemma radix_text_length: "2 \<le> radix \<Longrightarrow> 0 < k \<Longrightarrow> n < radix ^ k \<Longrightarrow> length (radix_text radix n) \<le> k"
proof (induction radix n arbitrary: k rule: radix_text.induct)
  case (1 radix n)
  show ?case
  proof (cases "n < radix")
    case False
    obtain j where j: "k = Suc j" using 1(3) by (cases k) auto
    moreover have "0 < j" using 1(4) False j by (cases j) auto
    ultimately have k: "k = Suc j" "0 < j" .
    then have "n div radix < radix ^ j" using 1 by (simp add: less_mult_imp_div_less mult.commute)
    then show ?thesis using 1 False k by (simp add: radix_text.simps [of radix n])
  qed (use 1 in \<open>simp add: radix_text.simps [of radix n]\<close>)
qed

text \<open>A leading zero is only the number zero.\<close>

lemma radix_text_head: "2 \<le> radix \<Longrightarrow> radix \<le> 16 \<Longrightarrow> hd (radix_text radix n) = 48 \<Longrightarrow> n = 0"
proof (induction radix n rule: radix_text.induct)
  case (1 radix n)
  show ?case
  proof (cases "n < radix")
    case True
    then show ?thesis using 1 by (simp add: radix_text.simps [of radix n] digit_char_def split: if_splits)
  next
    case False
    then have "n div radix = 0" using 1 by (simp add: radix_text.simps [of radix n])
    then show ?thesis using False 1 by (auto simp: div_eq_0_iff)
  qed
qed

lemma radix_text_zero: "2 \<le> radix \<Longrightarrow> radix_text radix 0 = [48]"
  by (simp add: radix_text.simps [of radix 0] digit_char_def)

lemma radix_loop_value:
  "0 < radix \<Longrightarrow> v \<le> limit \<Longrightarrow> radix_loop radix limit v s =
    (let w = foldl (\<lambda>v c. v * radix + the (to_digit radix c)) v s in if (\<forall>c\<in>set s. is_digit radix c) \<and> w \<le> limit then Some w else None)"
proof (induction s arbitrary: v)
  case (Cons c s)
  have grows: "v \<le> foldl (\<lambda>v c. v * radix + the (to_digit radix c)) v s" for v s
  proof (induction s arbitrary: v)
    case (Cons c s)
    have "v \<le> v * radix + the (to_digit radix c)" using \<open>0 < radix\<close> by (simp add: trans_le_add1)
    also note Cons [of "v * radix + the (to_digit radix c)"]
    finally show ?case by simp
  qed simp
  show ?case
  proof (cases "to_digit radix c")
    case (Some d)
    then show ?thesis using Cons grows [of "v * radix + d" s] by (auto simp: Let_def is_digit_def dest: order_trans)
  qed (simp add: is_digit_def)
qed simp

lemma from_str_radix_value:
  assumes "0 < radix" "s \<noteq> []" "\<forall>c\<in>set s. is_digit radix c"
  shows "from_str_radix limit radix s = (if digits_value radix s \<le> limit then Some (digits_value radix s) else None)"
proof -
  have "\<not> is_digit radix 43" by (simp add: is_digit_def to_digit_def)
  then have "hd s \<noteq> 43" using assms(2,3) by (cases s) auto
  then have "(case s of c # t \<Rightarrow> if c = 43 \<and> t \<noteq> [] then t else s | [] \<Rightarrow> s) = s" by (cases s) auto
  then show ?thesis using radix_loop_value [OF assms(1), of 0 limit s] assms(2,3)
    by (simp add: from_str_radix_def Let_def digits_value_def)
qed

lemma from_str_radix_chars: "0 < radix \<Longrightarrow> from_str_radix limit radix s = Some v \<Longrightarrow> c \<in> set s \<Longrightarrow> c = 43 \<or> is_digit radix c"
  using radix_loop_value [of radix 0 limit s] radix_loop_value [of radix 0 limit "tl s"]
  by (cases s) (auto simp: from_str_radix_def Let_def split: if_splits)

end
