(* ===== verification/Dl_Message.thy ===== *)
theory Dl_Message
  imports Rust_Text
begin

text \<open>
  The messages of the dynamic loader (\<^verbatim>\<open>src/src/dlfcn.rs\<close>): the diagnostics of \<^verbatim>\<open>dlsym\<close> with the normalised detail of the host, and the message a thread has pending for \<^verbatim>\<open>dlerror\<close>.
\<close>

section \<open>Details of the host\<close>

function collapse_colons :: "str \<Rightarrow> str" where
  "collapse_colons s = (case strip_prefix [COLON] (trim_start s) of Some rest \<Rightarrow> collapse_colons rest | None \<Rightarrow> s)"
  by pat_completeness auto
termination
proof (relation "measure length")
  fix s rest
  assume "strip_prefix [COLON] (trim_start s) = Some rest"
  then have "length (trim_start s) = Suc (length rest)" by (simp add: strip_prefix_Some)
  then show "(rest, s) \<in> measure length" using trim_start_length [of s] by simp
qed simp

declare collapse_colons.simps [simp del]

lemma collapse_colons_length: "length (collapse_colons s) \<le> length s"
proof (induction s rule: collapse_colons.induct)
  case (1 s)
  show ?case
  proof (cases "strip_prefix [COLON] (trim_start s)")
    case (Some rest)
    then have "length (trim_start s) = Suc (length rest)" by (simp add: strip_prefix_Some)
    then show ?thesis using 1 [OF Some] Some trim_start_length [of s] by (simp add: collapse_colons.simps [of s])
  qed (simp add: collapse_colons.simps [of s])
qed

lemma collapsed_shorter:
  assumes "strip_prefix l s = Some after" "strip_prefix [COLON] (trim_start after) = Some sep"
  shows "length (trim_start (collapse_colons sep)) < length s"
proof -
  have "length after \<le> length s" "length (trim_start after) = Suc (length sep)" using assms by (auto simp: strip_prefix_Some)
  then show ?thesis using trim_start_length [of after] collapse_colons_length [of sep] trim_start_length [of "collapse_colons sep"] by simp
qed

function normalize_loop :: "str \<Rightarrow> str \<Rightarrow> str option" where
  "normalize_loop symbol_label normalized =
     (case strip_prefix symbol_label normalized of
        None \<Rightarrow> Some normalized
      | Some after_symbol \<Rightarrow>
          (let after_symbol = trim_start after_symbol in
           if after_symbol = [] then None
           else case strip_prefix [COLON] after_symbol of
                  None \<Rightarrow> Some normalized
                | Some after_separator \<Rightarrow>
                    (let collapsed = trim_start (collapse_colons after_separator) in
                     if collapsed = [] then None else normalize_loop symbol_label collapsed)))"
  by pat_completeness auto
termination
  by (relation "measure (\<lambda>(l, s). length s)") (auto intro: collapsed_shorter)

declare normalize_loop.simps [simp del]

definition normalize_dlsym_missing_symbol_detail :: "str \<Rightarrow> str \<Rightarrow> str option" where
  "normalize_dlsym_missing_symbol_detail symbol_label detail =
     (let trimmed_detail = trim detail in
      if trimmed_detail = [] then None else normalize_loop symbol_label trimmed_detail)"

section \<open>What the normalised detail looks like\<close>

definition trimmed :: "str \<Rightarrow> bool" where
  "trimmed s \<longleftrightarrow> s \<noteq> [] \<and> \<not> is_whitespace (hd s) \<and> \<not> is_whitespace (last s)"

text \<open>Whether a message starts with the label and a colon, with white space between them.\<close>

definition repeats_label :: "str \<Rightarrow> str \<Rightarrow> bool" where
  "repeats_label l s \<longleftrightarrow> (\<exists>ws r. (\<forall>c\<in>set ws. is_whitespace c) \<and> s = l @ ws @ COLON # r)"

text \<open>What is taken away: copies of the label, colons and white space.\<close>

inductive filler :: "str \<Rightarrow> str \<Rightarrow> bool" for l where
  filler_nil [intro]: "filler l []"
| filler_label: "filler l xs \<Longrightarrow> filler l (l @ xs)"
| filler_colon [intro]: "filler l xs \<Longrightarrow> filler l (COLON # xs)"
| filler_white: "is_whitespace c \<Longrightarrow> filler l xs \<Longrightarrow> filler l (c # xs)"

lemma filler_append: "filler l xs \<Longrightarrow> filler l ys \<Longrightarrow> filler l (xs @ ys)"
  by (induction rule: filler.induct) (auto intro: filler.intros)

lemma filler_blank: "\<forall>c\<in>set ws. is_whitespace c \<Longrightarrow> filler l ws"
  by (induction ws) (auto intro: filler.intros)

lemma colon_not_white: "\<not> is_whitespace COLON"
  by (simp add: is_whitespace_def COLON_def)

lemma trim_start_head: "trim_start s \<noteq> [] \<Longrightarrow> \<not> is_whitespace (hd (trim_start s))"
  unfolding trim_start_def by (rule hd_dropWhile)

lemma trim_start_suffix: "\<exists>ws. (\<forall>c\<in>set ws. is_whitespace c) \<and> s = ws @ trim_start s"
  by (intro exI [of _ "takeWhile is_whitespace s"]) (auto simp: trim_start_def dest: set_takeWhileD)

lemma repeats_label_iff:
  "repeats_label l s \<longleftrightarrow> (\<exists>after sep. strip_prefix l s = Some after \<and> strip_prefix [COLON] (trim_start after) = Some sep)"
proof
  assume "repeats_label l s"
  then obtain ws r where ws: "\<forall>c\<in>set ws. is_whitespace c" "s = l @ ws @ COLON # r" by (auto simp: repeats_label_def)
  then have "trim_start (ws @ COLON # r) = COLON # r"
    by (simp add: trim_start_def dropWhile_append2 colon_not_white)
  then show "\<exists>after sep. strip_prefix l s = Some after \<and> strip_prefix [COLON] (trim_start after) = Some sep"
    using ws(2) by (auto simp: strip_prefix_Some)
next
  assume "\<exists>after sep. strip_prefix l s = Some after \<and> strip_prefix [COLON] (trim_start after) = Some sep"
  then obtain after sep where "s = l @ after" "trim_start after = COLON # sep" by (auto simp: strip_prefix_Some)
  then show "repeats_label l s" using trim_start_suffix [of after] by (auto simp: repeats_label_def)
qed

lemma trimmed_suffix: "trimmed (xs @ ys) \<Longrightarrow> ys \<noteq> [] \<Longrightarrow> \<not> is_whitespace (hd ys) \<Longrightarrow> trimmed ys"
  by (simp add: trimmed_def)

lemma trim_start_filler: "\<exists>ws. filler l ws \<and> s = ws @ trim_start s"
  using trim_start_suffix [of s] filler_blank by blast

lemma collapse_colons_filler: "\<exists>xs. filler l xs \<and> s = xs @ collapse_colons s"
proof (induction s rule: collapse_colons.induct)
  case (1 s)
  show ?case
  proof (cases "strip_prefix [COLON] (trim_start s)")
    case (Some rest)
    obtain ws where ws: "filler l ws" "s = ws @ trim_start s" using trim_start_filler by blast
    obtain xs where xs: "filler l xs" "rest = xs @ collapse_colons rest" using 1 [OF Some] by blast
    have "trim_start s = COLON # rest" using Some by (simp add: strip_prefix_Some)
    with ws(2) xs(2) have "s = ws @ COLON # xs @ collapse_colons rest" by (metis append_Cons)
    moreover have "collapse_colons s = collapse_colons rest" using Some by (simp add: collapse_colons.simps [of s])
    ultimately have "s = (ws @ COLON # xs) @ collapse_colons s" by simp
    moreover have "filler l (ws @ COLON # xs)" using ws(1) xs(1) by (intro filler_append filler_colon)
    ultimately show ?thesis by blast
  qed (auto simp: collapse_colons.simps [of s])
qed

text \<open>One round of the loop takes filler away.\<close>

lemma normalize_round:
  assumes "strip_prefix l s = Some after" "strip_prefix [COLON] (trim_start after) = Some sep"
  shows "\<exists>xs. filler l xs \<and> s = xs @ trim_start (collapse_colons sep)"
proof -
  obtain ws where ws: "filler l ws" "after = ws @ trim_start after" using trim_start_filler by blast
  obtain xs where xs: "filler l xs" "sep = xs @ collapse_colons sep" using collapse_colons_filler by blast
  obtain ys where ys: "filler l ys" "collapse_colons sep = ys @ trim_start (collapse_colons sep)" using trim_start_filler by blast
  have "s = (l @ ws @ COLON # xs @ ys) @ trim_start (collapse_colons sep)"
    using assms ws(2) xs(2) ys(2) by (metis append_Cons append_Nil append_assoc strip_prefix_Some)
  moreover have "filler l (l @ ws @ COLON # xs @ ys)"
    using ws(1) xs(1) ys(1) by (intro filler_label filler_append filler_colon)
  ultimately show ?thesis by blast
qed

lemma normalize_loop_result:
  "normalize_loop l s = Some r \<Longrightarrow> trimmed s \<Longrightarrow>
    trimmed r \<and> (\<exists>xs. filler l xs \<and> s = xs @ r) \<and> \<not> repeats_label l r \<and> normalize_loop l r = Some r"
proof (induction l s rule: normalize_loop.induct)
  case (1 l s)
  show ?case
  proof (cases "strip_prefix l s")
    case None
    then have "normalize_loop l s = Some s" by (simp add: normalize_loop.simps [of l s])
    then show ?thesis using 1(2,3) None by (auto simp: repeats_label_iff)
  next
    case (Some after)
    have nonempty: "trim_start after \<noteq> []" using 1(2) Some by (auto simp: normalize_loop.simps [of l s])
    show ?thesis
    proof (cases "strip_prefix [COLON] (trim_start after)")
      case None
      then have "normalize_loop l s = Some s" using Some nonempty by (simp add: normalize_loop.simps [of l s])
      then show ?thesis using 1(2,3) None Some by (auto simp: repeats_label_iff)
    next
      case sep: (Some sep)
      let ?c = "trim_start (collapse_colons sep)"
      have c: "?c \<noteq> []" "normalize_loop l ?c = Some r"
        using 1(2) Some nonempty sep by (auto simp: normalize_loop.simps [of l s] Let_def split: if_splits)
      obtain xs where xs: "filler l xs" "s = xs @ ?c" using normalize_round [OF Some sep] by blast
      have "trimmed ?c" by (rule trimmed_suffix [of xs]) (use 1(3) xs(2) c(1) trim_start_head in auto)
      then have r: "trimmed r \<and> (\<exists>ys. filler l ys \<and> ?c = ys @ r) \<and> \<not> repeats_label l r \<and> normalize_loop l r = Some r"
        using 1(1) [OF Some refl nonempty sep refl c(1) c(2)] by blast
      then obtain ys where ys: "filler l ys" "?c = ys @ r" by blast
      have "s = (xs @ ys) @ r" using xs(2) ys(2) by simp
      then show ?thesis using r filler_append [OF xs(1) ys(1)] by blast
    qed
  qed
qed

lemma normalize_loop_nothing: "normalize_loop l s = None \<Longrightarrow> filler l s"
proof (induction l s rule: normalize_loop.induct)
  case (1 l s)
  obtain after where after: "strip_prefix l s = Some after" using 1(2) by (auto simp: normalize_loop.simps [of l s] split: option.splits)
  show ?case
  proof (cases "trim_start after = []")
    case True
    then have "filler l after" using trim_start_filler [of l after] by simp
    then show ?thesis using after filler_label by (auto simp: strip_prefix_Some)
  next
    case False
    then obtain sep where sep: "strip_prefix [COLON] (trim_start after) = Some sep"
      using 1(2) after by (auto simp: normalize_loop.simps [of l s] split: option.splits)
    let ?c = "trim_start (collapse_colons sep)"
    have "filler l ?c"
    proof (cases "?c = []")
      case c: False
      then have "normalize_loop l ?c = None"
        using 1(2) after False sep by (simp add: normalize_loop.simps [of l s] Let_def)
      then show ?thesis using 1(1) [OF after refl False sep refl c] by blast
    qed auto
    then show ?thesis using normalize_round [OF after sep] filler_append by metis
  qed
qed

lemma trim_trimmed: "trim d \<noteq> [] \<Longrightarrow> trimmed (trim d)"
proof -
  assume d: "trim d \<noteq> []"
  let ?s = "trim_start d"
  have s: "?s \<noteq> []" using d by (auto simp: trim_def)
  obtain ws where ws: "rev ?s = ws @ dropWhile is_whitespace (rev ?s)" by (metis takeWhile_dropWhile_id)
  then have split: "?s = trim d @ rev ws" unfolding trim_def by (metis rev_append rev_rev_ident)
  then have "hd (trim d) = hd ?s" using d by (metis hd_append2)
  moreover have "\<not> is_whitespace (last (trim d))"
    using d hd_dropWhile [of is_whitespace "rev ?s"] by (simp add: trim_def last_rev)
  ultimately show "trimmed (trim d)" using d trim_start_head [OF s] by (simp add: trimmed_def)
qed

lemma trim_of_trimmed: "trimmed s \<Longrightarrow> trim s = s"
proof -
  assume s: "trimmed s"
  then have "trim_start s = s" by (cases s) (simp_all add: trimmed_def trim_start_def)
  moreover have "dropWhile is_whitespace (rev s) = rev s"
    using s by (cases "rev s") (auto simp: trimmed_def hd_rev [symmetric])
  ultimately show "trim s = s" by (simp add: trim_def)
qed

lemma trim_empty: "trim d = [] \<longleftrightarrow> (\<forall>c\<in>set d. is_whitespace c)"
proof -
  have "trim d = [] \<longleftrightarrow> (\<forall>c\<in>set (trim_start d). is_whitespace c)" by (simp add: trim_def dropWhile_eq_Nil_conv)
  also have "\<dots> \<longleftrightarrow> (\<forall>c\<in>set d. is_whitespace c)"
    using trim_start_suffix [of d] by (metis Un_iff set_append)
  finally show ?thesis .
qed

lemma normalized_detail:
  assumes "normalize_dlsym_missing_symbol_detail l d = Some r"
  shows "trimmed r \<and> (\<exists>xs. filler l xs \<and> trim d = xs @ r) \<and> \<not> repeats_label l r \<and> normalize_dlsym_missing_symbol_detail l r = Some r"
proof -
  have d: "trim d \<noteq> []" "normalize_loop l (trim d) = Some r"
    using assms by (auto simp: normalize_dlsym_missing_symbol_detail_def Let_def split: if_splits)
  from normalize_loop_result [OF d(2) trim_trimmed [OF d(1)]] show ?thesis
    by (auto simp: normalize_dlsym_missing_symbol_detail_def trim_of_trimmed trimmed_def)
qed

lemma no_normalized_detail: "normalize_dlsym_missing_symbol_detail l d = None \<Longrightarrow> filler l (trim d)"
  using normalize_loop_nothing by (auto simp: normalize_dlsym_missing_symbol_detail_def Let_def split: if_splits)

end
