(* ===== verification/Dl_Symbols.thy ===== *)
theory Dl_Symbols
  imports Prelude
begin

text \<open>
  The symbols the library resolves by itself (\<^verbatim>\<open>src/src/dlfcn.rs\<close>): one \<^verbatim>\<open>match\<close> over names per group, in the order of its
  arms, with the path of the item whose address the arm returns.
\<close>

type_synonym symbol_table = "(string \<times> string) list"

text \<open>\<^verbatim>\<open>Option::or_else\<close>.\<close>

definition or_else :: "'a option \<Rightarrow> 'a option \<Rightarrow> 'a option" where
  "or_else x y = (case x of None \<Rightarrow> y | Some v \<Rightarrow> Some v)"

definition stdlib_io_fs_symbols :: symbol_table where
  "stdlib_io_fs_symbols =
     [(''environ'', ''stdlib::environ''), (''getenv'', ''stdlib::env::core::getenv''),
      (''setenv'', ''stdlib::env::mutating::setenv''), (''unsetenv'', ''stdlib::env::mutating::unsetenv''),
      (''putenv'', ''stdlib::env::mutating::putenv''), (''clearenv'', ''stdlib::env::mutating::clearenv''),
      (''malloc'', ''stdlib::alloc::malloc_c_abi''), (''calloc'', ''stdlib::alloc::calloc_c_abi''),
      (''aligned_alloc'', ''stdlib::alloc::aligned_alloc_c_abi''), (''posix_memalign'', ''stdlib::alloc::posix_memalign_c_abi''),
      (''memalign'', ''stdlib::alloc::memalign_c_abi''), (''valloc'', ''stdlib::alloc::valloc_c_abi''),
      (''pvalloc'', ''stdlib::alloc::pvalloc_c_abi''), (''realloc'', ''stdlib::alloc::realloc_c_abi''),
      (''reallocarray'', ''stdlib::alloc::reallocarray_c_abi''), (''free'', ''stdlib::alloc::free_c_abi''),
      (''cfree'', ''stdlib::alloc::cfree_c_abi''), (''open'', ''unistd::open''), (''openat'', ''unistd::openat''),
      (''access'', ''unistd::access''), (''unlink'', ''unistd::unlink''), (''close'', ''unistd::close''),
      (''dup'', ''unistd::dup''), (''dup2'', ''unistd::dup2''), (''dup3'', ''unistd::dup3''), (''lseek'', ''unistd::lseek''),
      (''getpid'', ''unistd::getpid''), (''getppid'', ''unistd::getppid''), (''getpgid'', ''unistd::getpgid''),
      (''getpgrp'', ''unistd::getpgrp''), (''getsid'', ''unistd::getsid''), (''gettid'', ''unistd::gettid''),
      (''getuid'', ''unistd::getuid''), (''geteuid'', ''unistd::geteuid''), (''getgid'', ''unistd::getgid''),
      (''getegid'', ''unistd::getegid''), (''isatty'', ''unistd::isatty''), (''read'', ''unistd::read''),
      (''write'', ''unistd::write''), (''send'', ''unistd::send''), (''recv'', ''unistd::recv''), (''pipe'', ''unistd::pipe''),
      (''pipe2'', ''unistd::pipe2''), (''fsync'', ''unistd::fsync''), (''fdatasync'', ''unistd::fdatasync''),
      (''sync'', ''unistd::sync''), (''syncfs'', ''unistd::syncfs''), (''fstat'', ''fs::fstat''), (''fstatat'', ''fs::fstatat''),
      (''stat'', ''fs::stat''), (''lstat'', ''fs::lstat'')]"

definition system_resource_time_symbols :: symbol_table where
  "system_resource_time_symbols =
     [(''uname'', ''system::uname''), (''gethostname'', ''system::gethostname''), (''getpagesize'', ''system::getpagesize''),
      (''sysinfo'', ''system::sysinfo''), (''sysconf'', ''system::sysconf''), (''prlimit64'', ''resource::prlimit64''),
      (''getrlimit'', ''resource::getrlimit''), (''setrlimit'', ''resource::setrlimit''),
      (''clock_gettime'', ''time::clock_gettime''), (''gettimeofday'', ''time::gettimeofday''), (''strftime'', ''time::strftime''),
      (''gmtime'', ''time::gmtime''), (''gmtime_r'', ''time::gmtime_r''), (''localtime'', ''time::localtime''),
      (''localtime_r'', ''time::localtime_r''), (''timegm'', ''time::timegm''), (''mktime'', ''time::mktime'')]"

definition net_socket_symbols :: symbol_table where
  "net_socket_symbols =
     [(''getaddrinfo'', ''netdb::getaddrinfo''), (''getnameinfo'', ''netdb::getnameinfo''),
      (''freeaddrinfo'', ''netdb::freeaddrinfo''), (''gai_strerror'', ''netdb::gai_strerror''), (''socket'', ''socket::socket''),
      (''connect'', ''socket::connect''), (''bind'', ''socket::bind''), (''listen'', ''socket::listen''),
      (''accept'', ''socket::accept'')]"

definition stdio_pthread_dlfcn_symbols :: symbol_table where
  "stdio_pthread_dlfcn_symbols =
     [(''__errno_location'', ''errno::__errno_location''), (''fclose'', ''stdio::fclose''), (''fflush'', ''stdio::fflush''),
      (''fileno'', ''stdio::fileno''), (''fileno_unlocked'', ''stdio::fileno_unlocked''), (''tmpfile'', ''stdio::tmpfile''),
      (''fopen'', ''stdio::fopen''), (''fputs'', ''stdio::fputs''), (''fread'', ''stdio::fread''),
      (''setbuffer'', ''stdio::setbuffer''), (''setbuf'', ''stdio::setbuf''), (''setlinebuf'', ''stdio::setlinebuf''),
      (''flockfile'', ''stdio::flockfile''), (''ftrylockfile'', ''stdio::ftrylockfile''), (''funlockfile'', ''stdio::funlockfile''),
      (''setvbuf'', ''stdio::setvbuf''), (''vsnprintf'', ''stdio::vsnprintf''), (''vfprintf'', ''stdio::vfprintf''),
      (''vprintf'', ''stdio::vprintf''), (''printf'', ''stdio::printf''), (''fprintf'', ''stdio::fprintf''),
      (''pthread_create'', ''pthread::pthread_create''), (''pthread_join'', ''pthread::pthread_join''),
      (''pthread_detach'', ''pthread::pthread_detach''), (''dlopen'', ''dlfcn::dlopen''), (''dlsym'', ''dlfcn::dlsym''),
      (''dlclose'', ''dlfcn::dlclose''), (''dlerror'', ''dlfcn::dlerror'')]"

definition pthread_mutex_symbols :: symbol_table where
  "pthread_mutex_symbols =
     [(''pthread_mutexattr_init'', ''pthread::pthread_mutexattr_init''),
      (''pthread_mutexattr_destroy'', ''pthread::pthread_mutexattr_destroy''),
      (''pthread_mutexattr_gettype'', ''pthread::pthread_mutexattr_gettype''),
      (''pthread_mutexattr_settype'', ''pthread::pthread_mutexattr_settype''),
      (''pthread_mutexattr_getpshared'', ''pthread::pthread_mutexattr_getpshared''),
      (''pthread_mutexattr_setpshared'', ''pthread::pthread_mutexattr_setpshared''),
      (''pthread_mutex_init'', ''pthread::pthread_mutex_init''), (''pthread_mutex_destroy'', ''pthread::pthread_mutex_destroy''),
      (''pthread_mutex_lock'', ''pthread::pthread_mutex_lock''), (''pthread_mutex_trylock'', ''pthread::pthread_mutex_trylock''),
      (''pthread_mutex_unlock'', ''pthread::pthread_mutex_unlock'')]"

definition pthread_cond_symbols :: symbol_table where
  "pthread_cond_symbols =
     [(''pthread_condattr_init'', ''pthread::pthread_condattr_init''),
      (''pthread_condattr_destroy'', ''pthread::pthread_condattr_destroy''),
      (''pthread_condattr_getpshared'', ''pthread::pthread_condattr_getpshared''),
      (''pthread_condattr_setpshared'', ''pthread::pthread_condattr_setpshared''),
      (''pthread_cond_init'', ''pthread::pthread_cond_init''), (''pthread_cond_destroy'', ''pthread::pthread_cond_destroy''),
      (''pthread_cond_wait'', ''pthread::pthread_cond_wait''), (''pthread_cond_timedwait'', ''pthread::pthread_cond_timedwait''),
      (''pthread_cond_signal'', ''pthread::pthread_cond_signal''),
      (''pthread_cond_broadcast'', ''pthread::pthread_cond_broadcast'')]"

definition pthread_rwlock_symbols :: symbol_table where
  "pthread_rwlock_symbols =
     [(''pthread_rwlock_init'', ''pthread::pthread_rwlock_init''),
      (''pthread_rwlock_destroy'', ''pthread::pthread_rwlock_destroy''),
      (''pthread_rwlock_rdlock'', ''pthread::pthread_rwlock_rdlock''),
      (''pthread_rwlock_tryrdlock'', ''pthread::pthread_rwlock_tryrdlock''),
      (''pthread_rwlock_wrlock'', ''pthread::pthread_rwlock_wrlock''),
      (''pthread_rwlock_trywrlock'', ''pthread::pthread_rwlock_trywrlock''),
      (''pthread_rwlock_unlock'', ''pthread::pthread_rwlock_unlock'')]"

definition process_and_startup_symbols :: symbol_table where
  "process_and_startup_symbols =
     [(''atexit'', ''stdlib::atexit''), (''exit'', ''stdlib::exit''), (''_Exit'', ''stdlib::_Exit''),
      (''abort'', ''stdlib::abort''), (''__libc_start_main'', ''startup::__libc_start_main'')]"

definition fenv_symbols :: symbol_table where
  "fenv_symbols =
     [(''feclearexcept'', ''fenv::feclearexcept''), (''fegetexceptflag'', ''fenv::fegetexceptflag''),
      (''feraiseexcept'', ''fenv::feraiseexcept''), (''fesetexceptflag'', ''fenv::fesetexceptflag''),
      (''fetestexcept'', ''fenv::fetestexcept''), (''fegetround'', ''fenv::fegetround''), (''fesetround'', ''fenv::fesetround''),
      (''fegetenv'', ''fenv::fegetenv''), (''feholdexcept'', ''fenv::feholdexcept''), (''fesetenv'', ''fenv::fesetenv''),
      (''feupdateenv'', ''fenv::feupdateenv'')]"

definition wchar_symbols :: symbol_table where
  "wchar_symbols =
     [(''mbrtowc'', ''wchar::mbrtowc''), (''mbrlen'', ''wchar::mbrlen''), (''mbsinit'', ''wchar::mbsinit''),
      (''wcrtomb'', ''wchar::wcrtomb''), (''mbsrtowcs'', ''wchar::mbsrtowcs''), (''wcsrtombs'', ''wchar::wcsrtombs''),
      (''mblen'', ''wchar::mblen''), (''mbtowc'', ''wchar::mbtowc''), (''wctomb'', ''wchar::wctomb''),
      (''mbstowcs'', ''wchar::mbstowcs''), (''wcstombs'', ''wchar::wcstombs'')]"

definition ctype_symbols :: symbol_table where
  "ctype_symbols =
     [(''isalnum'', ''ctype::isalnum''), (''isalpha'', ''ctype::isalpha''), (''isblank'', ''ctype::isblank''),
      (''iscntrl'', ''ctype::iscntrl''), (''isdigit'', ''ctype::isdigit''), (''isgraph'', ''ctype::isgraph''),
      (''islower'', ''ctype::islower''), (''isprint'', ''ctype::isprint''), (''ispunct'', ''ctype::ispunct''),
      (''isspace'', ''ctype::isspace''), (''isupper'', ''ctype::isupper''), (''isxdigit'', ''ctype::isxdigit''),
      (''tolower'', ''ctype::tolower''), (''toupper'', ''ctype::toupper'')]"

definition memory_string_symbols :: symbol_table where
  "memory_string_symbols =
     [(''memcmp'', ''memory::memcmp''), (''memcpy'', ''memory::memcpy''), (''memmove'', ''memory::memmove''),
      (''memset'', ''memory::memset''), (''strlen'', ''string::strlen''), (''strnlen'', ''string::strnlen'')]"

definition numeric_conversion_symbols :: symbol_table where
  "numeric_conversion_symbols =
     [(''atoi'', ''stdlib::atoi::atoi''), (''atol'', ''stdlib::atoi::atol''), (''atoll'', ''stdlib::atoi::atoll''),
      (''strtol'', ''stdlib::conv::strtol''), (''strtoll'', ''stdlib::conv::strtoll''), (''strtoul'', ''stdlib::conv::strtoul''),
      (''strtoull'', ''stdlib::conv::strtoull'')]"

definition signal_symbols :: symbol_table where
  "signal_symbols =
     [(''sigemptyset'', ''signal::sigemptyset''), (''sigfillset'', ''signal::sigfillset''), (''sigaddset'', ''signal::sigaddset''),
      (''sigdelset'', ''signal::sigdelset''), (''sigismember'', ''signal::sigismember''), (''sigaction'', ''signal::sigaction''),
      (''kill'', ''signal::kill''), (''raise'', ''signal::raise''), (''sigprocmask'', ''signal::sigprocmask'')]"

definition dirent_glob_fcntl_symbols :: symbol_table where
  "dirent_glob_fcntl_symbols =
     [(''fcntl'', ''fcntl::fcntl''), (''opendir'', ''dirent::opendir''), (''readdir'', ''dirent::readdir''),
      (''closedir'', ''dirent::closedir''), (''rewinddir'', ''dirent::rewinddir''), (''glob'', ''glob::glob''),
      (''globfree'', ''glob::globfree'')]"

definition locale_math_setjmp_symbols :: symbol_table where
  "locale_math_setjmp_symbols =
     [(''setlocale'', ''locale::setlocale''), (''sqrt'', ''math::sqrt''), (''log'', ''math::log''), (''exp'', ''math::exp''),
      (''setjmp'', ''setjmp::setjmp''), (''longjmp'', ''setjmp::longjmp'')]"

definition resolve_rlibc_symbol_stdlib_io_fs :: "string \<Rightarrow> string option" where
  "resolve_rlibc_symbol_stdlib_io_fs symbol_name = map_of stdlib_io_fs_symbols symbol_name"

definition resolve_rlibc_symbol_system_resource_time :: "string \<Rightarrow> string option" where
  "resolve_rlibc_symbol_system_resource_time symbol_name = map_of system_resource_time_symbols symbol_name"

definition resolve_rlibc_symbol_net_socket :: "string \<Rightarrow> string option" where
  "resolve_rlibc_symbol_net_socket symbol_name = map_of net_socket_symbols symbol_name"

definition resolve_rlibc_symbol_stdio_pthread_dlfcn :: "string \<Rightarrow> string option" where
  "resolve_rlibc_symbol_stdio_pthread_dlfcn symbol_name = map_of stdio_pthread_dlfcn_symbols symbol_name"

definition resolve_rlibc_symbol_pthread_mutex :: "string \<Rightarrow> string option" where
  "resolve_rlibc_symbol_pthread_mutex symbol_name = map_of pthread_mutex_symbols symbol_name"

definition resolve_rlibc_symbol_pthread_cond :: "string \<Rightarrow> string option" where
  "resolve_rlibc_symbol_pthread_cond symbol_name = map_of pthread_cond_symbols symbol_name"

definition resolve_rlibc_symbol_pthread_rwlock :: "string \<Rightarrow> string option" where
  "resolve_rlibc_symbol_pthread_rwlock symbol_name = map_of pthread_rwlock_symbols symbol_name"

definition resolve_rlibc_symbol_process_and_startup :: "string \<Rightarrow> string option" where
  "resolve_rlibc_symbol_process_and_startup symbol_name = map_of process_and_startup_symbols symbol_name"

definition resolve_rlibc_symbol_fenv :: "string \<Rightarrow> string option" where
  "resolve_rlibc_symbol_fenv symbol_name = map_of fenv_symbols symbol_name"

definition resolve_rlibc_symbol_wchar :: "string \<Rightarrow> string option" where
  "resolve_rlibc_symbol_wchar symbol_name = map_of wchar_symbols symbol_name"

definition resolve_rlibc_symbol_ctype :: "string \<Rightarrow> string option" where
  "resolve_rlibc_symbol_ctype symbol_name = map_of ctype_symbols symbol_name"

definition resolve_rlibc_symbol_memory_string :: "string \<Rightarrow> string option" where
  "resolve_rlibc_symbol_memory_string symbol_name = map_of memory_string_symbols symbol_name"

definition resolve_rlibc_symbol_numeric_conversion :: "string \<Rightarrow> string option" where
  "resolve_rlibc_symbol_numeric_conversion symbol_name = map_of numeric_conversion_symbols symbol_name"

definition resolve_rlibc_symbol_signal :: "string \<Rightarrow> string option" where
  "resolve_rlibc_symbol_signal symbol_name = map_of signal_symbols symbol_name"

definition resolve_rlibc_symbol_dirent_glob_fcntl :: "string \<Rightarrow> string option" where
  "resolve_rlibc_symbol_dirent_glob_fcntl symbol_name = map_of dirent_glob_fcntl_symbols symbol_name"

definition resolve_rlibc_symbol_locale_math_setjmp :: "string \<Rightarrow> string option" where
  "resolve_rlibc_symbol_locale_math_setjmp symbol_name = map_of locale_math_setjmp_symbols symbol_name"

definition resolve_rlibc_symbol_pthread_sync :: "string \<Rightarrow> string option" where
  "resolve_rlibc_symbol_pthread_sync symbol_name =
     or_else (or_else (resolve_rlibc_symbol_pthread_mutex symbol_name)
       (resolve_rlibc_symbol_pthread_cond symbol_name))
       (resolve_rlibc_symbol_pthread_rwlock symbol_name)"

definition resolve_rlibc_symbol_process_fenv_wchar_startup :: "string \<Rightarrow> string option" where
  "resolve_rlibc_symbol_process_fenv_wchar_startup symbol_name =
     or_else (or_else (resolve_rlibc_symbol_process_and_startup symbol_name)
       (resolve_rlibc_symbol_fenv symbol_name))
       (resolve_rlibc_symbol_wchar symbol_name)"

definition resolve_rlibc_symbol_ctype_memory_string_numeric :: "string \<Rightarrow> string option" where
  "resolve_rlibc_symbol_ctype_memory_string_numeric symbol_name =
     or_else (or_else (resolve_rlibc_symbol_ctype symbol_name)
       (resolve_rlibc_symbol_memory_string symbol_name))
       (resolve_rlibc_symbol_numeric_conversion symbol_name)"

definition resolve_rlibc_symbol_misc :: "string \<Rightarrow> string option" where
  "resolve_rlibc_symbol_misc symbol_name =
     or_else (or_else (or_else (or_else (resolve_rlibc_symbol_process_fenv_wchar_startup symbol_name)
       (resolve_rlibc_symbol_ctype_memory_string_numeric symbol_name))
       (resolve_rlibc_symbol_signal symbol_name))
       (resolve_rlibc_symbol_dirent_glob_fcntl symbol_name))
       (resolve_rlibc_symbol_locale_math_setjmp symbol_name)"

definition resolve_rlibc_symbol :: "string \<Rightarrow> string option" where
  "resolve_rlibc_symbol symbol_name =
     or_else (or_else (or_else (or_else (or_else (resolve_rlibc_symbol_stdlib_io_fs symbol_name)
       (resolve_rlibc_symbol_system_resource_time symbol_name))
       (resolve_rlibc_symbol_net_socket symbol_name))
       (resolve_rlibc_symbol_pthread_sync symbol_name))
       (resolve_rlibc_symbol_misc symbol_name))
       (resolve_rlibc_symbol_stdio_pthread_dlfcn symbol_name)"

section \<open>The tables\<close>

definition all_symbols :: symbol_table where
  "all_symbols = stdlib_io_fs_symbols @ system_resource_time_symbols @ net_socket_symbols @
     pthread_mutex_symbols @ pthread_cond_symbols @ pthread_rwlock_symbols @
     process_and_startup_symbols @ fenv_symbols @ wchar_symbols @
     ctype_symbols @ memory_string_symbols @ numeric_conversion_symbols @
     signal_symbols @ dirent_glob_fcntl_symbols @ locale_math_setjmp_symbols @ stdio_pthread_dlfcn_symbols"

lemmas symbol_tables = stdlib_io_fs_symbols_def system_resource_time_symbols_def net_socket_symbols_def pthread_mutex_symbols_def
  pthread_cond_symbols_def pthread_rwlock_symbols_def process_and_startup_symbols_def fenv_symbols_def wchar_symbols_def ctype_symbols_def
  memory_string_symbols_def numeric_conversion_symbols_def signal_symbols_def dirent_glob_fcntl_symbols_def locale_math_setjmp_symbols_def
  stdio_pthread_dlfcn_symbols_def

lemmas symbol_groups = resolve_rlibc_symbol_stdlib_io_fs_def resolve_rlibc_symbol_system_resource_time_def resolve_rlibc_symbol_net_socket_def
  resolve_rlibc_symbol_pthread_sync_def resolve_rlibc_symbol_pthread_mutex_def resolve_rlibc_symbol_pthread_cond_def resolve_rlibc_symbol_pthread_rwlock_def
  resolve_rlibc_symbol_misc_def resolve_rlibc_symbol_process_fenv_wchar_startup_def resolve_rlibc_symbol_process_and_startup_def
  resolve_rlibc_symbol_fenv_def resolve_rlibc_symbol_wchar_def resolve_rlibc_symbol_ctype_memory_string_numeric_def resolve_rlibc_symbol_ctype_def
  resolve_rlibc_symbol_memory_string_def resolve_rlibc_symbol_numeric_conversion_def resolve_rlibc_symbol_signal_def
  resolve_rlibc_symbol_dirent_glob_fcntl_def resolve_rlibc_symbol_locale_math_setjmp_def resolve_rlibc_symbol_stdio_pthread_dlfcn_def

lemma map_of_or_else: "or_else (map_of xs k) (map_of ys k) = map_of (xs @ ys) k"
  by (simp add: or_else_def map_add_def split: option.split)

lemma resolve_rlibc_symbol_all: "resolve_rlibc_symbol name = map_of all_symbols name"
  by (simp only: resolve_rlibc_symbol_def symbol_groups map_of_or_else all_symbols_def append_assoc)

text \<open>The last component of a path.\<close>

definition path_item :: "string \<Rightarrow> string" where
  "path_item p = rev (takeWhile (\<lambda>c. c \<noteq> CHR '':'') (rev p))"

definition names_item :: "string \<times> string \<Rightarrow> bool" where
  "names_item e \<longleftrightarrow> path_item (snd e) = fst e \<or> path_item (snd e) = fst e @ ''_c_abi''"

lemma symbols_name_items: "list_all names_item all_symbols"
  by code_simp

lemma resolved_item: "resolve_rlibc_symbol name = Some p \<Longrightarrow> path_item p \<in> {name, name @ ''_c_abi''}"
proof -
  assume "resolve_rlibc_symbol name = Some p"
  then have "(name, p) \<in> set all_symbols" by (simp add: resolve_rlibc_symbol_all map_of_SomeD)
  then show ?thesis using symbols_name_items by (auto simp: list_all_iff names_item_def)
qed

end
