(* ===== verification/Dlfcn.thy ===== *)
theory Dlfcn
  imports Dl_Registry Dl_Message Dl_Symbols
begin

text \<open>
  \<^verbatim>\<open>dlopen\<close>, \<^verbatim>\<open>dlclose\<close>, \<^verbatim>\<open>dlsym\<close> and \<^verbatim>\<open>dlerror\<close> of \<^verbatim>\<open>src/src/dlfcn.rs\<close>. The host's loader and the file system are a
  record of functions on a state of their own; functions of the host may change the errno of the calling thread. Names that
  the caller passes are given by their bytes, a null pointer by \<open>None\<close>; \<^verbatim>\<open>dlerror\<close> gives the bytes of its message. The registry
  is locked once in each call, so calls of several threads are taken one after another.
\<close>

section \<open>The platform\<close>

definition EINTR :: c_int where "EINTR = 4"
definition ENOEXEC :: c_int where "ENOEXEC = 8"
definition EEXIST :: c_int where "EEXIST = 17"
definition ENOTDIR :: c_int where "ENOTDIR = 20"
definition EISDIR :: c_int where "EISDIR = 21"
definition EPIPE :: c_int where "EPIPE = 32"
definition ENOTEMPTY :: c_int where "ENOTEMPTY = 39"
definition EADDRINUSE :: c_int where "EADDRINUSE = 98"
definition EADDRNOTAVAIL :: c_int where "EADDRNOTAVAIL = 99"
definition ENETDOWN :: c_int where "ENETDOWN = 100"
definition ENETUNREACH :: c_int where "ENETUNREACH = 101"
definition ECONNABORTED :: c_int where "ECONNABORTED = 103"
definition ECONNRESET :: c_int where "ECONNRESET = 104"
definition ENOTCONN :: c_int where "ENOTCONN = 107"
definition ECONNREFUSED :: c_int where "ECONNREFUSED = 111"
definition EHOSTUNREACH :: c_int where "EHOSTUNREACH = 113"

lemmas dl_errno_defs = EINTR_def ENOEXEC_def EEXIST_def ENOTDIR_def EISDIR_def EPIPE_def ENOTEMPTY_def EADDRINUSE_def EADDRNOTAVAIL_def
  ENETDOWN_def ENETUNREACH_def ECONNABORTED_def ECONNRESET_def ENOTCONN_def ECONNREFUSED_def EHOSTUNREACH_def

text \<open>\<^verbatim>\<open>std::io::ErrorKind\<close>, with one constructor for the kinds the code does not name, and \<^verbatim>\<open>std::io::Error\<close>.\<close>

datatype ErrorKind = NotFound | NotADirectory | DirectoryNotEmpty | ResourceBusy | AlreadyExists | WouldBlock | TimedOut | BrokenPipe
  | ConnectionRefused | ConnectionReset | ConnectionAborted | NotConnected | AddrInUse | AddrNotAvailable | NetworkUnreachable
  | NetworkDown | HostUnreachable | PermissionDenied | InvalidInput | Interrupted | IsADirectory | UnexpectedEof | OtherKind

record io_error =
  raw_os_error :: "int option"
  kind :: ErrorKind

text \<open>
  Functions at addresses of the host are called through \<open>call_dlopen\<close>, \<open>call_dlsym\<close> and \<open>call_dlerror\<close>; \<open>read_exact_4\<close> reads the
  first four bytes of a file; \<open>link\<close> is the address of an item of the library.
\<close>

record 'h dl_platform =
  link :: "string \<Rightarrow> addr"
  host_dlvsym :: "addr \<Rightarrow> string \<Rightarrow> string \<Rightarrow> addr"
  host_dlsym_unversioned :: "addr \<Rightarrow> string \<Rightarrow> addr"
  call_dlopen :: "addr \<Rightarrow> u8 list option \<Rightarrow> c_int \<Rightarrow> c_int \<times> 'h \<Rightarrow> addr \<times> c_int \<times> 'h"
  call_dlsym :: "addr \<Rightarrow> addr \<Rightarrow> u8 list \<Rightarrow> c_int \<times> 'h \<Rightarrow> addr \<times> c_int \<times> 'h"
  call_dlerror :: "addr \<Rightarrow> c_int \<times> 'h \<Rightarrow> u8 list option \<times> c_int \<times> 'h"
  open_file :: "u8 list \<Rightarrow> 'h \<Rightarrow> io_error option"
  read_exact_4 :: "u8 list \<Rightarrow> 'h \<Rightarrow> io_error + u8 list"
  canonicalize :: "u8 list \<Rightarrow> 'h \<Rightarrow> u8 list option"

record DlErrorState =
  pending_message :: "u8 list option"
  last_returned_message :: "u8 list option"

record 'h loader =
  dl_registry :: DlHandleRegistry
  dl_errors :: "nat \<Rightarrow> DlErrorState"
  dl_errnos :: "nat \<Rightarrow> c_int"
  dl_host :: 'h

definition set_dl_errno :: "nat \<Rightarrow> c_int \<Rightarrow> 'h loader \<Rightarrow> 'h loader" where
  "set_dl_errno t e s = s\<lparr>dl_errnos := (dl_errnos s)(t := e)\<rparr>"

definition with_host :: "nat \<Rightarrow> (c_int \<times> 'h \<Rightarrow> 'a \<times> c_int \<times> 'h) \<Rightarrow> 'h loader \<Rightarrow> 'a \<times> 'h loader" where
  "with_host t f s = (case f (dl_errnos s t, dl_host s) of (r, e, h) \<Rightarrow> (r, (set_dl_errno t e s)\<lparr>dl_host := h\<rparr>))"

section \<open>Messages\<close>

definition DLCLOSE_SUCCESS :: c_int where "DLCLOSE_SUCCESS = 0"
definition DLCLOSE_FAILURE :: c_int where "DLCLOSE_FAILURE = - 1"
definition DLERROR_INVALID_HANDLE :: str where "DLERROR_INVALID_HANDLE = str_of ''rlibc: invalid dynamic-loader handle''"
definition DLERROR_ALREADY_CLOSED :: str where "DLERROR_ALREADY_CLOSED = str_of ''rlibc: dynamic-loader handle already closed''"
definition DLERROR_NULL_SYMBOL :: str where "DLERROR_NULL_SYMBOL = str_of ''rlibc: dlsym symbol pointer is null''"
definition DLERROR_DLOPEN_INVALID_FLAGS :: str where "DLERROR_DLOPEN_INVALID_FLAGS = str_of ''rlibc: dlopen received invalid flags''"
definition DLERROR_DLOPEN_NOT_ELF :: str where "DLERROR_DLOPEN_NOT_ELF = str_of ''rlibc: dlopen target is not a valid ELF image''"
definition DLERROR_DLOPEN_PATH_OPEN_FAILED :: str where
  "DLERROR_DLOPEN_PATH_OPEN_FAILED = str_of ''rlibc: dlopen target path could not be opened''"
definition DLERROR_DLOPEN_MAIN_PROGRAM_UNAVAILABLE :: str where
  "DLERROR_DLOPEN_MAIN_PROGRAM_UNAVAILABLE = str_of ''rlibc: main-program dlopen handle is unavailable''"
definition DLERROR_HOST_DLOPEN_UNAVAILABLE :: str where "DLERROR_HOST_DLOPEN_UNAVAILABLE = str_of ''rlibc: host dlopen resolver unavailable''"
definition DLERROR_HOST_DLOPEN_FAILED :: str where "DLERROR_HOST_DLOPEN_FAILED = str_of ''rlibc: host dlopen call failed''"
definition DLERROR_HOST_DLSYM_UNAVAILABLE :: str where "DLERROR_HOST_DLSYM_UNAVAILABLE = str_of ''rlibc: host dlsym resolver unavailable''"
definition DLERROR_SYMBOL_NOT_FOUND :: str where "DLERROR_SYMBOL_NOT_FOUND = str_of ''rlibc: requested symbol was not found''"

definition set_pending_message :: "str \<Rightarrow> DlErrorState \<Rightarrow> DlErrorState" where
  "set_pending_message message d = d\<lparr>pending_message := Some (utf8_bytes (map (\<lambda>c. if c = 0 then 32 else c) message))\<rparr>"

definition take_message_ptr :: "DlErrorState \<Rightarrow> u8 list option \<times> DlErrorState" where
  "take_message_ptr d =
     (case pending_message d of
        None \<Rightarrow> (None, d\<lparr>last_returned_message := None\<rparr>)
      | Some message \<Rightarrow> (Some message, d\<lparr>pending_message := None, last_returned_message := Some message\<rparr>))"

definition set_dlerror_message :: "nat \<Rightarrow> str \<Rightarrow> 'h loader \<Rightarrow> 'h loader" where
  "set_dlerror_message t message s = s\<lparr>dl_errors := (dl_errors s)(t := set_pending_message message (dl_errors s t))\<rparr>"

definition set_dlerror_message_with_detail :: "nat \<Rightarrow> str \<Rightarrow> str option \<Rightarrow> 'h loader \<Rightarrow> 'h loader" where
  "set_dlerror_message_with_detail t base_message detail s =
     (case detail of
        None \<Rightarrow> set_dlerror_message t base_message s
      | Some d \<Rightarrow>
          if trim d = [] then set_dlerror_message t base_message s
          else set_dlerror_message t (base_message @ str_of '': '' @ trim d) s)"

definition set_dlsym_missing_symbol_message :: "nat \<Rightarrow> u8 list \<Rightarrow> str option \<Rightarrow> 'h loader \<Rightarrow> 'h loader" where
  "set_dlsym_missing_symbol_message t symbol detail s =
     (if symbol = [] then set_dlerror_message t (DLERROR_SYMBOL_NOT_FOUND @ str_of '': <empty symbol>'') s
      else
        (let symbol_label = to_string_lossy symbol;
             base_message = DLERROR_SYMBOL_NOT_FOUND @ str_of '': '' @ symbol_label;
             normalized_detail = Option.bind detail (normalize_dlsym_missing_symbol_detail symbol_label) in
         set_dlerror_message_with_detail t base_message normalized_detail s))"

definition dlerror :: "nat \<Rightarrow> 'h loader \<Rightarrow> u8 list option \<times> 'h loader" where
  "dlerror t s = (case take_message_ptr (dl_errors s t) of (m, d) \<Rightarrow> (m, s\<lparr>dl_errors := (dl_errors s)(t := d)\<rparr>))"

section \<open>The functions of the host\<close>

definition GLIBC_DLSYM_VERSION_CANDIDATES :: "string list" where
  "GLIBC_DLSYM_VERSION_CANDIDATES = [''GLIBC_2.34'', ''GLIBC_2.2.5'']"

primrec find_map :: "('a \<Rightarrow> 'b option) \<Rightarrow> 'a list \<Rightarrow> 'b option" where
  "find_map f [] = None"
| "find_map f (x # xs) = (case f x of None \<Rightarrow> find_map f xs | Some y \<Rightarrow> Some y)"

definition resolve_rlibc_dlfcn_symbol :: "'h dl_platform \<Rightarrow> string \<Rightarrow> addr option" where
  "resolve_rlibc_dlfcn_symbol P name =
     (if name = ''dlopen'' then Some (link P ''dlfcn::dlopen'')
      else if name = ''dlerror'' then Some (link P ''dlfcn::dlerror'')
      else if name = ''dlsym'' then Some (link P ''dlfcn::dlsym'')
      else None)"

definition resolve_host_symbol_from_handle :: "'h dl_platform \<Rightarrow> string \<Rightarrow> addr \<Rightarrow> addr option" where
  "resolve_host_symbol_from_handle P name h =
     (let rlibc_symbol = resolve_rlibc_dlfcn_symbol P name;
          acceptable = (\<lambda>resolved. if resolved = null \<or> rlibc_symbol = Some resolved then None else Some resolved) in
      case find_map (\<lambda>version. acceptable (host_dlvsym P h name version)) GLIBC_DLSYM_VERSION_CANDIDATES of
        Some versioned \<Rightarrow> Some versioned
      | None \<Rightarrow> acceptable (host_dlsym_unversioned P h name))"

definition resolve_host_symbol :: "'h dl_platform \<Rightarrow> string \<Rightarrow> addr option" where
  "resolve_host_symbol P name = find_map (resolve_host_symbol_from_handle P name) [RTLD_NEXT, null]"

definition host_dlopen :: "'h dl_platform \<Rightarrow> addr option" where "host_dlopen P = resolve_host_symbol P ''dlopen''"
definition host_dlsym :: "'h dl_platform \<Rightarrow> addr option" where "host_dlsym P = resolve_host_symbol P ''dlsym''"
definition host_dlerror :: "'h dl_platform \<Rightarrow> addr option" where "host_dlerror P = resolve_host_symbol P ''dlerror''"

definition clear_host_dlerror_state :: "'h dl_platform \<Rightarrow> nat \<Rightarrow> 'h loader \<Rightarrow> 'h loader" where
  "clear_host_dlerror_state P t s =
     (case host_dlerror P of None \<Rightarrow> s | Some f \<Rightarrow> snd (with_host t (call_dlerror P f) s))"

definition take_host_dlerror_message :: "'h dl_platform \<Rightarrow> nat \<Rightarrow> 'h loader \<Rightarrow> str option \<times> 'h loader" where
  "take_host_dlerror_message P t s =
     (case host_dlerror P of
        None \<Rightarrow> (None, s)
      | Some f \<Rightarrow> (case with_host t (call_dlerror P f) s of (m, s) \<Rightarrow> (map_option to_string_lossy m, s)))"

definition perform_host_dlsym_lookup :: "'h dl_platform \<Rightarrow> nat \<Rightarrow> addr \<Rightarrow> u8 list \<Rightarrow> 'h loader \<Rightarrow> (addr \<times> str option) option \<times> 'h loader" where
  "perform_host_dlsym_lookup P t host_handle symbol s =
     (case host_dlsym P of
        None \<Rightarrow> (None, s)
      | Some f \<Rightarrow>
          (let s = clear_host_dlerror_state P t s;
               (resolved, s) = with_host t (call_dlsym P f host_handle symbol) s;
               (host_detail, s) = (if resolved = null then take_host_dlerror_message P t s else (None, s)) in
           (Some (resolved, host_detail), s)))"

section \<open>\<^verbatim>\<open>dlclose\<close>\<close>

definition dlclose :: "nat \<Rightarrow> addr \<Rightarrow> 'h loader \<Rightarrow> c_int \<times> 'h loader" where
  "dlclose t h s =
     (if h = null then
        (DLCLOSE_FAILURE, set_dlerror_message t DLERROR_INVALID_HANDLE (s\<lparr>dl_registry := clear_trackable_null_handle_entry (dl_registry s)\<rparr>))
      else
        (let (close_outcome, r) = close_handle h (dl_registry s);
             s = s\<lparr>dl_registry := r\<rparr> in
         case close_outcome of
           Success \<Rightarrow> (DLCLOSE_SUCCESS, s)
         | AlreadyClosed \<Rightarrow> (DLCLOSE_FAILURE, set_dlerror_message t DLERROR_ALREADY_CLOSED s)
         | InvalidHandle \<Rightarrow> (DLCLOSE_FAILURE, set_dlerror_message t DLERROR_INVALID_HANDLE s)))"

section \<open>\<^verbatim>\<open>dlopen\<close>\<close>

definition RTLD_LAZY :: c_int where "RTLD_LAZY = 1"
definition RTLD_NOW :: c_int where "RTLD_NOW = 2"
definition RTLD_GLOBAL :: c_int where "RTLD_GLOBAL = 0x100"
definition RTLD_BINDING_MASK :: c_int where "RTLD_BINDING_MASK = RTLD_LAZY OR RTLD_NOW"
definition RTLD_SUPPORTED_MASK :: c_int where "RTLD_SUPPORTED_MASK = RTLD_LAZY OR RTLD_NOW OR RTLD_GLOBAL"
definition ELF_MAGIC :: "u8 list" where "ELF_MAGIC = [0x7F, 69, 76, 70]"
definition PROC_SELF_EXE_PATH :: "u8 list" where "PROC_SELF_EXE_PATH = map of_char ''/proc/self/exe''"

definition validate_dlopen_flags :: "c_int \<Rightarrow> c_int option" where
  "validate_dlopen_flags flags =
     (if flags AND NOT RTLD_SUPPORTED_MASK \<noteq> 0 then Some EINVAL
      else
        (let binding_mode = flags AND RTLD_BINDING_MASK in
         if binding_mode = 0 \<or> binding_mode = RTLD_BINDING_MASK then Some EINVAL else None))"

primrec io_error_kind_errno :: "ErrorKind \<Rightarrow> c_int option" where
  "io_error_kind_errno NotFound = Some ENOENT"
| "io_error_kind_errno NotADirectory = Some ENOTDIR"
| "io_error_kind_errno DirectoryNotEmpty = Some ENOTEMPTY"
| "io_error_kind_errno ResourceBusy = Some EBUSY"
| "io_error_kind_errno AlreadyExists = Some EEXIST"
| "io_error_kind_errno WouldBlock = Some EAGAIN"
| "io_error_kind_errno TimedOut = Some ETIMEDOUT"
| "io_error_kind_errno BrokenPipe = Some EPIPE"
| "io_error_kind_errno ConnectionRefused = Some ECONNREFUSED"
| "io_error_kind_errno ConnectionReset = Some ECONNRESET"
| "io_error_kind_errno ConnectionAborted = Some ECONNABORTED"
| "io_error_kind_errno NotConnected = Some ENOTCONN"
| "io_error_kind_errno AddrInUse = Some EADDRINUSE"
| "io_error_kind_errno AddrNotAvailable = Some EADDRNOTAVAIL"
| "io_error_kind_errno NetworkUnreachable = Some ENETUNREACH"
| "io_error_kind_errno NetworkDown = Some ENETDOWN"
| "io_error_kind_errno HostUnreachable = Some EHOSTUNREACH"
| "io_error_kind_errno PermissionDenied = Some EACCES"
| "io_error_kind_errno InvalidInput = Some EINVAL"
| "io_error_kind_errno Interrupted = Some EINTR"
| "io_error_kind_errno IsADirectory = Some EISDIR"
| "io_error_kind_errno UnexpectedEof = None"
| "io_error_kind_errno OtherKind = None"

definition io_error_errno :: "io_error \<Rightarrow> c_int \<Rightarrow> c_int" where
  "io_error_errno error fallback_errno =
     (case Option.bind (Option.bind (raw_os_error error) try_i32) (\<lambda>v. if v \<noteq> 0 then Some v else None) of
        Some v \<Rightarrow> v
      | None \<Rightarrow> (case io_error_kind_errno (kind error) of Some v \<Rightarrow> v | None \<Rightarrow> fallback_errno))"

text \<open>\<^verbatim>\<open>io::Error::last_os_error\<close>: its kind is read from the same number, so the code never uses it.\<close>

definition last_os_error :: "c_int \<Rightarrow> io_error" where
  "last_os_error e = \<lparr>raw_os_error = Some (sint e), kind = OtherKind\<rparr>"

definition open_loader_file :: "'h dl_platform \<Rightarrow> u8 list \<Rightarrow> 'h \<Rightarrow> c_int option" where
  "open_loader_file P path h = map_option (\<lambda>error. io_error_errno error ENOENT) (open_file P path h)"

definition validate_elf_image :: "'h dl_platform \<Rightarrow> u8 list \<Rightarrow> 'h \<Rightarrow> c_int option" where
  "validate_elf_image P path h =
     (case open_loader_file P path h of
        Some e \<Rightarrow> Some e
      | None \<Rightarrow>
          (case read_exact_4 P path h of
             Inl error \<Rightarrow> Some (if kind error = UnexpectedEof then ENOEXEC else io_error_errno error ENOEXEC)
           | Inr magic \<Rightarrow> if magic \<noteq> ELF_MAGIC then Some ENOEXEC else None))"

text \<open>\<^verbatim>\<open>Path\<close> compares by components: repeated slashes and \<^verbatim>\<open>.\<close> after the first component do not count.\<close>

definition path_key :: "u8 list \<Rightarrow> bool \<times> u8 list list" where
  "path_key p =
     (let pieces = split_on 47 p;
          absolute = (p \<noteq> [] \<and> hd p = 47);
          names = filter (\<lambda>c. c \<noteq> [] \<and> c \<noteq> [46]) pieces in
      (absolute, if \<not> absolute \<and> hd pieces = [46] then [46] # names else names))"

definition is_proc_self_exe_path :: "u8 list \<Rightarrow> bool" where
  "is_proc_self_exe_path path \<longleftrightarrow> path_key path = path_key PROC_SELF_EXE_PATH"

definition is_internal_loader_executable_path :: "'h dl_platform \<Rightarrow> u8 list \<Rightarrow> 'h \<Rightarrow> bool" where
  "is_internal_loader_executable_path P path h \<longleftrightarrow>
     is_proc_self_exe_path path \<or>
     (case canonicalize P path h of
        None \<Rightarrow> False
      | Some path_canonical \<Rightarrow>
          (case canonicalize P PROC_SELF_EXE_PATH h of
             None \<Rightarrow> False
           | Some proc_self_exe_canonical \<Rightarrow> path_key path_canonical = path_key proc_self_exe_canonical))"

definition try_open_internal_elf :: "'h dl_platform \<Rightarrow> u8 list \<Rightarrow> 'h \<Rightarrow> addr option" where
  "try_open_internal_elf P path h =
     (if is_internal_loader_executable_path P path h then Some INTERNAL_PROC_SELF_EXE_HANDLE_ID else None)"

definition dl_fail :: "nat \<Rightarrow> c_int \<Rightarrow> str \<Rightarrow> 'h loader \<Rightarrow> addr \<times> 'h loader" where
  "dl_fail t e message s = (null, set_dlerror_message t message (set_dl_errno t e s))"

definition dl_registered :: "nat \<Rightarrow> addr \<Rightarrow> (DlHandleRegistry \<Rightarrow> DlHandleRegistry) \<Rightarrow> c_int \<Rightarrow> 'h loader \<Rightarrow> addr \<times> 'h loader" where
  "dl_registered t h register saved_errno s = (h, set_dl_errno t saved_errno (s\<lparr>dl_registry := register (dl_registry s)\<rparr>))"

definition open_main_program :: "'h dl_platform \<Rightarrow> nat \<Rightarrow> c_int \<Rightarrow> c_int \<Rightarrow> 'h loader \<Rightarrow> addr \<times> 'h loader" where
  "open_main_program P t flags saved_errno s =
     (case host_dlopen P of
        Some f \<Rightarrow>
          (let s = clear_host_dlerror_state P t s;
               (h, s) = with_host t (call_dlopen P f None flags) s in
           if h \<noteq> null then dl_registered t h (register_open_main_program_handle h) saved_errno s
           else
             (let (detail, s) = take_host_dlerror_message P t (set_dl_errno t EINVAL s) in
              (null, set_dlerror_message_with_detail t DLERROR_HOST_DLOPEN_FAILED detail s)))
      | None \<Rightarrow>
          (case try_open_internal_elf P PROC_SELF_EXE_PATH (dl_host s) of
             Some _ \<Rightarrow>
               dl_registered t INTERNAL_MAIN_PROGRAM_HANDLE_ID (register_open_main_program_handle INTERNAL_MAIN_PROGRAM_HANDLE_ID) saved_errno s
           | None \<Rightarrow> dl_fail t EINVAL DLERROR_DLOPEN_MAIN_PROGRAM_UNAVAILABLE s))"

definition open_path :: "'h dl_platform \<Rightarrow> nat \<Rightarrow> u8 list \<Rightarrow> c_int \<Rightarrow> c_int \<Rightarrow> 'h loader \<Rightarrow> addr \<times> 'h loader" where
  "open_path P t path flags saved_errno s =
     (case validate_elf_image P path (dl_host s) of
        Some errno_value \<Rightarrow>
          (let s = set_dl_errno t errno_value s in
           (null,
            if errno_value = ENOEXEC then set_dlerror_message t DLERROR_DLOPEN_NOT_ELF s
            else set_dlerror_message_with_detail t DLERROR_DLOPEN_PATH_OPEN_FAILED (Some (to_string_lossy path)) s))
      | None \<Rightarrow>
          (case try_open_internal_elf P path (dl_host s) of
             Some h \<Rightarrow> dl_registered t h (register_open_internal_handle h) saved_errno s
           | None \<Rightarrow>
               (case host_dlopen P of
                  None \<Rightarrow> dl_fail t EINVAL DLERROR_HOST_DLOPEN_UNAVAILABLE s
                | Some f \<Rightarrow>
                    (let s = clear_host_dlerror_state P t s;
                         (h, s) = with_host t (call_dlopen P f (Some path) flags) s in
                     if h = null then
                       (let errno_value = io_error_errno (last_os_error (dl_errnos s t)) EINVAL;
                            (host_detail, s) = take_host_dlerror_message P t s;
                            s = set_dl_errno t errno_value s in
                        (null, set_dlerror_message_with_detail t DLERROR_HOST_DLOPEN_FAILED host_detail s))
                     else dl_registered t h (register_open_handle h) saved_errno s))))"

definition dlopen :: "'h dl_platform \<Rightarrow> nat \<Rightarrow> u8 list option \<Rightarrow> c_int \<Rightarrow> 'h loader \<Rightarrow> addr \<times> 'h loader" where
  "dlopen P t filename flags s =
     (case validate_dlopen_flags flags of
        Some errno_value \<Rightarrow> dl_fail t errno_value DLERROR_DLOPEN_INVALID_FLAGS s
      | None \<Rightarrow>
          (let saved_errno = dl_errnos s t in
           case filename of
             None \<Rightarrow> open_main_program P t flags saved_errno s
           | Some path \<Rightarrow> open_path P t path flags saved_errno s))"

section \<open>\<^verbatim>\<open>dlsym\<close>\<close>

definition resolved_address :: "'h dl_platform \<Rightarrow> u8 list \<Rightarrow> addr option" where
  "resolved_address P symbol_name = map_option (link P) (resolve_rlibc_symbol (map (\<lambda>b. char_of (unat b)) symbol_name))"

definition handle_message :: "CloseOutcome \<Rightarrow> str" where
  "handle_message outcome = (case outcome of AlreadyClosed \<Rightarrow> DLERROR_ALREADY_CLOSED | _ \<Rightarrow> DLERROR_INVALID_HANDLE)"

definition missing_symbol :: "nat \<Rightarrow> c_int \<Rightarrow> u8 list \<Rightarrow> str option \<Rightarrow> 'h loader \<Rightarrow> addr \<times> 'h loader" where
  "missing_symbol t saved_errno symbol detail s =
     (null, set_dl_errno t saved_errno (set_dlsym_missing_symbol_message t symbol detail s))"

definition fail_with_message :: "nat \<Rightarrow> c_int \<Rightarrow> str \<Rightarrow> 'h loader \<Rightarrow> addr \<times> 'h loader" where
  "fail_with_message t saved_errno message s = (null, set_dl_errno t saved_errno (set_dlerror_message t message s))"

text \<open>A handle of the library itself; the one of \<^verbatim>\<open>/proc/self/exe\<close> also asks the host.\<close>

definition dlsym_internal :: "'h dl_platform \<Rightarrow> nat \<Rightarrow> addr \<Rightarrow> u8 list \<Rightarrow> c_int \<Rightarrow> 'h loader \<Rightarrow> addr \<times> 'h loader" where
  "dlsym_internal P t h symbol saved_errno s =
     (case resolved_address P symbol of
        Some rlibc_symbol \<Rightarrow> (rlibc_symbol, set_dl_errno t saved_errno s)
      | None \<Rightarrow>
          (if h = INTERNAL_PROC_SELF_EXE_HANDLE_ID then
             (case perform_host_dlsym_lookup P t null symbol s of
                (Some (resolved, _), s) \<Rightarrow>
                  (if resolved \<noteq> null then (resolved, set_dl_errno t saved_errno s) else missing_symbol t saved_errno symbol None s)
              | (None, s) \<Rightarrow> missing_symbol t saved_errno symbol None s)
           else missing_symbol t saved_errno symbol None s))"

definition dlsym_delegated :: "'h dl_platform \<Rightarrow> nat \<Rightarrow> addr \<Rightarrow> u8 list \<Rightarrow> c_int \<Rightarrow> DlsymHandleKind \<Rightarrow> 'h loader \<Rightarrow> addr \<times> 'h loader" where
  "dlsym_delegated P t h symbol saved_errno handle_kind s =
     (let host_lookup_handle =
            (case handle_kind of
               Default \<Rightarrow> null
             | MainProgram \<Rightarrow> if h = INTERNAL_MAIN_PROGRAM_HANDLE_ID then null else h
             | _ \<Rightarrow> h) in
      case perform_host_dlsym_lookup P t host_lookup_handle symbol s of
        (None, s) \<Rightarrow>
          (case if handle_kind = Next then resolved_address P symbol else None of
             Some rlibc_symbol \<Rightarrow> (rlibc_symbol, set_dl_errno t saved_errno s)
           | None \<Rightarrow> fail_with_message t saved_errno DLERROR_HOST_DLSYM_UNAVAILABLE s)
      | (Some (resolved, host_detail), s) \<Rightarrow>
          (let s = set_dl_errno t saved_errno s in
           if resolved = null then
             (case if handle_kind = Next then resolved_address P symbol else None of
                Some rlibc_symbol \<Rightarrow> (rlibc_symbol, set_dl_errno t saved_errno s)
              | None \<Rightarrow> missing_symbol t saved_errno symbol host_detail s)
           else (resolved, s)))"

definition dlsym :: "'h dl_platform \<Rightarrow> nat \<Rightarrow> addr \<Rightarrow> u8 list option \<Rightarrow> 'h loader \<Rightarrow> addr \<times> 'h loader" where
  "dlsym P t h symbol s =
     (let saved_errno = dl_errnos s t in
      case classify_dlsym_handle h (dl_registry s) of
        Inl outcome \<Rightarrow> fail_with_message t saved_errno (handle_message outcome) s
      | Inr handle_kind \<Rightarrow>
          (case symbol of
             None \<Rightarrow> fail_with_message t saved_errno DLERROR_NULL_SYMBOL s
           | Some symbol_name \<Rightarrow>
               (if handle_kind = Internal then dlsym_internal P t h symbol_name saved_errno s
                else
                  (case if handle_kind \<in> {Default, MainProgram} then resolved_address P symbol_name else None of
                     Some rlibc_symbol \<Rightarrow> (rlibc_symbol, set_dl_errno t saved_errno s)
                   | None \<Rightarrow> dlsym_delegated P t h symbol_name saved_errno handle_kind s))))"

end
