(* ===== verification/Dl_Loader.thy ===== *)
theory Dl_Loader
  imports Dlfcn
begin

text \<open>
  The calls of the dynamic loader against a specification that counts the opens of each handle and keeps one pending
  message per thread, for every sequence of calls of any threads.
\<close>

section \<open>The specification\<close>

datatype dl_call = Dlopen "u8 list option" c_int | Dlclose addr | Dlsym addr "u8 list option" | Dlerror

datatype dl_result = Handle addr | Code c_int | Address addr | Message "u8 list option"

record dl_abstract =
  counts :: "addr \<Rightarrow> nat option"
  pending :: "nat \<Rightarrow> u8 list option"
  errnos :: "nat \<Rightarrow> c_int"

definition dl_message :: "str \<Rightarrow> u8 list" where
  "dl_message m = utf8_bytes (map (\<lambda>c. if c = 0 then 32 else c) m)"

definition dl_pends :: "nat \<Rightarrow> u8 list \<Rightarrow> dl_abstract \<Rightarrow> dl_abstract" where
  "dl_pends t m a = a\<lparr>pending := (pending a)(t := Some m)\<rparr>"

definition dl_spec :: "nat \<Rightarrow> dl_call \<Rightarrow> dl_result \<Rightarrow> dl_abstract \<Rightarrow> dl_abstract \<Rightarrow> bool" where
  "dl_spec t c r a a' =
     (case (c, r) of
        (Dlopen filename flags, Handle h) \<Rightarrow>
          if validate_dlopen_flags flags \<noteq> None then
            h = null \<and> a' = (dl_pends t (dl_message DLERROR_DLOPEN_INVALID_FLAGS) a)\<lparr>errnos := (errnos a)(t := EINVAL)\<rparr>
          else if h = null then
            \<exists>m e. (filename \<noteq> None \<longrightarrow> e \<noteq> 0) \<and> a' = (dl_pends t m a)\<lparr>errnos := (errnos a)(t := e)\<rparr>
          else a' = a\<lparr>counts := opens h (counts a)\<rparr>
      | (Dlclose h, Code code) \<Rightarrow>
          (let outcome = outcome_of (counts a h) in
           if outcome = Success then code = 0 \<and> a' = a\<lparr>counts := closes h (counts a)\<rparr>
           else code = - 1 \<and> a' = dl_pends t (dl_message (handle_message outcome)) a)
      | (Dlsym h symbol, Address p) \<Rightarrow>
          (let outcome = outcome_of (counts a h) in
           if h \<noteq> null \<and> h \<noteq> RTLD_NEXT \<and> outcome \<noteq> Success then p = null \<and> a' = dl_pends t (dl_message (handle_message outcome)) a
           else if symbol = None then p = null \<and> a' = dl_pends t (dl_message DLERROR_NULL_SYMBOL) a
           else if p = null then \<exists>m. a' = dl_pends t m a
           else a' = a)
      | (Dlerror, Message m) \<Rightarrow> m = pending a t \<and> a' = a\<lparr>pending := (pending a)(t := None)\<rparr>
      | _ \<Rightarrow> False)"

primrec dl_spec_run :: "dl_abstract \<Rightarrow> (nat \<times> dl_call) list \<Rightarrow> dl_result list \<Rightarrow> dl_abstract \<Rightarrow> bool" where
  "dl_spec_run a [] rs a' \<longleftrightarrow> rs = [] \<and> a' = a"
| "dl_spec_run a (c # cs) rs a' \<longleftrightarrow>
     (\<exists>r rs1 a1. rs = r # rs1 \<and> dl_spec (fst c) (snd c) r a a1 \<and> dl_spec_run a1 cs rs1 a')"

section \<open>The calls\<close>

definition run_dl :: "'h dl_platform \<Rightarrow> nat \<Rightarrow> dl_call \<Rightarrow> 'h loader \<Rightarrow> dl_result \<times> 'h loader" where
  "run_dl P t c s =
     (case c of
        Dlopen filename flags \<Rightarrow> map_prod Handle id (dlopen P t filename flags s)
      | Dlclose h \<Rightarrow> map_prod Code id (dlclose t h s)
      | Dlsym h symbol \<Rightarrow> map_prod Address id (dlsym P t h symbol s)
      | Dlerror \<Rightarrow> map_prod Message id (dlerror t s))"

primrec run_dl_calls :: "'h dl_platform \<Rightarrow> (nat \<times> dl_call) list \<Rightarrow> 'h loader \<Rightarrow> dl_result list \<times> 'h loader" where
  "run_dl_calls P [] s = ([], s)"
| "run_dl_calls P (c # cs) s =
     (let (r, s) = run_dl P (fst c) (snd c) s; (rs, s) = run_dl_calls P cs s in (r # rs, s))"

definition dl_abs :: "'h loader \<Rightarrow> dl_abstract" where
  "dl_abs s = \<lparr>counts = open_count (dl_registry s), pending = (\<lambda>t. pending_message (dl_errors s t)), errnos = dl_errnos s\<rparr>"

text \<open>
  The host's handles are addresses of user space, and the items of the library have addresses.
\<close>

definition host_in_user_space :: "'h dl_platform \<Rightarrow> bool" where
  "host_in_user_space P \<longleftrightarrow> (\<forall>f name flags x. fst (call_dlopen P f name flags x) < 2 ^ 47) \<and> (\<forall>item. link P item \<noteq> null)"

section \<open>What the helpers change\<close>

lemma set_dl_errno_simps [simp]: "dl_registry (set_dl_errno t e s) = dl_registry s" "dl_errors (set_dl_errno t e s) = dl_errors s"
    "dl_errnos (set_dl_errno t e s) = (dl_errnos s)(t := e)" "dl_host (set_dl_errno t e s) = dl_host s"
  by (simp_all add: set_dl_errno_def)

lemma set_dlerror_simps [simp]: "dl_registry (set_dlerror_message t m s) = dl_registry s"
    "dl_errors (set_dlerror_message t m s) = (dl_errors s)(t := set_pending_message m (dl_errors s t))"
    "dl_errnos (set_dlerror_message t m s) = dl_errnos s"
  by (simp_all add: set_dlerror_message_def)

text \<open>Calls of the host touch its state and the errno of the thread.\<close>

definition only_host :: "nat \<Rightarrow> 'h loader \<Rightarrow> 'h loader \<Rightarrow> bool" where
  "only_host t s s' \<longleftrightarrow> dl_registry s' = dl_registry s \<and> dl_errors s' = dl_errors s \<and> (\<forall>u. u \<noteq> t \<longrightarrow> dl_errnos s' u = dl_errnos s u)"

lemma only_host_refl [simp]: "only_host t s s"
  by (simp add: only_host_def)

lemma only_host_trans: "only_host t s s1 \<Longrightarrow> only_host t s1 s2 \<Longrightarrow> only_host t s s2"
  by (auto simp: only_host_def)

lemma only_host_errno [simp]: "only_host t s (set_dl_errno t e s1) \<longleftrightarrow> only_host t s s1"
  by (auto simp: only_host_def)

lemma with_host_only: "only_host t s (snd (with_host t f s))"
  by (auto simp: with_host_def only_host_def split: prod.split)

lemma clear_host_only: "only_host t s (clear_host_dlerror_state P t s)"
  by (auto simp: clear_host_dlerror_state_def intro: with_host_only split: option.split)

lemma take_host_only: "only_host t s (snd (take_host_dlerror_message P t s))"
proof (cases "host_dlerror P")
  case (Some f)
  obtain m s1 where "with_host t (call_dlerror P f) s = (m, s1)" by force
  then show ?thesis using with_host_only [of t s "call_dlerror P f"] Some by (simp add: take_host_dlerror_message_def)
qed (simp add: take_host_dlerror_message_def)

lemma lookup_only: "only_host t s (snd (perform_host_dlsym_lookup P t h symbol s))"
proof (cases "host_dlsym P")
  case (Some f)
  let ?s = "clear_host_dlerror_state P t s"
  obtain r s1 where call: "with_host t (call_dlsym P f h symbol) ?s = (r, s1)" by force
  then have "only_host t s s1" using only_host_trans [OF clear_host_only with_host_only] by (metis snd_conv)
  moreover obtain d s2 where "take_host_dlerror_message P t s1 = (d, s2)" by force
  moreover from this have "only_host t s1 s2" using take_host_only by (metis snd_conv)
  ultimately show ?thesis using Some call by (auto simp: perform_host_dlsym_lookup_def Let_def intro: only_host_trans)
qed (simp add: perform_host_dlsym_lookup_def)

lemma only_host_restored: "only_host t s s' \<Longrightarrow> (dl_errnos s')(t := dl_errnos s t) = dl_errnos s"
  by (auto simp: only_host_def)

lemma with_detail_pends: "\<exists>m. set_dlerror_message_with_detail t base d s = set_dlerror_message t m s"
  by (auto simp: set_dlerror_message_with_detail_def split: option.split)

lemma missing_symbol_pends: "\<exists>m. set_dlsym_missing_symbol_message t symbol d s = set_dlerror_message t m s"
  using with_detail_pends by (auto simp: set_dlsym_missing_symbol_message_def Let_def)

lemma pending_set [simp]: "pending_message (set_pending_message m d) = Some (dl_message m)"
  by (simp add: set_pending_message_def dl_message_def)

lemma dl_abs_only_host: "only_host t s s' \<Longrightarrow> dl_errnos s' t = dl_errnos s t \<Longrightarrow> dl_abs s' = dl_abs s"
  by (auto simp: dl_abs_def only_host_def fun_eq_iff)

lemma dl_abs_pends: "only_host t s s' \<Longrightarrow> dl_abs (set_dlerror_message t m s') = (dl_pends t (dl_message m) (dl_abs s))\<lparr>errnos := dl_errnos s'\<rparr>"
  by (auto simp: dl_abs_def dl_pends_def only_host_def fun_eq_iff)

section \<open>Each call is simulated\<close>

definition dl_ok :: "'h loader \<Rightarrow> bool" where
  "dl_ok s \<longleftrightarrow> dl_registry_ok (dl_registry s)"

lemma dlclose_spec:
  assumes ok: "dl_ok s" and run: "dlclose t h s = (code, s')"
  shows "dl_ok s' \<and> dl_spec t (Dlclose h) (Code code) (dl_abs s) (dl_abs s')"
proof -
  have reg: "dl_registry_ok (dl_registry s)" using ok by (simp add: dl_ok_def)
  have "open_count (dl_registry s) null = None" using reg by (simp add: dl_registry_ok_def open_count_def)
  then have null: "outcome_of (open_count (dl_registry s) null) = InvalidHandle" by (simp add: outcome_of_def)
  show ?thesis
  proof (cases "h = null")
    case True
    then have "code = DLCLOSE_FAILURE" "s' = set_dlerror_message t DLERROR_INVALID_HANDLE s"
      using run reg by (auto simp: dlclose_def)
    then show ?thesis using True ok null
      by (simp add: dl_spec_def dl_abs_pends [OF only_host_refl] dl_ok_def handle_message_def DLCLOSE_FAILURE_def dl_abs_def)
        (simp add: dl_pends_def dl_abs_def fun_eq_iff)
  next
    case False
    obtain out r where close: "close_handle h (dl_registry s) = (out, r)" by force
    have c: "out = outcome_of (open_count (dl_registry s) h)" "dl_registry_ok r" "open_count r = closes h (open_count (dl_registry s))"
      using close_counts [OF reg, of h] close by simp_all
    have same: "open_count r = open_count (dl_registry s)" if "out \<noteq> Success"
      using that c(1,3) by (auto simp: closes_def outcome_of_def fun_eq_iff split: option.splits nat.splits)
    have run': "(code, s') = (if out = Success then (DLCLOSE_SUCCESS, s\<lparr>dl_registry := r\<rparr>)
        else (DLCLOSE_FAILURE, set_dlerror_message t (handle_message out) (s\<lparr>dl_registry := r\<rparr>)))"
      using run False close by (cases out) (simp_all add: dlclose_def handle_message_def)
    have out: "outcome_of (counts (dl_abs s) h) = out" using c(1) by (simp add: dl_abs_def)
    show ?thesis
    proof (cases "out = Success")
      case True
      then have "dl_abs s' = (dl_abs s)\<lparr>counts := closes h (counts (dl_abs s))\<rparr>" using run' c(3) by (simp add: dl_abs_def)
      then show ?thesis using True run' out c(2) by (simp add: dl_spec_def Let_def dl_ok_def DLCLOSE_SUCCESS_def)
    next
      case False
      then have "dl_abs s' = dl_pends t (dl_message (handle_message out)) (dl_abs s)"
        using run' same by (simp add: dl_abs_def dl_pends_def fun_eq_iff)
      then show ?thesis using False run' out c(2) by (simp add: dl_spec_def Let_def dl_ok_def DLCLOSE_FAILURE_def)
    qed
  qed
qed

lemma dlerror_spec: "dl_ok s \<Longrightarrow> dlerror t s = (m, s') \<Longrightarrow> dl_ok s' \<and> dl_spec t Dlerror (Message m) (dl_abs s) (dl_abs s')"
  by (auto simp: dlerror_def take_message_ptr_def dl_ok_def dl_spec_def dl_abs_def fun_eq_iff split: option.splits)

text \<open>What \<^verbatim>\<open>dlsym\<close> returns, after calls of the host.\<close>

definition dl_answers :: "nat \<Rightarrow> 'h loader \<Rightarrow> addr \<times> 'h loader \<Rightarrow> bool" where
  "dl_answers t s r \<longleftrightarrow>
     (\<exists>s1. only_host t s s1 \<and>
        (fst r \<noteq> null \<and> snd r = set_dl_errno t (dl_errnos s t) s1 \<or>
         fst r = null \<and> (\<exists>m. snd r = set_dl_errno t (dl_errnos s t) (set_dlerror_message t m s1))))"

lemma dl_answersI:
  "only_host t s s1 \<Longrightarrow> p \<noteq> null \<Longrightarrow> dl_answers t s (p, set_dl_errno t (dl_errnos s t) s1)"
  "only_host t s s1 \<Longrightarrow> dl_answers t s (fail_with_message t (dl_errnos s t) m s1)"
  "only_host t s s1 \<Longrightarrow> dl_answers t s (missing_symbol t (dl_errnos s t) symbol d s1)"
proof -
  show "only_host t s s1 \<Longrightarrow> p \<noteq> null \<Longrightarrow> dl_answers t s (p, set_dl_errno t (dl_errnos s t) s1)"
    by (auto simp: dl_answers_def)
  show fails: "dl_answers t s (fail_with_message t (dl_errnos s t) m s1)" if "only_host t s s1" for m
    using that unfolding dl_answers_def fail_with_message_def fst_conv snd_conv by blast
  obtain m1 where "set_dlsym_missing_symbol_message t symbol d s1 = set_dlerror_message t m1 s1" using missing_symbol_pends by blast
  then show "only_host t s s1 \<Longrightarrow> dl_answers t s (missing_symbol t (dl_errnos s t) symbol d s1)"
    using fails [of m1] by (simp add: missing_symbol_def fail_with_message_def)
qed

lemma resolved_address_nonnull: "host_in_user_space P \<Longrightarrow> resolved_address P symbol = Some p \<Longrightarrow> p \<noteq> null"
  by (auto simp: host_in_user_space_def resolved_address_def)

lemma dlsym_delegated_answers:
  assumes P: "host_in_user_space P"
  shows "dl_answers t s (dlsym_delegated P t h symbol (dl_errnos s t) k s)"
proof -
  let ?h = "case k of Default \<Rightarrow> null | MainProgram \<Rightarrow> if h = INTERNAL_MAIN_PROGRAM_HANDLE_ID then null else h | _ \<Rightarrow> h"
  obtain r s1 where look: "perform_host_dlsym_lookup P t ?h symbol s = (r, s1)" by force
  have host: "only_host t s s1" using lookup_only [of t s P ?h symbol] look by simp
  let ?own = "if k = Next then resolved_address P symbol else None"
  have own: "p \<noteq> null" if "?own = Some p" for p
    using that resolved_address_nonnull [OF P] by (auto split: if_splits)
  show ?thesis
  proof (cases r)
    case None
    then show ?thesis using look own host by (auto simp: dlsym_delegated_def Let_def intro: dl_answersI split: option.split)
  next
    case (Some a)
    obtain p d where a: "a = (p, d)" by force
    have run: "dlsym_delegated P t h symbol (dl_errnos s t) k s =
        (let s2 = set_dl_errno t (dl_errnos s t) s1 in
         if p = null then
           (case ?own of Some q \<Rightarrow> (q, set_dl_errno t (dl_errnos s t) s2) | None \<Rightarrow> missing_symbol t (dl_errnos s t) symbol d s2)
         else (p, s2))"
      using look Some a by (simp add: dlsym_delegated_def Let_def)
    have host2: "only_host t s (set_dl_errno t (dl_errnos s t) s1)" using host by simp
    show ?thesis unfolding run Let_def
      using own by (auto intro: dl_answersI host host2 split: option.split)
  qed
qed

lemma dlsym_internal_answers:
  assumes P: "host_in_user_space P"
  shows "dl_answers t s (dlsym_internal P t h symbol (dl_errnos s t) s)"
proof -
  obtain r s1 where look: "perform_host_dlsym_lookup P t null symbol s = (r, s1)" by force
  have "only_host t s s1" using lookup_only [of t s P null symbol] look by simp
  then show ?thesis using look resolved_address_nonnull [OF P]
    by (auto simp: dlsym_internal_def intro: dl_answersI split: option.split)
qed

lemma answers_spec:
  assumes "dl_answers t s (p, s')"
  shows "dl_registry s' = dl_registry s" "p \<noteq> null \<Longrightarrow> dl_abs s' = dl_abs s" "p = null \<Longrightarrow> \<exists>m. dl_abs s' = dl_pends t m (dl_abs s)"
proof -
  obtain s1 where s1: "only_host t s s1" "p \<noteq> null \<and> s' = set_dl_errno t (dl_errnos s t) s1 \<or>
      p = null \<and> (\<exists>m. s' = set_dl_errno t (dl_errnos s t) (set_dlerror_message t m s1))"
    using assms by (auto simp: dl_answers_def)
  then show "dl_registry s' = dl_registry s" by (auto simp: only_host_def)
  show "dl_abs s' = dl_abs s" if "p \<noteq> null"
    using s1 that only_host_restored [OF s1(1)] by (auto simp: dl_abs_def only_host_def)
  show "\<exists>m. dl_abs s' = dl_pends t m (dl_abs s)" if p: "p = null"
  proof -
    obtain m where "s' = set_dl_errno t (dl_errnos s t) (set_dlerror_message t m s1)" using s1(2) p by auto
    then have "dl_abs s' = dl_pends t (dl_message m) (dl_abs s)"
      using only_host_restored [OF s1(1)] s1(1) by (auto simp: dl_abs_def dl_pends_def only_host_def fun_eq_iff)
    then show ?thesis by blast
  qed
qed

lemma fail_spec: "fail_with_message t (dl_errnos s t) m s = (p, s') \<Longrightarrow>
    p = null \<and> dl_registry s' = dl_registry s \<and> dl_abs s' = dl_pends t (dl_message m) (dl_abs s)"
  by (auto simp: fail_with_message_def dl_abs_def dl_pends_def fun_eq_iff)

lemma dlsym_spec:
  assumes P: "host_in_user_space P" and ok: "dl_ok s" and run: "dlsym P t h symbol s = (p, s')"
  shows "dl_ok s' \<and> dl_spec t (Dlsym h symbol) (Address p) (dl_abs s) (dl_abs s')"
proof -
  have valid: "validate_dlsym_handle h (dl_registry s) = outcome_of (counts (dl_abs s) h)"
    using validate_counts ok by (simp add: dl_ok_def dl_abs_def)
  let ?bad = "h \<noteq> null \<and> h \<noteq> RTLD_NEXT \<and> outcome_of (counts (dl_abs s) h) \<noteq> Success"
  show ?thesis
  proof (cases ?bad)
    case True
    then have "classify_dlsym_handle h (dl_registry s) = Inl (outcome_of (counts (dl_abs s) h))"
      using valid by (simp add: classify_dlsym_handle_def)
    then have "fail_with_message t (dl_errnos s t) (handle_message (outcome_of (counts (dl_abs s) h))) s = (p, s')"
      using run by (simp add: dlsym_def Let_def)
    from fail_spec [OF this] show ?thesis using True ok by (simp add: dl_spec_def Let_def dl_ok_def)
  next
    case good: False
    then obtain k where k: "classify_dlsym_handle h (dl_registry s) = Inr k"
      using valid unfolding classify_dlsym_handle_def by (metis (full_types))
    show ?thesis
    proof (cases symbol)
      case None
      then have "fail_with_message t (dl_errnos s t) DLERROR_NULL_SYMBOL s = (p, s')"
        using run k by (simp add: dlsym_def Let_def)
      from fail_spec [OF this] show ?thesis using good None ok by (auto simp: dl_spec_def Let_def dl_ok_def)
    next
      case (Some name)
      have "dl_answers t s (dlsym P t h symbol s)"
        using k Some dlsym_internal_answers [OF P] dlsym_delegated_answers [OF P] resolved_address_nonnull [OF P]
        by (auto simp: dlsym_def Let_def intro: dl_answersI split: option.split)
      then have answers: "dl_answers t s (p, s')" by (simp add: run)
      show ?thesis using good Some ok answers_spec [OF answers] by (auto simp: dl_spec_def Let_def dl_ok_def)
    qed
  qed
qed

section \<open>Opening\<close>

definition dl_opening :: "bool \<Rightarrow> nat \<Rightarrow> 'h loader \<Rightarrow> addr \<times> 'h loader \<Rightarrow> bool" where
  "dl_opening sets_errno t s r \<longleftrightarrow>
     (\<exists>s1. only_host t s s1 \<and>
        (fst r = null \<and> (sets_errno \<longrightarrow> dl_errnos s1 t \<noteq> 0) \<and> (\<exists>m. snd r = set_dlerror_message t m s1) \<or>
         fst r \<noteq> null \<and> fst r < USIZE_MAX \<and>
         (\<exists>i m. snd r = set_dl_errno t (dl_errnos s t)
            (s1\<lparr>dl_registry := register_open_handle_with_origin (fst r) i m (dl_registry s1)\<rparr>))))"

lemma dl_opening_fails:
  "only_host t s s1 \<Longrightarrow> (b \<Longrightarrow> dl_errnos s1 t \<noteq> 0) \<Longrightarrow> dl_opening b t s (null, set_dlerror_message t m s1)"
  "only_host t s s1 \<Longrightarrow> (b \<Longrightarrow> dl_errnos s1 t \<noteq> 0) \<Longrightarrow> dl_opening b t s (null, set_dlerror_message_with_detail t m d s1)"
  "only_host t s s1 \<Longrightarrow> (b \<Longrightarrow> e \<noteq> 0) \<Longrightarrow> dl_opening b t s (dl_fail t e m s1)"
proof -
  show fails: "dl_opening b t s (null, set_dlerror_message t m s1)" if "only_host t s s1" "b \<Longrightarrow> dl_errnos s1 t \<noteq> 0" for m s1
    using that by (auto simp: dl_opening_def)
  show "dl_opening b t s (null, set_dlerror_message_with_detail t m d s1)" if "only_host t s s1" "b \<Longrightarrow> dl_errnos s1 t \<noteq> 0"
    using fails [OF that] with_detail_pends [of t m d s1] by metis
  show "dl_opening b t s (dl_fail t e m s1)" if "only_host t s s1" "b \<Longrightarrow> e \<noteq> 0"
    using fails [of "set_dl_errno t e s1" m] that by (simp add: dl_fail_def)
qed

lemma dl_opening_registered:
  assumes "only_host t s s1" "h \<noteq> null" "h < USIZE_MAX"
  shows "dl_opening b t s (dl_registered t h (register_open_handle h) (dl_errnos s t) s1)"
    "dl_opening b t s (dl_registered t h (register_open_internal_handle h) (dl_errnos s t) s1)"
    "dl_opening b t s (dl_registered t h (register_open_main_program_handle h) (dl_errnos s t) s1)"
  using assms by (auto simp: dl_opening_def dl_registered_def register_open_handle_def register_open_internal_handle_def
      register_open_main_program_handle_def)

lemma internal_handles_valid: "INTERNAL_MAIN_PROGRAM_HANDLE_ID \<noteq> null" "INTERNAL_MAIN_PROGRAM_HANDLE_ID < USIZE_MAX"
    "try_open_internal_elf P path x = Some h \<Longrightarrow> h \<noteq> null \<and> h < USIZE_MAX"
  by (auto simp: INTERNAL_MAIN_PROGRAM_HANDLE_ID_def INTERNAL_PROC_SELF_EXE_HANDLE_ID_def USIZE_MAX_def try_open_internal_elf_def split: if_splits)

lemma io_error_errno_nonzero: "fallback \<noteq> 0 \<Longrightarrow> io_error_errno error fallback \<noteq> 0"
proof -
  assume f: "fallback \<noteq> 0"
  have "v \<noteq> 0" if "io_error_kind_errno (kind error) = Some v" for v
    using that by (cases "kind error") (auto simp: dl_errno_defs ENOENT_def EBUSY_def EAGAIN_def ETIMEDOUT_def EACCES_def EINVAL_def)
  then show ?thesis using f by (auto simp: io_error_errno_def bind_eq_Some_conv split: option.split)
qed

lemma validate_elf_nonzero: "validate_elf_image P path x = Some e \<Longrightarrow> e \<noteq> 0"
proof -
  have "ENOENT \<noteq> (0 :: c_int)" "ENOEXEC \<noteq> (0 :: c_int)" by (simp_all add: ENOENT_def ENOEXEC_def)
  then show "validate_elf_image P path x = Some e \<Longrightarrow> e \<noteq> 0"
    by (auto simp: validate_elf_image_def open_loader_file_def io_error_errno_nonzero split: option.splits sum.splits if_splits)
qed

lemma call_dlopen_valid: "host_in_user_space P \<Longrightarrow> with_host t (call_dlopen P f name flags) s = (h, s') \<Longrightarrow> h < USIZE_MAX"
proof -
  assume P: "host_in_user_space P" and run: "with_host t (call_dlopen P f name flags) s = (h, s')"
  then have "h = fst (call_dlopen P f name flags (dl_errnos s t, dl_host s))" by (auto simp: with_host_def split: prod.splits)
  then have "h < 2 ^ 47" using P by (simp add: host_in_user_space_def)
  then show "h < USIZE_MAX" by (simp add: USIZE_MAX_def)
qed

lemma open_main_program_opening:
  assumes P: "host_in_user_space P"
  shows "dl_opening False t s (open_main_program P t flags (dl_errnos s t) s)"
proof (cases "host_dlopen P")
  case None
  then show ?thesis using internal_handles_valid
    by (auto simp: open_main_program_def intro!: dl_opening_fails dl_opening_registered split: option.split)
next
  case (Some f)
  let ?s = "clear_host_dlerror_state P t s"
  obtain h s1 where call: "with_host t (call_dlopen P f None flags) ?s = (h, s1)" by force
  then have host: "only_host t s s1" using only_host_trans [OF clear_host_only with_host_only] by (metis snd_conv)
  obtain d s2 where take: "take_host_dlerror_message P t (set_dl_errno t EINVAL s1) = (d, s2)" by force
  then have "only_host t (set_dl_errno t EINVAL s1) s2" using take_host_only by (metis snd_conv)
  then have host2: "only_host t s s2" using host only_host_trans by (metis only_host_errno)
  show ?thesis using Some call take call_dlopen_valid [OF P call]
    by (auto simp: open_main_program_def Let_def intro!: dl_opening_fails(2) [OF host2] dl_opening_registered [OF host])
qed

lemma open_path_opening:
  assumes P: "host_in_user_space P"
  shows "dl_opening True t s (open_path P t path flags (dl_errnos s t) s)"
proof (cases "validate_elf_image P path (dl_host s)")
  case (Some e)
  have "e \<noteq> 0" using validate_elf_nonzero [OF Some] .
  then show ?thesis using Some by (auto simp: open_path_def Let_def intro!: dl_opening_fails)
next
  case valid: None
  have EINVAL: "EINVAL \<noteq> (0 :: c_int)" by (simp add: EINVAL_def)
  show ?thesis
  proof (cases "try_open_internal_elf P path (dl_host s)")
    case (Some h)
    then show ?thesis using valid internal_handles_valid(3) [OF Some] by (auto simp: open_path_def intro: dl_opening_registered)
  next
    case external: None
    show ?thesis
    proof (cases "host_dlopen P")
      case None
      then show ?thesis using valid external EINVAL by (auto simp: open_path_def intro: dl_opening_fails)
    next
      case (Some f)
      let ?s = "clear_host_dlerror_state P t s"
      obtain h s1 where call: "with_host t (call_dlopen P f (Some path) flags) ?s = (h, s1)" by force
      then have host: "only_host t s s1" using only_host_trans [OF clear_host_only with_host_only] by (metis snd_conv)
      obtain d s2 where take: "take_host_dlerror_message P t s1 = (d, s2)" by force
      let ?e = "io_error_errno (last_os_error (dl_errnos s1 t)) EINVAL"
      have "only_host t s1 s2" using take_host_only take by (metis snd_conv)
      then have host2: "only_host t s (set_dl_errno t ?e s2)" using host only_host_trans by (metis only_host_errno)
      have "?e \<noteq> 0" using io_error_errno_nonzero [OF EINVAL] .
      then show ?thesis using valid external Some call take call_dlopen_valid [OF P call]
        by (auto simp: open_path_def Let_def intro!: dl_opening_fails(2) [OF host2] dl_opening_registered [OF host])
    qed
  qed
qed

lemma dl_opening_spec:
  assumes op: "dl_opening (filename \<noteq> None) t s (h, s')" and ok: "dl_ok s" and flags: "validate_dlopen_flags flags = None"
    and few: "\<And>h n. open_count (dl_registry s) h = Some n \<Longrightarrow> n < USIZE_MAX"
  shows "dl_ok s' \<and> dl_spec t (Dlopen filename flags) (Handle h) (dl_abs s) (dl_abs s')"
proof -
  obtain s1 where s1: "only_host t s s1" "h = null \<and> (filename \<noteq> None \<longrightarrow> dl_errnos s1 t \<noteq> 0) \<and> (\<exists>m. s' = set_dlerror_message t m s1) \<or>
      h \<noteq> null \<and> h < USIZE_MAX \<and> (\<exists>i m. s' = set_dl_errno t (dl_errnos s t)
        (s1\<lparr>dl_registry := register_open_handle_with_origin h i m (dl_registry s1)\<rparr>))"
    using op by (auto simp: dl_opening_def)
  have reg: "dl_registry_ok (dl_registry s)" "dl_registry s1 = dl_registry s" using ok s1(1) by (simp_all add: dl_ok_def only_host_def)
  show ?thesis
  proof (cases "h = null")
    case True
    then obtain m where m: "filename \<noteq> None \<longrightarrow> dl_errnos s1 t \<noteq> 0" "s' = set_dlerror_message t m s1" using s1(2) by auto
    have "dl_errnos s1 = (dl_errnos s)(t := dl_errnos s1 t)" using s1(1) by (auto simp: only_host_def)
    then have "dl_abs s' = (dl_pends t (dl_message m) (dl_abs s))\<lparr>errnos := (errnos (dl_abs s))(t := dl_errnos s1 t)\<rparr>"
      unfolding m(2) dl_abs_pends [OF s1(1)] by (simp add: dl_abs_def)
    then show ?thesis using True flags m reg by (auto simp: dl_spec_def dl_ok_def)
  next
    case False
    then obtain i m where h: "h < USIZE_MAX" and s': "s' = set_dl_errno t (dl_errnos s t)
        (s1\<lparr>dl_registry := register_open_handle_with_origin h i m (dl_registry s)\<rparr>)" using s1(2) reg by auto
    have counts: "dl_registry_ok (register_open_handle_with_origin h i m (dl_registry s))"
      "open_count (register_open_handle_with_origin h i m (dl_registry s)) = opens h (open_count (dl_registry s))"
      using register_counts [OF reg(1) False h] few by blast+
    have "dl_abs s' = (dl_abs s)\<lparr>counts := opens h (counts (dl_abs s))\<rparr>"
      using counts only_host_restored [OF s1(1)] s1(1) by (simp add: s' dl_abs_def only_host_def)
    then show ?thesis using False flags counts by (simp add: dl_spec_def dl_ok_def s')
  qed
qed

lemma dlopen_spec:
  assumes P: "host_in_user_space P" and ok: "dl_ok s" and run: "dlopen P t filename flags s = (h, s')"
    and few: "\<And>h n. open_count (dl_registry s) h = Some n \<Longrightarrow> n < USIZE_MAX"
  shows "dl_ok s' \<and> dl_spec t (Dlopen filename flags) (Handle h) (dl_abs s) (dl_abs s')"
proof (cases "validate_dlopen_flags flags")
  case (Some e)
  then have "e = EINVAL" by (auto simp: validate_dlopen_flags_def Let_def split: if_splits)
  then have "h = null" "s' = set_dlerror_message t DLERROR_DLOPEN_INVALID_FLAGS (set_dl_errno t EINVAL s)"
    using run Some by (simp_all add: dlopen_def dl_fail_def)
  then show ?thesis using Some ok by (simp add: dl_spec_def dl_ok_def dl_abs_def dl_pends_def fun_eq_iff)
next
  case None
  have "dl_opening (filename \<noteq> None) t s (h, s')"
    using run None open_main_program_opening [OF P, of t s flags] open_path_opening [OF P, of t s _ flags]
    by (cases filename) (simp_all add: dlopen_def Let_def, metis)
  then show ?thesis by (rule dl_opening_spec [OF _ ok None few])
qed

section \<open>Sequences of calls\<close>

lemma run_dl_spec:
  assumes "host_in_user_space P" "dl_ok s" "run_dl P t c s = (r, s')" "\<And>h n. open_count (dl_registry s) h = Some n \<Longrightarrow> n < USIZE_MAX"
  shows "dl_ok s' \<and> dl_spec t c r (dl_abs s) (dl_abs s')"
proof (cases c)
  case (Dlopen filename flags)
  then obtain h where h: "dlopen P t filename flags s = (h, s')" "r = Handle h" using assms(3) by (cases "dlopen P t filename flags s") (simp add: run_dl_def)
  have "dl_ok s' \<and> dl_spec t (Dlopen filename flags) (Handle h) (dl_abs s) (dl_abs s')"
    by (rule dlopen_spec [OF assms(1,2) h(1)]) (rule assms(4))
  then show ?thesis using Dlopen h(2) by simp
next
  case (Dlclose h)
  then show ?thesis using assms(3) dlclose_spec [OF assms(2), of t h] by (cases "dlclose t h s") (simp add: run_dl_def)
next
  case (Dlsym h symbol)
  then show ?thesis using assms(3) dlsym_spec [OF assms(1,2), of t h symbol] by (cases "dlsym P t h symbol s") (simp add: run_dl_def)
next
  case Dlerror
  then show ?thesis using assms(3) dlerror_spec [OF assms(2), of t] by (cases "dlerror t s") (simp add: run_dl_def)
qed

definition opened_at_most :: "nat \<Rightarrow> dl_abstract \<Rightarrow> bool" where
  "opened_at_most k a \<longleftrightarrow> (\<forall>h n. counts a h = Some n \<longrightarrow> n \<le> k)"

lemma opens_at_most: "opened_at_most k a \<Longrightarrow> opens h (counts a) x = Some n \<Longrightarrow> n \<le> Suc k"
  unfolding opened_at_most_def opens_def by (auto split: if_splits option.splits) (metis le_SucI)

lemma closes_at_most: "opened_at_most k a \<Longrightarrow> closes h (counts a) x = Some n \<Longrightarrow> n \<le> Suc k"
  unfolding opened_at_most_def closes_def by (auto split: if_splits option.splits) (metis diff_le_self le_SucI le_trans)+

lemma dl_spec_counts: "dl_spec t c r a a' \<Longrightarrow> \<exists>h. counts a' = counts a \<or> counts a' = opens h (counts a) \<or> counts a' = closes h (counts a)"
  by (cases c; cases r) (auto simp: dl_spec_def dl_pends_def Let_def split: if_splits)

lemma dl_spec_at_most: "dl_spec t c r a a' \<Longrightarrow> opened_at_most k a \<Longrightarrow> opened_at_most (Suc k) a'"
  using dl_spec_counts [of t c r a a'] opens_at_most [of k a] closes_at_most [of k a]
  by (auto simp: opened_at_most_def le_SucI)

lemma run_dl_calls_spec:
  assumes P: "host_in_user_space P"
  shows "dl_ok s \<Longrightarrow> opened_at_most k (dl_abs s) \<Longrightarrow> k + length cs \<le> USIZE_MAX \<Longrightarrow>
    dl_spec_run (dl_abs s) cs (fst (run_dl_calls P cs s)) (dl_abs (snd (run_dl_calls P cs s)))"
proof (induction cs arbitrary: s k)
  case (Cons c cs)
  obtain r s1 where run: "run_dl P (fst c) (snd c) s = (r, s1)" by force
  have few: "n < USIZE_MAX" if "open_count (dl_registry s) h = Some n" for h n
  proof -
    have "n \<le> k" using that Cons.prems(2) by (auto simp: opened_at_most_def dl_abs_def)
    then show ?thesis using Cons.prems(3) by simp
  qed
  have "dl_ok s1 \<and> dl_spec (fst c) (snd c) r (dl_abs s) (dl_abs s1)"
    by (rule run_dl_spec [OF P Cons.prems(1) run]) (rule few)
  then have spec: "dl_ok s1" "dl_spec (fst c) (snd c) r (dl_abs s) (dl_abs s1)" by blast+
  have "opened_at_most (Suc k) (dl_abs s1)" using dl_spec_at_most [OF spec(2) Cons.prems(2)] .
  then have "dl_spec_run (dl_abs s1) cs (fst (run_dl_calls P cs s1)) (dl_abs (snd (run_dl_calls P cs s1)))"
    using Cons.IH [OF spec(1)] Cons.prems(3) by simp
  then show ?case using run spec(2) by (auto simp: Let_def split: prod.split)
qed simp

text \<open>
  A host with one library, at 4096: \<^verbatim>\<open>dlopen\<close> and \<^verbatim>\<open>dlsym\<close> of the host are at 16 and 24, its \<^verbatim>\<open>dlerror\<close> is not found. The state of the
  host is not used.
\<close>

definition small_host :: "unit dl_platform" where
  "small_host =
     \<lparr>link = (\<lambda>item. 1000 + length item),
      host_dlvsym = (\<lambda>h name version. if name = ''dlopen'' then 16 else if name = ''dlsym'' then 24 else 0),
      host_dlsym_unversioned = (\<lambda>h name. 0),
      call_dlopen = (\<lambda>f name flags (e, x). (if name = Some [108, 0x62] then (4096, 0, x) else (0, 2, x))),
      call_dlsym = (\<lambda>f h name (e, x). (if h = 4096 \<and> name = [102] then (5000, 0, x) else (0, e, x))),
      call_dlerror = (\<lambda>f (e, x). (None, e, x)),
      open_file = (\<lambda>path x. None),
      read_exact_4 = (\<lambda>path x. Inr ELF_MAGIC),
      canonicalize = (\<lambda>path x. None)\<rparr>"

lemma small_host_in_user_space: "host_in_user_space small_host"
  by (auto simp: host_in_user_space_def small_host_def split: prod.split)

definition no_loader :: "unit loader" where
  "no_loader = \<lparr>dl_registry = dl_registry_new, dl_errors = (\<lambda>t. \<lparr>pending_message = None, last_returned_message = None\<rparr>),
     dl_errnos = (\<lambda>t. 0), dl_host = ()\<rparr>"

lemma small_host_functions: "host_dlopen small_host = Some 16" "host_dlsym small_host = Some 24" "host_dlerror small_host = None"
  by (simp_all add: host_dlopen_def host_dlsym_def host_dlerror_def resolve_host_symbol_def resolve_host_symbol_from_handle_def
      GLIBC_DLSYM_VERSION_CANDIDATES_def resolve_rlibc_dlfcn_symbol_def small_host_def Let_def)

lemma small_paths: "is_proc_self_exe_path [108, 0x62] = False" "validate_dlopen_flags 2 = None"
  by code_simp+

definition opened_once :: "unit loader" where
  "opened_once = no_loader\<lparr>dl_registry := register_open_handle 4096 dl_registry_new\<rparr>"

lemma small_open: "dlopen small_host t (Some [108, 0x62]) 2 no_loader = (4096, opened_once)"
proof -
  have "validate_elf_image small_host [108, 0x62] () = None"
    by (simp add: validate_elf_image_def open_loader_file_def small_host_def)
  moreover have "try_open_internal_elf small_host [108, 0x62] () = None"
    by (simp add: try_open_internal_elf_def is_internal_loader_executable_path_def small_paths) (simp add: small_host_def)
  moreover have "call_dlopen small_host f (Some [108, 0x62]) 2 (e, ()) = (4096, 0, ())" for f e by (simp add: small_host_def)
  ultimately show ?thesis
    by (simp add: dlopen_def open_path_def small_paths small_host_functions clear_host_dlerror_state_def with_host_def dl_registered_def
        opened_once_def no_loader_def set_dl_errno_def Let_def fun_upd_idem)
qed

lemma opened_once_handle: "handles (dl_registry opened_once) = [4096 \<mapsto> Open 1]" "internal_handles (dl_registry opened_once) = {}"
    "main_program_handles (dl_registry opened_once) = {}" "dl_registry_ok (dl_registry opened_once)"
proof -
  have small: "(4096 :: nat) \<noteq> null" "(4096 :: nat) < USIZE_MAX" by (simp_all add: USIZE_MAX_def)
  have new: "open_count dl_registry_new h \<noteq> Some n" for h n by (simp add: dl_registry_ok_new)
  note f = registered_handles [OF dl_registry_ok_new(1) small new, of False False]
  show "handles (dl_registry opened_once) = [4096 \<mapsto> Open 1]" "internal_handles (dl_registry opened_once) = {}"
    "main_program_handles (dl_registry opened_once) = {}"
    by (simp_all add: opened_once_def register_open_handle_def f dl_registry_ok_new) (simp_all add: dl_registry_new_def)
  show "dl_registry_ok (dl_registry opened_once)"
    using register_counts(1) [OF dl_registry_ok_new(1) small, of False False] new by (simp add: opened_once_def register_open_handle_def)
qed

lemma opened_once_simps: "dl_errnos opened_once t = 0" "dl_host opened_once = ()" "set_dl_errno t 0 opened_once = opened_once"
    "opened_once\<lparr>dl_host := ()\<rparr> = opened_once"
  by (simp_all add: opened_once_def no_loader_def set_dl_errno_def fun_upd_idem)

lemma small_sym: "dlsym small_host t 4096 (Some [102]) opened_once = (5000, opened_once)"
proof -
  have "classify_dlsym_handle 4096 (dl_registry opened_once) = Inr External"
    by (simp add: classify_dlsym_handle_def validate_dlsym_handle_def is_main_program_open_handle_def is_internal_open_handle_def
        opened_once_handle RTLD_NEXT_def USIZE_MAX_def)
  moreover have "call_dlsym small_host f 4096 [102] (0, ()) = (5000, 0, ())" for f by (simp add: small_host_def)
  ultimately show ?thesis
    by (simp add: dlsym_def dlsym_delegated_def perform_host_dlsym_lookup_def small_host_functions clear_host_dlerror_state_def with_host_def
        opened_once_simps Let_def)
qed

definition closed_once :: "unit loader" where
  "closed_once = opened_once\<lparr>dl_registry := (dl_registry opened_once)\<lparr>handles := [4096 \<mapsto> Closed]\<rparr>\<rparr>"

lemma small_close: "dlclose t 4096 opened_once = (DLCLOSE_SUCCESS, closed_once)"
  by (simp add: dlclose_def close_handle_def opened_once_handle closed_once_def TRACKABLE_NULL_HANDLE_ID_def)

lemma small_close_again: "dlclose t 4096 closed_once = (DLCLOSE_FAILURE, set_dlerror_message t DLERROR_ALREADY_CLOSED closed_once)"
proof -
  have "clear_trackable_null_handle_entry (dl_registry closed_once) = dl_registry closed_once"
    by (simp add: clear_trackable_null_handle_entry_def closed_once_def opened_once_handle TRACKABLE_NULL_HANDLE_ID_def fun_upd_idem)
  moreover have "handles (dl_registry closed_once) 4096 = Some Closed" by (simp add: closed_once_def)
  ultimately show ?thesis by (simp add: dlclose_def close_handle_def TRACKABLE_NULL_HANDLE_ID_def)
qed

text \<open>
  C34. The dynamic loader behaves as one that counts the opens of each handle and keeps one message per thread. In every sequence of calls of
  \<^verbatim>\<open>dlopen\<close>, \<^verbatim>\<open>dlclose\<close>, \<^verbatim>\<open>dlsym\<close> and \<^verbatim>\<open>dlerror\<close> by any threads from a fresh registry, a successful open adds one to the count of its handle and
  leaves errno as it was, whatever the host did to it; invalid flags give \<^verbatim>\<open>EINVAL\<close> and their message, and every failing open leaves a message and,
  when it was given a name, a nonzero errno. A close succeeds exactly while the count is positive and otherwise reports whether the handle was
  closed before or never opened; \<^verbatim>\<open>dlsym\<close> refuses such handles the same way, changes neither counts nor errno, and leaves a message exactly when it returns null;
  \<^verbatim>\<open>dlerror\<close> gives the last message of its thread once. The bound on the calls is where a saturating count would stop counting.
\<close>

theorem dl_calls_refine:
  assumes "host_in_user_space P" "dl_registry s = dl_registry_new" "length cs \<le> USIZE_MAX"
  shows "dl_spec_run (dl_abs s) cs (fst (run_dl_calls P cs s)) (dl_abs (snd (run_dl_calls P cs s)))"
proof (rule run_dl_calls_spec [where k = 0])
  show "dl_ok s" "opened_at_most 0 (dl_abs s)"
    using assms(2) dl_registry_ok_new by (simp_all add: dl_ok_def opened_at_most_def dl_abs_def)
qed (use assms in simp_all)

lemma dl_calls_refine_witness:
  "let cs = [(0, Dlopen (Some [108, 0x62]) 2), (1, Dlsym 4096 (Some [102])), (1, Dlclose 4096), (1, Dlclose 4096), (1, Dlerror)];
       run = run_dl_calls small_host cs no_loader in
   fst run = [Handle 4096, Address 5000, Code 0, Code (- 1), Message (Some (dl_message DLERROR_ALREADY_CLOSED))] \<and>
   dl_spec_run (dl_abs no_loader) cs (fst run) (dl_abs (snd run))"
proof -
  let ?cs = "[(0 :: nat, Dlopen (Some [108, 0x62]) 2), (1, Dlsym 4096 (Some [102])), (1, Dlclose 4096), (1, Dlclose 4096), (1, Dlerror)]"
  have "fst (run_dl_calls small_host ?cs no_loader) =
      [Handle 4096, Address 5000, Code 0, Code (- 1), Message (Some (dl_message DLERROR_ALREADY_CLOSED))]"
    using small_open small_sym small_close small_close_again
    by (simp add: run_dl_def dlerror_def take_message_ptr_def DLCLOSE_SUCCESS_def DLCLOSE_FAILURE_def)
  moreover have "dl_spec_run (dl_abs no_loader) ?cs (fst (run_dl_calls small_host ?cs no_loader)) (dl_abs (snd (run_dl_calls small_host ?cs no_loader)))"
    by (rule dl_calls_refine [OF small_host_in_user_space]) (simp_all add: no_loader_def USIZE_MAX_def)
  ultimately show ?thesis unfolding Let_def by blast
qed

end
