(* ===== verification/Dl_Scope.thy ===== *)
theory Dl_Scope
  imports Dl_Loader
begin

text \<open>
  Where \<^verbatim>\<open>dlsym\<close> looks for a symbol, and the message of a symbol that is not found.
\<close>

section \<open>Scopes\<close>

definition if_null :: "addr \<Rightarrow> addr \<Rightarrow> addr" where
  "if_null a b = (if a = null then b else a)"

definition own_symbol :: "'h dl_platform \<Rightarrow> u8 list \<Rightarrow> addr" where
  "own_symbol P symbol = (case resolved_address P symbol of None \<Rightarrow> null | Some p \<Rightarrow> p)"

definition host_symbol :: "'h dl_platform \<Rightarrow> nat \<Rightarrow> addr \<Rightarrow> u8 list \<Rightarrow> 'h loader \<Rightarrow> addr" where
  "host_symbol P t h symbol s = (case fst (perform_host_dlsym_lookup P t h symbol s) of None \<Rightarrow> null | Some (p, _) \<Rightarrow> p)"

definition symbol_in_scope :: "'h dl_platform \<Rightarrow> nat \<Rightarrow> addr \<Rightarrow> u8 list \<Rightarrow> 'h loader \<Rightarrow> DlsymHandleKind \<Rightarrow> addr" where
  "symbol_in_scope P t h symbol s k =
     (case k of
        Default \<Rightarrow> if_null (own_symbol P symbol) (host_symbol P t null symbol s)
      | MainProgram \<Rightarrow> if_null (own_symbol P symbol) (host_symbol P t (if h = INTERNAL_MAIN_PROGRAM_HANDLE_ID then null else h) symbol s)
      | Internal \<Rightarrow> if_null (own_symbol P symbol) (if h = INTERNAL_PROC_SELF_EXE_HANDLE_ID then host_symbol P t null symbol s else null)
      | Next \<Rightarrow> if_null (host_symbol P t h symbol s) (own_symbol P symbol)
      | External \<Rightarrow> host_symbol P t h symbol s)"

lemmas scope_defs = symbol_in_scope_def if_null_def own_symbol_def host_symbol_def missing_symbol_def fail_with_message_def Let_def

lemma dlsym_scope_delegated:
  assumes P: "host_in_user_space P" and "k \<noteq> Internal" "k \<in> {Default, MainProgram} \<Longrightarrow> resolved_address P symbol = None"
  shows "fst (dlsym_delegated P t h symbol e k s) = symbol_in_scope P t h symbol s k"
  using assms(2,3) resolved_address_nonnull [OF P]
  by (cases k) (auto simp: dlsym_delegated_def scope_defs split: prod.split option.split)

lemma dlsym_scope_internal:
  assumes P: "host_in_user_space P"
  shows "fst (dlsym_internal P t h symbol e s) = symbol_in_scope P t h symbol s Internal"
  using resolved_address_nonnull [OF P]
  by (auto simp: dlsym_internal_def scope_defs split: prod.split option.split)

lemma scope_own: "host_in_user_space P \<Longrightarrow> resolved_address P symbol = Some p \<Longrightarrow> k \<in> {Default, MainProgram, Internal} \<Longrightarrow>
    symbol_in_scope P t h symbol s k = p"
  using resolved_address_nonnull [of P symbol p] by (auto simp: scope_defs)

lemma dlsym_scoped:
  assumes P: "host_in_user_space P" and k: "classify_dlsym_handle h (dl_registry s) = Inr k"
  shows "fst (dlsym P t h (Some symbol) s) = symbol_in_scope P t h symbol s k"
proof (cases "k = Internal")
  case True
  then show ?thesis using k dlsym_scope_internal [OF P] by (simp add: dlsym_def Let_def)
next
  case False
  then show ?thesis using k dlsym_scope_delegated [OF P False] scope_own [OF P, of symbol _ k t h s]
    by (auto simp: dlsym_def Let_def split: option.split)
qed

lemma set_same_errno: "set_dl_errno t (dl_errnos s t) s = s"
  by (simp add: set_dl_errno_def)

lemma dlsym_own:
  assumes k: "classify_dlsym_handle h (dl_registry s) = Inr k" "k \<in> {Default, MainProgram, Internal}"
    and own: "resolved_address P symbol = Some p"
  shows "dlsym P t h (Some symbol) s = (p, s)"
  using assms by (auto simp: dlsym_def dlsym_internal_def Let_def set_same_errno)

text \<open>An address of the library is that of an item with the name of the symbol.\<close>

lemma own_symbol_item: "resolved_address P symbol = Some p \<Longrightarrow>
    \<exists>item. p = link P item \<and> path_item item \<in> {map (\<lambda>b. char_of (unat b)) symbol, map (\<lambda>b. char_of (unat b)) symbol @ ''_c_abi''}"
  using resolved_item by (fastforce simp: resolved_address_def)



section \<open>The message of a missing symbol\<close>

definition missing_symbol_text :: "u8 list \<Rightarrow> str option \<Rightarrow> str" where
  "missing_symbol_text symbol detail =
     DLERROR_SYMBOL_NOT_FOUND @ str_of '': '' @ (if symbol = [] then str_of ''<empty symbol>'' else to_string_lossy symbol) @
     (case detail of None \<Rightarrow> [] | Some d \<Rightarrow> str_of '': '' @ d)"

text \<open>The part of the host's detail that is kept: what follows the repeated labels and colons, when anything does.\<close>

definition detail_kept :: "u8 list \<Rightarrow> str option \<Rightarrow> str option \<Rightarrow> bool" where
  "detail_kept symbol detail kept \<longleftrightarrow>
     (case (detail, kept) of
        (None, None) \<Rightarrow> True
      | (None, Some r) \<Rightarrow> False
      | (Some d, None) \<Rightarrow> symbol = [] \<or> filler (to_string_lossy symbol) (trim d)
      | (Some d, Some r) \<Rightarrow>
          symbol \<noteq> [] \<and> trimmed r \<and> \<not> repeats_label (to_string_lossy symbol) r \<and>
          (\<exists>xs. filler (to_string_lossy symbol) xs \<and> trim d = xs @ r))"

lemma dlerror_after_message: "fst (dlerror t (set_dlerror_message t m s)) = Some (dl_message m)"
  by (simp add: dlerror_def take_message_ptr_def set_pending_message_def dl_message_def)

text \<open>
  After \<^verbatim>\<open>dlsym\<close> did not find a symbol, \<^verbatim>\<open>dlerror\<close> gives the fixed text with the name of the symbol and what the host's own message adds to it: the
  rest of the host's text behind every leading copy of the name, colon and white space, without white space around it and never
  beginning with the name and a colon again; nothing is appended only when the host's text is made of such pieces alone.
\<close>

theorem missing_symbol_reported:
  "\<exists>kept. detail_kept symbol detail kept \<and>
     fst (dlerror t (set_dlsym_missing_symbol_message t symbol detail s)) = Some (dl_message (missing_symbol_text symbol kept))"
proof (cases "symbol = []")
  case True
  then show ?thesis
    by (intro exI [of _ None])
      (simp add: str_of_def set_dlsym_missing_symbol_message_def dlerror_after_message missing_symbol_text_def detail_kept_def split: option.split)
next
  case False
  let ?l = "to_string_lossy symbol"
  let ?kept = "Option.bind detail (normalize_dlsym_missing_symbol_detail ?l)"
  have "detail_kept symbol detail ?kept"
    using False normalized_detail [of ?l] no_normalized_detail [of ?l]
    by (cases detail; cases ?kept) (auto simp: detail_kept_def)
  moreover have "trim r = r \<and> r \<noteq> []" if "?kept = Some r" for r
    using that normalized_detail [of ?l _ r] by (auto simp: bind_eq_Some_conv trim_of_trimmed trimmed_def)
  then have "set_dlsym_missing_symbol_message t symbol detail s = set_dlerror_message t (missing_symbol_text symbol ?kept) s"
    using False by (cases ?kept) (simp_all add: set_dlsym_missing_symbol_message_def set_dlerror_message_with_detail_def Let_def missing_symbol_text_def)
  then have "fst (dlerror t (set_dlsym_missing_symbol_message t symbol detail s)) = Some (dl_message (missing_symbol_text symbol ?kept))"
    by (simp add: dlerror_after_message)
  ultimately show ?thesis by blast
qed

end
