(* ===== verification/Net_Addr.thy ===== *)
theory Net_Addr
  imports Rust_Text
begin

text \<open>
  Numeric addresses as text: \<^verbatim>\<open>FromStr\<close> and \<^verbatim>\<open>Display\<close> of Rust's \<^verbatim>\<open>Ipv4Addr\<close> and \<^verbatim>\<open>Ipv6Addr\<close>, which \<^verbatim>\<open>src/src/netdb.rs\<close>
  uses, and what is printed reads back.
\<close>

section \<open>The parser\<close>

definition DOT_CHAR :: int where "DOT_CHAR = 46"

definition read_char :: "int \<Rightarrow> str \<Rightarrow> str option" where
  "read_char c s = (case s of [] \<Rightarrow> None | x # t \<Rightarrow> if x = c then Some t else None)"

text \<open>At most \<open>max_digits\<close> digits, at most \<open>limit\<close>, and no leading zero unless that is allowed.\<close>

definition read_number :: "nat \<Rightarrow> nat \<Rightarrow> bool \<Rightarrow> nat \<Rightarrow> str \<Rightarrow> (nat \<times> str) option" where
  "read_number radix max_digits allow_zero_prefix limit s =
     (let ds = takeWhile (is_digit radix) s;
          value = digits_value radix ds in
      if ds = [] \<or> max_digits < length ds \<or> \<not> allow_zero_prefix \<and> hd ds = 48 \<and> 1 < length ds \<or> limit < value then None
      else Some (value, dropWhile (is_digit radix) s))"

definition read_separator :: "int \<Rightarrow> nat \<Rightarrow> (str \<Rightarrow> 'a option) \<Rightarrow> str \<Rightarrow> 'a option" where
  "read_separator sep i inner s = (if 0 < i then Option.bind (read_char sep s) inner else inner s)"

definition read_octet :: "str \<Rightarrow> (nat \<times> str) option" where
  "read_octet = read_number 10 3 False 255"

definition read_ipv4_addr :: "str \<Rightarrow> (nat list \<times> str) option" where
  "read_ipv4_addr s = do {
     (a, s) \<leftarrow> read_octet s;
     (b, s) \<leftarrow> read_separator DOT_CHAR 1 read_octet s;
     (c, s) \<leftarrow> read_separator DOT_CHAR 2 read_octet s;
     (d, s) \<leftarrow> read_separator DOT_CHAR 3 read_octet s;
     Some ([a, b, c, d], s) }"

definition ipv4_from_str :: "str \<Rightarrow> u8 list option" where
  "ipv4_from_str s =
     (if 15 < length (utf8_bytes s) then None
      else case read_ipv4_addr s of
             Some (octets, []) \<Rightarrow> Some (map word_of_nat octets)
           | _ \<Rightarrow> None)"

text \<open>Groups of an IPv6 address, at most as many as the first argument; the flag says that they end with an IPv4 address.\<close>

primrec read_groups :: "nat \<Rightarrow> nat \<Rightarrow> str \<Rightarrow> nat list \<times> bool \<times> str" where
  "read_groups 0 i s = ([], False, s)"
| "read_groups (Suc k) i s =
     (case if 0 < k then read_separator COLON i read_ipv4_addr s else None of
        Some (v4, t) \<Rightarrow> ([256 * v4 ! 0 + v4 ! 1, 256 * v4 ! 2 + v4 ! 3], True, t)
      | None \<Rightarrow>
          (case read_separator COLON i (read_number 16 4 True 65535) s of
             Some (g, t) \<Rightarrow> (case read_groups k (Suc i) t of (gs, v4, u) \<Rightarrow> (g # gs, v4, u))
           | None \<Rightarrow> ([], False, s)))"

definition read_ipv6_addr :: "str \<Rightarrow> (nat list \<times> str) option" where
  "read_ipv6_addr s =
     (case read_groups 8 0 s of (head, head_ipv4, s) \<Rightarrow>
        if length head = 8 then Some (head, s)
        else if head_ipv4 then None
        else do {
          s \<leftarrow> read_char COLON s;
          s \<leftarrow> read_char COLON s;
          case read_groups (7 - length head) 0 s of (tail, _, s) \<Rightarrow>
            Some (head @ replicate (8 - length head - length tail) 0 @ tail, s) })"

text \<open>Segments and bytes.\<close>

definition segment_bytes :: "nat \<Rightarrow> u8 list" where
  "segment_bytes g = [word_of_nat (g div 256), word_of_nat (g mod 256)]"

fun segments :: "u8 list \<Rightarrow> nat list" where
  "segments (a # b # bs) = (256 * unat a + unat b) # segments bs"
| "segments _ = []"

definition ipv6_from_str :: "str \<Rightarrow> u8 list option" where
  "ipv6_from_str s = (case read_ipv6_addr s of Some (gs, []) \<Rightarrow> Some (concat (map segment_bytes gs)) | _ \<Rightarrow> None)"

section \<open>Printing\<close>

fun join :: "int \<Rightarrow> str list \<Rightarrow> str" where
  "join sep [] = []"
| "join sep [x] = x"
| "join sep (x # xs) = x @ sep # join sep xs"

definition ipv4_to_string :: "u8 list \<Rightarrow> str" where
  "ipv4_to_string bs = join DOT_CHAR (map (\<lambda>b. radix_text 10 (unat b)) bs)"

text \<open>The first longest run of zero segments, by its start and its length.\<close>

fun zero_span :: "nat \<Rightarrow> nat \<times> nat \<Rightarrow> nat \<times> nat \<Rightarrow> nat list \<Rightarrow> nat \<times> nat" where
  "zero_span i current longest [] = longest"
| "zero_span i current longest (g # gs) =
     (if g = 0 then
        (let current = (if snd current = 0 then i else fst current, Suc (snd current)) in
         zero_span (Suc i) current (if snd longest < snd current then current else longest) gs)
      else zero_span (Suc i) (0, 0) longest gs)"

definition group_text :: "nat list \<Rightarrow> str" where
  "group_text gs = join COLON (map (radix_text 16) gs)"

definition ipv6_to_string :: "u8 list \<Rightarrow> str" where
  "ipv6_to_string bs =
     (let gs = segments bs in
      if take 6 gs = [0, 0, 0, 0, 0, 65535] then str_of ''::ffff:'' @ ipv4_to_string (drop 12 bs)
      else
        (case zero_span 0 (0, 0) (0, 0) gs of (start, len) \<Rightarrow>
           if 1 < len then group_text (take start gs) @ str_of ''::'' @ group_text (drop (start + len) gs)
           else group_text gs))"

section \<open>Reading back what is printed\<close>

lemma takeWhile_stop: "\<forall>x\<in>set xs. P x \<Longrightarrow> ys = [] \<or> \<not> P (hd ys) \<Longrightarrow> takeWhile P (xs @ ys) = xs"
  by (cases ys) auto

lemma dropWhile_stop: "\<forall>x\<in>set xs. P x \<Longrightarrow> ys = [] \<or> \<not> P (hd ys) \<Longrightarrow> dropWhile P (xs @ ys) = ys"
  by (cases ys) auto

lemma read_number_text:
  assumes radix: "2 \<le> radix" "radix \<le> 16" and n: "n \<le> limit" "n < radix ^ k" "0 < k"
    and rest: "rest = [] \<or> \<not> is_digit radix (hd rest)"
  shows "read_number radix k z limit (radix_text radix n @ rest) = Some (n, rest)"
proof -
  let ?t = "radix_text radix n"
  have "takeWhile (is_digit radix) (?t @ rest) = ?t" "dropWhile (is_digit radix) (?t @ rest) = rest"
    by (rule takeWhile_stop [OF radix_text_digits [OF radix] rest], rule dropWhile_stop [OF radix_text_digits [OF radix] rest])
  moreover have "\<not> (hd ?t = 48 \<and> 1 < length ?t)"
    using radix_text_head [OF radix, of n] radix_text_zero [OF radix(1)] by auto
  ultimately show ?thesis
    using digits_value_text [OF radix, of n] radix_text_length [OF radix(1) n(3,2)] n(1)
    by (auto simp: read_number_def Let_def)
qed

lemma not_digits [simp]: "\<not> is_digit 10 DOT_CHAR" "\<not> is_digit 10 COLON" "\<not> is_digit 16 COLON" "\<not> is_digit 16 DOT_CHAR"
  by (simp_all add: is_digit_def to_digit_def DOT_CHAR_def COLON_def)

lemma colon_dot [simp]: "COLON \<noteq> DOT_CHAR" "DOT_CHAR \<noteq> COLON"
  by (simp_all add: COLON_def DOT_CHAR_def)

lemma read_octet_text: "n < 256 \<Longrightarrow> rest = [] \<or> \<not> is_digit 10 (hd rest) \<Longrightarrow> read_octet (radix_text 10 n @ rest) = Some (n, rest)"
  unfolding read_octet_def by (rule read_number_text) auto

lemma read_char_same [simp]: "read_char c (c # s) = Some s"
  by (simp add: read_char_def)

lemma list_of_4: "length bs = 4 \<Longrightarrow> \<exists>a b c d. bs = [a, b, c, d]"
  by (auto simp: numeral_eq_Suc length_Suc_conv)

lemma read_ipv4_text:
  assumes "length bs = 4" "rest = [] \<or> \<not> is_digit 10 (hd rest)"
  shows "read_ipv4_addr (ipv4_to_string bs @ rest) = Some (map unat bs, rest)"
proof -
  obtain a b c d where bs: "bs = [a, b, c, d]" using list_of_4 [OF assms(1)] by blast
  have octet: "read_octet (radix_text 10 (unat (x :: u8)) @ s) = Some (unat x, s)" if "s = [] \<or> \<not> is_digit 10 (hd s)" for x s
    using read_octet_text [OF _ that, of "unat x"] by simp
  show ?thesis using assms(2)
    by (simp add: bs read_ipv4_addr_def ipv4_to_string_def read_separator_def octet)
qed

lemma utf8_length_ascii: "\<forall>c\<in>set s. 0 \<le> c \<and> c < 128 \<Longrightarrow> length (utf8_bytes s) = length s"
  by (induction s) (auto simp: utf8_bytes_def utf8_of_def utf8_ints_def)

lemma ipv4_text_chars: "\<forall>c\<in>set (ipv4_to_string bs). c = DOT_CHAR \<or> is_digit 10 c"
proof -
  have "\<forall>c\<in>set (join DOT_CHAR xs). c = DOT_CHAR \<or> (\<exists>x\<in>set xs. c \<in> set x)" for xs
    by (induction DOT_CHAR xs rule: join.induct) auto
  then show ?thesis using radix_text_digits [of 10] by (fastforce simp: ipv4_to_string_def)
qed

lemma ipv4_text_length: "length bs = 4 \<Longrightarrow> length (ipv4_to_string bs) \<le> 15"
proof -
  assume "length bs = 4"
  then obtain a b c d where bs: "bs = [a, b, c, d]" using list_of_4 by blast
  have "length (radix_text 10 (unat (x :: u8))) \<le> 3" for x
  proof (rule radix_text_length)
    show "unat x < 10 ^ 3" by (rule less_le_trans [OF unat_u8_less]) simp
  qed simp_all
  from this [of a] this [of b] this [of c] this [of d] show ?thesis by (simp add: bs ipv4_to_string_def)
qed

lemma ascii_digit: "is_digit radix c \<Longrightarrow> radix \<le> 16 \<Longrightarrow> 0 < c \<and> c < 128"
  by (auto simp: is_digit_def to_digit_def Let_def split: if_splits)

lemma ipv4_roundtrip:
  assumes "length bs = 4"
  shows "ipv4_from_str (ipv4_to_string bs) = Some bs"
proof -
  have "\<forall>c\<in>set (ipv4_to_string bs). 0 \<le> c \<and> c < 128"
    using ipv4_text_chars [of bs] ascii_digit [of 10] by (force simp: DOT_CHAR_def)
  then have "\<not> 15 < length (utf8_bytes (ipv4_to_string bs))"
    using ipv4_text_length [OF assms] utf8_length_ascii by simp
  then show ?thesis using read_ipv4_text [OF assms, of "[]"] by (simp add: ipv4_from_str_def comp_def)
qed

section \<open>The groups\<close>

text \<open>The number before the first dot of an IPv4 address ends at a dot.\<close>

lemma read_octet_rest: "read_octet s = Some (v, t) \<Longrightarrow> t = dropWhile (is_digit 10) s"
  by (auto simp: read_octet_def read_number_def Let_def split: if_splits)

lemma no_ipv4:
  assumes "dropWhile (is_digit 10) s = [] \<or> hd (dropWhile (is_digit 10) s) \<noteq> DOT_CHAR"
  shows "read_ipv4_addr s = None"
proof (cases "read_octet s")
  case (Some vt)
  then obtain v where "read_octet s = Some (v, dropWhile (is_digit 10) s)" using read_octet_rest by (cases vt) blast
  moreover have "read_char DOT_CHAR t = None" if "t = [] \<or> hd t \<noteq> DOT_CHAR" for t using that by (cases t) (auto simp: read_char_def)
  from this [OF assms] have "read_char DOT_CHAR (dropWhile (is_digit 10) s) = None" .
  ultimately show ?thesis by (simp add: read_ipv4_addr_def read_separator_def)
qed (simp add: read_ipv4_addr_def)

lemma no_ipv4_in_group:
  assumes "rest = [] \<or> hd rest = COLON"
  shows "read_ipv4_addr (radix_text 16 g @ rest) = None"
proof (rule no_ipv4)
  have hex: "\<forall>c\<in>set (radix_text 16 g). c \<noteq> DOT_CHAR"
    using radix_text_digits [of 16 g] not_digits(4) by auto
  show "dropWhile (is_digit 10) (radix_text 16 g @ rest) = [] \<or> hd (dropWhile (is_digit 10) (radix_text 16 g @ rest)) \<noteq> DOT_CHAR"
  proof (cases "\<forall>c\<in>set (radix_text 16 g). is_digit 10 c")
    case True
    then have "dropWhile (is_digit 10) (radix_text 16 g @ rest) = rest"
      using assms by (intro dropWhile_stop) auto
    then show ?thesis using assms by auto
  next
    case False
    then have "dropWhile (is_digit 10) (radix_text 16 g @ rest) = dropWhile (is_digit 10) (radix_text 16 g) @ rest"
      by (auto simp: dropWhile_append1)
    moreover have "dropWhile (is_digit 10) (radix_text 16 g) \<noteq> []" using False by simp
    ultimately show ?thesis using hex by (metis hd_append2 hd_in_set set_dropWhileD)
  qed
qed

text \<open>A text that the groups stop at: its end, or two colons.\<close>

definition stops :: "str \<Rightarrow> bool" where
  "stops rest \<longleftrightarrow> rest = [] \<or> (\<exists>r. rest = COLON # COLON # r)"

lemma read_groups_stop: "stops rest \<Longrightarrow> read_groups k i rest = ([], False, rest)"
proof -
  have empty: "read_ipv4_addr [] = None" "read_number 16 4 True 65535 [] = None" by (simp_all add: no_ipv4 read_number_def)
  have colon: "read_ipv4_addr (COLON # r) = None" "read_number 16 4 True 65535 (COLON # r) = None" for r
  proof -
    show "read_ipv4_addr (COLON # r) = None" by (rule no_ipv4) simp
  qed (simp add: read_number_def)
  show "stops rest \<Longrightarrow> read_groups k i rest = ([], False, rest)"
    by (cases k) (auto simp: stops_def read_separator_def empty colon read_char_def)
qed

definition more_groups :: "nat list \<Rightarrow> str" where
  "more_groups gs = concat (map (\<lambda>g. COLON # radix_text 16 g) gs)"

lemma more_groups_simps [simp]: "more_groups [] = []" "more_groups (g # gs) = COLON # radix_text 16 g @ more_groups gs"
  by (simp_all add: more_groups_def)

lemma group_text_Cons: "group_text (g # gs) = radix_text 16 g @ more_groups gs"
  by (induction gs arbitrary: g) (simp_all add: group_text_def)

lemma group_text_Nil [simp]: "group_text [] = []"
  by (simp add: group_text_def)

lemma read_group: "g < 65536 \<Longrightarrow> rest = [] \<or> hd rest = COLON \<Longrightarrow> read_number 16 4 True 65535 (radix_text 16 g @ rest) = Some (g, rest)"
  by (rule read_number_text) auto

lemma more_groups_head: "stops rest \<Longrightarrow> more_groups gs @ rest = [] \<or> hd (more_groups gs @ rest) = COLON"
  by (cases gs) (auto simp: stops_def)

lemma read_more_groups:
  assumes rest: "stops rest"
  shows "\<forall>g\<in>set gs. g < 65536 \<Longrightarrow> length gs \<le> k \<Longrightarrow> 0 < i \<Longrightarrow> read_groups k i (more_groups gs @ rest) = (gs, False, rest)"
proof (induction gs arbitrary: k i)
  case (Cons g gs)
  then obtain j where k: "k = Suc j" by (cases k) auto
  note head = more_groups_head [OF rest, of gs]
  have "read_number 16 4 True 65535 (radix_text 16 g @ more_groups gs @ rest) = Some (g, more_groups gs @ rest)"
    using Cons.prems(1) head by (intro read_group) auto
  moreover have "read_ipv4_addr (radix_text 16 g @ more_groups gs @ rest) = None" using head by (rule no_ipv4_in_group)
  moreover have "read_groups j (Suc i) (more_groups gs @ rest) = (gs, False, rest)" using Cons k by simp
  ultimately show ?case using k Cons.prems(3) by (auto simp: read_separator_def)
qed (simp add: read_groups_stop rest)

lemma read_group_text:
  assumes "stops rest" "\<forall>g\<in>set gs. g < 65536" "length gs \<le> k"
  shows "read_groups k 0 (group_text gs @ rest) = (gs, False, rest)"
proof (cases gs)
  case (Cons g hs)
  then obtain j where k: "k = Suc j" using assms(3) by (cases k) auto
  note head = more_groups_head [OF assms(1), of hs]
  have "read_number 16 4 True 65535 (radix_text 16 g @ more_groups hs @ rest) = Some (g, more_groups hs @ rest)"
    using assms(2) head Cons by (intro read_group) auto
  moreover have "read_ipv4_addr (radix_text 16 g @ more_groups hs @ rest) = None" using head by (rule no_ipv4_in_group)
  moreover have "read_groups j (Suc 0) (more_groups hs @ rest) = (hs, False, rest)"
    using assms Cons k by (intro read_more_groups) auto
  ultimately show ?thesis using k Cons by (auto simp: read_separator_def group_text_Cons)
qed (simp add: read_groups_stop assms)

section \<open>IPv6 addresses\<close>

lemma read_full_address:
  assumes "length gs = 8" "\<forall>g\<in>set gs. g < 65536"
  shows "read_ipv6_addr (group_text gs) = Some (gs, [])"
  using read_group_text [of "[]" gs 8] assms by (simp add: read_ipv6_addr_def stops_def)

lemma read_short_address:
  assumes "length xs + length ys < 8" "\<forall>g\<in>set xs \<union> set ys. g < 65536"
  shows "read_ipv6_addr (group_text xs @ str_of ''::'' @ group_text ys) = Some (xs @ replicate (8 - length xs - length ys) 0 @ ys, [])"
proof -
  have colons: "str_of ''::'' = [COLON, COLON]" by (simp add: str_of_def COLON_def)
  have "read_groups 8 0 (group_text xs @ COLON # COLON # group_text ys) = (xs, False, COLON # COLON # group_text ys)"
    by (rule read_group_text) (use assms in \<open>auto simp: stops_def\<close>)
  moreover have "read_groups (7 - length xs) 0 (group_text ys @ []) = (ys, False, [])"
    by (rule read_group_text) (use assms in \<open>auto simp: stops_def\<close>)
  ultimately show ?thesis using assms(1) by (simp add: read_ipv6_addr_def colons)
qed

lemma read_mapped_address:
  assumes "length bs = 4"
  shows "read_ipv6_addr (str_of ''::ffff:'' @ ipv4_to_string bs) = Some ([0, 0, 0, 0, 0, 65535] @ segments bs, [])"
proof -
  obtain a b c d where bs: "bs = [a, b, c, d]" using list_of_4 [OF assms] by blast
  have ffff: "radix_text 16 65535 = str_of ''ffff''" by (simp add: radix_text.simps digit_char_def str_of_def)
  have parts: "str_of ''::ffff:'' @ ipv4_to_string bs = COLON # COLON # radix_text 16 65535 @ COLON # ipv4_to_string bs"
    unfolding ffff by (simp add: str_of_def COLON_def)
  have "read_number 16 4 True 65535 (radix_text 16 65535 @ COLON # ipv4_to_string bs) = Some (65535, COLON # ipv4_to_string bs)"
    by (rule read_group) auto
  moreover have "read_ipv4_addr (radix_text 16 65535 @ COLON # ipv4_to_string bs) = None" by (rule no_ipv4_in_group) simp
  moreover have "read_ipv4_addr (ipv4_to_string bs) = Some (map unat bs, [])" using read_ipv4_text [OF assms, of "[]"] by simp
  ultimately have "read_groups (Suc (Suc (Suc k))) 0 (radix_text 16 65535 @ COLON # ipv4_to_string bs) = (65535 # segments bs, True, [])" for k
    by (simp add: read_separator_def bs)
  from this [of 4] have "read_groups 7 0 (radix_text 16 65535 @ COLON # ipv4_to_string bs) = (65535 # segments bs, True, [])"
    by simp
  moreover have "replicate 5 (0 :: nat) = [0, 0, 0, 0, 0]" by (simp add: numeral_eq_Suc)
  ultimately show ?thesis
    unfolding parts by (simp add: read_ipv6_addr_def read_groups_stop stops_def bs)
qed

text \<open>The zero span lies inside the segments, and all of it is zero.\<close>

definition zero_run :: "nat list \<Rightarrow> nat \<times> nat \<Rightarrow> bool" where
  "zero_run gs sp \<longleftrightarrow> fst sp + snd sp \<le> length gs \<and> (\<forall>j < snd sp. gs ! (fst sp + j) = 0)"

lemma zero_span_run:
  "zero_run (ps @ gs) longest \<Longrightarrow> zero_run (ps @ gs) current \<Longrightarrow> snd current = 0 \<or> fst current + snd current = length ps \<Longrightarrow>
    zero_run (ps @ gs) (zero_span (length ps) current longest gs)"
proof (induction gs arbitrary: ps current longest)
  case (Cons g gs)
  show ?case
  proof (cases "g = 0")
    case True
    let ?c = "(if snd current = 0 then length ps else fst current, Suc (snd current))"
    have c: "zero_run (ps @ g # gs) ?c"
      using Cons.prems(2,3) True by (auto simp: zero_run_def less_Suc_eq nth_append)
    have "zero_run ((ps @ [g]) @ gs) (zero_span (length (ps @ [g])) ?c (if snd longest < snd ?c then ?c else longest) gs)"
      by (rule Cons.IH) (use Cons.prems c in \<open>auto split: if_splits\<close>)
    then show ?thesis using True by (simp add: Let_def)
  next
    case False
    have "zero_run ((ps @ [g]) @ gs) (zero_span (length (ps @ [g])) (0, 0) longest gs)"
      by (rule Cons.IH) (use Cons.prems(1) in \<open>auto simp: zero_run_def\<close>)
    then show ?thesis using False by simp
  qed
qed simp

lemma zero_run_split:
  assumes "zero_run gs (start, len)"
  shows "gs = take start gs @ replicate len 0 @ drop (start + len) gs"
proof -
  have "take len (drop start gs) = replicate len 0"
    using assms by (intro nth_equalityI) (auto simp: zero_run_def)
  then show ?thesis by (metis add.commute append_take_drop_id drop_drop)
qed

lemma segments_bytes: "even (length bs) \<Longrightarrow> concat (map segment_bytes (segments bs)) = bs"
proof (induction bs rule: segments.induct)
  case (1 a b bs)
  have "(256 * unat a + unat b) div 256 = unat a" by (simp add: div_add1_eq)
  then show ?case using 1 by (simp add: segment_bytes_def)
qed (auto simp: segments.simps)

lemma segments_length: "length (segments bs) = length bs div 2"
  by (induction bs rule: segments.induct) simp_all

lemma segments_bound: "\<forall>g\<in>set (segments bs). g < 65536"
proof (induction bs rule: segments.induct)
  case (1 a b bs)
  have "256 * unat a + unat b < 65536" using unat_u8_less [of a] unat_u8_less [of b] by linarith
  then show ?case using 1 by simp
qed simp_all

lemma segments_append: "even (length xs) \<Longrightarrow> segments (xs @ ys) = segments xs @ segments ys"
  by (induction xs rule: segments.induct) simp_all

lemma ipv6_roundtrip:
  assumes bs: "length bs = 16"
  shows "ipv6_from_str (ipv6_to_string bs) = Some bs"
proof -
  let ?gs = "segments bs"
  have gs: "length ?gs = 8" "\<forall>g\<in>set ?gs. g < 65536" "concat (map segment_bytes ?gs) = bs"
    using bs segments_length segments_bound segments_bytes by simp_all
  have "read_ipv6_addr (ipv6_to_string bs) = Some (?gs, [])"
  proof (cases "take 6 ?gs = [0, 0, 0, 0, 0, 65535]")
    case True
    have "?gs = segments (take 12 bs) @ segments (drop 12 bs)" using segments_append [of "take 12 bs" "drop 12 bs"] bs by simp
    moreover from this have "segments (take 12 bs) = take 6 ?gs" using bs by (simp add: segments_length)
    ultimately show ?thesis using True read_mapped_address [of "drop 12 bs"] bs by (simp add: ipv6_to_string_def)
  next
    case False
    obtain start len where sp: "zero_span 0 (0, 0) (0, 0) ?gs = (start, len)" by force
    have "zero_run ?gs (start, len)" using zero_span_run [of "[]" ?gs "(0, 0)" "(0, 0)"] by (simp add: sp zero_run_def)
    then have split: "?gs = take start ?gs @ replicate len 0 @ drop (start + len) ?gs" and inside: "start + len \<le> 8"
      using zero_run_split gs(1) by (auto simp: zero_run_def)
    show ?thesis
    proof (cases "1 < len")
      case True
      have "\<forall>g\<in>set (take start ?gs) \<union> set (drop (start + len) ?gs). g < 65536"
        using gs(2) by (auto dest: in_set_takeD in_set_dropD)
      moreover have "length (take start ?gs) + length (drop (start + len) ?gs) < 8" using True inside gs(1) by simp
      ultimately have "read_ipv6_addr (group_text (take start ?gs) @ str_of ''::'' @ group_text (drop (start + len) ?gs)) =
          Some (take start ?gs @ replicate (8 - length (take start ?gs) - length (drop (start + len) ?gs)) 0 @ drop (start + len) ?gs, [])"
        by (intro read_short_address)
      moreover have "8 - length (take start ?gs) - length (drop (start + len) ?gs) = len" using inside gs(1) by simp
      ultimately show ?thesis using split True False sp by (simp add: ipv6_to_string_def Let_def)
    next
      case short: False
      then show ?thesis using False sp read_full_address [OF gs(1,2)] by (simp add: ipv6_to_string_def Let_def)
    qed
  qed
  then show ?thesis using gs(3) by (simp add: ipv6_from_str_def)
qed

end
