(* ===== verification/Netdb.thy ===== *)
theory Netdb
  imports Net_Addr Little_Endian
begin

text \<open>
  Name resolution (\<^verbatim>\<open>src/src/netdb.rs\<close>): \<^verbatim>\<open>getaddrinfo\<close>, \<^verbatim>\<open>freeaddrinfo\<close>, \<^verbatim>\<open>getnameinfo\<close> and \<^verbatim>\<open>gai_strerror\<close>. The contents of
  \<^verbatim>\<open>/etc/hosts\<close> and \<^verbatim>\<open>/etc/services\<close> (nothing when a file cannot be read as UTF-8) and the addresses of boxes are parameters. Ports are
  natural numbers with the checks of \<^verbatim>\<open>u16\<close> written out; structures lie in memory by their bytes.
\<close>

section \<open>Constants\<close>

definition AF_UNSPEC :: c_int where "AF_UNSPEC = 0"
definition AF_INET :: c_int where "AF_INET = 2"
definition AF_INET6 :: c_int where "AF_INET6 = 10"
definition SOCK_STREAM :: c_int where "SOCK_STREAM = 1"
definition SOCK_DGRAM :: c_int where "SOCK_DGRAM = 2"
definition IPPROTO_TCP :: c_int where "IPPROTO_TCP = 6"
definition IPPROTO_UDP :: c_int where "IPPROTO_UDP = 17"
definition AI_PASSIVE :: c_int where "AI_PASSIVE = 1"
definition AI_NUMERICHOST :: c_int where "AI_NUMERICHOST = 4"
definition AI_NUMERICSERV :: c_int where "AI_NUMERICSERV = 0x400"
definition NI_NUMERICHOST :: c_int where "NI_NUMERICHOST = 1"
definition NI_NUMERICSERV :: c_int where "NI_NUMERICSERV = 2"
definition NI_NOFQDN :: c_int where "NI_NOFQDN = 4"
definition NI_NAMEREQD :: c_int where "NI_NAMEREQD = 8"
definition NI_DGRAM :: c_int where "NI_DGRAM = 0x10"
definition EAI_BADFLAGS :: c_int where "EAI_BADFLAGS = - 1"
definition EAI_NONAME :: c_int where "EAI_NONAME = - 2"
definition EAI_AGAIN :: c_int where "EAI_AGAIN = - 3"
definition EAI_FAIL :: c_int where "EAI_FAIL = - 4"
definition EAI_FAMILY :: c_int where "EAI_FAMILY = - 6"
definition EAI_SOCKTYPE :: c_int where "EAI_SOCKTYPE = - 7"
definition EAI_SERVICE :: c_int where "EAI_SERVICE = - 8"
definition EAI_MEMORY :: c_int where "EAI_MEMORY = - 10"
definition EAI_SYSTEM :: c_int where "EAI_SYSTEM = - 11"
definition EAI_OVERFLOW :: c_int where "EAI_OVERFLOW = - 12"

lemmas af_defs = AF_UNSPEC_def AF_INET_def AF_INET6_def
lemmas eai_defs = EAI_BADFLAGS_def EAI_NONAME_def EAI_AGAIN_def EAI_FAIL_def EAI_FAMILY_def EAI_SOCKTYPE_def EAI_SERVICE_def
  EAI_MEMORY_def EAI_SYSTEM_def EAI_OVERFLOW_def

definition ALLOWED_AI_FLAGS :: c_int where "ALLOWED_AI_FLAGS = AI_PASSIVE OR AI_NUMERICHOST OR AI_NUMERICSERV"
definition ALLOWED_NI_FLAGS :: c_int where
  "ALLOWED_NI_FLAGS = NI_NUMERICHOST OR NI_NUMERICSERV OR NI_NOFQDN OR NI_NAMEREQD OR NI_DGRAM"
definition INADDR_ANY_BYTES :: "u8 list" where "INADDR_ANY_BYTES = [0, 0, 0, 0]"
definition INADDR_LOOPBACK_BYTES :: "u8 list" where "INADDR_LOOPBACK_BYTES = [127, 0, 0, 1]"
definition IN6ADDR_ANY_BYTES :: "u8 list" where "IN6ADDR_ANY_BYTES = replicate 16 0"
definition IN6ADDR_LOOPBACK_BYTES :: "u8 list" where "IN6ADDR_LOOPBACK_BYTES = replicate 15 0 @ [1]"

datatype AddressCandidate = Ipv4 "u8 list" | Ipv6 "u8 list"

record net_platform =
  hosts_text :: "str option"
  services_text :: "str option"
  box_addr :: "nat \<Rightarrow> mem \<Rightarrow> addr"

section \<open>Hints and services\<close>

definition resolve_family :: "c_int \<Rightarrow> c_int + c_int" where
  "resolve_family family = (if family \<in> {AF_UNSPEC, AF_INET, AF_INET6} then Inr family else Inl EAI_FAMILY)"

definition resolve_socket_profile :: "c_int \<Rightarrow> c_int \<Rightarrow> c_int + c_int \<times> c_int" where
  "resolve_socket_profile socktype protocol =
     (if socktype \<notin> {0, SOCK_STREAM, SOCK_DGRAM} then Inl EAI_SOCKTYPE
      else if protocol \<notin> {0, IPPROTO_TCP, IPPROTO_UDP} then Inl EAI_SERVICE
      else if socktype \<in> {0, SOCK_STREAM} \<and> protocol \<in> {0, IPPROTO_TCP} then Inr (SOCK_STREAM, IPPROTO_TCP)
      else if socktype \<in> {0, SOCK_DGRAM} \<and> protocol \<in> {0, IPPROTO_UDP} then Inr (SOCK_DGRAM, IPPROTO_UDP)
      else Inl EAI_SERVICE)"

definition U16_MAX :: nat where "U16_MAX = 65535"

primrec service_digits_loop :: "nat \<Rightarrow> u8 list \<Rightarrow> c_int + nat" where
  "service_digits_loop value [] = Inr value"
| "service_digits_loop value (b # bs) =
     (if \<not> (48 \<le> b \<and> b \<le> 57) then Inl EAI_NONAME
      else if value * 10 > U16_MAX \<or> value * 10 + (unat b - 48) > U16_MAX then Inl EAI_NONAME
      else service_digits_loop (value * 10 + (unat b - 48)) bs)"

definition parse_numeric_service_digits :: "u8 list \<Rightarrow> c_int + nat" where
  "parse_numeric_service_digits digits = (if digits = [] then Inl EAI_NONAME else service_digits_loop 0 digits)"

definition is_ascii_whitespace :: "u8 \<Rightarrow> bool" where
  "is_ascii_whitespace b \<longleftrightarrow> b \<in> {9, 10, 12, 13, 32}"

definition parse_numeric_service :: "mem \<Rightarrow> addr \<Rightarrow> (c_int + nat) option" where
  "parse_numeric_service m service =
     (if service = null then Some (Inr 0)
      else do {
        raw_bytes \<leftarrow> cstr_bytes m service;
        let bs = dropWhile is_ascii_whitespace raw_bytes;
        Some (if bs = [] then Inl EAI_NONAME
              else parse_numeric_service_digits (if hd bs = 43 then tl bs else bs)) })"

definition service_protocol_name :: "c_int \<Rightarrow> str option" where
  "service_protocol_name protocol =
     (if protocol = IPPROTO_TCP then Some (str_of ''tcp'') else if protocol = IPPROTO_UDP then Some (str_of ''udp'') else None)"

text \<open>A line without its comment; empty lines have no columns.\<close>

definition line_columns :: "str \<Rightarrow> str list" where
  "line_columns raw_line = split_whitespace (trim (hd (split_on 35 raw_line)))"

primrec services_loop :: "str \<Rightarrow> str \<Rightarrow> str list \<Rightarrow> nat option" where
  "services_loop service_name protocol_name [] = None"
| "services_loop service_name protocol_name (raw_line # rest) =
     (let next = services_loop service_name protocol_name rest in
      case line_columns raw_line of
        primary_name # port_and_protocol # aliases \<Rightarrow>
          (case split_once 47 port_and_protocol of
             None \<Rightarrow> next
           | Some (port_text, entry_protocol) \<Rightarrow>
               if \<not> eq_ignore_ascii_case entry_protocol protocol_name then next
               else (case from_str_radix U16_MAX 10 port_text of
                       None \<Rightarrow> next
                     | Some port \<Rightarrow>
                         if eq_ignore_ascii_case primary_name service_name \<or> list_ex (\<lambda>alias. eq_ignore_ascii_case alias service_name) aliases
                         then Some port else next))
      | _ \<Rightarrow> next)"

definition resolve_service_name_from_services_text :: "str \<Rightarrow> str \<Rightarrow> c_int \<Rightarrow> nat option" where
  "resolve_service_name_from_services_text txt service_name protocol = do {
     protocol_name \<leftarrow> service_protocol_name protocol;
     services_loop service_name protocol_name (str_lines txt) }"

definition resolve_service_name_from_services_file :: "net_platform \<Rightarrow> str \<Rightarrow> c_int \<Rightarrow> nat option" where
  "resolve_service_name_from_services_file P service_name protocol = do {
     services_file \<leftarrow> services_text P;
     resolve_service_name_from_services_text services_file service_name protocol }"

definition resolve_service_name_from_builtin :: "str \<Rightarrow> c_int \<Rightarrow> nat option" where
  "resolve_service_name_from_builtin service_name protocol =
     (let named = (\<lambda>s. eq_ignore_ascii_case service_name (str_of s)) in
      if protocol = IPPROTO_TCP \<and> named ''http'' then Some 80
      else if protocol = IPPROTO_TCP \<and> named ''www'' then Some 80
      else if protocol = IPPROTO_TCP \<and> named ''www-http'' then Some 80
      else if protocol = IPPROTO_TCP \<and> named ''https'' then Some 443
      else if protocol = IPPROTO_TCP \<and> named ''www-https'' then Some 443
      else if protocol = IPPROTO_TCP \<and> named ''ssh'' then Some 22
      else if protocol \<in> {IPPROTO_TCP, IPPROTO_UDP} \<and> named ''domain'' then Some 53
      else None)"

definition resolve_service_name :: "net_platform \<Rightarrow> str \<Rightarrow> c_int \<Rightarrow> nat option" where
  "resolve_service_name P service_name protocol =
     (case resolve_service_name_from_services_file P service_name protocol of
        None \<Rightarrow> resolve_service_name_from_builtin service_name protocol
      | Some port \<Rightarrow> Some port)"

definition parse_service_port :: "net_platform \<Rightarrow> mem \<Rightarrow> addr \<Rightarrow> c_int \<Rightarrow> c_int \<Rightarrow> (c_int + nat) option" where
  "parse_service_port P m service flags protocol =
     (if service = null then Some (Inr 0)
      else do {
        numeric \<leftarrow> parse_numeric_service m service;
        case numeric of
          Inr port \<Rightarrow> Some (Inr port)
        | Inl _ \<Rightarrow>
            if flags AND AI_NUMERICSERV \<noteq> 0 then Some (Inl EAI_NONAME)
            else do {
              raw_bytes \<leftarrow> cstr_bytes m service;
              Some (case from_utf8 raw_bytes of
                      None \<Rightarrow> Inl EAI_NONAME
                    | Some service_text \<Rightarrow>
                        (case resolve_service_name P service_text protocol of None \<Rightarrow> Inl EAI_SERVICE | Some port \<Rightarrow> Inr port)) } })"

definition map_getaddrinfo_service_error :: "addr \<Rightarrow> c_int \<Rightarrow> c_int \<Rightarrow> c_int" where
  "map_getaddrinfo_service_error service flags error =
     (if error \<noteq> EAI_NONAME then error
      else if service = null \<or> flags AND AI_NUMERICSERV \<noteq> 0 then error
      else EAI_SERVICE)"

section \<open>Hosts\<close>

definition U32_MAX :: nat where "U32_MAX = 4294967295"

definition parse_ipv4_legacy_component :: "str \<Rightarrow> u32 option" where
  "parse_ipv4_legacy_component component =
     (if component = [] \<or> hd component = 43 then None
      else map_option word_of_nat
        (case (case strip_prefix (str_of ''0x'') component of None \<Rightarrow> strip_prefix (str_of ''0X'') component | Some h \<Rightarrow> Some h) of
           Some hex_digits \<Rightarrow> if hex_digits = [] then None else from_str_radix U32_MAX 16 hex_digits
         | None \<Rightarrow>
             if 1 < length component \<and> hd component = 48 then from_str_radix U32_MAX 8 component
             else from_str_radix U32_MAX 10 component))"

fun legacy_components :: "nat \<Rightarrow> str list \<Rightarrow> u32 list option" where
  "legacy_components count [] = Some []"
| "legacy_components count (component # rest) =
     (if 4 \<le> count then None
      else do {
        v \<leftarrow> parse_ipv4_legacy_component component;
        vs \<leftarrow> legacy_components (Suc count) rest;
        Some (v # vs) })"

definition to_be_bytes :: "u32 \<Rightarrow> u8 list" where
  "to_be_bytes w = [ucast (drop_bit 24 w), ucast (drop_bit 16 w), ucast (drop_bit 8 w), ucast w]"

definition parse_ipv4_legacy_text :: "str \<Rightarrow> u8 list option" where
  "parse_ipv4_legacy_text node_text = do {
     components \<leftarrow> legacy_components 0 (split_on DOT_CHAR node_text);
     address \<leftarrow>
       (case components of
          [a] \<Rightarrow> Some a
        | [a, b] \<Rightarrow> if a > 0xff \<or> b > 0x00ffffff then None else Some (push_bit 24 a OR b)
        | [a, b, c] \<Rightarrow> if a > 0xff \<or> b > 0xff \<or> c > 0xffff then None else Some (push_bit 24 a OR push_bit 16 b OR c)
        | [a, b, c, d] \<Rightarrow>
            if a > 0xff \<or> b > 0xff \<or> c > 0xff \<or> d > 0xff then None
            else Some (push_bit 24 a OR push_bit 16 b OR push_bit 8 c OR d)
        | _ \<Rightarrow> None);
     Some (to_be_bytes address) }"

definition parse_numeric_host_text :: "str \<Rightarrow> AddressCandidate option" where
  "parse_numeric_host_text node_text =
     (case ipv4_from_str node_text of
        Some v4 \<Rightarrow> Some (Ipv4 v4)
      | None \<Rightarrow>
          (case parse_ipv4_legacy_text node_text of
             Some v4 \<Rightarrow> Some (Ipv4 v4)
           | None \<Rightarrow> map_option Ipv6 (ipv6_from_str node_text)))"

definition normalize_hostname :: "str \<Rightarrow> str" where
  "normalize_hostname name = trim_end_matches DOT_CHAR name"

definition is_localhost_name :: "str \<Rightarrow> bool" where
  "is_localhost_name node_text \<longleftrightarrow> eq_ignore_ascii_case (normalize_hostname node_text) (str_of ''localhost'')"

definition family_accepts_candidate :: "c_int \<Rightarrow> AddressCandidate \<Rightarrow> bool" where
  "family_accepts_candidate family candidate \<longleftrightarrow>
     family = AF_UNSPEC \<or>
     (case candidate of Ipv4 _ \<Rightarrow> family = AF_INET | Ipv6 _ \<Rightarrow> family = AF_INET6)"

definition push_unique_candidate :: "c_int \<Rightarrow> AddressCandidate \<Rightarrow> AddressCandidate list \<Rightarrow> AddressCandidate list" where
  "push_unique_candidate family candidate candidates =
     (if \<not> family_accepts_candidate family candidate then candidates
      else if candidate \<notin> set candidates then candidates @ [candidate] else candidates)"

primrec hosts_loop :: "str \<Rightarrow> c_int \<Rightarrow> AddressCandidate list \<Rightarrow> str list \<Rightarrow> AddressCandidate list" where
  "hosts_loop lookup_name family candidates [] = candidates"
| "hosts_loop lookup_name family candidates (raw_line # rest) =
     hosts_loop lookup_name family
       (case line_columns raw_line of
          [] \<Rightarrow> candidates
        | address_text # aliases \<Rightarrow>
            if \<not> list_ex (\<lambda>alias. eq_ignore_ascii_case (normalize_hostname alias) lookup_name) aliases then candidates
            else (case parse_numeric_host_text address_text of
                    None \<Rightarrow> candidates
                  | Some candidate \<Rightarrow> push_unique_candidate family candidate candidates))
       rest"

definition resolve_hosts_file_candidates :: "net_platform \<Rightarrow> str \<Rightarrow> c_int \<Rightarrow> AddressCandidate list" where
  "resolve_hosts_file_candidates P node_text family =
     (let lookup_name = normalize_hostname node_text in
      if lookup_name = [] then []
      else case hosts_text P of
             None \<Rightarrow> []
           | Some hosts_file \<Rightarrow> hosts_loop lookup_name family [] (str_lines hosts_file))"

definition append_localhost_fallback :: "str \<Rightarrow> c_int \<Rightarrow> AddressCandidate list \<Rightarrow> AddressCandidate list" where
  "append_localhost_fallback node_text family candidates =
     (if \<not> is_localhost_name node_text then candidates
      else push_unique_candidate family (Ipv4 INADDR_LOOPBACK_BYTES)
             (push_unique_candidate family (Ipv6 IN6ADDR_LOOPBACK_BYTES) candidates))"

definition preferred_loopbacks :: "c_int \<Rightarrow> AddressCandidate list option" where
  "preferred_loopbacks family =
     (if family = AF_INET then Some [Ipv4 INADDR_LOOPBACK_BYTES]
      else if family = AF_INET6 then Some [Ipv6 IN6ADDR_LOOPBACK_BYTES]
      else if family = AF_UNSPEC then Some [Ipv6 IN6ADDR_LOOPBACK_BYTES, Ipv4 INADDR_LOOPBACK_BYTES]
      else None)"

definition push_absent :: "AddressCandidate \<Rightarrow> AddressCandidate list \<Rightarrow> AddressCandidate list" where
  "push_absent candidate reordered = (if candidate \<notin> set reordered then reordered @ [candidate] else reordered)"

definition reorder_localhost_candidates :: "str \<Rightarrow> c_int \<Rightarrow> AddressCandidate list \<Rightarrow> AddressCandidate list" where
  "reorder_localhost_candidates node_text family candidates =
     (if \<not> is_localhost_name node_text \<or> length candidates < 2 then candidates
      else case preferred_loopbacks family of
             None \<Rightarrow> candidates
           | Some preferred \<Rightarrow> fold push_absent candidates (filter (\<lambda>c. c \<in> set candidates) preferred))"

definition resolve_dns_candidates :: "str \<Rightarrow> c_int \<Rightarrow> c_int + AddressCandidate list" where
  "resolve_dns_candidates node_text family = Inl EAI_NONAME"

definition resolve_hostname_candidates_with ::
  "str \<Rightarrow> c_int \<Rightarrow> AddressCandidate list \<Rightarrow> (str \<Rightarrow> c_int \<Rightarrow> c_int + AddressCandidate list) \<Rightarrow> c_int + AddressCandidate list" where
  "resolve_hostname_candidates_with node_text family candidates resolve_dns =
     (let candidates = append_localhost_fallback node_text family candidates;
          candidates = reorder_localhost_candidates node_text family candidates in
      if candidates \<noteq> [] then Inr candidates else resolve_dns node_text family)"

definition resolve_hostname_candidates :: "net_platform \<Rightarrow> str \<Rightarrow> c_int \<Rightarrow> c_int + AddressCandidate list" where
  "resolve_hostname_candidates P node_text family =
     resolve_hostname_candidates_with node_text family (resolve_hosts_file_candidates P node_text family) resolve_dns_candidates"

definition resolve_candidates :: "AddressCandidate option \<Rightarrow> c_int \<Rightarrow> c_int \<Rightarrow> c_int + AddressCandidate list" where
  "resolve_candidates node family flags =
     (case node of
        Some (Ipv4 address) \<Rightarrow> if family \<in> {AF_UNSPEC, AF_INET} then Inr [Ipv4 address] else Inl EAI_FAMILY
      | Some (Ipv6 address) \<Rightarrow> if family \<in> {AF_UNSPEC, AF_INET6} then Inr [Ipv6 address] else Inl EAI_FAMILY
      | None \<Rightarrow>
          (let passive = flags AND AI_PASSIVE \<noteq> 0;
               v4 = Ipv4 (if passive then INADDR_ANY_BYTES else INADDR_LOOPBACK_BYTES);
               v6 = Ipv6 (if passive then IN6ADDR_ANY_BYTES else IN6ADDR_LOOPBACK_BYTES) in
           if family = AF_INET then Inr [v4]
           else if family = AF_INET6 then Inr [v6]
           else if family = AF_UNSPEC then Inr [v6, v4]
           else Inl EAI_FAMILY))"

definition resolve_node_candidates :: "net_platform \<Rightarrow> mem \<Rightarrow> addr \<Rightarrow> c_int \<Rightarrow> c_int \<Rightarrow> (c_int + AddressCandidate list) option" where
  "resolve_node_candidates P m node family flags =
     (if node = null then Some (resolve_candidates None family flags)
      else do {
        raw_bytes \<leftarrow> cstr_bytes m node;
        Some (case from_utf8 raw_bytes of
                None \<Rightarrow> Inl EAI_NONAME
              | Some node_text \<Rightarrow>
                  if node_text = [] then Inl EAI_NONAME
                  else (case parse_numeric_host_text node_text of
                          Some candidate \<Rightarrow> resolve_candidates (Some candidate) family flags
                        | None \<Rightarrow>
                            if flags AND AI_NUMERICHOST \<noteq> 0 then Inl EAI_NONAME else resolve_hostname_candidates P node_text family)) })"

section \<open>Structures in memory\<close>

text \<open>A box holds the bytes of its value; the padding of a structure is zero here, and nothing reads it. A freed block is not mapped.\<close>

definition box_new :: "net_platform \<Rightarrow> u8 list \<Rightarrow> mem \<Rightarrow> addr \<times> mem" where
  "box_new P bs m = (let p = box_addr P (length bs) m in (p, store_bytes m p bs))"

definition dealloc :: "addr \<Rightarrow> nat \<Rightarrow> mem \<Rightarrow> mem option" where
  "dealloc p n m = (if read_block m p n = None then None else Some (\<lambda>a. if p \<le> a \<and> a < p + n then None else m a))"

definition u16_to_be :: "nat \<Rightarrow> nat" where
  "u16_to_be v = 256 * (v mod 256) + v div 256"

definition u32_from_be_bytes :: "u8 list \<Rightarrow> nat" where
  "u32_from_be_bytes bs = foldl (\<lambda>v b. 256 * v + unat b) 0 bs"

definition SOCKADDR_SIZE :: nat where "SOCKADDR_SIZE = 16"
definition SOCKADDR_IN_SIZE :: nat where "SOCKADDR_IN_SIZE = 16"
definition SOCKADDR_IN6_SIZE :: nat where "SOCKADDR_IN6_SIZE = 28"
definition ADDRINFO_SIZE :: nat where "ADDRINFO_SIZE = 48"

definition sockaddr_in_bytes :: "u8 list \<Rightarrow> nat \<Rightarrow> u8 list" where
  "sockaddr_in_bytes address port =
     le_bytes 2 (unat AF_INET) @ le_bytes 2 (u16_to_be port) @ le_bytes 4 (u32_from_be_bytes address) @ replicate 8 0"

definition sockaddr_in6_bytes :: "u8 list \<Rightarrow> nat \<Rightarrow> u8 list" where
  "sockaddr_in6_bytes address port =
     le_bytes 2 (unat AF_INET6) @ le_bytes 2 (u16_to_be port) @ le_bytes 4 0 @ address @ le_bytes 4 0"

definition allocate_ipv4_sockaddr :: "net_platform \<Rightarrow> u8 list \<Rightarrow> nat \<Rightarrow> mem \<Rightarrow> (addr \<times> nat) \<times> mem" where
  "allocate_ipv4_sockaddr P address port m =
     (case box_new P (sockaddr_in_bytes address port) m of (raw, m) \<Rightarrow> ((raw, SOCKADDR_IN_SIZE), m))"

definition allocate_ipv6_sockaddr :: "net_platform \<Rightarrow> u8 list \<Rightarrow> nat \<Rightarrow> mem \<Rightarrow> (addr \<times> nat) \<times> mem" where
  "allocate_ipv6_sockaddr P address port m =
     (case box_new P (sockaddr_in6_bytes address port) m of (raw, m) \<Rightarrow> ((raw, SOCKADDR_IN6_SIZE), m))"

record addrinfo =
  ai_flags :: c_int
  ai_family :: c_int
  ai_socktype :: c_int
  ai_protocol :: c_int
  ai_addrlen :: nat
  ai_addr :: addr
  ai_canonname :: addr
  ai_next :: addr

definition addrinfo_head :: "addrinfo \<Rightarrow> u8 list" where
  "addrinfo_head ai =
     le_bytes 4 (unat (ai_flags ai)) @ le_bytes 4 (unat (ai_family ai)) @ le_bytes 4 (unat (ai_socktype ai)) @
     le_bytes 4 (unat (ai_protocol ai)) @ le_bytes 4 (ai_addrlen ai) @ replicate 4 0 @ le_bytes 8 (ai_addr ai) @
     le_bytes 8 (ai_canonname ai)"

definition addrinfo_bytes :: "addrinfo \<Rightarrow> u8 list" where
  "addrinfo_bytes ai = addrinfo_head ai @ le_bytes 8 (ai_next ai)"

definition allocate_addrinfo_node :: "net_platform \<Rightarrow> AddressCandidate \<Rightarrow> nat \<Rightarrow> c_int \<Rightarrow> c_int \<Rightarrow> c_int \<Rightarrow> mem \<Rightarrow> addr \<times> mem" where
  "allocate_addrinfo_node P candidate port flags socktype protocol m =
     (let (family, (sa, len), m) =
            (case candidate of
               Ipv4 address \<Rightarrow> (AF_INET, allocate_ipv4_sockaddr P address port m)
             | Ipv6 address \<Rightarrow> (AF_INET6, allocate_ipv6_sockaddr P address port m));
          node = \<lparr>ai_flags = flags, ai_family = family, ai_socktype = socktype, ai_protocol = protocol, ai_addrlen = len,
                  ai_addr = sa, ai_canonname = null, ai_next = null\<rparr> in
      box_new P (addrinfo_bytes node) m)"

definition free_node :: "addr \<Rightarrow> mem \<Rightarrow> mem option" where
  "free_node node m = do {
     family \<leftarrow> read_u32 m (node + 4);
     sa \<leftarrow> read_u64 m (node + 24);
     m \<leftarrow> (if unat sa = null then Some m
           else if family = AF_INET then dealloc (unat sa) SOCKADDR_IN_SIZE m
           else if family = AF_INET6 then dealloc (unat sa) SOCKADDR_IN6_SIZE m
           else Some m);
     dealloc node ADDRINFO_SIZE m }"

section \<open>\<^verbatim>\<open>getaddrinfo\<close> and \<^verbatim>\<open>freeaddrinfo\<close>\<close>

primrec link_nodes :: "net_platform \<Rightarrow> nat \<Rightarrow> c_int \<Rightarrow> c_int \<Rightarrow> c_int \<Rightarrow> AddressCandidate list \<Rightarrow> addr \<Rightarrow> addr \<Rightarrow> mem \<Rightarrow> (addr \<times> mem) option" where
  "link_nodes P port flags socktype protocol [] head tail m = Some (head, m)"
| "link_nodes P port flags socktype protocol (candidate # candidates) head tail m =
     (case allocate_addrinfo_node P candidate port flags socktype protocol m of
        (node_ptr, m) \<Rightarrow>
          if head = null then link_nodes P port flags socktype protocol candidates node_ptr node_ptr m
          else do {
            m \<leftarrow> write_block m (tail + 40) (le_bytes 8 node_ptr);
            link_nodes P port flags socktype protocol candidates head node_ptr m })"

definition read_hints :: "mem \<Rightarrow> addr \<Rightarrow> (c_int \<times> c_int \<times> c_int \<times> c_int) option" where
  "read_hints m hints =
     (if hints = null then Some (0, AF_UNSPEC, 0, 0)
      else do {
        flags \<leftarrow> read_u32 m hints;
        family \<leftarrow> read_u32 m (hints + 4);
        socktype \<leftarrow> read_u32 m (hints + 8);
        protocol \<leftarrow> read_u32 m (hints + 12);
        Some (flags, family, socktype, protocol) })"

text \<open>The part of \<^verbatim>\<open>getaddrinfo\<close> that decides the answer: an error, or flags, port, socket type, protocol and addresses.\<close>

definition resolve_request ::
  "net_platform \<Rightarrow> addr \<Rightarrow> addr \<Rightarrow> addr \<Rightarrow> mem \<Rightarrow> (c_int + c_int \<times> nat \<times> c_int \<times> c_int \<times> AddressCandidate list) option" where
  "resolve_request P node service hints m =
     (if node = null \<and> service = null then Some (Inl EAI_NONAME)
      else do {
        (flags, family_hint, socktype_hint, protocol_hint) \<leftarrow> read_hints m hints;
        if flags AND NOT ALLOWED_AI_FLAGS \<noteq> 0 then Some (Inl EAI_BADFLAGS)
        else case resolve_family family_hint of
          Inl error \<Rightarrow> Some (Inl error)
        | Inr family \<Rightarrow>
            (case resolve_socket_profile socktype_hint protocol_hint of
               Inl error \<Rightarrow> Some (Inl error)
             | Inr (socktype, protocol) \<Rightarrow> do {
                 service_port \<leftarrow> parse_service_port P m service flags protocol;
                 case service_port of
                   Inl error \<Rightarrow> Some (Inl (map_getaddrinfo_service_error service flags error))
                 | Inr port \<Rightarrow> do {
                     resolved \<leftarrow> resolve_node_candidates P m node family flags;
                     Some (case resolved of
                             Inl error \<Rightarrow> Inl error
                           | Inr candidates \<Rightarrow> Inr (flags, port, socktype, protocol, candidates)) } }) })"

definition getaddrinfo :: "net_platform \<Rightarrow> addr \<Rightarrow> addr \<Rightarrow> addr \<Rightarrow> addr \<Rightarrow> mem \<Rightarrow> (c_int \<times> mem) option" where
  "getaddrinfo P node service hints res m =
     (if res = null then Some (EAI_FAIL, m)
      else do {
        m \<leftarrow> write_block m res (le_bytes 8 null);
        request \<leftarrow> resolve_request P node service hints m;
        case request of
          Inl error \<Rightarrow> Some (error, m)
        | Inr (flags, port, socktype, protocol, candidates) \<Rightarrow> do {
            (head, m) \<leftarrow> link_nodes P port flags socktype protocol candidates null null m;
            if head = null then Some (EAI_NONAME, m)
            else do {
              m \<leftarrow> write_block m res (le_bytes 8 head);
              Some (0, m) } } })"

partial_function (option) freeaddrinfo :: "addr \<Rightarrow> mem \<Rightarrow> mem option" where
  "freeaddrinfo res m =
     (if res = null then Some m
      else do {
        next \<leftarrow> read_u64 m (res + 40);
        m \<leftarrow> free_node res m;
        freeaddrinfo (unat next) m })"

section \<open>\<^verbatim>\<open>getnameinfo\<close>\<close>

definition u32_to_be_bytes :: "nat \<Rightarrow> u8 list" where
  "u32_to_be_bytes v = rev (le_bytes 4 v)"

definition format_numeric_ipv4 :: "nat \<Rightarrow> str" where
  "format_numeric_ipv4 s_addr = ipv4_to_string (u32_to_be_bytes s_addr)"

definition format_numeric_ipv6 :: "u8 list \<Rightarrow> str" where
  "format_numeric_ipv6 s6_addr = ipv6_to_string s6_addr"

definition format_numeric_service :: "nat \<Rightarrow> str" where
  "format_numeric_service port = radix_text 10 (u16_to_be port)"

definition write_output_string :: "addr \<Rightarrow> nat \<Rightarrow> str \<Rightarrow> mem \<Rightarrow> (bool \<times> mem) option" where
  "write_output_string buffer buffer_len output m =
     (if buffer = null then Some (True, m)
      else if buffer_len \<le> length (utf8_bytes output) then Some (False, m)
      else do {
        m \<leftarrow> write_block m buffer (utf8_bytes output);
        m \<leftarrow> write_u8 m (buffer + length (utf8_bytes output)) 0;
        Some (True, m) })"

definition should_reject_name_required_without_numeric_host :: "c_int \<Rightarrow> bool" where
  "should_reject_name_required_without_numeric_host flags \<longleftrightarrow> flags AND NI_NAMEREQD \<noteq> 0 \<and> flags AND NI_NUMERICHOST = 0"

text \<open>The texts that are asked for, or an error.\<close>

definition name_outputs :: "mem \<Rightarrow> addr \<Rightarrow> nat \<Rightarrow> bool \<Rightarrow> bool \<Rightarrow> c_int \<Rightarrow> (c_int + str option \<times> str option) option" where
  "name_outputs m addr address_len wants_host wants_service flags = do {
     family \<leftarrow> read_block m addr 2;
     if le_val family = unat AF_INET then
       (if address_len < SOCKADDR_IN_SIZE then Some (Inl EAI_FAMILY)
        else do {
          sa \<leftarrow> read_block m addr SOCKADDR_IN_SIZE;
          Some (if wants_host \<and> should_reject_name_required_without_numeric_host flags then Inl EAI_NONAME
                else Inr (if wants_host then Some (format_numeric_ipv4 (le_val (take 4 (drop 4 sa)))) else None,
                          if wants_service then Some (format_numeric_service (le_val (take 2 (drop 2 sa)))) else None)) })
     else if le_val family = unat AF_INET6 then
       (if address_len < SOCKADDR_IN6_SIZE then Some (Inl EAI_FAMILY)
        else do {
          sa \<leftarrow> read_block m addr SOCKADDR_IN6_SIZE;
          Some (if wants_host \<and> should_reject_name_required_without_numeric_host flags then Inl EAI_NONAME
                else Inr (if wants_host then Some (format_numeric_ipv6 (take 16 (drop 8 sa))) else None,
                          if wants_service then Some (format_numeric_service (le_val (take 2 (drop 2 sa)))) else None)) })
     else Some (Inl EAI_FAMILY) }"

definition too_long :: "nat \<Rightarrow> str option \<Rightarrow> bool" where
  "too_long len output \<longleftrightarrow> (case output of None \<Rightarrow> False | Some s \<Rightarrow> len \<le> length (utf8_bytes s))"

definition write_output :: "addr \<Rightarrow> nat \<Rightarrow> str option \<Rightarrow> mem \<Rightarrow> (bool \<times> mem) option" where
  "write_output buffer len output m = (case output of None \<Rightarrow> Some (True, m) | Some s \<Rightarrow> write_output_string buffer len s m)"

definition getnameinfo :: "addr \<Rightarrow> u32 \<Rightarrow> addr \<Rightarrow> u32 \<Rightarrow> addr \<Rightarrow> u32 \<Rightarrow> c_int \<Rightarrow> mem \<Rightarrow> (c_int \<times> mem) option" where
  "getnameinfo addr addrlen host hostlen serv servlen flags m =
     (let wants_host = host \<noteq> null; wants_service = serv \<noteq> null;
          host_buffer_len = unat hostlen; service_buffer_len = unat servlen; address_len = unat addrlen in
      if flags AND NOT ALLOWED_NI_FLAGS \<noteq> 0 then Some (EAI_BADFLAGS, m)
      else if \<not> wants_host \<and> \<not> wants_service then Some (EAI_NONAME, m)
      else if wants_host \<and> host_buffer_len = 0 then Some (EAI_OVERFLOW, m)
      else if wants_service \<and> service_buffer_len = 0 then Some (EAI_OVERFLOW, m)
      else if addr = null \<or> address_len < SOCKADDR_SIZE then Some (EAI_FAMILY, m)
      else do {
        outputs \<leftarrow> name_outputs m addr address_len wants_host wants_service flags;
        case outputs of
          Inl error \<Rightarrow> Some (error, m)
        | Inr (host_output, service_output) \<Rightarrow>
            if too_long host_buffer_len host_output then Some (EAI_OVERFLOW, m)
            else if too_long service_buffer_len service_output then Some (EAI_OVERFLOW, m)
            else do {
              (ok, m) \<leftarrow> write_output host host_buffer_len host_output m;
              if \<not> ok then Some (EAI_OVERFLOW, m)
              else do {
                (ok, m) \<leftarrow> write_output serv service_buffer_len service_output m;
                if \<not> ok then Some (EAI_OVERFLOW, m) else Some (0, m) } } })"

text \<open>The text at the address that \<^verbatim>\<open>gai_strerror\<close> returns.\<close>

definition gai_strerror :: "c_int \<Rightarrow> string" where
  "gai_strerror errcode =
     (if errcode = EAI_BADFLAGS then ''Bad value for ai_flags''
      else if errcode = EAI_NONAME then ''Name or service not known''
      else if errcode = EAI_AGAIN then ''Temporary failure in name resolution''
      else if errcode = EAI_FAMILY then ''Address family not supported''
      else if errcode = EAI_SOCKTYPE then ''Socket type not supported''
      else if errcode = EAI_SERVICE then ''Service not supported for socket type''
      else if errcode = EAI_MEMORY then ''Memory allocation failure''
      else if errcode = EAI_SYSTEM then ''System error''
      else if errcode = EAI_OVERFLOW then ''Argument buffer overflow''
      else if errcode = EAI_FAIL then ''Non-recoverable failure''
      else ''Unknown error'')"

end
