(* ===== verification/Net_Resolve.thy ===== *)
theory Net_Resolve
  imports Netdb
begin

text \<open>
  What the resolver decides: printed addresses and ports read back, the addresses of a name are those of the lines of \<^verbatim>\<open>/etc/hosts\<close> that list it, with
  the loopback addresses first for \<^verbatim>\<open>localhost\<close>, and every answer is well formed.
\<close>

section \<open>Well-formed addresses\<close>

primrec candidate_ok :: "AddressCandidate \<Rightarrow> bool" where
  "candidate_ok (Ipv4 bs) \<longleftrightarrow> length bs = 4"
| "candidate_ok (Ipv6 bs) \<longleftrightarrow> length bs = 16"

lemma read_ipv4_length: "read_ipv4_addr s = Some (v, t) \<Longrightarrow> length v = 4"
  by (auto simp: read_ipv4_addr_def bind_eq_Some_conv)

lemma ipv4_from_str_length: "ipv4_from_str s = Some bs \<Longrightarrow> length bs = 4"
  using read_ipv4_length by (auto simp: ipv4_from_str_def split: option.splits prod.splits list.splits if_splits)

lemma legacy_length: "parse_ipv4_legacy_text s = Some bs \<Longrightarrow> length bs = 4"
  by (auto simp: parse_ipv4_legacy_text_def to_be_bytes_def bind_eq_Some_conv)

lemma read_groups_length: "length (fst (read_groups k i s)) \<le> k"
proof (induction k arbitrary: i s)
  case (Suc k)
  have "length (fst (read_groups k (Suc i) t)) \<le> k" for t by (rule Suc)
  moreover have "length (case read_groups k (Suc i) t of (gs, v4, u) \<Rightarrow> g # gs) = Suc (length (fst (read_groups k (Suc i) t)))" for g t
    by (simp split: prod.split)
  ultimately show ?case by (auto split: option.split prod.split) (metis fst_conv)
qed simp

lemma read_ipv6_length: "read_ipv6_addr s = Some (gs, t) \<Longrightarrow> length gs = 8"
proof -
  assume run: "read_ipv6_addr s = Some (gs, t)"
  obtain head v4 s1 where h: "read_groups 8 0 s = (head, v4, s1)" by (cases "read_groups 8 0 s")
  show "length gs = 8"
  proof (cases "length head = 8")
    case False
    then obtain u where u: "(case read_groups (7 - length head) 0 u of (tail, x, s) \<Rightarrow>
        Some (head @ replicate (8 - length head - length tail) 0 @ tail, s)) = Some (gs, t)"
      using run h by (auto simp: read_ipv6_addr_def bind_eq_Some_conv split: if_splits)
    obtain tail x s2 where "read_groups (7 - length head) 0 u = (tail, x, s2)" by (cases "read_groups (7 - length head) 0 u")
    moreover from this have "length tail \<le> 7 - length head" using read_groups_length by (metis fst_conv)
    moreover have "length head \<le> 8" using read_groups_length [of 8 0 s] h by simp
    ultimately show ?thesis using u False by auto
  qed (use run h in \<open>simp add: read_ipv6_addr_def\<close>)
qed

lemma ipv6_from_str_length: "ipv6_from_str s = Some bs \<Longrightarrow> length bs = 16"
proof -
  assume "ipv6_from_str s = Some bs"
  then obtain gs where gs: "read_ipv6_addr s = Some (gs, [])" "bs = concat (map segment_bytes gs)"
    by (auto simp: ipv6_from_str_def split: option.splits prod.splits list.splits)
  have "length (concat (map segment_bytes xs)) = 2 * length xs" for xs by (induction xs) (simp_all add: segment_bytes_def)
  then show "length bs = 16" using gs read_ipv6_length by simp
qed

lemma parse_numeric_ok: "parse_numeric_host_text s = Some c \<Longrightarrow> candidate_ok c"
  using ipv4_from_str_length legacy_length ipv6_from_str_length by (auto simp: parse_numeric_host_text_def split: option.splits)

section \<open>Printed addresses read back\<close>

primrec candidate_text :: "AddressCandidate \<Rightarrow> str" where
  "candidate_text (Ipv4 bs) = ipv4_to_string bs"
| "candidate_text (Ipv6 bs) = ipv6_to_string bs"

lemma read_octet_split: "read_octet s = Some (v, t) \<Longrightarrow> \<exists>ds. s = ds @ t \<and> (\<forall>c\<in>set ds. is_digit 10 c)"
  using read_octet_rest [of s v t] by (metis set_takeWhileD takeWhile_dropWhile_id)

lemma read_separated_split: "read_separator DOT_CHAR i read_octet s = Some (v, t) \<Longrightarrow> \<exists>ds. s = ds @ t \<and> (\<forall>c\<in>set ds. c = DOT_CHAR \<or> is_digit 10 c)"
proof -
  assume run: "read_separator DOT_CHAR i read_octet s = Some (v, t)"
  show ?thesis
  proof (cases "0 < i")
    case True
    then obtain u where "s = DOT_CHAR # u" "read_octet u = Some (v, t)"
      using run by (auto simp: read_separator_def read_char_def bind_eq_Some_conv split: list.splits if_splits)
    then show ?thesis using read_octet_split [of u v t] by (metis append_Cons set_ConsD)
  next
    case False
    then show ?thesis using run read_octet_split [of s v t] by (auto simp: read_separator_def)
  qed
qed

lemma read_ipv4_chars: "read_ipv4_addr s = Some (v, []) \<Longrightarrow> c \<in> set s \<Longrightarrow> c = DOT_CHAR \<or> is_digit 10 c"
proof -
  assume run: "read_ipv4_addr s = Some (v, [])" and c: "c \<in> set s"
  then obtain v1 s1 v2 s2 v3 s3 v4 where r: "read_octet s = Some (v1, s1)" "read_separator DOT_CHAR 1 read_octet s1 = Some (v2, s2)"
    "read_separator DOT_CHAR 2 read_octet s2 = Some (v3, s3)" "read_separator DOT_CHAR 3 read_octet s3 = Some (v4, [])"
    by (auto simp: read_ipv4_addr_def bind_eq_Some_conv)
  obtain d1 where "s = d1 @ s1" "\<forall>c\<in>set d1. is_digit 10 c" using read_octet_split [OF r(1)] by blast
  moreover obtain d2 where "s1 = d2 @ s2" "\<forall>c\<in>set d2. c = DOT_CHAR \<or> is_digit 10 c" using read_separated_split [OF r(2)] by blast
  moreover obtain d3 where "s2 = d3 @ s3" "\<forall>c\<in>set d3. c = DOT_CHAR \<or> is_digit 10 c" using read_separated_split [OF r(3)] by blast
  moreover obtain d4 where "s3 = d4 @ []" "\<forall>c\<in>set d4. c = DOT_CHAR \<or> is_digit 10 c" using read_separated_split [OF r(4)] by blast
  ultimately show "c = DOT_CHAR \<or> is_digit 10 c" using c by auto
qed

lemma colon_not_digit [simp]: "\<not> is_digit 8 COLON"
  by (simp add: is_digit_def to_digit_def COLON_def)

lemma legacy_component_no_colon: "COLON \<in> set component \<Longrightarrow> parse_ipv4_legacy_component component = None"
proof -
  assume c: "COLON \<in> set component"
  have plus: "COLON \<noteq> 43" by (simp add: COLON_def)
  have none: "from_str_radix limit radix s = None" if "COLON \<in> set s" "radix \<in> {8, 10, 16}" for limit radix s
    using that plus from_str_radix_chars [of radix limit s _ COLON] by (cases "from_str_radix limit radix s") auto
  have prefix: "COLON \<in> set h" if "strip_prefix (str_of ''0x'') component = Some h \<or> strip_prefix (str_of ''0X'') component = Some h" for h
    using c that by (auto simp: strip_prefix_Some str_of_def COLON_def)
  show ?thesis using c none prefix by (auto simp: parse_ipv4_legacy_component_def split: option.split)
qed

lemma split_on_member: "c \<in> set s \<Longrightarrow> c \<noteq> sep \<Longrightarrow> \<exists>w\<in>set (split_on sep s). c \<in> set w"
proof (induction sep s rule: split_on.induct)
  case (2 sep b bs)
  then show ?case by (cases "split_on sep bs") auto
qed simp

lemma legacy_components_all: "legacy_components n ws = Some vs \<Longrightarrow> w \<in> set ws \<Longrightarrow> parse_ipv4_legacy_component w \<noteq> None"
proof (induction n ws arbitrary: vs rule: legacy_components.induct)
  case (2 n w ws)
  then show ?case by (auto simp: bind_eq_Some_conv split: if_splits)
qed simp

lemma no_ipv4_with_colon:
  assumes "COLON \<in> set s"
  shows "ipv4_from_str s = None" "parse_ipv4_legacy_text s = None"
proof -
  show "ipv4_from_str s = None"
    using read_ipv4_chars [of s _ COLON] assms by (auto simp: ipv4_from_str_def split: option.split prod.split list.split)
  obtain w where "w \<in> set (split_on DOT_CHAR s)" "COLON \<in> set w" using split_on_member [OF assms, of DOT_CHAR] by auto
  then have "legacy_components 0 (split_on DOT_CHAR s) = None"
    using legacy_components_all legacy_component_no_colon by (cases "legacy_components 0 (split_on DOT_CHAR s)") blast+
  then show "parse_ipv4_legacy_text s = None" by (simp add: parse_ipv4_legacy_text_def)
qed

lemma ipv6_text_colon: "length bs = 16 \<Longrightarrow> COLON \<in> set (ipv6_to_string bs)"
proof -
  assume "length bs = 16"
  then have "length (segments bs) = 8" by (simp add: segments_length)
  then obtain g h gs where "segments bs = g # h # gs" by (auto simp: numeral_eq_Suc length_Suc_conv)
  then have "COLON \<in> set (group_text (segments bs))" by (simp add: group_text_Cons)
  then show ?thesis
    by (cases "zero_span 0 (0, 0) (0, 0) (segments bs)") (auto simp: ipv6_to_string_def Let_def str_of_def COLON_def)
qed

lemma numeric_text_reads_back: "candidate_ok c \<Longrightarrow> parse_numeric_host_text (candidate_text c) = Some c"
  by (cases c) (simp_all add: parse_numeric_host_text_def ipv4_roundtrip ipv6_roundtrip no_ipv4_with_colon ipv6_text_colon)

section \<open>Printed ports read back\<close>

lemma utf8_bytes_ascii: "\<forall>c\<in>set s. 0 \<le> c \<and> c < 128 \<Longrightarrow> utf8_bytes s = map word_of_int s"
  by (induction s) (auto simp: utf8_bytes_def utf8_of_def utf8_ints_def)

lemma uint_ascii: "0 \<le> c \<Longrightarrow> c < 128 \<Longrightarrow> uint (word_of_int c :: u8) = c"
  by (simp add: unsigned_of_int take_bit_int_eq_self)

lemma from_utf8_loop_ascii: "\<forall>c\<in>set s. 0 \<le> c \<and> c < 128 \<Longrightarrow> from_utf8_loop s = Some s"
proof (induction s)
  case (Cons c s)
  then have "sequence_length (c # s) = Some 1" "scalar_of [c] = c"
    by (simp_all add: sequence_length_def)
  then show ?case using Cons by (simp add: from_utf8_loop.simps [of "c # s"])
qed (simp add: from_utf8_loop.simps)

lemma from_utf8_ascii: "\<forall>c\<in>set s. 0 \<le> c \<and> c < 128 \<Longrightarrow> from_utf8 (utf8_bytes s) = Some s"
proof -
  assume s: "\<forall>c\<in>set s. 0 \<le> c \<and> c < 128"
  then have "map uint (utf8_bytes s) = s" by (simp add: utf8_bytes_ascii comp_def uint_ascii map_idI)
  then show ?thesis using from_utf8_loop_ascii [OF s] by (simp add: from_utf8_def)
qed

lemma service_digits_value:
  "\<forall>c\<in>set s. is_digit 10 c \<Longrightarrow> foldl (\<lambda>v c. v * 10 + the (to_digit 10 c)) v s \<le> U16_MAX \<Longrightarrow>
    service_digits_loop v (map word_of_int s) = Inr (foldl (\<lambda>v c. v * 10 + the (to_digit 10 c)) v s)"
proof (induction s arbitrary: v)
  case (Cons c s)
  have c: "48 \<le> c" "c \<le> 57" "to_digit 10 c = Some (nat (c - 48))"
    using Cons.prems(1) by (auto simp: is_digit_def to_digit_def Let_def split: if_splits)
  let ?b = "word_of_int c :: u8"
  have b: "48 \<le> ?b \<and> ?b \<le> 57" "unat ?b - 48 = nat (c - 48)"
  proof -
    have "uint ?b = c" by (rule uint_ascii) (use c in linarith)+
    then have "unat ?b = nat c" by (metis nat_uint_eq)
    then show "unat ?b - 48 = nat (c - 48)" by (simp add: nat_diff_distrib')
  qed (use c in \<open>simp add: word_le_def uint_ascii\<close>)
  have grows: "v \<le> foldl (\<lambda>v c. v * 10 + the (to_digit 10 c)) v s" for v :: nat
  proof (induction s arbitrary: v)
    case (Cons c s)
    have "v \<le> v * 10 + the (to_digit 10 c)" by simp
    also note Cons [of "v * 10 + the (to_digit 10 c)"]
    finally show ?case by simp
  qed simp
  have "v * 10 + nat (c - 48) \<le> U16_MAX" using grows [of "v * 10 + nat (c - 48)"] Cons.prems(2) c(3) by simp
  then show ?case using Cons b c(3) by simp
qed simp

lemma service_text_reads_back:
  assumes "port \<le> U16_MAX"
  shows "parse_numeric_service_digits (utf8_bytes (radix_text 10 port)) = Inr port"
    "\<exists>b bs. utf8_bytes (radix_text 10 port) = b # bs \<and> \<not> is_ascii_whitespace b \<and> b \<noteq> 43"
proof -
  let ?s = "radix_text 10 port"
  have digits: "\<forall>c\<in>set ?s. is_digit 10 c" by (rule radix_text_digits) simp_all
  then have bytes: "utf8_bytes ?s = map word_of_int ?s" using ascii_digit [of 10] by (intro utf8_bytes_ascii) (force intro: less_imp_le)
  have "digits_value 10 ?s = port" by (rule digits_value_text) simp_all
  then show "parse_numeric_service_digits (utf8_bytes ?s) = Inr port"
    using service_digits_value [OF digits, of 0] assms by (simp add: parse_numeric_service_digits_def bytes digits_value_def)
  obtain c t where s: "?s = c # t" by (cases ?s) auto
  then have "48 \<le> c" "c \<le> 57" using digits by (auto simp: is_digit_def to_digit_def Let_def split: if_splits)
  then have "48 \<le> (word_of_int c :: u8)" by (simp add: word_le_def uint_ascii)
  then have "\<not> is_ascii_whitespace (word_of_int c)" "word_of_int c \<noteq> (43 :: u8)" by (auto simp: is_ascii_whitespace_def)
  then show "\<exists>b bs. utf8_bytes ?s = b # bs \<and> \<not> is_ascii_whitespace b \<and> b \<noteq> 43" using bytes s by auto
qed

lemma ipv6_text_ascii: "\<forall>c\<in>set (ipv6_to_string bs). 0 < c \<and> c < 128"
proof -
  have join: "\<forall>c\<in>set (join sep xs). c = sep \<or> (\<exists>x\<in>set xs. c \<in> set x)" for sep xs by (induction sep xs rule: join.induct) auto
  have groups: "\<forall>c\<in>set (group_text gs). 0 < c \<and> c < 128" for gs
    using join [of COLON "map (radix_text 16) gs"] radix_text_digits [of 16] ascii_digit [of 16] by (fastforce simp: group_text_def COLON_def)
  have v4: "\<forall>c\<in>set (ipv4_to_string x). 0 < c \<and> c < 128" for x
    using ipv4_text_chars [of x] ascii_digit [of 10] by (force simp: DOT_CHAR_def)
  obtain start len where "zero_span 0 (0, 0) (0, 0) (segments bs) = (start, len)" by force
  then show ?thesis using groups v4 by (auto simp: ipv6_to_string_def Let_def str_of_def)
qed

lemma candidate_text_ascii: "\<forall>c\<in>set (candidate_text cand). 0 < c \<and> c < 128"
  using ipv6_text_ascii ipv4_text_chars ascii_digit [of 10] by (cases cand) (force simp: DOT_CHAR_def)+

section \<open>The addresses of a name\<close>

text \<open>The first occurrences, in order.\<close>

definition firsts :: "'a list \<Rightarrow> 'a list" where
  "firsts xs = rev (remdups (rev xs))"

lemma firsts_props: "set (firsts xs) = set xs" "distinct (firsts xs)"
  by (simp_all add: firsts_def)

lemma firsts_snoc: "firsts (xs @ [x]) = (if x \<in> set xs then firsts xs else firsts xs @ [x])"
  by (simp add: firsts_def)

definition line_address :: "str \<Rightarrow> str \<Rightarrow> AddressCandidate option" where
  "line_address lookup_name raw_line =
     (case line_columns raw_line of
        [] \<Rightarrow> None
      | address_text # aliases \<Rightarrow>
          if list_ex (\<lambda>alias. eq_ignore_ascii_case (normalize_hostname alias) lookup_name) aliases
          then parse_numeric_host_text address_text else None)"

text \<open>The addresses that \<^verbatim>\<open>/etc/hosts\<close> lists for a name, of the family asked for.\<close>

definition listed_addresses :: "net_platform \<Rightarrow> str \<Rightarrow> c_int \<Rightarrow> AddressCandidate list" where
  "listed_addresses P node_text family =
     (case hosts_text P of
        None \<Rightarrow> []
      | Some hosts_file \<Rightarrow>
          if normalize_hostname node_text = [] then []
          else firsts (filter (family_accepts_candidate family)
                 (List.map_filter (line_address (normalize_hostname node_text)) (str_lines hosts_file))))"

definition accepted :: "c_int \<Rightarrow> AddressCandidate list \<Rightarrow> AddressCandidate list" where
  "accepted family xs = firsts (filter (family_accepts_candidate family) xs)"

lemma push_unique_firsts: "push_unique_candidate family x (accepted family xs) = accepted family (xs @ [x])"
  by (simp add: push_unique_candidate_def accepted_def firsts_snoc firsts_props)

lemma hosts_loop_firsts:
  "hosts_loop name family (accepted family xs) lines = accepted family (xs @ List.map_filter (line_address name) lines)"
proof (induction lines arbitrary: xs)
  case (Cons l ls)
  show ?case
  proof (cases "line_address name l")
    case None
    then have "hosts_loop name family (accepted family xs) (l # ls) = hosts_loop name family (accepted family xs) ls"
      by (auto simp: line_address_def split: list.split option.splits if_splits)
    then show ?thesis using Cons None by (simp add: map_filter_simps)
  next
    case (Some x)
    then obtain a aliases where "line_columns l = a # aliases" "parse_numeric_host_text a = Some x"
      "list_ex (\<lambda>alias. eq_ignore_ascii_case (normalize_hostname alias) name) aliases"
      by (auto simp: line_address_def split: list.splits if_splits)
    then have "hosts_loop name family (accepted family xs) (l # ls) = hosts_loop name family (accepted family (xs @ [x])) ls"
      by (simp add: push_unique_firsts)
    then show ?thesis using Cons [of "xs @ [x]"] Some by (simp add: map_filter_simps)
  qed
qed (simp add: map_filter_simps)

lemma hosts_file_listed: "resolve_hosts_file_candidates P node_text family = listed_addresses P node_text family"
  using hosts_loop_firsts [of "normalize_hostname node_text" family "[]"]
  by (auto simp: resolve_hosts_file_candidates_def listed_addresses_def Let_def accepted_def firsts_def split: option.split)

text \<open>The loopback addresses of a family, in the order in which \<^verbatim>\<open>localhost\<close> has them.\<close>

definition loopbacks :: "c_int \<Rightarrow> AddressCandidate list" where
  "loopbacks family = filter (family_accepts_candidate family) [Ipv6 IN6ADDR_LOOPBACK_BYTES, Ipv4 INADDR_LOOPBACK_BYTES]"

lemma preferred_loopbacks_eq: "family \<in> {AF_UNSPEC, AF_INET, AF_INET6} \<Longrightarrow> preferred_loopbacks family = Some (loopbacks family)"
  by (auto simp: preferred_loopbacks_def loopbacks_def family_accepts_candidate_def af_defs)

lemma push_absent_all: "distinct ys \<Longrightarrow> fold push_absent ys xs = xs @ filter (\<lambda>y. y \<notin> set xs) ys"
proof (induction ys arbitrary: xs)
  case (Cons y ys)
  then have "filter (\<lambda>z. z \<noteq> y \<and> z \<notin> set xs) ys = filter (\<lambda>z. z \<notin> set xs) ys" by (intro filter_cong) auto
  then show ?case using Cons by (auto simp: push_absent_def)
qed simp

lemma localhost_candidates:
  assumes family: "family \<in> {AF_UNSPEC, AF_INET, AF_INET6}" and name: "is_localhost_name node_text"
    and found: "distinct cs" "\<forall>c\<in>set cs. family_accepts_candidate family c"
  shows "reorder_localhost_candidates node_text family (append_localhost_fallback node_text family cs) =
    loopbacks family @ filter (\<lambda>c. c \<notin> set (loopbacks family)) cs"
proof -
  let ?cs = "append_localhost_fallback node_text family cs"
  have cs: "?cs = cs @ filter (\<lambda>c. c \<notin> set cs) (loopbacks family)"
    using name by (auto simp: append_localhost_fallback_def push_unique_candidate_def loopbacks_def)
  have distinct: "distinct ?cs" using found by (auto simp: cs loopbacks_def distinct_filter)
  have all: "set (loopbacks family) \<subseteq> set ?cs" by (auto simp: cs)
  have "loopbacks family \<noteq> []" using family by (auto simp: loopbacks_def family_accepts_candidate_def af_defs)
  have rest: "filter (\<lambda>c. c \<notin> set (loopbacks family)) ?cs = filter (\<lambda>c. c \<notin> set (loopbacks family)) cs" by (auto simp: cs filter_empty_conv)
  show ?thesis
  proof (cases "length ?cs < 2")
    case True
    obtain l ls where l: "loopbacks family = l # ls" using \<open>loopbacks family \<noteq> []\<close> by (cases "loopbacks family") auto
    then have "l \<in> set ?cs" using all by auto
    then have one: "?cs = [l]" using True by (cases ?cs) auto
    then have "ls = []" using all l distinct by (auto simp: loopbacks_def split: if_splits)
    then show ?thesis using True l one rest by (simp add: reorder_localhost_candidates_def)
  next
    case False
    have "filter (\<lambda>c. c \<in> set ?cs) (loopbacks family) = loopbacks family" using all by (simp add: filter_id_conv subset_iff)
    then show ?thesis
      using False name preferred_loopbacks_eq [OF family] push_absent_all [OF distinct, of "loopbacks family"] rest
      by (simp add: reorder_localhost_candidates_def)
  qed
qed

lemma listed_props: "distinct (listed_addresses P node_text family)" "\<forall>c\<in>set (listed_addresses P node_text family). family_accepts_candidate family c"
  by (auto simp: listed_addresses_def firsts_props split: option.split)

lemma hostname_candidates:
  assumes "family \<in> {AF_UNSPEC, AF_INET, AF_INET6}"
  shows "resolve_hostname_candidates P node_text family =
    (let listed = listed_addresses P node_text family in
     if is_localhost_name node_text then Inr (loopbacks family @ filter (\<lambda>c. c \<notin> set (loopbacks family)) listed)
     else if listed = [] then Inl EAI_NONAME else Inr listed)"
proof -
  have some: "loopbacks family \<noteq> []" using assms by (auto simp: loopbacks_def family_accepts_candidate_def af_defs)
  show ?thesis
  proof (cases "is_localhost_name node_text")
    case True
    then show ?thesis using localhost_candidates [OF assms True listed_props] some
      by (simp add: resolve_hostname_candidates_def resolve_hostname_candidates_with_def hosts_file_listed Let_def)
  next
    case False
    then show ?thesis
      by (simp add: resolve_hostname_candidates_def resolve_hostname_candidates_with_def hosts_file_listed Let_def
          append_localhost_fallback_def reorder_localhost_candidates_def resolve_dns_candidates_def)
  qed
qed

end
