(* ===== verification/Net_List.thy ===== *)
theory Net_List
  imports Net_Resolve
begin

text \<open>
  The list that \<^verbatim>\<open>getaddrinfo\<close> builds in memory, against the list of addresses it stands for, and \<^verbatim>\<open>freeaddrinfo\<close>, which takes it away again.
\<close>

section \<open>Boxes\<close>

definition block :: "addr \<Rightarrow> nat \<Rightarrow> addr set" where
  "block p n = {p..<p + n}"

text \<open>While fewer than \<open>2 ^ 47\<close> bytes are in use, a box is put where nothing is.\<close>

definition MEMORY_LIMIT :: nat where "MEMORY_LIMIT = 2 ^ 47"

definition boxes_ok :: "net_platform \<Rightarrow> bool" where
  "boxes_ok P \<longleftrightarrow>
     (\<forall>n m. 0 < n \<and> n \<le> 64 \<and> finite (dom m) \<and> card (dom m) < MEMORY_LIMIT \<longrightarrow>
        box_addr P n m \<noteq> null \<and> box_addr P n m + n \<le> 2 ^ 64 \<and> block (box_addr P n m) n \<inter> dom m = {})"

lemma boxes_okD:
  assumes "boxes_ok P" "0 < n" "n \<le> 64" "finite (dom m)" "card (dom m) < MEMORY_LIMIT"
  shows "box_addr P n m \<noteq> null" "box_addr P n m + n \<le> 2 ^ 64" "block (box_addr P n m) n \<inter> dom m = {}"
  using assms by (auto simp: boxes_ok_def)

lemma block_mapped: "block p n \<subseteq> dom m \<Longrightarrow> mapped m p n"
proof -
  assume all: "block p n \<subseteq> dom m"
  have "m (p + i) \<noteq> None" if "i < n" for i
  proof -
    have "p + i \<in> block p n" using that by (simp add: block_def)
    then show ?thesis using all by auto
  qed
  then show ?thesis by (simp add: mapped_def)
qed

lemma read_block_mapped: "mapped m p n \<Longrightarrow> read_block m p n \<noteq> None"
proof (induction n arbitrary: p)
  case (Suc n)
  have "mapped m (Suc p) n" using Suc.prems by (force simp: mapped_def)
  moreover have "m p \<noteq> None" using mapped_less [OF Suc.prems, of 0] by simp
  ultimately show ?case using Suc.IH [of "Suc p"] by auto
qed simp

lemma dom_store_bytes: "dom (store_bytes m p bs) = dom m \<union> block p (length bs)"
proof (induction bs arbitrary: m p)
  case (Cons b bs)
  have "dom (store_bytes m p (b # bs)) = dom (m(p \<mapsto> b)) \<union> block (Suc p) (length bs)" by (simp only: store_bytes.simps Cons)
  also have "\<dots> = dom m \<union> block p (length (b # bs))" by (auto simp: block_def)
  finally show ?case .
qed (simp add: block_def)

lemma store_bytes_outside: "a \<notin> block p (length bs) \<Longrightarrow> store_bytes m p bs a = m a"
  by (rule store_bytes_other) (auto simp: block_def)

lemma block_card: "finite (block p n)" "card (block p n) = n"
  by (simp_all add: block_def)

lemma bytes_at_block: "(\<And>a. a \<in> block p (length bs) \<Longrightarrow> m a = m' a) \<Longrightarrow> bytes_at m p bs = bytes_at m' p bs"
  by (rule bytes_at_cong) (simp add: block_def)

section \<open>Entries of the list\<close>

type_synonym entry = "addr \<times> addr \<times> AddressCandidate"

primrec sockaddr_bytes :: "nat \<Rightarrow> AddressCandidate \<Rightarrow> u8 list" where
  "sockaddr_bytes port (Ipv4 bs) = sockaddr_in_bytes bs port"
| "sockaddr_bytes port (Ipv6 bs) = sockaddr_in6_bytes bs port"

primrec sockaddr_len :: "AddressCandidate \<Rightarrow> nat" where
  "sockaddr_len (Ipv4 bs) = SOCKADDR_IN_SIZE"
| "sockaddr_len (Ipv6 bs) = SOCKADDR_IN6_SIZE"

primrec candidate_family :: "AddressCandidate \<Rightarrow> c_int" where
  "candidate_family (Ipv4 bs) = AF_INET"
| "candidate_family (Ipv6 bs) = AF_INET6"

definition entry_info :: "c_int \<times> c_int \<times> c_int \<Rightarrow> entry \<Rightarrow> addr \<Rightarrow> addrinfo" where
  "entry_info hint e next = (case (hint, e) of ((flags, socktype, protocol), (p, sa, c)) \<Rightarrow>
     \<lparr>ai_flags = flags, ai_family = candidate_family c, ai_socktype = socktype, ai_protocol = protocol,
      ai_addrlen = sockaddr_len c, ai_addr = sa, ai_canonname = null, ai_next = next\<rparr>)"

definition node_at :: "c_int \<times> c_int \<times> c_int \<Rightarrow> nat \<Rightarrow> mem \<Rightarrow> entry \<Rightarrow> addr \<Rightarrow> bool" where
  "node_at hint port m e next \<longleftrightarrow> (case e of (p, sa, c) \<Rightarrow>
     bytes_at m p (addrinfo_bytes (entry_info hint e next)) \<and> bytes_at m sa (sockaddr_bytes port c))"

definition entry_block :: "entry \<Rightarrow> addr set" where
  "entry_block e = (case e of (p, sa, c) \<Rightarrow> block p ADDRINFO_SIZE \<union> block sa (sockaddr_len c))"

definition entry_ok :: "entry \<Rightarrow> bool" where
  "entry_ok e \<longleftrightarrow> (case e of (p, sa, c) \<Rightarrow>
     p \<noteq> null \<and> sa \<noteq> null \<and> p < 2 ^ 64 \<and> sa < 2 ^ 64 \<and> block p ADDRINFO_SIZE \<inter> block sa (sockaddr_len c) = {} \<and> candidate_ok c)"

definition blocks :: "entry list \<Rightarrow> addr set" where
  "blocks es = \<Union> (entry_block ` set es)"

lemma blocks_simps [simp]: "blocks [] = {}" "blocks (e # es) = entry_block e \<union> blocks es" "blocks (xs @ ys) = blocks xs \<union> blocks ys"
  by (auto simp: blocks_def)

definition first_node :: "entry list \<Rightarrow> addr" where
  "first_node es = (case es of [] \<Rightarrow> null | e # _ \<Rightarrow> fst e)"

lemma first_node_simps [simp]: "first_node [] = null" "first_node (e # es) = fst e" "es \<noteq> [] \<Longrightarrow> first_node (es @ xs) = first_node es"
  by (auto simp: first_node_def split: list.split)

primrec nodes_at :: "c_int \<times> c_int \<times> c_int \<Rightarrow> nat \<Rightarrow> mem \<Rightarrow> entry list \<Rightarrow> bool" where
  "nodes_at hint port m [] \<longleftrightarrow> True"
| "nodes_at hint port m (e # es) \<longleftrightarrow> node_at hint port m e (first_node es) \<and> nodes_at hint port m es"

primrec apart :: "entry list \<Rightarrow> bool" where
  "apart [] \<longleftrightarrow> True"
| "apart (e # es) \<longleftrightarrow> entry_ok e \<and> entry_block e \<inter> blocks es = {} \<and> apart es"

lemma apart_snoc: "apart (es @ [e]) \<longleftrightarrow> apart es \<and> entry_ok e \<and> blocks es \<inter> entry_block e = {}"
  by (induction es) auto

lemma length_addrinfo_head: "length (addrinfo_head ai) = 40"
  by (simp add: addrinfo_head_def)

lemma length_addrinfo_bytes: "length (addrinfo_bytes ai) = ADDRINFO_SIZE"
  by (simp add: addrinfo_bytes_def length_addrinfo_head ADDRINFO_SIZE_def)

lemma length_sockaddr_bytes: "candidate_ok c \<Longrightarrow> length (sockaddr_bytes port c) = sockaddr_len c"
  by (cases c) (simp_all add: sockaddr_in_bytes_def sockaddr_in6_bytes_def SOCKADDR_IN_SIZE_def SOCKADDR_IN6_SIZE_def)

lemma node_at_cong:
  assumes "entry_ok e" "\<And>a. a \<in> entry_block e \<Longrightarrow> m a = m' a"
  shows "node_at hint port m e next = node_at hint port m' e next"
proof -
  obtain p sa c where e: "e = (p, sa, c)" by (cases e)
  have "bytes_at m p (addrinfo_bytes (entry_info hint e next)) = bytes_at m' p (addrinfo_bytes (entry_info hint e next))"
    by (rule bytes_at_block) (use assms e in \<open>auto simp: length_addrinfo_bytes entry_block_def\<close>)
  moreover have "bytes_at m sa (sockaddr_bytes port c) = bytes_at m' sa (sockaddr_bytes port c)"
    by (rule bytes_at_block) (use assms e in \<open>auto simp: length_sockaddr_bytes entry_block_def entry_ok_def\<close>)
  ultimately show ?thesis by (simp add: node_at_def e)
qed

lemma nodes_at_cong: "apart es \<Longrightarrow> (\<And>a. a \<in> blocks es \<Longrightarrow> m a = m' a) \<Longrightarrow> nodes_at hint port m es = nodes_at hint port m' es"
proof (induction es)
  case (Cons e es)
  then have "node_at hint port m e (first_node es) = node_at hint port m' e (first_node es)" by (intro node_at_cong) auto
  then show ?case using Cons by simp
qed simp

lemma entry_block_mapped: "entry_ok e \<Longrightarrow> node_at hint port m e next \<Longrightarrow> entry_block e \<subseteq> dom m"
proof -
  assume ok: "entry_ok e" and node: "node_at hint port m e next"
  obtain p sa c where e: "e = (p, sa, c)" by (cases e)
  have "m a \<noteq> None" if "bytes_at m q bs" "a \<in> block q (length bs)" for q bs a
  proof -
    have "bytes_at m q bs \<Longrightarrow> a - q < length bs \<Longrightarrow> m (q + (a - q)) = Some (bs ! (a - q))" by (rule bytes_at_nth)
    then show ?thesis using that by (auto simp: block_def)
  qed
  note mapped = this
  show ?thesis
    using node ok mapped [of p "addrinfo_bytes (entry_info hint e next)"] mapped [of sa "sockaddr_bytes port c"]
    by (auto simp: node_at_def e entry_block_def entry_ok_def length_addrinfo_bytes length_sockaddr_bytes)
qed

section \<open>Building\<close>

text \<open>Setting the link of the last node.\<close>

lemma node_at_link:
  assumes "node_at hint port m (p, sa, c) next" "entry_ok (p, sa, c)"
  shows "node_at hint port (store_bytes m (p + 40) (le_bytes 8 q)) (p, sa, c) q"
proof -
  let ?m = "store_bytes m (p + 40) (le_bytes 8 q)"
  let ?head = "addrinfo_head (entry_info hint (p, sa, c) next)"
  have head: "addrinfo_head (entry_info hint (p, sa, c) q) = ?head" by (cases hint) (simp add: addrinfo_head_def entry_info_def)
  have "bytes_at m p ?head" using assms(1) by (simp add: node_at_def addrinfo_bytes_def)
  moreover have "bytes_at ?m p ?head = bytes_at m p ?head"
    by (rule bytes_at_block) (auto simp: length_addrinfo_head block_def intro!: store_bytes_other)
  moreover have "bytes_at ?m (p + 40) (le_bytes 8 q)" by (rule bytes_at_store_bytes)
  moreover have "bytes_at ?m sa (sockaddr_bytes port c) = bytes_at m sa (sockaddr_bytes port c)"
  proof (rule bytes_at_block)
    fix a assume "a \<in> block sa (length (sockaddr_bytes port c))"
    then have "a \<notin> block p ADDRINFO_SIZE" using assms(2) by (auto simp: entry_ok_def length_sockaddr_bytes)
    then show "?m a = m a" by (intro store_bytes_outside) (auto simp: block_def ADDRINFO_SIZE_def)
  qed
  moreover have "ai_next (entry_info hint (p, sa, c) q) = q" by (cases hint) (simp add: entry_info_def)
  ultimately show ?thesis
    using assms(1) head by (simp add: node_at_def addrinfo_bytes_def length_addrinfo_head)
qed

lemma link_outside: "a \<notin> entry_block (p, sa, c) \<Longrightarrow> store_bytes m (p + 40) (le_bytes 8 q) a = m a"
  by (rule store_bytes_outside) (auto simp: entry_block_def block_def ADDRINFO_SIZE_def)

lemma nodes_at_extend:
  "nodes_at hint port m (es @ [(p, sa, c)]) \<Longrightarrow> node_at hint port m e null \<Longrightarrow> apart (es @ [(p, sa, c), e]) \<Longrightarrow>
    nodes_at hint port (store_bytes m (p + 40) (le_bytes 8 (fst e))) (es @ [(p, sa, c), e])"
proof (induction es)
  case Nil
  then have "node_at hint port (store_bytes m (p + 40) (le_bytes 8 (fst e))) (p, sa, c) (fst e)" by (intro node_at_link) auto
  moreover have "node_at hint port (store_bytes m (p + 40) (le_bytes 8 (fst e))) e null = node_at hint port m e null"
    by (rule node_at_cong) (use Nil in \<open>auto intro!: link_outside\<close>)
  ultimately show ?case using Nil by simp
next
  case (Cons x es)
  let ?m = "store_bytes m (p + 40) (le_bytes 8 (fst e))"
  have "first_node (es @ [(p, sa, c), e]) = first_node (es @ [(p, sa, c)])" by (cases es) simp_all
  moreover have "node_at hint port ?m x (first_node (es @ [(p, sa, c)])) = node_at hint port m x (first_node (es @ [(p, sa, c)]))"
    by (rule node_at_cong) (use Cons.prems(3) in \<open>auto intro!: link_outside\<close>)
  ultimately show ?case using Cons by simp
qed

text \<open>A list over a memory in which its blocks are not mapped.\<close>

definition list_over :: "c_int \<times> c_int \<times> c_int \<Rightarrow> nat \<Rightarrow> mem \<Rightarrow> mem \<Rightarrow> entry list \<Rightarrow> bool" where
  "list_over hint port m0 m es \<longleftrightarrow>
     nodes_at hint port m es \<and> apart es \<and> blocks es \<inter> dom m0 = {} \<and> dom m = dom m0 \<union> blocks es \<and> (\<forall>a. a \<notin> blocks es \<longrightarrow> m a = m0 a)"

lemma box_new_ok:
  assumes "boxes_ok P" "0 < length bs" "length bs \<le> 64" "finite (dom m)" "card (dom m) < MEMORY_LIMIT" "box_new P bs m = (p, m')"
  shows "p \<noteq> null" "p < 2 ^ 64" "block p (length bs) \<inter> dom m = {}" "bytes_at m' p bs" "dom m' = dom m \<union> block p (length bs)"
    "\<And>a. a \<notin> block p (length bs) \<Longrightarrow> m' a = m a" "finite (dom m')" "card (dom m') \<le> card (dom m) + length bs"
proof -
  have p: "p = box_addr P (length bs) m" and m': "m' = store_bytes m p bs" using assms(6) by (auto simp: box_new_def Let_def)
  note box = boxes_okD [OF assms(1-5)]
  show "p \<noteq> null" using box p by simp
  have "p + length bs \<le> 2 ^ 64" "block p (length bs) \<inter> dom m = {}" using box p by simp_all
  then show "p < 2 ^ 64" "block p (length bs) \<inter> dom m = {}" using assms(2) by linarith+
  show "bytes_at m' p bs" unfolding m' by (rule bytes_at_store_bytes)
  show dom: "dom m' = dom m \<union> block p (length bs)" unfolding m' by (rule dom_store_bytes)
  show "m' a = m a" if "a \<notin> block p (length bs)" for a unfolding m' by (rule store_bytes_outside [OF that])
  show "finite (dom m')" using assms(4) dom block_card by simp
  show "card (dom m') \<le> card (dom m) + length bs" unfolding dom using card_Un_le [of "dom m" "block p (length bs)"] block_card by simp
qed

lemma entry_info_node: "candidate_ok c \<Longrightarrow> allocate_addrinfo_node P c port flags socktype protocol m =
    (case box_new P (sockaddr_bytes port c) m of (sa, m) \<Rightarrow>
       box_new P (addrinfo_bytes (entry_info (flags, socktype, protocol) (p, sa, c) null)) m)"
  by (cases c) (simp_all add: allocate_addrinfo_node_def allocate_ipv4_sockaddr_def allocate_ipv6_sockaddr_def entry_info_def Let_def split: prod.split)

lemma allocate_ok:
  assumes P: "boxes_ok P" and fin: "finite (dom m)" and card: "card (dom m) + 76 < MEMORY_LIMIT" and c: "candidate_ok c"
    and run: "allocate_addrinfo_node P c port flags socktype protocol m = (p, m')"
  shows "\<exists>sa. entry_ok (p, sa, c) \<and> node_at (flags, socktype, protocol) port m' (p, sa, c) null \<and> entry_block (p, sa, c) \<inter> dom m = {} \<and>
    dom m' = dom m \<union> entry_block (p, sa, c) \<and> (\<forall>a. a \<notin> entry_block (p, sa, c) \<longrightarrow> m' a = m a) \<and> card (dom m') \<le> card (dom m) + 76"
proof -
  obtain sa m1 where sa: "box_new P (sockaddr_bytes port c) m = (sa, m1)" by force
  let ?bs = "addrinfo_bytes (entry_info (flags, socktype, protocol) (p, sa, c) null)"
  have node: "box_new P ?bs m1 = (p, m')" using run entry_info_node [OF c, of P port flags socktype protocol m p] sa by simp
  have len: "length (sockaddr_bytes port c) = sockaddr_len c" "0 < sockaddr_len c" "sockaddr_len c \<le> 28" "length ?bs = 48"
    using length_sockaddr_bytes [OF c] length_addrinfo_bytes by (cases c; simp add: SOCKADDR_IN_SIZE_def SOCKADDR_IN6_SIZE_def ADDRINFO_SIZE_def)+
  note b1 = box_new_ok [OF P _ _ fin _ sa, unfolded len(1)]
  have b1': "sa \<noteq> null" "sa < 2 ^ 64" "block sa (sockaddr_len c) \<inter> dom m = {}" "bytes_at m1 sa (sockaddr_bytes port c)"
    "dom m1 = dom m \<union> block sa (sockaddr_len c)" "\<And>a. a \<notin> block sa (sockaddr_len c) \<Longrightarrow> m1 a = m a" "finite (dom m1)"
    "card (dom m1) \<le> card (dom m) + sockaddr_len c" using b1 len card by auto
  note b2 = box_new_ok [OF P _ _ b1'(7) _ node, unfolded len(4)]
  have b2': "p \<noteq> null" "p < 2 ^ 64" "block p 48 \<inter> dom m1 = {}" "bytes_at m' p ?bs"
    "dom m' = dom m1 \<union> block p 48" "\<And>a. a \<notin> block p 48 \<Longrightarrow> m' a = m1 a" "card (dom m') \<le> card (dom m1) + 48" using b2 b1'(8) len card by auto
  have apart: "block p 48 \<inter> block sa (sockaddr_len c) = {}" using b2'(3) b1'(5) by auto
  have "bytes_at m' sa (sockaddr_bytes port c) = bytes_at m1 sa (sockaddr_bytes port c)"
    by (rule bytes_at_block) (use apart len b2'(6) in auto)
  then have "node_at (flags, socktype, protocol) port m' (p, sa, c) null" using b1'(4) b2'(4) by (simp add: node_at_def)
  moreover have "entry_ok (p, sa, c)" using b1' b2' apart c by (simp add: entry_ok_def ADDRINFO_SIZE_def)
  moreover have "card (dom m') \<le> card (dom m) + 76" using b1'(8) b2'(7) len(3) by simp
  ultimately show ?thesis using b1' b2' by (intro exI [of _ sa]) (auto simp: entry_block_def ADDRINFO_SIZE_def)
qed

lemma list_over_extend:
  assumes over: "list_over hint port m0 m es" and e: "entry_ok e" "node_at hint port m1 e null" "entry_block e \<inter> dom m = {}"
    "dom m1 = dom m \<union> entry_block e" "\<forall>a. a \<notin> entry_block e \<longrightarrow> m1 a = m a"
  shows "es = [] \<Longrightarrow> list_over hint port m0 m1 [e]"
    "es = xs @ [(p, sa, c)] \<Longrightarrow> list_over hint port m0 (store_bytes m1 (p + 40) (le_bytes 8 (fst e))) (es @ [e]) \<and>
      write_block m1 (p + 40) (le_bytes 8 (fst e)) = Some (store_bytes m1 (p + 40) (le_bytes 8 (fst e)))"
proof -
  note o = over [unfolded list_over_def]
  have sep: "blocks es \<inter> entry_block e = {}" using e(3) o by auto
  show "list_over hint port m0 m1 [e]" if "es = []"
    using that o e by (auto simp: list_over_def)
  show "list_over hint port m0 (store_bytes m1 (p + 40) (le_bytes 8 (fst e))) (es @ [e]) \<and>
      write_block m1 (p + 40) (le_bytes 8 (fst e)) = Some (store_bytes m1 (p + 40) (le_bytes 8 (fst e)))"
    if es: "es = xs @ [(p, sa, c)]"
  proof -
    let ?m = "store_bytes m1 (p + 40) (le_bytes 8 (fst e))"
    have link: "block (p + 40) 8 \<subseteq> entry_block (p, sa, c)" by (auto simp: entry_block_def block_def ADDRINFO_SIZE_def)
    have last: "entry_block (p, sa, c) \<subseteq> blocks es" by (auto simp: es)
    have inside: "block (p + 40) 8 \<subseteq> dom m1" using link last o e(4) by auto
    have "nodes_at hint port m1 es = nodes_at hint port m es"
      by (rule nodes_at_cong) (use o e(5) sep in auto)
    then have nodes: "nodes_at hint port m1 (xs @ [(p, sa, c)])" using o es by simp
    have apart: "apart (es @ [e])" using o e(1) sep by (simp add: apart_snoc)
    then have "nodes_at hint port ?m (es @ [e])"
      using nodes_at_extend [OF nodes e(2)] es by simp
    moreover have "dom ?m = dom m0 \<union> blocks (es @ [e])" using o e(4) inside by (auto simp: dom_store_bytes)
    moreover have "?m a = m0 a" if "a \<notin> blocks (es @ [e])" for a
    proof -
      have "a \<notin> block (p + 40) (length (le_bytes 8 (fst e)))" using that link last by auto
      then have "?m a = m1 a" by (rule store_bytes_outside)
      then show ?thesis using that o e(5) by simp
    qed
    moreover have "blocks (es @ [e]) \<inter> dom m0 = {}" using o e(3) by auto
    ultimately have "list_over hint port m0 ?m (es @ [e])" using apart by (simp add: list_over_def)
    moreover have "mapped m1 (p + 40) (length (le_bytes 8 (fst e)))" using block_mapped [OF inside] by simp
    ultimately show ?thesis using write_block_mapped by blast
  qed
qed

text \<open>The loop, from a list that is there.\<close>

lemma link_nodes_list:
  assumes P: "boxes_ok P"
  shows "list_over (flags, socktype, protocol) port m0 m es \<Longrightarrow> finite (dom m) \<Longrightarrow> card (dom m) + 76 * length cs < MEMORY_LIMIT \<Longrightarrow>
    \<forall>c\<in>set cs. candidate_ok c \<Longrightarrow> tail = (if es = [] then null else fst (last es)) \<Longrightarrow>
    \<exists>m' es'. link_nodes P port flags socktype protocol cs (first_node es) tail m = Some (first_node (es @ es'), m') \<and>
      map (\<lambda>e. snd (snd e)) es' = cs \<and> list_over (flags, socktype, protocol) port m0 m' (es @ es')"
proof (induction cs arbitrary: m es tail)
  case Nil
  then show ?case by (intro exI [of _ m] exI [of _ "[]"]) simp
next
  case (Cons c cs)
  let ?hint = "(flags, socktype, protocol)"
  obtain p m1 where run: "allocate_addrinfo_node P c port flags socktype protocol m = (p, m1)" by force
  have "card (dom m) + 76 < MEMORY_LIMIT" "candidate_ok c" using Cons.prems(3,4) by simp_all
  then obtain sa where e: "entry_ok (p, sa, c)" "node_at ?hint port m1 (p, sa, c) null" "entry_block (p, sa, c) \<inter> dom m = {}"
    "dom m1 = dom m \<union> entry_block (p, sa, c)" "\<forall>a. a \<notin> entry_block (p, sa, c) \<longrightarrow> m1 a = m a" "card (dom m1) \<le> card (dom m) + 76"
    using allocate_ok [OF P Cons.prems(2) _ _ run] by blast
  have fin: "finite (dom m1)" using e(4) Cons.prems(2) by (simp add: entry_block_def block_card)
  note extend = list_over_extend [OF Cons.prems(1) e(1-5)]
  show ?case
  proof (cases es rule: rev_cases)
    case Nil
    have "list_over ?hint port m0 m1 [(p, sa, c)]" using extend(1) Nil by simp
    moreover have "card (dom m1) + 76 * length cs < MEMORY_LIMIT" using Cons.prems(3) e(6) by simp
    ultimately obtain m' es' where ih: "link_nodes P port flags socktype protocol cs (first_node [(p, sa, c)]) p m1 = Some (first_node ([(p, sa, c)] @ es'), m')"
      "map (\<lambda>e. snd (snd e)) es' = cs" "list_over ?hint port m0 m' ([(p, sa, c)] @ es')"
      using Cons.IH [of m1 "[(p, sa, c)]" p] fin Cons.prems(4) by auto
    show ?thesis using ih run Nil Cons.prems(5) by (intro exI [of _ m'] exI [of _ "(p, sa, c) # es'"]) auto
  next
    case (snoc xs x)
    obtain q sq d where x: "x = (q, sq, d)" by (cases x)
    let ?m = "store_bytes m1 (q + 40) (le_bytes 8 p)"
    have over: "list_over ?hint port m0 ?m (es @ [(p, sa, c)])" and wr: "write_block m1 (q + 40) (le_bytes 8 p) = Some ?m"
      using extend(2) [of xs q sq d] snoc x by auto
    have doms: "dom ?m = dom m1" using over e(4) Cons.prems(1) by (auto simp: list_over_def)
    have card: "card (dom ?m) + 76 * length cs < MEMORY_LIMIT" unfolding doms using Cons.prems(3) e(6) by simp
    have finm: "finite (dom ?m)" unfolding doms by (rule fin)
    obtain m' es' where ih: "link_nodes P port flags socktype protocol cs (first_node (es @ [(p, sa, c)])) p ?m = Some (first_node ((es @ [(p, sa, c)]) @ es'), m')"
      "map (\<lambda>e. snd (snd e)) es' = cs" "list_over ?hint port m0 m' ((es @ [(p, sa, c)]) @ es')"
      using Cons.IH [OF over finm card, of p] Cons.prems(4) by auto
    have "first_node es \<noteq> null"
    proof -
      have "apart es" "es \<noteq> []" using Cons.prems(1) snoc by (auto simp: list_over_def)
      then show ?thesis by (cases es) (auto simp: entry_ok_def)
    qed
    moreover have "tail = q" using Cons.prems(5) snoc x by simp
    moreover have nonempty: "es \<noteq> []" using snoc by simp
    moreover have "first_node (es @ [(p, sa, c)]) = first_node es" by (rule first_node_simps(3) [OF nonempty])
    ultimately show ?thesis using ih run wr by (intro exI [of _ m'] exI [of _ "(p, sa, c) # es'"]) simp
  qed
qed

section \<open>Freeing\<close>

lemma dealloc_mapped: "block p n \<subseteq> dom m \<Longrightarrow> dealloc p n m = Some (\<lambda>a. if a \<in> block p n then None else m a)"
proof -
  assume "block p n \<subseteq> dom m"
  then have "read_block m p n \<noteq> None" by (intro read_block_mapped block_mapped)
  then show ?thesis by (auto simp: dealloc_def block_def fun_eq_iff)
qed

lemma read_node_fields:
  assumes "node_at hint port m (p, sa, c) next" "sa < 2 ^ 64" "next < 2 ^ 64"
  shows "read_u32 m (p + 4) = Some (candidate_family c)" "read_u64 m (p + 24) = Some (word_of_nat sa)" "read_u64 m (p + 40) = Some (word_of_nat next)"
proof -
  obtain flags socktype protocol where hint: "hint = (flags, socktype, protocol)" by (cases hint)
  have at: "bytes_at m p (addrinfo_bytes (entry_info hint (p, sa, c) next))" using assms(1) by (simp add: node_at_def)
  have "bytes_at m (p + 4) (le_bytes 4 (unat (candidate_family c)))" "bytes_at m (p + 24) (le_bytes 8 sa)" "bytes_at m (p + 40) (le_bytes 8 next)"
    using at by (simp_all add: addrinfo_bytes_def addrinfo_head_def entry_info_def hint add.assoc)
  then have blocks: "read_block m (p + 4) 4 = Some (le_bytes 4 (unat (candidate_family c)))" "read_block m (p + 24) 8 = Some (le_bytes 8 sa)"
    "read_block m (p + 40) 8 = Some (le_bytes 8 next)" by (simp_all add: read_block_bytes_at)
  have "unat (candidate_family c) < 256 ^ 4" using unsigned_less [of "candidate_family c"] by simp
  then show "read_u32 m (p + 4) = Some (candidate_family c)"
    using blocks(1) by (simp only: read_u32_def option.map le_val_le_bytes mod_less of_nat_unat) simp
  show "read_u64 m (p + 24) = Some (word_of_nat sa)" "read_u64 m (p + 40) = Some (word_of_nat next)"
    using blocks assms(2,3) by (simp_all add: read_u64_def le_val_le_bytes)
qed

lemma unat_of_nat_64: "a < 2 ^ 64 \<Longrightarrow> unat (word_of_nat a :: 64 word) = a"
  by (simp add: unat_of_nat)

lemma free_node_ok:
  assumes node: "node_at hint port m e next" and e: "entry_ok e" "next < 2 ^ 64"
  shows "free_node (fst e) m = Some (\<lambda>a. if a \<in> entry_block e then None else m a)"
proof -
  obtain p sa c where ee: "e = (p, sa, c)" by (cases e)
  have sa: "sa \<noteq> null" "sa < 2 ^ 64" and sep: "block p ADDRINFO_SIZE \<inter> block sa (sockaddr_len c) = {}" using e by (auto simp: entry_ok_def ee)
  note fields = read_node_fields [OF node [unfolded ee] sa(2) e(2)]
  have mapped: "block p ADDRINFO_SIZE \<subseteq> dom m" "block sa (sockaddr_len c) \<subseteq> dom m"
    using entry_block_mapped [OF e(1) node] by (auto simp: ee entry_block_def)
  let ?m = "\<lambda>a. if a \<in> block sa (sockaddr_len c) then None else m a"
  have "free_node p m = dealloc p ADDRINFO_SIZE ?m"
    using fields(1,2) sa dealloc_mapped [OF mapped(2)]
    by (cases c) (simp_all add: free_node_def unat_of_nat_64 AF_INET_def AF_INET6_def)
  also have "\<dots> = Some (\<lambda>a. if a \<in> block p ADDRINFO_SIZE then None else ?m a)"
    by (rule dealloc_mapped) (use mapped(1) sep in auto)
  also have "(\<lambda>a. if a \<in> block p ADDRINFO_SIZE then None else ?m a) = (\<lambda>a. if a \<in> entry_block e then None else m a)"
    by (auto simp: entry_block_def ee)
  finally show ?thesis by (simp add: ee)
qed

lemma first_node_bound: "apart es \<Longrightarrow> first_node es < 2 ^ 64"
  by (cases es) (auto simp: entry_ok_def)

lemma freeaddrinfo_list: "list_over hint port m0 m es \<Longrightarrow> freeaddrinfo (first_node es) m = Some m0"
proof (induction es arbitrary: m)
  case Nil
  then have "m = m0" by (auto simp: list_over_def fun_eq_iff)
  then show ?case by (simp add: freeaddrinfo.simps)
next
  case (Cons e es)
  note o = Cons.prems [unfolded list_over_def]
  have ok: "entry_ok e" "node_at hint port m e (first_node es)" "first_node es < 2 ^ 64" using o first_node_bound by auto
  let ?m = "\<lambda>a. if a \<in> entry_block e then None else m a"
  have free: "free_node (fst e) m = Some ?m" using free_node_ok [OF ok(2,1,3)] .
  have "read_u64 m (fst e + 40) = Some (word_of_nat (first_node es))"
    using read_node_fields(3) ok by (cases e) (fastforce simp: entry_ok_def)
  moreover have "fst e \<noteq> null" using ok(1) by (cases e) (simp add: entry_ok_def)
  moreover have "list_over hint port m0 ?m es"
  proof -
    have "nodes_at hint port ?m es = nodes_at hint port m es" by (rule nodes_at_cong) (use o in auto)
    moreover have "dom ?m = dom m - entry_block e" by (auto split: if_splits)
    then have "dom ?m = dom m0 \<union> blocks es" using o by auto
    moreover have "?m a = m0 a" if "a \<notin> blocks es" for a
    proof (cases "a \<in> entry_block e")
      case True
      then have "a \<notin> dom m0" using o by auto
      then show ?thesis using True by (auto simp: domIff)
    qed (use o that in simp)
    ultimately show ?thesis using o by (auto simp: list_over_def)
  qed
  ultimately show ?case using Cons.IH free ok(3) by (simp add: freeaddrinfo.simps [of "fst e"] unat_of_nat_64)
qed

end
