(* ===== verification/Net_Info.thy ===== *)
theory Net_Info
  imports Net_List
begin

text \<open>
  \<^verbatim>\<open>getaddrinfo\<close>, \<^verbatim>\<open>freeaddrinfo\<close> and \<^verbatim>\<open>getnameinfo\<close> as a whole.
\<close>

section \<open>Answers are well formed\<close>

definition answer_ok :: "AddressCandidate list \<Rightarrow> bool" where
  "answer_ok cs \<longleftrightarrow> cs \<noteq> [] \<and> distinct cs \<and> (\<forall>c\<in>set cs. candidate_ok c)"

definition eai_error :: "c_int \<Rightarrow> bool" where
  "eai_error e \<longleftrightarrow> e \<in> {EAI_BADFLAGS, EAI_NONAME, EAI_FAMILY, EAI_SOCKTYPE, EAI_SERVICE}"

lemma eai_error_simps [simp]: "eai_error EAI_BADFLAGS" "eai_error EAI_NONAME" "eai_error EAI_FAMILY" "eai_error EAI_SOCKTYPE" "eai_error EAI_SERVICE"
  by (simp_all add: eai_error_def)

lemma eai_error_nonzero: "eai_error e \<Longrightarrow> e \<noteq> 0"
  by (auto simp: eai_error_def eai_defs)

definition outcome_ok :: "('a \<Rightarrow> bool) \<Rightarrow> c_int + 'a \<Rightarrow> bool" where
  "outcome_ok ok r = (case r of Inl e \<Rightarrow> eai_error e | Inr x \<Rightarrow> ok x)"

lemma outcome_ok_simps [simp]: "outcome_ok ok (Inl e) = eai_error e" "outcome_ok ok (Inr x) = ok x"
  by (simp_all add: outcome_ok_def)

lemma loopback_ok: "\<forall>c\<in>set (loopbacks family). candidate_ok c"
  by (auto simp: loopbacks_def INADDR_LOOPBACK_BYTES_def IN6ADDR_LOOPBACK_BYTES_def)

lemma listed_ok: "\<forall>c\<in>set (listed_addresses P name family). candidate_ok c"
  using parse_numeric_ok
  by (auto simp: listed_addresses_def firsts_props List.map_filter_def line_address_def split: option.splits list.splits if_splits)

lemma resolve_candidates_ok:
  assumes "\<And>c. node = Some c \<Longrightarrow> candidate_ok c"
  shows "outcome_ok answer_ok (resolve_candidates node family flags)"
  using assms
  by (auto simp: resolve_candidates_def answer_ok_def Let_def INADDR_ANY_BYTES_def INADDR_LOOPBACK_BYTES_def IN6ADDR_ANY_BYTES_def
      IN6ADDR_LOOPBACK_BYTES_def split: option.split AddressCandidate.split)

lemma hostname_ok: "family \<in> {AF_UNSPEC, AF_INET, AF_INET6} \<Longrightarrow> outcome_ok answer_ok (resolve_hostname_candidates P name family)"
proof -
  assume family: "family \<in> {AF_UNSPEC, AF_INET, AF_INET6}"
  have "loopbacks family \<noteq> []" using family by (auto simp: loopbacks_def family_accepts_candidate_def af_defs)
  moreover have "distinct (loopbacks family)" by (simp add: loopbacks_def)
  ultimately show ?thesis
    using listed_props [of P name family] loopback_ok [of family] listed_ok [of P name family]
    by (auto simp: hostname_candidates [OF family] answer_ok_def Let_def)
qed

lemma node_ok:
  assumes family: "family \<in> {AF_UNSPEC, AF_INET, AF_INET6}" and run: "resolve_node_candidates P m node family flags = Some r"
  shows "outcome_ok answer_ok r"
proof (cases "node = null")
  case True
  then show ?thesis using run resolve_candidates_ok [of None family flags] by (simp add: resolve_node_candidates_def)
next
  case False
  then obtain raw where raw: "cstr_bytes m node = Some raw" using run by (auto simp: resolve_node_candidates_def bind_eq_Some_conv)
  show ?thesis
  proof (cases "from_utf8 raw")
    case (Some name)
    show ?thesis
    proof (cases "parse_numeric_host_text name")
      case None
      then show ?thesis using run False raw Some hostname_ok [OF family, of P name]
        by (auto simp: resolve_node_candidates_def split: if_splits)
    next
      case numeric: (Some c)
      then show ?thesis using run False raw Some parse_numeric_ok [OF numeric] resolve_candidates_ok [of "Some c" family flags]
        by (auto simp: resolve_node_candidates_def split: if_splits)
    qed
  qed (use run False raw in \<open>auto simp: resolve_node_candidates_def\<close>)
qed

lemma service_digits_ok: "v \<le> U16_MAX \<Longrightarrow> outcome_ok (\<lambda>port. port \<le> U16_MAX) (service_digits_loop v bs)"
  by (induction bs arbitrary: v) auto

lemma from_str_radix_limit: "0 < radix \<Longrightarrow> from_str_radix limit radix s = Some v \<Longrightarrow> v \<le> limit"
  using radix_loop_value [of radix 0 limit] by (auto simp: from_str_radix_def Let_def split: if_splits)

lemma services_limit: "services_loop name proto ls = Some port \<Longrightarrow> port \<le> U16_MAX"
  using from_str_radix_limit [of 10 U16_MAX]
  by (induction ls) (auto simp: Let_def split: list.splits option.splits if_splits)

lemma service_name_limit: "resolve_service_name P name proto = Some port \<Longrightarrow> port \<le> U16_MAX"
  using services_limit
  by (auto simp: resolve_service_name_def resolve_service_name_from_services_file_def resolve_service_name_from_services_text_def
      resolve_service_name_from_builtin_def Let_def U16_MAX_def bind_eq_Some_conv split: option.splits if_splits)

lemma numeric_service_ok: "parse_numeric_service m service = Some r \<Longrightarrow> outcome_ok (\<lambda>port. port \<le> U16_MAX) r"
proof -
  have digits: "outcome_ok (\<lambda>port. port \<le> U16_MAX) (parse_numeric_service_digits bs)" for bs
    using service_digits_ok [of 0 bs] by (simp add: parse_numeric_service_digits_def)
  show "parse_numeric_service m service = Some r \<Longrightarrow> outcome_ok (\<lambda>port. port \<le> U16_MAX) r"
    using digits by (auto simp: parse_numeric_service_def Let_def bind_eq_Some_conv split: if_splits)
qed

lemma service_port_ok:
  assumes run: "parse_service_port P m service flags protocol = Some r"
  shows "outcome_ok (\<lambda>port. port \<le> U16_MAX) r"
proof (cases "service = null")
  case False
  then obtain n where n: "parse_numeric_service m service = Some n" using run by (auto simp: parse_service_port_def bind_eq_Some_conv)
  show ?thesis
  proof (cases n)
    case (Inl e)
    show ?thesis
    proof (cases "flags AND AI_NUMERICSERV \<noteq> 0")
      case names: False
      then obtain raw where "cstr_bytes m service = Some raw" using run False n Inl by (auto simp: parse_service_port_def bind_eq_Some_conv)
      then show ?thesis using run False n Inl names service_name_limit
        by (auto simp: parse_service_port_def split: option.splits)
    qed (use run False n Inl in \<open>auto simp: parse_service_port_def\<close>)
  next
    case (Inr port)
    then show ?thesis using run False n numeric_service_ok [OF n] by (simp add: parse_service_port_def)
  qed
qed (use run in \<open>auto simp: parse_service_port_def\<close>)

lemma service_error: "eai_error e \<Longrightarrow> eai_error (map_getaddrinfo_service_error service flags e)"
  by (simp add: map_getaddrinfo_service_error_def)

definition request_ok :: "c_int \<times> nat \<times> c_int \<times> c_int \<times> AddressCandidate list \<Rightarrow> bool" where
  "request_ok r \<longleftrightarrow> (case r of (flags, port, socktype, protocol, cs) \<Rightarrow>
     port \<le> U16_MAX \<and> (socktype, protocol) \<in> {(SOCK_STREAM, IPPROTO_TCP), (SOCK_DGRAM, IPPROTO_UDP)} \<and> answer_ok cs)"

lemma resolve_request_ok:
  assumes run: "resolve_request P node service hints m = Some r"
  shows "outcome_ok request_ok r"
proof (cases "node = null \<and> service = null")
  case False
  then obtain flags fh sh ph where hints: "read_hints m hints = Some (flags, fh, sh, ph)"
    using run by (auto simp: resolve_request_def bind_eq_Some_conv)
  show ?thesis
  proof (cases "flags AND NOT ALLOWED_AI_FLAGS \<noteq> 0 \<or> (\<exists>e. resolve_family fh = Inl e) \<or> (\<exists>e. resolve_socket_profile sh ph = Inl e)")
    case True
    then show ?thesis using run False hints
      by (auto simp: resolve_request_def resolve_family_def resolve_socket_profile_def split: if_splits)
  next
    case ok: False
    then obtain family st pr where f: "resolve_family fh = Inr family" "resolve_socket_profile sh ph = Inr (st, pr)"
      by (cases "resolve_family fh"; cases "resolve_socket_profile sh ph") auto
    have family: "family \<in> {AF_UNSPEC, AF_INET, AF_INET6}" using f(1) by (auto simp: resolve_family_def split: if_splits)
    have profile: "(st, pr) \<in> {(SOCK_STREAM, IPPROTO_TCP), (SOCK_DGRAM, IPPROTO_UDP)}"
      using f(2) by (auto simp: resolve_socket_profile_def split: if_splits)
    obtain sp where sp: "parse_service_port P m service flags pr = Some sp" "outcome_ok (\<lambda>port. port \<le> U16_MAX) sp"
      using run False hints ok f service_port_ok by (auto simp: resolve_request_def bind_eq_Some_conv)
    show ?thesis
    proof (cases sp)
      case (Inl e)
      then show ?thesis using run False hints ok f sp service_error by (auto simp: resolve_request_def)
    next
      case (Inr port)
      then obtain rc where rc: "resolve_node_candidates P m node family flags = Some rc"
        using run False hints ok f sp by (auto simp: resolve_request_def bind_eq_Some_conv)
      then have "outcome_ok answer_ok rc" using node_ok [OF family] by blast
      then show ?thesis using run False hints ok f sp Inr rc profile
        by (cases rc) (auto simp: resolve_request_def request_ok_def)
    qed
  qed
qed (use run in \<open>auto simp: resolve_request_def\<close>)

section \<open>Bytes of addresses and ports\<close>

lemma word_low_byte: "(word_of_nat (256 * x + unat (d :: u8)) :: u8) = d"
proof -
  have "(256 * x + unat d) mod 256 = unat d" by simp
  then show ?thesis by (subst word_unat_eq_iff) (simp add: unat_of_nat del: of_nat_add of_nat_mult)
qed

lemma ipv4_bytes_reversed: "length bs = 4 \<Longrightarrow> le_bytes 4 (u32_from_be_bytes bs) = rev bs"
proof -
  assume "length bs = 4"
  then obtain a b c d where bs: "bs = [a, b, c, d]" using list_of_4 by blast
  have step: "le_bytes (Suc n) (256 * v + unat (x :: u8)) = x # le_bytes n v" for n v x
    using word_low_byte [of v x] by (simp del: of_nat_add of_nat_mult)
  have "le_bytes (Suc (Suc (Suc (Suc 0)))) (256 * (256 * (256 * (256 * 0 + unat a) + unat b) + unat c) + unat d) = [d, c, b, a]"
    unfolding step by simp
  moreover have "Suc (Suc (Suc (Suc 0))) = 4" by simp
  ultimately show ?thesis by (simp only: bs u32_from_be_bytes_def foldl.simps rev.simps append.simps)
qed

lemma port_swapped: "port \<le> U16_MAX \<Longrightarrow> u16_to_be (u16_to_be port) = port" "port \<le> U16_MAX \<Longrightarrow> u16_to_be port < 65536"
proof -
  assume p: "port \<le> U16_MAX"
  then have small: "port div 256 < 256" "port mod 256 < 256" by (auto simp: U16_MAX_def)
  then have "u16_to_be port mod 256 = port div 256" "u16_to_be port div 256 = port mod 256" by (simp_all add: u16_to_be_def)
  then show "u16_to_be (u16_to_be port) = port" by (simp add: u16_to_be_def [of "u16_to_be port"])
  show "u16_to_be port < 65536" using small by (simp add: u16_to_be_def)
qed

lemma port_bytes: "port \<le> U16_MAX \<Longrightarrow> le_bytes 2 (u16_to_be port) = segment_bytes port"
proof -
  assume "port \<le> U16_MAX"
  then have "port div 256 < 256" by (simp add: U16_MAX_def)
  then have "u16_to_be port div 256 = port mod 256" "u16_to_be port mod 256 = port div 256" by (simp_all add: u16_to_be_def)
  moreover from this have "(word_of_nat (u16_to_be port) :: u8) = word_of_nat (port div 256)"
    by (subst word_unat_eq_iff) (simp add: unat_of_nat)
  ultimately have "le_bytes (Suc (Suc 0)) (u16_to_be port) = segment_bytes port" by (simp add: segment_bytes_def)
  then show ?thesis by (simp only: numeral_2_eq_2)
qed

section \<open>\<^verbatim>\<open>getaddrinfo\<close>\<close>

lemma store_bytes_twice: "length xs = length ys \<Longrightarrow> store_bytes (store_bytes m p xs) p ys = store_bytes m p ys"
proof
  fix a assume len: "length xs = length ys"
  show "store_bytes (store_bytes m p xs) p ys a = store_bytes m p ys a"
  proof (cases "a \<in> block p (length ys)")
    case True
    then obtain i where "a = p + i" "i < length ys" by (auto simp: block_def le_iff_add)
    then show ?thesis using bytes_at_nth [OF bytes_at_store_bytes] by metis
  next
    case False
    then show ?thesis using len by (simp add: store_bytes_outside)
  qed
qed

lemma list_over_store:
  assumes over: "list_over hint port m0 m es" and "block p (length bs) \<subseteq> dom m0"
  shows "list_over hint port (store_bytes m0 p bs) (store_bytes m p bs) es"
proof -
  note o = over [unfolded list_over_def]
  have sep: "blocks es \<inter> block p (length bs) = {}" using o assms(2) by auto
  have same: "store_bytes m p bs a = m a" if "a \<in> blocks es" for a using sep that by (intro store_bytes_outside) auto
  have "nodes_at hint port (store_bytes m p bs) es = nodes_at hint port m es" by (rule nodes_at_cong) (use o same in auto)
  moreover have "store_bytes m p bs a = store_bytes m0 p bs a" if "a \<notin> blocks es" for a
  proof (cases "a \<in> block p (length bs)")
    case True
    then obtain i where "a = p + i" "i < length bs" by (auto simp: block_def le_iff_add)
    then show ?thesis using bytes_at_nth [OF bytes_at_store_bytes] by metis
  next
    case False
    then show ?thesis using that o by (simp add: store_bytes_outside)
  qed
  moreover have "dom (store_bytes m p bs) = dom (store_bytes m0 p bs) \<union> blocks es" using o by (auto simp: dom_store_bytes)
  moreover have "blocks es \<inter> dom (store_bytes m0 p bs) = {}" using o sep by (auto simp: dom_store_bytes)
  ultimately show ?thesis using o by (simp add: list_over_def)
qed

lemma length_segment_bytes [simp]: "length (segment_bytes g) = 2"
  by (simp add: segment_bytes_def)

lemma sockaddr_parts:
  assumes "port \<le> U16_MAX"
  shows "length bs = 4 \<Longrightarrow> sockaddr_bytes port (Ipv4 bs) = le_bytes 2 (unat AF_INET) @ segment_bytes port @ rev bs @ replicate 8 0"
    "sockaddr_bytes port (Ipv6 bs) = le_bytes 2 (unat AF_INET6) @ segment_bytes port @ le_bytes 4 0 @ bs @ le_bytes 4 0"
  by (simp_all only: sockaddr_bytes.simps sockaddr_in_bytes_def sockaddr_in6_bytes_def port_bytes [OF assms] ipv4_bytes_reversed)

lemma sockaddr_contents:
  assumes "port \<le> U16_MAX" "candidate_ok c" "bytes_at m sa (sockaddr_bytes port c)"
  shows "bytes_at m (sa + 2) (segment_bytes port)" "c = Ipv4 bs \<Longrightarrow> bytes_at m (sa + 4) (rev bs)" "c = Ipv6 bs \<Longrightarrow> bytes_at m (sa + 8) bs"
proof -
  have "bytes_at m (sa + 2) (segment_bytes port) \<and> (\<forall>bs. c = Ipv4 bs \<longrightarrow> bytes_at m (sa + 4) (rev bs)) \<and>
      (\<forall>bs. c = Ipv6 bs \<longrightarrow> bytes_at m (sa + 8) bs)"
  proof (cases c)
    case (Ipv4 bs)
    then have "bytes_at m sa (le_bytes 2 (unat AF_INET) @ segment_bytes port @ rev bs @ replicate 8 0)"
      using assms sockaddr_parts(1) by simp
    then show ?thesis unfolding bytes_at_append length_le_bytes length_segment_bytes using Ipv4 by (simp add: add.assoc del: add_2_eq_Suc add_2_eq_Suc')
  next
    case (Ipv6 bs)
    then have "bytes_at m sa (le_bytes 2 (unat AF_INET6) @ segment_bytes port @ le_bytes 4 0 @ bs @ le_bytes 4 0)"
      using assms sockaddr_parts(2) by simp
    then show ?thesis unfolding bytes_at_append length_le_bytes length_segment_bytes using Ipv6 by (simp add: add.assoc del: add_2_eq_Suc add_2_eq_Suc')
  qed
  then show "bytes_at m (sa + 2) (segment_bytes port)" "c = Ipv4 bs \<Longrightarrow> bytes_at m (sa + 4) (rev bs)" "c = Ipv6 bs \<Longrightarrow> bytes_at m (sa + 8) bs"
    by blast+
qed

lemma nodes_at_member: "nodes_at hint port m es \<Longrightarrow> e \<in> set es \<Longrightarrow> \<exists>next. node_at hint port m e next"
  by (induction es) auto

lemma apart_member: "apart es \<Longrightarrow> e \<in> set es \<Longrightarrow> entry_ok e"
  by (induction es) auto

text \<open>What the socket address of an entry holds: the port with its high byte first, and the address.\<close>

definition address_stored :: "nat \<Rightarrow> mem \<Rightarrow> entry \<Rightarrow> bool" where
  "address_stored port m e = (case e of (p, sa, c) \<Rightarrow>
     bytes_at m (sa + 2) (segment_bytes port) \<and> (case c of Ipv4 bs \<Rightarrow> bytes_at m (sa + 4) (rev bs) | Ipv6 bs \<Rightarrow> bytes_at m (sa + 8) bs))"

lemma list_over_addresses: "list_over hint port m0 m es \<Longrightarrow> port \<le> U16_MAX \<Longrightarrow> list_all (address_stored port m) es"
proof -
  assume over: "list_over hint port m0 m es" and port: "port \<le> U16_MAX"
  have "address_stored port m e" if e_in: "e \<in> set es" for e
  proof -
    obtain p sa c where e: "e = (p, sa, c)" by (cases e)
    have "apart es" "nodes_at hint port m es" using over by (simp_all add: list_over_def)
    then obtain next' where node: "entry_ok e" "node_at hint port m e next'" using e_in apart_member nodes_at_member by blast
    then have c: "candidate_ok c" "bytes_at m sa (sockaddr_bytes port c)" by (simp_all add: entry_ok_def node_at_def e)
    show ?thesis using sockaddr_contents [OF port c] by (simp add: address_stored_def e split: AddressCandidate.split)
  qed
  then show ?thesis by (simp add: list_all_iff)
qed

text \<open>The addresses of an answer.\<close>

definition answers :: "c_int + c_int \<times> nat \<times> c_int \<times> c_int \<times> AddressCandidate list \<Rightarrow> AddressCandidate list" where
  "answers r = (case r of Inl _ \<Rightarrow> [] | Inr (_, _, _, _, cs) \<Rightarrow> cs)"

lemma getaddrinfo_runs:
  assumes P: "boxes_ok P" and res: "res \<noteq> null" "mapped m res 8" and m0: "m0 = store_bytes m res (le_bytes 8 null)"
    and request: "resolve_request P node service hints m0 = Some (Inr (flags, port, socktype, protocol, cs))"
    and mem: "finite (dom m)" "card (dom m) + 76 * length cs < MEMORY_LIMIT"
  shows "\<exists>m' es. getaddrinfo P node service hints res m = Some (0, m') \<and> map (\<lambda>e. snd (snd e)) es = cs \<and>
    bytes_at m' res (le_bytes 8 (first_node es)) \<and>
    list_over (flags, socktype, protocol) port (store_bytes m res (le_bytes 8 (first_node es))) m' es"
proof -
  have ok: "port \<le> U16_MAX" "answer_ok cs" using resolve_request_ok [OF request] by (auto simp: request_ok_def)
  have inside: "block res 8 \<subseteq> dom m" using res(2) by (auto simp: block_def mapped_def le_iff_add domIff)
  have dom0: "dom m0 = dom m" using inside by (auto simp: m0 dom_store_bytes)
  have clear: "write_block m res (le_bytes 8 null) = Some m0" using res(2) write_block_mapped by (simp add: m0)
  have "list_over (flags, socktype, protocol) port m0 m0 []" by (simp add: list_over_def)
  then obtain m1 es where link: "link_nodes P port flags socktype protocol cs null null m0 = Some (first_node es, m1)"
    "map (\<lambda>e. snd (snd e)) es = cs" "list_over (flags, socktype, protocol) port m0 m1 es"
    using link_nodes_list [OF P, of flags socktype protocol port m0 m0 "[]" cs null] mem ok(2) by (auto simp: dom0 answer_ok_def)
  have some: "es \<noteq> []" using link(2) ok(2) by (auto simp: answer_ok_def)
  have head: "first_node es \<noteq> null"
    using some link(3) by (cases es) (auto simp: list_over_def entry_ok_def)
  have "dom m1 = dom m0 \<union> blocks es" using link(3) by (simp add: list_over_def)
  then have "mapped m1 res 8" using inside dom0 by (intro block_mapped) auto
  then have "write_block m1 res (le_bytes 8 (first_node es)) = Some (store_bytes m1 res (le_bytes 8 (first_node es)))"
    by (intro write_block_mapped) simp
  then have run: "getaddrinfo P node service hints res m = Some (0, store_bytes m1 res (le_bytes 8 (first_node es)))"
    using res(1) clear request link(1) head by (simp add: getaddrinfo_def)
  have "list_over (flags, socktype, protocol) port (store_bytes m0 res (le_bytes 8 (first_node es))) (store_bytes m1 res (le_bytes 8 (first_node es))) es"
    by (rule list_over_store [OF link(3)]) (use inside dom0 in simp)
  moreover have "store_bytes m0 res (le_bytes 8 (first_node es)) = store_bytes m res (le_bytes 8 (first_node es))"
    unfolding m0 by (rule store_bytes_twice) simp
  ultimately show ?thesis using run link(2) bytes_at_store_bytes by metis
qed

end
