(* ===== verification/Net_Props.thy ===== *)
theory Net_Props
  imports Net_Info
begin

text \<open>
  The properties of name resolution: the list in memory, names that read back, and the addresses of a host name.
\<close>

section \<open>A host\<close>

text \<open>Boxes in the lowest free block of 64 bytes.\<close>

definition lowest_box :: "nat \<Rightarrow> mem \<Rightarrow> addr" where
  "lowest_box n m = 64 * (LEAST k. 0 < k \<and> block (64 * k) 64 \<inter> dom m = {})"

lemma free_block_exists:
  assumes "finite (dom m)" "card (dom m) < K"
  shows "\<exists>k. 0 < k \<and> k \<le> K \<and> block (64 * k) 64 \<inter> dom m = {}"
proof (rule ccontr)
  assume none: "\<not> ?thesis"
  have "\<exists>a. a \<in> block (64 * k) 64 \<inter> dom m" if "k \<in> {1..K}" for k
  proof -
    have "0 < k" "k \<le> K" using that by auto
    then show ?thesis using none by blast
  qed
  then have "\<forall>k\<in>{1..K}. \<exists>a. a \<in> block (64 * k) 64 \<inter> dom m" by blast
  then obtain f where f: "\<forall>k\<in>{1..K}. f k \<in> block (64 * k) 64 \<inter> dom m" by metis
  have "f k div 64 = k" if "k \<in> {1..K}" for k
  proof -
    have "64 * k \<le> f k" "f k < 64 * k + 64" using f that by (auto simp: block_def)
    then show ?thesis by simp
  qed
  then have "inj_on f {1..K}" by (metis inj_onI)
  then have "card {1..K} = card (f ` {1..K})" by (simp add: card_image)
  also have "\<dots> \<le> card (dom m)" using f by (intro card_mono [OF assms(1)]) auto
  finally show False using assms(2) by simp
qed

lemma lowest_box_ok:
  assumes "finite (dom m)" "card (dom m) < MEMORY_LIMIT"
  shows "lowest_box n m \<noteq> null" "lowest_box n m + 64 \<le> 2 ^ 64" "block (lowest_box n m) 64 \<inter> dom m = {}"
proof -
  let ?Q = "\<lambda>k. 0 < k \<and> block (64 * k) 64 \<inter> dom m = {}"
  obtain k where k: "?Q k" "k \<le> MEMORY_LIMIT" using free_block_exists [OF assms] by blast
  have least: "?Q (Least ?Q)" by (rule LeastI) (rule k(1))
  have "Least ?Q \<le> MEMORY_LIMIT" using Least_le [of ?Q, OF k(1)] k(2) by simp
  then show "lowest_box n m + 64 \<le> 2 ^ 64" by (simp add: lowest_box_def MEMORY_LIMIT_def)
  show "lowest_box n m \<noteq> null" "block (lowest_box n m) 64 \<inter> dom m = {}" using least by (simp_all add: lowest_box_def)
qed

text \<open>A host file with one line.\<close>

definition small_net :: net_platform where
  "small_net = \<lparr>hosts_text = Some (str_of ''10.0.0.7 my''), services_text = None, box_addr = lowest_box\<rparr>"

lemma small_net_boxes: "boxes_ok small_net"
proof -
  have "block p n \<subseteq> block p 64" if "n \<le> 64" for p n using that by (auto simp: block_def)
  then have "box_addr small_net n m \<noteq> null \<and> box_addr small_net n m + n \<le> 2 ^ 64 \<and> block (box_addr small_net n m) n \<inter> dom m = {}"
    if "n \<le> 64" "finite (dom m)" "card (dom m) < MEMORY_LIMIT" for n m
    using lowest_box_ok [OF that(2,3), of n] that(1) by (fastforce simp: small_net_def)
  then show ?thesis by (simp add: boxes_ok_def)
qed

section \<open>The list in memory\<close>


text \<open>The name \<^verbatim>\<open>my\<close> at 8 and room for the result at 16.\<close>

definition my_memory :: mem where
  "my_memory = [8 \<mapsto> 109, 9 \<mapsto> 121, 10 \<mapsto> 0, 16 \<mapsto> 7, 17 \<mapsto> 7, 18 \<mapsto> 7, 19 \<mapsto> 7, 20 \<mapsto> 7, 21 \<mapsto> 7, 22 \<mapsto> 7, 23 \<mapsto> 7]"

definition my_request :: "c_int + c_int \<times> nat \<times> c_int \<times> c_int \<times> AddressCandidate list" where
  "my_request = Inr (0, 0, SOCK_STREAM, IPPROTO_TCP, [Ipv4 [10, 0, 0, 7]])"

lemma my_text: "str_of ''my'' = [109, 121]"
  by (simp add: str_of_def)

lemma no_digits: "to_digit 10 109 = None" "to_digit 16 109 = None" "109 \<noteq> COLON" "109 \<noteq> DOT_CHAR" "121 \<noteq> DOT_CHAR"
  by (simp_all add: to_digit_def COLON_def DOT_CHAR_def)

lemma my_name: "from_utf8 [109, 121] = Some (str_of ''my'')" "parse_numeric_host_text (str_of ''my'') = None" "is_localhost_name (str_of ''my'') = False"
proof -
  show "from_utf8 [109, 121] = Some (str_of ''my'')" by code_simp
  show "is_localhost_name (str_of ''my'') = False" by code_simp
  have octet: "read_octet [109, 121] = None" and group: "read_number 16 4 True 65535 [109, 121] = None"
    by (simp_all add: read_octet_def read_number_def is_digit_def no_digits)
  then have v4: "read_ipv4_addr [109, 121] = None" by (simp add: read_ipv4_addr_def)
  have "read_groups k 0 [109, 121] = ([], False, [109, 121])" for k by (cases k) (simp_all add: read_separator_def v4 group)
  then have "ipv6_from_str [109, 121] = None" by (simp add: ipv6_from_str_def read_ipv6_addr_def read_char_def no_digits)
  moreover have "ipv4_from_str [109, 121] = None" by (simp add: ipv4_from_str_def v4)
  moreover have "parse_ipv4_legacy_component [109, 121] = None"
    by (simp add: parse_ipv4_legacy_component_def strip_prefix_def str_of_def from_str_radix_def no_digits)
  then have "parse_ipv4_legacy_text [109, 121] = None" by (simp add: parse_ipv4_legacy_text_def no_digits)
  ultimately show "parse_numeric_host_text (str_of ''my'') = None" by (simp add: parse_numeric_host_text_def my_text)
qed

lemma my_address: "parse_numeric_host_text (str_of ''10.0.0.7'') = Some (Ipv4 [10, 0, 0, 7])"
proof -
  have digits: "radix_text 10 10 = [49, 48]" "radix_text 10 0 = [48]" "radix_text 10 7 = [55]" by (simp_all add: radix_text.simps digit_char_def)
  have "str_of ''10.0.0.7'' = ipv4_to_string [10, 0, 0, 7]" by (simp add: str_of_def ipv4_to_string_def digits DOT_CHAR_def)
  then show ?thesis using ipv4_roundtrip [of "[10, 0, 0, 7]"] by (simp add: parse_numeric_host_text_def)
qed

lemma my_listed: "listed_addresses small_net (str_of ''my'') AF_UNSPEC = [Ipv4 [10, 0, 0, 7]]"
proof -
  have "str_lines (str_of ''10.0.0.7 my'') = [str_of ''10.0.0.7 my'']" "normalize_hostname (str_of ''my'') = str_of ''my''"
    "line_columns (str_of ''10.0.0.7 my'') = [str_of ''10.0.0.7'', str_of ''my'']" "str_of ''my'' \<noteq> []"
    "eq_ignore_ascii_case (str_of ''my'') (str_of ''my'')" by code_simp+
  then show ?thesis using my_address
    by (simp add: listed_addresses_def small_net_def line_address_def List.map_filter_def family_accepts_candidate_def firsts_def)
qed

lemma my_resolved:
  assumes "m = store_bytes my_memory 16 (le_bytes 8 null)"
  shows "resolve_request small_net 8 null null m = Some my_request"
proof -
  have "cstr m 8 [109, 121]" unfolding assms by (simp add: store_bytes_other my_memory_def)
  then have "cstr_bytes m 8 = Some [109, 121]" by (rule cstr_bytes_cstr)
  then have "resolve_node_candidates small_net m 8 AF_UNSPEC 0 = Some (Inr [Ipv4 [10, 0, 0, 7]])"
    using hostname_candidates [of AF_UNSPEC small_net "str_of ''my''"]
    by (simp add: resolve_node_candidates_def my_name my_listed) (simp add: str_of_def)
  then show ?thesis
    by (simp add: resolve_request_def read_hints_def resolve_family_def resolve_socket_profile_def parse_service_port_def my_request_def)
qed


section \<open>Names that read back\<close>

lemma read_sockaddr:
  assumes "port \<le> U16_MAX" "candidate_ok c" "bytes_at m sa (sockaddr_bytes port c)"
  shows "read_block m sa 2 = Some (le_bytes 2 (unat (candidate_family c)))"
    "read_block m sa (sockaddr_len c) = Some (sockaddr_bytes port c)"
proof -
  have "bytes_at m sa (le_bytes 2 (unat (candidate_family c)))"
    using assms(3) by (cases c) (simp_all add: sockaddr_in_bytes_def sockaddr_in6_bytes_def)
  then show "read_block m sa 2 = Some (le_bytes 2 (unat (candidate_family c)))" by (simp add: read_block_bytes_at)
  show "read_block m sa (sockaddr_len c) = Some (sockaddr_bytes port c)"
    using assms(2,3) by (simp add: read_block_bytes_at length_sockaddr_bytes)
qed

lemma u32_bytes_back: "length bs = 4 \<Longrightarrow> u32_to_be_bytes (le_val (le_bytes 4 (u32_from_be_bytes bs))) = bs"
proof -
  assume bs: "length bs = 4"
  have again: "le_bytes n (le_val (le_bytes n v)) = le_bytes n v" for n v
  proof (induction n arbitrary: v)
    case (Suc n)
    have small: "unat (word_of_nat v :: u8) < 256" by (rule unat_u8_less)
    have "(unat (word_of_nat v :: u8) + 256 * le_val (le_bytes n (v div 256))) div 256 = le_val (le_bytes n (v div 256))"
      using small by simp
    moreover have "word_of_nat (unat (word_of_nat v :: u8) + 256 * le_val (le_bytes n (v div 256))) = (word_of_nat v :: u8)"
      using word_low_byte [of "le_val (le_bytes n (v div 256))" "word_of_nat v"] by (simp only: add.commute)
    ultimately show ?case using Suc by (simp del: of_nat_add of_nat_mult)
  qed simp
  show ?thesis unfolding u32_to_be_bytes_def again by (simp only: ipv4_bytes_reversed [OF bs] rev_rev_ident)
qed

lemma port_back: "port \<le> U16_MAX \<Longrightarrow> format_numeric_service (le_val (le_bytes 2 (u16_to_be port))) = radix_text 10 port"
  using port_swapped [of port] by (simp add: format_numeric_service_def le_val_le_bytes)

lemma name_outputs_sockaddr:
  assumes port: "port \<le> U16_MAX" and c: "candidate_ok c" and at: "bytes_at m sa (sockaddr_bytes port c)" and len: "sockaddr_len c \<le> len"
    and flags: "\<not> should_reject_name_required_without_numeric_host flags"
  shows "name_outputs m sa len True True flags = Some (Inr (Some (candidate_text c), Some (radix_text 10 port)))"
proof -
  note rd = read_sockaddr [OF port c at]
  have family: "le_val (le_bytes 2 (unat (candidate_family c))) = unat (candidate_family c)"
    by (cases c) (simp_all add: le_val_le_bytes AF_INET_def AF_INET6_def)
  show ?thesis
  proof (cases c)
    case (Ipv4 bs)
    have "take 4 (drop 4 (sockaddr_in_bytes bs port)) = le_bytes 4 (u32_from_be_bytes bs)" "take 2 (drop 2 (sockaddr_in_bytes bs port)) = le_bytes 2 (u16_to_be port)"
      by (simp_all add: sockaddr_in_bytes_def)
    then show ?thesis using Ipv4 rd family len flags c u32_bytes_back [of bs] port_back [OF port]
      by (simp add: name_outputs_def format_numeric_ipv4_def)
  next
    case (Ipv6 bs)
    have "take 16 (drop 8 (sockaddr_in6_bytes bs port)) = bs" "take 2 (drop 2 (sockaddr_in6_bytes bs port)) = le_bytes 2 (u16_to_be port)"
      using c Ipv6 by (simp_all add: sockaddr_in6_bytes_def)
    then show ?thesis using Ipv6 rd family len flags port_back [OF port]
      by (simp add: name_outputs_def format_numeric_ipv6_def AF_INET_def AF_INET6_def)
  qed
qed

lemma write_output_ok:
  assumes "buffer \<noteq> null" "mapped m buffer len" "length (utf8_bytes s) < len"
  shows "write_output buffer len (Some s) m = Some (True, store_bytes m buffer (utf8_bytes s @ [0]))"
proof -
  have "mapped m buffer (length (utf8_bytes s))" using assms(2,3) by (rule mapped_mono [OF _ less_imp_le])
  moreover have "m (buffer + length (utf8_bytes s)) \<noteq> None" using assms(2,3) by (auto simp: mapped_def)
  then obtain b where "store_bytes m buffer (utf8_bytes s) (buffer + length (utf8_bytes s)) = Some b"
    using store_bytes_dom by (metis not_None_eq)
  ultimately show ?thesis using assms(1,3)
    by (simp add: write_output_def write_output_string_def write_block_mapped write_u8_mapped store_bytes_append)
qed

lemma ascii_no_nul: "\<forall>c\<in>set s. 0 < c \<and> c < 128 \<Longrightarrow> 0 \<notin> set (utf8_bytes s)"
proof
  assume s: "\<forall>c\<in>set s. 0 < c \<and> c < 128" and "0 \<in> set (utf8_bytes s)"
  moreover from s have "utf8_bytes s = map word_of_int s" by (intro utf8_bytes_ascii) (auto intro: less_imp_le)
  ultimately obtain c where c: "c \<in> set s" "word_of_int c = (0 :: u8)" by auto
  then have "uint (word_of_int c :: u8) = c" using s by (intro uint_ascii) auto
  then show False using c s by auto
qed

lemma port_text_ascii: "\<forall>c\<in>set (radix_text 10 port). 0 < c \<and> c < 128"
  using radix_text_digits [of 10 port] ascii_digit [of 10] by auto

lemma printed_names_resolve:
  assumes port: "port \<le> U16_MAX" and c: "candidate_ok c" and host: "host \<noteq> null" "cstr m host (utf8_bytes (candidate_text c))"
    and serv: "serv \<noteq> null" "cstr m serv (utf8_bytes (radix_text 10 port))"
  shows "resolve_request P host serv null m = Some (Inr (0, port, SOCK_STREAM, IPPROTO_TCP, [c]))"
proof -
  obtain b bs where b: "utf8_bytes (radix_text 10 port) = b # bs" "\<not> is_ascii_whitespace b" "b \<noteq> 43"
    using service_text_reads_back(2) [OF port] by blast
  then have service: "parse_service_port P m serv 0 IPPROTO_TCP = Some (Inr port)"
    using cstr_bytes_cstr [OF serv(2)] serv(1) service_text_reads_back(1) [OF port]
    by (simp add: parse_service_port_def parse_numeric_service_def)
  have "\<forall>x\<in>set (candidate_text c). 0 \<le> x \<and> x < 128" using candidate_text_ascii [of c] by (simp add: less_imp_le)
  then have "from_utf8 (utf8_bytes (candidate_text c)) = Some (candidate_text c)" by (rule from_utf8_ascii)
  moreover have "candidate_text c \<noteq> []"
  proof (cases c)
    case (Ipv4 bs)
    then obtain w x y z where "bs = [w, x, y, z]" using c list_of_4 [of bs] by auto
    then show ?thesis using Ipv4 by (simp add: ipv4_to_string_def)
  next
    case (Ipv6 bs)
    then show ?thesis using c ipv6_text_colon [of bs] by auto
  qed
  ultimately have "resolve_node_candidates P m host AF_UNSPEC 0 = Some (Inr [c])"
    using cstr_bytes_cstr [OF host(2)] host(1) numeric_text_reads_back [OF c]
    by (cases c) (simp_all add: resolve_node_candidates_def resolve_candidates_def)
  then show ?thesis using service host(1)
    by (simp add: resolve_request_def read_hints_def resolve_family_def resolve_socket_profile_def)
qed


text \<open>\<^verbatim>\<open>127.0.0.1\<close> with port 80 at 8, and buffers of 16 bytes at 100 and 200.\<close>

definition sockaddr_memory :: mem where
  "sockaddr_memory = store_bytes (store_bytes (store_bytes Map.empty 8 (sockaddr_bytes 80 (Ipv4 [127, 0, 0, 1]))) 100 (replicate 16 0)) 200 (replicate 16 0)"


section \<open>The addresses of a host name\<close>

text \<open>
  C38. A name that is not a numeric address has the addresses of the lines of \<^verbatim>\<open>/etc/hosts\<close> that list it, in their order, those of the family asked for
  and each once, with letters of either case and dots at the end not told apart; without any the result is \<^verbatim>\<open>EAI_NONAME\<close>. \<^verbatim>\<open>localhost\<close> always has the
  loopback addresses of the family first, IPv6 before IPv4, and then the others that are listed.
\<close>

theorem hostname_addresses:
  assumes "family \<in> {AF_UNSPEC, AF_INET, AF_INET6}" "node \<noteq> null" "cstr_bytes m node = Some raw" "from_utf8 raw = Some name"
    "name \<noteq> []" "parse_numeric_host_text name = None" "flags AND AI_NUMERICHOST = 0"
  shows "resolve_node_candidates P m node family flags =
    Some (let listed = listed_addresses P name family in
          if is_localhost_name name then Inr (loopbacks family @ filter (\<lambda>c. c \<notin> set (loopbacks family)) listed)
          else if listed = [] then Inl EAI_NONAME else Inr listed)"
  using assms hostname_candidates [OF assms(1), of P name] by (simp add: resolve_node_candidates_def)

lemma hostname_addresses_witness:
  "resolve_node_candidates small_net my_memory 8 AF_UNSPEC 0 = Some (Inr [Ipv4 [10, 0, 0, 7]])"
proof -
  have "cstr my_memory 8 [109, 121]" by (simp add: my_memory_def)
  from hostname_addresses [OF _ _ cstr_bytes_cstr [OF this] my_name(1) _ my_name(2), of AF_UNSPEC 0 small_net]
  show ?thesis by (simp add: my_name(3) my_listed Let_def) (simp add: my_text)
qed

end
