(* ===== verification/Spec2Isabelle.thy ===== *)
theory Spec2Isabelle
  imports Ctype Memory Conv Atoi Utf8_Stream Wchar Calendar Strftime Rwlock Mutex_Live Thread_Registry Env Signals Process
    Glob Print_Parse Stream_Output Stream_Lock Allocator Dl_Scope Net_Props
begin

text \<open>
  A verification library for the C standard library \<^verbatim>\<open>rlibc\<close>, a Rust crate that exports the C ABI
  (\<^verbatim>\<open>src/src\<close>).

  \<^bold>\<open>Conventions.\<close> Rust integers are words of their width and wrap where the code wraps; \<^verbatim>\<open>usize\<close>
  counters that saturate are natural numbers with the saturation written out. Memory is a partial
  map from addresses to bytes; an operation is \<open>None\<close> where the program would touch memory that is
  not mapped, which the code's safety contracts exclude. \<^verbatim>\<open>errno\<close> is a field of the machine. Loops over
  memory are \<open>partial_function (option)\<close>, so that a theorem that names a result also states that the
  loop ends; no definition has fuel. Code outside \<^verbatim>\<open>src/\<close> (system calls, the host's
  pthread and loader functions, directory records and file metadata, the error callback of \<^verbatim>\<open>glob\<close>, the functions of the program that is started,
  which are taken to return) is an argument of the definitions that call it.

  \<^bold>\<open>Theories.\<close>
  \<^item> \<^verbatim>\<open>Prelude\<close>: memory, machine, C types, errno constants (\<^verbatim>\<open>abi/errno.rs\<close>, \<^verbatim>\<open>errno.rs\<close>), shared lemmas.
  \<^item> \<^verbatim>\<open>Ctype\<close> (\<^verbatim>\<open>ctype.rs\<close>): the character classes and mappings; their algebra on every argument.
  \<^item> \<^verbatim>\<open>Memory\<close> (\<^verbatim>\<open>memory/mod.rs\<close>, \<^verbatim>\<open>string/mod.rs\<close>): block operations byte by byte; they copy, fill,
    compare and measure what they should and nothing else, for overlapping blocks too.
  \<^item> \<^verbatim>\<open>Conv\<close>, \<^verbatim>\<open>Atoi\<close> (\<^verbatim>\<open>stdlib/conv.rs\<close>, \<^verbatim>\<open>stdlib/atoi.rs\<close>): the scanner of the \<^verbatim>\<open>strto\<close> family against the
    value of the numeral, with clamping, errno and end pointer.
  \<^item> \<^verbatim>\<open>Utf8\<close>, \<^verbatim>\<open>Codec\<close>, \<^verbatim>\<open>Utf8_Stream\<close>, \<^verbatim>\<open>Wchar\<close> (\<^verbatim>\<open>wchar/mod.rs\<close>): the decoder's state machine against the
    table of well-formed sequences, as an interpretation of a codec interface; the restartable and the string conversions refine it.
  \<^item> \<^verbatim>\<open>Calendar\<close>, \<^verbatim>\<open>Sink\<close>, \<^verbatim>\<open>Strftime\<close> (\<^verbatim>\<open>time.rs\<close>): day numbers against the recursive definition of the
    calendar, \<^verbatim>\<open>struct tm\<close> normalisation, clock identifiers, the formatter as a writer into a bounded buffer, an
    interpretation of the sink interface.
  \<^item> \<^verbatim>\<open>Threads\<close>, \<^verbatim>\<open>Rwlock\<close>, \<^verbatim>\<open>Mutex_Cond\<close>, \<^verbatim>\<open>Mutex_Inv\<close>, \<^verbatim>\<open>Mutex_Live\<close>, \<^verbatim>\<open>Thread_Registry\<close> (\<^verbatim>\<open>pthread.rs\<close>): each call is a
    sequence of critical sections, one per acquisition of a \<^verbatim>\<open>std::sync::Mutex\<close>; the threads
    interleave arbitrarily, condition variables wake spuriously, \<^verbatim>\<open>notify_one\<close> chooses any sleeper. Invariants
    are interpretations of \<^verbatim>\<open>Threads.invariant_system\<close>; they give counters that match the
    threads, the absence of lost wakeups, the restored lock depth after a wait, and the bookkeeping of
    joins and detaches.
  \<^item> \<^verbatim>\<open>Refine\<close>, \<^verbatim>\<open>Env\<close> (\<^verbatim>\<open>stdlib/env_core.rs\<close>, \<^verbatim>\<open>stdlib/env_mut.rs\<close>): the environment vector, its owned copy and the
    aliases of \<^verbatim>\<open>putenv\<close>, refining a map from names to values.
  \<^item> \<^verbatim>\<open>Signals\<close> (\<^verbatim>\<open>signal.rs\<close>): signal sets as sets of numbers, and the calls that hand them to the kernel.
  \<^item> \<^verbatim>\<open>Process\<close> (\<^verbatim>\<open>startup.rs\<close>, \<^verbatim>\<open>stdlib/process.rs\<close>): the initial stack, constructors, \<^verbatim>\<open>main\<close>, exit handlers and
    destructors, in their order.
  \<^item> \<^verbatim>\<open>Little_Endian\<close>, \<^verbatim>\<open>Dirent\<close> (\<^verbatim>\<open>dirent/mod.rs\<close>): directory streams over the records of the kernel.
  \<^item> \<^verbatim>\<open>Glob_Match\<close>, \<^verbatim>\<open>Glob\<close> (\<^verbatim>\<open>glob.rs\<close>): the pattern matcher against the language of its parsed pattern; the expansion of a
    path segment by segment over the directories of \<^verbatim>\<open>Dirent\<close>; \<^verbatim>\<open>glob_t\<close> under every combination of flags.
  \<^item> \<^verbatim>\<open>Printf_Format\<close>, \<^verbatim>\<open>Printf\<close>, \<^verbatim>\<open>Printf_Spec\<close>, \<^verbatim>\<open>Printf_Refine\<close> (\<^verbatim>\<open>stdio/mod.rs\<close>): \<^verbatim>\<open>vsnprintf\<close> over a \<^verbatim>\<open>va_list\<close> in memory,
    refining a specification that maps a format and argument values to a text. \<^verbatim>\<open>Printf_Newline\<close> compares
    the newline analysis of line-buffered streams with that text; \<^verbatim>\<open>Print_Parse\<close> reads printed numbers back with \<^verbatim>\<open>strtol\<close>.
  \<^item> \<^verbatim>\<open>Stream_Registry\<close>, \<^verbatim>\<open>Streams\<close>, \<^verbatim>\<open>Stream_Output\<close>, \<^verbatim>\<open>Stream_Lock\<close> (\<^verbatim>\<open>stdio/mod.rs\<close>): the registry of streams; the calls of one
    thread over the symbols of the host libc, the kernel's \<^verbatim>\<open>write\<close> and the allocator; formatted output up to the
    descriptor; and the locks of streams under interleaving, where \<^verbatim>\<open>notify_all\<close> is a step of its own.
  \<^item> \<^verbatim>\<open>Alloc\<close>, \<^verbatim>\<open>Alloc_Heap\<close>, \<^verbatim>\<open>Alloc_Release\<close>, \<^verbatim>\<open>Alloc_Spec\<close>, \<^verbatim>\<open>Alloc_Program\<close>, \<^verbatim>\<open>Allocator\<close> (\<^verbatim>\<open>stdlib/alloc.rs\<close>): one mapping per
    allocation, with records linked through memory and checked headers; allocation, release and resizing refine a map from addresses
    to blocks for every program that stores inside its blocks.
  \<^item> \<^verbatim>\<open>Rust_Text\<close>: Rust's strings and the parsing and printing of numbers, shared by the two components that follow.
  \<^item> \<^verbatim>\<open>Dl_Registry\<close>, \<^verbatim>\<open>Dl_Message\<close>, \<^verbatim>\<open>Dl_Symbols\<close>, \<^verbatim>\<open>Dlfcn\<close>, \<^verbatim>\<open>Dl_Loader\<close>, \<^verbatim>\<open>Dl_Scope\<close> (\<^verbatim>\<open>dlfcn.rs\<close>): handles with open counts, the
    messages of \<^verbatim>\<open>dlerror\<close>, the tables of the symbols the library resolves itself, and the four calls over the loader of the host;
    sequences of calls refine a specification of counts and pending messages, and \<^verbatim>\<open>dlsym\<close> searches in the order of its handle's kind.
  \<^item> \<^verbatim>\<open>Net_Addr\<close>, \<^verbatim>\<open>Netdb\<close>, \<^verbatim>\<open>Net_Resolve\<close>, \<^verbatim>\<open>Net_List\<close>, \<^verbatim>\<open>Net_Info\<close>, \<^verbatim>\<open>Net_Props\<close> (\<^verbatim>\<open>netdb.rs\<close>): numeric addresses of both families as
    text, the resolution of services and hosts, and the list of \<^verbatim>\<open>getaddrinfo\<close> in memory. The list is built in fresh boxes and freed completely, what
    \<^verbatim>\<open>getnameinfo\<close> prints resolves to the same address, and a host name has the addresses its file lists.

  \<^bold>\<open>Bounds.\<close> Threads are nonzero 64-bit numbers; this is why the counters of waiters do not saturate in a reachable state. The
  executions of \<^verbatim>\<open>Thread_Registry\<close> hand out fewer than \<open>2 ^ 64\<close> thread identities.
  A stream's lock is nested fewer than \<open>2 ^ 64\<close> times, and its state is removed by the thread that holds it or when nobody does.
  The text of \<^verbatim>\<open>vsnprintf\<close> is specified for widths and precisions that fit \<^verbatim>\<open>int\<close>, with the format, the arguments and the strings
  outside the buffer. The handles of the dynamic loader are counted below \<open>2 ^ 64\<close> calls, where the counts of the code would saturate.
  The boxes of \<^verbatim>\<open>getaddrinfo\<close> are put apart while fewer than \<open>2 ^ 47\<close> bytes are in use.

  \<^bold>\<open>Not modelled.\<close> Thread-local storage and the address of errno; the loader and the files of the host,
  which are parameters of the dynamic loader; panics that poison a Rust mutex (every lock recovers the inner value);
  the allocator's spin lock under interleaving; assembly (\<^verbatim>\<open>setjmp.rs\<close>, \<^verbatim>\<open>syscall/x86_64.rs\<close>, \<^verbatim>\<open>crt\<close>) and floating-point state and arithmetic
  (\<^verbatim>\<open>fenv.rs\<close>, \<^verbatim>\<open>math.rs\<close>); wrappers of one system call (\<^verbatim>\<open>fcntl.rs\<close>, \<^verbatim>\<open>fs\<close>, \<^verbatim>\<open>socket.rs\<close>, \<^verbatim>\<open>resource.rs\<close>, most of \<^verbatim>\<open>unistd.rs\<close>);
  what is read from the kernel (\<^verbatim>\<open>system.rs\<close>); \<^verbatim>\<open>locale.rs\<close>; the tools of \<^verbatim>\<open>bin\<close>.
\<close>

end
